(* ===== verification/Prelude.thy ===== *)
theory Prelude
  imports Main "HOL-Library.Word" "HOL-Library.Monad_Syntax"
begin

unbundle bit_operations_syntax

text \<open>
  The vocabulary shared by every component: the machine types of the Go source, little-endian
  encoding (package \<open>encoding/binary\<close>), writing into a byte slice, checked indexing (an
  out-of-range index is a panic, the value \<open>None\<close>), and lemmas on lists cut into blocks of one
  length, on positional (base 16) numbers and on words.  The collections \<open>go_bytes\<close> and
  \<open>go_lists\<close> carry the facts that byte-level proofs use.
\<close>

section \<open>Machine types\<close>

type_synonym byte = "8 word"
type_synonym bytes = "byte list"
type_synonym u16 = "16 word"
type_synonym u32 = "32 word"
type_synonym u64 = "64 word"
type_synonym i32 = "32 word" \<comment> \<open>an \<open>int32\<close>, read through \<^const>\<open>sint\<close>\<close>

named_theorems go_bytes \<open>lengths and round trips of byte encodings\<close>
named_theorems go_lists \<open>take, drop, write_at on lists cut into blocks\<close>

section \<open>Definitions\<close>

text \<open>\<open>binary.LittleEndian.PutUintN\<close> and \<open>UintN\<close>: the \<open>n\<close> low bytes of a word, least
  significant first, and their value.\<close>

definition put_le :: "nat \<Rightarrow> 'a::len word \<Rightarrow> bytes" where
  "put_le n w = map (\<lambda>i. ucast (drop_bit (8 * i) w)) [0..<n]"

primrec get_le :: "bytes \<Rightarrow> 'a::len word" where
  "get_le [] = 0"
| "get_le (b # bs) = ucast b OR push_bit 8 (get_le bs)"

text \<open>\<open>copy(buf[i:], xs)\<close> with room for all of \<open>xs\<close>; a slice \<open>xs[i:j]\<close>.\<close>

definition write_at :: "nat \<Rightarrow> 'a list \<Rightarrow> 'a list \<Rightarrow> 'a list" where
  "write_at i xs buf = take i buf @ xs @ drop (i + length xs) buf"

definition slice :: "nat \<Rightarrow> nat \<Rightarrow> 'a list \<Rightarrow> 'a list" where
  "slice i j xs = take (j - i) (drop i xs)"

text \<open>Indexing that panics out of range.\<close>

definition nth_opt :: "'a list \<Rightarrow> nat \<Rightarrow> 'a option" where
  "nth_opt xs i = (if i < length xs then Some (xs ! i) else None)"

definition upd_opt :: "'a list \<Rightarrow> nat \<Rightarrow> 'a \<Rightarrow> 'a list option" where
  "upd_opt xs i x = (if i < length xs then Some (xs[i := x]) else None)"

text \<open>\<open>sort.Search\<close>: the binary search of Go's library between \<open>i\<close> and \<open>j\<close>.\<close>

function sort_search :: "(nat \<Rightarrow> bool) \<Rightarrow> nat \<Rightarrow> nat \<Rightarrow> nat" where
  "sort_search f i j =
     (if i < j then
        let h = (i + j) div 2 in
        if f h then sort_search f i h else sort_search f (h + 1) j
      else i)"
  by pat_completeness auto
termination
  by (relation "measure (\<lambda>(f, i, j). j - i)") auto

declare sort_search.simps [simp del]

text \<open>Writing \<open>bs\<close> at a position of a file, past its end where needed.\<close>

definition write_file :: "nat \<Rightarrow> bytes \<Rightarrow> bytes \<Rightarrow> bytes" where
  "write_file pos bs f = take pos (f @ replicate (pos - length f) 0) @ bs @ drop (pos + length bs) f"

text \<open>The value of a list of hexadecimal digits, most significant first.\<close>

definition path_offset :: "nat list \<Rightarrow> nat" where
  "path_offset ps = foldl (\<lambda>off p. off * 16 + p) 0 ps"

section \<open>Slices and in-place writes\<close>

lemma length_write_at [simp, go_bytes]:
  "i + length xs \<le> length buf \<Longrightarrow> length (write_at i xs buf) = length buf"
  by (simp add: write_at_def)

lemma take_write_at [simp]:
  "k \<le> i \<Longrightarrow> i \<le> length buf \<Longrightarrow> take k (write_at i xs buf) = take k buf"
  by (simp add: write_at_def min_def)

lemma drop_write_at [simp]:
  "i + length xs \<le> k \<Longrightarrow> i + length xs \<le> length buf \<Longrightarrow>
   drop k (write_at i xs buf) = drop k buf"
proof -
  assume a: "i + length xs \<le> k" and b: "i + length xs \<le> length buf"
  have "drop k (write_at i xs buf) =
      drop (k - (i + length xs)) (drop (i + length xs) (write_at i xs buf))"
    using a by simp
  also have "drop (i + length xs) (write_at i xs buf) = drop (i + length xs) buf"
    using b by (simp add: write_at_def)
  finally show ?thesis using a by simp
qed

lemma drop_write_at_same [simp]:
  "i \<le> length buf \<Longrightarrow> drop i (write_at i xs buf) = xs @ drop (i + length xs) buf"
  by (simp add: write_at_def)

lemma write_at_append_right:
  "length xs \<le> i \<Longrightarrow> write_at i zs (xs @ ys) = xs @ write_at (i - length xs) zs ys"
  by (simp add: write_at_def)

lemma write_at_append_left:
  "i + length zs \<le> length xs \<Longrightarrow> write_at i zs (xs @ ys) = write_at i zs xs @ ys"
  by (simp add: write_at_def)

lemma write_at_all: "length xs = length buf \<Longrightarrow> write_at 0 xs buf = xs"
  by (simp add: write_at_def)

lemma slice_append_mid [simp]:
  "length xs = i \<Longrightarrow> i + length ys = j \<Longrightarrow> slice i j (xs @ ys @ zs) = ys"
  by (auto simp: slice_def)

lemma length_slice [simp]: "length (slice i j xs) = min (j - i) (length xs - i)"
  by (simp add: slice_def)

lemma nth_opt_Some [simp]: "i < length xs \<Longrightarrow> nth_opt xs i = Some (xs ! i)"
  by (simp add: nth_opt_def)

lemma upd_opt_Some [simp]: "i < length xs \<Longrightarrow> upd_opt xs i x = Some (xs[i := x])"
  by (simp add: upd_opt_def)

lemma sort_search_spec:
  assumes mono: "\<And>a b. a \<le> b \<Longrightarrow> b < n \<Longrightarrow> f a \<Longrightarrow> f b"
  shows "i \<le> j \<Longrightarrow> j \<le> n \<Longrightarrow> \<forall>a < i. \<not> f a \<Longrightarrow> \<forall>a. j \<le> a \<and> a < n \<longrightarrow> f a \<Longrightarrow>
    (\<forall>a < sort_search f i j. \<not> f a) \<and> (\<forall>a. sort_search f i j \<le> a \<and> a < n \<longrightarrow> f a) \<and> sort_search f i j \<le> j"
proof (induction "j - i" arbitrary: i j rule: less_induct)
  case less
  show ?case
  proof (cases "i < j")
    case True
    define h where "h = (i + j) div 2"
    have h: "i \<le> h" "h < j" "h < n" using True less.prems(2) by (auto simp: h_def)
    have step: "sort_search f i j = (if f h then sort_search f i h else sort_search f (h + 1) j)"
      using True by (subst sort_search.simps) (simp add: h_def Let_def)
    show ?thesis
    proof (cases "f h")
      case fh: True
      have "\<forall>a. h \<le> a \<and> a < n \<longrightarrow> f a" using mono [OF _ _ fh] by blast
      then have "(\<forall>a < sort_search f i h. \<not> f a) \<and> (\<forall>a. sort_search f i h \<le> a \<and> a < n \<longrightarrow> f a) \<and>
          sort_search f i h \<le> h"
        by (intro less.hyps) (use less.prems h in auto)
      then show ?thesis unfolding step if_P [OF fh] using h(2) by auto
    next
      case fh: False
      have "\<forall>a < h + 1. \<not> f a" using mono [of _ h] h(3) fh by (metis Suc_eq_plus1 less_Suc_eq_le)
      then have "(\<forall>a < sort_search f (h + 1) j. \<not> f a) \<and>
          (\<forall>a. sort_search f (h + 1) j \<le> a \<and> a < n \<longrightarrow> f a) \<and> sort_search f (h + 1) j \<le> j"
        by (intro less.hyps) (use less.prems h in auto)
      then show ?thesis unfolding step if_not_P [OF fh] .
    qed
  next
    case False
    then show ?thesis using less.prems by (subst (1 2 3) sort_search.simps) auto
  qed
qed

section \<open>Little-endian encoding\<close>

lemma sort_search_le: "i \<le> j \<Longrightarrow> sort_search f i j \<le> j"
proof (induction f i j rule: sort_search.induct)
  case (1 f i j)
  then show ?case by (subst sort_search.simps) (fastforce simp: Let_def)
qed

lemma sort_search_cong:
  assumes "\<And>a. a < j \<Longrightarrow> f a = g a"
  shows "sort_search f i j = sort_search g i j"
  using assms
proof (induction f i j rule: sort_search.induct)
  case (1 f i j)
  then show ?case
    by (subst (1 2) sort_search.simps) (auto simp: Let_def)
qed

lemma length_put_le [simp, go_bytes]: "length (put_le n w) = n"
  by (simp add: put_le_def)

lemma put_le_0 [simp]: "put_le 0 w = []"
  by (simp add: put_le_def)

lemma put_le_Suc: "put_le (Suc n) w = ucast w # put_le n (drop_bit 8 w)"
proof -
  have "[0..<Suc n] = 0 # map Suc [0..<n]"
    by (simp add: upt_conv_Cons map_Suc_upt del: upt_Suc)
  then show ?thesis
    by (simp add: put_le_def del: upt_Suc) (simp add: add.commute drop_bit_drop_bit)
qed

lemma bit_get_le:
  "bit (get_le bs :: 'a::len word) k \<longleftrightarrow>
     k < LENGTH('a) \<and> k div 8 < length bs \<and> bit (bs ! (k div 8)) (k mod 8)"
proof (induction bs arbitrary: k)
  case Nil
  then show ?case by simp
next
  case (Cons b bs)
  show ?case
  proof (cases "k < 8")
    case True
    then show ?thesis by (auto simp: bit_simps)
  next
    case False
    then obtain j where k: "k = j + 8" using le_add_diff_inverse2 by (metis not_less)
    have "bit (ucast b :: 'a word) k = False"
      using False by (auto simp: bit_simps dest: bit_imp_le_length)
    moreover have "k div 8 = Suc (j div 8)" "k mod 8 = j mod 8" using k by auto
    ultimately show ?thesis
      using Cons.IH [of j] k by (auto simp: bit_simps)
  qed
qed

lemma get_put_le_take:
  "(get_le (put_le n w) :: 'a::len word) = take_bit (8 * n) (w :: 'a word)"
proof (rule bit_word_eqI)
  fix k assume "k < LENGTH('a)"
  moreover have "k mod 8 + 8 * (k div 8) = k" by simp
  moreover have "k div 8 < n \<longleftrightarrow> k < 8 * n" by auto
  ultimately show "bit (get_le (put_le n w) :: 'a word) k = bit (take_bit (8 * n) w) k"
    by (auto simp: bit_get_le put_le_def bit_simps)
qed

lemma get_put_le [simp, go_bytes]:
  "LENGTH('a) \<le> 8 * n \<Longrightarrow> (get_le (put_le n w) :: 'a::len word) = (w :: 'a word)"
  by (simp add: get_put_le_take take_bit_word_eq_self)

lemma put_get_le:
  assumes "8 * length bs \<le> LENGTH('a)"
  shows "put_le (length bs) (get_le bs :: 'a::len word) = bs"
proof (rule nth_equalityI)
  fix i assume i: "i < length (put_le (length bs) (get_le bs :: 'a word))"
  show "put_le (length bs) (get_le bs :: 'a word) ! i = bs ! i"
  proof (rule bit_word_eqI)
    fix k assume "k < LENGTH(8)"
    then have "k < 8" by simp
    moreover from this have "(k + 8 * i) div 8 = i" "(k + 8 * i) mod 8 = k"
      by auto
    moreover have "k + 8 * i < LENGTH('a)" using assms i \<open>k < 8\<close> by auto
    ultimately show "bit (put_le (length bs) (get_le bs :: 'a word) ! i) k = bit (bs ! i) k"
      using i by (auto simp: put_le_def bit_simps bit_get_le add.commute)
  qed
qed simp

lemma take_put_le: "m \<le> n \<Longrightarrow> take m (put_le n w) = put_le m w"
  by (simp add: put_le_def take_map)

lemma put_le_eq_iff:
  "put_le n (v :: 'a::len word) = put_le n w \<longleftrightarrow> take_bit (8 * n) v = take_bit (8 * n) w"
proof
  assume "put_le n v = put_le n w"
  then show "take_bit (8 * n) v = take_bit (8 * n) w"
    by (metis get_put_le_take)
next
  assume eq: "take_bit (8 * n) v = take_bit (8 * n) w"
  show "put_le n v = put_le n w"
  proof (rule nth_equalityI)
    fix i assume "i < length (put_le n v)"
    then have i: "i < n" by simp
    have "ucast (drop_bit (8 * i) v) = (ucast (drop_bit (8 * i) w) :: byte)"
    proof (rule bit_word_eqI)
      fix k assume "k < LENGTH(8)"
      then have "8 * i + k < 8 * n" using i by auto
      with eq have "bit v (8 * i + k) = bit w (8 * i + k)"
        by (metis bit_take_bit_iff)
      then show "bit (ucast (drop_bit (8 * i) v) :: byte) k =
          bit (ucast (drop_bit (8 * i) w) :: byte) k"
        by (auto simp: bit_simps dest: bit_imp_le_length)
    qed
    then show "put_le n v ! i = put_le n w ! i" using i by (simp add: put_le_def)
  qed simp
qed

section \<open>Lists cut into blocks of one length\<close>

lemma length_concat_blocks:
  "\<forall>x \<in> set xss. length x = L \<Longrightarrow> length (concat xss) = length xss * L"
  by (induction xss) auto

lemma take_concat_blocks:
  "\<forall>x \<in> set xss. length x = L \<Longrightarrow> take (i * L) (concat xss) = concat (take i xss)"
proof (induction xss arbitrary: i)
  case (Cons x xss)
  then show ?case by (cases i) auto
qed simp

lemma drop_concat_blocks:
  "\<forall>x \<in> set xss. length x = L \<Longrightarrow> drop (i * L) (concat xss) = concat (drop i xss)"
proof (induction xss arbitrary: i)
  case (Cons x xss)
  then show ?case by (cases i) auto
qed simp

lemma drop_concat_block_nth:
  "\<forall>x \<in> set xss. length x = L \<Longrightarrow> i < length xss \<Longrightarrow>
   drop (i * L) (concat xss) = xss ! i @ concat (drop (Suc i) xss)"
  by (simp add: drop_concat_blocks Cons_nth_drop_Suc [symmetric])

lemma concat_list_update:
  "i < length xss \<Longrightarrow>
   concat (xss[i := ys]) = concat (take i xss) @ ys @ concat (drop (Suc i) xss)"
  by (simp add: upd_conv_take_nth_drop)

lemma write_at_concat_block:
  assumes "\<forall>x \<in> set xss. length x = L" and "i < length xss" and "j + length ys \<le> L"
  shows "write_at (i * L + j) ys (concat xss) = concat (xss[i := write_at j ys (xss ! i)])"
proof -
  have len: "length (xss ! i) = L" "length (concat (take i xss)) = i * L"
    using assms length_concat_blocks [of "take i xss" L] by (auto dest: in_set_takeD)
  have "concat xss = concat (take i xss) @ xss ! i @ concat (drop (Suc i) xss)"
    using assms(2) by (metis concat_append concat.simps(2) id_take_nth_drop)
  moreover have "write_at j ys (xss ! i @ concat (drop (Suc i) xss)) =
      write_at j ys (xss ! i) @ concat (drop (Suc i) xss)"
    by (rule write_at_append_left) (simp add: len assms(3))
  ultimately have "write_at (i * L + j) ys (concat xss) =
      concat (take i xss) @ write_at j ys (xss ! i) @ concat (drop (Suc i) xss)"
    by (simp add: write_at_append_right len)
  then show ?thesis by (simp add: concat_list_update assms(2))
qed

lemmas [go_lists] = length_concat_blocks take_concat_blocks drop_concat_blocks
  drop_concat_block_nth concat_list_update write_at_concat_block

section \<open>Base 16 positions\<close>

lemma path_offset_Nil [simp]: "path_offset [] = 0"
  by (simp add: path_offset_def)

lemma path_offset_snoc [simp]: "path_offset (ps @ [p]) = path_offset ps * 16 + p"
  by (simp add: path_offset_def)

lemma path_offset_take_Suc:
  "l < length ps \<Longrightarrow> path_offset (take (Suc l) ps) = path_offset (take l ps) * 16 + ps ! l"
  by (simp add: take_Suc_conv_app_nth)

lemma path_offset_append:
  "path_offset (xs @ ys) = path_offset xs * 16 ^ length ys + path_offset ys"
proof (induction ys rule: rev_induct)
  case (snoc y ys)
  have "path_offset (xs @ ys @ [y]) = path_offset (xs @ ys) * 16 + y"
    by (metis append.assoc path_offset_snoc)
  with snoc show ?case by (simp add: algebra_simps)
qed simp

lemma path_offset_bound:
  "\<forall>p \<in> set ps. p < 16 \<Longrightarrow> path_offset ps < 16 ^ length ps"
proof (induction ps rule: rev_induct)
  case (snoc p ps)
  then show ?case by simp
qed simp

lemma path_offset_take_bound:
  "\<forall>p \<in> set ps. p < 16 \<Longrightarrow> l \<le> length ps \<Longrightarrow> path_offset (take l ps) < 16 ^ l"
  using path_offset_bound [of "take l ps"] by (auto dest: in_set_takeD)

lemma path_offset_div:
  assumes "\<forall>p \<in> set ps. p < 16" and "l \<le> length ps"
  shows "path_offset ps div 16 ^ (length ps - l) = path_offset (take l ps)"
  using assms
proof (induction ps rule: rev_induct)
  case Nil
  then show ?case by simp
next
  case (snoc p ps)
  show ?case
  proof (cases "l \<le> length ps")
    case True
    then have "path_offset (ps @ [p]) div 16 ^ (length (ps @ [p]) - l)
        = path_offset (ps @ [p]) div 16 div 16 ^ (length ps - l)"
      by (simp add: Suc_diff_le div_mult2_eq)
    also have "path_offset (ps @ [p]) div 16 = path_offset ps"
      using snoc.prems by simp
    finally show ?thesis using snoc True by simp
  next
    case False
    then have "l = length (ps @ [p])" using snoc.prems by simp
    then show ?thesis by simp
  qed
qed

lemma path_offset_inj:
  assumes "length xs = length ys" "\<forall>x \<in> set xs. x < 16" "\<forall>y \<in> set ys. y < 16"
    "path_offset xs = path_offset ys"
  shows "xs = ys"
  using assms
proof (induction xs arbitrary: ys rule: rev_induct)
  case (snoc x xs)
  obtain zs z where ys: "ys = zs @ [z]" using snoc.prems(1) by (cases ys rule: rev_cases) auto
  have eq: "path_offset xs * 16 + x = path_offset zs * 16 + z" using snoc.prems(4) ys by simp
  have b: "x < 16" "z < 16" using snoc.prems ys by auto
  have z: "x = z" using arg_cong [OF eq, of "\<lambda>n. n mod 16"] b by simp
  moreover have "path_offset xs = path_offset zs" using eq z by simp
  ultimately have z: "x = z" "path_offset xs = path_offset zs" by simp_all
  have "xs = zs" by (rule snoc.IH) (use snoc.prems ys z in simp_all)
  then show ?case using ys z by simp
qed simp

section \<open>Sums over a finite type\<close>

lemma sum_update_point:
  fixes f g :: "'k::finite \<Rightarrow> 'v::comm_ring_1"
  assumes "\<And>x. x \<noteq> k \<Longrightarrow> f x = g x"
  shows "sum f A = sum g A + (if k \<in> A then f k - g k else 0)"
proof (cases "k \<in> A")
  case True
  have "sum f A = f k + sum f (A - {k})" "sum g A = g k + sum g (A - {k})"
    using True by (simp_all add: sum.remove)
  moreover have "sum f (A - {k}) = sum g (A - {k})"
    by (rule sum.cong) (use assms in auto)
  ultimately show ?thesis using True by simp
next
  case False
  then have "sum f A = sum g A" by (intro sum.cong refl) (metis assms)
  with False show ?thesis by simp
qed

end
