(* ===== verification/Strconv.thy ===== *)
theory Strconv
  imports Prelude
begin

text \<open>
  What the program uses of Go's \<open>strconv\<close>, \<open>fmt\<close> and \<open>strings\<close> packages: printing numbers in
  base 10 and 16, \<open>ParseInt\<close> and \<open>Atoi\<close> with their syntax and range errors (the value returned
  beside an error included), zero padding, and splitting a line at spaces.  Text is \<^typ>\<open>string\<close>, a
  list of 8-bit characters, as a Go string is a sequence of bytes.  The lemmas are the round
  trips that the protocol and path code rely on.
\<close>

section \<open>Definitions\<close>

datatype num_err = ErrSyntax | ErrRange

definition digit_char :: "nat \<Rightarrow> char" where
  "digit_char d = (if d < 10 then char_of (48 + d) else char_of (87 + d))"

definition digit_val :: "char \<Rightarrow> nat option" where
  "digit_val c = (let n = of_char c :: nat in
     if 48 \<le> n \<and> n \<le> 57 then Some (n - 48)
     else if 97 \<le> n \<and> n \<le> 122 then Some (n - 87)
     else if 65 \<le> n \<and> n \<le> 90 then Some (n - 55)
     else None)"

fun format_nat :: "nat \<Rightarrow> nat \<Rightarrow> string" where
  "format_nat b n =
     (if b < 2 \<or> n < b then [digit_char n] else format_nat b (n div b) @ [digit_char (n mod b)])"

declare format_nat.simps [simp del]

definition FormatInt :: "nat \<Rightarrow> int \<Rightarrow> string" where
  "FormatInt b i = (if i < 0 then CHR ''-'' # format_nat b (nat (- i)) else format_nat b (nat i))"

abbreviation Itoa :: "int \<Rightarrow> string" where
  "Itoa \<equiv> FormatInt 10"

text \<open>\<open>%0wd\<close> and \<open>%0wx\<close>: zeros between the sign and the digits up to the width.\<close>

definition pad_zero :: "nat \<Rightarrow> string \<Rightarrow> string" where
  "pad_zero w s = replicate (w - length s) (CHR ''0'') @ s"

definition FormatPad :: "nat \<Rightarrow> nat \<Rightarrow> int \<Rightarrow> string" where
  "FormatPad b w i =
     (if i < 0 then CHR ''-'' # pad_zero (w - 1) (format_nat b (nat (- i)))
      else pad_zero w (format_nat b (nat i)))"

text \<open>\<open>strconv.ParseUint\<close>'s digit loop; the accumulated value may not pass \<open>maxval\<close>.\<close>

fun parse_digits :: "nat \<Rightarrow> nat \<Rightarrow> nat \<Rightarrow> string \<Rightarrow> num_err + nat" where
  "parse_digits b maxval n [] = Inr n"
| "parse_digits b maxval n (c # cs) =
     (case digit_val c of
        None \<Rightarrow> Inl ErrSyntax
      | Some d \<Rightarrow>
          if b \<le> d then Inl ErrSyntax
          else if n * b + d > maxval then Inl ErrRange
          else parse_digits b maxval (n * b + d) cs)"

definition ParseUint :: "nat \<Rightarrow> nat \<Rightarrow> string \<Rightarrow> num_err + nat" where
  "ParseUint b bits s = (if s = [] then Inl ErrSyntax else parse_digits b (2 ^ bits - 1) 0 s)"

definition ParseInt :: "nat \<Rightarrow> nat \<Rightarrow> string \<Rightarrow> int \<times> num_err option" where
  "ParseInt b bits s =
     (if s = [] then (0, Some ErrSyntax)
      else let neg = (hd s = CHR ''-'');
               digits = (if hd s = CHR ''+'' \<or> hd s = CHR ''-'' then tl s else s);
               cutoff = (2::int) ^ (bits - 1)
           in case ParseUint b bits digits of
                Inl ErrSyntax \<Rightarrow> (0, Some ErrSyntax)
              | Inl ErrRange \<Rightarrow> (if neg then - cutoff else cutoff - 1, Some ErrRange)
              | Inr un \<Rightarrow>
                  if \<not> neg \<and> cutoff \<le> int un then (cutoff - 1, Some ErrRange)
                  else if neg \<and> cutoff < int un then (- cutoff, Some ErrRange)
                  else (if neg then - int un else int un, None))"

abbreviation Atoi :: "string \<Rightarrow> int \<times> num_err option" where
  "Atoi \<equiv> ParseInt 10 64"

text \<open>\<open>strings.FieldsFunc(s, isSpace)\<close> with \<open>isSpace\<close> accepting the blank only: maximal runs of
  other characters.  The first argument is the field being read.\<close>

fun fields_acc :: "string \<Rightarrow> string \<Rightarrow> string list" where
  "fields_acc cur [] = (if cur = [] then [] else [cur])"
| "fields_acc cur (c # cs) =
     (if c = CHR '' '' then (if cur = [] then fields_acc [] cs else cur # fields_acc [] cs)
      else fields_acc (cur @ [c]) cs)"

definition fields :: "string \<Rightarrow> string list" where
  "fields s = fields_acc [] s"

text \<open>\<open>strings.Join(ss, sep)\<close>.\<close>

fun join :: "string \<Rightarrow> string list \<Rightarrow> string" where
  "join sep [] = []"
| "join sep [s] = s"
| "join sep (s # ss) = s @ sep @ join sep ss"

definition bytes_of_string :: "string \<Rightarrow> bytes" where
  "bytes_of_string s = map of_char s"

section \<open>Digits\<close>

lemma digit_val_digit_char [simp]: "d < 36 \<Longrightarrow> digit_val (digit_char d) = Some d"
  by (auto simp: digit_val_def digit_char_def Let_def)

lemma digit_char_not_sign:
  "d < 36 \<Longrightarrow> digit_char d \<noteq> CHR ''-'' \<and> digit_char d \<noteq> CHR ''+''"
proof -
  assume "d < 36"
  then have "digit_val (digit_char d) = Some d" by simp
  moreover have "digit_val (CHR ''-'') = None" "digit_val (CHR ''+'') = None"
    by (simp_all add: digit_val_def)
  ultimately show ?thesis by (metis option.distinct(1))
qed

lemma digit_char_eqD: "c = digit_char d \<Longrightarrow> d < 36 \<Longrightarrow> digit_val c = Some d"
  by simp

lemma digit_char_0: "digit_char 0 = CHR ''0''"
  by code_simp

lemma format_nat_nonempty [simp]: "format_nat b n \<noteq> []"
  by (subst format_nat.simps) simp

lemma set_format_nat:
  "2 \<le> b \<Longrightarrow> c \<in> set (format_nat b n) \<Longrightarrow> \<exists>d < b. c = digit_char d"
proof (induction b n rule: format_nat.induct)
  case (1 b n)
  show ?case
  proof (cases "n < b")
    case True
    then show ?thesis using 1 by (auto simp: format_nat.simps [of b n])
  next
    case False
    then have "c \<in> set (format_nat b (n div b)) \<or> c = digit_char (n mod b)"
      using 1(2,3) by (auto simp: format_nat.simps [of b n])
    then show ?thesis
    proof
      assume "c \<in> set (format_nat b (n div b))"
      then show ?thesis using 1 False by simp
    next
      assume "c = digit_char (n mod b)"
      moreover have "n mod b < b" using 1(2) by simp
      ultimately show ?thesis by blast
    qed
  qed
qed

lemma hd_format_nat:
  assumes "2 \<le> b" and "b \<le> 36"
  shows "hd (format_nat b n) \<noteq> CHR ''-'' \<and> hd (format_nat b n) \<noteq> CHR ''+''"
proof -
  obtain d where "d < b" "hd (format_nat b n) = digit_char d"
    using set_format_nat [OF assms(1), of "hd (format_nat b n)" n] by auto
  then show ?thesis using digit_char_not_sign [of d] assms(2) by simp
qed

section \<open>Printing then parsing a number\<close>

lemma parse_digits_append:
  "parse_digits b m n (xs @ ys) =
     (case parse_digits b m n xs of Inl e \<Rightarrow> Inl e | Inr n' \<Rightarrow> parse_digits b m n' ys)"
  by (induction xs arbitrary: n) (auto split: option.splits)

lemma parse_digits_zeros:
  "0 < b \<Longrightarrow> parse_digits b m 0 (replicate k (CHR ''0'') @ s) = parse_digits b m 0 s"
  by (induction k) (simp_all add: digit_val_def)

lemma parse_format_nat:
  assumes "2 \<le> b" and "b \<le> 36" and "n \<le> m"
  shows "parse_digits b m 0 (format_nat b n) = Inr n"
  using assms
proof (induction b n rule: format_nat.induct)
  case (1 b n)
  show ?case
  proof (cases "n < b")
    case True
    then show ?thesis using 1 by (simp add: format_nat.simps [of b n])
  next
    case False
    then have "parse_digits b m 0 (format_nat b (n div b)) = Inr (n div b)"
      using 1 by (meson div_le_dividend le_trans not_less)
    moreover have "\<not> b \<le> n mod b" "n mod b < 36"
      using 1(2,3) mod_less_divisor [of b n] by linarith+
    ultimately show ?thesis
      using 1 False by (simp add: format_nat.simps [of b n] parse_digits_append)
  qed
qed

lemma ParseUint_format_nat:
  "2 \<le> b \<Longrightarrow> b \<le> 36 \<Longrightarrow> n < 2 ^ bits \<Longrightarrow> ParseUint b bits (format_nat b n) = Inr n"
  using parse_format_nat [of b n "2 ^ bits - 1"] by (simp add: ParseUint_def)

lemma Atoi_Itoa:
  assumes "- (2 ^ 63) \<le> i" and "i < 2 ^ 63"
  shows "Atoi (Itoa i) = (i, None)"
proof (cases "i < 0")
  case True
  then have "ParseUint 10 64 (format_nat 10 (nat (- i))) = Inr (nat (- i))"
    using assms by (intro ParseUint_format_nat) auto
  then show ?thesis using True assms by (simp add: ParseInt_def FormatInt_def)
next
  case False
  then have "ParseUint 10 64 (format_nat 10 (nat i)) = Inr (nat i)"
    using assms by (intro ParseUint_format_nat) auto
  then show ?thesis
    using False assms hd_format_nat [of 10 "nat i"] by (simp add: ParseInt_def FormatInt_def)
qed

lemma Itoa_no_space: "CHR '' '' \<notin> set (Itoa i)"
proof
  assume "CHR '' '' \<in> set (Itoa i)"
  then have "\<exists>n. CHR '' '' \<in> set (format_nat 10 n)"
    by (auto simp: FormatInt_def split: if_splits)
  then obtain d where "d < 10" "CHR '' '' = digit_char d"
    using set_format_nat [of 10] by auto
  then have "digit_val (CHR '' '') = Some d" by simp
  then show False by (simp add: digit_val_def)
qed

lemma Itoa_nonempty [simp]: "Itoa i \<noteq> []"
  by (simp add: FormatInt_def)

lemma Itoa_chars:
  assumes "c \<in> set (Itoa i)"
  shows "c = CHR ''-'' \<or> (\<exists>d < 10. c = digit_char d)"
  using assms set_format_nat [of 10 c] by (auto simp: FormatInt_def split: if_splits)

section \<open>Splitting a printed line\<close>

lemma fields_acc_word:
  "CHR '' '' \<notin> set w \<Longrightarrow> fields_acc cur (w @ s) = fields_acc (cur @ w) s"
  by (induction w arbitrary: cur) auto

lemma fields_join:
  assumes "\<forall>w \<in> set ws. w \<noteq> [] \<and> CHR '' '' \<notin> set w"
  shows "fields (join '' '' ws) = ws"
  using assms
proof (induction ws)
  case Nil
  then show ?case by (simp add: fields_def)
next
  case (Cons w ws)
  then show ?case
  proof (cases ws)
    case Nil
    then show ?thesis using Cons.prems fields_acc_word [of w "[]" "[]"] by (simp add: fields_def)
  next
    case (Cons v vs)
    then show ?thesis
      using Cons.prems Cons.IH fields_acc_word [of w "[]" "CHR '' '' # join '' '' ws"]
      by (simp add: fields_def)
  qed
qed

end
