(* ===== verification/Config.thy ===== *)
theory Config
  imports Strconv
begin

text \<open>
  Configuration: the fields of \<open>HStoreConfig\<close> (\<open>store/config.go\<close>) and \<open>MCConfig\<close>
  (\<open>config/mc_config.go\<close>) that the modelled code reads, the derived htree parameters computed by
  \<open>InitTree\<close>, the size limits on keys and values, the bucket directory names and the size
  strings of \<open>utils/size.go\<close>.  The global variables \<open>Conf\<close> and \<open>MCConf\<close> of the source are explicit
  arguments of the operations that read them.  \<open>conf_ok\<close> is the relation between depth, height,
  key-hash length and mask that \<open>InitTree\<close> establishes and the htree relies on.
\<close>

unbundle bit_operations_syntax

section \<open>Definitions\<close>

record HStoreConfig =
  NumBucket :: int
  TreeHeight :: nat
  TreeDepth :: nat
  TreeKeyHashMask :: u64
  TreeKeyHashLen :: nat
  DataFileMax :: int
  CheckVHash :: bool
  FlushInterval :: int
  FlushWake :: int
  NoGCDays :: int
  NotCompress :: "string \<Rightarrow> bool"
  NoMerged :: bool
  MergeInterval :: int
  IndexIntervalSize :: int
  SplitCap :: int

record MCConfig =
  MaxKeyLen :: int
  MaxReq :: int
  BodyMax :: int
  BodyBig :: int
  BodyInC :: int
  FlushMax :: int
  TimeoutMS :: int

definition MAX_NUM_CHUNK :: int where "MAX_NUM_CHUNK = 998"
definition MAX_NUM_SPLIT :: int where "MAX_NUM_SPLIT = 998"
definition MAX_DEPTH :: nat where "MAX_DEPTH = 8"

definition KHASH_LENS :: "nat list" where
  "KHASH_LENS = [8, 8, 7, 7, 6, 6, 5, 5]"

text \<open>The loop \<open>for n > 1 { TreeDepth += 1; n /= 16 }\<close>.\<close>

function tree_depth_loop :: "int \<Rightarrow> nat \<Rightarrow> nat" where
  "tree_depth_loop n d = (if n > 1 then tree_depth_loop (n div 16) (Suc d) else d)"
  by pat_completeness auto
termination
  by (relation "measure (\<lambda>(n, d). nat n)") auto

declare tree_depth_loop.simps [simp del]

text \<open>\<open>KHASH_LENS[TreeDepth+TreeHeight-1]\<close> panics outside the eight entries.\<close>

definition InitTree :: "HStoreConfig \<Rightarrow> HStoreConfig option" where
  "InitTree c =
     (let d = tree_depth_loop (NumBucket c) 0 in
      if d + TreeHeight c = 0 then None
      else do {
        len \<leftarrow> nth_opt KHASH_LENS (d + TreeHeight c - 1);
        let shift = 64 - len * 8;
        Some (c\<lparr>TreeDepth := d, TreeKeyHashLen := len,
                TreeKeyHashMask := drop_bit shift (push_bit shift (- 1))\<rparr>)
      })"

definition conf_ok :: "HStoreConfig \<Rightarrow> bool" where
  "conf_ok c \<longleftrightarrow>
     1 \<le> TreeHeight c \<and> TreeDepth c + TreeHeight c \<le> MAX_DEPTH \<and>
     TreeKeyHashLen c = KHASH_LENS ! (TreeDepth c + TreeHeight c - 1) \<and>
     TreeKeyHashMask c = mask (8 * TreeKeyHashLen c)"

text \<open>\<open>config.IsValidKeySize\<close> and \<open>config.IsValidValueSize\<close>: the limits are converted to
  \<open>uint32\<close> before the comparison.\<close>

definition IsValidKeySize :: "MCConfig \<Rightarrow> u32 \<Rightarrow> bool" where
  "IsValidKeySize mc ksz \<longleftrightarrow> ksz \<noteq> 0 \<and> ksz \<le> word_of_int (MaxKeyLen mc)"

definition IsValidValueSize :: "MCConfig \<Rightarrow> u32 \<Rightarrow> bool" where
  "IsValidValueSize mc vsz \<longleftrightarrow> vsz \<le> word_of_int (BodyMax mc)"

text \<open>\<open>store.GetBucketDir\<close> (panics for any other bucket count) and \<open>config.BucketIDHex\<close>.\<close>

definition GetBucketDir :: "int \<Rightarrow> int \<Rightarrow> string option" where
  "GetBucketDir numBucket bucketID =
     (if numBucket = 1 then Some ''''
      else if numBucket = 16 then Some (FormatInt 16 bucketID)
      else if numBucket = 256
        then Some (FormatInt 16 (bucketID div 16) @ ''/'' @ FormatInt 16 (bucketID mod 16))
      else None)"

definition BucketIDHex :: "int \<Rightarrow> int \<Rightarrow> string" where
  "BucketIDHex bid numBucket =
     (if numBucket = 16 then FormatInt 16 bid
      else if numBucket = 256 then FormatPad 16 2 bid
      else ''0'')"

text \<open>\<open>utils.StrToSize\<close>: the number is returned together with \<open>LastSizeErr\<close>; on a range error
  it is the clipped value that \<open>ParseInt\<close> returns, without the unit.\<close>

definition sizemap :: "char \<Rightarrow> int option" where
  "sizemap u =
     (if u = CHR ''K'' \<or> u = CHR ''k'' then Some 1024
      else if u = CHR ''M'' \<or> u = CHR ''m'' then Some (1024 * 1024)
      else if u = CHR ''G'' \<or> u = CHR ''g'' then Some (1024 * 1024 * 1024)
      else None)"

definition StrToSize :: "string \<Rightarrow> int \<times> num_err option" where
  "StrToSize s =
     (if s = [] then (0, None)
      else let plus = sizemap (last s);
               s' = (if plus \<noteq> None then butlast s else s)
           in case ParseInt 10 32 s' of
                (n, Some e) \<Rightarrow> (n, Some e)
              | (n, None) \<Rightarrow> (case plus of Some p \<Rightarrow> (n * p, None) | None \<Rightarrow> (n, None)))"

text \<open>\<open>utils.SizeToStr\<close>: the loop divides by 1024 while it can; \<open>units[i]\<close> panics for \<open>i > 3\<close>.\<close>

function size_loop :: "int \<Rightarrow> nat \<Rightarrow> int \<times> nat" where
  "size_loop n i = (if n \<noteq> 0 \<and> n mod 1024 = 0 then size_loop (n div 1024) (Suc i) else (n, i))"
  by pat_completeness auto
termination
proof (relation "measure (\<lambda>(n, i). nat \<bar>n\<bar>)")
  show "\<And>n i. n \<noteq> 0 \<and> n mod 1024 = 0 \<Longrightarrow>
      ((n div 1024, Suc i), (n, i)) \<in> measure (\<lambda>(n :: int, i :: nat). nat \<bar>n\<bar>)"
    by (auto simp: abs_if split: if_splits)
qed simp

declare size_loop.simps [simp del]

definition SizeToStr :: "int \<Rightarrow> string option" where
  "SizeToStr n =
     (if n = 0 then Some ''0''
      else let (m, i) = size_loop n 0 in
           do { u \<leftarrow> nth_opt ['''', ''K'', ''M'', ''G''] i; Some (FormatInt 10 m @ u) })"

text \<open>A configuration for concrete inputs: sixteen buckets, height 3.\<close>

definition sample_conf :: HStoreConfig where
  "sample_conf = \<lparr>NumBucket = 16, TreeHeight = 3, TreeDepth = 1, TreeKeyHashMask = mask 56,
     TreeKeyHashLen = 7, DataFileMax = 4194304000, CheckVHash = False, FlushInterval = 0,
     FlushWake = 0, NoGCDays = 0, NotCompress = (\<lambda>_. False), NoMerged = False,
     MergeInterval = 1, IndexIntervalSize = 4096, SplitCap = 1048576\<rparr>"

section \<open>The derived htree parameters\<close>

lemma KHASH_LENS_enough:
  assumes "n < 8"
  shows "64 - 4 * n \<le> 8 * KHASH_LENS ! n" and "KHASH_LENS ! n \<le> 8" and "5 \<le> KHASH_LENS ! n"
proof -
  from assms have "n \<in> {0, 1, 2, 3, 4, 5, 6, 7}" by auto
  then show "64 - 4 * n \<le> 8 * KHASH_LENS ! n" "KHASH_LENS ! n \<le> 8" "5 \<le> KHASH_LENS ! n"
    by (auto simp: KHASH_LENS_def)
qed

lemma conf_ok_len:
  assumes "conf_ok c"
  shows "TreeKeyHashLen c \<le> 8" "5 \<le> TreeKeyHashLen c"
    and "64 \<le> 8 * TreeKeyHashLen c + 4 * (TreeDepth c + TreeHeight c - 1)"
proof -
  have "TreeDepth c + TreeHeight c - 1 < 8" using assms by (auto simp: conf_ok_def MAX_DEPTH_def)
  from KHASH_LENS_enough [OF this] assms
  show "TreeKeyHashLen c \<le> 8" "5 \<le> TreeKeyHashLen c"
    "64 \<le> 8 * TreeKeyHashLen c + 4 * (TreeDepth c + TreeHeight c - 1)"
    by (auto simp: conf_ok_def)
qed

lemma shifted_ones: "n \<le> 64 \<Longrightarrow> drop_bit (64 - n) (push_bit (64 - n) (- 1 :: u64)) = mask n"
  by (rule bit_word_eqI) (auto simp: bit_simps)

lemma tree_depth_pow: "tree_depth_loop (16 ^ d) k = d + k"
proof (induction d arbitrary: k)
  case 0
  then show ?case by (simp add: tree_depth_loop.simps)
next
  case (Suc d)
  have "(1::int) < 16 ^ Suc d" by (rule one_less_power) simp_all
  then show ?case using Suc by (subst tree_depth_loop.simps) simp
qed

text \<open>For a bucket count that is a power of 16 and a height that fits the eight hexadecimal
  levels, \<open>InitTree\<close> does not panic; it derives the depth from the bucket count and a key-hash
  length that, with the levels above a leaf, covers all 64 bits of a key hash.\<close>

theorem InitTree_ok:
  assumes "NumBucket c = 16 ^ d" and "1 \<le> TreeHeight c" and "d + TreeHeight c \<le> 8"
  shows "\<exists>c'. InitTree c = Some c' \<and> conf_ok c' \<and> TreeDepth c' = d \<and>
           64 \<le> 8 * TreeKeyHashLen c' + 4 * (d + TreeHeight c' - 1)"
proof -
  have idx: "d + TreeHeight c - 1 < length KHASH_LENS"
    using assms by (simp add: KHASH_LENS_def)
  then have "d + TreeHeight c - 1 < 8" by (simp add: KHASH_LENS_def)
  from KHASH_LENS_enough [OF this] have len: "KHASH_LENS ! (d + TreeHeight c - 1) \<le> 8" by simp
  define c' where "c' = c\<lparr>TreeDepth := d, TreeKeyHashLen := KHASH_LENS ! (d + TreeHeight c - 1),
      TreeKeyHashMask := mask (8 * KHASH_LENS ! (d + TreeHeight c - 1))\<rparr>"
  have "InitTree c = Some c'"
    using assms idx len shifted_ones [of "8 * KHASH_LENS ! (d + TreeHeight c - 1)"]
    by (simp add: InitTree_def tree_depth_pow c'_def Let_def mult.commute)
  moreover have "conf_ok c'" using assms by (simp add: c'_def conf_ok_def MAX_DEPTH_def)
  ultimately show ?thesis using conf_ok_len(3) [of c'] by (auto simp: c'_def)
qed

lemma sample_conf_ok: "conf_ok sample_conf"
  by (simp add: conf_ok_def sample_conf_def MAX_DEPTH_def KHASH_LENS_def)

theorem InitTree_ok_witness:
  "\<exists>c'. InitTree (sample_conf\<lparr>TreeDepth := 0, TreeKeyHashLen := 0, TreeKeyHashMask := 0\<rparr>) = Some c' \<and>
     conf_ok c' \<and> TreeDepth c' = 1 \<and> 64 \<le> 8 * TreeKeyHashLen c' + 4 * (1 + TreeHeight c' - 1)"
  by (rule InitTree_ok) (simp_all add: sample_conf_def)

section \<open>Size strings\<close>

lemma size_loop_mult:
  "size_loop n i = (m, j) \<Longrightarrow> i \<le> j \<and> n = m * 1024 ^ (j - i)"
proof (induction n i arbitrary: m j rule: size_loop.induct)
  case (1 n i)
  show ?case
  proof (cases "n \<noteq> 0 \<and> n mod 1024 = 0")
    case True
    then have "size_loop (n div 1024) (Suc i) = (m, j)"
      using 1(2) by (simp add: size_loop.simps [of n i])
    from 1(1) [OF True this] have "Suc i \<le> j" "n div 1024 = m * 1024 ^ (j - Suc i)" by auto
    moreover have "n = n div 1024 * 1024" using True by auto
    moreover have "j - i = Suc (j - Suc i)" using \<open>Suc i \<le> j\<close> by simp
    ultimately show ?thesis by (metis Suc_leD mult.assoc mult.commute power_Suc)
  next
    case False
    then have "(n, i) = (m, j)"
      using 1(2) by (simp only: size_loop.simps [of n i] if_False)
    then show ?thesis by simp
  qed
qed

lemma ParseInt32_Itoa:
  assumes "- (2 ^ 31) \<le> i" and "i < 2 ^ 31"
  shows "ParseInt 10 32 (Itoa i) = (i, None)"
proof (cases "i < 0")
  case True
  then have "ParseUint 10 32 (format_nat 10 (nat (- i))) = Inr (nat (- i))"
    using assms by (intro ParseUint_format_nat) auto
  then show ?thesis using True assms by (simp add: ParseInt_def FormatInt_def)
next
  case False
  then have "ParseUint 10 32 (format_nat 10 (nat i)) = Inr (nat i)"
    using assms by (intro ParseUint_format_nat) auto
  then show ?thesis
    using False assms hd_format_nat [of 10 "nat i"] by (simp add: ParseInt_def FormatInt_def)
qed

lemma sizemap_last_Itoa: "sizemap (last (Itoa i)) = None"
proof -
  have "last (Itoa i) \<in> set (Itoa i)" by simp
  then have "last (Itoa i) = CHR ''-'' \<or> (\<exists>d < 10. last (Itoa i) = digit_char d)"
    by (rule Itoa_chars)
  then show ?thesis
    by (auto simp: sizemap_def digit_val_def dest: digit_char_eqD)
qed

text \<open>A size printed by \<open>SizeToStr\<close> is read back by \<open>StrToSize\<close> as the same number, without an
  error, whenever the number left after the unit is an \<open>int32\<close>.\<close>

theorem StrToSize_SizeToStr:
  assumes "SizeToStr n = Some s" and "size_loop n 0 = (m, i)" and "- (2 ^ 31) \<le> m" and "m < 2 ^ 31"
  shows "StrToSize s = (n, None)"
proof (cases "n = 0")
  case True
  then have "s = ''0''" using assms(1) by (simp add: SizeToStr_def)
  then have "s = Itoa 0" by (simp add: FormatInt_def format_nat.simps digit_char_0)
  then show ?thesis
    using True ParseInt32_Itoa [of 0] sizemap_last_Itoa [of 0] by (simp add: StrToSize_def)
next
  case False
  have n: "n = m * 1024 ^ i" using size_loop_mult [OF assms(2)] by simp
  have i: "i < 4" and s: "s = Itoa m @ ['''', ''K'', ''M'', ''G''] ! i"
    using assms(1,2) False by (auto simp: SizeToStr_def nth_opt_def split: if_splits)
  have p: "ParseInt 10 32 (Itoa m) = (m, None)" by (rule ParseInt32_Itoa) (use assms in auto)
  have unit: "StrToSize (Itoa m @ [u]) = (m * q, None)" if "sizemap u = Some q" for u q
    using that p by (simp add: StrToSize_def)
  consider "i = 0" | "i = 1" | "i = 2" | "i = 3" using i by linarith
  then show ?thesis
  proof cases
    case 1
    then show ?thesis using n s p sizemap_last_Itoa [of m] by (simp add: StrToSize_def)
  next
    case 2
    then show ?thesis using n s unit [of "CHR ''K''" 1024] by (simp add: sizemap_def)
  next
    case 3
    then show ?thesis using n s unit [of "CHR ''M''" "1024 * 1024"]
      by (simp add: sizemap_def numeral_2_eq_2)
  next
    case 4
    then show ?thesis using n s unit [of "CHR ''G''" "1024 * 1024 * 1024"]
      by (simp add: sizemap_def numeral_3_eq_3)
  qed
qed

theorem StrToSize_SizeToStr_witness: "StrToSize ''3M'' = (3145728, None)"
  by (rule StrToSize_SizeToStr [where m = 3 and i = 2]) (code_simp)+

end
