(* ===== verification/Key.thy ===== *)
theory Key
  imports Config
begin

text \<open>
  Keys (\<open>store/key.go\<close>, \<open>utils/hash.go\<close>): the sign-extending FNV-1a variant, the 64-bit key hash,
  its cut into sixteen hexadecimal digits (the path of a key in the htree), key information and
  its preparation, and the validity check of a key string, for which UTF-8 decoding and the two
  \<open>unicode\<close> classes it tests are modelled.  \<open>murmur\<close> is a third-party hash and stays a parameter.
  The lemmas show that paths and key hashes determine each other and that a bucket is the
  leading digits of the hash.
\<close>

unbundle bit_operations_syntax

section \<open>Definitions\<close>

definition FNV_PRIME :: u32 where "FNV_PRIME = 0x01000193"

text \<open>\<open>fnv1a\<close> and the identical \<open>utils.Fnv1a\<close>: each byte is sign-extended.\<close>

definition fnv1a :: "bytes \<Rightarrow> u32" where
  "fnv1a data = foldl (\<lambda>h b. (h XOR scast b) * FNV_PRIME) 0x811c9dc5 data"

definition getKeyHashDefalut :: "(bytes \<Rightarrow> u32) \<Rightarrow> bytes \<Rightarrow> u64" where
  "getKeyHashDefalut murmur key = push_bit 32 (ucast (fnv1a key)) OR ucast (murmur key)"

record KeyInfo =
  KeyHash :: u64
  KeyIsPath :: bool
  Key :: bytes
  StringKey :: bytes
  KeyPath :: "nat list"
  BucketID :: int

definition ParsePathUint64 :: "u64 \<Rightarrow> nat list" where
  "ParsePathUint64 khash = map (\<lambda>i. unat (drop_bit (4 * (15 - i)) khash AND 15)) [0..<16]"

fun parse_path_loop :: "bytes \<Rightarrow> num_err + nat list" where
  "parse_path_loop [] = Inr []"
| "parse_path_loop (b # bs) =
     (case ParseInt 16 64 [char_of (unat b)] of
        (_, Some e) \<Rightarrow> Inl e
      | (idx, None) \<Rightarrow>
          (case parse_path_loop bs of Inl e \<Rightarrow> Inl e | Inr ps \<Rightarrow> Inr (nat idx # ps)))"

text \<open>\<open>buf[:len(pathStr)]\<close> of a 16-element buffer panics for a longer string.\<close>

definition ParsePathString :: "bytes \<Rightarrow> (num_err + nat list) option" where
  "ParsePathString pathStr =
     (if length pathStr \<le> 16 then Some (parse_path_loop pathStr) else None)"

text \<open>The loop of \<open>setKeyHashByPath\<close>, whose shift starts at 60 and drops by 4; a path has at most
  16 digits.\<close>

fun khash_of_path :: "nat \<Rightarrow> nat list \<Rightarrow> u64 \<Rightarrow> u64" where
  "khash_of_path shift [] h = h"
| "khash_of_path shift (v # vs) h =
     khash_of_path (shift - 4) vs (h OR push_bit shift (of_nat v))"

definition setKeyHashByPath :: "KeyInfo \<Rightarrow> KeyInfo" where
  "setKeyHashByPath ki = ki\<lparr>KeyHash := khash_of_path 60 (KeyPath ki) 0\<rparr>"

definition bucket_of_path :: "nat \<Rightarrow> nat list \<Rightarrow> int" where
  "bucket_of_path d path = foldl (\<lambda>bid v. bid * 16 + int v) 0 (take d path)"

text \<open>\<open>Prepare\<close> returns the updated key information and its error; \<open>None\<close> is the panic of an
  over-long path string.\<close>

definition Prepare :: "HStoreConfig \<Rightarrow> KeyInfo \<Rightarrow> (KeyInfo \<times> num_err option) option" where
  "Prepare c ki =
     (if KeyIsPath ki then do {
        r \<leftarrow> ParsePathString (StringKey ki);
        let (path, err) = (case r of Inl e \<Rightarrow> ([], Some e) | Inr p \<Rightarrow> (p, None));
        let ki' = setKeyHashByPath (ki\<lparr>KeyPath := path\<rparr>);
        if length path < TreeDepth c then Some (ki'\<lparr>BucketID := - 1\<rparr>, err)
        else Some (ki'\<lparr>BucketID := bucket_of_path (TreeDepth c) path\<rparr>, err)
      }
      else
        let path = ParsePathUint64 (KeyHash ki) in
        Some (ki\<lparr>KeyPath := path, BucketID := bucket_of_path (TreeDepth c) path\<rparr>, None))"

definition NewKeyInfoFromBytes :: "HStoreConfig \<Rightarrow> bytes \<Rightarrow> u64 \<Rightarrow> bool \<Rightarrow> KeyInfo option" where
  "NewKeyInfoFromBytes c key keyhash keyIsPath =
     map_option fst (Prepare c \<lparr>KeyHash = keyhash, KeyIsPath = keyIsPath, Key = key,
       StringKey = key, KeyPath = [], BucketID = 0\<rparr>)"

text \<open>\<open>getNodeKhash\<close> (\<open>store/leaf.go\<close>): a shift count of a digit past the eighth is negative, so
  \<open>uint32\<close> of it is huge and the digit contributes nothing.\<close>

definition getNodeKhash :: "nat list \<Rightarrow> u32" where
  "getNodeKhash path =
     (\<Sum>i \<leftarrow> [0..<length path].
        if i \<le> 7 then push_bit (4 * (7 - i)) (of_nat (path ! i) AND 15) else 0)"

text \<open>UTF-8 decoding as a Go \<open>range\<close> loop over a string does it: a malformed sequence is the
  replacement character, one byte wide.\<close>

definition in_range :: "nat \<Rightarrow> nat \<Rightarrow> byte \<Rightarrow> bool" where
  "in_range lo hi b \<longleftrightarrow> lo \<le> unat b \<and> unat b \<le> hi"

definition rune_error :: "nat \<times> nat" where "rune_error = (0xFFFD, 1)"

fun decode_rune :: "bytes \<Rightarrow> nat \<times> nat" where
  "decode_rune [] = rune_error"
| "decode_rune (b0 # bs) =
     (let n = unat b0 in
      if n < 0x80 then (n, 1)
      else if 0xC2 \<le> n \<and> n \<le> 0xDF then
        (case bs of
           b1 # _ \<Rightarrow> if in_range 0x80 0xBF b1
             then ((n - 0xC0) * 64 + (unat b1 - 0x80), 2) else rune_error
         | _ \<Rightarrow> rune_error)
      else if 0xE0 \<le> n \<and> n \<le> 0xEF then
        (case bs of
           b1 # b2 # _ \<Rightarrow>
             if in_range (if n = 0xE0 then 0xA0 else 0x80) (if n = 0xED then 0x9F else 0xBF) b1
                \<and> in_range 0x80 0xBF b2
             then ((n - 0xE0) * 4096 + (unat b1 - 0x80) * 64 + (unat b2 - 0x80), 3)
             else rune_error
         | _ \<Rightarrow> rune_error)
      else if 0xF0 \<le> n \<and> n \<le> 0xF4 then
        (case bs of
           b1 # b2 # b3 # _ \<Rightarrow>
             if in_range (if n = 0xF0 then 0x90 else 0x80) (if n = 0xF4 then 0x8F else 0xBF) b1
                \<and> in_range 0x80 0xBF b2 \<and> in_range 0x80 0xBF b3
             then ((n - 0xF0) * 262144 + (unat b1 - 0x80) * 4096
                   + (unat b2 - 0x80) * 64 + (unat b3 - 0x80), 4)
             else rune_error
         | _ \<Rightarrow> rune_error)
      else rune_error)"

definition IsControl :: "nat \<Rightarrow> bool" where
  "IsControl r \<longleftrightarrow> r \<le> 0x1F \<or> (0x7F \<le> r \<and> r \<le> 0x9F)"

definition IsSpace :: "nat \<Rightarrow> bool" where
  "IsSpace r \<longleftrightarrow> r \<in> {0x09, 0x0A, 0x0B, 0x0C, 0x0D, 0x20, 0x85, 0xA0, 0x1680, 0x2028, 0x2029,
      0x202F, 0x205F, 0x3000} \<or> (0x2000 \<le> r \<and> r \<le> 0x200A)"

function all_runes_ok :: "bytes \<Rightarrow> bool" where
  "all_runes_ok key =
     (if key = [] then True
      else let (r, w) = decode_rune key in
           if IsControl r \<or> IsSpace r then False else all_runes_ok (drop (max 1 w) key))"
  by pat_completeness auto
termination
  by (relation "measure length") auto

declare all_runes_ok.simps [simp del]

definition MAX_KEY_LEN :: nat where "MAX_KEY_LEN = 250"

definition IsValidKeyString :: "bytes \<Rightarrow> bool" where
  "IsValidKeyString key =
     (if length key = 0 \<or> length key > MAX_KEY_LEN then False
      else if hd key \<le> 32 \<or> hd key = 63 \<or> hd key = 64 then False
      else all_runes_ok key)"

section \<open>Paths and key hashes\<close>

lemma length_ParsePathUint64 [simp]: "length (ParsePathUint64 k) = 16"
  by (simp add: ParsePathUint64_def)

lemma and_15: "x AND 15 = take_bit 4 (x :: 'a::len word)"
  by (simp add: take_bit_eq_mask mask_eq_exp_minus_1)

lemma nibble_unat: "unat (x AND 15 :: u64) = unat x mod 16"
  by (simp add: and_15 unsigned_take_bit_eq) (simp add: take_bit_eq_mod)

lemma ParsePathUint64_nth:
  "i < 16 \<Longrightarrow> ParsePathUint64 k ! i = unat (drop_bit (4 * (15 - i)) k AND 15)"
  by (simp add: ParsePathUint64_def del: upt_Suc)

lemma ParsePathUint64_less [simp]: "p \<in> set (ParsePathUint64 k) \<Longrightarrow> p < 16"
  by (auto simp: ParsePathUint64_def nibble_unat simp del: upt_Suc)

lemma path_offset_ParsePathUint64:
  "n \<le> 16 \<Longrightarrow> path_offset (take n (ParsePathUint64 k)) = unat (drop_bit (64 - 4 * n) k)"
proof (induction n)
  case 0
  have "drop_bit 64 k = 0" by (rule bit_word_eqI) (auto simp: bit_simps dest: bit_imp_le_length)
  then show ?case by simp
next
  case (Suc n)
  let ?x = "drop_bit (4 * (15 - n)) k"
  have "64 - 4 * n = 4 * (15 - n) + 4" using Suc.prems by simp
  then have "drop_bit (64 - 4 * n) k = drop_bit 4 ?x" by (simp add: add.commute)
  then have "unat (drop_bit (64 - 4 * n) k) = drop_bit 4 (unat ?x)"
    by (metis unat_drop_bit_eq)
  then have "unat (drop_bit (64 - 4 * n) k) = unat ?x div 16"
    by (simp add: drop_bit_eq_div [of 4])
  moreover have "64 - 4 * Suc n = 4 * (15 - n)" using Suc.prems by simp
  ultimately show ?case
    using Suc by (simp add: path_offset_take_Suc ParsePathUint64_nth nibble_unat)
qed

lemma bucket_of_path_offset: "bucket_of_path d path = int (path_offset (take d path))"
proof -
  have "foldl (\<lambda>bid v. bid * 16 + int v) (int a) ps = int (foldl (\<lambda>off p. off * 16 + p) a ps)"
    for a ps
  proof (induction ps arbitrary: a)
    case (Cons p ps)
    have "int a * 16 + int p = int (a * 16 + p)" by simp
    then show ?case using Cons [of "a * 16 + p"] by (simp only: foldl_Cons)
  qed simp
  from this [of 0] show ?thesis by (simp add: bucket_of_path_def path_offset_def)
qed

lemma bit_digit: "v < 16 \<Longrightarrow> bit v b \<Longrightarrow> b < 4" for v :: nat
proof -
  assume "v < 16" and "bit v b"
  moreover from this have "take_bit 4 v = v" by (simp add: take_bit_eq_mod)
  ultimately show "b < 4" by (metis bit_take_bit_iff)
qed

lemma khash_of_path_bits:
  assumes "\<forall>v \<in> set vs. v < 16" and "4 * length vs \<le> shift + 4"
  shows "bit (khash_of_path shift vs h) j \<longleftrightarrow> bit h j \<or>
    (\<exists>i < length vs. \<exists>b < 4. j = shift - 4 * i + b \<and> j < 64 \<and> bit (vs ! i) b)"
  using assms
proof (induction shift vs h rule: khash_of_path.induct)
  case (1 shift h)
  then show ?case by simp
next
  case (2 shift v vs h)
  have v: "v < 16" using 2(2) by simp
  note vb = bit_digit [OF v]
  have "vs = [] \<or> 4 \<le> shift" using 2(3) by (cases vs) auto
  then have IH: "bit (khash_of_path (shift - 4) vs (h OR push_bit shift (of_nat v))) j \<longleftrightarrow>
      bit (h OR push_bit shift (of_nat v)) j \<or>
      (\<exists>i < length vs. \<exists>b < 4. j = shift - 4 - 4 * i + b \<and> j < 64 \<and> bit (vs ! i) b)"
    using 2 by auto
  have hd: "bit (push_bit shift (of_nat v :: u64)) j \<longleftrightarrow>
      (\<exists>b < 4. j = shift + b \<and> j < 64 \<and> bit v b)"
    using vb by (auto simp: bit_simps) (metis le_add_diff_inverse)
  have step: "shift - 4 - 4 * i = shift - 4 * Suc i" for i by simp
  show ?case
    unfolding khash_of_path.simps IH bit_or_iff hd step
    by (simp add: Ex_less_Suc2 disj_assoc)
qed

lemma of_nat_digit:
  assumes "v < 16"
  shows "(of_nat (po * 16 + v) :: u64) = push_bit 4 (of_nat po) OR of_nat v"
proof -
  have "push_bit 4 (of_nat po) AND (of_nat v :: u64) = 0"
    by (rule bit_word_eqI) (auto simp: bit_simps dest: bit_digit [OF assms])
  then show ?thesis by (simp add: disjunctive_add_eq_or [symmetric] push_bit_eq_mult mult.commute)
qed

lemma khash_of_path_snoc:
  "khash_of_path shift (vs @ [v]) h = khash_of_path shift vs h OR push_bit (shift - 4 * length vs) (of_nat v)"
  by (induction shift vs h rule: khash_of_path.induct) (simp_all add: or.assoc)

lemma khash_of_path_offset:
  assumes "\<forall>v \<in> set vs. v < 16" and "4 * length vs \<le> shift + 4"
  shows "khash_of_path shift vs 0 = push_bit (shift + 4 - 4 * length vs) (of_nat (path_offset vs))"
  using assms
proof (induction vs rule: rev_induct)
  case (snoc v vs)
  have "v < 16" using snoc.prems by simp
  have "shift + 4 - 4 * length vs = (shift - 4 * length vs) + 4" using snoc.prems(2) by simp
  moreover have "shift + 4 - 4 * length (vs @ [v]) = shift - 4 * length vs" by simp
  moreover have "khash_of_path shift vs 0 = push_bit (shift + 4 - 4 * length vs) (of_nat (path_offset vs))"
    using snoc by simp
  ultimately show ?case
    by (simp only: khash_of_path_snoc path_offset_snoc of_nat_digit [OF \<open>v < 16\<close>] push_bit_or
        push_bit_push_bit)
qed simp

text \<open>The leading digits of a key hash, as \<open>getNodeKhash\<close> rebuilds them from a node's path.\<close>

lemma getNodeKhash_snoc:
  "getNodeKhash (ps @ [p]) = getNodeKhash ps
     + (if length ps \<le> 7 then push_bit (4 * (7 - length ps)) (of_nat p AND 15) else 0)"
proof -
  have m: "map (\<lambda>i. if i \<le> 7 then push_bit (4 * (7 - i)) (of_nat ((ps @ [p]) ! i) AND 15) else 0) [0..<length ps]
      = map (\<lambda>i. if i \<le> 7 then push_bit (4 * (7 - i)) (of_nat (ps ! i) AND 15) else (0 :: u32)) [0..<length ps]"
    by (rule map_cong) (auto simp: nth_append)
  show ?thesis by (simp add: getNodeKhash_def m del: map_eq_conv)
qed

lemma getNodeKhash_bits:
  assumes "n \<le> 8"
  shows "bit (getNodeKhash (take n (ParsePathUint64 k))) j \<longleftrightarrow> 32 - 4 * n \<le> j \<and> j < 32 \<and> bit k (32 + j)"
  using assms
proof (induction n arbitrary: j)
  case 0
  then show ?case by (auto simp: getNodeKhash_def)
next
  case (Suc n)
  let ?P = "ParsePathUint64 k" and ?s = "4 * (7 - n)"
  have n: "n < 16" "n \<le> 7" "length (take n ?P) = n" using Suc.prems by auto
  let ?x = "push_bit ?s (of_nat (?P ! n) AND 15) :: u32"
  have x: "bit ?x i \<longleftrightarrow> ?s \<le> i \<and> i < ?s + 4 \<and> i < 32 \<and> bit k (32 + i)" for i
  proof -
    have "(of_nat (?P ! n) AND 15 :: u32) = take_bit 4 (ucast (drop_bit (4 * (15 - n)) k))"
      using n by (intro bit_word_eqI) (auto simp: ParsePathUint64_nth and_15 bit_simps)
    then have "bit ?x i \<longleftrightarrow> ?s \<le> i \<and> i < 32 \<and> i - ?s < 4 \<and> bit k (4 * (15 - n) + (i - ?s))"
      by (simp only: bit_push_bit_iff bit_take_bit_iff bit_unsigned_iff bit_drop_bit_eq comp_apply
          possible_bit_word) auto
    moreover have "?s \<le> i \<Longrightarrow> 4 * (15 - n) + (i - ?s) = 32 + i" using n by simp
    moreover have "?s \<le> i \<Longrightarrow> i - ?s < 4 \<longleftrightarrow> i < ?s + 4" by arith
    ultimately show ?thesis by metis
  qed
  have IH: "bit (getNodeKhash (take n ?P)) i \<longleftrightarrow> 32 - 4 * n \<le> i \<and> i < 32 \<and> bit k (32 + i)" for i
    using Suc by simp
  have s: "?s + 4 = 32 - 4 * n" "?s = 32 - 4 * Suc n" using n by auto
  have "getNodeKhash (take n ?P) AND ?x = 0"
  proof (rule bit_word_eqI)
    fix i
    have "\<not> (bit (getNodeKhash (take n ?P)) i \<and> bit ?x i)" unfolding IH x s(1) by linarith
    then show "bit (getNodeKhash (take n ?P) AND ?x) i = bit (0 :: u32) i"
      by (simp only: bit_and_iff) simp
  qed
  then have "getNodeKhash (take (Suc n) ?P) = getNodeKhash (take n ?P) OR ?x"
    using n by (simp only: take_Suc_conv_app_nth getNodeKhash_snoc length_ParsePathUint64 if_True
        disjunctive_add_eq_or)
  then have "bit (getNodeKhash (take (Suc n) ?P)) j \<longleftrightarrow>
      (32 - 4 * n \<le> j \<or> ?s \<le> j \<and> j < ?s + 4) \<and> j < 32 \<and> bit k (32 + j)"
    by (simp only: bit_or_iff IH x) blast
  moreover have "32 - 4 * n \<le> j \<or> ?s \<le> j \<and> j < ?s + 4 \<longleftrightarrow> 32 - 4 * Suc n \<le> j"
  proof -
    have "a \<le> j \<or> b \<le> j \<and> j < b' \<longleftrightarrow> b2 \<le> j" if "b' = a" "b = b2" "b2 \<le> a" for a b b' b2 :: nat
      using that by auto
    from this [OF s] show ?thesis by simp
  qed
  ultimately show ?case by (simp only:)
qed

lemma khash_of_path_roundtrip:
  "khash_of_path 60 (ParsePathUint64 k) 0 = k"
proof (rule bit_word_eqI)
  fix j assume "j < LENGTH(64)"
  then have j: "j < 64" by simp
  let ?i = "15 - j div 4"
  have nb: "bit (ParsePathUint64 k ! i) b \<longleftrightarrow> b < 4 \<and> bit k (60 - 4 * i + b)" if "i < 16" for i b
  proof -
    have "4 * (15 - i) = 60 - 4 * i" by simp
    moreover have "bit (unat (take_bit 4 (drop_bit (4 * (15 - i)) k))) b \<longleftrightarrow>
        b < 4 \<and> bit k (4 * (15 - i) + b)"
      by (simp add: bit_unsigned_iff bit_take_bit_iff bit_drop_bit_eq)
    ultimately show ?thesis using that by (simp add: ParsePathUint64_nth and_15)
  qed
  have "bit (khash_of_path 60 (ParsePathUint64 k) 0) j \<longleftrightarrow>
      (\<exists>i < 16. \<exists>b < 4. j = 60 - 4 * i + b \<and> j < 64 \<and> bit (ParsePathUint64 k ! i) b)"
    by (subst khash_of_path_bits) auto
  also have "\<dots> \<longleftrightarrow> (\<exists>i < 16. \<exists>b < 4. j = 60 - 4 * i + b \<and> bit k j)"
    by (intro ex_cong1 conj_cong refl) (use j nb in blast)
  also have "\<dots> \<longleftrightarrow> bit k j"
  proof
    assume "bit k j"
    moreover have "j div 4 \<le> 15" using j by simp
    then have "60 - 4 * ?i = 4 * (j div 4)" by simp
    then have "?i < 16" "j mod 4 < 4" "j = 60 - 4 * ?i + j mod 4" by simp_all
    ultimately show "\<exists>i < 16. \<exists>b < 4. j = 60 - 4 * i + b \<and> bit k j" by blast
  qed auto
  finally show "bit (khash_of_path 60 (ParsePathUint64 k) 0) j = bit k j" .
qed

section \<open>Paths as strings of hexadecimal digits\<close>

lemma char_of_byte: "char_of (unat (of_char ch :: byte)) = ch"
proof -
  have "unat (of_char ch :: byte) = (of_char ch :: nat)"
    by (cases ch) (simp add: of_char_def)
  then show ?thesis by simp
qed

lemma ParseInt_digit: "d < 16 \<Longrightarrow> ParseInt 16 64 [digit_char d] = (int d, None)"
  using digit_char_not_sign [of d] by (simp add: ParseInt_def ParseUint_def)

lemma parse_path_digits:
  "\<forall>d \<in> set ds. d < 16 \<Longrightarrow> parse_path_loop (bytes_of_string (map digit_char ds)) = Inr ds"
  by (induction ds) (simp_all add: bytes_of_string_def char_of_byte ParseInt_digit)

lemma format_nat_16:
  "\<exists>ds. format_nat 16 n = map digit_char ds \<and> path_offset ds = n \<and> (\<forall>d \<in> set ds. d < 16) \<and>
     ds \<noteq> [] \<and> (\<forall>k \<ge> 1. n < 16 ^ k \<longrightarrow> length ds \<le> k)"
proof (induction n rule: less_induct)
  case (less n)
  show ?case
  proof (cases "n < 16")
    case True
    have "format_nat 16 n = map digit_char [n]" using True by (simp add: format_nat.simps)
    moreover have "path_offset [n] = n" by (simp add: path_offset_def)
    ultimately show ?thesis using True by (intro exI [of _ "[n]"]) simp
  next
    case False
    then obtain ds where ds: "format_nat 16 (n div 16) = map digit_char ds" "path_offset ds = n div 16"
        "\<forall>d \<in> set ds. d < 16" "\<And>k. 1 \<le> k \<Longrightarrow> n div 16 < 16 ^ k \<Longrightarrow> length ds \<le> k"
      using less [of "n div 16"] by auto
    have "length (ds @ [n mod 16]) \<le> k" if "1 \<le> k" "n < 16 ^ k" for k
    proof -
      obtain j where k: "k = Suc j" using \<open>1 \<le> k\<close> by (cases k) auto
      have "j \<noteq> 0" using False that(2) k by (cases j) auto
      moreover have "n div 16 < 16 ^ j" using that(2) k by (simp add: less_mult_imp_div_less mult.commute)
      ultimately show ?thesis using ds(4) [of j] k by simp
    qed
    moreover have "format_nat 16 n = map digit_char (ds @ [n mod 16])"
      using False ds(1) by (subst format_nat.simps) simp
    ultimately show ?thesis using ds(2,3) by (intro exI [of _ "ds @ [n mod 16]"]) simp
  qed
qed

lemma path_offset_zeros: "path_offset (replicate j 0 @ ds) = path_offset ds"
proof -
  have "path_offset (replicate j 0) = 0"
    unfolding path_offset_def by (induction j) simp_all
  then show ?thesis by (simp add: path_offset_append)
qed

lemma FormatPad_path: "FormatPad 16 16 (uint k) = map digit_char (ParsePathUint64 k)" for k :: u64
proof -
  obtain ds where ds: "format_nat 16 (unat k) = map digit_char ds" "path_offset ds = unat k"
      "\<forall>d \<in> set ds. d < 16" "\<forall>j \<ge> 1. unat k < 16 ^ j \<longrightarrow> length ds \<le> j"
    using format_nat_16 by blast
  have "unat k < 2 ^ LENGTH(64)" by (rule unsigned_less)
  then have "unat k < 16 ^ 16" by simp
  then have len: "length ds \<le> 16" using ds(4) by simp
  let ?ps = "replicate (16 - length ds) 0 @ ds"
  have "?ps = ParsePathUint64 k"
  proof (rule path_offset_inj)
    have "path_offset (take 16 (ParsePathUint64 k)) = unat k"
      by (subst path_offset_ParsePathUint64) simp_all
    then show "path_offset ?ps = path_offset (ParsePathUint64 k)"
      using ds(2) by (simp add: path_offset_zeros)
  qed (use ds(3) len in auto)
  moreover have "FormatPad 16 16 (uint k) = map digit_char ?ps"
    using ds(1) by (simp add: FormatPad_def pad_zero_def digit_char_0)
  ultimately show ?thesis by simp
qed

text \<open>The sixteen hexadecimal digits that a listing prints for a key hash, given back as a path,
  address the same htree entry as the key itself: \<open>Prepare\<close> computes the same path, key hash and
  bucket for both, and the bucket is the number formed by the leading \<open>TreeDepth\<close> digits.\<close>

theorem Prepare_printed_hash:
  assumes "TreeDepth c \<le> 16" and "s = bytes_of_string (FormatPad 16 16 (uint k))"
  shows "\<exists>ki kp. Prepare c \<lparr>KeyHash = k, KeyIsPath = False, Key = key, StringKey = key, KeyPath = [],
      BucketID = 0\<rparr> = Some (ki, None) \<and>
    Prepare c \<lparr>KeyHash = 0, KeyIsPath = True, Key = s, StringKey = s, KeyPath = [], BucketID = 0\<rparr>
      = Some (kp, None) \<and>
    KeyHash kp = k \<and> KeyPath kp = KeyPath ki \<and> BucketID kp = BucketID ki \<and>
    BucketID ki = uint (drop_bit (64 - 4 * TreeDepth c) k)"
proof -
  have s: "s = bytes_of_string (map digit_char (ParsePathUint64 k))"
    using assms(2) by (simp only: FormatPad_path)
  have "ParsePathString s = Some (Inr (ParsePathUint64 k))"
    using parse_path_digits [of "ParsePathUint64 k"]
    by (simp add: ParsePathString_def s) (simp add: bytes_of_string_def)
  moreover have "bucket_of_path (TreeDepth c) (ParsePathUint64 k) = uint (drop_bit (64 - 4 * TreeDepth c) k)"
    using path_offset_ParsePathUint64 [OF assms(1), of k] by (simp add: bucket_of_path_offset)
  ultimately show ?thesis
    using assms(1) khash_of_path_roundtrip [of k] by (simp add: Prepare_def setKeyHashByPath_def)
qed

theorem Prepare_printed_hash_witness:
  "\<exists>ki kp. Prepare sample_conf
      \<lparr>KeyHash = 0xfe00000000000012, KeyIsPath = False, Key = [97], StringKey = [97], KeyPath = [],
       BucketID = 0\<rparr> = Some (ki, None) \<and>
    Prepare sample_conf
      \<lparr>KeyHash = 0, KeyIsPath = True, Key = bytes_of_string ''fe00000000000012'',
       StringKey = bytes_of_string ''fe00000000000012'', KeyPath = [], BucketID = 0\<rparr> = Some (kp, None) \<and>
    KeyHash kp = 0xfe00000000000012 \<and> KeyPath kp = KeyPath ki \<and> BucketID kp = BucketID ki \<and>
    BucketID ki = uint (drop_bit (64 - 4 * TreeDepth sample_conf) (0xfe00000000000012 :: u64))"
proof (rule Prepare_printed_hash)
  show "TreeDepth sample_conf \<le> 16" by (simp add: sample_conf_def)
  have "FormatPad 16 16 (uint (0xfe00000000000012 :: u64)) = ''fe00000000000012''"
    by (simp add: FormatPad_def pad_zero_def format_nat.simps digit_char_def char_of_def bit_0)
  then show "bytes_of_string ''fe00000000000012'' = bytes_of_string (FormatPad 16 16 (uint (0xfe00000000000012 :: u64)))"
    by (simp only:)
qed

end
