(* ===== verification/Cmem.thy ===== *)
theory Cmem
  imports Config
begin

text \<open>
  Buffers outside the Go heap and their accounting (package \<open>cmem\<close>): \<open>ResourceLimiter\<close> counts
  buffers and bytes, \<open>CArray\<close> is a byte slice that lives in C memory when it is larger than
  \<open>BodyInC\<close>, \<open>BeansdbRL\<close> groups the four counters of the server.  What the C allocator does is
  part of the environment: \<open>malloc\<close> gives the address for a size (0 is a failure) and \<open>junk\<close> the
  bytes found in fresh memory.  The lemmas show that allocation and release balance.
\<close>

section \<open>Definitions\<close>

record ResourceLimiter =
  rl_Count :: int
  rl_Size :: int
  rl_MaxCount :: int
  rl_MaxSize :: int

definition rl_reset :: ResourceLimiter where
  "rl_reset = \<lparr>rl_Count = 0, rl_Size = 0, rl_MaxCount = 0, rl_MaxSize = 0\<rparr>"

definition rl_IsZero :: "ResourceLimiter \<Rightarrow> bool" where
  "rl_IsZero rl \<longleftrightarrow> rl_Count rl = 0 \<and> rl_Size rl = 0"

definition AddSize :: "int \<Rightarrow> ResourceLimiter \<Rightarrow> ResourceLimiter" where
  "AddSize sz rl =
     (let rl' = rl\<lparr>rl_Size := rl_Size rl + sz\<rparr> in
      if rl_Size rl' > rl_MaxSize rl' then rl'\<lparr>rl_MaxSize := rl_Size rl'\<rparr> else rl')"

definition SubSize :: "int \<Rightarrow> ResourceLimiter \<Rightarrow> ResourceLimiter" where
  "SubSize sz rl = rl\<lparr>rl_Size := rl_Size rl - sz\<rparr>"

definition AddCount :: "int \<Rightarrow> ResourceLimiter \<Rightarrow> ResourceLimiter" where
  "AddCount n rl =
     (let rl' = rl\<lparr>rl_Count := rl_Count rl + n\<rparr> in
      if rl_Count rl' > rl_MaxCount rl' then rl'\<lparr>rl_MaxCount := rl_Count rl'\<rparr> else rl')"

definition SubCount :: "int \<Rightarrow> ResourceLimiter \<Rightarrow> ResourceLimiter" where
  "SubCount n rl = rl\<lparr>rl_Count := rl_Count rl - n\<rparr>"

definition AddSizeAndCount :: "int \<Rightarrow> ResourceLimiter \<Rightarrow> ResourceLimiter" where
  "AddSizeAndCount sz rl = AddCount 1 (AddSize sz rl)"

definition SubSizeAndCount :: "int \<Rightarrow> ResourceLimiter \<Rightarrow> ResourceLimiter" where
  "SubSizeAndCount sz rl = SubCount 1 (SubSize sz rl)"

record BeansdbRL =
  AllocRL :: ResourceLimiter
  GetData :: ResourceLimiter
  SetData :: ResourceLimiter
  FlushData :: ResourceLimiter

definition ResetAll :: BeansdbRL where
  "ResetAll = \<lparr>AllocRL = rl_reset, GetData = rl_reset, SetData = rl_reset, FlushData = rl_reset\<rparr>"

definition dbrl_IsZero :: "BeansdbRL \<Rightarrow> bool" where
  "dbrl_IsZero d \<longleftrightarrow> rl_IsZero (FlushData d) \<and> rl_IsZero (SetData d) \<and> rl_IsZero (GetData d) \<and>
     rl_IsZero (AllocRL d)"

record CArray =
  Body :: bytes
  Addr :: nat
  Cap :: int

definition nil_array :: CArray where
  "nil_array = \<lparr>Body = [], Addr = 0, Cap = 0\<rparr>"

record MemEnv =
  malloc :: "int \<Rightarrow> nat"
  junk :: "nat \<Rightarrow> byte"

text \<open>\<open>Alloc\<close>: a negative size makes \<open>make\<close> panic (outer \<open>None\<close>); the inner result is the array, or
  nothing where \<open>malloc\<close> failed and \<open>Alloc\<close> returned false.\<close>

definition Alloc ::
    "MCConfig \<Rightarrow> MemEnv \<Rightarrow> int \<Rightarrow> BeansdbRL \<Rightarrow> (CArray option \<times> BeansdbRL) option" where
  "Alloc mc e sz d =
     (if sz \<le> BodyInC mc then
        (if sz < 0 then None
         else Some (Some \<lparr>Body = replicate (nat sz) 0, Addr = 0, Cap = sz\<rparr>, d))
      else if malloc e sz = 0 then Some (None, d)
      else Some (Some \<lparr>Body = map (junk e) [0..<nat sz], Addr = malloc e sz, Cap = sz\<rparr>,
             d\<lparr>AllocRL := AddSizeAndCount sz (AllocRL d)\<rparr>))"

definition Free :: "CArray \<Rightarrow> BeansdbRL \<Rightarrow> CArray \<times> BeansdbRL" where
  "Free arr d =
     (if Addr arr \<noteq> 0
      then (nil_array, d\<lparr>AllocRL := SubSizeAndCount (Cap arr) (AllocRL d)\<rparr>)
      else (arr, d))"

definition Clear :: "CArray \<Rightarrow> CArray" where
  "Clear arr = arr\<lparr>Addr := 0, Body := []\<rparr>"

text \<open>\<open>Copy\<close>: an array in Go memory is copied with a capacity of 0 (\<open>Cap\<close> is not set there).\<close>

definition CArray_Copy ::
    "MCConfig \<Rightarrow> MemEnv \<Rightarrow> CArray \<Rightarrow> BeansdbRL \<Rightarrow> (CArray option \<times> BeansdbRL) option" where
  "CArray_Copy mc e arr d =
     (if Addr arr = 0 then Some (Some \<lparr>Body = Body arr, Addr = 0, Cap = 0\<rparr>, d)
      else map_option (\<lambda>(r, d'). (map_option (\<lambda>a. a\<lparr>Body := Body arr\<rparr>) r, d'))
             (Alloc mc e (int (length (Body arr))) d))"

section \<open>Balance\<close>

lemmas rl_defs = AddSize_def SubSize_def AddCount_def SubCount_def AddSizeAndCount_def
  SubSizeAndCount_def Let_def

lemma rl_sizes [simp]:
  "rl_Size (AddSize n rl) = rl_Size rl + n" "rl_Count (AddSize n rl) = rl_Count rl"
  "rl_Size (SubSize n rl) = rl_Size rl - n" "rl_Count (SubSize n rl) = rl_Count rl"
  "rl_Size (AddCount n rl) = rl_Size rl" "rl_Count (AddCount n rl) = rl_Count rl + n"
  "rl_Size (SubCount n rl) = rl_Size rl" "rl_Count (SubCount n rl) = rl_Count rl - n"
  "rl_Size (AddSizeAndCount n rl) = rl_Size rl + n"
  "rl_Count (AddSizeAndCount n rl) = rl_Count rl + 1"
  "rl_Size (SubSizeAndCount n rl) = rl_Size rl - n"
  "rl_Count (SubSizeAndCount n rl) = rl_Count rl - 1"
  by (auto simp: rl_defs)

lemma Alloc_length:
  "Alloc mc e sz d = Some (Some a, d') \<Longrightarrow> 0 \<le> sz \<Longrightarrow> int (length (Body a)) = sz \<and> Cap a = sz"
  by (auto simp: Alloc_def split: if_splits)

lemma Alloc_Free_balance:
  assumes "Alloc mc e sz d = Some (Some a, d')" and "Free a d' = (a', d'')"
  shows "rl_Size (AllocRL d'') = rl_Size (AllocRL d)" "rl_Count (AllocRL d'') = rl_Count (AllocRL d)"
    and "Addr a' = 0"
  using assms by (auto simp: Alloc_def Free_def nil_array_def split: if_splits)

lemma CArray_Copy_Body:
  "CArray_Copy mc e arr d = Some (Some a, d') \<Longrightarrow> Body a = Body arr"
  by (auto simp: CArray_Copy_def split: if_splits)

end
