(* ===== verification/Item.thy ===== *)
theory Item
  imports Key Cmem
begin

text \<open>
  Records and their parts (\<open>store/item.go\<close>, with the size header read by \<open>quicklz/quicklz.go\<close> and
  the wrappers of \<open>quicklz/cquicklz.go\<close>): metadata, positions, payloads, record sizes, the value
  hash, and the decision to compress a body.  The C functions \<open>qlz_compress\<close> and \<open>qlz_decompress\<close>,
  the content sniffer of \<open>net/http\<close> and the key hash in use are fields of the environment record
  \<open>Env\<close>; \<open>qlz_ok\<close> states what is documented of the compressor.  The lemmas give the alignment of
  record sizes and show that compression is transparent.
\<close>

unbundle bit_operations_syntax

section \<open>Definitions\<close>

datatype StoreErr =
    AllocErr | DecompressErr | OpenErr | ReadHeadErr | BadKeySize | BadValueSize | ReadBodyErr
  | CrcErr | UnexpectedEOF | BufferErr | BadHtreeItem | NotFoundErr | HintReadErr | AbortErr | GCRangeErr

record Position =
  ChunkID :: int
  Offset :: u32

record Meta =
  TS :: u32
  Flag :: u32
  Ver :: i32
  ValueHash :: u16
  RecSize :: u32

record HintItemMeta =
  it_Keyhash :: u64
  it_Pos :: Position
  it_Ver :: i32
  it_Vhash :: u16

type_synonym HTreeItem = HintItemMeta

record HintItem = HintItemMeta +
  it_Key :: bytes

definition newHintItem :: "u64 \<Rightarrow> i32 \<Rightarrow> u16 \<Rightarrow> Position \<Rightarrow> bytes \<Rightarrow> HintItem" where
  "newHintItem khash ver vhash pos key =
     \<lparr>it_Keyhash = khash, it_Pos = pos, it_Ver = ver, it_Vhash = vhash, it_Key = key\<rparr>"

definition CmpKey :: "Position \<Rightarrow> int" where
  "CmpKey pos = ChunkID pos * 2 ^ 32 + uint (Offset pos)"

record Payload = Meta +
  carr :: CArray

record Record =
  rKey :: bytes
  rPayload :: Payload

record Env =
  mcconf :: MCConfig
  conf :: HStoreConfig
  memenv :: MemEnv
  qlz_compress :: "bytes \<Rightarrow> bytes"
  qlz_decompress :: "bytes \<Rightarrow> bytes"
  detectContentType :: "bytes \<Rightarrow> string"
  getKeyHash :: "bytes \<Rightarrow> u64"

definition FLAG_INCR :: u32 where "FLAG_INCR = 0x204"
definition FLAG_COMPRESS :: u32 where "FLAG_COMPRESS = 0x10000"
definition FLAG_CLIENT_COMPRESS :: u32 where "FLAG_CLIENT_COMPRESS = 0x10"
definition TRY_COMPRESS_SIZE :: nat where "TRY_COMPRESS_SIZE = 10240"
definition CompressBufferSize :: int where "CompressBufferSize = 528400"

abbreviation pBody :: "'a Payload_scheme \<Rightarrow> bytes" where
  "pBody p \<equiv> Body (carr p)"

text \<open>\<open>Record.Sizes\<close>: the size of the record and the size rounded up to 256 bytes, in \<open>uint32\<close>
  arithmetic.\<close>

definition Sizes :: "Record \<Rightarrow> u32 \<times> u32" where
  "Sizes rec =
     (let recSize = of_nat (24 + length (rKey rec) + length (pBody (rPayload rec)))
      in (recSize, push_bit 8 (drop_bit 8 (recSize + 255))))"

definition rec_Size :: "Record \<Rightarrow> u32" where
  "rec_Size rec = snd (Sizes rec)"

definition Getvhash :: "bytes \<Rightarrow> u16" where
  "Getvhash v =
     (let l = length v; h = (of_nat l :: u32) * 97 in
      ucast (if l \<le> 1024 then h + fnv1a v
             else (h + fnv1a (take 512 v)) * 97 + fnv1a (drop (l - 512) v)))"

definition CalcValueHash :: "Payload \<Rightarrow> Payload" where
  "CalcValueHash p = p\<lparr>ValueHash := Getvhash (pBody p)\<rparr>"

definition IsCompressed :: "Payload \<Rightarrow> bool" where
  "IsCompressed p \<longleftrightarrow> Flag p AND FLAG_COMPRESS \<noteq> 0"

text \<open>The QuickLZ header: \<open>fastRead\<close> of up to four bytes, out-of-range reads panic.\<close>

definition fastRead :: "bytes \<Rightarrow> nat \<Rightarrow> nat \<Rightarrow> int option" where
  "fastRead a i numbytes =
     (if i + numbytes \<le> length a then Some (uint (get_le (slice i (i + numbytes) a) :: u64))
      else None)"

definition headerLen :: "bytes \<Rightarrow> nat option" where
  "headerLen source = map_option (\<lambda>b. if b AND 2 = 2 then 9 else 3) (nth_opt source 0)"

definition SizeDecompressed :: "bytes \<Rightarrow> int option" where
  "SizeDecompressed source =
     do { l \<leftarrow> headerLen source; if l = 9 then fastRead source 5 4 else fastRead source 2 1 }"

definition SizeCompressed :: "bytes \<Rightarrow> int option" where
  "SizeCompressed source =
     do { l \<leftarrow> headerLen source; if l = 9 then fastRead source 1 4 else fastRead source 1 1 }"

definition DiffSizeAfterDecompressed :: "Payload \<Rightarrow> int option" where
  "DiffSizeAfterDecompressed p =
     (if IsCompressed p then map_option (\<lambda>n. n - Cap (carr p)) (SizeDecompressed (pBody p))
      else Some 0)"

text \<open>\<open>CCompress\<close>: an inner \<open>None\<close> is \<open>ok = false\<close>; the outer \<open>None\<close> is the panic of \<open>&src[0]\<close> on an
  empty source, or of a compressor output longer than the buffer.  Where the scratch buffer
  cannot be allocated the array allocated first stays allocated.\<close>

definition CCompress ::
    "Env \<Rightarrow> bytes \<Rightarrow> BeansdbRL \<Rightarrow> (CArray option \<times> BeansdbRL) option" where
  "CCompress e src d = do {
     (r, d1) \<leftarrow> Alloc (mcconf e) (memenv e) (int (length src) + 400) d;
     case r of
       None \<Rightarrow> Some (None, d1)
     | Some dst \<Rightarrow>
         if malloc (memenv e) CompressBufferSize = 0 then Some (None, d1)
         else if src = [] \<or> length (qlz_compress e src) > length src + 400 then None
         else Some (Some (dst\<lparr>Body := qlz_compress e src\<rparr>), d1)
   }"

definition CDecompress ::
    "Env \<Rightarrow> bytes \<Rightarrow> int \<Rightarrow> BeansdbRL \<Rightarrow> ((CArray \<times> StoreErr option) \<times> BeansdbRL) option" where
  "CDecompress e src sizeD d = do {
     (r, d1) \<leftarrow> Alloc (mcconf e) (memenv e) sizeD d;
     case r of
       None \<Rightarrow> Some ((nil_array, Some AllocErr), d1)
     | Some dst \<Rightarrow>
         if src = [] \<or> Body dst = [] then None
         else if int (length (qlz_decompress e src)) \<noteq> sizeD
           then Some ((dst, Some DecompressErr), d1)
         else Some ((dst\<lparr>Body := qlz_decompress e src\<rparr>, None), d1)
   }"

text \<open>\<open>CDecompressSafe\<close> recovers every panic of its body into an error and the zero array.\<close>

definition CDecompressSafe ::
    "Env \<Rightarrow> bytes \<Rightarrow> BeansdbRL \<Rightarrow> (CArray \<times> StoreErr option) \<times> BeansdbRL" where
  "CDecompressSafe e src d =
     (case SizeCompressed src of
        None \<Rightarrow> ((nil_array, Some DecompressErr), d)
      | Some sizeC \<Rightarrow>
          if int (length src) \<noteq> sizeC then ((nil_array, Some DecompressErr), d)
          else case SizeDecompressed src of
                 None \<Rightarrow> ((nil_array, Some DecompressErr), d)
               | Some sizeD \<Rightarrow>
                   (case CDecompress e src sizeD d of
                      None \<Rightarrow> ((nil_array, Some DecompressErr), d)
                    | Some r \<Rightarrow> r))"

definition NeedCompress :: "Env \<Rightarrow> bytes \<Rightarrow> bool" where
  "NeedCompress e header \<longleftrightarrow> \<not> NotCompress (conf e) (detectContentType e header)"

text \<open>\<open>float32(len(compressed.Body))/float32(len(try)) > COMPRESS_RATIO_LIMIT\<close>.  Both lengths are
  below \<open>2^24\<close>, so their conversion is exact; the nearest \<open>float32\<close> to 0.7 is \<open>11744051 / 2^24\<close>, and a
  quotient rounds to something larger exactly from the midpoint to the next \<open>float32\<close> on (the
  tie rounds up, to the even significand).\<close>

definition ratio_too_big :: "nat \<Rightarrow> nat \<Rightarrow> bool" where
  "ratio_too_big cmp try \<longleftrightarrow> 23488103 * try \<le> cmp * 2 ^ 25"

text \<open>\<open>Record.TryCompress\<close>: the record with its payload after the call.\<close>

definition TryCompress :: "Env \<Rightarrow> Record \<Rightarrow> BeansdbRL \<Rightarrow> (Record \<times> BeansdbRL) option" where
  "TryCompress e rec d =
     (let p = rPayload rec; body = pBody p;
          try = (if length body > TRY_COMPRESS_SIZE then take TRY_COMPRESS_SIZE body else body) in
      if Ver p <s 0 then Some (rec, d)
      else if Flag p AND FLAG_CLIENT_COMPRESS \<noteq> 0 \<or> Flag p AND FLAG_COMPRESS \<noteq> 0 then Some (rec, d)
      else if rec_Size rec \<le> 256 then Some (rec, d)
      else if \<not> NeedCompress e try then Some (rec, d)
      else do {
        (r, d1) \<leftarrow> CCompress e try d;
        case r of
          None \<Rightarrow> Some (rec, d1)
        | Some cmp \<Rightarrow>
            if ratio_too_big (length (Body cmp)) (length try)
            then Some (rec, snd (Free cmp d1))
            else do {
              (r2, d2) \<leftarrow> (if length body > length try
                 then CCompress e body (snd (Free cmp d1)) else Some (Some cmp, d1));
              case r2 of
                None \<Rightarrow> Some (rec, d2)
              | Some cmp2 \<Rightarrow>
                  Some (rec\<lparr>rPayload := p\<lparr>carr := cmp2, Flag := Flag p + FLAG_COMPRESS\<rparr>\<rparr>,
                        snd (Free (carr p) d2))
            }
      })"

definition Decompress ::
    "Env \<Rightarrow> Payload \<Rightarrow> BeansdbRL \<Rightarrow> (Payload \<times> StoreErr option) \<times> BeansdbRL" where
  "Decompress e p d =
     (if Flag p AND FLAG_COMPRESS = 0 then ((p, None), d)
      else case CDecompressSafe e (pBody p) d of
             ((arr, Some err), d1) \<Rightarrow> ((p, Some err), d1)
           | ((arr, None), d1) \<Rightarrow>
               ((p\<lparr>carr := arr, Flag := Flag p - FLAG_COMPRESS\<rparr>, None),
                snd (Free (carr p) d1)))"

definition Payload_Getvhash :: "Env \<Rightarrow> Payload \<Rightarrow> BeansdbRL \<Rightarrow> u16 \<times> BeansdbRL" where
  "Payload_Getvhash e p d =
     (if Ver p <s 0 then (0, d)
      else if Flag p AND FLAG_COMPRESS = 0 then (Getvhash (pBody p), d)
      else case CDecompressSafe e (pBody p) d of
             ((arr, _), d1) \<Rightarrow> (Getvhash (Body arr), snd (Free arr d1)))"

definition Payload_Copy ::
    "Env \<Rightarrow> Payload \<Rightarrow> BeansdbRL \<Rightarrow> (Payload option \<times> BeansdbRL) option" where
  "Payload_Copy e p d =
     map_option (\<lambda>(r, d1). (map_option (\<lambda>a. p\<lparr>carr := a\<rparr>) r, d1))
       (CArray_Copy (mcconf e) (memenv e) (carr p) d)"

text \<open>What the documentation of QuickLZ promises of a non-empty input of less than 4 GB: the output starts with a
  header that states both sizes, decompression returns the input, and the output is at most 400
  bytes longer.\<close>

definition qlz_ok :: "Env \<Rightarrow> bool" where
  "qlz_ok e \<longleftrightarrow> (\<forall>x. x \<noteq> [] \<and> length x + 400 < 2 ^ 32 \<longrightarrow>
     SizeCompressed (qlz_compress e x) = Some (int (length (qlz_compress e x))) \<and>
     SizeDecompressed (qlz_compress e x) = Some (int (length x)) \<and>
     length (qlz_compress e x) \<le> length x + 400 \<and>
     qlz_decompress e (qlz_compress e x) = x)"

text \<open>A concrete environment, for witnesses: a compressor that writes one byte for a run of equal
  bytes and copies everything else.\<close>

definition toy_header :: "nat \<Rightarrow> nat \<Rightarrow> bytes" where
  "toy_header sizeC sizeD = put_le 4 (of_nat sizeC :: u32) @ put_le 4 (of_nat sizeD :: u32)"

definition toy_compress :: "bytes \<Rightarrow> bytes" where
  "toy_compress x =
     (if x = replicate (length x) (hd x) then 3 # toy_header 10 (length x) @ [hd x]
      else 2 # toy_header (length x + 9) (length x) @ x)"

definition toy_decompress :: "bytes \<Rightarrow> bytes" where
  "toy_decompress y =
     (if hd y = 3 then replicate (unat (get_le (slice 5 9 y) :: u32)) (last y) else drop 9 y)"

definition toy_env :: Env where
  "toy_env = \<lparr>mcconf = \<lparr>MaxKeyLen = 250, MaxReq = 16, BodyMax = 52428800, BodyBig = 1048576,
       BodyInC = 4096, FlushMax = 104857600, TimeoutMS = 3000\<rparr>,
     conf = sample_conf,
     memenv = \<lparr>malloc = (\<lambda>_. 4096), junk = (\<lambda>_. 0)\<rparr>,
     qlz_compress = toy_compress,
     qlz_decompress = toy_decompress,
     detectContentType = (\<lambda>_. ''text/plain; charset=utf-8''),
     getKeyHash = (\<lambda>k. get_le (take 8 k))\<rparr>"

section \<open>Record sizes\<close>

lemma align_unat:
  fixes x :: u32
  assumes "unat x + 255 < 2 ^ 32"
  shows "unat (push_bit 8 (drop_bit 8 (x + 255))) = (unat x + 255) div 256 * 256"
proof -
  have u: "unat (x + 255) = unat x + 255" using assms by (simp add: unat_word_ariths)
  have "unat (drop_bit 8 (x + 255)) = (unat x + 255) div 256"
    by (subst unat_drop_bit_eq) (simp add: drop_bit_eq_div u)
  moreover have "(unat x + 255) div 256 * 256 < 2 ^ 32" using assms by simp
  ultimately show ?thesis
    by (simp add: push_bit_eq_mult unat_word_ariths mult.commute)
qed

lemma Sizes_unat:
  assumes "24 + length (rKey rec) + length (pBody (rPayload rec)) + 255 < 2 ^ 32"
  shows "unat (fst (Sizes rec)) = 24 + length (rKey rec) + length (pBody (rPayload rec))"
    and "unat (snd (Sizes rec)) = (24 + length (rKey rec) + length (pBody (rPayload rec)) + 255) div 256 * 256"
proof -
  show f: "unat (fst (Sizes rec)) = 24 + length (rKey rec) + length (pBody (rPayload rec))"
    using assms unat_of_nat [where 'a = 32,
        of "24 + length (rKey rec) + length (pBody (rPayload rec))"]
    by (simp add: Sizes_def Let_def)
  have "snd (Sizes rec) = push_bit 8 (drop_bit 8 (fst (Sizes rec) + 255))"
    by (simp add: Sizes_def Let_def)
  then show "unat (snd (Sizes rec)) =
      (24 + length (rKey rec) + length (pBody (rPayload rec)) + 255) div 256 * 256"
    using align_unat [of "fst (Sizes rec)"] assms f by simp
qed

lemma Sizes_aligned: "snd (Sizes rec) AND 255 = 0"
proof -
  have "push_bit 8 x AND mask 8 = 0" for x :: u32
    by (rule bit_word_eqI) (auto simp: bit_simps)
  then show ?thesis by (simp add: Sizes_def Let_def mask_eq_exp_minus_1)
qed

section \<open>Compression\<close>

lemma flag_add_compress:
  assumes "f AND FLAG_COMPRESS = 0"
  shows "(f + FLAG_COMPRESS) AND FLAG_COMPRESS \<noteq> 0" and "f + FLAG_COMPRESS - FLAG_COMPRESS = f"
proof -
  have "f + FLAG_COMPRESS = f OR FLAG_COMPRESS" using assms by (rule disjunctive_add_eq_or)
  then have "(f + FLAG_COMPRESS) AND FLAG_COMPRESS = FLAG_COMPRESS"
    by (simp add: bit.conj_disj_distrib2)
  then show "(f + FLAG_COMPRESS) AND FLAG_COMPRESS \<noteq> 0" by (simp add: FLAG_COMPRESS_def)
qed simp

lemma CCompress_Body:
  "CCompress e src d = Some (Some a, d') \<Longrightarrow> Body a = qlz_compress e src \<and> src \<noteq> []"
  by (auto simp: CCompress_def split: bind_splits option.splits if_splits)

text \<open>\<open>TryCompress\<close> leaves a record as it is or replaces its body by the compressed body.\<close>

lemma TryCompress_cases:
  assumes "TryCompress e rec d = Some (rec', d')"
  shows "rec' = rec \<or>
    (pBody (rPayload rec) \<noteq> [] \<and> Flag (rPayload rec) AND FLAG_COMPRESS = 0 \<and>
     pBody (rPayload rec') = qlz_compress e (pBody (rPayload rec)) \<and>
     rec' = rec\<lparr>rPayload := rPayload rec\<lparr>carr := carr (rPayload rec'),
       Flag := Flag (rPayload rec) + FLAG_COMPRESS\<rparr>\<rparr>)"
  using assms
  by (auto simp: TryCompress_def Let_def split: bind_splits option.splits if_splits
      dest!: CCompress_Body)

lemma CDecompressSafe_compressed:
  assumes "qlz_ok e" and "x \<noteq> []" and "length x + 400 < 2 ^ 32"
    and "CDecompressSafe e (qlz_compress e x) d = ((arr, err), d')"
  shows "err = Some AllocErr \<or> (err = None \<and> Body arr = x)"
proof -
  have q: "SizeCompressed (qlz_compress e x) = Some (int (length (qlz_compress e x)))"
      "SizeDecompressed (qlz_compress e x) = Some (int (length x))"
      "qlz_decompress e (qlz_compress e x) = x"
    using assms(1,2,3) by (auto simp: qlz_ok_def)
  have ne: "qlz_compress e x \<noteq> []"
    using q(1) by (auto simp: SizeCompressed_def headerLen_def nth_opt_def)
  show ?thesis
  proof (cases "Alloc (mcconf e) (memenv e) (int (length x)) d")
    case None
    then show ?thesis using assms(2,4) q ne
      by (auto simp: CDecompressSafe_def CDecompress_def Alloc_def split: if_splits)
  next
    case (Some r)
    obtain ro d1 where r: "r = (ro, d1)" by (cases r)
    show ?thesis
    proof (cases ro)
      case None
      then show ?thesis using assms(4) q Some r
        by (simp add: CDecompressSafe_def CDecompress_def)
    next
      case (Some a)
      then have "length (Body a) = length x"
        using Alloc_length [of "mcconf e" "memenv e" "int (length x)" d a d1]
          \<open>Alloc _ _ _ d = Some r\<close> r by simp
      then have "Body a \<noteq> []" using assms(2) by auto
      then show ?thesis using assms(4) q Some r \<open>Alloc _ _ _ d = Some r\<close> ne
        by (auto simp: CDecompressSafe_def CDecompress_def)
    qed
  qed
qed

text \<open>C18: compression is transparent.  Whatever \<open>TryCompress\<close> does to a record whose body is not
  already compressed, decompressing its payload afterwards fails only for lack of memory, and
  otherwise gives the original body, flags and metadata back.\<close>

theorem compress_transparent:
  assumes "qlz_ok e" and "Flag (rPayload rec) AND FLAG_COMPRESS = 0"
    and "length (pBody (rPayload rec)) + 400 < 2 ^ 32"
    and "TryCompress e rec d = Some (rec', d')"
    and "Decompress e (rPayload rec') d1 = ((p, err), d2)"
  shows "rKey rec' = rKey rec \<and> (err = Some AllocErr \<or>
     (err = None \<and> pBody p = pBody (rPayload rec) \<and> Flag p = Flag (rPayload rec) \<and>
      Ver p = Ver (rPayload rec) \<and> TS p = TS (rPayload rec) \<and>
      ValueHash p = ValueHash (rPayload rec)))"
  using TryCompress_cases [OF assms(4)]
proof (elim disjE conjE)
  assume "rec' = rec"
  then show ?thesis using assms(2,5) by (auto simp: Decompress_def)
next
  let ?a = "carr (rPayload rec')"
  assume a: "pBody (rPayload rec) \<noteq> []" "Flag (rPayload rec) AND FLAG_COMPRESS = 0"
    "Body ?a = qlz_compress e (pBody (rPayload rec))"
    "rec' = rec\<lparr>rPayload := rPayload rec\<lparr>carr := ?a, Flag := Flag (rPayload rec) + FLAG_COMPRESS\<rparr>\<rparr>"
  obtain arr er d3 where c:
      "CDecompressSafe e (qlz_compress e (pBody (rPayload rec))) d1 = ((arr, er), d3)"
    by (metis prod.collapse)
  from CDecompressSafe_compressed [OF assms(1) a(1) assms(3) c]
  moreover have p: "Flag (rPayload rec') = Flag (rPayload rec) + FLAG_COMPRESS"
      "Ver (rPayload rec') = Ver (rPayload rec)" "TS (rPayload rec') = TS (rPayload rec)"
      "ValueHash (rPayload rec') = ValueHash (rPayload rec)" "rKey rec' = rKey rec"
    by (subst a(4), simp)+
  ultimately show ?thesis using a(3) c assms(5) flag_add_compress [OF a(2)]
    by (auto simp: Decompress_def split: option.splits)
qed

lemma toy_header_sizes:
  assumes "sizeC < 2 ^ 32" and "sizeD < 2 ^ 32" and "b AND 2 = 2"
  shows "SizeCompressed (b # toy_header sizeC sizeD @ x) = Some (int sizeC)"
    and "SizeDecompressed (b # toy_header sizeC sizeD @ x) = Some (int sizeD)"
    and "slice 5 9 (b # toy_header sizeC sizeD @ x) = put_le 4 (of_nat sizeD :: u32)"
proof -
  let ?h = "\<lambda>n. put_le 4 (of_nat n :: u32)"
  have val: "uint (get_le (?h n) :: u64) = int n" if "n < 2 ^ 32" for n
  proof -
    have "(get_le (?h n) :: u64) = ucast (get_le (?h n) :: u32)"
      by (rule bit_word_eqI) (auto simp: bit_get_le bit_simps simp del: get_put_le)
    then have "uint (get_le (?h n) :: u64) = uint (of_nat n :: u32)"
      by (simp add: uint_up_ucast is_up)
    then show ?thesis using that by (simp add: unsigned_of_nat take_bit_nat_eq_self)
  qed
  have s1: "slice 1 5 (b # toy_header sizeC sizeD @ x) = ?h sizeC"
    using slice_append_mid [of "[b]" 1 "?h sizeC" 5] by (simp add: toy_header_def)
  show s2: "slice 5 9 (b # toy_header sizeC sizeD @ x) = ?h sizeD"
    using slice_append_mid [of "b # ?h sizeC" 5 "?h sizeD" 9] by (simp add: toy_header_def)
  have "length (toy_header sizeC sizeD) = 8" by (simp add: toy_header_def)
  then show "SizeCompressed (b # toy_header sizeC sizeD @ x) = Some (int sizeC)"
    "SizeDecompressed (b # toy_header sizeC sizeD @ x) = Some (int sizeD)"
    using assms s1 s2 val [of sizeC] val [of sizeD]
    by (simp_all add: SizeCompressed_def SizeDecompressed_def headerLen_def nth_opt_def fastRead_def)
qed

lemma toy_env_qlz: "qlz_ok toy_env"
proof -
  have "SizeCompressed (toy_compress x) = Some (int (length (toy_compress x))) \<and>
      SizeDecompressed (toy_compress x) = Some (int (length x)) \<and>
      length (toy_compress x) \<le> length x + 400 \<and> toy_decompress (toy_compress x) = x"
    if "x \<noteq> []" and b: "length x + 400 < 2 ^ 32" for x
  proof (cases "x = replicate (length x) (hd x)")
    case True
    have "unat (of_nat (length x) :: u32) = length x" using b by (simp add: unat_of_nat)
    then show ?thesis
      using True b toy_header_sizes [of 10 "length x" 3 "[hd x]"]
      by (simp add: toy_compress_def toy_decompress_def toy_header_def)
  next
    case False
    then show ?thesis
      using b toy_header_sizes [of "length x + 9" "length x" 2 x]
      by (simp add: toy_compress_def toy_decompress_def toy_header_def)
  qed
  then show ?thesis by (simp add: qlz_ok_def toy_env_def)
qed

text \<open>A record with an empty body and a key long enough to make it larger than 256 bytes makes
  \<open>TryCompress\<close> panic (\<open>CCompress\<close> takes the address of element 0 of an empty slice) whenever the
  sniffed type may be compressed and memory is available.\<close>

theorem TryCompress_empty_body_panics:
  assumes "pBody (rPayload rec) = []" and "232 < length (rKey rec)" and "length (rKey rec) \<le> 250"
    and "0 \<le>s Ver (rPayload rec)" and "Flag (rPayload rec) = 0"
    and "NeedCompress e []" and "400 \<le> BodyInC (mcconf e)"
    and "malloc (memenv e) CompressBufferSize \<noteq> 0"
  shows "TryCompress e rec d = None"
proof -
  have "unat (rec_Size rec) = (24 + length (rKey rec) + 255) div 256 * 256"
    using Sizes_unat(2) [of rec] assms(1,3) by (simp add: rec_Size_def)
  also have "\<dots> = 512" using assms(2,3) by simp
  finally have "\<not> rec_Size rec \<le> 256" by (simp add: word_le_nat_alt)
  moreover have "CCompress e [] d = None"
    using assms(7,8) by (simp add: CCompress_def Alloc_def)
  moreover have "\<not> Ver (rPayload rec) <s 0" using assms(4) by (simp add: word_sless_alt word_sle_eq)
  ultimately show ?thesis using assms by (simp add: TryCompress_def)
qed

text \<open>The witnesses: a record of 300 equal bytes that the toy compressor shrinks to ten, and an
  empty value under a 240-byte key.\<close>

theorem compress_transparent_witness:
  "let rec = \<lparr>rKey = [107], rPayload = \<lparr>TS = 5, Flag = 3, Ver = 1, ValueHash = 9, RecSize = 0,
       carr = \<lparr>Body = replicate 300 7, Addr = 0, Cap = 300\<rparr>\<rparr>\<rparr>
   in \<exists>rec' d' p d2. TryCompress toy_env rec ResetAll = Some (rec', d') \<and>
      length (pBody (rPayload rec')) = 10 \<and>
      Decompress toy_env (rPayload rec') d' = ((p, None), d2) \<and>
      pBody p = replicate 300 7 \<and> Flag p = 3 \<and> Ver p = 1 \<and> TS p = 5 \<and> ValueHash p = 9"
proof -
  let ?rec = "\<lparr>rKey = [107], rPayload = \<lparr>TS = 5, Flag = 3, Ver = 1, ValueHash = 9, RecSize = 0,
       carr = \<lparr>Body = replicate 300 7, Addr = 0, Cap = 300\<rparr>\<rparr>\<rparr>"
  have z: "rec_Size ?rec = 512" by (simp add: rec_Size_def Sizes_def)
  have t: "toy_compress (replicate 300 7) = 3 # toy_header 10 300 @ [7]"
    by (simp add: toy_compress_def)
  have l: "length (3 # toy_header 10 300 @ [7]) = 10" by (simp add: toy_header_def)
  let ?rec' = "?rec\<lparr>rPayload := rPayload ?rec\<lparr>carr := \<lparr>Body = 3 # toy_header 10 300 @ [7],
      Addr = 0, Cap = 700\<rparr>, Flag := 0x10003\<rparr>\<rparr>"
  have c: "TryCompress toy_env ?rec ResetAll = Some (?rec', ResetAll)"
    using l by (simp add: TryCompress_def z t CCompress_def Alloc_def toy_env_def sample_conf_def NeedCompress_def
        TRY_COMPRESS_SIZE_def FLAG_COMPRESS_def FLAG_CLIENT_COMPRESS_def ratio_too_big_def Free_def
        Let_def word_sless_alt)
  obtain p err d2 where dc: "Decompress toy_env (rPayload ?rec') ResetAll = ((p, err), d2)"
    by (metis prod.collapse)
  have ne: "err \<noteq> Some AllocErr"
    using dc l toy_header_sizes [of 10 300 3 "[7]"]
    by (auto simp: Decompress_def CDecompressSafe_def CDecompress_def Alloc_def toy_env_def
        FLAG_COMPRESS_def split: if_splits)
  have "rKey ?rec' = rKey ?rec \<and> (err = Some AllocErr \<or>
     (err = None \<and> pBody p = pBody (rPayload ?rec) \<and> Flag p = Flag (rPayload ?rec) \<and>
      Ver p = Ver (rPayload ?rec) \<and> TS p = TS (rPayload ?rec) \<and>
      ValueHash p = ValueHash (rPayload ?rec)))"
    by (rule compress_transparent [OF toy_env_qlz _ _ c dc]) (simp_all add: FLAG_COMPRESS_def)
  then show ?thesis using ne c dc l by (simp add: Let_def)
qed

theorem TryCompress_empty_body_panics_witness:
  "TryCompress toy_env \<lparr>rKey = replicate 240 97, rPayload = \<lparr>TS = 5, Flag = 0, Ver = 0,
     ValueHash = 0, RecSize = 0, carr = \<lparr>Body = [], Addr = 0, Cap = 0\<rparr>\<rparr>\<rparr> ResetAll = None"
  by (rule TryCompress_empty_body_panics) (simp_all add: toy_env_def sample_conf_def NeedCompress_def)

end
