(* ===== verification/Interfaces.thy ===== *)
theory Interfaces
  imports Prelude
begin

text \<open>
  The interface that the index structures of the store share.  \<open>kv_store\<close> is the contract of a
  structure that keeps one value under a key: a relation \<open>rep\<close> to the map it stands for, and
  operations that may panic (\<open>None\<close>) but do not on well-formed input.  A client that replays any
  sequence of writes and removals then reads back, for every key, what the last of them left.
  Leaves, htrees, hint buffers and the collision table are instances.
\<close>

section \<open>Definitions\<close>

datatype ('k, 'v) kv_op = Put 'k 'v | Del 'k

fun op_key :: "('k, 'v) kv_op \<Rightarrow> 'k" where
  "op_key (Put k v) = k"
| "op_key (Del k) = k"

fun run_ops ::
    "('k \<Rightarrow> 'v \<Rightarrow> 's \<Rightarrow> 's option) \<Rightarrow> ('k \<Rightarrow> 's \<Rightarrow> 's option) \<Rightarrow> ('k, 'v) kv_op list \<Rightarrow> 's \<Rightarrow> 's option" where
  "run_ops put del [] s = Some s"
| "run_ops put del (Put k v # ops) s = do { s' \<leftarrow> put k v s; run_ops put del ops s' }"
| "run_ops put del (Del k # ops) s = do { s' \<leftarrow> del k s; run_ops put del ops s' }"

fun abs_op :: "('k \<Rightarrow> 'i) \<Rightarrow> ('k \<Rightarrow> 'v \<Rightarrow> 'w) \<Rightarrow> ('k, 'v) kv_op \<Rightarrow> ('i \<rightharpoonup> 'w) \<Rightarrow> ('i \<rightharpoonup> 'w)" where
  "abs_op idx norm (Put k v) m = m(idx k \<mapsto> norm k v)"
| "abs_op idx norm (Del k) m = m(idx k := None)"

definition abs_ops :: "('k \<Rightarrow> 'i) \<Rightarrow> ('k \<Rightarrow> 'v \<Rightarrow> 'w) \<Rightarrow> ('k, 'v) kv_op list \<Rightarrow> ('i \<rightharpoonup> 'w) \<Rightarrow> ('i \<rightharpoonup> 'w)" where
  "abs_ops idx norm ops m = fold (abs_op idx norm) ops m"

text \<open>What the operations on one index leave there: the last of them decides.\<close>

fun last_value :: "('k \<Rightarrow> 'v \<Rightarrow> 'w) \<Rightarrow> ('k, 'v) kv_op list \<Rightarrow> 'w option" where
  "last_value norm [] = None"
| "last_value norm (op # ops) =
     (if ops = [] then (case op of Put k v \<Rightarrow> Some (norm k v) | Del k \<Rightarrow> None)
      else last_value norm ops)"

text \<open>A run of writes to a structure that may refuse one: those it took, the last first.\<close>

fun run_puts :: "('a \<Rightarrow> 's \<Rightarrow> (bool \<times> 's) option) \<Rightarrow> 'a list \<Rightarrow> 's \<Rightarrow> ('a list \<times> 's) option" where
  "run_puts put [] s = Some ([], s)"
| "run_puts put (a # as) s = do {
     (ok, s1) \<leftarrow> put a s;
     (taken, s2) \<leftarrow> run_puts put as s1;
     Some (if ok then taken @ [a] else taken, s2)
   }"

lemma find_append: "find P (xs @ ys) = (case find P xs of Some x \<Rightarrow> Some x | None \<Rightarrow> find P ys)"
  by (induction xs) auto

lemma run_puts_subset: "run_puts put as s = Some (taken, s') \<Longrightarrow> set taken \<subseteq> set as"
proof (induction "as" arbitrary: s taken)
  case (Cons a "as")
  then show ?case by (fastforce split: bind_splits prod.splits if_splits)
qed simp

section \<open>The last write decides\<close>

lemma abs_ops_Nil [simp]: "abs_ops idx norm [] m = m"
  by (simp add: abs_ops_def)

lemma abs_ops_Cons [simp]: "abs_ops idx norm (op # ops) m = abs_ops idx norm ops (abs_op idx norm op m)"
  by (simp add: abs_ops_def)

lemma abs_op_other: "idx (op_key op) \<noteq> i \<Longrightarrow> abs_op idx norm op m i = m i"
  by (cases op) auto

lemma abs_ops_untouched:
  "\<forall>op \<in> set ops. idx (op_key op) \<noteq> i \<Longrightarrow> abs_ops idx norm ops m i = m i"
  by (induction ops arbitrary: m) (auto simp: abs_op_other)

lemma abs_ops_lookup:
  "abs_ops idx norm ops m i =
     (let here = filter (\<lambda>op. idx (op_key op) = i) ops
      in if here = [] then m i else last_value norm here)"
proof (induction ops arbitrary: m)
  case (Cons op ops)
  show ?case
  proof (cases "idx (op_key op) = i")
    case True
    then show ?thesis
      using Cons by (cases op) (auto simp: Let_def)
  next
    case False
    then show ?thesis using Cons by (simp add: Let_def abs_op_other)
  qed
qed (simp add: Let_def)

section \<open>The contract of a key-value structure\<close>

locale kv_store =
  fixes rep :: "'s \<Rightarrow> ('i \<rightharpoonup> 'w) \<Rightarrow> bool"
    and key_ok :: "'k \<Rightarrow> bool"
    and idx :: "'k \<Rightarrow> 'i"
    and norm :: "'k \<Rightarrow> 'v \<Rightarrow> 'w"
    and put :: "'k \<Rightarrow> 'v \<Rightarrow> 's \<Rightarrow> 's option"
    and del :: "'k \<Rightarrow> 's \<Rightarrow> 's option"
    and get :: "'k \<Rightarrow> 's \<Rightarrow> 'w option option"
  assumes put_rep: "rep s m \<Longrightarrow> key_ok k \<Longrightarrow> \<exists>s'. put k v s = Some s' \<and> rep s' (m(idx k \<mapsto> norm k v))"
    and del_rep: "rep s m \<Longrightarrow> key_ok k \<Longrightarrow> \<exists>s'. del k s = Some s' \<and> rep s' (m(idx k := None))"
    and get_rep: "rep s m \<Longrightarrow> key_ok k \<Longrightarrow> get k s = Some (m (idx k))"
begin

lemma run_rep:
  assumes "rep s m" and "\<forall>op \<in> set ops. key_ok (op_key op)"
  shows "\<exists>s'. run_ops put del ops s = Some s' \<and> rep s' (abs_ops idx norm ops m)"
  using assms
proof (induction ops arbitrary: s m)
  case Nil
  then show ?case by simp
next
  case (Cons op ops)
  show ?case
  proof (cases op)
    case (Put k v)
    then obtain s' where "put k v s = Some s'" "rep s' (m(idx k \<mapsto> norm k v))"
      using put_rep [OF Cons.prems(1), of k v] Cons.prems(2) by auto
    then show ?thesis using Cons.IH [of s' "m(idx k \<mapsto> norm k v)"] Cons.prems(2) Put
      by (simp del: fun_upd_apply)
  next
    case (Del k)
    then obtain s' where "del k s = Some s'" "rep s' (m(idx k := None))"
      using del_rep [OF Cons.prems(1), of k] Cons.prems(2) by auto
    then show ?thesis using Cons.IH [of s' "m(idx k := None)"] Cons.prems(2) Del
      by (simp del: fun_upd_apply)
  qed
qed

lemma run_get:
  assumes "rep s Map.empty" and "\<forall>op \<in> set ops. key_ok (op_key op)" and "key_ok k"
  shows "\<exists>s'. run_ops put del ops s = Some s' \<and>
    get k s' = Some (last_value norm (filter (\<lambda>op. idx (op_key op) = idx k) ops))"
proof -
  obtain s' where "run_ops put del ops s = Some s'" "rep s' (abs_ops idx norm ops Map.empty)"
    using run_rep [OF assms(1,2)] by blast
  moreover from this have "get k s' = Some (abs_ops idx norm ops Map.empty (idx k))"
    using get_rep assms(3) by blast
  ultimately show ?thesis by (auto simp: abs_ops_lookup Let_def)
qed

end

section \<open>The contract of a buffer of limited size\<close>

text \<open>\<open>kv_buffer\<close>: a write stores the value under its key, or is refused; it is refused only for a key that is not
  stored, and then changes nothing.\<close>

locale kv_buffer =
  fixes rep :: "'s \<Rightarrow> ('k \<rightharpoonup> 'v) \<Rightarrow> bool"
    and key :: "'a \<Rightarrow> 'k"
    and val :: "'a \<Rightarrow> 'v"
    and put :: "'a \<Rightarrow> 's \<Rightarrow> (bool \<times> 's) option"
    and get :: "'k \<Rightarrow> 's \<Rightarrow> 'v option option"
  assumes put_rep: "rep s m \<Longrightarrow> \<exists>ok s'. put a s = Some (ok, s') \<and>
      (if ok then rep s' (m(key a \<mapsto> val a)) else rep s' m \<and> m (key a) = None)"
    and get_rep: "rep s m \<Longrightarrow> get k s = Some (m k)"
begin

lemma run_puts_rep:
  assumes "rep s m"
  shows "\<exists>taken s'. run_puts put as s = Some (taken, s') \<and>
    rep s' (\<lambda>k. case find (\<lambda>a. key a = k) taken of Some a \<Rightarrow> Some (val a) | None \<Rightarrow> m k)"
  using assms
proof (induction "as" arbitrary: s m)
  case Nil
  then show ?case by simp
next
  case (Cons a "as")
  from put_rep [OF Cons.prems, of a] obtain ok s1 where 1: "put a s = Some (ok, s1)"
    "if ok then rep s1 (m(key a \<mapsto> val a)) else rep s1 m" by (auto split: if_splits)
  let ?m = "if ok then m(key a \<mapsto> val a) else m"
  have "rep s1 ?m" using 1(2) by (simp split: if_splits)
  from Cons.IH [OF this] obtain taken s2 where 2: "run_puts put as s1 = Some (taken, s2)"
    "rep s2 (\<lambda>k. case find (\<lambda>a. key a = k) taken of Some a \<Rightarrow> Some (val a) | None \<Rightarrow> ?m k)" by blast
  have "(\<lambda>k. case find (\<lambda>a. key a = k) taken of Some a \<Rightarrow> Some (val a) | None \<Rightarrow> ?m k) =
      (\<lambda>k. case find (\<lambda>a. key a = k) (if ok then taken @ [a] else taken) of Some a \<Rightarrow> Some (val a) | None \<Rightarrow> m k)"
    by (rule ext) (auto simp: find_append split: option.splits)
  then show ?case using 1(1) 2 by simp
qed

lemma run_puts_get:
  assumes "rep s Map.empty"
  shows "\<exists>taken s'. run_puts put as s = Some (taken, s') \<and>
    get k s' = Some (map_option val (find (\<lambda>a. key a = k) taken))"
proof -
  obtain taken s' where r: "run_puts put as s = Some (taken, s')"
    "rep s' (\<lambda>k. case find (\<lambda>a. key a = k) taken of Some a \<Rightarrow> Some (val a) | None \<Rightarrow> None)"
    using run_puts_rep [OF assms] by blast
  have "get k s' = Some (case find (\<lambda>a. key a = k) taken of Some a \<Rightarrow> Some (val a) | None \<Rightarrow> None)"
    by (rule get_rep [OF r(2)])
  then show ?thesis using r(1) by (auto split: option.splits)
qed

end

end
