(* ===== verification/Leaf.thy ===== *)
theory Leaf
  imports Item Interfaces
begin

text \<open>
  Leaves of the htree (\<open>store/leaf.go\<close>).  A leaf is one byte array of fixed-size entries: the low
  \<open>TreeKeyHashLen\<close> bytes of a key hash followed by eleven bytes of version, value hash, offset and
  chunk.  The model works on the bytes, as the code does; \<open>leaf_entries\<close> reads them back as an
  association list.  Two locales state what the rest of the store relies on: \<open>kv_store\<close> for a
  store of values under keys, and its interpretation for leaf bytes.
\<close>

unbundle bit_operations_syntax

section \<open>Definitions\<close>

definition TREE_ITEM_HEAD_SIZE :: nat where "TREE_ITEM_HEAD_SIZE = 11"
definition LEN_USE_C_FIND :: nat where "LEN_USE_C_FIND = 100"

abbreviation lenItem :: "HStoreConfig \<Rightarrow> nat" where
  "lenItem c \<equiv> TreeKeyHashLen c + TREE_ITEM_HEAD_SIZE"

text \<open>\<open>bytesToItem\<close>: the offset's low byte is not stored, the chunk is two bytes.\<close>

definition bytesToItem :: "bytes \<Rightarrow> HTreeItem \<Rightarrow> HTreeItem" where
  "bytesToItem b item = item\<lparr>
     it_Ver := get_le (slice 0 4 b),
     it_Vhash := get_le (slice 4 6 b),
     it_Pos := \<lparr>ChunkID = uint (ucast (b ! 9) OR push_bit 8 (ucast (b ! 10)) :: u32),
                Offset = push_bit 8 (ucast (b ! 6)) OR push_bit 16 (ucast (b ! 7))
                         OR push_bit 24 (ucast (b ! 8))\<rparr>\<rparr>"

text \<open>\<open>itemToBytes\<close> writes eleven bytes at the start of its argument.\<close>

definition itemToBytes :: "bytes \<Rightarrow> HTreeItem \<Rightarrow> bytes" where
  "itemToBytes b item =
     (let v = Offset (it_Pos item); ck = word_of_int (ChunkID (it_Pos item)) :: u32;
          b1 = write_at 0 (put_le 4 (it_Ver item)) b;
          b2 = write_at 4 (put_le 2 (it_Vhash item)) b1
      in b2[6 := ucast (drop_bit 8 v), 7 := ucast (drop_bit 16 v), 8 := ucast (drop_bit 24 v),
            9 := ucast ck, 10 := ucast (drop_bit 8 ck)])"

definition khashToBytes :: "bytes \<Rightarrow> u64 \<Rightarrow> bytes" where
  "khashToBytes b khash = write_at 0 (put_le 8 khash) b"

definition bytesToKhash :: "bytes \<Rightarrow> u64" where
  "bytesToKhash b = get_le (slice 0 8 b)"

text \<open>The bytes under which a key hash is stored: \<open>khashBytes[:lenKHash]\<close>.\<close>

definition trunc_key :: "HStoreConfig \<Rightarrow> u64 \<Rightarrow> bytes" where
  "trunc_key c khash = take (TreeKeyHashLen c) (khashToBytes (replicate 8 0) khash)"

text \<open>The Go loop over byte positions, and the C function \<open>find\<close> over entry numbers; both return
  a negative number when nothing is found.\<close>

function find_loop :: "HStoreConfig \<Rightarrow> bytes \<Rightarrow> bytes \<Rightarrow> nat \<Rightarrow> int" where
  "find_loop c leaf kb i =
     (if i < length leaf then
        (if slice i (i + TreeKeyHashLen c) leaf = kb then int i
         else find_loop c leaf kb (i + lenItem c))
      else - 1)"
  by pat_completeness auto
termination
  by (relation "measure (\<lambda>(c, leaf, kb, i). length leaf - i)") (auto simp: TREE_ITEM_HEAD_SIZE_def)

declare find_loop.simps [simp del]

fun c_find :: "bytes \<Rightarrow> bytes \<Rightarrow> nat \<Rightarrow> nat \<Rightarrow> nat \<Rightarrow> nat \<Rightarrow> int" where
  "c_find p s item_size cmp_size i 0 = - 1"
| "c_find p s item_size cmp_size i (Suc n) =
     (if take cmp_size p = take cmp_size s then int i
      else c_find (drop item_size p) s item_size cmp_size (Suc i) n)"

definition findInBytes :: "HStoreConfig \<Rightarrow> bytes \<Rightarrow> u64 \<Rightarrow> int" where
  "findInBytes c leaf keyhash =
     (let kb = trunc_key c keyhash; n = length leaf div lenItem c in
      if n < LEN_USE_C_FIND then find_loop c leaf kb 0
      else c_find leaf kb (lenItem c) (TreeKeyHashLen c) 0 n * int (lenItem c))"

text \<open>\<open>enlarge\<close> reallocates; the bytes past the old end are whatever memory held.\<close>

definition enlarge :: "bytes \<Rightarrow> bytes \<Rightarrow> nat \<Rightarrow> bytes" where
  "enlarge fresh leaf sz = leaf @ take (sz - length leaf) (fresh @ replicate sz 0)"

definition zero_item :: HTreeItem where
  "zero_item = \<lparr>it_Keyhash = 0, it_Pos = \<lparr>ChunkID = 0, Offset = 0\<rparr>, it_Ver = 0, it_Vhash = 0\<rparr>"

text \<open>The common tail of \<open>Set\<close>, on \<open>dst = leaf[i:]\<close>.\<close>

definition leaf_overwrite :: "HStoreConfig \<Rightarrow> bytes \<Rightarrow> nat \<Rightarrow> u64 \<Rightarrow> HTreeItem \<Rightarrow> bytes" where
  "leaf_overwrite c leaf i keyhash item =
     (let dst = khashToBytes (drop i leaf) keyhash; lk = TreeKeyHashLen c
      in take i leaf @ take lk dst @ itemToBytes (drop lk dst) item)"

definition leaf_Set ::
    "HStoreConfig \<Rightarrow> bytes \<Rightarrow> bytes \<Rightarrow> u64 \<Rightarrow> HTreeItem \<Rightarrow> bytes \<times> HTreeItem \<times> bool" where
  "leaf_Set c fresh leaf keyhash item =
     (let idx = findInBytes c leaf keyhash; lk = TreeKeyHashLen c in
      if 0 \<le> idx then
        (leaf_overwrite c leaf (nat idx) keyhash item,
         bytesToItem (drop (nat idx + lk) leaf) zero_item, True)
      else
        (leaf_overwrite c (enlarge fresh leaf (length leaf + lk + TREE_ITEM_HEAD_SIZE))
           (length leaf) keyhash item,
         zero_item, False))"

definition leaf_Remove ::
    "HStoreConfig \<Rightarrow> bytes \<Rightarrow> u64 \<Rightarrow> Position \<Rightarrow> bytes \<times> HTreeItem \<times> bool" where
  "leaf_Remove c leaf keyhash oldPos =
     (let idx = findInBytes c leaf keyhash; lk = TreeKeyHashLen c in
      if 0 \<le> idx then
        let i = nat idx; oldm = bytesToItem (drop (i + lk) leaf) zero_item in
        if ChunkID oldPos = - 1 \<or> Offset (it_Pos oldm) = Offset oldPos
        then (take (length leaf - lenItem c) (write_at i (drop (i + lenItem c) leaf) leaf), oldm, True)
        else (leaf, oldm, False)
      else (leaf, zero_item, False))"

definition leaf_Get :: "HStoreConfig \<Rightarrow> bytes \<Rightarrow> u64 \<Rightarrow> HTreeItem \<Rightarrow> HTreeItem \<times> bool" where
  "leaf_Get c leaf keyhash item =
     (let idx = findInBytes c leaf keyhash in
      if 0 \<le> idx then (bytesToItem (drop (nat idx + TreeKeyHashLen c) leaf) item, True)
      else (item, False))"

text \<open>\<open>Iter\<close>: the calls \<open>f(khash, &m)\<close> it makes, in order.\<close>

function iter_loop :: "HStoreConfig \<Rightarrow> u64 \<Rightarrow> bytes \<Rightarrow> nat \<Rightarrow> (u64 \<times> HTreeItem) list" where
  "iter_loop c nodeKHash leaf i =
     (if i < length leaf then
        ((bytesToKhash (drop i leaf) AND TreeKeyHashMask c) OR nodeKHash,
         bytesToItem (drop (i + TreeKeyHashLen c) leaf) zero_item)
        # iter_loop c nodeKHash leaf (i + lenItem c)
      else [])"
  by pat_completeness auto
termination
  by (relation "measure (\<lambda>(c, h, leaf, i). length leaf - i)") (auto simp: TREE_ITEM_HEAD_SIZE_def)

declare iter_loop.simps [simp del]

definition node_khash :: "HStoreConfig \<Rightarrow> nat list \<Rightarrow> u64" where
  "node_khash c path = push_bit 32 (ucast (getNodeKhash path)) AND NOT (TreeKeyHashMask c)"

definition leaf_Iter :: "HStoreConfig \<Rightarrow> nat list \<Rightarrow> bytes \<Rightarrow> (u64 \<times> HTreeItem) list" where
  "leaf_Iter c path leaf = iter_loop c (node_khash c path) leaf 0"

subsection \<open>Abstraction\<close>

text \<open>What the eleven bytes keep of an item, and the items that lose nothing: offsets aligned to
  256 bytes and chunk numbers of 16 bits.\<close>

definition norm_item :: "HTreeItem \<Rightarrow> HTreeItem" where
  "norm_item it = \<lparr>it_Keyhash = 0,
     it_Pos = \<lparr>ChunkID = ChunkID (it_Pos it) mod 65536,
               Offset = Offset (it_Pos it) AND NOT 255\<rparr>,
     it_Ver = it_Ver it, it_Vhash = it_Vhash it\<rparr>"

definition item_bytes :: "HTreeItem \<Rightarrow> bytes" where
  "item_bytes it = itemToBytes (replicate 11 0) it"

definition enc_entry :: "bytes \<times> HTreeItem \<Rightarrow> bytes" where
  "enc_entry e = fst e @ item_bytes (snd e)"

definition enc_leaf :: "(bytes \<times> HTreeItem) list \<Rightarrow> bytes" where
  "enc_leaf es = concat (map enc_entry es)"

fun leaf_entries_n :: "HStoreConfig \<Rightarrow> nat \<Rightarrow> bytes \<Rightarrow> (bytes \<times> HTreeItem) list" where
  "leaf_entries_n c 0 leaf = []"
| "leaf_entries_n c (Suc n) leaf =
     (take (TreeKeyHashLen c) leaf, bytesToItem (drop (TreeKeyHashLen c) leaf) zero_item)
     # leaf_entries_n c n (drop (lenItem c) leaf)"

definition leaf_entries :: "HStoreConfig \<Rightarrow> bytes \<Rightarrow> (bytes \<times> HTreeItem) list" where
  "leaf_entries c leaf = leaf_entries_n c (length leaf div lenItem c) leaf"

fun entry_idx :: "bytes \<Rightarrow> (bytes \<times> HTreeItem) list \<Rightarrow> nat option" where
  "entry_idx kb [] = None"
| "entry_idx kb (e # es) = (if fst e = kb then Some 0 else map_option Suc (entry_idx kb es))"

definition entries_ok :: "HStoreConfig \<Rightarrow> (bytes \<times> HTreeItem) list \<Rightarrow> bool" where
  "entries_ok c es \<longleftrightarrow> distinct (map fst es) \<and>
     (\<forall>(kb, it) \<in> set es. length kb = TreeKeyHashLen c \<and> norm_item it = it)"

definition leaf_wf :: "HStoreConfig \<Rightarrow> bytes \<Rightarrow> bool" where
  "leaf_wf c leaf \<longleftrightarrow> length leaf mod lenItem c = 0 \<and> distinct (map fst (leaf_entries c leaf))"

definition leaf_map :: "HStoreConfig \<Rightarrow> bytes \<Rightarrow> bytes \<rightharpoonup> HTreeItem" where
  "leaf_map c leaf = map_of (leaf_entries c leaf)"

section \<open>Items as eleven bytes\<close>

lemma itemToBytes_append:
  assumes "11 \<le> length b"
  shows "itemToBytes b item =
    (put_le 4 (it_Ver item) @ put_le 2 (it_Vhash item) @
     [ucast (drop_bit 8 (Offset (it_Pos item))), ucast (drop_bit 16 (Offset (it_Pos item))),
      ucast (drop_bit 24 (Offset (it_Pos item))), ucast (word_of_int (ChunkID (it_Pos item)) :: u32),
      ucast (drop_bit 8 (word_of_int (ChunkID (it_Pos item)) :: u32))]) @ drop 11 b"
proof -
  obtain xs ys where b: "b = xs @ ys" and xs: "length xs = 11"
    using assms by (metis append_take_drop_id length_take min.absorb2)
  obtain x0 x1 x2 x3 x4 x5 x6 x7 x8 x9 x10 where "xs = [x0,x1,x2,x3,x4,x5,x6,x7,x8,x9,x10]"
    using xs by (auto simp: numeral_eq_Suc length_Suc_conv)
  then show ?thesis
    by (simp add: b itemToBytes_def Let_def write_at_def put_le_Suc numeral_eq_Suc)
qed

lemma item_bytes_eq:
  "item_bytes item =
    put_le 4 (it_Ver item) @ put_le 2 (it_Vhash item) @
     [ucast (drop_bit 8 (Offset (it_Pos item))), ucast (drop_bit 16 (Offset (it_Pos item))),
      ucast (drop_bit 24 (Offset (it_Pos item))), ucast (word_of_int (ChunkID (it_Pos item)) :: u32),
      ucast (drop_bit 8 (word_of_int (ChunkID (it_Pos item)) :: u32))]"
  by (simp add: item_bytes_def itemToBytes_append)

lemma length_item_bytes [simp, go_bytes]: "length (item_bytes it) = 11"
  by (simp add: item_bytes_eq)

lemma itemToBytes_item_bytes:
  "11 \<le> length b \<Longrightarrow> itemToBytes b it = item_bytes it @ drop 11 b"
  by (simp add: itemToBytes_append item_bytes_eq)

lemma three_bytes:
  "push_bit 8 (ucast (ucast (drop_bit 8 v) :: byte)) OR push_bit 16 (ucast (ucast (drop_bit 16 v) :: byte))
     OR push_bit 24 (ucast (ucast (drop_bit 24 v) :: byte)) = v AND NOT 255" for v :: u32
proof -
  have m: "(255 :: u32) = mask 8" by (simp add: mask_eq_exp_minus_1)
  show ?thesis unfolding m
  proof (rule bit_word_eqI)
    fix n assume "n < LENGTH(32)"
    then consider "n < 8" | "8 \<le> n" "n < 16" | "16 \<le> n" "n < 24" | "24 \<le> n" "n < 32" by fastforce
    then show "bit (push_bit 8 (ucast (ucast (drop_bit 8 v) :: byte))
        OR push_bit 16 (ucast (ucast (drop_bit 16 v) :: byte))
        OR push_bit 24 (ucast (ucast (drop_bit 24 v) :: byte)) :: u32) n = bit (v AND NOT (mask 8)) n"
      by cases (auto simp: bit_simps)
  qed
qed

lemma two_bytes:
  "uint (ucast (ucast w :: byte) OR push_bit 8 (ucast (ucast (drop_bit 8 w) :: byte)) :: u32)
     = uint w mod 65536" for w :: u32
proof -
  have "(ucast (ucast w :: byte) OR push_bit 8 (ucast (ucast (drop_bit 8 w) :: byte)) :: u32)
      = take_bit 16 w"
    by (rule bit_word_eqI) (auto simp: bit_simps)
  then show ?thesis by (simp add: unsigned_take_bit_eq) (simp add: take_bit_eq_mod)
qed

lemma bytesToItem_item_bytes [simp]:
  "bytesToItem (item_bytes it @ r) zero_item = norm_item it"
proof -
  let ?w = "word_of_int (ChunkID (it_Pos it)) :: u32"
  have s: "slice 0 4 (item_bytes it @ r) = put_le 4 (it_Ver it)"
      "slice 4 6 (item_bytes it @ r) = put_le 2 (it_Vhash it)"
    by (simp_all add: item_bytes_eq slice_def)
  have n: "(item_bytes it @ r) ! 6 = ucast (drop_bit 8 (Offset (it_Pos it)))"
      "(item_bytes it @ r) ! 7 = ucast (drop_bit 16 (Offset (it_Pos it)))"
      "(item_bytes it @ r) ! 8 = ucast (drop_bit 24 (Offset (it_Pos it)))"
      "(item_bytes it @ r) ! 9 = ucast ?w" "(item_bytes it @ r) ! 10 = ucast (drop_bit 8 ?w)"
    by (simp_all add: item_bytes_eq nth_append)
  have "uint ?w mod 65536 = ChunkID (it_Pos it) mod 65536"
    by (simp add: unsigned_of_int take_bit_eq_mod mod_mod_cancel)
  then show ?thesis
    unfolding bytesToItem_def s n three_bytes two_bytes
    by (simp add: norm_item_def zero_item_def)
qed

lemma norm_item_sel [simp]: "it_Ver (norm_item it) = it_Ver it" "it_Vhash (norm_item it) = it_Vhash it"
  by (simp_all add: norm_item_def)

lemma norm_item_idem [simp]: "norm_item (norm_item it) = norm_item it"
  by (simp add: norm_item_def and.assoc)

lemma item_bytes_norm [simp]: "item_bytes (norm_item it) = item_bytes it"
proof -
  have m: "(255 :: u32) = mask 8" by (simp add: mask_eq_exp_minus_1)
  have o: "ucast (drop_bit n (v AND NOT 255)) = (ucast (drop_bit n v) :: byte)"
    if "8 \<le> n" for n and v :: u32
    unfolding m using that by (intro bit_word_eqI) (auto simp: bit_simps dest: bit_imp_le_length)
  have t: "(word_of_int (i mod 65536) :: u32) = take_bit 16 (word_of_int i)" for i
    by (rule bit_word_eqI) (auto simp: bit_simps take_bit_eq_mod [of 16, symmetric, simplified])
  have ck: "ucast (word_of_int (i mod 65536) :: u32) = (ucast (word_of_int i :: u32) :: byte)"
      "ucast (drop_bit 8 (word_of_int (i mod 65536) :: u32)) = (ucast (drop_bit 8 (word_of_int i :: u32)) :: byte)" for i
    unfolding t by (rule bit_word_eqI; auto simp: bit_simps dest: bit_imp_le_length)+
  have r: "Offset (it_Pos (norm_item it)) = Offset (it_Pos it) AND NOT 255"
      "ChunkID (it_Pos (norm_item it)) = ChunkID (it_Pos it) mod 65536"
      "it_Ver (norm_item it) = it_Ver it" "it_Vhash (norm_item it) = it_Vhash it"
    by (simp_all add: norm_item_def)
  have o': "ucast (drop_bit 8 (v AND NOT 255)) = (ucast (drop_bit 8 v) :: byte)"
      "ucast (drop_bit 16 (v AND NOT 255)) = (ucast (drop_bit 16 v) :: byte)"
      "ucast (drop_bit 24 (v AND NOT 255)) = (ucast (drop_bit 24 v) :: byte)" for v :: u32
    by (rule o; simp)+
  show ?thesis by (simp only: item_bytes_eq r o' ck)
qed

text \<open>Every eleven bytes are the encoding of one item that loses nothing.\<close>

lemma item_bytes_bytesToItem:
  assumes "length b = 11"
  shows "item_bytes (bytesToItem b zero_item) = b"
proof -
  obtain x0 x1 x2 x3 x4 x5 x6 x7 x8 x9 x10 where b: "b = [x0,x1,x2,x3,x4,x5,x6,x7,x8,x9,x10]"
    using assms by (auto simp: numeral_eq_Suc length_Suc_conv)
  have v: "put_le 4 (get_le [x0,x1,x2,x3] :: i32) = [x0,x1,x2,x3]"
    using put_get_le [where 'a = 32, of "[x0,x1,x2,x3]"] by (simp add: eval_nat_numeral)
  have h: "put_le 2 (get_le [x4,x5] :: u16) = [x4,x5]"
    using put_get_le [where 'a = 16, of "[x4,x5]"] by (simp add: eval_nat_numeral)
  let ?o = "push_bit 8 (ucast x6) OR push_bit 16 (ucast x7) OR push_bit 24 (ucast x8) :: u32"
  have o: "ucast (drop_bit 8 ?o) = x6" "ucast (drop_bit 16 ?o) = x7" "ucast (drop_bit 24 ?o) = x8"
    by (rule bit_word_eqI; auto simp: bit_simps dest: bit_imp_le_length)+
  let ?c = "ucast x9 OR push_bit 8 (ucast x10) :: u32"
  have c: "ucast ?c = x9" "ucast (drop_bit 8 ?c) = x10"
    by (rule bit_word_eqI; auto simp: bit_simps dest: bit_imp_le_length)+
  have f: "it_Ver (bytesToItem b zero_item) = get_le [x0,x1,x2,x3]"
      "it_Vhash (bytesToItem b zero_item) = get_le [x4,x5]"
      "Offset (it_Pos (bytesToItem b zero_item)) = ?o"
      "ChunkID (it_Pos (bytesToItem b zero_item)) = uint ?c"
    by (simp_all add: bytesToItem_def b slice_def numeral_eq_Suc)
  show ?thesis
    unfolding item_bytes_eq f v h o word_of_int_uint c by (simp add: b)
qed

lemma norm_bytesToItem:
  assumes "11 \<le> length b"
  shows "norm_item (bytesToItem b zero_item) = bytesToItem b zero_item"
proof -
  have t: "bytesToItem (take 11 b) zero_item = bytesToItem b zero_item"
    using assms by (simp add: bytesToItem_def slice_def drop_take)
  have "bytesToItem (item_bytes (bytesToItem (take 11 b) zero_item) @ []) zero_item
      = bytesToItem (take 11 b) zero_item"
    using assms by (simp only: item_bytes_bytesToItem append_Nil2 length_take min.absorb2)
  then show ?thesis unfolding t bytesToItem_item_bytes .
qed

section \<open>Leaves as lists of entries\<close>

lemma length_trunc_key: "TreeKeyHashLen c \<le> 8 \<Longrightarrow> length (trunc_key c k) = TreeKeyHashLen c"
  by (simp add: trunc_key_def khashToBytes_def)

lemma trunc_key_put_le: "TreeKeyHashLen c \<le> 8 \<Longrightarrow> trunc_key c k = put_le (TreeKeyHashLen c) k"
  by (simp add: trunc_key_def khashToBytes_def write_at_def take_put_le)

lemma entries_ok_Cons:
  "entries_ok c (e # es) \<longleftrightarrow> fst e \<notin> fst ` set es \<and> length (fst e) = TreeKeyHashLen c \<and>
     norm_item (snd e) = snd e \<and> entries_ok c es"
  by (auto simp: entries_ok_def)

lemma entries_ok_Nil [simp]: "entries_ok c []"
  by (simp add: entries_ok_def)

lemma enc_leaf_Nil [simp]: "enc_leaf [] = []"
  by (simp add: enc_leaf_def)

lemma enc_leaf_Cons [simp]: "enc_leaf (e # es) = fst e @ item_bytes (snd e) @ enc_leaf es"
  by (simp add: enc_leaf_def enc_entry_def)

lemma enc_leaf_append [simp]: "enc_leaf (es @ fs) = enc_leaf es @ enc_leaf fs"
  by (simp add: enc_leaf_def)

lemma length_enc_leaf:
  "entries_ok c es \<Longrightarrow> length (enc_leaf es) = length es * lenItem c"
  by (induction es) (auto simp: entries_ok_Cons TREE_ITEM_HEAD_SIZE_def)

lemma leaf_entries_n_enc:
  "entries_ok c es \<Longrightarrow> leaf_entries_n c (length es) (enc_leaf es @ r) = es"
proof (induction es)
  case (Cons e es)
  have d: "drop (lenItem c) (fst e @ item_bytes (snd e) @ enc_leaf es @ r) = enc_leaf es @ r"
    using Cons.prems by (simp add: entries_ok_Cons TREE_ITEM_HEAD_SIZE_def)
  have "leaf_entries_n c (length es) (enc_leaf es @ r) = es"
    using Cons by (simp add: entries_ok_Cons)
  then show ?case using Cons.prems d by (simp add: entries_ok_Cons)
qed simp

lemma lenItem_pos [simp]: "0 < lenItem c"
  by (simp add: TREE_ITEM_HEAD_SIZE_def)

lemma leaf_entries_enc [simp]: "entries_ok c es \<Longrightarrow> leaf_entries c (enc_leaf es) = es"
  using leaf_entries_n_enc [of c es "[]"] lenItem_pos [of c]
  by (simp add: leaf_entries_def length_enc_leaf del: lenItem_pos)

lemma leaf_wf_enc [simp]: "entries_ok c es \<Longrightarrow> leaf_wf c (enc_leaf es)"
  using length_enc_leaf [of c es] by (auto simp: leaf_wf_def) (simp add: entries_ok_def)

lemma leaf_map_enc [simp]: "entries_ok c es \<Longrightarrow> leaf_map c (enc_leaf es) = map_of es"
  by (simp add: leaf_map_def)

lemma enc_leaf_entries_n:
  "length leaf = n * lenItem c \<Longrightarrow> enc_leaf (leaf_entries_n c n leaf) = leaf \<and>
   (\<forall>(kb, it) \<in> set (leaf_entries_n c n leaf). length kb = TreeKeyHashLen c \<and> norm_item it = it)"
proof (induction n arbitrary: leaf)
  case (Suc n)
  let ?h = "drop (TreeKeyHashLen c) leaf"
  have len: "11 \<le> length ?h" using Suc.prems by (simp add: TREE_ITEM_HEAD_SIZE_def)
  have IH: "enc_leaf (leaf_entries_n c n (drop (lenItem c) leaf)) = drop (lenItem c) leaf \<and>
     (\<forall>(kb, it) \<in> set (leaf_entries_n c n (drop (lenItem c) leaf)).
        length kb = TreeKeyHashLen c \<and> norm_item it = it)"
    using Suc.prems by (intro Suc.IH) simp
  have "item_bytes (bytesToItem (take 11 ?h) zero_item) = take 11 ?h"
    using len by (intro item_bytes_bytesToItem) simp
  moreover have "bytesToItem (take 11 ?h) zero_item = bytesToItem ?h zero_item"
    using len by (simp add: bytesToItem_def slice_def drop_take)
  ultimately have b: "item_bytes (bytesToItem ?h zero_item) = take 11 ?h" by simp
  have "take 11 ?h @ drop (lenItem c) leaf = ?h"
    by (metis TREE_ITEM_HEAD_SIZE_def add.commute append_take_drop_id drop_drop)
  with IH b show ?case
    using norm_bytesToItem [OF len] Suc.prems by simp
qed simp

lemma leaf_wfE:
  assumes "leaf_wf c leaf"
  obtains es where "entries_ok c es" "leaf = enc_leaf es" "leaf_entries c leaf = es"
proof
  have "length leaf = length leaf div lenItem c * lenItem c"
    using assms by (simp add: leaf_wf_def mod_0_imp_dvd)
  from enc_leaf_entries_n [OF this] assms
  show "entries_ok c (leaf_entries c leaf)" "leaf = enc_leaf (leaf_entries c leaf)"
    "leaf_entries c leaf = leaf_entries c leaf"
    by (auto simp: leaf_entries_def entries_ok_def leaf_wf_def)
qed

lemma entry_idx_None: "entry_idx kb es = None \<longleftrightarrow> kb \<notin> fst ` set es"
  by (induction es) auto

lemma entry_idx_Some:
  "entry_idx kb es = Some j \<Longrightarrow> j < length es \<and> fst (es ! j) = kb"
  by (induction es arbitrary: j) (auto split: if_splits)

lemma map_of_entry_idx:
  "map_of es kb = map_option (\<lambda>j. snd (es ! j)) (entry_idx kb es)"
  by (induction es) (auto simp: option.map_comp comp_def)

text \<open>Both searches return the position of the first entry with the key.\<close>

lemma find_loop_enc:
  assumes "length kb = TreeKeyHashLen c" and "entries_ok c es"
  shows "find_loop c (pre @ enc_leaf es) kb (length pre) =
    (case entry_idx kb es of Some j \<Rightarrow> int (length pre + j * lenItem c) | None \<Rightarrow> - 1)"
  using assms(2)
proof (induction es arbitrary: pre)
  case Nil
  then show ?case by (simp add: find_loop.simps)
next
  case (Cons e es)
  have len: "length (fst e) = TreeKeyHashLen c" and ok: "entries_ok c es"
    using Cons.prems by (auto simp: entries_ok_Cons)
  have sl: "slice (length pre) (length pre + TreeKeyHashLen c) (pre @ enc_leaf (e # es)) = fst e"
    by (simp add: slice_def len)
  have IH: "find_loop c (pre @ enc_leaf (e # es)) kb (length pre + lenItem c) =
      (case entry_idx kb es of Some j \<Rightarrow> int (length pre + lenItem c + j * lenItem c) | None \<Rightarrow> - 1)"
    using Cons.IH [OF ok, of "pre @ fst e @ item_bytes (snd e)"] len
    by (simp add: TREE_ITEM_HEAD_SIZE_def add.assoc split: option.splits)
  show ?case
    by (subst find_loop.simps, unfold sl IH)
      (auto simp: algebra_simps split: option.splits)
qed

lemma c_find_enc:
  assumes "length kb = TreeKeyHashLen c" and "entries_ok c es"
  shows "c_find (enc_leaf es) kb (lenItem c) (TreeKeyHashLen c) i (length es) =
    (case entry_idx kb es of Some j \<Rightarrow> int (i + j) | None \<Rightarrow> - 1)"
  using assms(2)
proof (induction es arbitrary: i)
  case (Cons e es)
  have "drop (lenItem c) (enc_leaf (e # es)) = enc_leaf es"
    using Cons.prems by (simp add: entries_ok_Cons TREE_ITEM_HEAD_SIZE_def)
  with Cons assms(1) show ?case
    by (auto simp: entries_ok_Cons split: option.splits)
qed simp

lemma findInBytes_enc:
  assumes "TreeKeyHashLen c \<le> 8" and "entries_ok c es"
  shows "case entry_idx (trunc_key c k) es of
      Some j \<Rightarrow> findInBytes c (enc_leaf es) k = int (j * lenItem c)
    | None \<Rightarrow> findInBytes c (enc_leaf es) k < 0"
proof -
  note len = length_trunc_key [OF assms(1), of k]
  have n: "length (enc_leaf es) div lenItem c = length es"
    using assms(2) lenItem_pos [of c] by (simp add: length_enc_leaf del: lenItem_pos)
  have neg: "- int (TreeKeyHashLen c) < int TREE_ITEM_HEAD_SIZE" by (simp add: TREE_ITEM_HEAD_SIZE_def)
  show ?thesis
    using find_loop_enc [OF len assms(2), of "[]"] c_find_enc [OF len assms(2), of 0]
    by (auto simp: findInBytes_def Let_def n neg split: option.splits)
qed

section \<open>The operations on entries\<close>

definition set_entry ::
    "bytes \<Rightarrow> HTreeItem \<Rightarrow> (bytes \<times> HTreeItem) list \<Rightarrow> (bytes \<times> HTreeItem) list" where
  "set_entry kb it es =
     (case entry_idx kb es of Some j \<Rightarrow> es[j := (kb, it)] | None \<Rightarrow> es @ [(kb, it)])"

definition del_entry :: "bytes \<Rightarrow> (bytes \<times> HTreeItem) list \<Rightarrow> (bytes \<times> HTreeItem) list" where
  "del_entry kb es =
     (case entry_idx kb es of Some j \<Rightarrow> take j es @ drop (Suc j) es | None \<Rightarrow> es)"

lemma split_at_entry:
  assumes "entry_idx kb es = Some j" and "entries_ok c es"
  obtains xs it ys where "es = xs @ (kb, it) # ys" "length xs = j" "kb \<notin> fst ` set xs"
    "kb \<notin> fst ` set ys" "entries_ok c xs" "entries_ok c ys" "norm_item it = it"
    "length kb = TreeKeyHashLen c" "fst ` set xs \<inter> fst ` set ys = {}"
    "map_of es kb = Some it"
proof
  have j: "j < length es" "fst (es ! j) = kb" using entry_idx_Some [OF assms(1)] by auto
  show es: "es = take j es @ (kb, snd (es ! j)) # drop (Suc j) es"
    using j by (metis id_take_nth_drop prod.collapse)
  show "length (take j es) = j" using j by simp
  have ok: "entries_ok c (take j es @ (kb, snd (es ! j)) # drop (Suc j) es)"
    using assms(2) es by simp
  show "kb \<notin> fst ` set (take j es)" "kb \<notin> fst ` set (drop (Suc j) es)"
    "entries_ok c (take j es)" "entries_ok c (drop (Suc j) es)"
    "norm_item (snd (es ! j)) = snd (es ! j)" "length kb = TreeKeyHashLen c"
    "fst ` set (take j es) \<inter> fst ` set (drop (Suc j) es) = {}"
    using ok by (auto simp: entries_ok_def simp del: take_append)
  show "map_of es kb = Some (snd (es ! j))" using assms(1) by (simp add: map_of_entry_idx)
qed

lemma set_entry_mid:
  "kb \<notin> fst ` set xs \<Longrightarrow> set_entry kb it (xs @ (kb, old) # ys) = xs @ (kb, it) # ys"
  "kb \<notin> fst ` set xs \<Longrightarrow> del_entry kb (xs @ (kb, old) # ys) = xs @ ys"
proof -
  assume "kb \<notin> fst ` set xs"
  then have "entry_idx kb (xs @ (kb, old) # ys) = Some (length xs)"
    by (induction xs) auto
  then show "set_entry kb it (xs @ (kb, old) # ys) = xs @ (kb, it) # ys"
    "del_entry kb (xs @ (kb, old) # ys) = xs @ ys"
    by (simp_all add: set_entry_def del_entry_def)
qed

lemma set_entry_laws:
  assumes "entries_ok c es" and "length kb = TreeKeyHashLen c"
  shows "entries_ok c (set_entry kb (norm_item it) es)"
    and "map_of (set_entry kb (norm_item it) es) = (map_of es)(kb \<mapsto> norm_item it)"
    and "entries_ok c (del_entry kb es)"
    and "map_of (del_entry kb es) = (map_of es)(kb := None)"
proof -
  have all: "entries_ok c (set_entry kb (norm_item it) es) \<and>
    map_of (set_entry kb (norm_item it) es) = (map_of es)(kb \<mapsto> norm_item it) \<and>
    entries_ok c (del_entry kb es) \<and> map_of (del_entry kb es) = (map_of es)(kb := None)"
  proof (cases "entry_idx kb es")
    case None
    then have n: "kb \<notin> fst ` set es" by (simp add: entry_idx_None)
    then have m: "map_of es kb = None" by (simp add: map_of_eq_None_iff)
    have "map_of (es @ [(kb, norm_item it)]) = (map_of es)(kb \<mapsto> norm_item it)"
      using m by (auto simp: map_add_def split: option.splits)
    moreover have "(map_of es)(kb := None) = map_of es" using m by auto
    moreover have "entries_ok c (es @ [(kb, norm_item it)])"
      using n assms by (auto simp: entries_ok_def)
    ultimately show ?thesis using None assms by (simp add: set_entry_def del_entry_def)
  next
    case (Some j)
    obtain xs old ys where es: "es = xs @ (kb, old) # ys" and n: "kb \<notin> fst ` set xs"
        "kb \<notin> fst ` set ys" and ok: "entries_ok c xs" "entries_ok c ys"
        "fst ` set xs \<inter> fst ` set ys = {}"
      by (rule split_at_entry [OF Some assms(1)])
    have m: "map_of xs kb = None" "map_of ys kb = None" using n by (simp_all add: map_of_eq_None_iff)
    have "entries_ok c (xs @ (kb, norm_item it) # ys)" "entries_ok c (xs @ ys)"
      using n ok assms(2) by (auto simp: entries_ok_def)
    moreover have "map_of (xs @ (kb, norm_item it) # ys) = (map_of es)(kb \<mapsto> norm_item it)"
      "map_of (xs @ ys) = (map_of es)(kb := None)"
      using m by (auto simp: es map_add_def split: option.splits)
    ultimately show ?thesis using n es by (simp add: set_entry_mid)
  qed
  then show "entries_ok c (set_entry kb (norm_item it) es)"
    "map_of (set_entry kb (norm_item it) es) = (map_of es)(kb \<mapsto> norm_item it)"
    "entries_ok c (del_entry kb es)" "map_of (del_entry kb es) = (map_of es)(kb := None)"
    by auto
qed

text \<open>Writing a key hash and an item over an entry of any content, or over fresh memory.\<close>

lemma overwrite_entry:
  assumes "5 \<le> TreeKeyHashLen c" "TreeKeyHashLen c \<le> 8" "length old = lenItem c"
  shows "leaf_overwrite c (pre @ old @ r) (length pre) k it = pre @ trunc_key c k @ item_bytes it @ r"
proof -
  let ?lk = "TreeKeyHashLen c"
  have k: "khashToBytes (old @ r) k = put_le 8 k @ drop 8 (old @ r)"
    by (simp add: khashToBytes_def write_at_def)
  have "take ?lk (put_le 8 k @ drop 8 (old @ r)) = trunc_key c k"
    using assms by (simp add: trunc_key_put_le take_put_le)
  moreover have "itemToBytes (drop ?lk (put_le 8 k @ drop 8 (old @ r))) it = item_bytes it @ r"
  proof -
    have "drop 11 (drop ?lk (put_le 8 k @ drop 8 (old @ r))) = r"
      using assms by (simp add: TREE_ITEM_HEAD_SIZE_def)
    moreover have "11 \<le> length (drop ?lk (put_le 8 k @ drop 8 (old @ r)))"
      using assms by (simp add: TREE_ITEM_HEAD_SIZE_def)
    ultimately show ?thesis by (simp add: itemToBytes_item_bytes)
  qed
  ultimately show ?thesis by (simp add: leaf_overwrite_def k Let_def)
qed

lemma leaf_Set_enc:
  assumes "5 \<le> TreeKeyHashLen c" "TreeKeyHashLen c \<le> 8" "entries_ok c es"
  shows "leaf_Set c fresh (enc_leaf es) k it =
    (enc_leaf (set_entry (trunc_key c k) (norm_item it) es),
     case map_of es (trunc_key c k) of Some old \<Rightarrow> old | None \<Rightarrow> zero_item,
     map_of es (trunc_key c k) \<noteq> None)"
proof (cases "entry_idx (trunc_key c k) es")
  case None
  have f: "findInBytes c (enc_leaf es) k < 0"
    using findInBytes_enc [OF assms(2,3), of k] None by simp
  let ?old = "take (lenItem c) (fresh @ replicate (length (enc_leaf es) + lenItem c) 0)"
  have e: "enlarge fresh (enc_leaf es) (length (enc_leaf es) + TreeKeyHashLen c + TREE_ITEM_HEAD_SIZE)
      = enc_leaf es @ ?old @ []"
    by (simp add: enlarge_def add.assoc)
  have "length ?old = lenItem c" by simp
  from overwrite_entry [OF assms(1,2) this, of "enc_leaf es" "[]" k it] f
  have "leaf_Set c fresh (enc_leaf es) k it =
      (enc_leaf es @ trunc_key c k @ item_bytes it @ [], zero_item, False)"
    unfolding leaf_Set_def Let_def e by (simp del: append_Nil2)
  then show ?thesis using None by (simp add: set_entry_def map_of_entry_idx)
next
  case (Some j)
  obtain xs old ys where es: "es = xs @ (trunc_key c k, old) # ys" and xs: "length xs = j"
      "trunc_key c k \<notin> fst ` set xs" and ok: "entries_ok c xs" and old: "norm_item old = old"
      and m: "map_of es (trunc_key c k) = Some old"
    by (rule split_at_entry [OF Some assms(3)])
  have f: "findInBytes c (enc_leaf es) k = int (length (enc_leaf xs))"
    using findInBytes_enc [OF assms(2,3), of k] Some xs ok by (simp add: length_enc_leaf)
  have "length (trunc_key c k @ item_bytes old) = lenItem c"
    using assms by (simp add: length_trunc_key TREE_ITEM_HEAD_SIZE_def)
  from overwrite_entry [OF assms(1,2) this, of "enc_leaf xs" "enc_leaf ys" k it]
  have w: "fst (leaf_Set c fresh (enc_leaf es) k it) = enc_leaf (xs @ (trunc_key c k, norm_item it) # ys)"
    using f unfolding leaf_Set_def by (simp add: es Let_def)
  have "bytesToItem (drop (length (enc_leaf xs) + TreeKeyHashLen c) (enc_leaf es)) zero_item = old"
    using assms(2) old by (simp add: es length_trunc_key)
  moreover note m
  ultimately show ?thesis
    using f w xs by (simp add: leaf_Set_def Let_def es set_entry_mid)
qed

lemma leaf_Get_enc:
  assumes "TreeKeyHashLen c \<le> 8" "entries_ok c es"
  shows "leaf_Get c (enc_leaf es) k it0 =
    (case map_of es (trunc_key c k) of
       Some it \<Rightarrow> (it\<lparr>it_Keyhash := it_Keyhash it0\<rparr>, True) | None \<Rightarrow> (it0, False))"
proof (cases "entry_idx (trunc_key c k) es")
  case None
  then show ?thesis
    using findInBytes_enc [OF assms, of k] by (simp add: leaf_Get_def map_of_entry_idx)
next
  case (Some j)
  obtain xs old ys where es: "es = xs @ (trunc_key c k, old) # ys" and xs: "length xs = j"
      and ok: "entries_ok c xs" and old: "norm_item old = old"
      and m: "map_of es (trunc_key c k) = Some old"
    by (rule split_at_entry [OF Some assms(2)])
  have f: "findInBytes c (enc_leaf es) k = int (length (enc_leaf xs))"
    using findInBytes_enc [OF assms, of k] Some xs ok by (simp add: length_enc_leaf)
  have z: "bytesToItem b it0 = (bytesToItem b zero_item)\<lparr>it_Keyhash := it_Keyhash it0\<rparr>" for b
    by (cases it0) (simp add: bytesToItem_def zero_item_def)
  have "bytesToItem (drop (length (enc_leaf xs) + TreeKeyHashLen c) (enc_leaf es)) zero_item = old"
    using assms old by (simp add: es length_trunc_key)
  moreover note m
  ultimately show ?thesis
    using f by (simp add: leaf_Get_def Let_def z [of "drop _ _"])
qed

lemma leaf_Remove_enc:
  assumes "TreeKeyHashLen c \<le> 8" "entries_ok c es"
  shows "leaf_Remove c (enc_leaf es) k oldPos =
    (case map_of es (trunc_key c k) of
       Some it \<Rightarrow>
         if ChunkID oldPos = - 1 \<or> Offset (it_Pos it) = Offset oldPos
         then (enc_leaf (del_entry (trunc_key c k) es), it, True)
         else (enc_leaf es, it, False)
     | None \<Rightarrow> (enc_leaf es, zero_item, False))"
proof (cases "entry_idx (trunc_key c k) es")
  case None
  then show ?thesis
    using findInBytes_enc [OF assms, of k] by (simp add: leaf_Remove_def map_of_entry_idx)
next
  case (Some j)
  obtain xs old ys where es: "es = xs @ (trunc_key c k, old) # ys" and xs: "length xs = j"
      "trunc_key c k \<notin> fst ` set xs"
      and ok: "entries_ok c xs" and old: "norm_item old = old"
      and m: "map_of es (trunc_key c k) = Some old"
    by (rule split_at_entry [OF Some assms(2)])
  note lk = length_trunc_key [OF assms(1), of k]
  have f: "findInBytes c (enc_leaf es) k = int (length (enc_leaf xs))"
    using findInBytes_enc [OF assms, of k] Some xs ok by (simp add: length_enc_leaf)
  have o: "bytesToItem (drop (length (enc_leaf xs) + TreeKeyHashLen c) (enc_leaf es)) zero_item = old"
    using old lk by (simp add: es)
  have d: "drop (length (enc_leaf xs) + lenItem c) (enc_leaf es) = enc_leaf ys"
    using lk by (simp add: es TREE_ITEM_HEAD_SIZE_def)
  have "take (length (enc_leaf es) - lenItem c) (write_at (length (enc_leaf xs)) (enc_leaf ys) (enc_leaf es))
      = enc_leaf (xs @ ys)"
    using lk by (simp add: es write_at_def TREE_ITEM_HEAD_SIZE_def)
  then show ?thesis
    using f o m d xs by (simp add: leaf_Remove_def Let_def) (simp add: es set_entry_mid)
qed

text \<open>\<open>Iter\<close> visits the entries in order; the stored bytes of a key hash are its low bits.\<close>

lemma bytesToKhash_masked:
  assumes "conf_ok c" "length kb = TreeKeyHashLen c"
  shows "bytesToKhash (kb @ r) AND TreeKeyHashMask c = get_le kb"
proof (rule bit_word_eqI)
  fix n assume n: "n < LENGTH(64)"
  have lk: "length kb \<le> 8" using conf_ok_len [OF assms(1)] assms(2) by simp
  have m: "TreeKeyHashMask c = mask (8 * length kb)" using assms by (simp add: conf_ok_def)
  have "n < 8 * length kb \<longleftrightarrow> n div 8 < length kb" by auto
  then show "bit (bytesToKhash (kb @ r) AND TreeKeyHashMask c) n = bit (get_le kb :: u64) n"
    using n lk unfolding m bytesToKhash_def slice_def
    by (auto simp: bit_simps bit_get_le nth_append)
qed

lemma iter_loop_enc:
  assumes "conf_ok c" "entries_ok c es"
  shows "iter_loop c h (pre @ enc_leaf es) (length pre) = map (\<lambda>(kb, it). (get_le kb OR h, it)) es"
  using assms(2)
proof (induction es arbitrary: pre)
  case Nil
  then show ?case by (simp add: iter_loop.simps)
next
  case (Cons e es)
  have e: "length (fst e) = TreeKeyHashLen c" "norm_item (snd e) = snd e" and ok: "entries_ok c es"
    using Cons.prems by (auto simp: entries_ok_Cons)
  have IH: "iter_loop c h (pre @ enc_leaf (e # es)) (length pre + lenItem c) =
      map (\<lambda>(kb, it). (get_le kb OR h, it)) es"
    using Cons.IH [OF ok, of "pre @ fst e @ item_bytes (snd e)"] e
    by (simp add: TREE_ITEM_HEAD_SIZE_def add.assoc)
  have it: "bytesToItem (drop (length pre + TreeKeyHashLen c) (pre @ enc_leaf (e # es))) zero_item = snd e"
    using e by simp
  have kh: "bytesToKhash (drop (length pre) (pre @ enc_leaf (e # es))) AND TreeKeyHashMask c = get_le (fst e)"
    using bytesToKhash_masked [OF assms(1) e(1)] by simp
  have "0 < length (enc_leaf (e # es))" by simp
  then have lt: "length pre < length (pre @ enc_leaf (e # es))" by (simp only: length_append)
  show ?case
    by (subst iter_loop.simps, unfold it kh IH, subst if_P [OF lt]) (simp add: case_prod_beta)
qed

lemma leaf_Iter_entries:
  assumes "conf_ok c" "leaf_wf c leaf"
  shows "leaf_Iter c path leaf = map (\<lambda>(kb, it). (get_le kb OR node_khash c path, it)) (leaf_entries c leaf)"
proof -
  obtain es where "entries_ok c es" "leaf = enc_leaf es" "leaf_entries c leaf = es"
    by (rule leaf_wfE [OF assms(2)])
  then show ?thesis using iter_loop_enc [OF assms(1), of es _ "[]"] by (simp add: leaf_Iter_def)
qed

section \<open>Leaves as maps\<close>

lemma leaf_map_Nil [simp]: "leaf_wf c []" "leaf_map c [] = Map.empty"
  using leaf_wf_enc [of c "[]"] leaf_map_enc [of c "[]"] by simp_all

lemma leaf_Set_map:
  assumes "conf_ok c" "leaf_wf c leaf" "leaf_Set c fresh leaf k it = (leaf', oldm, ex)"
  shows "leaf_wf c leaf'" and "leaf_map c leaf' = (leaf_map c leaf)(trunc_key c k \<mapsto> norm_item it)"
    and "ex \<longleftrightarrow> leaf_map c leaf (trunc_key c k) \<noteq> None"
    and "oldm = (case leaf_map c leaf (trunc_key c k) of Some old \<Rightarrow> old | None \<Rightarrow> zero_item)"
proof -
  note lk = conf_ok_len [OF assms(1)]
  obtain es where es: "entries_ok c es" "leaf = enc_leaf es"
    by (rule leaf_wfE [OF assms(2)])
  note laws = set_entry_laws [OF es(1) length_trunc_key [OF lk(1)]]
  show "leaf_wf c leaf'" "leaf_map c leaf' = (leaf_map c leaf)(trunc_key c k \<mapsto> norm_item it)"
    "ex \<longleftrightarrow> leaf_map c leaf (trunc_key c k) \<noteq> None"
    "oldm = (case leaf_map c leaf (trunc_key c k) of Some old \<Rightarrow> old | None \<Rightarrow> zero_item)"
    using assms(3) laws leaf_Set_enc [OF lk(2,1) es(1)] es by auto
qed

lemma leaf_Remove_map:
  assumes "conf_ok c" "leaf_wf c leaf" "leaf_Remove c leaf k oldPos = (leaf', oldm, removed)"
  shows "leaf_wf c leaf'"
    and "leaf_map c leaf' = (if removed then (leaf_map c leaf)(trunc_key c k := None) else leaf_map c leaf)"
    and "oldm = (case leaf_map c leaf (trunc_key c k) of Some old \<Rightarrow> old | None \<Rightarrow> zero_item)"
    and "removed \<longleftrightarrow> (\<exists>old. leaf_map c leaf (trunc_key c k) = Some old \<and>
           (ChunkID oldPos = - 1 \<or> Offset (it_Pos old) = Offset oldPos))"
proof -
  note lk = conf_ok_len [OF assms(1)]
  obtain es where es: "entries_ok c es" "leaf = enc_leaf es"
    by (rule leaf_wfE [OF assms(2)])
  note laws = set_entry_laws [OF es(1) length_trunc_key [OF lk(1)]]
  show "leaf_wf c leaf'"
    "leaf_map c leaf' = (if removed then (leaf_map c leaf)(trunc_key c k := None) else leaf_map c leaf)"
    "oldm = (case leaf_map c leaf (trunc_key c k) of Some old \<Rightarrow> old | None \<Rightarrow> zero_item)"
    "removed \<longleftrightarrow> (\<exists>old. leaf_map c leaf (trunc_key c k) = Some old \<and>
       (ChunkID oldPos = - 1 \<or> Offset (it_Pos old) = Offset oldPos))"
    using assms(3) laws leaf_Remove_enc [OF lk(1) es(1)] es
    by (auto split: option.splits if_splits)
qed

lemma leaf_Get_map:
  assumes "conf_ok c" "leaf_wf c leaf"
  shows "leaf_Get c leaf k it0 =
    (case leaf_map c leaf (trunc_key c k) of
       Some it \<Rightarrow> (it\<lparr>it_Keyhash := it_Keyhash it0\<rparr>, True) | None \<Rightarrow> (it0, False))"
proof -
  obtain es where "entries_ok c es" "leaf = enc_leaf es"
    by (rule leaf_wfE [OF assms(2)])
  then show ?thesis using leaf_Get_enc [OF conf_ok_len(1) [OF assms(1)]] by simp
qed

text \<open>A leaf is a key-value structure on the stored bytes of a key hash.\<close>

definition leaf_rep :: "HStoreConfig \<Rightarrow> bytes \<Rightarrow> (bytes \<rightharpoonup> HTreeItem) \<Rightarrow> bool" where
  "leaf_rep c leaf m \<longleftrightarrow> conf_ok c \<and> leaf_wf c leaf \<and> leaf_map c leaf = m"

definition leaf_put :: "HStoreConfig \<Rightarrow> u64 \<Rightarrow> HTreeItem \<times> bytes \<Rightarrow> bytes \<Rightarrow> bytes option" where
  "leaf_put c k v leaf = Some (fst (leaf_Set c (snd v) leaf k (fst v)))"

definition leaf_del :: "HStoreConfig \<Rightarrow> u64 \<Rightarrow> bytes \<Rightarrow> bytes option" where
  "leaf_del c k leaf = Some (fst (leaf_Remove c leaf k \<lparr>ChunkID = - 1, Offset = 0\<rparr>))"

definition leaf_lookup :: "HStoreConfig \<Rightarrow> u64 \<Rightarrow> bytes \<Rightarrow> HTreeItem option option" where
  "leaf_lookup c k leaf = Some (case leaf_Get c leaf k zero_item of (it, ex) \<Rightarrow> if ex then Some it else None)"

lemma leaf_map_items:
  assumes "leaf_wf c leaf" "leaf_map c leaf kb = Some it"
  shows "it_Keyhash it = 0"
proof -
  obtain es where es: "entries_ok c es" "leaf = enc_leaf es" by (rule leaf_wfE [OF assms(1)])
  then have "(kb, it) \<in> set es" using assms(2) by (simp add: map_of_SomeD)
  then have "norm_item it = it" using es(1) by (auto simp: entries_ok_def)
  then show ?thesis by (metis HintItemMeta.select_convs(1) norm_item_def)
qed

interpretation leaf: kv_store "leaf_rep c" "\<lambda>_. True" "trunc_key c" "\<lambda>_ v. norm_item (fst v)"
  "leaf_put c" "leaf_del c" "leaf_lookup c" for c
proof unfold_locales
  fix s m k v assume r: "leaf_rep c s m"
  show "\<exists>s'. leaf_put c k v s = Some s' \<and> leaf_rep c s' (m(trunc_key c k \<mapsto> norm_item (fst v)))"
    using r leaf_Set_map [of c s "snd v" k "fst v"]
    by (cases "leaf_Set c (snd v) s k (fst v)") (auto simp: leaf_rep_def leaf_put_def)
  obtain s' oldm removed where rm: "leaf_Remove c s k \<lparr>ChunkID = - 1, Offset = 0\<rparr> = (s', oldm, removed)"
    by (metis prod_cases3)
  have w: "conf_ok c" "leaf_wf c s" "leaf_map c s = m" using r by (simp_all add: leaf_rep_def)
  note R = leaf_Remove_map [OF w(1,2) rm]
  have "leaf_map c s' = m(trunc_key c k := None)"
    using R(2,4) w(3) by (cases "m (trunc_key c k)") (simp_all add: fun_upd_idem)
  then show "\<exists>s'. leaf_del c k s = Some s' \<and> leaf_rep c s' (m(trunc_key c k := None))"
    using rm R(1) w(1) by (simp add: leaf_rep_def leaf_del_def)
  show "leaf_lookup c k s = Some (m (trunc_key c k))"
    using r leaf_Get_map [of c s k zero_item] leaf_map_items [of c s "trunc_key c k"]
    by (auto simp: leaf_rep_def leaf_lookup_def zero_item_def split: option.splits)
qed

text \<open>A leaf's byte array, written and shrunk in place by any sequence of \<open>Set\<close> and \<open>Remove\<close> calls,
  answers \<open>Get\<close> with the item of the last \<open>Set\<close> of that key hash (its offset cut to a multiple of 256
  and its chunk to 16 bits), or with nothing after a \<open>Remove\<close>, whatever the memory that \<open>realloc\<close>
  returns held; key hashes are told apart by their low \<open>TreeKeyHashLen\<close> bytes.\<close>

theorem leaf_last_write:
  assumes "conf_ok c"
  shows "\<exists>leaf. run_ops (leaf_put c) (leaf_del c) ops [] = Some leaf \<and>
    leaf_lookup c k leaf = Some (last_value (\<lambda>_ v. norm_item (fst v))
      (filter (\<lambda>op. trunc_key c (op_key op) = trunc_key c k) ops))"
  by (rule leaf.run_get) (simp_all add: leaf_rep_def assms)

theorem leaf_last_write_witness:
  "\<exists>leaf. run_ops (leaf_put sample_conf) (leaf_del sample_conf)
      [Put 5 (\<lparr>it_Keyhash = 5, it_Pos = \<lparr>ChunkID = 2, Offset = 512\<rparr>, it_Ver = 1, it_Vhash = 7\<rparr>, [9]),
       Put 6 (zero_item, []), Del 6] [] = Some leaf \<and>
    leaf_lookup sample_conf 5 leaf = Some (Some \<lparr>it_Keyhash = 0, it_Pos = \<lparr>ChunkID = 2, Offset = 512\<rparr>,
      it_Ver = 1, it_Vhash = 7\<rparr>)"
proof -
  let ?ops = "[Put 5 (\<lparr>it_Keyhash = 5, it_Pos = \<lparr>ChunkID = 2, Offset = 512\<rparr>, it_Ver = 1, it_Vhash = 7\<rparr>, [9]),
       Put 6 (zero_item, []), Del 6] :: (u64, HTreeItem \<times> bytes) kv_op list"
  have "TreeKeyHashLen sample_conf = 7" by (simp add: sample_conf_def)
  then have "trunc_key sample_conf 6 \<noteq> trunc_key sample_conf 5"
    by (simp add: trunc_key_put_le put_le_eq_iff)
  then have "last_value (\<lambda>_ v. norm_item (fst v))
      (filter (\<lambda>op. trunc_key sample_conf (op_key op) = trunc_key sample_conf 5) ?ops) =
      Some \<lparr>it_Keyhash = 0, it_Pos = \<lparr>ChunkID = 2, Offset = 512\<rparr>, it_Ver = 1, it_Vhash = 7\<rparr>"
    by (simp add: norm_item_def)
  with leaf_last_write [OF sample_conf_ok, of ?ops 5] show ?thesis by (simp only:)
qed

end
