(* ===== verification/HTree.thy ===== *)
theory HTree
  imports Leaf
begin

text \<open>
  The htree of a bucket (\<open>store/htree.go\<close>): sixteen-way levels of nodes that summarise the items
  below them (a count and a 16-bit hash) over the leaves of theory \<open>Leaf\<close>.  A node outside the
  leaf level carries a flag saying that its summary is up to date; \<open>set\<close> and \<open>remove\<close> clear the flags on the
  path to a leaf and \<open>updateNodes\<close> recomputes what is stale.  An operation that would index out of
  range is \<open>None\<close>.  \<open>tree_rep\<close> relates a tree to the map from key hashes to items it stands for;
  the lemmas show that every operation implements the map operation, that summaries are a
  function of that map alone, that listings are exact, and that a dump can be loaded back.
\<close>

unbundle bit_operations_syntax

section \<open>Definitions\<close>

record Node =
  n_count :: u32
  n_hash :: u16
  isHashUpdated :: bool

record HTree =
  t_depth :: nat
  t_bucketID :: int
  levels :: "Node list list"
  leafs :: "bytes list"

record NodeInfo =
  ni_level :: nat
  ni_offset :: nat
  ni_path :: "nat list"

definition thresholdListKey :: u32 where "thresholdListKey = 256"
definition ThresholdBigHash :: u32 where "ThresholdBigHash = 256"

definition zero_node :: Node where
  "zero_node = \<lparr>n_count = 0, n_hash = 0, isHashUpdated = False\<rparr>"

text \<open>\<open>newHTree\<close> panics when the tree is too high, and for height 0 on \<open>levels[-1]\<close>.\<close>

definition newHTree :: "nat \<Rightarrow> int \<Rightarrow> nat \<Rightarrow> HTree option" where
  "newHTree depth bucketID height =
     (if depth + height > MAX_DEPTH \<or> height = 0 then None
      else Some \<lparr>t_depth = depth, t_bucketID = bucketID,
        levels = map (\<lambda>i. replicate (16 ^ i)
          (if i = height - 1 then zero_node\<lparr>isHashUpdated := True\<rparr> else zero_node)) [0..<height],
        leafs = replicate (16 ^ (height - 1)) []\<rparr>)"

definition get_node :: "Node list list \<Rightarrow> nat \<Rightarrow> nat \<Rightarrow> Node option" where
  "get_node lv l off = do { ns \<leftarrow> nth_opt lv l; nth_opt ns off }"

definition put_node :: "Node list list \<Rightarrow> nat \<Rightarrow> nat \<Rightarrow> Node \<Rightarrow> Node list list option" where
  "put_node lv l off n = do { ns \<leftarrow> nth_opt lv l; ns' \<leftarrow> upd_opt ns off n; upd_opt lv l ns' }"

text \<open>The offset after \<open>n\<close> digits of a path.\<close>

definition walk :: "nat list \<Rightarrow> nat \<Rightarrow> nat option" where
  "walk path n = (if n \<le> length path then Some (path_offset (take n path)) else None)"

definition getLeaf :: "HTree \<Rightarrow> KeyInfo \<Rightarrow> NodeInfo option" where
  "getLeaf t ki =
     (if t_depth t > length (KeyPath ki) then None
      else let lvl = length (levels t) - 1 in do {
        off \<leftarrow> walk (drop (t_depth t) (KeyPath ki)) lvl;
        _ \<leftarrow> get_node (levels t) lvl off;
        Some \<lparr>ni_level = lvl, ni_offset = off, ni_path = take (t_depth t + lvl) (KeyPath ki)\<rparr>
      })"

fun invalidate :: "nat list \<Rightarrow> nat \<Rightarrow> nat \<Rightarrow> nat \<Rightarrow> Node list list \<Rightarrow> (nat \<times> Node list list) option" where
  "invalidate path level off 0 lv = Some (off, lv)"
| "invalidate path level off (Suc n) lv = do {
     p \<leftarrow> nth_opt path (level - 1);
     let off' = off * 16 + p;
     node \<leftarrow> get_node lv level off';
     lv' \<leftarrow> put_node lv level off' (node\<lparr>isHashUpdated := False\<rparr>);
     invalidate path (Suc level) off' n lv'
   }"

text \<open>For height 1 the index \<open>path[ni.level-1]\<close> is \<open>-1\<close>: a panic.\<close>

definition getLeafAndInvalidNodes :: "HTree \<Rightarrow> KeyInfo \<Rightarrow> (NodeInfo \<times> HTree) option" where
  "getLeafAndInvalidNodes t ki =
     (if t_depth t > length (KeyPath ki) then None
      else let lvl = length (levels t) - 1; path = drop (t_depth t) (KeyPath ki) in do {
        root \<leftarrow> get_node (levels t) 0 0;
        lv0 \<leftarrow> put_node (levels t) 0 0 (root\<lparr>isHashUpdated := False\<rparr>);
        (off, lv) \<leftarrow> invalidate path 1 0 (length (levels t) - 2) lv0;
        p \<leftarrow> (if lvl = 0 then None else nth_opt path (lvl - 1));
        let off' = off * 16 + p;
        _ \<leftarrow> get_node lv lvl off';
        Some (\<lparr>ni_level = lvl, ni_offset = off', ni_path = take (t_depth t + lvl) (KeyPath ki)\<rparr>,
              t\<lparr>levels := lv\<rparr>)
      })"

definition setToLeaf ::
    "HStoreConfig \<Rightarrow> bytes \<Rightarrow> HTree \<Rightarrow> NodeInfo \<Rightarrow> KeyInfo \<Rightarrow> HTreeItem \<Rightarrow> HTree option" where
  "setToLeaf c fresh t ni ki item = do {
     node \<leftarrow> get_node (levels t) (ni_level ni) (ni_offset ni);
     leaf \<leftarrow> nth_opt (leafs t) (ni_offset ni);
     let (leaf', oldm, exist) = leaf_Set c fresh leaf (KeyHash ki) item;
     let (vhash, cnt) = (if 0 <s it_Ver item then (0 + it_Vhash item, n_count node + 1)
                         else (0, n_count node));
     let (vhash, cnt) = (if exist \<and> 0 <s it_Ver oldm then (vhash - it_Vhash oldm, cnt - 1)
                         else (vhash, cnt));
     let node' = node\<lparr>n_count := cnt,
                      n_hash := n_hash node + vhash * ucast (drop_bit 32 (KeyHash ki))\<rparr>;
     lv \<leftarrow> put_node (levels t) (ni_level ni) (ni_offset ni) node';
     ls \<leftarrow> upd_opt (leafs t) (ni_offset ni) leaf';
     Some (t\<lparr>levels := lv, leafs := ls\<rparr>)
   }"

definition remvoeFromLeaf ::
    "HStoreConfig \<Rightarrow> HTree \<Rightarrow> NodeInfo \<Rightarrow> KeyInfo \<Rightarrow> Position \<Rightarrow> HTree option" where
  "remvoeFromLeaf c t ni ki oldPos = do {
     node \<leftarrow> get_node (levels t) (ni_level ni) (ni_offset ni);
     leaf \<leftarrow> nth_opt (leafs t) (ni_offset ni);
     let (leaf', oldm, removed) = leaf_Remove c leaf (KeyHash ki) oldPos;
     let node' = (if removed \<and> 0 <s it_Ver oldm
                  then node\<lparr>n_hash := n_hash node - it_Vhash oldm * ucast (drop_bit 32 (KeyHash ki)),
                            n_count := n_count node - 1\<rparr>
                  else node);
     lv \<leftarrow> put_node (levels t) (ni_level ni) (ni_offset ni) node';
     ls \<leftarrow> upd_opt (leafs t) (ni_offset ni) leaf';
     Some (t\<lparr>levels := lv, leafs := ls\<rparr>)
   }"

text \<open>\<open>set\<close> and \<open>setReq\<close>, \<open>remove\<close>, \<open>get\<close> and \<open>getReq\<close>.\<close>

definition htree_set ::
    "HStoreConfig \<Rightarrow> bytes \<Rightarrow> HTree \<Rightarrow> KeyInfo \<Rightarrow> 'a Meta_scheme \<Rightarrow> Position \<Rightarrow> HTree option" where
  "htree_set c fresh t ki meta pos = do {
     (ni, t1) \<leftarrow> getLeafAndInvalidNodes t ki;
     setToLeaf c fresh t1 ni ki
       \<lparr>it_Keyhash = KeyHash ki, it_Pos = pos, it_Ver = Ver meta, it_Vhash = ValueHash meta\<rparr>
   }"

definition htree_remove :: "HStoreConfig \<Rightarrow> HTree \<Rightarrow> KeyInfo \<Rightarrow> Position \<Rightarrow> HTree option" where
  "htree_remove c t ki oldPos = do {
     (ni, t1) \<leftarrow> getLeafAndInvalidNodes t ki;
     remvoeFromLeaf c t1 ni ki oldPos
   }"

definition getReq :: "HStoreConfig \<Rightarrow> HTree \<Rightarrow> KeyInfo \<Rightarrow> HTreeItem \<Rightarrow> (HTreeItem \<times> bool) option" where
  "getReq c t ki item0 = do {
     ni \<leftarrow> getLeaf t ki;
     leaf \<leftarrow> nth_opt (leafs t) (ni_offset ni);
     Some (leaf_Get c leaf (KeyHash ki) item0)
   }"

definition htree_get :: "HStoreConfig \<Rightarrow> HTree \<Rightarrow> KeyInfo \<Rightarrow> (Meta \<times> Position \<times> bool) option" where
  "htree_get c t ki = do {
     (item, found) \<leftarrow> getReq c t ki zero_item;
     Some (\<lparr>TS = 0, Flag = 0, Ver = it_Ver item, ValueHash = it_Vhash item, RecSize = 0\<rparr>,
           it_Pos item, found)
   }"

text \<open>\<open>updateNodes\<close>: \<open>n\<close> is the number of levels from \<open>level\<close> on, so \<open>n = 0\<close> is the out-of-range
  \<open>levels[level]\<close>.  \<open>update_children\<close> is the loop over the sixteen children.\<close>

fun update_children ::
    "(nat \<Rightarrow> Node list list \<Rightarrow> (Node \<times> Node list list) option) \<Rightarrow> nat list \<Rightarrow> u32 \<Rightarrow> u16 list \<Rightarrow>
     Node list list \<Rightarrow> (u32 \<times> u16 list \<times> Node list list) option" where
  "update_children upd [] cnt hashs lv = Some (cnt, hashs, lv)"
| "update_children upd (i # is) cnt hashs lv = do {
     (cnode, lv') \<leftarrow> upd i lv;
     update_children upd is (cnt + n_count cnode) (hashs @ [n_hash cnode]) lv'
   }"

definition mix_hashs :: "u32 \<Rightarrow> u16 list \<Rightarrow> u16" where
  "mix_hashs cnt hashs =
     foldl (\<lambda>h x. (if cnt > ThresholdBigHash then h * 97 else h) + x) 0 hashs"

primrec updateNodes_n ::
    "nat \<Rightarrow> nat \<Rightarrow> nat \<Rightarrow> Node list list \<Rightarrow> (Node \<times> Node list list) option" where
  "updateNodes_n 0 level off lv = None"
| "updateNodes_n (Suc n) level off lv = do {
     node \<leftarrow> get_node lv level off;
     if isHashUpdated node then Some (node, lv)
     else do {
       (cnt, hashs, lv1) \<leftarrow>
         update_children (\<lambda>i. updateNodes_n n (Suc level) (off * 16 + i)) [0..<16] 0 [] lv;
       let node' = \<lparr>n_count = cnt, n_hash = mix_hashs cnt hashs, isHashUpdated = True\<rparr>;
       lv2 \<leftarrow> put_node lv1 level off node';
       Some (node', lv2)
     }
   }"

definition updateNodes :: "HTree \<Rightarrow> nat \<Rightarrow> nat \<Rightarrow> (Node \<times> HTree) option" where
  "updateNodes t level off =
     map_option (\<lambda>(n, lv). (n, t\<lparr>levels := lv\<rparr>))
       (updateNodes_n (length (levels t) - level) level off (levels t))"

definition Update :: "HTree \<Rightarrow> (Node \<times> HTree) option" where
  "Update t = updateNodes t 0 0"

definition getNode :: "HTree \<Rightarrow> KeyInfo \<Rightarrow> NodeInfo option" where
  "getNode t ki =
     (let l = min (t_depth t + length (levels t) - 1) (length (KeyPath ki)) in
      if l < t_depth t then None
      else let lvl = l - t_depth t; off = path_offset (slice (t_depth t) l (KeyPath ki)) in do {
        _ \<leftarrow> get_node (levels t) lvl off;
        Some \<lparr>ni_level = lvl, ni_offset = off, ni_path = take (t_depth t + lvl) (KeyPath ki)\<rparr>
      })"

text \<open>\<open>collectItems\<close>, \<open>n\<close> levels above the leaves; \<open>cpathBuf\<close> has eight elements.\<close>

primrec collectItems_n ::
    "HStoreConfig \<Rightarrow> HTree \<Rightarrow> u64 \<Rightarrow> u64 \<Rightarrow> nat \<Rightarrow> NodeInfo \<Rightarrow> HTreeItem list \<Rightarrow> HTreeItem list option" where
  "collectItems_n c t fkh fmask 0 ni items = do {
     leaf \<leftarrow> nth_opt (leafs t) (ni_offset ni);
     Some (items @ map (\<lambda>(h, m). m\<lparr>it_Keyhash := h\<rparr>)
       (filter (\<lambda>(h, m). fmask AND h = fkh) (leaf_Iter c (ni_path ni) leaf)))
   }"
| "collectItems_n c t fkh fmask (Suc n) ni items =
     (let clevel = Suc (ni_level ni); plen = t_depth t + clevel in
      if plen > 8 then None
      else foldl (\<lambda>acc i. do {
             its \<leftarrow> acc;
             let coff = ni_offset ni * 16 + i;
             _ \<leftarrow> get_node (levels t) clevel coff;
             let cpath = (take plen (ni_path ni @ replicate plen 0))[t_depth t + ni_level ni := i];
             collectItems_n c t fkh fmask n
               \<lparr>ni_level = clevel, ni_offset = coff, ni_path = cpath\<rparr> its
           }) (Some items) [0..<16])"

definition collectItems ::
    "HStoreConfig \<Rightarrow> HTree \<Rightarrow> NodeInfo \<Rightarrow> HTreeItem list \<Rightarrow> u64 \<Rightarrow> u64 \<Rightarrow> HTreeItem list option" where
  "collectItems c t ni items fkh fmask =
     collectItems_n c t fkh fmask (length (levels t) - 1 - ni_level ni) ni items"

text \<open>\<open>listDir\<close> returns items (\<open>Inl\<close>) or the sixteen child nodes (\<open>Inr\<close>).  The shift by
  \<open>uint(64 - len*4)\<close> of a string longer than sixteen digits is huge and leaves no bit.\<close>

definition filter_mask :: "nat \<Rightarrow> u64" where
  "filter_mask len = (if len \<le> 16 then push_bit (64 - 4 * len) (drop_bit (64 - 4 * len) (- 1)) else 0)"

definition listDir ::
    "HStoreConfig \<Rightarrow> HTree \<Rightarrow> KeyInfo \<Rightarrow> ((HTreeItem list + Node list) \<times> HTree) option" where
  "listDir c t ki = do {
     ni \<leftarrow> (if length (KeyPath ki) = t_depth t
           then do { _ \<leftarrow> get_node (levels t) 0 0;
                     Some \<lparr>ni_level = 0, ni_offset = 0, ni_path = KeyPath ki\<rparr> }
           else getNode t ki);
     (node, t1) \<leftarrow> updateNodes t (ni_level ni) (ni_offset ni);
     if ni_level ni \<ge> length (levels t1) - 1 \<or> n_count node < thresholdListKey
     then do {
       items \<leftarrow> collectItems c t1 ni [] (KeyHash ki) (filter_mask (length (StringKey ki)));
       Some (Inl items, t1)
     }
     else do {
       nodes \<leftarrow> those (map (\<lambda>i. get_node (levels t1) (Suc (ni_level ni)) (ni_offset ni * 16 + i)) [0..<16]);
       Some (Inr nodes, t1)
     }
   }"

definition item_line :: "HTreeItem \<Rightarrow> string" where
  "item_line it = FormatPad 16 16 (uint (it_Keyhash it)) @ '' '' @ Itoa (uint (it_Vhash it)) @ '' ''
     @ Itoa (sint (it_Ver it)) @ [CHR 0x0A]"

definition node_line :: "nat \<Rightarrow> Node \<Rightarrow> string" where
  "node_line i n = FormatInt 16 (int i) @ ''/ '' @ Itoa (uint (n_hash n)) @ '' ''
     @ Itoa (uint (n_count n)) @ [CHR 0x0A]"

text \<open>\<open>ListDir\<close>: an inner \<open>None\<close> is the error for a path shorter than the depth.\<close>

definition ListDir :: "HStoreConfig \<Rightarrow> HTree \<Rightarrow> KeyInfo \<Rightarrow> (string option \<times> HTree) option" where
  "ListDir c t ki =
     (if length (Key ki) < t_depth t then Some (None, t)
      else do {
        (r, t1) \<leftarrow> listDir c t ki;
        Some (Some (case r of
                 Inl items \<Rightarrow> concat (map item_line items)
               | Inr nodes \<Rightarrow> concat (map (\<lambda>(i, n). node_line i n) (enumerate 0 nodes))), t1)
      })"

definition ListTop :: "HStoreConfig \<Rightarrow> HTree \<Rightarrow> HTree option" where
  "ListTop c t = do {
     let path = bytes_of_string (FormatInt 16 (t_bucketID t));
     (ki, _) \<leftarrow> Prepare c \<lparr>KeyHash = 0, KeyIsPath = True, Key = path, StringKey = path,
                          KeyPath = [], BucketID = 0\<rparr>;
     (_, t1) \<leftarrow> ListDir c t ki;
     Some t1
   }"

text \<open>\<open>dump\<close>: the bytes written to the file (no write fails), and the tree after \<open>ListTop\<close>.\<close>

definition node_bytes :: "Node \<Rightarrow> bytes" where
  "node_bytes n = put_le 4 (n_count n) @ put_le 2 (n_hash n)"

definition leaf_bytes :: "bytes \<Rightarrow> bytes" where
  "leaf_bytes l = put_le 4 (of_nat (length l) :: u32) @ l"

definition htree_dump :: "HStoreConfig \<Rightarrow> HTree \<Rightarrow> (bytes \<times> HTree) option" where
  "htree_dump c t = do {
     t1 \<leftarrow> ListTop c t;
     leafnodes \<leftarrow> nth_opt (levels t1) (TreeHeight c - 1);
     ls \<leftarrow> those (map (nth_opt (leafs t1)) [0..<length leafnodes]);
     Some (concat (map node_bytes leafnodes) @ concat (map leaf_bytes ls), t1)
   }"

text \<open>\<open>load\<close>: \<open>False\<close> is the read error of a file that is too short, with the tree as far as it was read.
  \<open>enlarge\<close> of a leaf that is not empty keeps its memory; the whole leaf is then read over.\<close>

fun load_nodes :: "bytes \<Rightarrow> Node list \<Rightarrow> Node list \<Rightarrow> Node list \<times> bytes \<times> bool" where
  "load_nodes f done [] = (done, f, True)"
| "load_nodes f done (n # ns) =
     (if length f < 6 then (done @ n # ns, f, False)
      else load_nodes (drop 6 f)
             (done @ [n\<lparr>n_count := get_le (slice 0 4 f), n_hash := get_le (slice 4 6 f)\<rparr>]) ns)"

fun load_leafs :: "bytes \<Rightarrow> bytes list \<Rightarrow> bytes list \<Rightarrow> bytes list \<times> bool" where
  "load_leafs f done [] = (done, True)"
| "load_leafs f done (l # ls) =
     (if length f < 4 then (done @ l # ls, False)
      else let n = unat (get_le (take 4 f) :: u32); f' = drop 4 f in
           if n = 0 then load_leafs f' (done @ [l]) ls
           else if length f' < n then (done @ (f' @ drop (length f') (enlarge [] l n)) # ls, False)
           else load_leafs (drop n f') (done @ [take n f']) ls)"

definition htree_load :: "HStoreConfig \<Rightarrow> HTree \<Rightarrow> bytes \<Rightarrow> (HTree \<times> bool) option" where
  "htree_load c t f = do {
     leafnodes \<leftarrow> nth_opt (levels t) (TreeHeight c - 1);
     let (ns, f1, ok) = load_nodes f [] leafnodes;
     lv \<leftarrow> upd_opt (levels t) (TreeHeight c - 1) ns;
     if \<not> ok then Some (t\<lparr>levels := lv\<rparr>, False)
     else do {
       let (ls, ok2) = load_leafs f1 [] (leafs t);
       let t1 = t\<lparr>levels := lv, leafs := ls\<rparr>;
       if \<not> ok2 then Some (t1, False)
       else do { t2 \<leftarrow> ListTop c t1; Some (t2, True) }
     }
   }"

subsection \<open>The map a tree stands for\<close>

definition leaf_off :: "HStoreConfig \<Rightarrow> u64 \<Rightarrow> nat" where
  "leaf_off c k = path_offset (take (TreeHeight c - 1) (drop (TreeDepth c) (ParsePathUint64 k)))"

definition in_bucket :: "HStoreConfig \<Rightarrow> int \<Rightarrow> u64 \<Rightarrow> bool" where
  "in_bucket c b k \<longleftrightarrow> bucket_of_path (TreeDepth c) (ParsePathUint64 k) = b"

definition ki_for :: "HStoreConfig \<Rightarrow> HTree \<Rightarrow> KeyInfo \<Rightarrow> bool" where
  "ki_for c t ki \<longleftrightarrow>
     KeyPath ki = ParsePathUint64 (KeyHash ki) \<and> in_bucket c (t_bucketID t) (KeyHash ki)"

text \<open>What an item contributes to the summaries above it: nothing when its version is not positive.\<close>

definition item_count :: "HTreeItem option \<Rightarrow> u32" where
  "item_count x = (case x of Some it \<Rightarrow> if 0 <s it_Ver it then 1 else 0 | None \<Rightarrow> 0)"

definition item_hash :: "u64 \<Rightarrow> HTreeItem option \<Rightarrow> u16" where
  "item_hash k x = (case x of Some it \<Rightarrow> if 0 <s it_Ver it then it_Vhash it * ucast (drop_bit 32 k) else 0
                    | None \<Rightarrow> 0)"

text \<open>The summary of the node \<open>n\<close> levels above the leaves at offset \<open>off\<close>, from the map alone.\<close>

primrec spec_node :: "HStoreConfig \<Rightarrow> (u64 \<rightharpoonup> HTreeItem) \<Rightarrow> nat \<Rightarrow> nat \<Rightarrow> u32 \<times> u16" where
  "spec_node c m 0 off =
     (\<Sum>k \<in> {k. leaf_off c k = off}. item_count (m k), \<Sum>k \<in> {k. leaf_off c k = off}. item_hash k (m k))"
| "spec_node c m (Suc n) off =
     (let cs = map (\<lambda>i. spec_node c m n (off * 16 + i)) [0..<16]; cnt = sum_list (map fst cs)
      in (cnt, mix_hashs cnt (map snd cs)))"

definition shape_lv :: "nat \<Rightarrow> Node list list \<Rightarrow> bool" where
  "shape_lv h lv \<longleftrightarrow> length lv = h \<and> (\<forall>l < h. length (lv ! l) = 16 ^ l)"

definition nodes_ok :: "HStoreConfig \<Rightarrow> (u64 \<rightharpoonup> HTreeItem) \<Rightarrow> Node list list \<Rightarrow> bool" where
  "nodes_ok c m lv \<longleftrightarrow> shape_lv (TreeHeight c) lv \<and>
     (\<forall>l < TreeHeight c. \<forall>off < 16 ^ l.
        (isHashUpdated (lv ! l ! off) \<longrightarrow>
           (n_count (lv ! l ! off), n_hash (lv ! l ! off)) = spec_node c m (TreeHeight c - 1 - l) off) \<and>
        (l = TreeHeight c - 1 \<longrightarrow> isHashUpdated (lv ! l ! off)) \<and>
        (isHashUpdated (lv ! l ! off) \<and> Suc l < TreeHeight c \<longrightarrow>
           (\<forall>i < 16. isHashUpdated (lv ! Suc l ! (off * 16 + i)))))"

definition flags_le :: "nat \<Rightarrow> Node list list \<Rightarrow> Node list list \<Rightarrow> bool" where
  "flags_le h lv lv' \<longleftrightarrow> (\<forall>l < h. \<forall>off < 16 ^ l.
     isHashUpdated (lv ! l ! off) \<longrightarrow> isHashUpdated (lv' ! l ! off))"

definition leafs_ok :: "HStoreConfig \<Rightarrow> int \<Rightarrow> (u64 \<rightharpoonup> HTreeItem) \<Rightarrow> bytes list \<Rightarrow> bool" where
  "leafs_ok c b m ls \<longleftrightarrow> length ls = 16 ^ (TreeHeight c - 1) \<and> (\<forall>k \<in> dom m. in_bucket c b k) \<and>
     (\<forall>off < 16 ^ (TreeHeight c - 1). leaf_wf c (ls ! off) \<and>
        (\<forall>k. in_bucket c b k \<and> leaf_off c k = off \<longrightarrow> leaf_map c (ls ! off) (trunc_key c k) = m k) \<and>
        (\<forall>kb \<in> dom (leaf_map c (ls ! off)).
           \<exists>k. in_bucket c b k \<and> leaf_off c k = off \<and> kb = trunc_key c k))"

definition tree_rep :: "HStoreConfig \<Rightarrow> HTree \<Rightarrow> (u64 \<rightharpoonup> HTreeItem) \<Rightarrow> bool" where
  "tree_rep c t m \<longleftrightarrow> t_depth t = TreeDepth c \<and> nodes_ok c m (levels t) \<and>
     leafs_ok c (t_bucketID t) m (leafs t)"

section \<open>Offsets and keys\<close>

lemma path_split:
  "path_offset (take (d + n) ps) = path_offset (take d ps) * 16 ^ (min n (length ps - d)) + path_offset (take n (drop d ps))"
proof -
  have "take (d + n) ps = take d ps @ take n (drop d ps)" by (simp add: take_add)
  then show ?thesis by (simp add: path_offset_append min.commute)
qed

lemma conf_ok_levels:
  assumes "conf_ok c"
  shows "TreeDepth c + (TreeHeight c - 1) \<le> 7" "1 \<le> TreeHeight c"
  using assms by (auto simp: conf_ok_def MAX_DEPTH_def)

lemma leaf_off_less: "leaf_off c k < 16 ^ (TreeHeight c - 1)"
proof -
  let ?p = "take (TreeHeight c - 1) (drop (TreeDepth c) (ParsePathUint64 k))"
  have "path_offset ?p < 16 ^ length ?p"
    by (rule path_offset_bound) (auto dest!: in_set_takeD in_set_dropD)
  also have "(16 :: nat) ^ length ?p \<le> 16 ^ (TreeHeight c - 1)"
    by (rule power_increasing) simp_all
  finally show ?thesis by (simp add: leaf_off_def)
qed

lemma word_eq_take_drop:
  fixes k k' :: u64
  assumes "drop_bit a k = drop_bit a k'" and "take_bit b k = take_bit b k'" and "a \<le> b"
  shows "k = k'"
proof (rule bit_word_eqI)
  fix n assume "n < LENGTH(64)"
  show "bit k n = bit k' n"
  proof (cases "n < b")
    case True
    then show ?thesis using assms(2) by (metis bit_take_bit_iff)
  next
    case False
    then have "n = a + (n - a)" using assms(3) by simp
    then show ?thesis using assms(1) by (metis bit_drop_bit_eq comp_apply)
  qed
qed

text \<open>The bucket, the leaf and the stored bytes together determine a key hash.\<close>

lemma key_inj:
  assumes "conf_ok c" "in_bucket c b k" "in_bucket c b k'" "leaf_off c k = leaf_off c k'"
    "trunc_key c k = trunc_key c k'"
  shows "k = k'"
proof -
  let ?n = "TreeDepth c + (TreeHeight c - 1)"
  note lv = conf_ok_levels [OF assms(1)] and len = conf_ok_len [OF assms(1)]
  have "path_offset (take ?n (ParsePathUint64 k)) = path_offset (take ?n (ParsePathUint64 k'))"
    using assms(2-4) by (simp add: path_split leaf_off_def in_bucket_def bucket_of_path_offset)
  then have "drop_bit (64 - 4 * ?n) k = drop_bit (64 - 4 * ?n) k'"
    using lv by (simp add: path_offset_ParsePathUint64 word_unat_eq_iff)
  moreover have "take_bit (8 * TreeKeyHashLen c) k = take_bit (8 * TreeKeyHashLen c) k'"
    using assms(5) len(1) by (simp add: trunc_key_put_le put_le_eq_iff)
  moreover have "64 - 4 * ?n \<le> 8 * TreeKeyHashLen c" using len(3) lv(2) by simp
  ultimately show ?thesis by (rule word_eq_take_drop)
qed

lemma leaf_off_prefix:
  assumes "conf_ok c" "l \<le> TreeHeight c - 1"
  shows "path_offset (take l (drop (TreeDepth c) (ParsePathUint64 k))) =
    leaf_off c k div 16 ^ (TreeHeight c - 1 - l)"
proof -
  let ?p = "take (TreeHeight c - 1) (drop (TreeDepth c) (ParsePathUint64 k))"
  have len: "length ?p = TreeHeight c - 1" using conf_ok_levels [OF assms(1)] by simp
  have "path_offset ?p div 16 ^ (length ?p - l) = path_offset (take l ?p)"
    by (rule path_offset_div) (use assms len in \<open>auto dest!: in_set_takeD in_set_dropD\<close>)
  then show ?thesis using assms(2) len by (simp add: leaf_off_def min_def)
qed

section \<open>Nodes\<close>

lemma get_node_ok:
  "shape_lv h lv \<Longrightarrow> l < h \<Longrightarrow> off < 16 ^ l \<Longrightarrow> get_node lv l off = Some (lv ! l ! off)"
  by (simp add: shape_lv_def get_node_def)

lemma put_node_ok:
  assumes "shape_lv h lv" "l < h" "off < 16 ^ l"
  shows "put_node lv l off n = Some (lv[l := (lv ! l)[off := n]])"
    and "shape_lv h (lv[l := (lv ! l)[off := n]])"
    and "l' < h \<Longrightarrow> off' < 16 ^ l' \<Longrightarrow>
      lv[l := (lv ! l)[off := n]] ! l' ! off' = (if l' = l \<and> off' = off then n else lv ! l' ! off')"
  using assms by (auto simp: shape_lv_def put_node_def nth_list_update)

lemma invalidate_ok:
  assumes "\<forall>p \<in> set path. p < 16" and "shape_lv h lv" and "1 \<le> level" and "level + n \<le> h"
    and "level - 1 + n \<le> length path"
  shows "\<exists>lv'. invalidate path level (path_offset (take (level - 1) path)) n lv =
      Some (path_offset (take (level - 1 + n) path), lv') \<and> shape_lv h lv' \<and>
      (\<forall>l < h. \<forall>off < 16 ^ l. lv' ! l ! off =
        (if level \<le> l \<and> l < level + n \<and> off = path_offset (take l path)
         then (lv ! l ! off)\<lparr>isHashUpdated := False\<rparr> else lv ! l ! off))"
  using assms(2-)
proof (induction n arbitrary: level lv)
  case 0
  then show ?case by auto
next
  case (Suc n)
  let ?off = "path_offset (take level path)"
  have l: "level < h" "level - 1 < length path" "Suc (level - 1) = level" using Suc.prems by auto
  have off: "path_offset (take (level - 1) path) * 16 + path ! (level - 1) = ?off"
    using path_offset_take_Suc [OF l(2)] l(3) by simp
  have bound: "?off < 16 ^ level"
    using assms(1) Suc.prems by (intro path_offset_take_bound) auto
  let ?lv = "lv[level := (lv ! level)[?off := (lv ! level ! ?off)\<lparr>isHashUpdated := False\<rparr>]]"
  note put = put_node_ok [OF Suc.prems(1) l(1) bound]
  from Suc.IH [of ?lv "Suc level"] put(2) Suc.prems
  obtain lv' where IH: "invalidate path (Suc level) ?off n ?lv = Some (path_offset (take (level + n) path), lv')"
      "shape_lv h lv'"
      "\<forall>l < h. \<forall>off < 16 ^ l. lv' ! l ! off =
        (if Suc level \<le> l \<and> l < Suc level + n \<and> off = path_offset (take l path)
         then (?lv ! l ! off)\<lparr>isHashUpdated := False\<rparr> else ?lv ! l ! off)"
    by auto
  have "invalidate path level (path_offset (take (level - 1) path)) (Suc n) lv =
      Some (path_offset (take (level - 1 + Suc n) path), lv')"
    using IH(1) l Suc.prems(1) bound put(1) off by (simp add: Let_def get_node_ok)
  moreover have "lv' ! l' ! o' =
      (if level \<le> l' \<and> l' < level + Suc n \<and> o' = path_offset (take l' path)
       then (lv ! l' ! o')\<lparr>isHashUpdated := False\<rparr> else lv ! l' ! o')"
    if "l' < h" "o' < 16 ^ l'" for l' o'
    using IH(3) that put(3) [OF that] by (cases "l' = level") auto
  ultimately show ?case using IH(2) by blast
qed

text \<open>The stale nodes after \<open>getLeafAndInvalidNodes\<close> are the ancestors of the leaf.\<close>

lemma getLeafAndInvalidNodes_ok:
  assumes "conf_ok c" "2 \<le> TreeHeight c" "t_depth t = TreeDepth c" "shape_lv (TreeHeight c) (levels t)"
    "KeyPath ki = ParsePathUint64 k"
  shows "\<exists>ni lv. getLeafAndInvalidNodes t ki = Some (ni, t\<lparr>levels := lv\<rparr>) \<and>
    ni_level ni = TreeHeight c - 1 \<and> ni_offset ni = leaf_off c k \<and> shape_lv (TreeHeight c) lv \<and>
    (\<forall>l < TreeHeight c. \<forall>off < 16 ^ l. lv ! l ! off =
       (if l < TreeHeight c - 1 \<and> off = leaf_off c k div 16 ^ (TreeHeight c - 1 - l)
        then (levels t ! l ! off)\<lparr>isHashUpdated := False\<rparr> else levels t ! l ! off))"
proof -
  let ?h = "TreeHeight c" and ?p = "drop (TreeDepth c) (ParsePathUint64 k)"
  note lvl = conf_ok_levels [OF assms(1)]
  have len: "length (levels t) = ?h" using assms(4) by (simp add: shape_lv_def)
  have root: "0 < ?h" "(0 :: nat) < 16 ^ 0" using assms(2) by auto
  let ?lv0 = "(levels t)[0 := (levels t ! 0)[0 := (levels t ! 0 ! 0)\<lparr>isHashUpdated := False\<rparr>]]"
  note put = put_node_ok [OF assms(4) root]
  have dig: "\<forall>p \<in> set ?p. p < 16" by (auto dest: in_set_dropD)
  have pre: "1 + (?h - 2) \<le> ?h" "1 - 1 + (?h - 2) \<le> length ?p" using lvl assms(2) by auto
  obtain lv where inv: "invalidate ?p 1 0 (?h - 2) ?lv0 = Some (path_offset (take (?h - 2) ?p), lv)"
      "shape_lv ?h lv"
      "\<forall>l < ?h. \<forall>off < 16 ^ l. lv ! l ! off =
        (if 1 \<le> l \<and> l < 1 + (?h - 2) \<and> off = path_offset (take l ?p)
         then (?lv0 ! l ! off)\<lparr>isHashUpdated := False\<rparr> else ?lv0 ! l ! off)"
    using invalidate_ok [OF dig put(2) _ pre, of "(levels t ! 0 ! 0)\<lparr>isHashUpdated := False\<rparr>"]
    by auto
  have last: "?h - 2 < length ?p" "Suc (?h - 2) = ?h - 1" using lvl assms(2) by auto
  have lo: "path_offset (take (?h - 2) ?p) * 16 + ?p ! (?h - 2) = leaf_off c k"
    using path_offset_take_Suc [OF last(1)] last(2) by (simp add: leaf_off_def)
  have gl: "get_node lv (?h - 1) (leaf_off c k) = Some (lv ! (?h - 1) ! leaf_off c k)"
    using inv(2) leaf_off_less assms(2) by (intro get_node_ok) auto
  have idx: "?h - 1 - 1 = ?h - 2" "?h - 1 \<noteq> 0" "\<not> TreeDepth c > 16" using assms(2) lvl by auto
  have "getLeafAndInvalidNodes t ki = Some (\<lparr>ni_level = ?h - 1, ni_offset = leaf_off c k,
      ni_path = take (TreeDepth c + (?h - 1)) (ParsePathUint64 k)\<rparr>, t\<lparr>levels := lv\<rparr>)"
    unfolding getLeafAndInvalidNodes_def Let_def len assms(3,5) idx(1)
    using get_node_ok [OF assms(4) root] put(1) inv(1) last(1) lo gl idx by simp
  moreover have "lv ! l ! off =
      (if l < ?h - 1 \<and> off = leaf_off c k div 16 ^ (?h - 1 - l)
       then (levels t ! l ! off)\<lparr>isHashUpdated := False\<rparr> else levels t ! l ! off)"
    if "l < ?h" "off < 16 ^ l" for l off
  proof -
    have "path_offset (take l ?p) = leaf_off c k div 16 ^ (?h - 1 - l)"
      using that assms(1) by (intro leaf_off_prefix) auto
    moreover have "1 \<le> l \<and> l < 1 + (?h - 2) \<longleftrightarrow> l \<noteq> 0 \<and> l < ?h - 1" using assms(2) by auto
    moreover have "l = 0 \<Longrightarrow> off = 0 \<and> leaf_off c k div 16 ^ (?h - 1) = 0"
      using that leaf_off_less [of c k] by simp
    ultimately show ?thesis
      using inv(3) that put(3) [OF that] assms(2) by auto
  qed
  ultimately show ?thesis using inv(2) by (intro exI conjI) (auto simp del: power_Suc)
qed

section \<open>Summaries as a function of the map\<close>

lemma spec_node_other:
  assumes "off \<noteq> leaf_off c k div 16 ^ n"
  shows "spec_node c (m(k := x)) n off = spec_node c m n off"
  using assms
proof (induction n arbitrary: off)
  case 0
  then have "k \<notin> {k. leaf_off c k = off}" by auto
  then have "(\<Sum>j \<in> {j. leaf_off c j = off}. f j ((m(k := x)) j)) = (\<Sum>j \<in> {j. leaf_off c j = off}. f j (m j))"
    for f :: "u64 \<Rightarrow> HTreeItem option \<Rightarrow> 'b::comm_ring_1"
    by (intro sum.cong) auto
  from this [of "\<lambda>_. item_count"] this [of item_hash] show ?case
    by (simp only: spec_node.simps)
next
  case (Suc n)
  have "off * 16 + i \<noteq> leaf_off c k div 16 ^ n" if "i < 16" for i
  proof
    assume "off * 16 + i = leaf_off c k div 16 ^ n"
    then have "(off * 16 + i) div 16 = leaf_off c k div 16 ^ n div 16" by simp
    then have "off = leaf_off c k div 16 ^ Suc n" using that by (simp add: power_Suc2 div_mult2_eq del: power_Suc)
    with Suc.prems show False by simp
  qed
  then have "map (\<lambda>i. spec_node c (m(k := x)) n (off * 16 + i)) [0..<16] =
      map (\<lambda>i. spec_node c m n (off * 16 + i)) [0..<16]"
    by (intro map_cong refl Suc.IH) auto
  then show ?case by (simp only: spec_node.simps)
qed

lemma spec_node_leaf:
  "spec_node c (m(k := x)) 0 (leaf_off c k) =
    (fst (spec_node c m 0 (leaf_off c k)) + (item_count x - item_count (m k)),
     snd (spec_node c m 0 (leaf_off c k)) + (item_hash k x - item_hash k (m k)))"
proof -
  have "(\<Sum>j \<in> {j. leaf_off c j = leaf_off c k}. f j ((m(k := x)) j)) =
      (\<Sum>j \<in> {j. leaf_off c j = leaf_off c k}. f j (m j)) + (f k x - f k (m k))"
    for f :: "u64 \<Rightarrow> HTreeItem option \<Rightarrow> 'b::comm_ring_1"
    using sum_update_point [of k "\<lambda>j. f j ((m(k := x)) j)" "\<lambda>j. f j (m j)"
        "{j. leaf_off c j = leaf_off c k}"] by simp
  from this [of "\<lambda>_. item_count"] this [of item_hash] show ?thesis
    by (simp only: spec_node.simps fst_conv snd_conv)
qed

text \<open>Clearing the ancestors' flags and writing the leaf's new summary keeps every flagged node right.\<close>

lemma nodes_ok_update:
  assumes "1 \<le> TreeHeight c" "nodes_ok c m lv" "shape_lv (TreeHeight c) lv2"
    and lv2: "\<And>l off. l < TreeHeight c \<Longrightarrow> off < 16 ^ l \<Longrightarrow>
      (l = TreeHeight c - 1 \<and> off = leaf_off c k \<longrightarrow> isHashUpdated (lv2 ! l ! off) \<and>
        (n_count (lv2 ! l ! off), n_hash (lv2 ! l ! off)) = spec_node c (m(k := x)) 0 off) \<and>
      (l < TreeHeight c - 1 \<and> off = leaf_off c k div 16 ^ (TreeHeight c - 1 - l) \<longrightarrow>
         \<not> isHashUpdated (lv2 ! l ! off)) \<and>
      (off \<noteq> leaf_off c k div 16 ^ (TreeHeight c - 1 - l) \<longrightarrow> lv2 ! l ! off = lv ! l ! off)"
  shows "nodes_ok c (m(k := x)) lv2"
  unfolding nodes_ok_def
proof (intro conjI allI impI)
  fix l off :: nat assume l: "l < TreeHeight c" and o: "off < 16 ^ l"
  show "(n_count (lv2 ! l ! off), n_hash (lv2 ! l ! off)) =
      spec_node c (m(k := x)) (TreeHeight c - 1 - l) off" if u: "isHashUpdated (lv2 ! l ! off)"
  proof (cases "off = leaf_off c k div 16 ^ (TreeHeight c - 1 - l)")
    case True
    with u lv2 [OF l o] have "\<not> l < TreeHeight c - 1" by auto
    then have "l = TreeHeight c - 1" using l by auto
    then show ?thesis using True lv2 [OF l o] by simp
  next
    case False
    then show ?thesis
      using lv2 [OF l o] u assms(2) l o by (simp add: nodes_ok_def spec_node_other)
  qed
  show "isHashUpdated (lv2 ! l ! off)" if "l = TreeHeight c - 1"
    using that lv2 [OF l o] assms(2) l o
    by (cases "off = leaf_off c k") (simp_all add: nodes_ok_def)
  show "isHashUpdated (lv2 ! Suc l ! (off * 16 + i))"
    if u: "isHashUpdated (lv2 ! l ! off) \<and> Suc l < TreeHeight c" and i: "i < 16" for i
  proof -
    let ?n = "TreeHeight c - 1 - Suc l"
    have n: "TreeHeight c - 1 - l = Suc ?n" using u by auto
    have ne: "off \<noteq> leaf_off c k div 16 ^ (TreeHeight c - 1 - l)" using lv2 [OF l o] u by auto
    then have c1: "isHashUpdated (lv ! Suc l ! (off * 16 + i))"
      using lv2 [OF l o] assms(2) u i l o by (simp add: nodes_ok_def)
    have "leaf_off c k div 16 ^ Suc ?n = leaf_off c k div 16 ^ ?n div 16"
      by (simp only: power_Suc2 div_mult2_eq)
    then have "off * 16 + i \<noteq> leaf_off c k div 16 ^ ?n" using ne i unfolding n by auto
    moreover have "off * 16 + i < 16 ^ Suc l" using o i by simp
    ultimately show ?thesis using lv2 [of "Suc l" "off * 16 + i"] u c1 by simp
  qed
qed (rule assms(3))

section \<open>Set, remove and get implement the map\<close>

lemma tree_repD:
  assumes "tree_rep c t m"
  shows "t_depth t = TreeDepth c" "shape_lv (TreeHeight c) (levels t)" "nodes_ok c m (levels t)"
    "leafs_ok c (t_bucketID t) m (leafs t)" "length (leafs t) = 16 ^ (TreeHeight c - 1)"
  using assms by (auto simp: tree_rep_def nodes_ok_def leafs_ok_def)

lemma leafs_ok_at:
  assumes "leafs_ok c b m ls" "in_bucket c b k"
  shows "leaf_wf c (ls ! leaf_off c k)" "leaf_map c (ls ! leaf_off c k) (trunc_key c k) = m k"
  using assms leaf_off_less [of c k] by (auto simp: leafs_ok_def)

lemma leafs_ok_update:
  assumes "conf_ok c" "leafs_ok c b m ls" "in_bucket c b k" "leaf_wf c leaf'"
    "leaf_map c leaf' = (leaf_map c (ls ! leaf_off c k))(trunc_key c k := x)"
  shows "leafs_ok c b (m(k := x)) (ls[leaf_off c k := leaf'])"
proof -
  let ?N = "16 ^ (TreeHeight c - 1) :: nat" and ?o = "leaf_off c k"
  have len: "length ls = ?N" and o: "?o < ?N" using assms(2) leaf_off_less by (auto simp: leafs_ok_def)
  have at: "leaf_wf c (ls ! off)"
      "\<And>j. in_bucket c b j \<Longrightarrow> leaf_off c j = off \<Longrightarrow> leaf_map c (ls ! off) (trunc_key c j) = m j"
      "\<And>kb. kb \<in> dom (leaf_map c (ls ! off)) \<Longrightarrow>
         \<exists>j. in_bucket c b j \<and> leaf_off c j = off \<and> kb = trunc_key c j"
    if "off < ?N" for off
    using assms(2) that by (auto simp: leafs_ok_def)
  have map: "leaf_map c leaf' (trunc_key c j) = (m(k := x)) j"
    if "in_bucket c b j" "leaf_off c j = ?o" for j
  proof (cases "j = k")
    case False
    then have "trunc_key c j \<noteq> trunc_key c k" using key_inj [OF assms(1) that(1) assms(3)] that by auto
    then show ?thesis using False at(2) [OF o that] by (simp add: assms(5))
  qed (simp add: assms(5))
  have dom: "\<exists>j. in_bucket c b j \<and> leaf_off c j = ?o \<and> kb = trunc_key c j"
    if "kb \<in> dom (leaf_map c leaf')" for kb
    using that at(3) [OF o] assms(3) by (cases "kb = trunc_key c k") (auto simp: assms(5) split: if_splits)
  show ?thesis
    unfolding leafs_ok_def
  proof (intro conjI allI impI ballI)
    fix off assume off: "off < ?N"
    show "leaf_wf c (ls[?o := leaf'] ! off)"
      using at(1) [OF off] assms(4) off o len by (simp add: nth_list_update)
    show "leaf_map c (ls[?o := leaf'] ! off) (trunc_key c j) = (m(k := x)) j"
      if "in_bucket c b j \<and> leaf_off c j = off" for j
      using at(2) [OF off] map that off o len by (auto simp: nth_list_update)
    show "\<exists>j. in_bucket c b j \<and> leaf_off c j = off \<and> kb = trunc_key c j"
      if "kb \<in> dom (leaf_map c (ls[?o := leaf'] ! off))" for kb
      using that at(3) [OF off] dom off o len by (auto simp: nth_list_update split: if_splits)
  qed (use assms(2,3) len in \<open>auto simp: leafs_ok_def split: if_splits\<close>)
qed

text \<open>The common core of \<open>set\<close> and \<open>remove\<close>: the leaf and its node are replaced consistently.\<close>

lemma tree_rep_update:
  assumes "conf_ok c" "2 \<le> TreeHeight c" "tree_rep c t m" "ki_for c t ki"
  obtains ni t1 where "getLeafAndInvalidNodes t ki = Some (ni, t1)"
    and "ni_offset ni = leaf_off c (KeyHash ki)" "leafs t1 = leafs t" "t_bucketID t1 = t_bucketID t"
    and "nth_opt (leafs t) (leaf_off c (KeyHash ki)) = Some (leafs t ! leaf_off c (KeyHash ki))"
    and "\<And>node' leaf' x.
      leaf_wf c leaf' \<Longrightarrow>
      leaf_map c leaf' = (leaf_map c (leafs t ! leaf_off c (KeyHash ki)))(trunc_key c (KeyHash ki) := x) \<Longrightarrow>
      \<exists>node. get_node (levels t1) (ni_level ni) (ni_offset ni) = Some node \<and>
        (isHashUpdated node' = isHashUpdated node \<longrightarrow>
         n_count node' = n_count node + (item_count x - item_count (m (KeyHash ki))) \<longrightarrow>
         n_hash node' = n_hash node + (item_hash (KeyHash ki) x - item_hash (KeyHash ki) (m (KeyHash ki))) \<longrightarrow>
         (\<exists>lv ls. put_node (levels t1) (ni_level ni) (ni_offset ni) node' = Some lv \<and>
            upd_opt (leafs t1) (ni_offset ni) leaf' = Some ls \<and>
            tree_rep c (t1\<lparr>levels := lv, leafs := ls\<rparr>) (m(KeyHash ki := x))))"
proof -
  let ?k = "KeyHash ki" and ?h = "TreeHeight c"
  let ?o = "leaf_off c ?k"
  note rep = tree_repD [OF assms(3)]
  have kp: "KeyPath ki = ParsePathUint64 ?k" and ib: "in_bucket c (t_bucketID t) ?k"
    using assms(4) by (auto simp: ki_for_def)
  obtain ni lv where g: "getLeafAndInvalidNodes t ki = Some (ni, t\<lparr>levels := lv\<rparr>)"
      "ni_level ni = ?h - 1" "ni_offset ni = ?o" and sh: "shape_lv ?h lv" and
    lv: "\<forall>l < ?h. \<forall>off < 16 ^ l. lv ! l ! off =
       (if l < ?h - 1 \<and> off = ?o div 16 ^ (?h - 1 - l)
        then (levels t ! l ! off)\<lparr>isHashUpdated := False\<rparr> else levels t ! l ! off)"
    using getLeafAndInvalidNodes_ok [OF assms(1,2) rep(1,2) kp] by blast
  have hl: "?h - 1 < ?h" "?o < 16 ^ (?h - 1)" using assms(2) leaf_off_less by auto
  have node: "lv ! (?h - 1) ! ?o = levels t ! (?h - 1) ! ?o" using lv hl by simp
  have old: "isHashUpdated (levels t ! (?h - 1) ! ?o)"
      "(n_count (levels t ! (?h - 1) ! ?o), n_hash (levels t ! (?h - 1) ! ?o)) = spec_node c m 0 ?o"
    using rep(3) hl by (auto simp: nodes_ok_def)
  have main: "tree_rep c (t\<lparr>levels := lv[?h - 1 := (lv ! (?h - 1))[?o := node']],
        leafs := (leafs t)[?o := leaf']\<rparr>) (m(?k := x))"
    if wf: "leaf_wf c leaf'" "leaf_map c leaf' = (leaf_map c (leafs t ! ?o))(trunc_key c ?k := x)"
      and n: "isHashUpdated node' = isHashUpdated (levels t ! (?h - 1) ! ?o)"
        "n_count node' = n_count (levels t ! (?h - 1) ! ?o) + (item_count x - item_count (m ?k))"
        "n_hash node' = n_hash (levels t ! (?h - 1) ! ?o) + (item_hash ?k x - item_hash ?k (m ?k))"
    for node' leaf' x
  proof -
    note put = put_node_ok [OF sh hl, where n = node']
    have "(n_count node', n_hash node') = spec_node c (m(?k := x)) 0 ?o"
      using old(2) n(2,3) by (metis fst_conv snd_conv spec_node_leaf)
    then have nok: "nodes_ok c (m(?k := x)) (lv[?h - 1 := (lv ! (?h - 1))[?o := node']])"
      using assms(2) old(1) n(1)
      by (intro nodes_ok_update [OF _ rep(3) put(2)], simp, unfold put(3))
        (auto simp: lv simp del: spec_node.simps)
    have "leafs_ok c (t_bucketID t) (m(?k := x)) ((leafs t)[?o := leaf'])"
      by (rule leafs_ok_update [OF assms(1) rep(4) ib wf])
    with nok show ?thesis by (simp add: tree_rep_def rep(1))
  qed
  show ?thesis
  proof (rule that [OF g(1)])
    show "nth_opt (leafs t) ?o = Some (leafs t ! ?o)" using rep(5) hl by simp
    fix node' leaf' x
    assume wf: "leaf_wf c leaf'" "leaf_map c leaf' = (leaf_map c (leafs t ! ?o))(trunc_key c ?k := x)"
    have "upd_opt (leafs t) ?o leaf' = Some ((leafs t)[?o := leaf'])" using rep(5) hl by simp
    with main [OF wf, of node'] put_node_ok(1) [OF sh hl, where n = node'] get_node_ok [OF sh hl] node
    show "\<exists>node. get_node (levels (t\<lparr>levels := lv\<rparr>)) (ni_level ni) (ni_offset ni) = Some node \<and>
        (isHashUpdated node' = isHashUpdated node \<longrightarrow>
         n_count node' = n_count node + (item_count x - item_count (m ?k)) \<longrightarrow>
         n_hash node' = n_hash node + (item_hash ?k x - item_hash ?k (m ?k)) \<longrightarrow>
         (\<exists>lv' ls. put_node (levels (t\<lparr>levels := lv\<rparr>)) (ni_level ni) (ni_offset ni) node' = Some lv' \<and>
            upd_opt (leafs (t\<lparr>levels := lv\<rparr>)) (ni_offset ni) leaf' = Some ls \<and>
            tree_rep c ((t\<lparr>levels := lv\<rparr>)\<lparr>levels := lv', leafs := ls\<rparr>) (m(?k := x))))"
      by (simp add: g(2,3))
  qed (simp_all add: g)
qed

lemma item_count_norm [simp]: "item_count (Some (norm_item it)) = item_count (Some it)"
  and item_hash_norm [simp]: "item_hash k (Some (norm_item it)) = item_hash k (Some it)"
  by (simp_all add: item_count_def item_hash_def norm_item_def)

lemma htree_set_rep:
  assumes "conf_ok c" "2 \<le> TreeHeight c" "tree_rep c t m" "ki_for c t ki"
  shows "\<exists>t'. htree_set c fresh t ki meta pos = Some t' \<and> t_bucketID t' = t_bucketID t \<and>
    tree_rep c t' (m(KeyHash ki \<mapsto> norm_item
      \<lparr>it_Keyhash = KeyHash ki, it_Pos = pos, it_Ver = Ver meta, it_Vhash = ValueHash meta\<rparr>))"
proof -
  let ?k = "KeyHash ki" and ?o = "leaf_off c (KeyHash ki)"
  let ?it = "\<lparr>it_Keyhash = ?k, it_Pos = pos, it_Ver = Ver meta, it_Vhash = ValueHash meta\<rparr>"
  have ib: "in_bucket c (t_bucketID t) ?k" using assms(4) by (simp add: ki_for_def)
  note at = leafs_ok_at [OF tree_repD(4) [OF assms(3)] ib]
  obtain leaf' oldm ex where st: "leaf_Set c fresh (leafs t ! ?o) ?k ?it = (leaf', oldm, ex)"
    by (metis prod_cases3)
  note S = leaf_Set_map [OF assms(1) at(1) st]
  obtain ni t1 where g: "getLeafAndInvalidNodes t ki = Some (ni, t1)" "ni_offset ni = ?o"
      "leafs t1 = leafs t" "t_bucketID t1 = t_bucketID t" "nth_opt (leafs t) ?o = Some (leafs t ! ?o)"
    and upd: "\<And>node'. \<exists>node. get_node (levels t1) (ni_level ni) (ni_offset ni) = Some node \<and>
        (isHashUpdated node' = isHashUpdated node \<longrightarrow>
         n_count node' = n_count node + (item_count (Some (norm_item ?it)) - item_count (m ?k)) \<longrightarrow>
         n_hash node' = n_hash node + (item_hash ?k (Some (norm_item ?it)) - item_hash ?k (m ?k)) \<longrightarrow>
         (\<exists>lv ls. put_node (levels t1) (ni_level ni) (ni_offset ni) node' = Some lv \<and>
            upd_opt (leafs t1) (ni_offset ni) leaf' = Some ls \<and>
            tree_rep c (t1\<lparr>levels := lv, leafs := ls\<rparr>) (m(?k \<mapsto> norm_item ?it))))"
    by (rule tree_rep_update [OF assms]) (use S(1,2) in metis)
  obtain node where node: "get_node (levels t1) (ni_level ni) ?o = Some node"
    using upd [of undefined] g(2) by auto
  define c1 where "c1 = (if 0 <s Ver meta then n_count node + 1 else n_count node)"
  define v1 where "v1 = (if 0 <s Ver meta then ValueHash meta else 0)"
  define cnt where "cnt = (if ex \<and> 0 <s it_Ver oldm then c1 - 1 else c1)"
  define vh where "vh = (if ex \<and> 0 <s it_Ver oldm then v1 - it_Vhash oldm else v1)"
  define node' where
    "node' = node\<lparr>n_count := cnt, n_hash := n_hash node + vh * ucast (drop_bit 32 ?k)\<rparr>"
  have "cnt = n_count node + (item_count (Some (norm_item ?it)) - item_count (m ?k))"
    "vh * ucast (drop_bit 32 ?k) = item_hash ?k (Some (norm_item ?it)) - item_hash ?k (m ?k)"
    using S(3,4) at(2)
    by (auto simp: cnt_def c1_def vh_def v1_def item_count_def item_hash_def left_diff_distrib
        split: option.splits)
  with upd [of node'] node g(2)
  obtain lv ls where p: "put_node (levels t1) (ni_level ni) ?o node' = Some lv"
      "upd_opt (leafs t1) ?o leaf' = Some ls"
      "tree_rep c (t1\<lparr>levels := lv, leafs := ls\<rparr>) (m(?k \<mapsto> norm_item ?it))"
    by (auto simp: node'_def)
  have "htree_set c fresh t ki meta pos = Some (t1\<lparr>levels := lv, leafs := ls\<rparr>)"
    using g node p(1,2) st
    by (auto simp: htree_set_def setToLeaf_def Let_def node'_def cnt_def vh_def c1_def v1_def)
  then show ?thesis using p(3) g(4) by auto
qed

lemma htree_remove_rep:
  assumes "conf_ok c" "2 \<le> TreeHeight c" "tree_rep c t m" "ki_for c t ki"
  shows "\<exists>t'. htree_remove c t ki oldPos = Some t' \<and> t_bucketID t' = t_bucketID t \<and>
    tree_rep c t' (if \<exists>old. m (KeyHash ki) = Some old \<and>
        (ChunkID oldPos = - 1 \<or> Offset (it_Pos old) = Offset oldPos)
      then m(KeyHash ki := None) else m)"
proof -
  let ?k = "KeyHash ki" and ?o = "leaf_off c (KeyHash ki)"
  let ?rm = "\<exists>old. m ?k = Some old \<and> (ChunkID oldPos = - 1 \<or> Offset (it_Pos old) = Offset oldPos)"
  define x where "x = (if ?rm then None else m ?k)"
  have ib: "in_bucket c (t_bucketID t) ?k" using assms(4) by (simp add: ki_for_def)
  note at = leafs_ok_at [OF tree_repD(4) [OF assms(3)] ib]
  obtain leaf' oldm rm where st: "leaf_Remove c (leafs t ! ?o) ?k oldPos = (leaf', oldm, rm)"
    by (metis prod_cases3)
  note S = leaf_Remove_map [OF assms(1) at(1) st]
  have rm: "rm = ?rm" using S(4) at(2) by simp
  have lm: "leaf_map c leaf' = (leaf_map c (leafs t ! ?o))(trunc_key c ?k := x)"
    using S(2) at(2) rm by (auto simp: x_def)
  obtain ni t1 where g: "getLeafAndInvalidNodes t ki = Some (ni, t1)" "ni_offset ni = ?o"
      "leafs t1 = leafs t" "t_bucketID t1 = t_bucketID t" "nth_opt (leafs t) ?o = Some (leafs t ! ?o)"
    and upd: "\<And>node'. \<exists>node. get_node (levels t1) (ni_level ni) (ni_offset ni) = Some node \<and>
        (isHashUpdated node' = isHashUpdated node \<longrightarrow>
         n_count node' = n_count node + (item_count x - item_count (m ?k)) \<longrightarrow>
         n_hash node' = n_hash node + (item_hash ?k x - item_hash ?k (m ?k)) \<longrightarrow>
         (\<exists>lv ls. put_node (levels t1) (ni_level ni) (ni_offset ni) node' = Some lv \<and>
            upd_opt (leafs t1) (ni_offset ni) leaf' = Some ls \<and>
            tree_rep c (t1\<lparr>levels := lv, leafs := ls\<rparr>) (m(?k := x))))"
    by (rule tree_rep_update [OF assms]) (use S(1) lm in metis)
  obtain node where node: "get_node (levels t1) (ni_level ni) ?o = Some node"
    using upd [of undefined] g(2) by auto
  define node' where
    "node' = (if rm \<and> 0 <s it_Ver oldm
       then node\<lparr>n_hash := n_hash node - it_Vhash oldm * ucast (drop_bit 32 ?k), n_count := n_count node - 1\<rparr>
       else node)"
  have "n_count node' = n_count node + (item_count x - item_count (m ?k))"
    "n_hash node' = n_hash node + (item_hash ?k x - item_hash ?k (m ?k))"
    "isHashUpdated node' = isHashUpdated node"
    using S(3) at(2) rm by (auto simp: node'_def x_def item_count_def item_hash_def split: option.splits)
  with upd [of node'] node g(2)
  obtain lv ls where p: "put_node (levels t1) (ni_level ni) ?o node' = Some lv"
      "upd_opt (leafs t1) ?o leaf' = Some ls"
      "tree_rep c (t1\<lparr>levels := lv, leafs := ls\<rparr>) (m(?k := x))"
    by auto
  have "htree_remove c t ki oldPos = Some (t1\<lparr>levels := lv, leafs := ls\<rparr>)"
    using g node p(1,2) st by (simp add: htree_remove_def remvoeFromLeaf_def Let_def node'_def)
  moreover have "m(?k := x) = (if ?rm then m(?k := None) else m)" by (auto simp: x_def)
  ultimately show ?thesis using p(3) g(4) by auto
qed

lemma getLeaf_ok:
  assumes "conf_ok c" "tree_rep c t m" "ki_for c t ki"
  shows "\<exists>ni. getLeaf t ki = Some ni \<and> ni_offset ni = leaf_off c (KeyHash ki)"
proof -
  note rep = tree_repD [OF assms(2)] and lvl = conf_ok_levels [OF assms(1)]
  have len: "length (levels t) = TreeHeight c" using rep(2) by (simp add: shape_lv_def)
  have "get_node (levels t) (TreeHeight c - 1) (leaf_off c (KeyHash ki)) \<noteq> None"
    using get_node_ok [OF rep(2) _ leaf_off_less] lvl by auto
  then show ?thesis
    using assms(3) rep(1) lvl len by (auto simp: getLeaf_def walk_def ki_for_def Let_def leaf_off_def)
qed

lemma htree_get_rep:
  assumes "conf_ok c" "tree_rep c t m" "ki_for c t ki"
  shows "htree_get c t ki = Some (case m (KeyHash ki) of
      Some it \<Rightarrow> (\<lparr>TS = 0, Flag = 0, Ver = it_Ver it, ValueHash = it_Vhash it, RecSize = 0\<rparr>, it_Pos it, True)
    | None \<Rightarrow> (\<lparr>TS = 0, Flag = 0, Ver = 0, ValueHash = 0, RecSize = 0\<rparr>,
               \<lparr>ChunkID = 0, Offset = 0\<rparr>, False))"
proof -
  have ib: "in_bucket c (t_bucketID t) (KeyHash ki)" using assms(3) by (simp add: ki_for_def)
  note at = leafs_ok_at [OF tree_repD(4) [OF assms(2)] ib]
  obtain ni where ni: "getLeaf t ki = Some ni" "ni_offset ni = leaf_off c (KeyHash ki)"
    using getLeaf_ok [OF assms] by blast
  have "nth_opt (leafs t) (leaf_off c (KeyHash ki)) = Some (leafs t ! leaf_off c (KeyHash ki))"
    using tree_repD(5) [OF assms(2)] leaf_off_less by (intro nth_opt_Some) simp
  then show ?thesis
    using ni leaf_Get_map [OF assms(1) at(1), of "KeyHash ki" zero_item] at(2)
    by (auto simp: htree_get_def getReq_def zero_item_def split: option.splits)
qed

section \<open>Updating summaries\<close>

lemma flags_le_refl [simp]: "flags_le h lv lv"
  by (simp add: flags_le_def)

lemma flags_le_trans: "flags_le h a b \<Longrightarrow> flags_le h b d \<Longrightarrow> flags_le h a d"
  by (simp add: flags_le_def)

text \<open>What an update of the node at \<open>level\<close>, \<open>off\<close> promises: it returns the summary \<open>s\<close> and keeps \<open>nodes_ok\<close>.\<close>

definition updates_to ::
    "HStoreConfig \<Rightarrow> (u64 \<rightharpoonup> HTreeItem) \<Rightarrow> nat \<Rightarrow> nat \<Rightarrow> u32 \<times> u16 \<Rightarrow> Node list list \<Rightarrow>
     (Node \<times> Node list list) option \<Rightarrow> bool" where
  "updates_to c m level off s lv r \<longleftrightarrow> (\<exists>node lv'. r = Some (node, lv') \<and> nodes_ok c m lv' \<and>
     flags_le (TreeHeight c) lv lv' \<and> isHashUpdated (lv' ! level ! off) \<and> lv' ! level ! off = node \<and>
     (n_count node, n_hash node) = s)"

lemma update_children_ok:
  assumes "\<And>i lv. i \<in> set is \<Longrightarrow> nodes_ok c m lv \<Longrightarrow> updates_to c m level (off i) (f i) lv (upd i lv)"
    and "nodes_ok c m lv" and "level < TreeHeight c" "\<And>i. i \<in> set is \<Longrightarrow> off i < 16 ^ level"
  shows "\<exists>lv'. update_children upd is cnt hs lv =
      Some (cnt + sum_list (map (\<lambda>i. fst (f i)) is), hs @ map (\<lambda>i. snd (f i)) is, lv') \<and> nodes_ok c m lv' \<and>
    flags_le (TreeHeight c) lv lv' \<and> (\<forall>i \<in> set is. isHashUpdated (lv' ! level ! off i))"
  using assms(1,2,4)
proof (induction "is" arbitrary: cnt hs lv)
  case (Cons i js)
  obtain node lv1 where n: "upd i lv = Some (node, lv1)" "nodes_ok c m lv1" "(n_count node, n_hash node) = f i"
      "flags_le (TreeHeight c) lv lv1" "isHashUpdated (lv1 ! level ! off i)"
    using Cons.prems(1) [of i lv] Cons.prems(2) by (auto simp: updates_to_def)
  then have f: "fst (f i) = n_count node" "snd (f i) = n_hash node" by (metis fst_conv, metis snd_conv)
  have "\<exists>lv'. update_children upd js (cnt + n_count node) (hs @ [n_hash node]) lv1 =
      Some (cnt + n_count node + sum_list (map (\<lambda>i. fst (f i)) js), (hs @ [n_hash node]) @ map (\<lambda>i. snd (f i)) js, lv') \<and>
      nodes_ok c m lv' \<and> flags_le (TreeHeight c) lv1 lv' \<and> (\<forall>i \<in> set js. isHashUpdated (lv' ! level ! off i))"
    by (rule Cons.IH) (use Cons.prems n(2) in auto)
  then obtain lv' where IH: "update_children upd js (cnt + n_count node) (hs @ [n_hash node]) lv1 =
      Some (cnt + n_count node + sum_list (map (\<lambda>i. fst (f i)) js), (hs @ [n_hash node]) @ map (\<lambda>i. snd (f i)) js, lv')"
      "nodes_ok c m lv'" "flags_le (TreeHeight c) lv1 lv'" "\<forall>i \<in> set js. isHashUpdated (lv' ! level ! off i)"
    by blast
  have "isHashUpdated (lv' ! level ! off i)"
    using IH(3) n(5) assms(3) Cons.prems(3) [of i] by (simp add: flags_le_def)
  with IH n(1) f flags_le_trans [OF n(4) IH(3)] show ?case by (auto simp: add.assoc)
qed simp

lemma updateNodes_n_ok:
  assumes "nodes_ok c m lv" "level + n = TreeHeight c - 1" "1 \<le> TreeHeight c" "off < 16 ^ level"
  shows "updates_to c m level off (spec_node c m n off) lv (updateNodes_n (Suc n) level off lv)"
  using assms(1,2,4)
proof (induction n arbitrary: level off lv)
  case 0
  then have l: "level = TreeHeight c - 1" "level < TreeHeight c" using assms(3) by auto
  then have "isHashUpdated (lv ! level ! off)"
      "(n_count (lv ! level ! off), n_hash (lv ! level ! off)) = spec_node c m 0 off"
    using 0 by (auto simp: nodes_ok_def)
  moreover have "get_node lv level off = Some (lv ! level ! off)"
    using 0 l by (intro get_node_ok) (auto simp: nodes_ok_def)
  ultimately show ?case using 0 by (simp add: updates_to_def)
next
  case (Suc n)
  have l: "level < TreeHeight c" "TreeHeight c - 1 - level = Suc n" "Suc level < TreeHeight c"
    using Suc.prems by auto
  have sh: "shape_lv (TreeHeight c) lv" using Suc.prems(1) by (simp add: nodes_ok_def)
  note g = get_node_ok [OF sh l(1) Suc.prems(3)]
  show ?case
  proof (cases "isHashUpdated (lv ! level ! off)")
    case True
    then have "(n_count (lv ! level ! off), n_hash (lv ! level ! off)) = spec_node c m (Suc n) off"
      using Suc.prems l by (auto simp: nodes_ok_def)
    then show ?thesis using True g Suc.prems(1) by (simp add: updates_to_def)
  next
    case False
    let ?f = "\<lambda>i. spec_node c m n (off * 16 + i)"
    have "\<exists>lv1. update_children (\<lambda>i. updateNodes_n (Suc n) (Suc level) (off * 16 + i)) [0..<16] 0 [] lv =
        Some (0 + sum_list (map (\<lambda>i. fst (?f i)) [0..<16]), [] @ map (\<lambda>i. snd (?f i)) [0..<16], lv1) \<and>
        nodes_ok c m lv1 \<and> flags_le (TreeHeight c) lv lv1 \<and>
        (\<forall>i \<in> set [0..<16]. isHashUpdated (lv1 ! Suc level ! (off * 16 + i)))"
      by (rule update_children_ok [OF Suc.IH Suc.prems(1)]) (use Suc.prems in auto)
    then obtain lv1 where u: "update_children (\<lambda>i. updateNodes_n (Suc n) (Suc level) (off * 16 + i)) [0..<16] 0 [] lv =
        Some (fst (spec_node c m (Suc n) off), map (\<lambda>i. snd (?f i)) [0..<16], lv1)" and ok: "nodes_ok c m lv1"
      and fl: "flags_le (TreeHeight c) lv lv1" "\<forall>i < 16. isHashUpdated (lv1 ! Suc level ! (off * 16 + i))"
      by (auto simp: Let_def comp_def simp del: upt_rec_numeral updateNodes_n.simps)
    have s: "spec_node c m (Suc n) off = (fst (spec_node c m (Suc n) off), mix_hashs (fst (spec_node c m (Suc n) off))
        (map (\<lambda>i. snd (?f i)) [0..<16]))"
      by (simp add: Let_def comp_def del: upt_rec_numeral)
    let ?node = "\<lparr>n_count = fst (spec_node c m (Suc n) off), n_hash = snd (spec_node c m (Suc n) off),
        isHashUpdated = True\<rparr>"
    let ?lv = "lv1[level := (lv1 ! level)[off := ?node]]"
    have sh1: "shape_lv (TreeHeight c) lv1" using ok by (simp add: nodes_ok_def)
    note put = put_node_ok [OF sh1 l(1) Suc.prems(3), where n = ?node]
    have "updateNodes_n (Suc (Suc n)) level off lv = Some (?node, ?lv)"
      using False g u put(1) by (subst updateNodes_n.simps(2)) (simp add: Let_def s [THEN arg_cong [of _ _ snd]] del: updateNodes_n.simps spec_node.simps upt_rec_numeral)
    moreover have "nodes_ok c m ?lv"
      unfolding nodes_ok_def
    proof (intro conjI allI impI)
      fix l' o' :: nat assume lo: "l' < TreeHeight c" "o' < 16 ^ l'"
      show "isHashUpdated (?lv ! Suc l' ! (o' * 16 + i))"
        if "isHashUpdated (?lv ! l' ! o') \<and> Suc l' < TreeHeight c" "i < 16" for i
        using that ok lo fl(2) put(3) [OF lo] put(3) [of "Suc l'" "o' * 16 + i"]
        by (auto simp: nodes_ok_def split: if_splits)
      show "(n_count (?lv ! l' ! o'), n_hash (?lv ! l' ! o')) = spec_node c m (TreeHeight c - 1 - l') o'"
        if "isHashUpdated (?lv ! l' ! o')"
        using that ok lo l unfolding put(3) [OF lo] nodes_ok_def
        by (cases "l' = level \<and> o' = off") (simp_all del: spec_node.simps)
      show "isHashUpdated (?lv ! l' ! o')" if "l' = TreeHeight c - 1"
        using that ok lo unfolding put(3) [OF lo] nodes_ok_def by simp
    qed (rule put(2))
    moreover have "flags_le (TreeHeight c) lv ?lv" using fl(1) unfolding flags_le_def by (simp add: put(3) del: spec_node.simps)
    moreover have "?lv ! level ! off = ?node" using put(3) [OF l(1) Suc.prems(3)] by simp
    ultimately show ?thesis by (simp add: updates_to_def del: spec_node.simps updateNodes_n.simps)
  qed
qed

lemma updateNodes_rep:
  assumes "conf_ok c" "tree_rep c t m" "level \<le> TreeHeight c - 1" "off < 16 ^ level"
  shows "\<exists>node lv. updateNodes t level off = Some (node, t\<lparr>levels := lv\<rparr>) \<and>
    tree_rep c (t\<lparr>levels := lv\<rparr>) m \<and> isHashUpdated (lv ! level ! off) \<and>
    (n_count node, n_hash node) = spec_node c m (TreeHeight c - 1 - level) off"
proof -
  note rep = tree_repD [OF assms(2)] and h = conf_ok_levels(2) [OF assms(1)]
  have len: "length (levels t) - level = Suc (TreeHeight c - 1 - level)"
    using rep(2) h assms(3) by (simp add: shape_lv_def)
  obtain node lv where u: "updateNodes_n (Suc (TreeHeight c - 1 - level)) level off (levels t) = Some (node, lv)"
      "nodes_ok c m lv" "(n_count node, n_hash node) = spec_node c m (TreeHeight c - 1 - level) off"
      "isHashUpdated (lv ! level ! off)"
    using updateNodes_n_ok [OF rep(3) le_add_diff_inverse [OF assms(3)] h assms(4)]
    unfolding updates_to_def by blast
  then show ?thesis
    using assms(2) unfolding updateNodes_def len by (auto simp: tree_rep_def simp del: updateNodes_n.simps)
qed

section \<open>Listing\<close>

lemma node_khash_OR:
  assumes "conf_ok c"
  shows "get_le (trunc_key c k) OR node_khash c (take (TreeDepth c + (TreeHeight c - 1)) (ParsePathUint64 k)) = k"
proof (rule bit_word_eqI)
  fix j assume "j < LENGTH(64)"
  then have j: "j < 64" by simp
  let ?n = "TreeDepth c + (TreeHeight c - 1)" and ?lk = "TreeKeyHashLen c"
  note len = conf_ok_len [OF assms] and lv = conf_ok_levels [OF assms]
  have m: "TreeKeyHashMask c = mask (8 * ?lk)" using assms by (simp add: conf_ok_def)
  have g: "(get_le (trunc_key c k) :: u64) = take_bit (8 * ?lk) k"
    using len by (simp add: trunc_key_put_le get_put_le_take)
  have n: "bit (node_khash c (take ?n (ParsePathUint64 k))) j \<longleftrightarrow> 8 * ?lk \<le> j \<and> bit k j"
  proof -
    have "bit (node_khash c (take ?n (ParsePathUint64 k))) j \<longleftrightarrow>
        32 \<le> j \<and> bit (getNodeKhash (take ?n (ParsePathUint64 k))) (j - 32) \<and> \<not> j < 8 * ?lk"
      using j by (auto simp: node_khash_def m bit_simps dest: bit_imp_le_length)
    also have "\<dots> \<longleftrightarrow> 8 * ?lk \<le> j \<and> bit k j"
      using j lv len by (subst getNodeKhash_bits) auto
    finally show ?thesis .
  qed
  have "bit (take_bit (8 * ?lk) k) j \<longleftrightarrow> j < 8 * ?lk \<and> bit k j" by (simp add: bit_take_bit_iff)
  with n show "bit (get_le (trunc_key c k) OR node_khash c (take ?n (ParsePathUint64 k))) j = bit k j"
    unfolding g bit_or_iff by (metis linorder_not_less)
qed

definition path_ok :: "HStoreConfig \<Rightarrow> int \<Rightarrow> NodeInfo \<Rightarrow> bool" where
  "path_ok c b ni \<longleftrightarrow> length (ni_path ni) = TreeDepth c + ni_level ni \<and> (\<forall>p \<in> set (ni_path ni). p < 16) \<and>
     int (path_offset (take (TreeDepth c) (ni_path ni))) = b \<and>
     path_offset (drop (TreeDepth c) (ni_path ni)) = ni_offset ni"

lemma path_ok_leaf:
  assumes "conf_ok c" "path_ok c b ni" "ni_level ni = TreeHeight c - 1" "in_bucket c b k"
    "leaf_off c k = ni_offset ni"
  shows "ni_path ni = take (TreeDepth c + (TreeHeight c - 1)) (ParsePathUint64 k)"
proof (rule path_offset_inj)
  let ?d = "TreeDepth c" and ?n = "TreeHeight c - 1"
  note lv = conf_ok_levels [OF assms(1)]
  show "length (ni_path ni) = length (take (?d + ?n) (ParsePathUint64 k))"
    using assms(2,3) lv by (simp add: path_ok_def)
  have "path_offset (ni_path ni) = path_offset (take ?d (ni_path ni)) * 16 ^ ?n + ni_offset ni"
    using path_offset_append [of "take ?d (ni_path ni)" "drop ?d (ni_path ni)"] assms(2,3)
    by (simp add: path_ok_def)
  moreover have "path_offset (take ?d (ni_path ni)) = path_offset (take ?d (ParsePathUint64 k))"
    using assms(2,4) by (simp add: path_ok_def in_bucket_def bucket_of_path_offset)
  moreover have "path_offset (take (?d + ?n) (ParsePathUint64 k)) =
      path_offset (take ?d (ParsePathUint64 k)) * 16 ^ ?n + leaf_off c k"
    using lv by (subst path_split) (simp add: leaf_off_def min_def)
  ultimately show "path_offset (ni_path ni) = path_offset (take (?d + ?n) (ParsePathUint64 k))"
    using assms(5) by (simp only:)
qed (use assms(2) in \<open>auto simp: path_ok_def dest: in_set_takeD\<close>)

text \<open>The calls made by \<open>Iter\<close> on one leaf are exactly the key hashes of that leaf with their items.\<close>

lemma leaf_Iter_rep:
  assumes "conf_ok c" "leafs_ok c b m ls" "path_ok c b ni" "ni_level ni = TreeHeight c - 1"
    "ni_offset ni < 16 ^ (TreeHeight c - 1)"
  defines "calls \<equiv> leaf_Iter c (ni_path ni) (ls ! ni_offset ni)"
  shows "set calls = {(k, it). m k = Some it \<and> leaf_off c k = ni_offset ni}" "distinct (map fst calls)"
proof -
  let ?leaf = "ls ! ni_offset ni"
  have wf: "leaf_wf c ?leaf" and
    at: "\<And>k. in_bucket c b k \<Longrightarrow> leaf_off c k = ni_offset ni \<Longrightarrow> leaf_map c ?leaf (trunc_key c k) = m k" and
    dm: "\<And>kb. kb \<in> dom (leaf_map c ?leaf) \<Longrightarrow> \<exists>k. in_bucket c b k \<and> leaf_off c k = ni_offset ni \<and> kb = trunc_key c k"
    using assms(2,5) by (auto simp: leafs_ok_def)
  obtain es where es: "entries_ok c es" "?leaf = enc_leaf es" "leaf_entries c ?leaf = es"
    by (rule leaf_wfE [OF wf])
  have d: "distinct (map fst es)" using es(1) by (simp add: entries_ok_def)
  have lm: "leaf_map c ?leaf = map_of es" by (simp add: es(1,2))
  define key where "key kb = (get_le kb :: u64) OR node_khash c (ni_path ni)" for kb
  have calls: "calls = map (\<lambda>(kb, it). (key kb, it)) es"
    unfolding calls_def using leaf_Iter_entries [OF assms(1) wf, of "ni_path ni"] by (simp only: es(3) key_def)
  have key: "key (trunc_key c k) = k" if "in_bucket c b k" "leaf_off c k = ni_offset ni" for k
    using node_khash_OR [OF assms(1), of k] path_ok_leaf [OF assms(1,3,4) that] by (simp add: key_def)
  have ent: "\<exists>k. in_bucket c b k \<and> leaf_off c k = ni_offset ni \<and> kb = trunc_key c k \<and> m k = Some it"
    if "(kb, it) \<in> set es" for kb it
  proof -
    have mo: "map_of es kb = Some it" using that d by (rule map_of_is_SomeI [rotated])
    then obtain k where "in_bucket c b k" "leaf_off c k = ni_offset ni" "kb = trunc_key c k"
      using dm [of kb] lm by auto
    then show ?thesis using at [of k] mo lm by auto
  qed
  show "set calls = {(k, it). m k = Some it \<and> leaf_off c k = ni_offset ni}"
  proof (intro set_eqI iffI; clarify)
    fix k it assume "(k, it) \<in> set calls"
    then show "m k = Some it \<and> leaf_off c k = ni_offset ni"
      using ent key by (force simp: calls)
  next
    fix k it assume k: "m k = Some it" "leaf_off c k = ni_offset ni"
    then have ib: "in_bucket c b k" using assms(2) by (auto simp: leafs_ok_def)
    have "(trunc_key c k, it) \<in> set es" using at [OF ib k(2)] k(1) lm by (auto intro: map_of_SomeD)
    then show "(k, it) \<in> set calls" using key [OF ib k(2)] by (force simp: calls)
  qed
  have "inj_on key (fst ` set es)"
    by (rule inj_on_inverseI [where g = "trunc_key c"]) (use ent key in force)
  then show "distinct (map fst calls)"
    using d by (simp add: calls comp_def case_prod_beta distinct_map inj_on_def)
qed

lemma foldl_collect:
  assumes "\<And>i its. i \<in> set is \<Longrightarrow> step i its = Some (its @ g i)"
  shows "foldl (\<lambda>acc i. do { its \<leftarrow> acc; step i its }) (Some items) is = Some (items @ concat (map g is))"
  using assms by (induction "is" arbitrary: items) auto

lemma path_ok_child:
  assumes "path_ok c b ni" "i < 16"
  shows "path_ok c b \<lparr>ni_level = Suc (ni_level ni), ni_offset = ni_offset ni * 16 + i,
    ni_path = (take (TreeDepth c + Suc (ni_level ni))
      (ni_path ni @ replicate (TreeDepth c + Suc (ni_level ni)) 0))[TreeDepth c + ni_level ni := i]\<rparr>"
proof -
  have len: "length (ni_path ni) = TreeDepth c + ni_level ni" using assms(1) by (simp add: path_ok_def)
  then have "(take (TreeDepth c + Suc (ni_level ni))
      (ni_path ni @ replicate (TreeDepth c + Suc (ni_level ni)) 0))[TreeDepth c + ni_level ni := i]
      = ni_path ni @ [i]"
    by (simp add: list_update_append)
  then show ?thesis using assms len by (auto simp: path_ok_def)
qed

text \<open>Items below a node, \<open>n\<close> levels above the leaves: each exactly once.\<close>

lemma collectItems_n_rep:
  assumes "conf_ok c" "tree_rep c t m" "path_ok c (t_bucketID t) ni" "ni_level ni + n = TreeHeight c - 1"
    "ni_offset ni < 16 ^ ni_level ni"
  shows "\<exists>its. (\<forall>items. collectItems_n c t fkh fmask n ni items = Some (items @ its)) \<and>
    set its = {it\<lparr>it_Keyhash := k\<rparr> |k it. m k = Some it \<and> leaf_off c k div 16 ^ n = ni_offset ni \<and> fmask AND k = fkh} \<and>
    distinct (map it_Keyhash its)"
  using assms(3-)
proof (induction n arbitrary: ni)
  case 0
  note rep = tree_repD [OF assms(2)]
  have o: "ni_offset ni < 16 ^ (TreeHeight c - 1)" "ni_level ni = TreeHeight c - 1" using 0 by auto
  let ?calls = "leaf_Iter c (ni_path ni) (leafs t ! ni_offset ni)"
  note it = leaf_Iter_rep [OF assms(1) rep(4) 0(1) o(2,1)]
  let ?its = "map (\<lambda>(h, m). m\<lparr>it_Keyhash := h\<rparr>) (filter (\<lambda>(h, m). fmask AND h = fkh) ?calls)"
  have "\<forall>items. collectItems_n c t fkh fmask 0 ni items = Some (items @ ?its)"
    using o rep(5) by simp
  moreover have "set ?its = {it\<lparr>it_Keyhash := k\<rparr> |k it. m k = Some it \<and> leaf_off c k div 16 ^ 0 = ni_offset ni \<and> fmask AND k = fkh}"
    using it(1) by auto
  moreover have "map it_Keyhash ?its = map fst (filter (\<lambda>(h, m). fmask AND h = fkh) ?calls)"
    by auto
  then have "distinct (map it_Keyhash ?its)" using it(2) distinct_map_filter by metis
  ultimately show ?case by blast
next
  case (Suc n)
  let ?ch = "\<lambda>i. \<lparr>ni_level = Suc (ni_level ni), ni_offset = ni_offset ni * 16 + i,
    ni_path = (take (TreeDepth c + Suc (ni_level ni))
      (ni_path ni @ replicate (TreeDepth c + Suc (ni_level ni)) 0))[TreeDepth c + ni_level ni := i]\<rparr>"
  note rep = tree_repD [OF assms(2)]
  have "\<forall>i \<in> {0..<16}. \<exists>its. (\<forall>items. collectItems_n c t fkh fmask n (?ch i) items = Some (items @ its)) \<and>
    set its = {it\<lparr>it_Keyhash := k\<rparr> |k it. m k = Some it \<and> leaf_off c k div 16 ^ n = ni_offset (?ch i) \<and> fmask AND k = fkh} \<and>
    distinct (map it_Keyhash its)"
    by (intro ballI Suc.IH path_ok_child [OF Suc.prems(1)]) (use Suc.prems in auto)
  then obtain g where g: "\<And>i items. i < 16 \<Longrightarrow> collectItems_n c t fkh fmask n (?ch i) items = Some (items @ g i)"
    "\<And>i. i < 16 \<Longrightarrow> set (g i) = {it\<lparr>it_Keyhash := k\<rparr> |k it. m k = Some it \<and>
       leaf_off c k div 16 ^ n = ni_offset ni * 16 + i \<and> fmask AND k = fkh}"
    "\<And>i. i < 16 \<Longrightarrow> distinct (map it_Keyhash (g i))"
    by (subst (asm) bchoice_iff) (auto simp: Ball_def)
  have nd: "get_node (levels t) (Suc (ni_level ni)) (ni_offset ni * 16 + i) \<noteq> None" if "i < 16" for i
    using get_node_ok [OF rep(2), of "Suc (ni_level ni)" "ni_offset ni * 16 + i"] that Suc.prems by simp
  have pl: "\<not> TreeDepth c + Suc (ni_level ni) > 8" using Suc.prems(2) conf_ok_levels [OF assms(1)] by simp
  let ?its = "concat (map g [0..<16])"
  have "collectItems_n c t fkh fmask (Suc n) ni items = Some (items @ ?its)" for items
    unfolding collectItems_n.simps Let_def rep(1) if_not_P [OF pl]
    by (rule foldl_collect) (use g(1) nd in force)
  moreover have "set ?its = {it\<lparr>it_Keyhash := k\<rparr> |k it. m k = Some it \<and> leaf_off c k div 16 ^ Suc n = ni_offset ni \<and> fmask AND k = fkh}"
  proof -
    have "x div 16 = ni_offset ni \<longleftrightarrow> (\<exists>i<16. x = ni_offset ni * 16 + i)" for x
      by (metis div_mult_mod_eq div_mult_self3 div_less add.right_neutral mod_less_divisor
          zero_less_numeral zero_neq_numeral)
    then have dv: "leaf_off c k div 16 ^ Suc n = ni_offset ni \<longleftrightarrow>
        (\<exists>i<16. leaf_off c k div 16 ^ n = ni_offset ni * 16 + i)" for k
      by (simp add: power_Suc2 div_mult2_eq del: power_Suc)
    have "set ?its = (\<Union>i \<in> {0..<16}. {it\<lparr>it_Keyhash := k\<rparr> |k it. m k = Some it \<and>
       leaf_off c k div 16 ^ n = ni_offset ni * 16 + i \<and> fmask AND k = fkh})"
      using g(2) by (simp del: upt_rec_numeral)
    also have "\<dots> = {it\<lparr>it_Keyhash := k\<rparr> |k it. m k = Some it \<and>
       (\<exists>i<16. leaf_off c k div 16 ^ n = ni_offset ni * 16 + i) \<and> fmask AND k = fkh}"
      unfolding atLeast0LessThan by blast
    finally show ?thesis unfolding dv .
  qed
  moreover have "distinct (map it_Keyhash ?its)"
  proof -
    have kg: "leaf_off c (it_Keyhash x) div 16 ^ n = ni_offset ni * 16 + i" if "i < 16" "x \<in> set (g i)" for i x
      using that(2) unfolding g(2) [OF that(1)] by clarsimp
    have "it_Keyhash ` set (g i) \<inter> it_Keyhash ` set (g j) = {}" if "i < 16" "j < 16" "i \<noteq> j" for i j
    proof (rule ccontr)
      assume "\<not> ?thesis"
      then obtain x y where "x \<in> set (g i)" "y \<in> set (g j)" "it_Keyhash x = it_Keyhash y" by blast
      with kg [OF that(1)] kg [OF that(2)] have "ni_offset ni * 16 + i = ni_offset ni * 16 + j" by metis
      with that(3) show False by simp
    qed
    then have "distinct (concat (map (\<lambda>i. map it_Keyhash (g i)) is))" if "distinct is" "set is \<subseteq> {0..<16}" for "is"
      using that
    proof (induction "is")
      case (Cons i js)
      then have "it_Keyhash ` set (g i) \<inter> (\<Union>j\<in>set js. it_Keyhash ` set (g j)) = {}" by fastforce
      then show ?case using Cons g(3) [of i] by auto
    qed simp
    from this [of "[0..<16]"] show ?thesis by (simp add: map_concat comp_def del: upt_rec_numeral)
  qed
  ultimately show ?case by blast
qed

lemma filter_mask_prefix:
  assumes "\<forall>p \<in> set path. p < 16" "length path \<le> 16"
  shows "filter_mask (length path) AND k = khash_of_path 60 path 0 \<longleftrightarrow>
    take (length path) (ParsePathUint64 k) = path"
proof -
  let ?s = "64 - 4 * length path" and ?w = "of_nat (path_offset path) :: u64"
  have "push_bit ?s (drop_bit ?s (- 1)) AND k = push_bit ?s (drop_bit ?s k)"
    by (rule bit_word_eqI) (auto simp: bit_simps dest: bit_imp_le_length)
  then have l: "filter_mask (length path) AND k = push_bit ?s (drop_bit ?s k)"
    using assms(2) by (simp add: filter_mask_def)
  have r: "khash_of_path 60 path 0 = push_bit ?s ?w"
    using khash_of_path_offset [OF assms(1), of 60] assms(2) by simp
  have po: "path_offset (take (length path) (ParsePathUint64 k)) = unat (drop_bit ?s k)"
    using assms(2) by (rule path_offset_ParsePathUint64)
  have pw: "(2 :: nat) ^ (4 * length path) = 16 ^ length path" by (simp add: power_mult)
  show ?thesis unfolding l r
  proof
    assume eq: "push_bit ?s (drop_bit ?s k) = push_bit ?s ?w"
    have dp: "drop_bit ?s (push_bit ?s x) = take_bit (4 * length path) x" for x :: u64
      using assms(2) by (intro bit_word_eqI) (auto simp: bit_simps)
    have small: "unat (take_bit (4 * length path) x) = unat x" if "unat x < 16 ^ length path" for x :: u64
      using that pw by (simp add: unsigned_take_bit_eq take_bit_nat_eq_self)
    have b1: "path_offset path < 16 ^ length path" using assms(1) by (rule path_offset_bound)
    moreover have "(16 :: nat) ^ length path \<le> 16 ^ 16" using assms(2) by (intro power_increasing) auto
    ultimately have u: "unat ?w = path_offset path"
      by (simp add: unsigned_of_nat take_bit_nat_eq_self)
    have b2: "unat (drop_bit ?s k) < 16 ^ length path"
      using po path_offset_take_bound [of "ParsePathUint64 k" "length path"] assms(2) by simp
    have "unat (drop_bit ?s k) = path_offset path"
      using arg_cong [OF eq, of "drop_bit ?s"] small [OF b2] small [of ?w] b1 u by (metis dp)
    then show "take (length path) (ParsePathUint64 k) = path"
      using assms po by (intro path_offset_inj) (auto dest: in_set_takeD)
  next
    assume "take (length path) (ParsePathUint64 k) = path"
    then have "?w = drop_bit ?s k" using po by simp
    then show "push_bit ?s (drop_bit ?s k) = push_bit ?s ?w" by simp
  qed
qed

text \<open>A key given as a path of hexadecimal digits that starts with the digits of the tree's bucket.\<close>

definition path_ki :: "HStoreConfig \<Rightarrow> HTree \<Rightarrow> KeyInfo \<Rightarrow> bool" where
  "path_ki c t ki \<longleftrightarrow> (\<forall>p \<in> set (KeyPath ki). p < 16) \<and> TreeDepth c \<le> length (KeyPath ki) \<and>
     length (KeyPath ki) \<le> 16 \<and> length (StringKey ki) = length (KeyPath ki) \<and>
     KeyHash ki = khash_of_path 60 (KeyPath ki) 0 \<and>
     bucket_of_path (TreeDepth c) (KeyPath ki) = t_bucketID t"

definition path_level :: "HStoreConfig \<Rightarrow> nat list \<Rightarrow> nat" where
  "path_level c path = min (TreeHeight c - 1) (length path - TreeDepth c)"

definition path_off :: "HStoreConfig \<Rightarrow> nat list \<Rightarrow> nat" where
  "path_off c path = path_offset (take (path_level c path) (drop (TreeDepth c) path))"

text \<open>What a listing has to show of the map \<open>m\<close> under a path: the items whose key hash starts with the
  path, each once, or the summaries of the sixteen nodes below.\<close>

definition listing_ok ::
    "HStoreConfig \<Rightarrow> (u64 \<rightharpoonup> HTreeItem) \<Rightarrow> nat list \<Rightarrow> HTreeItem list + Node list \<Rightarrow> bool" where
  "listing_ok c m path r \<longleftrightarrow> (case r of
     Inl items \<Rightarrow> distinct (map it_Keyhash items) \<and>
       set items = {it\<lparr>it_Keyhash := k\<rparr> |k it. m k = Some it \<and> take (length path) (ParsePathUint64 k) = path}
   | Inr nodes \<Rightarrow> length path < TreeDepth c + (TreeHeight c - 1) \<and> length nodes = 16 \<and>
       (\<forall>i < 16. (n_count (nodes ! i), n_hash (nodes ! i)) =
          spec_node c m (TreeHeight c - 2 - path_level c path) (path_off c path * 16 + i)))"

lemma path_off_less:
  assumes "\<forall>p \<in> set path. p < 16" "TreeDepth c \<le> length path"
  shows "path_off c path < 16 ^ path_level c path"
  unfolding path_off_def
  by (rule path_offset_take_bound) (use assms in \<open>auto simp: path_level_def dest: in_set_dropD\<close>)

lemma listDir_node:
  assumes "conf_ok c" "tree_rep c t m" "path_ki c t ki"
  obtains ni where "(if length (KeyPath ki) = t_depth t
      then do { _ \<leftarrow> get_node (levels t) 0 0; Some \<lparr>ni_level = 0, ni_offset = 0, ni_path = KeyPath ki\<rparr> }
      else getNode t ki) = Some ni"
    and "ni_level ni = path_level c (KeyPath ki)" "ni_offset ni = path_off c (KeyPath ki)"
    and "path_ok c (t_bucketID t) ni"
proof -
  let ?p = "KeyPath ki" and ?d = "TreeDepth c" and ?l = "path_level c (KeyPath ki)"
  note rep = tree_repD [OF assms(2)] and h = conf_ok_levels [OF assms(1)]
  have p: "\<forall>x \<in> set ?p. x < 16" "?d \<le> length ?p" "bucket_of_path ?d ?p = t_bucketID t"
    using assms(3) by (auto simp: path_ki_def)
  have len: "length (levels t) = TreeHeight c" using rep(2) by (simp add: shape_lv_def)
  let ?ni = "\<lparr>ni_level = ?l, ni_offset = path_off c ?p, ni_path = take (?d + ?l) ?p\<rparr>"
  have g: "get_node (levels t) ?l (path_off c ?p) = Some (levels t ! ?l ! path_off c ?p)"
    using h path_off_less [OF p(1,2)] by (intro get_node_ok [OF rep(2)]) (auto simp: path_level_def)
  have "path_ok c (t_bucketID t) ?ni"
    using p by (auto simp: path_ok_def path_off_def path_level_def bucket_of_path_offset drop_take min_def
        dest: in_set_takeD)
  moreover have "(if length ?p = t_depth t
      then do { _ \<leftarrow> get_node (levels t) 0 0; Some \<lparr>ni_level = 0, ni_offset = 0, ni_path = ?p\<rparr> }
      else getNode t ki) = Some ?ni"
  proof (cases "length ?p = ?d")
    case True
    then have "?l = 0" "path_off c ?p = 0" by (simp_all add: path_level_def path_off_def)
    then show ?thesis using g True rep(1) by simp
  next
    case False
    have l: "min (?d + TreeHeight c - 1) (length ?p) = ?d + ?l" using p(2) h(2) by (auto simp: path_level_def min_def)
    have "slice ?d (?d + ?l) ?p = take ?l (drop ?d ?p)" by (simp add: slice_def)
    then show ?thesis using False g rep(1) len l by (simp add: getNode_def Let_def path_off_def)
  qed
  ultimately show ?thesis using that [of ?ni] by simp
qed

lemma prefix_imp_leaf:
  assumes "conf_ok c" "TreeDepth c \<le> length path" "take (length path) (ParsePathUint64 k) = path"
  shows "leaf_off c k div 16 ^ (TreeHeight c - 1 - path_level c path) = path_off c path"
proof -
  let ?l = "path_level c path"
  have l: "?l \<le> TreeHeight c - 1" "?l \<le> length path - TreeDepth c" by (auto simp: path_level_def)
  have "path_off c path = path_offset (take ?l (drop (TreeDepth c) (take (length path) (ParsePathUint64 k))))"
    using assms(3) by (simp add: path_off_def)
  also have "take ?l (drop (TreeDepth c) (take (length path) (ParsePathUint64 k))) =
      take ?l (drop (TreeDepth c) (ParsePathUint64 k))"
    using l(2) assms(2) by (simp add: drop_take min_def)
  finally show ?thesis using leaf_off_prefix [OF assms(1) l(1)] by simp
qed

lemma listDir_rep:
  assumes "conf_ok c" "tree_rep c t m" "path_ki c t ki"
  shows "\<exists>r lv. listDir c t ki = Some (r, t\<lparr>levels := lv\<rparr>) \<and> tree_rep c (t\<lparr>levels := lv\<rparr>) m \<and>
    listing_ok c m (KeyPath ki) r"
proof -
  let ?p = "KeyPath ki" and ?h = "TreeHeight c"
  have p: "\<forall>x \<in> set ?p. x < 16" "TreeDepth c \<le> length ?p" "length ?p \<le> 16" "length (StringKey ki) = length ?p"
      "KeyHash ki = khash_of_path 60 ?p 0"
    using assms(3) by (auto simp: path_ki_def)
  obtain ni where ni: "(if length ?p = t_depth t
      then do { _ \<leftarrow> get_node (levels t) 0 0; Some \<lparr>ni_level = 0, ni_offset = 0, ni_path = ?p\<rparr> }
      else getNode t ki) = Some ni" and lv: "ni_level ni = path_level c ?p" "ni_offset ni = path_off c ?p"
    and pok: "path_ok c (t_bucketID t) ni"
    by (rule listDir_node [OF assms])
  have le: "ni_level ni \<le> ?h - 1" "ni_offset ni < 16 ^ ni_level ni"
    using lv path_off_less [OF p(1,2)] by (auto simp: path_level_def)
  obtain node lv' where u: "updateNodes t (ni_level ni) (ni_offset ni) = Some (node, t\<lparr>levels := lv'\<rparr>)"
      "tree_rep c (t\<lparr>levels := lv'\<rparr>) m" "isHashUpdated (lv' ! ni_level ni ! ni_offset ni)"
    using updateNodes_rep [OF assms(1,2) le] by blast
  note rep = tree_repD [OF u(2)]
  have len: "length lv' = ?h" using rep(2) by (simp add: shape_lv_def)
  show ?thesis
  proof (cases "ni_level ni \<ge> ?h - 1 \<or> n_count node < thresholdListKey")
    case True
    obtain its where its: "collectItems_n c (t\<lparr>levels := lv'\<rparr>) (KeyHash ki) (filter_mask (length ?p))
        (?h - 1 - ni_level ni) ni [] = Some its"
      "set its = {it\<lparr>it_Keyhash := k\<rparr> |k it. m k = Some it \<and>
         leaf_off c k div 16 ^ (?h - 1 - ni_level ni) = ni_offset ni \<and> filter_mask (length ?p) AND k = KeyHash ki}"
      "distinct (map it_Keyhash its)"
      using collectItems_n_rep [OF assms(1) u(2) _ le_add_diff_inverse [OF le(1)] le(2)] pok by fastforce
    have "set its = {it\<lparr>it_Keyhash := k\<rparr> |k it. m k = Some it \<and> take (length ?p) (ParsePathUint64 k) = ?p}"
      unfolding its(2) p(5) filter_mask_prefix [OF p(1,3)] lv
      by (intro Collect_cong ex_cong1 conj_cong refl) (use prefix_imp_leaf [OF assms(1) p(2)] in blast)
    moreover have "listDir c t ki = Some (Inl its, t\<lparr>levels := lv'\<rparr>)"
      unfolding listDir_def ni using u(1) True its(1) len p(4) by (simp add: collectItems_def)
    ultimately show ?thesis using u(2) its(3) by (auto simp: listing_ok_def)
  next
    case False
    let ?ns = "map (\<lambda>i. lv' ! Suc (ni_level ni) ! (ni_offset ni * 16 + i)) [0..<16]"
    have l: "Suc (ni_level ni) < ?h" using False by auto
    have o: "ni_offset ni * 16 + i < 16 ^ Suc (ni_level ni)" if "i < 16" for i using le(2) that by simp
    have "those (map (\<lambda>i. get_node lv' (Suc (ni_level ni)) (ni_offset ni * 16 + i)) xs) =
        Some (map (\<lambda>i. lv' ! Suc (ni_level ni) ! (ni_offset ni * 16 + i)) xs)" if "set xs \<subseteq> {0..<16}" for xs
      using that rep(2) l o by (induction xs) (auto simp: get_node_ok)
    then have "listDir c t ki = Some (Inr ?ns, t\<lparr>levels := lv'\<rparr>)"
      unfolding listDir_def ni using u(1) False len by (simp del: upt_rec_numeral)
    moreover have "listing_ok c m ?p (Inr ?ns)"
    proof -
      have "(n_count (lv' ! Suc (ni_level ni) ! (ni_offset ni * 16 + i)),
          n_hash (lv' ! Suc (ni_level ni) ! (ni_offset ni * 16 + i))) =
          spec_node c m (?h - 1 - Suc (ni_level ni)) (ni_offset ni * 16 + i)" if "i < 16" for i
      proof -
        have "isHashUpdated (lv' ! Suc (ni_level ni) ! (ni_offset ni * 16 + i))"
          using rep(3) u(3) l le that by (auto simp: nodes_ok_def)
        then show ?thesis using rep(3) l o [OF that] by (auto simp: nodes_ok_def simp del: spec_node.simps)
      qed
      moreover have "?h - 1 - Suc (ni_level ni) = ?h - 2 - path_level c ?p" using lv by simp
      moreover have "length ?p < TreeDepth c + (?h - 1)"
        using False lv p(2) by (auto simp: path_level_def min_def split: if_splits)
      ultimately show ?thesis using lv by (simp add: listing_ok_def del: spec_node.simps upt_rec_numeral)
    qed
    ultimately show ?thesis using u(2) by blast
  qed
qed

section \<open>A new tree, and the tree as a key-value structure\<close>

lemma newHTree_rep:
  assumes "conf_ok c"
  shows "\<exists>t. newHTree (TreeDepth c) b (TreeHeight c) = Some t \<and> t_bucketID t = b \<and> tree_rep c t Map.empty"
proof -
  let ?h = "TreeHeight c"
  have h: "1 \<le> ?h" "TreeDepth c + ?h \<le> MAX_DEPTH" using assms by (auto simp: conf_ok_def)
  let ?lv = "map (\<lambda>i. replicate (16 ^ i)
      (if i = ?h - 1 then zero_node\<lparr>isHashUpdated := True\<rparr> else zero_node)) [0..<?h]"
  have "nodes_ok c Map.empty ?lv"
    by (auto simp: nodes_ok_def shape_lv_def zero_node_def item_count_def item_hash_def split: if_splits)
  moreover have "leafs_ok c b Map.empty (replicate (16 ^ (?h - 1)) [])"
    by (auto simp: leafs_ok_def)
  ultimately show ?thesis using h by (simp add: newHTree_def tree_rep_def)
qed

definition htree_rep :: "HStoreConfig \<Rightarrow> int \<Rightarrow> HTree \<Rightarrow> (u64 \<rightharpoonup> HTreeItem) \<Rightarrow> bool" where
  "htree_rep c b t m \<longleftrightarrow> conf_ok c \<and> 2 \<le> TreeHeight c \<and> t_bucketID t = b \<and> tree_rep c t m"

definition htree_key_ok :: "HStoreConfig \<Rightarrow> int \<Rightarrow> KeyInfo \<Rightarrow> bool" where
  "htree_key_ok c b ki \<longleftrightarrow> KeyPath ki = ParsePathUint64 (KeyHash ki) \<and> in_bucket c b (KeyHash ki)"

definition htree_item :: "KeyInfo \<Rightarrow> Meta \<times> Position \<times> bytes \<Rightarrow> HTreeItem" where
  "htree_item ki v = norm_item \<lparr>it_Keyhash = KeyHash ki, it_Pos = fst (snd v), it_Ver = Ver (fst v),
     it_Vhash = ValueHash (fst v)\<rparr>"

definition htree_put :: "HStoreConfig \<Rightarrow> KeyInfo \<Rightarrow> Meta \<times> Position \<times> bytes \<Rightarrow> HTree \<Rightarrow> HTree option" where
  "htree_put c ki v t = htree_set c (snd (snd v)) t ki (fst v) (fst (snd v))"

definition htree_del :: "HStoreConfig \<Rightarrow> KeyInfo \<Rightarrow> HTree \<Rightarrow> HTree option" where
  "htree_del c ki t = htree_remove c t ki \<lparr>ChunkID = - 1, Offset = 0\<rparr>"

definition htree_lookup :: "HStoreConfig \<Rightarrow> KeyInfo \<Rightarrow> HTree \<Rightarrow> HTreeItem option option" where
  "htree_lookup c ki t = do {
     (meta, pos, found) \<leftarrow> htree_get c t ki;
     Some (if found then Some \<lparr>it_Keyhash = 0, it_Pos = pos, it_Ver = Ver meta, it_Vhash = ValueHash meta\<rparr>
           else None)
   }"

lemma tree_rep_items:
  assumes "tree_rep c t m" "m k = Some it"
  shows "it_Keyhash it = 0"
proof -
  note L = tree_repD(4) [OF assms(1)]
  have ib: "in_bucket c (t_bucketID t) k" using L assms(2) by (auto simp: leafs_ok_def)
  note at = leafs_ok_at [OF L ib]
  show ?thesis by (rule leaf_map_items [OF at(1), of "trunc_key c k"]) (simp add: at(2) assms(2))
qed

interpretation htree: kv_store "htree_rep c b" "htree_key_ok c b" KeyHash htree_item
  "htree_put c" "htree_del c" "htree_lookup c" for c b
proof unfold_locales
  fix t m ki v assume r: "htree_rep c b t m" and k: "htree_key_ok c b ki"
  have w: "conf_ok c" "2 \<le> TreeHeight c" "tree_rep c t m" "ki_for c t ki" and b: "t_bucketID t = b"
    using r k by (auto simp: htree_rep_def htree_key_ok_def ki_for_def)
  show "\<exists>t'. htree_put c ki v t = Some t' \<and> htree_rep c b t' (m(KeyHash ki \<mapsto> htree_item ki v))"
    using htree_set_rep [OF w, of "snd (snd v)" "fst v" "fst (snd v)"] w b
    by (auto simp: htree_put_def htree_rep_def htree_item_def simp del: fun_upd_apply)
  have "(if \<exists>old. m (KeyHash ki) = Some old then m(KeyHash ki := None) else m) = m(KeyHash ki := None)"
    by (cases "m (KeyHash ki)") (simp_all add: fun_upd_idem)
  then show "\<exists>t'. htree_del c ki t = Some t' \<and> htree_rep c b t' (m(KeyHash ki := None))"
    using htree_remove_rep [OF w, of "\<lparr>ChunkID = - 1, Offset = 0\<rparr>"] w b
    by (auto simp: htree_del_def htree_rep_def simp del: fun_upd_apply)
  show "htree_lookup c ki t = Some (m (KeyHash ki))"
    using htree_get_rep [OF w(1,3,4)] tree_rep_items [OF w(3)]
    by (auto simp: htree_lookup_def split: option.splits)
qed

text \<open>The run of a new tree through a sequence of operations on keys of its bucket.\<close>

definition htree_run ::
    "HStoreConfig \<Rightarrow> int \<Rightarrow> (KeyInfo, Meta \<times> Position \<times> bytes) kv_op list \<Rightarrow> HTree option" where
  "htree_run c b ops = do {
     t \<leftarrow> newHTree (TreeDepth c) b (TreeHeight c);
     run_ops (htree_put c) (htree_del c) ops t
   }"

lemma htree_run_rep:
  assumes "conf_ok c" "2 \<le> TreeHeight c" "\<forall>op \<in> set ops. htree_key_ok c b (op_key op)"
  shows "\<exists>t. htree_run c b ops = Some t \<and> htree_rep c b t (abs_ops KeyHash htree_item ops Map.empty)"
proof -
  obtain t0 where t0: "newHTree (TreeDepth c) b (TreeHeight c) = Some t0" "htree_rep c b t0 Map.empty"
    using newHTree_rep [OF assms(1)] assms(1,2) by (auto simp: htree_rep_def)
  then show ?thesis using htree.run_rep [OF t0(2) assms(3)] by (simp add: htree_run_def)
qed

text \<open>C9: the htree is a map from full 64-bit key hashes to items.  A new tree of height at least 2, after any
  sequence of \<open>set\<close> and \<open>remove\<close> calls for keys of its bucket, has not panicked, and \<open>get\<close> of a key of
  the bucket returns what the last of the calls for that key hash left: the item set last
  (offset cut to a multiple of 256, chunk to 16 bits), or nothing.  Leaves store only part of a
  key hash; no two key hashes of the bucket are confused.\<close>

theorem htree_last_write:
  assumes "conf_ok c" and "2 \<le> TreeHeight c" and "\<forall>op \<in> set ops. htree_key_ok c b (op_key op)"
    and "htree_key_ok c b ki"
  shows "\<exists>t. htree_run c b ops = Some t \<and>
    htree_lookup c ki t = Some (last_value htree_item (filter (\<lambda>op. KeyHash (op_key op) = KeyHash ki) ops))"
proof -
  obtain t0 where "newHTree (TreeDepth c) b (TreeHeight c) = Some t0" "htree_rep c b t0 Map.empty"
    using newHTree_rep [OF assms(1)] assms(1,2) by (auto simp: htree_rep_def)
  then show ?thesis using htree.run_get [OF _ assms(3,4)] by (simp add: htree_run_def)
qed

definition sample_ki :: "u64 \<Rightarrow> KeyInfo" where
  "sample_ki k = \<lparr>KeyHash = k, KeyIsPath = False, Key = [], StringKey = [], KeyPath = ParsePathUint64 k,
     BucketID = 5\<rparr>"

lemma sample_ki_ok:
  assumes "unat k div 2 ^ 60 = 5"
  shows "htree_key_ok sample_conf 5 (sample_ki k)"
proof -
  have "unat (drop_bit 60 k) = 5" by (subst unat_drop_bit_eq) (simp only: drop_bit_eq_div assms)
  moreover have "path_offset (take 1 (ParsePathUint64 k)) = unat (drop_bit (64 - 4 * 1) k)"
    by (rule path_offset_ParsePathUint64) simp
  moreover have "TreeDepth sample_conf = 1" by (simp add: sample_conf_def)
  ultimately have "bucket_of_path (TreeDepth sample_conf) (ParsePathUint64 k) = 5"
    by (simp add: bucket_of_path_offset)
  then show ?thesis by (simp add: htree_key_ok_def sample_ki_def in_bucket_def)
qed

theorem htree_last_write_witness:
  "\<exists>t. htree_run sample_conf 5
      [Put (sample_ki 0x5000000100000007) (\<lparr>TS = 0, Flag = 0, Ver = 3, ValueHash = 9, RecSize = 0\<rparr>,
         \<lparr>ChunkID = 1, Offset = 768\<rparr>, []),
       Del (sample_ki 0x5000000200000007)] = Some t \<and>
    htree_lookup sample_conf (sample_ki 0x5000000100000007) t =
      Some (Some \<lparr>it_Keyhash = 0, it_Pos = \<lparr>ChunkID = 1, Offset = 768\<rparr>, it_Ver = 3, it_Vhash = 9\<rparr>)"
proof -
  have c: "2 \<le> TreeHeight sample_conf" by (simp add: sample_conf_def)
  have k: "htree_key_ok sample_conf 5 (sample_ki 0x5000000100000007)"
      "htree_key_ok sample_conf 5 (sample_ki 0x5000000200000007)"
    by (rule sample_ki_ok, simp)+
  let ?ops = "[Put (sample_ki 0x5000000100000007) (\<lparr>TS = 0, Flag = 0, Ver = 3, ValueHash = 9, RecSize = 0\<rparr>,
         \<lparr>ChunkID = 1, Offset = 768\<rparr>, []), Del (sample_ki 0x5000000200000007)]
      :: (KeyInfo, Meta \<times> Position \<times> bytes) kv_op list"
  have "last_value htree_item (filter (\<lambda>op. KeyHash (op_key op) = KeyHash (sample_ki 0x5000000100000007)) ?ops)
      = Some \<lparr>it_Keyhash = 0, it_Pos = \<lparr>ChunkID = 1, Offset = 768\<rparr>, it_Ver = 3, it_Vhash = 9\<rparr>"
    by (simp add: sample_ki_def htree_item_def norm_item_def)
  with htree_last_write [OF sample_conf_ok c _ k(1), of ?ops] k show ?thesis by simp
qed

text \<open>C11: the summaries compare replicas.  The root summary that \<open>Update\<close> returns is a function of the stored
  map alone: two trees of a bucket whose operations leave the same items under the same key hashes get the
  same count and hash, whatever their histories and whichever summaries were recomputed before.\<close>

theorem Update_history_independent:
  assumes "conf_ok c" and "2 \<le> TreeHeight c"
    and "\<forall>op \<in> set ops1 \<union> set ops2. htree_key_ok c b (op_key op)"
    and "abs_ops KeyHash htree_item ops1 Map.empty = abs_ops KeyHash htree_item ops2 Map.empty"
  shows "\<exists>t1 t2 n1 n2 t1' t2'. htree_run c b ops1 = Some t1 \<and> htree_run c b ops2 = Some t2 \<and>
    Update t1 = Some (n1, t1') \<and> Update t2 = Some (n2, t2') \<and>
    n_count n1 = n_count n2 \<and> n_hash n1 = n_hash n2 \<and>
    (n_count n1, n_hash n1) =
      spec_node c (abs_ops KeyHash htree_item ops1 Map.empty) (TreeHeight c - 1) 0"
proof -
  have u: "\<exists>t n t'. htree_run c b ops = Some t \<and> Update t = Some (n, t') \<and>
      (n_count n, n_hash n) = spec_node c (abs_ops KeyHash htree_item ops Map.empty) (TreeHeight c - 1) 0"
    if ok: "\<forall>op \<in> set ops. htree_key_ok c b (op_key op)" for ops
  proof -
    obtain t where t: "htree_run c b ops = Some t"
        "tree_rep c t (abs_ops KeyHash htree_item ops Map.empty)"
      using htree_run_rep [OF assms(1,2) ok] by (auto simp: htree_rep_def)
    then show ?thesis using updateNodes_rep [OF assms(1) t(2), of 0 0] by (auto simp: Update_def)
  qed
  obtain t1 n1 t1' where "htree_run c b ops1 = Some t1" "Update t1 = Some (n1, t1')"
      "(n_count n1, n_hash n1) = spec_node c (abs_ops KeyHash htree_item ops1 Map.empty) (TreeHeight c - 1) 0"
    using u [of ops1] assms(3) by auto
  moreover obtain t2 n2 t2' where "htree_run c b ops2 = Some t2" "Update t2 = Some (n2, t2')"
      "(n_count n2, n_hash n2) = spec_node c (abs_ops KeyHash htree_item ops2 Map.empty) (TreeHeight c - 1) 0"
    using u [of ops2] assms(3) by auto
  ultimately show ?thesis using assms(4) by (metis prod.inject)
qed

theorem Update_history_independent_witness:
  "\<exists>t1 t2 n1 n2 t1' t2'.
    htree_run sample_conf 5
      [Put (sample_ki 0x5000000100000007) (\<lparr>TS = 0, Flag = 0, Ver = 3, ValueHash = 9, RecSize = 0\<rparr>,
         \<lparr>ChunkID = 1, Offset = 768\<rparr>, []), Del (sample_ki 0x5000000200000007)] = Some t1 \<and>
    htree_run sample_conf 5
      [Put (sample_ki 0x5000000100000007) (\<lparr>TS = 0, Flag = 0, Ver = 3, ValueHash = 9, RecSize = 0\<rparr>,
         \<lparr>ChunkID = 1, Offset = 768\<rparr>, [])] = Some t2 \<and>
    Update t1 = Some (n1, t1') \<and> Update t2 = Some (n2, t2') \<and>
    n_count n1 = n_count n2 \<and> n_hash n1 = n_hash n2"
proof -
  have c: "2 \<le> TreeHeight sample_conf" by (simp add: sample_conf_def)
  have k: "htree_key_ok sample_conf 5 (sample_ki 0x5000000100000007)"
      "htree_key_ok sample_conf 5 (sample_ki 0x5000000200000007)"
    by (rule sample_ki_ok, simp)+
  let ?put = "Put (sample_ki 0x5000000100000007) (\<lparr>TS = 0, Flag = 0, Ver = 3, ValueHash = 9, RecSize = 0\<rparr>,
         \<lparr>ChunkID = 1, Offset = 768\<rparr>, []) :: (KeyInfo, Meta \<times> Position \<times> bytes) kv_op"
  let ?del = "Del (sample_ki 0x5000000200000007) :: (KeyInfo, Meta \<times> Position \<times> bytes) kv_op"
  have "abs_ops KeyHash htree_item [?put, ?del] Map.empty = abs_ops KeyHash htree_item [?put] Map.empty"
    by (simp add: sample_ki_def fun_upd_idem)
  with Update_history_independent [OF sample_conf_ok c, of "[?put, ?del]" "[?put]" 5] k
  show ?thesis by auto
qed

text \<open>C12: a listing is exact.  \<open>listDir\<close> of a path (hexadecimal digits starting with the bucket's) does not
  panic and shows either every item whose key hash starts with the path, each exactly once with its
  full 64-bit key hash rebuilt, or, above the leaf level and from 256 live items on, the up-to-date summaries of the
  sixteen nodes below; and it leaves the stored map as it was.\<close>

theorem listDir_exact:
  assumes "conf_ok c" and "2 \<le> TreeHeight c" and "\<forall>op \<in> set ops. htree_key_ok c b (op_key op)"
    and "htree_run c b ops = Some t" and "path_ki c t ki"
  shows "\<exists>r t'. listDir c t ki = Some (r, t') \<and>
    listing_ok c (abs_ops KeyHash htree_item ops Map.empty) (KeyPath ki) r \<and>
    htree_rep c b t' (abs_ops KeyHash htree_item ops Map.empty)"
proof -
  have r: "htree_rep c b t (abs_ops KeyHash htree_item ops Map.empty)"
    using htree_run_rep [OF assms(1-3)] assms(4) by auto
  then show ?thesis
    using listDir_rep [OF assms(1) _ assms(5)] by (fastforce simp: htree_rep_def)
qed

lemma path_ki_hash:
  assumes "TreeDepth c \<le> n" "n \<le> 16" "in_bucket c (t_bucketID t) k"
  shows "path_ki c t \<lparr>KeyHash = khash_of_path 60 (take n (ParsePathUint64 k)) 0, KeyIsPath = True,
    Key = replicate n 48, StringKey = replicate n 48, KeyPath = take n (ParsePathUint64 k), BucketID = b\<rparr>"
  using assms by (auto simp: path_ki_def in_bucket_def bucket_of_path_def min_def dest: in_set_takeD)

theorem listDir_exact_witness:
  "\<exists>t r t'. htree_run sample_conf 5
      [Put (sample_ki 0x5000000100000007) (\<lparr>TS = 0, Flag = 0, Ver = 3, ValueHash = 9, RecSize = 0\<rparr>,
         \<lparr>ChunkID = 1, Offset = 768\<rparr>, [])] = Some t \<and>
    listDir sample_conf t \<lparr>KeyHash = khash_of_path 60 (take 4 (ParsePathUint64 0x5000000100000007)) 0,
      KeyIsPath = True, Key = replicate 4 48, StringKey = replicate 4 48,
      KeyPath = take 4 (ParsePathUint64 0x5000000100000007), BucketID = 5\<rparr> = Some (r, t') \<and>
    (\<forall>its. r = Inl its \<longrightarrow> set its = {\<lparr>it_Keyhash = 0x5000000100000007,
       it_Pos = \<lparr>ChunkID = 1, Offset = 768\<rparr>, it_Ver = 3, it_Vhash = 9\<rparr>})"
proof -
  have c: "2 \<le> TreeHeight sample_conf" "TreeDepth sample_conf \<le> 4" by (simp_all add: sample_conf_def)
  let ?k = "0x5000000100000007 :: u64"
  have k: "htree_key_ok sample_conf 5 (sample_ki ?k)" by (rule sample_ki_ok) simp
  let ?put = "Put (sample_ki ?k) (\<lparr>TS = 0, Flag = 0, Ver = 3, ValueHash = 9, RecSize = 0\<rparr>,
         \<lparr>ChunkID = 1, Offset = 768\<rparr>, []) :: (KeyInfo, Meta \<times> Position \<times> bytes) kv_op"
  let ?m = "abs_ops KeyHash htree_item [?put] Map.empty"
  have ok: "\<forall>op \<in> set [?put]. htree_key_ok sample_conf 5 (op_key op)" using k by simp
  obtain t where t: "htree_run sample_conf 5 [?put] = Some t" "t_bucketID t = 5"
    using htree_run_rep [OF sample_conf_ok c(1) ok] by (auto simp: htree_rep_def)
  have ib: "in_bucket sample_conf (t_bucketID t) ?k"
    using k t(2) by (simp add: htree_key_ok_def sample_ki_def)
  have n: "(4 :: nat) \<le> 16" by simp
  obtain r t' where "listDir sample_conf t \<lparr>KeyHash = khash_of_path 60 (take 4 (ParsePathUint64 ?k)) 0,
      KeyIsPath = True, Key = replicate 4 48, StringKey = replicate 4 48,
      KeyPath = take 4 (ParsePathUint64 ?k), BucketID = 5\<rparr> = Some (r, t')"
      and l: "listing_ok sample_conf ?m (take 4 (ParsePathUint64 ?k)) r"
    using listDir_exact [OF sample_conf_ok c(1) ok t(1) path_ki_hash [OF c(2) n ib, of 5]]
    unfolding KeyInfo.simps by blast
  moreover have "set its = {\<lparr>it_Keyhash = ?k, it_Pos = \<lparr>ChunkID = 1, Offset = 768\<rparr>, it_Ver = 3, it_Vhash = 9\<rparr>}"
    if "r = Inl its" for its
  proof -
    have "?m = [?k \<mapsto> \<lparr>it_Keyhash = 0, it_Pos = \<lparr>ChunkID = 1, Offset = 768\<rparr>, it_Ver = 3, it_Vhash = 9\<rparr>]"
      by (simp add: sample_ki_def htree_item_def norm_item_def)
    then show ?thesis using l that by (auto simp: listing_ok_def split: if_splits)
  qed
  ultimately show ?thesis using t(1) by blast
qed

section \<open>Dump and load\<close>

lemma ListTop_rep:
  assumes "conf_ok c" "tree_rep c t m" "0 \<le> t_bucketID t" "t_bucketID t < 16 ^ TreeDepth c"
  shows "\<exists>lv. ListTop c t = Some (t\<lparr>levels := lv\<rparr>) \<and> tree_rep c (t\<lparr>levels := lv\<rparr>) m"
proof -
  let ?n = "nat (t_bucketID t)" and ?d = "TreeDepth c"
  obtain ds where ds: "format_nat 16 ?n = map digit_char ds" "path_offset ds = ?n" "\<forall>x \<in> set ds. x < 16"
      "ds \<noteq> []" "\<And>k. 1 \<le> k \<Longrightarrow> ?n < 16 ^ k \<Longrightarrow> length ds \<le> k"
    using format_nat_16 [of ?n] by auto
  have n: "?n < 16 ^ ?d" using assms(3,4) by (metis nat_less_eq_zless nat_power_eq of_nat_numeral nat_numeral zero_le_numeral)
  have d: "?d \<le> 7" using conf_ok_levels [OF assms(1)] by simp
  have len: "length ds \<le> max 1 ?d"
    using ds(5) [of ?d] ds(5) [of 1] n by (cases "?d = 0") auto
  then have l16: "length ds \<le> 16" using d by simp
  let ?s = "bytes_of_string (FormatInt 16 (t_bucketID t))"
  have s: "?s = bytes_of_string (map digit_char ds)" "length ?s = length ds"
    using assms(3) ds(1) by (simp_all add: FormatInt_def bytes_of_string_def)
  let ?ki = "\<lparr>KeyHash = khash_of_path 60 ds 0, KeyIsPath = True, Key = ?s, StringKey = ?s, KeyPath = ds,
      BucketID = if length ds < ?d then - 1 else bucket_of_path ?d ds\<rparr>"
  have p: "Prepare c \<lparr>KeyHash = 0, KeyIsPath = True, Key = ?s, StringKey = ?s, KeyPath = [], BucketID = 0\<rparr>
      = Some (?ki, None)"
    using parse_path_digits [OF ds(3)] l16 s
    by (simp add: Prepare_def ParsePathString_def setKeyHashByPath_def Let_def)
  show ?thesis
  proof (cases "length ds < ?d")
    case True
    then have "ListTop c t = Some t"
      using p s(2) tree_repD(1) [OF assms(2)] by (simp add: ListTop_def ListDir_def Let_def)
    then show ?thesis using assms(2) by (intro exI [of _ "levels t"]) simp
  next
    case False
    have "path_offset (take ?d ds) = ?n"
    proof (cases "?d = 0")
      case True
      then show ?thesis using n by simp
    next
      case nz: False
      then have "length ds = ?d" using False len by simp
      then show ?thesis using ds(2) by simp
    qed
    then have "path_ki c t ?ki"
      using False ds(3) l16 s(2) assms(3) by (simp add: path_ki_def bucket_of_path_offset)
    from listDir_rep [OF assms(1,2) this]
    obtain r lv where "listDir c t ?ki = Some (r, t\<lparr>levels := lv\<rparr>)" "tree_rep c (t\<lparr>levels := lv\<rparr>) m"
      by auto
    moreover from this have "ListTop c t = Some (t\<lparr>levels := lv\<rparr>)"
      using p s(2) False tree_repD(1) [OF assms(2)] by (simp add: ListTop_def ListDir_def Let_def)
    ultimately show ?thesis by blast
  qed
qed

lemma load_nodes_dump:
  assumes "length ns = length ns0"
  shows "load_nodes (concat (map node_bytes ns) @ r) pre ns0 =
    (pre @ map (\<lambda>(n0, n). n0\<lparr>n_count := n_count n, n_hash := n_hash n\<rparr>) (zip ns0 ns), r, True)"
  using assms
proof (induction ns ns0 arbitrary: pre rule: list_induct2)
  case (Cons n ns n0 ns0)
  have f: "length (node_bytes n) = 6" by (simp add: node_bytes_def)
  have g: "get_le (slice 0 4 (node_bytes n @ x)) = n_count n" "get_le (slice 4 6 (node_bytes n @ x)) = n_hash n" for x
    by (simp_all add: node_bytes_def slice_def)
  show ?case using Cons.IH f g by simp
qed simp

lemma load_leafs_dump:
  assumes "\<forall>l \<in> set ls. length l < 2 ^ 32" "length ls = length ls0" "\<forall>l \<in> set ls0. l = []"
  shows "load_leafs (concat (map leaf_bytes ls)) pre ls0 = (pre @ ls, True)"
  using assms(2,1,3)
proof (induction ls ls0 arbitrary: pre rule: list_induct2)
  case (Cons l ls l0 ls0)
  have n: "unat (get_le (put_le 4 (of_nat (length l) :: u32)) :: u32) = length l"
    using Cons.prems(1) by (simp add: unsigned_of_nat take_bit_nat_eq_self)
  show ?case
  proof (cases "l = []")
    case True
    then show ?thesis using Cons n by (simp add: leaf_bytes_def Let_def)
  next
    case False
    then show ?thesis using Cons n by (simp add: leaf_bytes_def Let_def)
  qed
qed simp

lemma those_nth_opt: "those (map (nth_opt xs) [0..<length xs]) = Some xs"
proof -
  have "those (map (nth_opt xs) is) = Some (map ((!) xs) is)" if "set is \<subseteq> {0..<length xs}" for "is"
    using that by (induction "is") auto
  from this [of "[0..<length xs]"] show ?thesis by (simp add: map_nth)
qed

lemma htree_load_rep:
  assumes "conf_ok c" "tree_rep c t m" "\<forall>l \<in> set (leafs t). length l < 2 ^ 32"
    "0 \<le> t_bucketID t" "t_bucketID t < 16 ^ TreeDepth c"
    "newHTree (TreeDepth c) (t_bucketID t) (TreeHeight c) = Some t0"
    "f = concat (map node_bytes (levels t ! (TreeHeight c - 1))) @ concat (map leaf_bytes (leafs t))"
  shows "\<exists>t'. htree_load c t0 f = Some (t', True) \<and> tree_rep c t' m \<and> leafs t' = leafs t \<and>
    t_bucketID t' = t_bucketID t"
proof -
  let ?h = "TreeHeight c" and ?ln = "levels t ! (TreeHeight c - 1)"
  note rep = tree_repD [OF assms(2)] and h = conf_ok_levels(2) [OF assms(1)]
  have hl: "?h - 1 < ?h" using h by simp
  have lt: "length ?ln = 16 ^ (?h - 1)" using rep(2) hl unfolding shape_lv_def by blast
  let ?nd = "\<lambda>i. if i = ?h - 1 then zero_node\<lparr>isHashUpdated := True\<rparr> else zero_node"
  let ?lv0 = "map (\<lambda>i. replicate (16 ^ i) (?nd i)) [0..<?h]"
  have t0: "t0 = \<lparr>t_depth = TreeDepth c, t_bucketID = t_bucketID t, levels = ?lv0,
      leafs = replicate (16 ^ (?h - 1)) []\<rparr>"
    using assms(6) by (simp add: newHTree_def split: if_splits)
  have l0: "nth_opt ?lv0 (?h - 1) = Some (replicate (16 ^ (?h - 1)) (zero_node\<lparr>isHashUpdated := True\<rparr>))"
    using hl by (simp add: nth_opt_def)
  let ?ns = "map (\<lambda>(n0, n). n0\<lparr>n_count := n_count n, n_hash := n_hash n\<rparr>)
      (zip (replicate (16 ^ (?h - 1)) (zero_node\<lparr>isHashUpdated := True\<rparr>)) ?ln)"
  have ln: "load_nodes f [] (replicate (16 ^ (?h - 1)) (zero_node\<lparr>isHashUpdated := True\<rparr>)) =
      (?ns, concat (map leaf_bytes (leafs t)), True)"
    using load_nodes_dump [of ?ln "replicate (16 ^ (?h - 1)) (zero_node\<lparr>isHashUpdated := True\<rparr>)"] lt assms(7)
    by simp
  have ll: "load_leafs (concat (map leaf_bytes (leafs t))) [] (replicate (16 ^ (?h - 1)) []) = (leafs t, True)"
    using load_leafs_dump [OF assms(3)] rep(5) by simp
  let ?t1 = "t0\<lparr>levels := ?lv0[?h - 1 := ?ns], leafs := leafs t\<rparr>"
  have sh: "shape_lv ?h (?lv0[?h - 1 := ?ns])"
    using lt by (auto simp: shape_lv_def nth_list_update)
  have nth: "?lv0[?h - 1 := ?ns] ! l ! off = (if l = ?h - 1
      then \<lparr>n_count = n_count (?ln ! off), n_hash = n_hash (?ln ! off), isHashUpdated = True\<rparr> else zero_node)"
    if "l < ?h" "off < 16 ^ l" for l off
    using that lt by (auto simp: nth_list_update zero_node_def)
  have "nodes_ok c m (?lv0[?h - 1 := ?ns])"
    unfolding nodes_ok_def
  proof (intro conjI allI impI sh)
    fix l off :: nat assume lo: "l < ?h" "off < 16 ^ l"
    show "(n_count (?lv0[?h - 1 := ?ns] ! l ! off), n_hash (?lv0[?h - 1 := ?ns] ! l ! off)) =
        spec_node c m (?h - 1 - l) off" if "isHashUpdated (?lv0[?h - 1 := ?ns] ! l ! off)"
    proof -
      have l: "l = ?h - 1" using that unfolding nth [OF lo] by (simp add: zero_node_def split: if_splits)
      then have "(n_count (?ln ! off), n_hash (?ln ! off)) = spec_node c m (?h - 1 - l) off"
        using rep(3) lo unfolding nodes_ok_def by metis
      then show ?thesis unfolding nth [OF lo] using l by simp
    qed
    show "isHashUpdated (?lv0[?h - 1 := ?ns] ! l ! off)" if "l = ?h - 1"
      unfolding nth [OF lo] using that by simp
    show "isHashUpdated (?lv0[?h - 1 := ?ns] ! Suc l ! (off * 16 + i))"
      if "isHashUpdated (?lv0[?h - 1 := ?ns] ! l ! off) \<and> Suc l < ?h" for i
      using that unfolding nth [OF lo] by (auto simp: zero_node_def split: if_splits)
  qed
  then have "tree_rep c ?t1 m" using rep(4) t0 by (simp add: tree_rep_def)
  moreover have "t_bucketID ?t1 = t_bucketID t" using t0 by simp
  ultimately obtain lv where "ListTop c ?t1 = Some (?t1\<lparr>levels := lv\<rparr>)" "tree_rep c (?t1\<lparr>levels := lv\<rparr>) m"
    using ListTop_rep [OF assms(1), of ?t1 m] assms(4,5) by auto
  moreover from this(1) have "htree_load c t0 f = Some (?t1\<lparr>levels := lv\<rparr>, True)"
  proof -
    have up: "upd_opt ?lv0 (?h - 1) ?ns = Some (?lv0[?h - 1 := ?ns])" using hl by (simp add: upd_opt_def)
    have sel: "levels t0 = ?lv0" "leafs t0 = replicate (16 ^ (?h - 1)) []" using t0 by simp_all
    show ?thesis
      unfolding htree_load_def sel l0 using ln ll up \<open>ListTop c ?t1 = Some (?t1\<lparr>levels := lv\<rparr>)\<close> by simp
  qed
  ultimately show ?thesis using t0 by (intro exI [of _ "?t1\<lparr>levels := lv\<rparr>"]) simp
qed

lemma htree_dump_rep:
  assumes "htree_rep c b t m" "0 \<le> b" "b < 16 ^ TreeDepth c"
  shows "\<exists>lv. htree_dump c t = Some (concat (map node_bytes (lv ! (TreeHeight c - 1))) @ concat (map leaf_bytes (leafs t)), t\<lparr>levels := lv\<rparr>) \<and>
    htree_rep c b (t\<lparr>levels := lv\<rparr>) m"
proof -
  have r: "conf_ok c" "tree_rep c t m" "t_bucketID t = b" "2 \<le> TreeHeight c" using assms(1) by (simp_all add: htree_rep_def)
  obtain lv where lt: "ListTop c t = Some (t\<lparr>levels := lv\<rparr>)" "tree_rep c (t\<lparr>levels := lv\<rparr>) m"
    using ListTop_rep [OF r(1,2)] assms(2,3) r(3) by auto
  note rep = tree_repD [OF lt(2)] and h = conf_ok_levels(2) [OF r(1)]
  have "nth_opt lv (TreeHeight c - 1) = Some (lv ! (TreeHeight c - 1))"
      "length (lv ! (TreeHeight c - 1)) = length (leafs t)"
    using rep(2,5) h by (auto simp: shape_lv_def)
  then have "htree_dump c t = Some (concat (map node_bytes (lv ! (TreeHeight c - 1))) @ concat (map leaf_bytes (leafs t)), t\<lparr>levels := lv\<rparr>)"
    using lt(1) those_nth_opt [of "leafs t"] by (simp add: htree_dump_def)
  then show ?thesis using lt(2) r by (auto simp: htree_rep_def)
qed

text \<open>C13: what \<open>dump\<close> writes, \<open>load\<close> reads back: loading the file into a new tree of the bucket succeeds and
  gives a tree of the same items, with correct summaries, so a restart loses nothing.  (A leaf's
  length is stored in four bytes.)\<close>

theorem dump_load_roundtrip:
  assumes "conf_ok c" and "2 \<le> TreeHeight c" and "\<forall>op \<in> set ops. htree_key_ok c b (op_key op)"
    and "htree_run c b ops = Some t" and "0 \<le> b" and "b < 16 ^ TreeDepth c"
    and "\<forall>l \<in> set (leafs t). length l < 2 ^ 32"
  shows "\<exists>f t1 t0 t'. htree_dump c t = Some (f, t1) \<and>
    newHTree (TreeDepth c) b (TreeHeight c) = Some t0 \<and> htree_load c t0 f = Some (t', True) \<and>
    leafs t' = leafs t \<and> htree_rep c b t1 (abs_ops KeyHash htree_item ops Map.empty) \<and>
    htree_rep c b t' (abs_ops KeyHash htree_item ops Map.empty)"
proof -
  let ?m = "abs_ops KeyHash htree_item ops Map.empty"
  have rep: "htree_rep c b t ?m" using htree_run_rep [OF assms(1-3)] assms(4) by auto
  obtain lv where d: "htree_dump c t = Some (concat (map node_bytes (lv ! (TreeHeight c - 1))) @ concat (map leaf_bytes (leafs t)), t\<lparr>levels := lv\<rparr>)"
    and lr: "htree_rep c b (t\<lparr>levels := lv\<rparr>) ?m" using htree_dump_rep [OF rep assms(5,6)] by blast
  have lt: "tree_rep c (t\<lparr>levels := lv\<rparr>) ?m" "t_bucketID t = b" using lr by (simp_all add: htree_rep_def)
  let ?f = "concat (map node_bytes (lv ! (TreeHeight c - 1))) @ concat (map leaf_bytes (leafs t))"
  obtain t0 where t0: "newHTree (TreeDepth c) b (TreeHeight c) = Some t0"
    using newHTree_rep [OF assms(1)] by blast
  have "\<exists>t'. htree_load c t0 ?f = Some (t', True) \<and> tree_rep c t' ?m \<and> leafs t' = leafs (t\<lparr>levels := lv\<rparr>) \<and>
      t_bucketID t' = t_bucketID (t\<lparr>levels := lv\<rparr>)"
    by (rule htree_load_rep [OF assms(1) lt(1)]) (use assms t0 lt(2) in simp_all)
  then show ?thesis using d t0 lr lt(2) assms(1,2) by (auto simp: htree_rep_def)
qed

theorem dump_load_roundtrip_witness:
  "\<exists>t f t1 t0 t'. htree_run sample_conf 5 [] = Some t \<and> htree_dump sample_conf t = Some (f, t1) \<and>
    newHTree (TreeDepth sample_conf) 5 (TreeHeight sample_conf) = Some t0 \<and>
    htree_load sample_conf t0 f = Some (t', True) \<and> leafs t' = leafs t"
proof -
  have c: "2 \<le> TreeHeight sample_conf" "(5 :: int) < 16 ^ TreeDepth sample_conf"
    by (simp_all add: sample_conf_def)
  obtain t where t: "newHTree (TreeDepth sample_conf) 5 (TreeHeight sample_conf) = Some t"
    using newHTree_rep [OF sample_conf_ok] by blast
  then have r: "htree_run sample_conf 5 [] = Some t" by (simp add: htree_run_def)
  have "\<forall>l \<in> set (leafs t). length l < 2 ^ 32" using t by (auto simp: newHTree_def split: if_splits)
  with dump_load_roundtrip [OF sample_conf_ok c(1) _ r _ c(2)] r show ?thesis by auto
qed

end
