(* ===== verification/Crc32.thy ===== *)
theory Crc32
  imports Prelude
begin

text \<open>
  The checksum of records (\<open>store/crc32.go\<close>): the table-driven CRC-32 of the embedded C code, with
  the table as it stands in the source.  The lemmas show that the table is the one of the reflected
  polynomial \<open>0xEDB88320\<close>, so that the routine computes the bitwise CRC, and that a step loses no
  information, so that changing a single byte of the data always changes the checksum.
\<close>

unbundle bit_operations_syntax

section \<open>Definitions\<close>

definition crc32_table :: "u32 list" where
  "crc32_table = [
    0x00000000, 0x77073096, 0xee0e612c, 0x990951ba, 0x076dc419, 0x706af48f, 0xe963a535, 0x9e6495a3,
    0x0edb8832, 0x79dcb8a4, 0xe0d5e91e, 0x97d2d988, 0x09b64c2b, 0x7eb17cbd, 0xe7b82d07, 0x90bf1d91,
    0x1db71064, 0x6ab020f2, 0xf3b97148, 0x84be41de, 0x1adad47d, 0x6ddde4eb, 0xf4d4b551, 0x83d385c7,
    0x136c9856, 0x646ba8c0, 0xfd62f97a, 0x8a65c9ec, 0x14015c4f, 0x63066cd9, 0xfa0f3d63, 0x8d080df5,
    0x3b6e20c8, 0x4c69105e, 0xd56041e4, 0xa2677172, 0x3c03e4d1, 0x4b04d447, 0xd20d85fd, 0xa50ab56b,
    0x35b5a8fa, 0x42b2986c, 0xdbbbc9d6, 0xacbcf940, 0x32d86ce3, 0x45df5c75, 0xdcd60dcf, 0xabd13d59,
    0x26d930ac, 0x51de003a, 0xc8d75180, 0xbfd06116, 0x21b4f4b5, 0x56b3c423, 0xcfba9599, 0xb8bda50f,
    0x2802b89e, 0x5f058808, 0xc60cd9b2, 0xb10be924, 0x2f6f7c87, 0x58684c11, 0xc1611dab, 0xb6662d3d,
    0x76dc4190, 0x01db7106, 0x98d220bc, 0xefd5102a, 0x71b18589, 0x06b6b51f, 0x9fbfe4a5, 0xe8b8d433,
    0x7807c9a2, 0x0f00f934, 0x9609a88e, 0xe10e9818, 0x7f6a0dbb, 0x086d3d2d, 0x91646c97, 0xe6635c01,
    0x6b6b51f4, 0x1c6c6162, 0x856530d8, 0xf262004e, 0x6c0695ed, 0x1b01a57b, 0x8208f4c1, 0xf50fc457,
    0x65b0d9c6, 0x12b7e950, 0x8bbeb8ea, 0xfcb9887c, 0x62dd1ddf, 0x15da2d49, 0x8cd37cf3, 0xfbd44c65,
    0x4db26158, 0x3ab551ce, 0xa3bc0074, 0xd4bb30e2, 0x4adfa541, 0x3dd895d7, 0xa4d1c46d, 0xd3d6f4fb,
    0x4369e96a, 0x346ed9fc, 0xad678846, 0xda60b8d0, 0x44042d73, 0x33031de5, 0xaa0a4c5f, 0xdd0d7cc9,
    0x5005713c, 0x270241aa, 0xbe0b1010, 0xc90c2086, 0x5768b525, 0x206f85b3, 0xb966d409, 0xce61e49f,
    0x5edef90e, 0x29d9c998, 0xb0d09822, 0xc7d7a8b4, 0x59b33d17, 0x2eb40d81, 0xb7bd5c3b, 0xc0ba6cad,
    0xedb88320, 0x9abfb3b6, 0x03b6e20c, 0x74b1d29a, 0xead54739, 0x9dd277af, 0x04db2615, 0x73dc1683,
    0xe3630b12, 0x94643b84, 0x0d6d6a3e, 0x7a6a5aa8, 0xe40ecf0b, 0x9309ff9d, 0x0a00ae27, 0x7d079eb1,
    0xf00f9344, 0x8708a3d2, 0x1e01f268, 0x6906c2fe, 0xf762575d, 0x806567cb, 0x196c3671, 0x6e6b06e7,
    0xfed41b76, 0x89d32be0, 0x10da7a5a, 0x67dd4acc, 0xf9b9df6f, 0x8ebeeff9, 0x17b7be43, 0x60b08ed5,
    0xd6d6a3e8, 0xa1d1937e, 0x38d8c2c4, 0x4fdff252, 0xd1bb67f1, 0xa6bc5767, 0x3fb506dd, 0x48b2364b,
    0xd80d2bda, 0xaf0a1b4c, 0x36034af6, 0x41047a60, 0xdf60efc3, 0xa867df55, 0x316e8eef, 0x4669be79,
    0xcb61b38c, 0xbc66831a, 0x256fd2a0, 0x5268e236, 0xcc0c7795, 0xbb0b4703, 0x220216b9, 0x5505262f,
    0xc5ba3bbe, 0xb2bd0b28, 0x2bb45a92, 0x5cb36a04, 0xc2d7ffa7, 0xb5d0cf31, 0x2cd99e8b, 0x5bdeae1d,
    0x9b64c2b0, 0xec63f226, 0x756aa39c, 0x026d930a, 0x9c0906a9, 0xeb0e363f, 0x72076785, 0x05005713,
    0x95bf4a82, 0xe2b87a14, 0x7bb12bae, 0x0cb61b38, 0x92d28e9b, 0xe5d5be0d, 0x7cdcefb7, 0x0bdbdf21,
    0x86d3d2d4, 0xf1d4e242, 0x68ddb3f8, 0x1fda836e, 0x81be16cd, 0xf6b9265b, 0x6fb077e1, 0x18b74777,
    0x88085ae6, 0xff0f6a70, 0x66063bca, 0x11010b5c, 0x8f659eff, 0xf862ae69, 0x616bffd3, 0x166ccf45,
    0xa00ae278, 0xd70dd2ee, 0x4e048354, 0x3903b3c2, 0xa7672661, 0xd06016f7, 0x4969474d, 0x3e6e77db,
    0xaed16a4a, 0xd9d65adc, 0x40df0b66, 0x37d83bf0, 0xa9bcae53, 0xdebb9ec5, 0x47b2cf7f, 0x30b5ffe9,
    0xbdbdf21c, 0xcabac28a, 0x53b39330, 0x24b4a3a6, 0xbad03605, 0xcdd70693, 0x54de5729, 0x23d967bf,
    0xb3667a2e, 0xc4614ab8, 0x5d681b02, 0x2a6f2b94, 0xb40bbe37, 0xc30c8ea1, 0x5a05df1b, 0x2d02ef8d]"

definition crc_step :: "u32 \<Rightarrow> byte \<Rightarrow> u32" where
  "crc_step crc b = crc32_table ! unat ((crc XOR ucast b) AND 0xff) XOR drop_bit 8 crc"

text \<open>\<open>crc32_write\<close>, \<open>newCrc32\<close> and \<open>get\<close>.\<close>

definition crc32_write :: "u32 \<Rightarrow> bytes \<Rightarrow> u32" where
  "crc32_write crc buf = foldl crc_step crc buf"

definition newCrc32 :: u32 where "newCrc32 = NOT 0"

definition crc_get :: "u32 \<Rightarrow> u32" where "crc_get crc = NOT crc"

text \<open>The reference: one bit of the reflected polynomial division, eight bits for a byte.\<close>

definition crc_bit :: "u32 \<Rightarrow> u32" where
  "crc_bit w = (if bit w 0 then drop_bit 1 w XOR 0xEDB88320 else drop_bit 1 w)"

definition crc_bits :: "u32 \<Rightarrow> byte \<Rightarrow> u32" where
  "crc_bits crc b = (crc_bit ^^ 8) (crc XOR ucast b)"

section \<open>The table\<close>

lemma crc_bit_xor: "crc_bit (a XOR b) = crc_bit a XOR crc_bit b"
proof -
  have d: "drop_bit 1 (a XOR b) = drop_bit 1 a XOR drop_bit 1 b" by simp
  show ?thesis unfolding crc_bit_def d bit_xor_iff
    by (simp add: xor.assoc xor.left_commute xor.commute)
qed

lemma crc_bits_xor: "(crc_bit ^^ n) (a XOR b) = (crc_bit ^^ n) a XOR (crc_bit ^^ n) b"
  by (induction n arbitrary: a b) (simp_all add: crc_bit_xor)

lemma length_crc32_table [simp]: "length crc32_table = 256"
  by (simp add: crc32_table_def)

text \<open>The table doubles: its second half is the first half combined with the entry of one bit.\<close>

definition double :: "u32 list \<Rightarrow> u32 \<Rightarrow> u32 list" where
  "double t p = t @ map (\<lambda>w. w XOR p) t"

lemma crc32_table_double:
  "crc32_table = foldl double [0] [0x77073096, 0xee0e612c, 0x076dc419, 0x0edb8832, 0x1db71064,
     0x3b6e20c8, 0x76dc4190, 0xedb88320]"
  by (simp add: crc32_table_def double_def)

lemma of_nat_xor_pow:
  assumes "j < 2 ^ k"
  shows "(of_nat (2 ^ k + j) :: u32) = of_nat j XOR of_nat (2 ^ k)"
proof -
  have "\<not> bit j k" using assms by (simp add: bit_iff_odd)
  then have "j AND 2 ^ k = 0"
    by (intro bit_eqI) (auto simp: bit_simps)
  then have "2 ^ k + j = j XOR 2 ^ k"
    by (simp add: add.commute disjunctive_add_eq_xor)
  then have "(of_nat (2 ^ k + j) :: u32) = of_nat (j XOR 2 ^ k)" by simp
  also have "\<dots> = of_nat j XOR of_nat (2 ^ k)" by (rule of_nat_xor_eq)
  finally show ?thesis .
qed

lemma crc_entries_double:
  "map (\<lambda>i. (crc_bit ^^ 8) (of_nat i)) [0..<2 ^ Suc k] =
     double (map (\<lambda>i. (crc_bit ^^ 8) (of_nat i)) [0..<2 ^ k]) ((crc_bit ^^ 8) (of_nat (2 ^ k)))"
proof -
  let ?E = "\<lambda>i. (crc_bit ^^ 8) (of_nat i)"
  have "[0..<2 ^ Suc k] = [0..<2 ^ k + 2 ^ k]" by (simp add: mult_2)
  also have "\<dots> = [0..<2 ^ k] @ [2 ^ k..<2 ^ k + 2 ^ k]" by (rule upt_add_eq_append) simp
  also have "[2 ^ k..<2 ^ k + 2 ^ k] = map (\<lambda>j. j + 2 ^ k) [0..<2 ^ k]" by (simp only: map_add_upt)
  finally have u: "[0..<2 ^ Suc k] = [0..<2 ^ k] @ map (\<lambda>j. j + 2 ^ k) [0..<2 ^ k]" .
  have "map ?E (map (\<lambda>j. j + 2 ^ k) [0..<2 ^ k]) = map (\<lambda>w. w XOR ?E (2 ^ k)) (map ?E [0..<2 ^ k])"
    unfolding map_map comp_def
  proof (rule map_cong [OF refl])
    fix j assume "j \<in> set [0..<2 ^ k]"
    then have "(of_nat (j + 2 ^ k) :: u32) = of_nat j XOR of_nat (2 ^ k)"
      using of_nat_xor_pow [of j k] by (simp only: add.commute) simp
    then show "?E (j + 2 ^ k) = ?E j XOR ?E (2 ^ k)" by (simp only: crc_bits_xor)
  qed
  then show ?thesis by (simp only: u map_append double_def)
qed

lemma crc32_table_nth:
  assumes "i < 256"
  shows "crc32_table ! i = (crc_bit ^^ 8) (of_nat i)"
proof -
  have e: "(crc_bit ^^ 8) 1 = 0x77073096" "(crc_bit ^^ 8) 2 = 0xee0e612c" "(crc_bit ^^ 8) 4 = 0x076dc419"
      "(crc_bit ^^ 8) 8 = 0x0edb8832" "(crc_bit ^^ 8) 16 = 0x1db71064" "(crc_bit ^^ 8) 32 = 0x3b6e20c8"
      "(crc_bit ^^ 8) 64 = 0x76dc4190" "(crc_bit ^^ 8) 128 = 0xedb88320"
    by code_simp+
  let ?E = "\<lambda>i :: nat. (crc_bit ^^ 8) (of_nat i)"
  have T: "map ?E [0..<2 ^ n] = foldl double (map ?E [0..<2 ^ 0]) (map (\<lambda>k. ?E (2 ^ k)) [0..<n])" for n
    by (induction n) (simp, simp only: crc_entries_double upt_Suc_append le0 map_append foldl_append list.map foldl.simps)
  have "(crc_bit ^^ 8) 0 = 0" by code_simp
  then have "map ?E [0..<2 ^ 0] = [0]" by simp
  moreover have "map (\<lambda>k. ?E (2 ^ k)) [0..<8] = [0x77073096, 0xee0e612c, 0x076dc419, 0x0edb8832,
      0x1db71064, 0x3b6e20c8, 0x76dc4190, 0xedb88320]"
    by (simp add: upt_rec e)
  ultimately have "map ?E [0..<2 ^ 8] = crc32_table"
    using T [of 8] by (simp only: crc32_table_double)
  moreover have "i < length [0..<2 ^ 8]" "[0..<2 ^ 8] ! i = i" using assms by simp_all
  ultimately show ?thesis by (metis nth_map)
qed

section \<open>The step as polynomial division, and its injectivity\<close>

lemma crc_bit_shift: "\<not> bit w 0 \<Longrightarrow> crc_bit w = drop_bit 1 w"
  by (simp add: crc_bit_def)

lemma crc_bits_shift:
  assumes "\<And>i. i < n \<Longrightarrow> \<not> bit w i"
  shows "(crc_bit ^^ n) w = drop_bit n w"
  using assms
proof (induction n)
  case (Suc n)
  have "\<not> bit (drop_bit n w) 0" using Suc.prems [of n] by (simp add: bit_drop_bit_eq del: bit_0)
  then show ?case using Suc by (simp add: crc_bit_shift drop_bit_drop_bit del: bit_0)
qed simp

text \<open>The table-driven step is the bitwise one.\<close>

lemma crc_step_bits: "crc_step crc b = crc_bits crc b"
proof -
  let ?y = "crc XOR ucast b" and ?m = "mask 8 :: u32"
  have m: "(0xff :: u32) = ?m" by (simp add: mask_eq_exp_minus_1)
  have "?y = (?y AND ?m) XOR (?y AND NOT ?m)"
    by (rule bit_word_eqI) (auto simp: bit_simps)
  then have "(crc_bit ^^ 8) ?y = (crc_bit ^^ 8) (?y AND ?m) XOR (crc_bit ^^ 8) (?y AND NOT ?m)"
    by (metis crc_bits_xor)
  also have "(crc_bit ^^ 8) (?y AND NOT ?m) = drop_bit 8 (?y AND NOT ?m)"
    by (rule crc_bits_shift) (simp add: bit_simps)
  also have "drop_bit 8 (?y AND NOT ?m) = drop_bit 8 crc"
    by (rule bit_word_eqI) (auto simp: bit_simps dest: bit_imp_le_length)
  also have "(crc_bit ^^ 8) (?y AND ?m) = crc32_table ! unat (?y AND ?m)"
  proof -
    have "unat (?y AND ?m) = take_bit 8 (unat ?y)"
      by (simp only: take_bit_eq_mask [symmetric] unsigned_take_bit_eq)
    also have "\<dots> < 256" by (simp add: take_bit_eq_mod)
    finally show ?thesis by (simp add: crc32_table_nth)
  qed
  finally show ?thesis by (simp only: crc_step_def crc_bits_def m)
qed

lemma xor_cancel: "a XOR c = b XOR c \<Longrightarrow> a = b" for a b c :: "'a::len word"
proof -
  assume "a XOR c = b XOR c"
  then have "(a XOR c) XOR c = (b XOR c) XOR c" by simp
  then show "a = b" by (simp add: xor.assoc)
qed

lemma crc_bit_inj: "crc_bit a = crc_bit b \<Longrightarrow> a = b"
proof -
  assume eq: "crc_bit a = crc_bit b"
  have top: "bit (crc_bit w) 31 \<longleftrightarrow> bit w 0" for w
  proof -
    have "\<not> bit (drop_bit 1 w) 31" by (auto simp: bit_drop_bit_eq dest: bit_imp_le_length)
    moreover have "bit (0xEDB88320 :: u32) 31" by simp
    ultimately show ?thesis unfolding crc_bit_def by (simp add: bit_xor_iff del: bit_0)
  qed
  have b0: "bit a 0 = bit b 0" using eq top by metis
  have "drop_bit 1 a = drop_bit 1 b"
    using eq b0 unfolding crc_bit_def by (auto dest: xor_cancel simp del: bit_0 split: if_splits)
  then have s: "bit a (Suc n) = bit b (Suc n)" for n
    by (metis bit_drop_bit_eq comp_apply plus_1_eq_Suc)
  show "a = b"
  proof (rule bit_word_eqI)
    fix n show "bit a n = bit b n" using b0 s by (cases n) blast+
  qed
qed

lemma crc_bits_inj: "(crc_bit ^^ n) a = (crc_bit ^^ n) b \<Longrightarrow> a = b"
  by (induction n) (auto dest: crc_bit_inj)

lemma crc_step_inj_state: "crc_step s b = crc_step s' b \<Longrightarrow> s = s'"
  unfolding crc_step_bits crc_bits_def
  by (drule crc_bits_inj) (rule xor_cancel)

lemma crc_step_inj_byte: "crc_step s b = crc_step s b' \<Longrightarrow> b = b'"
proof -
  assume "crc_step s b = crc_step s b'"
  then have "s XOR ucast b = s XOR ucast b'" unfolding crc_step_bits crc_bits_def by (rule crc_bits_inj)
  then have "(ucast b :: u32) = ucast b'" 
    by (subst (asm) (1 2) xor.commute) (rule xor_cancel)
  then have "ucast (ucast b :: u32) = (ucast (ucast b' :: u32) :: byte)" by simp
  moreover have "ucast (ucast x :: u32) = x" for x :: byte
    by (rule bit_word_eqI) (auto simp: bit_simps)
  ultimately show "b = b'" by simp
qed

lemma crc32_write_append: "crc32_write c (xs @ ys) = crc32_write (crc32_write c xs) ys"
  by (simp add: crc32_write_def)

lemma crc32_write_inj: "crc32_write c xs = crc32_write c' xs \<Longrightarrow> c = c'"
  by (induction xs arbitrary: c c') (auto simp: crc32_write_def dest: crc_step_inj_state)

text \<open>C19: the table-driven routine computes the bitwise CRC-32 of the reflected polynomial \<open>0xEDB88320\<close>
  (all 256 entries of the table are right), and changing one byte of the data, wherever it stands,
  changes the checksum.\<close>

theorem crc32_correct:
  "crc32_write c data = foldl crc_bits c data \<and>
   (b \<noteq> b' \<longrightarrow> crc_get (crc32_write c (xs @ b # ys)) \<noteq> crc_get (crc32_write c (xs @ b' # ys)))"
proof
  show "crc32_write c data = foldl crc_bits c data"
    unfolding crc32_write_def by (rule foldl_cong) (simp_all add: crc_step_bits)
  show "b \<noteq> b' \<longrightarrow> crc_get (crc32_write c (xs @ b # ys)) \<noteq> crc_get (crc32_write c (xs @ b' # ys))"
  proof (intro impI notI)
    assume ne: "b \<noteq> b'" and "crc_get (crc32_write c (xs @ b # ys)) = crc_get (crc32_write c (xs @ b' # ys))"
    then have "crc32_write (crc_step (crc32_write c xs) b) ys = crc32_write (crc_step (crc32_write c xs) b') ys"
      unfolding crc_get_def crc32_write_append by (simp add: crc32_write_def)
    then have "crc_step (crc32_write c xs) b = crc_step (crc32_write c xs) b'" by (rule crc32_write_inj)
    with ne show False by (auto dest: crc_step_inj_byte)
  qed
qed

theorem crc32_correct_witness:
  "crc_get (crc32_write newCrc32 [1, 2, 3]) \<noteq> crc_get (crc32_write newCrc32 [1, 4, 3])"
  using crc32_correct [where c = newCrc32 and data = "[]" and b = 2 and b' = 4 and xs = "[1]" and ys = "[3]"]
  by simp

end
