(* ===== verification/DataFile.thy ===== *)
theory DataFile
  imports Item Crc32
begin

text \<open>
  Data files (\<open>store/datafile.go\<close>): the 24-byte record header and its checksum, appending a record
  padded to 256 bytes, reading a record at an offset, and the sequential reader with its recovery
  from damaged records.  A file is its bytes; a read past the end is an error; memory comes from
  \<open>Cmem\<close>, whose counters are threaded through.  The lemmas show that what is appended is read back,
  that a scan of a written file yields its records in order, that damage to a byte is noticed
  and that recovery finds the first readable record.
\<close>

unbundle bit_operations_syntax

section \<open>Definitions\<close>

definition recHeaderSize :: nat where "recHeaderSize = 24"
definition PADDING :: u32 where "PADDING = 256"

record WriteRecord =
  wr_rec :: Record
  wr_crc :: u32
  wr_ksz :: u32
  wr_vsz :: u32
  wr_pos :: Position
  wr_header :: bytes

definition zero_payload :: Payload where
  "zero_payload = \<lparr>TS = 0, Flag = 0, Ver = 0, ValueHash = 0, RecSize = 0, carr = nil_array\<rparr>"

definition newWriteRecord :: WriteRecord where
  "newWriteRecord = \<lparr>wr_rec = \<lparr>rKey = [], rPayload = zero_payload\<rparr>, wr_crc = 0, wr_ksz = 0, wr_vsz = 0,
     wr_pos = \<lparr>ChunkID = 0, Offset = 0\<rparr>, wr_header = replicate recHeaderSize 0\<rparr>"

definition wrapRecord :: "Record \<Rightarrow> WriteRecord" where
  "wrapRecord rec = \<lparr>wr_rec = rec\<lparr>rPayload := rPayload rec\<lparr>RecSize := snd (Sizes rec)\<rparr>\<rparr>, wr_crc = 0,
     wr_ksz = of_nat (length (rKey rec)), wr_vsz = of_nat (length (pBody (rPayload rec))),
     wr_pos = \<lparr>ChunkID = 0, Offset = 0\<rparr>, wr_header = replicate recHeaderSize 0\<rparr>"

definition getCRC :: "WriteRecord \<Rightarrow> u32" where
  "getCRC w =
     (let h0 = crc32_write newCrc32 (drop 4 (wr_header w));
          h1 = (if rKey (wr_rec w) \<noteq> [] then crc32_write h0 (rKey (wr_rec w)) else h0);
          h2 = (if pBody (rPayload (wr_rec w)) \<noteq> [] then crc32_write h1 (pBody (rPayload (wr_rec w))) else h1)
      in crc_get h2)"

definition encodeHeader :: "WriteRecord \<Rightarrow> WriteRecord" where
  "encodeHeader w =
     (let p = rPayload (wr_rec w);
          h1 = write_at 4 (put_le 4 (TS p)) (wr_header w);
          h2 = write_at 8 (put_le 4 (Flag p)) h1;
          h3 = write_at 12 (put_le 4 (Ver p)) h2;
          h4 = write_at 16 (put_le 4 (wr_ksz w)) h3;
          h5 = write_at 20 (put_le 4 (wr_vsz w)) h4;
          crc = getCRC (w\<lparr>wr_header := h5\<rparr>)
      in w\<lparr>wr_header := write_at 0 (put_le 4 crc) h5\<rparr>)"

definition decodeHeader :: "WriteRecord \<Rightarrow> bytes \<Rightarrow> WriteRecord" where
  "decodeHeader w h =
     w\<lparr>wr_crc := get_le (slice 0 4 h),
       wr_rec := (wr_rec w)\<lparr>rPayload := (rPayload (wr_rec w))\<lparr>TS := get_le (slice 4 8 h),
         Flag := get_le (slice 8 12 h), Ver := get_le (slice 12 16 h)\<rparr>\<rparr>,
       wr_ksz := get_le (slice 16 20 h), wr_vsz := get_le (slice 20 24 h)\<rparr>"

text \<open>\<open>WriteRecord.decode\<close> starts by calling itself; a call that returns is a value of \<open>option\<close>.\<close>

partial_function (option) wr_decode :: "WriteRecord \<Rightarrow> bytes \<Rightarrow> (WriteRecord \<times> StoreErr option) option" where
  "wr_decode w data = do {
     (w0, _) \<leftarrow> wr_decode w data;
     let w1 = decodeHeader w0 data;
     let k = recHeaderSize + unat (wr_ksz w1);
     let w2 = w1\<lparr>wr_rec := (wr_rec w1)\<lparr>rKey := slice recHeaderSize k data,
       rPayload := (rPayload (wr_rec w1))\<lparr>carr := (carr (rPayload (wr_rec w1)))
         \<lparr>Body := slice k (k + unat (wr_vsz w1)) data\<rparr>\<rparr>\<rparr>\<rparr>;
     Some (w2, if wr_crc w2 \<noteq> getCRC w2 then Some CrcErr else None)
   }"

text \<open>\<open>WriteRecord.append\<close>: the bytes written; no write fails.\<close>

definition wr_append :: "WriteRecord \<Rightarrow> bool \<Rightarrow> bytes \<Rightarrow> bytes \<times> WriteRecord" where
  "wr_append w dopadding buf =
     (let w1 = encodeHeader w; (sz, sizeall) = Sizes (wr_rec w1); npad = sizeall - sz
      in (buf @ wr_header w1 @ rKey (wr_rec w1) @ pBody (rPayload (wr_rec w1))
            @ (if dopadding \<and> npad \<noteq> 0 then replicate (unat npad) 0 else []), w1))"

text \<open>\<open>ReadAt\<close> of a file: fewer bytes than asked for is an error.\<close>

definition ReadAt :: "bytes \<Rightarrow> nat \<Rightarrow> nat \<Rightarrow> bytes option" where
  "ReadAt f off n = (if off + n \<le> length f then Some (slice off (off + n) f) else None)"

text \<open>\<open>readRecordAt\<close>.  Every error frees the payload of the result; when the read of key and value
  fails, the buffer is not yet in the payload and stays allocated.\<close>

definition readRecordAt ::
    "Env \<Rightarrow> bytes \<Rightarrow> u32 \<Rightarrow> BeansdbRL \<Rightarrow> ((StoreErr + WriteRecord) \<times> BeansdbRL) option" where
  "readRecordAt e f offset d =
     (case ReadAt f (unat offset) recHeaderSize of
        None \<Rightarrow> Some (Inl ReadHeadErr, d)
      | Some h \<Rightarrow>
          (let w = decodeHeader (newWriteRecord\<lparr>wr_header := h\<rparr>) h in
           if \<not> IsValidKeySize (mcconf e) (wr_ksz w) then Some (Inl BadKeySize, d)
           else if \<not> IsValidValueSize (mcconf e) (wr_vsz w) then Some (Inl BadValueSize, d)
           else do {
             let kvSize = uint (wr_ksz w + wr_vsz w);
             (r, d1) \<leftarrow> Alloc (mcconf e) (memenv e) kvSize d;
             case r of
               None \<Rightarrow> Some (Inl AllocErr, d1)
             | Some kv \<Rightarrow>
                 (let d2 = d1\<lparr>GetData := AddSizeAndCount (Cap kv) (GetData d1)\<rparr> in
                  if length (Body kv) < unat (wr_ksz w) then None
                  else case ReadAt f (unat offset + recHeaderSize) (length (Body kv)) of
                    None \<Rightarrow> Some (Inl ReadBodyErr, d2\<lparr>GetData := SubSizeAndCount (Cap kv) (GetData d2)\<rparr>)
                  | Some kvb \<Rightarrow>
                      (let p = (rPayload (wr_rec w))\<lparr>carr := kv\<lparr>Body := drop (unat (wr_ksz w)) kvb\<rparr>,
                                RecSize := wr_vsz w\<rparr>;
                           w2 = w\<lparr>wr_rec := \<lparr>rKey = take (unat (wr_ksz w)) kvb, rPayload = p\<rparr>\<rparr>
                       in if wr_crc w2 \<noteq> getCRC w2
                          then Some (Inl CrcErr,
                                 snd (Free (carr p) (d2\<lparr>GetData := SubSizeAndCount (Cap kv) (GetData d2)\<rparr>)))
                          else Some (Inr w2, d2)))
           }))"

text \<open>The sequential reader: the bytes of the file, the position of the buffered reader, \<open>offset\<close>.\<close>

record DataStreamReader =
  sr_file :: bytes
  sr_pos :: nat
  sr_offset :: u32

definition newDataStreamReader :: "bytes \<Rightarrow> DataStreamReader" where
  "newDataStreamReader f = \<lparr>sr_file = f, sr_pos = 0, sr_offset = 0\<rparr>"

text \<open>\<open>seek\<close> is called before the first read, while the read buffer is empty.\<close>

definition sr_seek :: "u32 \<Rightarrow> DataStreamReader \<Rightarrow> DataStreamReader" where
  "sr_seek off s = s\<lparr>sr_pos := unat off, sr_offset := off\<rparr>"

type_synonym NextResult = "Record option \<times> u32 \<times> u32 \<times> StoreErr option"

text \<open>The loop of \<open>nextValid\<close>; it runs out of fuel (\<open>None\<close>) only where \<open>offset2\<close> wraps around.\<close>

fun nextValid_loop ::
    "nat \<Rightarrow> Env \<Rightarrow> u32 \<Rightarrow> u32 \<Rightarrow> DataStreamReader \<Rightarrow> BeansdbRL \<Rightarrow> (NextResult \<times> DataStreamReader \<times> BeansdbRL) option" where
  "nextValid_loop 0 e offset2 sizeBroken s d = None"
| "nextValid_loop (Suc fuel) e offset2 sizeBroken s d =
     (if unat offset2 < length (sr_file s) then do {
        (r, d1) \<leftarrow> readRecordAt e (sr_file s) offset2 d;
        case r of
          Inr w \<Rightarrow>
            (let offset3 = offset2 + snd (Sizes (wr_rec w)) in
             Some ((Some (wr_rec w), offset2, sizeBroken, None),
                   s\<lparr>sr_pos := unat offset3, sr_offset := offset3\<rparr>, d1))
        | Inl _ \<Rightarrow>
            nextValid_loop fuel e (offset2 + 256) (sizeBroken + 256) (s\<lparr>sr_offset := offset2 + 256\<rparr>) d1
      }
      else Some ((None, offset2, sizeBroken, None), s, d))"

definition nextValid ::
    "Env \<Rightarrow> DataStreamReader \<Rightarrow> BeansdbRL \<Rightarrow> (NextResult \<times> DataStreamReader \<times> BeansdbRL) option" where
  "nextValid e s d =
     nextValid_loop (Suc (Suc (length (sr_file s) div 256))) e (sr_offset s AND NOT 0xff) 0 s d"

text \<open>\<open>Next\<close>.  \<open>ReadFull\<close> at the very end of the file is \<open>EOF\<close>, with fewer bytes \<open>UnexpectedEOF\<close>.\<close>

definition Next ::
    "Env \<Rightarrow> DataStreamReader \<Rightarrow> BeansdbRL \<Rightarrow> (NextResult \<times> DataStreamReader \<times> BeansdbRL) option" where
  "Next e s d =
     (let f = sr_file s in
      if length f \<le> sr_pos s then Some ((None, 0, 0, None), s, d)
      else case ReadAt f (sr_pos s) recHeaderSize of
        None \<Rightarrow> Some ((None, 0, 0, Some UnexpectedEOF), s\<lparr>sr_pos := length f\<rparr>, d)
      | Some h \<Rightarrow>
          (let w = decodeHeader (newWriteRecord\<lparr>wr_header := h\<rparr>) h; p1 = sr_pos s + recHeaderSize in
           if \<not> IsValidKeySize (mcconf e) (wr_ksz w) \<or> \<not> IsValidValueSize (mcconf e) (wr_vsz w)
           then nextValid e (s\<lparr>sr_pos := p1\<rparr>) d
           else case ReadAt f p1 (unat (wr_ksz w)) of
             None \<Rightarrow> Some ((None, 0, 0, Some UnexpectedEOF), s\<lparr>sr_pos := length f\<rparr>, d)
           | Some k \<Rightarrow>
               (let p2 = p1 + unat (wr_ksz w) in
                case ReadAt f p2 (unat (wr_vsz w)) of
                  None \<Rightarrow> Some ((None, 0, 0, Some UnexpectedEOF), s\<lparr>sr_pos := length f\<rparr>, d)
                | Some v \<Rightarrow>
                    (let p = (rPayload (wr_rec w))\<lparr>carr := nil_array\<lparr>Body := v\<rparr>\<rparr>;
                         rec = \<lparr>rKey = k, rPayload = p\<rparr>; (real, rsz) = Sizes rec; tail = real AND 0xff;
                         p3 = p2 + unat (wr_vsz w);
                         p4 = (if tail \<noteq> 0 then min (length f) (p3 + unat (PADDING - tail)) else p3);
                         s1 = s\<lparr>sr_pos := p4\<rparr>
                     in if wr_crc w \<noteq> getCRC (w\<lparr>wr_rec := rec\<rparr>) then nextValid e s1 d
                        else Some ((Some (rec\<lparr>rPayload := p\<lparr>RecSize := rsz\<rparr>\<rparr>), sr_offset s, 0, None),
                                   s1\<lparr>sr_offset := sr_offset s + rsz\<rparr>, d)))))"

record DataStreamWriter =
  sw_file :: bytes
  sw_offset :: u32

definition sw_Append :: "Record \<Rightarrow> DataStreamWriter \<Rightarrow> u32 \<times> DataStreamWriter" where
  "sw_Append rec s =
     (let (f, w) = wr_append (wrapRecord rec) True (sw_file s)
      in (sw_offset s, \<lparr>sw_file = f, sw_offset = sw_offset s + RecSize (rPayload (wr_rec w))\<rparr>))"

text \<open>Records that the store accepts: key and value sizes within the limits, and sizes that fit 32 bits.\<close>

definition valid_rec :: "Env \<Rightarrow> Record \<Rightarrow> bool" where
  "valid_rec e r \<longleftrightarrow> IsValidKeySize (mcconf e) (of_nat (length (rKey r))) \<and>
     IsValidValueSize (mcconf e) (of_nat (length (pBody (rPayload r)))) \<and>
     24 + length (rKey r) + length (pBody (rPayload r)) + 255 < 2 ^ 32"

definition rec_head :: "Record \<Rightarrow> bytes" where
  "rec_head r = put_le 4 (TS (rPayload r)) @ put_le 4 (Flag (rPayload r)) @ put_le 4 (Ver (rPayload r))
     @ put_le 4 (of_nat (length (rKey r)) :: u32) @ put_le 4 (of_nat (length (pBody (rPayload r))) :: u32)"

definition rec_crc :: "bytes \<Rightarrow> u32" where
  "rec_crc bs = crc_get (crc32_write newCrc32 bs)"

definition rec_pad :: "Record \<Rightarrow> nat" where
  "rec_pad r = unat (snd (Sizes r) - fst (Sizes r))"

definition rec_bytes :: "Record \<Rightarrow> bytes" where
  "rec_bytes r = fst (wr_append (wrapRecord r) True [])"

text \<open>Memory never fails.\<close>

definition mem_ok :: "Env \<Rightarrow> bool" where
  "mem_ok e \<longleftrightarrow> (\<forall>n. malloc (memenv e) n \<noteq> 0)"

section \<open>The bytes of a record\<close>

lemma wr_decode_never_returns: "wr_decode w data = None"
proof (rule ccontr)
  assume "wr_decode w data \<noteq> None"
  then obtain r where "wr_decode w data = Some r" by blast
  then show False
    by (rule wr_decode.raw_induct [where P = "\<lambda>_ _ _. False", rotated]) (auto split: bind_splits)
qed

lemma crc32_write_Nil [simp]: "crc32_write c [] = c"
  by (simp add: crc32_write_def)

lemma getCRC_bytes:
  "getCRC w = rec_crc (drop 4 (wr_header w) @ rKey (wr_rec w) @ pBody (rPayload (wr_rec w)))"
  by (simp add: getCRC_def rec_crc_def crc32_write_append Let_def)

lemma length_rec_head [simp]: "length (rec_head r) = 20"
  by (simp add: rec_head_def)

lemma header_writes:
  assumes "length a = 4" "length b = 4" "length c = 4" "length d = 4" "length x = 4"
  shows "write_at 20 x (write_at 16 d (write_at 12 c (write_at 8 b (write_at 4 a (replicate 24 0)))))
    = replicate 4 0 @ a @ b @ c @ d @ x"
  using assms by (simp add: write_at_def)

lemma Sizes_RecSize [simp]: "Sizes (r\<lparr>rPayload := (rPayload r)\<lparr>RecSize := n\<rparr>\<rparr>) = Sizes r"
  by (simp add: Sizes_def)

lemma encodeHeader_wrap:
  "wr_header (encodeHeader (wrapRecord r)) =
     put_le 4 (rec_crc (rec_head r @ rKey r @ pBody (rPayload r))) @ rec_head r"
  "wr_rec (encodeHeader (wrapRecord r)) = r\<lparr>rPayload := (rPayload r)\<lparr>RecSize := snd (Sizes r)\<rparr>\<rparr>"
proof -
  let ?w = "wrapRecord r"
  have h: "write_at 20 (put_le 4 (wr_vsz ?w)) (write_at 16 (put_le 4 (wr_ksz ?w))
      (write_at 12 (put_le 4 (Ver (rPayload (wr_rec ?w)))) (write_at 8 (put_le 4 (Flag (rPayload (wr_rec ?w))))
       (write_at 4 (put_le 4 (TS (rPayload (wr_rec ?w)))) (wr_header ?w)))))
     = replicate 4 0 @ rec_head r"
    by (simp only: wrapRecord_def WriteRecord.select_convs recHeaderSize_def)
      (subst header_writes, simp_all add: rec_head_def)
  show "wr_header (encodeHeader (wrapRecord r)) =
      put_le 4 (rec_crc (rec_head r @ rKey r @ pBody (rPayload r))) @ rec_head r"
    unfolding encodeHeader_def Let_def h getCRC_bytes by (simp add: write_at_def wrapRecord_def)
  show "wr_rec (encodeHeader (wrapRecord r)) = r\<lparr>rPayload := (rPayload r)\<lparr>RecSize := snd (Sizes r)\<rparr>\<rparr>"
    by (simp add: encodeHeader_def Let_def wrapRecord_def)
qed

lemma wr_append_bytes:
  "wr_append (wrapRecord r) True buf =
     (buf @ put_le 4 (rec_crc (rec_head r @ rKey r @ pBody (rPayload r))) @ rec_head r @ rKey r
        @ pBody (rPayload r) @ replicate (rec_pad r) 0, encodeHeader (wrapRecord r))"
  by (simp add: wr_append_def Let_def encodeHeader_wrap rec_pad_def case_prod_beta)

lemma rec_bytes_eq:
  "rec_bytes r = put_le 4 (rec_crc (rec_head r @ rKey r @ pBody (rPayload r))) @ rec_head r @ rKey r
     @ pBody (rPayload r) @ replicate (rec_pad r) 0"
  by (simp add: rec_bytes_def wr_append_bytes)

lemma rec_pad_nat:
  assumes "24 + length (rKey r) + length (pBody (rPayload r)) + 255 < 2 ^ 32"
  defines "n \<equiv> 24 + length (rKey r) + length (pBody (rPayload r))"
  shows "rec_pad r = (n + 255) div 256 * 256 - n" "n \<le> (n + 255) div 256 * 256"
    "unat (snd (Sizes r)) = n + rec_pad r"
proof -
  note S = Sizes_unat [OF assms(1)]
  show le: "n \<le> (n + 255) div 256 * 256" by simp
  then have "fst (Sizes r) \<le> snd (Sizes r)" using S by (simp add: word_le_nat_alt n_def)
  then show p: "rec_pad r = (n + 255) div 256 * 256 - n"
    using S by (simp add: rec_pad_def unat_sub n_def)
  show "unat (snd (Sizes r)) = n + rec_pad r" using p le S by (simp add: n_def)
qed

lemma length_rec_bytes:
  assumes "valid_rec e r"
  shows "length (rec_bytes r) = unat (snd (Sizes r))" "length (rec_bytes r) mod 256 = 0"
proof -
  have v: "24 + length (rKey r) + length (pBody (rPayload r)) + 255 < 2 ^ 32"
    using assms by (simp add: valid_rec_def)
  show l: "length (rec_bytes r) = unat (snd (Sizes r))"
    using rec_pad_nat(3) [OF v] by (simp add: rec_bytes_eq)
  show "length (rec_bytes r) mod 256 = 0" using Sizes_unat(2) [OF v] by (simp add: l)
qed

section \<open>Reading a record back\<close>

lemma valid_sizes:
  assumes "valid_rec e r"
  shows "unat (of_nat (length (rKey r)) :: u32) = length (rKey r)"
    "unat (of_nat (length (pBody (rPayload r))) :: u32) = length (pBody (rPayload r))"
    "unat (of_nat (length (rKey r)) + of_nat (length (pBody (rPayload r))) :: u32) =
       length (rKey r) + length (pBody (rPayload r))"
proof -
  have "length (rKey r) + length (pBody (rPayload r)) < 2 ^ 32" using assms by (simp add: valid_rec_def)
  then show "unat (of_nat (length (rKey r)) :: u32) = length (rKey r)"
    "unat (of_nat (length (pBody (rPayload r))) :: u32) = length (pBody (rPayload r))"
    "unat (of_nat (length (rKey r)) + of_nat (length (pBody (rPayload r))) :: u32) =
       length (rKey r) + length (pBody (rPayload r))"
    by (simp_all add: unsigned_of_nat take_bit_nat_eq_self flip: of_nat_add)
qed

text \<open>A file that holds, at \<open>off\<close>, four bytes of checksum, a header with the sizes of \<open>key\<close> and \<open>body\<close>, and
  these: what \<open>readRecordAt\<close> returns is decided by the checksum.\<close>

lemma readRecordAt_layout:
  fixes ksz vsz :: u32
  assumes f: "f = pre @ cb @ hb @ kv @ suf" "length pre = unat off" "length cb = 4" "length hb = 20"
    and hb: "drop 12 hb = put_le 4 ksz @ put_le 4 vsz"
    and kv: "length kv = unat (ksz + vsz)" "unat ksz \<le> length kv"
    and ok: "IsValidKeySize (mcconf e) ksz" "IsValidValueSize (mcconf e) vsz" "mem_ok e"
  shows "\<exists>w d'. readRecordAt e f off d =
      Some (if get_le cb = rec_crc (hb @ kv) then Inr w else Inl CrcErr, d') \<and>
    rKey (wr_rec w) = take (unat ksz) kv \<and> pBody (rPayload (wr_rec w)) = drop (unat ksz) kv \<and>
    TS (rPayload (wr_rec w)) = get_le (slice 0 4 hb) \<and> Flag (rPayload (wr_rec w)) = get_le (slice 4 8 hb) \<and>
    Ver (rPayload (wr_rec w)) = get_le (slice 8 12 hb)"
proof -
  let ?h = "cb @ hb"
  have h: "ReadAt f (unat off) recHeaderSize = Some ?h"
    using f by (simp add: ReadAt_def recHeaderSize_def slice_def)
  have b: "ReadAt f (unat off + recHeaderSize) (length kv) = Some kv"
    using f by (simp add: ReadAt_def recHeaderSize_def slice_def)
  have d: "get_le (slice 16 20 ?h) = ksz" "get_le (slice 20 24 ?h) = vsz"
  proof -
    have "drop 16 hb = drop 4 (drop 12 hb)" by simp
    then have "drop 16 ?h = put_le 4 ksz @ put_le 4 vsz" "drop 20 ?h = put_le 4 vsz"
      using f(3) unfolding hb by (simp_all add: hb)
    then show "get_le (slice 16 20 ?h) = ksz" "get_le (slice 20 24 ?h) = vsz" by (simp_all add: slice_def)
  qed
  let ?w = "decodeHeader (newWriteRecord\<lparr>wr_header := ?h\<rparr>) ?h"
  have w: "wr_ksz ?w = ksz" "wr_vsz ?w = vsz" "wr_header ?w = ?h" "wr_crc ?w = get_le cb"
    using d f(3) by (simp_all add: decodeHeader_def slice_def)
  obtain a d1 where al: "Alloc (mcconf e) (memenv e) (uint (ksz + vsz)) d = Some (Some a, d1)"
    using ok(3) by (cases "uint (ksz + vsz) \<le> BodyInC (mcconf e)") (auto simp: Alloc_def mem_ok_def)
  have la: "length (Body a) = length kv" using Alloc_length [OF al] kv(1) by (simp flip: of_nat_eq_iff [where 'a = int])
  define w2 where "w2 = ?w\<lparr>wr_rec := \<lparr>rKey = take (unat ksz) kv,
      rPayload = (rPayload (wr_rec ?w))\<lparr>carr := a\<lparr>Body := drop (unat ksz) kv\<rparr>, RecSize := vsz\<rparr>\<rparr>\<rparr>"
  have crc: "getCRC w2 = rec_crc (hb @ kv)" "wr_crc w2 = get_le cb"
    using w(3,4) f(3) by (simp_all add: getCRC_bytes w2_def)
  have "\<exists>d'. readRecordAt e f off d = Some (if get_le cb = rec_crc (hb @ kv) then Inr w2 else Inl CrcErr, d')"
    using h b w ok al la kv crc unfolding readRecordAt_def
    by (simp add: Let_def w2_def [symmetric])
  moreover have "rKey (wr_rec w2) = take (unat ksz) kv" "pBody (rPayload (wr_rec w2)) = drop (unat ksz) kv"
    "TS (rPayload (wr_rec w2)) = get_le (slice 0 4 hb)" "Flag (rPayload (wr_rec w2)) = get_le (slice 4 8 hb)"
    "Ver (rPayload (wr_rec w2)) = get_le (slice 8 12 hb)"
    using f(3) by (simp_all add: w2_def decodeHeader_def slice_def)
  ultimately show ?thesis by blast
qed

lemma valid_rec_layout:
  assumes "valid_rec e r"
  defines "ksz \<equiv> of_nat (length (rKey r)) :: u32" and "vsz \<equiv> of_nat (length (pBody (rPayload r))) :: u32"
  shows "drop 12 (rec_head r) = put_le 4 ksz @ put_le 4 vsz"
    "length (rKey r @ pBody (rPayload r)) = unat (ksz + vsz)"
    "unat ksz \<le> length (rKey r @ pBody (rPayload r))" "unat ksz = length (rKey r)"
    "IsValidKeySize (mcconf e) ksz" "IsValidValueSize (mcconf e) vsz"
    "get_le (slice 0 4 (rec_head r)) = TS (rPayload r)" "get_le (slice 4 8 (rec_head r)) = Flag (rPayload r)"
    "get_le (slice 8 12 (rec_head r)) = Ver (rPayload r)"
  using valid_sizes [OF assms(1)] assms(1)
  by (simp_all add: ksz_def vsz_def valid_rec_def rec_head_def slice_def)

lemma readRecordAt_rec:
  assumes "valid_rec e r" "mem_ok e" "length pre = unat off"
  shows "\<exists>w d'. readRecordAt e (pre @ rec_bytes r @ suf) off d = Some (Inr w, d') \<and>
    rKey (wr_rec w) = rKey r \<and> pBody (rPayload (wr_rec w)) = pBody (rPayload r) \<and>
    TS (rPayload (wr_rec w)) = TS (rPayload r) \<and> Flag (rPayload (wr_rec w)) = Flag (rPayload r) \<and>
    Ver (rPayload (wr_rec w)) = Ver (rPayload r)"
proof -
  note L = valid_rec_layout [OF assms(1)]
  let ?kv = "rKey r @ pBody (rPayload r)"
  have f: "pre @ rec_bytes r @ suf = pre @ put_le 4 (rec_crc (rec_head r @ ?kv)) @ rec_head r @ ?kv
      @ (replicate (rec_pad r) 0 @ suf)"
    by (simp add: rec_bytes_eq)
  have c: "get_le (put_le 4 (rec_crc (rec_head r @ ?kv))) = rec_crc (rec_head r @ ?kv)" by simp
  from readRecordAt_layout [OF f assms(3) _ _ L(1-3,5,6) assms(2), of d] L(4,7-9)
  show ?thesis unfolding c by simp
qed

text \<open>C20: a record that the store accepts, appended to a data file (by a stream writer at its current offset),
  is read back by \<open>readRecordAt\<close> at the offset the append returned, with the same key, value, flag,
  version and timestamp, whatever is appended after it.  The offset is below 4 GB and memory is
  available.\<close>

theorem append_read_roundtrip:
  assumes "valid_rec e r" and "mem_ok e" and "unat (sw_offset s) = length (sw_file s)"
    and "sw_Append r s = (off, s')"
  shows "off = sw_offset s \<and> (\<exists>w d'. readRecordAt e (sw_file s' @ later) off d = Some (Inr w, d') \<and>
    rKey (wr_rec w) = rKey r \<and> pBody (rPayload (wr_rec w)) = pBody (rPayload r) \<and>
    TS (rPayload (wr_rec w)) = TS (rPayload r) \<and> Flag (rPayload (wr_rec w)) = Flag (rPayload r) \<and>
    Ver (rPayload (wr_rec w)) = Ver (rPayload r))"
proof -
  have s: "off = sw_offset s" "sw_file s' = sw_file s @ rec_bytes r"
    using assms(4) by (auto simp: sw_Append_def wr_append_bytes rec_bytes_eq)
  then show ?thesis
    using readRecordAt_rec [OF assms(1,2), of "sw_file s" "sw_offset s" later d] assms(3) by simp
qed

lemma rec_crc_change:
  assumes "i < length bs" "bs ! i \<noteq> b"
  shows "rec_crc (bs[i := b]) \<noteq> rec_crc bs"
proof
  assume eq: "rec_crc (bs[i := b]) = rec_crc bs"
  have "bs = take i bs @ bs ! i # drop (Suc i) bs" using assms(1) by (rule id_take_nth_drop)
  moreover have "bs[i := b] = take i bs @ b # drop (Suc i) bs" using assms(1) by (rule upd_conv_take_nth_drop)
  ultimately have "crc32_write newCrc32 (take i bs @ b # drop (Suc i) bs) =
      crc32_write newCrc32 (take i bs @ bs ! i # drop (Suc i) bs)"
    using eq by (simp add: rec_crc_def crc_get_def)
  then have "crc_step (crc32_write newCrc32 (take i bs)) b = crc_step (crc32_write newCrc32 (take i bs)) (bs ! i)"
    unfolding crc32_write_append by (simp add: crc32_write_def crc32_write_inj [unfolded crc32_write_def])
  then show False using assms(2) by (auto dest: crc_step_inj_byte)
qed

text \<open>C21: damage to a stored byte is noticed: after any single byte of a record's checksum, timestamp, flag,
  version, key or value has changed, reading the record is a checksum error and never returns wrong
  data.\<close>

theorem damaged_byte_rejected:
  assumes "valid_rec e r" and "mem_ok e" and "length pre = unat off"
    and "i < 16 \<or> (24 \<le> i \<and> i < 24 + length (rKey r) + length (pBody (rPayload r)))"
    and "rec_bytes r ! i \<noteq> b"
  shows "\<exists>d'. readRecordAt e (pre @ (rec_bytes r)[i := b] @ suf) off d = Some (Inl CrcErr, d')"
proof -
  note L = valid_rec_layout [OF assms(1)]
  let ?kv = "rKey r @ pBody (rPayload r)" and ?pad = "replicate (rec_pad r) (0 :: byte)"
  let ?c = "rec_crc (rec_head r @ ?kv)"
  have f: "rec_bytes r = put_le 4 ?c @ (rec_head r @ ?kv) @ ?pad" by (simp add: rec_bytes_eq)
  show ?thesis
  proof (cases "i < 4")
    case True
    let ?cb = "(put_le 4 ?c)[i := b]"
    have fi: "pre @ (rec_bytes r)[i := b] @ suf = pre @ ?cb @ rec_head r @ ?kv @ (?pad @ suf)"
      using True by (simp add: f list_update_append)
    have "get_le ?cb \<noteq> ?c"
    proof
      assume "get_le ?cb = ?c"
      then have "put_le (length ?cb) (get_le ?cb :: u32) = put_le 4 ?c" by simp
      then have "?cb = put_le 4 ?c" by (subst (asm) put_get_le) simp_all
      moreover have "put_le 4 ?c ! i \<noteq> b" using assms(5) True by (simp add: f nth_append)
      ultimately show False using True by (metis length_put_le nth_list_update_eq)
    qed
    with readRecordAt_layout [OF fi assms(3) _ _ L(1-3,5,6) assms(2), of d] show ?thesis by auto
  next
    case False
    let ?m = "rec_head r @ ?kv" and ?j = "i - 4"
    have j1: "?j < length ?m" using assms(4) False by auto
    have "rec_bytes r ! i = (?m @ ?pad) ! ?j"
      unfolding f nth_append [of "put_le 4 ?c"] using False by (simp only: length_put_le if_False)
    also have "\<dots> = ?m ! ?j" by (simp only: nth_append [of ?m] j1 if_True)
    finally have j: "?j < length ?m" "?m ! ?j \<noteq> b" using j1 assms(5) by simp_all
    have fi: "pre @ (rec_bytes r)[i := b] @ suf = pre @ put_le 4 ?c @ ?m[?j := b] @ (?pad @ suf)"
    proof -
      have "(rec_bytes r)[i := b] = put_le 4 ?c @ (?m @ ?pad)[?j := b]"
        unfolding f list_update_append [of "put_le 4 ?c"] using False by (simp only: length_put_le if_False)
      also have "(?m @ ?pad)[?j := b] = ?m[?j := b] @ ?pad"
        by (rule list_update_append1 [OF j(1)])
      finally show ?thesis by simp
    qed
    have crc: "rec_crc (?m[?j := b]) \<noteq> ?c" by (rule rec_crc_change [OF j])
    show ?thesis
    proof (cases "i < 16")
      case True
      let ?hb = "(rec_head r)[?j := b]"
      have m: "?m[?j := b] = ?hb @ ?kv" using True by (intro list_update_append1) simp
      have hb: "drop 12 ?hb = put_le 4 (of_nat (length (rKey r)) :: u32) @ put_le 4 (of_nat (length (pBody (rPayload r))) :: u32)"
        using True L(1) by (simp add: drop_update_cancel)
      have fi': "pre @ (rec_bytes r)[i := b] @ suf = pre @ put_le 4 ?c @ ?hb @ ?kv @ (?pad @ suf)"
        using fi m by simp
      from readRecordAt_layout [OF fi' assms(3) _ _ hb L(2,3,5,6) assms(2), of d] crc m
      show ?thesis by auto
    next
      case ge: False
      then have i: "24 \<le> i" using assms(4) by auto
      let ?kv' = "?kv[i - 24 := b]"
      have "\<not> ?j < length (rec_head r)" "?j - length (rec_head r) = i - 24" using i by simp_all
      then have m: "?m[?j := b] = rec_head r @ ?kv'"
        unfolding list_update_append [of "rec_head r"] by (simp only: if_False)
      have fi': "pre @ (rec_bytes r)[i := b] @ suf = pre @ put_le 4 ?c @ rec_head r @ ?kv' @ (?pad @ suf)"
        using fi m by simp
      have l: "length ?kv' = length ?kv" by simp
      from readRecordAt_layout [OF fi' assms(3) _ _ L(1) _ _ L(5,6) assms(2), of d] L(2,3) l crc m
      show ?thesis by auto
    qed
  qed
qed

section \<open>Scanning a file\<close>

text \<open>What \<open>Next\<close> returns for a record: the stored fields, the size on disk, and a body in Go memory.\<close>

definition scanned :: "Record \<Rightarrow> Record" where
  "scanned r = \<lparr>rKey = rKey r, rPayload = \<lparr>TS = TS (rPayload r), Flag = Flag (rPayload r), Ver = Ver (rPayload r),
     ValueHash = 0, RecSize = snd (Sizes r), carr = \<lparr>Body = pBody (rPayload r), Addr = 0, Cap = 0\<rparr>\<rparr>\<rparr>"

fun scan_all ::
    "nat \<Rightarrow> Env \<Rightarrow> DataStreamReader \<Rightarrow> BeansdbRL \<Rightarrow> ((Record \<times> u32) list \<times> StoreErr option \<times> BeansdbRL) option" where
  "scan_all 0 e s d = None"
| "scan_all (Suc n) e s d = do {
     ((res, off, _, err), s', d') \<leftarrow> Next e s d;
     case (res, err) of
       (Some r, None) \<Rightarrow> do { (rs, err', d'') \<leftarrow> scan_all n e s' d'; Some ((r, off) # rs, err', d'') }
     | _ \<Rightarrow> Some ([], err, d')
   }"

fun with_offsets :: "u32 \<Rightarrow> Record list \<Rightarrow> (Record \<times> u32) list" where
  "with_offsets off [] = []"
| "with_offsets off (r # rs) = (scanned r, off) # with_offsets (off + snd (Sizes r)) rs"

lemma align_gap:
  fixes n :: nat
  shows "(n + 255) div 256 * 256 - n = (if n mod 256 = 0 then 0 else 256 - n mod 256)"
proof -
  define q m where "q = n div 256" and "m = n mod 256"
  have n: "n = 256 * q + m" "m < 256" by (simp_all add: q_def m_def)
  then have "(n + 255) div 256 = q + (m + 255) div 256" by simp
  moreover have "(m + 255) div 256 = (if m = 0 then 0 else 1)" using n(2) by auto
  ultimately show ?thesis using n by (auto simp: m_def [symmetric])
qed

lemma tail_pad:
  assumes "24 + length (rKey r) + length (pBody (rPayload r)) + 255 < 2 ^ 32"
  shows "rec_pad r = (if fst (Sizes r) AND 0xff \<noteq> 0 then unat (PADDING - (fst (Sizes r) AND 0xff)) else 0)"
proof -
  let ?n = "24 + length (rKey r) + length (pBody (rPayload r))"
  have m: "unat (fst (Sizes r) AND 0xff) = ?n mod 256"
  proof -
    have "(0xff :: u32) = mask 8" by (simp add: mask_eq_exp_minus_1)
    then have "unat (fst (Sizes r) AND 0xff) = take_bit 8 (unat (fst (Sizes r)))"
      by (simp only: take_bit_eq_mask [symmetric] unsigned_take_bit_eq)
    then show ?thesis by (simp add: Sizes_unat(1) [OF assms] take_bit_eq_mod)
  qed
  have p: "rec_pad r = (?n + 255) div 256 * 256 - ?n" using rec_pad_nat(1) [OF assms] .
  show ?thesis
  proof (cases "?n mod 256 = 0")
    case True
    then have "fst (Sizes r) AND 0xff = 0" using m by (metis unat_eq_zero)
    then show ?thesis using p True align_gap [of ?n] by simp
  next
    case False
    then have "fst (Sizes r) AND 0xff \<noteq> 0" using m by auto
    moreover have "unat (PADDING - (fst (Sizes r) AND 0xff)) = 256 - ?n mod 256"
    proof -
      have "fst (Sizes r) AND 0xff \<le> PADDING" using m by (simp add: word_le_nat_alt PADDING_def)
      then show ?thesis using m by (simp add: unat_sub PADDING_def)
    qed
    ultimately show ?thesis using p False align_gap [of ?n] by simp
  qed
qed

lemma Next_rec:
  assumes "valid_rec e r" "sr_file s = pre @ rec_bytes r @ suf" "sr_pos s = length pre"
  shows "Next e s d = Some ((Some (scanned r), sr_offset s, 0, None),
    s\<lparr>sr_pos := length (pre @ rec_bytes r), sr_offset := sr_offset s + snd (Sizes r)\<rparr>, d)"
proof -
  note L = valid_rec_layout [OF assms(1)] and vs = valid_sizes [OF assms(1)]
  let ?k = "rKey r" and ?b = "pBody (rPayload r)" and ?pad = "replicate (rec_pad r) (0 :: byte)"
  let ?c = "rec_crc (rec_head r @ ?k @ ?b)"
  let ?h = "put_le 4 ?c @ rec_head r"
  have v: "24 + length ?k + length ?b + 255 < 2 ^ 32" using assms(1) by (simp add: valid_rec_def)
  have f: "sr_file s = pre @ ?h @ ?k @ ?b @ ?pad @ suf" by (simp add: assms(2) rec_bytes_eq)
  have r1: "ReadAt (sr_file s) (length pre) recHeaderSize = Some ?h"
      "ReadAt (sr_file s) (length pre + recHeaderSize) (length ?k) = Some ?k"
      "ReadAt (sr_file s) (length pre + recHeaderSize + length ?k) (length ?b) = Some ?b"
    by (simp_all add: f ReadAt_def recHeaderSize_def slice_def)
  let ?w = "decodeHeader (newWriteRecord\<lparr>wr_header := ?h\<rparr>) ?h"
  have w: "wr_ksz ?w = of_nat (length ?k)" "wr_vsz ?w = of_nat (length ?b)" "wr_crc ?w = ?c" "wr_header ?w = ?h"
      "rPayload (wr_rec ?w) = zero_payload\<lparr>TS := TS (rPayload r), Flag := Flag (rPayload r), Ver := Ver (rPayload r)\<rparr>"
    by (simp_all add: decodeHeader_def slice_def rec_head_def newWriteRecord_def)
  let ?rec = "\<lparr>rKey = ?k, rPayload = zero_payload\<lparr>TS := TS (rPayload r), Flag := Flag (rPayload r),
      Ver := Ver (rPayload r), carr := nil_array\<lparr>Body := ?b\<rparr>\<rparr>\<rparr>"
  have sz: "Sizes ?rec = Sizes r" by (simp add: Sizes_def)
  have crc: "getCRC (?w\<lparr>wr_rec := ?rec\<rparr>) = ?c" using w(4) by (simp add: getCRC_bytes)
  have lt: "\<not> length (sr_file s) \<le> length pre" by (simp add: f)
  have p4: "(if fst (Sizes r) AND 0xff \<noteq> 0 then min (length (sr_file s))
      (length pre + recHeaderSize + length ?k + length ?b + unat (PADDING - (fst (Sizes r) AND 0xff)))
      else length pre + recHeaderSize + length ?k + length ?b) = length (pre @ rec_bytes r)"
    using tail_pad [OF v] by (simp add: f rec_bytes_eq recHeaderSize_def)
  have sc: "?rec\<lparr>rPayload := (rPayload ?rec)\<lparr>RecSize := snd (Sizes r)\<rparr>\<rparr> = scanned r"
    by (simp add: scanned_def zero_payload_def nil_array_def)
  have ok: "\<not> (\<not> IsValidKeySize (mcconf e) (of_nat (length ?k)) \<or> \<not> IsValidValueSize (mcconf e) (of_nat (length ?b)))"
    using L(5,6) by simp
  show ?thesis
    unfolding Next_def Let_def assms(3) r1 if_not_P [OF lt] option.case w vs(1,2) if_not_P [OF ok] sz
      case_prod_beta p4 crc
    using sc by simp
qed

text \<open>C22: a data file written by appending records is scanned back completely: repeated \<open>Next\<close> returns every
  record in order, with its fields and its offset (a 32-bit counter), and then the end of the file,
  without an error.  The records are ones the store accepts.\<close>

theorem scan_written_file:
  assumes "\<forall>r \<in> set rs. valid_rec e r"
    and "s = foldl (\<lambda>s r. snd (sw_Append r s)) \<lparr>sw_file = [], sw_offset = 0\<rparr> rs"
  shows "scan_all (Suc (length rs)) e (newDataStreamReader (sw_file s)) d = Some (with_offsets 0 rs, None, d)"
proof -
  have written: "sw_file (foldl (\<lambda>s r. snd (sw_Append r s)) s0 rs) = sw_file s0 @ concat (map rec_bytes rs)" for s0
    by (induction rs arbitrary: s0) (auto simp: sw_Append_def wr_append_bytes rec_bytes_eq)
  have scan: "scan_all (Suc (length rs)) e s1 d = Some (with_offsets (sr_offset s1) rs, None, d)"
    if "sr_file s1 = pre @ concat (map rec_bytes rs)" "sr_pos s1 = length pre" for s1 pre
    using assms(1) that
  proof (induction rs arbitrary: s1 pre)
    case Nil
    then show ?case by (simp add: Next_def)
  next
    case (Cons r rs)
    let ?s = "s1\<lparr>sr_pos := length (pre @ rec_bytes r), sr_offset := sr_offset s1 + snd (Sizes r)\<rparr>"
    have n: "Next e s1 d = Some ((Some (scanned r), sr_offset s1, 0, None), ?s, d)"
      using Cons.prems by (intro Next_rec [where suf = "concat (map rec_bytes rs)"]) simp_all
    have "scan_all (Suc (length rs)) e ?s d = Some (with_offsets (sr_offset ?s) rs, None, d)"
      by (rule Cons.IH [where pre = "pre @ rec_bytes r"]) (use Cons.prems in simp_all)
    then have "scan_all (Suc (Suc (length rs))) e s1 d = Some (with_offsets (sr_offset s1) (r # rs), None, d)"
      by (subst scan_all.simps(2)) (simp add: n del: scan_all.simps)
    then show ?case by simp
  qed
  show ?thesis
    using scan [of "newDataStreamReader (sw_file s)" "[]"] written
    by (simp add: newDataStreamReader_def assms(2))
qed

section \<open>Recovery from damage\<close>

text \<open>Key and value limits whose sum fits 32 bits: then no read panics.\<close>

definition limits_ok :: "Env \<Rightarrow> bool" where
  "limits_ok e \<longleftrightarrow> unat (word_of_int (MaxKeyLen (mcconf e)) :: u32) + unat (word_of_int (BodyMax (mcconf e)) :: u32) < 2 ^ 32"

lemma readRecordAt_total:
  assumes "limits_ok e"
  shows "readRecordAt e f off d \<noteq> None"
proof -
  have *: "unat (k + v) = unat k + unat v"
    if "IsValidKeySize (mcconf e) k" "IsValidValueSize (mcconf e) v" for k v :: u32
  proof -
    have "unat k + unat v < 2 ^ 32"
      using that assms by (simp add: limits_ok_def IsValidKeySize_def IsValidValueSize_def word_le_nat_alt)
    then show ?thesis by (simp add: unat_word_ariths)
  qed
  have al: "Alloc mc me (uint w) d \<noteq> None" for mc me d and w :: u32
    by (simp add: Alloc_def)
  have len: "unat k \<le> length (Body a)"
    if "IsValidKeySize (mcconf e) k" "IsValidValueSize (mcconf e) v"
      "Alloc (mcconf e) (memenv e) (uint (k + v)) d = Some (Some a, d1)" for k v :: u32 and a d1
  proof -
    have "int (length (Body a)) = uint (k + v)" using Alloc_length [OF that(3)] by simp
    then have "length (Body a) = unat (k + v)" by (simp flip: of_nat_eq_iff [where 'a = int])
    then show ?thesis using * [OF that(1,2)] by simp
  qed
  show ?thesis
    unfolding readRecordAt_def
    by (auto simp: Let_def al split: option.splits bind_splits if_splits dest: len)
qed

lemma nextValid_loop_spec:
  assumes "limits_ok e" "length (sr_file s) + 256 \<le> 2 ^ 32" "length (sr_file s) \<le> unat off + 256 * fuel"
    "unat off < 2 ^ 32 - 256 \<or> length (sr_file s) \<le> unat off"
  shows "\<exists>k res s' d'. nextValid_loop (Suc fuel) e off br s d = Some (res, s', d') \<and>
    (\<forall>j < k. unat off + 256 * j < length (sr_file s) \<and>
       (\<exists>err d1 d2. readRecordAt e (sr_file s) (off + 256 * of_nat j) d1 = Some (Inl err, d2))) \<and>
    unat (off + 256 * of_nat k) = unat off + 256 * k \<and>
    (if unat off + 256 * k < length (sr_file s)
     then \<exists>w d1. readRecordAt e (sr_file s) (off + 256 * of_nat k) d1 = Some (Inr w, d') \<and>
       res = (Some (wr_rec w), off + 256 * of_nat k, br + 256 * of_nat k, None)
     else res = (None, off + 256 * of_nat k, br + 256 * of_nat k, None))"
  using assms(2-)
proof (induction fuel arbitrary: off br s d)
  case 0
  then show ?case by (intro exI [of _ 0]) simp
next
  case (Suc fuel)
  show ?case
  proof (cases "unat off < length (sr_file s)")
    case False
    then show ?thesis by (intro exI [of _ 0]) simp
  next
    case True
    obtain r d1 where rd: "readRecordAt e (sr_file s) off d = Some (r, d1)"
      using readRecordAt_total [OF assms(1)] by fastforce
    show ?thesis
    proof (cases r)
      case (Inr w)
      then show ?thesis using True rd by (intro exI [of _ 0]) (auto simp: Let_def)
    next
      case (Inl err)
      let ?s = "s\<lparr>sr_offset := off + 256\<rparr>"
      have o: "unat (off + 256) = unat off + 256"
        using Suc.prems(1) True by (simp add: unat_word_ariths)
      have sh: "x + 256 + 256 * of_nat j = x + 256 * (of_nat (Suc j) :: u32)"
          "n + 256 + 256 * j = n + 256 * Suc j" "sr_file ?s = sr_file s" for x :: u32 and n j :: nat
        by (simp_all add: algebra_simps)
      have "\<exists>k res s' d'. nextValid_loop (Suc fuel) e (off + 256) (br + 256) ?s d1 = Some (res, s', d') \<and>
        (\<forall>j < k. unat (off + 256) + 256 * j < length (sr_file ?s) \<and>
           (\<exists>err d1 d2. readRecordAt e (sr_file ?s) (off + 256 + 256 * of_nat j) d1 = Some (Inl err, d2))) \<and>
        unat (off + 256 + 256 * of_nat k) = unat (off + 256) + 256 * k \<and>
        (if unat (off + 256) + 256 * k < length (sr_file ?s)
         then \<exists>w d1. readRecordAt e (sr_file ?s) (off + 256 + 256 * of_nat k) d1 = Some (Inr w, d') \<and>
           res = (Some (wr_rec w), off + 256 + 256 * of_nat k, br + 256 + 256 * of_nat k, None)
         else res = (None, off + 256 + 256 * of_nat k, br + 256 + 256 * of_nat k, None))"
        by (rule Suc.IH) (use Suc.prems o True in auto)
      then obtain k res s' d' where IH: "nextValid_loop (Suc fuel) e (off + 256) (br + 256) ?s d1 = Some (res, s', d')"
        "\<forall>j < k. unat off + 256 * Suc j < length (sr_file s) \<and>
           (\<exists>err d1 d2. readRecordAt e (sr_file s) (off + 256 * of_nat (Suc j)) d1 = Some (Inl err, d2))"
        "unat (off + 256 * of_nat (Suc k)) = unat off + 256 * Suc k"
        "if unat off + 256 * Suc k < length (sr_file s)
         then \<exists>w d1. readRecordAt e (sr_file s) (off + 256 * of_nat (Suc k)) d1 = Some (Inr w, d') \<and>
           res = (Some (wr_rec w), off + 256 * of_nat (Suc k), br + 256 * of_nat (Suc k), None)
         else res = (None, off + 256 * of_nat (Suc k), br + 256 * of_nat (Suc k), None)"
        unfolding o sh by blast
      have "\<forall>j < Suc k. unat off + 256 * j < length (sr_file s) \<and>
           (\<exists>err d1 d2. readRecordAt e (sr_file s) (off + 256 * of_nat j) d1 = Some (Inl err, d2))"
        unfolding All_less_Suc2 using IH(2) True rd Inl by auto
      moreover have "nextValid_loop (Suc (Suc fuel)) e off br s d = Some (res, s', d')"
        using True rd Inl IH(1) by (subst nextValid_loop.simps(2)) (simp del: nextValid_loop.simps)
      ultimately show ?thesis using IH(3,4) by blast
    qed
  qed
qed

text \<open>Recovery after damage always returns and skips no readable record: \<open>nextValid\<close> tries the multiples of 256 from
  the current offset on, and returns the first record that reads without an error, with the number
  of bytes skipped, or the end of the file when there is none.  The file ends at least 256 bytes below 4 GB.\<close>

theorem nextValid_first:
  assumes "limits_ok e" and "length (sr_file s) + 256 \<le> 2 ^ 32"
    and "unat (sr_offset s) < 2 ^ 32 - 256" and "off = sr_offset s AND NOT 0xff"
  shows "\<exists>k res s' d'. nextValid e s d = Some (res, s', d') \<and>
    (\<forall>j < k. unat off + 256 * j < length (sr_file s) \<and>
       (\<exists>err d1 d2. readRecordAt e (sr_file s) (off + 256 * of_nat j) d1 = Some (Inl err, d2))) \<and>
    (if unat off + 256 * k < length (sr_file s)
     then \<exists>w d1. readRecordAt e (sr_file s) (off + 256 * of_nat k) d1 = Some (Inr w, d') \<and>
       res = (Some (wr_rec w), off + 256 * of_nat k, 256 * of_nat k, None)
     else res = (None, off + 256 * of_nat k, 256 * of_nat k, None))"
proof -
  have le: "unat off \<le> unat (sr_offset s)"
    using word_and_le2 [of "sr_offset s" "NOT 0xff"] by (simp add: assms(4) word_le_nat_alt and.commute)
  have fuel: "length (sr_file s) \<le> unat off + 256 * Suc (length (sr_file s) div 256)"
    using div_mult_mod_eq [of "length (sr_file s)" 256] mod_less_divisor [of 256 "length (sr_file s)"]
    by simp
  have "unat off < 2 ^ 32 - 256 \<or> length (sr_file s) \<le> unat off" using le assms(3) by simp
  from nextValid_loop_spec [OF assms(1,2) fuel this, of 0 d]
  show ?thesis unfolding nextValid_def assms(4) by (simp only: add_0) blast
qed

section \<open>Concrete inputs\<close>

definition sample_rec :: Record where
  "sample_rec = \<lparr>rKey = [97], rPayload = \<lparr>TS = 5, Flag = 3, Ver = 2, ValueHash = 0, RecSize = 0,
     carr = \<lparr>Body = [1, 2, 3], Addr = 0, Cap = 3\<rparr>\<rparr>\<rparr>"

lemma sample_rec_ok: "valid_rec toy_env sample_rec" "mem_ok toy_env" "limits_ok toy_env"
  by (simp_all add: valid_rec_def sample_rec_def toy_env_def IsValidKeySize_def IsValidValueSize_def mem_ok_def
      limits_ok_def)

theorem append_read_roundtrip_witness:
  "\<exists>w d'. readRecordAt toy_env (sw_file (snd (sw_Append sample_rec \<lparr>sw_file = [], sw_offset = 0\<rparr>)) @ [7]) 0 ResetAll
      = Some (Inr w, d') \<and> rKey (wr_rec w) = [97] \<and> pBody (rPayload (wr_rec w)) = [1, 2, 3]"
proof -
  let ?s = "\<lparr>sw_file = [], sw_offset = 0\<rparr> :: DataStreamWriter"
  have "sw_Append sample_rec ?s = (fst (sw_Append sample_rec ?s), snd (sw_Append sample_rec ?s))" by simp
  from append_read_roundtrip [OF sample_rec_ok(1,2) _ this, of "[7]" ResetAll]
  show ?thesis by (auto simp: sample_rec_def)
qed

theorem damaged_byte_rejected_witness:
  "\<exists>d'. readRecordAt toy_env ([] @ (rec_bytes sample_rec)[25 := 9] @ []) 0 ResetAll = Some (Inl CrcErr, d')"
proof (rule damaged_byte_rejected [OF sample_rec_ok(1,2)])
  have "rec_bytes sample_rec ! 25 = 1"
    by (simp add: rec_bytes_eq nth_append sample_rec_def)
  then show "rec_bytes sample_rec ! 25 \<noteq> 9" by simp
qed (simp_all add: sample_rec_def)

theorem scan_written_file_witness:
  "scan_all 3 toy_env (newDataStreamReader (sw_file (snd (sw_Append sample_rec (snd (sw_Append sample_rec
      \<lparr>sw_file = [], sw_offset = 0\<rparr>)))))) ResetAll = Some ([(scanned sample_rec, 0), (scanned sample_rec, 256)], None, ResetAll)"
proof -
  have sz: "snd (Sizes sample_rec) = 256" by (simp add: Sizes_def sample_rec_def)
  have ok: "\<forall>r \<in> set [sample_rec, sample_rec]. valid_rec toy_env r" using sample_rec_ok by simp
  from scan_written_file [OF ok refl, of ResetAll]
  show ?thesis by (simp add: sz numeral_eq_Suc del: scan_all.simps)
qed

theorem nextValid_first_witness:
  "\<exists>res s' d'. nextValid toy_env \<lparr>sr_file = replicate 256 0 @ rec_bytes sample_rec, sr_pos = 0, sr_offset = 0\<rparr> ResetAll
      = Some (res, s', d')"
proof -
  let ?s = "\<lparr>sr_file = replicate 256 0 @ rec_bytes sample_rec, sr_pos = 0, sr_offset = 0\<rparr> :: DataStreamReader"
  have sz: "unat (snd (Sizes sample_rec)) = 256" by (simp add: Sizes_def sample_rec_def)
  have "length (sr_file ?s) = 512" using length_rec_bytes(1) [OF sample_rec_ok(1)] sz by simp
  then show ?thesis using nextValid_first [OF sample_rec_ok(3), of ?s 0 ResetAll] by auto
qed

end
