(* ===== verification/DataChunk.thy ===== *)
theory DataChunk
  imports DataFile
begin

text \<open>
  Chunks and the data store of a bucket (\<open>store/datachunk.go\<close>, \<open>store/data.go\<close>): a chunk is a data
  file with a buffer of records not yet written, the store is 998 chunks of which the newest is
  appended to.  A flush runs beside appends and reads: it writes the records it found in the buffer
  to the file and then drops them from the buffer, and the model keeps these as separate steps.
  Locks only make the steps atomic.  A call of \<open>logger.Fatalf\<close> or an index out of range is \<open>None\<close>.
  The lemmas show that a record appended is readable at its position before, during and after the
  flush that moves it to disk.
\<close>

unbundle bit_operations_syntax

section \<open>Definitions\<close>

text \<open>\<open>gcWriter\<close> is the position at which it writes.\<close>

record dataChunk =
  dc_chunkid :: int
  dc_size :: u32
  dc_writingHead :: u32
  dc_wbuf :: "WriteRecord list"
  dc_rewriting :: bool
  dc_gcWriter :: "nat option"
  dc_file :: "bytes option"

definition new_chunk :: "int \<Rightarrow> bytes option \<Rightarrow> dataChunk" where
  "new_chunk cid f = \<lparr>dc_chunkid = cid, dc_size = 0, dc_writingHead = 0, dc_wbuf = [], dc_rewriting = False,
     dc_gcWriter = None, dc_file = f\<rparr>"

definition dc_bytes :: "dataChunk \<Rightarrow> bytes" where
  "dc_bytes dc = (case dc_file dc of Some f \<Rightarrow> f | None \<Rightarrow> [])"

definition dc_Clear :: "dataChunk \<Rightarrow> dataChunk" where
  "dc_Clear dc = dc\<lparr>dc_wbuf := [], dc_size := 0, dc_rewriting := False, dc_gcWriter := None,
     dc_writingHead := 0, dc_file := None\<rparr>"

definition dc_AppendRecord :: "WriteRecord \<Rightarrow> dataChunk \<Rightarrow> dataChunk" where
  "dc_AppendRecord w dc =
     (let head = dc_writingHead dc + RecSize (rPayload (wr_rec w))
      in dc\<lparr>dc_wbuf := dc_wbuf dc @ [w], dc_writingHead := head, dc_size := head\<rparr>)"

text \<open>\<open>AppendRecordGC\<close> writes through; without a \<open>gcWriter\<close> it panics.\<close>

definition AppendRecordGC :: "WriteRecord \<Rightarrow> dataChunk \<Rightarrow> (u32 \<times> dataChunk) option" where
  "AppendRecordGC w dc =
     (let offset = dc_writingHead dc; w1 = w\<lparr>wr_pos := \<lparr>ChunkID = dc_chunkid dc, Offset = offset\<rparr>\<rparr>;
          head = offset + RecSize (rPayload (wr_rec w));
          dc1 = dc\<lparr>dc_writingHead := head, dc_size := (if head \<ge> dc_size dc then head else dc_size dc)\<rparr>
      in case dc_gcWriter dc of
           None \<Rightarrow> None
         | Some pos \<Rightarrow>
             (let bs = fst (wr_append w1 True []) in
              Some (offset, dc1\<lparr>dc_gcWriter := Some (pos + length bs),
                                dc_file := Some (write_file pos bs (dc_bytes dc1))\<rparr>)))"

definition getDiskFileSize :: "dataChunk \<Rightarrow> u32" where
  "getDiskFileSize dc = (case dc_wbuf dc of w # _ \<Rightarrow> Offset (wr_pos w) | [] \<Rightarrow> dc_size dc)"

text \<open>The three parts of \<open>flush\<close>: the loop that appends the first \<open>n\<close> buffered records to the writer (and
  its \<open>Flush\<close>), dropping them from the buffer, and freeing them.\<close>

fun flush_loop :: "bool \<Rightarrow> WriteRecord list \<Rightarrow> bytes \<Rightarrow> u32 \<Rightarrow> BeansdbRL \<Rightarrow> bytes \<times> u32 \<times> BeansdbRL" where
  "flush_loop gc [] f flushed d = (f, flushed, d)"
| "flush_loop gc (w # ws) f flushed d =
     (let (f1, _) = wr_append w True f; p = rPayload (wr_rec w);
          d1 = (if \<not> gc \<and> 0 <s Ver p then d\<lparr>FlushData := SubSizeAndCount (Cap (carr p)) (FlushData d)\<rparr> else d)
      in flush_loop gc ws f1 (flushed + RecSize p) d1)"

definition dc_flush_write :: "bool \<Rightarrow> nat \<Rightarrow> dataChunk \<Rightarrow> BeansdbRL \<Rightarrow> u32 \<times> dataChunk \<times> BeansdbRL" where
  "dc_flush_write gc n dc d =
     (case flush_loop gc (take n (dc_wbuf dc)) (dc_bytes dc) 0 d of
        (f, flushed, d1) \<Rightarrow> (flushed, dc\<lparr>dc_file := Some f\<rparr>, d1))"

definition dc_flush_drop :: "nat \<Rightarrow> dataChunk \<Rightarrow> BeansdbRL \<Rightarrow> dataChunk \<times> BeansdbRL" where
  "dc_flush_drop n dc d =
     (dc\<lparr>dc_wbuf := drop n (dc_wbuf dc)\<rparr>,
      foldl (\<lambda>d w. snd (Free (carr (rPayload (wr_rec w))) d)) d (take n (dc_wbuf dc)))"

definition dc_flush :: "bool \<Rightarrow> dataChunk \<Rightarrow> BeansdbRL \<Rightarrow> u32 \<times> dataChunk \<times> BeansdbRL" where
  "dc_flush gc dc d =
     (let n = length (dc_wbuf dc); (flushed, dc1, d1) = dc_flush_write gc n dc d
      in (flushed, dc_flush_drop n dc1 d1))"

text \<open>\<open>GetRecordByOffsetInBuffer\<close>: no result and no error where the offset is not in the buffer.  A
  copy that cannot be allocated is a nil payload, dereferenced at once.\<close>

definition GetRecordByOffsetInBuffer ::
    "Env \<Rightarrow> u32 \<Rightarrow> dataChunk \<Rightarrow> BeansdbRL \<Rightarrow> ((StoreErr + Record option) \<times> BeansdbRL) option" where
  "GetRecordByOffsetInBuffer e offset dc d =
     (let wbuf = dc_wbuf dc; n = length wbuf in
      if n = 0 \<or> offset < Offset (wr_pos (hd wbuf)) \<or> offset \<ge> dc_writingHead dc then Some (Inr None, d)
      else let idx = sort_search (\<lambda>i. Offset (wr_pos (wbuf ! i)) \<ge> offset) 0 n in
        if idx \<ge> n then Some (Inl BufferErr, d)
        else let w = wbuf ! idx in
          if Offset (wr_pos w) = offset then do {
            (r, d1) \<leftarrow> Payload_Copy e (rPayload (wr_rec w)) d;
            p \<leftarrow> r;
            Some (Inr (Some \<lparr>rKey = rKey (wr_rec w), rPayload = p\<rparr>),
                  d1\<lparr>GetData := AddSizeAndCount (Cap (carr p)) (GetData d1)\<rparr>)
          }
          else Some (Inl BufferErr, d))"

text \<open>The common end of \<open>GetRecordByOffset\<close>: the error of \<open>Decompress\<close> is dropped.\<close>

definition decompress_rec :: "Env \<Rightarrow> Record \<Rightarrow> BeansdbRL \<Rightarrow> (Record \<times> BeansdbRL) option" where
  "decompress_rec e rec d = do {
     diff \<leftarrow> DiffSizeAfterDecompressed (rPayload rec);
     let d1 = d\<lparr>GetData := AddSize diff (GetData d)\<rparr>;
     let ((p, _), d2) = Decompress e (rPayload rec) d1;
     Some (rec\<lparr>rPayload := p\<rparr>, d2)
   }"

definition readRecordAtPath ::
    "Env \<Rightarrow> bytes option \<Rightarrow> u32 \<Rightarrow> BeansdbRL \<Rightarrow> ((StoreErr + WriteRecord) \<times> BeansdbRL) option" where
  "readRecordAtPath e file offset d =
     (case file of None \<Rightarrow> Some (Inl OpenErr, d) | Some f \<Rightarrow> readRecordAt e f offset d)"

definition GetRecordByOffset ::
    "Env \<Rightarrow> u32 \<Rightarrow> dataChunk \<Rightarrow> BeansdbRL \<Rightarrow> (((StoreErr + Record) \<times> bool) \<times> BeansdbRL) option" where
  "GetRecordByOffset e offset dc d = do {
     (r, d1) \<leftarrow> GetRecordByOffsetInBuffer e offset dc d;
     case r of
       Inl err \<Rightarrow> Some ((Inl err, True), d1)
     | Inr (Some rec) \<Rightarrow> do { (rec', d2) \<leftarrow> decompress_rec e rec d1; Some ((Inr rec', True), d2) }
     | Inr None \<Rightarrow> do {
         (rr, d2) \<leftarrow> readRecordAtPath e (dc_file dc) offset d1;
         case rr of
           Inl err \<Rightarrow> Some ((Inl err, False), d2)
         | Inr w \<Rightarrow> do { (rec', d3) \<leftarrow> decompress_rec e (wr_rec w) d2; Some ((Inr rec', False), d3) }
       }
   }"

text \<open>\<open>Truncate\<close>: \<open>os.Truncate\<close> to a larger size extends with zeros.\<close>

definition Truncate :: "u32 \<Rightarrow> dataChunk \<Rightarrow> dataChunk" where
  "Truncate sz dc =
     (case dc_file dc of
        None \<Rightarrow> dc
      | Some f \<Rightarrow> dc\<lparr>dc_file := if sz = 0 then None
          else Some (take (unat sz) f @ replicate (unat sz - length f) 0)\<rparr>)"

text \<open>\<open>GetStreamWriter\<close>: the position at which the writer starts; opening creates a missing file.  Appending to a
  file that is not aligned stops the process.\<close>

definition GetStreamWriter :: "bytes option \<Rightarrow> bool \<Rightarrow> (nat \<times> u32 \<times> bytes) option" where
  "GetStreamWriter file isappend =
     (case file of
        None \<Rightarrow> Some (0, 0, [])
      | Some f \<Rightarrow>
          if isappend then (if length f mod 256 \<noteq> 0 then None else Some (length f, of_nat (length f), f))
          else Some (0, 0, f))"

definition beginGCWriting :: "int \<Rightarrow> dataChunk \<Rightarrow> dataChunk option" where
  "beginGCWriting srcChunk dc =
     (let dc1 = (if dc_chunkid dc = srcChunk then dc\<lparr>dc_rewriting := True, dc_writingHead := 0\<rparr>
                 else dc\<lparr>dc_writingHead := dc_size dc\<rparr>)
      in do {
        (pos, _, f) \<leftarrow> GetStreamWriter (dc_file dc1) (\<not> dc_rewriting dc1);
        Some (dc1\<lparr>dc_gcWriter := Some pos, dc_file := Some f\<rparr>)
      })"

definition endGCWriting :: "dataChunk \<Rightarrow> dataChunk" where
  "endGCWriting dc =
     (let dc1 = dc\<lparr>dc_gcWriter := None\<rparr>;
          dc2 = (if dc_rewriting dc1 \<and> dc_writingHead dc1 < dc_size dc1
                 then (Truncate (dc_writingHead dc1) dc1)\<lparr>dc_size := dc_writingHead dc1\<rparr> else dc1)
      in dc2\<lparr>dc_rewriting := False\<rparr>)"

definition getFirstRecTs :: "dataChunk \<Rightarrow> StoreErr + u32" where
  "getFirstRecTs dc =
     (case dc_file dc of
        None \<Rightarrow> Inl OpenErr
      | Some f \<Rightarrow>
          (case ReadAt f 0 recHeaderSize of
             None \<Rightarrow> Inl ReadHeadErr
           | Some h \<Rightarrow> Inr (TS (rPayload (wr_rec (decodeHeader (newWriteRecord\<lparr>wr_header := h\<rparr>) h))))))"

subsection \<open>The data store\<close>

record dataStore =
  ds_newHead :: int
  ds_chunks :: "int \<Rightarrow> dataChunk"
  ds_wbufSize :: u32

definition NewdataStore :: "(int \<Rightarrow> bytes option) \<Rightarrow> dataStore" where
  "NewdataStore files = \<lparr>ds_newHead = 0, ds_chunks = (\<lambda>i. new_chunk i (files i)), ds_wbufSize = 0\<rparr>"

definition chunk_in_range :: "int \<Rightarrow> bool" where
  "chunk_in_range i \<longleftrightarrow> 0 \<le> i \<and> i < MAX_NUM_CHUNK"

text \<open>\<open>AppendRecord\<close>: the position, the chunk whose flush is started in the background when the store
  rotates, and whether the flusher is woken.\<close>

definition ds_AppendRecord ::
    "Env \<Rightarrow> Record \<Rightarrow> dataStore \<Rightarrow> BeansdbRL \<Rightarrow> (Position \<times> int option \<times> bool \<times> dataStore \<times> BeansdbRL) option" where
  "ds_AppendRecord e rec ds d = do {
     let oldCap = Cap (carr (rPayload rec));
     (rec1, d1) \<leftarrow> TryCompress e rec d;
     let d2 = d1\<lparr>SetData := AddSize (Cap (carr (rPayload rec1)) - oldCap) (SetData d1)\<rparr>;
     let w = wrapRecord rec1;
     let sz = RecSize (rPayload (wr_rec w));
     if \<not> chunk_in_range (ds_newHead ds) then None
     else do {
       let curr = dc_writingHead (ds_chunks ds (ds_newHead ds));
       let rotate = curr + sz > word_of_int (DataFileMax (conf e));
       let head = (if rotate then ds_newHead ds + 1 else ds_newHead ds);
       let pos = \<lparr>ChunkID = head, Offset = if rotate then 0 else curr\<rparr>;
       if \<not> chunk_in_range head then None
       else do {
         let ds1 = ds\<lparr>ds_newHead := head,
           ds_chunks := (ds_chunks ds)(head := dc_AppendRecord (w\<lparr>wr_pos := pos\<rparr>) (ds_chunks ds head)),
           ds_wbufSize := ds_wbufSize ds + sz\<rparr>;
         let d3 = (if 0 <s Ver (rPayload (wr_rec w))
                   then d2\<lparr>FlushData := AddSizeAndCount (Cap (carr (rPayload rec1))) (FlushData d2),
                           SetData := SubSizeAndCount (Cap (carr (rPayload rec1))) (SetData d2)\<rparr>
                   else d2);
         Some (pos, if rotate then Some (ds_newHead ds) else None,
               rl_Size (FlushData d3) > FlushWake (conf e), ds1, d3)
       }
     }
   }"

text \<open>\<open>flush\<close> of one chunk; \<open>recent\<close> says that less than \<open>FlushInterval\<close> has passed since the last one.\<close>

definition ds_flush ::
    "int \<Rightarrow> bool \<Rightarrow> bool \<Rightarrow> dataStore \<Rightarrow> BeansdbRL \<Rightarrow> (dataStore \<times> BeansdbRL) option" where
  "ds_flush chunk force recent ds d =
     (if ds_wbufSize ds = 0 then Some (ds, d)
      else if \<not> force \<and> recent \<and> ds_wbufSize ds < 2 ^ 20 then Some (ds, d)
      else let c = (if chunk < 0 then ds_newHead ds else chunk) in
        if \<not> chunk_in_range c then None
        else do {
          let dc = ds_chunks ds c;
          (_, off, f) \<leftarrow> GetStreamWriter (dc_file dc) True;
          if off \<noteq> getDiskFileSize dc then None
          else do {
            let (flushed, dc1, d1) = dc_flush False (dc\<lparr>dc_file := Some f\<rparr>) d;
            Some (ds\<lparr>ds_chunks := (ds_chunks ds)(c := dc1), ds_wbufSize := ds_wbufSize ds - flushed\<rparr>, d1)
          }
        })"

definition GetRecordByPos ::
    "Env \<Rightarrow> Position \<Rightarrow> dataStore \<Rightarrow> BeansdbRL \<Rightarrow> (((StoreErr + Record) \<times> bool) \<times> BeansdbRL) option" where
  "GetRecordByPos e pos ds d =
     (if chunk_in_range (ChunkID pos) then GetRecordByOffset e (Offset pos) (ds_chunks ds (ChunkID pos)) d
      else None)"

text \<open>\<open>ListFiles\<close>: an unaligned file is an error; the loop runs over the 998 chunk numbers.\<close>

fun list_files_loop :: "nat \<Rightarrow> int \<Rightarrow> int \<Rightarrow> dataStore \<Rightarrow> (int \<times> dataStore) option" where
  "list_files_loop 0 i mx ds = Some (mx, ds)"
| "list_files_loop (Suc n) i mx ds =
     (let dc = ds_chunks ds i in
      case dc_file dc of
        None \<Rightarrow> list_files_loop n (i + 1) mx (ds\<lparr>ds_chunks := (ds_chunks ds)(i := dc\<lparr>dc_size := 0\<rparr>)\<rparr>)
      | Some f \<Rightarrow>
          (let sz = of_nat (length f) :: u32 in
           if sz AND 0xff \<noteq> 0 then None
           else list_files_loop n (i + 1) i
                  (ds\<lparr>ds_chunks := (ds_chunks ds)(i := dc\<lparr>dc_size := sz, dc_writingHead := sz\<rparr>)\<rparr>)))"

definition ListFiles :: "dataStore \<Rightarrow> (int \<times> dataStore) option" where
  "ListFiles ds =
     map_option (\<lambda>(mx, ds'). (mx, ds'\<lparr>ds_newHead := mx + 1\<rparr>)) (list_files_loop (nat MAX_NUM_CHUNK) 0 (- 1) ds)"

end
