(* ===== verification/DataRun.thy ===== *)
theory DataRun
  imports DataChunk
begin

text \<open>
  The data store of a bucket running: appends, reads and the flush of a chunk interleave
  (\<open>store/data.go\<close>, \<open>store/datachunk.go\<close>).  The machine \<open>ds_run\<close> has one transition for each part of the code that
  runs under a lock, or touches what others change; a flush is six transitions (open the file, look whether the buffer is empty, read the expected
  size and compare, count the buffered records, write them, drop them), and appends and reads come between them.  The lemmas show that in every reachable state every
  record appended is readable at its position with its contents, and when the size comparison stops the process.
\<close>

unbundle bit_operations_syntax

section \<open>Definitions\<close>

text \<open>The records of a chunk in the order of their positions, on disk or in the buffer.\<close>

definition rec_off :: "Record list \<Rightarrow> nat \<Rightarrow> nat" where
  "rec_off rs i = length (concat (map rec_bytes (take i rs)))"

definition buffered :: "int \<Rightarrow> Record list \<Rightarrow> nat \<Rightarrow> WriteRecord" where
  "buffered cid rs i = (wrapRecord (rs ! i))\<lparr>wr_pos := \<lparr>ChunkID = cid, Offset = of_nat (rec_off rs i)\<rparr>\<rparr>"

text \<open>A chunk holds \<open>rs\<close>: the first \<open>p\<close> are on disk, those from \<open>q\<close> on are in the buffer.\<close>

definition chunk_rep :: "Env \<Rightarrow> dataChunk \<Rightarrow> Record list \<Rightarrow> nat \<Rightarrow> nat \<Rightarrow> bool" where
  "chunk_rep e dc rs q p \<longleftrightarrow> q \<le> p \<and> p \<le> length rs \<and> (\<forall>r \<in> set rs. valid_rec e r) \<and>
     rec_off rs (length rs) < 2 ^ 32 \<and>
     dc_wbuf dc = map (buffered (dc_chunkid dc) rs) [q..<length rs] \<and>
     dc_bytes dc = concat (map rec_bytes (take p rs)) \<and>
     dc_writingHead dc = of_nat (rec_off rs (length rs)) \<and> dc_size dc = dc_writingHead dc \<and> \<not> dc_rewriting dc"

text \<open>What a record looks like after \<open>TryCompress\<close>, and when a record read has the contents of the one written.\<close>

definition stored_as :: "Env \<Rightarrow> Record \<Rightarrow> Record \<Rightarrow> bool" where
  "stored_as e rec r \<longleftrightarrow> rKey r = rKey rec \<and> TS (rPayload r) = TS (rPayload rec) \<and> Ver (rPayload r) = Ver (rPayload rec) \<and>
     Flag (rPayload rec) AND FLAG_COMPRESS = 0 \<and> length (pBody (rPayload rec)) + 400 < 2 ^ 32 \<and>
     (Flag (rPayload r) = Flag (rPayload rec) \<and> pBody (rPayload r) = pBody (rPayload rec) \<or>
      Flag (rPayload r) = Flag (rPayload rec) + FLAG_COMPRESS \<and> pBody (rPayload rec) \<noteq> [] \<and>
      pBody (rPayload r) = qlz_compress e (pBody (rPayload rec)))"

definition same_content :: "Record \<Rightarrow> Record \<Rightarrow> bool" where
  "same_content r rec \<longleftrightarrow> rKey r = rKey rec \<and> pBody (rPayload r) = pBody (rPayload rec) \<and>
     TS (rPayload r) = TS (rPayload rec) \<and> Flag (rPayload r) = Flag (rPayload rec) \<and>
     Ver (rPayload r) = Ver (rPayload rec)"

text \<open>Records whose value stays within the limit even when the compressor makes it longer (\<open>readRecordAt\<close>
  refuses a stored value larger than \<open>BodyMax\<close>), and limits that keep a chunk below 4 GB: the
  default configuration satisfies them.\<close>

definition acceptable :: "Env \<Rightarrow> Record \<Rightarrow> bool" where
  "acceptable e rec \<longleftrightarrow> IsValidKeySize (mcconf e) (of_nat (length (rKey rec))) \<and>
     IsValidValueSize (mcconf e) (of_nat (length (pBody (rPayload rec)) + 400)) \<and>
     24 + length (rKey rec) + length (pBody (rPayload rec)) + 400 + 255 < 2 ^ 32 \<and>
     Flag (rPayload rec) AND FLAG_COMPRESS = 0"

definition max_rec :: "Env \<Rightarrow> nat" where
  "max_rec e = 24 + unat (word_of_int (MaxKeyLen (mcconf e)) :: u32) + unat (word_of_int (BodyMax (mcconf e)) :: u32) + 255"

definition chunk_limits :: "Env \<Rightarrow> bool" where
  "chunk_limits e \<longleftrightarrow> int (max_rec e) \<le> DataFileMax (conf e) \<and> DataFileMax (conf e) + int (max_rec e) < 2 ^ 32"

text \<open>The phases of the one flush that can run at a time (\<open>flushLock\<close>).\<close>

datatype flush_phase = Idle | Sized int u32 | Tested int u32 bool | Checked int | Counted int nat | Written int nat u32

definition upd_chunk :: "int \<Rightarrow> dataChunk \<Rightarrow> dataStore \<Rightarrow> dataStore" where
  "upd_chunk c dc ds = ds\<lparr>ds_chunks := (ds_chunks ds)(c := dc)\<rparr>"

text \<open>\<open>getDiskFileSize\<close> takes no lock: after its test whether the buffer has a record it reads that record's offset or the size.\<close>

definition size_read :: "bool \<Rightarrow> dataChunk \<Rightarrow> u32" where
  "size_read nonempty dc = (if nonempty then Offset (wr_pos (hd (dc_wbuf dc))) else dc_size dc)"

text \<open>A flush goes on only with something in the buffers.  Where the expected size is not the file's, the process stops: there is no transition.\<close>

inductive ds_run :: "Env \<Rightarrow> (Position \<times> Record) list \<Rightarrow> dataStore \<Rightarrow> BeansdbRL \<Rightarrow> flush_phase \<Rightarrow> bool" for e where
  run_new: "ds_run e [] (NewdataStore (\<lambda>_. None)) d Idle"
| run_append: "ds_run e log ds d ph \<Longrightarrow> acceptable e rec \<Longrightarrow>
    ds_AppendRecord e rec ds d = Some (pos, bg, wk, ds', d') \<Longrightarrow> ds_run e ((pos, rec) # log) ds' d' ph"
| run_read: "ds_run e log ds d ph \<Longrightarrow> GetRecordByPos e pos ds d = Some (r, d') \<Longrightarrow> ds_run e log ds d' ph"
| run_open: "ds_run e log ds d Idle \<Longrightarrow> ds_wbufSize ds \<noteq> 0 \<Longrightarrow> chunk_in_range c \<Longrightarrow>
    GetStreamWriter (dc_file (ds_chunks ds c)) True = Some (at, off, f) \<Longrightarrow>
    ds_run e log (upd_chunk c ((ds_chunks ds c)\<lparr>dc_file := Some f\<rparr>) ds) d (Sized c off)"
| run_test: "ds_run e log ds d (Sized c off) \<Longrightarrow> ds_run e log ds d (Tested c off (dc_wbuf (ds_chunks ds c) \<noteq> []))"
| run_check: "ds_run e log ds d (Tested c off nonempty) \<Longrightarrow> off = size_read nonempty (ds_chunks ds c) \<Longrightarrow>
    ds_run e log ds d (Checked c)"
| run_count: "ds_run e log ds d (Checked c) \<Longrightarrow> ds_run e log ds d (Counted c (length (dc_wbuf (ds_chunks ds c))))"
| run_write: "ds_run e log ds d (Counted c n) \<Longrightarrow> dc_flush_write False n (ds_chunks ds c) d = (flushed, dc, d') \<Longrightarrow>
    ds_run e log (upd_chunk c dc ds) d' (Written c n flushed)"
| run_drop: "ds_run e log ds d (Written c n flushed) \<Longrightarrow> dc_flush_drop n (ds_chunks ds c) d = (dc, d') \<Longrightarrow>
    ds_run e log ((upd_chunk c dc ds)\<lparr>ds_wbufSize := ds_wbufSize ds - flushed\<rparr>) d' Idle"

text \<open>The invariant: what each chunk holds, and where the appended records are.\<close>

definition phase_ok :: "dataStore \<Rightarrow> (int \<Rightarrow> nat) \<Rightarrow> (int \<Rightarrow> nat) \<Rightarrow> flush_phase \<Rightarrow> bool" where
  "phase_ok ds Q P ph \<longleftrightarrow>
     (case ph of
        Idle \<Rightarrow> P = Q
      | Sized c off \<Rightarrow> P = Q \<and> chunk_in_range c \<and> off = getDiskFileSize (ds_chunks ds c)
      | Tested c off nonempty \<Rightarrow> P = Q \<and> chunk_in_range c \<and> off = getDiskFileSize (ds_chunks ds c) \<and>
          (nonempty \<longrightarrow> dc_wbuf (ds_chunks ds c) \<noteq> [])
      | Checked c \<Rightarrow> P = Q \<and> chunk_in_range c
      | Counted c n \<Rightarrow> P = Q \<and> chunk_in_range c \<and> n \<le> length (dc_wbuf (ds_chunks ds c))
      | Written c n _ \<Rightarrow> P = Q(c := Q c + n) \<and> chunk_in_range c)"

definition logged_at :: "Env \<Rightarrow> (int \<Rightarrow> Record list) \<Rightarrow> Position \<Rightarrow> Record \<Rightarrow> bool" where
  "logged_at e L pos rec \<longleftrightarrow> chunk_in_range (ChunkID pos) \<and>
     (\<exists>i < length (L (ChunkID pos)). Offset pos = of_nat (rec_off (L (ChunkID pos)) i) \<and>
        stored_as e rec (L (ChunkID pos) ! i))"

definition ds_inv :: "Env \<Rightarrow> (Position \<times> Record) list \<Rightarrow> dataStore \<Rightarrow> flush_phase \<Rightarrow>
    (int \<Rightarrow> Record list) \<Rightarrow> (int \<Rightarrow> nat) \<Rightarrow> (int \<Rightarrow> nat) \<Rightarrow> bool" where
  "ds_inv e log ds ph L Q P \<longleftrightarrow>
     (\<forall>c. chunk_rep e (ds_chunks ds c) (L c) (Q c) (P c) \<and> dc_chunkid (ds_chunks ds c) = c \<and>
        int (rec_off (L c) (length (L c))) \<le> DataFileMax (conf e) \<and> (ds_newHead ds < c \<longrightarrow> L c = [])) \<and>
     (\<forall>(pos, rec) \<in> set log. logged_at e L pos rec) \<and> phase_ok ds Q P ph"

section \<open>Positions\<close>

lemma rec_off_0 [simp]: "rec_off rs 0 = 0"
  by (simp add: rec_off_def)

lemma rec_off_Suc: "i < length rs \<Longrightarrow> rec_off rs (Suc i) = rec_off rs i + length (rec_bytes (rs ! i))"
  by (simp add: rec_off_def take_Suc_conv_app_nth)

lemma rec_off_append [simp]: "i \<le> length rs \<Longrightarrow> rec_off (rs @ ts) i = rec_off rs i"
  by (simp add: rec_off_def)

lemma rec_off_snoc: "rec_off (rs @ [r]) (Suc (length rs)) = rec_off rs (length rs) + length (rec_bytes r)"
  by (simp add: rec_off_def)

lemma rec_bytes_ne [simp]: "rec_bytes r \<noteq> []"
  using length_rec_head [of r] by (auto simp: rec_bytes_eq simp del: length_rec_head)

lemma rec_off_less:
  assumes "i < j" "j \<le> length rs"
  shows "rec_off rs i < rec_off rs j"
  using assms
proof (induction j)
  case (Suc j)
  have "rec_off rs j < rec_off rs (Suc j)" using Suc.prems by (simp add: rec_off_Suc)
  then show ?case using Suc by (cases "i = j") auto
qed simp

lemma rec_off_mono: "i \<le> j \<Longrightarrow> j \<le> length rs \<Longrightarrow> rec_off rs i \<le> rec_off rs j"
  using rec_off_less [of i j rs] by (cases "i = j") auto

lemma unat_rec_off:
  assumes "rec_off rs (length rs) < 2 ^ 32" "i \<le> length rs"
  shows "unat (of_nat (rec_off rs i) :: u32) = rec_off rs i"
  using assms rec_off_mono [of i "length rs" rs]
  by (simp add: unsigned_of_nat take_bit_nat_eq_self)

lemma buffered_append [simp]: "i < length rs \<Longrightarrow> buffered cid (rs @ ts) i = buffered cid rs i"
  by (simp add: buffered_def nth_append)

lemma wr_append_pos: "fst (wr_append ((wrapRecord r)\<lparr>wr_pos := x\<rparr>) True f) = f @ rec_bytes r"
proof -
  have "getCRC (w\<lparr>wr_pos := x\<rparr>) = getCRC w" for w by (simp add: getCRC_bytes)
  then have "encodeHeader ((wrapRecord r)\<lparr>wr_pos := x\<rparr>) = (encodeHeader (wrapRecord r))\<lparr>wr_pos := x\<rparr>"
    by (simp add: encodeHeader_def Let_def getCRC_bytes)
  then have "fst (wr_append ((wrapRecord r)\<lparr>wr_pos := x\<rparr>) True f) = fst (wr_append (wrapRecord r) True f)"
    by (simp add: wr_append_def Let_def case_prod_beta)
  then show ?thesis by (simp add: wr_append_bytes rec_bytes_eq)
qed

section \<open>One chunk\<close>

lemma wrap_RecSize [simp]: "RecSize (rPayload (wr_rec (wrapRecord r))) = snd (Sizes r)"
  by (simp add: wrapRecord_def)

lemma RecSize_length: "valid_rec e r \<Longrightarrow> snd (Sizes r) = of_nat (length (rec_bytes r))"
  by (simp add: length_rec_bytes(1))

lemma chunk_rep_new: "f = None \<or> f = Some [] \<Longrightarrow> chunk_rep e (new_chunk cid f) [] 0 0"
  by (auto simp: chunk_rep_def new_chunk_def dc_bytes_def)

lemma chunk_rep_append:
  assumes "chunk_rep e dc rs q p" "valid_rec e r" "rec_off rs (length rs) + length (rec_bytes r) < 2 ^ 32"
  shows "chunk_rep e (dc_AppendRecord ((wrapRecord r)\<lparr>wr_pos := \<lparr>ChunkID = dc_chunkid dc, Offset = dc_writingHead dc\<rparr>\<rparr>) dc)
    (rs @ [r]) q p"
  using assms RecSize_length [OF assms(2)]
  by (auto simp: chunk_rep_def dc_AppendRecord_def Let_def rec_off_snoc dc_bytes_def upt_Suc_append
      buffered_def nth_append)

lemma flush_loop_bytes:
  "fst (flush_loop gc (map (buffered cid rs) is) f fl d) = f @ concat (map (\<lambda>i. rec_bytes (rs ! i)) is)"
proof (induction "is" arbitrary: f fl d)
  case (Cons i "is")
  have "\<exists>w. wr_append (buffered cid rs i) True f = (f @ rec_bytes (rs ! i), w)"
    by (metis buffered_def prod.collapse wr_append_pos)
  then show ?case using Cons by (auto simp: Let_def)
qed simp

lemma concat_take_upt:
  "q + n \<le> length rs \<Longrightarrow>
   concat (map f (take q rs)) @ concat (map (\<lambda>i. f (rs ! i)) [q..<q + n]) = concat (map f (take (q + n) rs))"
proof (induction n)
  case (Suc n)
  then have "take (q + Suc n) rs = take (q + n) rs @ [rs ! (q + n)]"
    by (simp add: take_Suc_conv_app_nth)
  moreover have "[q..<q + Suc n] = [q..<q + n] @ [q + n]" by simp
  ultimately show ?case using Suc by (simp flip: append_assoc)
qed simp

lemma chunk_rep_flush_write:
  assumes "chunk_rep e dc rs q q" "n \<le> length (dc_wbuf dc)" "dc_flush_write gc n dc d = (fl, dc', d')"
  shows "chunk_rep e dc' rs q (q + n)"
proof -
  have n: "q + n \<le> length rs" using assms(1,2) by (auto simp: chunk_rep_def)
  obtain fl2 d2 where f: "flush_loop gc (take n (dc_wbuf dc)) (dc_bytes dc) 0 d =
      (fst (flush_loop gc (take n (dc_wbuf dc)) (dc_bytes dc) 0 d), fl2, d2)" by (metis prod.collapse)
  have "take n (dc_wbuf dc) = map (buffered (dc_chunkid dc) rs) [q..<q + n]"
    using assms(1) n by (simp add: chunk_rep_def take_map take_upt)
  then have "dc' = dc\<lparr>dc_file := Some (concat (map rec_bytes (take (q + n) rs)))\<rparr>"
    using assms(1,3) f flush_loop_bytes [of gc "dc_chunkid dc" rs "[q..<q + n]" "dc_bytes dc" 0 d] concat_take_upt [OF n, of rec_bytes]
    by (auto simp: dc_flush_write_def chunk_rep_def case_prod_beta)
  then show ?thesis using assms(1) n by (simp add: chunk_rep_def dc_bytes_def)
qed

lemma chunk_rep_flush_drop:
  assumes "chunk_rep e dc rs q p"
  shows "chunk_rep e (fst (dc_flush_drop (p - q) dc d)) rs p p"
proof -
  have "drop (p - q) [q..<length rs] = [p..<length rs]" using assms by (simp add: chunk_rep_def)
  then show ?thesis using assms by (simp add: chunk_rep_def dc_flush_drop_def drop_map dc_bytes_def)
qed

lemma chunk_rep_file:
  assumes "chunk_rep e dc rs q p" "dc_bytes dc = f"
  shows "chunk_rep e (dc\<lparr>dc_file := Some f\<rparr>) rs q p"
  using assms by (simp add: chunk_rep_def dc_bytes_def)

text \<open>The check at the start of a flush.\<close>

lemma rec_off_aligned:
  assumes "\<forall>r \<in> set rs. valid_rec e r"
  shows "256 dvd rec_off rs i"
proof -
  have *: "256 dvd length (concat (map rec_bytes ts))" if "\<forall>r \<in> set ts. valid_rec e r" for ts
    using that length_rec_bytes(2) by (induction ts) (auto simp: mod_eq_0_iff_dvd)
  show ?thesis unfolding rec_off_def by (rule *) (use assms in_set_takeD in fast)
qed

lemma flush_check_ok:
  assumes "chunk_rep e dc rs q q"
  shows "\<exists>pos f. GetStreamWriter (dc_file dc) True = Some (pos, getDiskFileSize dc, f) \<and> f = dc_bytes dc"
proof -
  have len: "length (dc_bytes dc) = rec_off rs q" and q: "q \<le> length rs" and v: "\<forall>r \<in> set rs. valid_rec e r"
    using assms by (simp_all add: chunk_rep_def rec_off_def)
  have al: "length (dc_bytes dc) mod 256 = 0"
    using rec_off_aligned [OF v, of q] len by simp
  have "getDiskFileSize dc = of_nat (rec_off rs q)"
  proof (cases "q = length rs")
    case False
    then have "dc_wbuf dc = buffered (dc_chunkid dc) rs q # map (buffered (dc_chunkid dc) rs) [Suc q..<length rs]"
      using assms by (simp add: chunk_rep_def upt_conv_Cons)
    then show ?thesis by (simp add: getDiskFileSize_def buffered_def)
  qed (use assms in \<open>simp add: getDiskFileSize_def chunk_rep_def\<close>)
  then show ?thesis using len al
    by (cases "dc_file dc") (auto simp: GetStreamWriter_def dc_bytes_def)
qed

lemma getDiskFileSize_file [simp]: "getDiskFileSize (dc\<lparr>dc_file := f\<rparr>) = getDiskFileSize dc"
  by (cases "dc_wbuf dc") (simp_all add: getDiskFileSize_def)

section \<open>Reading a record\<close>

lemma Alloc_ok:
  assumes "mem_ok e" "0 \<le> n"
  shows "\<exists>a d'. Alloc (mcconf e) (memenv e) n d = Some (Some a, d')"
  using assms by (cases "n \<le> BodyInC (mcconf e)") (auto simp: Alloc_def mem_ok_def)

lemma Payload_Copy_ok:
  assumes "mem_ok e"
  shows "\<exists>a d'. Payload_Copy e p d = Some (Some (p\<lparr>carr := a\<rparr>), d') \<and> Body a = pBody p"
  using Alloc_ok [OF assms, of "int (length (pBody p))" d]
  by (auto simp: Payload_Copy_def CArray_Copy_def)

lemma CDecompressSafe_ok:
  assumes "qlz_ok e" "mem_ok e" "x \<noteq> []" "length x + 400 < 2 ^ 32"
  shows "\<exists>a d'. CDecompressSafe e (qlz_compress e x) d = ((a, None), d') \<and> Body a = x"
proof -
  have q: "SizeCompressed (qlz_compress e x) = Some (int (length (qlz_compress e x)))"
      "SizeDecompressed (qlz_compress e x) = Some (int (length x))"
      "qlz_decompress e (qlz_compress e x) = x"
    using assms(1,3,4) by (auto simp: qlz_ok_def)
  have ne: "qlz_compress e x \<noteq> []"
    using q(1) by (auto simp: SizeCompressed_def headerLen_def nth_opt_def)
  obtain a d' where al: "Alloc (mcconf e) (memenv e) (int (length x)) d = Some (Some a, d')"
    using Alloc_ok [OF assms(2), of "int (length x)" d] by auto
  then have "Body a \<noteq> []" using Alloc_length [OF al] assms(3) by auto
  then show ?thesis using q ne al by (simp add: CDecompressSafe_def CDecompress_def)
qed

lemma decompress_rec_ok:
  assumes "qlz_ok e" "mem_ok e" "stored_as e rec r" "same_content w r"
  shows "\<exists>rec' d'. decompress_rec e w d = Some (rec', d') \<and> same_content rec' rec"
proof (cases "Flag (rPayload r) = Flag (rPayload rec)")
  case True
  then have "Flag (rPayload w) AND FLAG_COMPRESS = 0" "pBody (rPayload r) = pBody (rPayload rec)"
    using assms(3,4) flag_add_compress(1) by (auto simp: stored_as_def same_content_def FLAG_COMPRESS_def)
  then show ?thesis using assms(3,4) True
    by (auto simp: decompress_rec_def DiffSizeAfterDecompressed_def IsCompressed_def Decompress_def stored_as_def
        same_content_def)
next
  case False
  then have r: "Flag (rPayload r) = Flag (rPayload rec) + FLAG_COMPRESS" "pBody (rPayload rec) \<noteq> []"
      "pBody (rPayload r) = qlz_compress e (pBody (rPayload rec))" "length (pBody (rPayload rec)) + 400 < 2 ^ 32"
      "Flag (rPayload rec) AND FLAG_COMPRESS = 0"
    using assms(3) by (auto simp: stored_as_def)
  have sz: "SizeDecompressed (qlz_compress e (pBody (rPayload rec))) = Some (int (length (pBody (rPayload rec))))"
    using assms(1) r(2,4) by (auto simp: qlz_ok_def)
  have fl: "Flag (rPayload w) AND FLAG_COMPRESS \<noteq> 0" "Flag (rPayload w) - FLAG_COMPRESS = Flag (rPayload rec)"
    using assms(4) r(1) flag_add_compress [OF r(5)] by (auto simp: same_content_def)
  let ?d = "d\<lparr>GetData := AddSize (int (length (pBody (rPayload rec))) - Cap (carr (rPayload w))) (GetData d)\<rparr>"
  obtain a d' where c: "CDecompressSafe e (qlz_compress e (pBody (rPayload rec))) ?d = ((a, None), d')"
      "Body a = pBody (rPayload rec)"
    using CDecompressSafe_ok [OF assms(1,2) r(2,4), of ?d] by blast
  have b: "pBody (rPayload w) = qlz_compress e (pBody (rPayload rec))" "rKey w = rKey rec"
      "TS (rPayload w) = TS (rPayload rec)" "Ver (rPayload w) = Ver (rPayload rec)"
    using assms(3,4) r(3) by (simp_all add: same_content_def stored_as_def)
  show ?thesis
    using fl sz b c by (simp add: decompress_rec_def DiffSizeAfterDecompressed_def IsCompressed_def Decompress_def
        same_content_def)
qed

lemma buffer_hit:
  assumes "chunk_rep e dc rs q p" "q \<le> i" "i < length rs" "mem_ok e"
  shows "\<exists>w d'. GetRecordByOffsetInBuffer e (of_nat (rec_off rs i)) dc d = Some (Inr (Some w), d') \<and>
    same_content w (rs ! i)"
proof -
  let ?off = "of_nat (rec_off rs i) :: u32" and ?b = "buffered (dc_chunkid dc) rs"
  have tot: "rec_off rs (length rs) < 2 ^ 32" using assms(1) by (simp add: chunk_rep_def)
  have wb: "dc_wbuf dc = map ?b [q..<length rs]" "dc_writingHead dc = of_nat (rec_off rs (length rs))"
    using assms(1) by (simp_all add: chunk_rep_def)
  let ?n = "length rs - q"
  have len: "length (dc_wbuf dc) = ?n" using wb by simp
  have nth: "Offset (wr_pos (dc_wbuf dc ! j)) = of_nat (rec_off rs (q + j))" if "j < ?n" for j
    using wb that by (simp add: buffered_def)
  have ge: "?off \<le> Offset (wr_pos (dc_wbuf dc ! j)) \<longleftrightarrow> i - q \<le> j" if "j < ?n" for j
  proof -
    have "rec_off rs i \<le> rec_off rs (q + j) \<longleftrightarrow> i \<le> q + j"
      using rec_off_mono [of i "q + j" rs] rec_off_less [of "q + j" i rs] that assms(2,3) by fastforce
    then show ?thesis using that assms(2,3) by (auto simp: nth word_le_nat_alt unat_rec_off [OF tot])
  qed
  let ?P = "\<lambda>j. ?off \<le> Offset (wr_pos (dc_wbuf dc ! j))"
  let ?s = "sort_search ?P 0 ?n"
  have sp: "(\<forall>a < ?s. \<not> ?P a) \<and> (\<forall>a. ?s \<le> a \<and> a < ?n \<longrightarrow> ?P a) \<and> ?s \<le> ?n"
    by (rule sort_search_spec) (use ge in auto)
  have iq: "i - q < ?n" using assms(2,3) by simp
  have "?s \<le> i - q" using sp ge [OF iq] iq by (meson le_refl not_le)
  moreover have "\<not> ?s < i - q"
  proof
    assume lt: "?s < i - q"
    then have n: "?s < ?n" using iq by (rule less_trans)
    then have "?P ?s" using sp by blast
    then show False using ge [OF n] lt by simp
  qed
  ultimately have s: "?s = i - q" by simp
  have at: "dc_wbuf dc ! (i - q) = ?b i" using wb assms(2,3) by simp
  have hd: "Offset (wr_pos (hd (dc_wbuf dc))) \<le> ?off"
  proof -
    have "hd (dc_wbuf dc) = dc_wbuf dc ! 0" using len iq by (intro hd_conv_nth) auto
    then show ?thesis using nth [of 0] iq rec_off_mono [of q i rs] assms(2,3)
      by (auto simp: word_le_nat_alt unat_rec_off [OF tot])
  qed
  have lt: "?off < dc_writingHead dc"
    using rec_off_less [of i "length rs" rs] assms(3) wb(2) by (simp add: word_less_nat_alt unat_rec_off [OF tot])
  obtain a d' where c: "Payload_Copy e (rPayload (wr_rec (?b i))) d = Some (Some ((rPayload (wr_rec (?b i)))\<lparr>carr := a\<rparr>), d')"
      "Body a = pBody (rPayload (wr_rec (?b i)))"
    using Payload_Copy_ok [OF assms(4)] by blast
  have miss: "\<not> (?n = 0 \<or> ?off < Offset (wr_pos (hd (dc_wbuf dc))) \<or> dc_writingHead dc \<le> ?off)"
    using hd lt iq by auto
  have o: "Offset (wr_pos (?b i)) = ?off" by (simp add: buffered_def)
  show ?thesis
    unfolding GetRecordByOffsetInBuffer_def Let_def len s if_not_P [OF miss] at o c(1)
    using iq c(2) by (simp add: same_content_def buffered_def wrapRecord_def)
qed

lemma buffer_miss:
  assumes "chunk_rep e dc rs q p" "i < q"
  shows "GetRecordByOffsetInBuffer e (of_nat (rec_off rs i)) dc d = Some (Inr None, d)"
proof (cases "q = length rs")
  case True
  then show ?thesis using assms by (simp add: GetRecordByOffsetInBuffer_def chunk_rep_def)
next
  case False
  then have q: "q < length rs" and tot: "rec_off rs (length rs) < 2 ^ 32"
    using assms by (simp_all add: chunk_rep_def)
  have "Offset (wr_pos (hd (dc_wbuf dc))) = of_nat (rec_off rs q)"
    using assms(1) q by (simp add: chunk_rep_def upt_conv_Cons buffered_def)
  moreover have "(of_nat (rec_off rs i) :: u32) < of_nat (rec_off rs q)"
    using rec_off_less [OF assms(2)] q assms(2) by (simp add: word_less_nat_alt unat_rec_off [OF tot])
  ultimately show ?thesis by (simp add: GetRecordByOffsetInBuffer_def)
qed

lemma disk_hit:
  assumes "chunk_rep e dc rs q p" "i < q" "mem_ok e"
  shows "\<exists>w d'. readRecordAtPath e (dc_file dc) (of_nat (rec_off rs i)) d = Some (Inr w, d') \<and>
    same_content (wr_rec w) (rs ! i)"
proof -
  have v: "valid_rec e (rs ! i)" and i: "i < p" "p \<le> length rs" and tot: "rec_off rs (length rs) < 2 ^ 32"
    and bs: "dc_bytes dc = concat (map rec_bytes (take p rs))"
    using assms(1,2) by (simp_all add: chunk_rep_def)
  have "take p rs = take i rs @ rs ! i # drop (Suc i) (take p rs)"
    using id_take_nth_drop [of i "take p rs"] i by (simp add: min_def)
  then have f: "dc_bytes dc = concat (map rec_bytes (take i rs)) @ rec_bytes (rs ! i)
      @ concat (map rec_bytes (drop (Suc i) (take p rs)))"
    unfolding bs by (metis concat.simps(2) concat_append list.simps(9) map_append)
  have "dc_file dc = Some (dc_bytes dc)"
    using f rec_bytes_ne [of "rs ! i"] by (cases "dc_file dc") (simp_all add: dc_bytes_def)
  moreover have "length (concat (map rec_bytes (take i rs))) = unat (of_nat (rec_off rs i) :: u32)"
    using unat_rec_off [OF tot, of i] i by (simp add: rec_off_def)
  ultimately show ?thesis
    using readRecordAt_rec [OF v assms(3)] f
    by (auto simp: readRecordAtPath_def same_content_def)
qed

lemma chunk_read:
  assumes "chunk_rep e dc rs q p" "i < length rs" "qlz_ok e" "mem_ok e" "stored_as e rec (rs ! i)"
  shows "\<exists>rec' b d'. GetRecordByOffset e (of_nat (rec_off rs i)) dc d = Some ((Inr rec', b), d') \<and>
    same_content rec' rec"
proof (cases "i < q")
  case False
  then obtain w d' where w: "GetRecordByOffsetInBuffer e (of_nat (rec_off rs i)) dc d = Some (Inr (Some w), d')"
      "same_content w (rs ! i)"
    using buffer_hit [OF assms(1) _ assms(2,4), of d] by auto
  with decompress_rec_ok [OF assms(3-5) w(2), of d'] show ?thesis by (auto simp: GetRecordByOffset_def)
next
  case True
  from disk_hit [OF assms(1) True assms(4), of d] obtain w d'
    where w: "readRecordAtPath e (dc_file dc) (of_nat (rec_off rs i)) d = Some (Inr w, d')" "same_content (wr_rec w) (rs ! i)"
    by blast
  with decompress_rec_ok [OF assms(3-5) w(2), of d'] buffer_miss [OF assms(1) True, of d] show ?thesis
    by (auto simp: GetRecordByOffset_def)
qed

section \<open>Running\<close>

lemma TryCompress_stored:
  assumes "acceptable e rec" "qlz_ok e" "TryCompress e rec d = Some (r, d')"
  shows "stored_as e rec r" "valid_rec e r"
proof -
  let ?b = "pBody (rPayload rec)"
  have a: "length ?b + 400 < 2 ^ 32" "Flag (rPayload rec) AND FLAG_COMPRESS = 0"
    using assms(1) by (simp_all add: acceptable_def)
  have *: "stored_as e rec r \<and> length (pBody (rPayload r)) \<le> length ?b + 400"
    using TryCompress_cases [OF assms(3)]
  proof (elim disjE conjE)
    assume "r = rec"
    then show ?thesis using a by (simp add: stored_as_def)
  next
    let ?a = "carr (rPayload r)"
    assume c: "?b \<noteq> []" "Flag (rPayload rec) AND FLAG_COMPRESS = 0" "Body ?a = qlz_compress e ?b"
      "r = rec\<lparr>rPayload := rPayload rec\<lparr>carr := ?a, Flag := Flag (rPayload rec) + FLAG_COMPRESS\<rparr>\<rparr>"
    have f: "rKey r = rKey rec" "TS (rPayload r) = TS (rPayload rec)" "Ver (rPayload r) = Ver (rPayload rec)"
        "Flag (rPayload r) = Flag (rPayload rec) + FLAG_COMPRESS"
      by (subst c(4), simp)+
    have "length (qlz_compress e ?b) \<le> length ?b + 400"
      using assms(2) c(1) a(1) unfolding qlz_ok_def by blast
    then show ?thesis using c(1-3) f a by (simp add: stored_as_def)
  qed
  then show "stored_as e rec r" ..
  have k: "rKey r = rKey rec" using * by (simp add: stored_as_def)
  have "unat (of_nat (length (pBody (rPayload r))) :: u32) \<le> unat (of_nat (length ?b + 400) :: u32)"
    using * a(1) by (simp only: unsigned_of_nat take_bit_nat_eq_self) (simp add: take_bit_nat_eq_self)
  then have "IsValidValueSize (mcconf e) (of_nat (length (pBody (rPayload r))))"
    using assms(1) unfolding acceptable_def IsValidValueSize_def word_le_nat_alt by linarith
  then show "valid_rec e r" using assms(1) k * by (auto simp: acceptable_def valid_rec_def)
qed

lemma valid_rec_max:
  assumes "valid_rec e r"
  shows "length (rec_bytes r) \<le> max_rec e"
proof -
  note v = valid_sizes(1,2) [OF assms] and s = rec_pad_nat [of r]
  have "length (rKey r) \<le> unat (word_of_int (MaxKeyLen (mcconf e)) :: u32)"
      "length (pBody (rPayload r)) \<le> unat (word_of_int (BodyMax (mcconf e)) :: u32)"
    using assms v by (simp_all add: valid_rec_def IsValidKeySize_def IsValidValueSize_def word_le_nat_alt)
  moreover have "length (rec_bytes r) \<le> 24 + length (rKey r) + length (pBody (rPayload r)) + 255"
  proof -
    have b: "24 + length (rKey r) + length (pBody (rPayload r)) + 255 < 2 ^ 32"
      using assms by (simp add: valid_rec_def)
    have "(n + 255) div 256 * 256 \<le> n + 255" for n :: nat by simp
    then show ?thesis using Sizes_unat(2) [OF b] length_rec_bytes(1) [OF assms] by (simp only:)
  qed
  ultimately show ?thesis by (simp add: max_rec_def)
qed

lemma ds_AppendRecord_cases:
  assumes "ds_AppendRecord e rec ds d = Some (pos, bg, wk, ds', d')"
  obtains r d1 head where "TryCompress e rec d = Some (r, d1)" "chunk_in_range head"
    "head = (if dc_writingHead (ds_chunks ds (ds_newHead ds)) + snd (Sizes r) > word_of_int (DataFileMax (conf e))
             then ds_newHead ds + 1 else ds_newHead ds)"
    "pos = \<lparr>ChunkID = head, Offset = if head = ds_newHead ds then dc_writingHead (ds_chunks ds head) else 0\<rparr>"
    "ds_newHead ds' = head"
    "ds_chunks ds' = (ds_chunks ds)(head := dc_AppendRecord ((wrapRecord r)\<lparr>wr_pos := pos\<rparr>) (ds_chunks ds head))"
proof -
  obtain r d1 where "TryCompress e rec d = Some (r, d1)"
    using assms by (cases "TryCompress e rec d") (auto simp: ds_AppendRecord_def)
  then show thesis
    using assms by (intro that [of r d1 "ds_newHead ds'"])
      (auto simp: ds_AppendRecord_def Let_def split: if_splits)
qed

text \<open>The record goes to a chunk that has room for it, at the chunk's writing head.\<close>

lemma append_fits:
  assumes "ds_inv e log ds ph L Q P" "chunk_limits e" "valid_rec e r"
    and "head = (if dc_writingHead (ds_chunks ds (ds_newHead ds)) + snd (Sizes r) > word_of_int (DataFileMax (conf e))
             then ds_newHead ds + 1 else ds_newHead ds)"
  shows "int (rec_off (L head) (length (L head)) + length (rec_bytes r)) \<le> DataFileMax (conf e)"
    and "head \<noteq> ds_newHead ds \<Longrightarrow> L head = [] \<and> dc_writingHead (ds_chunks ds head) = 0"
proof -
  let ?h = "ds_newHead ds" and ?M = "DataFileMax (conf e)"
  let ?o = "rec_off (L ?h) (length (L ?h))" and ?n = "length (rec_bytes r)"
  have inv: "chunk_rep e (ds_chunks ds c) (L c) (Q c) (P c)" "int (rec_off (L c) (length (L c))) \<le> ?M"
    "?h < c \<Longrightarrow> L c = []" for c using assms(1) by (simp_all add: ds_inv_def)
  have wh: "dc_writingHead (ds_chunks ds c) = of_nat (rec_off (L c) (length (L c)))" for c
    using inv(1) [of c] by (simp add: chunk_rep_def)
  have n: "int ?n \<le> int (max_rec e)" using valid_rec_max [OF assms(3)] by simp
  have lim: "int (max_rec e) \<le> ?M" "?M + int (max_rec e) < 2 ^ 32" using assms(2) by (simp_all add: chunk_limits_def)
  have "int ?o + int ?n < 2 ^ 32" using inv(2) [of ?h] n lim by linarith
  then have "uint (of_nat (?o + ?n) :: u32) = int (?o + ?n)"
    by (simp add: unsigned_of_nat take_bit_nat_eq_self del: of_nat_add)
  moreover have "uint (word_of_int ?M :: u32) = ?M" using lim n by (simp add: take_bit_int_eq_self unsigned_of_int)
  ultimately have rot: "dc_writingHead (ds_chunks ds ?h) + snd (Sizes r) > word_of_int ?M \<longleftrightarrow> int (?o + ?n) > ?M"
    by (simp add: wh RecSize_length [OF assms(3)] word_less_def)
  show "int (rec_off (L head) (length (L head)) + length (rec_bytes r)) \<le> ?M"
    using assms(4) inv(3) [of head] n lim(1) unfolding rot by (auto split: if_splits)
  show "L head = [] \<and> dc_writingHead (ds_chunks ds head) = 0" if "head \<noteq> ?h"
    using that assms(4) inv(3) [of head] wh [of head] by (auto split: if_splits)
qed

lemma phase_ok_append:
  assumes "phase_ok ds Q P ph" "Offset (wr_pos w) = dc_size (ds_chunks ds h)"
    and "ds_chunks ds' = (ds_chunks ds)(h := dc_AppendRecord w (ds_chunks ds h))"
  shows "phase_ok ds' Q P ph"
  using assms
  by (auto simp: phase_ok_def getDiskFileSize_def dc_AppendRecord_def Let_def split: flush_phase.splits list.splits)

lemma logged_append: "logged_at e L pos rec \<Longrightarrow> logged_at e (L(h := L h @ [r])) pos rec"
  by (auto simp: logged_at_def nth_append intro: exI [of _ "_ :: nat"] less_SucI)

text \<open>The record appended may be one already compressed: \<open>orig\<close> is the record it stands for.\<close>

lemma ds_append_stored:
  assumes "ds_inv e log ds ph L Q P" "chunk_limits e"
    and stored: "\<And>r d1. TryCompress e rec d = Some (r, d1) \<Longrightarrow> stored_as e orig r \<and> valid_rec e r"
    and "ds_AppendRecord e rec ds d = Some (pos, bg, wk, ds', d')"
  shows "\<exists>r. stored_as e orig r \<and> ds_inv e ((pos, orig) # log) ds' ph (L(ChunkID pos := L (ChunkID pos) @ [r])) Q P \<and>
    Offset pos = of_nat (rec_off (L (ChunkID pos)) (length (L (ChunkID pos))))"
  using assms(4)
proof (rule ds_AppendRecord_cases)
  fix r d1 head
  assume r: "TryCompress e rec d = Some (r, d1)" "chunk_in_range head"
    and head: "head = (if dc_writingHead (ds_chunks ds (ds_newHead ds)) + snd (Sizes r) > word_of_int (DataFileMax (conf e))
             then ds_newHead ds + 1 else ds_newHead ds)"
    and pos: "pos = \<lparr>ChunkID = head, Offset = if head = ds_newHead ds then dc_writingHead (ds_chunks ds head) else 0\<rparr>"
    and ds': "ds_newHead ds' = head"
      "ds_chunks ds' = (ds_chunks ds)(head := dc_AppendRecord ((wrapRecord r)\<lparr>wr_pos := pos\<rparr>) (ds_chunks ds head))"
  have st: "stored_as e orig r" "valid_rec e r" using stored [OF r(1)] by blast+
  note fits = append_fits [OF assms(1,2) st(2) head]
  define dc where "dc = ds_chunks ds head"
  have rep: "chunk_rep e dc (L head) (Q head) (P head)" and cid: "dc_chunkid dc = head"
    using assms(1) by (simp_all add: ds_inv_def dc_def)
  have p: "pos = \<lparr>ChunkID = dc_chunkid dc, Offset = dc_writingHead dc\<rparr>"
    using pos fits(2) cid by (auto simp: dc_def)
  have wh: "dc_writingHead dc = of_nat (rec_off (L head) (length (L head)))" "dc_size dc = dc_writingHead dc"
    using rep by (simp_all add: chunk_rep_def)
  let ?L = "L(head := L head @ [r])"
  have "rec_off (L head) (length (L head)) + length (rec_bytes r) < 2 ^ 32"
    using fits(1) assms(2) by (simp add: chunk_limits_def)
  from chunk_rep_append [OF rep st(2) this]
  have rep': "chunk_rep e (ds_chunks ds' head) (L head @ [r]) (Q head) (P head)"
    by (simp add: ds'(2) p dc_def [symmetric])
  have lg: "logged_at e ?L pos orig"
    using r(2) st(1) wh(1) cid by (auto simp: logged_at_def p intro!: exI [of _ "length (L head)"])
  have "phase_ok ds' Q P ph"
    using assms(1) wh(2) by (intro phase_ok_append [OF _ _ ds'(2)]) (simp_all add: ds_inv_def p dc_def)
  moreover have "\<forall>(ps, rc) \<in> set ((pos, orig) # log). logged_at e ?L ps rc"
    using assms(1) lg logged_append by (auto simp: ds_inv_def)
  moreover have "ds_newHead ds \<le> head" using head by simp
  ultimately have "ds_inv e ((pos, orig) # log) ds' ph ?L Q P"
    using assms(1) rep' fits(1) cid
    by (auto simp: ds_inv_def ds' rec_off_snoc dc_def dc_AppendRecord_def Let_def)
  moreover have "ChunkID pos = head" "Offset pos = of_nat (rec_off (L head) (length (L head)))" using p wh(1) cid by simp_all
  ultimately show ?thesis using st(1) by auto
qed

lemma ds_append_inv:
  assumes "ds_inv e log ds ph L Q P" "chunk_limits e" "qlz_ok e" "acceptable e rec"
    and "ds_AppendRecord e rec ds d = Some (pos, bg, wk, ds', d')"
  shows "\<exists>L'. ds_inv e ((pos, rec) # log) ds' ph L' Q P"
  using ds_append_stored [OF assms(1,2) _ assms(5)] TryCompress_stored [OF assms(4,3)] by blast

lemma ds_inv_upd:
  assumes "ds_inv e log ds ph L Q P" "chunk_rep e dc (L c) q p" "dc_chunkid dc = c"
    and "phase_ok (upd_chunk c dc ds) (Q(c := q)) (P(c := p)) ph'"
  shows "ds_inv e log (upd_chunk c dc ds) ph' L (Q(c := q)) (P(c := p))"
  using assms by (auto simp: ds_inv_def upd_chunk_def)

lemma ds_inv_wbufSize: "ds_inv e log ds Idle L Q P \<Longrightarrow> ds_inv e log (ds\<lparr>ds_wbufSize := w\<rparr>) Idle L Q P"
  by (auto simp: ds_inv_def phase_ok_def)

lemma flush_write_chunkid: "dc_flush_write gc n dc d = (fl, dc', d') \<Longrightarrow> dc_chunkid dc' = dc_chunkid dc"
  by (auto simp: dc_flush_write_def split: prod.splits)

lemma ds_run_inv:
  assumes "ds_run e log ds d ph" "chunk_limits e" "qlz_ok e"
  shows "\<exists>L Q P. ds_inv e log ds ph L Q P"
  using assms(1)
proof induction
  case (run_new d)
  have "0 \<le> DataFileMax (conf e)" using assms(2) by (simp add: chunk_limits_def)
  then have "ds_inv e [] (NewdataStore (\<lambda>_. None)) Idle (\<lambda>_. []) (\<lambda>_. 0) (\<lambda>_. 0)"
    using chunk_rep_new [of None e] by (simp add: ds_inv_def NewdataStore_def phase_ok_def) (simp add: new_chunk_def)
  then show ?case by blast
next
  case (run_append log ds d ph rec pos bg wk ds' d')
  then obtain L Q P where "ds_inv e log ds ph L Q P" by blast
  from ds_append_inv [OF this assms(2,3) run_append.hyps(2,3)] show ?case by blast
next
  case (run_open log ds d c at off f)
  then obtain L Q P where inv: "ds_inv e log ds Idle L Q P" by blast
  then have PQ: "P = Q" and rep: "chunk_rep e (ds_chunks ds c) (L c) (Q c) (Q c)" and cid: "dc_chunkid (ds_chunks ds c) = c"
    by (auto simp: ds_inv_def phase_ok_def)
  have f: "f = dc_bytes (ds_chunks ds c)" "off = getDiskFileSize (ds_chunks ds c)"
    using flush_check_ok [OF rep] run_open.hyps by auto
  let ?dc = "(ds_chunks ds c)\<lparr>dc_file := Some f\<rparr>"
  have "ds_inv e log (upd_chunk c ?dc ds) (Sized c off) L (Q(c := Q c)) (P(c := Q c))"
    using PQ f run_open.hyps
    by (intro ds_inv_upd [OF inv chunk_rep_file [OF rep]])
      (auto simp: cid phase_ok_def upd_chunk_def)
  then show ?case by blast
next
  case (run_test log ds d c off)
  then show ?case by (auto simp: ds_inv_def phase_ok_def)
next
  case (run_check log ds d c off nonempty)
  then show ?case by (auto simp: ds_inv_def phase_ok_def)
next
  case (run_count log ds d c)
  then show ?case by (auto simp: ds_inv_def phase_ok_def)
next
  case (run_write log ds d c n flushed dc d')
  then obtain L Q P where inv: "ds_inv e log ds (Counted c n) L Q P" by blast
  then have PQ: "P = Q" "n \<le> length (dc_wbuf (ds_chunks ds c))" "chunk_in_range c"
      and rep: "chunk_rep e (ds_chunks ds c) (L c) (Q c) (Q c)" and cid: "dc_chunkid (ds_chunks ds c) = c"
    by (auto simp: ds_inv_def phase_ok_def)
  have "ds_inv e log (upd_chunk c dc ds) (Written c n flushed) L (Q(c := Q c)) (P(c := Q c + n))"
    using PQ flush_write_chunkid [OF run_write.hyps(2)]
    by (intro ds_inv_upd [OF inv chunk_rep_flush_write [OF rep PQ(2) run_write.hyps(2)]])
      (auto simp: cid phase_ok_def)
  then show ?case by blast
next
  case (run_drop log ds d c n flushed dc d')
  then obtain L Q P where inv: "ds_inv e log ds (Written c n flushed) L Q P" by blast
  then have PQ: "P = Q(c := Q c + n)" and rep: "chunk_rep e (ds_chunks ds c) (L c) (Q c) (Q c + n)"
      and cid: "dc_chunkid (ds_chunks ds c) = c"
    by (auto simp: ds_inv_def phase_ok_def split: if_splits)
  have dc: "dc = fst (dc_flush_drop (Q c + n - Q c) (ds_chunks ds c) d)" "dc_chunkid dc = c"
    using run_drop.hyps(2) cid by (auto simp: dc_flush_drop_def)
  have "ds_inv e log (upd_chunk c dc ds) Idle L (Q(c := Q c + n)) (P(c := Q c + n))"
    using PQ chunk_rep_flush_drop [OF rep, of d] dc by (intro ds_inv_upd [OF inv]) (auto simp: phase_ok_def)
  then have "ds_inv e log ((upd_chunk c dc ds)\<lparr>ds_wbufSize := ds_wbufSize ds - flushed\<rparr>) Idle L (Q(c := Q c + n)) (P(c := Q c + n))"
    by (rule ds_inv_wbufSize)
  then show ?case by blast
qed blast

text \<open>C6: nothing acknowledged is lost: in every reachable state of the data store, whatever appends,
  reads and parts of flushes have run, a record that was appended is returned by a read at its position,
  with its key, value, flag, version and timestamp, be it in the buffer, on disk or both.
  Memory is available, the compressor keeps its contract and the size limits fit 32 bits.\<close>

theorem appended_stays_readable:
  assumes "ds_run e log ds d ph" and "(pos, rec) \<in> set log"
    and "chunk_limits e" and "qlz_ok e" and "mem_ok e"
  shows "\<exists>rec' b d'. GetRecordByPos e pos ds d0 = Some ((Inr rec', b), d') \<and> same_content rec' rec"
proof -
  obtain L Q P where inv: "ds_inv e log ds ph L Q P" using ds_run_inv [OF assms(1,3,4)] by blast
  let ?c = "ChunkID pos"
  have "logged_at e L pos rec" and rep: "chunk_rep e (ds_chunks ds ?c) (L ?c) (Q ?c) (P ?c)"
    using inv assms(2) by (auto simp: ds_inv_def)
  then obtain i where i: "i < length (L ?c)" "Offset pos = of_nat (rec_off (L ?c) i)" "stored_as e rec (L ?c ! i)"
      and c: "chunk_in_range ?c"
    by (auto simp: logged_at_def)
  from chunk_read [OF rep i(1) assms(4,5) i(3), of d0] i(2) c show ?thesis
    by (simp add: GetRecordByPos_def)
qed

lemma ds_flush_total:
  assumes "ds_inv e log ds Idle L Q P" "chunk_in_range c"
  shows "ds_flush c force recent ds d \<noteq> None"
proof -
  have "chunk_rep e (ds_chunks ds c) (L c) (Q c) (Q c)" using assms(1) by (auto simp: ds_inv_def phase_ok_def)
  from flush_check_ok [OF this] obtain ps f where
    "GetStreamWriter (dc_file (ds_chunks ds c)) True = Some (ps, getDiskFileSize (ds_chunks ds c), f)" by blast
  then show ?thesis using assms(2)
    by (auto simp: ds_flush_def chunk_in_range_def Let_def split: prod.splits)
qed

lemma ds_run_head: "ds_run e log ds d ph \<Longrightarrow> chunk_in_range (ds_newHead ds)"
  by (induction rule: ds_run.induct)
    (auto simp: NewdataStore_def chunk_in_range_def MAX_NUM_CHUNK_def upd_chunk_def ds_AppendRecord_def Let_def split: bind_splits if_splits)

lemma ds_flush_newest: "c < 0 \<Longrightarrow> 0 \<le> ds_newHead ds \<Longrightarrow> ds_flush c force recent ds d = ds_flush (ds_newHead ds) force recent ds d"
  by (simp add: ds_flush_def)

lemma getDiskFileSize_read: "getDiskFileSize dc = size_read (dc_wbuf dc \<noteq> []) dc"
  by (cases "dc_wbuf dc") (simp_all add: getDiskFileSize_def size_read_def)

text \<open>With a record in the buffer the size of the chunk is beyond the end of its file.\<close>

lemma buffered_size:
  assumes "chunk_rep e dc rs q q" "dc_wbuf dc \<noteq> []"
  shows "getDiskFileSize dc \<noteq> dc_size dc"
proof -
  have q: "q < length rs" and wb: "hd (dc_wbuf dc) = buffered (dc_chunkid dc) rs q" and lt: "rec_off rs (length rs) < 2 ^ 32"
      and sz: "dc_size dc = of_nat (rec_off rs (length rs))"
    using assms by (auto simp: chunk_rep_def upt_conv_Cons)
  have "unat (of_nat (rec_off rs q) :: u32) < unat (of_nat (rec_off rs (length rs)) :: u32)"
    using unat_rec_off [OF lt, of q] unat_rec_off [OF lt, of "length rs"] rec_off_less [OF q] q by simp
  then have "of_nat (rec_off rs q) \<noteq> dc_size dc" unfolding sz by (metis less_irrefl)
  then show ?thesis using assms(2) wb by (simp add: getDiskFileSize_read size_read_def buffered_def)
qed

text \<open>C7: when a flush stops the process.  In every state that appends, reads and parts of flushes reach from an empty store (no garbage collection), a flush that runs undisturbed, of a given chunk or
  of the newest one, is not stopped, and the file of every chunk can be opened for appending.  When appends come in between, the comparison of the file's size with the chunk's fails in
  exactly one case: \<open>getDiskFileSize\<close> found the buffer empty, and a record was appended before it read the size.\<close>

theorem flush_stops_on_race:
  assumes "ds_run e log ds d ph" and "chunk_limits e" and "qlz_ok e"
  shows "(ph = Idle \<and> (c < 0 \<or> chunk_in_range c) \<longrightarrow> ds_flush c force recent ds d' \<noteq> None) \<and>
    (ph = Idle \<longrightarrow> GetStreamWriter (dc_file (ds_chunks ds c)) True \<noteq> None) \<and>
    (ph = Tested c off nonempty \<longrightarrow>
      (off \<noteq> size_read nonempty (ds_chunks ds c) \<longleftrightarrow> \<not> nonempty \<and> dc_wbuf (ds_chunks ds c) \<noteq> []))"
proof (intro conjI impI)
  obtain L Q P where inv: "ds_inv e log ds ph L Q P" using ds_run_inv [OF assms] by blast
  show "ds_flush c force recent ds d' \<noteq> None" if "ph = Idle \<and> (c < 0 \<or> chunk_in_range c)"
    using ds_flush_total [of e log ds L Q P _ force recent d'] ds_run_head [OF assms(1)] inv that ds_flush_newest [of c ds force recent d']
    by (auto simp: chunk_in_range_def)
  show "GetStreamWriter (dc_file (ds_chunks ds c)) True \<noteq> None" if "ph = Idle"
    using flush_check_ok [of e "ds_chunks ds c" "L c" "Q c"] inv that by (auto simp: ds_inv_def phase_ok_def)
  assume t: "ph = Tested c off nonempty"
  with inv have rep: "chunk_rep e (ds_chunks ds c) (L c) (Q c) (Q c)" and off: "off = getDiskFileSize (ds_chunks ds c)"
      and ne: "nonempty \<longrightarrow> dc_wbuf (ds_chunks ds c) \<noteq> []"
    by (auto simp: ds_inv_def phase_ok_def)
  show "off \<noteq> size_read nonempty (ds_chunks ds c) \<longleftrightarrow> \<not> nonempty \<and> dc_wbuf (ds_chunks ds c) \<noteq> []"
    using buffered_size [OF rep] ne unfolding off by (auto simp: getDiskFileSize_read size_read_def)
qed

section \<open>Rewriting a chunk\<close>

text \<open>The garbage collector writes the records it keeps, in order.\<close>

fun append_all_GC :: "Record list \<Rightarrow> dataChunk \<Rightarrow> (u32 list \<times> dataChunk) option" where
  "append_all_GC [] dc = Some ([], dc)"
| "append_all_GC (r # rs) dc = do {
     (off, dc1) \<leftarrow> AppendRecordGC (wrapRecord r) dc;
     (offs, dc2) \<leftarrow> append_all_GC rs dc1;
     Some (off # offs, dc2)
   }"

definition gc_state :: "dataChunk \<Rightarrow> bytes \<Rightarrow> bytes \<Rightarrow> bool" where
  "gc_state dc f pre \<longleftrightarrow> dc_gcWriter dc = Some (length pre) \<and> dc_file dc = Some (pre @ drop (length pre) f) \<and>
     dc_writingHead dc = of_nat (length pre) \<and> dc_size dc = of_nat (max (length pre) (length f))"

lemma AppendRecordGC_state:
  assumes "gc_state dc f pre" "valid_rec e r" "length pre + length (rec_bytes r) < 2 ^ 32" "length f < 2 ^ 32"
  shows "\<exists>dc'. AppendRecordGC (wrapRecord r) dc = Some (of_nat (length pre), dc') \<and> gc_state dc' f (pre @ rec_bytes r) \<and>
    dc_chunkid dc' = dc_chunkid dc \<and> dc_rewriting dc' = dc_rewriting dc"
proof -
  let ?b = "rec_bytes r" and ?n = "length pre + length (rec_bytes r)"
  have w: "write_file (length pre) ?b (pre @ drop (length pre) f) = (pre @ ?b) @ drop (length (pre @ ?b)) f"
    by (simp add: write_file_def add.commute)
  have hd: "dc_writingHead dc + snd (Sizes r) = of_nat ?n"
    using assms(1) RecSize_length [OF assms(2)] by (simp add: gc_state_def)
  have mx: "(of_nat (max (length pre) (length f)) :: u32) \<le> of_nat ?n \<longleftrightarrow> max (length pre) (length f) \<le> ?n"
    using assms(3,4) by (simp add: word_le_nat_alt unsigned_of_nat take_bit_nat_eq_self del: of_nat_add)
  have sz: "(if dc_size dc \<le> of_nat ?n then of_nat ?n else dc_size dc) = of_nat (max ?n (length f))"
    using assms(1) mx by (auto simp: gc_state_def max_def simp del: of_nat_add split: if_splits)
  show ?thesis
    using assms(1) w hd sz
    by (auto simp: AppendRecordGC_def Let_def gc_state_def wr_append_pos dc_bytes_def simp del: of_nat_add split: if_splits)
qed

lemma append_all_GC_state:
  assumes "gc_state dc f pre" "\<forall>r \<in> set rs. valid_rec e r" "length pre + rec_off rs (length rs) < 2 ^ 32" "length f < 2 ^ 32"
  shows "\<exists>dc'. append_all_GC rs dc = Some (map (\<lambda>i. of_nat (length pre + rec_off rs i)) [0..<length rs], dc') \<and>
    gc_state dc' f (pre @ concat (map rec_bytes rs)) \<and> dc_chunkid dc' = dc_chunkid dc \<and> dc_rewriting dc' = dc_rewriting dc"
  using assms(1-3)
proof (induction rs arbitrary: dc pre)
  case (Cons r rs)
  have ro: "rec_off (r # rs) (Suc i) = length (rec_bytes r) + rec_off rs i" for i by (simp add: rec_off_def)
  obtain dc1 where 1: "AppendRecordGC (wrapRecord r) dc = Some (of_nat (length pre), dc1)" "gc_state dc1 f (pre @ rec_bytes r)"
      "dc_chunkid dc1 = dc_chunkid dc" "dc_rewriting dc1 = dc_rewriting dc"
    using AppendRecordGC_state [OF Cons.prems(1) _ _ assms(4), of e r] Cons.prems(2,3) by (auto simp: ro)
  have "length (pre @ rec_bytes r) + rec_off rs (length rs) < 2 ^ 32" using Cons.prems(3) by (simp add: ro)
  from Cons.IH [OF 1(2) _ this] Cons.prems(2) obtain dc2 where
    2: "append_all_GC rs dc1 = Some (map (\<lambda>i. of_nat (length (pre @ rec_bytes r) + rec_off rs i)) [0..<length rs], dc2)"
      "gc_state dc2 f ((pre @ rec_bytes r) @ concat (map rec_bytes rs))" "dc_chunkid dc2 = dc_chunkid dc1"
      "dc_rewriting dc2 = dc_rewriting dc1" by auto
  have "map (\<lambda>i. of_nat (length pre + rec_off (r # rs) i)) [0..<length (r # rs)] =
      of_nat (length pre) # map (\<lambda>i. of_nat (length (pre @ rec_bytes r) + rec_off rs i) :: u32) [0..<length rs]"
    by (simp only: list.size add_0_right add_Suc_right upt_conv_Cons [of 0 "Suc _"] zero_less_Suc list.map map_Suc_upt [symmetric] map_map)
      (simp add: ro add.assoc)
  then show ?case using 1 2 by simp
qed simp

text \<open>C8: a chunk rewritten by the garbage collector holds exactly the records it kept: after
  \<open>beginGCWriting\<close>, one \<open>AppendRecordGC\<close> for each and \<open>endGCWriting\<close>, the file is their encodings one after another with
  nothing left of the old contents, the returned offsets are where they start, and the chunk's size is the file's.\<close>

theorem gc_rewrite_exact:
  assumes "dc_file dc = Some f" and "dc_size dc = of_nat (length f)" and "length f < 2 ^ 32"
    and "\<forall>r \<in> set rs. valid_rec e r" and "length (concat (map rec_bytes rs)) < 2 ^ 32"
  shows "\<exists>dc1 dc2. beginGCWriting (dc_chunkid dc) dc = Some dc1 \<and>
    append_all_GC rs dc1 = Some (map (\<lambda>i. of_nat (length (concat (map rec_bytes (take i rs))))) [0..<length rs], dc2) \<and>
    dc_bytes (endGCWriting dc2) = concat (map rec_bytes rs) \<and>
    dc_size (endGCWriting dc2) = of_nat (length (concat (map rec_bytes rs))) \<and>
    dc_gcWriter (endGCWriting dc2) = None \<and> \<not> dc_rewriting (endGCWriting dc2)"
proof -
  let ?dc1 = "dc\<lparr>dc_rewriting := True, dc_writingHead := 0, dc_gcWriter := Some 0, dc_file := Some f\<rparr>"
  let ?new = "concat (map rec_bytes rs)"
  have b: "beginGCWriting (dc_chunkid dc) dc = Some ?dc1"
    using assms(1) by (simp add: beginGCWriting_def GetStreamWriter_def Let_def)
  have "gc_state ?dc1 f []" using assms(2) by (simp add: gc_state_def)
  from append_all_GC_state [OF this assms(4) _ assms(3)] assms(5) obtain dc2 where
    a: "append_all_GC rs ?dc1 = Some (map (\<lambda>i. of_nat (rec_off rs i)) [0..<length rs], dc2)"
      "gc_state dc2 f ?new" "dc_rewriting dc2"
    by (auto simp: rec_off_def)
  have lt: "dc_writingHead dc2 < dc_size dc2 \<longleftrightarrow> length ?new < length f"
    using a(2) assms(3,5) by (auto simp: gc_state_def word_less_nat_alt unsigned_of_nat take_bit_nat_eq_self)
  have u: "unat (dc_writingHead dc2) = length ?new" "dc_writingHead dc2 = 0 \<longleftrightarrow> ?new = []"
    using a(2) assms(5) by (auto simp: gc_state_def unsigned_of_nat take_bit_nat_eq_self unat_eq_0 [symmetric] simp del: unat_eq_0)
  have "dc_bytes (endGCWriting dc2) = ?new \<and> dc_size (endGCWriting dc2) = of_nat (length ?new) \<and>
      dc_gcWriter (endGCWriting dc2) = None \<and> \<not> dc_rewriting (endGCWriting dc2)"
    using a(2,3) lt u by (auto simp: endGCWriting_def Let_def gc_state_def Truncate_def dc_bytes_def max_def)
  then show ?thesis using b a(1) by (simp add: rec_off_def)
qed

section \<open>Concrete inputs\<close>

lemma toy_limits: "chunk_limits toy_env" "acceptable toy_env sample_rec"
  by (simp_all add: chunk_limits_def max_rec_def toy_env_def sample_conf_def acceptable_def IsValidKeySize_def
      IsValidValueSize_def sample_rec_def FLAG_COMPRESS_def)

lemma sample_append:
  "\<exists>bg wk ds d. ds_AppendRecord toy_env sample_rec (NewdataStore (\<lambda>_. None)) ResetAll =
     Some (\<lparr>ChunkID = 0, Offset = 0\<rparr>, bg, wk, ds, d)"
proof -
  have sz: "Sizes sample_rec = (28, 256)" by (simp add: Sizes_def sample_rec_def)
  have "TryCompress toy_env sample_rec ResetAll = Some (sample_rec, ResetAll)"
    by (simp add: TryCompress_def Let_def rec_Size_def sz)
  then show ?thesis
    by (simp add: ds_AppendRecord_def Let_def NewdataStore_def new_chunk_def chunk_in_range_def MAX_NUM_CHUNK_def sz
        toy_env_def sample_conf_def)
qed

theorem appended_stays_readable_witness:
  "\<exists>log ds d pos. ds_run toy_env log ds d Idle \<and> (pos, sample_rec) \<in> set log \<and>
     (\<exists>rec' b d'. GetRecordByPos toy_env pos ds ResetAll = Some ((Inr rec', b), d') \<and> same_content rec' sample_rec)"
proof -
  obtain bg wk ds d where a: "ds_AppendRecord toy_env sample_rec (NewdataStore (\<lambda>_. None)) ResetAll =
      Some (\<lparr>ChunkID = 0, Offset = 0\<rparr>, bg, wk, ds, d)" using sample_append by blast
  have r: "ds_run toy_env [(\<lparr>ChunkID = 0, Offset = 0\<rparr>, sample_rec)] ds d Idle"
    by (rule ds_run.run_append [OF ds_run.run_new toy_limits(2) a])
  have m: "(\<lparr>ChunkID = 0, Offset = 0\<rparr>, sample_rec) \<in> set [(\<lparr>ChunkID = 0, Offset = 0\<rparr>, sample_rec)]" by simp
  from appended_stays_readable [OF r m toy_limits(1) toy_env_qlz sample_rec_ok(2), of ResetAll] r m
  show ?thesis by blast
qed

text \<open>The race.  With chunks of 700 bytes the third record rotates; the newest chunk is flushed, then a second flush of it (the old chunk still has its records in the
  buffer) finds its buffer empty, and the fourth record comes.\<close>

definition race_env :: Env where
  "race_env = toy_env\<lparr>mcconf := (mcconf toy_env)\<lparr>MaxKeyLen := 10, BodyMax := 410\<rparr>, conf := sample_conf\<lparr>DataFileMax := 700\<rparr>\<rparr>"

lemma race_env_ok: "chunk_limits race_env" "acceptable race_env sample_rec" "qlz_ok race_env"
  using toy_env_qlz
  by (simp_all add: chunk_limits_def max_rec_def toy_env_def race_env_def sample_conf_def acceptable_def IsValidKeySize_def
      IsValidValueSize_def sample_rec_def FLAG_COMPRESS_def qlz_ok_def)

definition race_append :: "int \<Rightarrow> u32 \<Rightarrow> dataStore \<Rightarrow> dataStore" where
  "race_append head off ds = ds\<lparr>ds_newHead := head,
     ds_chunks := (ds_chunks ds)(head := dc_AppendRecord ((wrapRecord sample_rec)\<lparr>wr_pos := \<lparr>ChunkID = head, Offset = off\<rparr>\<rparr>) (ds_chunks ds head)),
     ds_wbufSize := ds_wbufSize ds + 256\<rparr>"

lemma race_append_run:
  assumes "ds_run race_env log ds d ph" "ds_newHead ds = h" "chunk_in_range h" "chunk_in_range (h + 1)"
    and "off = dc_writingHead (ds_chunks ds h)"
  shows "\<exists>log' d'. ds_run race_env log' (if 700 < off + 256 then race_append (h + 1) 0 ds else race_append h off ds) d' ph"
proof -
  have sz: "Sizes sample_rec = (28, 256)" by (simp add: Sizes_def sample_rec_def)
  have "TryCompress race_env sample_rec d = Some (sample_rec, d)" by (simp add: TryCompress_def Let_def rec_Size_def sz)
  then have "\<exists>pos bg wk d'. ds_AppendRecord race_env sample_rec ds d =
      Some (pos, bg, wk, if 700 < off + 256 then race_append (h + 1) 0 ds else race_append h off ds, d')"
    using assms(2-5) by (simp add: ds_AppendRecord_def Let_def sz race_env_def toy_env_def sample_conf_def race_append_def)
  then show ?thesis using ds_run.run_append [OF assms(1) race_env_ok(2)] by blast
qed

lemma open_run:
  assumes "ds_run e log ds d Idle" "chunk_limits e" "qlz_ok e" "ds_wbufSize ds \<noteq> 0" "chunk_in_range c"
  shows "\<exists>off f. ds_run e log (upd_chunk c ((ds_chunks ds c)\<lparr>dc_file := Some f\<rparr>) ds) d (Sized c off) \<and> off = getDiskFileSize (ds_chunks ds c)"
proof -
  obtain L Q P where inv: "ds_inv e log ds Idle L Q P" using ds_run_inv [OF assms(1-3)] by blast
  then have rep: "chunk_rep e (ds_chunks ds c) (L c) (Q c) (Q c)" by (auto simp: ds_inv_def phase_ok_def)
  from flush_check_ok [OF this] obtain ps f where "GetStreamWriter (dc_file (ds_chunks ds c)) True = Some (ps, getDiskFileSize (ds_chunks ds c), f)" by blast
  from ds_run.run_open [OF assms(1,4,5) this] show ?thesis by blast
qed

lemma flush_one_run:
  assumes "ds_run e log ds d Idle" "chunk_limits e" "qlz_ok e" "ds_wbufSize ds \<noteq> 0" "chunk_in_range c"
    and "dc_wbuf (ds_chunks ds c) = [w]"
  shows "\<exists>dc d'. ds_run e log ((upd_chunk c dc ds)\<lparr>ds_wbufSize := ds_wbufSize ds - RecSize (rPayload (wr_rec w))\<rparr>) d' Idle \<and>
    dc_wbuf dc = [] \<and> dc_size dc = dc_size (ds_chunks ds c) \<and> dc_writingHead dc = dc_writingHead (ds_chunks ds c)"
proof -
  from open_run [OF assms(1-5)] obtain off f where
    o: "ds_run e log (upd_chunk c ((ds_chunks ds c)\<lparr>dc_file := Some f\<rparr>) ds) d (Sized c off)" "off = getDiskFileSize (ds_chunks ds c)" by blast
  let ?ds = "upd_chunk c ((ds_chunks ds c)\<lparr>dc_file := Some f\<rparr>) ds"
  have "ds_run e log ?ds d (Checked c)"
    by (rule ds_run.run_check [OF ds_run.run_test [OF o(1)]]) (simp add: upd_chunk_def o(2) getDiskFileSize_read size_read_def)
  from ds_run.run_count [OF this] have "ds_run e log ?ds d (Counted c 1)" using assms(6) by (simp add: upd_chunk_def)
  moreover obtain f1 d1 where "dc_flush_write False 1 (ds_chunks ?ds c) d = (RecSize (rPayload (wr_rec w)), (ds_chunks ?ds c)\<lparr>dc_file := Some f1\<rparr>, d1)"
    using assms(6) by (cases "wr_append w True (dc_bytes ((ds_chunks ds c)\<lparr>dc_file := Some f\<rparr>))") (simp add: dc_flush_write_def upd_chunk_def Let_def)
  ultimately have "ds_run e log (upd_chunk c ((ds_chunks ?ds c)\<lparr>dc_file := Some f1\<rparr>) ?ds) d1 (Written c 1 (RecSize (rPayload (wr_rec w))))"
    by (rule ds_run.run_write)
  from ds_run.run_drop [OF this, of "(ds_chunks ds c)\<lparr>dc_file := Some f1, dc_wbuf := []\<rparr>"] show ?thesis
    using assms(6) by (intro exI [of _ "(ds_chunks ds c)\<lparr>dc_file := Some f1, dc_wbuf := []\<rparr>"]) (auto simp: dc_flush_drop_def upd_chunk_def)
qed

theorem flush_stops_on_race_witness:
  "(\<exists>log ds d. ds_run race_env log ds d (Tested 1 256 False) \<and> 256 \<noteq> size_read False (ds_chunks ds 1)) \<and>
   ds_flush (- 1) True False (NewdataStore (\<lambda>_. None)) ResetAll \<noteq> None"
proof
  have rng: "chunk_in_range 0" "chunk_in_range 1" "chunk_in_range 2" by (simp_all add: chunk_in_range_def MAX_NUM_CHUNK_def)
  let ?ds0 = "NewdataStore (\<lambda>_. None)"
  let ?ds1 = "race_append 0 0 ?ds0" let ?ds2 = "race_append 0 256 ?ds1" let ?ds3 = "race_append 1 0 ?ds2"
  have r0: "ds_run race_env [] ?ds0 ResetAll Idle" by (rule ds_run.run_new)
  have sz: "snd (Sizes sample_rec) = 256" by (simp add: Sizes_def sample_rec_def)
  note upd = race_append_def NewdataStore_def new_chunk_def dc_AppendRecord_def sz Let_def
  have h: "ds_newHead ?ds0 = 0" "dc_writingHead (ds_chunks ?ds0 0) = 0" "ds_newHead ?ds1 = 0" "dc_writingHead (ds_chunks ?ds1 0) = 256"
    "ds_newHead ?ds2 = 0" "dc_writingHead (ds_chunks ?ds2 0) = 512" by (simp_all add: upd)
  have rng1: "chunk_in_range (0 + 1)" "chunk_in_range (1 + 1)" using rng by simp_all
  from race_append_run [OF r0 h(1) rng(1) rng1(1) h(2) [symmetric]] obtain l1 d1 where r1: "ds_run race_env l1 ?ds1 d1 Idle" by auto
  from race_append_run [OF r1 h(3) rng(1) rng1(1) h(4) [symmetric]] obtain l2 d2 where r2: "ds_run race_env l2 ?ds2 d2 Idle" by auto
  from race_append_run [OF r2 h(5) rng(1) rng1(1) h(6) [symmetric]] obtain l3 d3 where r3: "ds_run race_env l3 ?ds3 d3 Idle" by auto
  have s3: "dc_wbuf (ds_chunks ?ds3 1) = [(wrapRecord sample_rec)\<lparr>wr_pos := \<lparr>ChunkID = 1, Offset = 0\<rparr>\<rparr>]" "ds_wbufSize ?ds3 = 768" "ds_newHead ?ds3 = 1"
    "dc_size (ds_chunks ?ds3 1) = 256" "dc_writingHead (ds_chunks ?ds3 1) = 256" by (simp_all add: upd)
  from flush_one_run [OF r3 race_env_ok(1,3) _ rng(2) s3(1)] obtain dc d4 where
    r4: "ds_run race_env l3 ((upd_chunk 1 dc ?ds3)\<lparr>ds_wbufSize := 512\<rparr>) d4 Idle" and dc: "dc_wbuf dc = []" "dc_size dc = 256" "dc_writingHead dc = 256"
    using s3 by (auto simp: sz)
  let ?ds4 = "(upd_chunk 1 dc ?ds3)\<lparr>ds_wbufSize := 512\<rparr>"
  have s4: "ds_wbufSize ?ds4 \<noteq> 0" "ds_chunks ?ds4 1 = dc" "ds_newHead ?ds4 = 1" by (simp_all add: upd_chunk_def s3)
  from open_run [OF r4 race_env_ok(1,3) s4(1) rng(2)] obtain f where
    r5: "ds_run race_env l3 (upd_chunk 1 (dc\<lparr>dc_file := Some f\<rparr>) ?ds4) d4 (Sized 1 256)" using dc s4 by (auto simp: getDiskFileSize_def)
  let ?ds5 = "upd_chunk 1 (dc\<lparr>dc_file := Some f\<rparr>) ?ds4"
  have r6: "ds_run race_env l3 ?ds5 d4 (Tested 1 256 False)" using ds_run.run_test [OF r5] dc by (simp add: upd_chunk_def)
  have "ds_newHead ?ds5 = 1" "256 = dc_writingHead (ds_chunks ?ds5 1)" by (simp_all add: upd_chunk_def s3 dc)
  from race_append_run [OF r6 this(1) rng(2) rng1(2) this(2)] obtain l7 d7 where
    r7: "ds_run race_env l7 (race_append 1 256 ?ds5) d7 (Tested 1 256 False)" by auto
  have "dc_wbuf (ds_chunks (race_append 1 256 ?ds5) 1) \<noteq> []" by (simp add: upd)
  with flush_stops_on_race [OF r7 race_env_ok(1,3), of 1 True False d7 256 False] r7
  show "\<exists>log ds d. ds_run race_env log ds d (Tested 1 256 False) \<and> 256 \<noteq> size_read False (ds_chunks ds 1)" by blast
  show "ds_flush (- 1) True False ?ds0 ResetAll \<noteq> None"
    using flush_stops_on_race [OF r0 race_env_ok(1,3), of "- 1" True False ResetAll 0 False] by simp
qed

theorem gc_rewrite_exact_witness:
  "let dc = (new_chunk 4 (Some (rec_bytes sample_rec @ rec_bytes sample_rec)))\<lparr>dc_size := 512, dc_writingHead := 512\<rparr>
   in \<exists>dc1 dc2. beginGCWriting 4 dc = Some dc1 \<and> append_all_GC [sample_rec] dc1 = Some ([0], dc2) \<and>
      dc_bytes (endGCWriting dc2) = rec_bytes sample_rec \<and> dc_size (endGCWriting dc2) = 256"
proof -
  let ?f = "rec_bytes sample_rec @ rec_bytes sample_rec"
  let ?dc = "(new_chunk 4 (Some ?f))\<lparr>dc_size := 512, dc_writingHead := 512\<rparr>"
  have "unat (snd (Sizes sample_rec)) = 256" by (simp add: Sizes_def sample_rec_def)
  then have l: "length (rec_bytes sample_rec) = 256" using length_rec_bytes(1) [OF sample_rec_ok(1)] by simp
  have v: "\<forall>r \<in> set [sample_rec]. valid_rec toy_env r" using sample_rec_ok(1) by simp
  have f: "dc_file ?dc = Some ?f" "dc_size ?dc = of_nat (length ?f)" "dc_chunkid ?dc = 4" by (simp_all add: new_chunk_def l)
  have b: "length ?f < 2 ^ 32" "length (concat (map rec_bytes [sample_rec])) < 2 ^ 32" by (simp_all add: l)
  from gc_rewrite_exact [OF f(1,2) b(1) v b(2)] show ?thesis by (simp add: f(3) l) blast
qed

end
