(* ===== verification/HintFile.thy ===== *)
theory HintFile
  imports Item "HOL-Library.List_Lexorder" "HOL-Library.Product_Lexorder"
begin

text \<open>
  Hint files (\<open>store/hintfile.go\<close>, \<open>store/hintindex.go\<close>): a header, the items in the order of key hash and
  key, and a sparse index of (key hash, offset) pairs, one for about every \<open>IndexIntervalSize\<close> bytes.
  The index is collected in rows of 4096 entries; a row number out of range is a panic (\<open>None\<close>).
  A file is its bytes, \<open>int64\<close> offsets are integers read and written through 64-bit words.
  The lemmas show that the rows are a list, that a written file is read back item by item, that its
  index is loaded back, and what a lookup finds; a lookup beyond the last item runs into
  the index bytes, which is shown as a defect.
\<close>

unbundle bit_operations_syntax

section \<open>Definitions\<close>

definition HINTFILE_HEAD_SIZE :: nat where "HINTFILE_HEAD_SIZE = 16"
definition HINTITEM_HEAD_SIZE :: nat where "HINTITEM_HEAD_SIZE = 23"
definition HINTINDEX_ROW_SIZE :: nat where "HINTINDEX_ROW_SIZE = 4096"

record hintFileMeta =
  hf_numKey :: int
  hf_indexOffset :: int
  hf_datasize :: u32

definition meta_Dumps :: "hintFileMeta \<Rightarrow> bytes" where
  "meta_Dumps fm = put_le 8 (word_of_int (hf_indexOffset fm) :: u64) @ put_le 4 (word_of_int (hf_numKey fm) :: u32)
     @ put_le 4 (hf_datasize fm)"

definition meta_Loads :: "bytes \<Rightarrow> hintFileMeta" where
  "meta_Loads buf = \<lparr>hf_numKey = uint (get_le (slice 8 12 buf) :: u32),
     hf_indexOffset = sint (get_le (slice 0 8 buf) :: u64), hf_datasize = get_le (slice 12 16 buf)\<rparr>"

subsection \<open>The sparse index\<close>

record hintIndexItem =
  ix_keyhash :: u64
  ix_offset :: int

definition zero_index_item :: hintIndexItem where
  "zero_index_item = \<lparr>ix_keyhash = 0, ix_offset = 0\<rparr>"

record hintFileIndexBuffer =
  ib_rows :: "hintIndexItem list list"
  ib_currRow :: nat
  ib_currCol :: nat
  ib_lastoffset :: int

text \<open>A row that has not been made is the empty list.\<close>

definition new_row :: "hintIndexItem list" where
  "new_row = replicate HINTINDEX_ROW_SIZE zero_index_item"

definition newHintFileIndex :: hintFileIndexBuffer where
  "newHintFileIndex = \<lparr>ib_rows = new_row # replicate 4095 [], ib_currRow = 0, ib_currCol = 0, ib_lastoffset = 0\<rparr>"

definition index_append :: "u64 \<Rightarrow> int \<Rightarrow> hintFileIndexBuffer \<Rightarrow> hintFileIndexBuffer option" where
  "index_append keyhash offset idx = do {
     row \<leftarrow> nth_opt (ib_rows idx) (ib_currRow idx);
     row' \<leftarrow> upd_opt row (ib_currCol idx) \<lparr>ix_keyhash = keyhash, ix_offset = offset\<rparr>;
     let rows = (ib_rows idx)[ib_currRow idx := row'];
     if ib_currCol idx \<ge> HINTINDEX_ROW_SIZE - 1 then do {
       rows' \<leftarrow> upd_opt rows (ib_currRow idx + 1) new_row;
       Some (idx\<lparr>ib_rows := rows', ib_currRow := ib_currRow idx + 1, ib_currCol := 0, ib_lastoffset := offset\<rparr>)
     }
     else Some (idx\<lparr>ib_rows := rows, ib_currCol := ib_currCol idx + 1, ib_lastoffset := offset\<rparr>)
   }"

definition toIndex :: "hintFileIndexBuffer \<Rightarrow> hintIndexItem list" where
  "toIndex b = concat (take (ib_currRow b) (ib_rows b)) @ take (ib_currCol b) (ib_rows b ! ib_currRow b)"

record hintFileIndex =
  hi_index :: "hintIndexItem list"
  hi_file :: "bytes option"
  hi_meta :: hintFileMeta

subsection \<open>Writing\<close>

record hintFileWriter =
  w_index :: hintFileIndexBuffer
  w_meta :: hintFileMeta
  w_offset :: int
  w_file :: bytes

definition newHintFileWriter :: "u32 \<Rightarrow> hintFileWriter" where
  "newHintFileWriter maxOffset = \<lparr>w_index = newHintFileIndex,
     w_meta = \<lparr>hf_numKey = 0, hf_indexOffset = 0, hf_datasize = maxOffset\<rparr>, w_offset = int HINTFILE_HEAD_SIZE,
     w_file = replicate HINTFILE_HEAD_SIZE 0\<rparr>"

definition hint_item_bytes :: "HintItem \<Rightarrow> bytes" where
  "hint_item_bytes item = put_le 8 (it_Keyhash item) @ put_le 4 (word_of_int (ChunkID (it_Pos item)) :: u32)
     @ put_le 4 (Offset (it_Pos item)) @ put_le 4 (it_Ver item) @ put_le 2 (it_Vhash item)
     @ [of_nat (length (it_Key item))] @ it_Key item"

definition writeItem :: "HStoreConfig \<Rightarrow> HintItem \<Rightarrow> hintFileWriter \<Rightarrow> hintFileWriter option" where
  "writeItem c item w = do {
     idx \<leftarrow> (if w_offset w - ib_lastoffset (w_index w) > IndexIntervalSize c - int HINTITEM_HEAD_SIZE - 256
            then index_append (it_Keyhash item) (w_offset w) (w_index w) else Some (w_index w));
     Some (w\<lparr>w_file := w_file w @ hint_item_bytes item, w_index := idx,
       w_offset := w_offset w + int HINTITEM_HEAD_SIZE + int (length (it_Key item)),
       w_meta := (w_meta w)\<lparr>hf_numKey := hf_numKey (w_meta w) + 1\<rparr>\<rparr>)
   }"

definition index_item_bytes :: "hintIndexItem \<Rightarrow> bytes" where
  "index_item_bytes it = put_le 8 (ix_keyhash it) @ put_le 8 (word_of_int (ix_offset it) :: u64)"

text \<open>The two loops of \<open>close\<close> run over the full rows and the used part of the current one.\<close>

definition index_rows :: "hintFileIndexBuffer \<Rightarrow> hintIndexItem list" where
  "index_rows index = concat (map (\<lambda>r. take (if r = ib_currRow index then ib_currCol index else HINTINDEX_ROW_SIZE)
     (ib_rows index ! r)) [0..<Suc (ib_currRow index)])"

definition w_close :: "hintFileWriter \<Rightarrow> hintFileWriter" where
  "w_close w =
     (let m = (w_meta w)\<lparr>hf_indexOffset := w_offset w\<rparr>;
          f = w_file w @ concat (map index_item_bytes (index_rows (w_index w)))
      in w\<lparr>w_meta := m, w_file := write_file 0 (meta_Dumps m) f\<rparr>)"

primrec write_items :: "HStoreConfig \<Rightarrow> HintItem list \<Rightarrow> hintFileWriter \<Rightarrow> hintFileWriter option" where
  "write_items c [] w = Some w"
| "write_items c (it # its) w = do { w' \<leftarrow> writeItem c it w; write_items c its w' }"

subsection \<open>Reading\<close>

record hintFileReader =
  r_meta :: hintFileMeta
  r_chunkID :: int
  r_size :: nat
  r_offset :: int
  r_file :: bytes
  r_pos :: nat

definition zero_meta :: hintFileMeta where
  "zero_meta = \<lparr>hf_numKey = 0, hf_indexOffset = 0, hf_datasize = 0\<rparr>"

text \<open>\<open>open\<close> of a reader made by \<open>newHintFileReader\<close>.\<close>

definition hint_open :: "bytes option \<Rightarrow> int \<Rightarrow> StoreErr + hintFileReader" where
  "hint_open file chunkID =
     (case file of
        None \<Rightarrow> Inl OpenErr
      | Some f \<Rightarrow>
          if length f < HINTFILE_HEAD_SIZE then Inl HintReadErr
          else let m = meta_Loads (take HINTFILE_HEAD_SIZE f);
                   m' = (if hf_indexOffset m = 0 then m\<lparr>hf_indexOffset := int (length f)\<rparr> else m)
               in Inr \<lparr>r_meta = m', r_chunkID = chunkID, r_size = length f, r_offset = int HINTFILE_HEAD_SIZE,
                       r_file = f, r_pos = HINTFILE_HEAD_SIZE\<rparr>)"

text \<open>\<open>next\<close>; \<open>ReadFull\<close> fails unless all the bytes asked for are there.\<close>

definition hint_next :: "hintFileReader \<Rightarrow> (StoreErr + HintItem option) \<times> hintFileReader" where
  "hint_next r =
     (if r_offset r \<ge> hf_indexOffset (r_meta r) then (Inr None, r)
      else if r_pos r + HINTITEM_HEAD_SIZE > length (r_file r)
        then (Inl HintReadErr, r\<lparr>r_pos := max (r_pos r) (length (r_file r))\<rparr>)
      else let h = slice (r_pos r) (r_pos r + HINTITEM_HEAD_SIZE) (r_file r);
               ksz = unat (h ! 22);
               p = r_pos r + HINTITEM_HEAD_SIZE in
        if p + ksz > length (r_file r) then (Inl HintReadErr, r\<lparr>r_pos := length (r_file r)\<rparr>)
        else (Inr (Some \<lparr>it_Keyhash = get_le (slice 0 8 h),
                it_Pos = \<lparr>ChunkID = uint (get_le (slice 8 12 h) :: u32), Offset = get_le (slice 12 16 h)\<rparr>,
                it_Ver = get_le (slice 16 20 h), it_Vhash = get_le (slice 20 22 h),
                it_Key = slice p (p + ksz) (r_file r)\<rparr>),
              r\<lparr>r_pos := p + ksz, r_offset := r_offset r + int HINTITEM_HEAD_SIZE + int ksz\<rparr>))"

lemma hint_next_advances:
  "hint_next r = (Inr (Some it), r') \<Longrightarrow> r_pos r < r_pos r' \<and> r_pos r' \<le> length (r_file r') \<and> r_file r' = r_file r"
  by (auto simp: hint_next_def Let_def HINTITEM_HEAD_SIZE_def split: if_splits)

text \<open>The loop of \<open>get\<close>.\<close>

function hint_get_loop :: "u64 \<Rightarrow> bytes \<Rightarrow> hintFileReader \<Rightarrow> StoreErr + HintItem option" where
  "hint_get_loop keyhash key r =
     (case hint_next r of
        (Inl err, _) \<Rightarrow> Inl err
      | (Inr None, _) \<Rightarrow> Inr None
      | (Inr (Some it), r') \<Rightarrow>
          if it_Keyhash it < keyhash then hint_get_loop keyhash key r'
          else if it_Keyhash it > keyhash then Inr None
          else if it_Key it = key then Inr (Some it)
          else hint_get_loop keyhash key r')"
  by pat_completeness auto
termination
  by (relation "measure (\<lambda>(kh, k, r). length (r_file r) - r_pos r)")
    (auto dest!: sym [of _ "hint_next _"] hint_next_advances)

declare hint_get_loop.simps [simp del]

definition hint_get :: "u64 \<Rightarrow> bytes \<Rightarrow> hintFileIndex \<Rightarrow> StoreErr + HintItem option" where
  "hint_get keyhash key idx =
     (let arr = hi_index idx;
          j = sort_search (\<lambda>i. ix_keyhash (arr ! i) \<ge> keyhash) 0 (length arr);
          offset = (if j > 1 then ix_offset (arr ! (j - 1)) else int HINTFILE_HEAD_SIZE)
      in case hint_open (hi_file idx) 0 of
           Inl err \<Rightarrow> Inl err
         | Inr r \<Rightarrow> hint_get_loop keyhash key (r\<lparr>r_pos := nat offset\<rparr>))"

text \<open>\<open>loadHintIndex\<close>: a negative or uneven length of the index area panics (\<open>None\<close>).\<close>

definition parse_index :: "bytes \<Rightarrow> hintIndexItem list" where
  "parse_index raw = map (\<lambda>i. \<lparr>ix_keyhash = get_le (slice (16 * i) (16 * i + 8) raw),
     ix_offset = sint (get_le (slice (16 * i + 8) (16 * i + 16) raw) :: u64)\<rparr>) [0..<length raw div 16]"

definition loadHintIndex :: "bytes option \<Rightarrow> (StoreErr + hintFileIndex) option" where
  "loadHintIndex file =
     (case file of
        None \<Rightarrow> Some (Inl OpenErr)
      | Some f \<Rightarrow>
          if length f < HINTFILE_HEAD_SIZE then Some (Inl HintReadErr)
          else let m = meta_Loads (take HINTFILE_HEAD_SIZE f); num = int (length f) - hf_indexOffset m in
            if num < 0 then None
            else let raw = drop (nat (hf_indexOffset m)) f in
              if hf_indexOffset m < 0 then Some (Inl HintReadErr)
              else if num mod 16 \<noteq> 0 then None
              else Some (Inr \<lparr>hi_index = parse_index raw, hi_file = file, hi_meta = m\<rparr>))"

text \<open>Reading a file to its end (the loop of \<open>Bucket.updateHtreeFromHint\<close> and of \<open>merge\<close>).\<close>

function hint_scan :: "hintFileReader \<Rightarrow> StoreErr + HintItem list" where
  "hint_scan r =
     (case hint_next r of
        (Inl err, _) \<Rightarrow> Inl err
      | (Inr None, _) \<Rightarrow> Inr []
      | (Inr (Some it), r') \<Rightarrow> (case hint_scan r' of Inl err \<Rightarrow> Inl err | Inr its \<Rightarrow> Inr (it # its)))"
  by pat_completeness auto
termination
  by (relation "measure (\<lambda>r. length (r_file r) - r_pos r)")
    (auto dest!: sym [of _ "hint_next _"] hint_next_advances)

declare hint_scan.simps [simp del]

text \<open>Items that a hint file can hold: a key of at most 255 bytes (its length is one byte) and a chunk number of 32 bits.
  Their order.\<close>

definition hint_item_ok :: "HintItem \<Rightarrow> bool" where
  "hint_item_ok it \<longleftrightarrow> length (it_Key it) < 256 \<and> 0 \<le> ChunkID (it_Pos it) \<and> ChunkID (it_Pos it) < 2 ^ 32"

definition hint_key :: "HintItem \<Rightarrow> u64 \<times> bytes" where
  "hint_key it = (it_Keyhash it, it_Key it)"

definition hint_off :: "HintItem list \<Rightarrow> nat \<Rightarrow> nat" where
  "hint_off its i = 16 + length (concat (map hint_item_bytes (take i its)))"

definition hint_entry :: "HintItem list \<Rightarrow> nat \<Rightarrow> hintIndexItem" where
  "hint_entry its i = \<lparr>ix_keyhash = it_Keyhash (its ! i), ix_offset = int (hint_off its i)\<rparr>"

section \<open>The rows of the index are a list\<close>

definition ib_ok :: "hintFileIndexBuffer \<Rightarrow> bool" where
  "ib_ok b \<longleftrightarrow> length (ib_rows b) = 4096 \<and> ib_currRow b < 4096 \<and> ib_currCol b < 4096 \<and>
     (\<forall>r \<le> ib_currRow b. length (ib_rows b ! r) = 4096)"

lemma length_new_row [simp]: "length new_row = 4096"
  by (simp add: new_row_def HINTINDEX_ROW_SIZE_def)

lemma newHintFileIndex_ok: "ib_ok newHintFileIndex" "toIndex newHintFileIndex = []"
  by (simp_all add: ib_ok_def newHintFileIndex_def toIndex_def)

lemma concat_rows_length:
  assumes "\<forall>r < n. length (rows ! r) = k" "n \<le> length rows"
  shows "length (concat (take n rows)) = k * n"
proof -
  have "\<forall>x \<in> set (take n rows). length x = k" using assms by (auto simp: in_set_conv_nth)
  from length_concat_blocks [OF this] show ?thesis using assms(2) by (simp add: min_def mult.commute)
qed

lemma length_toIndex:
  assumes "ib_ok b"
  shows "length (toIndex b) = 4096 * ib_currRow b + ib_currCol b"
  using assms concat_rows_length [of "ib_currRow b" "ib_rows b" 4096]
  by (auto simp: toIndex_def ib_ok_def)

lemma index_rows_toIndex:
  assumes "ib_ok b"
  shows "index_rows b = toIndex b"
proof -
  have "map (\<lambda>r. take (if r = ib_currRow b then ib_currCol b else HINTINDEX_ROW_SIZE) (ib_rows b ! r)) [0..<ib_currRow b]
      = map (\<lambda>r. ib_rows b ! r) [0..<ib_currRow b]"
    using assms by (intro map_cong) (auto simp: ib_ok_def HINTINDEX_ROW_SIZE_def)
  also have "\<dots> = take (ib_currRow b) (ib_rows b)"
    using assms by (intro nth_equalityI) (auto simp: ib_ok_def)
  finally show ?thesis by (simp add: index_rows_def toIndex_def)
qed

lemma index_append_toIndex:
  assumes "ib_ok b" "length (toIndex b) + 1 < 4096 * 4096"
  shows "\<exists>b'. index_append kh off b = Some b' \<and> ib_ok b' \<and> ib_lastoffset b' = off \<and>
    toIndex b' = toIndex b @ [\<lparr>ix_keyhash = kh, ix_offset = off\<rparr>]"
proof -
  let ?r = "ib_currRow b" and ?c = "ib_currCol b" and ?x = "\<lparr>ix_keyhash = kh, ix_offset = off\<rparr>"
  have ok: "length (ib_rows b) = 4096" "?r < 4096" "?c < 4096" "\<forall>r \<le> ?r. length (ib_rows b ! r) = 4096"
    using assms(1) by (simp_all add: ib_ok_def)
  let ?row = "(ib_rows b ! ?r)[?c := ?x]"
  have tk: "take (Suc ?c) ?row = take ?c (ib_rows b ! ?r) @ [?x]"
    using ok by (simp add: take_Suc_conv_app_nth)
  show ?thesis
  proof (cases "?c = 4095")
    case True
    then have r: "Suc ?r < 4096" using assms(2) length_toIndex [OF assms(1)] ok(2) by (cases "?r = 4095") auto
    have full: "?row = take ?c (ib_rows b ! ?r) @ [?x]" using tk ok True by simp
    have tr: "take (Suc ?r) ((ib_rows b)[?r := ?row, Suc ?r := new_row]) = take ?r (ib_rows b) @ [?row]"
      using ok r by (simp add: take_Suc_conv_app_nth)
    show ?thesis
      using ok r True full tr
      by (auto simp: index_append_def HINTINDEX_ROW_SIZE_def ib_ok_def toIndex_def Let_def nth_list_update le_Suc_eq)
  next
    case False
    then show ?thesis using ok tk
      by (auto simp: index_append_def HINTINDEX_ROW_SIZE_def ib_ok_def toIndex_def Let_def nth_list_update)
  qed
qed

section \<open>Writing\<close>

lemma length_hint_item_bytes [simp]: "length (hint_item_bytes it) = 23 + length (it_Key it)"
  by (simp add: hint_item_bytes_def)

lemma hint_off_0 [simp]: "hint_off its 0 = 16"
  by (simp add: hint_off_def)

lemma hint_off_Suc: "i < length its \<Longrightarrow> hint_off its (Suc i) = hint_off its i + 23 + length (it_Key (its ! i))"
  by (simp add: hint_off_def take_Suc_conv_app_nth)

lemma hint_off_append [simp]: "i \<le> length its \<Longrightarrow> hint_off (its @ ts) i = hint_off its i"
  by (simp add: hint_off_def)

lemma hint_entry_append [simp]: "i < length its \<Longrightarrow> hint_entry (its @ ts) i = hint_entry its i"
  by (simp add: hint_entry_def nth_append)

text \<open>A writer that has written \<open>its\<close>, with index entries for the items numbered \<open>js\<close>.\<close>

definition w_rep :: "hintFileWriter \<Rightarrow> u32 \<Rightarrow> HintItem list \<Rightarrow> nat list \<Rightarrow> bool" where
  "w_rep w mx its js \<longleftrightarrow> w_file w = replicate 16 0 @ concat (map hint_item_bytes its) \<and>
     w_offset w = int (hint_off its (length its)) \<and>
     w_meta w = \<lparr>hf_numKey = int (length its), hf_indexOffset = 0, hf_datasize = mx\<rparr> \<and>
     ib_ok (w_index w) \<and> toIndex (w_index w) = map (hint_entry its) js \<and>
     sorted_wrt (<) js \<and> (\<forall>j \<in> set js. j < length its) \<and> ib_lastoffset (w_index w) \<le> w_offset w"

lemma w_rep_new: "w_rep (newHintFileWriter mx) mx [] []"
  by (simp add: w_rep_def newHintFileWriter_def newHintFileIndex_ok HINTFILE_HEAD_SIZE_def)
    (simp add: newHintFileIndex_def)

definition wants_entry :: "HStoreConfig \<Rightarrow> hintFileWriter \<Rightarrow> bool" where
  "wants_entry c w \<longleftrightarrow> w_offset w - ib_lastoffset (w_index w) > IndexIntervalSize c - int HINTITEM_HEAD_SIZE - 256"

lemma length_js: "sorted_wrt (<) js \<Longrightarrow> \<forall>j \<in> set js. j < n \<Longrightarrow> length js \<le> n"
  by (metis card_mono card_lessThan distinct_card finite_lessThan lessThan_iff strict_sorted_iff subsetI)

lemma writeItem_rep:
  assumes "w_rep w mx its js" "length its + 1 < 4096 * 4096"
  shows "\<exists>w'. writeItem c it w = Some w' \<and>
    w_rep w' mx (its @ [it]) (if wants_entry c w then js @ [length its] else js)"
proof -
  let ?n = "length its"
  note W = assms(1) [unfolded w_rep_def]
  have off: "hint_off (its @ [it]) (Suc ?n) = hint_off its ?n + 23 + length (it_Key it)"
    by (simp add: hint_off_def)
  have len: "length (toIndex (w_index w)) + 1 < 4096 * 4096"
    using W length_js [of js ?n] assms(2) by auto
  have mp: "map (hint_entry (its @ [it])) js = map (hint_entry its) js" using W by simp
  show ?thesis
  proof (cases "wants_entry c w")
    case True
    obtain b where b: "index_append (it_Keyhash it) (w_offset w) (w_index w) = Some b" "ib_ok b" "ib_lastoffset b = w_offset w"
        "toIndex b = toIndex (w_index w) @ [\<lparr>ix_keyhash = it_Keyhash it, ix_offset = w_offset w\<rparr>]"
      using index_append_toIndex [OF _ len, of "it_Keyhash it" "w_offset w"] W by blast
    have "hint_entry (its @ [it]) ?n = \<lparr>ix_keyhash = it_Keyhash it, ix_offset = w_offset w\<rparr>"
      using W by (simp add: hint_entry_def)
    then show ?thesis
      using True b W mp off by (auto simp: writeItem_def w_rep_def HINTITEM_HEAD_SIZE_def sorted_wrt_append wants_entry_def)
  next
    case False
    then show ?thesis
      using W mp off by (auto simp: writeItem_def w_rep_def HINTITEM_HEAD_SIZE_def wants_entry_def)
  qed
qed

lemma write_items_rep:
  assumes "w_rep w mx its0 js" "length its0 + length its < 4096 * 4096"
  shows "\<exists>w' js'. write_items c its w = Some w' \<and> w_rep w' mx (its0 @ its) js'"
  using assms
proof (induction its arbitrary: w its0 js)
  case (Cons it its)
  then obtain w1 js1 where "writeItem c it w = Some w1" "w_rep w1 mx (its0 @ [it]) js1"
    using writeItem_rep [of w mx its0 js c it] by fastforce
  with Cons.IH [of w1 "its0 @ [it]" js1] Cons.prems(2) show ?case by auto
qed auto

text \<open>The bytes of a closed file.\<close>

definition hint_bytes :: "u32 \<Rightarrow> HintItem list \<Rightarrow> nat list \<Rightarrow> bytes" where
  "hint_bytes mx its js =
     meta_Dumps \<lparr>hf_numKey = int (length its), hf_indexOffset = int (hint_off its (length its)), hf_datasize = mx\<rparr>
     @ concat (map hint_item_bytes its) @ concat (map (index_item_bytes \<circ> hint_entry its) js)"

lemma length_meta_Dumps [simp]: "length (meta_Dumps m) = 16"
  by (simp add: meta_Dumps_def)

lemma w_close_bytes:
  assumes "w_rep w mx its js"
  shows "w_file (w_close w) = hint_bytes mx its js"
    "w_meta (w_close w) = \<lparr>hf_numKey = int (length its), hf_indexOffset = int (hint_off its (length its)), hf_datasize = mx\<rparr>"
  using assms
  by (simp_all add: w_rep_def w_close_def Let_def index_rows_toIndex write_file_def hint_bytes_def o_def)

section \<open>Reading\<close>

lemma meta_roundtrip:
  assumes "0 \<le> hf_numKey m" "hf_numKey m < 2 ^ 32" "0 \<le> hf_indexOffset m" "hf_indexOffset m < 2 ^ 63"
  shows "meta_Loads (meta_Dumps m) = m"
proof -
  have "slice 0 8 (meta_Dumps m) = put_le 8 (word_of_int (hf_indexOffset m) :: u64)"
    "slice 8 12 (meta_Dumps m) = put_le 4 (word_of_int (hf_numKey m) :: u32)"
    "slice 12 16 (meta_Dumps m) = put_le 4 (hf_datasize m)"
    by (simp_all add: meta_Dumps_def slice_def)
  moreover have "sint (word_of_int (hf_indexOffset m) :: u64) = hf_indexOffset m"
    using assms(3,4) by (simp add: signed_of_int signed_take_bit_int_eq_self)
  moreover have "uint (word_of_int (hf_numKey m) :: u32) = hf_numKey m"
    using assms(1,2) by (simp add: unsigned_of_int take_bit_int_eq_self)
  ultimately show ?thesis by (simp add: meta_Loads_def)
qed

lemma hint_next_item:
  assumes "r_file r = pre @ hint_item_bytes it @ suf" "r_pos r = length pre" "r_offset r < hf_indexOffset (r_meta r)"
    "hint_item_ok it"
  shows "hint_next r = (Inr (Some it), r\<lparr>r_pos := r_pos r + length (hint_item_bytes it),
     r_offset := r_offset r + int (length (hint_item_bytes it))\<rparr>)"
proof -
  let ?h = "put_le 8 (it_Keyhash it) @ put_le 4 (word_of_int (ChunkID (it_Pos it)) :: u32)
     @ put_le 4 (Offset (it_Pos it)) @ put_le 4 (it_Ver it) @ put_le 2 (it_Vhash it) @ [of_nat (length (it_Key it))]"
  have lh: "length ?h = 23" by simp
  have f: "r_file r = pre @ ?h @ it_Key it @ suf" using assms(1) by (simp add: hint_item_bytes_def)
  have h: "slice (r_pos r) (r_pos r + 23) (r_file r) = ?h"
    unfolding f assms(2) using lh by (intro slice_append_mid) simp_all
  have k: "slice (r_pos r + 23) (r_pos r + 23 + length (it_Key it)) (r_file r) = it_Key it"
    using slice_append_mid [of "pre @ ?h" "r_pos r + 23" "it_Key it" "r_pos r + 23 + length (it_Key it)" suf] f lh assms(2) by simp
  have ksz: "unat (?h ! 22) = length (it_Key it)"
    using assms(4) by (simp add: nth_append hint_item_ok_def unsigned_of_nat take_bit_nat_eq_self)
  have ck: "uint (word_of_int (ChunkID (it_Pos it)) :: u32) = ChunkID (it_Pos it)"
    using assms(4) by (simp add: hint_item_ok_def unsigned_of_int take_bit_int_eq_self)
  have sl: "slice 0 8 ?h = put_le 8 (it_Keyhash it)" "slice 8 12 ?h = put_le 4 (word_of_int (ChunkID (it_Pos it)) :: u32)"
    "slice 12 16 ?h = put_le 4 (Offset (it_Pos it))" "slice 16 20 ?h = put_le 4 (it_Ver it)" "slice 20 22 ?h = put_le 2 (it_Vhash it)"
    by (simp_all add: slice_def)
  have len: "length (r_file r) = length pre + 23 + length (it_Key it) + length suf" using f by simp
  show ?thesis
    using assms(2,3) len ck
    unfolding hint_next_def HINTITEM_HEAD_SIZE_def Let_def h ksz k sl by (simp add: ac_simps)
qed

lemma hint_split:
  assumes "i < length its"
  shows "\<exists>pre suf. hint_bytes mx its js = pre @ hint_item_bytes (its ! i) @ suf \<and> length pre = hint_off its i"
proof -
  have "concat (map hint_item_bytes its) = concat (map hint_item_bytes (take i its)) @ hint_item_bytes (its ! i)
      @ concat (map hint_item_bytes (drop (Suc i) its))"
    using id_take_nth_drop [OF assms] by (metis concat.simps(2) concat_append list.simps(9) map_append)
  then have "hint_bytes mx its js = (meta_Dumps \<lparr>hf_numKey = int (length its),
        hf_indexOffset = int (hint_off its (length its)), hf_datasize = mx\<rparr> @ concat (map hint_item_bytes (take i its)))
      @ hint_item_bytes (its ! i) @ (concat (map hint_item_bytes (drop (Suc i) its)) @ concat (map (index_item_bytes \<circ> hint_entry its) js))"
    by (simp add: hint_bytes_def)
  then show ?thesis by (intro exI conjI) (assumption, simp add: hint_off_def)
qed

lemma hint_off_less: "i < j \<Longrightarrow> j \<le> length its \<Longrightarrow> hint_off its i < hint_off its j"
proof (induction j)
  case (Suc j)
  then show ?case by (cases "i = j") (auto simp: hint_off_Suc)
qed simp

text \<open>A reader before item \<open>i\<close>; \<open>r_offset\<close> lags behind after a seek.\<close>

definition r_at :: "hintFileReader \<Rightarrow> u32 \<Rightarrow> HintItem list \<Rightarrow> nat list \<Rightarrow> nat \<Rightarrow> int \<Rightarrow> bool" where
  "r_at r mx its js i lag \<longleftrightarrow> r_file r = hint_bytes mx its js \<and> r_pos r = hint_off its i \<and>
     r_offset r = int (hint_off its i) - lag \<and> hf_indexOffset (r_meta r) = int (hint_off its (length its)) \<and> 0 \<le> lag"

lemma hint_next_at:
  assumes "r_at r mx its js i lag" "i < length its" "hint_item_ok (its ! i)"
  shows "\<exists>r'. hint_next r = (Inr (Some (its ! i)), r') \<and> r_at r' mx its js (Suc i) lag"
proof -
  obtain pre suf where "hint_bytes mx its js = pre @ hint_item_bytes (its ! i) @ suf" "length pre = hint_off its i"
    using hint_split [OF assms(2)] by blast
  moreover have "r_offset r < hf_indexOffset (r_meta r)"
    using assms(1) hint_off_less [OF assms(2) order_refl] by (auto simp: r_at_def)
  ultimately show ?thesis
    using hint_next_item [of r pre "its ! i" suf] assms by (auto simp: r_at_def hint_off_Suc)
qed

lemma hint_open_bytes:
  assumes "length its < 2 ^ 32" "hint_off its (length its) < 2 ^ 63"
  shows "\<exists>r. hint_open (Some (hint_bytes mx its js)) ck = Inr r \<and> r_at r mx its js 0 0 \<and> r_chunkID r = ck \<and>
    r_meta r = \<lparr>hf_numKey = int (length its), hf_indexOffset = int (hint_off its (length its)), hf_datasize = mx\<rparr>"
proof -
  let ?m = "\<lparr>hf_numKey = int (length its), hf_indexOffset = int (hint_off its (length its)), hf_datasize = mx\<rparr>"
  have "take HINTFILE_HEAD_SIZE (hint_bytes mx its js) = meta_Dumps ?m"
    by (simp add: hint_bytes_def HINTFILE_HEAD_SIZE_def)
  moreover have "int (hint_off its (length its)) < 2 ^ 63" "int (length its) < 2 ^ 32" using assms by simp_all
  then have "meta_Loads (meta_Dumps ?m) = ?m" by (intro meta_roundtrip) simp_all
  moreover have "hint_off its (length its) \<noteq> 0" by (simp add: hint_off_def)
  moreover have "\<not> length (hint_bytes mx its js) < HINTFILE_HEAD_SIZE" by (simp add: hint_bytes_def HINTFILE_HEAD_SIZE_def)
  ultimately show ?thesis
    by (simp add: hint_open_def r_at_def Let_def) (simp add: HINTFILE_HEAD_SIZE_def)
qed

lemma hint_scan_at:
  assumes "r_at r mx its js i 0" "i \<le> length its" "\<forall>it \<in> set its. hint_item_ok it"
  shows "hint_scan r = Inr (drop i its)"
  using assms(1,2)
proof (induction "length its - i" arbitrary: r i)
  case 0
  then have "hint_next r = (Inr None, r)" by (simp add: hint_next_def r_at_def)
  then show ?case using 0 by (subst hint_scan.simps) simp
next
  case (Suc n)
  then have i: "i < length its" by simp
  obtain r' where r: "hint_next r = (Inr (Some (its ! i)), r')" "r_at r' mx its js (Suc i) 0"
    using hint_next_at [OF Suc.prems(1) i] assms(3) i by auto
  have "hint_scan r' = Inr (drop (Suc i) its)" using Suc.hyps(1) [OF _ r(2)] Suc.hyps(2) i by auto
  then show ?case by (subst hint_scan.simps) (simp add: r(1) Cons_nth_drop_Suc [OF i, symmetric])
qed

lemma parse_index_bytes:
  assumes "\<forall>x \<in> set xs. 0 \<le> ix_offset x \<and> ix_offset x < 2 ^ 63"
  shows "parse_index (concat (map index_item_bytes xs)) = xs"
proof (rule nth_equalityI)
  have bl: "\<forall>b \<in> set (map index_item_bytes xs). length b = 16" by (auto simp: index_item_bytes_def)
  note len = length_concat_blocks [OF bl]
  show l: "length (parse_index (concat (map index_item_bytes xs))) = length xs"
    using len by (simp add: parse_index_def)
  show "parse_index (concat (map index_item_bytes xs)) ! i = xs ! i"
    if "i < length (parse_index (concat (map index_item_bytes xs)))" for i
  proof -
    have i: "i < length xs" using that l by simp
    have "drop (16 * i) (concat (map index_item_bytes xs)) = concat (drop i (map index_item_bytes xs))"
      using drop_concat_blocks [OF bl, of i] i by (simp add: mult.commute)
    also have "\<dots> = index_item_bytes (xs ! i) @ concat (map index_item_bytes (drop (Suc i) xs))"
      using i by (simp add: drop_map Cons_nth_drop_Suc [symmetric])
    finally have d: "drop (16 * i) (concat (map index_item_bytes xs)) =
        index_item_bytes (xs ! i) @ concat (map index_item_bytes (drop (Suc i) xs))" .
    have "slice (16 * i) (16 * i + 8) (concat (map index_item_bytes xs)) = put_le 8 (ix_keyhash (xs ! i))"
      unfolding slice_def d by (simp add: index_item_bytes_def)
    moreover have "slice (16 * i + 8) (16 * i + 16) (concat (map index_item_bytes xs)) = put_le 8 (word_of_int (ix_offset (xs ! i)) :: u64)"
      using d unfolding slice_def add.commute [of "16 * i" 8] drop_drop [symmetric] by (simp add: index_item_bytes_def)
    moreover have "sint (word_of_int (ix_offset (xs ! i)) :: u64) = ix_offset (xs ! i)"
      using assms [rule_format, OF nth_mem [OF i]] by (simp add: signed_of_int signed_take_bit_int_eq_self)
    ultimately show ?thesis using i len by (simp add: parse_index_def)
  qed
qed

lemma hint_file_written:
  assumes "\<forall>it \<in> set its. hint_item_ok it" and "length its < 4096 * 4096"
  shows "\<exists>w r. write_items c its (newHintFileWriter mx) = Some w \<and>
    hint_open (Some (w_file (w_close w))) ck = Inr r \<and> hint_scan r = Inr its \<and>
    loadHintIndex (Some (w_file (w_close w))) =
      Some (Inr \<lparr>hi_index = toIndex (w_index w), hi_file = Some (w_file (w_close w)), hi_meta = w_meta (w_close w)\<rparr>) \<and>
    hf_numKey (w_meta (w_close w)) = int (length its) \<and> hf_datasize (w_meta (w_close w)) = mx"
proof -
  obtain w js where w: "write_items c its (newHintFileWriter mx) = Some w" "w_rep w mx its js"
    using write_items_rep [OF w_rep_new, of its c mx] assms(2) by auto
  have "length (concat (map hint_item_bytes ts)) \<le> length ts * 279" if "\<forall>it \<in> set ts. hint_item_ok it" for ts
    using that by (induction ts) (auto simp: hint_item_ok_def)
  from this [OF assms(1)] have b: "length its < 2 ^ 32" "hint_off its (length its) < 2 ^ 63" using assms(2) by (simp_all add: hint_off_def)
  note cl = w_close_bytes [OF w(2)] and hint_open_bytes [OF b, of mx js ck]
  then obtain r where r: "hint_open (Some (hint_bytes mx its js)) ck = Inr r" "r_at r mx its js 0 0"
    "r_meta r = w_meta (w_close w)" by auto
  have sc: "hint_scan r = Inr its" using hint_scan_at [OF r(2) _ assms(1)] by simp
  let ?m = "w_meta (w_close w)" and ?xs = "map (hint_entry its) js"
  have m: "meta_Loads (take 16 (hint_bytes mx its js)) = ?m"
  proof -
    have "int (hint_off its (length its)) < 2 ^ 63" "int (length its) < 2 ^ 32" using b by simp_all
    then show ?thesis unfolding cl(2) by (simp add: hint_bytes_def meta_roundtrip)
  qed
  have dr: "drop (hint_off its (length its)) (hint_bytes mx its js) = concat (map index_item_bytes ?xs)"
    by (simp add: hint_bytes_def hint_off_def o_def)
  have len: "length (hint_bytes mx its js) = hint_off its (length its) + 16 * length js"
    by (simp add: hint_bytes_def hint_off_def length_concat_blocks [of _ 16] index_item_bytes_def)
  have off: "\<forall>x \<in> set ?xs. 0 \<le> ix_offset x \<and> ix_offset x < 2 ^ 63"
  proof -
    have "hint_off its j < 2 ^ 63" if "j \<in> set js" for j
      using w(2) that hint_off_less [of j "length its" its] b(2) by (auto simp: w_rep_def)
    then show ?thesis by (auto simp: hint_entry_def)
  qed
  have "loadHintIndex (Some (hint_bytes mx its js)) =
      Some (Inr \<lparr>hi_index = ?xs, hi_file = Some (hint_bytes mx its js), hi_meta = ?m\<rparr>)"
    using m dr len parse_index_bytes [OF off] b
    by (simp add: loadHintIndex_def HINTFILE_HEAD_SIZE_def Let_def cl(2)) (simp add: hint_off_def)
  moreover have "toIndex (w_index w) = ?xs" using w(2) by (simp add: w_rep_def)
  ultimately show ?thesis using w(1) r(1) sc cl by simp
qed

text \<open>C16: a hint file is read back: scanning a written file returns its items in order, and loading its index
  returns the entries and counters the writer had.  Keys have at most 255 bytes.\<close>

theorem hint_file_roundtrip:
  assumes "\<forall>it \<in> set its. hint_item_ok it" and "length its < 4096 * 4096"
  shows "\<exists>w r. write_items c its (newHintFileWriter mx) = Some w \<and>
    hint_open (Some (w_file (w_close w))) ck = Inr r \<and> hint_scan r = Inr its \<and>
    loadHintIndex (Some (w_file (w_close w))) =
      Some (Inr \<lparr>hi_index = toIndex (w_index w), hi_file = Some (w_file (w_close w)), hi_meta = w_meta (w_close w)\<rparr>) \<and>
    hf_numKey (w_meta (w_close w)) = int (length its) \<and> hf_datasize (w_meta (w_close w)) = mx"
  using assms by (rule hint_file_written)

section \<open>Lookup\<close>

abbreviation hint_sorted :: "HintItem list \<Rightarrow> bool" where
  "hint_sorted \<equiv> sorted_wrt (\<lambda>a b. hint_key a < hint_key b)"

lemma hint_sorted_hash:
  assumes "hint_sorted its" "i \<le> j" "j < length its"
  shows "it_Keyhash (its ! i) \<le> it_Keyhash (its ! j)"
  using assms sorted_wrt_nth_less [OF assms(1), of i j]
  by (cases "i = j") (auto simp: hint_key_def less_prod_def)

lemma get_loop_skip:
  assumes "r_at r mx its js i lag" "i \<le> k" "k \<le> length its" "\<forall>it \<in> set its. hint_item_ok it"
    and "\<forall>j. i \<le> j \<and> j < k \<longrightarrow> it_Keyhash (its ! j) \<le> kh \<and> hint_key (its ! j) \<noteq> (kh, key)"
  shows "\<exists>r'. hint_get_loop kh key r = hint_get_loop kh key r' \<and> r_at r' mx its js k lag"
  using assms(1,2,5)
proof (induction "k - i" arbitrary: r i)
  case 0
  then show ?case by auto
next
  case (Suc n)
  then have i: "i < k" "i < length its" using assms(3) by auto
  obtain r' where r: "hint_next r = (Inr (Some (its ! i)), r')" "r_at r' mx its js (Suc i) lag"
    using hint_next_at [OF Suc.prems(1) i(2)] assms(4) i(2) by auto
  have "it_Keyhash (its ! i) \<le> kh" "hint_key (its ! i) \<noteq> (kh, key)" using Suc.prems(3) i by auto
  then have "hint_get_loop kh key r = hint_get_loop kh key r'"
    by (subst hint_get_loop.simps) (auto simp: r(1) hint_key_def)
  with Suc.hyps(1) [OF _ r(2)] Suc.hyps(2) Suc.prems(3) i show ?case by auto
qed

lemma get_loop_at:
  assumes "r_at r mx its js i lag" "i < length its" "hint_item_ok (its ! i)"
  shows "it_Keyhash (its ! i) > kh \<Longrightarrow> hint_get_loop kh key r = Inr None"
    "hint_key (its ! i) = (kh, key) \<Longrightarrow> hint_get_loop kh key r = Inr (Some (its ! i))"
  using hint_next_at [OF assms] by (subst hint_get_loop.simps, auto simp: hint_key_def)+

lemma get_loop_end:
  assumes "r_at r mx its js (length its) 0"
  shows "hint_get_loop kh key r = Inr None"
proof -
  have "hint_next r = (Inr None, r)" using assms by (simp add: hint_next_def r_at_def)
  then show ?thesis by (subst hint_get_loop.simps) simp
qed

text \<open>Where the index sends a lookup: at or before the first item with the hash.\<close>

definition seek_item :: "HintItem list \<Rightarrow> nat list \<Rightarrow> u64 \<Rightarrow> nat" where
  "seek_item its js kh =
     (let j = sort_search (\<lambda>i. it_Keyhash (its ! (js ! i)) \<ge> kh) 0 (length js) in if j > 1 then js ! (j - 1) else 0)"

lemma seek_item_before:
  assumes "hint_sorted its" "sorted_wrt (<) js" "\<forall>j \<in> set js. j < length its" "its \<noteq> []"
  shows "seek_item its js kh < length its" "\<And>i. i < seek_item its js kh \<Longrightarrow> it_Keyhash (its ! i) < kh"
    "length js \<le> 1 \<Longrightarrow> seek_item its js kh = 0"
proof -
  let ?f = "\<lambda>i. it_Keyhash (its ! (js ! i)) \<ge> kh"
  define j where "j = sort_search ?f 0 (length js)"
  have jn: "js ! a < length its" if "a < length js" for a using assms(3) that by simp
  have mono: "?f b" if "a \<le> b" "b < length js" "?f a" for a b
  proof -
    have "js ! a \<le> js ! b" using that(1,2) sorted_wrt_nth_less [OF assms(2), of a b] by (cases "a = b") auto
    from hint_sorted_hash [OF assms(1) this jn [OF that(2)]] that(3) show ?thesis by simp
  qed
  have "(\<forall>a < j. \<not> ?f a) \<and> (\<forall>a. j \<le> a \<and> a < length js \<longrightarrow> ?f a) \<and> j \<le> length js"
    unfolding j_def by (rule sort_search_spec [where n = "length js", OF mono]) auto
  then have s: "\<forall>a < j. it_Keyhash (its ! (js ! a)) < kh" "j \<le> length js" by auto
  have e: "seek_item its js kh = (if j > 1 then js ! (j - 1) else 0)" by (simp add: seek_item_def j_def)
  show "seek_item its js kh < length its" using e jn [of "j - 1"] s(2) assms(4) by auto
  show "it_Keyhash (its ! i) < kh" if "i < seek_item its js kh" for i
  proof -
    have j: "j > 1" "i < js ! (j - 1)" using that e by (auto split: if_splits)
    then have "it_Keyhash (its ! (js ! (j - 1))) < kh" using s by auto
    moreover have "it_Keyhash (its ! i) \<le> it_Keyhash (its ! (js ! (j - 1)))"
      using j s(2) jn [of "j - 1"] by (intro hint_sorted_hash [OF assms(1)]) auto
    ultimately show ?thesis by simp
  qed
  show "seek_item its js kh = 0" if "length js \<le> 1" using that s(2) e by auto
qed

lemma hint_get_seek:
  assumes "hint_sorted its" "sorted_wrt (<) js" "\<forall>j \<in> set js. j < length its" "its \<noteq> []"
    and "length its < 2 ^ 32" "hint_off its (length its) < 2 ^ 63"
  shows "\<exists>r. hint_get kh key \<lparr>hi_index = map (hint_entry its) js, hi_file = Some (hint_bytes mx its js), hi_meta = m\<rparr>
      = hint_get_loop kh key r \<and> r_at r mx its js (seek_item its js kh) (int (hint_off its (seek_item its js kh)) - 16)"
proof -
  let ?i = "seek_item its js kh"
  obtain r where r: "hint_open (Some (hint_bytes mx its js)) 0 = Inr r" "r_at r mx its js 0 0"
    using hint_open_bytes [OF assms(5,6)] by blast
  have "sort_search (\<lambda>i. kh \<le> ix_keyhash (map (hint_entry its) js ! i)) 0 (length js) =
      sort_search (\<lambda>i. kh \<le> it_Keyhash (its ! (js ! i))) 0 (length js)" (is "?s = ?t")
    by (rule sort_search_cong) (simp add: hint_entry_def)
  moreover have "?t \<le> length js" by (rule sort_search_le) simp
  ultimately have "(if ?s > 1 then ix_offset (map (hint_entry its) js ! (?s - 1)) else int HINTFILE_HEAD_SIZE) = int (hint_off its ?i)"
    by (auto simp: seek_item_def Let_def hint_entry_def HINTFILE_HEAD_SIZE_def)
  then have "hint_get kh key \<lparr>hi_index = map (hint_entry its) js, hi_file = Some (hint_bytes mx its js), hi_meta = m\<rparr>
      = hint_get_loop kh key (r\<lparr>r_pos := hint_off its ?i\<rparr>)"
    unfolding hint_get_def Let_def by (simp only: hintFileIndex.select_convs length_map r(1) sum.case nat_int)
  moreover have "r_at (r\<lparr>r_pos := hint_off its ?i\<rparr>) mx its js ?i (int (hint_off its ?i) - 16)"
    using r(2) by (simp add: r_at_def) (simp add: hint_off_def)
  ultimately show ?thesis by blast
qed

lemma hint_get_written:
  assumes "hint_sorted its" and "\<forall>it \<in> set its. hint_item_ok it" and "length its < 4096 * 4096"
    and "write_items c its (newHintFileWriter mx) = Some w"
    and "(\<exists>it \<in> set its. hint_key it = (kh, key) \<or> kh < it_Keyhash it) \<or> length (toIndex (w_index w)) \<le> 1"
  shows "hint_get kh key \<lparr>hi_index = toIndex (w_index w), hi_file = Some (w_file (w_close w)), hi_meta = m\<rparr> =
    Inr (find (\<lambda>it. hint_key it = (kh, key)) its)"
proof -
  obtain js where w: "w_rep w mx its js"
    using write_items_rep [OF w_rep_new, of its c mx] assms(3,4) by auto
  have js: "toIndex (w_index w) = map (hint_entry its) js" "sorted_wrt (<) js" "\<forall>j \<in> set js. j < length its"
    using w by (simp_all add: w_rep_def)
  have "length (concat (map hint_item_bytes ts)) \<le> length ts * 279" if "\<forall>it \<in> set ts. hint_item_ok it" for ts
    using that by (induction ts) (auto simp: hint_item_ok_def)
  from this [OF assms(2)] have b: "length its < 2 ^ 32" "hint_off its (length its) < 2 ^ 63"
    using assms(3) by (simp_all add: hint_off_def)
  show ?thesis
  proof (cases "its = []")
    case True
    then have "js = []" using js(3) by auto
    obtain r where r: "hint_open (Some (hint_bytes mx [] [])) 0 = Inr r" "r_at r mx [] [] 0 0"
      using hint_open_bytes [of "[]" mx "[]" 0] by auto
    have "r\<lparr>r_pos := 16\<rparr> = r" using r(2) by (simp add: r_at_def)
    then show ?thesis using r get_loop_end [of r mx "[]" "[]"] True \<open>js = []\<close> js(1)
      by (simp add: hint_get_def w_close_bytes [OF w] sort_search.simps HINTFILE_HEAD_SIZE_def)
  next
    case False
    let ?i = "seek_item its js kh" and ?P = "\<lambda>it. hint_key it = (kh, key)"
    note sk = seek_item_before [OF assms(1) js(2,3) False, where kh = kh]
    obtain r where r: "hint_get kh key \<lparr>hi_index = map (hint_entry its) js, hi_file = Some (hint_bytes mx its js), hi_meta = m\<rparr>
        = hint_get_loop kh key r" "r_at r mx its js ?i (int (hint_off its ?i) - 16)"
      using hint_get_seek [OF assms(1) js(2,3) False b] by blast
    define k where "k = (LEAST k. k = length its \<or> (k < length its \<and> (?P (its ! k) \<or> kh < it_Keyhash (its ! k))))"
    have k: "k = length its \<or> (k < length its \<and> (?P (its ! k) \<or> kh < it_Keyhash (its ! k)))"
      unfolding k_def by (rule LeastI [of _ "length its"]) simp
    have below: "\<not> ?P (its ! j) \<and> it_Keyhash (its ! j) \<le> kh" if "j < k" for j
      using not_less_Least [OF that [unfolded k_def]] that k by auto
    have "?i \<le> k"
    proof (rule ccontr)
      assume "\<not> ?i \<le> k"
      then have "it_Keyhash (its ! k) < kh" "k < length its" using sk(1,2) by auto
      then show False using k by (auto simp: hint_key_def)
    qed
    then obtain r' where r': "hint_get_loop kh key r = hint_get_loop kh key r'" "r_at r' mx its js k (int (hint_off its ?i) - 16)"
      using get_loop_skip [OF r(2) _ _ assms(2), of k kh key] k below by auto
    have fk: "find ?P its = (if k < length its \<and> ?P (its ! k) then Some (its ! k) else None)"
    proof (cases "k < length its \<and> ?P (its ! k)")
      case True
      then show ?thesis using below by (auto simp: find_Some_iff)
    next
      case nk: False
      have "\<not> ?P (its ! j)" if "j < length its" for j
      proof (cases "j < k")
        case False
        then have "kh < it_Keyhash (its ! k)" using k nk that by auto
        moreover have "it_Keyhash (its ! k) \<le> it_Keyhash (its ! j)"
          using False that by (intro hint_sorted_hash [OF assms(1)]) auto
        ultimately show ?thesis by (auto simp: hint_key_def)
      qed (use below in blast)
      then show ?thesis using nk by (auto simp: find_None_iff in_set_conv_nth)
    qed
    have "hint_get_loop kh key r' = Inr (find ?P its)"
    proof (cases "k < length its")
      case True
      then have "hint_item_ok (its ! k)" using assms(2) by simp
      from get_loop_at [OF r'(2) True this] k True fk show ?thesis by (auto simp: hint_key_def)
    next
      case last: False
      then have "k = length its" using k by simp
      then have "\<not> (\<exists>it \<in> set its. ?P it \<or> kh < it_Keyhash it)"
        using below by (auto simp: in_set_conv_nth not_less)
      then have "?i = 0" using assms(5) sk(3) js(1) by auto
      then show ?thesis using get_loop_end [of r' mx its js] r'(2) fk \<open>k = length its\<close> by simp
    qed
    then show ?thesis using r(1) r'(1) by (simp add: js(1) w_close_bytes [OF w])
  qed
qed

text \<open>C15: a lookup in a hint file returns the item written under the key hash and key, and nothing where there is
  none, provided the file holds the key or an item with a larger hash, or its index has at most one entry.\<close>

theorem hint_get_correct:
  assumes "hint_sorted its" and "\<forall>it \<in> set its. hint_item_ok it" and "length its < 4096 * 4096"
    and "write_items c its (newHintFileWriter mx) = Some w"
    and "(\<exists>it \<in> set its. hint_key it = (kh, key) \<or> kh < it_Keyhash it) \<or> length (toIndex (w_index w)) \<le> 1"
  shows "hint_get kh key \<lparr>hi_index = toIndex (w_index w), hi_file = Some (w_file (w_close w)), hi_meta = m\<rparr> =
    Inr (find (\<lambda>it. hint_key it = (kh, key)) its)"
  using assms by (rule hint_get_written)

section \<open>A lookup past the last item\<close>

text \<open>Three items under the hashes 1, 2 and 3, and an interval that gives each an index entry.\<close>

definition sample_item :: "u64 \<Rightarrow> HintItem" where
  "sample_item h = newHintItem h 1 7 \<lparr>ChunkID = 0, Offset = 256\<rparr> [97]"

definition sample_items :: "HintItem list" where
  "sample_items = [sample_item 1, sample_item 2, sample_item 3]"

definition every_item :: HStoreConfig where
  "every_item = sample_conf\<lparr>IndexIntervalSize := 128\<rparr>"

lemma sample_items_ok: "hint_sorted sample_items" "\<forall>it \<in> set sample_items. hint_item_ok it" "length sample_items < 4096 * 4096"
  by (simp_all add: sample_items_def sample_item_def newHintItem_def hint_key_def hint_item_ok_def less_prod_def)

lemma sample_written:
  "\<exists>w. write_items every_item sample_items (newHintFileWriter 768) = Some w \<and> w_rep w 768 sample_items [0, 1, 2]"
proof -
  have wants: "wants_entry every_item w" if "w_rep w mx its js" for w mx its js
    using that by (simp add: wants_entry_def w_rep_def every_item_def sample_conf_def HINTITEM_HEAD_SIZE_def)
  have step: "\<exists>w'. writeItem every_item it w = Some w' \<and> w_rep w' mx (its @ [it]) (js @ [length its])"
    if "w_rep w mx its js" "length its < 10" for w mx its js it
    using writeItem_rep [OF that(1), of every_item it] that(2) wants [OF that(1)] by simp
  obtain w1 where 1: "writeItem every_item (sample_item 1) (newHintFileWriter 768) = Some w1" "w_rep w1 768 [sample_item 1] [0]"
    using step [OF w_rep_new, of "sample_item 1" 768] by auto
  obtain w2 where 2: "writeItem every_item (sample_item 2) w1 = Some w2" "w_rep w2 768 [sample_item 1, sample_item 2] [0, 1]"
    using step [OF 1(2), of "sample_item 2"] by auto
  obtain w3 where 3: "writeItem every_item (sample_item 3) w2 = Some w3" "w_rep w3 768 sample_items [0, 1, 2]"
    using step [OF 2(2), of "sample_item 3"] by (auto simp: sample_items_def numeral_2_eq_2)
  show ?thesis using 1 2 3 by (simp add: sample_items_def)
qed

text \<open>The bytes behind the last item, read as items.\<close>

definition index_area :: bytes where
  "index_area = concat (map (index_item_bytes \<circ> hint_entry sample_items) [0, 1, 2])"

lemma index_area_eq:
  "index_area = [1,0,0,0,0,0,0,0, 16,0,0,0,0,0,0,0, 2,0,0,0,0,0,0,0, 40,0,0,0,0,0,0,0,
     3,0,0,0,0,0,0,0, 64,0,0,0,0,0,0,0]"
proof -
  have "index_area = put_le 8 (1 :: u64) @ put_le 8 (16 :: u64) @ put_le 8 (2 :: u64) @ put_le 8 (40 :: u64)
     @ put_le 8 (3 :: u64) @ put_le 8 (64 :: u64)"
    by (simp add: index_area_def index_item_bytes_def hint_entry_def hint_off_def sample_items_def sample_item_def newHintItem_def)
  then show ?thesis by (simp add: put_le_def upt_rec)
qed

text \<open>A lookup whose hash is larger than every hash of a file with several index entries fails with a read error
  instead of finding nothing: after the seek the reader still counts from the start of the file, does not
  notice the end of the items and reads the index as items.\<close>

theorem hint_get_past_end_fails:
  "\<exists>w. write_items every_item sample_items (newHintFileWriter 768) = Some w \<and>
     map it_Keyhash sample_items = [1, 2, 3] \<and>
     hint_get 0xFFFFFFFF key \<lparr>hi_index = toIndex (w_index w), hi_file = Some (w_file (w_close w)), hi_meta = w_meta (w_close w)\<rparr>
       = Inl HintReadErr"
proof -
  let ?js = "[0, 1, 2] :: nat list"
  obtain w where w: "write_items every_item sample_items (newHintFileWriter 768) = Some w" "w_rep w 768 sample_items ?js"
    using sample_written by blast
  have len: "length sample_items = 3" by (simp add: sample_items_def)
  have off: "hint_off sample_items 3 = 88" "hint_off sample_items 2 = 64"
    by (simp_all add: hint_off_def sample_items_def sample_item_def newHintItem_def)
  have js: "toIndex (w_index w) = map (hint_entry sample_items) ?js" "sorted_wrt (<) ?js" "\<forall>j \<in> set ?js. j < length sample_items"
    using w(2) by (auto simp: w_rep_def)
  have sk: "seek_item sample_items ?js 0xFFFFFFFF = 2"
    by (simp add: seek_item_def sort_search.simps sample_items_def sample_item_def newHintItem_def Let_def)
  have ne: "sample_items \<noteq> []" using len by auto
  have b: "length sample_items < 2 ^ 32" "hint_off sample_items (length sample_items) < 2 ^ 63" by (simp_all add: len off)
  obtain r where r: "hint_get 0xFFFFFFFF key \<lparr>hi_index = map (hint_entry sample_items) ?js,
      hi_file = Some (hint_bytes 768 sample_items ?js), hi_meta = w_meta (w_close w)\<rparr> = hint_get_loop 0xFFFFFFFF key r"
      "r_at r 768 sample_items ?js 2 48"
    using hint_get_seek [OF sample_items_ok(1) js(2,3) ne b, where kh = "0xFFFFFFFF" and key = key and mx = 768 and m = "w_meta (w_close w)"] sk off by auto
  have lt: "\<forall>j. 2 \<le> j \<and> j < 3 \<longrightarrow> it_Keyhash (sample_items ! j) \<le> 0xFFFFFFFF \<and> hint_key (sample_items ! j) \<noteq> (0xFFFFFFFF, key)"
  proof (intro allI impI)
    fix j :: nat
    assume "2 \<le> j \<and> j < 3"
    then have "j = 2" by simp
    then show "it_Keyhash (sample_items ! j) \<le> 0xFFFFFFFF \<and> hint_key (sample_items ! j) \<noteq> (0xFFFFFFFF, key)"
      by (simp add: sample_items_def sample_item_def newHintItem_def hint_key_def)
  qed
  obtain r1 where r1: "hint_get_loop 0xFFFFFFFF key r = hint_get_loop 0xFFFFFFFF key r1" "r_at r1 768 sample_items ?js 3 48"
    using get_loop_skip [OF r(2) _ _ sample_items_ok(2) lt] len by auto
  have f: "drop 88 (r_file r1) = index_area" "length (r_file r1) = 136" and p: "r_pos r1 = 88" "r_offset r1 = 40"
    and m: "hf_indexOffset (r_meta r1) = 88"
  proof -
    have rf: "r_file r1 = hint_bytes 768 sample_items ?js" using r1(2) by (simp add: r_at_def)
    have la: "length index_area = 48" by (simp add: index_area_eq)
    have pre: "hint_bytes 768 sample_items ?js = (meta_Dumps \<lparr>hf_numKey = 3, hf_indexOffset = 88, hf_datasize = 768\<rparr>
        @ concat (map hint_item_bytes sample_items)) @ index_area"
      by (simp add: hint_bytes_def index_area_def len off)
    have lp: "length (concat (map hint_item_bytes sample_items)) = 72"
      by (simp add: sample_items_def sample_item_def newHintItem_def)
    show "drop 88 (r_file r1) = index_area" "length (r_file r1) = 136" unfolding rf pre using lp la by simp_all
    show "r_pos r1 = 88" "r_offset r1 = 40" "hf_indexOffset (r_meta r1) = 88" using r1(2) by (simp_all add: r_at_def off len)
  qed
  have sl: "slice (88 + a) b (r_file r1) = slice a (b - 88) index_area" for a b
    using f(1) by (simp add: slice_def flip: drop_drop) (metis add.commute drop_drop diff_diff_left)
  let ?r2 = "r1\<lparr>r_pos := 111, r_offset := 63\<rparr>" and ?r3 = "r1\<lparr>r_pos := 134, r_offset := 86\<rparr>"
  have n1: "\<exists>it. hint_next r1 = (Inr (Some it), ?r2) \<and> it_Keyhash it = 1"
    using sl [of 0 111] f(2) p m by (simp add: hint_next_def HINTITEM_HEAD_SIZE_def Let_def index_area_eq slice_def)
  have n2: "\<exists>it. hint_next ?r2 = (Inr (Some it), ?r3) \<and> it_Keyhash it = 10240"
    using sl [of 23 134] f(2) p m by (simp add: hint_next_def HINTITEM_HEAD_SIZE_def Let_def index_area_eq slice_def)
  have n3: "\<exists>r. hint_next ?r3 = (Inl HintReadErr, r)"
    using f(2) p m by (simp add: hint_next_def HINTITEM_HEAD_SIZE_def)
  have "hint_get_loop 0xFFFFFFFF key r1 = Inl HintReadErr"
    using n1 n2 n3 by (subst hint_get_loop.simps, subst hint_get_loop.simps, subst hint_get_loop.simps) auto
  moreover have "map it_Keyhash sample_items = [1, 2, 3]"
    by (simp add: sample_items_def sample_item_def newHintItem_def)
  ultimately show ?thesis using w(1) r(1) r1(1) by (simp add: js(1) w_close_bytes [OF w(2)])
qed

section \<open>Concrete inputs\<close>

theorem hint_file_roundtrip_witness:
  "\<exists>w r. write_items every_item sample_items (newHintFileWriter 768) = Some w \<and>
    hint_open (Some (w_file (w_close w))) 5 = Inr r \<and> hint_scan r = Inr sample_items \<and> hf_numKey (w_meta (w_close w)) = 3"
proof -
  have "length sample_items = 3" by (simp add: sample_items_def)
  then show ?thesis
    using hint_file_roundtrip [OF sample_items_ok(2,3), of every_item 768 5] by auto
qed

theorem hint_get_correct_witness:
  "\<exists>w. write_items every_item sample_items (newHintFileWriter 768) = Some w \<and>
    hint_get 2 [97] \<lparr>hi_index = toIndex (w_index w), hi_file = Some (w_file (w_close w)), hi_meta = zero_meta\<rparr> =
    Inr (Some (sample_item 2))"
proof -
  obtain w where w: "write_items every_item sample_items (newHintFileWriter 768) = Some w"
    using sample_written by blast
  have "\<exists>it \<in> set sample_items. hint_key it = (2, [97]) \<or> 2 < it_Keyhash it"
    by (simp add: sample_items_def sample_item_def newHintItem_def)
  with hint_get_correct [OF sample_items_ok w, of 2 "[97]" zero_meta]
  have "hint_get 2 [97] \<lparr>hi_index = toIndex (w_index w), hi_file = Some (w_file (w_close w)), hi_meta = zero_meta\<rparr> =
    Inr (find (\<lambda>it. hint_key it = (2, [97])) sample_items)" by blast
  then show ?thesis using w by (simp add: sample_items_def sample_item_def newHintItem_def hint_key_def)
qed

end
