(* ===== verification/HintBuffer.thy ===== *)
theory HintBuffer
  imports HintFile Interfaces "HOL-Library.Mapping"
begin

text \<open>
  The collision table (\<open>store/collision.go\<close>) and the hint buffer (\<open>HintBuffer\<close> of \<open>store/hint.go\<close>).
  The buffer keeps items in an array of \<open>SplitCap\<close> pointers, finds them by key hash, and
  keeps a second index for the hashes under which several keys were stored; it refuses an item when
  the array is full.  The lemmas show that the buffer is a map from (key hash, key) to the item
  stored last, that a refused item changes nothing, that dumping it gives a hint file in which a
  lookup finds the same items, and that the collision table keeps the newest position of a key.
  Reading and writing the table as YAML is left to the library.
\<close>

section \<open>Definitions\<close>

subsection \<open>Hint identifiers\<close>

record HintID =
  hid_Chunk :: int
  hid_Split :: int

definition isLarger :: "HintID \<Rightarrow> int \<Rightarrow> int \<Rightarrow> bool" where
  "isLarger hid ck sp \<longleftrightarrow> ck > hid_Chunk hid \<or> (ck = hid_Chunk hid \<and> sp \<ge> hid_Split hid)"

definition setIfLarger :: "int \<Rightarrow> int \<Rightarrow> HintID \<Rightarrow> bool \<times> HintID" where
  "setIfLarger ck sp hid =
     (let larger = isLarger hid ck sp in (larger, if larger then hid\<lparr>hid_Chunk := ck, hid_Split := sp\<rparr> else hid))"

subsection \<open>The collision table\<close>

record CollisionTable =
  ct_id :: HintID
  ct_Items :: "u64 \<rightharpoonup> (bytes \<rightharpoonup> HintItem)"

definition newCollisionTable :: CollisionTable where
  "newCollisionTable = \<lparr>ct_id = \<lparr>hid_Chunk = 0, hid_Split = 0\<rparr>, ct_Items = Map.empty\<rparr>"

text \<open>The second result says whether the hash is in the table, for this key or another.\<close>

definition ct_get :: "u64 \<Rightarrow> bytes \<Rightarrow> CollisionTable \<Rightarrow> HintItem option \<times> bool" where
  "ct_get keyhash key table =
     (case ct_Items table keyhash of None \<Rightarrow> (None, False) | Some items \<Rightarrow> (items key, True))"

definition compareAndSet :: "HintItem \<Rightarrow> string \<Rightarrow> CollisionTable \<Rightarrow> CollisionTable" where
  "compareAndSet it reason table =
     (case ct_Items table (it_Keyhash it) of
        Some items \<Rightarrow>
          (let set_it = (case items (it_Key it) of
                 None \<Rightarrow> True
               | Some old \<Rightarrow> reason = ''gc'' \<or> CmpKey (it_Pos it) \<ge> CmpKey (it_Pos old))
           in if set_it then table\<lparr>ct_Items := (ct_Items table)(it_Keyhash it \<mapsto> items(it_Key it \<mapsto> it))\<rparr> else table)
      | None \<Rightarrow> table\<lparr>ct_Items := (ct_Items table)(it_Keyhash it \<mapsto> [it_Key it \<mapsto> it])\<rparr>)"

subsection \<open>The hint buffer\<close>

record HintBuffer =
  hb_maxoffset :: u32
  hb_index :: "(u64, nat) mapping"
  hb_collisions :: "(u64, (bytes, nat) mapping) mapping"
  hb_items :: "HintItem option list"
  hb_num :: nat

definition NewHintBuffer :: HintBuffer where
  "NewHintBuffer = \<lparr>hb_maxoffset = 0, hb_index = Mapping.empty, hb_collisions = Mapping.empty, hb_items = [], hb_num = 0\<rparr>"

definition SetMaxOffset :: "u32 \<Rightarrow> HintBuffer \<Rightarrow> HintBuffer" where
  "SetMaxOffset offset h = h\<lparr>hb_maxoffset := offset\<rparr>"

text \<open>The item in a slot; an index out of range or an empty slot (a nil pointer) is a panic.\<close>

definition hb_item :: "HintItem option list \<Rightarrow> nat \<Rightarrow> HintItem option" where
  "hb_item items i = (case nth_opt items i of Some x \<Rightarrow> x | None \<Rightarrow> None)"

text \<open>The search at the start of \<open>Set\<close>: the slot found, whether the key collides, and the collision index
  with the entry made for a first collision.\<close>

definition hb_find ::
    "HintItem \<Rightarrow> HintItem option list \<Rightarrow> HintBuffer \<Rightarrow> (nat option \<times> bool \<times> (u64, (bytes, nat) mapping) mapping) option" where
  "hb_find it items h =
     (case Mapping.lookup (hb_index h) (it_Keyhash it) of
        None \<Rightarrow> Some (None, False, hb_collisions h)
      | Some idx \<Rightarrow> do {
          old \<leftarrow> hb_item items idx;
          if it_Key it = it_Key old then Some (Some idx, False, hb_collisions h)
          else case Mapping.lookup (hb_collisions h) (it_Keyhash it) of
            Some keys \<Rightarrow> Some (Mapping.lookup keys (it_Key it), True, hb_collisions h)
          | None \<Rightarrow> Some (None, True, Mapping.update (it_Keyhash it) (Mapping.update (it_Key old) idx Mapping.empty)
                                      (hb_collisions h))
        })"

definition hb_Set :: "HStoreConfig \<Rightarrow> HintItem \<Rightarrow> u32 \<Rightarrow> HintBuffer \<Rightarrow> (bool \<times> HintBuffer) option" where
  "hb_Set c it recSize h =
     (if Mapping.is_empty (hb_index h) \<and> SplitCap c < 0 then None
      else do {
        let items = (if Mapping.is_empty (hb_index h) then replicate (nat (SplitCap c)) None else hb_items h);
        (found, iscollision, colls) \<leftarrow> hb_find it items h;
        let idx = (case found of Some i \<Rightarrow> i | None \<Rightarrow> hb_num h);
        let h1 = h\<lparr>hb_items := items, hb_collisions := colls\<rparr>;
        if found = None \<and> idx \<ge> length items
        then Some (False, if Offset (it_Pos it) > hb_maxoffset h then h1\<lparr>hb_maxoffset := Offset (it_Pos it)\<rparr> else h1)
        else do {
          let end' = Offset (it_Pos it) + recSize;
          items' \<leftarrow> upd_opt items idx (Some it);
          Some (True, h1\<lparr>hb_num := if found = None then hb_num h + 1 else hb_num h,
            hb_items := items',
            hb_index := Mapping.update (it_Keyhash it) idx (hb_index h),
            hb_collisions := if iscollision
              then Mapping.map_entry (it_Keyhash it) (Mapping.update (it_Key it) idx) colls else colls,
            hb_maxoffset := if end' > hb_maxoffset h then end' else hb_maxoffset h\<rparr>)
        }
      })"

definition hb_Get :: "u64 \<Rightarrow> bytes \<Rightarrow> HintBuffer \<Rightarrow> (HintItem option \<times> bool) option" where
  "hb_Get keyhash key h =
     (case Mapping.lookup (hb_index h) keyhash of
        None \<Rightarrow> Some (None, False)
      | Some idx \<Rightarrow> do {
          old \<leftarrow> hb_item (hb_items h) idx;
          if key = it_Key old then Some (Some old, False)
          else case Mapping.lookup (hb_collisions h) keyhash of
            None \<Rightarrow> Some (None, True)
          | Some keys \<Rightarrow>
              (case Mapping.lookup keys key of
                 None \<Rightarrow> Some (None, True)
               | Some i \<Rightarrow> do { it \<leftarrow> hb_item (hb_items h) i; Some (Some it, True) })
        })"

text \<open>\<open>Dump\<close>: the items sorted by key hash and key (the keys are distinct, so the sorted order is unique) and
  written; the index in memory does not repeat the offset of the index area.\<close>

definition hb_Dump :: "HStoreConfig \<Rightarrow> HintBuffer \<Rightarrow> hintFileIndex option" where
  "hb_Dump c h = do {
     its \<leftarrow> those (take (hb_num h) (hb_items h));
     w \<leftarrow> write_items c (sort_key hint_key its) (newHintFileWriter (hb_maxoffset h));
     Some \<lparr>hi_index = toIndex (w_index w), hi_file = Some (w_file (w_close w)),
           hi_meta = \<lparr>hf_numKey = int (hb_num h), hf_indexOffset = 0, hf_datasize = hb_maxoffset h\<rparr>\<rparr>
   }"

text \<open>The items of a buffer in the order of their slots, and the map they stand for.\<close>

definition hint_find :: "HintItem list \<Rightarrow> (u64 \<times> bytes) \<rightharpoonup> HintItem" where
  "hint_find its k = find (\<lambda>it. hint_key it = k) its"

text \<open>What the two indexes say of the list of keys.\<close>

definition idx_inv :: "(u64, nat) mapping \<Rightarrow> (u64, (bytes, nat) mapping) mapping \<Rightarrow> (u64 \<times> bytes) list \<Rightarrow> bool" where
  "idx_inv I C ks \<longleftrightarrow>
     (\<forall>kh i. Mapping.lookup I kh = Some i \<longrightarrow> i < length ks \<and> fst (ks ! i) = kh) \<and>
     (\<forall>i < length ks. Mapping.lookup I (fst (ks ! i)) \<noteq> None) \<and>
     (\<forall>kh i j. Mapping.lookup C kh = None \<and> i < length ks \<and> j < length ks \<and> fst (ks ! i) = kh \<and> fst (ks ! j) = kh \<longrightarrow> i = j) \<and>
     (\<forall>kh keys. Mapping.lookup C kh = Some keys \<longrightarrow> (\<exists>i < length ks. fst (ks ! i) = kh) \<and>
        (\<forall>key i. Mapping.lookup keys key = Some i \<longleftrightarrow> i < length ks \<and> ks ! i = (kh, key)))"

definition hb_inv :: "HStoreConfig \<Rightarrow> HintBuffer \<Rightarrow> HintItem list \<Rightarrow> bool" where
  "hb_inv c h its \<longleftrightarrow>
     hb_num h = length its \<and> take (length its) (hb_items h) = map Some its \<and> distinct (map hint_key its) \<and>
     (its \<noteq> [] \<longrightarrow> length (hb_items h) = nat (SplitCap c)) \<and> 0 \<le> SplitCap c \<and>
     (Mapping.is_empty (hb_index h) \<longleftrightarrow> its = []) \<and> idx_inv (hb_index h) (hb_collisions h) (map hint_key its)"

section \<open>The two indexes\<close>

lemma idx_invD:
  assumes "idx_inv I C ks"
  shows "\<And>kh i. Mapping.lookup I kh = Some i \<Longrightarrow> i < length ks \<and> fst (ks ! i) = kh"
    "\<And>kh. Mapping.lookup I kh = None \<Longrightarrow> kh \<notin> fst ` set ks"
    "\<And>kh i j. Mapping.lookup C kh = None \<Longrightarrow> i < length ks \<Longrightarrow> j < length ks \<Longrightarrow> fst (ks ! i) = kh \<Longrightarrow> fst (ks ! j) = kh \<Longrightarrow> i = j"
    "\<And>kh keys. Mapping.lookup C kh = Some keys \<Longrightarrow> \<exists>i < length ks. fst (ks ! i) = kh"
    "\<And>kh keys key i. Mapping.lookup C kh = Some keys \<Longrightarrow> Mapping.lookup keys key = Some i \<longleftrightarrow> i < length ks \<and> ks ! i = (kh, key)"
proof -
  show "\<And>kh i. Mapping.lookup I kh = Some i \<Longrightarrow> i < length ks \<and> fst (ks ! i) = kh"
    "\<And>kh i j. Mapping.lookup C kh = None \<Longrightarrow> i < length ks \<Longrightarrow> j < length ks \<Longrightarrow> fst (ks ! i) = kh \<Longrightarrow> fst (ks ! j) = kh \<Longrightarrow> i = j"
    "\<And>kh keys. Mapping.lookup C kh = Some keys \<Longrightarrow> \<exists>i < length ks. fst (ks ! i) = kh"
    "\<And>kh keys key i. Mapping.lookup C kh = Some keys \<Longrightarrow> Mapping.lookup keys key = Some i \<longleftrightarrow> i < length ks \<and> ks ! i = (kh, key)"
    using assms unfolding idx_inv_def by blast+
  show "kh \<notin> fst ` set ks" if "Mapping.lookup I kh = None" for kh
  proof
    assume "kh \<in> fst ` set ks"
    then obtain i where "i < length ks" "kh = fst (ks ! i)" by (auto simp: in_set_conv_nth)
    then show False using assms that unfolding idx_inv_def by blast
  qed
qed

lemma idx_inv_move:
  assumes "idx_inv I C ks" "i < length ks"
  shows "idx_inv (Mapping.update (fst (ks ! i)) i I) C ks"
  using assms by (auto simp: idx_inv_def lookup_update')

lemma idx_inv_first:
  assumes "idx_inv I C ks" "fst k \<notin> fst ` set ks"
  shows "idx_inv (Mapping.update (fst k) (length ks) I) C (ks @ [k])"
proof -
  have n: "fst (ks ! i) \<noteq> fst k" if "i < length ks" for i using assms(2) that by (metis image_eqI nth_mem)
  have c: "Mapping.lookup C (fst k) = None" using idx_invD(4) [OF assms(1)] n by (cases "Mapping.lookup C (fst k)") auto
  show ?thesis unfolding idx_inv_def
  proof (intro conjI allI impI)
    fix kh keys assume K: "Mapping.lookup C kh = Some keys"
    then have ne: "kh \<noteq> fst k" using c by auto
    show "\<exists>i < length (ks @ [k]). fst ((ks @ [k]) ! i) = kh"
      using idx_invD(4) [OF assms(1) K] by (auto simp: nth_append)
    show "Mapping.lookup keys key = Some i \<longleftrightarrow> i < length (ks @ [k]) \<and> (ks @ [k]) ! i = (kh, key)" for key i
      using idx_invD(5) [OF assms(1) K] ne by (auto simp: nth_append less_Suc_eq)
  next
    show "i < length (ks @ [k])" "fst ((ks @ [k]) ! i) = kh" if "Mapping.lookup (Mapping.update (fst k) (length ks) I) kh = Some i" for kh i
      using that idx_invD(1) [OF assms(1), of kh i] by (auto simp: lookup_update' nth_append split: if_splits)
  next
    show "Mapping.lookup (Mapping.update (fst k) (length ks) I) (fst ((ks @ [k]) ! i)) \<noteq> None" if "i < length (ks @ [k])" for i
      using that assms(1) by (auto simp: lookup_update' nth_append idx_inv_def less_Suc_eq)
  next
    fix kh i j
    assume "Mapping.lookup C kh = None \<and> i < length (ks @ [k]) \<and> j < length (ks @ [k]) \<and>
      fst ((ks @ [k]) ! i) = kh \<and> fst ((ks @ [k]) ! j) = kh"
    then show "i = j" using idx_invD(3) [OF assms(1), of kh i j] n [of i] n [of j]
      by (auto simp: nth_append less_Suc_eq split: if_splits)
  qed
qed

lemma idx_inv_collide:
  assumes "idx_inv I C ks" "Mapping.lookup C kh = Some keys" "(kh, key) \<notin> set ks"
  shows "idx_inv (Mapping.update kh (length ks) I) (Mapping.update kh (Mapping.update key (length ks) keys) C) (ks @ [(kh, key)])"
  unfolding idx_inv_def
proof (intro conjI allI impI)
  fix h ks' assume K: "Mapping.lookup (Mapping.update kh (Mapping.update key (length ks) keys) C) h = Some ks'"
  show "\<exists>i < length (ks @ [(kh, key)]). fst ((ks @ [(kh, key)]) ! i) = h"
    using K idx_invD(4) [OF assms(1), of h] by (cases "h = kh") (auto simp: lookup_update' nth_append)
  show "Mapping.lookup ks' k = Some i \<longleftrightarrow> i < length (ks @ [(kh, key)]) \<and> (ks @ [(kh, key)]) ! i = (h, k)" for k i
  proof (cases "h = kh")
    case True
    have "ks ! i \<noteq> (kh, key)" if "i < length ks" using assms(3) that nth_mem by metis
    then show ?thesis using True K idx_invD(5) [OF assms(1,2), of k i]
      by (auto simp: lookup_update' nth_append less_Suc_eq split: if_splits)
  next
    case False
    then show ?thesis using K idx_invD(5) [OF assms(1), of h ks' k i]
      by (auto simp: lookup_update' nth_append less_Suc_eq)
  qed
next
  show "i < length (ks @ [(kh, key)])" "fst ((ks @ [(kh, key)]) ! i) = h" if "Mapping.lookup (Mapping.update kh (length ks) I) h = Some i" for h i
    using that idx_invD(1) [OF assms(1), of h i] by (auto simp: lookup_update' nth_append split: if_splits)
next
  show "Mapping.lookup (Mapping.update kh (length ks) I) (fst ((ks @ [(kh, key)]) ! i)) \<noteq> None" if "i < length (ks @ [(kh, key)])" for i
    using that assms(1) by (auto simp: lookup_update' nth_append idx_inv_def less_Suc_eq)
next
  fix h i j
  assume "Mapping.lookup (Mapping.update kh (Mapping.update key (length ks) keys) C) h = None \<and> i < length (ks @ [(kh, key)]) \<and>
    j < length (ks @ [(kh, key)]) \<and> fst ((ks @ [(kh, key)]) ! i) = h \<and> fst ((ks @ [(kh, key)]) ! j) = h"
  then show "i = j" using idx_invD(3) [OF assms(1), of h i j]
    by (auto simp: lookup_update' nth_append less_Suc_eq split: if_splits)
qed

lemma idx_inv_new_entry:
  assumes "idx_inv I C ks" "Mapping.lookup C (fst (ks ! i)) = None" "i < length ks" "distinct ks"
  shows "idx_inv I (Mapping.update (fst (ks ! i)) (Mapping.update (snd (ks ! i)) i Mapping.empty) C) ks"
  unfolding idx_inv_def
proof (intro conjI allI impI)
  fix h ks' assume K: "Mapping.lookup (Mapping.update (fst (ks ! i)) (Mapping.update (snd (ks ! i)) i Mapping.empty) C) h = Some ks'"
  show "\<exists>i < length ks. fst (ks ! i) = h"
    using K idx_invD(4) [OF assms(1), of h] assms(3) by (auto simp: lookup_update' split: if_splits)
  show "Mapping.lookup ks' k = Some j \<longleftrightarrow> j < length ks \<and> ks ! j = (h, k)" for k j
  proof (cases "h = fst (ks ! i)")
    case True
    then have "Mapping.lookup ks' k = Some j \<longleftrightarrow> k = snd (ks ! i) \<and> j = i"
      using K by (auto simp: lookup_update' lookup_empty split: if_splits)
    moreover have "i = j" if "j < length ks" "ks ! j = (h, k)"
      by (rule idx_invD(3) [OF assms(1,2,3) that(1) refl]) (simp add: that(2) True)
    moreover have "ks ! i = (h, snd (ks ! i))" using True by simp
    ultimately show ?thesis using assms(3) by (metis snd_conv)
  next
    case False
    then show ?thesis using K idx_invD(5) [OF assms(1), of h ks' k j] by (simp add: lookup_update')
  qed
next
  fix h j l
  assume "Mapping.lookup (Mapping.update (fst (ks ! i)) (Mapping.update (snd (ks ! i)) i Mapping.empty) C) h = None \<and>
    j < length ks \<and> l < length ks \<and> fst (ks ! j) = h \<and> fst (ks ! l) = h"
  then show "j = l" using idx_invD(3) [OF assms(1), of h j l] by (auto simp: lookup_update' split: if_splits)
next
  show "j < length ks" "fst (ks ! j) = kh" if "Mapping.lookup I kh = Some j" for kh j
    using idx_invD(1) [OF assms(1) that] by auto
  show "Mapping.lookup I (fst (ks ! j)) \<noteq> None" if "j < length ks" for j
    using assms(1) that unfolding idx_inv_def by blast
qed

section \<open>The buffer is a map\<close>

lemma hb_inv_new: "0 \<le> SplitCap c \<Longrightarrow> hb_inv c NewHintBuffer []"
  by (simp add: hb_inv_def NewHintBuffer_def idx_inv_def Mapping.is_empty_empty lookup_empty)

lemma hb_inv_cap:
  assumes "hb_inv c h its"
  shows "length its \<le> nat (SplitCap c)"
proof (cases "its = []")
  case False
  then have f: "take (length its) (hb_items h) = map Some its" "length (hb_items h) = nat (SplitCap c)"
    using assms by (simp_all add: hb_inv_def)
  from arg_cong [OF f(1), of length] f(2) show ?thesis by simp
qed simp

lemma hb_item_nth:
  assumes "take (length its) items = map Some its" "i < length its"
  shows "hb_item items i = Some (its ! i)" "i < length items"
proof -
  show i: "i < length items" using assms by (metis length_map length_take min.strict_boundedE)
  have "items ! i = take (length its) items ! i" using assms(2) by simp
  then show "hb_item items i = Some (its ! i)" using assms i by (simp add: hb_item_def)
qed

lemma hint_find_nth:
  assumes "distinct (map hint_key its)" "i < length its"
  shows "hint_find its (hint_key (its ! i)) = Some (its ! i)"
proof -
  have "\<forall>j < i. hint_key (its ! j) \<noteq> hint_key (its ! i)"
    using assms by (auto simp: distinct_conv_nth)
  then show ?thesis unfolding hint_find_def find_Some_iff using assms(2) by (intro exI [of _ i]) auto
qed

lemma hint_find_None: "hint_find its k = None \<longleftrightarrow> k \<notin> hint_key ` set its"
  by (auto simp: hint_find_def find_None_iff)

lemma nth_hint_key: "i < length its \<Longrightarrow> map hint_key its ! i = (it_Keyhash (its ! i), it_Key (its ! i))"
  by (simp add: hint_key_def)

lemma only_key:
  assumes "idx_inv I C (map hint_key its)" "Mapping.lookup C kh = None" "i < length its" "fst (map hint_key its ! i) = kh"
    "j < length its" "map hint_key its ! j = (kh, key)"
  shows "key = it_Key (its ! i)"
proof -
  have "i = j" by (rule idx_invD(3) [OF assms(1,2)]) (use assms in simp_all)
  then show ?thesis using assms(5,6) by (simp add: hint_key_def)
qed

lemma hb_Get_inv:
  assumes "hb_inv c h its"
  shows "\<exists>coll. hb_Get kh key h = Some (hint_find its (kh, key), coll)"
proof -
  let ?ks = "map hint_key its"
  have inv: "idx_inv (hb_index h) (hb_collisions h) ?ks" and tk: "take (length its) (hb_items h) = map Some its"
    and d: "distinct ?ks" using assms by (simp_all add: hb_inv_def)
  note nth = hb_item_nth(1) [OF tk] and D = idx_invD [OF inv]
  have none: "hint_find its (kh, key) = None" if "\<forall>i < length its. ?ks ! i \<noteq> (kh, key)"
    using that by (auto simp: hint_find_None in_set_conv_nth)
  have some: "hint_find its (kh, key) = Some (its ! i)" if "i < length its" "?ks ! i = (kh, key)" for i
    using hint_find_nth [OF d that(1)] that by simp
  show ?thesis
  proof (cases "Mapping.lookup (hb_index h) kh")
    case None
    then have "\<forall>i < length its. ?ks ! i \<noteq> (kh, key)" using D(2) [of kh] by (metis fst_conv image_eqI length_map nth_mem)
    then show ?thesis using None none by (auto simp: hb_Get_def)
  next
    case (Some i)
    then have i: "i < length its" "fst (?ks ! i) = kh" using D(1) [OF Some] by auto
    show ?thesis
    proof (cases "key = it_Key (its ! i)")
      case True
      then show ?thesis using Some nth [OF i(1)] i some by (auto simp: hb_Get_def hint_key_def)
    next
      case False
      show ?thesis
      proof (cases "Mapping.lookup (hb_collisions h) kh")
        case None
        have "\<forall>j < length its. ?ks ! j \<noteq> (kh, key)" using only_key [OF inv None i] False by auto
        then show ?thesis using Some False None nth [OF i(1)] none by (intro exI [of _ True]) (simp add: hb_Get_def)
      next
        case keys: (Some keys)
        note lk = D(5) [OF keys, of key]
        show ?thesis
        proof (cases "Mapping.lookup keys key")
          case None
          then have "\<forall>j < length its. ?ks ! j \<noteq> (kh, key)" using lk by (metis length_map option.distinct(1))
          then show ?thesis using Some False keys None nth [OF i(1)] none by (intro exI [of _ True]) (simp add: hb_Get_def)
        next
          case j: (Some j)
          then have "j < length its" "?ks ! j = (kh, key)" using lk [of j] by auto
          then show ?thesis using Some False keys j nth [OF i(1)] nth [of j] some by (intro exI [of _ True]) (simp add: hb_Get_def)
        qed
      qed
    qed
  qed
qed

lemma hb_find_inv:
  assumes "hb_inv c h its" "take (length its) items = map Some its"
  shows "\<exists>found coll C. hb_find it items h = Some (found, coll, C) \<and> idx_inv (hb_index h) C (map hint_key its) \<and>
    (case found of Some i \<Rightarrow> i < length its \<and> hint_key (its ! i) = hint_key it
     | None \<Rightarrow> hint_key it \<notin> set (map hint_key its) \<and> (\<not> coll \<longrightarrow> it_Keyhash it \<notin> fst ` set (map hint_key its))) \<and>
    (coll \<longrightarrow> (\<exists>keys. Mapping.lookup C (it_Keyhash it) = Some keys \<and>
       (case found of Some i \<Rightarrow> Mapping.lookup keys (it_Key it) = Some i | None \<Rightarrow> True)))"
proof -
  let ?ks = "map hint_key its" and ?kh = "it_Keyhash it"
  have inv: "idx_inv (hb_index h) (hb_collisions h) ?ks" and d: "distinct ?ks" using assms(1) by (simp_all add: hb_inv_def)
  note nth = hb_item_nth(1) [OF assms(2)] and D = idx_invD [OF inv]
  have key: "hint_key it = (?kh, it_Key it)" by (simp add: hint_key_def)
  show ?thesis
  proof (cases "Mapping.lookup (hb_index h) ?kh")
    case None
    then have "?kh \<notin> fst ` set ?ks" by (rule D(2))
    then have "hint_key it \<notin> set ?ks" by (metis fst_conv image_eqI key)
    then show ?thesis using None inv \<open>?kh \<notin> fst ` set ?ks\<close> 
      by (intro exI [of _ None] exI [of _ False] exI [of _ "hb_collisions h"]) (simp add: hb_find_def)
  next
    case (Some i)
    then have i: "i < length its" "fst (?ks ! i) = ?kh" using D(1) [OF Some] by auto
    show ?thesis
    proof (cases "it_Key it = it_Key (its ! i)")
      case True
      then show ?thesis using Some nth [OF i(1)] i inv 
        by (intro exI [of _ "Some i"] exI [of _ False] exI [of _ "hb_collisions h"]) (simp add: hb_find_def hint_key_def)
    next
      case False
      show ?thesis
      proof (cases "Mapping.lookup (hb_collisions h) ?kh")
        case None
        have "\<forall>j < length its. ?ks ! j \<noteq> hint_key it" using only_key [OF inv None i, where key = "it_Key it"] False key by auto
        then have ns: "hint_key it \<notin> set ?ks" by (metis in_set_conv_nth length_map)
        have lk: "Mapping.lookup (hb_collisions h) (fst (?ks ! i)) = None" "i < length ?ks" using None i by simp_all
        have "snd (?ks ! i) = it_Key (its ! i)" using i(1) by (simp add: hint_key_def)
        with idx_inv_new_entry [OF inv lk d] i(2)
        have "idx_inv (hb_index h) (Mapping.update ?kh (Mapping.update (it_Key (its ! i)) i Mapping.empty) (hb_collisions h)) ?ks"
          by simp
        then show ?thesis using Some nth [OF i(1)] None False ns
          by (intro exI [of _ None] exI [of _ True]) (simp add: hb_find_def lookup_update)
      next
        case keys: (Some keys)
        note lk = D(5) [OF keys, of "it_Key it"]
        show ?thesis
        proof (cases "Mapping.lookup keys (it_Key it)")
          case None
          then have "\<forall>j < length its. ?ks ! j \<noteq> hint_key it" using lk key by (metis length_map option.distinct(1))
          then have "hint_key it \<notin> set ?ks" by (metis in_set_conv_nth length_map)
          then show ?thesis using Some nth [OF i(1)] False keys None inv
            by (intro exI [of _ None] exI [of _ True]) (simp add: hb_find_def)
        next
          case j: (Some j)
          then have "j < length its" "hint_key (its ! j) = hint_key it" using lk [of j] by (auto simp: key)
          then show ?thesis using Some nth [OF i(1)] False keys j inv
            by (intro exI [of _ "Some j"] exI [of _ True]) (simp add: hb_find_def)
        qed
      qed
    qed
  qed
qed

lemma idx_inv_same:
  assumes "idx_inv I C ks" "Mapping.lookup C kh = Some keys" "Mapping.lookup keys key = Some i"
  shows "idx_inv I (Mapping.map_entry kh (Mapping.update key i) C) ks"
proof -
  have "Mapping.lookup (Mapping.update key i keys) k = Mapping.lookup keys k" for k
    using assms(3) by (auto simp: lookup_update')
  then show ?thesis using assms(1,2) unfolding idx_inv_def by (simp add: lookup_map_entry' split: if_splits)
qed

lemma hint_find_snoc:
  assumes "hint_key it \<notin> set (map hint_key its)"
  shows "hint_find (its @ [it]) = (hint_find its)(hint_key it \<mapsto> it)"
proof (rule ext)
  fix k
  have "hint_find its (hint_key it) = None" using assms by (auto simp: hint_find_None)
  then show "hint_find (its @ [it]) k = ((hint_find its)(hint_key it \<mapsto> it)) k"
    by (auto simp: hint_find_def find_append split: option.splits)
qed

lemma hint_find_update:
  assumes "i < length its" "hint_key (its ! i) = hint_key it" "distinct (map hint_key its)"
  shows "hint_find (its[i := it]) = (hint_find its)(hint_key it \<mapsto> it)" "map hint_key (its[i := it]) = map hint_key its"
proof -
  show m: "map hint_key (its[i := it]) = map hint_key its" using assms(1,2) by (simp add: map_update list_update_same_conv)
  show "hint_find (its[i := it]) = (hint_find its)(hint_key it \<mapsto> it)"
  proof (rule ext)
    fix k
    show "hint_find (its[i := it]) k = ((hint_find its)(hint_key it \<mapsto> it)) k"
    proof (cases "k \<in> set (map hint_key its)")
      case True
      then obtain j where j: "j < length its" "k = hint_key (its ! j)" by (auto simp: in_set_conv_nth)
      have d: "distinct (map hint_key (its[i := it]))" using assms(3) m by simp
      have "hint_key (its[i := it] ! j) = k" using j m by (metis length_list_update nth_map)
      then have u: "hint_find (its[i := it]) k = Some (its[i := it] ! j)"
        using hint_find_nth [OF d, of j] j(1) by simp
      have o: "hint_find its k = Some (its ! j)" using hint_find_nth [OF assms(3) j(1)] j(2) by simp
      show ?thesis
      proof (cases "j = i")
        case True
        then show ?thesis using u assms j by simp
      next
        case False
        then have "k \<noteq> hint_key it"
          using assms j by (metis distinct_conv_nth length_map nth_map)
        then show ?thesis using u o False by simp
      qed
    next
      case False
      then have "k \<noteq> hint_key it" using assms(1,2) by (metis length_map nth_map nth_mem)
      moreover have "k \<notin> hint_key ` set (its[i := it])" using False m by (metis list.set_map)
      ultimately show ?thesis using False hint_find_None [of "its[i := it]" k] hint_find_None [of its k] by simp
    qed
  qed
qed

lemma hb_Set_inv:
  assumes "hb_inv c h its"
  shows "\<exists>ok h'. hb_Set c it recSize h = Some (ok, h') \<and>
    (if ok then \<exists>its'. hb_inv c h' its' \<and> hint_find its' = (hint_find its)(hint_key it \<mapsto> it)
     else hb_inv c h' its \<and> hint_find its (hint_key it) = None \<and> length its = nat (SplitCap c))"
proof -
  define items where "items = (if its = [] then replicate (nat (SplitCap c)) None else hb_items h)"
  let ?ks = "map hint_key its" and ?kh = "it_Keyhash it"
  have H: "hb_num h = length its" "distinct ?ks" "0 \<le> SplitCap c" "Mapping.is_empty (hb_index h) \<longleftrightarrow> its = []"
    "its \<noteq> [] \<Longrightarrow> length (hb_items h) = nat (SplitCap c)" using assms by (simp_all add: hb_inv_def)
  have tk: "take (length its) items = map Some its" using assms by (auto simp: items_def hb_inv_def)
  have li: "length items = nat (SplitCap c)" using H(5) by (simp add: items_def)
  have le: "length its \<le> nat (SplitCap c)" using arg_cong [OF tk, of length] li by simp
  obtain found coll C where f: "hb_find it items h = Some (found, coll, C)" "idx_inv (hb_index h) C ?ks"
    "case found of Some i \<Rightarrow> i < length its \<and> hint_key (its ! i) = hint_key it
     | None \<Rightarrow> hint_key it \<notin> set ?ks \<and> (\<not> coll \<longrightarrow> ?kh \<notin> fst ` set ?ks)"
    "coll \<longrightarrow> (\<exists>keys. Mapping.lookup C ?kh = Some keys \<and>
       (case found of Some i \<Rightarrow> Mapping.lookup keys (it_Key it) = Some i | None \<Rightarrow> True))"
    using hb_find_inv [OF assms tk, of it] by (elim exE conjE) (rule that)
  have key: "hint_key it = (?kh, it_Key it)" by (simp add: hint_key_def)
  have S: "hb_Set c it recSize h = (let idx = (case found of Some i \<Rightarrow> i | None \<Rightarrow> length its);
        h1 = h\<lparr>hb_items := items, hb_collisions := C\<rparr>; end' = Offset (it_Pos it) + recSize in
      if found = None \<and> idx \<ge> length items
      then Some (False, if Offset (it_Pos it) > hb_maxoffset h then h1\<lparr>hb_maxoffset := Offset (it_Pos it)\<rparr> else h1)
      else map_option (\<lambda>items'. (True, h1\<lparr>hb_num := if found = None then length its + 1 else length its,
            hb_items := items', hb_index := Mapping.update ?kh idx (hb_index h),
            hb_collisions := if coll then Mapping.map_entry ?kh (Mapping.update (it_Key it) idx) C else C,
            hb_maxoffset := if end' > hb_maxoffset h then end' else hb_maxoffset h\<rparr>)) (upd_opt items idx (Some it)))"
    unfolding hb_Set_def using H(1,3,4) f(1)
    by (simp add: items_def [symmetric] Let_def split: option.splits bind_splits)
  show ?thesis
  proof (cases found)
    case (Some i)
    then have i: "i < length its" "hint_key (its ! i) = hint_key it" using f(3) by simp_all
    note U = hint_find_update [OF i H(2)]
    have il: "i < length items" using i(1) le li by simp
    define C' where "C' = (if coll then Mapping.map_entry ?kh (Mapping.update (it_Key it) i) C else C)"
    have "idx_inv (hb_index h) C' ?ks"
      using f(2,4) Some idx_inv_same by (fastforce simp: C'_def)
    from idx_inv_move [OF this, of i] have iv: "idx_inv (Mapping.update ?kh i (hb_index h)) C' (map hint_key (its[i := it]))"
      using i by (simp add: U(2) key)
    have tk': "take (length its) (items[i := Some it]) = map Some (its[i := it])"
      by (simp add: take_update_swap tk map_update)
    have ne: "\<not> Mapping.is_empty (Mapping.update ?kh i (hb_index h))" by (simp add: Mapping.is_empty_def)
    define h' where "h' = h\<lparr>hb_items := items[i := Some it], hb_collisions := C', hb_num := length its,
      hb_index := Mapping.update ?kh i (hb_index h),
      hb_maxoffset := if Offset (it_Pos it) + recSize > hb_maxoffset h then Offset (it_Pos it) + recSize else hb_maxoffset h\<rparr>"
    have "hb_Set c it recSize h = Some (True, h')"
      using S Some il by (simp add: Let_def h'_def C'_def)
    moreover have "hb_inv c h' (its[i := it])"
      using tk' iv ne i(1) H(2,3) li U(2) by (auto simp: hb_inv_def h'_def)
    ultimately show ?thesis using U(1) by (intro exI [of _ True] exI [of _ h']) auto
  next
    case None
    then have nk: "hint_key it \<notin> set ?ks" "\<not> coll \<Longrightarrow> ?kh \<notin> fst ` set ?ks" using f(3) by simp_all
    show ?thesis
    proof (cases "length its < length items")
      case False
      define h' where "h' = (if Offset (it_Pos it) > hb_maxoffset h
        then h\<lparr>hb_items := items, hb_collisions := C, hb_maxoffset := Offset (it_Pos it)\<rparr> else h\<lparr>hb_items := items, hb_collisions := C\<rparr>)"
      have "hb_Set c it recSize h = Some (False, h')" using S None False by (simp add: Let_def h'_def)
      moreover have "hb_inv c h' its"
        using tk f(2) H li by (auto simp: hb_inv_def h'_def)
      moreover have "hint_find its (hint_key it) = None" using nk(1) by (simp add: hint_find_None)
      moreover have "length its = nat (SplitCap c)" using False li le by simp
      ultimately show ?thesis by (intro exI [of _ False] exI [of _ h']) simp
    next
      case True
      define C' where "C' = (if coll then Mapping.map_entry ?kh (Mapping.update (it_Key it) (length its)) C else C)"
      have iv: "idx_inv (Mapping.update ?kh (length its) (hb_index h)) C' (map hint_key (its @ [it]))"
      proof (cases coll)
        case True
        then obtain keys where k: "Mapping.lookup C ?kh = Some keys" using f(4) by auto
        then have "Mapping.map_entry ?kh (Mapping.update (it_Key it) (length its)) C =
            Mapping.update ?kh (Mapping.update (it_Key it) (length its) keys) C"
          by (intro mapping_eqI) (auto simp: lookup_map_entry' lookup_update' k)
        then show ?thesis using idx_inv_collide [OF f(2) k, of "it_Key it"] nk(1) True key by (simp add: C'_def)
      next
        case False
        then show ?thesis using idx_inv_first [OF f(2), of "hint_key it"] nk(2) key by (simp add: C'_def)
      qed
      have tk': "take (length (its @ [it])) (items[length its := Some it]) = map Some (its @ [it])"
        using True by (simp add: take_Suc_conv_app_nth tk)
      have ne: "\<not> Mapping.is_empty (Mapping.update ?kh (length its) (hb_index h))" by (simp add: Mapping.is_empty_def)
      define h' where "h' = h\<lparr>hb_items := items[length its := Some it], hb_collisions := C', hb_num := length its + 1,
        hb_index := Mapping.update ?kh (length its) (hb_index h),
        hb_maxoffset := if Offset (it_Pos it) + recSize > hb_maxoffset h then Offset (it_Pos it) + recSize else hb_maxoffset h\<rparr>"
      have "hb_Set c it recSize h = Some (True, h')"
        using S None True by (simp add: Let_def h'_def C'_def)
      moreover have "hb_inv c h' (its @ [it])"
        using tk' iv ne H(2,3) li nk(1) by (auto simp: hb_inv_def h'_def)
      ultimately show ?thesis using hint_find_snoc [OF nk(1)] by (intro exI [of _ True] exI [of _ h']) auto
    qed
  qed
qed

definition hb_rep :: "HStoreConfig \<Rightarrow> HintBuffer \<Rightarrow> ((u64 \<times> bytes) \<rightharpoonup> HintItem) \<Rightarrow> bool" where
  "hb_rep c h m \<longleftrightarrow> (\<exists>its. hb_inv c h its \<and> m = hint_find its)"

interpretation hintbuf: kv_buffer "hb_rep c" "\<lambda>a. hint_key (fst a)" fst "\<lambda>(it, recSize). hb_Set c it recSize"
  "\<lambda>(kh, key) h. map_option fst (hb_Get kh key h)" for c
proof unfold_locales
  fix s m and a :: "HintItem \<times> u32"
  assume "hb_rep c s m"
  then obtain its where its: "hb_inv c s its" "m = hint_find its" by (auto simp: hb_rep_def)
  obtain it recSize where a: "a = (it, recSize)" by (cases a)
  from hb_Set_inv [OF its(1), of it recSize] obtain ok s' where s: "hb_Set c it recSize s = Some (ok, s')"
    "if ok then \<exists>its'. hb_inv c s' its' \<and> hint_find its' = (hint_find its)(hint_key it \<mapsto> it)
     else hb_inv c s' its \<and> hint_find its (hint_key it) = None \<and> length its = nat (SplitCap c)" by blast
  have "if ok then hb_rep c s' (m(hint_key it \<mapsto> it)) else hb_rep c s' m \<and> m (hint_key it) = None"
    using s(2) its(2) by (cases ok) (auto simp: hb_rep_def)
  then show "\<exists>ok s'. (case a of (it, recSize) \<Rightarrow> hb_Set c it recSize) s = Some (ok, s') \<and>
      (if ok then hb_rep c s' (m(hint_key (fst a) \<mapsto> fst a))
       else hb_rep c s' m \<and> m (hint_key (fst a)) = None)"
    using s(1) a by auto
next
  fix s m and k :: "u64 \<times> bytes"
  assume "hb_rep c s m"
  then obtain its where "hb_inv c s its" "m = hint_find its" by (auto simp: hb_rep_def)
  then show "(case k of (kh, key) \<Rightarrow> \<lambda>h. map_option fst (hb_Get kh key h)) s = Some (m k)"
    using hb_Get_inv [of c s its "fst k" "snd k"] by (auto simp: case_prod_beta)
qed

lemma hb_rep_new: "0 \<le> SplitCap c \<Longrightarrow> hb_rep c NewHintBuffer Map.empty"
  using hb_inv_new [of c] by (auto simp: hb_rep_def hint_find_def fun_eq_iff intro!: exI [of _ "[]"])

text \<open>C14: a hint buffer driven through any sequence of \<open>Set\<close> calls does not panic and is a map over full key hashes and keys:
  \<open>Get\<close> returns the last item that \<open>Set\<close> accepted under the hash and key, also for keys whose hashes
  collide, and nothing for a key never accepted.\<close>

theorem hint_buffer_last_write:
  assumes "0 \<le> SplitCap c"
  shows "\<exists>taken h. run_puts (\<lambda>(it, recSize). hb_Set c it recSize) sets NewHintBuffer = Some (taken, h) \<and>
    map_option fst (hb_Get kh key h) = Some (map_option fst (find (\<lambda>a. hint_key (fst a) = (kh, key)) taken))"
  using hintbuf.run_puts_get [OF hb_rep_new [OF assms], of sets "(kh, key)"] by simp

section \<open>Dumping a buffer\<close>

lemma hint_find_mem:
  assumes "distinct (map hint_key its)" "it \<in> set its"
  shows "hint_find its (hint_key it) = Some it"
  using assms hint_find_nth by (auto simp: in_set_conv_nth)

lemma hint_sorted_sort:
  assumes "distinct (map hint_key its)"
  shows "hint_sorted (sort_key hint_key its)" "distinct (map hint_key (sort_key hint_key its))"
proof -
  show d: "distinct (map hint_key (sort_key hint_key its))"
    using assms by (simp add: distinct_map)
  have "sorted (map hint_key (sort_key hint_key its))" by simp
  then have "sorted_wrt (<) (map hint_key (sort_key hint_key its))" using d by (simp add: strict_sorted_iff)
  then show "hint_sorted (sort_key hint_key its)" by (simp add: sorted_wrt_map)
qed

lemma those_Some: "those (map Some xs) = Some xs"
  by (induction xs) auto

text \<open>Dumping loses nothing: for a buffer filled by any sequence of \<open>Set\<close> calls, \<open>Dump\<close> succeeds, and looking up a key
  that the buffer holds in the dumped file returns the item the buffer returns.\<close>

theorem dump_keeps_items:
  assumes "run_puts (\<lambda>(it, recSize). hb_Set c it recSize) sets NewHintBuffer = Some (taken, h)"
    and "0 \<le> SplitCap c" and "SplitCap c < 4096 * 4096" and "\<forall>(it, recSize) \<in> set sets. hint_item_ok it"
    and "hb_Get kh key h = Some (Some it, coll)"
  shows "\<exists>idx. hb_Dump c h = Some idx \<and> hint_get kh key idx = Inr (Some it)"
proof -
  have "hb_rep c h (\<lambda>k. case find (\<lambda>a. hint_key (fst a) = k) taken of Some a \<Rightarrow> Some (fst a) | None \<Rightarrow> None)"
    using hintbuf.run_puts_rep [OF hb_rep_new [OF assms(2)], of sets] assms(1) by auto
  then obtain its where its: "hb_inv c h its"
    "hint_find its = (\<lambda>k. case find (\<lambda>a. hint_key (fst a) = k) taken of Some a \<Rightarrow> Some (fst a) | None \<Rightarrow> None)"
    by (auto simp: hb_rep_def)
  have d: "distinct (map hint_key its)" and n: "hb_num h = length its" and tk: "take (length its) (hb_items h) = map Some its"
    using its(1) by (simp_all add: hb_inv_def)
  note tkn = run_puts_subset [OF assms(1)]
  have ok: "hint_item_ok x" if "x \<in> set its" for x
  proof -
    have "hint_find its (hint_key x) = Some x" by (rule hint_find_mem [OF d that])
    then obtain r where "find (\<lambda>a. hint_key (fst a) = hint_key x) taken = Some (x, r)"
      unfolding its(2) by (auto split: option.splits)
    then have "(x, r) \<in> set taken" by (auto simp: find_Some_iff in_set_conv_nth)
    then show ?thesis using assms(4) tkn by auto
  qed
  have len: "length its < 4096 * 4096"
  proof -
    have "length its \<le> nat (SplitCap c)"
      using hb_inv_cap [OF its(1)] by simp
    then show ?thesis using assms(3) by linarith
  qed
  let ?s = "sort_key hint_key its"
  note S = hint_sorted_sort [OF d]
  have s: "\<forall>x \<in> set ?s. hint_item_ok x" "length ?s < 4096 * 4096" using ok len by simp_all
  obtain w where w: "write_items c ?s (newHintFileWriter (hb_maxoffset h)) = Some w"
    using hint_file_written [OF s, of c "hb_maxoffset h"] by blast
  have f: "hint_find its (kh, key) = Some it" using hb_Get_inv [OF its(1), of kh key] assms(5) by auto
  then have it: "it \<in> set its" "hint_key it = (kh, key)" by (auto simp: hint_find_def find_Some_iff)
  then have "\<exists>x \<in> set ?s. hint_key x = (kh, key) \<or> kh < it_Keyhash x" by auto
  with hint_get_written [OF S(1) s w]
  have "hint_get kh key \<lparr>hi_index = toIndex (w_index w), hi_file = Some (w_file (w_close w)), hi_meta = m\<rparr> =
      Inr (find (\<lambda>it. hint_key it = (kh, key)) ?s)" for m by blast
  moreover have "find (\<lambda>it. hint_key it = (kh, key)) ?s = Some it"
    using hint_find_mem [OF S(2), of it] it by (simp add: hint_find_def)
  ultimately show ?thesis using w n tk by (simp add: hb_Dump_def those_Some)
qed

section \<open>The collision table keeps the newest\<close>

definition is_newest :: "HintItem \<Rightarrow> HintItem list \<Rightarrow> bool" where
  "is_newest it its \<longleftrightarrow> it \<in> set its \<and> (\<forall>x \<in> set its. CmpKey (it_Pos x) \<le> CmpKey (it_Pos it))"

lemma compareAndSet_get:
  "fst (ct_get kh key (compareAndSet it reason t)) =
     (if hint_key it = (kh, key) then
        (case fst (ct_get kh key t) of
           None \<Rightarrow> Some it
         | Some old \<Rightarrow> if reason = ''gc'' \<or> CmpKey (it_Pos it) \<ge> CmpKey (it_Pos old) then Some it else Some old)
      else fst (ct_get kh key t))"
  "snd (ct_get kh key (compareAndSet it reason t)) \<longleftrightarrow> snd (ct_get kh key t) \<or> it_Keyhash it = kh"
  by (auto simp: ct_get_def compareAndSet_def hint_key_def Let_def split: option.splits)

text \<open>After any sequence of \<open>compareAndSet\<close> calls outside garbage collection, the collision table holds, for every
  key that was set, an item with the largest position among those set under it, nothing for other
  keys, and reports a hash as present exactly when some key was set under it.\<close>

theorem collision_keeps_newest:
  assumes "reason \<noteq> ''gc''" and "t = fold (\<lambda>it. compareAndSet it reason) its newCollisionTable"
  shows "(case fst (ct_get kh key t) of
       None \<Rightarrow> filter (\<lambda>it. hint_key it = (kh, key)) its = []
     | Some it \<Rightarrow> is_newest it (filter (\<lambda>it. hint_key it = (kh, key)) its)) \<and>
    (snd (ct_get kh key t) \<longleftrightarrow> kh \<in> it_Keyhash ` set its)"
  unfolding assms(2)
proof (induction its rule: rev_induct)
  case Nil
  then show ?case by (simp add: ct_get_def newCollisionTable_def)
next
  case (snoc it its)
  let ?t = "fold (\<lambda>it. compareAndSet it reason) its newCollisionTable"
  show ?case
    using snoc assms(1) compareAndSet_get [of kh key it reason ?t]
    by (fastforce simp: is_newest_def filter_empty_conv split: option.splits if_splits)
qed

section \<open>Concrete inputs\<close>

text \<open>Two keys under one hash, one of them written twice.\<close>

definition sample_sets :: "(HintItem \<times> u32) list" where
  "sample_sets = [(newHintItem 5 1 7 \<lparr>ChunkID = 0, Offset = 0\<rparr> [97], 256), (newHintItem 5 1 8 \<lparr>ChunkID = 0, Offset = 256\<rparr> [98], 256),
     (newHintItem 5 2 9 \<lparr>ChunkID = 0, Offset = 512\<rparr> [97], 256)]"

definition small_split :: HStoreConfig where
  "small_split = sample_conf\<lparr>SplitCap := 2\<rparr>"

lemma sample_sets_run:
  "\<exists>h. run_puts (\<lambda>(it, recSize). hb_Set small_split it recSize) sample_sets NewHintBuffer = Some (rev sample_sets, h)"
  by (simp add: sample_sets_def small_split_def sample_conf_def hb_Set_def hb_find_def NewHintBuffer_def newHintItem_def
      Mapping.is_empty_empty lookup_empty lookup_update' Let_def numeral_2_eq_2 hb_item_def nth_opt_def upd_opt_def Mapping.is_empty_def
      lookup_map_entry')

theorem hint_buffer_last_write_witness:
  "\<exists>h. run_puts (\<lambda>(it, recSize). hb_Set small_split it recSize) sample_sets NewHintBuffer = Some (rev sample_sets, h) \<and>
     map_option fst (hb_Get 5 [97] h) = Some (Some (newHintItem 5 2 9 \<lparr>ChunkID = 0, Offset = 512\<rparr> [97]))"
proof -
  obtain h where h: "run_puts (\<lambda>(it, recSize). hb_Set small_split it recSize) sample_sets NewHintBuffer = Some (rev sample_sets, h)"
    using sample_sets_run by blast
  have "0 \<le> SplitCap small_split" by (simp add: small_split_def)
  from hint_buffer_last_write [OF this, of sample_sets 5 "[97]"] h
  show ?thesis by (simp add: sample_sets_def newHintItem_def hint_key_def)
qed

theorem dump_keeps_items_witness:
  "\<exists>h idx. run_puts (\<lambda>(it, recSize). hb_Set small_split it recSize) sample_sets NewHintBuffer = Some (rev sample_sets, h) \<and>
     hb_Dump small_split h = Some idx \<and>
     hint_get 5 [97] idx = Inr (Some (newHintItem 5 2 9 \<lparr>ChunkID = 0, Offset = 512\<rparr> [97]))"
proof -
  obtain h where h: "run_puts (\<lambda>(it, recSize). hb_Set small_split it recSize) sample_sets NewHintBuffer = Some (rev sample_sets, h)"
    using sample_sets_run by blast
  have c: "0 \<le> SplitCap small_split" "SplitCap small_split < 4096 * 4096" by (simp_all add: small_split_def)
  have ok: "\<forall>(it, recSize) \<in> set sample_sets. hint_item_ok it" by (simp add: sample_sets_def newHintItem_def hint_item_ok_def)
  have "hb_rep small_split h (\<lambda>k. case find (\<lambda>a. hint_key (fst a) = k) (rev sample_sets) of Some a \<Rightarrow> Some (fst a) | None \<Rightarrow> None)"
    using hintbuf.run_puts_rep [OF hb_rep_new [OF c(1)], of sample_sets] h by auto
  from hintbuf.get_rep [OF this, of "(5, [97])"]
  obtain coll where g: "hb_Get 5 [97] h = Some (Some (newHintItem 5 2 9 \<lparr>ChunkID = 0, Offset = 512\<rparr> [97]), coll)"
    by (auto simp: sample_sets_def newHintItem_def hint_key_def)
  from dump_keeps_items [OF h c ok g] h show ?thesis by blast
qed

theorem collision_keeps_newest_witness:
  "let t = fold (\<lambda>it. compareAndSet it ''merge'') (map fst sample_sets) newCollisionTable
   in fst (ct_get 5 [97] t) = Some (newHintItem 5 2 9 \<lparr>ChunkID = 0, Offset = 512\<rparr> [97])"
proof -
  let ?t = "fold (\<lambda>it. compareAndSet it ''merge'') (map fst sample_sets) newCollisionTable"
  have "''merge'' \<noteq> ''gc''" by simp
  from collision_keeps_newest [OF this refl, of 5 "[97]" "map fst sample_sets"]
  show ?thesis
    by (cases "fst (ct_get 5 [97] ?t)")
      (simp_all add: sample_sets_def newHintItem_def hint_key_def is_newest_def CmpKey_def, auto simp: CmpKey_def)
qed

end
