(* ===== verification/HintMgr.thy ===== *)
theory HintMgr
  imports HintBuffer
begin

text \<open>
  Hint chunks and the hint manager (\<open>store/hint.go\<close>): a chunk is a list of splits, each a buffer in memory or a
  dumped file, the last of which takes new items; the manager holds 998 chunks, the collision table
  and the merged index.  The current time is an argument, an index out of range or a nil pointer is
  a panic (\<open>None\<close>), and the \<open>.s\<close> files on disk are a map from (chunk, split) to bytes; a split keeps the bytes its
  file had when it was dumped or loaded, since a file in use is never removed.  The lemmas show that a chunk in memory returns
  the last item set under a key whatever splits were started, that file names are parsed back, and two defects:
  the periodic dump never starts a merge, and the collision lookup loses an item that it has found.
\<close>

section \<open>Definitions\<close>

unbundle bit_operations_syntax

subsection \<open>Names\<close>

definition idToStr :: "int \<Rightarrow> string" where
  "idToStr i = (if i < 0 then ''*'' else FormatPad 10 3 i)"

text \<open>The slices \<open>name[:3]\<close> and \<open>name[4:7]\<close> panic on a shorter name.\<close>

definition parseChunkIDFromName :: "string \<Rightarrow> (int \<times> num_err option) option" where
  "parseChunkIDFromName name = (if length name < 3 then None else Some (Atoi (take 3 name)))"

definition parseSplitIDFromName :: "string \<Rightarrow> (int \<times> num_err option) option" where
  "parseSplitIDFromName name = (if length name < 7 then None else Some (Atoi (slice 4 7 name)))"

definition parseIDFromName :: "string \<Rightarrow> (HintID \<times> bool) option" where
  "parseIDFromName name = do {
     (ck, err1) \<leftarrow> parseChunkIDFromName name;
     (sp, err2) \<leftarrow> parseSplitIDFromName name;
     Some (if err1 = None \<and> err2 = None \<and> ck < MAX_NUM_CHUNK \<and> sp < MAX_NUM_SPLIT
           then (\<lparr>hid_Chunk = ck, hid_Split = sp\<rparr>, True) else (\<lparr>hid_Chunk = 0, hid_Split = 0\<rparr>, False))
   }"

definition index_name :: "int \<Rightarrow> int \<Rightarrow> string \<Rightarrow> string" where
  "index_name chunkID splitID suffix = idToStr chunkID @ ''.'' @ idToStr splitID @ ''.idx.'' @ suffix"

definition getIndexPath :: "string \<Rightarrow> int \<Rightarrow> int \<Rightarrow> string \<Rightarrow> string" where
  "getIndexPath home chunkID splitID suffix = home @ ''/'' @ index_name chunkID splitID suffix"

definition getPath :: "string \<Rightarrow> int \<Rightarrow> int \<Rightarrow> bool \<Rightarrow> string" where
  "getPath home chunkID splitID merged = getIndexPath home chunkID splitID (if merged then ''m'' else ''s'')"

subsection \<open>Chunks\<close>

record hintSplit =
  sp_buf :: "HintBuffer option"
  sp_file :: "hintFileIndex option"

definition newhintSplit :: hintSplit where
  "newhintSplit = \<lparr>sp_buf = Some NewHintBuffer, sp_file = None\<rparr>"

definition needDump :: "hintSplit \<Rightarrow> bool option" where
  "needDump sp = (if sp_file sp \<noteq> None then Some False else map_option (\<lambda>b. hb_num b > 0) (sp_buf sp))"

record hintChunk =
  hc_id :: int
  hc_splits :: "hintSplit list"
  hc_lastTS :: int

definition hc_rotate :: "hintChunk \<Rightarrow> hintChunk" where
  "hc_rotate ck = ck\<lparr>hc_splits := hc_splits ck @ [newhintSplit]\<rparr>"

definition newHintChunk :: "int \<Rightarrow> hintChunk" where
  "newHintChunk i = hc_rotate \<lparr>hc_id = i, hc_splits = [], hc_lastTS = 0\<rparr>"

definition hc_setItem :: "HStoreConfig \<Rightarrow> HintItem \<Rightarrow> u32 \<Rightarrow> int \<Rightarrow> hintChunk \<Rightarrow> (bool \<times> hintChunk) option" where
  "hc_setItem c it recSize now ck =
     (if hc_splits ck = [] then None
      else do {
        let sp = last (hc_splits ck);
        buf \<leftarrow> sp_buf sp;
        (ok, buf1) \<leftarrow> hb_Set c it recSize buf;
        let splits = butlast (hc_splits ck) @ [sp\<lparr>sp_buf := Some buf1\<rparr>];
        if ok then Some (False, ck\<lparr>hc_splits := splits, hc_lastTS := now\<rparr>)
        else do {
          (_, buf2) \<leftarrow> hb_Set c it recSize NewHintBuffer;
          Some (True, ck\<lparr>hc_splits := splits @ [\<lparr>sp_buf = Some buf2, sp_file = None\<rparr>], hc_lastTS := now\<rparr>)
        }
      })"

text \<open>The loops over the splits run from the newest to the oldest; the arguments are the splits in that order.\<close>

fun mem_loop :: "u64 \<Rightarrow> bytes \<Rightarrow> hintSplit list \<Rightarrow> (HintItem option \<times> int) option" where
  "mem_loop keyhash key [] = Some (None, - 1)"
| "mem_loop keyhash key (split # older) =
     (case sp_buf split of
        None \<Rightarrow> Some (None, int (length older))
      | Some buf \<Rightarrow> do {
          (it, _) \<leftarrow> hb_Get keyhash key buf;
          case it of Some it' \<Rightarrow> Some (Some it', int (length older)) | None \<Rightarrow> mem_loop keyhash key older
        })"

definition hc_getMemOnly :: "u64 \<Rightarrow> bytes \<Rightarrow> hintChunk \<Rightarrow> (HintItem option \<times> int) option" where
  "hc_getMemOnly keyhash key ck = mem_loop keyhash key (rev (hc_splits ck))"

fun file_loop :: "u64 \<Rightarrow> bytes \<Rightarrow> hintSplit list \<Rightarrow> StoreErr + HintItem option" where
  "file_loop keyhash key [] = Inr None"
| "file_loop keyhash key (split # older) =
     (case sp_file split of
        None \<Rightarrow> file_loop keyhash key older
      | Some f \<Rightarrow>
          (case hint_get keyhash key f of
             Inl err \<Rightarrow> Inl err
           | Inr (Some it) \<Rightarrow> Inr (Some it)
           | Inr None \<Rightarrow> file_loop keyhash key older))"

definition hc_get :: "u64 \<Rightarrow> bytes \<Rightarrow> bool \<Rightarrow> hintChunk \<Rightarrow> (StoreErr + HintItem option) option" where
  "hc_get keyhash key memOnly ck = do {
     (it, split) \<leftarrow> hc_getMemOnly keyhash key ck;
     Some (if it \<noteq> None \<or> memOnly then Inr it
           else file_loop keyhash key (rev (take (nat (split + 1)) (hc_splits ck))))
   }"

definition SecsBeforeDump :: int where "SecsBeforeDump = 5"

definition silenceTime :: "int \<Rightarrow> hintChunk \<Rightarrow> int" where
  "silenceTime now ck = hc_lastTS ck + SecsBeforeDump - now"

text \<open>\<open>hintChunk.getItemCollision\<close>: the item, its chunk, collision and stop.\<close>

fun coll_loop :: "u64 \<Rightarrow> bytes \<Rightarrow> int \<Rightarrow> bool \<Rightarrow> hintSplit list \<Rightarrow> (HintItem option \<times> int \<times> bool \<times> bool) option" where
  "coll_loop keyhash key cid collision [] = Some (None, 0, collision, False)"
| "coll_loop keyhash key cid collision (split # older) =
     (case sp_buf split of
        None \<Rightarrow> Some (None, 0, collision, True)
      | Some buf \<Rightarrow> do {
          (it, coll) \<leftarrow> hb_Get keyhash key buf;
          case it of Some it' \<Rightarrow> Some (Some it', cid, coll, False) | None \<Rightarrow> coll_loop keyhash key cid coll older
        })"

definition hc_getItemCollision :: "u64 \<Rightarrow> bytes \<Rightarrow> hintChunk \<Rightarrow> (HintItem option \<times> int \<times> bool \<times> bool) option" where
  "hc_getItemCollision keyhash key ck = coll_loop keyhash key (hc_id ck) False (rev (hc_splits ck))"

subsection \<open>The manager\<close>

definition HintStateIdle :: u64 where "HintStateIdle = 0"
definition HintStateDump :: u64 where "HintStateDump = 1"
definition HintStateMerge :: u64 where "HintStateMerge = 2"
definition HintStateGC :: u64 where "HintStateGC = 4"

record hintMgr =
  hm_maxChunkID :: int
  hm_chunks :: "int \<Rightarrow> hintChunk"
  hm_maxDumpedHintID :: HintID
  hm_maxDumpableChunkID :: int
  hm_merged :: "hintFileIndex option"
  hm_state :: u64
  hm_collisions :: CollisionTable
  hm_files :: "(int \<times> int, bytes) mapping"

definition newHintMgr :: "(int \<times> int, bytes) mapping \<Rightarrow> hintMgr" where
  "newHintMgr files = \<lparr>hm_maxChunkID = 0, hm_chunks = newHintChunk, hm_maxDumpedHintID = \<lparr>hid_Chunk = 0, hid_Split = 0\<rparr>,
     hm_maxDumpableChunkID = MAX_NUM_CHUNK - 1, hm_merged = None, hm_state = 0, hm_collisions = newCollisionTable, hm_files = files\<rparr>"

definition hint_chunk_ok :: "int \<Rightarrow> bool" where
  "hint_chunk_ok i \<longleftrightarrow> 0 \<le> i \<and> i < MAX_NUM_CHUNK"

text \<open>\<open>dump\<close> of one split: the buffer becomes a file.\<close>

definition hm_dump :: "HStoreConfig \<Rightarrow> int \<Rightarrow> nat \<Rightarrow> hintMgr \<Rightarrow> hintMgr option" where
  "hm_dump c chunkID splitID h = do {
     let ck = hm_chunks h chunkID;
     sp \<leftarrow> nth_opt (hc_splits ck) splitID;
     buf \<leftarrow> sp_buf sp;
     idx \<leftarrow> hb_Dump c buf;
     f \<leftarrow> hi_file idx;
     let sp' = \<lparr>sp_buf = None, sp_file = Some idx\<rparr>;
     Some (h\<lparr>hm_chunks := (hm_chunks h)(chunkID := ck\<lparr>hc_splits := (hc_splits ck)[splitID := sp']\<rparr>),
       hm_maxDumpedHintID := snd (setIfLarger chunkID (int splitID) (hm_maxDumpedHintID h)),
       hm_files := Mapping.update (chunkID, int splitID) f (hm_files h)\<rparr>)
   }"

text \<open>The loop of \<open>trydump\<close> over the old splits.\<close>

fun dump_old :: "HStoreConfig \<Rightarrow> int \<Rightarrow> nat list \<Rightarrow> hintMgr \<Rightarrow> hintMgr option" where
  "dump_old c chunkID [] h = Some h"
| "dump_old c chunkID (j # js) h = do {
     sp \<leftarrow> nth_opt (hc_splits (hm_chunks h chunkID)) j;
     need \<leftarrow> needDump sp;
     h1 \<leftarrow> (if need then hm_dump c chunkID j h else Some h);
     dump_old c chunkID js h1
   }"

definition trydump :: "HStoreConfig \<Rightarrow> int \<Rightarrow> int \<Rightarrow> bool \<Rightarrow> hintMgr \<Rightarrow> (int \<times> hintMgr) option" where
  "trydump c now chunkID dumplast h =
     (if \<not> hint_chunk_ok chunkID then None
      else do {
        let l = length (hc_splits (hm_chunks h chunkID));
        h1 \<leftarrow> dump_old c chunkID [0..<l - 1] h;
        let ck = hm_chunks h1 chunkID;
        if \<not> dumplast \<and> chunkID = hm_maxChunkID h1 then Some (0, h1)
        else if hc_lastTS ck = 0 then Some (0, h1)
        else let s = silenceTime now ck in
          if dumplast \<or> s \<le> 0 then do {
            sp \<leftarrow> nth_opt (hc_splits ck) (l - 1);
            need \<leftarrow> needDump sp;
            if need then do {
              let ck1 = (hc_rotate ck)\<lparr>hc_lastTS := 0\<rparr>;
              h2 \<leftarrow> hm_dump c chunkID (l - 1) (h1\<lparr>hm_chunks := (hm_chunks h1)(chunkID := ck1)\<rparr>);
              Some (0, h2)
            }
            else Some (0, h1)
          }
          else Some (s, h1)
      })"

fun close_loop :: "HStoreConfig \<Rightarrow> int \<Rightarrow> nat \<Rightarrow> int \<Rightarrow> hintMgr \<Rightarrow> hintMgr option" where
  "close_loop c now 0 i h = Some h"
| "close_loop c now (Suc n) i h = do { (_, h1) \<leftarrow> trydump c now i True h; close_loop c now n (i + 1) h1 }"

definition hm_close :: "HStoreConfig \<Rightarrow> int \<Rightarrow> hintMgr \<Rightarrow> hintMgr option" where
  "hm_close c now h = close_loop c now (nat (hm_maxChunkID h + 1)) 0 h"

fun dump_loop :: "HStoreConfig \<Rightarrow> int \<Rightarrow> nat \<Rightarrow> int \<Rightarrow> int \<Rightarrow> hintMgr \<Rightarrow> (int \<times> hintMgr) option" where
  "dump_loop c now 0 i mx h = Some (mx, h)"
| "dump_loop c now (Suc n) i mx h = do {
     (s, h1) \<leftarrow> trydump c now i False h;
     dump_loop c now n (i + 1) (if s > mx then s else mx) h1
   }"

text \<open>\<open>dumpAndMerge\<close>: the longest silence, and whether the goroutine that merges is started.  The deferred
  function clears the dump bit and recovers a panic.\<close>

definition dumpAndMerge :: "HStoreConfig \<Rightarrow> int \<Rightarrow> bool \<Rightarrow> hintMgr \<Rightarrow> int \<times> bool \<times> hintMgr" where
  "dumpAndMerge c now forGC h =
     (let h0 = h\<lparr>hm_state := hm_state h OR HintStateDump\<rparr>;
          mx = (if forGC then MAX_NUM_CHUNK - 1 else hm_maxDumpableChunkID h0);
          clear = (\<lambda>h. h\<lparr>hm_state := hm_state h AND NOT HintStateDump\<rparr>)
      in case dump_loop c now (nat (mx + 1)) 0 0 h0 of
           None \<Rightarrow> (0, False, clear h0)
         | Some (maxSilence, h1) \<Rightarrow>
             if hm_state h1 AND HintStateDump \<noteq> 0 then (maxSilence, False, clear h1)
             else (maxSilence,
                   hm_state h1 AND HintStateMerge = 0 \<and> \<not> forGC \<and>
                     hm_maxChunkID h1 - hid_Chunk (ct_id (hm_collisions h1)) > MergeInterval c,
                   clear h1))"

definition RemoveMerged :: "hintMgr \<Rightarrow> hintMgr" where
  "RemoveMerged h = h\<lparr>hm_merged := None\<rparr>"

text \<open>\<open>setItem\<close>; \<open>mergeChan\<close> says whether the channel that wakes the dumper exists.\<close>

definition hm_setItem ::
    "HStoreConfig \<Rightarrow> int \<Rightarrow> bool \<Rightarrow> HintItem \<Rightarrow> int \<Rightarrow> u32 \<Rightarrow> hintMgr \<Rightarrow> (bool \<times> hintMgr) option" where
  "hm_setItem c now mergeChan it chunkID recSize h =
     (if \<not> hint_chunk_ok chunkID then None
      else do {
        (rotated, ck) \<leftarrow> hc_setItem c it recSize now (hm_chunks h chunkID);
        let h1 = h\<lparr>hm_chunks := (hm_chunks h)(chunkID := ck)\<rparr>;
        h2 \<leftarrow> (if rotated \<and> \<not> (mergeChan \<and> chunkID \<ge> hm_maxChunkID h1)
              then map_option snd (trydump c now chunkID False h1) else Some h1);
        Some (rotated, if chunkID > hm_maxChunkID h2 then h2\<lparr>hm_maxChunkID := chunkID\<rparr> else h2)
      })"

definition hm_set ::
    "HStoreConfig \<Rightarrow> int \<Rightarrow> bool \<Rightarrow> KeyInfo \<Rightarrow> Meta \<Rightarrow> Position \<Rightarrow> u32 \<Rightarrow> string \<Rightarrow> hintMgr \<Rightarrow> (bool \<times> hintMgr) option" where
  "hm_set c now mergeChan ki meta pos recSize reason h =
     (let it = newHintItem (KeyHash ki) (Ver meta) (ValueHash meta) \<lparr>ChunkID = 0, Offset = Offset pos\<rparr> (StringKey ki);
          ok = snd (ct_get (KeyHash ki) (StringKey ki) (hm_collisions h));
          it2 = it\<lparr>it_Pos := \<lparr>ChunkID = ChunkID pos, Offset = Offset pos\<rparr>\<rparr>;
          h1 = (if ok then h\<lparr>hm_collisions := compareAndSet it2 reason (hm_collisions h)\<rparr> else h)
      in hm_setItem c now mergeChan it (ChunkID pos) recSize h1)"

definition forceRotateSplit :: "hintMgr \<Rightarrow> hintMgr" where
  "forceRotateSplit h = h\<lparr>hm_chunks := (hm_chunks h)(hm_maxChunkID h := hc_rotate (hm_chunks h (hm_maxChunkID h)))\<rparr>"

text \<open>\<open>getItem\<close>: the loop from \<open>maxChunkID\<close> down, with the merged index for the chunks it covers.\<close>

definition use_merged :: "bool \<Rightarrow> hintMgr \<Rightarrow> int \<Rightarrow> hintFileIndex option" where
  "use_merged memOnly h i = (if \<not> memOnly \<and> i \<le> hid_Chunk (ct_id (hm_collisions h)) then hm_merged h else None)"

fun getItem_loop :: "u64 \<Rightarrow> bytes \<Rightarrow> bool \<Rightarrow> hintMgr \<Rightarrow> nat \<Rightarrow> (StoreErr + HintItem option \<times> int) option" where
  "getItem_loop keyhash key memOnly h 0 = Some (Inr (None, 0))"
| "getItem_loop keyhash key memOnly h (Suc i) =
     (case use_merged memOnly h (int i) of
        Some m \<Rightarrow>
          Some (case hint_get keyhash key m of
              Inl err \<Rightarrow> Inl err
            | Inr None \<Rightarrow> Inr (None, 0)
            | Inr (Some it) \<Rightarrow> Inr (Some (it\<lparr>it_Pos := (it_Pos it)\<lparr>ChunkID := 0\<rparr>\<rparr>), ChunkID (it_Pos it)))
      | None \<Rightarrow>
          (case hc_get keyhash key memOnly (hm_chunks h (int i)) of
             None \<Rightarrow> None
           | Some (Inl err) \<Rightarrow> Some (Inl err)
           | Some (Inr (Some it)) \<Rightarrow> Some (Inr (Some it, int i))
           | Some (Inr None) \<Rightarrow> getItem_loop keyhash key memOnly h i))"

definition hm_getItem :: "u64 \<Rightarrow> bytes \<Rightarrow> bool \<Rightarrow> hintMgr \<Rightarrow> (StoreErr + HintItem option \<times> int) option" where
  "hm_getItem keyhash key memOnly h = getItem_loop keyhash key memOnly h (nat (hm_maxChunkID h + 1))"

text \<open>\<open>get\<close>: version, value hash and position.\<close>

definition hm_get :: "u64 \<Rightarrow> bytes \<Rightarrow> hintMgr \<Rightarrow> (StoreErr + i32 \<times> u16 \<times> Position) option" where
  "hm_get keyhash key h = do {
     r \<leftarrow> hm_getItem keyhash key False h;
     Some (case r of
         Inl err \<Rightarrow> Inl err
       | Inr (None, _) \<Rightarrow> Inl NotFoundErr
       | Inr (Some it, cid) \<Rightarrow> Inr (it_Ver it, it_Vhash it, \<lparr>ChunkID = cid, Offset = Offset (it_Pos it)\<rparr>))
   }"

fun itemCollision_loop :: "u64 \<Rightarrow> bytes \<Rightarrow> hintMgr \<Rightarrow> HintItem option \<times> int \<times> bool \<Rightarrow> nat \<Rightarrow> (HintItem option \<times> int \<times> bool) option" where
  "itemCollision_loop keyhash key h r 0 = Some r"
| "itemCollision_loop keyhash key h r (Suc ck) = do {
     (it, cid, collision, stop) \<leftarrow> hc_getItemCollision keyhash key (hm_chunks h (int ck));
     if collision \<or> stop then Some (it, cid, collision)
     else itemCollision_loop keyhash key h (it, cid, collision) ck
   }"

definition hm_getItemCollision :: "u64 \<Rightarrow> bytes \<Rightarrow> hintMgr \<Rightarrow> (HintItem option \<times> int \<times> bool) option" where
  "hm_getItemCollision keyhash key h = itemCollision_loop keyhash key h (None, 0, False) (nat (hm_maxChunkID h + 1))"

text \<open>\<open>getCollisionGC\<close>: a hash in the table without this key is a nil item, whose position is read: a panic.\<close>

definition getCollisionGC :: "KeyInfo \<Rightarrow> hintMgr \<Rightarrow> (HintItem option \<times> int \<times> bool) option" where
  "getCollisionGC ki h =
     (case ct_get (KeyHash ki) (StringKey ki) (hm_collisions h) of
        (it, False) \<Rightarrow> hm_getItemCollision (KeyHash ki) (StringKey ki) h
      | (it, True) \<Rightarrow> do { i \<leftarrow> it; Some (Some i, ChunkID (it_Pos i), True) })"

definition RemoveHintfilesByChunk :: "int \<Rightarrow> hintMgr \<Rightarrow> hintMgr" where
  "RemoveHintfilesByChunk chunkID h = h\<lparr>hm_files := Mapping.filter (\<lambda>k _. fst k \<noteq> chunkID) (hm_files h)\<rparr>"

definition ClearChunk :: "int \<Rightarrow> hintMgr \<Rightarrow> hintMgr" where
  "ClearChunk chunkID h =
     RemoveHintfilesByChunk chunkID (h\<lparr>hm_chunks := (hm_chunks h)(chunkID := newHintChunk chunkID)\<rparr>)"

text \<open>\<open>findValidPaths\<close>: the files of a chunk in the order of their names, those whose split numbers count up
  from 0; the others are removed.\<close>

fun valid_paths :: "int \<Rightarrow> (int \<times> int) list \<Rightarrow> (int \<times> int) list" where
  "valid_paths n [] = []"
| "valid_paths n (p # ps) = (if snd p = n then p # valid_paths (n + 1) ps else valid_paths n ps)"

definition chunk_files :: "int \<Rightarrow> hintMgr \<Rightarrow> (int \<times> int) list" where
  "chunk_files chunkID h = filter (\<lambda>p. fst p = chunkID) (Mapping.ordered_keys (hm_files h))"

definition findValidPaths :: "int \<Rightarrow> hintMgr \<Rightarrow> (int \<times> int) list \<times> hintMgr" where
  "findValidPaths chunkID h =
     (let ps = chunk_files chunkID h; hints = valid_paths 0 ps
      in (hints, h\<lparr>hm_files := Mapping.filter (\<lambda>k _. k \<in> set hints \<or> k \<notin> set ps) (hm_files h)\<rparr>))"

text \<open>The loop of \<open>loadHintsByChunk\<close>: after a failure the remaining files are removed.\<close>

fun load_loop :: "(int \<times> int) list \<Rightarrow> bool \<Rightarrow> u32 \<Rightarrow> hintChunk \<Rightarrow> hintMgr \<Rightarrow> (u32 \<times> hintChunk \<times> hintMgr) option" where
  "load_loop [] failed datasize ck h = Some (datasize, ck, h)"
| "load_loop (p # ps) failed datasize ck h =
     (let h_rm = h\<lparr>hm_files := Mapping.delete p (hm_files h)\<rparr> in
      if failed then load_loop ps True datasize ck h_rm
      else case loadHintIndex (Mapping.lookup (hm_files h) p) of
        None \<Rightarrow> None
      | Some (Inl _) \<Rightarrow> load_loop ps True datasize ck h_rm
      | Some (Inr idx) \<Rightarrow>
          (if hc_splits ck = [] then None
           else let ds = hf_datasize (hi_meta idx);
                    splits = butlast (hc_splits ck) @ [\<lparr>sp_buf = None, sp_file = Some idx\<rparr>, last (hc_splits ck)]
                in load_loop ps False (if ds < datasize then datasize else ds) (ck\<lparr>hc_splits := splits\<rparr>) h))"

definition loadHintsByChunk :: "int \<Rightarrow> hintMgr \<Rightarrow> (u32 \<times> hintMgr) option" where
  "loadHintsByChunk chunkID h =
     (if \<not> hint_chunk_ok chunkID then None
      else let (paths0, h1) = findValidPaths chunkID h in
        if paths0 = [] then Some (0, h1)
        else do {
          (datasize, ck, h2) \<leftarrow> load_loop paths0 False 0 (hm_chunks h1 chunkID) h1;
          Some (if length (hc_splits ck) < 2 then 0 else datasize, h2\<lparr>hm_chunks := (hm_chunks h2)(chunkID := ck)\<rparr>)
        })"

section \<open>Names\<close>

lemma length_format_nat_3: "n < 1000 \<Longrightarrow> length (format_nat 10 n) \<le> 3"
proof -
  assume "n < 1000"
  then have "n div 10 div 10 < 10" by simp
  then show ?thesis
    by (subst format_nat.simps, simp, subst format_nat.simps, simp, subst format_nat.simps, simp)
qed

lemma FormatPad_3:
  assumes "0 \<le> i" "i < 1000"
  shows "length (FormatPad 10 3 i) = 3" "Atoi (FormatPad 10 3 i) = (i, None)"
proof -
  let ?s = "format_nat 10 (nat i)"
  have l: "length ?s \<le> 3" using assms by (intro length_format_nat_3) simp
  then show "length (FormatPad 10 3 i) = 3" using assms by (simp add: FormatPad_def pad_zero_def)
  have p: "FormatPad 10 3 i = replicate (3 - length ?s) (CHR ''0'') @ ?s" using assms by (simp add: FormatPad_def pad_zero_def)
  have h: "hd (FormatPad 10 3 i) \<noteq> CHR ''-''" "hd (FormatPad 10 3 i) \<noteq> CHR ''+''" "FormatPad 10 3 i \<noteq> []"
    using hd_format_nat [of 10 "nat i"] by (simp_all add: p hd_append)
  have "parse_digits 10 (2 ^ 64 - 1) 0 (FormatPad 10 3 i) = Inr (nat i)"
    using assms parse_format_nat [of 10 "nat i" "2 ^ 64 - 1"] by (simp add: p parse_digits_zeros)
  then have "ParseUint 10 64 (FormatPad 10 3 i) = Inr (nat i)" using h(3) by (simp add: ParseUint_def)
  then show "Atoi (FormatPad 10 3 i) = (i, None)" using h assms by (simp add: ParseInt_def Let_def)
qed

text \<open>The name of an index file determines its chunk and split: parsing the name that \<open>getIndexPath\<close> makes
  for valid numbers returns them.\<close>

theorem index_name_roundtrip:
  assumes "0 \<le> ck" and "ck < MAX_NUM_CHUNK" and "0 \<le> sp" and "sp < MAX_NUM_SPLIT"
  shows "parseIDFromName (index_name ck sp suffix) = Some (\<lparr>hid_Chunk = ck, hid_Split = sp\<rparr>, True)"
proof -
  have b: "ck < 1000" "sp < 1000" using assms by (simp_all add: MAX_NUM_CHUNK_def MAX_NUM_SPLIT_def)
  note A = FormatPad_3 [OF assms(1) b(1)] and B = FormatPad_3 [OF assms(3) b(2)]
  have n: "index_name ck sp suffix = FormatPad 10 3 ck @ ''.'' @ FormatPad 10 3 sp @ ''.idx.'' @ suffix"
    using assms by (simp add: index_name_def idToStr_def)
  have "take 3 (index_name ck sp suffix) = FormatPad 10 3 ck" using A(1) by (simp add: n)
  moreover have "slice 4 7 (index_name ck sp suffix) = FormatPad 10 3 sp"
    using A(1) B(1) slice_append_mid [of "FormatPad 10 3 ck @ ''.''" 4 "FormatPad 10 3 sp" 7 "''.idx.'' @ suffix"] by (simp add: n)
  ultimately show ?thesis using assms A(1) B(1) A(2) B(2)
    by (simp add: parseIDFromName_def parseChunkIDFromName_def parseSplitIDFromName_def n)
qed

section \<open>A chunk in memory is a map\<close>

definition split_has :: "HStoreConfig \<Rightarrow> hintSplit \<Rightarrow> HintItem list \<Rightarrow> bool" where
  "split_has c sp its \<longleftrightarrow> (\<exists>b. sp_buf sp = Some b \<and> hb_inv c b its)"

definition hc_rep :: "HStoreConfig \<Rightarrow> hintChunk \<Rightarrow> ((u64 \<times> bytes) \<rightharpoonup> HintItem) \<Rightarrow> bool" where
  "hc_rep c ck m \<longleftrightarrow> 0 < SplitCap c \<and> hc_splits ck \<noteq> [] \<and>
     (\<exists>itss. list_all2 (split_has c) (rev (hc_splits ck)) itss \<and> m = hint_find (concat itss))"

lemma hint_find_append: "hint_find (xs @ ys) k = (case hint_find xs k of Some x \<Rightarrow> Some x | None \<Rightarrow> hint_find ys k)"
  unfolding hint_find_def find_append by (rule refl)

lemma hint_find_Nil [simp]: "hint_find [] k = None"
  by (simp add: hint_find_def)

lemma mem_loop_find:
  "list_all2 (split_has c) sps itss \<Longrightarrow> \<exists>i. mem_loop kh key sps = Some (hint_find (concat itss) (kh, key), i)"
proof (induction rule: list_all2_induct)
  case Nil
  then show ?case by (simp add: hint_find_def)
next
  case (Cons sp sps its itss)
  then obtain b where b: "sp_buf sp = Some b" "hb_inv c b its" by (auto simp: split_has_def)
  obtain coll where "hb_Get kh key b = Some (hint_find its (kh, key), coll)" using hb_Get_inv [OF b(2)] by blast
  then show ?case using Cons.IH b(1) by (auto simp: hint_find_append split: option.splits)
qed

lemma hc_setItem_rep:
  assumes "hc_rep c ck m"
  shows "\<exists>rot ck'. hc_setItem c it recSize now ck = Some (rot, ck') \<and> hc_rep c ck' (m(hint_key it \<mapsto> it))"
proof -
  obtain itss where R: "0 < SplitCap c" "hc_splits ck \<noteq> []" "list_all2 (split_has c) (rev (hc_splits ck)) itss"
    "m = hint_find (concat itss)" using assms by (auto simp: hc_rep_def)
  have sp: "rev (hc_splits ck) = last (hc_splits ck) # rev (butlast (hc_splits ck))"
    using R(2) by (metis append_butlast_last_id rev_eq_Cons_iff rev_rev_ident)
  obtain its older where I: "itss = its # older" "split_has c (last (hc_splits ck)) its"
    "list_all2 (split_has c) (rev (butlast (hc_splits ck))) older"
    using R(3) [unfolded sp] by (auto simp: list_all2_Cons1)
  then obtain b where b: "sp_buf (last (hc_splits ck)) = Some b" "hb_inv c b its" by (auto simp: split_has_def)
  from hb_Set_inv [OF b(2), of it recSize] obtain ok b1 where s: "hb_Set c it recSize b = Some (ok, b1)"
    "if ok then \<exists>its'. hb_inv c b1 its' \<and> hint_find its' = (hint_find its)(hint_key it \<mapsto> it)
     else hb_inv c b1 its \<and> hint_find its (hint_key it) = None \<and> length its = nat (SplitCap c)" by blast
  show ?thesis
  proof (cases ok)
    case True
    then obtain its' where its': "hb_inv c b1 its'" "hint_find its' = (hint_find its)(hint_key it \<mapsto> it)" using s(2) by auto
    have "hint_find (concat (its' # older)) = m(hint_key it \<mapsto> it)"
      by (rule ext) (auto simp: R(4) I(1) hint_find_append its'(2))
    moreover have "list_all2 (split_has c) ((last (hc_splits ck))\<lparr>sp_buf := Some b1\<rparr> # rev (butlast (hc_splits ck))) (its' # older)"
      using I(3) its'(1) by (simp add: split_has_def)
    ultimately show ?thesis using True s(1) R(1,2) b(1)
      by (auto simp: hc_setItem_def hc_rep_def Let_def intro!: exI [of _ "its' # older"])
  next
    case False
    then have b1: "hb_inv c b1 its" using s(2) by auto
    have nb: "hb_inv c NewHintBuffer []" using R(1) by (intro hb_inv_new) simp
    from hb_Set_inv [OF nb, of it recSize] obtain ok2 b2 where s2: "hb_Set c it recSize NewHintBuffer = Some (ok2, b2)"
      "if ok2 then \<exists>its'. hb_inv c b2 its' \<and> hint_find its' = (hint_find [])(hint_key it \<mapsto> it)
       else hb_inv c b2 [] \<and> hint_find [] (hint_key it) = None \<and> length ([] :: HintItem list) = nat (SplitCap c)" by blast
    have "ok2" using s2(2) R(1) by (auto split: if_splits)
    then obtain its' where its': "hb_inv c b2 its'" "hint_find its' = (hint_find [])(hint_key it \<mapsto> it)" using s2(2) by auto
    have "hint_find (concat (its' # its # older)) = m(hint_key it \<mapsto> it)"
      by (rule ext) (auto simp: R(4) I(1) hint_find_append its'(2))
    moreover have "list_all2 (split_has c) (\<lparr>sp_buf = Some b2, sp_file = None\<rparr> # (last (hc_splits ck))\<lparr>sp_buf := Some b1\<rparr>
        # rev (butlast (hc_splits ck))) (its' # its # older)"
      using I(3) its'(1) b1 by (simp add: split_has_def)
    ultimately show ?thesis using False s(1) s2(1) R(1,2) b(1)
      by (auto simp: hc_setItem_def hc_rep_def Let_def intro!: exI [of _ "its' # its # older"])
  qed
qed

abbreviation chunk_put :: "HStoreConfig \<Rightarrow> HintItem \<times> u32 \<times> int \<Rightarrow> hintChunk \<Rightarrow> (bool \<times> hintChunk) option" where
  "chunk_put c \<equiv> \<lambda>(it, recSize, now) ck. map_option (\<lambda>(_, ck'). (True, ck')) (hc_setItem c it recSize now ck)"

interpretation hintchunk: kv_buffer "hc_rep c" "\<lambda>a. hint_key (fst a)" fst "chunk_put c"
  "\<lambda>(kh, key) ck. map_option fst (hc_getMemOnly kh key ck)" for c
proof unfold_locales
  fix s m and a :: "HintItem \<times> u32 \<times> int"
  assume R: "hc_rep c s m"
  obtain it recSize now where a: "a = (it, recSize, now)" by (cases a)
  from hc_setItem_rep [OF R, of it recSize now]
  show "\<exists>ok s'. chunk_put c a s = Some (ok, s') \<and>
      (if ok then hc_rep c s' (m(hint_key (fst a) \<mapsto> fst a)) else hc_rep c s' m \<and> m (hint_key (fst a)) = None)"
    by (auto simp: a intro!: exI [of _ True])
next
  fix s m and k :: "u64 \<times> bytes"
  assume "hc_rep c s m"
  then obtain itss where "list_all2 (split_has c) (rev (hc_splits s)) itss" "m = hint_find (concat itss)" by (auto simp: hc_rep_def)
  then show "(case k of (kh, key) \<Rightarrow> \<lambda>ck. map_option fst (hc_getMemOnly kh key ck)) s = Some (m k)"
    using mem_loop_find [of c "rev (hc_splits s)" itss "fst k" "snd k"] by (auto simp: hc_getMemOnly_def case_prod_beta)
qed

lemma chunk_puts_all: "run_puts (chunk_put c) sets ck = Some (taken, ck') \<Longrightarrow> taken = rev sets"
proof (induction sets arbitrary: ck taken)
  case (Cons a sets)
  then show ?case by (fastforce split: bind_splits prod.splits)
qed simp

text \<open>C17: a hint chunk whose splits are in memory returns the last item set: after any sequence of \<open>setItem\<close> calls, each of which may
  start a new split when the last one is full, \<open>getMemOnly\<close> returns for every key hash and key the item set last, and
  no call panics.\<close>

theorem hint_chunk_last_write:
  assumes "0 < SplitCap c"
  shows "\<exists>ck. run_puts (chunk_put c) sets (newHintChunk i) = Some (rev sets, ck) \<and>
    map_option fst (hc_getMemOnly kh key ck) = Some (map_option fst (find (\<lambda>a. hint_key (fst a) = (kh, key)) (rev sets)))"
proof -
  have "hc_rep c (newHintChunk i) Map.empty"
    using assms hb_inv_new [of c]
    by (auto simp: hc_rep_def newHintChunk_def hc_rotate_def newhintSplit_def split_has_def hint_find_def fun_eq_iff
        intro!: exI [of _ "[[]]"])
  from hintchunk.run_puts_get [OF this, of sets "(kh, key)"] chunk_puts_all show ?thesis by fastforce
qed

section \<open>The periodic dump never merges\<close>

lemma hm_dump_state: "hm_dump c ck j h = Some h' \<Longrightarrow> hm_state h' = hm_state h"
  by (auto simp: hm_dump_def Let_def split: bind_splits)

lemma dump_old_state: "dump_old c ck js h = Some h' \<Longrightarrow> hm_state h' = hm_state h"
  by (induction js arbitrary: h) (auto dest: hm_dump_state split: bind_splits if_splits)

lemma trydump_state: "trydump c now ck dl h = Some (s, h') \<Longrightarrow> hm_state h' = hm_state h"
  by (auto simp: trydump_def Let_def dest!: hm_dump_state dump_old_state split: bind_splits if_splits)

lemma dump_loop_state: "dump_loop c now n i mx h = Some (s, h') \<Longrightarrow> hm_state h' = hm_state h"
proof (induction n arbitrary: i mx h)
  case (Suc n)
  then show ?case by (fastforce dest!: trydump_state split: bind_splits)
qed simp

text \<open>\<open>dumpAndMerge\<close> never starts a merge: it sets the dump bit of the state first and, where it means to test for a running
  garbage collection, returns because that bit is set.\<close>

theorem dumpAndMerge_never_merges:
  "fst (snd (dumpAndMerge c now forGC h)) = False"
proof -
  let ?h0 = "h\<lparr>hm_state := hm_state h OR HintStateDump\<rparr>"
  let ?mx = "if forGC then MAX_NUM_CHUNK - 1 else hm_maxDumpableChunkID ?h0"
  have set: "(hm_state h OR HintStateDump) AND HintStateDump \<noteq> 0"
  proof -
    have b: "bit ((hm_state h OR HintStateDump) AND HintStateDump) 0" by (simp add: bit_simps HintStateDump_def)
    show ?thesis
    proof
      assume "(hm_state h OR HintStateDump) AND HintStateDump = 0"
      then show False using b by simp
    qed
  qed
  show ?thesis
  proof (cases "dump_loop c now (nat (?mx + 1)) 0 0 ?h0")
    case None
    then show ?thesis by (simp add: dumpAndMerge_def Let_def)
  next
    case (Some r)
    obtain s h1 where r: "r = (s, h1)" by (cases r)
    have "hm_state h1 = hm_state h OR HintStateDump" using dump_loop_state [of c now _ 0 0 ?h0 s h1] Some r by simp
    then show ?thesis using Some r set by (simp add: dumpAndMerge_def Let_def)
  qed
qed

section \<open>The collision lookup\<close>

lemma coll_loop_cid: "coll_loop kh key cid coll sps = Some (Some it, cid', coll', stop) \<Longrightarrow> cid' = cid \<and> \<not> stop"
  by (induction sps arbitrary: coll) (auto split: option.splits bind_splits)

text \<open>\<open>getItemCollision\<close> of the manager returns an item without a collision only from chunk 0: an item found in
  a later chunk is overwritten when the loop goes on to the chunk below, although its comment promises the item.\<close>

theorem collision_lookup_forgets:
  assumes "\<forall>i. hc_id (hm_chunks h i) = i" and "hm_getItemCollision kh key h = Some (Some it, cid, False)"
  shows "cid = 0"
proof -
  have "itemCollision_loop kh key h r n = Some (Some it, cid, False) \<Longrightarrow> n \<noteq> 0 \<Longrightarrow> cid = 0" for r n
  proof (induction n arbitrary: r)
    case (Suc n)
    then obtain a b c d where g: "hc_getItemCollision kh key (hm_chunks h (int n)) = Some (a, b, c, d)"
      by (cases "hc_getItemCollision kh key (hm_chunks h (int n))") auto
    show ?case
    proof (cases "c \<or> d")
      case True
      then have "a = Some it" "\<not> c" "b = cid" using Suc.prems(1) g by auto
      then show ?thesis using True g by (auto simp: hc_getItemCollision_def dest: coll_loop_cid)
    next
      case False
      then have l: "itemCollision_loop kh key h (a, b, c) n = Some (Some it, cid, False)" using Suc.prems(1) g by simp
      show ?thesis
      proof (cases "n = 0")
        case True
        then have "a = Some it" "b = cid" using l by auto
        then have "cid = hc_id (hm_chunks h 0)" using g True by (auto simp: hc_getItemCollision_def dest: coll_loop_cid)
        then show ?thesis using assms(1) by simp
      qed (rule Suc.IH [OF l])
    qed
  qed simp
  moreover have "nat (hm_maxChunkID h + 1) \<noteq> 0"
    using assms(2) by (cases "nat (hm_maxChunkID h + 1)") (auto simp: hm_getItemCollision_def)
  ultimately show ?thesis using assms(2) by (auto simp: hm_getItemCollision_def)
qed

section \<open>Concrete inputs\<close>

theorem index_name_roundtrip_witness:
  "parseIDFromName (index_name 7 42 ''s'') = Some (\<lparr>hid_Chunk = 7, hid_Split = 42\<rparr>, True)"
  by (rule index_name_roundtrip) (simp_all add: MAX_NUM_CHUNK_def MAX_NUM_SPLIT_def)

text \<open>With two slots per split, the third key starts a second split.\<close>

theorem hint_chunk_last_write_witness:
  "\<exists>ck. run_puts (chunk_put small_split) [(sample_item 1, 256, 9), (sample_item 2, 256, 9), (sample_item 3, 256, 9)]
      (newHintChunk 0) = Some ([(sample_item 3, 256, 9), (sample_item 2, 256, 9), (sample_item 1, 256, 9)], ck) \<and>
    map_option fst (hc_getMemOnly 2 [97] ck) = Some (Some (sample_item 2))"
proof -
  have "0 < SplitCap small_split" by (simp add: small_split_def)
  from hint_chunk_last_write [OF this, of "[(sample_item 1, 256, 9), (sample_item 2, 256, 9), (sample_item 3, 256, 9)]" 0 2 "[97]"]
  show ?thesis by (simp add: hint_key_def sample_item_def newHintItem_def)
qed

theorem collision_lookup_forgets_witness:
  "\<exists>h cid. hm_getItemCollision 5 [97] h = Some (Some (sample_item 5), cid, False) \<and> cid = 0"
proof -
  obtain ok b where b: "hb_Set small_split (sample_item 5) 256 NewHintBuffer = Some (ok, b)"
    "hb_Get 5 [97] b = Some (Some (sample_item 5), False)"
    by (simp add: hb_Set_def hb_find_def NewHintBuffer_def Mapping.is_empty_empty lookup_empty small_split_def Let_def
        sample_item_def newHintItem_def upd_opt_def hb_Get_def lookup_update hb_item_def)
  let ?ck = "\<lparr>hc_id = 0, hc_splits = [\<lparr>sp_buf = Some b, sp_file = None\<rparr>], hc_lastTS = 0\<rparr>"
  let ?h = "(newHintMgr Mapping.empty)\<lparr>hm_chunks := newHintChunk(0 := ?ck)\<rparr>"
  have i: "\<forall>i. hc_id (hm_chunks ?h i) = i" by (auto simp: newHintChunk_def hc_rotate_def)
  have g: "hm_getItemCollision 5 [97] ?h = Some (Some (sample_item 5), 0, False)"
    using b(2) by (simp add: hm_getItemCollision_def newHintMgr_def hc_getItemCollision_def)
  from collision_lookup_forgets [OF i g] g show ?thesis by blast
qed

end
