(* ===== verification/GoHeap.thy ===== *)
theory GoHeap
  imports Prelude "HOL-Library.Multiset"
begin

text \<open>
  The binary heap of Go's \<open>container/heap\<close>, which the hint merge uses: \<open>Init\<close>, \<open>Push\<close> and \<open>Pop\<close> on an array, with the
  routines \<open>up\<close> and \<open>down\<close>.  The order is a comparison of keys in a linear order.  The locale \<open>min_queue\<close> states what
  a client relies on, that \<open>Pop\<close> removes an element with the smallest key, and the heap is an instance.
\<close>

section \<open>Definitions\<close>

definition heap_swap :: "nat \<Rightarrow> nat \<Rightarrow> 'a list \<Rightarrow> 'a list" where
  "heap_swap i j xs = xs[i := xs ! j, j := xs ! i]"

text \<open>\<open>up\<close>: Go's \<open>(j-1)/2\<close> is 0 for \<open>j = 0\<close>, where the loop ends.\<close>

function heap_up :: "('a \<Rightarrow> 'k::linorder) \<Rightarrow> nat \<Rightarrow> 'a list \<Rightarrow> 'a list" where
  "heap_up k j xs =
     (let i = (j - 1) div 2 in
      if i = j \<or> \<not> k (xs ! j) < k (xs ! i) then xs else heap_up k i (heap_swap i j xs))"
  by pat_completeness auto
termination
  by (relation "measure (\<lambda>(k, j, xs). j)") auto

text \<open>The smaller child of \<open>i\<close>, the left one on a tie.\<close>

definition small_child :: "('a \<Rightarrow> 'k::linorder) \<Rightarrow> nat \<Rightarrow> nat \<Rightarrow> 'a list \<Rightarrow> nat" where
  "small_child k i n xs =
     (let j1 = 2 * i + 1 in if j1 + 1 < n \<and> k (xs ! (j1 + 1)) < k (xs ! j1) then j1 + 1 else j1)"

function heap_down :: "('a \<Rightarrow> 'k::linorder) \<Rightarrow> nat \<Rightarrow> nat \<Rightarrow> 'a list \<Rightarrow> 'a list" where
  "heap_down k i n xs =
     (if 2 * i + 1 \<ge> n then xs
      else let j = small_child k i n xs in
        if \<not> k (xs ! j) < k (xs ! i) then xs else heap_down k j n (heap_swap i j xs))"
  by pat_completeness auto
termination
  by (relation "measure (\<lambda>(k, i, n, xs). n - i)") (auto simp: small_child_def Let_def)

declare heap_up.simps [simp del] heap_down.simps [simp del]

fun init_loop :: "('a \<Rightarrow> 'k::linorder) \<Rightarrow> nat \<Rightarrow> 'a list \<Rightarrow> 'a list" where
  "init_loop k 0 xs = xs"
| "init_loop k (Suc i) xs = init_loop k i (heap_down k i (length xs) xs)"

definition heap_init :: "('a \<Rightarrow> 'k::linorder) \<Rightarrow> 'a list \<Rightarrow> 'a list" where
  "heap_init k xs = init_loop k (length xs div 2) xs"

definition heap_push :: "('a \<Rightarrow> 'k::linorder) \<Rightarrow> 'a \<Rightarrow> 'a list \<Rightarrow> 'a list" where
  "heap_push k x xs = heap_up k (length xs) (xs @ [x])"

text \<open>\<open>Pop\<close> of a heap that is not empty.\<close>

definition heap_pop :: "('a \<Rightarrow> 'k::linorder) \<Rightarrow> 'a list \<Rightarrow> 'a \<times> 'a list" where
  "heap_pop k xs = (let n = length xs - 1; ys = heap_down k 0 n (heap_swap 0 n xs) in (ys ! n, take n ys))"

text \<open>The heap property between position \<open>a\<close> and \<open>n\<close>, and the same with position \<open>i\<close> excepted from above or from below.\<close>

definition heap_from :: "('a \<Rightarrow> 'k::linorder) \<Rightarrow> nat \<Rightarrow> nat \<Rightarrow> 'a list \<Rightarrow> bool" where
  "heap_from k a n xs \<longleftrightarrow> (\<forall>j. 0 < j \<and> j < n \<and> a \<le> (j - 1) div 2 \<longrightarrow> k (xs ! ((j - 1) div 2)) \<le> k (xs ! j))"

abbreviation heap_ok :: "('a \<Rightarrow> 'k::linorder) \<Rightarrow> 'a list \<Rightarrow> bool" where
  "heap_ok k xs \<equiv> heap_from k 0 (length xs) xs"

definition heap_hole :: "('a \<Rightarrow> 'k::linorder) \<Rightarrow> nat \<Rightarrow> nat \<Rightarrow> nat \<Rightarrow> 'a list \<Rightarrow> bool" where
  "heap_hole k a i n xs \<longleftrightarrow>
     (\<forall>j. 0 < j \<and> j < n \<and> a \<le> (j - 1) div 2 \<and> (j - 1) div 2 \<noteq> i \<longrightarrow> k (xs ! ((j - 1) div 2)) \<le> k (xs ! j)) \<and>
     (\<forall>j. 0 < i \<and> a \<le> (i - 1) div 2 \<and> 0 < j \<and> j < n \<and> (j - 1) div 2 = i \<longrightarrow> k (xs ! ((i - 1) div 2)) \<le> k (xs ! j))"

definition heap_tip :: "('a \<Rightarrow> 'k::linorder) \<Rightarrow> nat \<Rightarrow> 'a list \<Rightarrow> bool" where
  "heap_tip k i xs \<longleftrightarrow>
     (\<forall>j. 0 < j \<and> j < length xs \<and> j \<noteq> i \<longrightarrow> k (xs ! ((j - 1) div 2)) \<le> k (xs ! j)) \<and>
     (\<forall>j. 0 < i \<and> 0 < j \<and> j < length xs \<and> (j - 1) div 2 = i \<longrightarrow> k (xs ! ((i - 1) div 2)) \<le> k (xs ! j))"

section \<open>The contract of a priority queue\<close>

locale min_queue =
  fixes key :: "'a \<Rightarrow> 'k::linorder"
    and ok :: "'q \<Rightarrow> bool"
    and elems :: "'q \<Rightarrow> 'a multiset"
    and push :: "'a \<Rightarrow> 'q \<Rightarrow> 'q"
    and pop :: "'q \<Rightarrow> 'a \<times> 'q"
  assumes push_ok: "ok q \<Longrightarrow> ok (push x q) \<and> elems (push x q) = add_mset x (elems q)"
    and pop_ok: "ok q \<Longrightarrow> elems q \<noteq> {#} \<Longrightarrow> pop q = (x, q') \<Longrightarrow>
      ok q' \<and> elems q = add_mset x (elems q') \<and> (\<forall>y \<in># elems q. key x \<le> key y)"

section \<open>Swapping keeps the elements\<close>

lemma length_heap_swap [simp]: "length (heap_swap i j xs) = length xs"
  by (simp add: heap_swap_def)

lemma mset_heap_swap: "i < length xs \<Longrightarrow> j < length xs \<Longrightarrow> mset (heap_swap i j xs) = mset xs"
  by (simp add: heap_swap_def mset_swap)

lemma nth_heap_swap:
  "i < length xs \<Longrightarrow> j < length xs \<Longrightarrow> l < length xs \<Longrightarrow>
   heap_swap i j xs ! l = (if l = j then xs ! i else if l = i then xs ! j else xs ! l)"
  by (auto simp: heap_swap_def nth_list_update)

lemma heap_up_mset: "j < length xs \<Longrightarrow> mset (heap_up k j xs) = mset xs \<and> length (heap_up k j xs) = length xs"
proof (induction k j xs rule: heap_up.induct)
  case (1 k j xs)
  then show ?case by (subst (1 2) heap_up.simps) (auto simp: Let_def mset_heap_swap)
qed

lemma small_child:
  assumes "2 * i + 1 < n"
  shows "small_child k i n xs = 2 * i + 1 \<or> small_child k i n xs = 2 * i + 2" "small_child k i n xs < n" "i < small_child k i n xs"
    "(small_child k i n xs - 1) div 2 = i"
    "\<And>j. 0 < j \<Longrightarrow> j < n \<Longrightarrow> (j - 1) div 2 = i \<Longrightarrow> k (xs ! small_child k i n xs) \<le> k (xs ! j)"
proof -
  show "small_child k i n xs = 2 * i + 1 \<or> small_child k i n xs = 2 * i + 2" "small_child k i n xs < n" "i < small_child k i n xs"
    "(small_child k i n xs - 1) div 2 = i"
    using assms by (auto simp: small_child_def Let_def)
  show "k (xs ! small_child k i n xs) \<le> k (xs ! j)" if "0 < j" "j < n" "(j - 1) div 2 = i" for j
  proof -
    have "j = 2 * i + 1 \<or> j = 2 * i + 2" using that by linarith
    then show ?thesis using that by (auto simp: small_child_def Let_def not_less)
  qed
qed

lemma heap_down_step:
  "2 * i + 1 \<ge> n \<or> \<not> k (xs ! small_child k i n xs) < k (xs ! i) \<Longrightarrow> heap_down k i n xs = xs"
  "2 * i + 1 < n \<Longrightarrow> k (xs ! small_child k i n xs) < k (xs ! i) \<Longrightarrow>
     heap_down k i n xs = heap_down k (small_child k i n xs) n (heap_swap i (small_child k i n xs) xs)"
  by (subst heap_down.simps, auto simp: Let_def)+

lemma heap_down_induct [consumes 1, case_names stop swap]:
  assumes "n \<le> length xs"
    and "\<And>i xs. n \<le> length xs \<Longrightarrow> 2 * i + 1 \<ge> n \<or> \<not> k (xs ! small_child k i n xs) < k (xs ! i) \<Longrightarrow> P i xs"
    and "\<And>i xs. n \<le> length xs \<Longrightarrow> 2 * i + 1 < n \<Longrightarrow> k (xs ! small_child k i n xs) < k (xs ! i) \<Longrightarrow>
      P (small_child k i n xs) (heap_swap i (small_child k i n xs) xs) \<Longrightarrow> P i xs"
  shows "P i xs"
  using assms(1)
proof (induction "n - i" arbitrary: i xs rule: less_induct)
  case less
  show ?case
  proof (cases "2 * i + 1 < n \<and> k (xs ! small_child k i n xs) < k (xs ! i)")
    case True
    then have lt: "i < small_child k i n xs" "small_child k i n xs < n" using small_child(2,3) by blast+
    have "P (small_child k i n xs) (heap_swap i (small_child k i n xs) xs)"
      by (rule less.hyps) (use lt less.prems in auto)
    then show ?thesis using assms(3) [OF less.prems] True by blast
  next
    case False
    then show ?thesis using assms(2) [OF less.prems, of i] by linarith
  qed
qed

lemma heap_down_mset:
  assumes "n \<le> length xs"
  shows "mset (heap_down k i n xs) = mset xs \<and> length (heap_down k i n xs) = length xs"
  using assms
proof (induction i xs rule: heap_down_induct [where k = k and n = n])
  case (stop i xs)
  then show ?case by (simp add: heap_down_step(1))
next
  case (swap i xs)
  then show ?case using small_child(2,3) [OF swap.hyps(2), where k = k and xs = xs] mset_heap_swap [of i xs "small_child k i n xs"]
    by (simp add: heap_down_step(2))
qed

lemma heap_down_above:
  assumes "n \<le> length xs" "n \<le> l" "l < length xs"
  shows "heap_down k i n xs ! l = xs ! l"
  using assms
proof (induction i xs rule: heap_down_induct [where k = k and n = n])
  case (stop i xs)
  then show ?case by (simp add: heap_down_step(1))
next
  case (swap i xs)
  then show ?case using small_child(2,3) [OF swap.hyps(2), where k = k and xs = xs]
    by (simp add: heap_down_step(2) nth_heap_swap)
qed

section \<open>Down restores the heap below a hole\<close>

lemma heap_down_hole:
  assumes "n \<le> length xs" "heap_hole k a i n xs" "a \<le> i"
  shows "heap_from k a n (heap_down k i n xs)"
  using assms
proof (induction i xs rule: heap_down_induct [where k = k and n = n])
  case (stop i xs)
  then have e: "heap_down k i n xs = xs" by (simp add: heap_down_step(1))
  have "k (xs ! i) \<le> k (xs ! j)" if "0 < j" "j < n" "(j - 1) div 2 = i" for j
  proof -
    have "2 * i + 1 < n" using that by linarith
    then have "\<not> k (xs ! small_child k i n xs) < k (xs ! i)" using stop.hyps(2) by simp
    then show ?thesis using small_child(5) [OF \<open>2 * i + 1 < n\<close> that, where k = k and xs = xs] by simp
  qed
  then show ?case using stop.prems(1) unfolding e heap_from_def heap_hole_def by metis
next
  case (swap i xs)
  let ?c = "small_child k i n xs" and ?ys = "heap_swap i (small_child k i n xs) xs"
  note C = small_child [OF swap.hyps(2), where k = k and xs = xs]
  have len: "i < length xs" "?c < length xs" using C(2,3) swap.hyps(1) by simp_all
  have nth: "l < n \<Longrightarrow> ?ys ! l = (if l = ?c then xs ! i else if l = i then xs ! ?c else xs ! l)" for l
    using nth_heap_swap [OF len, of l] swap.hyps(1) by simp
  have par: "(j - 1) div 2 < n" if "j < n" for j using that by linarith
  have "heap_hole k a ?c n ?ys"
    unfolding heap_hole_def
  proof (intro conjI allI impI)
    fix j assume j: "0 < j \<and> j < n \<and> a \<le> (j - 1) div 2 \<and> (j - 1) div 2 \<noteq> ?c"
    let ?p = "(j - 1) div 2"
    show "k (?ys ! ?p) \<le> k (?ys ! j)"
    proof (cases "?p = i")
      case True
      then have "j \<noteq> i" using j by linarith
      then show ?thesis using True nth [of i] nth [of j] j C(2,3,5) swap.hyps(3) by (auto simp: par)
    next
      case False
      have o: "k (xs ! ?p) \<le> k (xs ! j)" using swap.prems(1) j False unfolding heap_hole_def by blast
      show ?thesis
      proof (cases "j = i")
        case True
        then have "0 < i" "a \<le> (i - 1) div 2" using j by auto
        then have "k (xs ! ((i - 1) div 2)) \<le> k (xs ! ?c)"
          using swap.prems(1) C(2,3,4) unfolding heap_hole_def by auto
        moreover have "?p \<noteq> i" "?p \<noteq> ?c" using False j by auto
        ultimately show ?thesis using True nth [of ?p] nth [of i] C(2,3) j par [of j] by auto
      next
        case ji: False
        have "j \<noteq> ?c" using False C(4) by auto
        then show ?thesis using o False ji nth [of ?p] nth [of j] j par [of j] by auto
      qed
    qed
  next
    fix j assume j: "0 < ?c \<and> a \<le> (?c - 1) div 2 \<and> 0 < j \<and> j < n \<and> (j - 1) div 2 = ?c"
    have "j \<noteq> i" "j \<noteq> ?c" using j C(3) by linarith+
    moreover have "k (xs ! ?c) \<le> k (xs ! j)"
    proof -
      have "a \<le> ?c" using swap.prems(2) C(3) by simp
      then show ?thesis using swap.prems(1) j C(3) unfolding heap_hole_def by auto
    qed
    ultimately show "k (?ys ! ((?c - 1) div 2)) \<le> k (?ys ! j)" using C(2,3,4) nth [of i] nth [of j] j by auto
  qed
  moreover have "a \<le> ?c" using swap.prems(2) C(3) by simp
  ultimately show ?case using swap.IH by (simp add: heap_down_step(2) [OF swap.hyps(2,3)])
qed

lemma init_loop_heap:
  assumes "heap_from k i (length xs) xs"
  shows "heap_ok k (init_loop k i xs) \<and> mset (init_loop k i xs) = mset xs"
  using assms
proof (induction i arbitrary: xs)
  case (Suc i)
  let ?ys = "heap_down k i (length xs) xs"
  have "heap_hole k i i (length xs) xs"
    using Suc.prems by (auto simp: heap_hole_def heap_from_def Suc_le_eq)
  then have "heap_from k i (length xs) ?ys" by (intro heap_down_hole) simp_all
  moreover have "mset ?ys = mset xs" "length ?ys = length xs" using heap_down_mset [of "length xs" xs k i] by simp_all
  ultimately show ?case using Suc.IH [of ?ys] by simp
qed simp

lemma heap_init_ok: "heap_ok k (heap_init k xs)" "mset (heap_init k xs) = mset xs"
proof -
  have "heap_from k (length xs div 2) (length xs) xs" by (auto simp: heap_from_def)
  then show "heap_ok k (heap_init k xs)" "mset (heap_init k xs) = mset xs"
    using init_loop_heap [of k "length xs div 2" xs] by (simp_all add: heap_init_def)
qed

lemma heap_root_min: "heap_ok k xs \<Longrightarrow> j < length xs \<Longrightarrow> k (xs ! 0) \<le> k (xs ! j)"
proof (induction j rule: less_induct)
  case (less j)
  show ?case
  proof (cases "j = 0")
    case False
    then have p: "(j - 1) div 2 < j" by linarith
    then have "k (xs ! 0) \<le> k (xs ! ((j - 1) div 2))" using less.prems by (intro less.IH) simp_all
    also have "\<dots> \<le> k (xs ! j)" using less.prems False by (simp add: heap_from_def)
    finally show ?thesis .
  qed simp
qed

lemma heap_pop_ok:
  assumes "heap_ok k xs" "xs \<noteq> []" "heap_pop k xs = (x, ys)"
  shows "heap_ok k ys" "mset xs = add_mset x (mset ys)" "\<forall>y \<in> set xs. k x \<le> k y"
proof -
  let ?n = "length xs - 1" and ?sw = "heap_swap 0 (length xs - 1) xs"
  define zs where "zs = heap_down k 0 ?n ?sw"
  have n: "?n < length xs" "0 < length xs" using assms(2) by simp_all
  have nth: "l < length xs \<Longrightarrow> ?sw ! l = (if l = ?n then xs ! 0 else if l = 0 then xs ! ?n else xs ! l)" for l
    using nth_heap_swap [OF n(2,1), of l] by simp
  have "heap_hole k 0 0 ?n ?sw"
    unfolding heap_hole_def
  proof (intro conjI allI impI)
    fix j assume j: "0 < j \<and> j < ?n \<and> 0 \<le> (j - 1) div 2 \<and> (j - 1) div 2 \<noteq> 0"
    have p: "(j - 1) div 2 < ?n" using j by linarith
    have jl: "j < length xs" "(j - 1) div 2 < length xs" using j by linarith+
    then have "k (xs ! ((j - 1) div 2)) \<le> k (xs ! j)" using j assms(1) unfolding heap_from_def by blast
    then show "k (?sw ! ((j - 1) div 2)) \<le> k (?sw ! j)"
      using j p nth [OF jl(1)] nth [OF jl(2)] by simp
  qed simp
  then have h: "heap_from k 0 ?n zs" unfolding zs_def by (intro heap_down_hole) simp_all
  have z: "mset zs = mset xs" "length zs = length xs"
    using heap_down_mset [of ?n ?sw k 0] mset_heap_swap [OF n(2,1)] by (simp_all add: zs_def)
  have xy: "x = zs ! ?n" "ys = take ?n zs" using assms(3) by (simp_all add: heap_pop_def Let_def zs_def)
  have "x = ?sw ! ?n" unfolding xy(1) zs_def by (rule heap_down_above) (use n in simp_all)
  then have x0: "x = xs ! 0" using nth [of ?n] n by simp
  have "heap_from k 0 ?n ys"
    unfolding heap_from_def
  proof (intro allI impI)
    fix j assume j: "0 < j \<and> j < ?n \<and> 0 \<le> (j - 1) div 2"
    have "(j - 1) div 2 < ?n" using j by linarith
    then show "k (ys ! ((j - 1) div 2)) \<le> k (ys ! j)" using h j by (simp add: xy(2) heap_from_def)
  qed
  then show "heap_ok k ys" using z(2) xy(2) by simp
  have "zs = ys @ [x]" using take_Suc_conv_app_nth [of ?n zs] n z(2) xy by simp
  then show "mset xs = add_mset x (mset ys)" using z(1) by (metis mset.simps(2) mset_append add_mset_add_single mset.simps(1))
  show "\<forall>y \<in> set xs. k x \<le> k y" using heap_root_min [OF assms(1)] x0 by (auto simp: in_set_conv_nth)
qed

lemma heap_up_tip:
  "j < length xs \<Longrightarrow> heap_tip k j xs \<Longrightarrow> heap_ok k (heap_up k j xs)"
proof (induction k j xs rule: heap_up.induct)
  case (1 k j xs)
  let ?i = "(j - 1) div 2"
  show ?case
  proof (cases "?i = j \<or> \<not> k (xs ! j) < k (xs ! ?i)")
    case True
    then have "heap_ok k xs" using 1(3) by (auto simp: heap_from_def heap_tip_def)
    moreover have "heap_up k j xs = xs" using True by (subst heap_up.simps) (simp add: Let_def)
    ultimately show ?thesis by simp
  next
    case False
    then have ij: "?i < j" by linarith
    let ?ys = "heap_swap ?i j xs"
    have nth: "l < length xs \<Longrightarrow> ?ys ! l = (if l = j then xs ! ?i else if l = ?i then xs ! j else xs ! l)" for l
      using nth_heap_swap [of ?i xs j l] ij 1(2) by simp
    have tip: "heap_tip k ?i ?ys"
      unfolding heap_tip_def
    proof (intro conjI allI impI)
      fix l assume l: "0 < l \<and> l < length ?ys \<and> l \<noteq> ?i"
      let ?p = "(l - 1) div 2"
      have p: "?p < l" using l by linarith
      show "k (?ys ! ?p) \<le> k (?ys ! l)"
      proof (cases "l = j")
        case True
        then show ?thesis using nth [of j] nth [of ?i] 1(2) ij False by auto
      next
        case lj: False
        have o: "k (xs ! ?p) \<le> k (xs ! l)" using 1(3) l lj by (simp add: heap_tip_def)
        consider "?p = j" | "?p = ?i" "?p \<noteq> j" | "?p \<noteq> j" "?p \<noteq> ?i" by blast
        then show ?thesis
        proof cases
          case 1
          then have "k (xs ! ?i) \<le> k (xs ! l)" using \<open>heap_tip k j xs\<close> l ij by (auto simp: heap_tip_def)
          then show ?thesis using 1 nth [of ?p] nth [of l] l lj p by auto
        next
          case 2
          then have "k (xs ! j) \<le> k (xs ! l)" using o False by (metis less_le_trans order_less_imp_le)
          then show ?thesis using 2 nth [of ?p] nth [of l] l lj p by auto
        next
          case 3
          then show ?thesis using o nth [of ?p] nth [of l] l lj p by auto
        qed
      qed
    next
      fix l assume l: "0 < ?i \<and> 0 < l \<and> l < length ?ys \<and> (l - 1) div 2 = ?i"
      let ?g = "(?i - 1) div 2"
      have g: "?g < ?i" using l by linarith
      have gi: "k (xs ! ?g) \<le> k (xs ! ?i)" using 1(3) l ij 1(2) by (simp add: heap_tip_def)
      have "k (xs ! ?g) \<le> k (?ys ! l)"
      proof (cases "l = j")
        case True
        then show ?thesis using gi nth [of j] 1(2) by simp
      next
        case lj: False
        then have "k (xs ! ?i) \<le> k (xs ! l)" using 1(3) l by (auto simp: heap_tip_def)
        moreover have "l \<noteq> ?i" using l by linarith
        ultimately show ?thesis using gi nth [of l] l lj by auto
      qed
      then show "k (?ys ! ?g) \<le> k (?ys ! l)" using nth [of ?g] g ij 1(2) by auto
    qed
    have "heap_up k j xs = heap_up k ?i ?ys" using False by (subst heap_up.simps) (simp add: Let_def)
    moreover have "heap_ok k (heap_up k ?i ?ys)" using 1(1) [OF refl False _ tip] 1(2) ij by simp
    ultimately show ?thesis by simp
  qed
qed

lemma heap_push_ok:
  assumes "heap_ok k xs"
  shows "heap_ok k (heap_push k x xs)" "mset (heap_push k x xs) = add_mset x (mset xs)"
proof -
  have "heap_tip k (length xs) (xs @ [x])"
    unfolding heap_tip_def
  proof (intro conjI allI impI)
    fix j assume j: "0 < j \<and> j < length (xs @ [x]) \<and> j \<noteq> length xs"
    then have "(j - 1) div 2 < length xs" by simp linarith
    then show "k ((xs @ [x]) ! ((j - 1) div 2)) \<le> k ((xs @ [x]) ! j)"
      using assms j by (auto simp: nth_append heap_from_def)
  next
    fix j assume "0 < length xs \<and> 0 < j \<and> j < length (xs @ [x]) \<and> (j - 1) div 2 = length xs"
    then show "k ((xs @ [x]) ! ((length xs - 1) div 2)) \<le> k ((xs @ [x]) ! j)" by simp linarith
  qed
  then show "heap_ok k (heap_push k x xs)" unfolding heap_push_def by (intro heap_up_tip) simp_all
  show "mset (heap_push k x xs) = add_mset x (mset xs)"
    using heap_up_mset [of "length xs" "xs @ [x]" k] by (simp add: heap_push_def)
qed

interpretation go_heap: min_queue k "heap_ok k" mset "heap_push k" "heap_pop k" for k
proof unfold_locales
  show "heap_ok k (heap_push k x q) \<and> mset (heap_push k x q) = add_mset x (mset q)" if "heap_ok k q" for q and x :: 'a
    using heap_push_ok [OF that] by simp
  show "heap_ok k q' \<and> mset q = add_mset x (mset q') \<and> (\<forall>y \<in># mset q. k x \<le> k y)"
    if "heap_ok k q" "mset q \<noteq> {#}" "heap_pop k q = (x, q')" for q q' and x :: 'a
  proof (intro conjI)
    have q: "q \<noteq> []" using that(2) by auto
    show "heap_ok k q'" "mset q = add_mset x (mset q')" by (rule heap_pop_ok [OF that(1) q that(3)])+
    show "\<forall>y \<in># mset q. k x \<le> k y" using heap_pop_ok(3) [OF that(1) q that(3)] by auto
  qed
qed

end
