(* ===== verification/HintMerge.thy ===== *)
theory HintMerge
  imports HintMgr GoHeap "HOL-Library.AList_Mapping"
begin

text \<open>
  Merging hint files (\<open>store/hintmerge.go\<close> and \<open>hintMgr.Merge\<close>): a heap of readers ordered by the item each is at, and a writer
  that keeps the newest item of a key, writes the rest and enters keys that share a hash in the collision table.
  The states read from the shared hint state are an argument, one for each turn of the loop, since a garbage
  collection may set its bit meanwhile; whether the output file can be created is an argument too.  A panic leaves the updates
  of the collision table made so far, so it is an outcome beside the table.  The lemmas show that a merge that is not interrupted
  writes exactly the newest item of every key of its sources, in order, so that a lookup in the merged index finds it,
  and that every key that shares its hash with another is in the collision table.
\<close>

unbundle bit_operations_syntax

section \<open>Definitions\<close>

record mergeReader =
  mr_r :: hintFileReader
  mr_curr :: HintItem

record mergeWriter =
  mw_w :: "hintFileWriter option"
  mw_buf :: "HintItem list"
  mw_ct :: CollisionTable

text \<open>The used part of \<open>buf\<close> is a list, so \<open>num\<close> is its length and growing the array is not seen.\<close>

definition newMergeWriter :: "hintFileWriter option \<Rightarrow> CollisionTable \<Rightarrow> mergeWriter" where
  "newMergeWriter w ct = \<lparr>mw_w = w, mw_buf = [], mw_ct = ct\<rparr>"

text \<open>\<open>flush\<close> writes the buffer and leaves it; the flag is false when a write panicked.\<close>

definition mw_flush :: "HStoreConfig \<Rightarrow> mergeWriter \<Rightarrow> bool \<times> mergeWriter" where
  "mw_flush c mw =
     (let mw1 = (if length (mw_buf mw) > 1
                 then mw\<lparr>mw_ct := fold (\<lambda>it. compareAndSet it ''merge'') (mw_buf mw) (mw_ct mw)\<rparr> else mw)
      in case mw_w mw of
           None \<Rightarrow> (True, mw1)
         | Some w \<Rightarrow> (case write_items c (mw_buf mw) w of
             None \<Rightarrow> (False, mw1)
           | Some w' \<Rightarrow> (True, mw1\<lparr>mw_w := Some w'\<rparr>)))"

definition mw_write :: "HStoreConfig \<Rightarrow> HintItem \<Rightarrow> mergeWriter \<Rightarrow> bool \<times> mergeWriter" where
  "mw_write c it mw =
     (if mw_buf mw = [] then (True, mw\<lparr>mw_buf := [it]\<rparr>)
      else let lst = last (mw_buf mw) in
        if it_Keyhash lst \<noteq> it_Keyhash it then
          (case mw_flush c mw of (ok, mw1) \<Rightarrow> if ok then (True, mw1\<lparr>mw_buf := [it]\<rparr>) else (False, mw1))
        else if it_Key lst \<noteq> it_Key it then (True, mw\<lparr>mw_buf := mw_buf mw @ [it]\<rparr>)
        else (True, mw\<lparr>mw_buf := butlast (mw_buf mw) @ [it]\<rparr>))"

text \<open>\<open>Less\<close> of the heap compares these keys.\<close>

definition merge_key :: "mergeReader \<Rightarrow> (u64 \<times> bytes) \<times> int" where
  "merge_key mr = (hint_key (mr_curr mr), CmpKey (it_Pos (mr_curr mr)))"

definition set_chunk :: "int \<Rightarrow> HintItem \<Rightarrow> HintItem" where
  "set_chunk ck it = it\<lparr>it_Pos := (it_Pos it)\<lparr>ChunkID := ck\<rparr>\<rparr>"

text \<open>The outcome of a merge.\<close>

datatype merge_outcome = MergePanic | MergeErr StoreErr | MergeOk "hintFileIndex option"

text \<open>The loop that opens the sources.  The first item is used without a test, so that a file without items is a nil
  pointer; after an error it is an empty item.\<close>

fun merge_open :: "(bytes option \<times> int) list \<Rightarrow> u32 \<Rightarrow> mergeReader list \<Rightarrow> merge_outcome + mergeReader list \<times> u32" where
  "merge_open [] datasize hp = Inr (hp, datasize)"
| "merge_open ((f, ck) # src) datasize hp =
     (case hint_open f ck of
        Inl err \<Rightarrow> Inl (MergeErr err)
      | Inr r \<Rightarrow>
          (case hint_next r of
             (Inr (Some it), r') \<Rightarrow>
               merge_open src (if hf_datasize (r_meta r) > datasize then hf_datasize (r_meta r) else datasize)
                 (hp @ [\<lparr>mr_r = r', mr_curr = set_chunk ck it\<rparr>])
           | (Inl err, _) \<Rightarrow> Inl (MergeErr err)
           | (Inr None, _) \<Rightarrow> Inl MergePanic))"

text \<open>What remains in a heap of readers, which every turn of the loop makes smaller.\<close>

definition merge_left :: "mergeReader list \<Rightarrow> nat" where
  "merge_left h = (\<Sum>mr \<in># mset h. 1 + (length (r_file (mr_r mr)) - r_pos (mr_r mr)))"

lemma heap_pop_mset:
  assumes "xs \<noteq> []" "heap_pop k xs = (x, ys)"
  shows "mset xs = add_mset x (mset ys)"
proof -
  let ?n = "length xs - 1"
  define zs where "zs = heap_down k 0 ?n (heap_swap 0 ?n xs)"
  have n: "?n < length xs" "0 < length xs" using assms(1) by simp_all
  have z: "mset zs = mset xs" "length zs = length xs"
    using heap_down_mset [of ?n "heap_swap 0 ?n xs" k 0] mset_heap_swap [OF n(2,1)] by (simp_all add: zs_def)
  have "x = zs ! ?n" "ys = take ?n zs" using assms(2) by (simp_all add: heap_pop_def Let_def zs_def)
  then have "zs = ys @ [x]" using take_Suc_conv_app_nth [of ?n zs] n z(2) by simp
  then have "mset zs = add_mset x (mset ys)" by simp
  then show ?thesis using z(1) by simp
qed

lemma heap_push_mset: "mset (heap_push k x xs) = add_mset x (mset xs)"
  using heap_up_mset [of "length xs" "xs @ [x]" k] by (simp add: heap_push_def)

lemma merge_left_push:
  assumes "h \<noteq> []" "heap_pop k h = (mr, h')" "hint_next (mr_r mr) = (Inr (Some it), r')"
  shows "merge_left (heap_push k \<lparr>mr_r = r', mr_curr = it'\<rparr> h') < merge_left h"
  using hint_next_advances [OF assms(3)]
  by (auto simp: merge_left_def heap_pop_mset [OF assms(1,2)] heap_push_mset intro: diff_less_mono2)

lemma merge_left_pop: "h \<noteq> [] \<Longrightarrow> heap_pop k h = (mr, h') \<Longrightarrow> merge_left h' < merge_left h"
  by (simp add: merge_left_def heap_pop_mset)

text \<open>The main loop: the error or the panic that ended it, if any, and the writer.\<close>

function merge_loop ::
    "HStoreConfig \<Rightarrow> (nat \<Rightarrow> u64) \<Rightarrow> bool \<Rightarrow> nat \<Rightarrow> mergeReader list \<Rightarrow> mergeWriter \<Rightarrow> merge_outcome option \<times> mergeWriter" where
  "merge_loop c states forGC i h mw =
     (if h = [] then (None, mw)
      else if states i AND HintStateGC \<noteq> 0 \<and> \<not> forGC then (Some (MergeErr AbortErr), mw)
      else case heap_pop merge_key h of
        (mr, h1) \<Rightarrow>
          (case mw_write c (mr_curr mr) mw of
             (False, mw1) \<Rightarrow> (Some MergePanic, mw1)
           | (True, mw1) \<Rightarrow>
               (case hint_next (mr_r mr) of
                  (Inl err, _) \<Rightarrow> (Some (MergeErr err), mw1)
                | (Inr None, _) \<Rightarrow> merge_loop c states forGC (i + 1) h1 mw1
                | (Inr (Some it), r') \<Rightarrow>
                    merge_loop c states forGC (i + 1)
                      (heap_push merge_key \<lparr>mr_r = r', mr_curr = set_chunk (r_chunkID r') it\<rparr> h1) mw1)))"
  by pat_completeness auto
termination
  by (relation "measure (\<lambda>(c, states, forGC, i, h, mw). merge_left h)") 
    (auto dest!: sym [of _ "hint_next _"] sym [of _ "heap_pop _ _"] intro: merge_left_push merge_left_pop)

declare merge_loop.simps [simp del]

text \<open>\<open>merge\<close>.  Without a writer the error of creating the file is overwritten by the first \<open>next\<close>; it remains
  only when there is no source.\<close>

definition merge ::
    "HStoreConfig \<Rightarrow> (nat \<Rightarrow> u64) \<Rightarrow> bool \<Rightarrow> bool \<Rightarrow> (bytes option \<times> int) list \<Rightarrow> CollisionTable \<Rightarrow> merge_outcome \<times> CollisionTable" where
  "merge c states create forGC src ct =
     (case merge_open src 0 [] of
        Inl out \<Rightarrow> (out, ct)
      | Inr (hp, datasize) \<Rightarrow>
          (let want = \<not> NoMerged c \<and> \<not> forGC;
               w = (if want \<and> create then Some (newHintFileWriter datasize) else None);
               (out, mw) = merge_loop c states forGC 0 (heap_init merge_key hp) (newMergeWriter w ct);
               out1 = (if hp = [] \<and> want \<and> \<not> create then Some (MergeErr OpenErr) else out)
           in if out1 = Some MergePanic then (MergePanic, mw_ct mw)
              else case mw_flush c mw of
                (False, mw1) \<Rightarrow> (MergePanic, mw_ct mw1)
              | (True, mw1) \<Rightarrow>
                  (case out1 of
                     Some e \<Rightarrow> (e, mw_ct mw1)
                   | None \<Rightarrow> (MergeOk (map_option (\<lambda>w. \<lparr>hi_index = toIndex (w_index (w_close w)),
                         hi_file = Some (w_file (w_close w)), hi_meta = w_meta (w_close w)\<rparr>) (mw_w mw1)), mw_ct mw1))))"

text \<open>\<open>hintMgr.Merge\<close>; \<open>oldchunk\<close> is the chunk of the table read before the lock was taken.  The state bits are set and cleared
  around it, and a panic is recovered.\<close>

definition max_hint_id :: "(int \<times> int) list \<Rightarrow> HintID" where
  "max_hint_id ids = fold (\<lambda>(ck, sp) hid. snd (setIfLarger ck sp hid)) ids \<lparr>hid_Chunk = 0, hid_Split = 0\<rparr>"

definition Merge ::
    "HStoreConfig \<Rightarrow> (nat \<Rightarrow> u64) \<Rightarrow> bool \<Rightarrow> int \<Rightarrow> bool \<Rightarrow> hintMgr \<Rightarrow> StoreErr option \<times> hintMgr" where
  "Merge c states create oldchunk forGC h =
     (let h0 = h\<lparr>hm_state := hm_state h OR HintStateMerge\<rparr>;
          clear = (\<lambda>h. h\<lparr>hm_state := hm_state h AND NOT HintStateMerge\<rparr>)
      in if oldchunk \<noteq> hid_Chunk (ct_id (hm_collisions h0)) then (None, clear h0)
         else let h1 = RemoveMerged h0;
                  ids = Mapping.ordered_keys (hm_files h1);
                  maxid = max_hint_id ids;
                  src = map (\<lambda>p. (Mapping.lookup (hm_files h1) p, fst p)) ids
              in case merge c states create forGC src (hm_collisions h1) of
                   (MergePanic, ct) \<Rightarrow> (None, clear (h1\<lparr>hm_collisions := ct\<rparr>))
                 | (MergeErr err, ct) \<Rightarrow> (Some err, clear (h1\<lparr>hm_collisions := ct\<rparr>))
                 | (MergeOk index, ct) \<Rightarrow>
                     (None, clear (h1\<lparr>hm_merged := index, hm_collisions := ct\<lparr>ct_id := maxid\<rparr>\<rparr>)))"

text \<open>Writing a list of items, and the specification: the last item of every run with the same key, and the items among them whose
  hash another key shares.\<close>

fun write_all :: "HStoreConfig \<Rightarrow> HintItem list \<Rightarrow> mergeWriter \<Rightarrow> merge_outcome option \<times> mergeWriter" where
  "write_all c [] mw = (None, mw)"
| "write_all c (it # its) mw = (case mw_write c it mw of (False, mw1) \<Rightarrow> (Some MergePanic, mw1) | (True, mw1) \<Rightarrow> write_all c its mw1)"

fun last_of_runs :: "HintItem list \<Rightarrow> HintItem list" where
  "last_of_runs [] = []"
| "last_of_runs [x] = [x]"
| "last_of_runs (x # y # its) = (if hint_key x = hint_key y then last_of_runs (y # its) else x # last_of_runs (y # its))"

definition collides :: "HintItem list \<Rightarrow> HintItem \<Rightarrow> bool" where
  "collides its it \<longleftrightarrow> (\<exists>x \<in> set its. it_Keyhash x = it_Keyhash it \<and> it_Key x \<noteq> it_Key it)"

definition item_ord :: "HintItem \<Rightarrow> (u64 \<times> bytes) \<times> int" where
  "item_ord it = (hint_key it, CmpKey (it_Pos it))"

abbreviation item_sorted :: "HintItem list \<Rightarrow> bool" where
  "item_sorted \<equiv> sorted_wrt (\<lambda>a b. item_ord a \<le> item_ord b)"

text \<open>The items a reader will deliver, when its file can be read to the end.\<close>

definition mr_items :: "mergeReader \<Rightarrow> HintItem list" where
  "mr_items mr = mr_curr mr #
     (case hint_scan (mr_r mr) of Inl _ \<Rightarrow> [] | Inr its \<Rightarrow> map (set_chunk (r_chunkID (mr_r mr))) its)"

definition mr_good :: "mergeReader \<Rightarrow> bool" where
  "mr_good mr \<longleftrightarrow> (\<exists>its. hint_scan (mr_r mr) = Inr its) \<and> item_sorted (mr_items mr)"

section \<open>The heap delivers the items in order\<close>

lemma hint_next_chunk: "hint_next r = (x, r') \<Longrightarrow> r_chunkID r' = r_chunkID r"
  by (auto simp: hint_next_def Let_def split: if_splits)

lemma hint_scan_step:
  assumes "hint_scan r = Inr its"
  shows "(its = [] \<and> (\<exists>r'. hint_next r = (Inr None, r'))) \<or>
    (\<exists>it its' r'. its = it # its' \<and> hint_next r = (Inr (Some it), r') \<and> hint_scan r' = Inr its')"
  using assms by (subst (asm) hint_scan.simps) (auto split: prod.splits sum.splits option.splits)

lemma mr_next:
  assumes "mr_good mr"
  shows "(mr_items mr = [mr_curr mr] \<and> (\<exists>r'. hint_next (mr_r mr) = (Inr None, r'))) \<or>
    (\<exists>it r'. hint_next (mr_r mr) = (Inr (Some it), r') \<and>
       (let mr' = \<lparr>mr_r = r', mr_curr = set_chunk (r_chunkID r') it\<rparr>
        in mr_good mr' \<and> mr_items mr = mr_curr mr # mr_items mr'))"
proof -
  obtain its where its: "hint_scan (mr_r mr) = Inr its" using assms by (auto simp: mr_good_def)
  from hint_scan_step [OF its] show ?thesis
    using assms its hint_next_chunk by (auto simp: mr_good_def mr_items_def Let_def)
qed

lemma merge_key_ord: "merge_key mr = item_ord (mr_curr mr)"
  by (simp add: merge_key_def item_ord_def)

definition heap_items :: "mergeReader list \<Rightarrow> HintItem multiset" where
  "heap_items h = (\<Sum>mr \<in># mset h. mset (mr_items mr))"

lemma heap_items_ge:
  assumes "\<forall>mr \<in> set h. mr_good mr" "\<forall>mr \<in> set h. k \<le> merge_key mr" "it \<in># heap_items h"
  shows "k \<le> item_ord it"
proof -
  obtain mr where mr: "mr \<in> set h" "it \<in> set (mr_items mr)" using assms(3) by (auto simp: heap_items_def)
  have "item_sorted (mr_items mr)" "mr_items mr = mr_curr mr # tl (mr_items mr)"
    using assms(1) mr(1) by (auto simp: mr_good_def mr_items_def)
  then have "item_ord (mr_curr mr) \<le> item_ord it"
    using mr(2) by (metis order_refl set_ConsD sorted_wrt.simps(2))
  then show ?thesis using assms(2) mr(1) merge_key_ord [of mr] by (metis order_trans)
qed

lemma heap_items_push: "heap_items (heap_push k x h) = mset (mr_items x) + heap_items h"
  by (simp add: heap_items_def heap_push_mset)

lemma heap_items_pop:
  "h \<noteq> [] \<Longrightarrow> heap_pop k h = (x, h') \<Longrightarrow> heap_items h = mset (mr_items x) + heap_items h'"
  by (simp add: heap_items_def heap_pop_mset)

definition not_aborted :: "(nat \<Rightarrow> u64) \<Rightarrow> bool \<Rightarrow> bool" where
  "not_aborted states forGC \<longleftrightarrow> forGC \<or> (\<forall>i. states i AND HintStateGC = 0)"

lemma merge_loop_order:
  assumes "heap_ok merge_key h" "\<forall>mr \<in> set h. mr_good mr" "not_aborted states forGC"
  shows "\<exists>out. item_sorted out \<and> mset out = heap_items h \<and> merge_loop c states forGC i h mw = write_all c out mw"
  using assms(1,2)
proof (induction "merge_left h" arbitrary: i h mw rule: less_induct)
  case less
  show ?case
  proof (cases "h = []")
    case True
    then show ?thesis by (intro exI [of _ "[]"]) (simp add: heap_items_def merge_loop.simps)
  next
    case False
    obtain mr h1 where p: "heap_pop merge_key h = (mr, h1)" by (cases "heap_pop merge_key h")
    have "mset h \<noteq> {#}" using False by simp
    note ms = heap_pop_mset [OF False p] and P = go_heap.pop_ok [OF less.prems(1) this p]
    have ok1: "heap_ok merge_key h1" and mn: "\<forall>x \<in># mset h. merge_key mr \<le> merge_key x" using P by blast+
    have sets: "set h = insert mr (set h1)" using arg_cong [OF ms, of set_mset] by simp
    have good: "mr_good mr" "\<forall>x \<in> set h1. mr_good x" using less.prems(2) sets by auto
    have na: "\<not> (states i AND HintStateGC \<noteq> 0 \<and> \<not> forGC)" using assms(3) by (auto simp: not_aborted_def)
    have cont: "\<exists>h2. heap_ok merge_key h2 \<and> (\<forall>x \<in> set h2. mr_good x) \<and> merge_left h2 < merge_left h \<and>
        heap_items h = add_mset (mr_curr mr) (heap_items h2) \<and>
        merge_loop c states forGC i h mw =
          (case mw_write c (mr_curr mr) mw of (False, mw1) \<Rightarrow> (Some MergePanic, mw1)
           | (True, mw1) \<Rightarrow> merge_loop c states forGC (i + 1) h2 mw1)"
      using mr_next [OF good(1)]
    proof (elim disjE exE conjE)
      fix r' assume n: "hint_next (mr_r mr) = (Inr None, r')" and e: "mr_items mr = [mr_curr mr]"
      show ?thesis
        using ok1 good(2) merge_left_pop [OF False p] heap_items_pop [OF False p] e na False
        by (intro exI [of _ h1]) (subst merge_loop.simps, auto simp: p n split: prod.splits bool.splits)
    next
      fix it r' assume n: "hint_next (mr_r mr) = (Inr (Some it), r')"
      let ?m = "\<lparr>mr_r = r', mr_curr = set_chunk (r_chunkID r') it\<rparr>"
      assume "let mr' = ?m in mr_good mr' \<and> mr_items mr = mr_curr mr # mr_items mr'"
      then have g: "mr_good ?m" "mr_items mr = mr_curr mr # mr_items ?m" by (simp_all add: Let_def)
      have "heap_ok merge_key (heap_push merge_key ?m h1)" using go_heap.push_ok [OF ok1] by blast
      moreover have "set (heap_push merge_key ?m h1) = insert ?m (set h1)"
        using arg_cong [OF heap_push_mset [of merge_key ?m h1], of set_mset] by simp
      ultimately show ?thesis
        using good(2) g merge_left_push [OF False p n] heap_items_pop [OF False p] heap_items_push [of merge_key ?m h1] na False
        by (intro exI [of _ "heap_push merge_key ?m h1"]) (subst merge_loop.simps, auto simp: p n split: prod.splits bool.splits)
    qed
    then obtain h2 where h2: "heap_ok merge_key h2" "\<forall>x \<in> set h2. mr_good x" "merge_left h2 < merge_left h"
      "heap_items h = add_mset (mr_curr mr) (heap_items h2)"
      "merge_loop c states forGC i h mw =
          (case mw_write c (mr_curr mr) mw of (False, mw1) \<Rightarrow> (Some MergePanic, mw1)
           | (True, mw1) \<Rightarrow> merge_loop c states forGC (i + 1) h2 mw1)" by blast
    obtain out where o: "item_sorted out" "mset out = heap_items h2"
      "merge_loop c states forGC (i + 1) h2 (snd (mw_write c (mr_curr mr) mw)) = write_all c out (snd (mw_write c (mr_curr mr) mw))"
      using less.hyps [OF h2(3,1,2)] by blast
    have "merge_key mr \<le> item_ord it" if "it \<in> set out" for it
    proof (rule heap_items_ge [OF less.prems(2)])
      show "\<forall>x \<in> set h. merge_key mr \<le> merge_key x" using mn by simp
      show "it \<in># heap_items h" using that o(2) h2(4) by (metis insertCI set_mset_add_mset_insert set_mset_mset)
    qed
    then have "item_sorted (mr_curr mr # out)" using o(1) by (simp add: merge_key_ord)
    moreover have "merge_loop c states forGC i h mw = write_all c (mr_curr mr # out) mw"
      using h2(5) o(3) by (auto split: prod.splits bool.splits)
    ultimately show ?thesis using o(2) h2(4) by (intro exI [of _ "mr_curr mr # out"]) simp
  qed
qed

section \<open>The writer keeps the last item of every run\<close>

lemma write_items_append: "write_items c (xs @ ys) w = Option.bind (write_items c xs w) (write_items c ys)"
  by (induction xs arbitrary: w) (auto split: bind_splits)

abbreviation cas :: "HintItem \<Rightarrow> CollisionTable \<Rightarrow> CollisionTable" where
  "cas it \<equiv> compareAndSet it ''merge''"

text \<open>The state of the writer when the items \<open>done\<close> are written and \<open>buf\<close> is buffered.\<close>

definition mw_inv ::
    "HStoreConfig \<Rightarrow> hintFileWriter option \<Rightarrow> CollisionTable \<Rightarrow> HintItem list \<Rightarrow> HintItem list \<Rightarrow> mergeWriter \<Rightarrow> bool" where
  "mw_inv c w0 ct0 written buf mw \<longleftrightarrow>
     mw_buf mw = buf \<and> mw_ct mw = fold cas (filter (collides written) written) ct0 \<and>
     (case w0 of None \<Rightarrow> mw_w mw = None | Some w \<Rightarrow> mw_w mw \<noteq> None \<and> mw_w mw = write_items c written w) \<and>
     (\<forall>x \<in> set buf. \<forall>y \<in> set buf. it_Keyhash x = it_Keyhash y) \<and> distinct (map hint_key buf) \<and>
     (\<forall>x \<in> set written. \<forall>y \<in> set buf. it_Keyhash x \<noteq> it_Keyhash y)"

lemma filter_collides_group:
  assumes "\<forall>x \<in> set buf. \<forall>y \<in> set buf. it_Keyhash x = it_Keyhash y" "distinct (map hint_key buf)"
    "\<forall>x \<in> set written. \<forall>y \<in> set buf. it_Keyhash x \<noteq> it_Keyhash y"
  shows "filter (collides (written @ buf)) (written @ buf) = filter (collides written) written @ (if length buf > 1 then buf else [])"
proof -
  have "collides (written @ buf) x \<longleftrightarrow> collides written x" if "x \<in> set written" for x
    using assms(3) that by (auto simp: collides_def; metis)
  moreover have "collides (written @ buf) x \<longleftrightarrow> length buf > 1" if x: "x \<in> set buf" for x
  proof
    assume "collides (written @ buf) x"
    then obtain y where "y \<in> set buf" "y \<noteq> x" using assms(3) x by (auto simp: collides_def)
    then show "length buf > 1" using x by (cases buf) (auto simp: less_Suc_eq_0_disj Suc_less_eq2 length_greater_0_conv)
  next
    assume l: "length buf > 1"
    obtain i where i: "i < length buf" "x = buf ! i" using x by (auto simp: in_set_conv_nth)
    define j where "j = (if i = 0 then 1 else 0 :: nat)"
    have j: "j < length buf" "j \<noteq> i" using l by (auto simp: j_def)
    then have "hint_key (buf ! j) \<noteq> hint_key x" using i assms(2) nth_eq_iff_index_eq [of "map hint_key buf" j i] by auto
    moreover have "it_Keyhash (buf ! j) = it_Keyhash x" using assms(1) j i by auto
    ultimately show "collides (written @ buf) x" using j unfolding collides_def by (auto simp: hint_key_def intro!: bexI [of _ "buf ! j"])
  qed
  ultimately have "filter (collides (written @ buf)) written = filter (collides written) written"
    "filter (collides (written @ buf)) buf = (if length buf > 1 then buf else [])"
    by (auto intro: filter_cong simp: filter_empty_conv filter_id_conv)
  then show ?thesis by simp
qed

lemma mw_flush_inv:
  assumes "mw_inv c w0 ct0 written buf mw" "\<forall>w. w0 = Some w \<longrightarrow> write_items c (written @ buf) w \<noteq> None"
  shows "\<exists>mw1. mw_flush c mw = (True, mw1) \<and> mw_ct mw1 = fold cas (filter (collides (written @ buf)) (written @ buf)) ct0 \<and>
    (case w0 of None \<Rightarrow> mw_w mw1 = None | Some w \<Rightarrow> mw_w mw1 \<noteq> None \<and> mw_w mw1 = write_items c (written @ buf) w)"
proof -
  note I = assms(1) [unfolded mw_inv_def]
  have f: "filter (collides (written @ buf)) (written @ buf) = filter (collides written) written @ (if length buf > 1 then buf else [])"
    using I by (intro filter_collides_group) blast+
  have b: "mw_buf mw = buf" "mw_ct mw = fold cas (filter (collides written) written) ct0"
    "case w0 of None \<Rightarrow> mw_w mw = None | Some w \<Rightarrow> mw_w mw \<noteq> None \<and> mw_w mw = write_items c written w"
    using I by blast+
  show ?thesis
  proof (cases w0)
    case None
    then show ?thesis using b unfolding f by (simp add: mw_flush_def Let_def)
  next
    case (Some w)
    then obtain w1 where w1: "write_items c written w = Some w1" "mw_w mw = Some w1"
      using b(3) by (cases "write_items c written w") auto
    obtain w2 where w2: "write_items c buf w1 = Some w2" using assms(2) Some w1 by (auto simp: write_items_append)
    then show ?thesis using b w1 Some unfolding f by (simp add: mw_flush_def Let_def write_items_append)
  qed
qed

lemma set_last_of_runs: "set (last_of_runs its) \<subseteq> set its"
  by (induction its rule: last_of_runs.induct) auto

lemma length_last_of_runs: "length (last_of_runs its) \<le> length its"
  by (induction its rule: last_of_runs.induct) auto

lemma last_of_runs_Nil [simp]: "last_of_runs its = [] \<longleftrightarrow> its = []"
  by (induction its rule: last_of_runs.induct) auto

lemma last_last_of_runs: "its \<noteq> [] \<Longrightarrow> last (last_of_runs its) = last its"
  by (induction its rule: last_of_runs.induct) auto

lemma last_of_runs_snoc:
  "last_of_runs (its @ [it]) =
     (if its = [] then [it]
      else if hint_key (last its) = hint_key it then butlast (last_of_runs its) @ [it] else last_of_runs its @ [it])"
  by (induction its rule: last_of_runs.induct) auto

lemma item_ord_key: "item_ord a \<le> item_ord b \<Longrightarrow> hint_key a \<le> hint_key b \<and> it_Keyhash a \<le> it_Keyhash b"
  by (auto simp: item_ord_def less_eq_prod_def hint_key_def)

lemma sorted_before_last:
  assumes "item_sorted (pre @ [it])" "pre \<noteq> []" "x \<in> set pre"
  shows "hint_key x \<le> hint_key (last pre)" "it_Keyhash x \<le> it_Keyhash (last pre)"
    "hint_key (last pre) \<le> hint_key it" "it_Keyhash (last pre) \<le> it_Keyhash it"
proof -
  have s: "item_sorted ((butlast pre @ [last pre]) @ [it])" using assms(1,2) by simp
  have "x \<in> set (butlast pre) \<or> x = last pre" using assms(2,3) by (metis append_butlast_last_id in_set_butlastD rotate1.simps(2) set_ConsD set_rotate1)
  then have "item_ord x \<le> item_ord (last pre)" using s by (auto simp: sorted_wrt_append)
  then show "hint_key x \<le> hint_key (last pre)" "it_Keyhash x \<le> it_Keyhash (last pre)" using item_ord_key by blast+
  have "item_ord (last pre) \<le> item_ord it" using assms(1,2) by (auto simp: sorted_wrt_append)
  then show "hint_key (last pre) \<le> hint_key it" "it_Keyhash (last pre) \<le> it_Keyhash it" using item_ord_key by blast+
qed

definition writable :: "HStoreConfig \<Rightarrow> hintFileWriter option \<Rightarrow> nat \<Rightarrow> bool" where
  "writable c w0 n \<longleftrightarrow> (\<forall>w ts. w0 = Some w \<and> length ts \<le> n \<longrightarrow> write_items c ts w \<noteq> None)"

lemma mw_write_inv:
  assumes "mw_inv c w0 ct0 W B mw" "W @ B = last_of_runs pre" "B = [] \<longrightarrow> pre = []" "item_sorted (pre @ [it])"
    "writable c w0 (length pre)"
  shows "\<exists>W' B' mw'. mw_write c it mw = (True, mw') \<and> mw_inv c w0 ct0 W' B' mw' \<and> W' @ B' = last_of_runs (pre @ [it]) \<and> B' \<noteq> []"
proof (cases "B = []")
  case True
  then have "pre = []" "W = []" using assms(2,3) by auto
  then have "mw_inv c w0 ct0 [] [it] (mw\<lparr>mw_buf := [it]\<rparr>)" "mw_write c it mw = (True, mw\<lparr>mw_buf := [it]\<rparr>)"
    using assms(1) True by (simp_all add: mw_inv_def mw_write_def split: option.splits)
  then show ?thesis using \<open>pre = []\<close> by (intro exI [of _ "[]"] exI [of _ "[it]"]) auto
next
  case B: False
  have buf: "mw_buf mw = B" using assms(1) by (simp add: mw_inv_def)
  have pre: "pre \<noteq> []" using B assms(2) by auto
  have lB: "last B = last pre" using assms(2) B last_last_of_runs [OF pre] by (metis last_appendR)
  have sub: "x \<in> set pre" if "x \<in> set W \<union> set B" for x
    using that set_last_of_runs [of pre] unfolding assms(2) [symmetric] by auto
  note S = sorted_before_last [OF assms(4) pre sub]
  show ?thesis
  proof (cases "it_Keyhash (last B) = it_Keyhash it")
    case False
    have "length (W @ B) \<le> length pre" using length_last_of_runs [of pre] assms(2) by simp
    then have "\<forall>w. w0 = Some w \<longrightarrow> write_items c (W @ B) w \<noteq> None" using assms(5) by (auto simp: writable_def)
    from mw_flush_inv [OF assms(1) this] obtain mw1 where m: "mw_flush c mw = (True, mw1)"
      "mw_ct mw1 = fold cas (filter (collides (W @ B)) (W @ B)) ct0"
      "case w0 of None \<Rightarrow> mw_w mw1 = None | Some w \<Rightarrow> mw_w mw1 \<noteq> None \<and> mw_w mw1 = write_items c (W @ B) w" by blast
    have h: "it_Keyhash x \<noteq> it_Keyhash it" if "x \<in> set (W @ B)" for x
      using S(2,4) [of x] that False lB by auto
    have "mw_inv c w0 ct0 (W @ B) [it] (mw1\<lparr>mw_buf := [it]\<rparr>)" using m(2,3) h unfolding mw_inv_def by (cases w0) (auto dest!: sym [of "Some _"])
    moreover have "mw_write c it mw = (True, mw1\<lparr>mw_buf := [it]\<rparr>)"
      using False B m(1) buf by (simp add: mw_write_def Let_def)
    moreover have "(W @ B) @ [it] = last_of_runs (pre @ [it])"
      using False lB pre assms(2) by (auto simp: last_of_runs_snoc hint_key_def)
    ultimately show ?thesis by (intro exI [of _ "W @ B"] exI [of _ "[it]"]) simp
  next
    case hash: True
    note I = assms(1) [unfolded mw_inv_def]
    have hB: "it_Keyhash x = it_Keyhash it" if "x \<in> set B" for x using I that hash B last_in_set by metis
    have hW: "it_Keyhash x \<noteq> it_Keyhash it" if "x \<in> set W" for x using I that hash B last_in_set by metis
    have dB: "distinct (map hint_key B)" using I by blast
    define B' where "B' = (if it_Key (last B) = it_Key it then butlast B @ [it] else B @ [it])"
    have w: "mw_write c it mw = (True, mw\<lparr>mw_buf := B'\<rparr>)" using buf B hash by (simp add: mw_write_def Let_def B'_def)
    have d: "distinct (map hint_key B')"
    proof (cases "it_Key (last B) = it_Key it")
      case True
      then have "hint_key it = hint_key (last B)" using hash by (simp add: hint_key_def)
      then have "map hint_key B' = map hint_key (butlast B @ [last B])" using True by (simp add: B'_def)
      then show ?thesis using dB B by simp
    next
      case False
      then have "hint_key x \<noteq> hint_key it" if "x \<in> set B" for x
        using S(1,3) [of x] that lB by (auto simp: hint_key_def)
      then show ?thesis using dB False by (auto simp: B'_def; blast)
    qed
    have hB': "it_Keyhash x = it_Keyhash it" if "x \<in> set B'" for x
      using that hB by (auto simp: B'_def split: if_splits dest: in_set_butlastD)
    have "mw_inv c w0 ct0 W B' (mw\<lparr>mw_buf := B'\<rparr>)"
    proof -
      have "mw_ct mw = fold cas (filter (collides W) W) ct0"
        "case w0 of None \<Rightarrow> mw_w mw = None | Some w \<Rightarrow> mw_w mw \<noteq> None \<and> mw_w mw = write_items c W w" using I by blast+
      moreover have "\<forall>x \<in> set B'. \<forall>y \<in> set B'. it_Keyhash x = it_Keyhash y" "\<forall>x \<in> set W. \<forall>y \<in> set B'. it_Keyhash x \<noteq> it_Keyhash y"
        using hB' hW by metis+
      moreover have "mw_buf (mw\<lparr>mw_buf := B'\<rparr>) = B'" "mw_ct (mw\<lparr>mw_buf := B'\<rparr>) = mw_ct mw" "mw_w (mw\<lparr>mw_buf := B'\<rparr>) = mw_w mw"
        by simp_all
      ultimately show ?thesis unfolding mw_inv_def using d by presburger
    qed
    moreover have "W @ B' = last_of_runs (pre @ [it])"
      using hash lB pre B by (auto simp: last_of_runs_snoc hint_key_def B'_def assms(2) [symmetric] butlast_append)
    moreover have "B' \<noteq> []" by (simp add: B'_def)
    ultimately show ?thesis using w by blast
  qed
qed

lemma write_all_inv:
  assumes "mw_inv c w0 ct0 W B mw" "W @ B = last_of_runs pre" "B = [] \<longrightarrow> pre = []" "item_sorted (pre @ its)"
    "writable c w0 (length (pre @ its))"
  shows "\<exists>W' B' mw'. write_all c its mw = (None, mw') \<and> mw_inv c w0 ct0 W' B' mw' \<and> W' @ B' = last_of_runs (pre @ its)"
  using assms
proof (induction its arbitrary: W B mw pre)
  case (Cons it its)
  have "item_sorted (pre @ [it])" "writable c w0 (length pre)"
    using Cons.prems(4,5) by (auto simp: sorted_wrt_append writable_def)
  from mw_write_inv [OF Cons.prems(1-3) this] obtain W' B' mw' where
    m: "mw_write c it mw = (True, mw')" "mw_inv c w0 ct0 W' B' mw'" "W' @ B' = last_of_runs (pre @ [it])" "B' \<noteq> []" by blast
  from Cons.IH [OF m(2,3)] m(1,4) Cons.prems(4,5) show ?case by simp
qed auto

section \<open>What a merge produces\<close>

text \<open>A source: a hint file written from sorted items.\<close>

definition hint_source :: "HStoreConfig \<Rightarrow> bytes option \<times> int \<Rightarrow> HintItem list \<Rightarrow> bool" where
  "hint_source c src its \<longleftrightarrow>
     (\<exists>mx w. write_items c its (newHintFileWriter mx) = Some w \<and> fst src = Some (w_file (w_close w))) \<and>
     its \<noteq> [] \<and> hint_sorted its \<and> (\<forall>it \<in> set its. hint_item_ok it) \<and> length its < 4096 * 4096 \<and>
     0 \<le> snd src \<and> snd src < 2 ^ 32"

definition source_items :: "(bytes option \<times> int) list \<Rightarrow> HintItem list list \<Rightarrow> HintItem list" where
  "source_items src itss = concat (map (\<lambda>((_, ck), its). map (set_chunk ck) its) (zip src itss))"

lemma set_chunk_key [simp]:
  "hint_key (set_chunk ck it) = hint_key it" "it_Keyhash (set_chunk ck it) = it_Keyhash it" "it_Key (set_chunk ck it) = it_Key it"
  by (simp_all add: set_chunk_def hint_key_def)

lemma set_chunk_ok: "hint_item_ok it \<Longrightarrow> 0 \<le> ck \<Longrightarrow> ck < 2 ^ 32 \<Longrightarrow> hint_item_ok (set_chunk ck it)"
  by (simp add: hint_item_ok_def set_chunk_def)

lemma hint_sorted_item_sorted: "hint_sorted its \<Longrightarrow> item_sorted (map (set_chunk ck) its)"
  by (auto simp: sorted_wrt_map item_ord_def less_eq_prod_def elim!: sorted_wrt_mono_rel [rotated])

lemma hint_source_open:
  assumes "hint_source c src its"
  shows "\<exists>r it r'. hint_open (fst src) (snd src) = Inr r \<and> hint_next r = (Inr (Some it), r') \<and>
    (let mr = \<lparr>mr_r = r', mr_curr = set_chunk (snd src) it\<rparr> in mr_good mr \<and> mr_items mr = map (set_chunk (snd src)) its)"
proof -
  note H = assms [unfolded hint_source_def]
  obtain mx w where w: "write_items c its (newHintFileWriter mx) = Some w" "fst src = Some (w_file (w_close w))" using H by blast
  obtain r where r: "hint_open (fst src) (snd src) = Inr r" "hint_scan r = Inr its"
    using hint_file_written [of its c mx "snd src"] H w by auto
  have ck: "r_chunkID r = snd src" using r(1) by (auto simp: hint_open_def Let_def split: option.splits if_splits)
  obtain it its' r' where n: "its = it # its'" "hint_next r = (Inr (Some it), r')" "hint_scan r' = Inr its'"
    using hint_scan_step [OF r(2)] H by blast
  have "mr_items \<lparr>mr_r = r', mr_curr = set_chunk (snd src) it\<rparr> = map (set_chunk (snd src)) its"
    using n ck hint_next_chunk [OF n(2)] by (simp add: mr_items_def)
  then show ?thesis using r n hint_sorted_item_sorted [of its "snd src"] H by (auto simp: mr_good_def Let_def)
qed

lemma merge_open_sources:
  assumes "list_all2 (hint_source c) src itss"
  shows "\<exists>hp ds'. merge_open src ds hp0 = Inr (hp0 @ hp, ds') \<and> (\<forall>mr \<in> set hp. mr_good mr) \<and>
    heap_items hp = mset (source_items src itss) \<and> (hp = [] \<longleftrightarrow> src = [])"
  using assms
proof (induction src itss arbitrary: ds hp0 rule: list_all2_induct)
  case Nil
  then show ?case by (simp add: heap_items_def source_items_def)
next
  case (Cons s ss its itss)
  obtain f ck where s: "s = (f, ck)" by (cases s)
  from hint_source_open [OF Cons(1)] obtain r it r' where o: "hint_open f ck = Inr r" "hint_next r = (Inr (Some it), r')"
    "mr_good \<lparr>mr_r = r', mr_curr = set_chunk ck it\<rparr>"
    "mr_items \<lparr>mr_r = r', mr_curr = set_chunk ck it\<rparr> = map (set_chunk ck) its" by (auto simp: s Let_def)
  let ?m = "\<lparr>mr_r = r', mr_curr = set_chunk ck it\<rparr>"
  obtain hp ds' where "merge_open ss (if hf_datasize (r_meta r) > ds then hf_datasize (r_meta r) else ds) (hp0 @ [?m])
      = Inr ((hp0 @ [?m]) @ hp, ds')" "\<forall>mr \<in> set hp. mr_good mr" "heap_items hp = mset (source_items ss itss)"
    using Cons.IH by blast
  then show ?case using o by (intro exI [of _ "?m # hp"]) (simp add: s heap_items_def source_items_def)
qed

text \<open>The newest items: what the last items of the runs of a sorted list are.\<close>

lemma last_of_runs_sorted:
  assumes "item_sorted its"
  shows "hint_sorted (last_of_runs its)"
  using assms
proof (induction its rule: last_of_runs.induct)
  case (3 x y its)
  show ?case
  proof (cases "hint_key x = hint_key y")
    case False
    have "hint_key x < hint_key z" if "z \<in> set (last_of_runs (y # its))" for z
    proof -
      have "z \<in> set (y # its)" using that set_last_of_runs by blast
      then have "hint_key y \<le> hint_key z" using 3(3) item_ord_key by auto
      moreover have "hint_key x \<le> hint_key y" using 3(3) item_ord_key by auto
      ultimately show ?thesis using False by auto
    qed
    then show ?thesis using 3 False by simp
  qed (use 3 in simp)
qed auto

lemma last_of_runs_distinct: "item_sorted its \<Longrightarrow> distinct (map hint_key (last_of_runs its))"
  using last_of_runs_sorted [of its] strict_sorted_iff [of "map hint_key (last_of_runs its)"] by (simp add: sorted_wrt_map)

lemma last_of_runs_newest:
  assumes "item_sorted its" "x \<in> set its"
  shows "\<exists>it \<in> set (last_of_runs its). hint_key it = hint_key x \<and> CmpKey (it_Pos x) \<le> CmpKey (it_Pos it)"
  using assms
proof (induction its arbitrary: x rule: last_of_runs.induct)
  case (3 a b its)
  show ?case
  proof (cases "hint_key a = hint_key b")
    case True
    have ab: "CmpKey (it_Pos a) \<le> CmpKey (it_Pos b)" using 3(3) True by (auto simp: item_ord_def)
    define z where "z = (if x = a then b else x)"
    have z: "z \<in> set (b # its)" "hint_key z = hint_key x" "CmpKey (it_Pos x) \<le> CmpKey (it_Pos z)"
      using 3(4) True ab by (auto simp: z_def)
    have "item_sorted (b # its)" using 3(3) by simp
    from 3(1) [OF True this z(1)] obtain it where "it \<in> set (last_of_runs (b # its))" "hint_key it = hint_key z"
      "CmpKey (it_Pos z) \<le> CmpKey (it_Pos it)" by blast
    then show ?thesis using True z(2,3) by (intro bexI [of _ it]) auto
  qed (use 3 in auto)
qed auto

lemma last_of_runs_is_newest:
  assumes "item_sorted its" "it \<in> set (last_of_runs its)"
  shows "is_newest it (filter (\<lambda>x. hint_key x = hint_key it) its)"
proof -
  have "CmpKey (it_Pos x) \<le> CmpKey (it_Pos it)" if x: "x \<in> set its" "hint_key x = hint_key it" for x
  proof -
    obtain y where y: "y \<in> set (last_of_runs its)" "hint_key y = hint_key x" "CmpKey (it_Pos x) \<le> CmpKey (it_Pos y)"
      using last_of_runs_newest [OF assms(1) x(1)] by blast
    from last_of_runs_distinct [OF assms(1)] have "y = it" using y(1,2) assms(2) x(2) by (metis distinct_map inj_onD)
    then show ?thesis using y(3) by simp
  qed
  then show ?thesis using assms(2) set_last_of_runs [of its] by (auto simp: is_newest_def)
qed

lemma cas_keeps:
  "ct_get kh key ct = (Some it, True) \<Longrightarrow>
   \<exists>it'. ct_get kh key (fold cas its ct) = (Some it', True) \<and> CmpKey (it_Pos it) \<le> CmpKey (it_Pos it')"
proof (induction its arbitrary: ct it)
  case (Cons a its)
  obtain it' where "ct_get kh key (cas a ct) = (Some it', True)" "CmpKey (it_Pos it) \<le> CmpKey (it_Pos it')"
    using Cons.prems compareAndSet_get [of kh key a "''merge''" ct] by (cases "ct_get kh key (cas a ct)") (auto split: if_splits)
  with Cons.IH [of "cas a ct" it'] show ?case by (auto intro: order_trans)
qed auto

lemma cas_present:
  assumes "a \<in> set its"
  shows "\<exists>it. ct_get (it_Keyhash a) (it_Key a) (fold cas its ct) = (Some it, True) \<and> CmpKey (it_Pos a) \<le> CmpKey (it_Pos it)"
proof -
  obtain xs ys where s: "its = xs @ a # ys" using assms by (meson split_list)
  define t where "t = fold cas xs ct"
  obtain it where it: "ct_get (it_Keyhash a) (it_Key a) (cas a t) = (Some it, True)" "CmpKey (it_Pos a) \<le> CmpKey (it_Pos it)"
    using compareAndSet_get [of "it_Keyhash a" "it_Key a" a "''merge''" t]
    by (cases "ct_get (it_Keyhash a) (it_Key a) (cas a t)") (auto simp: hint_key_def split: option.splits if_splits)
  from cas_keeps [OF it(1), of ys] it(2) show ?thesis by (auto simp: s t_def intro: order_trans)
qed

lemma source_items_ok:
  assumes "list_all2 (hint_source c) src itss"
  shows "\<forall>it \<in> set (source_items src itss). hint_item_ok it"
  using assms
proof (induction rule: list_all2_induct)
  case (Cons s ss its itss)
  then have "hint_item_ok (set_chunk (snd s) it)" if "it \<in> set its" for it
    using that by (intro set_chunk_ok) (auto simp: hint_source_def)
  then show ?case using Cons.IH by (cases s) (auto simp: source_items_def)
qed (simp add: source_items_def)

lemma writable_new: "n < 4096 * 4096 \<Longrightarrow> writable c (Some (newHintFileWriter ds)) n"
  unfolding writable_def using write_items_rep [OF w_rep_new, of _ c ds] by (metis add_0 le_less_trans list.size(3) option.distinct(1) option.inject)

lemma merge_result:
  assumes "list_all2 (hint_source c') src itss" "length (source_items src itss) < 4096 * 4096"
    "not_aborted states forGC" "create \<or> NoMerged c \<or> forGC"
  shows "\<exists>out ds. item_sorted out \<and> mset out = mset (source_items src itss) \<and>
    (let D = last_of_runs out; ct' = fold cas (filter (collides D) D) ct in
     if NoMerged c \<or> forGC then merge c states create forGC src ct = (MergeOk None, ct')
     else \<exists>w. write_items c D (newHintFileWriter ds) = Some w \<and>
       merge c states create forGC src ct = (MergeOk (Some \<lparr>hi_index = toIndex (w_index w),
           hi_file = Some (w_file (w_close w)), hi_meta = w_meta (w_close w)\<rparr>), ct'))"
proof -
  obtain hp ds where hp: "merge_open src 0 [] = Inr (hp, ds)" "\<forall>mr \<in> set hp. mr_good mr" "heap_items hp = mset (source_items src itss)"
    using merge_open_sources [OF assms(1), of 0 "[]"] by auto
  let ?h = "heap_init merge_key hp"
  let ?w = "if NoMerged c \<or> forGC then None else Some (newHintFileWriter ds)"
  have ms: "mset ?h = mset hp" by (rule heap_init_ok)
  have h: "heap_ok merge_key ?h" "\<forall>mr \<in> set ?h. mr_good mr" "heap_items ?h = heap_items hp"
    using heap_init_ok(1) [of merge_key hp] hp(2) mset_eq_setD [OF ms] by (auto simp: heap_items_def ms)
  obtain out where o: "item_sorted out" "mset out = heap_items ?h"
    "merge_loop c states forGC 0 ?h (newMergeWriter ?w ct) = write_all c out (newMergeWriter ?w ct)"
    using merge_loop_order [OF h(1,2) assms(3)] by blast
  have len: "length out < 4096 * 4096" using assms(2) o(2) h(3) hp(3) by (metis size_mset)
  have wr: "writable c ?w n" if "n < 4096 * 4096" for n using writable_new [OF that, of c ds] by (auto simp: writable_def)
  have "mw_inv c ?w ct [] [] (newMergeWriter ?w ct)" by (auto simp: mw_inv_def newMergeWriter_def)
  from write_all_inv [OF this, of "[]" out] o(1) wr [OF len] obtain W B mw where
    m: "write_all c out (newMergeWriter ?w ct) = (None, mw)" "mw_inv c ?w ct W B mw" "W @ B = last_of_runs out" by auto
  have "length (W @ B) < 4096 * 4096" using length_last_of_runs [of out] m(3) len by simp
  from wr [OF this] have "\<forall>w. ?w = Some w \<longrightarrow> write_items c (W @ B) w \<noteq> None" by (auto simp: writable_def)
  from mw_flush_inv [OF m(2) this] obtain mw1 where f: "mw_flush c mw = (True, mw1)"
    "mw_ct mw1 = fold cas (filter (collides (last_of_runs out)) (last_of_runs out)) ct"
    "case ?w of None \<Rightarrow> mw_w mw1 = None | Some w \<Rightarrow> mw_w mw1 \<noteq> None \<and> mw_w mw1 = write_items c (last_of_runs out) w"
    unfolding m(3) by blast
  have e: "(if (\<not> NoMerged c \<and> \<not> forGC) \<and> create then Some (newHintFileWriter ds) else None) = ?w" using assms(4) by auto
  have "merge c states create forGC src ct =
      (MergeOk (map_option (\<lambda>w. \<lparr>hi_index = toIndex (w_index (w_close w)),
                         hi_file = Some (w_file (w_close w)), hi_meta = w_meta (w_close w)\<rparr>) (mw_w mw1)), mw_ct mw1)"
    unfolding merge_def hp(1) using o(3) m(1) f(1) assms(4) by (auto simp: Let_def e)
  moreover have "w_index (w_close w) = w_index w" for w by (simp add: w_close_def Let_def)
  ultimately have "let D = last_of_runs out; ct' = fold cas (filter (collides D) D) ct in
     if NoMerged c \<or> forGC then merge c states create forGC src ct = (MergeOk None, ct')
     else \<exists>w. write_items c D (newHintFileWriter ds) = Some w \<and>
       merge c states create forGC src ct = (MergeOk (Some \<lparr>hi_index = toIndex (w_index w),
           hi_file = Some (w_file (w_close w)), hi_meta = w_meta (w_close w)\<rparr>), ct')"
    using f(2,3) by (cases "NoMerged c \<or> forGC") (auto simp: Let_def dest!: sym [of "Some _"])
  moreover have "mset out = mset (source_items src itss)" using o(2) h(3) hp(3) by simp
  ultimately show ?thesis using o(1) by blast
qed

text \<open>C23: a merge of hint files that no garbage collection interrupts and that is asked to keep its result succeeds: for
  every item of the sources, looking up its hash and key in the merged index returns an item of the sources with that key at the
  largest position (chunk and offset), and the merged file has exactly one item per key.\<close>

theorem merge_keeps_newest:
  assumes "list_all2 (hint_source c') src itss" and "length (source_items src itss) < 4096 * 4096"
    and "\<forall>i. states i AND HintStateGC = 0" and "\<not> NoMerged c"
  shows "\<exists>idx ct'. merge c states True False src ct = (MergeOk (Some idx), ct') \<and>
    (\<forall>x \<in> set (source_items src itss). \<exists>it. hint_get (it_Keyhash x) (it_Key x) idx = Inr (Some it) \<and>
       is_newest it (filter (\<lambda>y. hint_key y = hint_key x) (source_items src itss))) \<and>
    hf_numKey (hi_meta idx) = int (card (hint_key ` set (source_items src itss)))"
proof -
  let ?S = "source_items src itss"
  have "not_aborted states False" using assms(3) by (simp add: not_aborted_def)
  from merge_result [OF assms(1,2) this, of True c ct] assms(4) obtain out ds w ct' where
    o: "item_sorted out" "mset out = mset ?S" and w: "write_items c (last_of_runs out) (newHintFileWriter ds) = Some w" and
    m: "merge c states True False src ct = (MergeOk (Some \<lparr>hi_index = toIndex (w_index w),
           hi_file = Some (w_file (w_close w)), hi_meta = w_meta (w_close w)\<rparr>), ct')" by (auto simp: Let_def)
  let ?D = "last_of_runs out" and ?idx = "\<lparr>hi_index = toIndex (w_index w), hi_file = Some (w_file (w_close w)), hi_meta = w_meta (w_close w)\<rparr>"
  have set_out: "set out = set ?S" using o(2) by (rule mset_eq_setD)
  have D: "hint_sorted ?D" "distinct (map hint_key ?D)" using last_of_runs_sorted last_of_runs_distinct o(1) by blast+
  have ok: "\<forall>it \<in> set ?D. hint_item_ok it"
    using set_last_of_runs [of out] source_items_ok [OF assms(1)] set_out by blast
  have len: "length ?D < 4096 * 4096" using length_last_of_runs [of out] assms(2) o(2) by (metis le_less_trans size_mset)
  have keys: "hint_key ` set ?D = hint_key ` set ?S"
  proof
    show "hint_key ` set ?D \<subseteq> hint_key ` set ?S" using set_last_of_runs [of out] set_out by auto
    show "hint_key ` set ?S \<subseteq> hint_key ` set ?D"
    proof
      fix k assume "k \<in> hint_key ` set ?S"
      then obtain x where "x \<in> set out" "k = hint_key x" using set_out by auto
      then show "k \<in> hint_key ` set ?D" using last_of_runs_newest [OF o(1), of x] by (metis imageI)
    qed
  qed
  have get: "\<exists>it. hint_get (it_Keyhash x) (it_Key x) ?idx = Inr (Some it) \<and> is_newest it (filter (\<lambda>y. hint_key y = hint_key x) ?S)"
    if x: "x \<in> set ?S" for x
  proof -
    obtain it where it: "it \<in> set ?D" "hint_key it = hint_key x" using last_of_runs_newest [OF o(1), of x] x set_out by auto
    then have "\<exists>it \<in> set ?D. hint_key it = (it_Keyhash x, it_Key x) \<or> it_Keyhash x < it_Keyhash it" by (auto simp: hint_key_def)
    with hint_get_written [OF D(1) ok len w]
    have "hint_get (it_Keyhash x) (it_Key x) ?idx = Inr (find (\<lambda>it. hint_key it = hint_key x) ?D)" unfolding hint_key_def by blast
    moreover have "find (\<lambda>it. hint_key it = hint_key x) ?D = Some it"
      using hint_find_mem [OF D(2) it(1)] it(2) by (simp add: hint_find_def)
    moreover have "is_newest it (filter (\<lambda>y. hint_key y = hint_key x) ?S)"
      using last_of_runs_is_newest [OF o(1) it(1)] it(2) set_out by (simp add: is_newest_def)
    ultimately show ?thesis by simp
  qed
  have "hf_numKey (w_meta (w_close w)) = int (length ?D)" using hint_file_written [OF ok len, of c ds] w by auto
  also have "length ?D = card (hint_key ` set ?D)" using distinct_card [OF D(2)] by simp
  finally show ?thesis using m get keys by (intro exI [of _ ?idx] exI [of _ ct']) simp
qed

text \<open>C24: a merge that is not interrupted succeeds and enters every key that shares its hash with another key of the sources in the
  collision table, with a position at least as large as any of the sources holds for it.  Only a merge that is not made for a garbage collection is interrupted, by the
  collection's bit of the hint state; the one a collection makes first (no merged file is written then) runs to its end with the bit set.
  The sources are hint files with fewer than \<open>4096 * 4096\<close> items together, and the merged file can be created where it is wanted.\<close>

theorem merge_finds_collisions:
  assumes "list_all2 (hint_source c') src itss" and "length (source_items src itss) < 4096 * 4096"
    and "not_aborted states forGC" and "create \<or> NoMerged c \<or> forGC" and "merge c states create forGC src ct = (out, ct')"
    and "x \<in> set (source_items src itss)" and "y \<in> set (source_items src itss)"
    and "it_Keyhash x = it_Keyhash y" and "it_Key x \<noteq> it_Key y"
  shows "\<exists>index it. out = MergeOk index \<and> ct_get (it_Keyhash x) (it_Key x) ct' = (Some it, True) \<and> CmpKey (it_Pos x) \<le> CmpKey (it_Pos it)"
proof -
  let ?S = "source_items src itss"
  from merge_result [OF assms(1-4), of ct] assms(5) obtain its index where
    o: "item_sorted its" "mset its = mset ?S" "out = MergeOk index" and
    m: "ct' = fold cas (filter (collides (last_of_runs its)) (last_of_runs its)) ct" by (auto simp: Let_def split: if_splits)
  let ?D = "last_of_runs its"
  have set_out: "set its = set ?S" using o(2) by (rule mset_eq_setD)
  obtain a where a: "a \<in> set ?D" "hint_key a = hint_key x" "CmpKey (it_Pos x) \<le> CmpKey (it_Pos a)"
    using last_of_runs_newest [OF o(1), of x] assms(6) set_out by auto
  obtain b where b: "b \<in> set ?D" "hint_key b = hint_key y"
    using last_of_runs_newest [OF o(1), of y] assms(7) set_out by auto
  have "a \<in> set (filter (collides ?D) ?D)" using a b assms(8,9) by (auto simp: collides_def hint_key_def)
  from cas_present [OF this, of ct] a(2,3) o(3) show ?thesis unfolding m by (auto simp: hint_key_def)
qed

text \<open>Three keys in chunk 1 and a newer item of the second, with another key of the same hash, in chunk 2.\<close>

definition second_items :: "HintItem list" where
  "second_items = [newHintItem 2 4 9 \<lparr>ChunkID = 0, Offset = 512\<rparr> [97], newHintItem 2 1 8 \<lparr>ChunkID = 0, Offset = 256\<rparr> [98]]"

lemma sample_sources:
  "\<exists>f g. list_all2 (hint_source sample_conf) [(Some f, 1), (Some g, 2)] [sample_items, second_items]"
proof -
  have 2: "hint_sorted second_items" "\<forall>it \<in> set second_items. hint_item_ok it" "length second_items < 4096 * 4096"
    by (simp_all add: second_items_def newHintItem_def hint_key_def hint_item_ok_def less_prod_def)
  have ne: "sample_items \<noteq> []" "second_items \<noteq> []" by (simp_all add: sample_items_def second_items_def)
  obtain w where w: "write_items sample_conf sample_items (newHintFileWriter 0) = Some w"
    using hint_file_written [OF sample_items_ok(2,3), of sample_conf 0] by blast
  obtain v where v: "write_items sample_conf second_items (newHintFileWriter 0) = Some v"
    using hint_file_written [OF 2(2,3), of sample_conf 0] by blast
  have "hint_source sample_conf (Some (w_file (w_close w)), 1) sample_items"
    unfolding hint_source_def using w ne sample_items_ok by auto
  moreover have "hint_source sample_conf (Some (w_file (w_close v)), 2) second_items"
    unfolding hint_source_def using v ne 2 by auto
  ultimately show ?thesis by (intro exI [of _ "w_file (w_close w)"] exI [of _ "w_file (w_close v)"]) simp
qed

lemma sample_source_items:
  "source_items [(f, 1), (g, 2)] [sample_items, second_items] = map (set_chunk 1) sample_items @ map (set_chunk 2) second_items"
  by (simp add: source_items_def)

theorem merge_keeps_newest_witness:
  "\<exists>f g idx ct it. merge sample_conf (\<lambda>_. 0) True False [(Some f, 1), (Some g, 2)] newCollisionTable = (MergeOk (Some idx), ct) \<and>
     hf_numKey (hi_meta idx) = 4 \<and> hint_get 2 [97] idx = Inr (Some it) \<and> it_Ver it = 4 \<and> it_Pos it = \<lparr>ChunkID = 2, Offset = 512\<rparr>"
proof -
  obtain f g where s: "list_all2 (hint_source sample_conf) [(Some f, 1), (Some g, 2)] [sample_items, second_items]"
    using sample_sources by blast
  let ?S = "source_items [(Some f, 1), (Some g, 2)] [sample_items, second_items]"
  let ?x = "set_chunk 1 (sample_item 2)"
  note d = sample_items_def second_items_def sample_item_def newHintItem_def hint_key_def set_chunk_def
  have l: "length ?S < 4096 * 4096" unfolding sample_source_items by (simp add: d)
  have st: "\<forall>i::nat. (0::u64) AND HintStateGC = 0" by simp
  have nm: "\<not> NoMerged sample_conf" by (simp add: sample_conf_def)
  from merge_keeps_newest [OF s l st nm, of newCollisionTable] obtain idx ct where
    m: "merge sample_conf (\<lambda>_. 0) True False [(Some f, 1), (Some g, 2)] newCollisionTable = (MergeOk (Some idx), ct)" and
    get: "\<forall>x \<in> set ?S. \<exists>it. hint_get (it_Keyhash x) (it_Key x) idx = Inr (Some it) \<and> is_newest it (filter (\<lambda>y. hint_key y = hint_key x) ?S)" and
    n: "hf_numKey (hi_meta idx) = int (card (hint_key ` set ?S))" by (elim exE conjE) (rule that)
  have "?x \<in> set ?S" unfolding sample_source_items by (simp add: d)
  with get obtain it where it: "hint_get (it_Keyhash ?x) (it_Key ?x) idx = Inr (Some it)" "is_newest it (filter (\<lambda>y. hint_key y = hint_key ?x) ?S)"
    by blast
  have "hint_get 2 [97] idx = Inr (Some it)" using it(1) by (simp add: sample_item_def newHintItem_def)
  moreover have "it = newHintItem 2 4 9 \<lparr>ChunkID = 2, Offset = 512\<rparr> [97]"
    using it(2) unfolding sample_source_items by (auto simp: d is_newest_def CmpKey_def)
  moreover have "hint_key ` set ?S = {(1, [97]), (3, [97]), (2, [97]), (2, [98])}"
    unfolding sample_source_items by (auto simp: d)
  then have "hf_numKey (hi_meta idx) = 4" using n by simp
  ultimately show ?thesis using m by (intro exI conjI) (auto simp: newHintItem_def)
qed

theorem merge_finds_collisions_witness:
  "\<exists>f g index ct it. merge sample_conf (\<lambda>_. HintStateGC) False True [(Some f, 1), (Some g, 2)] newCollisionTable = (MergeOk index, ct) \<and>
     ct_get 2 [98] ct = (Some it, True)"
proof -
  obtain f g where s: "list_all2 (hint_source sample_conf) [(Some f, 1), (Some g, 2)] [sample_items, second_items]"
    using sample_sources by blast
  let ?S = "source_items [(Some f, 1), (Some g, 2)] [sample_items, second_items]"
  let ?x = "newHintItem 2 1 8 \<lparr>ChunkID = 2, Offset = 256\<rparr> [98]" and ?y = "newHintItem 2 4 9 \<lparr>ChunkID = 2, Offset = 512\<rparr> [97]"
  note d = sample_items_def second_items_def sample_item_def newHintItem_def hint_key_def set_chunk_def
  have l: "length ?S < 4096 * 4096" unfolding sample_source_items by (simp add: d)
  have st: "not_aborted (\<lambda>_. HintStateGC) True" "False \<or> NoMerged sample_conf \<or> True" by (simp_all add: not_aborted_def)
  obtain out ct where m: "merge sample_conf (\<lambda>_. HintStateGC) False True [(Some f, 1), (Some g, 2)] newCollisionTable = (out, ct)" by fastforce
  have xy: "?x \<in> set ?S" "?y \<in> set ?S" "it_Keyhash ?x = it_Keyhash ?y" "it_Key ?x \<noteq> it_Key ?y" unfolding sample_source_items by (simp_all add: d)
  from merge_finds_collisions [OF s l st m xy] obtain index it where "out = MergeOk index" "ct_get 2 [98] ct = (Some it, True)" by (auto simp: newHintItem_def)
  then show ?thesis using m by blast
qed

end
