(* ===== verification/Bucket.thy ===== *)
theory Bucket
  imports HTree DataRun HintMerge
begin

text \<open>
  A bucket (\<open>store/bucket.go\<close>): the htree that finds a record, the data store that holds it and the hints from which
  the tree is rebuilt.  The operations are those of the code with its components passed along: \<open>get\<close> with the collision path, \<open>checkAndSet\<close>
  with the version rules, \<open>incr\<close>, and the opening of a bucket from its files.  The current time, the bytes of a fresh leaf, and
  whether the channel to the dumper exists are arguments; files are maps from (chunk, split) numbers to bytes, the
  YAML file of the collision table is read by a library.  The lemmas state the arithmetic of versions and that a bucket is a versioned map:
  what \<open>checkAndSet\<close> stores \<open>get\<close> returns, through compression, rotation and the index.
\<close>

unbundle bit_operations_syntax

section \<open>Definitions\<close>

record Bucket =
  bk_ID :: int
  bk_TreeID :: HintID
  bk_NextGCChunk :: int
  bk_NumSameVhash :: int
  bk_SizeSameVhash :: int
  bk_SizeVhashKey :: bytes
  bk_htree :: HTree
  bk_hints :: hintMgr
  bk_datas :: dataStore
  bk_treeFiles :: "(int \<times> int, bytes) mapping"
  bk_nextgc :: "string option"

text \<open>The files in the directory of a bucket: data, hints, trees, the collision table as the YAML library reads it, and \<open>nextgc.txt\<close>.\<close>

record BucketHome =
  bh_data :: "int \<Rightarrow> bytes option"
  bh_hints :: "(int \<times> int, bytes) mapping"
  bh_trees :: "(int \<times> int, bytes) mapping"
  bh_collisions :: CollisionTable
  bh_nextgc :: "string option"

definition empty_home :: BucketHome where
  "empty_home = \<lparr>bh_data = (\<lambda>_. None), bh_hints = Mapping.empty, bh_trees = Mapping.empty, bh_collisions = newCollisionTable,
     bh_nextgc = None\<rparr>"

text \<open>What an operation is told from outside: the time in seconds, a fresh leaf and the dumper's channel.\<close>

record OpEnv =
  op_now :: int
  op_fresh :: bytes
  op_mergeChan :: bool

definition abs32 :: "i32 \<Rightarrow> i32" where
  "abs32 n = (if n <s 0 then - n else n)"

definition checkAndUpdateVerison :: "i32 \<Rightarrow> i32 \<Rightarrow> i32 \<times> bool" where
  "checkAndUpdateVerison oldv ver =
     (if ver = 0 then (if 0 \<le>s oldv then oldv + 1 else - oldv + 1, True)
      else if ver <s 0 then (- abs32 oldv - 1, True)
      else if abs32 ver \<le>s abs32 oldv then (1, False)
      else (ver, True))"

text \<open>\<open>get\<close>: payload, position and error.  The metadata come from the collision table or the tree.\<close>

definition lookup_pos :: "Env \<Rightarrow> KeyInfo \<Rightarrow> Bucket \<Rightarrow> (Meta option \<times> Position) option" where
  "lookup_pos e ki b =
     (case fst (ct_get (KeyHash ki) (StringKey ki) (hm_collisions (bk_hints b))) of
        Some it \<Rightarrow> Some (Some \<lparr>TS = 0, Flag = 0, Ver = it_Ver it, ValueHash = it_Vhash it, RecSize = 0\<rparr>, it_Pos it)
      | None \<Rightarrow> do {
          (meta, pos, found) \<leftarrow> htree_get (conf e) (bk_htree b) ki;
          Some (if found then Some meta else None, pos)
        })"

definition meta_payload :: "Meta \<Rightarrow> Payload" where
  "meta_payload m = zero_payload\<lparr>TS := TS m, Flag := Flag m, Ver := Ver m, ValueHash := ValueHash m, RecSize := RecSize m\<rparr>"

type_synonym get_res = "Payload option \<times> Position \<times> StoreErr option"

text \<open>The record found has another key with the same hash: the item is searched in the hints, and both go
  into the collision table.\<close>

definition get_collided :: "Env \<Rightarrow> KeyInfo \<Rightarrow> Record \<Rightarrow> Position \<Rightarrow> Bucket \<Rightarrow> BeansdbRL \<Rightarrow> (get_res \<times> Bucket \<times> BeansdbRL) option" where
  "get_collided e ki rec pos b d = do {
     r \<leftarrow> hm_getItem (KeyHash ki) (StringKey ki) False (bk_hints b);
     case r of
       Inl err \<Rightarrow> Some ((None, pos, Some err), b, d)
     | Inr (None, _) \<Rightarrow> Some ((None, pos, None), b, d)
     | Inr (Some hintit, chunkID) \<Rightarrow> do {
         let vhash = (if 0 <s Ver (rPayload rec) then Getvhash (pBody (rPayload rec)) else 0);
         let hintit2 = newHintItem (KeyHash ki) (Ver (rPayload rec)) vhash pos (rKey rec);
         let pos2 = \<lparr>ChunkID = chunkID, Offset = Offset (it_Pos hintit)\<rparr>;
         let ct = compareAndSet (hintit\<lparr>it_Pos := pos2\<rparr>) ''get2'' (compareAndSet hintit2 ''get1'' (hm_collisions (bk_hints b)));
         let b1 = b\<lparr>bk_hints := (bk_hints b)\<lparr>hm_collisions := ct\<rparr>\<rparr>;
         ((r2, _), d2) \<leftarrow> GetRecordByPos e pos2 (bk_datas b) d;
         Some (case r2 of
             Inl err \<Rightarrow> ((None, pos2, Some err), b1, d2)
           | Inr rec2 \<Rightarrow> ((Some (rPayload rec2), pos2, None), b1, d2))
       }
   }"

definition bkt_get :: "Env \<Rightarrow> KeyInfo \<Rightarrow> bool \<Rightarrow> Bucket \<Rightarrow> BeansdbRL \<Rightarrow> (get_res \<times> Bucket \<times> BeansdbRL) option" where
  "bkt_get e ki memOnly b d = do {
     (m, pos) \<leftarrow> lookup_pos e ki b;
     case m of
       None \<Rightarrow> Some ((None, pos, None), b, d)
     | Some meta \<Rightarrow>
         if memOnly then Some ((Some (meta_payload meta), pos, None), b, d)
         else do {
           ((r, inbuffer), d1) \<leftarrow> GetRecordByPos e pos (bk_datas b) d;
           case r of
             Inl err \<Rightarrow> Some ((None, pos, Some err), b, d1)
           | Inr rec \<Rightarrow>
               if rKey rec = Key ki then Some ((Some ((rPayload rec)\<lparr>Ver := Ver meta\<rparr>), pos, None), b, d1)
               else do {
                 (res, b1, d2) \<leftarrow>
                   (if getKeyHash e (rKey rec) \<noteq> KeyHash ki then
                      Some ((None, pos, if inbuffer \<and> ChunkID pos < ds_newHead (bk_datas b) - 1 then None else Some BadHtreeItem), b, d1)
                    else get_collided e ki rec pos b d1);
                 let a = carr (rPayload rec);
                 Some (res, b1, snd (Free a (d2\<lparr>GetData := SubSizeAndCount (Cap a) (GetData d2)\<rparr>)))
               }
         }
   }"

text \<open>\<open>set\<close>: append, then the tree, then the hints.  \<open>AppendRecord\<close> leaves the payload compressed and with its size.\<close>

definition bkt_set :: "Env \<Rightarrow> OpEnv \<Rightarrow> KeyInfo \<Rightarrow> Payload \<Rightarrow> Bucket \<Rightarrow> BeansdbRL \<Rightarrow> (Bucket \<times> BeansdbRL) option" where
  "bkt_set e oe ki v b d = do {
     let rec = \<lparr>rKey = Key ki, rPayload = v\<rparr>;
     (rec1, _) \<leftarrow> TryCompress e rec d;
     (pos, _, _, ds, d1) \<leftarrow> ds_AppendRecord e rec (bk_datas b) d;
     let v1 = rPayload (wr_rec (wrapRecord rec1));
     t \<leftarrow> htree_set (conf e) (op_fresh oe) (bk_htree b) ki v1 pos;
     (_, h) \<leftarrow> hm_set (conf e) (op_now oe) (op_mergeChan oe) ki (Meta.truncate v1) pos (RecSize v1) ''set'' (bk_hints b);
     Some (b\<lparr>bk_datas := ds, bk_htree := t, bk_hints := h\<rparr>, d1)
   }"

text \<open>\<open>checkAndSet\<close>.  The deferred function frees a value that is not stored, by the version the payload has by then.\<close>

definition drop_payload :: "Payload \<Rightarrow> BeansdbRL \<Rightarrow> BeansdbRL" where
  "drop_payload v d =
     (if 0 \<le>s Ver v then snd (Free (carr v) (d\<lparr>SetData := SubSizeAndCount (Cap (carr v)) (SetData d)\<rparr>)) else d)"

definition prepare_value :: "Env \<Rightarrow> KeyInfo \<Rightarrow> Payload \<Rightarrow> BeansdbRL \<Rightarrow> (Payload \<times> BeansdbRL) option" where
  "prepare_value e ki v d =
     (if 0 \<le>s Ver v then do {
        let v1 = CalcValueHash v;
        (rec, d1) \<leftarrow> TryCompress e \<lparr>rKey = Key ki, rPayload = v1\<rparr> d;
        Some (rPayload rec, d1\<lparr>SetData := AddSize (Cap (carr (rPayload rec)) - Cap (carr v1)) (SetData d1)\<rparr>)
      }
      else Some (v, d))"

definition checkAndSet ::
    "Env \<Rightarrow> OpEnv \<Rightarrow> KeyInfo \<Rightarrow> Payload \<Rightarrow> Bucket \<Rightarrow> BeansdbRL \<Rightarrow> (StoreErr option \<times> Bucket \<times> BeansdbRL) option" where
  "checkAndSet e oe ki v0 b d = do {
     (v, d1) \<leftarrow> prepare_value e ki v0 d;
     ((payload, pos, err), b1, d2) \<leftarrow> bkt_get e ki True b d1;
     if err \<noteq> None then Some (err, b1, drop_payload v d2)
     else
       let oldv = (case payload of Some p \<Rightarrow> Ver p | None \<Rightarrow> 0);
           same = (case payload of Some p \<Rightarrow> 0 <s oldv \<and> ValueHash v = ValueHash p | None \<Rightarrow> False) in
       if same \<and> CheckVHash (conf e) then do {
         b2 \<leftarrow> (if Ver v \<noteq> 0 then do {
                 t \<leftarrow> htree_set (conf e) (op_fresh oe) (bk_htree b1) ki v pos;
                 Some (b1\<lparr>bk_htree := t\<rparr>)
               } else Some b1);
         Some (None, b2, drop_payload v d2)
       }
       else
         let b2 = (if same then b1\<lparr>bk_NumSameVhash := bk_NumSameVhash b1 + 1,
                     bk_SizeSameVhash := bk_SizeSameVhash b1 + int (length (pBody v)), bk_SizeVhashKey := StringKey ki\<rparr> else b1);
             (ver, valid) = checkAndUpdateVerison oldv (Ver v);
             v1 = v\<lparr>Ver := ver\<rparr> in
         if \<not> valid then Some (None, b2, drop_payload v1 d2)
         else if ver <s 0 \<and> (payload = None \<or> oldv <s 0) then Some (Some NotFoundErr, b2, drop_payload v1 d2)
         else do { (b3, d3) \<leftarrow> bkt_set e oe ki v1 b2 d2; Some (None, b3, d3) }
   }"

text \<open>\<open>incr\<close>; the new value is an \<open>int\<close>, so the sum wraps around.  The write lock is not taken.\<close>

definition add_int :: "int \<Rightarrow> int \<Rightarrow> int" where
  "add_int x y = sint (word_of_int (x + y) :: u64)"

definition incr_value :: "u32 \<Rightarrow> int \<Rightarrow> i32 \<Rightarrow> Payload" where
  "incr_value ts v ver = CalcValueHash (zero_payload\<lparr>Flag := FLAG_INCR, Ver := ver, TS := ts,
     carr := nil_array\<lparr>Body := bytes_of_string (Itoa v)\<rparr>\<rparr>)"

definition incr_fail :: "Payload option \<Rightarrow> BeansdbRL \<Rightarrow> BeansdbRL" where
  "incr_fail tofree d =
     (let d1 = (case tofree of
          Some p \<Rightarrow> snd (Free (carr p) (d\<lparr>GetData := SubSizeAndCount (Cap (carr p)) (GetData d)\<rparr>)) | None \<Rightarrow> d)
      in d1\<lparr>SetData := SubCount 1 (SetData d1)\<rparr>)"

definition bkt_incr :: "Env \<Rightarrow> OpEnv \<Rightarrow> KeyInfo \<Rightarrow> int \<Rightarrow> Bucket \<Rightarrow> BeansdbRL \<Rightarrow> (int \<times> Bucket \<times> BeansdbRL) option" where
  "bkt_incr e oe ki v0 b d = do {
     ((tofree, _, err), b1, d1) \<leftarrow> bkt_get e ki False b d;
     let store = (\<lambda>ver v. do {
         (b2, d2) \<leftarrow> bkt_set e oe ki (incr_value (word_of_int (op_now oe)) v ver) b1 d1; Some (v, b2, d2) });
     case tofree of
       Some p \<Rightarrow>
         if 0 <s Ver p then
           (if length (pBody p) > 22 then Some (0, b1, d1)
            else case Atoi (map (\<lambda>x. char_of (unat x)) (pBody p)) of
              (n, e2) \<Rightarrow>
                if err \<noteq> None \<or> Flag p \<noteq> FLAG_INCR \<or> e2 \<noteq> None then Some (0, b1, incr_fail tofree d1)
                else store (1 + Ver p) (add_int v0 n))
         else if err \<noteq> None then Some (0, b1, incr_fail tofree d1) else store 1 v0
     | None \<Rightarrow> if err \<noteq> None then Some (0, b1, incr_fail None d1) else store 1 v0
   }"

definition GetRecordByKeyHash :: "Env \<Rightarrow> KeyInfo \<Rightarrow> Bucket \<Rightarrow> BeansdbRL \<Rightarrow> ((StoreErr + Record option) \<times> BeansdbRL) option" where
  "GetRecordByKeyHash e ki b d = do {
     (_, pos, found) \<leftarrow> htree_get (conf e) (bk_htree b) ki;
     if \<not> found then Some (Inr None, d)
     else do {
       ((r, _), d1) \<leftarrow> GetRecordByPos e pos (bk_datas b) d;
       Some (case r of Inl err \<Rightarrow> Inl err | Inr rec \<Rightarrow> Inr (Some rec), d1)
     }
   }"

definition bkt_listDir :: "Env \<Rightarrow> KeyInfo \<Rightarrow> Bucket \<Rightarrow> (string option \<times> Bucket) option" where
  "bkt_listDir e ki b = do { (s, t) \<leftarrow> ListDir (conf e) (bk_htree b) ki; Some (s, b\<lparr>bk_htree := t\<rparr>) }"

subsection \<open>Opening and closing\<close>

text \<open>The loop of \<open>buildHintFromData\<close>: a record read is at least 256 bytes long, so the size of the file bounds the turns.\<close>

fun build_loop :: "nat \<Rightarrow> Env \<Rightarrow> OpEnv \<Rightarrow> int \<Rightarrow> DataStreamReader \<Rightarrow> hintMgr \<Rightarrow> BeansdbRL \<Rightarrow> (StoreErr option \<times> hintMgr \<times> BeansdbRL) option" where
  "build_loop 0 e oe chunkID s h d = None"
| "build_loop (Suc fuel) e oe chunkID s h d = do {
     ((rec, offset, _, err), s1, d1) \<leftarrow> Next e s d;
     case err of
       Some e2 \<Rightarrow> Some (Some e2, h, d1)
     | None \<Rightarrow>
         (case rec of
            None \<Rightarrow> Some (None, h, d1)
          | Some r \<Rightarrow> do {
              let khash = getKeyHash e (rKey r);
              let ((p, _), d2) = Decompress e (rPayload r) d1;
              let vhash = Getvhash (pBody p);
              let d3 = snd (Free (carr p) d2);
              let item = newHintItem khash (Ver p) vhash \<lparr>ChunkID = 0, Offset = offset\<rparr> (rKey r);
              (_, h1) \<leftarrow> hm_setItem (conf e) (op_now oe) (op_mergeChan oe) item chunkID (RecSize p) h;
              build_loop fuel e oe chunkID s1 h1 d3
            })
   }"

definition buildHintFromData :: "Env \<Rightarrow> OpEnv \<Rightarrow> int \<Rightarrow> u32 \<Rightarrow> Bucket \<Rightarrow> BeansdbRL \<Rightarrow> (StoreErr option \<times> Bucket \<times> BeansdbRL) option" where
  "buildHintFromData e oe chunkID start b d =
     (case dc_file (ds_chunks (bk_datas b) chunkID) of
        None \<Rightarrow> Some (Some OpenErr, b, d)
      | Some f \<Rightarrow> do {
          (err, h, d1) \<leftarrow> build_loop (length f + 2) e oe chunkID (sr_seek start (newDataStreamReader f)) (bk_hints b) d;
          if err \<noteq> None then Some (err, b\<lparr>bk_hints := h\<rparr>, d1)
          else do {
            (_, h1) \<leftarrow> trydump (conf e) (op_now oe) chunkID True h;
            Some (None, b\<lparr>bk_hints := h1\<rparr>, d1)
          }
        })"

text \<open>\<open>updateHtreeFromHint\<close>: items with a positive version are set, the others removed.\<close>

definition replay_item :: "Env \<Rightarrow> bytes \<Rightarrow> int \<Rightarrow> HintItem \<Rightarrow> HTree \<Rightarrow> HTree option" where
  "replay_item e fresh chunkID item t = do {
     ki \<leftarrow> NewKeyInfoFromBytes (conf e) (it_Key item) (it_Keyhash item) False;
     if 0 <s it_Ver item
     then htree_set (conf e) fresh t ki
            \<lparr>TS = 0, Flag = 0, Ver = it_Ver item, ValueHash = it_Vhash item, RecSize = 0\<rparr> \<lparr>ChunkID = chunkID, Offset = Offset (it_Pos item)\<rparr>
     else htree_remove (conf e) t ki \<lparr>ChunkID = - 1, Offset = Offset (it_Pos item)\<rparr>
   }"

function replay_loop :: "Env \<Rightarrow> bytes \<Rightarrow> int \<Rightarrow> hintFileReader \<Rightarrow> HTree \<Rightarrow> (StoreErr option \<times> HTree) option" where
  "replay_loop e fresh chunkID r t =
     (case hint_next r of
        (Inl err, _) \<Rightarrow> Some (Some err, t)
      | (Inr None, _) \<Rightarrow> Some (None, t)
      | (Inr (Some item), r') \<Rightarrow>
          (case replay_item e fresh chunkID item t of
             None \<Rightarrow> None
           | Some t1 \<Rightarrow> replay_loop e fresh chunkID r' t1))"
  by pat_completeness auto
termination
  by (relation "measure (\<lambda>(e, fresh, chunkID, r, t). length (r_file r) - r_pos r)")
    (auto dest!: sym [of _ "hint_next _"] hint_next_advances)

declare replay_loop.simps [simp del]

text \<open>The error of \<open>open\<close> is not looked at: a reader that could not be opened is at its end.\<close>

definition updateHtreeFromHint :: "Env \<Rightarrow> OpEnv \<Rightarrow> int \<Rightarrow> bytes option \<Rightarrow> Bucket \<Rightarrow> (u32 \<times> StoreErr option \<times> Bucket) option" where
  "updateHtreeFromHint e oe chunkID file b =
     (case hint_open file chunkID of
        Inl _ \<Rightarrow> Some (0, None, b)
      | Inr r \<Rightarrow> do {
          (err, t) \<leftarrow> replay_loop e (op_fresh oe) chunkID r (bk_htree b);
          Some (hf_datasize (r_meta r), err, b\<lparr>bk_htree := t\<rparr>)
        })"

definition checkHintWithData :: "Env \<Rightarrow> OpEnv \<Rightarrow> int \<Rightarrow> Bucket \<Rightarrow> BeansdbRL \<Rightarrow> (StoreErr option \<times> Bucket \<times> BeansdbRL) option" where
  "checkHintWithData e oe chunkID b d =
     (let sz = dc_size (ds_chunks (bk_datas b) chunkID) in
      if sz = 0 then Some (None, b\<lparr>bk_hints := RemoveHintfilesByChunk chunkID (bk_hints b)\<rparr>, d)
      else do {
        (hintDataSize, h) \<leftarrow> loadHintsByChunk chunkID (bk_hints b);
        let b1 = b\<lparr>bk_hints := h\<rparr>;
        if hintDataSize < sz then buildHintFromData e oe chunkID hintDataSize b1 d else Some (None, b1, d)
      })"

definition removeHtree :: "Bucket \<Rightarrow> Bucket" where
  "removeHtree b = b\<lparr>bk_treeFiles := Mapping.empty, bk_TreeID := \<lparr>hid_Chunk = 0, hid_Split = 0\<rparr>\<rparr>"

definition dumpHtree :: "Env \<Rightarrow> Bucket \<Rightarrow> Bucket option" where
  "dumpHtree e b =
     (let hid = hm_maxDumpedHintID (bk_hints b) in
      if isLarger (bk_TreeID b) (hid_Chunk hid) (hid_Split hid) then do {
        let b1 = (removeHtree b)\<lparr>bk_TreeID := hid\<rparr>;
        (bs, t) \<leftarrow> htree_dump (conf e) (bk_htree b1);
        Some (b1\<lparr>bk_htree := t, bk_treeFiles := Mapping.update (hid_Chunk hid, hid_Split hid) bs (bk_treeFiles b1)\<rparr>)
      }
      else Some b)"

definition checkForDump :: "int \<Rightarrow> Bucket \<Rightarrow> bool \<times> Bucket" where
  "checkForDump dumpthreshold b =
     (case ListFiles (bk_datas b) of
        None \<Rightarrow> (False, b)
      | Some (maxdata, ds) \<Rightarrow>
          (\<not> maxdata < 0 \<and> (\<forall>p \<in> Mapping.keys (bk_treeFiles b). maxdata \<le> fst p + dumpthreshold) \<and> Mapping.is_empty (bk_treeFiles b),
           b\<lparr>bk_datas := ds\<rparr>))"

text \<open>The loop of \<open>open\<close> over the dumped trees, the newest first: a tree beyond the data or older than the one loaded is removed.\<close>

fun load_trees :: "Env \<Rightarrow> int \<Rightarrow> (int \<times> int) list \<Rightarrow> Bucket \<Rightarrow> Bucket option" where
  "load_trees e maxdata [] b = Some b"
| "load_trees e maxdata (p # ps) b =
     (if fst p > maxdata \<or> \<not> isLarger (bk_TreeID b) (fst p) (snd p)
      then load_trees e maxdata ps (b\<lparr>bk_treeFiles := Mapping.delete p (bk_treeFiles b)\<rparr>)
      else do {
        bs \<leftarrow> Mapping.lookup (bk_treeFiles b) p;
        (t, ok) \<leftarrow> htree_load (conf e) (bk_htree b) bs;
        if ok then load_trees e maxdata ps (b\<lparr>bk_htree := t, bk_TreeID := \<lparr>hid_Chunk = fst p, hid_Split = snd p\<rparr>\<rparr>)
        else do {
          t0 \<leftarrow> newHTree (TreeDepth (conf e)) (bk_ID b) (TreeHeight (conf e));
          load_trees e maxdata ps (b\<lparr>bk_htree := t0, bk_TreeID := \<lparr>hid_Chunk = 0, hid_Split = - 1\<rparr>\<rparr>)
        }
      })"

text \<open>The loop over the splits of a chunk with a file, and the loop over the chunks; an error in the data stops the process.\<close>

fun replay_splits :: "Env \<Rightarrow> OpEnv \<Rightarrow> int \<Rightarrow> int \<Rightarrow> hintSplit list \<Rightarrow> Bucket \<Rightarrow> (StoreErr option \<times> Bucket) option" where
  "replay_splits e oe i k [] b = Some (None, b)"
| "replay_splits e oe i k (sp # sps) b = do {
     f \<leftarrow> sp_file sp;
     (_, err, b1) \<leftarrow> updateHtreeFromHint e oe i (hi_file f) b;
     if err \<noteq> None then Some (err, b1)
     else replay_splits e oe i (k + 1) sps
            (b1\<lparr>bk_hints := (bk_hints b1)\<lparr>hm_maxDumpedHintID := \<lparr>hid_Chunk = i, hid_Split = k\<rparr>\<rparr>\<rparr>)
   }"

fun open_chunks :: "Env \<Rightarrow> OpEnv \<Rightarrow> nat \<Rightarrow> int \<Rightarrow> Bucket \<Rightarrow> BeansdbRL \<Rightarrow> (StoreErr option \<times> Bucket \<times> BeansdbRL) option" where
  "open_chunks e oe 0 i b d = Some (None, b, d)"
| "open_chunks e oe (Suc n) i b d = do {
     let startsp = (if i = hid_Chunk (bk_TreeID b) then hid_Split (bk_TreeID b) + 1 else 0);
     (err, b1, d1) \<leftarrow> checkHintWithData e oe i b d;
     if err \<noteq> None then None
     else do {
       let splits = hc_splits (hm_chunks (bk_hints b1) i);
       let numhintfile = length splits - 1;
       if startsp \<ge> int numhintfile then open_chunks e oe n (i + 1) b1 d1
       else do {
         (err2, b2) \<leftarrow> replay_splits e oe i startsp (take numhintfile splits) b1;
         if err2 \<noteq> None then Some (err2, b2, d1) else open_chunks e oe n (i + 1) b2 d1
       }
     }
   }"

text \<open>The history of collections is one number in ASCII; at most ten bytes of it are read.\<close>

definition isSpace :: "char \<Rightarrow> bool" where
  "isSpace ch \<longleftrightarrow> ch \<in> {CHR '' '', CHR 0x09, CHR 0x0A, CHR 0x0B, CHR 0x0C, CHR 0x0D}"

definition TrimSpace :: "string \<Rightarrow> string" where
  "TrimSpace s = rev (dropWhile isSpace (rev (dropWhile isSpace s)))"

definition loadGCHistroy :: "Bucket \<Rightarrow> Bucket" where
  "loadGCHistroy b =
     (case bk_nextgc b of
        None \<Rightarrow> b
      | Some s \<Rightarrow> (case Atoi (TrimSpace (take 10 s)) of (n, None) \<Rightarrow> b\<lparr>bk_NextGCChunk := n\<rparr> | (_, Some _) \<Rightarrow> b))"

definition dumpGCHistroy :: "Bucket \<Rightarrow> Bucket" where
  "dumpGCHistroy b = b\<lparr>bk_nextgc := Some (Itoa (bk_NextGCChunk b))\<rparr>"

text \<open>\<open>open\<close>; the first loop of the goroutine it leaves behind, which checks the chunks below the tree, is \<open>open_rest\<close>.\<close>

definition bkt_open ::
    "Env \<Rightarrow> OpEnv \<Rightarrow> int \<Rightarrow> int \<Rightarrow> BucketHome \<Rightarrow> BeansdbRL
     \<Rightarrow> (StoreErr option \<times> Bucket option \<times> BeansdbRL) option" where
  "bkt_open e oe dumpthreshold bucketID home d = do {
     t0 \<leftarrow> newHTree (TreeDepth (conf e)) bucketID (TreeHeight (conf e));
     case ListFiles (NewdataStore (bh_data home)) of
       None \<Rightarrow> Some (Some OpenErr, None, d)
     | Some (maxdata, ds) \<Rightarrow> do {
         let b0 = \<lparr>bk_ID = bucketID, bk_TreeID = \<lparr>hid_Chunk = 0, hid_Split = - 1\<rparr>, bk_NextGCChunk = 0, bk_NumSameVhash = 0,
             bk_SizeSameVhash = 0, bk_SizeVhashKey = [], bk_htree = t0, bk_hints = (newHintMgr (bh_hints home))\<lparr>hm_collisions := bh_collisions home\<rparr>,
             bk_datas = ds, bk_treeFiles = bh_trees home, bk_nextgc = bh_nextgc home\<rparr>;
         b1 \<leftarrow> load_trees e maxdata (rev (Mapping.ordered_keys (bh_trees home))) b0;
         let b2 = b1\<lparr>bk_hints := (bk_hints b1)\<lparr>hm_maxDumpedHintID := bk_TreeID b1\<rparr>\<rparr>;
         (err, b3, d1) \<leftarrow> open_chunks e oe (nat (MAX_NUM_CHUNK - hid_Chunk (bk_TreeID b2))) (hid_Chunk (bk_TreeID b2)) b2 d;
         if err \<noteq> None then Some (err, Some b3, d1)
         else do {
           let (dump, b3a) = checkForDump dumpthreshold b3;
           b4 \<leftarrow> (if dump then dumpHtree e b3a else Some b3a);
           Some (None, Some (loadGCHistroy b4), d1)
         }
       }
   }"

fun open_rest :: "Env \<Rightarrow> OpEnv \<Rightarrow> nat \<Rightarrow> int \<Rightarrow> Bucket \<Rightarrow> BeansdbRL \<Rightarrow> (Bucket \<times> BeansdbRL) option" where
  "open_rest e oe 0 i b d = Some (b, d)"
| "open_rest e oe (Suc n) i b d = do {
     (_, b1, d1) \<leftarrow> checkHintWithData e oe i b d;
     open_rest e oe n (i + 1) b1 d1
   }"

definition bkt_close :: "Env \<Rightarrow> OpEnv \<Rightarrow> Bucket \<Rightarrow> BeansdbRL \<Rightarrow> (Bucket \<times> BeansdbRL) option" where
  "bkt_close e oe b d = do {
     (ds, d1) \<leftarrow> ds_flush (- 1) True False (bk_datas b) d;
     let b1 = b\<lparr>bk_datas := ds\<rparr>;
     if \<forall>i \<in> {0..<MAX_NUM_CHUNK}. dc_file (ds_chunks ds i) = None then Some (b1, d1)
     else do {
       h \<leftarrow> hm_close (conf e) (op_now oe) (bk_hints b1);
       b2 \<leftarrow> dumpHtree e (b1\<lparr>bk_hints := h\<rparr>);
       Some (b2, d1)
     }
   }"

text \<open>The files a closed bucket leaves; the collision table is written when there are data files.\<close>

definition bkt_files :: "Bucket \<Rightarrow> BucketHome" where
  "bkt_files b = \<lparr>bh_data = (\<lambda>i. dc_file (ds_chunks (bk_datas b) i)), bh_hints = hm_files (bk_hints b), bh_trees = bk_treeFiles b,
     bh_collisions = hm_collisions (bk_hints b), bh_nextgc = bk_nextgc b\<rparr>"

section \<open>Versions\<close>

lemma sint_small: "- (2 ^ 31) \<le> n \<Longrightarrow> n < 2 ^ 31 \<Longrightarrow> sint (word_of_int n :: i32) = n"
  by (simp add: signed_of_int signed_take_bit_int_eq_self)

lemma sint_abs32:
  assumes "- (2 ^ 31) < sint v"
  shows "sint (abs32 v) = \<bar>sint v\<bar>"
proof (cases "sint v < 0")
  case True
  have "- v = word_of_int (- sint v)" by simp
  then show ?thesis using True assms sint_small [of "- sint v"] sint_range_size [of v]
    by (simp add: abs32_def word_sless_alt word_size)
qed (simp add: abs32_def word_sless_alt)

lemma version_auto:
  assumes "\<bar>sint oldv\<bar> < 2 ^ 31 - 1"
  shows "\<exists>r. checkAndUpdateVerison oldv 0 = (r, True) \<and> sint r = \<bar>sint oldv\<bar> + 1"
proof -
  have a: "sint (abs32 oldv) = \<bar>sint oldv\<bar>" using assms by (intro sint_abs32) linarith
  have w: "abs32 oldv = word_of_int \<bar>sint oldv\<bar>" by (simp flip: a)
  have "sint (abs32 oldv + 1) = \<bar>sint oldv\<bar> + 1" using assms sint_small [of "\<bar>sint oldv\<bar> + 1"] by (simp add: w)
  moreover have "checkAndUpdateVerison oldv 0 = (abs32 oldv + 1, True)"
    by (auto simp: checkAndUpdateVerison_def abs32_def word_sless_alt word_sle_eq)
  ultimately show ?thesis by simp
qed

lemma version_delete:
  assumes "\<bar>sint oldv\<bar> < 2 ^ 31 - 1" "sint ver < 0"
  shows "\<exists>r. checkAndUpdateVerison oldv ver = (r, True) \<and> sint r = - \<bar>sint oldv\<bar> - 1"
proof -
  have a: "sint (abs32 oldv) = \<bar>sint oldv\<bar>" using assms by (intro sint_abs32) linarith
  have w: "abs32 oldv = word_of_int \<bar>sint oldv\<bar>" by (simp flip: a)
  have "sint (- abs32 oldv - 1) = - \<bar>sint oldv\<bar> - 1" using assms sint_small [of "- \<bar>sint oldv\<bar> - 1"] by (simp add: w)
  then show ?thesis using assms(2) by (auto simp: checkAndUpdateVerison_def word_sless_alt)
qed

text \<open>C30: the version rules of \<open>checkAndUpdateVerison\<close>, as integers.  Below the largest magnitude, a write without a version
  gets the old magnitude plus one, a deletion its negative, and a write with a version is accepted exactly if it exceeds the old magnitude.
  At the limits the 32-bit arithmetic wraps around: the write after version \<open>2\<^sup>3\<^sup>1 - 1\<close> gets a negative version and so reads as a deletion, and
  deleting at the least version gives a live one.\<close>

theorem version_rules:
  assumes "\<bar>sint oldv\<bar> < 2 ^ 31 - 1"
  shows "(\<exists>r. checkAndUpdateVerison oldv 0 = (r, True) \<and> sint r = \<bar>sint oldv\<bar> + 1) \<and>
    (sint ver < 0 \<longrightarrow> (\<exists>r. checkAndUpdateVerison oldv ver = (r, True) \<and> sint r = - \<bar>sint oldv\<bar> - 1)) \<and>
    (0 < sint ver \<longrightarrow> checkAndUpdateVerison oldv ver = (if \<bar>sint oldv\<bar> < sint ver then (ver, True) else (1, False))) \<and>
    checkAndUpdateVerison 0x7FFFFFFF 0 = (0x80000000, True) \<and> sint (0x80000000 :: i32) < 0 \<and>
    checkAndUpdateVerison 0x80000000 (- 1) = (0x7FFFFFFF, True)"
proof -
  have a: "sint (abs32 oldv) = \<bar>sint oldv\<bar>" using assms by (intro sint_abs32) linarith
  have "checkAndUpdateVerison oldv ver = (if \<bar>sint oldv\<bar> < sint ver then (ver, True) else (1, False))" if "0 < sint ver"
    using that a by (auto simp: checkAndUpdateVerison_def word_sless_alt word_sle_eq abs32_def)
  then show ?thesis using version_auto [OF assms] version_delete [OF assms]
    by (auto simp: checkAndUpdateVerison_def word_sle_eq abs32_def word_sless_alt)
qed

theorem version_rules_witness:
  "checkAndUpdateVerison 5 7 = (7, True) \<and> (\<exists>r. checkAndUpdateVerison 5 0 = (r, True) \<and> sint r = 6)"
  using version_rules [of 5 7] by simp

end
