(* ===== verification/Gc.thy ===== *)
theory Gc
  imports Bucket
begin

text \<open>
  Garbage collection (\<open>store/gc.go\<close>): the records of a range of chunks that the tree still points to are copied to the
  front, in place or into the chunk before, and the tree and the hints get their new positions.  The reader of a chunk works on the file as it
  was opened: the writer on the same chunk never passes it.  What a collection meets from outside (time, cancellation, the states a merge
  sees) is an argument.  The lemmas show which chunks are chosen.
\<close>

unbundle bit_operations_syntax

section \<open>Definitions\<close>

record GCFileState =
  NumBefore :: int
  NumReleased :: int
  NumReleasedDeleted :: int
  SizeBefore :: int
  SizeReleased :: int
  SizeDeleted :: int
  SizeBroken :: int
  NumNotInHtree :: int

definition zero_fs :: GCFileState where
  "zero_fs = \<lparr>NumBefore = 0, NumReleased = 0, NumReleasedDeleted = 0, SizeBefore = 0, SizeReleased = 0, SizeDeleted = 0,
     SizeBroken = 0, NumNotInHtree = 0\<rparr>"

definition fs_add :: "GCFileState \<Rightarrow> GCFileState \<Rightarrow> GCFileState" where
  "fs_add s2 s = \<lparr>NumBefore = NumBefore s + NumBefore s2, NumReleased = NumReleased s + NumReleased s2,
     NumReleasedDeleted = NumReleasedDeleted s + NumReleasedDeleted s2, SizeBefore = SizeBefore s + SizeBefore s2,
     SizeReleased = SizeReleased s + SizeReleased s2, SizeDeleted = SizeDeleted s + SizeDeleted s2,
     SizeBroken = SizeBroken s + SizeBroken s2, NumNotInHtree = NumNotInHtree s + NumNotInHtree s2\<rparr>"

definition addRecord :: "u32 \<Rightarrow> bool \<Rightarrow> bool \<Rightarrow> u32 \<Rightarrow> GCFileState \<Rightarrow> GCFileState" where
  "addRecord sz isNewest isDeleted sizeBroken s =
     (let s1 = (if isNewest then s else s\<lparr>NumReleased := NumReleased s + 1, SizeReleased := SizeReleased s + uint sz\<rparr>);
          s2 = (if \<not> isNewest \<and> isDeleted
                then s1\<lparr>NumReleasedDeleted := NumReleasedDeleted s1 + 1, SizeDeleted := SizeDeleted s1 + uint sz\<rparr> else s1)
      in s2\<lparr>SizeReleased := SizeReleased s2 + uint sizeBroken, SizeBroken := SizeBroken s2 + uint sizeBroken,
            SizeBefore := SizeBefore s2 + uint (sz + sizeBroken), NumBefore := NumBefore s2 + 1\<rparr>)"

record GCState =
  gs_Begin :: int
  gs_End :: int
  gs_Src :: int
  gs_Dst :: int
  gs_Running :: bool
  gs_Err :: "StoreErr option"
  gs_CancelFlag :: bool
  gs_sum :: GCFileState

text \<open>What happens outside while a collection runs: the states the merge before it sees, whether the merged file can be
  created, and before which chunk a cancellation is noticed.\<close>

record GCEnv =
  ge_op :: OpEnv
  ge_states :: "nat \<Rightarrow> u64"
  ge_create :: bool
  ge_cancel :: "int \<Rightarrow> bool"

definition UpdateHtreePos :: "Env \<Rightarrow> bytes \<Rightarrow> KeyInfo \<Rightarrow> Position \<Rightarrow> Bucket \<Rightarrow> Bucket option" where
  "UpdateHtreePos e fresh ki newPos b = do {
     (meta, _, ok) \<leftarrow> htree_get (conf e) (bk_htree b) ki;
     if \<not> ok then Some b
     else do { t \<leftarrow> htree_set (conf e) fresh (bk_htree b) ki meta newPos; Some (b\<lparr>bk_htree := t\<rparr>) }
   }"

text \<open>\<open>BeforeBucket\<close>, when a merge that was running has stopped; it sleeps for six seconds before it dumps.\<close>

definition BeforeBucket :: "Env \<Rightarrow> GCEnv \<Rightarrow> int \<Rightarrow> bool \<Rightarrow> Bucket \<Rightarrow> Bucket" where
  "BeforeBucket e ge endChunkID mrg b =
     (let h = (bk_hints b)\<lparr>hm_state := hm_state (bk_hints b) OR HintStateGC, hm_maxDumpableChunkID := endChunkID - 1\<rparr>;
          h1 = (if mrg then
                  let h2 = snd (snd (dumpAndMerge (conf e) (op_now (ge_op ge) + SecsBeforeDump + 1) True (forceRotateSplit h)))
                  in snd (Merge (conf e) (ge_states ge) (ge_create ge) (hid_Chunk (ct_id (hm_collisions h2))) True h2)
                else RemoveMerged h)
      in removeHtree (b\<lparr>bk_hints := h1\<rparr>))"

definition AfterBucket :: "Bucket \<Rightarrow> Bucket" where
  "AfterBucket b = b\<lparr>bk_hints := (bk_hints b)\<lparr>hm_state := hm_state (bk_hints b) AND NOT HintStateGC,
     hm_maxDumpableChunkID := MAX_NUM_CHUNK - 1\<rparr>\<rparr>"

text \<open>The loops that choose the range; a chunk number out of range panics.\<close>

fun start_loop :: "nat \<Rightarrow> int \<Rightarrow> dataStore \<Rightarrow> int" where
  "start_loop 0 start ds = start"
| "start_loop (Suc n) start ds =
     (if start < ds_newHead ds \<and> dc_size (ds_chunks ds start) = 0 then start_loop n (start + 1) ds else start)"

definition gcCheckStart :: "int \<Rightarrow> Bucket \<Rightarrow> StoreErr + int" where
  "gcCheckStart startChunkID b =
     (let ds = bk_datas b; go = (\<lambda>s. Inr (start_loop (nat (ds_newHead ds - s)) s ds)) in
      if startChunkID < 0 then go (bk_NextGCChunk b)
      else if startChunkID > ds_newHead ds then Inl GCRangeErr
      else go startChunkID)"

text \<open>\<open>gcCheckEnd\<close>: the newest chunk before one whose first record is old enough; the chunk must not be empty.\<close>

fun nonempty_below :: "nat \<Rightarrow> int \<Rightarrow> dataStore \<Rightarrow> int" where
  "nonempty_below 0 i ds = i"
| "nonempty_below (Suc n) i ds = (if dc_size (ds_chunks ds i) > 0 then i else nonempty_below n (i - 1) ds)"

fun end_loop :: "nat \<Rightarrow> int \<Rightarrow> int \<Rightarrow> int \<Rightarrow> int \<Rightarrow> dataStore \<Rightarrow> (StoreErr + int) option" where
  "end_loop 0 next start now days ds = Some (Inl GCRangeErr)"
| "end_loop (Suc n) next start now days ds =
     (if \<not> chunk_in_range next then None
      else if getDiskFileSize (ds_chunks ds next) = 0 then end_loop n (next - 1) start now days ds
      else case getFirstRecTs (ds_chunks ds next) of
        Inl err \<Rightarrow> Some (Inl err)
      | Inr ts \<Rightarrow>
          if now - uint ts > days * 86400 then Some (Inr (nonempty_below (nat (next - start)) (next - 1) ds))
          else end_loop n (next - 1) start now days ds)"

definition gcCheckEnd :: "HStoreConfig \<Rightarrow> int \<Rightarrow> int \<Rightarrow> int \<Rightarrow> int \<Rightarrow> Bucket \<Rightarrow> (StoreErr + int) option" where
  "gcCheckEnd c now start endChunkID noGCDays b =
     (let ds = bk_datas b;
          end0 = (if endChunkID < 0 \<or> endChunkID \<ge> ds_newHead ds - 1 then ds_newHead ds - 1 else endChunkID);
          days = (if noGCDays < 0 then NoGCDays c else noGCDays)
      in end_loop (nat (end0 + 1 - start)) (end0 + 1) start now days ds)"

definition gcCheckRange :: "HStoreConfig \<Rightarrow> int \<Rightarrow> int \<Rightarrow> int \<Rightarrow> int \<Rightarrow> Bucket \<Rightarrow> (StoreErr + int \<times> int) option" where
  "gcCheckRange c now startChunkID endChunkID noGCDays b =
     (case gcCheckStart startChunkID b of
        Inl err \<Rightarrow> Some (Inl err)
      | Inr start \<Rightarrow> do {
          r \<leftarrow> gcCheckEnd c now start endChunkID noGCDays b;
          Some (case r of Inl err \<Rightarrow> Inl err | Inr en \<Rightarrow> if en < start then Inl GCRangeErr else Inr (start, en))
        })"

text \<open>The chunk written first: the nearest chunk with data before the range if it has room, else the one after it.\<close>

fun dst_loop :: "Env \<Rightarrow> int \<Rightarrow> nat \<Rightarrow> dataStore \<Rightarrow> int" where
  "dst_loop e start 0 ds = start"
| "dst_loop e start (Suc i) ds =
     (let sz = dc_size (ds_chunks ds (int i)) in
      if sz > 0 then
        (if uint sz < DataFileMax (conf e) - BodyMax (mcconf e) then int i
         else if int i < start - 1 then int i + 1 else start)
      else dst_loop e start i ds)"

text \<open>Whether a record is kept: key, whether the tree has it, newest, deleted, and the metadata for the hint.\<close>

definition gc_decide ::
    "Env \<Rightarrow> int \<Rightarrow> Record \<Rightarrow> Position \<Rightarrow> Bucket \<Rightarrow> BeansdbRL \<Rightarrow> (KeyInfo \<times> bool \<times> bool \<times> bool \<times> Meta \<times> BeansdbRL) option" where
  "gc_decide e begin rec oldPos b d = do {
     ki \<leftarrow> NewKeyInfoFromBytes (conf e) (rKey rec) (getKeyHash e (rKey rec)) False;
     let meta = Meta.truncate (rPayload rec);
     (treeMeta, treePos, found) \<leftarrow> htree_get (conf e) (bk_htree b) ki;
     if \<not> found then Some (ki, False, begin > 0 \<and> Ver meta <s 0, False, meta, d)
     else if oldPos = treePos then Some (ki, True, True, False, meta\<lparr>ValueHash := ValueHash treeMeta\<rparr>, d)
     else do {
       let isDeleted = Ver treeMeta <s 0;
       (hintit, hintchunkid, isCoverdByCollision) \<leftarrow> getCollisionGC ki (bk_hints b);
       Some (if \<not> isCoverdByCollision then (ki, True, False, isDeleted, meta, d)
             else case hintit of
               Some it \<Rightarrow>
                 if \<lparr>ChunkID = hintchunkid, Offset = Offset (it_Pos it)\<rparr> = oldPos
                 then (ki, True, True, isDeleted, meta\<lparr>ValueHash := it_Vhash it\<rparr>, d)
                 else (ki, True, False, isDeleted, meta, d)
             | None \<Rightarrow>
                 let (vh, d1) = Payload_Getvhash e (rPayload rec) d
                 in (ki, True, True, isDeleted, meta\<lparr>ValueHash := vh\<rparr>, d1))
     }
   }"

abbreviation put_chunk :: "int \<Rightarrow> dataChunk \<Rightarrow> Bucket \<Rightarrow> Bucket" where
  "put_chunk c dc b \<equiv> b\<lparr>bk_datas := (bk_datas b)\<lparr>ds_chunks := (ds_chunks (bk_datas b))(c := dc)\<rparr>\<rparr>"

definition bkt_trydump :: "Env \<Rightarrow> OpEnv \<Rightarrow> int \<Rightarrow> bool \<Rightarrow> Bucket \<Rightarrow> Bucket option" where
  "bkt_trydump e oe chunkID dumplast b =
     map_option (\<lambda>(_, h). b\<lparr>bk_hints := h\<rparr>) (trydump (conf e) (op_now oe) chunkID dumplast (bk_hints b))"

text \<open>The chunk written is full: it is closed and the next one begun.\<close>

definition gc_next_dst :: "Env \<Rightarrow> OpEnv \<Rightarrow> GCState \<Rightarrow> Bucket \<Rightarrow> (GCState \<times> Bucket) option" where
  "gc_next_dst e oe gc b = do {
     let dst = gs_Dst gc;
     b1 \<leftarrow> bkt_trydump e oe dst True (put_chunk dst (endGCWriting (ds_chunks (bk_datas b) dst)) b);
     if \<not> chunk_in_range (dst + 1) then None
     else do {
       dc \<leftarrow> beginGCWriting (gs_Src gc) (ds_chunks (bk_datas b1) (dst + 1));
       Some (gc\<lparr>gs_Dst := dst + 1\<rparr>, put_chunk (dst + 1) dc b1)
     }
   }"

definition gc_write :: "Env \<Rightarrow> OpEnv \<Rightarrow> KeyInfo \<Rightarrow> bool \<Rightarrow> Meta \<Rightarrow> WriteRecord \<Rightarrow> GCState \<Rightarrow> Bucket \<Rightarrow> (GCState \<times> Bucket) option" where
  "gc_write e oe ki found meta wrec gc0 b0 = do {
     let recsize = RecSize (rPayload (wr_rec wrec));
     (gc, b) \<leftarrow> (if recsize + dc_writingHead (ds_chunks (bk_datas b0) (gs_Dst gc0)) > word_of_int (DataFileMax (conf e))
               then gc_next_dst e oe gc0 b0 else Some (gc0, b0));
     (offset, dc) \<leftarrow> AppendRecordGC wrec (ds_chunks (bk_datas b) (gs_Dst gc));
     let newPos = \<lparr>ChunkID = gs_Dst gc, Offset = offset\<rparr>;
     let b1 = put_chunk (gs_Dst gc) dc b;
     b2 \<leftarrow> (if found then UpdateHtreePos e (op_fresh oe) ki newPos b1 else Some b1);
     (rotated, h) \<leftarrow> hm_set (conf e) (op_now oe) (op_mergeChan oe) ki meta newPos recsize ''gc'' (bk_hints b2);
     let b3 = b2\<lparr>bk_hints := h\<rparr>;
     b4 \<leftarrow> (if rotated then bkt_trydump e oe (gs_Dst gc) False b3 else Some b3);
     Some (gc, b4)
   }"

text \<open>The loop over the records of a chunk; a record read is at least 256 bytes long, so the size of the file bounds the turns.\<close>

fun gc_records :: "nat \<Rightarrow> Env \<Rightarrow> OpEnv \<Rightarrow> DataStreamReader \<Rightarrow> GCFileState \<Rightarrow> GCState \<Rightarrow> Bucket \<Rightarrow> BeansdbRL
    \<Rightarrow> (GCFileState \<times> GCState \<times> Bucket \<times> BeansdbRL) option" where
  "gc_records 0 e oe s fs gc b d = None"
| "gc_records (Suc n) e oe s fs gc b d = do {
     ((r, offset, sizeBroken, err), s1, d1) \<leftarrow> Next e s d;
     case err of
       Some er \<Rightarrow> Some (fs, gc\<lparr>gs_Err := Some er\<rparr>, b, d1)
     | None \<Rightarrow>
         (case r of
            None \<Rightarrow> Some (fs, gc, b, d1)
          | Some rec \<Rightarrow> do {
              (ki, found, isNewest, isDeleted, meta, d2) \<leftarrow>
                gc_decide e (gs_Begin gc) rec \<lparr>ChunkID = gs_Src gc, Offset = offset\<rparr> b d1;
              let wrec = wrapRecord rec;
              let fs0 = (if found then fs else fs\<lparr>NumNotInHtree := NumNotInHtree fs + 1\<rparr>);
              let fs1 = addRecord (RecSize (rPayload (wr_rec wrec))) isNewest isDeleted sizeBroken fs0;
              (gc1, b1) \<leftarrow> (if isNewest then gc_write e oe ki found meta wrec gc b else Some (gc, b));
              gc_records n e oe s1 fs1 gc1 b1 d2
            })
   }"

text \<open>The loop over the chunks; it ends early on an error or a cancellation.\<close>

fun gc_chunks :: "nat \<Rightarrow> Env \<Rightarrow> GCEnv \<Rightarrow> GCState \<Rightarrow> Bucket \<Rightarrow> BeansdbRL \<Rightarrow> (GCState \<times> Bucket \<times> BeansdbRL) option" where
  "gc_chunks 0 e ge gc b d = Some (gc, b, d)"
| "gc_chunks (Suc n) e ge gc b d =
     (let src = gs_Src gc; dc = ds_chunks (bk_datas b) src in
      if gs_CancelFlag gc \<or> ge_cancel ge src then Some (gc\<lparr>gs_CancelFlag := True\<rparr>, b, d)
      else if dc_size dc = 0 then gc_chunks n e ge (gc\<lparr>gs_Src := src + 1\<rparr>) b d
      else let b1 = b\<lparr>bk_hints := ClearChunk src (bk_hints b)\<rparr> in
        case dc_file dc of
          None \<Rightarrow> Some (gc\<lparr>gs_Err := Some OpenErr\<rparr>, b1, d)
        | Some f \<Rightarrow> do {
            (fs, gc1, b2, d1) \<leftarrow> gc_records (length f + 2) e (ge_op ge) (newDataStreamReader f) zero_fs gc b1 d;
            if gs_Err gc1 \<noteq> None then Some (gc1, b2, d1)
            else
              let b3 = (if src \<noteq> gs_Dst gc1 then put_chunk src (dc_Clear (ds_chunks (bk_datas b2) src)) b2 else b2);
                  b4 = (if src + 1 \<ge> bk_NextGCChunk b3 then dumpGCHistroy (b3\<lparr>bk_NextGCChunk := src + 1\<rparr>) else b3)
              in gc_chunks n e ge (gc1\<lparr>gs_sum := fs_add fs (gs_sum gc1), gs_Src := src + 1\<rparr>) b4 d1
          })"

text \<open>\<open>gc\<close>; the deferred functions close the chunk written, dump its hints and give the hints back.\<close>

definition gc_run :: "Env \<Rightarrow> GCEnv \<Rightarrow> int \<Rightarrow> int \<Rightarrow> bool \<Rightarrow> Bucket \<Rightarrow> BeansdbRL \<Rightarrow> (GCState \<times> Bucket \<times> BeansdbRL) option" where
  "gc_run e ge startChunkID endChunkID mrg b d = do {
     let b1 = BeforeBucket e ge endChunkID mrg b;
     let dst = dst_loop e startChunkID (nat startChunkID) (bk_datas b1);
     let gc = \<lparr>gs_Begin = startChunkID, gs_End = endChunkID, gs_Src = startChunkID, gs_Dst = dst, gs_Running = True,
         gs_Err = None, gs_CancelFlag = False, gs_sum = zero_fs\<rparr>;
     dc \<leftarrow> beginGCWriting startChunkID (ds_chunks (bk_datas b1) dst);
     (gc1, b2, d1) \<leftarrow> gc_chunks (nat (endChunkID - startChunkID + 1)) e ge gc (put_chunk dst dc b1) d;
     b3 \<leftarrow> bkt_trydump e (ge_op ge) (gs_Dst gc1) True (put_chunk (gs_Dst gc1) (endGCWriting (ds_chunks (bk_datas b2) (gs_Dst gc1))) b2);
     Some (gc1\<lparr>gs_Running := False\<rparr>, AfterBucket b3, d1)
   }"

section \<open>The range\<close>

lemma start_loop_le: "start \<le> start_loop n start ds"
proof (induction n arbitrary: start)
  case (Suc n)
  from Suc [of "start + 1"] show ?case by simp
qed simp

lemma nonempty_below_le: "nonempty_below n i ds \<le> i"
proof (induction n arbitrary: i)
  case (Suc n)
  from Suc [of "i - 1"] show ?case by simp
qed simp

lemma end_loop_less: "end_loop n next start now days ds = Some (Inr en) \<Longrightarrow> en < next"
proof (induction n arbitrary: "next")
  case (Suc n)
  have "nonempty_below (nat (next - start)) (next - 1) ds < next" using nonempty_below_le [of "nat (next - start)" "next - 1" ds] by simp
  then show ?case using Suc.prems Suc.IH [of "next - 1"] by (auto split: if_splits sum.splits)
qed simp

text \<open>A range that \<open>gcCheckRange\<close> accepts is not empty and ends before the chunk appended to.\<close>

lemma gcCheckRange_bounds:
  assumes "gcCheckRange c now startChunkID endChunkID noGCDays b = Some (Inr (start, en))" "0 \<le> bk_NextGCChunk b"
  shows "0 \<le> start" "start \<le> en" "en < ds_newHead (bk_datas b)"
proof -
  have s: "gcCheckStart startChunkID b = Inr start" "gcCheckEnd c now start endChunkID noGCDays b = Some (Inr en)" "start \<le> en"
    using assms(1) by (auto simp: gcCheckRange_def split: sum.splits bind_splits if_splits)
  show "start \<le> en" by (rule s(3))
  have "\<exists>n s0. 0 \<le> s0 \<and> start = start_loop n s0 (bk_datas b)"
    using s(1) assms(2) by (cases "startChunkID < 0") (auto simp: gcCheckStart_def Let_def not_less split: if_splits)
  then show "0 \<le> start" using start_loop_le order_trans by blast
  show "en < ds_newHead (bk_datas b)" using end_loop_less [OF s(2) [unfolded gcCheckEnd_def Let_def]] by (simp split: if_splits)
qed

end
