(* ===== verification/HintKeys.thy ===== *)
theory HintKeys
  imports HintMgr
begin

text \<open>
  The hints of keys with different hashes.  The invariant \<open>hints_ok\<close> says that every chunk of the hint manager can take an item,
  that every split is a buffer or a file, and that the buffers and the hint files hold only keys of a given set, each under its hash.  The lemmas show
  that every operation a bucket or the garbage collector calls returns, keeps the invariant, and never reports a collision.
\<close>

section \<open>Definitions\<close>

definition key_item :: "(bytes \<Rightarrow> u64) \<Rightarrow> bytes set \<Rightarrow> HintItem \<Rightarrow> bool" where
  "key_item hash K it \<longleftrightarrow> it_Key it \<in> K \<and> it_Keyhash it = hash (it_Key it) \<and> 0 \<le> ChunkID (it_Pos it) \<and> ChunkID (it_Pos it) < 2 ^ 32"

text \<open>A hint file written from such items.\<close>

definition file_ok :: "HStoreConfig \<Rightarrow> (bytes \<Rightarrow> u64) \<Rightarrow> bytes set \<Rightarrow> bytes \<Rightarrow> bool" where
  "file_ok c hash K f \<longleftrightarrow> (\<exists>its mx w. write_items c its (newHintFileWriter mx) = Some w \<and> f = w_file (w_close w) \<and>
     length its < 4096 * 4096 \<and> (\<forall>it \<in> set its. key_item hash K it))"

definition buf_ok :: "HStoreConfig \<Rightarrow> (bytes \<Rightarrow> u64) \<Rightarrow> bytes set \<Rightarrow> HintBuffer \<Rightarrow> bool" where
  "buf_ok c hash K b \<longleftrightarrow> (\<exists>its. hb_inv c b its \<and> (\<forall>it \<in> set its. key_item hash K it))"

definition split_ok :: "HStoreConfig \<Rightarrow> (bytes \<Rightarrow> u64) \<Rightarrow> bytes set \<Rightarrow> hintSplit \<Rightarrow> bool" where
  "split_ok c hash K sp \<longleftrightarrow> (case sp_buf sp of Some b \<Rightarrow> buf_ok c hash K b | None \<Rightarrow> sp_file sp \<noteq> None)"

definition hc_ok :: "HStoreConfig \<Rightarrow> (bytes \<Rightarrow> u64) \<Rightarrow> bytes set \<Rightarrow> hintChunk \<Rightarrow> bool" where
  "hc_ok c hash K ck \<longleftrightarrow> hc_splits ck \<noteq> [] \<and> sp_buf (last (hc_splits ck)) \<noteq> None \<and>
     (\<forall>sp \<in> set (hc_splits ck). split_ok c hash K sp)"

definition hints_ok :: "HStoreConfig \<Rightarrow> (bytes \<Rightarrow> u64) \<Rightarrow> bytes set \<Rightarrow> hintMgr \<Rightarrow> bool" where
  "hints_ok c hash K h \<longleftrightarrow> ct_Items (hm_collisions h) = Map.empty \<and> (\<forall>i. hc_ok c hash K (hm_chunks h i)) \<and>
     (\<forall>p f. Mapping.lookup (hm_files h) p = Some f \<longrightarrow> file_ok c hash K f)"

text \<open>The capacities for which the index of a dumped split has room, and a hash that tells the keys apart.\<close>

definition hint_limits :: "HStoreConfig \<Rightarrow> bool" where
  "hint_limits c \<longleftrightarrow> 0 < SplitCap c \<and> SplitCap c < 4096 * 4096"

section \<open>Buffers\<close>

lemma buf_ok_new: "hint_limits c \<Longrightarrow> buf_ok c hash K NewHintBuffer"
  using hb_inv_new [of c] by (fastforce simp: buf_ok_def hint_limits_def)

lemma hint_find_in: "hint_find its k = Some it \<Longrightarrow> it \<in> set its"
  by (auto simp: hint_find_def find_Some_iff)

lemma hb_Set_ok:
  assumes "buf_ok c hash K b" "key_item hash K it"
  shows "\<exists>ok b'. hb_Set c it recSize b = Some (ok, b') \<and> buf_ok c hash K b'"
proof -
  obtain its where its: "hb_inv c b its" "\<forall>it \<in> set its. key_item hash K it" using assms(1) by (auto simp: buf_ok_def)
  obtain ok b' where s: "hb_Set c it recSize b = Some (ok, b')"
    "if ok then \<exists>its'. hb_inv c b' its' \<and> hint_find its' = (hint_find its)(hint_key it \<mapsto> it) else hb_inv c b' its"
    using hb_Set_inv [OF its(1), of it recSize] by (fastforce split: if_splits)
  have "key_item hash K x" if iv: "hb_inv c b' its'" and fd: "hint_find its' = (hint_find its)(hint_key it \<mapsto> it)" and x: "x \<in> set its'" for its' x
  proof -
    have "hint_find its' (hint_key x) = Some x" using hint_find_mem [OF _ x] iv by (simp add: hb_inv_def)
    then have "x = it \<or> hint_find its (hint_key x) = Some x" by (simp add: fd split: if_splits)
    then show ?thesis using its(2) assms(2) hint_find_in by blast
  qed
  then have "buf_ok c hash K b'" using s(2) its(2) unfolding buf_ok_def by (cases ok) (simp, blast)+
  then show ?thesis using s(1) by blast
qed

lemma hb_Get_single:
  assumes "buf_ok c hash K b" "inj_on hash K" "key \<in> K"
  shows "\<exists>it. hb_Get (hash key) key b = Some (it, False)"
proof -
  obtain its where its: "hb_inv c b its" "\<forall>it \<in> set its. key_item hash K it" using assms(1) by (auto simp: buf_ok_def)
  show ?thesis
  proof (cases "Mapping.lookup (hb_index b) (hash key)")
    case (Some i)
    have "idx_inv (hb_index b) (hb_collisions b) (map hint_key its)" "take (length its) (hb_items b) = map Some its"
      using its(1) by (simp_all add: hb_inv_def)
    with idx_invD(1) [OF this(1) Some] hb_item_nth(1) [OF this(2)]
    have i: "i < length its" "it_Keyhash (its ! i) = hash key" "hb_item (hb_items b) i = Some (its ! i)" by (auto simp: hint_key_def)
    then have "it_Key (its ! i) = key" using its(2) assms(2,3) by (auto simp: key_item_def dest: inj_onD nth_mem)
    then show ?thesis using Some i(3) by (simp add: hb_Get_def)
  qed (simp add: hb_Get_def)
qed

lemma hb_Dump_total:
  assumes "buf_ok c hash K b" "hint_limits c"
  shows "\<exists>idx f. hb_Dump c b = Some idx \<and> hi_file idx = Some f \<and> file_ok c hash K f"
proof -
  obtain its where its: "hb_inv c b its" "\<forall>it \<in> set its. key_item hash K it" using assms(1) by (auto simp: buf_ok_def)
  have "those (map Some its) = Some its" by (induction its) simp_all
  then have t: "those (take (hb_num b) (hb_items b)) = Some its" using its by (simp add: hb_inv_def)
  have "int (length its) \<le> SplitCap c" using hb_inv_cap [OF its(1)] assms(2) by (simp add: hint_limits_def le_nat_iff)
  then have l: "length (sort_key hint_key its) < 4096 * 4096" using assms(2) by (simp add: hint_limits_def)
  then obtain w where w: "write_items c (sort_key hint_key its) (newHintFileWriter (hb_maxoffset b)) = Some w"
    using write_items_rep [OF w_rep_new, of "sort_key hint_key its" c "hb_maxoffset b"] by auto
  then have "file_ok c hash K (w_file (w_close w))" unfolding file_ok_def
    using l its(2) by (intro exI [of _ "sort_key hint_key its"] exI [of _ "hb_maxoffset b"] exI [of _ w]) simp
  then show ?thesis using t w by (simp add: hb_Dump_def)
qed

section \<open>Chunks\<close>

lemma newHintChunk_ok: "hint_limits c \<Longrightarrow> hc_ok c hash K (newHintChunk i)"
  using buf_ok_new by (simp add: hc_ok_def newHintChunk_def hc_rotate_def newhintSplit_def split_ok_def)

lemma hc_rotate_ok: "hc_ok c hash K ck \<Longrightarrow> hint_limits c \<Longrightarrow> hc_ok c hash K (hc_rotate ck)"
  using buf_ok_new by (auto simp: hc_ok_def hc_rotate_def newhintSplit_def split_ok_def)

lemma hc_ok_lastTS [simp]: "hc_ok c hash K (ck\<lparr>hc_lastTS := t\<rparr>) = hc_ok c hash K ck"
  by (simp add: hc_ok_def)

lemma hc_setItem_ok:
  assumes "hc_ok c hash K ck" "hint_limits c" "key_item hash K it"
  shows "\<exists>rot ck'. hc_setItem c it recSize now ck = Some (rot, ck') \<and> hc_ok c hash K ck'"
proof -
  obtain b where ne: "hc_splits ck \<noteq> []" and b: "sp_buf (last (hc_splits ck)) = Some b" "buf_ok c hash K b"
    using assms(1) by (fastforce simp: hc_ok_def split_ok_def split: option.splits dest: last_in_set)
  have rest: "\<forall>sp \<in> set (butlast (hc_splits ck)). split_ok c hash K sp" using assms(1) by (auto simp: hc_ok_def dest: in_set_butlastD)
  from hb_Set_ok [OF buf_ok_new [OF assms(2)] assms(3), of recSize] hb_Set_ok [OF b(2) assms(3), of recSize] ne b(1) rest
  show ?thesis by (fastforce simp: hc_setItem_def Let_def hc_ok_def split_ok_def)
qed

lemma coll_loop_none:
  assumes "\<forall>sp \<in> set sps. split_ok c hash K sp" "inj_on hash K" "key \<in> K"
  shows "\<exists>it cid' stop. coll_loop (hash key) key cid False sps = Some (it, cid', False, stop)"
  using assms(1)
proof (induction sps)
  case (Cons sp sps)
  show ?case
  proof (cases "sp_buf sp")
    case (Some b)
    then have "buf_ok c hash K b" using Cons.prems by (simp add: split_ok_def)
    from hb_Get_single [OF this assms(2,3)] Cons Some show ?thesis by (fastforce split: option.split)
  next
    case None
    then show ?thesis by (intro exI [of _ None] exI [of _ 0] exI [of _ True]) simp
  qed
qed (auto intro: exI [of _ False])

section \<open>The manager\<close>

lemma hints_okD: "hints_ok c hash K h \<Longrightarrow> hc_ok c hash K (hm_chunks h i)"
  by (simp add: hints_ok_def)

lemma hints_ok_upd: "hints_ok c hash K h \<Longrightarrow> hc_ok c hash K ck \<Longrightarrow> hints_ok c hash K (h\<lparr>hm_chunks := (hm_chunks h)(i := ck)\<rparr>)"
  by (simp add: hints_ok_def)

lemma getCollisionGC_none:
  assumes "hints_ok c hash K h" "inj_on hash K" "StringKey ki \<in> K" "KeyHash ki = hash (StringKey ki)"
  shows "\<exists>it cid. getCollisionGC ki h = Some (it, cid, False)"
proof -
  have "\<exists>it cid stop. hc_getItemCollision (KeyHash ki) (StringKey ki) (hm_chunks h i) = Some (it, cid, False, stop)" for i
    using coll_loop_none [OF _ assms(2,3), of "rev (hc_splits (hm_chunks h i))" c] hints_okD [OF assms(1), of i] assms(4)
    by (simp add: hc_getItemCollision_def hc_ok_def)
  then have "\<exists>it cid. itemCollision_loop (KeyHash ki) (StringKey ki) h (a, b, False) n = Some (it, cid, False)" for a b n
  proof (induction n arbitrary: a b)
    case (Suc n)
    from Suc.prems [of "int n"] Suc.IH [OF Suc.prems] show ?case by (fastforce split: if_splits)
  qed simp
  then show ?thesis using assms(1) by (simp add: getCollisionGC_def ct_get_def hints_ok_def hm_getItemCollision_def)
qed

lemma needDump_total: "split_ok c hash K sp \<Longrightarrow> \<exists>n. needDump sp = Some n \<and> (n \<longrightarrow> sp_buf sp \<noteq> None)"
  by (auto simp: needDump_def split_ok_def split: option.splits)

text \<open>A dump of a split that is not the last one.\<close>

lemma hm_dump_ok:
  assumes "hints_ok c hash K h" "hint_limits c" "Suc j < length (hc_splits (hm_chunks h ck))" "sp_buf (hc_splits (hm_chunks h ck) ! j) \<noteq> None"
  shows "\<exists>h'. hm_dump c ck j h = Some h' \<and> hints_ok c hash K h' \<and> hm_maxChunkID h' = hm_maxChunkID h \<and>
    length (hc_splits (hm_chunks h' ck)) = length (hc_splits (hm_chunks h ck))"
proof -
  let ?ck = "hm_chunks h ck"
  have ok: "hc_ok c hash K ?ck" using assms(1) by (rule hints_okD)
  obtain b where b: "sp_buf (hc_splits ?ck ! j) = Some b" using assms(4) by blast
  have "split_ok c hash K (hc_splits ?ck ! j)" using ok assms(3) by (auto simp: hc_ok_def dest: nth_mem)
  then have "buf_ok c hash K b" using b by (simp add: split_ok_def)
  from hb_Dump_total [OF this assms(2)] obtain idx f where d: "hb_Dump c b = Some idx" "hi_file idx = Some f" "file_ok c hash K f" by blast
  let ?sp = "\<lparr>sp_buf = None, sp_file = Some idx\<rparr>"
  have "last (xs[j := x]) = last xs" if "Suc j < length xs" for xs :: "hintSplit list" and x
    using that by (cases xs rule: rev_cases) (auto simp: list_update_append)
  then have "last ((hc_splits ?ck)[j := ?sp]) = last (hc_splits ?ck)" using assms(3) by blast
  then have "hc_ok c hash K (?ck\<lparr>hc_splits := (hc_splits ?ck)[j := ?sp]\<rparr>)"
    using ok by (auto simp: hc_ok_def split_ok_def dest!: set_update_subset_insert [THEN subsetD])
  then show ?thesis using assms(1,3) b d by (simp add: hm_dump_def Let_def nth_opt_Some) (auto simp: hints_ok_def lookup_update')
qed

lemma dump_old_ok:
  assumes "hints_ok c hash K h" "hint_limits c" "\<forall>j \<in> set js. Suc j < length (hc_splits (hm_chunks h ck))"
  shows "\<exists>h'. dump_old c ck js h = Some h' \<and> hints_ok c hash K h' \<and> hm_maxChunkID h' = hm_maxChunkID h \<and>
    length (hc_splits (hm_chunks h' ck)) = length (hc_splits (hm_chunks h ck))"
  using assms(1,3)
proof (induction js arbitrary: h)
  case (Cons j js)
  let ?sps = "hc_splits (hm_chunks h ck)"
  have j: "Suc j < length ?sps" using Cons.prems(2) by simp
  have "split_ok c hash K (?sps ! j)" using hints_okD [OF Cons.prems(1), of ck] j by (auto simp: hc_ok_def dest: nth_mem)
  from needDump_total [OF this] obtain n where n: "needDump (?sps ! j) = Some n" "n \<longrightarrow> sp_buf (?sps ! j) \<noteq> None" by blast
  obtain h1 where h1: "(if n then hm_dump c ck j h else Some h) = Some h1" "hints_ok c hash K h1" "hm_maxChunkID h1 = hm_maxChunkID h"
      "length (hc_splits (hm_chunks h1 ck)) = length ?sps"
    using hm_dump_ok [OF Cons.prems(1) assms(2) j] n(2) Cons.prems(1) by (cases n) auto
  then show ?case using Cons.IH [OF h1(2)] Cons.prems(2) n(1) j by (auto simp: nth_opt_Some)
qed simp

lemma trydump_ok:
  assumes "hints_ok c hash K h" "hint_limits c" "hint_chunk_ok ck"
  shows "\<exists>s h'. trydump c now ck dumplast h = Some (s, h') \<and> hints_ok c hash K h' \<and> hm_maxChunkID h' = hm_maxChunkID h"
proof -
  let ?l = "length (hc_splits (hm_chunks h ck))"
  have l: "0 < ?l" using hints_okD [OF assms(1), of ck] by (simp add: hc_ok_def)
  obtain h1 where h1: "dump_old c ck [0..<?l - 1] h = Some h1" "hints_ok c hash K h1" "hm_maxChunkID h1 = hm_maxChunkID h"
      "length (hc_splits (hm_chunks h1 ck)) = ?l"
    using dump_old_ok [OF assms(1,2), of "[0..<?l - 1]" ck] by (auto simp: less_diff_conv)
  let ?ck = "hm_chunks h1 ck"
  have ok: "hc_ok c hash K ?ck" using h1(2) by (rule hints_okD)
  have "split_ok c hash K (hc_splits ?ck ! (?l - 1))" using ok l h1(4) by (auto simp: hc_ok_def)
  from needDump_total [OF this] obtain n where n: "needDump (hc_splits ?ck ! (?l - 1)) = Some n"
      "n \<longrightarrow> sp_buf (hc_splits ?ck ! (?l - 1)) \<noteq> None" by blast
  let ?h2 = "h1\<lparr>hm_chunks := (hm_chunks h1)(ck := (hc_rotate ?ck)\<lparr>hc_lastTS := 0\<rparr>)\<rparr>"
  have "hints_ok c hash K ?h2" using hc_rotate_ok [OF ok assms(2)] by (intro hints_ok_upd [OF h1(2)]) simp
  from hm_dump_ok [OF this assms(2), of "?l - 1" ck] n(2) h1(3,4) l obtain h3 where
    "n \<longrightarrow> hm_dump c ck (?l - 1) ?h2 = Some h3 \<and> hints_ok c hash K h3 \<and> hm_maxChunkID h3 = hm_maxChunkID h"
    by (auto simp: hc_rotate_def nth_append)
  then show ?thesis using h1 n(1) l assms(3)
    by (cases n) (auto simp: trydump_def Let_def nth_opt_Some)
qed

lemma hm_setItem_ok:
  assumes "hints_ok c hash K h" "hint_limits c" "hint_chunk_ok cid" "key_item hash K it"
  shows "\<exists>rot h'. hm_setItem c now mergeChan it cid recSize h = Some (rot, h') \<and> hints_ok c hash K h' \<and>
    hm_maxChunkID h' = max (hm_maxChunkID h) cid"
proof -
  from hc_setItem_ok [OF hints_okD [OF assms(1)] assms(2,4)] obtain rot ck where
    s: "hc_setItem c it recSize now (hm_chunks h cid) = Some (rot, ck)" "hc_ok c hash K ck" by blast
  let ?h1 = "h\<lparr>hm_chunks := (hm_chunks h)(cid := ck)\<rparr>"
  have h1: "hints_ok c hash K ?h1" by (rule hints_ok_upd [OF assms(1) s(2)])
  obtain h2 where h2: "(if rot \<and> \<not> (mergeChan \<and> cid \<ge> hm_maxChunkID ?h1)
      then map_option snd (trydump c now cid False ?h1) else Some ?h1) = Some h2" "hints_ok c hash K h2" "hm_maxChunkID h2 = hm_maxChunkID h"
    using trydump_ok [OF h1 assms(2,3), of now False] h1 by (cases "rot \<and> \<not> (mergeChan \<and> cid \<ge> hm_maxChunkID ?h1)") auto
  have "hm_setItem c now mergeChan it cid recSize h = Some (rot, if cid > hm_maxChunkID h2 then h2\<lparr>hm_maxChunkID := cid\<rparr> else h2)"
    unfolding hm_setItem_def Let_def s(1) bind.bind_lunit prod.case h2(1) using assms(3) by simp
  then show ?thesis using h2(2,3) by (auto simp: hints_ok_def)
qed

lemma hm_set_ok:
  assumes "hints_ok c hash K h" "hint_limits c" "hint_chunk_ok (ChunkID pos)" "StringKey ki \<in> K" "KeyHash ki = hash (StringKey ki)"
  shows "\<exists>rot h'. hm_set c now mergeChan ki meta pos recSize reason h = Some (rot, h') \<and> hints_ok c hash K h' \<and>
    hm_maxChunkID h' = max (hm_maxChunkID h) (ChunkID pos)"
proof -
  let ?it = "newHintItem (KeyHash ki) (Ver meta) (ValueHash meta) \<lparr>ChunkID = 0, Offset = Offset pos\<rparr> (StringKey ki)"
  have no: "ct_get kh key (hm_collisions h) = (None, False)" for kh key using assms(1) by (simp add: hints_ok_def ct_get_def)
  have "key_item hash K ?it" using assms(4,5) by (simp add: key_item_def newHintItem_def)
  from hm_setItem_ok [OF assms(1-3) this] show ?thesis by (simp add: hm_set_def no Let_def)
qed

lemma RemoveHintfilesByChunk_ok: "hints_ok c hash K h \<Longrightarrow> hints_ok c hash K (RemoveHintfilesByChunk i h)"
  by (auto simp: RemoveHintfilesByChunk_def hints_ok_def lookup_filter split: option.splits if_splits)

lemma newHintMgr_ok: "hint_limits c \<Longrightarrow> hints_ok c hash K (newHintMgr Mapping.empty)"
  using newHintChunk_ok [of c hash K] by (simp add: hints_ok_def newHintMgr_def newCollisionTable_def)

lemma ClearChunk_ok:
  assumes "hints_ok c hash K h" "hint_limits c"
  shows "hints_ok c hash K (ClearChunk i h)" "hm_maxChunkID (ClearChunk i h) = hm_maxChunkID h"
proof -
  have "hints_ok c hash K (h\<lparr>hm_chunks := (hm_chunks h)(i := newHintChunk i)\<rparr>)"
    by (rule hints_ok_upd [OF assms(1) newHintChunk_ok [OF assms(2)]])
  then show "hints_ok c hash K (ClearChunk i h)" unfolding ClearChunk_def by (rule RemoveHintfilesByChunk_ok)
  show "hm_maxChunkID (ClearChunk i h) = hm_maxChunkID h" by (simp add: ClearChunk_def RemoveHintfilesByChunk_def)
qed

end
