(* ===== verification/LogSeq.thy ===== *)
theory LogSeq
  imports DataRun HTree
begin

text \<open>
  The records of the data files as one log.  \<open>log_seq\<close> lists the records of a range of chunks with their positions in the order in which they
  were written; \<open>newest\<close> says that an index points, for every key, to the last record of that key in the log, and that a key it does not have is
  absent or deleted there.  It is what makes the index reconstructible from the data files; the lemmas show that appending a
  record, dropping one that is not the last of its key and moving one forward keep it.
\<close>

section \<open>Definitions\<close>

definition entries :: "int \<Rightarrow> Record list \<Rightarrow> (Position \<times> Record) list" where
  "entries c rs = map (\<lambda>i. (\<lparr>ChunkID = c, Offset = of_nat (rec_off rs i)\<rparr>, rs ! i)) [0..<length rs]"

definition log_seq :: "(int \<Rightarrow> Record list) \<Rightarrow> int \<Rightarrow> int \<Rightarrow> (Position \<times> Record) list" where
  "log_seq L lo hi = concat (map (\<lambda>c. entries c (L c)) [lo..hi])"

definition last_entry :: "(Position \<times> Record) list \<Rightarrow> bytes \<Rightarrow> (Position \<times> Record) option" where
  "last_entry S k = find (\<lambda>x. rKey (snd x) = k) (rev S)"

definition newest_key :: "(Position \<times> Record) option \<Rightarrow> HTreeItem option \<Rightarrow> bool" where
  "newest_key x y \<longleftrightarrow>
     (case y of
        Some it \<Rightarrow> \<exists>r. x = Some (it_Pos it, r)
      | None \<Rightarrow> \<forall>pos r. x = Some (pos, r) \<longrightarrow> Ver (rPayload r) <s 0)"

definition newest :: "Env \<Rightarrow> bytes set \<Rightarrow> (Position \<times> Record) list \<Rightarrow> (u64 \<rightharpoonup> HTreeItem) \<Rightarrow> bool" where
  "newest e K S hm \<longleftrightarrow> (\<forall>k \<in> K. newest_key (last_entry S k) (hm (getKeyHash e k)))"

text \<open>What is known of the records of all chunks: there are none below chunk 0, no version is 0, and each stands for a record that was written.\<close>

definition log_ok :: "Env \<Rightarrow> (int \<Rightarrow> Record list) \<Rightarrow> bool" where
  "log_ok e L \<longleftrightarrow> (\<forall>c < 0. L c = []) \<and> (\<forall>c. \<forall>r \<in> set (L c). Ver (rPayload r) \<noteq> 0 \<and> (\<exists>rec. stored_as e rec r))"

section \<open>The entries of a chunk\<close>

lemma entries_Nil [simp]: "entries c [] = []"
  by (simp add: entries_def)

lemma length_entries [simp]: "length (entries c rs) = length rs"
  by (simp add: entries_def)

lemma entries_nth: "i < length rs \<Longrightarrow> entries c rs ! i = (\<lparr>ChunkID = c, Offset = of_nat (rec_off rs i)\<rparr>, rs ! i)"
  by (simp add: entries_def)

lemma entries_snoc: "entries c (rs @ [r]) = entries c rs @ [(\<lparr>ChunkID = c, Offset = of_nat (rec_off rs (length rs))\<rparr>, r)]"
  by (simp add: entries_def nth_append)

lemma entries_from:
  assumes "i < length rs"
  shows "drop i (entries c rs) = (\<lparr>ChunkID = c, Offset = of_nat (rec_off rs i)\<rparr>, rs ! i) # drop (Suc i) (entries c rs)"
  using Cons_nth_drop_Suc [of i "entries c rs"] assms by (simp add: entries_nth)

lemma entries_mem: "(pos, r) \<in> set (drop n (entries c rs)) \<longleftrightarrow>
    (\<exists>i \<ge> n. i < length rs \<and> pos = \<lparr>ChunkID = c, Offset = of_nat (rec_off rs i)\<rparr> \<and> r = rs ! i)"
proof -
  have "drop n (entries c rs) = map (\<lambda>i. (\<lparr>ChunkID = c, Offset = of_nat (rec_off rs i)\<rparr>, rs ! i)) [n..<length rs]"
    by (simp add: entries_def drop_map)
  then show ?thesis by auto
qed

section \<open>The log of a range\<close>

lemma log_seq_empty: "hi < lo \<Longrightarrow> log_seq L lo hi = []"
  by (simp add: log_seq_def)

lemma log_seq_head: "lo \<le> hi \<Longrightarrow> log_seq L lo hi = entries lo (L lo) @ log_seq L (lo + 1) hi"
  by (simp add: log_seq_def upto_rec1)

lemma log_seq_split: "lo \<le> mid \<Longrightarrow> mid \<le> hi + 1 \<Longrightarrow> log_seq L lo hi = log_seq L lo (mid - 1) @ log_seq L mid hi"
proof -
  assume "lo \<le> mid" "mid \<le> hi + 1"
  then have "[lo..hi] = [lo..mid - 1] @ [mid..hi]"
    by (cases "mid = hi + 1") (auto simp: upto_split1 intro: upto_split1)
  then show ?thesis by (simp add: log_seq_def)
qed

lemma log_seq_cong: "(\<And>c. lo \<le> c \<Longrightarrow> c \<le> hi \<Longrightarrow> L c = L' c) \<Longrightarrow> log_seq L lo hi = log_seq L' lo hi"
  unfolding log_seq_def by (intro arg_cong [of _ _ concat] map_cong) auto

lemma log_seq_nil: "(\<And>c. lo \<le> c \<Longrightarrow> c \<le> hi \<Longrightarrow> L c = []) \<Longrightarrow> log_seq L lo hi = []"
  using log_seq_cong [of lo hi L "\<lambda>_. []"] by (simp add: log_seq_def)

lemma log_seq_last: "lo \<le> hi \<Longrightarrow> log_seq L lo hi = log_seq L lo (hi - 1) @ entries hi (L hi)"
  using log_seq_split [of lo hi hi L] by (simp add: log_seq_def)

lemma log_seq_extend:
  assumes "lo \<le> hi + 1" "hi \<le> hi'" "\<And>c. hi < c \<Longrightarrow> L c = []"
  shows "log_seq L lo hi' = log_seq L lo hi"
  using log_seq_split [of lo "hi + 1" hi' L] log_seq_nil [of "hi + 1" hi' L] assms by simp

lemma log_seq_append:
  assumes "lo \<le> hi"
  shows "log_seq (L(hi := L hi @ [r])) lo hi =
    log_seq L lo hi @ [(\<lparr>ChunkID = hi, Offset = of_nat (rec_off (L hi) (length (L hi)))\<rparr>, r)]"
proof -
  have "log_seq (L(hi := L hi @ [r])) lo (hi - 1) = log_seq L lo (hi - 1)" by (rule log_seq_cong) simp
  then show ?thesis using log_seq_last [OF assms, of L] log_seq_last [OF assms, of "L(hi := L hi @ [r])"] by (simp add: entries_snoc)
qed

lemma log_seq_mem: "(pos, r) \<in> set (log_seq L lo hi) \<longleftrightarrow> lo \<le> ChunkID pos \<and> ChunkID pos \<le> hi \<and>
    (\<exists>i < length (L (ChunkID pos)). Offset pos = of_nat (rec_off (L (ChunkID pos)) i) \<and> r = L (ChunkID pos) ! i)"
proof -
  have "(pos, r) \<in> set (log_seq L lo hi) \<longleftrightarrow> (\<exists>c. lo \<le> c \<and> c \<le> hi \<and> (pos, r) \<in> set (drop 0 (entries c (L c))))"
    by (auto simp: log_seq_def)
  also have "\<dots> \<longleftrightarrow> lo \<le> ChunkID pos \<and> ChunkID pos \<le> hi \<and>
      (\<exists>i < length (L (ChunkID pos)). Offset pos = of_nat (rec_off (L (ChunkID pos)) i) \<and> r = L (ChunkID pos) ! i)"
    unfolding entries_mem by (cases pos) auto
  finally show ?thesis .
qed

section \<open>The last entry of a key\<close>

lemma last_entry_Nil [simp]: "last_entry [] k = None"
  by (simp add: last_entry_def)

lemma last_entry_append: "last_entry (S @ T) k = (case last_entry T k of Some x \<Rightarrow> Some x | None \<Rightarrow> last_entry S k)"
  unfolding last_entry_def rev_append find_append by (rule refl)

lemma last_entry_single [simp]: "last_entry [x] k = (if rKey (snd x) = k then Some x else None)"
  by (simp add: last_entry_def)

lemma last_entry_cons: "last_entry (x # S) k = (case last_entry S k of Some y \<Rightarrow> Some y | None \<Rightarrow> if rKey (snd x) = k then Some x else None)"
  using last_entry_append [of "[x]" S k] by (simp split: option.split)

lemma last_entry_mem: "last_entry S k = Some x \<Longrightarrow> x \<in> set S \<and> rKey (snd x) = k"
  by (auto simp: last_entry_def find_Some_iff) (metis length_rev nth_mem set_rev)

lemma last_entry_None: "last_entry S k = None \<longleftrightarrow> (\<forall>x \<in> set S. rKey (snd x) \<noteq> k)"
  unfolding last_entry_def find_None_iff set_rev by blast

section \<open>The index points to the last records\<close>

lemma newest_upd:
  assumes "newest e K S hm" "inj_on (getKeyHash e) K" "k \<in> K"
    and "\<And>k'. k' \<in> K \<Longrightarrow> k' \<noteq> k \<Longrightarrow> last_entry S' k' = last_entry S k'"
    and "newest_key (last_entry S' k) (Some it)"
  shows "newest e K S' (hm(getKeyHash e k \<mapsto> it))"
  unfolding newest_def
proof
  fix k' assume k': "k' \<in> K"
  show "newest_key (last_entry S' k') ((hm(getKeyHash e k \<mapsto> it)) (getKeyHash e k'))"
  proof (cases "k' = k")
    case False
    then have "getKeyHash e k' \<noteq> getKeyHash e k" using assms(2,3) k' by (auto dest: inj_onD)
    then show ?thesis using assms(1) k' assms(4) [OF k' False] by (simp add: newest_def)
  qed (use assms(5) in simp)
qed

lemma newest_append:
  assumes "newest e K S hm" "inj_on (getKeyHash e) K" "rKey r \<in> K"
  shows "newest e K (S @ [(it_Pos it, r)]) (hm(getKeyHash e (rKey r) \<mapsto> it))"
  by (intro newest_upd [OF assms]) (auto simp: last_entry_append newest_key_def)

text \<open>A record is dropped from the log: one the index does not point to, or one of a key the index does not have that is a value or the first.\<close>

lemma newest_drop:
  assumes "newest e K (A @ (p, r) # B) hm"
    and "\<And>it. hm (getKeyHash e (rKey r)) = Some it \<Longrightarrow> it_Pos it \<noteq> p"
    and "hm (getKeyHash e (rKey r)) = None \<Longrightarrow> 0 \<le>s Ver (rPayload r) \<or> last_entry A (rKey r) = None"
  shows "newest e K (A @ B) hm"
  unfolding newest_def
proof
  fix k assume k: "k \<in> K"
  have N: "newest_key (last_entry (A @ (p, r) # B) k) (hm (getKeyHash e k))" using assms(1) k by (simp add: newest_def)
  show "newest_key (last_entry (A @ B) k) (hm (getKeyHash e k))"
  proof (cases "rKey r = k \<and> last_entry B k = None")
    case True
    then have l: "last_entry (A @ (p, r) # B) k = Some (p, r)" "last_entry (A @ B) k = last_entry A k"
      by (simp_all add: last_entry_append last_entry_cons)
    show ?thesis
    proof (cases "hm (getKeyHash e k)")
      case None
      then have "last_entry A k = None" using N True assms(3) by (auto simp: l newest_key_def word_sle_eq word_sless_alt)
      then show ?thesis using None l by (simp add: newest_key_def)
    qed (use N True assms(2) in \<open>auto simp: l newest_key_def\<close>)
  next
    case False
    then have "last_entry (A @ (p, r) # B) k = last_entry (A @ B) k"
      by (auto simp: last_entry_append last_entry_cons split: option.split)
    then show ?thesis using N by simp
  qed
qed

text \<open>A record is moved to the end of the part already written.\<close>

lemma newest_move:
  assumes "newest e K (A @ (p, r) # B) hm" "inj_on (getKeyHash e) K" "rKey r \<in> K" "rKey r' = rKey r"
    and "hm (getKeyHash e (rKey r)) = Some it" "it_Pos it = p" "\<And>x. (p, x) \<notin> set B"
  shows "newest e K (A @ (it_Pos it', r') # B) (hm(getKeyHash e (rKey r) \<mapsto> it'))"
proof -
  obtain x where x: "last_entry (A @ (p, r) # B) (rKey r) = Some (p, x)"
    using assms(1,3,5,6) by (auto simp: newest_def newest_key_def dest!: bspec)
  have B: "last_entry B (rKey r) = None"
  proof (rule ccontr)
    assume "last_entry B (rKey r) \<noteq> None"
    then have "last_entry B (rKey r) = Some (p, x)" using x by (auto simp: last_entry_append last_entry_cons split: option.splits)
    then show False using assms(7) last_entry_mem by blast
  qed
  then show ?thesis using assms(4)
    by (intro newest_upd [OF assms(1-3)]) (auto simp: last_entry_append last_entry_cons newest_key_def split: option.splits)
qed

text \<open>A key the index does not have: its record is moved.\<close>

lemma newest_copy:
  assumes "newest e K (A @ (p, r) # B) hm" "rKey r' = rKey r" "Ver (rPayload r') = Ver (rPayload r)"
    and "hm (getKeyHash e (rKey r)) = None"
  shows "newest e K (A @ (p', r') # B) hm"
  unfolding newest_def
proof
  fix k assume k: "k \<in> K"
  have "newest_key (last_entry (A @ (p, r) # B) k) (hm (getKeyHash e k))" using assms(1) k by (simp add: newest_def)
  then show "newest_key (last_entry (A @ (p', r') # B) k) (hm (getKeyHash e k))"
    using assms(2-4) by (cases "rKey r = k") (auto simp: last_entry_append last_entry_cons newest_key_def split: option.splits)
qed

section \<open>What is known of the records\<close>

lemma log_ok_append: "log_ok e L \<Longrightarrow> 0 \<le> c \<Longrightarrow> Ver (rPayload r) \<noteq> 0 \<Longrightarrow> stored_as e rec r \<Longrightarrow> log_ok e (L(c := L c @ [r]))"
  by (auto simp: log_ok_def)

end
