(* ===== verification/BucketRep.thy ===== *)
theory BucketRep
  imports Bucket HintKeys LogSeq
begin

text \<open>
  What a bucket represents.  The specification \<open>spec_set\<close> is the decision \<open>checkAndSet\<close> makes on the value a key has; the
  invariant \<open>bkt_rep\<close> says that the data store, the tree and the hints of a bucket together represent a map from keys to values, for
  a set of keys without equal hashes, and that the tree points to the last record of every key in the log.  The lemmas show that writes, reads, flushes and dumps keep it and do what the map says.
\<close>

unbundle bit_operations_syntax

section \<open>Definitions\<close>

text \<open>A value of the map: its version, hash, time, flag and body, and the version its record has on disk.\<close>

record Val =
  av_Ver :: i32
  av_Vhash :: u16
  av_TS :: u32
  av_Flag :: u32
  av_Body :: bytes
  av_Rec :: i32

definition spec_vhash :: "Payload \<Rightarrow> u16" where
  "spec_vhash v = (if 0 \<le>s Ver v then Getvhash (pBody v) else ValueHash v)"

definition spec_set :: "HStoreConfig \<Rightarrow> Payload \<Rightarrow> Val option \<Rightarrow> StoreErr option \<times> Val option" where
  "spec_set c v old =
     (let oldv = (case old of Some a \<Rightarrow> av_Ver a | None \<Rightarrow> 0) in
      if 0 <s oldv \<and> map_option av_Vhash old = Some (spec_vhash v) \<and> CheckVHash c
      then (None, if Ver v = 0 then old else map_option (\<lambda>a. a\<lparr>av_Ver := Ver v\<rparr>) old)
      else case checkAndUpdateVerison oldv (Ver v) of
        (ver, False) \<Rightarrow> (None, old)
      | (ver, True) \<Rightarrow>
          if ver <s 0 \<and> (old = None \<or> oldv <s 0) then (Some NotFoundErr, old)
          else (None, Some \<lparr>av_Ver = ver, av_Vhash = spec_vhash v, av_TS = TS v, av_Flag = Flag v, av_Body = pBody v, av_Rec = ver\<rparr>))"

text \<open>What \<open>get\<close> returns for the value of a key.\<close>

definition returns :: "Val option \<Rightarrow> get_res \<Rightarrow> bool" where
  "returns a r \<longleftrightarrow> snd (snd r) = None \<and>
     (case a of
        None \<Rightarrow> fst r = None
      | Some x \<Rightarrow> \<exists>p. fst r = Some p \<and> Ver p = av_Ver x \<and> TS p = av_TS x \<and> Flag p = av_Flag x \<and> pBody p = av_Body x)"

text \<open>The keys a bucket is asked for, the values it is given, and the limits of the configuration.\<close>

definition bkt_key :: "Env \<Rightarrow> bytes set \<Rightarrow> int \<Rightarrow> KeyInfo \<Rightarrow> bool" where
  "bkt_key e K bid ki \<longleftrightarrow> Key ki \<in> K \<and> StringKey ki = Key ki \<and> KeyHash ki = getKeyHash e (Key ki) \<and> htree_key_ok (conf e) bid ki"

definition storable :: "Env \<Rightarrow> bytes \<Rightarrow> Payload \<Rightarrow> bool" where
  "storable e k v \<longleftrightarrow> acceptable e \<lparr>rKey = k, rPayload = v\<rparr> \<and> (pBody v \<noteq> [] \<or> rec_Size \<lparr>rKey = k, rPayload = v\<rparr> \<le> 256)"

definition bkt_limits :: "Env \<Rightarrow> bytes set \<Rightarrow> bool" where
  "bkt_limits e K \<longleftrightarrow> chunk_limits e \<and> qlz_ok e \<and> mem_ok e \<and> inj_on (getKeyHash e) K \<and>
     conf_ok (conf e) \<and> 2 \<le> TreeHeight (conf e) \<and> hint_limits (conf e)"

text \<open>The invariant: the record of every value is where the tree says.  \<open>loc\<close> says which record a position has.\<close>

definition val_on :: "(Position \<Rightarrow> Record \<Rightarrow> bool) \<Rightarrow> bytes \<Rightarrow> Val \<Rightarrow> HTreeItem \<Rightarrow> bool" where
  "val_on loc k a it \<longleftrightarrow> it_Ver it = av_Ver a \<and> it_Vhash it = av_Vhash a \<and>
     (\<exists>rec. loc (it_Pos it) rec \<and> rKey rec = k \<and> TS (rPayload rec) = av_TS a \<and> Flag (rPayload rec) = av_Flag a \<and>
        pBody (rPayload rec) = av_Body a \<and> Ver (rPayload rec) = av_Rec a)"

definition index_on :: "Env \<Rightarrow> bytes set \<Rightarrow> (Position \<Rightarrow> Record \<Rightarrow> bool) \<Rightarrow> (u64 \<rightharpoonup> HTreeItem) \<Rightarrow> (bytes \<rightharpoonup> Val) \<Rightarrow> bool" where
  "index_on e K loc hm m \<longleftrightarrow> (\<forall>k \<in> K. rel_option (val_on loc k) (m k) (hm (getKeyHash e k)))"

definition keys_in :: "bytes set \<Rightarrow> (int \<Rightarrow> Record list) \<Rightarrow> bool" where
  "keys_in K L \<longleftrightarrow> (\<forall>c. \<forall>r \<in> set (L c). rKey r \<in> K)"

text \<open>The keys of the set that belong to the bucket.\<close>

definition bkt_dom :: "Env \<Rightarrow> bytes set \<Rightarrow> int \<Rightarrow> bytes set" where
  "bkt_dom e K bid = {k \<in> K. in_bucket (conf e) bid (getKeyHash e k)}"

definition bkt_ctl :: "Env \<Rightarrow> bytes set \<Rightarrow> Bucket \<Rightarrow> bool" where
  "bkt_ctl e K b \<longleftrightarrow> hints_ok (conf e) (getKeyHash e) K (bk_hints b) \<and> chunk_in_range (ds_newHead (bk_datas b)) \<and>
     hm_maxChunkID (bk_hints b) \<le> ds_newHead (bk_datas b) \<and> 0 \<le> bk_NextGCChunk b"

definition bkt_rep :: "Env \<Rightarrow> bytes set \<Rightarrow> int \<Rightarrow> Bucket \<Rightarrow> (bytes \<rightharpoonup> Val) \<Rightarrow> bool" where
  "bkt_rep e K bid b m \<longleftrightarrow> bkt_ctl e K b \<and>
     (\<exists>L Q hm. ds_inv e [] (bk_datas b) Idle L Q Q \<and> keys_in (bkt_dom e K bid) L \<and> htree_rep (conf e) bid (bk_htree b) hm \<and>
        index_on e K (logged_at e L) hm m \<and> log_ok e L \<and> newest e K (log_seq L 0 (ds_newHead (bk_datas b))) hm)"

text \<open>\<open>TryCompress\<close> returns unless it meets an empty body.\<close>

definition no_panic :: "Record \<Rightarrow> bool" where
  "no_panic rec \<longleftrightarrow> pBody (rPayload rec) \<noteq> [] \<or> rec_Size rec \<le> 256 \<or> Flag (rPayload rec) AND FLAG_COMPRESS \<noteq> 0"

section \<open>Positions survive the tree\<close>

lemma and_not_255:
  assumes "256 dvd n"
  shows "(of_nat n :: u32) AND NOT 255 = of_nat n"
proof -
  obtain q where "n = 256 * q" using assms by blast
  then have n: "(of_nat n :: u32) = push_bit 8 (of_nat q)" by (simp add: push_bit_eq_mult)
  have m: "(255 :: u32) = mask 8" by (simp add: mask_eq_exp_minus_1)
  show ?thesis unfolding n m by (rule bit_word_eqI) (auto simp: bit_simps)
qed

lemma logged_norm:
  assumes "logged_at e L pos rec" "\<forall>r \<in> set (L (ChunkID pos)). valid_rec e r"
  shows "ChunkID pos mod 65536 = ChunkID pos" "Offset pos AND NOT 255 = Offset pos" "chunk_in_range (ChunkID pos)"
proof -
  obtain i where i: "Offset pos = of_nat (rec_off (L (ChunkID pos)) i)" and c: "chunk_in_range (ChunkID pos)"
    using assms(1) by (auto simp: logged_at_def)
  show "Offset pos AND NOT 255 = Offset pos" unfolding i by (rule and_not_255 [OF rec_off_aligned [OF assms(2)]])
  show "ChunkID pos mod 65536 = ChunkID pos" using c by (simp add: chunk_in_range_def MAX_NUM_CHUNK_def)
  show "chunk_in_range (ChunkID pos)" by (rule c)
qed

lemma ds_inv_valid: "ds_inv e log ds ph L Q P \<Longrightarrow> \<forall>r \<in> set (L c). valid_rec e r"
  by (simp add: ds_inv_def chunk_rep_def)

lemma logged_read:
  assumes "ds_inv e log ds ph L Q P" "logged_at e L pos rec" "qlz_ok e" "mem_ok e"
  shows "\<exists>rec' b d'. GetRecordByPos e pos ds d = Some ((Inr rec', b), d') \<and> same_content rec' rec"
proof -
  let ?c = "ChunkID pos"
  have rep: "chunk_rep e (ds_chunks ds ?c) (L ?c) (Q ?c) (P ?c)" using assms by (auto simp: ds_inv_def)
  obtain i where i: "i < length (L ?c)" "Offset pos = of_nat (rec_off (L ?c) i)" "stored_as e rec (L ?c ! i)"
      and c: "chunk_in_range ?c" using assms(2) by (auto simp: logged_at_def)
  from chunk_read [OF rep i(1) assms(3,4) i(3), of d] i(2) c show ?thesis by (simp add: GetRecordByPos_def)
qed

section \<open>The value on its way to the data store\<close>

lemma CCompress_total:
  assumes "qlz_ok e" "mem_ok e" "src \<noteq> []" "length src + 400 < 2 ^ 32"
  shows "\<exists>cmp d'. CCompress e src d = Some (Some cmp, d')"
proof -
  have "length (qlz_compress e src) \<le> length src + 400" using assms(1,3,4) unfolding qlz_ok_def by blast
  moreover obtain a d1 where "Alloc (mcconf e) (memenv e) (int (length src) + 400) d = Some (Some a, d1)"
    using Alloc_ok [OF assms(2), of "int (length src) + 400" d] by auto
  ultimately show ?thesis using assms(2,3) by (simp add: CCompress_def mem_ok_def)
qed

lemma TryCompress_total:
  assumes "qlz_ok e" "mem_ok e" "no_panic rec"
    and "Flag (rPayload rec) AND FLAG_COMPRESS \<noteq> 0 \<or> length (pBody (rPayload rec)) + 400 < 2 ^ 32"
  shows "\<exists>r d'. TryCompress e rec d = Some (r, d')"
proof -
  let ?b = "pBody (rPayload rec)"
  let ?part = "if length ?b > TRY_COMPRESS_SIZE then take TRY_COMPRESS_SIZE ?b else ?b"
  have c: "\<exists>cmp d'. CCompress e ?part d = Some (Some cmp, d')" "\<exists>cmp d'. CCompress e ?b d = Some (Some cmp, d')"
    if "?b \<noteq> []" "length ?b + 400 < 2 ^ 32" for d
    using that by (intro CCompress_total [OF assms(1,2)]; simp add: TRY_COMPRESS_SIZE_def)+
  show ?thesis
  proof (cases "?b = [] \<or> Flag (rPayload rec) AND FLAG_COMPRESS \<noteq> 0")
    case False
    then have b: "?b \<noteq> []" "length ?b + 400 < 2 ^ 32" using assms(4) by auto
    obtain cmp d1 where 1: "CCompress e ?part d = Some (Some cmp, d1)" using c(1) [OF b] by blast
    obtain cmp2 d2 where 2: "CCompress e ?b (snd (Free cmp d1)) = Some (Some cmp2, d2)" using c(2) [OF b] by blast
    show ?thesis unfolding TryCompress_def Let_def 1 by (simp add: 2)
  qed (use assms(3) in \<open>auto simp: TryCompress_def no_panic_def Let_def\<close>)
qed

text \<open>Compressing once more what stands for \<open>orig\<close> gives what stands for \<open>orig\<close>.\<close>

lemma TryCompress_again:
  assumes "acceptable e orig" "stored_as e orig r" "valid_rec e r" "qlz_ok e" "TryCompress e r d = Some (r', d')"
  shows "stored_as e orig r' \<and> valid_rec e r'"
proof (cases "r' = r")
  case False
  then have f: "Flag (rPayload r) AND FLAG_COMPRESS = 0" using TryCompress_cases [OF assms(5)] by blast
  have same: "Flag (rPayload r) = Flag (rPayload orig)" "pBody (rPayload r) = pBody (rPayload orig)"
    using assms(2) f flag_add_compress(1) by (auto simp: stored_as_def)
  then have "acceptable e r" using assms(1,2) by (simp add: acceptable_def stored_as_def)
  from TryCompress_stored [OF this assms(4,5)] show ?thesis using assms(2) same by (auto simp: stored_as_def)
qed (use assms in simp)

lemma stored_short:
  "stored_as e orig r \<Longrightarrow> Flag (rPayload r) AND FLAG_COMPRESS \<noteq> 0 \<or> length (pBody (rPayload r)) + 400 < 2 ^ 32"
  using flag_add_compress(1) by (auto simp: stored_as_def)

lemma TryCompress_meta:
  assumes "TryCompress e rec d = Some (r, d')"
  shows "Ver (rPayload r) = Ver (rPayload rec)" "ValueHash (rPayload r) = ValueHash (rPayload rec)" "rKey r = rKey rec"
    "no_panic rec \<Longrightarrow> no_panic r"
proof -
  let ?p = "rPayload rec" and ?q = "rPayload r"
  have "r = rec \<or> (Flag ?p AND FLAG_COMPRESS = 0 \<and> r = rec\<lparr>rPayload := ?p\<lparr>carr := carr ?q, Flag := Flag ?p + FLAG_COMPRESS\<rparr>\<rparr>)"
    using TryCompress_cases [OF assms] by blast
  then have "Ver ?q = Ver ?p \<and> ValueHash ?q = ValueHash ?p \<and> rKey r = rKey rec \<and> (no_panic rec \<longrightarrow> no_panic r)"
  proof (elim disjE conjE)
    assume f: "Flag ?p AND FLAG_COMPRESS = 0"
      and r: "r = rec\<lparr>rPayload := ?p\<lparr>carr := carr ?q, Flag := Flag ?p + FLAG_COMPRESS\<rparr>\<rparr>"
    have "Ver ?q = Ver ?p" "ValueHash ?q = ValueHash ?p" "rKey r = rKey rec" "Flag ?q = Flag ?p + FLAG_COMPRESS" by (subst r, simp)+
    then show ?thesis using flag_add_compress(1) [OF f] by (simp add: no_panic_def)
  qed simp
  then show "Ver ?q = Ver ?p" "ValueHash ?q = ValueHash ?p" "rKey r = rKey rec" "no_panic rec \<Longrightarrow> no_panic r" by blast+
qed

section \<open>Flushing and dumping\<close>

lemma ds_flush_inv:
  assumes "ds_inv e log ds Idle L Q P" "ds_flush c force recent ds d = Some (ds', d')"
  shows "ds_newHead ds' = ds_newHead ds \<and> (\<exists>Q'. ds_inv e log ds' Idle L Q' Q')"
proof -
  define k where "k = (if c < 0 then ds_newHead ds else c)"
  define dc where "dc = ds_chunks ds k"
  have PQ: "P = Q" and rep: "chunk_rep e dc (L k) (Q k) (Q k)" and cid: "dc_chunkid dc = k"
    using assms(1) by (auto simp: ds_inv_def phase_ok_def dc_def)
  obtain at where g: "GetStreamWriter (dc_file dc) True = Some (at, getDiskFileSize dc, dc_bytes dc)"
    using flush_check_ok [OF rep] by blast
  let ?f = "dc\<lparr>dc_file := Some (dc_bytes dc)\<rparr>" and ?n = "length (dc_wbuf dc)"
  obtain fl dc1 d1 where w: "dc_flush_write False ?n ?f d = (fl, dc1, d1)" by (metis prod_cases3)
  have rep1: "chunk_rep e dc1 (L k) (Q k) (Q k + ?n)"
    using chunk_rep_flush_write [OF chunk_rep_file [OF rep refl] _ w] by simp
  let ?dc2 = "fst (dc_flush_drop ?n dc1 d1)"
  have rep2: "chunk_rep e ?dc2 (L k) (Q k + ?n) (Q k + ?n)" using chunk_rep_flush_drop [OF rep1, of d1] by simp
  have cid2: "dc_chunkid ?dc2 = k" using flush_write_chunkid [OF w] cid by (simp add: dc_flush_drop_def)
  have inv: "ds_inv e log (upd_chunk k ?dc2 ds) Idle L (Q(k := Q k + ?n)) (Q(k := Q k + ?n))"
    using PQ by (intro ds_inv_upd [OF assms(1) [unfolded PQ] rep2 cid2]) (simp add: phase_ok_def)
  have "ds' = ds \<or> ds' = (upd_chunk k ?dc2 ds)\<lparr>ds_wbufSize := ds_wbufSize ds - fl\<rparr>"
    using assms(2) g w unfolding ds_flush_def Let_def k_def [symmetric] dc_def [symmetric]
    by (auto simp: dc_flush_def Let_def upd_chunk_def split: if_splits prod.splits)
  then show ?thesis using assms(1) PQ ds_inv_wbufSize [OF inv, of "ds_wbufSize ds - fl"]
    by (auto simp: upd_chunk_def)
qed

section \<open>Reading and writing\<close>

lemma lookup_pos_rep:
  assumes "bkt_ctl e K b" "htree_rep (conf e) bid (bk_htree b) hm" "bkt_key e K bid ki"
  shows "lookup_pos e ki b = Some (case hm (getKeyHash e (Key ki)) of
      None \<Rightarrow> (None, \<lparr>ChunkID = 0, Offset = 0\<rparr>)
    | Some it \<Rightarrow> (Some \<lparr>TS = 0, Flag = 0, Ver = it_Ver it, ValueHash = it_Vhash it, RecSize = 0\<rparr>, it_Pos it))"
proof -
  have h: "conf_ok (conf e)" "tree_rep (conf e) (bk_htree b) hm" "ki_for (conf e) (bk_htree b) ki" "KeyHash ki = getKeyHash e (Key ki)"
    using assms(2,3) by (auto simp: htree_rep_def bkt_key_def htree_key_ok_def ki_for_def)
  show ?thesis using htree_get_rep [OF h(1-3)] assms(1) h(4)
    by (simp add: lookup_pos_def bkt_ctl_def hints_ok_def ct_get_def split: option.split)
qed

lemma bkt_get_mem:
  assumes "bkt_rep e K bid b m" "bkt_key e K bid ki"
  shows "\<exists>pl pos. bkt_get e ki True b d = Some ((pl, pos, None), b, d) \<and>
    rel_option (\<lambda>a p. Ver p = av_Ver a \<and> ValueHash p = av_Vhash a) (m (Key ki)) pl"
proof -
  obtain L hm where r: "htree_rep (conf e) bid (bk_htree b) hm" "index_on e K (logged_at e L) hm m" "bkt_ctl e K b"
    using assms(1) by (auto simp: bkt_rep_def)
  have "rel_option (val_on (logged_at e L) (Key ki)) (m (Key ki)) (hm (getKeyHash e (Key ki)))"
    using r(2) assms(2) by (auto simp: index_on_def bkt_key_def)
  then show ?thesis using lookup_pos_rep [OF r(3,1) assms(2)]
    by (auto simp: bkt_get_def meta_payload_def val_on_def option_rel_Some1 rel_option_iff split: option.splits)
qed

lemma bkt_get_full:
  assumes "bkt_rep e K bid b m" "bkt_key e K bid ki" "qlz_ok e" "mem_ok e"
  shows "\<exists>r d'. bkt_get e ki False b d = Some (r, b, d') \<and> returns (m (Key ki)) r"
proof -
  obtain L Q hm where r: "htree_rep (conf e) bid (bk_htree b) hm" "index_on e K (logged_at e L) hm m" "bkt_ctl e K b"
      "ds_inv e [] (bk_datas b) Idle L Q Q" "keys_in (bkt_dom e K bid) L"
    using assms(1) by (auto simp: bkt_rep_def)
  note l = lookup_pos_rep [OF r(3,1) assms(2)]
  have v: "rel_option (val_on (logged_at e L) (Key ki)) (m (Key ki)) (hm (getKeyHash e (Key ki)))"
    using r(2) assms(2) by (auto simp: index_on_def bkt_key_def)
  show ?thesis
  proof (cases "m (Key ki)")
    case None
    then show ?thesis using v l by (simp add: bkt_get_def returns_def)
  next
    case (Some a)
    then obtain it rec where it: "hm (getKeyHash e (Key ki)) = Some it" "it_Ver it = av_Ver a" "logged_at e L (it_Pos it) rec"
      "rKey rec = Key ki" "TS (rPayload rec) = av_TS a" "Flag (rPayload rec) = av_Flag a" "pBody (rPayload rec) = av_Body a"
      using v by (auto simp: option_rel_Some1 val_on_def)
    obtain rec' bf d' where g: "GetRecordByPos e (it_Pos it) (bk_datas b) d = Some ((Inr rec', bf), d')" "same_content rec' rec"
      using logged_read [OF r(4) it(3) assms(3,4)] by blast
    then show ?thesis using l it Some by (simp add: bkt_get_def returns_def same_content_def)
  qed
qed

lemma index_on_upd:
  assumes "index_on e K loc hm m" "inj_on (getKeyHash e) K" "k \<in> K" "val_on loc' k a it"
    and "\<And>k' it' rec. k' \<in> K \<Longrightarrow> k' \<noteq> k \<Longrightarrow> hm (getKeyHash e k') = Some it' \<Longrightarrow> rKey rec = k' \<Longrightarrow> loc (it_Pos it') rec \<Longrightarrow> loc' (it_Pos it') rec"
  shows "index_on e K loc' (hm(getKeyHash e k \<mapsto> it)) (m(k \<mapsto> a))"
proof -
  have "rel_option (val_on loc' k') (m k') (hm (getKeyHash e k'))" if "k' \<in> K" "k' \<noteq> k" for k'
    using assms(1) that assms(5) [OF that] by (fastforce simp: index_on_def rel_option_iff val_on_def split: option.splits)
  then show ?thesis using assms(2-4) by (auto simp: index_on_def inj_on_def)
qed

lemma keys_in_append: "keys_in K L \<Longrightarrow> rKey r \<in> K \<Longrightarrow> keys_in K (L(c := L c @ [r]))"
  by (auto simp: keys_in_def)

text \<open>The position that \<open>AppendRecord\<close> returns is in the chunk appended to, and there is one while a chunk number is left.\<close>

lemma ds_AppendRecord_total:
  assumes "TryCompress e rec d = Some (r, d1)" "0 \<le> ds_newHead ds" "ds_newHead ds + 1 < MAX_NUM_CHUNK"
  shows "\<exists>pos bg wk ds' d'. ds_AppendRecord e rec ds d = Some (pos, bg, wk, ds', d') \<and>
    ChunkID pos = ds_newHead ds' \<and> ds_newHead ds \<le> ds_newHead ds' \<and> chunk_in_range (ds_newHead ds')"
  using assms by (auto simp: ds_AppendRecord_def Let_def chunk_in_range_def)

lemma htree_set_val:
  assumes "htree_rep (conf e) bid t hm" "htree_key_ok (conf e) bid ki" "logged_at e L pos rec" "\<forall>r \<in> set (L (ChunkID pos)). valid_rec e r"
  shows "\<exists>t'. htree_set (conf e) fresh t ki meta pos = Some t' \<and> htree_rep (conf e) bid t'
    (hm(KeyHash ki \<mapsto> \<lparr>it_Keyhash = 0, it_Pos = pos, it_Ver = Ver meta, it_Vhash = ValueHash meta\<rparr>))"
proof -
  have h: "conf_ok (conf e)" "2 \<le> TreeHeight (conf e)" "tree_rep (conf e) t hm" "ki_for (conf e) t ki" "t_bucketID t = bid"
    using assms(1,2) by (auto simp: htree_rep_def htree_key_ok_def ki_for_def)
  have pos: "\<lparr>ChunkID = ChunkID pos, Offset = Offset pos\<rparr> = pos" by simp
  show ?thesis using htree_set_rep [OF h(1-4), of fresh meta pos] h logged_norm [OF assms(3,4)]
    by (auto simp: htree_rep_def norm_item_def pos)
qed

lemma bkt_set_rep:
  assumes R: "bkt_rep e K bid b m" and ki: "bkt_key e K bid ki" and lim: "bkt_limits e K" and head: "ds_newHead (bk_datas b) + 1 < MAX_NUM_CHUNK"
    and orig: "rKey orig = Key ki" "acceptable e orig" "stored_as e orig \<lparr>rKey = Key ki, rPayload = v\<rparr>"
      "valid_rec e \<lparr>rKey = Key ki, rPayload = v\<rparr>" "no_panic \<lparr>rKey = Key ki, rPayload = v\<rparr>" "Ver v \<noteq> 0"
  shows "\<exists>b' d'. bkt_set e oe ki v b d = Some (b', d') \<and> bkt_rep e K bid b' (m(Key ki \<mapsto> \<lparr>av_Ver = Ver v, av_Vhash = ValueHash v,
     av_TS = TS (rPayload orig), av_Flag = Flag (rPayload orig), av_Body = pBody (rPayload orig), av_Rec = Ver v\<rparr>))"
proof -
  let ?rec = "\<lparr>rKey = Key ki, rPayload = v\<rparr>" and ?c = "conf e"
  let ?a = "\<lparr>av_Ver = Ver v, av_Vhash = ValueHash v, av_TS = TS (rPayload orig), av_Flag = Flag (rPayload orig), av_Body = pBody (rPayload orig), av_Rec = Ver v\<rparr>"
  have L: "chunk_limits e" "qlz_ok e" "mem_ok e" "inj_on (getKeyHash e) K" "hint_limits ?c" using lim by (simp_all add: bkt_limits_def)
  obtain L Q hm where r: "htree_rep ?c bid (bk_htree b) hm" "index_on e K (logged_at e L) hm m" "bkt_ctl e K b"
      "ds_inv e [] (bk_datas b) Idle L Q Q" "keys_in (bkt_dom e K bid) L" "log_ok e L" "newest e K (log_seq L 0 (ds_newHead (bk_datas b))) hm"
    using R by (auto simp: bkt_rep_def)
  have ctl: "0 \<le> ds_newHead (bk_datas b)" "hm_maxChunkID (bk_hints b) \<le> ds_newHead (bk_datas b)" "0 \<le> bk_NextGCChunk b"
      "hints_ok ?c (getKeyHash e) K (bk_hints b)"
    using r(3) by (simp_all add: bkt_ctl_def chunk_in_range_def)
  obtain rec1 d1 where t: "TryCompress e ?rec d = Some (rec1, d1)"
    using TryCompress_total [OF L(2,3) orig(5), of d] stored_short [OF orig(3)] by auto
  obtain pos bg wk ds d' where a: "ds_AppendRecord e ?rec (bk_datas b) d = Some (pos, bg, wk, ds, d')"
      "ChunkID pos = ds_newHead ds" "ds_newHead (bk_datas b) \<le> ds_newHead ds" "chunk_in_range (ds_newHead ds)"
    using ds_AppendRecord_total [OF t ctl(1) head] by blast
  have "\<exists>rec. stored_as e orig rec \<and> ds_inv e [(pos, orig)] ds Idle (L(ChunkID pos := L (ChunkID pos) @ [rec])) Q Q \<and>
      Offset pos = of_nat (rec_off (L (ChunkID pos)) (length (L (ChunkID pos))))"
    using TryCompress_again [OF orig(2-4) L(2)] by (rule ds_append_stored [OF r(4) L(1) _ a(1)])
  then obtain rec where st: "stored_as e orig rec" and inv: "ds_inv e [(pos, orig)] ds Idle (L(ChunkID pos := L (ChunkID pos) @ [rec])) Q Q"
      and off: "Offset pos = of_nat (rec_off (L (ChunkID pos)) (length (L (ChunkID pos))))"
    by blast
  define L' where "L' = L(ChunkID pos := L (ChunkID pos) @ [rec])"
  have lg: "logged_at e L' pos orig" "ds_inv e [] ds Idle L' Q Q" using inv by (simp_all add: ds_inv_def L'_def)
  let ?v1 = "rPayload (wr_rec (wrapRecord rec1))"
  have meta: "Ver ?v1 = Ver v" "ValueHash ?v1 = ValueHash v" using TryCompress_meta [OF t] by (simp_all add: wrapRecord_def)
  have key: "KeyHash ki = getKeyHash e (Key ki)" "Key ki \<in> K" "htree_key_ok ?c bid ki" "StringKey ki = Key ki"
    using ki by (simp_all add: bkt_key_def)
  have "Key ki \<in> bkt_dom e K bid" using key by (simp add: bkt_dom_def htree_key_ok_def)
  then have keys: "keys_in (bkt_dom e K bid) L'" using keys_in_append [OF r(5)] st orig(1) by (simp add: L'_def stored_as_def)
  let ?it = "\<lparr>it_Keyhash = 0, it_Pos = pos, it_Ver = Ver v, it_Vhash = ValueHash v\<rparr>"
  obtain tr where tr: "htree_set ?c (op_fresh oe) (bk_htree b) ki ?v1 pos = Some tr"
      "htree_rep ?c bid tr (hm(getKeyHash e (Key ki) \<mapsto> ?it))"
    using htree_set_val [OF r(1) key(3) lg(1) ds_inv_valid [OF lg(2)], of "op_fresh oe" ?v1] meta key(1) by auto
  have "hint_chunk_ok (ChunkID pos)" using a(2,4) by (simp add: chunk_in_range_def hint_chunk_ok_def)
  then obtain rot h where h: "hm_set ?c (op_now oe) (op_mergeChan oe) ki (Meta.truncate ?v1) pos (RecSize ?v1) ''set'' (bk_hints b) = Some (rot, h)"
      "hints_ok ?c (getKeyHash e) K h" "hm_maxChunkID h = max (hm_maxChunkID (bk_hints b)) (ChunkID pos)"
    using hm_set_ok [OF ctl(4) L(5), of pos ki] key by fastforce
  have "Ver (rPayload orig) = Ver v" using orig(3) by (simp add: stored_as_def)
  then have "index_on e K (logged_at e L') (hm(getKeyHash e (Key ki) \<mapsto> ?it)) (m(Key ki \<mapsto> ?a))"
    using lg(1) logged_append by (intro index_on_upd [OF r(2) L(4) key(2)]) (auto simp: val_on_def orig(1) L'_def)
  moreover have ver: "Ver (rPayload rec) = Ver v" "rKey rec = Key ki" using st orig(1,3) by (simp_all add: stored_as_def)
  moreover have "log_ok e L'" unfolding L'_def using a(2,4) ver orig(6) by (intro log_ok_append [OF r(6) _ _ st]) (auto simp: chunk_in_range_def)
  moreover have "newest e K (log_seq L' 0 (ds_newHead ds)) (hm(getKeyHash e (Key ki) \<mapsto> ?it))"
  proof -
    have "log_seq L 0 (ds_newHead ds) = log_seq L 0 (ds_newHead (bk_datas b))"
      using ctl(1) a(3) r(4) by (intro log_seq_extend) (auto simp: ds_inv_def)
    moreover have "\<lparr>ChunkID = ds_newHead ds, Offset = of_nat (rec_off (L (ds_newHead ds)) (length (L (ds_newHead ds))))\<rparr> = pos"
      using a(2) off by simp
    ultimately have "log_seq L' 0 (ds_newHead ds) = log_seq L 0 (ds_newHead (bk_datas b)) @ [(pos, rec)]"
      using log_seq_append [of 0 "ds_newHead ds" L rec] ctl(1) a(2,3) by (simp add: L'_def)
    then show ?thesis using newest_append [OF r(7) L(4), of rec ?it] key(2) ver(2) by simp
  qed
  ultimately have "bkt_rep e K bid (b\<lparr>bk_datas := ds, bk_htree := tr, bk_hints := h\<rparr>) (m(Key ki \<mapsto> ?a))"
    unfolding bkt_rep_def bkt_ctl_def using h(2,3) a(2-4) ctl lg(2) keys tr(2) by auto
  then show ?thesis using t a(1) tr(1) h(1) by (simp add: bkt_set_def)
qed

section \<open>The decision\<close>

lemma prepare_value_ok:
  assumes "storable e (Key ki) v0" "qlz_ok e" "mem_ok e"
  defines "orig \<equiv> \<lparr>rKey = Key ki, rPayload = v0\<rparr>"
  shows "\<exists>v d'. prepare_value e ki v0 d = Some (v, d') \<and> stored_as e orig \<lparr>rKey = Key ki, rPayload = v\<rparr> \<and>
    valid_rec e \<lparr>rKey = Key ki, rPayload = v\<rparr> \<and> no_panic \<lparr>rKey = Key ki, rPayload = v\<rparr> \<and>
    Ver v = Ver v0 \<and> ValueHash v = spec_vhash v0"
proof -
  let ?rec = "\<lparr>rKey = Key ki, rPayload = CalcValueHash v0\<rparr>"
  have acc: "acceptable e orig" "no_panic orig" using assms(1) by (auto simp: storable_def no_panic_def orig_def)
  then have len: "length (pBody v0) + 400 < 2 ^ 32" by (simp add: acceptable_def orig_def)
  have base: "stored_as e orig orig" "valid_rec e orig"
  proof -
    show "stored_as e orig orig" using acc(1) by (auto simp: stored_as_def acceptable_def)
    have "unat (of_nat (length (pBody v0)) :: u32) \<le> unat (of_nat (length (pBody v0) + 400) :: u32)"
      using len by (simp only: unsigned_of_nat take_bit_nat_eq_self) (simp add: take_bit_nat_eq_self)
    then have "IsValidValueSize (mcconf e) (of_nat (length (pBody v0)))"
      using acc(1) unfolding acceptable_def IsValidValueSize_def word_le_nat_alt orig_def by simp
    then show "valid_rec e orig" using acc(1) by (simp add: acceptable_def valid_rec_def orig_def)
  qed
  show ?thesis
  proof (cases "0 \<le>s Ver v0")
    case True
    have eq: "stored_as e ?rec r \<longleftrightarrow> stored_as e orig r" "acceptable e ?rec" "no_panic ?rec" for r
      using acc by (auto simp: stored_as_def acceptable_def no_panic_def CalcValueHash_def orig_def rec_Size_def Sizes_def)
    obtain r d1 where t: "TryCompress e ?rec d = Some (r, d1)"
      using TryCompress_total [OF assms(2,3) eq(3), of d] len by (auto simp: CalcValueHash_def)
    note m = TryCompress_meta [OF t] and st = TryCompress_stored [OF eq(2) assms(2) t]
    have r: "\<lparr>rKey = Key ki, rPayload = rPayload r\<rparr> = r" using m(3) by (cases r) simp
    show ?thesis using True t m(1,2,4) eq st r by (simp add: prepare_value_def CalcValueHash_def spec_vhash_def)
  qed (use base acc in \<open>simp add: prepare_value_def spec_vhash_def orig_def\<close>)
qed

lemma bkt_rep_stats: "bkt_rep e K bid (b\<lparr>bk_NumSameVhash := x, bk_SizeSameVhash := y, bk_SizeVhashKey := z\<rparr>) m = bkt_rep e K bid b m"
  by (simp add: bkt_rep_def bkt_ctl_def)

text \<open>The branch for an equal value hash: the tree gets the new version for the old position.\<close>

lemma same_vhash_rep:
  assumes "bkt_rep e K bid b m" "bkt_key e K bid ki" "bkt_limits e K" "m (Key ki) = Some a" "ValueHash v = av_Vhash a" "CheckVHash (conf e)"
    and "bkt_get e ki True b d = Some ((pl, pos, None), b', d')"
  shows "\<exists>t. htree_set (conf e) fresh (bk_htree b) ki v pos = Some t \<and>
    bkt_rep e K bid (b\<lparr>bk_htree := t\<rparr>) (m(Key ki \<mapsto> a\<lparr>av_Ver := Ver v\<rparr>))"
proof -
  obtain L Q hm where r: "htree_rep (conf e) bid (bk_htree b) hm" "index_on e K (logged_at e L) hm m" "bkt_ctl e K b"
      "ds_inv e [] (bk_datas b) Idle L Q Q" "keys_in (bkt_dom e K bid) L" "log_ok e L" "newest e K (log_seq L 0 (ds_newHead (bk_datas b))) hm"
    using assms(1) by (auto simp: bkt_rep_def)
  have key: "KeyHash ki = getKeyHash e (Key ki)" "Key ki \<in> K" "htree_key_ok (conf e) bid ki" using assms(2) by (simp_all add: bkt_key_def)
  obtain it rec where it: "hm (getKeyHash e (Key ki)) = Some it" "val_on (logged_at e L) (Key ki) a it" "logged_at e L (it_Pos it) rec"
    using r(2) key(2) assms(4) by (fastforce simp: index_on_def option_rel_Some1 val_on_def)
  have pos: "pos = it_Pos it" using assms(7) lookup_pos_rep [OF r(3,1) assms(2)] it(1) by (simp add: bkt_get_def)
  obtain t where t: "htree_set (conf e) fresh (bk_htree b) ki v pos = Some t" "htree_rep (conf e) bid t
      (hm(getKeyHash e (Key ki) \<mapsto> \<lparr>it_Keyhash = 0, it_Pos = pos, it_Ver = Ver v, it_Vhash = ValueHash v\<rparr>))"
    using htree_set_val [OF r(1) key(3) it(3) ds_inv_valid [OF r(4)], of fresh v] key(1) pos by auto
  have "index_on e K (logged_at e L) (hm(getKeyHash e (Key ki) \<mapsto> \<lparr>it_Keyhash = 0, it_Pos = pos, it_Ver = Ver v, it_Vhash = ValueHash v\<rparr>))
      (m(Key ki \<mapsto> a\<lparr>av_Ver := Ver v\<rparr>))"
    using it(2) assms(3,5) pos by (intro index_on_upd [OF r(2) _ key(2)]) (auto simp: val_on_def bkt_limits_def)
  moreover have "newest e K (log_seq L 0 (ds_newHead (bk_datas b)))
      (hm(getKeyHash e (Key ki) \<mapsto> \<lparr>it_Keyhash = 0, it_Pos = pos, it_Ver = Ver v, it_Vhash = ValueHash v\<rparr>))"
    using r(7) key(2) it(1) assms(3,6) pos by (intro newest_upd [OF r(7) _ key(2)]) (auto simp: bkt_limits_def newest_def newest_key_def dest!: bspec)
  ultimately show ?thesis using t r by (auto simp: bkt_rep_def bkt_ctl_def)
qed

lemma version_nonzero:
  assumes "checkAndUpdateVerison oldv ver = (r, True)"
  shows "r \<noteq> 0"
proof -
  have "oldv + 1 \<noteq> 0" if "0 \<le>s oldv" using that by (auto simp: add_eq_0_iff2 word_sle_eq)
  moreover have "- oldv + 1 \<noteq> 0" if "oldv <s 0" using that by (auto simp: add_eq_0_iff2 word_sless_alt)
  moreover have "- abs32 oldv - 1 \<noteq> 0"
  proof
    assume "- abs32 oldv - 1 = 0"
    then have "abs32 oldv = - 1" by (simp add: diff_eq_eq minus_equation_iff)
    then show False by (auto simp: abs32_def word_sless_alt split: if_splits)
  qed
  ultimately show ?thesis using assms by (auto simp: checkAndUpdateVerison_def word_sless_alt word_sle_eq not_le split: if_splits)
qed

lemma checkAndSet_rep:
  assumes R: "bkt_rep e K bid b m" and ki: "bkt_key e K bid ki" and lim: "bkt_limits e K" and head: "ds_newHead (bk_datas b) + 1 < MAX_NUM_CHUNK" and v0: "storable e (Key ki) v0"
  shows "\<exists>b' d'. checkAndSet e oe ki v0 b d = Some (fst (spec_set (conf e) v0 (m (Key ki))), b', d') \<and>
    bkt_rep e K bid b' (m(Key ki := snd (spec_set (conf e) v0 (m (Key ki)))))"
proof -
  let ?orig = "\<lparr>rKey = Key ki, rPayload = v0\<rparr>"
  have q: "qlz_ok e" "mem_ok e" using lim by (simp_all add: bkt_limits_def)
  obtain v d1 where p: "prepare_value e ki v0 d = Some (v, d1)" and v: "stored_as e ?orig \<lparr>rKey = Key ki, rPayload = v\<rparr>"
      "valid_rec e \<lparr>rKey = Key ki, rPayload = v\<rparr>" "no_panic \<lparr>rKey = Key ki, rPayload = v\<rparr>" "Ver v = Ver v0" "ValueHash v = spec_vhash v0"
    using prepare_value_ok [OF v0 q] by blast
  obtain pl pos where g: "bkt_get e ki True b d1 = Some ((pl, pos, None), b, d1)"
      and pl: "rel_option (\<lambda>a p. Ver p = av_Ver a \<and> ValueHash p = av_Vhash a) (m (Key ki)) pl"
    using bkt_get_mem [OF R ki] by blast
  define oldv where "oldv = (case m (Key ki) of Some a \<Rightarrow> av_Ver a | None \<Rightarrow> 0)"
  have old: "(case pl of Some p \<Rightarrow> Ver p | None \<Rightarrow> 0) = oldv" "(pl = None) = (m (Key ki) = None)"
    using pl by (auto simp: oldv_def rel_option_iff split: option.splits)
  define same where "same \<longleftrightarrow> 0 <s oldv \<and> map_option av_Vhash (m (Key ki)) = Some (spec_vhash v0)"
  have sm: "(case pl of Some p \<Rightarrow> 0 <s oldv \<and> ValueHash v = ValueHash p | None \<Rightarrow> False) = same"
    using pl v(5) by (auto simp: same_def rel_option_iff split: option.splits)
  show ?thesis
  proof (cases "same \<and> CheckVHash (conf e)")
    case True
    then obtain a where a: "m (Key ki) = Some a" "ValueHash v = av_Vhash a" "m(Key ki \<mapsto> a) = m"
      using v(5) by (auto simp: same_def fun_upd_idem)
    have sp: "spec_set (conf e) v0 (m (Key ki)) = (None, Some (if Ver v0 = 0 then a else a\<lparr>av_Ver := Ver v0\<rparr>))"
      using True a(1) by (simp add: spec_set_def same_def oldv_def)
    obtain t where t: "htree_set (conf e) (op_fresh oe) (bk_htree b) ki v pos = Some t"
        "bkt_rep e K bid (b\<lparr>bk_htree := t\<rparr>) (m(Key ki \<mapsto> a\<lparr>av_Ver := Ver v\<rparr>))"
      using same_vhash_rep [OF R ki lim a(1,2) _ g] True by blast
    have "checkAndSet e oe ki v0 b d = Some (None, if Ver v0 = 0 then b else b\<lparr>bk_htree := t\<rparr>, drop_payload v d1)"
      using True t(1) v(4) by (simp add: checkAndSet_def p g old(1) sm Let_def)
    then show ?thesis using t(2) a(3) R v(4) unfolding sp by simp
  next
    case False
    define b2 where "b2 = (if same then b\<lparr>bk_NumSameVhash := bk_NumSameVhash b + 1,
        bk_SizeSameVhash := bk_SizeSameVhash b + int (length (pBody v)), bk_SizeVhashKey := StringKey ki\<rparr> else b)"
    have R2: "bkt_rep e K bid b2 m" "ds_newHead (bk_datas b2) + 1 < MAX_NUM_CHUNK" using R head by (simp_all add: b2_def bkt_rep_stats)
    obtain ver valid where cv: "checkAndUpdateVerison oldv (Ver v0) = (ver, valid)" by (cases "checkAndUpdateVerison oldv (Ver v0)")
    let ?orig2 = "\<lparr>rKey = Key ki, rPayload = v0\<lparr>Ver := ver\<rparr>\<rparr>" and ?v = "v\<lparr>Ver := ver\<rparr>"
    have o: "rKey ?orig2 = Key ki" "acceptable e ?orig2" "stored_as e ?orig2 \<lparr>rKey = Key ki, rPayload = ?v\<rparr>"
      "valid_rec e \<lparr>rKey = Key ki, rPayload = ?v\<rparr>" "no_panic \<lparr>rKey = Key ki, rPayload = ?v\<rparr>"
      using v0 v(1-3) by (simp_all add: storable_def acceptable_def stored_as_def valid_rec_def no_panic_def rec_Size_def Sizes_def)
    have nz: "Ver ?v \<noteq> 0" if valid using version_nonzero [of oldv "Ver v0" ver] cv that by simp
    have "\<exists>b3 d3. bkt_set e oe ki ?v b2 d1 = Some (b3, d3) \<and> bkt_rep e K bid b3 (m(Key ki \<mapsto> \<lparr>av_Ver = ver, av_Vhash = spec_vhash v0,
        av_TS = TS v0, av_Flag = Flag v0, av_Body = pBody v0, av_Rec = ver\<rparr>))" if valid
      using bkt_set_rep [OF R2(1) ki lim R2(2) o nz [OF that], of oe d1] v(5) by auto
    then obtain b3 d3 where s: "valid \<Longrightarrow> bkt_set e oe ki ?v b2 d1 = Some (b3, d3)" "valid \<Longrightarrow> bkt_rep e K bid b3 (m(Key ki \<mapsto> \<lparr>av_Ver = ver,
        av_Vhash = spec_vhash v0, av_TS = TS v0, av_Flag = Flag v0, av_Body = pBody v0, av_Rec = ver\<rparr>))" by blast
    have F: "(same \<and> CheckVHash (conf e)) = False" using False by blast
    have cond: "(0 <s oldv \<and> map_option av_Vhash (m (Key ki)) = Some (spec_vhash v0) \<and> CheckVHash (conf e)) = False"
      using False by (auto simp: same_def)
    let ?nf = "ver <s 0 \<and> (m (Key ki) = None \<or> oldv <s 0)"
    have sp: "spec_set (conf e) v0 (m (Key ki)) = (if \<not> valid then (None, m (Key ki)) else if ?nf then (Some NotFoundErr, m (Key ki))
        else (None, Some \<lparr>av_Ver = ver, av_Vhash = spec_vhash v0, av_TS = TS v0, av_Flag = Flag v0, av_Body = pBody v0, av_Rec = ver\<rparr>))"
      unfolding spec_set_def Let_def oldv_def [symmetric] cond by (simp add: cv split: bool.split)
    have "checkAndSet e oe ki v0 b d = (if \<not> valid then Some (None, b2, drop_payload ?v d1)
        else if ?nf then Some (Some NotFoundErr, b2, drop_payload ?v d1) else Some (None, b3, d3))"
      by (simp add: checkAndSet_def p g old sm Let_def b2_def [symmetric] v(4) cv s(1) F) auto
    then show ?thesis using s(2) R2(1) unfolding sp by (auto simp del: fun_upd_apply)
  qed
qed

end
