(* ===== verification/MergeKeys.thy ===== *)
theory MergeKeys
  imports HintKeys HintMerge
begin

text \<open>
  Merging the hints of keys with different hashes: whatever way a merge ends, it enters nothing in the collision table, so the steps that a garbage
  collection with a merge takes first (\<open>forceRotateSplit\<close>, \<open>dumpAndMerge\<close>, \<open>Merge\<close>) keep the invariant \<open>hints_ok\<close>.  The keys have at most 255 bytes,
  the length a hint file has a byte for.
\<close>

section \<open>The writer\<close>

definition keyed :: "(bytes \<Rightarrow> u64) \<Rightarrow> bytes set \<Rightarrow> HintItem \<Rightarrow> bool" where
  "keyed hash K it \<longleftrightarrow> it_Key it \<in> K \<and> it_Keyhash it = hash (it_Key it)"

lemma key_item_keyed: "key_item hash K it \<Longrightarrow> keyed hash K it"
  by (simp add: key_item_def keyed_def)


definition mw_single :: "(bytes \<Rightarrow> u64) \<Rightarrow> bytes set \<Rightarrow> mergeWriter \<Rightarrow> bool" where
  "mw_single hash K mw \<longleftrightarrow> ct_Items (mw_ct mw) = Map.empty \<and> length (mw_buf mw) \<le> 1 \<and> (\<forall>it \<in> set (mw_buf mw). keyed hash K it)"

lemma mw_flush_single: "mw_single hash K mw \<Longrightarrow> mw_flush c mw = (ok, mw1) \<Longrightarrow> mw_single hash K mw1"
  by (auto simp: mw_flush_def mw_single_def split: option.splits)

lemma mw_write_single:
  assumes "mw_single hash K mw" "keyed hash K it" "inj_on hash K" "mw_write c it mw = (ok, mw1)"
  shows "mw_single hash K mw1"
proof (cases "mw_buf mw")
  case Nil
  then show ?thesis using assms by (auto simp: mw_write_def mw_single_def)
next
  case (Cons x xs)
  then have x: "mw_buf mw = [x]" "keyed hash K x" using assms(1) by (auto simp: mw_single_def)
  have "it_Key x = it_Key it" if "it_Keyhash x = it_Keyhash it" using that assms(2,3) x(2) by (auto simp: keyed_def dest: inj_onD)
  then show ?thesis using assms x mw_flush_single [OF assms(1), of c]
    by (auto simp: mw_write_def mw_single_def split: if_splits prod.splits)
qed

section \<open>The readers\<close>

definition mr_keys :: "(bytes \<Rightarrow> u64) \<Rightarrow> bytes set \<Rightarrow> mergeReader \<Rightarrow> bool" where
  "mr_keys hash K mr \<longleftrightarrow> keyed hash K (mr_curr mr) \<and>
     (\<exists>its. hint_scan (mr_r mr) = Inr its \<and> (\<forall>it \<in> set its. keyed hash K it))"

lemma keyed_chunk [simp]: "keyed hash K (set_chunk ck it) = keyed hash K it"
  by (simp add: keyed_def)

lemma mr_keys_next:
  assumes "mr_keys hash K mr" "hint_next (mr_r mr) = (Inr (Some it), r')"
  shows "mr_keys hash K \<lparr>mr_r = r', mr_curr = set_chunk (r_chunkID r') it\<rparr>"
  using assms hint_scan_step [of "mr_r mr"] by (auto simp: mr_keys_def)

lemma set_heap_pop: "xs \<noteq> [] \<Longrightarrow> heap_pop k xs = (x, ys) \<Longrightarrow> set xs = insert x (set ys)"
  using heap_pop_mset [of xs k x ys] by (metis set_mset_add_mset_insert set_mset_mset)

lemma set_heap_push: "set (heap_push k x xs) = insert x (set xs)"
  using heap_push_mset [of k x xs] by (metis set_mset_add_mset_insert set_mset_mset)

lemma merge_loop_single:
  assumes "\<forall>mr \<in> set h. mr_keys hash K mr" "mw_single hash K mw" "inj_on hash K"
  shows "mw_single hash K (snd (merge_loop c states forGC i h mw))"
  using assms(1,2)
proof (induction "merge_left h" arbitrary: i h mw rule: less_induct)
  case less
  show ?case
  proof (cases "h = [] \<or> states i AND HintStateGC \<noteq> 0 \<and> \<not> forGC")
    case True
    then show ?thesis using less.prems(2) by (auto simp: merge_loop.simps [of c states forGC i h])
  next
    case False
    obtain mr h1 where p: "heap_pop merge_key h = (mr, h1)" by fastforce
    obtain ok mw1 where w: "mw_write c (mr_curr mr) mw = (ok, mw1)" by fastforce
    have h: "mr_keys hash K mr" "\<forall>mr \<in> set h1. mr_keys hash K mr" using set_heap_pop [OF _ p] False less.prems(1) by auto
    have mw1: "mw_single hash K mw1" using mw_write_single [OF less.prems(2) _ assms(3) w] h(1) by (simp add: mr_keys_def)
    obtain x r' where n: "hint_next (mr_r mr) = (x, r')" by fastforce
    have pop: "mw_single hash K (snd (merge_loop c states forGC (i + 1) h1 mw1))"
      using less.hyps [OF merge_left_pop [OF _ p] h(2) mw1] False by blast
    have push: "mw_single hash K (snd (merge_loop c states forGC (i + 1) (heap_push merge_key \<lparr>mr_r = r', mr_curr = set_chunk (r_chunkID r') it\<rparr> h1) mw1))"
      if "x = Inr (Some it)" for it
      using less.hyps [OF merge_left_push [OF _ p n [unfolded that]] _ mw1] mr_keys_next [OF h(1) n [unfolded that]] h(2) False
      by (auto simp: set_heap_push)
    show ?thesis using False p w n mw1 pop push
      by (auto simp: merge_loop.simps [of c states forGC i h] split: bool.split sum.split option.split)
  qed
qed

section \<open>The sources\<close>

lemma file_open_keys:
  assumes "file_ok c hash K f" "\<forall>k \<in> K. length k < 256"
    and "hint_open (Some f) ck = Inr r" "hint_next r = (Inr (Some it), r')"
  shows "mr_keys hash K \<lparr>mr_r = r', mr_curr = set_chunk ck it\<rparr>"
proof -
  obtain its mx w where f: "write_items c its (newHintFileWriter mx) = Some w" "f = w_file (w_close w)" "length its < 4096 * 4096"
      "\<forall>it \<in> set its. key_item hash K it" using assms(1) by (auto simp: file_ok_def)
  have "\<forall>it \<in> set its. hint_item_ok it" using f(4) assms(2) by (auto simp: key_item_def hint_item_ok_def)
  from hint_file_written [OF this f(3), of c mx ck] f(1,2) assms(3) have s: "hint_scan r = Inr its" by auto
  then show ?thesis using hint_scan_step [OF s] f(4) assms(4) key_item_keyed by (auto simp: mr_keys_def)
qed

lemma merge_open_keys:
  assumes "\<forall>s \<in> set src. pred_option (file_ok c hash K) (fst s)" "\<forall>k \<in> K. length k < 256" "\<forall>mr \<in> set hp0. mr_keys hash K mr" "merge_open src ds hp0 = Inr (hp, ds')"
  shows "\<forall>mr \<in> set hp. mr_keys hash K mr"
  using assms(1,3,4)
proof (induction src arbitrary: ds hp0)
  case (Cons s src)
  obtain f ck where s: "s = (f, ck)" by (cases s)
  obtain r it r' where o: "hint_open f ck = Inr r" "hint_next r = (Inr (Some it), r')"
    using Cons.prems(3) by (auto simp: s split: sum.splits option.splits prod.splits)
  obtain g where g: "f = Some g" using o(1) by (cases f) (auto simp: hint_open_def)
  have "mr_keys hash K \<lparr>mr_r = r', mr_curr = set_chunk ck it\<rparr>"
    using file_open_keys [OF _ assms(2) o(1) [unfolded g] o(2), of c hash] Cons.prems(1) by (simp add: s g)
  then have "\<forall>mr \<in> set (hp0 @ [\<lparr>mr_r = r', mr_curr = set_chunk ck it\<rparr>]). mr_keys hash K mr" using Cons.prems(2) by simp
  from Cons.IH [OF _ this] Cons.prems(1,3) o show ?case by (simp add: s)
qed simp

lemma merge_single:
  assumes "\<forall>s \<in> set src. pred_option (file_ok c hash K) (fst s)" "\<forall>k \<in> K. length k < 256" "inj_on hash K" "ct_Items ct = Map.empty"
    and "merge c' states create forGC src ct = (out, ct')"
  shows "ct_Items ct' = Map.empty"
proof (cases "merge_open src 0 []")
  case (Inr p)
  obtain hp ds where p: "p = (hp, ds)" by (cases p)
  have hp: "\<forall>mr \<in> set (heap_init merge_key hp). mr_keys hash K mr"
    using merge_open_keys [OF assms(1,2) _ Inr [unfolded p]] mset_eq_setD [OF heap_init_ok(2) [of merge_key hp]] by simp
  define w where "w = (if (\<not> NoMerged c' \<and> \<not> forGC) \<and> create then Some (newHintFileWriter ds) else None)"
  obtain o1 mw where l: "merge_loop c' states forGC 0 (heap_init merge_key hp) (newMergeWriter w ct) = (o1, mw)" by fastforce
  have "mw_single hash K (newMergeWriter w ct)" using assms(4) by (simp add: mw_single_def newMergeWriter_def)
  from merge_loop_single [OF hp this assms(3), of c' states forGC 0] l have mw: "mw_single hash K mw" by simp
  obtain ok mw1 where f: "mw_flush c' mw = (ok, mw1)" by fastforce
  note mw1 = mw_flush_single [OF mw f]
  show ?thesis using assms(5) mw mw1 unfolding merge_def Inr p sum.case prod.case Let_def w_def [symmetric] l f
    by (auto simp: mw_single_def split: if_splits option.splits bool.splits)
qed (use assms(4,5) in \<open>auto simp: merge_def\<close>)

section \<open>The manager\<close>

lemma Merge_ok:
  assumes "hints_ok c hash K h" "\<forall>k \<in> K. length k < 256" "inj_on hash K"
  shows "hints_ok c hash K (snd (Merge c' states create old forGC h))" "hm_maxChunkID (snd (Merge c' states create old forGC h)) = hm_maxChunkID h"
proof -
  define h1 where "h1 = RemoveMerged (h\<lparr>hm_state := hm_state h OR HintStateMerge\<rparr>)"
  define ids where "ids = Mapping.ordered_keys (hm_files h1)"
  define src where "src = map (\<lambda>p. (Mapping.lookup (hm_files h1) p, fst p)) ids"
  have h1: "hm_files h1 = hm_files h" "hm_collisions h1 = hm_collisions h" "hm_chunks h1 = hm_chunks h" "hm_maxChunkID h1 = hm_maxChunkID h"
    by (simp_all add: h1_def RemoveMerged_def)
  have src: "\<forall>s \<in> set src. pred_option (file_ok c hash K) (fst s)" using assms(1) by (auto simp: src_def h1 hints_ok_def option.pred_set)
  obtain out ct where m: "merge c' states create forGC src (hm_collisions h1) = (out, ct)" by fastforce
  have "ct_Items ct = Map.empty" using merge_single [OF src assms(2,3) _ m] assms(1) by (simp add: h1 hints_ok_def)
  then show "hints_ok c hash K (snd (Merge c' states create old forGC h))" "hm_maxChunkID (snd (Merge c' states create old forGC h)) = hm_maxChunkID h"
    using assms(1) h1 unfolding Merge_def Let_def h1_def [symmetric] ids_def [symmetric] src_def [symmetric] m prod.case
    by (simp_all add: hints_ok_def split: merge_outcome.split)
qed

lemma forceRotateSplit_ok:
  assumes "hints_ok c hash K h" "hint_limits c"
  shows "hints_ok c hash K (forceRotateSplit h)" "hm_maxChunkID (forceRotateSplit h) = hm_maxChunkID h"
  using hints_ok_upd [OF assms(1) hc_rotate_ok [OF hints_okD [OF assms(1)] assms(2)]] by (simp_all add: forceRotateSplit_def)

lemma dump_loop_ok:
  assumes "hints_ok c hash K h" "hint_limits c" "0 \<le> i" "i + int n \<le> MAX_NUM_CHUNK"
  shows "\<exists>s h'. dump_loop c now n i mx h = Some (s, h') \<and> hints_ok c hash K h' \<and> hm_maxChunkID h' = hm_maxChunkID h"
  using assms(1,3,4)
proof (induction n arbitrary: i mx h)
  case (Suc n)
  then have "hint_chunk_ok i" by (simp add: hint_chunk_ok_def)
  from trydump_ok [OF Suc.prems(1) assms(2) this, of now False] obtain s h1 where
    1: "trydump c now i False h = Some (s, h1)" "hints_ok c hash K h1" "hm_maxChunkID h1 = hm_maxChunkID h" by blast
  from Suc.IH [OF 1(2), of "i + 1"] Suc.prems 1 show ?case by simp
qed simp

lemma dumpAndMerge_ok:
  assumes "hints_ok c hash K h" "hint_limits c"
  shows "hints_ok c hash K (snd (snd (dumpAndMerge c now True h)))" "hm_maxChunkID (snd (snd (dumpAndMerge c now True h))) = hm_maxChunkID h"
proof -
  let ?h0 = "h\<lparr>hm_state := hm_state h OR HintStateDump\<rparr>"
  have "hints_ok c hash K ?h0" using assms(1) by (simp add: hints_ok_def)
  from dump_loop_ok [OF this assms(2), of 0 "nat MAX_NUM_CHUNK" now 0] obtain s h1 where
    "dump_loop c now (nat MAX_NUM_CHUNK) 0 0 ?h0 = Some (s, h1)" "hints_ok c hash K h1" "hm_maxChunkID h1 = hm_maxChunkID h"
    by (auto simp: MAX_NUM_CHUNK_def)
  then show "hints_ok c hash K (snd (snd (dumpAndMerge c now True h)))" "hm_maxChunkID (snd (snd (dumpAndMerge c now True h))) = hm_maxChunkID h"
    by (simp_all add: dumpAndMerge_def Let_def hints_ok_def)
qed

end
