(* ===== verification/GcMap.thy ===== *)
theory GcMap
  imports Gc BucketRep MergeKeys
begin

text \<open>
  Garbage collection keeps the map of a bucket.  While a collection copies records forward, a position in the tree is either one in a
  chunk already written or one in the part of a chunk not yet read (\<open>gc_loc\<close>); the loop invariant \<open>gc_data\<close> says what the files hold and
  that the writer never passes the reader.  The lemmas show that every step keeps the invariant, that a
  collection ends without an error, and that what it leaves represents the map it found.
\<close>

unbundle bit_operations_syntax

section \<open>Definitions\<close>

text \<open>A record in the part not yet read: from record \<open>i\<close> of chunk \<open>src\<close> on.\<close>

definition pending_at :: "Env \<Rightarrow> (int \<Rightarrow> Record list) \<Rightarrow> int \<Rightarrow> nat \<Rightarrow> Position \<Rightarrow> Record \<Rightarrow> bool" where
  "pending_at e L src i pos rec \<longleftrightarrow> chunk_in_range (ChunkID pos) \<and> src \<le> ChunkID pos \<and>
     (\<exists>j < length (L (ChunkID pos)). (ChunkID pos = src \<longrightarrow> i \<le> j) \<and> Offset pos = of_nat (rec_off (L (ChunkID pos)) j) \<and>
        stored_as e rec (L (ChunkID pos) ! j))"

definition gc_loc :: "Env \<Rightarrow> (int \<Rightarrow> Record list) \<Rightarrow> (int \<Rightarrow> Record list) \<Rightarrow> int \<Rightarrow> nat \<Rightarrow> Position \<Rightarrow> Record \<Rightarrow> bool" where
  "gc_loc e W L src i pos rec \<longleftrightarrow> logged_at e W pos rec \<or> pending_at e L src i pos rec"

text \<open>A chunk whose records are all on disk, and the chunk being written.\<close>

abbreviation flushed_rep :: "Env \<Rightarrow> dataChunk \<Rightarrow> Record list \<Rightarrow> bool" where
  "flushed_rep e dc rs \<equiv> chunk_rep e dc rs (length rs) (length rs)"

abbreviation log_size :: "Record list \<Rightarrow> nat" where
  "log_size rs \<equiv> rec_off rs (length rs)"

definition gc_dst :: "Env \<Rightarrow> dataChunk \<Rightarrow> Record list \<Rightarrow> bool" where
  "gc_dst e dc ws \<longleftrightarrow> dc_wbuf dc = [] \<and> (\<forall>r \<in> set ws. valid_rec e r) \<and> int (log_size ws) \<le> DataFileMax (conf e) \<and>
     (\<exists>f. gc_state dc f (concat (map rec_bytes ws)) \<and> int (length f) \<le> DataFileMax (conf e) \<and> (dc_rewriting dc \<or> length f \<le> log_size ws))"

text \<open>The chunks while chunk \<open>src\<close>, of which \<open>i\<close> records were read, is copied to chunk \<open>dst\<close>: \<open>W\<close> is what was written, \<open>L\<close> what the chunks
  held before, of which the first \<open>Q\<close> records were on disk.\<close>

definition gc_data :: "Env \<Rightarrow> dataStore \<Rightarrow> (int \<Rightarrow> Record list) \<Rightarrow> (int \<Rightarrow> nat) \<Rightarrow> (int \<Rightarrow> Record list) \<Rightarrow> int \<Rightarrow> nat \<Rightarrow> int \<Rightarrow> bool" where
  "gc_data e ds L Q W src i dst \<longleftrightarrow> (\<forall>c. dc_chunkid (ds_chunks ds c) = c) \<and> 0 \<le> dst \<and> dst \<le> src \<and>
     gc_dst e (ds_chunks ds dst) (W dst) \<and>
     (\<forall>c. 0 \<le> c \<and> c < src \<and> c \<noteq> dst \<longrightarrow> flushed_rep e (ds_chunks ds c) (W c)) \<and> (\<forall>c > dst. W c = []) \<and>
     (\<forall>c. (c < 0 \<or> src \<le> c) \<and> c \<noteq> dst \<longrightarrow> chunk_rep e (ds_chunks ds c) (L c) (Q c) (Q c)) \<and>
     (\<forall>c. int (log_size (W c)) \<le> DataFileMax (conf e)) \<and>
     (dst = src \<longrightarrow> log_size (W src) \<le> rec_off (L src) i)"

text \<open>The log while a collection runs: what was written, then what is not yet read.\<close>

definition gc_seq :: "(int \<Rightarrow> Record list) \<Rightarrow> (int \<Rightarrow> Record list) \<Rightarrow> int \<Rightarrow> nat \<Rightarrow> int \<Rightarrow> int \<Rightarrow> (Position \<times> Record) list" where
  "gc_seq W L src i dst nh = log_seq W 0 dst @ drop i (entries src (L src)) @ log_seq L (src + 1) nh"

text \<open>A collection that starts at chunk 0 (\<open>z\<close> is its first chunk) writes only records of keys the tree has.\<close>

definition gc_newest :: "int \<Rightarrow> Env \<Rightarrow> bytes set \<Rightarrow> int \<Rightarrow> (int \<Rightarrow> Record list) \<Rightarrow> (int \<Rightarrow> Record list) \<Rightarrow> int \<Rightarrow> nat \<Rightarrow> int \<Rightarrow>
    (u64 \<rightharpoonup> HTreeItem) \<Rightarrow> bool" where
  "gc_newest z e K nh W L src i dst hm \<longleftrightarrow> newest e K (gc_seq W L src i dst nh) hm \<and>
     (z = 0 \<longrightarrow> (\<forall>c. \<forall>r \<in> set (W c). hm (getKeyHash e (rKey r)) \<noteq> None))"

definition gc_bkt :: "int \<Rightarrow> Env \<Rightarrow> bytes set \<Rightarrow> int \<Rightarrow> (bytes \<rightharpoonup> Val) \<Rightarrow> int \<Rightarrow> (int \<Rightarrow> Record list) \<Rightarrow> (int \<Rightarrow> nat) \<Rightarrow> (int \<Rightarrow> Record list) \<Rightarrow>
    int \<Rightarrow> nat \<Rightarrow> int \<Rightarrow> Bucket \<Rightarrow> bool" where
  "gc_bkt z e K bid m nh L Q W src i dst b \<longleftrightarrow> gc_data e (bk_datas b) L Q W src i dst \<and> ds_newHead (bk_datas b) = nh \<and>
     bkt_ctl e K b \<and> keys_in (bkt_dom e K bid) W \<and> log_ok e W \<and>
     (\<exists>hm. htree_rep (conf e) bid (bk_htree b) hm \<and> index_on e K (gc_loc e W L src i) hm m \<and> gc_newest z e K nh W L src i dst hm)"

text \<open>What is known of the chunks before the collection: sizes, keys, and that the chunks up to \<open>en\<close> are on disk.\<close>

definition gc_log :: "Env \<Rightarrow> bytes set \<Rightarrow> int \<Rightarrow> int \<Rightarrow> int \<Rightarrow> (int \<Rightarrow> Record list) \<Rightarrow> (int \<Rightarrow> nat) \<Rightarrow> bool" where
  "gc_log e K bid nh en L Q \<longleftrightarrow> (\<forall>c. (\<forall>r \<in> set (L c). valid_rec e r \<and> rKey r \<in> bkt_dom e K bid) \<and> int (log_size (L c)) \<le> DataFileMax (conf e) \<and>
     (nh < c \<longrightarrow> L c = []) \<and> (0 \<le> c \<and> c \<le> en \<longrightarrow> Q c = length (L c))) \<and> en < nh \<and> log_ok e L"

section \<open>The chunk being written\<close>

lemma log_bytes [simp]: "length (concat (map rec_bytes rs)) = log_size rs"
  by (simp add: rec_off_def)

lemma data_file_32:
  assumes "chunk_limits e" "int n \<le> DataFileMax (conf e)"
  shows "n < 2 ^ 32" "unat (of_nat n :: u32) = n"
proof -
  have "int n < 2 ^ 32" using assms unfolding chunk_limits_def by linarith
  then show n: "n < 2 ^ 32" by simp
  then show "unat (of_nat n :: u32) = n" by (simp add: unsigned_of_nat take_bit_nat_eq_self)
qed

lemma log_size_0 [simp]: "log_size rs = 0 \<longleftrightarrow> rs = []"
  using rec_off_less [of 0 "length rs" rs] by (cases "rs = []") auto

lemma endGC_flushed:
  assumes "gc_dst e dc ws" "chunk_limits e"
  shows "flushed_rep e (endGCWriting dc) ws" "dc_chunkid (endGCWriting dc) = dc_chunkid dc"
proof -
  let ?n = "log_size ws" and ?new = "concat (map rec_bytes ws)"
  obtain f where a: "gc_state dc f ?new" "int (length f) \<le> DataFileMax (conf e)" "dc_rewriting dc \<or> length f \<le> ?n"
      "dc_wbuf dc = []" "\<forall>r \<in> set ws. valid_rec e r" "int ?n \<le> DataFileMax (conf e)"
    using assms(1) by (auto simp: gc_dst_def)
  note 32 = data_file_32 [OF assms(2) a(2)] data_file_32 [OF assms(2) a(6)]
  have lt: "dc_writingHead dc < dc_size dc \<longleftrightarrow> ?n < length f"
    using a(1) 32 by (auto simp: gc_state_def word_less_nat_alt max_def)
  have z: "dc_writingHead dc = 0 \<longleftrightarrow> ?new = []"
    using a(1) 32(3,4) by (auto simp: gc_state_def unat_eq_0 [symmetric] simp del: unat_eq_0)
  have "dc_bytes (endGCWriting dc) = ?new \<and> dc_size (endGCWriting dc) = of_nat ?n \<and> dc_writingHead (endGCWriting dc) = of_nat ?n \<and>
      \<not> dc_rewriting (endGCWriting dc) \<and> dc_wbuf (endGCWriting dc) = []"
    using a(1,3,4) lt z 32(4) by (auto simp: endGCWriting_def Let_def gc_state_def Truncate_def dc_bytes_def max_def)
  then show "flushed_rep e (endGCWriting dc) ws" using a(5) 32(3) by (simp add: chunk_rep_def)
  show "dc_chunkid (endGCWriting dc) = dc_chunkid dc" by (simp add: endGCWriting_def Truncate_def Let_def split: option.split)
qed

lemma beginGC_append:
  assumes "flushed_rep e dc ws" "chunk_limits e" "int (log_size ws) \<le> DataFileMax (conf e)" "dc_chunkid dc \<noteq> src"
  shows "\<exists>dc'. beginGCWriting src dc = Some dc' \<and> gc_dst e dc' ws \<and> dc_chunkid dc' = dc_chunkid dc"
proof -
  have c: "dc_bytes dc = concat (map rec_bytes ws)" "dc_wbuf dc = []" "dc_size dc = of_nat (log_size ws)" "\<not> dc_rewriting dc"
      "\<forall>r \<in> set ws. valid_rec e r"
    using assms(1) by (simp_all add: chunk_rep_def)
  have al: "log_size ws mod 256 = 0" using rec_off_aligned [OF c(5), of "length ws"] by simp
  let ?dc = "dc\<lparr>dc_writingHead := dc_size dc, dc_gcWriter := Some (log_size ws), dc_file := Some (dc_bytes dc)\<rparr>"
  have "beginGCWriting src dc = Some ?dc"
    using c(1,4) al assms(4) arg_cong [OF c(1), of length]
    by (cases "dc_file dc") (auto simp: beginGCWriting_def GetStreamWriter_def Let_def dc_bytes_def)
  moreover have "gc_state ?dc (dc_bytes dc) (concat (map rec_bytes ws))" using c(1,3) by (simp add: gc_state_def)
  ultimately show ?thesis using c assms(3) by (auto simp: gc_dst_def)
qed

lemma beginGC_rewrite:
  assumes "flushed_rep e dc rs" "int (log_size rs) \<le> DataFileMax (conf e)" "dc_chunkid dc = src"
  shows "\<exists>dc'. beginGCWriting src dc = Some dc' \<and> gc_dst e dc' [] \<and> dc_chunkid dc' = src \<and>
    dc_file dc' = Some (concat (map rec_bytes rs)) \<and> dc_size dc' = of_nat (log_size rs)"
proof -
  have c: "dc_bytes dc = concat (map rec_bytes rs)" "dc_wbuf dc = []" "dc_size dc = of_nat (log_size rs)"
    using assms(1) by (simp_all add: chunk_rep_def)
  let ?dc = "dc\<lparr>dc_rewriting := True, dc_writingHead := 0, dc_gcWriter := Some 0, dc_file := Some (dc_bytes dc)\<rparr>"
  have "beginGCWriting src dc = Some ?dc"
    using assms(3) by (cases "dc_file dc") (auto simp: beginGCWriting_def GetStreamWriter_def Let_def dc_bytes_def)
  moreover have "gc_state ?dc (dc_bytes dc) []" using c by (simp add: gc_state_def)
  moreover have "int (length (dc_bytes dc)) \<le> DataFileMax (conf e)" "0 \<le> DataFileMax (conf e)" using c(1) assms(2) by auto
  ultimately show ?thesis using c assms(3) by (auto simp: gc_dst_def)
qed

lemma appendGC_dst:
  assumes "gc_dst e dc ws" "chunk_limits e" "valid_rec e r" "int (log_size ws + length (rec_bytes r)) \<le> DataFileMax (conf e)"
  shows "\<exists>dc'. AppendRecordGC (wrapRecord r) dc = Some (of_nat (log_size ws), dc') \<and> gc_dst e dc' (ws @ [r]) \<and> dc_chunkid dc' = dc_chunkid dc"
proof -
  obtain f where a: "gc_state dc f (concat (map rec_bytes ws))" "int (length f) \<le> DataFileMax (conf e)" "dc_rewriting dc \<or> length f \<le> log_size ws"
      "dc_wbuf dc = []" "\<forall>r \<in> set ws. valid_rec e r" using assms(1) by (auto simp: gc_dst_def)
  have "length (concat (map rec_bytes ws)) + length (rec_bytes r) < 2 ^ 32" "length f < 2 ^ 32"
    using data_file_32(1) [OF assms(2)] assms(4) a(2) by simp_all
  from AppendRecordGC_state [OF a(1) assms(3) this] obtain dc' where
    dc: "AppendRecordGC (wrapRecord r) dc = Some (of_nat (log_size ws), dc')" "gc_state dc' f (concat (map rec_bytes ws) @ rec_bytes r)"
      "dc_chunkid dc' = dc_chunkid dc" "dc_rewriting dc' = dc_rewriting dc" by auto
  have "dc_wbuf dc' = []" using dc(1) a(4) by (auto simp: AppendRecordGC_def Let_def split: option.splits)
  then have "gc_dst e dc' (ws @ [r])"
    using dc(2,4) a assms(3,4) unfolding gc_dst_def by (auto simp: rec_off_snoc)
  then show ?thesis using dc by blast
qed

section \<open>Where the records are\<close>

abbreviation old_pos :: "(int \<Rightarrow> Record list) \<Rightarrow> int \<Rightarrow> nat \<Rightarrow> Position" where
  "old_pos L src i \<equiv> \<lparr>ChunkID = src, Offset = of_nat (rec_off (L src) i)\<rparr>"

lemma gc_loc_Suc:
  assumes "gc_loc e W L src i pos rec"
  shows "gc_loc e W L src (Suc i) pos rec \<or> (pos = old_pos L src i \<and> stored_as e rec (L src ! i))"
proof (cases "logged_at e W pos rec")
  case False
  then have p: "pending_at e L src i pos rec" using assms by (simp add: gc_loc_def)
  then obtain j where j: "chunk_in_range (ChunkID pos)" "src \<le> ChunkID pos" "j < length (L (ChunkID pos))"
      "ChunkID pos = src \<longrightarrow> i \<le> j" "Offset pos = of_nat (rec_off (L (ChunkID pos)) j)" "stored_as e rec (L (ChunkID pos) ! j)"
    by (auto simp: pending_at_def)
  show ?thesis
  proof (cases "ChunkID pos = src \<and> j = i")
    case True
    then show ?thesis using j by (metis Position.surjective old.unit.exhaust)
  next
    case False
    then have "ChunkID pos = src \<longrightarrow> Suc i \<le> j" using j(4) by auto
    then show ?thesis using j by (auto simp: gc_loc_def pending_at_def)
  qed
qed (simp add: gc_loc_def)

lemma gc_loc_mono: "gc_loc e W L src i pos rec \<Longrightarrow> gc_loc e (W(c := W c @ [r])) L src i pos rec"
  using logged_append by (auto simp: gc_loc_def)

lemma index_on_mono:
  assumes "index_on e K loc hm m"
    and "\<And>k it rec. k \<in> K \<Longrightarrow> hm (getKeyHash e k) = Some it \<Longrightarrow> rKey rec = k \<Longrightarrow> loc (it_Pos it) rec \<Longrightarrow> loc' (it_Pos it) rec"
  shows "index_on e K loc' hm m"
  unfolding index_on_def
proof
  fix k assume k: "k \<in> K"
  then have "rel_option (val_on loc k) (m k) (hm (getKeyHash e k))" using assms(1) by (simp add: index_on_def)
  then show "rel_option (val_on loc' k) (m k) (hm (getKeyHash e k))"
    using assms(2) [OF k] by (cases "m k"; cases "hm (getKeyHash e k)") (auto simp: val_on_def)
qed

text \<open>A record to which the tree does not point is passed.\<close>

lemma index_pass:
  assumes "index_on e K (gc_loc e W L src i) hm m"
    and "\<And>it. hm (getKeyHash e (rKey (L src ! i))) = Some it \<Longrightarrow> it_Pos it \<noteq> old_pos L src i"
  shows "index_on e K (gc_loc e W L src (Suc i)) hm m"
proof (rule index_on_mono [OF assms(1)])
  fix k it rec
  assume a: "hm (getKeyHash e k) = Some it" "rKey rec = k" "gc_loc e W L src i (it_Pos it) rec"
  from gc_loc_Suc [OF a(3)] show "gc_loc e W L src (Suc i) (it_Pos it) rec"
  proof
    assume "it_Pos it = old_pos L src i \<and> stored_as e rec (L src ! i)"
    then show ?thesis using assms(2) [of it] a(1,2) by (auto simp: stored_as_def)
  qed
qed

text \<open>No other record has the position of the record being read: the writer has not passed the reader.\<close>

lemma old_pos_unique:
  assumes "gc_data e ds L Q W src i dst" "chunk_limits e" "int (log_size (L src)) \<le> DataFileMax (conf e)" "i < length (L src)"
    and "gc_loc e W L src i (old_pos L src i) rec"
  shows "stored_as e rec (L src ! i)"
proof -
  note b = data_file_32(1) [OF assms(2,3)]
  have off: "unat (of_nat (rec_off (L src) j) :: u32) = rec_off (L src) j" if "j \<le> length (L src)" for j
    using unat_rec_off [OF b that] .
  have "\<not> logged_at e W (old_pos L src i) rec"
  proof
    assume "logged_at e W (old_pos L src i) rec"
    then obtain j where j: "j < length (W src)" "(of_nat (rec_off (L src) i) :: u32) = of_nat (rec_off (W src) j)"
      by (auto simp: logged_at_def)
    have "W src \<noteq> []" using j(1) by auto
    then have "dst = src" using assms(1) unfolding gc_data_def by (metis order_le_less)
    then have le: "log_size (W src) \<le> rec_off (L src) i" "int (log_size (W src)) \<le> DataFileMax (conf e)"
      using assms(1) by (auto simp: gc_data_def)
    have "unat (of_nat (rec_off (W src) j) :: u32) = rec_off (W src) j"
      using j(1) by (intro unat_rec_off [OF data_file_32(1) [OF assms(2) le(2)]]) simp
    then have "rec_off (L src) i = rec_off (W src) j" using off [of i] assms(4) unfolding j(2) by linarith
    then show False using rec_off_less [OF j(1) order_refl] le(1) by linarith
  qed
  then obtain j where j: "j < length (L src)" "i \<le> j" "(of_nat (rec_off (L src) i) :: u32) = of_nat (rec_off (L src) j)"
      "stored_as e rec (L src ! j)"
    using assms(5) by (auto simp: gc_loc_def pending_at_def)
  have "rec_off (L src) i = rec_off (L src) j" using off [of i] off [of j] j(1) assms(4) unfolding j(3) by linarith
  then have "i = j" using rec_off_less [of i j "L src"] j(1,2) by (cases "i = j") auto
  then show ?thesis using j(4) by simp
qed

section \<open>The steps on the chunks\<close>

abbreviation ds_put :: "int \<Rightarrow> dataChunk \<Rightarrow> dataStore \<Rightarrow> dataStore" where
  "ds_put c dc ds \<equiv> ds\<lparr>ds_chunks := (ds_chunks ds)(c := dc)\<rparr>"

lemma gc_data_next:
  assumes "gc_data e ds L Q W src i dst" "chunk_limits e" "dst < src" "Q src = length (L src)" "int (log_size (L src)) \<le> DataFileMax (conf e)"
  defines "ds1 \<equiv> ds_put dst (endGCWriting (ds_chunks ds dst)) ds"
  shows "\<exists>dc. beginGCWriting src (ds_chunks ds1 (dst + 1)) = Some dc \<and> gc_data e (ds_put (dst + 1) dc ds1) L Q W src i (dst + 1)"
proof -
  let ?n = "dst + 1"
  have d: "\<And>c. dc_chunkid (ds_chunks ds c) = c" "gc_dst e (ds_chunks ds dst) (W dst)"
      "\<And>c. 0 \<le> c \<Longrightarrow> c < src \<Longrightarrow> c \<noteq> dst \<Longrightarrow> flushed_rep e (ds_chunks ds c) (W c)" "\<And>c. dst < c \<Longrightarrow> W c = []"
      "\<And>c. src \<le> c \<Longrightarrow> c \<noteq> dst \<Longrightarrow> chunk_rep e (ds_chunks ds c) (L c) (Q c) (Q c)" "int (log_size (W ?n)) \<le> DataFileMax (conf e)"
    using assms(1) unfolding gc_data_def by blast+
  note fin = endGC_flushed [OF d(2) assms(2)]
  have nx: "ds_chunks ds1 ?n = ds_chunks ds ?n" by (simp add: ds1_def)
  have "\<exists>dc. beginGCWriting src (ds_chunks ds ?n) = Some dc \<and> gc_dst e dc (W ?n) \<and> dc_chunkid dc = ?n"
  proof (cases "?n = src")
    case True
    then have "flushed_rep e (ds_chunks ds ?n) (L src)" using d(5) [of ?n] assms(4) by simp
    from beginGC_rewrite [OF this assms(5), of src] d(1,4) [of ?n] True show ?thesis by auto
  next
    case False
    then have "flushed_rep e (ds_chunks ds ?n) (W ?n)" using d(3) [of ?n] assms(1,3) by (simp add: gc_data_def)
    from beginGC_append [OF this assms(2) d(6), of src] d(1) [of ?n] False show ?thesis by simp
  qed
  then obtain dc where dc: "beginGCWriting src (ds_chunks ds ?n) = Some dc" "gc_dst e dc (W ?n)" "dc_chunkid dc = ?n" by blast
  have "gc_data e (ds_put ?n dc ds1) L Q W src i ?n"
    using assms(1,3) dc(2,3) d fin unfolding gc_data_def ds1_def by auto
  then show ?thesis using dc(1) nx by auto
qed

lemma gc_data_append:
  assumes "gc_data e ds L Q W src i dst" "chunk_limits e" "i < length (L src)" "valid_rec e r" "length (rec_bytes r) = length (rec_bytes (L src ! i))"
    and "int (log_size (W dst) + length (rec_bytes r)) \<le> DataFileMax (conf e)"
  shows "\<exists>dc. AppendRecordGC (wrapRecord r) (ds_chunks ds dst) = Some (of_nat (log_size (W dst)), dc) \<and>
    gc_data e (ds_put dst dc ds) L Q (W(dst := W dst @ [r])) src (Suc i) dst"
proof -
  have "gc_dst e (ds_chunks ds dst) (W dst)" using assms(1) by (simp add: gc_data_def)
  from appendGC_dst [OF this assms(2,4,6)] obtain dc where
    dc: "AppendRecordGC (wrapRecord r) (ds_chunks ds dst) = Some (of_nat (log_size (W dst)), dc)" "gc_dst e dc (W dst @ [r])"
      "dc_chunkid dc = dc_chunkid (ds_chunks ds dst)" by blast
  have "gc_data e (ds_put dst dc ds) L Q (W(dst := W dst @ [r])) src (Suc i) dst"
    using assms(1,5,6) dc(2,3) by (auto simp: gc_data_def rec_off_snoc rec_off_Suc [OF assms(3)])
  then show ?thesis using dc(1) by blast
qed

lemma gc_data_pass:
  assumes "gc_data e ds L Q W src i dst" "i < length (L src)"
  shows "gc_data e ds L Q W src (Suc i) dst"
  using assms rec_off_Suc [OF assms(2)] by (auto simp: gc_data_def)

text \<open>All records of a chunk are read: it is cleared, unless it is the one written.\<close>

lemma gc_data_done:
  assumes "gc_data e ds L Q W src (length (L src)) dst"
  shows "gc_data e (if src \<noteq> dst then ds_put src (dc_Clear (ds_chunks ds src)) ds else ds) L Q W (src + 1) 0 dst"
proof -
  have "flushed_rep e (dc_Clear dc) []" "dc_chunkid (dc_Clear dc) = dc_chunkid dc" for dc
    by (simp_all add: chunk_rep_def dc_Clear_def dc_bytes_def)
  then show ?thesis using assms by (auto simp: gc_data_def)
qed

section \<open>The log of a collection\<close>

lemma gc_seq_read:
  "i < length (L src) \<Longrightarrow> gc_seq W L src i dst nh = log_seq W 0 dst @ (old_pos L src i, L src ! i) # drop (Suc i) (entries src (L src)) @ log_seq L (src + 1) nh"
  by (simp add: gc_seq_def entries_from)

lemma gc_seq_write:
  assumes "0 \<le> dst"
  shows "gc_seq (W(dst := W dst @ [r])) L src (Suc i) dst nh = log_seq W 0 dst @
    (\<lparr>ChunkID = dst, Offset = of_nat (log_size (W dst))\<rparr>, r) # drop (Suc i) (entries src (L src)) @ log_seq L (src + 1) nh"
  using log_seq_append [OF assms, of W r] by (simp add: gc_seq_def)

lemma gc_seq_dst: "0 \<le> dst \<Longrightarrow> W (dst + 1) = [] \<Longrightarrow> gc_seq W L src i (dst + 1) nh = gc_seq W L src i dst nh"
  using log_seq_last [of 0 "dst + 1" W] by (simp add: gc_seq_def)

lemma gc_seq_next: "src < nh \<Longrightarrow> length (L src) \<le> i \<Longrightarrow> gc_seq W L src i dst nh = gc_seq W L (src + 1) 0 dst nh"
  using log_seq_head [of "src + 1" nh L] by (simp add: gc_seq_def)

text \<open>No later record has the position of the one read.\<close>

lemma old_pos_later:
  assumes "i < length (L src)" "log_size (L src) < 2 ^ 32"
  shows "(old_pos L src i, x) \<notin> set (drop (Suc i) (entries src (L src)) @ log_seq L (src + 1) nh)"
proof
  assume "(old_pos L src i, x) \<in> set (drop (Suc i) (entries src (L src)) @ log_seq L (src + 1) nh)"
  then obtain j where j: "i < j" "j < length (L src)" "(of_nat (rec_off (L src) i) :: u32) = of_nat (rec_off (L src) j)"
    by (auto simp: entries_mem log_seq_mem Suc_le_eq simp del: of_nat_eq_iff)
  have "rec_off (L src) i < rec_off (L src) j" "rec_off (L src) j \<le> log_size (L src)" using j by (auto intro: rec_off_less rec_off_mono)
  then show False using j(3) assms(2) by (auto dest!: arg_cong [of _ _ unat] simp: unsigned_of_nat take_bit_nat_eq_self)
qed

lemma gc_newest_pass:
  assumes "gc_newest z e K nh W L src i dst hm" "i < length (L src)" "0 \<le> z"
    and "case hm (getKeyHash e (rKey (L src ! i))) of
      Some it \<Rightarrow> it_Pos it \<noteq> old_pos L src i | None \<Rightarrow> \<not> (z > 0 \<and> Ver (rPayload (L src ! i)) <s 0)"
  shows "gc_newest z e K nh W L src (Suc i) dst hm"
proof -
  have none: "last_entry (log_seq W 0 dst) (rKey (L src ! i)) = None" if "z = 0" "hm (getKeyHash e (rKey (L src ! i))) = None"
  proof -
    have "rKey (snd x) \<noteq> rKey (L src ! i)" if x: "x \<in> set (log_seq W 0 dst)" for x
    proof -
      obtain p r where "x = (p, r)" by (cases x)
      then have "\<exists>c. r \<in> set (W c)" using x by (auto simp: log_seq_mem intro: nth_mem)
      then show ?thesis using assms(1) \<open>x = (p, r)\<close> \<open>z = 0\<close> \<open>hm _ = None\<close> by (fastforce simp: gc_newest_def)
    qed
    then show ?thesis by (simp add: last_entry_None)
  qed
  have "newest e K (log_seq W 0 dst @ drop (Suc i) (entries src (L src)) @ log_seq L (src + 1) nh) hm"
    (is "newest e K (?A @ ?B) hm")
  proof (intro newest_drop [of e K ?A "old_pos L src i" "L src ! i" ?B])
    show "newest e K (?A @ (old_pos L src i, L src ! i) # ?B) hm"
      using assms(1) gc_seq_read [of i L src W dst nh] assms(2) by (simp add: gc_newest_def)
    show "it_Pos it \<noteq> old_pos L src i" if "hm (getKeyHash e (rKey (L src ! i))) = Some it" for it using assms(4) that by simp
    assume n: "hm (getKeyHash e (rKey (L src ! i))) = None"
    then have "0 \<le>s Ver (rPayload (L src ! i))" if "z \<noteq> 0" using assms(3,4) that by (auto simp: word_sle_eq word_sless_alt)
    then show "0 \<le>s Ver (rPayload (L src ! i)) \<or> last_entry ?A (rKey (L src ! i)) = None"
      by (cases "z = 0") (use none n in auto)
  qed
  then show ?thesis using assms(1) by (simp add: gc_newest_def gc_seq_def)
qed

lemma gc_newest_move:
  assumes "gc_newest z e K nh W L src i dst hm" "i < length (L src)" "log_size (L src) < 2 ^ 32" "inj_on (getKeyHash e) K" "0 \<le> dst"
    and "rKey (L src ! i) \<in> K" "hm (getKeyHash e (rKey r)) = Some it" "it_Pos it = old_pos L src i" "it_Ver it' = it_Ver it"
    and "it_Pos it' = \<lparr>ChunkID = dst, Offset = of_nat (log_size (W dst))\<rparr>" "rKey r = rKey (L src ! i)" "Ver (rPayload r) = Ver (rPayload (L src ! i))"
  shows "gc_newest z e K nh (W(dst := W dst @ [r])) L src (Suc i) dst (hm(getKeyHash e (rKey r) \<mapsto> it'))"
proof -
  have "newest e K (log_seq W 0 dst @ (old_pos L src i, L src ! i) # drop (Suc i) (entries src (L src)) @ log_seq L (src + 1) nh) hm"
    using assms(1) gc_seq_read [of i L src W dst nh] assms(2) by (simp add: gc_newest_def)
  from newest_move [OF this assms(4,6,11), of it it'] old_pos_later [of i L src _ nh] assms(2,3,7-10)
  have "newest e K (gc_seq (W(dst := W dst @ [r])) L src (Suc i) dst nh) (hm(getKeyHash e (rKey r) \<mapsto> it'))"
    unfolding gc_seq_write [OF assms(5)] by (simp add: assms(11))
  then show ?thesis using assms(1) by (auto simp: gc_newest_def)
qed

lemma gc_newest_copy:
  assumes "gc_newest z e K nh W L src i dst hm" "i < length (L src)" "0 \<le> dst" "z \<noteq> 0"
    and "hm (getKeyHash e (rKey r)) = None" "rKey r = rKey (L src ! i)" "Ver (rPayload r) = Ver (rPayload (L src ! i))"
  shows "gc_newest z e K nh (W(dst := W dst @ [r])) L src (Suc i) dst hm"
proof -
  have "newest e K (log_seq W 0 dst @ (old_pos L src i, L src ! i) # drop (Suc i) (entries src (L src)) @ log_seq L (src + 1) nh) hm"
    using assms(1) gc_seq_read [of i L src W dst nh] assms(2) by (simp add: gc_newest_def)
  from newest_copy [OF this assms(6,7), of "\<lparr>ChunkID = dst, Offset = of_nat (log_size (W dst))\<rparr>"] assms(4,5,6) show ?thesis unfolding gc_newest_def gc_seq_write [OF assms(3)] by simp
qed

section \<open>One record\<close>

lemma scanned_same:
  "rKey (scanned r) = rKey r" "rec_bytes (scanned r) = rec_bytes r" "stored_as e rec (scanned r) = stored_as e rec r"
  "valid_rec e (scanned r) = valid_rec e r" "Ver (rPayload (scanned r)) = Ver (rPayload r)"
proof -
  show "rec_bytes (scanned r) = rec_bytes r"
    by (simp add: rec_bytes_eq rec_head_def rec_pad_def Sizes_def scanned_def)
qed (simp_all add: scanned_def stored_as_def valid_rec_def)

lemma gc_key:
  assumes "k \<in> bkt_dom e K bid"
  shows "\<exists>ki. NewKeyInfoFromBytes (conf e) k (getKeyHash e k) False = Some ki \<and> bkt_key e K bid ki \<and> Key ki = k"
  using assms by (simp add: NewKeyInfoFromBytes_def Prepare_def Let_def bkt_key_def htree_key_ok_def bkt_dom_def)

lemma htree_get_val:
  assumes "htree_rep (conf e) bid t hm" "bkt_key e K bid ki"
  shows "htree_get (conf e) t ki = Some (case hm (getKeyHash e (Key ki)) of
      Some it \<Rightarrow> (\<lparr>TS = 0, Flag = 0, Ver = it_Ver it, ValueHash = it_Vhash it, RecSize = 0\<rparr>, it_Pos it, True)
    | None \<Rightarrow> (\<lparr>TS = 0, Flag = 0, Ver = 0, ValueHash = 0, RecSize = 0\<rparr>, \<lparr>ChunkID = 0, Offset = 0\<rparr>, False))"
proof -
  have h: "conf_ok (conf e)" "tree_rep (conf e) t hm" "ki_for (conf e) t ki" "KeyHash ki = getKeyHash e (Key ki)"
    using assms by (auto simp: htree_rep_def bkt_key_def htree_key_ok_def ki_for_def)
  show ?thesis using htree_get_rep [OF h(1-3)] h(4) by simp
qed

text \<open>A record is kept when the tree points to it; without a collision nothing else keeps a record whose key the tree has.\<close>

lemma gc_decide_ok:
  assumes "rKey rec \<in> bkt_dom e K bid" "htree_rep (conf e) bid (bk_htree b) hm" "bkt_ctl e K b"
    and "inj_on (getKeyHash e) K"
  shows "\<exists>ki found newest del meta. gc_decide e begin rec pos b d = Some (ki, found, newest, del, meta, d) \<and>
    bkt_key e K bid ki \<and> Key ki = rKey rec \<and> (found \<longleftrightarrow> hm (getKeyHash e (rKey rec)) \<noteq> None) \<and>
    (case hm (getKeyHash e (rKey rec)) of
       Some it \<Rightarrow> newest \<longleftrightarrow> it_Pos it = pos
     | None \<Rightarrow> newest \<longleftrightarrow> begin > 0 \<and> Ver (rPayload rec) <s 0)"
proof -
  obtain ki where ki: "NewKeyInfoFromBytes (conf e) (rKey rec) (getKeyHash e (rKey rec)) False = Some ki" "bkt_key e K bid ki" "Key ki = rKey rec"
    using gc_key [OF assms(1)] by blast
  note g = htree_get_val [OF assms(2) ki(2), unfolded ki(3)]
  have "StringKey ki \<in> K" "KeyHash ki = getKeyHash e (StringKey ki)" using ki(2) by (simp_all add: bkt_key_def)
  moreover have "hints_ok (conf e) (getKeyHash e) K (bk_hints b)" using assms(3) by (simp add: bkt_ctl_def)
  ultimately obtain it cid where "getCollisionGC ki (bk_hints b) = Some (it, cid, False)"
    using getCollisionGC_none assms(4) by blast
  then show ?thesis using ki g
    by (cases "hm (getKeyHash e (rKey rec))"; cases "pos = (case hm (getKeyHash e (rKey rec)) of Some it \<Rightarrow> it_Pos it | None \<Rightarrow> pos)")
      (simp_all add: gc_decide_def Let_def Meta.defs, blast+)
qed

lemma bkt_trydump_ok:
  assumes "bkt_ctl e K b" "hint_limits (conf e)" "chunk_in_range c"
  shows "\<exists>h. bkt_trydump e oe c dl b = Some (b\<lparr>bk_hints := h\<rparr>) \<and> bkt_ctl e K (b\<lparr>bk_hints := h\<rparr>)"
proof -
  have "hints_ok (conf e) (getKeyHash e) K (bk_hints b)" "hint_chunk_ok c"
    using assms by (simp_all add: bkt_ctl_def chunk_in_range_def hint_chunk_ok_def)
  from trydump_ok [OF this(1) assms(2) this(2), of "op_now oe" dl] assms(1) show ?thesis
    by (auto simp: bkt_trydump_def bkt_ctl_def)
qed

lemma gc_bkt_hints: "gc_bkt z e K bid m nh L Q W src i dst b \<Longrightarrow> bkt_ctl e K (b\<lparr>bk_hints := h\<rparr>) \<Longrightarrow>
    gc_bkt z e K bid m nh L Q W src i dst (b\<lparr>bk_hints := h\<rparr>)"
  by (simp add: gc_bkt_def)

lemma gc_next_dst_ok:
  assumes "gc_bkt z e K bid m nh L Q W src i (gs_Dst gc) b" "gc_log e K bid nh en L Q" "chunk_limits e" "hint_limits (conf e)"
    and "gs_Dst gc < src" "src \<le> en" "gs_Src gc = src"
  shows "\<exists>b'. gc_next_dst e oe gc b = Some (gc\<lparr>gs_Dst := gs_Dst gc + 1\<rparr>, b') \<and> gc_bkt z e K bid m nh L Q W src i (gs_Dst gc + 1) b' \<and>
    bk_htree b' = bk_htree b \<and> gc_seq W L src i (gs_Dst gc + 1) nh = gc_seq W L src i (gs_Dst gc) nh"
proof -
  let ?dst = "gs_Dst gc"
  have B: "gc_data e (bk_datas b) L Q W src i ?dst" "bkt_ctl e K b" "ds_newHead (bk_datas b) = nh" using assms(1) by (simp_all add: gc_bkt_def)
  have r: "chunk_in_range ?dst" "chunk_in_range (?dst + 1)"
    using B assms(2,5,6) by (auto simp: gc_data_def bkt_ctl_def chunk_in_range_def gc_log_def)
  let ?b1 = "put_chunk ?dst (endGCWriting (ds_chunks (bk_datas b) ?dst)) b"
  have "bkt_ctl e K ?b1" using B(2) by (simp add: bkt_ctl_def)
  from bkt_trydump_ok [OF this assms(4) r(1), of oe True] obtain h where
    h: "bkt_trydump e oe ?dst True ?b1 = Some (?b1\<lparr>bk_hints := h\<rparr>)" "bkt_ctl e K (?b1\<lparr>bk_hints := h\<rparr>)" by blast
  have "0 \<le> src" using B(1) by (simp add: gc_data_def)
  then have "Q src = length (L src)" "int (log_size (L src)) \<le> DataFileMax (conf e)" using assms(2,6) by (simp_all add: gc_log_def)
  from gc_data_next [OF B(1) assms(3,5) this] obtain dc where
    dc: "beginGCWriting src (ds_chunks (bk_datas ?b1) (?dst + 1)) = Some dc"
      "gc_data e (ds_put (?dst + 1) dc (bk_datas ?b1)) L Q W src i (?dst + 1)" by auto
  let ?b' = "put_chunk (?dst + 1) dc (?b1\<lparr>bk_hints := h\<rparr>)"
  have "gc_next_dst e oe gc b = Some (gc\<lparr>gs_Dst := ?dst + 1\<rparr>, ?b')"
    using h(1) dc(1) r(2) assms(7) by (simp add: gc_next_dst_def Let_def)
  moreover have sq: "gc_seq W L src i (?dst + 1) nh = gc_seq W L src i ?dst nh" using B(1) by (intro gc_seq_dst) (simp_all add: gc_data_def)
  then have "gc_bkt z e K bid m nh L Q W src i (?dst + 1) ?b'"
    using assms(1) dc(2) h(2) by (simp add: gc_bkt_def bkt_ctl_def gc_newest_def)
  ultimately show ?thesis using sq by auto
qed

lemma gc_log_rec: "gc_log e K bid nh en L Q \<Longrightarrow> i < length (L c) \<Longrightarrow> valid_rec e (L c ! i) \<and> rKey (L c ! i) \<in> bkt_dom e K bid"
  unfolding gc_log_def using nth_mem by blast

text \<open>The record fits the chunk written, or the next one.  A chunk that is rewritten in place has room for what it held.\<close>

lemma gc_room:
  assumes "gc_bkt z e K bid m nh L Q W src i (gs_Dst gc) b" "gc_log e K bid nh en L Q" "chunk_limits e" "hint_limits (conf e)"
    and "src \<le> en" "gs_Src gc = src" "i < length (L src)" "r = scanned (L src ! i)"
  shows "\<exists>dst b'. (if snd (Sizes r) + dc_writingHead (ds_chunks (bk_datas b) (gs_Dst gc)) > word_of_int (DataFileMax (conf e))
      then gc_next_dst e oe gc b else Some (gc, b)) = Some (gc\<lparr>gs_Dst := dst\<rparr>, b') \<and>
    gc_bkt z e K bid m nh L Q W src i dst b' \<and> bk_htree b' = bk_htree b \<and> gc_seq W L src i dst nh = gc_seq W L src i (gs_Dst gc) nh \<and>
    int (log_size (W dst) + length (rec_bytes r)) \<le> DataFileMax (conf e)"
proof -
  let ?dst = "gs_Dst gc" and ?M = "DataFileMax (conf e)" and ?n = "length (rec_bytes r)"
  have v: "valid_rec e r" "rec_bytes r = rec_bytes (L src ! i)"
    using gc_log_rec [OF assms(2,7)] assms(8) by (simp_all add: scanned_same)
  have n: "int ?n \<le> int (max_rec e)" using valid_rec_max [OF v(1)] by simp
  have lim: "int (max_rec e) \<le> ?M" "?M + int (max_rec e) < 2 ^ 32" using assms(3) by (simp_all add: chunk_limits_def)
  have B: "gc_data e (bk_datas b) L Q W src i ?dst" using assms(1) by (simp add: gc_bkt_def)
  then have sz: "int (log_size (W ?dst)) \<le> ?M" and W: "dst' > ?dst \<Longrightarrow> W dst' = []" for dst' unfolding gc_data_def by blast+
  have wh: "dc_writingHead (ds_chunks (bk_datas b) ?dst) = of_nat (log_size (W ?dst))"
    using B by (auto simp: gc_data_def gc_dst_def gc_state_def)
  have "int (log_size (W ?dst)) + int ?n < 2 ^ 32" using sz n lim by linarith
  then have "uint (of_nat (log_size (W ?dst) + ?n) :: u32) = int (log_size (W ?dst) + ?n)"
    by (simp add: unsigned_of_nat take_bit_nat_eq_self del: of_nat_add)
  moreover have "uint (word_of_int ?M :: u32) = ?M" using lim n by (simp add: take_bit_int_eq_self unsigned_of_int)
  moreover have "snd (Sizes r) + dc_writingHead (ds_chunks (bk_datas b) ?dst) = of_nat (log_size (W ?dst) + ?n)"
    by (simp add: wh RecSize_length [OF v(1)])
  ultimately have full: "snd (Sizes r) + dc_writingHead (ds_chunks (bk_datas b) ?dst) > word_of_int ?M \<longleftrightarrow> int (log_size (W ?dst) + ?n) > ?M"
    by (simp only: word_less_def)
  show ?thesis
  proof (cases "int (log_size (W ?dst) + ?n) > ?M")
    case True
    have "rec_off (L src) (Suc i) \<le> log_size (L src)" using assms(7) by (intro rec_off_mono) auto
    moreover have "int (log_size (L src)) \<le> ?M" using assms(2) by (simp add: gc_log_def)
    ultimately have "?dst \<noteq> src" using True B rec_off_Suc [OF assms(7)] v(2) by (auto simp: gc_data_def)
    then have "?dst < src" using B by (auto simp: gc_data_def)
    from gc_next_dst_ok [OF assms(1-4) this assms(5,6)] W [of "?dst + 1"] full True n lim(1) show ?thesis by fastforce
  next
    case False
    then show ?thesis using assms(1) full by (intro exI [of _ ?dst] exI [of _ b]) simp
  qed
qed

text \<open>The record is written and the tree gets its new position.\<close>

lemma gc_move:
  assumes "gc_bkt z e K bid m nh L Q W src i dst b" "gc_log e K bid nh en L Q" "bkt_limits e K" "src \<le> en" "i < length (L src)"
    and "r = scanned (L src ! i)" "int (log_size (W dst) + length (rec_bytes r)) \<le> DataFileMax (conf e)"
    and "htree_rep (conf e) bid (bk_htree b) hm" "index_on e K (gc_loc e W L src i) hm m"
    and nw: "gc_newest z e K nh W L src i dst hm" "hm (getKeyHash e (rKey r)) = None \<longrightarrow> z \<noteq> 0"
    and "bkt_key e K bid ki" "Key ki = rKey r" "found \<longleftrightarrow> hm (getKeyHash e (rKey r)) \<noteq> None"
    and "\<forall>it. hm (getKeyHash e (rKey r)) = Some it \<longrightarrow> it_Pos it = old_pos L src i"
  defines "pos \<equiv> \<lparr>ChunkID = dst, Offset = of_nat (log_size (W dst))\<rparr>"
  shows "\<exists>dc b'. AppendRecordGC (wrapRecord r) (ds_chunks (bk_datas b) dst) = Some (Offset pos, dc) \<and>
    (if found then UpdateHtreePos e fresh ki pos (put_chunk dst dc b) else Some (put_chunk dst dc b)) = Some b' \<and>
    gc_bkt z e K bid m nh L Q (W(dst := W dst @ [r])) src (Suc i) dst b'"
proof -
  let ?W = "W(dst := W dst @ [r])" and ?k = "rKey r" and ?h = "getKeyHash e (rKey r)"
  have lim: "chunk_limits e" "inj_on (getKeyHash e) K" using assms(3) by (simp_all add: bkt_limits_def)
  note rc = gc_log_rec [OF assms(2,5)]
  have v: "valid_rec e r" "?k \<in> bkt_dom e K bid" "rKey (L src ! i) = ?k" "length (rec_bytes r) = length (rec_bytes (L src ! i))"
    using rc assms(6) by (simp_all add: scanned_same)
  then have K: "?k \<in> K" by (simp add: bkt_dom_def)
  have B: "gc_data e (bk_datas b) L Q W src i dst" "bkt_ctl e K b" "ds_newHead (bk_datas b) = nh" "keys_in (bkt_dom e K bid) W"
    using assms(1) by (simp_all add: gc_bkt_def)
  from gc_data_append [OF B(1) lim(1) assms(5) v(1,4) assms(7)] obtain dc where
    dc: "AppendRecordGC (wrapRecord r) (ds_chunks (bk_datas b) dst) = Some (of_nat (log_size (W dst)), dc)"
      "gc_data e (ds_put dst dc (bk_datas b)) L Q ?W src (Suc i) dst" by blast
  have keys: "keys_in (bkt_dom e K bid) ?W" by (rule keys_in_append [OF B(4) v(2)])
  have lg: "Ver (rPayload r) = Ver (rPayload (L src ! i))" "log_ok e W" "log_ok e L" "0 \<le> dst" "log_size (L src) < 2 ^ 32"
    using assms(1,2,6) data_file_32(1) [OF lim(1), of "log_size (L src)"] B(1) by (simp_all add: gc_bkt_def gc_log_def gc_data_def scanned_same)
  moreover have "Ver (rPayload (L src ! i)) \<noteq> 0" "\<exists>rec. stored_as e rec (L src ! i)"
    using lg(3) nth_mem [OF assms(5)] by (auto simp: log_ok_def)
  ultimately have lo: "log_ok e ?W" using assms(6) scanned_same(3) by (auto simp: log_ok_def)
  have rng: "chunk_in_range dst" using B assms(2,4) by (auto simp: gc_data_def bkt_ctl_def chunk_in_range_def gc_log_def)
  have val: "\<forall>r \<in> set (?W dst). valid_rec e r" using dc(2) by (simp add: gc_data_def gc_dst_def)
  have at: "logged_at e ?W pos rec" if "stored_as e rec (L src ! i)" for rec
    using rng that by (auto simp: logged_at_def pos_def assms(6) scanned_same intro!: exI [of _ "length (W dst)"])
  let ?b1 = "put_chunk dst dc b"
  show ?thesis
  proof (cases "hm ?h")
    case None
    have "index_on e K (gc_loc e W L src (Suc i)) hm m" by (rule index_pass [OF assms(9)]) (simp add: v(3) None)
    then have "index_on e K (gc_loc e ?W L src (Suc i)) hm m" by (rule index_on_mono) (rule gc_loc_mono)
    moreover have "gc_newest z e K nh ?W L src (Suc i) dst hm"
      using nw(2) None v(3) by (intro gc_newest_copy [OF nw(1) assms(5) lg(4) _ None _ lg(1)]) simp_all
    ultimately have "gc_bkt z e K bid m nh L Q ?W src (Suc i) dst ?b1"
      using B dc(2) keys assms(8) lo by (auto simp: gc_bkt_def bkt_ctl_def)
    then show ?thesis using dc(1) None assms(14) by (simp add: pos_def)
  next
    case (Some it)
    have old: "it_Pos it = old_pos L src i" using Some assms(15) by simp
    obtain a where a: "m ?k = Some a" "val_on (gc_loc e W L src i) ?k a it"
      using assms(9) [unfolded index_on_def, rule_format, OF K] Some by (auto simp: option_rel_Some2)
    then obtain rec where rec: "gc_loc e W L src i (old_pos L src i) rec" "rKey rec = ?k" "TS (rPayload rec) = av_TS a"
        "Flag (rPayload rec) = av_Flag a" "pBody (rPayload rec) = av_Body a" "it_Ver it = av_Ver a" "it_Vhash it = av_Vhash a" "Ver (rPayload rec) = av_Rec a"
      by (auto simp: val_on_def old)
    have "int (log_size (L src)) \<le> DataFileMax (conf e)" using assms(2) by (simp add: gc_log_def)
    note at1 = at [OF old_pos_unique [OF B(1) lim(1) this assms(5) rec(1)]]
    let ?it = "\<lparr>it_Keyhash = 0, it_Pos = pos, it_Ver = it_Ver it, it_Vhash = it_Vhash it\<rparr>"
    have key: "htree_key_ok (conf e) bid ki" "KeyHash ki = ?h" using assms(12,13) by (simp_all add: bkt_key_def)
    have val': "\<forall>r \<in> set (?W (ChunkID pos)). valid_rec e r" using val by (simp add: pos_def)
    let ?meta = "\<lparr>TS = 0, Flag = 0, Ver = it_Ver it, ValueHash = it_Vhash it, RecSize = 0\<rparr>"
    obtain t where t: "htree_set (conf e) fresh (bk_htree b) ki ?meta pos = Some t" "htree_rep (conf e) bid t (hm(?h \<mapsto> ?it))"
      using htree_set_val [OF assms(8) key(1) at1 val', of fresh ?meta] key(2) by auto
    have up: "UpdateHtreePos e fresh ki pos ?b1 = Some (?b1\<lparr>bk_htree := t\<rparr>)"
      using htree_get_val [OF assms(8,12)] t(1) Some assms(13) by (simp add: UpdateHtreePos_def)
    have "index_on e K (gc_loc e ?W L src (Suc i)) (hm(?h \<mapsto> ?it)) (m(?k \<mapsto> a))"
    proof (rule index_on_upd [OF assms(9) lim(2) K])
      show "val_on (gc_loc e ?W L src (Suc i)) ?k a ?it" using rec at1 by (auto simp: val_on_def gc_loc_def)
      fix k' it' rec' assume x: "k' \<noteq> ?k" "rKey rec' = k'" "gc_loc e W L src i (it_Pos it') rec'"
      then have "gc_loc e W L src (Suc i) (it_Pos it') rec'" using gc_loc_Suc [OF x(3)] v(3) by (auto simp: stored_as_def)
      then show "gc_loc e ?W L src (Suc i) (it_Pos it') rec'" by (rule gc_loc_mono)
    qed
    moreover have "m(?k \<mapsto> a) = m" using a(1) by (simp add: fun_upd_idem)
    moreover have "gc_newest z e K nh ?W L src (Suc i) dst (hm(?h \<mapsto> ?it))"
      using v(3) K old by (intro gc_newest_move [OF nw(1) assms(5) lg(5) lim(2) lg(4) _ Some _ _ _ _ lg(1)]) (simp_all add: pos_def)
    ultimately have "gc_bkt z e K bid m nh L Q ?W src (Suc i) dst (?b1\<lparr>bk_htree := t\<rparr>)"
      using B dc(2) keys t(2) lo by (auto simp: gc_bkt_def bkt_ctl_def simp del: fun_upd_apply)
    then show ?thesis using dc(1) up Some assms(14) by (simp add: pos_def)
  qed
qed

lemma gc_write_ok:
  assumes "gc_bkt z e K bid m nh L Q W src i (gs_Dst gc) b" "gc_log e K bid nh en L Q" "bkt_limits e K" "src \<le> en" "gs_Src gc = src"
    and "i < length (L src)" "r = scanned (L src ! i)"
    and "htree_rep (conf e) bid (bk_htree b) hm" "index_on e K (gc_loc e W L src i) hm m"
    and "gc_newest z e K nh W L src i (gs_Dst gc) hm" "hm (getKeyHash e (rKey r)) = None \<longrightarrow> z \<noteq> 0"
    and "bkt_key e K bid ki" "Key ki = rKey r" "found \<longleftrightarrow> hm (getKeyHash e (rKey r)) \<noteq> None"
    and "\<forall>it. hm (getKeyHash e (rKey r)) = Some it \<longrightarrow> it_Pos it = old_pos L src i"
  shows "\<exists>dst W' b'. gc_write e oe ki found meta (wrapRecord r) gc b = Some (gc\<lparr>gs_Dst := dst\<rparr>, b') \<and>
    gc_bkt z e K bid m nh L Q W' src (Suc i) dst b'"
proof -
  have lim: "chunk_limits e" "hint_limits (conf e)" using assms(3) by (simp_all add: bkt_limits_def)
  obtain dst b1 where 1: "(if snd (Sizes r) + dc_writingHead (ds_chunks (bk_datas b) (gs_Dst gc)) > word_of_int (DataFileMax (conf e))
      then gc_next_dst e oe gc b else Some (gc, b)) = Some (gc\<lparr>gs_Dst := dst\<rparr>, b1)" "gc_bkt z e K bid m nh L Q W src i dst b1"
      "bk_htree b1 = bk_htree b" "gc_seq W L src i dst nh = gc_seq W L src i (gs_Dst gc) nh" "int (log_size (W dst) + length (rec_bytes r)) \<le> DataFileMax (conf e)"
    using gc_room [OF assms(1,2) lim assms(4-7)] by blast
  let ?pos = "\<lparr>ChunkID = dst, Offset = of_nat (log_size (W dst))\<rparr>" and ?W = "W(dst := W dst @ [r])"
  have nw: "gc_newest z e K nh W L src i dst hm" using assms(10) 1(4) by (simp add: gc_newest_def)
  have "htree_rep (conf e) bid (bk_htree b1) hm" using assms(8) 1(3) by simp
  from gc_move [OF 1(2) assms(2-4,6,7) 1(5) this assms(9) nw assms(11-15), of "op_fresh oe"] obtain dc b2 where
    2: "AppendRecordGC (wrapRecord r) (ds_chunks (bk_datas b1) dst) = Some (Offset ?pos, dc)"
      "(if found then UpdateHtreePos e (op_fresh oe) ki ?pos (put_chunk dst dc b1) else Some (put_chunk dst dc b1)) = Some b2"
      "gc_bkt z e K bid m nh L Q ?W src (Suc i) dst b2" by auto
  have ctl: "bkt_ctl e K b2" "ds_newHead (bk_datas b2) = nh" and rng: "chunk_in_range dst"
    using 2(3) assms(2,4) by (auto simp: gc_bkt_def gc_data_def bkt_ctl_def chunk_in_range_def gc_log_def)
  have "hints_ok (conf e) (getKeyHash e) K (bk_hints b2)" "hint_chunk_ok (ChunkID ?pos)" "StringKey ki \<in> K"
      "KeyHash ki = getKeyHash e (StringKey ki)"
    using ctl(1) rng assms(12) by (simp_all add: bkt_ctl_def chunk_in_range_def hint_chunk_ok_def bkt_key_def)
  from hm_set_ok [OF this(1) lim(2) this(2-4), of "op_now oe" "op_mergeChan oe" meta "snd (Sizes r)" "''gc''"] obtain rot h where
    3: "hm_set (conf e) (op_now oe) (op_mergeChan oe) ki meta ?pos (snd (Sizes r)) ''gc'' (bk_hints b2) = Some (rot, h)"
      "hints_ok (conf e) (getKeyHash e) K h" "hm_maxChunkID h = max (hm_maxChunkID (bk_hints b2)) dst" by auto
  have "dst \<le> nh" using 2(3) assms(2,4) by (auto simp: gc_bkt_def gc_data_def gc_log_def)
  then have c3: "bkt_ctl e K (b2\<lparr>bk_hints := h\<rparr>)" using ctl 3(2,3) by (simp add: bkt_ctl_def)
  note b3 = gc_bkt_hints [OF 2(3) c3]
  obtain b4 where 4: "(if rot then bkt_trydump e oe dst False (b2\<lparr>bk_hints := h\<rparr>) else Some (b2\<lparr>bk_hints := h\<rparr>)) = Some b4"
      "gc_bkt z e K bid m nh L Q ?W src (Suc i) dst b4"
    using bkt_trydump_ok [OF c3 lim(2) rng, of oe False] gc_bkt_hints [OF b3] b3 by (cases rot) auto
  have "gc_write e oe ki found meta (wrapRecord r) gc b = Some (gc\<lparr>gs_Dst := dst\<rparr>, b4)"
    unfolding gc_write_def Let_def wrap_RecSize 1(1) using 2(1,2) 3(1) 4(1) by (cases found; cases rot) auto
  then show ?thesis using 4(2) by blast
qed

section \<open>One chunk\<close>

definition reads_at :: "DataStreamReader \<Rightarrow> Record list \<Rightarrow> nat \<Rightarrow> bool" where
  "reads_at s rs i \<longleftrightarrow> sr_file s = concat (map rec_bytes rs) \<and> sr_pos s = rec_off rs i \<and> sr_offset s = of_nat (rec_off rs i)"

lemma Next_at:
  assumes "reads_at s rs i" "i < length rs" "valid_rec e (rs ! i)"
  shows "\<exists>s'. Next e s d = Some ((Some (scanned (rs ! i)), of_nat (rec_off rs i), 0, None), s', d) \<and> reads_at s' rs (Suc i)"
proof -
  let ?pre = "concat (map rec_bytes (take i rs))" and ?suf = "concat (map rec_bytes (drop (Suc i) rs))"
  have "sr_file s = concat (map rec_bytes (take i rs @ rs ! i # drop (Suc i) rs))"
    using assms(1) id_take_nth_drop [OF assms(2)] by (simp add: reads_at_def)
  then have f: "sr_file s = ?pre @ rec_bytes (rs ! i) @ ?suf" by simp
  have p: "length ?pre = rec_off rs i" unfolding rec_off_def by (rule refl)
  have "sr_pos s = length ?pre" using assms(1) p by (simp add: reads_at_def)
  from Next_rec [OF assms(3) f this, of d] show ?thesis
    using assms(1) p rec_off_Suc [OF assms(2)] RecSize_length [OF assms(3)] by (simp add: reads_at_def)
qed

lemma Next_end: "reads_at s rs (length rs) \<Longrightarrow> Next e s d = Some ((None, 0, 0, None), s, d)"
  by (simp add: reads_at_def Next_def)

lemma gc_records_ok:
  assumes "gc_log e K bid nh en L Q" "bkt_limits e K" "src \<le> en" "0 \<le> z"
    and "gc_bkt z e K bid m nh L Q W src i (gs_Dst gc) b" "i \<le> length (L src)" "length (L src) - i < n" "gs_Src gc = src" "reads_at s (L src) i" "gs_Begin gc = z"
  shows "\<exists>fs' dst W' b' d'. gc_records n e oe s fs gc b d = Some (fs', gc\<lparr>gs_Dst := dst\<rparr>, b', d') \<and>
    gc_bkt z e K bid m nh L Q W' src (length (L src)) dst b'"
  using assms(5-10)
proof (induction n arbitrary: W i gc b s fs d)
  case (Suc n)
  show ?case
  proof (cases "i = length (L src)")
    case True
    then show ?thesis using Suc.prems(1,5) Next_end [of s "L src" e d] by (intro exI [of _ fs] exI [of _ "gs_Dst gc"]) auto
  next
    case False
    then have i: "i < length (L src)" using Suc.prems(2) by simp
    define r where "r = scanned (L src ! i)"
    note rc = gc_log_rec [OF assms(1) i]
    obtain s1 where s1: "Next e s d = Some ((Some r, of_nat (rec_off (L src) i), 0, None), s1, d)" "reads_at s1 (L src) (Suc i)"
      using Next_at [OF Suc.prems(5) i] rc by (auto simp: r_def)
    have B: "bkt_ctl e K b" and D: "gc_data e (bk_datas b) L Q W src i (gs_Dst gc)" using Suc.prems(1) by (simp_all add: gc_bkt_def)
    obtain hm where hm: "htree_rep (conf e) bid (bk_htree b) hm" "index_on e K (gc_loc e W L src i) hm m" "gc_newest z e K nh W L src i (gs_Dst gc) hm"
      using Suc.prems(1) by (auto simp: gc_bkt_def)
    have k: "rKey r \<in> bkt_dom e K bid" "rKey (L src ! i) = rKey r" using rc by (simp_all add: r_def scanned_same)
    have inj: "inj_on (getKeyHash e) K" using assms(2) by (simp add: bkt_limits_def)
    obtain ki found newest del meta where dec: "gc_decide e (gs_Begin gc) r (old_pos L src i) b d = Some (ki, found, newest, del, meta, d)"
        "bkt_key e K bid ki" "Key ki = rKey r" "found \<longleftrightarrow> hm (getKeyHash e (rKey r)) \<noteq> None"
        "case hm (getKeyHash e (rKey r)) of Some it \<Rightarrow> newest \<longleftrightarrow> it_Pos it = old_pos L src i | None \<Rightarrow> newest \<longleftrightarrow> gs_Begin gc > 0 \<and> Ver (rPayload r) <s 0"
      using gc_decide_ok [OF k(1) hm(1) B inj] by blast
    have "\<exists>dst W' b'. (if newest then gc_write e oe ki found meta (wrapRecord r) gc b else Some (gc, b)) = Some (gc\<lparr>gs_Dst := dst\<rparr>, b') \<and>
        gc_bkt z e K bid m nh L Q W' src (Suc i) dst b'"
    proof (cases newest)
      case True
      have nz: "hm (getKeyHash e (rKey r)) = None \<longrightarrow> z \<noteq> 0" and kp: "\<forall>it. hm (getKeyHash e (rKey r)) = Some it \<longrightarrow> it_Pos it = old_pos L src i"
        using dec(5) True Suc.prems(6) by (auto split: option.splits)
      then show ?thesis
        using gc_write_ok [OF Suc.prems(1) assms(1-3) Suc.prems(4) i r_def hm _ dec(2-4) kp, of oe meta] nz True by simp
    next
      case False
      have "index_on e K (gc_loc e W L src (Suc i)) hm m" by (rule index_pass [OF hm(2)]) (use k(2) dec(5) False in \<open>auto split: option.splits\<close>)
      moreover have "gc_newest z e K nh W L src (Suc i) (gs_Dst gc) hm"
      proof (rule gc_newest_pass [OF hm(3) i assms(4)])
        have "Ver (rPayload r) = Ver (rPayload (L src ! i))" by (simp add: r_def scanned_same)
        then show "case hm (getKeyHash e (rKey (L src ! i))) of
            Some it \<Rightarrow> it_Pos it \<noteq> old_pos L src i | None \<Rightarrow> \<not> (z > 0 \<and> Ver (rPayload (L src ! i)) <s 0)"
          unfolding k(2) using dec(5) False Suc.prems(6) by (cases "hm (getKeyHash e (rKey r))") simp_all
      qed
      ultimately have "gc_bkt z e K bid m nh L Q W src (Suc i) (gs_Dst gc) b"
        using Suc.prems(1) gc_data_pass [OF D i] hm(1) by (auto simp: gc_bkt_def)
      then show ?thesis using False by (intro exI [of _ "gs_Dst gc"] exI [of _ W] exI [of _ b]) simp
    qed
    then obtain dst W1 b1 where w: "(if newest then gc_write e oe ki found meta (wrapRecord r) gc b else Some (gc, b)) = Some (gc\<lparr>gs_Dst := dst\<rparr>, b1)"
        "gc_bkt z e K bid m nh L Q W1 src (Suc i) dst b1" by blast
    have run: "\<exists>fs'. gc_records (Suc n) e oe s fs gc b d = gc_records n e oe s1 fs' (gc\<lparr>gs_Dst := dst\<rparr>) b1 d"
      using s1(1) dec(1) w(1) Suc.prems(4) by (simp add: Let_def) blast
    have "gc_bkt z e K bid m nh L Q W1 src (Suc i) (gs_Dst (gc\<lparr>gs_Dst := dst\<rparr>)) b1" "gs_Src (gc\<lparr>gs_Dst := dst\<rparr>) = src" "gs_Begin (gc\<lparr>gs_Dst := dst\<rparr>) = z"
      using w(2) Suc.prems(4,6) by simp_all
    from Suc.IH [OF this(1) _ _ this(2) s1(2) this(3)] i Suc.prems(3) run show ?thesis by fastforce
  qed
qed simp

section \<open>A range of chunks\<close>

lemma length_le_log: "length rs \<le> log_size rs"
proof -
  have "length rs \<le> length (concat (map rec_bytes rs))"
  proof (induction rs)
    case (Cons r rs)
    have "0 < length (rec_bytes r)" by simp
    then show ?case using Cons by (simp del: log_bytes length_greater_0_conv)
  qed simp
  then show ?thesis by simp
qed

lemma gc_loc_next: "gc_loc e W L src (length (L src)) pos rec \<Longrightarrow> gc_loc e W L (src + 1) 0 pos rec"
  unfolding gc_loc_def pending_at_def by (metis leD le0 order_le_less zless_imp_add1_zle)

text \<open>The chunk to be read, if it is the one being rewritten: nothing was written yet.\<close>

definition gc_whole :: "dataStore \<Rightarrow> (int \<Rightarrow> Record list) \<Rightarrow> int \<Rightarrow> bool" where
  "gc_whole ds L src \<longleftrightarrow> dc_file (ds_chunks ds src) = Some (concat (map rec_bytes (L src))) \<and>
     dc_size (ds_chunks ds src) = of_nat (log_size (L src))"

lemma gc_bkt_done:
  assumes "gc_bkt z e K bid m nh L Q W src (length (L src)) dst b" "0 \<le> ng" "src < nh"
  defines "ds \<equiv> (if src \<noteq> dst then ds_put src (dc_Clear (ds_chunks (bk_datas b) src)) (bk_datas b) else bk_datas b)"
  shows "gc_bkt z e K bid m nh L Q W (src + 1) 0 dst (b\<lparr>bk_datas := ds, bk_NextGCChunk := ng, bk_nextgc := x\<rparr>)"
proof -
  have B: "gc_data e (bk_datas b) L Q W src (length (L src)) dst" "bkt_ctl e K b" "ds_newHead (bk_datas b) = nh" "keys_in (bkt_dom e K bid) W"
    using assms(1) by (simp_all add: gc_bkt_def)
  obtain hm where hm: "htree_rep (conf e) bid (bk_htree b) hm" "index_on e K (gc_loc e W L src (length (L src))) hm m" "gc_newest z e K nh W L src (length (L src)) dst hm"
    using assms(1) by (auto simp: gc_bkt_def)
  have "index_on e K (gc_loc e W L (src + 1) 0) hm m" by (rule index_on_mono [OF hm(2)]) (rule gc_loc_next)
  moreover have "gc_newest z e K nh W L (src + 1) 0 dst hm" using hm(3) gc_seq_next [of src nh L "length (L src)" W dst] assms(3) by (simp add: gc_newest_def)
  moreover have "gc_data e ds L Q W (src + 1) 0 dst" unfolding ds_def by (rule gc_data_done [OF B(1)])
  moreover have "ds_newHead ds = nh" using B(3) by (simp add: ds_def)
  moreover have "log_ok e W" using assms(1) by (simp add: gc_bkt_def)
  ultimately show ?thesis using B(2-4) hm(1) assms(2) by (auto simp: gc_bkt_def bkt_ctl_def)
qed

lemma gc_bkt_empty:
  assumes "gc_bkt z e K bid m nh L Q W src 0 dst b" "L src = []" "Q src = 0" "src < nh"
  shows "gc_bkt z e K bid m nh L Q W (src + 1) 0 dst b"
proof -
  have D: "gc_data e (bk_datas b) L Q W src 0 dst" using assms(1) by (simp add: gc_bkt_def)
  obtain hm where hm: "htree_rep (conf e) bid (bk_htree b) hm" "index_on e K (gc_loc e W L src (length (L src))) hm m" "gc_newest z e K nh W L src 0 dst hm"
    using assms(1,2) by (auto simp: gc_bkt_def)
  have "index_on e K (gc_loc e W L (src + 1) 0) hm m" by (rule index_on_mono [OF hm(2)]) (rule gc_loc_next)
  moreover have "gc_newest z e K nh W L (src + 1) 0 dst hm" using hm(3) gc_seq_next [of src nh L 0 W dst] assms(2,4) by (simp add: gc_newest_def)
  moreover have "gc_data e (bk_datas b) L Q W (src + 1) 0 dst"
  proof -
    have "flushed_rep e (ds_chunks (bk_datas b) src) (W src)" if "src \<noteq> dst"
      using D that assms(2,3) unfolding gc_data_def by (metis list.size(3) order_refl order_le_less)
    then show ?thesis using D by (auto simp: gc_data_def order_le_less)
  qed
  ultimately show ?thesis using assms(1) hm(1) by (auto simp: gc_bkt_def)
qed

lemma gc_open:
  assumes "gc_bkt z e K bid m nh L Q W src 0 dst b" "gc_log e K bid nh en L Q" "chunk_limits e" "src \<le> en" "dst = src \<longrightarrow> gc_whole (bk_datas b) L src"
  shows "dc_size (ds_chunks (bk_datas b) src) = 0 \<longleftrightarrow> L src = []"
    and "L src \<noteq> [] \<Longrightarrow> dc_file (ds_chunks (bk_datas b) src) = Some (concat (map rec_bytes (L src)))"
proof -
  let ?dc = "ds_chunks (bk_datas b) src"
  have "0 \<le> src" using assms(1) by (simp add: gc_bkt_def gc_data_def)
  then have L: "int (log_size (L src)) \<le> DataFileMax (conf e)" "Q src = length (L src)" using assms(2,4) by (simp_all add: gc_log_def)
  have c: "dc_size ?dc = of_nat (log_size (L src)) \<and> (L src \<noteq> [] \<longrightarrow> dc_file ?dc = Some (concat (map rec_bytes (L src))))"
  proof (cases "dst = src")
    case False
    then have "chunk_rep e ?dc (L src) (Q src) (Q src)" using assms(1) unfolding gc_bkt_def gc_data_def by (metis order_refl)
    then have "dc_size ?dc = of_nat (log_size (L src))" "dc_bytes ?dc = concat (map rec_bytes (L src))"
      using L(2) by (simp_all add: chunk_rep_def)
    moreover have "concat (map rec_bytes (L src)) \<noteq> []" if "L src \<noteq> []" using that by (cases "L src") simp_all
    ultimately show ?thesis by (cases "dc_file ?dc") (auto simp: dc_bytes_def)
  qed (use assms(5) in \<open>simp add: gc_whole_def\<close>)
  have "(of_nat (log_size (L src)) :: u32) = 0 \<longleftrightarrow> log_size (L src) = 0"
    using data_file_32(2) [OF assms(3) L(1)] by (cases "(of_nat (log_size (L src)) :: u32) = 0") (simp_all only:, auto)
  then show "dc_size ?dc = 0 \<longleftrightarrow> L src = []" using c by simp
  show "L src \<noteq> [] \<Longrightarrow> dc_file ?dc = Some (concat (map rec_bytes (L src)))" using c by blast
qed

lemma gc_chunks_ok:
  assumes "gc_log e K bid nh en L Q" "bkt_limits e K" "0 \<le> z"
    and "gc_bkt z e K bid m nh L Q W (gs_Src gc) 0 (gs_Dst gc) b" "gs_Src gc + int n = en + 1" "gs_Err gc = None" "\<not> gs_CancelFlag gc" "0 \<le> gs_Src gc"
    and "gs_Dst gc = gs_Src gc \<longrightarrow> gc_whole (bk_datas b) L (gs_Src gc) \<and> 0 < n \<and> \<not> ge_cancel ge (gs_Src gc)" "gs_Begin gc = z"
  shows "\<exists>gc' b' d' W'. gc_chunks n e ge gc b d = Some (gc', b', d') \<and> gs_Err gc' = None \<and> gs_Dst gc' < gs_Src gc' \<and> gs_Src gc' \<le> en + 1 \<and>
    gc_bkt z e K bid m nh L Q W' (gs_Src gc') 0 (gs_Dst gc') b'"
  using assms(4-10)
proof (induction n arbitrary: gc b d W)
  case 0
  then have "gs_Dst gc \<le> gs_Src gc" by (simp add: gc_bkt_def gc_data_def)
  then show ?case using 0 by auto
next
  case (Suc n)
  let ?src = "gs_Src gc" and ?dst = "gs_Dst gc"
  have lim: "chunk_limits e" "hint_limits (conf e)" using assms(2) by (simp_all add: bkt_limits_def)
  have src: "?src \<le> en" "?dst \<le> ?src" "Q ?src = length (L ?src)" "?src < nh"
    using Suc.prems(1,2) assms(1) by (simp_all add: gc_bkt_def gc_data_def gc_log_def)
  have whole: "?dst = ?src \<longrightarrow> gc_whole (bk_datas b) L ?src" using Suc.prems(6) by blast
  note op = gc_open [OF Suc.prems(1) assms(1) lim(1) src(1) whole]
  show ?case
  proof (cases "ge_cancel ge ?src")
    case True
    then have "?dst < ?src" using Suc.prems(6) src(2) by auto
    then show ?thesis using True Suc.prems(1-3) by (intro exI [of _ "gc\<lparr>gs_CancelFlag := True\<rparr>"]) auto
  next
    case False
    note nc = this
    show ?thesis
    proof (cases "L ?src = []")
      case True
      let ?gc = "gc\<lparr>gs_Src := ?src + 1\<rparr>"
      have "gc_bkt z e K bid m nh L Q W (gs_Src ?gc) 0 (gs_Dst ?gc) b" using gc_bkt_empty [OF Suc.prems(1) True _ src(4)] src(3) True by simp
      from Suc.IH [OF this] Suc.prems(2-5,7) src(2) show ?thesis using nc True op(1) by (simp add: Let_def)
    next
      case False
      let ?rs = "L ?src" and ?b1 = "b\<lparr>bk_hints := ClearChunk ?src (bk_hints b)\<rparr>"
      let ?f = "concat (map rec_bytes ?rs)"
      have "bkt_ctl e K ?b1" using Suc.prems(1) ClearChunk_ok [OF _ lim(2)] by (auto simp: gc_bkt_def bkt_ctl_def)
      note B1 = gc_bkt_hints [OF Suc.prems(1) this]
      have "reads_at (newDataStreamReader ?f) ?rs 0" by (simp add: reads_at_def newDataStreamReader_def)
      moreover have "length ?rs - 0 < length ?f + 2" using length_le_log [of ?rs] by simp
      ultimately obtain fs dst W1 b2 d1 where
        2: "gc_records (length ?f + 2) e (ge_op ge) (newDataStreamReader ?f) zero_fs gc ?b1 d = Some (fs, gc\<lparr>gs_Dst := dst\<rparr>, b2, d1)"
          "gc_bkt z e K bid m nh L Q W1 ?src (length ?rs) dst b2"
        using gc_records_ok [OF assms(1,2) src(1) assms(3) B1, of "length ?f + 2"] Suc.prems(7) by blast
      let ?gc = "gc\<lparr>gs_Dst := dst, gs_sum := fs_add fs (gs_sum gc), gs_Src := ?src + 1\<rparr>"
      define b3 where "b3 = (if ?src \<noteq> dst then put_chunk ?src (dc_Clear (ds_chunks (bk_datas b2) ?src)) b2 else b2)"
      define b4 where "b4 = (if ?src + 1 \<ge> bk_NextGCChunk b3 then dumpGCHistroy (b3\<lparr>bk_NextGCChunk := ?src + 1\<rparr>) else b3)"
      have "\<exists>ng x. 0 \<le> ng \<and> b4 = b2\<lparr>bk_datas := (if ?src \<noteq> dst then ds_put ?src (dc_Clear (ds_chunks (bk_datas b2) ?src)) (bk_datas b2) else bk_datas b2),
          bk_NextGCChunk := ng, bk_nextgc := x\<rparr>"
        using 2(2) Suc.prems(5)
        by (intro exI [of _ "if ?src + 1 \<ge> bk_NextGCChunk b2 then ?src + 1 else bk_NextGCChunk b2"]
              exI [of _ "if ?src + 1 \<ge> bk_NextGCChunk b2 then Some (Itoa (?src + 1)) else bk_nextgc b2"])
          (auto simp: b4_def b3_def dumpGCHistroy_def gc_bkt_def bkt_ctl_def)
      then obtain ng x where b4: "0 \<le> ng" "b4 = b2\<lparr>bk_datas := (if ?src \<noteq> dst then ds_put ?src (dc_Clear (ds_chunks (bk_datas b2) ?src)) (bk_datas b2)
          else bk_datas b2), bk_NextGCChunk := ng, bk_nextgc := x\<rparr>" by blast
      have B4: "gc_bkt z e K bid m nh L Q W1 (gs_Src ?gc) 0 (gs_Dst ?gc) b4" using gc_bkt_done [OF 2(2) b4(1) src(4), of x] b4(2) by simp
      have "dst \<le> ?src" using 2(2) by (simp add: gc_bkt_def gc_data_def)
      moreover have "gc_chunks (Suc n) e ge gc b d = gc_chunks n e ge ?gc b4 d1"
        using nc op False 2(1) Suc.prems(3,4) by (simp add: Let_def b3_def b4_def del: gc_records.simps)
      ultimately show ?thesis using Suc.IH [OF B4] Suc.prems(2-5,7) by simp
    qed
  qed
qed

section \<open>A collection\<close>

text \<open>The chunk written first comes before the range, and the chunks between are empty.\<close>

lemma dst_loop_spec:
  assumes "int i \<le> start" "\<forall>c. int i \<le> c \<and> c < start \<longrightarrow> dc_size (ds_chunks ds c) = 0"
    and "dst = dst_loop e start i ds"
  shows "0 \<le> dst \<and> dst \<le> start \<and> (\<forall>c. dst < c \<and> c < start \<longrightarrow> dc_size (ds_chunks ds c) = 0)"
  using assms(1,2) unfolding assms(3)
proof (induction i)
  case (Suc i)
  show ?case
  proof (cases "dc_size (ds_chunks ds (int i)) > 0")
    case True
    then show ?thesis using Suc.prems by (auto simp: Let_def)
  next
    case False
    then have "dc_size (ds_chunks ds (int i)) = 0" by (simp add: word_greater_zero_iff)
    then have "\<forall>c. int i \<le> c \<and> c < start \<longrightarrow> dc_size (ds_chunks ds c) = 0"
      using Suc.prems(2) by (metis int_Suc add.commute order_le_less zless_imp_add1_zle)
    then show ?thesis using Suc.IH Suc.prems(1) False by (simp add: Let_def)
  qed
qed auto

lemma gc_begin:
  assumes "ds_inv e [] ds Idle L Q Q" "gc_log e K bid nh en L Q" "chunk_limits e" "0 \<le> start" "start \<le> en" "dst = dst_loop e start (nat start) ds"
  defines "W \<equiv> \<lambda>c. if 0 \<le> c \<and> c < start then L c else []"
  shows "\<exists>dc. beginGCWriting start (ds_chunks ds dst) = Some dc \<and> gc_data e (ds_put dst dc ds) L Q W start 0 dst \<and>
    (dst = start \<longrightarrow> gc_whole (ds_put dst dc ds) L start)"
proof -
  have "0 \<le> dst \<and> dst \<le> start \<and> (\<forall>c. dst < c \<and> c < start \<longrightarrow> dc_size (ds_chunks ds c) = 0)"
    using assms(4) by (intro dst_loop_spec [OF _ _ assms(6)]) auto
  then have D: "0 \<le> dst" "dst \<le> start" "\<And>c. dst < c \<Longrightarrow> c < start \<Longrightarrow> dc_size (ds_chunks ds c) = 0"
    by blast+
  have C: "\<And>c. chunk_rep e (ds_chunks ds c) (L c) (Q c) (Q c)" "\<And>c. dc_chunkid (ds_chunks ds c) = c" using assms(1) by (simp_all add: ds_inv_def)
  have S: "\<And>c. int (log_size (L c)) \<le> DataFileMax (conf e)" "\<And>c. 0 \<le> c \<Longrightarrow> c \<le> en \<Longrightarrow> Q c = length (L c)"
    using assms(2) by (simp_all add: gc_log_def)
  have F: "flushed_rep e (ds_chunks ds c) (L c)" if "0 \<le> c" "c \<le> en" for c using C(1) [of c] S(2) [OF that] by simp
  have E: "L c = []" if "dst < c" "c < start" for c
  proof -
    have "dc_writingHead (ds_chunks ds c) = of_nat (log_size (L c))" "dc_writingHead (ds_chunks ds c) = 0"
      using D(3) [OF that] C(1) [of c] unfolding chunk_rep_def by metis+
    then have "(of_nat (log_size (L c)) :: u32) = 0" by (rule subst)
    then show ?thesis using data_file_32(2) [OF assms(3) S(1), of c] by simp
  qed
  have "0 \<le> DataFileMax (conf e)" using S(1) [of 0] by simp
  then have W: "int (log_size (W c)) \<le> DataFileMax (conf e)" "dst < c \<Longrightarrow> W c = []" for c using S(1) E by (auto simp: W_def)
  have "\<exists>dc. beginGCWriting start (ds_chunks ds dst) = Some dc \<and> gc_dst e dc (W dst) \<and> dc_chunkid dc = dst \<and>
      (dst = start \<longrightarrow> dc_file dc = Some (concat (map rec_bytes (L start))) \<and> dc_size dc = of_nat (log_size (L start)))"
  proof (cases "dst = start")
    case True
    then show ?thesis using beginGC_rewrite [OF F [of dst] S(1), of start] C(2) [of dst] D(1) assms(5) by (auto simp: W_def)
  next
    case False
    then show ?thesis using beginGC_append [OF F [of dst] assms(3) S(1), of start] C(2) [of dst] D(1,2) assms(5) by (auto simp: W_def)
  qed
  then obtain dc where dc: "beginGCWriting start (ds_chunks ds dst) = Some dc" "gc_dst e dc (W dst)" "dc_chunkid dc = dst"
      "dst = start \<longrightarrow> dc_file dc = Some (concat (map rec_bytes (L start))) \<and> dc_size dc = of_nat (log_size (L start))" by blast
  have "gc_data e (ds_put dst dc ds) L Q W start 0 dst"
    unfolding gc_data_def using dc(2,3) C D(1,2) W F assms(5) by (auto simp: W_def)
  then show ?thesis using dc(1,4) by (auto simp: gc_whole_def)
qed

lemma gc_end:
  assumes "gc_bkt z e K bid m nh L Q W src 0 dst b" "gc_log e K bid nh en L Q" "chunk_limits e" "dst < src" "src \<le> en + 1"
  shows "bkt_rep e K bid (put_chunk dst (endGCWriting (ds_chunks (bk_datas b) dst)) b) m"
proof -
  let ?dc = "endGCWriting (ds_chunks (bk_datas b) dst)"
  define L' where "L' = (\<lambda>c. if 0 \<le> c \<and> c < src then W c else L c)"
  define Q' where "Q' = (\<lambda>c. if 0 \<le> c \<and> c < src then length (W c) else Q c)"
  have B: "gc_data e (bk_datas b) L Q W src 0 dst" "bkt_ctl e K b" "ds_newHead (bk_datas b) = nh" "keys_in (bkt_dom e K bid) W"
    using assms(1) by (simp_all add: gc_bkt_def)
  obtain hm where hm: "htree_rep (conf e) bid (bk_htree b) hm" "index_on e K (gc_loc e W L src 0) hm m" "gc_newest z e K nh W L src 0 dst hm" using assms(1) by (auto simp: gc_bkt_def)
  have dst: "gc_dst e (ds_chunks (bk_datas b) dst) (W dst)" "dc_chunkid (ds_chunks (bk_datas b) dst) = dst" "0 \<le> dst" "\<And>c. dst < c \<Longrightarrow> W c = []"
    using B(1) by (simp_all add: gc_data_def)
  note fin = endGC_flushed [OF dst(1) assms(3)]
  have "ds_inv e [] (ds_put dst ?dc (bk_datas b)) Idle L' Q' Q'"
    using B(1,3) assms(2,4,5) fin dst unfolding ds_inv_def gc_data_def gc_log_def phase_ok_def L'_def Q'_def by auto
  moreover have "keys_in (bkt_dom e K bid) L'" using B(4) assms(2) unfolding keys_in_def gc_log_def L'_def by auto
  moreover have "index_on e K (logged_at e L') hm m"
  proof (rule index_on_mono [OF hm(2)])
    fix it rec assume "gc_loc e W L src 0 (it_Pos it) rec"
    then show "logged_at e L' (it_Pos it) rec"
    proof (cases "ChunkID (it_Pos it) < src")
      case False
      then have "W (ChunkID (it_Pos it)) = []" using assms(4) dst(4) by simp
      with \<open>gc_loc e W L src 0 (it_Pos it) rec\<close> show ?thesis by (auto simp: gc_loc_def pending_at_def logged_at_def L'_def)
    qed (auto simp: gc_loc_def pending_at_def logged_at_def L'_def chunk_in_range_def)
  qed
  moreover have "log_ok e L'" using assms(1,2) by (auto simp: gc_bkt_def gc_log_def log_ok_def L'_def)
  moreover have "newest e K (log_seq L' 0 nh) hm"
  proof -
    have "src \<le> nh" using assms(2,5) by (simp add: gc_log_def)
    then have "log_seq L' 0 nh = log_seq L' 0 (src - 1) @ log_seq L' src nh" using assms(4) dst(3) by (intro log_seq_split) auto
    moreover have "log_seq L' 0 (src - 1) = log_seq W 0 (src - 1)" by (rule log_seq_cong) (simp add: L'_def)
    moreover have "log_seq W 0 (src - 1) = log_seq W 0 dst" using assms(4) dst(3,4) by (intro log_seq_extend) auto
    moreover have "log_seq L' src nh = log_seq L src nh" by (rule log_seq_cong) (simp add: L'_def)
    moreover have "log_seq L src nh = entries src (L src) @ log_seq L (src + 1) nh" using \<open>src \<le> nh\<close> by (rule log_seq_head)
    ultimately show ?thesis using hm(3) by (simp add: gc_newest_def gc_seq_def)
  qed
  ultimately show ?thesis using B(2,3) hm(1) by (auto simp: bkt_rep_def bkt_ctl_def)
qed

lemma BeforeBucket_same:
  assumes "bkt_rep e K bid b m" "bkt_limits e K" "mrg \<longrightarrow> (\<forall>k \<in> K. length k < 256)"
  shows "bkt_rep e K bid (BeforeBucket e ge en mrg b) m" "bk_datas (BeforeBucket e ge en mrg b) = bk_datas b"
proof -
  let ?h = "(bk_hints b)\<lparr>hm_state := hm_state (bk_hints b) OR HintStateGC, hm_maxDumpableChunkID := en - 1\<rparr>"
  obtain h1 where b1: "BeforeBucket e ge en mrg b = removeHtree (b\<lparr>bk_hints := h1\<rparr>)"
    and h1: "hints_ok (conf e) (getKeyHash e) K h1" "hm_maxChunkID h1 = hm_maxChunkID (bk_hints b)"
  proof (cases mrg)
    case True
    have lim: "hint_limits (conf e)" "inj_on (getKeyHash e) K" using assms(2) by (simp_all add: bkt_limits_def)
    have "hints_ok (conf e) (getKeyHash e) K ?h" using assms(1) by (simp add: bkt_rep_def bkt_ctl_def hints_ok_def)
    note f = forceRotateSplit_ok [OF this lim(1)]
    define h2 where "h2 = snd (snd (dumpAndMerge (conf e) (op_now (ge_op ge) + SecsBeforeDump + 1) True (forceRotateSplit ?h)))"
    note d = dumpAndMerge_ok [OF f(1) lim(1), of "op_now (ge_op ge) + SecsBeforeDump + 1", folded h2_def]
    have "\<forall>k \<in> K. length k < 256" using True assms(3) by blast
    note m = Merge_ok [OF d(1) this lim(2), of "conf e" "ge_states ge" "ge_create ge" "hid_Chunk (ct_id (hm_collisions h2))" True]
    from that [OF _ m(1)] m(2) d(2) f(2) True show ?thesis by (simp add: BeforeBucket_def Let_def h2_def)
  next
    case False
    then show ?thesis using that [of "RemoveMerged ?h"] assms(1)
      by (simp add: BeforeBucket_def Let_def RemoveMerged_def bkt_rep_def bkt_ctl_def hints_ok_def)
  qed
  show "bkt_rep e K bid (BeforeBucket e ge en mrg b) m" "bk_datas (BeforeBucket e ge en mrg b) = bk_datas b"
    using assms(1) h1 by (simp_all add: b1 removeHtree_def bkt_rep_def bkt_ctl_def)
qed

lemma AfterBucket_same: "bkt_rep e K bid b m \<Longrightarrow> bkt_rep e K bid (AfterBucket b) m"
  by (simp add: AfterBucket_def bkt_rep_def bkt_ctl_def hints_ok_def)

lemma gc_seq_start:
  assumes "gc_data e ds L Q W start 0 dst" "\<And>c. 0 \<le> c \<Longrightarrow> c < start \<Longrightarrow> W c = L c" "0 \<le> start" "start \<le> nh"
  shows "gc_seq W L start 0 dst nh = log_seq L 0 nh"
proof -
  have d: "0 \<le> dst" "dst \<le> start" "\<And>c. dst < c \<Longrightarrow> W c = []" using assms(1) by (simp_all add: gc_data_def)
  have s: "log_seq W 0 start = log_seq W 0 dst" using d by (intro log_seq_extend) auto
  have w: "log_size (W start) \<le> rec_off (L start) 0" if "dst = start" using assms(1) that by (simp add: gc_data_def)
  have "W start = []" using d(2) d(3) [of start] w by (cases "dst = start") auto
  then have "log_seq W 0 start = log_seq W 0 (start - 1)" using log_seq_last [OF assms(3), of W] by simp
  moreover have "log_seq W 0 (start - 1) = log_seq L 0 (start - 1)" using assms(2) by (intro log_seq_cong) simp
  moreover have "log_seq L 0 nh = log_seq L 0 (start - 1) @ log_seq L start nh" using assms(3,4) by (intro log_seq_split) auto
  ultimately show ?thesis using s log_seq_head [OF assms(4), of L] by (simp add: gc_seq_def)
qed

lemma gc_log_rep:
  assumes "ds_inv e [] ds Idle L Q Q" "keys_in (bkt_dom e K bid) L" "en < ds_newHead ds" "\<forall>c. 0 \<le> c \<and> c \<le> en \<longrightarrow> dc_wbuf (ds_chunks ds c) = []" "log_ok e L"
  shows "gc_log e K bid (ds_newHead ds) en L Q"
proof -
  have "Q c = length (L c)" if "0 \<le> c" "c \<le> en" for c
  proof -
    have "dc_wbuf (ds_chunks ds c) = map (buffered (dc_chunkid (ds_chunks ds c)) (L c)) [Q c..<length (L c)]" "Q c \<le> length (L c)"
      using assms(1) by (simp_all add: ds_inv_def chunk_rep_def)
    then show ?thesis using assms(4) that by auto
  qed
  then show ?thesis using assms(1-3,5) ds_inv_valid [OF assms(1)] by (auto simp: gc_log_def ds_inv_def keys_in_def)
qed

lemma gc_run_rep:
  assumes "bkt_rep e K bid b m" "bkt_limits e K" "0 \<le> start" "start \<le> en" "en < ds_newHead (bk_datas b)"
    and "\<forall>c. 0 \<le> c \<and> c \<le> en \<longrightarrow> dc_wbuf (ds_chunks (bk_datas b) c) = []" "\<not> ge_cancel ge start"
    and "mrg \<longrightarrow> (\<forall>k \<in> K. length k < 256)"
  shows "\<exists>gc b' d'. gc_run e ge start en mrg b d = Some (gc, b', d') \<and> gs_Err gc = None \<and> bkt_rep e K bid b' m"
proof -
  define b1 where "b1 = BeforeBucket e ge en mrg b"
  note B1 = BeforeBucket_same [OF assms(1,2,8), of ge en, folded b1_def]
  have lim: "chunk_limits e" "hint_limits (conf e)" using assms(2) by (simp_all add: bkt_limits_def)
  obtain L Q hm where r: "htree_rep (conf e) bid (bk_htree b1) hm" "index_on e K (logged_at e L) hm m" "bkt_ctl e K b1"
      "ds_inv e [] (bk_datas b1) Idle L Q Q" "keys_in (bkt_dom e K bid) L" "log_ok e L" "newest e K (log_seq L 0 (ds_newHead (bk_datas b1))) hm"
    using B1(1) by (auto simp: bkt_rep_def)
  let ?nh = "ds_newHead (bk_datas b1)"
  have log: "gc_log e K bid ?nh en L Q" using assms(5,6) B1(2) by (intro gc_log_rep [OF r(4,5) _ _ r(6)]) simp_all
  define dst where "dst = dst_loop e start (nat start) (bk_datas b1)"
  define W where "W = (\<lambda>c. if 0 \<le> c \<and> c < start then L c else [])"
  obtain dc where dc: "beginGCWriting start (ds_chunks (bk_datas b1) dst) = Some dc" "gc_data e (ds_put dst dc (bk_datas b1)) L Q W start 0 dst"
      "dst = start \<longrightarrow> gc_whole (ds_put dst dc (bk_datas b1)) L start"
    using gc_begin [OF r(4) log lim(1) assms(3,4) dst_def, folded W_def] by blast
  have "index_on e K (gc_loc e W L start 0) hm m"
    by (rule index_on_mono [OF r(2)]) (auto simp: gc_loc_def logged_at_def pending_at_def W_def chunk_in_range_def)
  moreover have "keys_in (bkt_dom e K bid) W" using r(5) by (auto simp: keys_in_def W_def)
  moreover have "log_ok e W" using r(6) by (auto simp: log_ok_def W_def)
  moreover have "gc_newest start e K ?nh W L start 0 dst hm" using r(7) gc_seq_start [OF dc(2), of ?nh] assms(3,4) log
    by (auto simp: gc_newest_def gc_log_def W_def)
  ultimately have G: "gc_bkt start e K bid m ?nh L Q W start 0 dst (put_chunk dst dc b1)"
    using dc(2) r(1,3) by (auto simp: gc_bkt_def bkt_ctl_def)
  let ?gc = "\<lparr>gs_Begin = start, gs_End = en, gs_Src = start, gs_Dst = dst, gs_Running = True, gs_Err = None, gs_CancelFlag = False, gs_sum = zero_fs\<rparr>"
  obtain gc b2 d1 W' where c: "gc_chunks (nat (en - start + 1)) e ge ?gc (put_chunk dst dc b1) d = Some (gc, b2, d1)" "gs_Err gc = None"
      "gs_Dst gc < gs_Src gc" "gs_Src gc \<le> en + 1" "gc_bkt start e K bid m ?nh L Q W' (gs_Src gc) 0 (gs_Dst gc) b2"
    using gc_chunks_ok [OF log assms(2,3), of m W ?gc "put_chunk dst dc b1" "nat (en - start + 1)" ge d] G dc(3) assms(3,4,7) by auto
  let ?b3 = "put_chunk (gs_Dst gc) (endGCWriting (ds_chunks (bk_datas b2) (gs_Dst gc))) b2"
  have R: "bkt_rep e K bid ?b3 m" by (rule gc_end [OF c(5) log lim(1) c(3,4)])
  then have ctl: "bkt_ctl e K ?b3" by (simp add: bkt_rep_def)
  have "chunk_in_range (gs_Dst gc)"
    using c(3-5) log by (auto simp: gc_bkt_def gc_data_def bkt_ctl_def chunk_in_range_def gc_log_def)
  from bkt_trydump_ok [OF ctl lim(2) this, of "ge_op ge" True] obtain h where
    h: "bkt_trydump e (ge_op ge) (gs_Dst gc) True ?b3 = Some (?b3\<lparr>bk_hints := h\<rparr>)" "bkt_ctl e K (?b3\<lparr>bk_hints := h\<rparr>)" by blast
  have "gc_run e ge start en mrg b d = Some (gc\<lparr>gs_Running := False\<rparr>, AfterBucket (?b3\<lparr>bk_hints := h\<rparr>), d1)"
    using dc(1) c(1) h(1) by (simp add: gc_run_def Let_def b1_def [symmetric] dst_def [symmetric])
  moreover have "bkt_rep e K bid (?b3\<lparr>bk_hints := h\<rparr>) m" using R h(2) by (simp add: bkt_rep_def)
  ultimately show ?thesis using AfterBucket_same c(2) by fastforce
qed

end
