(* ===== verification/HintLog.thy ===== *)
theory HintLog
  imports HintKeys
begin

text \<open>
  The hints of a chunk as one map.  \<open>chunk_has\<close> says which item the splits of a chunk hold for every key, in buffers or in files, the newest split
  first; the lemmas show that \<open>setItem\<close> adds an item to this map, that a dump keeps it, and that after a dump with the last split all
  of it is in files whose scan gives it back.
\<close>

section \<open>Definitions\<close>

definition split_map :: "HStoreConfig \<Rightarrow> (HintItem \<Rightarrow> bool) \<Rightarrow> hintSplit \<Rightarrow> ((u64 \<times> bytes) \<rightharpoonup> HintItem) \<Rightarrow> bool" where
  "split_map c P sp M \<longleftrightarrow> (\<exists>its. distinct (map hint_key its) \<and> (\<forall>it \<in> set its. P it) \<and> M = hint_find its \<and>
     (case sp_file sp of
        Some idx \<Rightarrow> \<forall>ck. \<exists>r. hint_open (hi_file idx) ck = Inr r \<and> hint_scan r = Inr its
      | None \<Rightarrow> \<exists>b. sp_buf sp = Some b \<and> hb_inv c b its))"

text \<open>A split that a dump writes or has written.\<close>

definition split_full :: "hintSplit \<Rightarrow> bool" where
  "split_full sp \<longleftrightarrow> sp_file sp \<noteq> None \<or> (\<exists>b. sp_buf sp = Some b \<and> 0 < hb_num b)"

definition chunk_has :: "HStoreConfig \<Rightarrow> (HintItem \<Rightarrow> bool) \<Rightarrow> hintChunk \<Rightarrow> ((u64 \<times> bytes) \<rightharpoonup> HintItem) \<Rightarrow> bool" where
  "chunk_has c P ck M \<longleftrightarrow> hc_splits ck \<noteq> [] \<and> sp_file (last (hc_splits ck)) = None \<and> (\<forall>sp \<in> set (butlast (hc_splits ck)). split_full sp) \<and>
     (\<exists>Ms. list_all2 (split_map c P) (hc_splits ck) Ms \<and> M = foldl (++) Map.empty Ms)"

text \<open>The last split holds something, and the chunk was written at the time \<open>now\<close>.\<close>

definition chunk_live :: "int \<Rightarrow> hintChunk \<Rightarrow> bool" where
  "chunk_live now ck \<longleftrightarrow> split_full (last (hc_splits ck)) \<and> hc_lastTS ck = now"

text \<open>What an operation on one chunk leaves alone.\<close>

definition hm_frame :: "int \<Rightarrow> hintMgr \<Rightarrow> hintMgr \<Rightarrow> bool" where
  "hm_frame cid h h' \<longleftrightarrow> (\<forall>i. i \<noteq> cid \<longrightarrow> hm_chunks h' i = hm_chunks h i) \<and>
     (\<forall>p \<in> Mapping.keys (hm_files h'). fst p = cid \<or> p \<in> Mapping.keys (hm_files h))"

lemma hm_frame_refl [simp]: "hm_frame cid h h"
  by (simp add: hm_frame_def)

lemma hm_frame_trans: "hm_frame cid h h1 \<Longrightarrow> hm_frame cid h1 h2 \<Longrightarrow> hm_frame cid h h2"
  by (auto simp: hm_frame_def)

section \<open>Setting an item\<close>

lemma foldl_map_add: "foldl (++) A Ms = A ++ foldl (++) Map.empty Ms"
proof (induction Ms arbitrary: A)
  case (Cons M Ms)
  from Cons.IH [of "A ++ M"] Cons.IH [of M] show ?case by (simp add: map_add_assoc)
qed simp

lemma split_map_new: "0 < SplitCap c \<Longrightarrow> split_map c P newhintSplit Map.empty"
  using hb_inv_new [of c] by (auto simp: split_map_def newhintSplit_def hint_find_def fun_eq_iff intro!: exI [of _ "[]"])

lemma chunk_has_new: "0 < SplitCap c \<Longrightarrow> chunk_has c P (newHintChunk i) Map.empty"
  using split_map_new [of c P]
  by (auto simp: chunk_has_def newHintChunk_def hc_rotate_def newhintSplit_def intro!: exI [of _ "[Map.empty]"])

lemma hb_Set_split:
  assumes "hb_inv c b its" "\<forall>x \<in> set its. P x" "P it" "hb_Set c it recSize b = Some (ok, b')" "0 < SplitCap c"
  shows "\<exists>its'. hb_inv c b' its' \<and> (\<forall>x \<in> set its'. P x) \<and> 0 < hb_num b' \<and>
    hint_find its' = (if ok then (hint_find its)(hint_key it \<mapsto> it) else hint_find its)"
proof -
  from hb_Set_inv [OF assms(1), of it recSize] assms(4)
  have s: "if ok then \<exists>its'. hb_inv c b' its' \<and> hint_find its' = (hint_find its)(hint_key it \<mapsto> it)
     else hb_inv c b' its \<and> hint_find its (hint_key it) = None \<and> length its = nat (SplitCap c)" by auto
  show ?thesis
  proof (cases ok)
    case True
    then obtain its' where i: "hb_inv c b' its'" "hint_find its' = (hint_find its)(hint_key it \<mapsto> it)" using s by auto
    have d: "distinct (map hint_key its')" "hb_num b' = length its'" using i(1) by (simp_all add: hb_inv_def)
    have "P x" if x: "x \<in> set its'" for x
    proof -
      have "hint_find its' (hint_key x) = Some x" by (rule hint_find_mem [OF d(1) x])
      then have "x = it \<or> hint_find its (hint_key x) = Some x" by (simp add: i(2) split: if_splits)
      then show ?thesis using assms(2,3) hint_find_in by blast
    qed
    moreover have "its' \<noteq> []" using fun_cong [OF i(2), of "hint_key it"] by (auto simp: hint_find_def)
    ultimately show ?thesis using i d True by auto
  next
    case False
    then have "hb_inv c b' its" "0 < hb_num b'" using s assms(5) by (auto simp: hb_inv_def)
    then show ?thesis using False assms(2) by auto
  qed
qed

lemma split_map_buf:
  assumes "split_map c P sp M" "sp_file sp = None"
  obtains b its where "sp_buf sp = Some b" "hb_inv c b its" "\<forall>x \<in> set its. P x" "M = hint_find its"
  using assms by (auto simp: split_map_def)

lemma split_map_intro: "hb_inv c b its \<Longrightarrow> \<forall>x \<in> set its. P x \<Longrightarrow> split_map c P \<lparr>sp_buf = Some b, sp_file = None\<rparr> (hint_find its)"
  by (auto simp: split_map_def hb_inv_def)

lemma hc_setItem_has:
  assumes "chunk_has c P ck M" "P it" "0 < SplitCap c" "hc_setItem c it recSize now ck = Some (rot, ck')"
  shows "chunk_has c P ck' (M(hint_key it \<mapsto> it)) \<and> chunk_live now ck'"
proof -
  obtain sps sp where sps: "hc_splits ck = sps @ [sp]" using assms(1) by (cases "hc_splits ck" rule: rev_cases) (auto simp: chunk_has_def)
  obtain Ns N where N: "list_all2 (split_map c P) sps Ns" "split_map c P sp N" "M = foldl (++) Map.empty Ns ++ N" "sp_file sp = None"
      "\<forall>sp \<in> set sps. split_full sp"
    using assms(1) by (auto simp: chunk_has_def sps list_all2_append1 list_all2_Cons1)
  obtain b its where b: "sp_buf sp = Some b" "hb_inv c b its" "\<forall>x \<in> set its. P x" "N = hint_find its" by (rule split_map_buf [OF N(2,4)])
  obtain ok b1 where s: "hb_Set c it recSize b = Some (ok, b1)" using hb_Set_inv [OF b(2)] by blast
  obtain its1 where i1: "hb_inv c b1 its1" "\<forall>x \<in> set its1. P x" "0 < hb_num b1"
      "hint_find its1 = (if ok then (hint_find its)(hint_key it \<mapsto> it) else hint_find its)"
    using hb_Set_split [OF b(2,3) assms(2) s assms(3)] by blast
  let ?sp1 = "\<lparr>sp_buf = Some b1, sp_file = None\<rparr>"
  have sp1: "sp\<lparr>sp_buf := Some b1\<rparr> = ?sp1" using N(4) by simp
  show ?thesis
  proof (cases ok)
    case True
    then have ck': "ck' = ck\<lparr>hc_splits := sps @ [?sp1], hc_lastTS := now\<rparr>"
      using assms(4) b(1) s by (simp add: hc_setItem_def sps sp1 Let_def)
    have "list_all2 (split_map c P) (sps @ [?sp1]) (Ns @ [hint_find its1])"
      using N(1) split_map_intro [OF i1(1,2)] by (simp add: list_all2_appendI)
    moreover have "M(hint_key it \<mapsto> it) = foldl (++) Map.empty (Ns @ [hint_find its1])" using True N(3) b(4) i1(4) by simp
    ultimately show ?thesis using N(5) i1(3) by (auto simp: ck' chunk_has_def chunk_live_def split_full_def)
  next
    case False
    have nb: "hb_inv c NewHintBuffer []" using assms(3) by (intro hb_inv_new) simp
    obtain ok2 b2 where s2: "hb_Set c it recSize NewHintBuffer = Some (ok2, b2)" using hb_Set_inv [OF nb] by blast
    have ok2: ok2 using hb_Set_inv [OF nb, of it recSize] s2 assms(3) by (auto split: if_splits)
    obtain its2 where i2: "hb_inv c b2 its2" "\<forall>x \<in> set its2. P x" "0 < hb_num b2" "hint_find its2 = (hint_find [])(hint_key it \<mapsto> it)"
      using hb_Set_split [where P = P, OF nb _ assms(2) s2 assms(3)] ok2 by auto
    have ck': "ck' = ck\<lparr>hc_splits := sps @ [?sp1, \<lparr>sp_buf = Some b2, sp_file = None\<rparr>], hc_lastTS := now\<rparr>"
      using assms(4) b(1) s s2 False by (simp add: hc_setItem_def sps sp1 Let_def)
    have "list_all2 (split_map c P) (sps @ [?sp1, \<lparr>sp_buf = Some b2, sp_file = None\<rparr>]) (Ns @ [hint_find its1, hint_find its2])"
      using N(1) split_map_intro [OF i1(1,2)] split_map_intro [OF i2(1,2)] by (simp add: list_all2_appendI)
    moreover have "hint_find its2 = [hint_key it \<mapsto> it]" using i2(4) by (auto simp: hint_find_def fun_eq_iff)
    then have "M(hint_key it \<mapsto> it) = foldl (++) Map.empty (Ns @ [hint_find its1, hint_find its2])" using False N(3) b(4) i1(4) by simp
    ultimately show ?thesis using N(5) i1(3) i2(3) by (auto simp: ck' chunk_has_def chunk_live_def split_full_def butlast_append)
  qed
qed

section \<open>Dumping\<close>

lemma hint_find_sort:
  assumes "distinct (map hint_key its)"
  shows "hint_find (sort_key hint_key its) = hint_find its"
proof
  fix k
  note d = hint_sorted_sort(2) [OF assms]
  show "hint_find (sort_key hint_key its) k = hint_find its k"
  proof (cases "hint_find its k")
    case None
    then have "k \<notin> hint_key ` set its" by (simp add: hint_find_None)
    then have "hint_find (sort_key hint_key its) k = None" by (simp add: hint_find_None)
    then show ?thesis using None by simp
  next
    case (Some it)
    then have "it \<in> set its" "hint_key it = k" by (auto simp: hint_find_def find_Some_iff)
    then show ?thesis using Some hint_find_mem [OF d, of it] by simp
  qed
qed

lemma hb_Dump_split:
  assumes "hb_inv c b its" "\<forall>x \<in> set its. P x \<and> hint_item_ok x" "hint_limits c" "hb_Dump c b = Some idx"
  shows "split_map c P \<lparr>sp_buf = None, sp_file = Some idx\<rparr> (hint_find its)"
proof -
  let ?s = "sort_key hint_key its"
  have its: "distinct (map hint_key its)" "take (hb_num b) (hb_items b) = map Some its" using assms(1) by (simp_all add: hb_inv_def)
  have "int (length its) \<le> SplitCap c" using hb_inv_cap [OF assms(1)] assms(3) by (simp add: hint_limits_def le_nat_iff)
  then have len: "length ?s < 4096 * 4096" using assms(3) by (simp add: hint_limits_def)
  have ok: "\<forall>x \<in> set ?s. hint_item_ok x" using assms(2) by simp
  obtain w where w: "write_items c ?s (newHintFileWriter (hb_maxoffset b)) = Some w" "hi_file idx = Some (w_file (w_close w))"
    using assms(4) its(2) by (auto simp: hb_Dump_def those_Some split: bind_splits)
  have "\<exists>r. hint_open (hi_file idx) ck = Inr r \<and> hint_scan r = Inr ?s" for ck
    using hint_file_written [OF ok len, of c "hb_maxoffset b" ck] w by auto
  then show ?thesis using assms(2) hint_sorted_sort(2) [OF its(1)] hint_find_sort [OF its(1)] by (auto simp: split_map_def intro!: exI [of _ ?s])
qed

lemma hm_dump_has:
  assumes "hm_dump c cid j h = Some h'" "chunk_has c P (hm_chunks h cid) M" "\<And>x. P x \<Longrightarrow> hint_item_ok x" "hint_limits c"
    and "Suc j < length (hc_splits (hm_chunks h cid))" "sp_file (hc_splits (hm_chunks h cid) ! j) = None"
  shows "hm_frame cid h h' \<and> chunk_has c P (hm_chunks h' cid) M \<and> hm_maxChunkID h' = hm_maxChunkID h \<and>
    (\<exists>idx. hm_chunks h' cid = (hm_chunks h cid)\<lparr>hc_splits := (hc_splits (hm_chunks h cid))[j := \<lparr>sp_buf = None, sp_file = Some idx\<rparr>]\<rparr>)"
proof -
  let ?sps = "hc_splits (hm_chunks h cid)"
  have j: "j < length ?sps" using assms(5) by simp
  obtain b idx f where d: "sp_buf (?sps ! j) = Some b" "hb_Dump c b = Some idx"
      "hm_chunks h' = (hm_chunks h)(cid := (hm_chunks h cid)\<lparr>hc_splits := ?sps[j := \<lparr>sp_buf = None, sp_file = Some idx\<rparr>]\<rparr>)"
      "hm_files h' = Mapping.update (cid, int j) f (hm_files h)" "hm_maxChunkID h' = hm_maxChunkID h"
    using assms(1) j by (auto simp: hm_dump_def Let_def nth_opt_Some split: bind_splits)
  obtain Ms where Ms: "list_all2 (split_map c P) ?sps Ms" "M = foldl (++) Map.empty Ms" using assms(2) by (auto simp: chunk_has_def)
  let ?sp = "\<lparr>sp_buf = None, sp_file = Some idx\<rparr>"
  have "split_map c P (?sps ! j) (Ms ! j)" using Ms(1) j by (simp add: list_all2_nthD)
  then obtain its where its: "hb_inv c b its" "\<forall>x \<in> set its. P x" "Ms ! j = hint_find its"
    using assms(6) d(1) by (auto elim!: split_map_buf)
  have "split_map c P ?sp (Ms ! j)" using hb_Dump_split [OF its(1) _ assms(4) d(2), of P] its(2,3) assms(3) by simp
  then have "list_all2 (split_map c P) (?sps[j := ?sp]) Ms"
    using list_all2_update_cong [OF Ms(1), of ?sp "Ms ! j" j] by simp
  moreover have "last (?sps[j := ?sp]) = last ?sps" "butlast (?sps[j := ?sp]) = (butlast ?sps)[j := ?sp]"
    using assms(5) by (cases ?sps rule: rev_cases; simp add: list_update_append butlast_append)+
  ultimately have "chunk_has c P (hm_chunks h' cid) M"
    using assms(2) Ms(2) by (auto simp: d(3) chunk_has_def split_full_def dest!: set_update_subset_insert [THEN subsetD])
  then show ?thesis using d(3-5) by (auto simp: hm_frame_def)
qed

lemma dump_old_has:
  assumes "dump_old c cid js h = Some h'" "chunk_has c P (hm_chunks h cid) M" "\<And>x. P x \<Longrightarrow> hint_item_ok x" "hint_limits c"
    and "\<forall>j \<in> set js. Suc j < length (hc_splits (hm_chunks h cid))"
  shows "hm_frame cid h h' \<and> chunk_has c P (hm_chunks h' cid) M \<and> hm_maxChunkID h' = hm_maxChunkID h \<and>
    length (hc_splits (hm_chunks h' cid)) = length (hc_splits (hm_chunks h cid)) \<and>
    last (hc_splits (hm_chunks h' cid)) = last (hc_splits (hm_chunks h cid)) \<and> hc_lastTS (hm_chunks h' cid) = hc_lastTS (hm_chunks h cid) \<and>
    (\<forall>j < length (hc_splits (hm_chunks h cid)). j \<in> set js \<or> sp_file (hc_splits (hm_chunks h cid) ! j) \<noteq> None \<longrightarrow>
       sp_file (hc_splits (hm_chunks h' cid) ! j) \<noteq> None)"
  using assms(1,2,5)
proof (induction js arbitrary: h)
  case (Cons j js)
  let ?sps = "hc_splits (hm_chunks h cid)"
  have j: "Suc j < length ?sps" using Cons.prems(3) by simp
  then have full: "split_full (?sps ! j)" using Cons.prems(2) nth_mem [of j "butlast ?sps"] by (auto simp: chunk_has_def nth_butlast)
  have last: "last (?sps[j := x]) = last ?sps" for x using j by (cases ?sps rule: rev_cases) (auto simp: list_update_append)
  obtain h1 where h1: "dump_old c cid js h1 = Some h'" "(if sp_file (?sps ! j) = None then hm_dump c cid j h else Some h) = Some h1"
    using Cons.prems(1) j full by (auto simp: nth_opt_Some needDump_def split_full_def split: bind_splits if_splits)
  have 1: "hm_frame cid h h1 \<and> chunk_has c P (hm_chunks h1 cid) M \<and> hm_maxChunkID h1 = hm_maxChunkID h \<and>
      length (hc_splits (hm_chunks h1 cid)) = length ?sps \<and> last (hc_splits (hm_chunks h1 cid)) = last ?sps \<and>
      hc_lastTS (hm_chunks h1 cid) = hc_lastTS (hm_chunks h cid) \<and>
      (\<forall>i < length ?sps. i = j \<or> sp_file (?sps ! i) \<noteq> None \<longrightarrow> sp_file (hc_splits (hm_chunks h1 cid) ! i) \<noteq> None)"
  proof (cases "sp_file (?sps ! j) = None")
    case True
    with h1(2) have "hm_dump c cid j h = Some h1" by simp
    from hm_dump_has [OF this Cons.prems(2) assms(3,4) j True] last j show ?thesis by (auto simp: nth_list_update)
  qed (use h1(2) Cons.prems(2) in auto)
  have "\<forall>j \<in> set js. Suc j < length (hc_splits (hm_chunks h1 cid))" using 1 Cons.prems(3) by simp
  from Cons.IH [OF h1(1) _ this] 1 show ?case by (auto intro: hm_frame_trans)
qed auto

text \<open>The dump that \<open>setItem\<close> starts when a split is full leaves the last split.\<close>

lemma trydump_rotated:
  assumes "trydump c now cid False h = Some (s, h')" "chunk_has c P (hm_chunks h cid) M" "\<And>x. P x \<Longrightarrow> hint_item_ok x" "hint_limits c"
    and "chunk_live now (hm_chunks h cid)"
  shows "hm_frame cid h h' \<and> chunk_has c P (hm_chunks h' cid) M \<and> chunk_live now (hm_chunks h' cid)"
proof -
  let ?l = "length (hc_splits (hm_chunks h cid))"
  obtain h1 where h1: "dump_old c cid [0..<?l - 1] h = Some h1" using assms(1) by (auto simp: trydump_def Let_def split: bind_splits if_splits)
  have "\<forall>j \<in> set [0..<?l - 1]. Suc j < ?l" by auto
  note D = dump_old_has [OF h1 assms(2-4) this]
  then have "hc_lastTS (hm_chunks h1 cid) = now" using assms(5) by (auto simp: chunk_live_def)
  then have "h' = h1" using assms(1) h1 by (auto simp: trydump_def Let_def silenceTime_def SecsBeforeDump_def split: if_splits)
  then show ?thesis using D assms(5) by (auto simp: chunk_live_def)
qed

lemma hm_setItem_has:
  assumes "hm_setItem c now mergeChan it cid recSize h = Some (rot, h')" "chunk_has c P (hm_chunks h cid) M" "P it"
    and "\<And>x. P x \<Longrightarrow> hint_item_ok x" "hint_limits c"
  shows "hm_frame cid h h' \<and> chunk_has c P (hm_chunks h' cid) (M(hint_key it \<mapsto> it)) \<and> chunk_live now (hm_chunks h' cid)"
proof -
  obtain ck where s: "hc_setItem c it recSize now (hm_chunks h cid) = Some (rot, ck)"
    using assms(1) by (auto simp: hm_setItem_def Let_def split: bind_splits if_splits)
  have sc: "0 < SplitCap c" using assms(5) by (simp add: hint_limits_def)
  note S = hc_setItem_has [OF assms(2,3) sc s]
  let ?h1 = "h\<lparr>hm_chunks := (hm_chunks h)(cid := ck)\<rparr>"
  have f1: "hm_frame cid h ?h1" by (simp add: hm_frame_def)
  define X where "X = (if rot \<and> \<not> (mergeChan \<and> cid \<ge> hm_maxChunkID ?h1) then map_option snd (trydump c now cid False ?h1) else Some ?h1)"
  have "(do { h2 \<leftarrow> X; Some (rot, if cid > hm_maxChunkID h2 then h2\<lparr>hm_maxChunkID := cid\<rparr> else h2) }) = Some (rot, h')"
    using assms(1) unfolding hm_setItem_def Let_def s bind.bind_lunit prod.case X_def [symmetric] by (cases "hint_chunk_ok cid") simp_all
  then obtain h2 where X: "X = Some h2" and h2: "h' = (if cid > hm_maxChunkID h2 then h2\<lparr>hm_maxChunkID := cid\<rparr> else h2)"
    by (cases X) simp_all
  have "h2 = ?h1 \<or> (\<exists>x. trydump c now cid False ?h1 = Some (x, h2))" using X by (auto simp: X_def split: if_splits)
  then have "hm_frame cid h h2 \<and> chunk_has c P (hm_chunks h2 cid) (M(hint_key it \<mapsto> it)) \<and> chunk_live now (hm_chunks h2 cid)"
  proof
    assume "\<exists>x. trydump c now cid False ?h1 = Some (x, h2)"
    then obtain x where "trydump c now cid False ?h1 = Some (x, h2)" by blast
    from trydump_rotated [OF this _ assms(4,5)] S f1 show ?thesis by (auto intro: hm_frame_trans)
  qed (use S f1 in auto)
  then show ?thesis unfolding h2 by (auto simp: hm_frame_def)
qed

text \<open>A dump with the last split: everything is in files, and a new split is started.\<close>

lemma trydump_all:
  assumes "trydump c now cid True h = Some (s, h')" "chunk_has c P (hm_chunks h cid) M" "\<And>x. P x \<Longrightarrow> hint_item_ok x" "hint_limits c"
    and "chunk_live ts (hm_chunks h cid)" "ts \<noteq> 0"
  shows "hm_frame cid h h' \<and> (\<exists>sps Ms. hc_splits (hm_chunks h' cid) = sps @ [newhintSplit] \<and> sps \<noteq> [] \<and>
    (\<forall>sp \<in> set sps. sp_file sp \<noteq> None) \<and> list_all2 (split_map c P) sps Ms \<and> M = foldl (++) Map.empty Ms)"
proof -
  let ?l = "length (hc_splits (hm_chunks h cid))"
  obtain h1 where h1: "dump_old c cid [0..<?l - 1] h = Some h1" using assms(1) by (auto simp: trydump_def Let_def split: bind_splits if_splits)
  let ?ck = "hm_chunks h1 cid"
  have js: "\<forall>j \<in> set [0..<?l - 1]. Suc j < ?l" by auto
  have "hm_frame cid h h1 \<and> chunk_has c P ?ck M \<and> length (hc_splits ?ck) = ?l \<and> last (hc_splits ?ck) = last (hc_splits (hm_chunks h cid)) \<and>
      hc_lastTS ?ck = ts \<and> (\<forall>j < ?l - 1. sp_file (hc_splits ?ck ! j) \<noteq> None)"
    using dump_old_has [OF h1 assms(2-4)] assms(5) js by (auto simp: chunk_live_def)
  then have D: "hm_frame cid h h1" "chunk_has c P ?ck M" "length (hc_splits ?ck) = ?l" "last (hc_splits ?ck) = last (hc_splits (hm_chunks h cid))"
      "hc_lastTS ?ck = ts" "\<And>j. j < ?l - 1 \<Longrightarrow> sp_file (hc_splits ?ck ! j) \<noteq> None" by blast+
  have ne: "hc_splits ?ck \<noteq> []" "sp_file (last (hc_splits ?ck)) = None" "0 < ?l" using D(2,3) by (auto simp: chunk_has_def)
  have la: "hc_splits ?ck ! (?l - 1) = last (hc_splits ?ck)" using ne(1) D(3) by (simp add: last_conv_nth)
  let ?h2 = "h1\<lparr>hm_chunks := (hm_chunks h1)(cid := (hc_rotate ?ck)\<lparr>hc_lastTS := 0\<rparr>)\<rparr>"
  have d: "hm_dump c cid (?l - 1) ?h2 = Some h'"
    using assms(1,5,6) h1 D(3-5) ne la by (auto simp: trydump_def Let_def nth_opt_Some needDump_def chunk_live_def split_full_def split: bind_splits if_splits)
  have ch: "chunk_has c P (hm_chunks ?h2 cid) M"
  proof -
    obtain Ms where "list_all2 (split_map c P) (hc_splits ?ck) Ms" "M = foldl (++) Map.empty Ms" using D(2) by (auto simp: chunk_has_def)
    moreover have "split_map c P newhintSplit Map.empty" using assms(4) by (intro split_map_new) (simp add: hint_limits_def)
    moreover have "split_full (last (hc_splits ?ck))" using D(4) assms(5) by (simp add: chunk_live_def)
    then have "\<forall>sp \<in> set (hc_splits ?ck). split_full sp"
      using D(2) ne(1) by (metis chunk_has_def append_butlast_last_id in_set_conv_decomp UnE set_append empty_iff insert_iff list.set)
    ultimately show ?thesis
      by (auto simp: chunk_has_def hc_rotate_def newhintSplit_def list_all2_appendI intro!: exI [of _ "Ms @ [Map.empty]"])
  qed
  have sc: "Suc (?l - 1) < length (hc_splits (hm_chunks ?h2 cid))" "sp_file (hc_splits (hm_chunks ?h2 cid) ! (?l - 1)) = None"
    using ne D(3) la by (simp_all add: hc_rotate_def nth_append)
  obtain idx where E: "hm_frame cid ?h2 h'" "chunk_has c P (hm_chunks h' cid) M"
      "hc_splits (hm_chunks h' cid) = (hc_splits ?ck)[?l - 1 := \<lparr>sp_buf = None, sp_file = Some idx\<rparr>] @ [newhintSplit]"
    using hm_dump_has [OF d ch assms(3,4) sc] D(3) ne(3) by (auto simp: hc_rotate_def list_update_append)
  let ?sps = "(hc_splits ?ck)[?l - 1 := \<lparr>sp_buf = None, sp_file = Some idx\<rparr>]"
  have "\<forall>sp \<in> set ?sps. sp_file sp \<noteq> None"
  proof
    fix sp assume "sp \<in> set ?sps"
    then obtain j where j: "j < ?l" "sp = ?sps ! j" using D(3) by (auto simp: in_set_conv_nth)
    then show "sp_file sp \<noteq> None" using D(3,6) by (cases "j = ?l - 1") auto
  qed
  moreover obtain Ms N where "list_all2 (split_map c P) ?sps Ms" "split_map c P newhintSplit N" "M = foldl (++) Map.empty Ms ++ N"
    using E(2,3) by (auto simp: chunk_has_def list_all2_append1 list_all2_Cons1)
  moreover have "N = Map.empty" using calculation(3) by (auto simp: split_map_def newhintSplit_def NewHintBuffer_def hb_inv_def hint_find_def fun_eq_iff)
  moreover have "hm_frame cid h1 ?h2" by (simp add: hm_frame_def)
  ultimately show ?thesis using D(1) E(1,3) ne(1) by (auto intro: hm_frame_trans intro!: exI [of _ ?sps] exI [of _ Ms])
qed

end
