(* ===== verification/Recover.thy ===== *)
theory Recover
  imports GcMap HintLog
begin

text \<open>
  Opening a bucket from its data files alone (\<open>open\<close>, \<open>checkHintWithData\<close>, \<open>buildHintFromData\<close> and \<open>updateHtreeFromHint\<close> of
  \<open>store/bucket.go\<close>).  Every data file is scanned, its records become hint items, the hints are dumped and replayed into a new tree, oldest split
  first.  The lemmas show that this never fails on files that hold records, that the tree then points to the last
  record of every key in the log, unless that record is a deletion, and that the bucket represents the map of those records.
\<close>

unbundle bit_operations_syntax

section \<open>Definitions\<close>

text \<open>The body of a stored record.\<close>

definition plain :: "Env \<Rightarrow> Record \<Rightarrow> bytes" where
  "plain e r = (if Flag (rPayload r) AND FLAG_COMPRESS = 0 then pBody (rPayload r) else qlz_decompress e (pBody (rPayload r)))"

text \<open>The hint item of record \<open>j\<close> of a file, and the items of its first \<open>n\<close> records, the last one of a key winning.\<close>

definition rec_item :: "Env \<Rightarrow> Record list \<Rightarrow> nat \<Rightarrow> HintItem" where
  "rec_item e rs j = newHintItem (getKeyHash e (rKey (rs ! j))) (Ver (rPayload (rs ! j))) (Getvhash (plain e (rs ! j)))
     \<lparr>ChunkID = 0, Offset = of_nat (rec_off rs j)\<rparr> (rKey (rs ! j))"

definition rec_map :: "Env \<Rightarrow> Record list \<Rightarrow> nat \<Rightarrow> ((u64 \<times> bytes) \<rightharpoonup> HintItem)" where
  "rec_map e rs n = map_of (rev (map (\<lambda>j. (hint_key (rec_item e rs j), rec_item e rs j)) [0..<n]))"

text \<open>What the replay of a hint item leaves in the tree, and the entry of a key in the tree rebuilt from a log.\<close>

definition tree_item :: "int \<Rightarrow> HintItem \<Rightarrow> HTreeItem option" where
  "tree_item cid it = (if 0 <s it_Ver it
     then Some (norm_item \<lparr>it_Keyhash = it_Keyhash it, it_Pos = \<lparr>ChunkID = cid, Offset = Offset (it_Pos it)\<rparr>, it_Ver = it_Ver it, it_Vhash = it_Vhash it\<rparr>)
     else None)"

fun replayed :: "int \<Rightarrow> HintItem list \<Rightarrow> (u64 \<rightharpoonup> HTreeItem) \<Rightarrow> (u64 \<rightharpoonup> HTreeItem)" where
  "replayed cid [] hm = hm"
| "replayed cid (it # its) hm = replayed cid its (hm(it_Keyhash it := tree_item cid it))"

definition rec_index :: "Env \<Rightarrow> (Position \<times> Record) list \<Rightarrow> bytes \<Rightarrow> HTreeItem option" where
  "rec_index e S k =
     (case last_entry S k of
        Some (pos, r) \<Rightarrow> if 0 <s Ver (rPayload r)
          then Some \<lparr>it_Keyhash = 0, it_Pos = pos, it_Ver = Ver (rPayload r), it_Vhash = Getvhash (plain e r)\<rparr> else None
      | None \<Rightarrow> None)"

text \<open>The items of the keys of a bucket that a hint file can hold.\<close>

definition log_item :: "Env \<Rightarrow> bytes set \<Rightarrow> int \<Rightarrow> HintItem \<Rightarrow> bool" where
  "log_item e K bid it \<longleftrightarrow> hint_item_ok it \<and> key_item (getKeyHash e) (bkt_dom e K bid) it"

section \<open>Replaying hints into the tree\<close>

lemma replay_item_rep:
  assumes "htree_rep (conf e) bid t hm" "log_item e K bid it"
  shows "\<exists>t'. replay_item e fresh cid it t = Some t' \<and> htree_rep (conf e) bid t' (hm(it_Keyhash it := tree_item cid it))"
proof -
  obtain ki where ki: "NewKeyInfoFromBytes (conf e) (it_Key it) (it_Keyhash it) False = Some ki" "bkt_key e K bid ki" "Key ki = it_Key it"
    using gc_key [of "it_Key it" e K bid] assms(2) by (auto simp: log_item_def key_item_def)
  then have key: "htree_key_ok (conf e) bid ki" "KeyHash ki = it_Keyhash it" using assms(2) by (auto simp: bkt_key_def log_item_def key_item_def)
  have h: "conf_ok (conf e)" "2 \<le> TreeHeight (conf e)" "tree_rep (conf e) t hm" "ki_for (conf e) t ki" "t_bucketID t = bid"
    using assms(1) key(1) by (auto simp: htree_rep_def htree_key_ok_def ki_for_def)
  show ?thesis
  proof (cases "0 <s it_Ver it")
    case True
    then show ?thesis using ki(1) key(2) h
        htree_set_rep [OF h(1-4), of fresh "\<lparr>TS = 0, Flag = 0, Ver = it_Ver it, ValueHash = it_Vhash it, RecSize = 0\<rparr>" "\<lparr>ChunkID = cid, Offset = Offset (it_Pos it)\<rparr>"]
      by (auto simp: replay_item_def tree_item_def htree_rep_def simp del: fun_upd_apply)
  next
    case False
    have "(if \<exists>old. hm (KeyHash ki) = Some old then hm(KeyHash ki := None) else hm) = hm(KeyHash ki := None)"
      by (cases "hm (KeyHash ki)") (simp_all add: fun_upd_idem)
    then show ?thesis using False ki(1) key(2) h htree_remove_rep [OF h(1-4), of "\<lparr>ChunkID = - 1, Offset = Offset (it_Pos it)\<rparr>"]
      by (auto simp: replay_item_def tree_item_def htree_rep_def simp del: fun_upd_apply)
  qed
qed

lemma replay_loop_rep:
  assumes "hint_scan r = Inr its" "htree_rep (conf e) bid t hm" "\<forall>it \<in> set its. log_item e K bid it"
  shows "\<exists>t'. replay_loop e fresh cid r t = Some (None, t') \<and> htree_rep (conf e) bid t' (replayed cid its hm)"
  using assms
proof (induction r arbitrary: its t hm rule: hint_scan.induct)
  case (1 r)
  obtain a r' where n: "hint_next r = (a, r')" by (cases "hint_next r")
  show ?case
  proof (cases a)
    case (Inl err)
    then show ?thesis using "1.prems"(1) n by (subst (asm) hint_scan.simps) simp
  next
    case (Inr x)
    show ?thesis
    proof (cases x)
      case None
      then have "its = []" using "1.prems"(1) n Inr by (subst (asm) hint_scan.simps) simp
      then show ?thesis using "1.prems"(2) n Inr None by (subst replay_loop.simps) simp
    next
      case (Some it)
      then obtain its' where s: "hint_scan r' = Inr its'" "its = it # its'"
        using "1.prems"(1) n Inr by (subst (asm) hint_scan.simps) (auto split: sum.splits)
      obtain t1 where t1: "replay_item e fresh cid it t = Some t1" "htree_rep (conf e) bid t1 (hm(it_Keyhash it := tree_item cid it))"
        using replay_item_rep [OF "1.prems"(2), of K it fresh cid] "1.prems"(3) s(2) by auto
      obtain t' where "replay_loop e fresh cid r' t1 = Some (None, t')"
          "htree_rep (conf e) bid t' (replayed cid its' (hm(it_Keyhash it := tree_item cid it)))"
        using "1.IH" [OF n [symmetric] Inr Some s(1) t1(2)] "1.prems"(3) s(2) by (auto simp del: fun_upd_apply)
      then show ?thesis using n Inr Some t1(1) s(2) by (subst replay_loop.simps) simp
    qed
  qed
qed

lemma fold_tree_items:
  assumes "distinct (map hint_key its)" "\<forall>it \<in> set its. key_item (getKeyHash e) K it" "inj_on (getKeyHash e) K" "k \<in> K"
  shows "replayed cid its hm (getKeyHash e k) =
    (case hint_find its (getKeyHash e k, k) of Some it \<Rightarrow> tree_item cid it | None \<Rightarrow> hm (getKeyHash e k))"
  using assms(1,2)
proof (induction its arbitrary: hm)
  case (Cons it its)
  have it: "it_Keyhash it = getKeyHash e (it_Key it)" "it_Key it \<in> K" using Cons.prems(2) by (simp_all add: key_item_def)
  have eq: "it_Keyhash it = getKeyHash e k \<longleftrightarrow> hint_key it = (getKeyHash e k, k)"
    using it assms(3,4) by (auto simp: hint_key_def dest: inj_onD)
  have IH: "replayed cid its hm' (getKeyHash e k) =
      (case hint_find its (getKeyHash e k, k) of Some it \<Rightarrow> tree_item cid it | None \<Rightarrow> hm' (getKeyHash e k))" for hm'
    using Cons by simp
  show ?case
  proof (cases "hint_key it = (getKeyHash e k, k)")
    case True
    then have "hint_find its (getKeyHash e k, k) = None" using Cons.prems(1) by (auto simp: hint_find_None)
    then show ?thesis using True eq IH by (simp add: hint_find_def)
  next
    case False
    then show ?thesis using eq IH by (simp add: hint_find_def split: option.split)
  qed
qed simp

lemma replay_splits_rep:
  assumes "list_all2 (split_map c (log_item e K bid)) sps Ms" "\<forall>sp \<in> set sps. sp_file sp \<noteq> None" "inj_on (getKeyHash e) K"
    and "htree_rep (conf e) bid (bk_htree b) hm"
  shows "\<exists>t hid hm'. replay_splits e oe i n sps b = Some (None, b\<lparr>bk_htree := t, bk_hints := (bk_hints b)\<lparr>hm_maxDumpedHintID := hid\<rparr>\<rparr>) \<and>
    htree_rep (conf e) bid t hm' \<and>
    (\<forall>k \<in> K. hm' (getKeyHash e k) = (case foldl (++) Map.empty Ms (getKeyHash e k, k) of Some it \<Rightarrow> tree_item i it | None \<Rightarrow> hm (getKeyHash e k)))"
  using assms(1,2,4)
proof (induction sps Ms arbitrary: b hm n rule: list_all2_induct)
  case Nil
  then show ?case by (intro exI [of _ "bk_htree b"] exI [of _ "hm_maxDumpedHintID (bk_hints b)"] exI [of _ hm]) simp
next
  case (Cons sp sps M Ms)
  obtain idx where idx: "sp_file sp = Some idx" using Cons.prems(1) by auto
  obtain its where its: "distinct (map hint_key its)" "\<forall>it \<in> set its. log_item e K bid it" "M = hint_find its"
      "\<forall>ck. \<exists>r. hint_open (hi_file idx) ck = Inr r \<and> hint_scan r = Inr its"
    using Cons.hyps(1) idx by (auto simp: split_map_def)
  obtain r where r: "hint_open (hi_file idx) i = Inr r" "hint_scan r = Inr its" using its(4) by blast
  let ?hm1 = "replayed i its hm"
  obtain t1 where t1: "replay_loop e (op_fresh oe) i r (bk_htree b) = Some (None, t1)" "htree_rep (conf e) bid t1 ?hm1"
    using replay_loop_rep [OF r(2) Cons.prems(2) its(2)] by blast
  let ?b1 = "b\<lparr>bk_htree := t1, bk_hints := (bk_hints b)\<lparr>hm_maxDumpedHintID := \<lparr>hid_Chunk = i, hid_Split = n\<rparr>\<rparr>\<rparr>"
  have run: "replay_splits e oe i n (sp # sps) b = replay_splits e oe i (n + 1) sps ?b1"
    using idx r(1) t1(1) by (simp add: updateHtreeFromHint_def)
  have "\<exists>t hid hm'. replay_splits e oe i (n + 1) sps ?b1 = Some (None, ?b1\<lparr>bk_htree := t, bk_hints := (bk_hints ?b1)\<lparr>hm_maxDumpedHintID := hid\<rparr>\<rparr>) \<and>
      htree_rep (conf e) bid t hm' \<and>
      (\<forall>k \<in> K. hm' (getKeyHash e k) = (case foldl (++) Map.empty Ms (getKeyHash e k, k) of Some it \<Rightarrow> tree_item i it | None \<Rightarrow> ?hm1 (getKeyHash e k)))"
    using t1(2) Cons.prems(1) by (intro Cons.IH) simp_all
  then obtain t hid hm' where x: "replay_splits e oe i (n + 1) sps ?b1 = Some (None, ?b1\<lparr>bk_htree := t, bk_hints := (bk_hints ?b1)\<lparr>hm_maxDumpedHintID := hid\<rparr>\<rparr>)"
      "htree_rep (conf e) bid t hm'"
      "\<forall>k \<in> K. hm' (getKeyHash e k) = (case foldl (++) Map.empty Ms (getKeyHash e k, k) of Some it \<Rightarrow> tree_item i it | None \<Rightarrow> ?hm1 (getKeyHash e k))"
    by blast
  have K: "\<forall>it \<in> set its. key_item (getKeyHash e) K it" using its(2) by (auto simp: log_item_def key_item_def bkt_dom_def)
  have "foldl (++) Map.empty (M # Ms) = M ++ foldl (++) Map.empty Ms" using foldl_map_add [of M Ms] by simp
  then have "\<forall>k \<in> K. hm' (getKeyHash e k) = (case foldl (++) Map.empty (M # Ms) (getKeyHash e k, k) of Some it \<Rightarrow> tree_item i it | None \<Rightarrow> hm (getKeyHash e k))"
    using x(3) fold_tree_items [OF its(1) K assms(3)] its(3) by (simp add: map_add_def split: option.split)
  then show ?case using run x(1,2) by (intro exI [of _ t] exI [of _ hid] exI [of _ hm']) simp
qed

section \<open>Scanning a data file\<close>

lemma plain_stored:
  assumes "stored_as e rec r" "qlz_ok e"
  shows "plain e r = pBody (rPayload rec)"
proof (cases "Flag (rPayload r) = Flag (rPayload rec)")
  case True
  then show ?thesis using assms(1) flag_add_compress(1) by (auto simp: plain_def stored_as_def FLAG_COMPRESS_def)
next
  case False
  then have "Flag (rPayload r) AND FLAG_COMPRESS \<noteq> 0" "pBody (rPayload rec) \<noteq> []" "pBody (rPayload r) = qlz_compress e (pBody (rPayload rec))"
      "length (pBody (rPayload rec)) + 400 < 2 ^ 32"
    using assms(1) flag_add_compress(1) by (auto simp: stored_as_def)
  then show ?thesis using assms(2) by (auto simp: plain_def qlz_ok_def)
qed

lemma Decompress_plain:
  assumes "stored_as e rec r" "qlz_ok e" "mem_ok e"
  shows "\<exists>p x d'. Decompress e (rPayload (scanned r)) d = ((p, x), d') \<and> pBody p = plain e r \<and> Ver p = Ver (rPayload r)"
proof (cases "Flag (rPayload r) AND FLAG_COMPRESS = 0")
  case True
  then show ?thesis by (simp add: Decompress_def scanned_def plain_def)
next
  case False
  then have r: "pBody (rPayload rec) \<noteq> []" "pBody (rPayload r) = qlz_compress e (pBody (rPayload rec))" "length (pBody (rPayload rec)) + 400 < 2 ^ 32"
    using assms(1) by (auto simp: stored_as_def)
  obtain a d1 where "CDecompressSafe e (qlz_compress e (pBody (rPayload rec))) d = ((a, None), d1)" "Body a = pBody (rPayload rec)"
    using CDecompressSafe_ok [OF assms(2,3) r(1,3)] by blast
  then show ?thesis using False r(2) plain_stored [OF assms(1,2)] by (simp add: Decompress_def scanned_def)
qed

lemma rec_map_Suc: "rec_map e rs (Suc n) = (rec_map e rs n)(hint_key (rec_item e rs n) \<mapsto> rec_item e rs n)"
  by (simp add: rec_map_def)

definition file_recs :: "Env \<Rightarrow> bytes set \<Rightarrow> int \<Rightarrow> Record list \<Rightarrow> bool" where
  "file_recs e K bid rs \<longleftrightarrow> (\<forall>r \<in> set rs. valid_rec e r \<and> rKey r \<in> bkt_dom e K bid \<and> length (rKey r) < 256 \<and> (\<exists>rec. stored_as e rec r))"

lemma rec_item_log:
  assumes "file_recs e K bid rs" "j < length rs"
  shows "log_item e K bid (rec_item e rs j)"
  using assms nth_mem [OF assms(2)] by (auto simp: file_recs_def log_item_def rec_item_def newHintItem_def hint_item_ok_def key_item_def)

lemma build_loop_ok:
  assumes "file_recs e K bid rs" "bkt_limits e K" "hint_chunk_ok cid"
    and "reads_at s rs j" "j \<le> length rs" "length rs - j < n" "hints_ok (conf e) (getKeyHash e) K h"
    and "chunk_has (conf e) (log_item e K bid) (hm_chunks h cid) (rec_map e rs j)" "j = 0 \<or> chunk_live (op_now oe) (hm_chunks h cid)"
  shows "\<exists>h' d'. build_loop n e oe cid s h d = Some (None, h', d') \<and> hints_ok (conf e) (getKeyHash e) K h' \<and> hm_frame cid h h' \<and>
    chunk_has (conf e) (log_item e K bid) (hm_chunks h' cid) (rec_map e rs (length rs)) \<and>
    (rs = [] \<or> chunk_live (op_now oe) (hm_chunks h' cid)) \<and> hm_maxChunkID h' \<le> max (hm_maxChunkID h) cid"
  using assms(4-9)
proof (induction n arbitrary: s j h d)
  case (Suc n)
  have lim: "qlz_ok e" "mem_ok e" "hint_limits (conf e)" using assms(2) by (simp_all add: bkt_limits_def)
  show ?case
  proof (cases "j = length rs")
    case True
    then show ?thesis using Suc.prems Next_end [of s rs e d] by (intro exI [of _ h] exI [of _ d]) auto
  next
    case False
    then have j: "j < length rs" using Suc.prems(2) by simp
    let ?r = "rs ! j" and ?it = "rec_item e rs j"
    have r: "valid_rec e ?r" "rKey ?r \<in> bkt_dom e K bid" "\<exists>rec. stored_as e rec ?r" using assms(1) nth_mem [OF j] by (auto simp: file_recs_def)
    obtain s1 where s1: "Next e s d = Some ((Some (scanned ?r), of_nat (rec_off rs j), 0, None), s1, d)" "reads_at s1 rs (Suc j)"
      using Next_at [OF Suc.prems(1) j r(1)] by blast
    obtain rec where rec: "stored_as e rec ?r" using r(3) by blast
    obtain p x d2 where p: "Decompress e (rPayload (scanned ?r)) d = ((p, x), d2)" "pBody p = plain e ?r" "Ver p = Ver (rPayload ?r)"
      using Decompress_plain [OF rec lim(1,2), of d] by blast
    have it: "log_item e K bid ?it" by (rule rec_item_log [OF assms(1) j])
    then have ki: "key_item (getKeyHash e) K ?it" by (auto simp: log_item_def key_item_def bkt_dom_def)
    obtain rot h1 where h1: "hm_setItem (conf e) (op_now oe) (op_mergeChan oe) ?it cid (RecSize p) h = Some (rot, h1)"
        "hints_ok (conf e) (getKeyHash e) K h1" "hm_maxChunkID h1 = max (hm_maxChunkID h) cid"
      using hm_setItem_ok [OF Suc.prems(4) lim(3) assms(3) ki, of "op_now oe" "op_mergeChan oe" "RecSize p"] by blast
    have ok: "hint_item_ok y" if "log_item e K bid y" for y using that by (simp add: log_item_def)
    from hm_setItem_has [OF h1(1) Suc.prems(5) it ok lim(3)]
    have H: "hm_frame cid h h1" "chunk_has (conf e) (log_item e K bid) (hm_chunks h1 cid) (rec_map e rs (Suc j))" "chunk_live (op_now oe) (hm_chunks h1 cid)"
      by (simp_all add: rec_map_Suc)
    have run: "build_loop (Suc n) e oe cid s h d = build_loop n e oe cid s1 h1 (snd (Free (carr p) d2))"
      using s1(1) p h1(1) by (simp add: Let_def rec_item_def scanned_same)
    have "length rs - Suc j < n" "Suc j \<le> length rs" using Suc.prems(3) j by auto
    from Suc.IH [OF s1(2) this(2,1) h1(2) H(2), of "snd (Free (carr p) d2)"] H(1,3) h1(3) run show ?thesis
      by (auto intro: hm_frame_trans)
  qed
qed simp

section \<open>Opening the chunks\<close>

text \<open>The files and hints of a bucket before chunk \<open>i\<close> is checked, and the bucket while \<open>open\<close> is there.\<close>

definition scan_at :: "Env \<Rightarrow> bytes set \<Rightarrow> (int \<Rightarrow> Record list) \<Rightarrow> int \<Rightarrow> Bucket \<Rightarrow> bool" where
  "scan_at e K L i b \<longleftrightarrow>
     (\<forall>c. 0 \<le> c \<and> c < MAX_NUM_CHUNK \<longrightarrow> dc_size (ds_chunks (bk_datas b) c) = of_nat (log_size (L c)) \<and>
        (L c \<noteq> [] \<longrightarrow> dc_file (ds_chunks (bk_datas b) c) = Some (concat (map rec_bytes (L c))))) \<and>
     hints_ok (conf e) (getKeyHash e) K (bk_hints b) \<and> hm_maxChunkID (bk_hints b) \<le> ds_newHead (bk_datas b) \<and>
     (\<forall>c \<ge> i. hm_chunks (bk_hints b) c = newHintChunk c) \<and> (\<forall>p \<in> Mapping.keys (hm_files (bk_hints b)). fst p < i)"

definition open_at :: "Env \<Rightarrow> bytes set \<Rightarrow> int \<Rightarrow> (int \<Rightarrow> Record list) \<Rightarrow> int \<Rightarrow> Bucket \<Rightarrow> bool" where
  "open_at e K bid L i b \<longleftrightarrow> bk_TreeID b = \<lparr>hid_Chunk = 0, hid_Split = - 1\<rparr> \<and> bk_treeFiles b = Mapping.empty \<and> bk_NextGCChunk b = 0 \<and> bk_nextgc b = None \<and>
     scan_at e K L i b \<and>
     (\<exists>hm. htree_rep (conf e) bid (bk_htree b) hm \<and> (\<forall>k \<in> K. hm (getKeyHash e k) = rec_index e (log_seq L 0 (i - 1)) k))"

text \<open>What is known of the records in the files.\<close>

definition log_files :: "Env \<Rightarrow> bytes set \<Rightarrow> int \<Rightarrow> int \<Rightarrow> (int \<Rightarrow> Record list) \<Rightarrow> bool" where
  "log_files e K bid nh L \<longleftrightarrow> (\<forall>c. file_recs e K bid (L c) \<and> int (log_size (L c)) \<le> DataFileMax (conf e) \<and> (nh < c \<longrightarrow> L c = []))"

lemma loadHints_none:
  assumes "hint_chunk_ok i" "\<forall>p \<in> Mapping.keys (hm_files h). fst p \<noteq> i"
  shows "loadHintsByChunk i h = Some (0, h)"
proof -
  have "set (Mapping.ordered_keys (hm_files h)) \<subseteq> Mapping.keys (hm_files h)"
    unfolding Mapping.ordered_keys_def by (cases "finite (Mapping.keys (hm_files h))") auto
  then have "chunk_files i h = []" using assms(2) by (auto simp: chunk_files_def filter_empty_conv)
  moreover have "Mapping.filter (\<lambda>_ _. True) m = m" for m :: "(int \<times> int, bytes) mapping"
    by (rule mapping_eqI) (simp add: lookup_filter split: option.split)
  ultimately show ?thesis using assms(1) by (simp add: loadHintsByChunk_def findValidPaths_def Let_def)
qed

lemma checkHint_empty:
  assumes "scan_at e K L i b" "0 \<le> i" "i < MAX_NUM_CHUNK" "L i = []"
  shows "\<exists>h. checkHintWithData e oe i b d = Some (None, b\<lparr>bk_hints := h\<rparr>, d) \<and> hm_chunks h = hm_chunks (bk_hints b) \<and>
    scan_at e K L (i + 1) (b\<lparr>bk_hints := h\<rparr>)"
proof -
  let ?h = "RemoveHintfilesByChunk i (bk_hints b)"
  have "dc_size (ds_chunks (bk_datas b) i) = 0" using assms by (simp add: scan_at_def)
  then have "checkHintWithData e oe i b d = Some (None, b\<lparr>bk_hints := ?h\<rparr>, d)" by (simp add: checkHintWithData_def)
  moreover have "Mapping.keys (hm_files ?h) \<subseteq> Mapping.keys (hm_files (bk_hints b))"
    by (auto simp: RemoveHintfilesByChunk_def keys_dom_lookup lookup_filter split: option.splits)
  moreover have "hints_ok (conf e) (getKeyHash e) K ?h" using assms(1) by (intro RemoveHintfilesByChunk_ok) (simp add: scan_at_def)
  ultimately show ?thesis using assms(1) unfolding scan_at_def
    by (intro exI [of _ ?h]) (fastforce simp: RemoveHintfilesByChunk_def)
qed

text \<open>A chunk with records: all of its items are in hint files afterwards.\<close>

lemma checkHint_records:
  assumes "scan_at e K L i b" "0 \<le> i" "i < MAX_NUM_CHUNK" "L i \<noteq> []" "log_files e K bid (ds_newHead (bk_datas b)) L" "bkt_limits e K" "op_now oe \<noteq> 0"
  shows "\<exists>h d' sps Ms. checkHintWithData e oe i b d = Some (None, b\<lparr>bk_hints := h\<rparr>, d') \<and> hm_frame i (bk_hints b) h \<and>
    hints_ok (conf e) (getKeyHash e) K h \<and> hm_maxChunkID h \<le> ds_newHead (bk_datas b) \<and> hc_splits (hm_chunks h i) = sps @ [newhintSplit] \<and>
    sps \<noteq> [] \<and> (\<forall>sp \<in> set sps. sp_file sp \<noteq> None) \<and> list_all2 (split_map (conf e) (log_item e K bid)) sps Ms \<and>
    rec_map e (L i) (length (L i)) = foldl (++) Map.empty Ms \<and> scan_at e K L (i + 1) (b\<lparr>bk_hints := h\<rparr>)"
proof -
  let ?f = "concat (map rec_bytes (L i))" and ?h = "bk_hints b"
  have O: "dc_size (ds_chunks (bk_datas b) i) = of_nat (log_size (L i))" "dc_file (ds_chunks (bk_datas b) i) = Some ?f"
      "hints_ok (conf e) (getKeyHash e) K ?h" "hm_maxChunkID ?h \<le> ds_newHead (bk_datas b)" "hm_chunks ?h i = newHintChunk i"
      "\<forall>p \<in> Mapping.keys (hm_files ?h). fst p \<noteq> i"
    using assms(1-4) by (auto simp: scan_at_def)
  have F: "file_recs e K bid (L i)" "int (log_size (L i)) \<le> DataFileMax (conf e)" "i \<le> ds_newHead (bk_datas b)"
    using assms(4,5) unfolding log_files_def by (meson not_le)+
  have lim: "chunk_limits e" "hint_limits (conf e)" using assms(6) by (simp_all add: bkt_limits_def)
  have ck: "hint_chunk_ok i" using assms(2,3) by (simp add: hint_chunk_ok_def)
  have sz: "0 < dc_size (ds_chunks (bk_datas b) i)"
  proof -
    have "unat (dc_size (ds_chunks (bk_datas b) i)) \<noteq> 0" using O(1) data_file_32(2) [OF lim(1) F(2)] assms(4) by simp
    then show ?thesis by (simp add: word_greater_zero_iff unat_eq_0)
  qed
  have rd: "reads_at (sr_seek 0 (newDataStreamReader ?f)) (L i) 0" by (simp add: reads_at_def newDataStreamReader_def sr_seek_def)
  have fuel: "length (L i) - 0 < length ?f + 2" using length_le_log [of "L i"] by simp
  have start: "chunk_has (conf e) (log_item e K bid) (hm_chunks ?h i) (rec_map e (L i) 0)"
    unfolding O(5) using chunk_has_new [of "conf e"] lim(2) by (simp add: rec_map_def hint_limits_def)
  have "0 = (0 :: nat) \<or> chunk_live (op_now oe) (hm_chunks ?h i)" by simp
  from build_loop_ok [OF F(1) assms(6) ck rd _ fuel O(3) start this, of d] assms(4)
  obtain h1 d1 where h1: "build_loop (length ?f + 2) e oe i (sr_seek 0 (newDataStreamReader ?f)) ?h d = Some (None, h1, d1)"
      "hints_ok (conf e) (getKeyHash e) K h1" "hm_frame i ?h h1" "chunk_has (conf e) (log_item e K bid) (hm_chunks h1 i) (rec_map e (L i) (length (L i)))"
      "chunk_live (op_now oe) (hm_chunks h1 i)" "hm_maxChunkID h1 \<le> max (hm_maxChunkID ?h) i" by auto
  obtain x h2 where h2: "trydump (conf e) (op_now oe) i True h1 = Some (x, h2)" "hints_ok (conf e) (getKeyHash e) K h2" "hm_maxChunkID h2 = hm_maxChunkID h1"
    using trydump_ok [OF h1(2) lim(2) ck] by blast
  have ok: "hint_item_ok y" if "log_item e K bid y" for y using that by (simp add: log_item_def)
  note T = trydump_all [OF h2(1) h1(4) ok lim(2) h1(5) assms(7)]
  have "checkHintWithData e oe i b d = Some (None, b\<lparr>bk_hints := h2\<rparr>, d1)"
    using loadHints_none [OF ck O(6)] sz O(2) h1(1) h2(1)
    by (simp add: checkHintWithData_def Let_def buildHintFromData_def del: build_loop.simps)
  moreover have "hm_maxChunkID h2 \<le> ds_newHead (bk_datas b)" using h2(3) h1(6) O(4) F(3) by simp
  moreover have "hm_frame i ?h h2" using T h1(3) by (blast intro: hm_frame_trans)
  moreover have "\<forall>c \<ge> i + 1. hm_chunks h2 c = newHintChunk c" "\<forall>p \<in> Mapping.keys (hm_files h2). fst p < i + 1"
    using calculation(3) assms(1) by (fastforce simp: hm_frame_def scan_at_def)+
  moreover from this have "scan_at e K L (i + 1) (b\<lparr>bk_hints := h2\<rparr>)" using assms(1) calculation(2) h2(2) by (simp add: scan_at_def)
  ultimately show ?thesis using T h2(2) by blast
qed

lemma rec_map_last:
  "rec_map e rs (length rs) (getKeyHash e k, k) = map_option (\<lambda>(pos, r). newHintItem (getKeyHash e k) (Ver (rPayload r)) (Getvhash (plain e r))
     \<lparr>ChunkID = 0, Offset = Offset pos\<rparr> k) (last_entry (entries c rs) k)"
proof (induction rs rule: rev_induct)
  case (snoc r rs)
  have "rec_item e (rs @ [r]) j = rec_item e rs j" if "j < length rs" for j using that by (simp add: rec_item_def nth_append)
  then have "map (\<lambda>j. (hint_key (rec_item e (rs @ [r]) j), rec_item e (rs @ [r]) j)) [0..<length rs] =
      map (\<lambda>j. (hint_key (rec_item e rs j), rec_item e rs j)) [0..<length rs]" by (intro map_cong) simp_all
  then have "rec_map e (rs @ [r]) (length rs) = rec_map e rs (length rs)" unfolding rec_map_def by (rule arg_cong)
  moreover have "hint_key (rec_item e (rs @ [r]) (length rs)) = (getKeyHash e (rKey r), rKey r)"
    by (simp add: hint_key_def rec_item_def newHintItem_def)
  ultimately show ?case using snoc by (auto simp: rec_map_Suc entries_snoc last_entry_append rec_item_def)
qed (simp add: rec_map_def)

lemma rec_index_chunk:
  assumes "\<forall>r \<in> set rs. valid_rec e r" "0 \<le> i" "i < MAX_NUM_CHUNK"
  shows "(case rec_map e rs (length rs) (getKeyHash e k, k) of Some it \<Rightarrow> tree_item i it | None \<Rightarrow> rec_index e S k) = rec_index e (S @ entries i rs) k"
proof (cases "last_entry (entries i rs) k")
  case None
  then show ?thesis using rec_map_last [of e rs k i] by (simp add: rec_index_def last_entry_append)
next
  case (Some x)
  obtain pos r where x: "x = (pos, r)" by (cases x)
  then have "(pos, r) \<in> set (drop 0 (entries i rs))" using last_entry_mem [OF Some] by simp
  then obtain j where "pos = \<lparr>ChunkID = i, Offset = of_nat (rec_off rs j)\<rparr>" unfolding entries_mem by blast
  then have "\<lparr>ChunkID = i mod 65536, Offset = Offset pos AND NOT 255\<rparr> = pos"
    using and_not_255 [OF rec_off_aligned [OF assms(1)], of j] assms(2,3) by (simp add: MAX_NUM_CHUNK_def)
  then show ?thesis using Some x rec_map_last [of e rs k i]
    by (simp add: rec_index_def last_entry_append tree_item_def newHintItem_def norm_item_def)
qed

lemma open_chunk_step:
  assumes "open_at e K bid L i b" "0 \<le> i" "i < MAX_NUM_CHUNK" "log_files e K bid (ds_newHead (bk_datas b)) L" "bkt_limits e K" "op_now oe \<noteq> 0"
  shows "\<exists>b' d'. open_chunks e oe (Suc n) i b d = open_chunks e oe n (i + 1) b' d' \<and> open_at e K bid L (i + 1) b' \<and> bk_datas b' = bk_datas b"
proof -
  have scan: "scan_at e K L i b" using assms(1) by (simp add: open_at_def)
  show ?thesis
proof (cases "L i = []")
  case True
  obtain h where h: "checkHintWithData e oe i b d = Some (None, b\<lparr>bk_hints := h\<rparr>, d)" "hm_chunks h = hm_chunks (bk_hints b)"
      "scan_at e K L (i + 1) (b\<lparr>bk_hints := h\<rparr>)"
    using checkHint_empty [OF scan assms(2,3) True, of oe d] by blast
  moreover have "log_seq L 0 i = log_seq L 0 (i - 1)" using log_seq_last [OF assms(2), of L] True by simp
  ultimately have o: "open_at e K bid L (i + 1) (b\<lparr>bk_hints := h\<rparr>)" using assms(1) by (simp add: open_at_def)
  have "hm_chunks (bk_hints b) i = newHintChunk i" "bk_TreeID b = \<lparr>hid_Chunk = 0, hid_Split = - 1\<rparr>" using assms(1) by (simp_all add: open_at_def scan_at_def)
  then have "open_chunks e oe (Suc n) i b d = open_chunks e oe n (i + 1) (b\<lparr>bk_hints := h\<rparr>) d"
    using h(1,2) by (simp add: Let_def newHintChunk_def hc_rotate_def)
  then show ?thesis using o by (intro exI [of _ "b\<lparr>bk_hints := h\<rparr>"] exI [of _ d]) simp
next
  case False
  obtain h d' sps Ms where h: "checkHintWithData e oe i b d = Some (None, b\<lparr>bk_hints := h\<rparr>, d')" "hm_frame i (bk_hints b) h"
      "hints_ok (conf e) (getKeyHash e) K h" "hm_maxChunkID h \<le> ds_newHead (bk_datas b)" "hc_splits (hm_chunks h i) = sps @ [newhintSplit]"
      "sps \<noteq> []" "\<forall>sp \<in> set sps. sp_file sp \<noteq> None" "list_all2 (split_map (conf e) (log_item e K bid)) sps Ms"
      "rec_map e (L i) (length (L i)) = foldl (++) Map.empty Ms" "scan_at e K L (i + 1) (b\<lparr>bk_hints := h\<rparr>)"
    using checkHint_records [OF scan assms(2,3) False assms(4-6), of d] by blast
  obtain hm where hm: "htree_rep (conf e) bid (bk_htree b) hm" "\<forall>k \<in> K. hm (getKeyHash e k) = rec_index e (log_seq L 0 (i - 1)) k"
    using assms(1) by (auto simp: open_at_def)
  let ?b1 = "b\<lparr>bk_hints := h\<rparr>"
  have inj: "inj_on (getKeyHash e) K" using assms(5) by (simp add: bkt_limits_def)
  have hb1: "htree_rep (conf e) bid (bk_htree ?b1) hm" using hm(1) by simp
  obtain t hid hm' where R: "replay_splits e oe i 0 sps ?b1 = Some (None, ?b1\<lparr>bk_htree := t, bk_hints := h\<lparr>hm_maxDumpedHintID := hid\<rparr>\<rparr>)"
      "htree_rep (conf e) bid t hm'"
      "\<forall>k \<in> K. hm' (getKeyHash e k) = (case foldl (++) Map.empty Ms (getKeyHash e k, k) of Some it \<Rightarrow> tree_item i it | None \<Rightarrow> hm (getKeyHash e k))"
    using replay_splits_rep [OF h(8,7) inj hb1, of oe i 0] by auto
  let ?b2 = "b\<lparr>bk_htree := t, bk_hints := h\<lparr>hm_maxDumpedHintID := hid\<rparr>\<rparr>"
  have "bk_TreeID b = \<lparr>hid_Chunk = 0, hid_Split = - 1\<rparr>" using assms(1) by (simp add: open_at_def)
  then have run: "open_chunks e oe (Suc n) i b d = open_chunks e oe n (i + 1) ?b2 d'"
    using h(1,5,6) R(1) by (cases "i = 0") (simp_all add: Let_def)
  have v: "\<forall>r \<in> set (L i). valid_rec e r" using assms(4) by (auto simp: log_files_def file_recs_def)
  have idx: "\<forall>k \<in> K. hm' (getKeyHash e k) = rec_index e (log_seq L 0 i) k"
  proof
    fix k assume "k \<in> K"
    then have "hm' (getKeyHash e k) = (case rec_map e (L i) (length (L i)) (getKeyHash e k, k) of Some it \<Rightarrow> tree_item i it
        | None \<Rightarrow> rec_index e (log_seq L 0 (i - 1)) k)" using R(3) hm(2) h(9) by (simp split: option.split)
    then show "hm' (getKeyHash e k) = rec_index e (log_seq L 0 i) k"
      using rec_index_chunk [OF v assms(2,3)] log_seq_last [OF assms(2), of L] by simp
  qed
  have "open_at e K bid L (i + 1) ?b2"
    using assms(1) h(10) R(2) idx unfolding open_at_def by (auto simp: scan_at_def hints_ok_def)
  then show ?thesis using run by (intro exI [of _ ?b2] exI [of _ d']) simp
qed
qed

lemma open_chunks_log:
  assumes "open_at e K bid L i b" "0 \<le> i" "i + int n \<le> MAX_NUM_CHUNK" "log_files e K bid (ds_newHead (bk_datas b)) L" "bkt_limits e K" "op_now oe \<noteq> 0"
  shows "\<exists>b' d'. open_chunks e oe n i b d = Some (None, b', d') \<and> open_at e K bid L (i + int n) b' \<and> bk_datas b' = bk_datas b"
  using assms(1-4)
proof (induction n arbitrary: i b d)
  case (Suc n)
  have "i < MAX_NUM_CHUNK" using Suc.prems(3) by simp
  from open_chunk_step [OF Suc.prems(1,2) this Suc.prems(4) assms(5,6), of n d] obtain b' d' where
    1: "open_chunks e oe (Suc n) i b d = open_chunks e oe n (i + 1) b' d'" "open_at e K bid L (i + 1) b'" "bk_datas b' = bk_datas b" by blast
  have "log_files e K bid (ds_newHead (bk_datas b')) L" using 1(3) Suc.prems(4) by simp
  from Suc.IH [OF 1(2) _ _ this, of d'] Suc.prems(2,3) 1 show ?case by (auto simp: algebra_simps)
qed auto

section \<open>The data files\<close>

definition sized :: "dataChunk \<Rightarrow> dataChunk" where
  "sized dc = (case dc_file dc of None \<Rightarrow> dc\<lparr>dc_size := 0\<rparr>
     | Some f \<Rightarrow> dc\<lparr>dc_size := of_nat (length f), dc_writingHead := of_nat (length f)\<rparr>)"

fun top_file :: "nat \<Rightarrow> int \<Rightarrow> int \<Rightarrow> (int \<Rightarrow> bytes option) \<Rightarrow> int" where
  "top_file 0 i mx fs = mx"
| "top_file (Suc n) i mx fs = top_file n (i + 1) (if fs i = None then mx else i) fs"

lemma list_files_sized:
  assumes "\<And>c f. i \<le> c \<Longrightarrow> c < i + int n \<Longrightarrow> dc_file (ds_chunks ds c) = Some f \<Longrightarrow> (of_nat (length f) :: u32) AND 0xff = 0"
  shows "list_files_loop n i mx ds = Some (top_file n i mx (\<lambda>c. dc_file (ds_chunks ds c)),
    ds\<lparr>ds_chunks := \<lambda>c. if i \<le> c \<and> c < i + int n then sized (ds_chunks ds c) else ds_chunks ds c\<rparr>)"
  using assms
proof (induction n arbitrary: i mx ds)
  case (Suc n)
  let ?ds = "ds\<lparr>ds_chunks := (ds_chunks ds)(i := sized (ds_chunks ds i))\<rparr>"
  have files: "(\<lambda>c. dc_file (ds_chunks ?ds c)) = (\<lambda>c. dc_file (ds_chunks ds c))" by (auto simp: sized_def fun_eq_iff split: option.split)
  have ok: "(of_nat (length f) :: u32) AND 0xff = 0" if "i + 1 \<le> c" "c < i + 1 + int n" "dc_file (ds_chunks ?ds c) = Some f" for c f
    using Suc.prems [of c f] that fun_cong [OF files, of c] by simp
  have "list_files_loop n (i + 1) m ?ds = Some (top_file n (i + 1) m (\<lambda>c. dc_file (ds_chunks ?ds c)),
      ?ds\<lparr>ds_chunks := \<lambda>c. if i + 1 \<le> c \<and> c < i + 1 + int n then sized (ds_chunks ?ds c) else ds_chunks ?ds c\<rparr>)" for m
    by (rule Suc.IH) (rule ok)
  moreover have "list_files_loop (Suc n) i mx ds = list_files_loop n (i + 1) (if dc_file (ds_chunks ds i) = None then mx else i) ?ds"
    using Suc.prems [of i] by (auto simp: Let_def sized_def split: option.split)
  moreover have "(\<lambda>c. if i + 1 \<le> c \<and> c < i + 1 + int n then sized (ds_chunks ?ds c) else ds_chunks ?ds c) =
      (\<lambda>c. if i \<le> c \<and> c < i + int (Suc n) then sized (ds_chunks ds c) else ds_chunks ds c)"
    by (auto simp: fun_eq_iff)
  ultimately show ?case using files by simp
qed (auto simp: fun_eq_iff intro!: dataStore.equality)

lemma top_file_bounds:
  "mx < i \<Longrightarrow> (top_file n i mx fs = mx \<or> fs (top_file n i mx fs) \<noteq> None) \<and> mx \<le> top_file n i mx fs \<and> top_file n i mx fs < i + int n \<and>
     (\<forall>c. i \<le> c \<and> c < i + int n \<and> fs c \<noteq> None \<longrightarrow> c \<le> top_file n i mx fs)"
proof (induction n arbitrary: i mx)
  case (Suc n)
  from Suc.IH [of "if fs i = None then mx else i" "i + 1"] Suc.prems show ?case
    by (smt (verit) int_Suc top_file.simps(2) zle_add1_eq_le)
qed simp

definition opened_data :: "(int \<Rightarrow> bytes option) \<Rightarrow> dataStore" where
  "opened_data fs = \<lparr>ds_newHead = top_file (nat MAX_NUM_CHUNK) 0 (- 1) fs + 1,
     ds_chunks = (\<lambda>c. if chunk_in_range c then sized (new_chunk c (fs c)) else new_chunk c (fs c)), ds_wbufSize = 0\<rparr>"

lemma ListFiles_opened:
  assumes "\<And>c f. chunk_in_range c \<Longrightarrow> fs c = Some f \<Longrightarrow> (of_nat (length f) :: u32) AND 0xff = 0"
  shows "ListFiles (NewdataStore fs) = Some (ds_newHead (opened_data fs) - 1, opened_data fs)"
    "ListFiles (opened_data fs) = Some (ds_newHead (opened_data fs) - 1, opened_data fs)"
proof -
  have s: "sized (sized dc) = sized dc" "dc_file (sized dc) = dc_file dc" for dc by (auto simp: sized_def split: option.split)
  let ?n = "nat MAX_NUM_CHUNK"
  have r: "0 \<le> c \<and> c < 0 + int ?n \<longleftrightarrow> chunk_in_range c" for c by (simp add: chunk_in_range_def MAX_NUM_CHUNK_def)
  have f: "(\<lambda>c. dc_file (ds_chunks (opened_data fs) c)) = fs" by (auto simp: opened_data_def s fun_eq_iff new_chunk_def)
  have 1: "list_files_loop ?n 0 (- 1) (NewdataStore fs) = Some (top_file ?n 0 (- 1) (\<lambda>c. dc_file (ds_chunks (NewdataStore fs) c)),
      (NewdataStore fs)\<lparr>ds_chunks := \<lambda>c. if 0 \<le> c \<and> c < 0 + int ?n then sized (ds_chunks (NewdataStore fs) c) else ds_chunks (NewdataStore fs) c\<rparr>)"
  proof (rule list_files_sized)
    fix c f assume a: "0 \<le> c" "c < 0 + int ?n" "dc_file (ds_chunks (NewdataStore fs) c) = Some f"
    then have "chunk_in_range c" using r [of c] by blast
    then show "(of_nat (length f) :: u32) AND 0xff = 0" using assms [of c f] a(3) by (simp add: NewdataStore_def new_chunk_def)
  qed
  have eq: "(NewdataStore fs)\<lparr>ds_chunks := \<lambda>c. if chunk_in_range c then sized (ds_chunks (NewdataStore fs) c) else ds_chunks (NewdataStore fs) c,
      ds_newHead := ds_newHead (opened_data fs)\<rparr> = opened_data fs" by (simp add: NewdataStore_def opened_data_def cong: if_cong)
  have "(\<lambda>c. dc_file (ds_chunks (NewdataStore fs) c)) = fs" by (simp add: NewdataStore_def new_chunk_def)
  then show "ListFiles (NewdataStore fs) = Some (ds_newHead (opened_data fs) - 1, opened_data fs)"
    using 1 eq unfolding ListFiles_def r by (simp add: opened_data_def [of fs, THEN arg_cong, of ds_newHead])
  have 2: "list_files_loop ?n 0 (- 1) (opened_data fs) = Some (top_file ?n 0 (- 1) (\<lambda>c. dc_file (ds_chunks (opened_data fs) c)),
      (opened_data fs)\<lparr>ds_chunks := \<lambda>c. if 0 \<le> c \<and> c < 0 + int ?n then sized (ds_chunks (opened_data fs) c) else ds_chunks (opened_data fs) c\<rparr>)"
  proof (rule list_files_sized)
    fix c g assume a: "0 \<le> c" "c < 0 + int ?n" "dc_file (ds_chunks (opened_data fs) c) = Some g"
    then have "chunk_in_range c" using r [of c] by blast
    then show "(of_nat (length g) :: u32) AND 0xff = 0" using assms [of c g] a(3) fun_cong [OF f, of c] by simp
  qed
  have "(\<lambda>c. if chunk_in_range c then sized (ds_chunks (opened_data fs) c) else ds_chunks (opened_data fs) c) = ds_chunks (opened_data fs)"
    by (auto simp: opened_data_def s fun_eq_iff)
  then show "ListFiles (opened_data fs) = Some (ds_newHead (opened_data fs) - 1, opened_data fs)"
    unfolding ListFiles_def 2 r f by (simp add: opened_data_def)
qed

text \<open>The store that is opened on files of records holds these records.\<close>

definition files_hold :: "Env \<Rightarrow> (int \<Rightarrow> bytes option) \<Rightarrow> (int \<Rightarrow> Record list) \<Rightarrow> bool" where
  "files_hold e fs L \<longleftrightarrow> log_ok e L \<and> (\<forall>c. (case fs c of Some f \<Rightarrow> f | None \<Rightarrow> []) = concat (map rec_bytes (L c)) \<and>
     (\<forall>r \<in> set (L c). valid_rec e r) \<and> int (log_size (L c)) \<le> DataFileMax (conf e) \<and> (fs c \<noteq> None \<longrightarrow> c + 1 < MAX_NUM_CHUNK))"

lemma opened_inv:
  assumes "files_hold e fs L" "chunk_limits e"
  shows "ds_inv e [] (opened_data fs) Idle L (\<lambda>c. length (L c)) (\<lambda>c. length (L c))"
    and "\<And>c f. fs c = Some f \<Longrightarrow> (of_nat (length f) :: u32) AND 0xff = 0"
    and "\<And>c. L c \<noteq> [] \<Longrightarrow> fs c = Some (concat (map rec_bytes (L c)))"
    and "chunk_in_range (ds_newHead (opened_data fs))"
proof -
  have B: "(case fs c of Some f \<Rightarrow> f | None \<Rightarrow> []) = concat (map rec_bytes (L c))" "\<forall>r \<in> set (L c). valid_rec e r"
      "int (log_size (L c)) \<le> DataFileMax (conf e)" "fs c \<noteq> None \<Longrightarrow> c + 1 < MAX_NUM_CHUNK" "c < 0 \<Longrightarrow> L c = []" for c
    using assms(1) by (simp_all add: files_hold_def log_ok_def)
  show F: "fs c = Some (concat (map rec_bytes (L c)))" if "L c \<noteq> []" for c
  proof -
    have "concat (map rec_bytes (L c)) \<noteq> []" using that by (cases "L c") simp_all
    then show ?thesis using B(1) [of c] by (cases "fs c") auto
  qed
  have Z: "L c = []" if "\<not> chunk_in_range c" for c
    using that B(4,5) [of c] F [of c] by (cases "L c = []") (auto simp: chunk_in_range_def)
  have len: "length f = log_size (L c)" if "fs c = Some f" for c f using B(1) [of c] that by simp
  show "(of_nat (length f) :: u32) AND 0xff = 0" if "fs c = Some f" for c f
  proof -
    have "256 dvd length f" using rec_off_aligned [OF B(2) [of c]] len [OF that] by simp
    then have "(of_nat (length f) :: u32) AND NOT 255 = of_nat (length f)" by (rule and_not_255)
    then have "(of_nat (length f) :: u32) AND 255 = (of_nat (length f) AND NOT 255) AND 255" by simp
    then show ?thesis by (simp add: and.assoc)
  qed
  have R: "chunk_rep e (ds_chunks (opened_data fs) c) (L c) (length (L c)) (length (L c))" for c
  proof (cases "chunk_in_range c")
    case True
    have 32: "log_size (L c) < 2 ^ 32" by (rule data_file_32(1) [OF assms(2) B(3)])
    have "fs c = None \<Longrightarrow> L c = []" using F [of c] by auto
    then show ?thesis using True B(1,2) [of c] len [of c] 32
      by (cases "fs c") (auto simp: chunk_rep_def opened_data_def sized_def new_chunk_def dc_bytes_def)
  next
    case False
    then have "fs c = None \<or> fs c = Some []" using B(1) [of c] Z by (cases "fs c") auto
    then show ?thesis using chunk_rep_new [of "fs c" e c] False Z by (simp add: opened_data_def)
  qed
  define T where "T = top_file (nat MAX_NUM_CHUNK) 0 (- 1) fs"
  have T: "T = - 1 \<or> fs T \<noteq> None" "- 1 \<le> T" "ds_newHead (opened_data fs) = T + 1" "\<And>c. chunk_in_range c \<Longrightarrow> fs c \<noteq> None \<Longrightarrow> c \<le> T"
    using top_file_bounds [of "- 1" 0 "nat MAX_NUM_CHUNK" fs] by (auto simp: T_def opened_data_def chunk_in_range_def)
  show "chunk_in_range (ds_newHead (opened_data fs))" using T(1-3) B(4) [of T] by (auto simp: chunk_in_range_def MAX_NUM_CHUNK_def)
  have "L c = []" if c: "ds_newHead (opened_data fs) < c" for c
    using T(3) T(4) [of c] Z F c by (cases "L c = []") fastforce+
  moreover have "dc_chunkid (ds_chunks (opened_data fs) c) = c" for c by (simp add: opened_data_def sized_def new_chunk_def split: option.split)
  ultimately show "ds_inv e [] (opened_data fs) Idle L (\<lambda>c. length (L c)) (\<lambda>c. length (L c))"
    using R B(3) by (simp add: ds_inv_def phase_ok_def)
qed

section \<open>The bucket\<close>

text \<open>The map of the last records of a log: deleted keys are forgotten, and the hash of a value is that of its body.\<close>

definition rec_val :: "Env \<Rightarrow> (Position \<times> Record) list \<Rightarrow> (bytes \<rightharpoonup> Val)" where
  "rec_val e S k =
     (case last_entry S k of
        Some (pos, r) \<Rightarrow> if 0 <s Ver (rPayload r)
          then Some \<lparr>av_Ver = Ver (rPayload r), av_Vhash = Getvhash (plain e r), av_TS = TS (rPayload r),
            av_Flag = (if Flag (rPayload r) AND FLAG_COMPRESS = 0 then Flag (rPayload r) else Flag (rPayload r) - FLAG_COMPRESS), av_Body = plain e r, av_Rec = Ver (rPayload r)\<rparr>
          else None
      | None \<Rightarrow> None)"

definition reopened :: "(bytes \<rightharpoonup> Val) \<Rightarrow> (bytes \<rightharpoonup> Val)" where
  "reopened m k = (case m k of Some a \<Rightarrow> if 0 <s av_Rec a then Some (a\<lparr>av_Ver := av_Rec a, av_Vhash := Getvhash (av_Body a)\<rparr>) else None | None \<Rightarrow> None)"

text \<open>The directory of a bucket of which only the data files are left.\<close>

definition data_home :: "Bucket \<Rightarrow> BucketHome" where
  "data_home b = empty_home\<lparr>bh_data := \<lambda>i. dc_file (ds_chunks (bk_datas b) i)\<rparr>"

lemma stored_plain:
  assumes "stored_as e rec r" "qlz_ok e"
  shows "plain e r = pBody (rPayload rec)"
    "(if Flag (rPayload r) AND FLAG_COMPRESS = 0 then Flag (rPayload r) else Flag (rPayload r) - FLAG_COMPRESS) = Flag (rPayload rec)"
proof -
  show "plain e r = pBody (rPayload rec)" by (rule plain_stored [OF assms])
  have "Flag (rPayload r) = Flag (rPayload rec) \<or> Flag (rPayload r) = Flag (rPayload rec) + FLAG_COMPRESS" "Flag (rPayload rec) AND FLAG_COMPRESS = 0"
    using assms(1) by (auto simp: stored_as_def)
  then show "(if Flag (rPayload r) AND FLAG_COMPRESS = 0 then Flag (rPayload r) else Flag (rPayload r) - FLAG_COMPRESS) = Flag (rPayload rec)"
    using flag_add_compress(1) by auto
qed

lemma last_entry_rec:
  assumes "last_entry (log_seq L 0 nh) k = Some (pos, r)" "log_ok e L"
  shows "rKey r = k" "Ver (rPayload r) \<noteq> 0" "\<exists>rec. stored_as e rec r" "0 \<le> ChunkID pos" "ChunkID pos \<le> nh"
    "\<exists>i < length (L (ChunkID pos)). Offset pos = of_nat (rec_off (L (ChunkID pos)) i) \<and> r = L (ChunkID pos) ! i"
proof -
  have m: "(pos, r) \<in> set (log_seq L 0 nh)" "rKey r = k" using last_entry_mem [OF assms(1)] by simp_all
  then show "rKey r = k" "0 \<le> ChunkID pos" "ChunkID pos \<le> nh"
    "\<exists>i < length (L (ChunkID pos)). Offset pos = of_nat (rec_off (L (ChunkID pos)) i) \<and> r = L (ChunkID pos) ! i" by (simp_all add: log_seq_mem)
  then have "\<exists>c. r \<in> set (L c)" by (auto intro: nth_mem)
  then show "Ver (rPayload r) \<noteq> 0" "\<exists>rec. stored_as e rec r" using assms(2) by (auto simp: log_ok_def)
qed

lemma rec_index_val:
  assumes "log_ok e L" "qlz_ok e" "nh < MAX_NUM_CHUNK"
  shows "rel_option (val_on (logged_at e L) k) (rec_val e (log_seq L 0 nh) k) (rec_index e (log_seq L 0 nh) k)"
proof (cases "last_entry (log_seq L 0 nh) k")
  case (Some x)
  obtain pos r where x: "x = (pos, r)" by (cases x)
  note E = last_entry_rec [OF Some [unfolded x] assms(1)]
  obtain rec where rec: "stored_as e rec r" using E(3) by blast
  have "logged_at e L pos rec" using E(4-6) rec assms(3) by (auto simp: logged_at_def chunk_in_range_def)
  moreover have "rKey rec = k" "TS (rPayload rec) = TS (rPayload r)" "Ver (rPayload rec) = Ver (rPayload r)" using rec E(1) by (simp_all add: stored_as_def)
  ultimately show ?thesis using Some x stored_plain [OF rec assms(2)] by (auto simp: rec_val_def rec_index_def val_on_def)
qed (simp add: rec_val_def rec_index_def)

lemma rec_index_newest:
  assumes "log_ok e L"
  shows "newest_key (last_entry (log_seq L 0 nh) k) (rec_index e (log_seq L 0 nh) k)"
proof (cases "last_entry (log_seq L 0 nh) k")
  case (Some x)
  obtain pos r where x: "x = (pos, r)" by (cases x)
  have "Ver (rPayload r) \<noteq> 0" using last_entry_rec [OF Some [unfolded x] assms] by simp
  then have "sint (Ver (rPayload r)) \<noteq> 0" using signed_word_eqI [of "Ver (rPayload r)" 0] by auto
  then show ?thesis using Some x by (auto simp: rec_index_def newest_key_def word_sless_alt)
qed (simp add: rec_index_def newest_key_def)

lemma open_finish:
  assumes "open_at e K bid L MAX_NUM_CHUNK b" "ListFiles (bk_datas b) = Some (mx, bk_datas b)" "0 \<le> bid" "bid < 16 ^ TreeDepth (conf e)"
  shows "\<exists>b'. (do { b4 \<leftarrow> (if fst (checkForDump th b) then dumpHtree e (snd (checkForDump th b)) else Some (snd (checkForDump th b)));
      Some (loadGCHistroy b4) }) = Some b' \<and> bk_datas b' = bk_datas b \<and> bk_hints b' = bk_hints b \<and> bk_NextGCChunk b' = 0 \<and>
    (\<exists>hm. htree_rep (conf e) bid (bk_htree b') hm \<and> (\<forall>k \<in> K. hm (getKeyHash e k) = rec_index e (log_seq L 0 (MAX_NUM_CHUNK - 1)) k))"
proof -
  obtain hm where hm: "htree_rep (conf e) bid (bk_htree b) hm" "\<forall>k \<in> K. hm (getKeyHash e k) = rec_index e (log_seq L 0 (MAX_NUM_CHUNK - 1)) k"
    using assms(1) by (auto simp: open_at_def)
  have b: "bk_nextgc b = None" "bk_NextGCChunk b = 0" "b\<lparr>bk_datas := bk_datas b\<rparr> = b" using assms(1) by (simp_all add: open_at_def)
  have s: "snd (checkForDump th b) = b" using assms(2) b(3) by (simp add: checkForDump_def)
  obtain lv f where d: "htree_dump (conf e) (bk_htree b) = Some (f, bk_htree b\<lparr>levels := lv\<rparr>)" "htree_rep (conf e) bid (bk_htree b\<lparr>levels := lv\<rparr>) hm"
    using htree_dump_rep [OF hm(1) assms(3,4)] by blast
  have "\<exists>b4. dumpHtree e b = Some b4 \<and> bk_datas b4 = bk_datas b \<and> bk_hints b4 = bk_hints b \<and> bk_NextGCChunk b4 = 0 \<and> bk_nextgc b4 = None \<and>
      htree_rep (conf e) bid (bk_htree b4) hm"
    using d hm(1) b by (auto simp: dumpHtree_def Let_def removeHtree_def)
  then obtain b4 where b4: "(if fst (checkForDump th b) then dumpHtree e b else Some b) = Some b4" "bk_datas b4 = bk_datas b" "bk_hints b4 = bk_hints b"
      "bk_NextGCChunk b4 = 0" "bk_nextgc b4 = None" "htree_rep (conf e) bid (bk_htree b4) hm"
    using b hm(1) by (cases "fst (checkForDump th b)") auto
  then show ?thesis unfolding s using hm(2) by (auto simp: loadGCHistroy_def)
qed

text \<open>A bucket whose data files were listed, before its first chunk.\<close>

lemma opened_scan:
  assumes files: "files_hold e fs L" and keys: "keys_in (bkt_dom e K bid) L" and lim: "bkt_limits e K" and short: "\<forall>k \<in> K. length k < 256"
  shows "log_files e K bid (ds_newHead (opened_data fs)) L"
    and "bk_datas b = opened_data fs \<Longrightarrow> bk_hints b = (newHintMgr Mapping.empty)\<lparr>hm_maxDumpedHintID := hid\<rparr> \<Longrightarrow> scan_at e K L 0 b"
proof -
  let ?ds = "opened_data fs" and ?c = "conf e"
  have l: "chunk_limits e" "hint_limits ?c" using lim by (simp_all add: bkt_limits_def)
  have lo: "log_ok e L" and vs: "\<And>c. \<forall>r \<in> set (L c). valid_rec e r" "\<And>c. int (log_size (L c)) \<le> DataFileMax ?c"
    using files by (simp_all add: files_hold_def)
  note O = opened_inv [OF files l(1)]
  show "log_files e K bid (ds_newHead ?ds) L"
    using O(1) keys lo vs short unfolding log_files_def file_recs_def by (auto simp: keys_in_def log_ok_def ds_inv_def bkt_dom_def)
  have "hints_ok ?c (getKeyHash e) K ((newHintMgr Mapping.empty)\<lparr>hm_maxDumpedHintID := hid\<rparr>)"
    using newHintMgr_ok [OF l(2)] by (simp add: hints_ok_def)
  moreover have "dc_size (ds_chunks ?ds c) = of_nat (log_size (L c))" for c using O(1) by (simp add: ds_inv_def chunk_rep_def)
  moreover have "dc_file (ds_chunks ?ds c) = fs c" for c by (simp add: opened_data_def sized_def new_chunk_def split: option.split)
  moreover have "0 \<le> ds_newHead ?ds" using O(4) by (simp add: chunk_in_range_def)
  ultimately show "scan_at e K L 0 b" if "bk_datas b = ?ds" "bk_hints b = (newHintMgr Mapping.empty)\<lparr>hm_maxDumpedHintID := hid\<rparr>"
    unfolding scan_at_def using that O(3) by (auto simp: newHintMgr_def)
qed

text \<open>Opening a bucket on data files.\<close>

lemma bkt_open_log:
  assumes files: "files_hold e fs L" and keys: "keys_in (bkt_dom e K bid) L" and lim: "bkt_limits e K" and short: "\<forall>k \<in> K. length k < 256"
    and now: "op_now oe \<noteq> 0" and bid: "0 \<le> bid" "bid < 16 ^ TreeDepth (conf e)"
  shows "\<exists>b' d'. bkt_open e oe th bid (empty_home\<lparr>bh_data := fs\<rparr>) d = Some (None, Some b', d') \<and>
    bkt_rep e K bid b' (rec_val e (log_seq L 0 (MAX_NUM_CHUNK - 1)))"
proof -
  let ?ds = "opened_data fs" and ?c = "conf e"
  have l: "chunk_limits e" "qlz_ok e" "conf_ok ?c" "2 \<le> TreeHeight ?c" "hint_limits ?c" "inj_on (getKeyHash e) K" using lim by (simp_all add: bkt_limits_def)
  have lo: "log_ok e L" and vs: "\<And>c. \<forall>r \<in> set (L c). valid_rec e r" "\<And>c. int (log_size (L c)) \<le> DataFileMax ?c"
    using files by (simp_all add: files_hold_def)
  note O = opened_inv [OF files l(1)]
  note F = ListFiles_opened [of fs, OF O(2)]
  have h1: "0 \<le> ds_newHead ?ds" using O(4) by (simp add: chunk_in_range_def)
  note S = opened_scan [OF files keys lim short]
  note lf = S(1)
  obtain t where t: "newHTree (TreeDepth ?c) bid (TreeHeight ?c) = Some t" "htree_rep ?c bid t Map.empty"
    using newHTree_rep [OF l(3)] l(3,4) by (auto simp: htree_rep_def)
  let ?h = "(newHintMgr Mapping.empty)\<lparr>hm_collisions := newCollisionTable, hm_maxDumpedHintID := \<lparr>hid_Chunk = 0, hid_Split = - 1\<rparr>\<rparr>"
  let ?b = "\<lparr>bk_ID = bid, bk_TreeID = \<lparr>hid_Chunk = 0, hid_Split = - 1\<rparr>, bk_NextGCChunk = 0, bk_NumSameVhash = 0,
      bk_SizeSameVhash = 0, bk_SizeVhashKey = [], bk_htree = t, bk_hints = ?h, bk_datas = ?ds, bk_treeFiles = Mapping.empty, bk_nextgc = None\<rparr>"
  have "?h = (newHintMgr Mapping.empty)\<lparr>hm_maxDumpedHintID := \<lparr>hid_Chunk = 0, hid_Split = - 1\<rparr>\<rparr>" by (simp add: newHintMgr_def newCollisionTable_def)
  then have "open_at e K bid L 0 ?b"
    unfolding open_at_def using S(2) [of ?b] t(2) by (auto simp: rec_index_def log_seq_empty intro!: exI [of _ Map.empty])
  then obtain b1 d1 where b1: "open_chunks e oe (nat MAX_NUM_CHUNK) 0 ?b d = Some (None, b1, d1)" "open_at e K bid L MAX_NUM_CHUNK b1" "bk_datas b1 = ?ds"
    using open_chunks_log [of e K bid L 0 ?b "nat MAX_NUM_CHUNK" oe d] lf lim now by (auto simp: MAX_NUM_CHUNK_def)
  have "ListFiles (bk_datas b1) = Some (ds_newHead ?ds - 1, bk_datas b1)" using F(2) b1(3) by simp
  from open_finish [OF b1(2) this bid, of th] obtain b2 hm2 where
    b2: "(do { b4 \<leftarrow> (if fst (checkForDump th b1) then dumpHtree e (snd (checkForDump th b1)) else Some (snd (checkForDump th b1)));
      Some (loadGCHistroy b4) }) = Some b2" "bk_datas b2 = ?ds" "bk_hints b2 = bk_hints b1" "bk_NextGCChunk b2 = 0"
      "htree_rep ?c bid (bk_htree b2) hm2" "\<forall>k \<in> K. hm2 (getKeyHash e k) = rec_index e (log_seq L 0 (MAX_NUM_CHUNK - 1)) k"
    using b1(3) by auto
  have "bkt_open e oe th bid (empty_home\<lparr>bh_data := fs\<rparr>) d = Some (None, Some b2, d1)"
    using t(1) F(1) b1(1) b2(1)
    by (cases "dumpHtree e (snd (checkForDump th b1))") (auto simp: bkt_open_def empty_home_def Let_def case_prod_beta split: if_splits)
  moreover have "bkt_rep e K bid b2 (rec_val e (log_seq L 0 (MAX_NUM_CHUNK - 1)))"
  proof -
    have sq: "log_seq L 0 (MAX_NUM_CHUNK - 1) = log_seq L 0 (ds_newHead ?ds)"
      using h1 O(1,4) by (intro log_seq_extend; auto simp: chunk_in_range_def ds_inv_def)
    have "index_on e K (logged_at e L) hm2 (rec_val e (log_seq L 0 (MAX_NUM_CHUNK - 1)))"
      unfolding index_on_def using b2(6) rec_index_val [OF lo l(2), of "MAX_NUM_CHUNK - 1"] by simp
    moreover have "newest e K (log_seq L 0 (ds_newHead (bk_datas b2))) hm2"
      unfolding newest_def using b2(2,6) rec_index_newest [OF lo] sq by simp
    moreover have "bkt_ctl e K b2" using b1(2,3) b2(2-4) O(4) by (simp add: bkt_ctl_def open_at_def scan_at_def)
    ultimately show ?thesis unfolding bkt_rep_def using b2(2,5) O(1) keys lo by auto
  qed
  ultimately show ?thesis by blast
qed

section \<open>Opening what a bucket left\<close>

lemma rec_off_inj:
  assumes "i < length rs" "j < length rs" "log_size rs < 2 ^ 32" "(of_nat (rec_off rs i) :: u32) = of_nat (rec_off rs j)"
  shows "i = j"
proof -
  have "rec_off rs i < 2 ^ 32" "rec_off rs j < 2 ^ 32"
    using rec_off_mono [of i "length rs" rs] rec_off_mono [of j "length rs" rs] assms(1-3) by linarith+
  then have "rec_off rs i = rec_off rs j" using arg_cong [OF assms(4), of unat] by (simp add: unsigned_of_nat take_bit_nat_eq_self)
  then show ?thesis using rec_off_less [of i j rs] rec_off_less [of j i rs] assms(1,2) by (cases i j rule: linorder_cases) auto
qed

text \<open>The last records are the values of the map.\<close>

lemma rec_val_map:
  assumes "index_on e K (logged_at e L) hm m" "newest e K (log_seq L 0 nh) hm" "k \<in> K" "qlz_ok e" "log_ok e L"
    and "\<And>c. log_size (L c) < 2 ^ 32"
  shows "rec_val e (log_seq L 0 nh) k = reopened m k"
proof -
  have v: "rel_option (val_on (logged_at e L) k) (m k) (hm (getKeyHash e k))" using assms(1,3) by (simp add: index_on_def)
  have n: "newest_key (last_entry (log_seq L 0 nh) k) (hm (getKeyHash e k))" using assms(2,3) by (simp add: newest_def)
  show ?thesis
  proof (cases "hm (getKeyHash e k)")
    case None
    have "\<not> 0 <s Ver (rPayload r)" if "last_entry (log_seq L 0 nh) k = Some (pos, r)" for pos r
      using n that by (auto simp: None newest_key_def word_sless_alt)
    then show ?thesis using v by (auto simp: None reopened_def rec_val_def rel_option_iff split: option.splits)
  next
    case (Some it)
    then obtain a where a: "m k = Some a" "val_on (logged_at e L) k a it" using v by (auto simp: option_rel_Some2)
    obtain r where r: "last_entry (log_seq L 0 nh) k = Some (it_Pos it, r)"
      using n Some by (auto simp: newest_key_def)
    obtain rec where rec: "logged_at e L (it_Pos it) rec" "TS (rPayload rec) = av_TS a" "Flag (rPayload rec) = av_Flag a"
        "pBody (rPayload rec) = av_Body a" "Ver (rPayload rec) = av_Rec a" using a(2) by (auto simp: val_on_def)
    let ?rs = "L (ChunkID (it_Pos it))"
    obtain i where i: "i < length ?rs" "Offset (it_Pos it) = of_nat (rec_off ?rs i)" "stored_as e rec (?rs ! i)"
      using rec(1) by (auto simp: logged_at_def)
    obtain j where j: "j < length ?rs" "Offset (it_Pos it) = of_nat (rec_off ?rs j)" "r = ?rs ! j"
      using last_entry_rec(6) [OF r assms(5)] by blast
    from rec_off_inj [OF i(1) j(1) assms(6)] i j have st: "stored_as e rec r" by simp
    then have "TS (rPayload r) = av_TS a" "Ver (rPayload r) = av_Rec a" using rec(2,5) by (simp_all add: stored_as_def)
    with stored_plain [OF st assms(4)] show ?thesis using r rec a(1) by (auto simp: reopened_def rec_val_def)
  qed
qed

text \<open>The files of a bucket hold the records that are not in the write buffers; a key without a record there has its last record on disk.\<close>

definition unbuffered :: "Bucket \<Rightarrow> bytes \<Rightarrow> bool" where
  "unbuffered b k \<longleftrightarrow> (\<forall>c. \<forall>w \<in> set (dc_wbuf (ds_chunks (bk_datas b) c)). rKey (wr_rec w) \<noteq> k)"

lemma rec_off_take: "i \<le> q \<Longrightarrow> rec_off (take q rs) i = rec_off rs i"
  by (simp add: rec_off_def min_def del: log_bytes)

lemma entries_take: "entries c (take q rs) = take q (entries c rs)"
proof (rule nth_equalityI)
  fix i assume "i < length (entries c (take q rs))"
  then show "entries c (take q rs) ! i = take q (entries c rs) ! i" by (simp add: entries_nth rec_off_take)
qed simp

lemma last_entry_concat:
  "(\<And>x. x \<in> set xs \<Longrightarrow> last_entry (f x) k = last_entry (g x) k) \<Longrightarrow> last_entry (concat (map f xs)) k = last_entry (concat (map g xs)) k"
  by (induction xs) (simp_all add: last_entry_append split: option.split)

lemma last_entry_flushed:
  assumes "ds_inv e [] (bk_datas b) Idle L Q Q" "unbuffered b k"
  shows "last_entry (log_seq (\<lambda>c. take (Q c) (L c)) lo hi) k = last_entry (log_seq L lo hi) k"
  unfolding log_seq_def
proof (rule last_entry_concat)
  fix c
  let ?dc = "ds_chunks (bk_datas b) c"
  have w: "dc_wbuf ?dc = map (buffered (dc_chunkid ?dc) (L c)) [Q c..<length (L c)]" using assms(1) by (simp add: ds_inv_def chunk_rep_def)
  have "rKey (L c ! i) \<noteq> k" if "Q c \<le> i" "i < length (L c)" for i
  proof -
    have "buffered (dc_chunkid ?dc) (L c) i \<in> set (dc_wbuf ?dc)" using that by (simp add: w)
    then show ?thesis using assms(2) by (fastforce simp: unbuffered_def buffered_def wrapRecord_def)
  qed
  then have "last_entry (drop (Q c) (entries c (L c))) k = None" unfolding last_entry_None using entries_mem by (metis prod.collapse)
  then show "last_entry (entries c (take (Q c) (L c))) k = last_entry (entries c (L c)) k"
    using last_entry_append [of "take (Q c) (entries c (L c))" "drop (Q c) (entries c (L c))" k] by (simp add: entries_take)
qed

lemma flushed_files:
  assumes "ds_inv e [] (bk_datas b) Idle L Q Q" "log_ok e L" "keys_in D L"
    and "\<forall>c. dc_file (ds_chunks (bk_datas b) c) \<noteq> None \<longrightarrow> c + 1 < MAX_NUM_CHUNK"
  shows "files_hold e (\<lambda>c. dc_file (ds_chunks (bk_datas b) c)) (\<lambda>c. take (Q c) (L c))" "keys_in D (\<lambda>c. take (Q c) (L c))"
proof -
  have C: "dc_bytes (ds_chunks (bk_datas b) c) = concat (map rec_bytes (take (Q c) (L c)))" "\<forall>r \<in> set (L c). valid_rec e r"
      "int (log_size (L c)) \<le> DataFileMax (conf e)" "Q c \<le> length (L c)" for c
    using assms(1) by (simp_all add: ds_inv_def chunk_rep_def)
  have "int (log_size (take (Q c) (L c))) \<le> DataFileMax (conf e)" for c
    using C(3,4) [of c] rec_off_mono [of "Q c" "length (L c)" "L c"] by (simp add: rec_off_take)
  moreover have "log_ok e (\<lambda>c. take (Q c) (L c))" using assms(2) by (auto simp: log_ok_def dest!: in_set_takeD)
  moreover have "\<forall>r \<in> set (take (Q c) (L c)). valid_rec e r" for c using C(2) by (auto dest!: in_set_takeD)
  ultimately show "files_hold e (\<lambda>c. dc_file (ds_chunks (bk_datas b) c)) (\<lambda>c. take (Q c) (L c))"
    using C(1) assms(4) by (simp add: files_hold_def dc_bytes_def)
  show "keys_in D (\<lambda>c. take (Q c) (L c))" using assms(3) by (auto simp: keys_in_def dest!: in_set_takeD)
qed

lemma bkt_reopen_rep:
  assumes R: "bkt_rep e K bid b m" and lim: "bkt_limits e K" and short: "\<forall>k \<in> K. length k < 256"
    and top: "\<forall>c. dc_file (ds_chunks (bk_datas b) c) \<noteq> None \<longrightarrow> c + 1 < MAX_NUM_CHUNK"
    and now: "op_now oe \<noteq> 0" and bid: "0 \<le> bid" "bid < 16 ^ TreeDepth (conf e)"
  shows "\<exists>b' d' m'. bkt_open e oe th bid (data_home b) d = Some (None, Some b', d') \<and> bkt_rep e K bid b' m' \<and>
    (\<forall>k \<in> K. unbuffered b k \<longrightarrow> m' k = reopened m k)"
proof -
  obtain L Q hm where r: "htree_rep (conf e) bid (bk_htree b) hm" "index_on e K (logged_at e L) hm m" "bkt_ctl e K b"
      "ds_inv e [] (bk_datas b) Idle L Q Q" "keys_in (bkt_dom e K bid) L" "log_ok e L" "newest e K (log_seq L 0 (ds_newHead (bk_datas b))) hm"
    using R by (auto simp: bkt_rep_def)
  let ?fs = "\<lambda>c. dc_file (ds_chunks (bk_datas b) c)" and ?L = "\<lambda>c. take (Q c) (L c)"
  have l: "chunk_limits e" "qlz_ok e" using lim by (simp_all add: bkt_limits_def)
  have C: "int (log_size (L c)) \<le> DataFileMax (conf e)" for c using r(4) by (simp add: ds_inv_def)
  obtain b' d' where b': "bkt_open e oe th bid (data_home b) d = Some (None, Some b', d')"
      "bkt_rep e K bid b' (rec_val e (log_seq ?L 0 (MAX_NUM_CHUNK - 1)))"
    using bkt_open_log [OF flushed_files [OF r(4,6,5) top] lim short now bid, of th d] unfolding data_home_def by blast
  have "log_seq L 0 (MAX_NUM_CHUNK - 1) = log_seq L 0 (ds_newHead (bk_datas b))"
    using r(3,4) by (intro log_seq_extend) (auto simp: bkt_ctl_def chunk_in_range_def ds_inv_def)
  then have "rec_val e (log_seq ?L 0 (MAX_NUM_CHUNK - 1)) k = rec_val e (log_seq L 0 (ds_newHead (bk_datas b))) k" if "unbuffered b k" for k
    using last_entry_flushed [OF r(4) that] by (simp add: rec_val_def)
  moreover have "rec_val e (log_seq L 0 (ds_newHead (bk_datas b))) k = reopened m k" if "k \<in> K" for k
    using data_file_32(1) [OF l(1) C] by (intro rec_val_map [OF r(2,7) that l(2) r(6)]) blast
  ultimately show ?thesis using b' by (intro exI [of _ b'] exI [of _ d'] exI [of _ "rec_val e (log_seq ?L 0 (MAX_NUM_CHUNK - 1))"]) simp
qed

end
