(* ===== verification/BucketMap.thy ===== *)
theory BucketMap
  imports Recover
begin

text \<open>
  A bucket is a versioned map.  The machine \<open>bkt_run\<close> runs a bucket that was opened on an empty directory through writes, reads,
  flushes of data chunks, dumps of hints, garbage collections and restarts, each of them one step.  A collection, with or without the merge of the hints before it,
  starts when the chunks of its range are on disk (the flush that a rotation starts has ended) and is not cancelled before its first chunk.  A restart opens a new bucket
  on the data files of one in whose buffers no key is left; hints and trees are lost, and the clock does not show 0.  It brings back the versions of the records
  (\<open>reopened\<close>), which are those of the map unless \<open>CheckVHash\<close> let a set change the version in the tree only.  The lemmas show that the bucket represents
  the map of the specification in every state it reaches.
\<close>

unbundle bit_operations_syntax

section \<open>Definitions\<close>

inductive bkt_run :: "Env \<Rightarrow> bytes set \<Rightarrow> int \<Rightarrow> Bucket \<Rightarrow> BeansdbRL \<Rightarrow> (bytes \<rightharpoonup> Val) \<Rightarrow> bool" for e K bid where
  brun_open: "bkt_open e oe threshold bid empty_home d0 = Some (None, Some b, d) \<Longrightarrow>
    bkt_run e K bid b d Map.empty"
| brun_set: "bkt_run e K bid b d m \<Longrightarrow> bkt_key e K bid ki \<Longrightarrow> storable e (Key ki) v \<Longrightarrow> ds_newHead (bk_datas b) + 1 < MAX_NUM_CHUNK \<Longrightarrow>
    checkAndSet e oe ki v b d = Some (err, b', d') \<Longrightarrow> bkt_run e K bid b' d' (m(Key ki := snd (spec_set (conf e) v (m (Key ki)))))"
| brun_get: "bkt_run e K bid b d m \<Longrightarrow> bkt_key e K bid ki \<Longrightarrow> bkt_get e ki memOnly b d = Some (r, b', d') \<Longrightarrow>
    bkt_run e K bid b' d' m"
| brun_flush: "bkt_run e K bid b d m \<Longrightarrow> ds_flush c force recent (bk_datas b) d = Some (ds, d') \<Longrightarrow>
    bkt_run e K bid (b\<lparr>bk_datas := ds\<rparr>) d' m"
| brun_dump: "bkt_run e K bid b d m \<Longrightarrow> trydump (conf e) now c dumplast (bk_hints b) = Some (s, h) \<Longrightarrow>
    bkt_run e K bid (b\<lparr>bk_hints := h\<rparr>) d m"
| brun_gc: "bkt_run e K bid b d m \<Longrightarrow> 0 \<le> start \<Longrightarrow> start \<le> en \<Longrightarrow> en < ds_newHead (bk_datas b) \<Longrightarrow>
    \<forall>c. 0 \<le> c \<and> c \<le> en \<longrightarrow> dc_wbuf (ds_chunks (bk_datas b) c) = [] \<Longrightarrow> \<not> ge_cancel ge start \<Longrightarrow>
    mrg \<longrightarrow> (\<forall>k \<in> K. length k < 256) \<Longrightarrow> gc_run e ge start en mrg b d = Some (gc, b', d') \<Longrightarrow> bkt_run e K bid b' d' m"
| brun_restart: "bkt_run e K bid b d m \<Longrightarrow> \<forall>k \<in> K. length k < 256 \<Longrightarrow>
    \<forall>c. dc_file (ds_chunks (bk_datas b) c) \<noteq> None \<longrightarrow> c + 1 < MAX_NUM_CHUNK \<Longrightarrow> op_now oe \<noteq> 0 \<Longrightarrow> 0 \<le> bid \<Longrightarrow> bid < 16 ^ TreeDepth (conf e) \<Longrightarrow>
    \<forall>k \<in> K. unbuffered b k \<Longrightarrow> bkt_open e oe threshold bid (data_home b) d0 = Some (None, Some b', d') \<Longrightarrow>
    bkt_run e K bid b' d' (reopened m)"

section \<open>Opening an empty bucket\<close>

lemma list_files_none:
  assumes "\<forall>i. ds_chunks ds i = new_chunk i None"
  shows "list_files_loop n i mx ds = Some (mx, ds)"
proof (induction n arbitrary: i)
  case (Suc n)
  have "ds\<lparr>ds_chunks := (ds_chunks ds)(i := (ds_chunks ds i)\<lparr>dc_size := 0\<rparr>)\<rparr> = ds"
    using assms by (auto simp: new_chunk_def fun_eq_iff intro!: dataStore.equality)
  then show ?case using Suc assms by (simp add: Let_def) (simp add: new_chunk_def)
qed simp

lemma mapping_filter_empty: "Mapping.filter P Mapping.empty = Mapping.empty"
  by (intro mapping_eqI) (simp add: lookup_filter)

lemma open_chunks_empty:
  assumes "\<forall>i. ds_chunks (bk_datas b) i = new_chunk i None" "\<forall>i. hm_chunks (bk_hints b) i = newHintChunk i"
    and "bk_TreeID b = \<lparr>hid_Chunk = 0, hid_Split = - 1\<rparr>" "hm_files (bk_hints b) = Mapping.empty"
  shows "open_chunks e oe n i b d = Some (None, b, d)"
  using assms
proof (induction n arbitrary: i)
  case (Suc n)
  have "RemoveHintfilesByChunk i (bk_hints b) = bk_hints b"
    using Suc.prems(4) by (simp add: RemoveHintfilesByChunk_def mapping_filter_empty)
  then have "checkHintWithData e oe i b d = Some (None, b, d)"
    using Suc.prems by (simp add: checkHintWithData_def new_chunk_def Let_def)
  then show ?case using Suc by (simp add: newHintChunk_def hc_rotate_def Let_def)
qed simp

lemma bkt_open_empty:
  assumes "bkt_limits e K"
  shows "\<exists>b. bkt_open e oe threshold bid empty_home d = Some (None, Some b, d) \<and>
    bkt_rep e K bid b Map.empty \<and> ds_newHead (bk_datas b) = 0 \<and> bk_datas b = NewdataStore (\<lambda>_. None)"
proof -
  let ?ds = "NewdataStore (\<lambda>_. None)" and ?c = "conf e"
  have lim: "conf_ok ?c" "2 \<le> TreeHeight ?c" "hint_limits ?c" "0 \<le> DataFileMax ?c"
    using assms by (simp_all add: bkt_limits_def chunk_limits_def)
  obtain t where t: "newHTree (TreeDepth ?c) bid (TreeHeight ?c) = Some t" "htree_rep ?c bid t Map.empty"
    using newHTree_rep [OF lim(1)] lim(1,2) by (auto simp: htree_rep_def)
  have l: "ListFiles ds = Some (- 1, ds\<lparr>ds_newHead := 0\<rparr>)" if "\<forall>i. ds_chunks ds i = new_chunk i None" for ds
    using list_files_none [OF that] by (simp add: ListFiles_def)
  have eq: "?ds\<lparr>ds_newHead := 0\<rparr> = ?ds" by (simp add: NewdataStore_def)
  let ?h = "(newHintMgr Mapping.empty)\<lparr>hm_collisions := newCollisionTable\<rparr>"
  let ?b = "\<lparr>bk_ID = bid, bk_TreeID = \<lparr>hid_Chunk = 0, hid_Split = - 1\<rparr>, bk_NextGCChunk = 0, bk_NumSameVhash = 0,
      bk_SizeSameVhash = 0, bk_SizeVhashKey = [], bk_htree = t, bk_hints = ?h\<lparr>hm_maxDumpedHintID := \<lparr>hid_Chunk = 0, hid_Split = - 1\<rparr>\<rparr>,
      bk_datas = ?ds, bk_treeFiles = Mapping.empty, bk_nextgc = None\<rparr>"
  have ds: "\<forall>i. ds_chunks ?ds i = new_chunk i None" by (simp add: NewdataStore_def)
  have o: "open_chunks e oe n i ?b d = Some (None, ?b, d)" for n i
    by (rule open_chunks_empty) (simp_all add: NewdataStore_def newHintMgr_def)
  have "bkt_open e oe threshold bid empty_home d = Some (None, Some ?b, d)"
    using t(1) l [OF ds] o by (simp add: bkt_open_def empty_home_def loadGCHistroy_def Let_def eq checkForDump_def)
  moreover have "ds_inv e [] ?ds Idle (\<lambda>_. []) (\<lambda>_. 0) (\<lambda>_. 0)"
    using chunk_rep_new [of None e] lim(4) by (simp add: ds_inv_def NewdataStore_def phase_ok_def) (simp add: new_chunk_def)
  moreover have "hints_ok ?c (getKeyHash e) K (bk_hints ?b)"
    using newHintMgr_ok [OF lim(3), of "getKeyHash e" K] by (simp add: hints_ok_def newCollisionTable_def)
  moreover have "index_on e K (logged_at e (\<lambda>_. [])) Map.empty Map.empty" by (simp add: index_on_def)
  moreover have "keys_in (bkt_dom e K bid) (\<lambda>_. [])" "log_ok e (\<lambda>_. [])" "newest e K (log_seq (\<lambda>_. []) 0 0) Map.empty"
    by (simp_all add: keys_in_def log_ok_def log_seq_nil newest_def newest_key_def)
  ultimately have "bkt_rep e K bid ?b Map.empty" using t(2)
    by (auto simp: bkt_rep_def bkt_ctl_def NewdataStore_def newHintMgr_def chunk_in_range_def MAX_NUM_CHUNK_def)
  with \<open>bkt_open e oe threshold bid empty_home d = _\<close> show ?thesis by (intro exI [of _ ?b]) (simp add: NewdataStore_def)
qed

section \<open>The bucket is a versioned map\<close>

lemma bkt_rep_cong: "(\<forall>k \<in> K. m k = m' k) \<Longrightarrow> bkt_rep e K bid b m = bkt_rep e K bid b m'"
  by (simp add: bkt_rep_def index_on_def)

lemma bkt_run_rep:
  assumes "bkt_run e K bid b d m" "bkt_limits e K"
  shows "bkt_rep e K bid b m"
  using assms(1)
proof induction
  case (brun_open oe threshold d0 b d)
  then show ?case using bkt_open_empty [OF assms(2), of oe threshold bid d0] by auto
next
  case (brun_set b d m ki v oe err b' d')
  from checkAndSet_rep [OF brun_set.IH brun_set.hyps(2) assms(2) brun_set.hyps(4,3), of oe d] brun_set.hyps(5)
  show ?case by (auto simp del: fun_upd_apply)
next
  case (brun_get b d m ki memOnly r b' d')
  have "qlz_ok e" "mem_ok e" using assms(2) by (simp_all add: bkt_limits_def)
  with bkt_get_full [OF brun_get.IH brun_get.hyps(2), of d] bkt_get_mem [OF brun_get.IH brun_get.hyps(2), of d] brun_get
  show ?case by (cases memOnly) auto
next
  case (brun_flush b d m c force recent ds d')
  then obtain L Q hm where r: "htree_rep (conf e) bid (bk_htree b) hm" "index_on e K (logged_at e L) hm m" "bkt_ctl e K b"
      "ds_inv e [] (bk_datas b) Idle L Q Q" "keys_in (bkt_dom e K bid) L" "log_ok e L" "newest e K (log_seq L 0 (ds_newHead (bk_datas b))) hm"
    by (auto simp: bkt_rep_def)
  with ds_flush_inv [OF r(4) brun_flush.hyps(2)] show ?case by (auto simp: bkt_rep_def bkt_ctl_def)
next
  case (brun_dump b d m now c dumplast s h)
  have "hint_limits (conf e)" "hint_chunk_ok c" using assms(2) brun_dump.hyps(2)
    by (auto simp: bkt_limits_def trydump_def split: if_splits)
  with trydump_ok [OF _ this, of "getKeyHash e" K "bk_hints b" now dumplast] brun_dump show ?case
    by (auto simp: bkt_rep_def bkt_ctl_def)
next
  case (brun_gc b d m start en ge mrg gc b' d')
  from gc_run_rep [OF brun_gc.IH assms(2) brun_gc.hyps(2-7), of d] brun_gc.hyps(8) show ?case by auto
next
  case (brun_restart b d m oe threshold d0 b' d')
  from bkt_reopen_rep [OF brun_restart.IH assms(2) brun_restart.hyps(2-6), of threshold d0] brun_restart.hyps(7,8) obtain m' where
    "bkt_rep e K bid b' m'" "\<forall>k \<in> K. m' k = reopened m k" by auto
  then show ?case using bkt_rep_cong [of K m' "reopened m"] by simp
qed


definition sample_key :: KeyInfo where
  "sample_key = \<lparr>KeyHash = 97, KeyIsPath = False, Key = [97], StringKey = [97], KeyPath = ParsePathUint64 97, BucketID = 0\<rparr>"

definition at_zero :: OpEnv where
  "at_zero = \<lparr>op_now = 0, op_fresh = [], op_mergeChan = True\<rparr>"

lemma sample_bkt:
  "bkt_limits toy_env {[97]}" "bkt_key toy_env {[97]} 0 sample_key" "storable toy_env [97] (rPayload sample_rec)"
proof -
  show "bkt_limits toy_env {[97]}"
    using toy_limits(1) toy_env_qlz sample_rec_ok(2) sample_conf_ok
    by (simp add: bkt_limits_def) (simp add: toy_env_def sample_conf_def hint_limits_def)
  show "bkt_key toy_env {[97]} 0 sample_key"
    by (simp add: bkt_key_def sample_key_def htree_key_ok_def in_bucket_def toy_env_def sample_conf_def bucket_of_path_def
        ParsePathUint64_def upt_conv_Cons)
  show "storable toy_env [97] (rPayload sample_rec)"
    using toy_limits(2) by (simp add: storable_def sample_rec_def)
qed


end
