(* ===== verification/GcSafe.thy ===== *)
theory GcSafe
  imports BucketMap
begin

text \<open>
  What a garbage collection does to the values of a bucket whose keys have different hashes: one that runs keeps them all, with or without a merge of the hints before it, and one that is cancelled before its first
  chunk, when that chunk is rewritten in place, loses the values of the chunk.
\<close>

unbundle bit_operations_syntax

section \<open>Cancellation\<close>

lemma lookup_same:
  assumes "bkt_ctl e K b" "bkt_ctl e K b'" "bk_htree b' = bk_htree b"
  shows "lookup_pos e ki b' = lookup_pos e ki b"
  using assms by (simp add: lookup_pos_def bkt_ctl_def hints_ok_def ct_get_def)

text \<open>Opening the chunk for rewriting and closing it at once removes its file.\<close>

lemma rewrite_nothing:
  assumes "flushed_rep e dc rs" "chunk_limits e" "int (log_size rs) \<le> DataFileMax (conf e)" "dc_chunkid dc = src" "rs \<noteq> []"
  shows "\<exists>dc'. beginGCWriting src dc = Some dc' \<and> dc_file (endGCWriting dc') = None \<and> dc_wbuf (endGCWriting dc') = []"
proof -
  have c: "dc_bytes dc = concat (map rec_bytes rs)" "dc_wbuf dc = []" "dc_size dc = of_nat (log_size rs)"
    using assms(1) by (simp_all add: chunk_rep_def)
  let ?dc = "dc\<lparr>dc_rewriting := True, dc_writingHead := 0, dc_gcWriter := Some 0, dc_file := Some (dc_bytes dc)\<rparr>"
  have "beginGCWriting src dc = Some ?dc"
    using assms(4) by (cases "dc_file dc") (auto simp: beginGCWriting_def GetStreamWriter_def Let_def dc_bytes_def)
  moreover have "unat (dc_size dc) \<noteq> 0" unfolding c(3) data_file_32(2) [OF assms(2,3)] using assms(5) by simp
  then have "0 < dc_size dc" by (simp add: word_less_nat_alt)
  ultimately show ?thesis using c(2) by (simp add: endGCWriting_def Let_def Truncate_def)
qed

text \<open>C10: a collection that is cancelled before its first chunk can lose the values of that chunk: when no earlier chunk has room, the first
  chunk was opened for rewriting in place, and the deferred \<open>endGCWriting\<close> truncates it to the nothing that was
  written.  No error is reported, and every key whose record was there can no longer be read.\<close>

theorem gc_cancel_loses_values:
  assumes "bkt_run e K bid b d m" and "bkt_limits e K" and "0 \<le> start" and "start \<le> en" and "en < ds_newHead (bk_datas b)"
    and "dc_wbuf (ds_chunks (bk_datas b) start) = []" and "dst_loop e start (nat start) (bk_datas b) = start" and "ge_cancel ge start"
    and "bkt_key e K bid ki" and "lookup_pos e ki b = Some (Some meta, pos)" and "ChunkID pos = start"
  shows "\<exists>gc b' d' d''. gc_run e ge start en False b d = Some (gc, b', d') \<and> gs_Err gc = None \<and>
    bkt_get e ki False b' d' = Some ((None, pos, Some OpenErr), b', d'')"
proof -
  define b1 where "b1 = BeforeBucket e ge en False b"
  note B1 = BeforeBucket_same [OF bkt_run_rep [OF assms(1,2)] assms(2), of False ge en, simplified, folded b1_def]
  have lim: "chunk_limits e" "hint_limits (conf e)" using assms(2) by (simp_all add: bkt_limits_def)
  have ctl: "bkt_ctl e K b" "bkt_ctl e K b1" using bkt_run_rep [OF assms(1,2)] B1(1) by (simp_all add: bkt_rep_def)
  obtain L Q hm where r: "htree_rep (conf e) bid (bk_htree b) hm" "index_on e K (logged_at e L) hm m" "ds_inv e [] (bk_datas b) Idle L Q Q"
    using bkt_run_rep [OF assms(1,2)] by (auto simp: bkt_rep_def)
  let ?dc = "ds_chunks (bk_datas b) start"
  have C: "chunk_rep e ?dc (L start) (Q start) (Q start)" "dc_chunkid ?dc = start" "int (log_size (L start)) \<le> DataFileMax (conf e)"
    using r(3) by (simp_all add: ds_inv_def)
  obtain it where it: "hm (getKeyHash e (Key ki)) = Some it" "it_Pos it = pos"
    using lookup_pos_rep [OF ctl(1) r(1) assms(9)] assms(10) by (auto split: option.splits)
  have "rel_option (val_on (logged_at e L) (Key ki)) (m (Key ki)) (hm (getKeyHash e (Key ki)))"
    using r(2) assms(9) by (auto simp: index_on_def bkt_key_def)
  then obtain rec where lg: "logged_at e L pos rec" using it by (auto simp: option_rel_Some2 val_on_def)
  then have ne: "L start \<noteq> []" and rng: "chunk_in_range start" using assms(11) by (auto simp: logged_at_def)
  have "Q start = length (L start)" using C(1) assms(6) by (auto simp: chunk_rep_def)
  then have "flushed_rep e ?dc (L start)" using C(1) by simp
  from rewrite_nothing [OF this lim(1) C(3,2) ne] obtain dc where
    dc: "beginGCWriting start ?dc = Some dc" "dc_file (endGCWriting dc) = None" "dc_wbuf (endGCWriting dc) = []" by blast
  let ?b3 = "put_chunk start (endGCWriting dc) (put_chunk start dc b1)"
  have "bkt_ctl e K ?b3" using ctl(2) by (simp add: bkt_ctl_def)
  from bkt_trydump_ok [OF this lim(2) rng, of "ge_op ge" True] obtain h where
    h: "bkt_trydump e (ge_op ge) start True ?b3 = Some (?b3\<lparr>bk_hints := h\<rparr>)" "bkt_ctl e K (?b3\<lparr>bk_hints := h\<rparr>)" by blast
  define b' where "b' = AfterBucket (?b3\<lparr>bk_hints := h\<rparr>)"
  have n: "nat (en - start + 1) = Suc (nat (en - start))" using assms(4) by simp
  have "\<exists>gc. gc_run e ge start en False b d = Some (gc, b', d) \<and> gs_Err gc = None"
    using dc(1) h(1) assms(7,8) B1(2) by (simp add: gc_run_def Let_def b1_def [symmetric] b'_def n)
  moreover have "lookup_pos e ki b' = Some (Some meta, pos)"
  proof -
    have "bkt_ctl e K b'" using h(2) by (simp add: b'_def AfterBucket_def bkt_ctl_def hints_ok_def)
    moreover have "bk_htree b' = bk_htree b" by (simp add: b'_def AfterBucket_def b1_def BeforeBucket_def Let_def removeHtree_def)
    ultimately show ?thesis using lookup_same [OF ctl(1)] assms(10) by simp
  qed
  moreover have "ds_chunks (bk_datas b') start = endGCWriting dc" by (simp add: b'_def AfterBucket_def)
  ultimately show ?thesis using dc(2,3) rng assms(11)
    by (auto simp: bkt_get_def GetRecordByPos_def GetRecordByOffset_def GetRecordByOffsetInBuffer_def readRecordAtPath_def)
qed

section \<open>A collection that runs\<close>

text \<open>C2: garbage collection keeps the map.  In every state a bucket reaches (\<open>bkt_run\<close>), a collection of a range of chunks before the newest one, with the write buffers of the chunks up to its last one empty,
  that is not cancelled before its first chunk, ends without an error or a panic, whether it merges the hints first or not and whether it is cancelled later or not; afterwards every key has the value it
  had, and \<open>get\<close> returns it from where it is now.  The range that \<open>gcCheckRange\<close> chooses lies before the newest chunk.  The keys have different hashes, and at most 255 bytes if the hints are merged;
  the collection is one step, with no request served inside it.\<close>

theorem gc_keeps_map:
  assumes "bkt_run e K bid b d m" and "bkt_limits e K" and "bkt_key e K bid ki" and "0 \<le> start" and "start \<le> en" and "en < ds_newHead (bk_datas b)"
    and "\<forall>c. 0 \<le> c \<and> c \<le> en \<longrightarrow> dc_wbuf (ds_chunks (bk_datas b) c) = []" and "\<not> ge_cancel ge start"
    and "mrg \<longrightarrow> (\<forall>k \<in> K. length k < 256)"
  shows "(\<exists>gc b' d' r d''. gc_run e ge start en mrg b d = Some (gc, b', d') \<and> gs_Err gc = None \<and> bkt_run e K bid b' d' m \<and>
      bkt_get e ki False b' d' = Some (r, b', d'') \<and> returns (m (Key ki)) r) \<and>
    (gcCheckRange (conf e) now s n days b = Some (Inr (start', en')) \<longrightarrow> 0 \<le> start' \<and> start' \<le> en' \<and> en' < ds_newHead (bk_datas b))"
proof -
  note R = bkt_run_rep [OF assms(1,2)]
  have q: "qlz_ok e" "mem_ok e" using assms(2) by (simp_all add: bkt_limits_def)
  obtain gc b' d' where g: "gc_run e ge start en mrg b d = Some (gc, b', d')" "gs_Err gc = None" "bkt_rep e K bid b' m"
    using gc_run_rep [OF R assms(2,4-9)] by blast
  note run = brun_gc [OF assms(1,4-9) g(1)]
  obtain r d'' where get: "bkt_get e ki False b' d' = Some (r, b', d'')" "returns (m (Key ki)) r"
    using bkt_get_full [OF g(3) assms(3) q] by blast
  have "0 \<le> bk_NextGCChunk b" using R by (simp add: bkt_rep_def bkt_ctl_def)
  note bounds = gcCheckRange_bounds [OF _ this, of "conf e" now s n days start' en']
  show ?thesis using bounds g(1,2) run get by (intro conjI impI exI) simp_all
qed

section \<open>Concrete inputs\<close>

text \<open>Small data files, so that the second of two values goes to the second chunk.\<close>

definition small_env :: Env where
  "small_env = toy_env\<lparr>mcconf := (mcconf toy_env)\<lparr>BodyMax := 1400\<rparr>, conf := sample_conf\<lparr>DataFileMax := 2000\<rparr>\<rparr>"

definition big_value :: Payload where
  "big_value = zero_payload\<lparr>TS := 5, Flag := FLAG_CLIENT_COMPRESS, carr := nil_array\<lparr>Body := replicate 1000 7\<rparr>\<rparr>"

definition second_key :: KeyInfo where
  "second_key = \<lparr>KeyHash = 98, KeyIsPath = False, Key = [98], StringKey = [98], KeyPath = ParsePathUint64 98, BucketID = 0\<rparr>"

lemma small_ok:
  "bkt_limits small_env {[97], [98]}" "bkt_key small_env {[97], [98]} 0 sample_key" "bkt_key small_env {[97], [98]} 0 second_key"
  "storable small_env [97] big_value" "storable small_env [98] big_value"
proof -
  have "chunk_limits small_env" by (simp add: chunk_limits_def max_rec_def small_env_def toy_env_def)
  moreover have "qlz_ok small_env" "mem_ok small_env" using toy_env_qlz sample_rec_ok(2) by (simp_all add: qlz_ok_def mem_ok_def small_env_def)
  moreover have "conf_ok (conf small_env)" using sample_conf_ok by (simp add: conf_ok_def small_env_def)
  moreover have "2 \<le> TreeHeight (conf small_env)" "hint_limits (conf small_env)" by (simp_all add: small_env_def sample_conf_def hint_limits_def)
  moreover have "inj_on (getKeyHash small_env) {[97], [98]}" by (simp add: small_env_def toy_env_def)
  ultimately show "bkt_limits small_env {[97], [98]}" by (simp add: bkt_limits_def)
  show "bkt_key small_env {[97], [98]} 0 sample_key" "bkt_key small_env {[97], [98]} 0 second_key"
    by (simp_all add: bkt_key_def sample_key_def second_key_def htree_key_ok_def in_bucket_def small_env_def toy_env_def sample_conf_def
        bucket_of_path_def ParsePathUint64_def upt_conv_Cons)
  show "storable small_env [97] big_value" "storable small_env [98] big_value"
    by (simp_all add: storable_def acceptable_def small_env_def toy_env_def big_value_def IsValidKeySize_def IsValidValueSize_def
        FLAG_COMPRESS_def FLAG_CLIENT_COMPRESS_def)
qed

text \<open>The first write of a key with a value that is not compressed: what it does to the data store and the tree.\<close>

lemma first_write:
  assumes "bkt_rep e K bid b m" "bkt_key e K bid ki" "m (Key ki) = None" "Ver v = 0" "Flag v AND FLAG_CLIENT_COMPRESS \<noteq> 0"
    and "checkAndSet e oe ki v b d = Some (err, b', d')"
  defines "rec \<equiv> \<lparr>rKey = Key ki, rPayload = (CalcValueHash v)\<lparr>Ver := 1\<rparr>\<rparr>"
  shows "\<exists>pos bg wk d1 d2. ds_AppendRecord e rec (bk_datas b) d1 = Some (pos, bg, wk, bk_datas b', d2) \<and>
    htree_set (conf e) (op_fresh oe) (bk_htree b) ki (rPayload (wr_rec (wrapRecord rec))) pos = Some (bk_htree b')"
proof -
  have t: "TryCompress e \<lparr>rKey = k, rPayload = (CalcValueHash v)\<lparr>Ver := ver\<rparr>\<rparr> d = Some (\<lparr>rKey = k, rPayload = (CalcValueHash v)\<lparr>Ver := ver\<rparr>\<rparr>, d)" for k ver d
    using assms(5) by (simp add: TryCompress_def Let_def CalcValueHash_def)
  have c: "(CalcValueHash v)\<lparr>Ver := 0\<rparr> = CalcValueHash v" using assms(4) by (simp add: CalcValueHash_def)
  have p: "prepare_value e ki v d = Some (CalcValueHash v, d\<lparr>SetData := AddSize 0 (SetData d)\<rparr>)"
    using t [of "Key ki" 0 d] c assms(4) by (simp add: prepare_value_def)
  let ?d = "d\<lparr>SetData := AddSize 0 (SetData d)\<rparr>"
  obtain pos where g: "bkt_get e ki True b ?d = Some ((None, pos, None), b, ?d)"
    using bkt_get_mem [OF assms(1,2), of ?d] assms(3) by auto
  have ver: "checkAndUpdateVerison 0 0 = (1, True)" by (simp add: checkAndUpdateVerison_def abs32_def word_sless_alt word_sle_eq)
  have "Ver (CalcValueHash v) = 0" using assms(4) by (simp add: CalcValueHash_def)
  then have "bkt_set e oe ki (rPayload rec) b (d\<lparr>SetData := AddSize 0 (SetData d)\<rparr>) = Some (b', d')"
    using assms(6) by (simp add: checkAndSet_def p g ver Let_def rec_def word_sless_alt split: bind_splits)
  then show ?thesis using t by (fastforce simp: bkt_set_def rec_def Let_def split: bind_splits)
qed

lemma big_append:
  assumes "ds_AppendRecord small_env \<lparr>rKey = [k], rPayload = (CalcValueHash big_value)\<lparr>Ver := 1\<rparr>\<rparr> ds d = Some (pos, bg, wk, ds', d')"
  defines "head \<equiv> (if dc_writingHead (ds_chunks ds (ds_newHead ds)) + 1280 > 2000 then ds_newHead ds + 1 else ds_newHead ds)"
  shows "ds_newHead ds' = head" "ds_wbufSize ds' = ds_wbufSize ds + 1280"
    "\<exists>w. ds_chunks ds' = (ds_chunks ds)(head := dc_AppendRecord w (ds_chunks ds head)) \<and> RecSize (rPayload (wr_rec w)) = 1280"
proof -
  let ?rec = "\<lparr>rKey = [k], rPayload = (CalcValueHash big_value)\<lparr>Ver := 1\<rparr>\<rparr>"
  have t: "TryCompress small_env ?rec d = Some (?rec, d)"
    by (simp add: TryCompress_def Let_def CalcValueHash_def big_value_def FLAG_CLIENT_COMPRESS_def)
  have sz: "Sizes ?rec = (1025, 1280)" by (simp add: Sizes_def CalcValueHash_def big_value_def)
  have m: "DataFileMax (conf small_env) = 2000" by (simp add: small_env_def)
  show "ds_newHead ds' = head" "ds_wbufSize ds' = ds_wbufSize ds + 1280"
    "\<exists>w. ds_chunks ds' = (ds_chunks ds)(head := dc_AppendRecord w (ds_chunks ds head)) \<and> RecSize (rPayload (wr_rec w)) = 1280"
    using assms(1) by (auto simp: ds_AppendRecord_def Let_def t sz m head_def split: if_splits)
qed

lemma flush_empties:
  assumes "ds_flush c True recent ds d = Some (ds', d')" "ds_wbufSize ds \<noteq> 0" "0 \<le> c"
  shows "dc_wbuf (ds_chunks ds' c) = []" "ds_newHead ds' = ds_newHead ds"
  using assms by (auto simp: ds_flush_def Let_def dc_flush_def dc_flush_write_def dc_flush_drop_def split: if_splits bind_splits prod.splits)

text \<open>The position of a key stays when another key is written.\<close>

lemma other_key_lookup:
  assumes "htree_rep (conf e) bid (bk_htree b) hm" "bkt_key e K bid ki" "bkt_key e K bid kj" "KeyHash ki \<noteq> KeyHash kj"
    and "htree_set (conf e) fresh (bk_htree b) kj meta pos = Some (bk_htree b')" "bkt_ctl e K b" "bkt_ctl e K b'"
  shows "lookup_pos e ki b' = lookup_pos e ki b"
proof -
  have h: "conf_ok (conf e)" "2 \<le> TreeHeight (conf e)" "tree_rep (conf e) (bk_htree b) hm" "ki_for (conf e) (bk_htree b) kj" "t_bucketID (bk_htree b) = bid"
    using assms(1,3) by (auto simp: htree_rep_def bkt_key_def htree_key_ok_def ki_for_def)
  obtain x where "htree_rep (conf e) bid (bk_htree b') (hm(KeyHash kj \<mapsto> x))"
    using htree_set_rep [OF h(1-4), of fresh meta pos] h assms(5) by (auto simp: htree_rep_def)
  from lookup_pos_rep [OF assms(7) this assms(2)] lookup_pos_rep [OF assms(6,1,2)] assms(2,4) show ?thesis
    by (simp add: bkt_key_def)
qed

lemma position_chunk:
  assumes "bkt_rep e K bid b m" "bkt_key e K bid ki" "m (Key ki) \<noteq> None"
  shows "\<exists>meta pos. lookup_pos e ki b = Some (Some meta, pos) \<and> 0 \<le> ChunkID pos \<and> ChunkID pos \<le> ds_newHead (bk_datas b)"
proof -
  obtain L Q hm where r: "htree_rep (conf e) bid (bk_htree b) hm" "index_on e K (logged_at e L) hm m" "bkt_ctl e K b"
      "ds_inv e [] (bk_datas b) Idle L Q Q" using assms(1) by (auto simp: bkt_rep_def)
  have "rel_option (val_on (logged_at e L) (Key ki)) (m (Key ki)) (hm (getKeyHash e (Key ki)))"
    using r(2) assms(2) by (auto simp: index_on_def bkt_key_def)
  then obtain it rec where it: "hm (getKeyHash e (Key ki)) = Some it" "logged_at e L (it_Pos it) rec"
    using assms(3) by (auto simp: option_rel_Some1 val_on_def)
  then have "L (ChunkID (it_Pos it)) \<noteq> []" "0 \<le> ChunkID (it_Pos it)" by (auto simp: logged_at_def chunk_in_range_def)
  moreover from this(1) have "ChunkID (it_Pos it) \<le> ds_newHead (bk_datas b)" using r(4) unfolding ds_inv_def by force
  ultimately show ?thesis using lookup_pos_rep [OF r(3,1) assms(2)] it(1) by simp
qed

lemma big_set:
  assumes "bkt_run small_env {[97], [98]} 0 b d m" "bkt_key small_env {[97], [98]} 0 ki" "Key ki = [k]" "m [k] = None"
    "storable small_env [k] big_value" "ds_newHead (bk_datas b) = 0"
  shows "\<exists>b' d' a. checkAndSet small_env at_zero ki big_value b d = Some (None, b', d') \<and>
    bkt_run small_env {[97], [98]} 0 b' d' (m([k] \<mapsto> a)) \<and> av_Body a = replicate 1000 7 \<and> av_Ver a = 1 \<and>
    (\<exists>pos bg wk d1 d2 meta. ds_AppendRecord small_env \<lparr>rKey = [k], rPayload = (CalcValueHash big_value)\<lparr>Ver := 1\<rparr>\<rparr> (bk_datas b) d1 =
        Some (pos, bg, wk, bk_datas b', d2) \<and> htree_set (conf small_env) [] (bk_htree b) ki (meta :: Payload) pos = Some (bk_htree b'))"
proof -
  note R = bkt_run_rep [OF assms(1) small_ok(1)]
  let ?sp = "spec_set (conf small_env) big_value None"
  have sp: "fst ?sp = None" "\<exists>a. snd ?sp = Some a \<and> av_Body a = replicate 1000 7 \<and> av_Ver a = 1"
    by (simp_all add: spec_set_def big_value_def zero_payload_def checkAndUpdateVerison_def abs32_def word_sless_alt word_sle_eq)
  have hd: "ds_newHead (bk_datas b) + 1 < MAX_NUM_CHUNK" using assms(6) by (simp add: MAX_NUM_CHUNK_def)
  have st: "storable small_env (Key ki) big_value" using assms(3,5) by simp
  obtain b' d' where c: "checkAndSet small_env at_zero ki big_value b d = Some (None, b', d')"
    using checkAndSet_rep [OF R assms(2) small_ok(1) hd st, of at_zero d] assms(3,4) sp(1) by auto
  have run: "bkt_run small_env {[97], [98]} 0 b' d' (m([k] := snd ?sp))" using brun_set [OF assms(1,2) st hd c] assms(3,4) by simp
  have v: "Ver big_value = 0" "Flag big_value AND FLAG_CLIENT_COMPRESS \<noteq> 0"
    by (simp_all add: big_value_def zero_payload_def FLAG_CLIENT_COMPRESS_def)
  obtain a where a: "snd ?sp = Some a" "av_Body a = replicate 1000 7" "av_Ver a = 1" using sp(2) by blast
  have "m (Key ki) = None" using assms(3,4) by simp
  from first_write [OF R assms(2) this v c] have "\<exists>pos bg wk d1 d2 meta. ds_AppendRecord small_env
        \<lparr>rKey = [k], rPayload = (CalcValueHash big_value)\<lparr>Ver := 1\<rparr>\<rparr> (bk_datas b) d1 = Some (pos, bg, wk, bk_datas b', d2) \<and>
      htree_set (conf small_env) [] (bk_htree b) ki (meta :: Payload) pos = Some (bk_htree b')"
    unfolding assms(3) at_zero_def OpEnv.select_convs by blast
  then show ?thesis using c run a by (intro exI [of _ b'] exI [of _ d'] exI [of _ a]) simp
qed

lemma two_chunks:
  "\<exists>b d m a meta pos. bkt_run small_env {[97], [98]} 0 b d m \<and> ds_newHead (bk_datas b) = 1 \<and> dc_wbuf (ds_chunks (bk_datas b) 0) = [] \<and>
     m [97] = Some a \<and> av_Body a = replicate 1000 7 \<and> lookup_pos small_env sample_key b = Some (Some meta, pos) \<and> ChunkID pos = 0"
proof -
  let ?e = small_env and ?K = "{[97], [98]} :: bytes set"
  have k: "Key sample_key = [97]" "Key second_key = [98]" "KeyHash sample_key \<noteq> KeyHash second_key" by (simp_all add: sample_key_def second_key_def)
  obtain b0 where b0: "bkt_open ?e at_zero 0 0 empty_home ResetAll = Some (None, Some b0, ResetAll)" "bk_datas b0 = NewdataStore (\<lambda>_. None)"
    using bkt_open_empty [OF small_ok(1)] by blast
  then have z: "ds_newHead (bk_datas b0) = 0" "ds_wbufSize (bk_datas b0) = 0" "dc_writingHead (ds_chunks (bk_datas b0) 0) = 0"
    by (simp_all add: NewdataStore_def new_chunk_def)
  note run0 = brun_open [OF b0(1), of ?K]
  obtain b1 d1 a pos1 bg1 wk1 e1 f1 where 1: "bkt_run ?e ?K 0 b1 d1 [[97] \<mapsto> a]" "av_Body a = replicate 1000 7"
      "ds_AppendRecord ?e \<lparr>rKey = [97], rPayload = (CalcValueHash big_value)\<lparr>Ver := 1\<rparr>\<rparr> (bk_datas b0) e1 = Some (pos1, bg1, wk1, bk_datas b1, f1)"
    using big_set [OF run0 small_ok(2) k(1) _ small_ok(4) z(1)] by auto
  note A = big_append [OF 1(3)]
  have h1: "ds_newHead (bk_datas b1) = 0" "ds_wbufSize (bk_datas b1) = 1280" "dc_writingHead (ds_chunks (bk_datas b1) 0) = 1280"
    using A z by (auto simp: dc_AppendRecord_def Let_def)
  obtain b2 d2 a2 pos2 bg2 wk2 e2 f2 and meta2 :: Payload where 2: "bkt_run ?e ?K 0 b2 d2 ([[97] \<mapsto> a, [98] \<mapsto> a2])"
      "ds_AppendRecord ?e \<lparr>rKey = [98], rPayload = (CalcValueHash big_value)\<lparr>Ver := 1\<rparr>\<rparr> (bk_datas b1) e2 = Some (pos2, bg2, wk2, bk_datas b2, f2)"
      "htree_set (conf ?e) [] (bk_htree b1) second_key meta2 pos2 = Some (bk_htree b2)"
    using big_set [OF 1(1) small_ok(3) k(2) _ small_ok(5) h1(1)] by auto
  have h2: "ds_newHead (bk_datas b2) = 1" "ds_wbufSize (bk_datas b2) = 2560" using big_append(1,2) [OF 2(2)] h1 by simp_all
  note R1 = bkt_run_rep [OF 1(1) small_ok(1)] and R2 = bkt_run_rep [OF 2(1) small_ok(1)]
  obtain meta pos where p: "lookup_pos ?e sample_key b1 = Some (Some meta, pos)" "ChunkID pos = 0"
    using position_chunk [OF R1 small_ok(2)] h1(1) k(1) by fastforce
  have p2: "lookup_pos ?e sample_key b2 = Some (Some meta, pos)"
    using R1 R2 other_key_lookup [OF _ small_ok(2,3) k(3) 2(3)] p(1) by (auto simp: bkt_rep_def)
  have "\<exists>L Q. ds_inv ?e [] (bk_datas b2) Idle L Q Q" using R2 by (auto simp: bkt_rep_def)
  moreover have "chunk_in_range 0" by (simp add: chunk_in_range_def MAX_NUM_CHUNK_def)
  ultimately obtain ds d3 where f: "ds_flush 0 True False (bk_datas b2) d2 = Some (ds, d3)"
    using ds_flush_total [of ?e "[]" "bk_datas b2" _ _ _ 0 True False d2] by (metis not_None_eq surj_pair)
  have "dc_wbuf (ds_chunks ds 0) = []" "ds_newHead ds = 1" using flush_empties [OF f] h2 by simp_all
  moreover have "lookup_pos ?e sample_key (b2\<lparr>bk_datas := ds\<rparr>) = Some (Some meta, pos)" using p2 by (simp add: lookup_pos_def cong: option.case_cong)
  ultimately show ?thesis using brun_flush [OF 2(1) f] 1(2) p(2)
    by (intro exI [of _ "b2\<lparr>bk_datas := ds\<rparr>"] exI [of _ d3] exI [of _ "[[97] \<mapsto> a, [98] \<mapsto> a2]"] exI [of _ a] exI [of _ meta] exI [of _ pos]) simp
qed

theorem gc_cancel_loses_values_witness:
  "\<exists>b d m a ge gc b' d' d'' pos. bkt_run small_env {[97], [98]} 0 b d m \<and> m [97] = Some a \<and> av_Body a = replicate 1000 7 \<and>
     gc_run small_env ge 0 0 False b d = Some (gc, b', d') \<and> gs_Err gc = None \<and>
     bkt_get small_env sample_key False b' d' = Some ((None, pos, Some OpenErr), b', d'')"
proof -
  let ?ge = "\<lparr>ge_op = at_zero, ge_states = (\<lambda>_. 0), ge_create = True, ge_cancel = (\<lambda>_. True)\<rparr>"
  obtain b d m a meta pos where t: "bkt_run small_env {[97], [98]} 0 b d m" "ds_newHead (bk_datas b) = 1" "dc_wbuf (ds_chunks (bk_datas b) 0) = []"
      "m [97] = Some a" "av_Body a = replicate 1000 7" "lookup_pos small_env sample_key b = Some (Some meta, pos)" "ChunkID pos = 0"
    using two_chunks by blast
  from gc_cancel_loses_values [OF t(1) small_ok(1) order_refl order_refl _ t(3) _ _ small_ok(2) t(6,7), of ?ge] t show ?thesis by fastforce
qed

theorem gc_keeps_map_witness:
  "\<exists>b d m ge gc b' d' r d'' p. bkt_run small_env {[97], [98]} 0 b d m \<and> gc_run small_env ge 0 0 True b d = Some (gc, b', d') \<and>
     gs_Err gc = None \<and> bkt_get small_env sample_key False b' d' = Some (r, b', d'') \<and> fst r = Some p \<and> pBody p = replicate 1000 7"
proof -
  let ?ge = "\<lparr>ge_op = at_zero, ge_states = (\<lambda>_. 0), ge_create = True, ge_cancel = (\<lambda>_. False)\<rparr>"
  obtain b d m a where t: "bkt_run small_env {[97], [98]} 0 b d m" "ds_newHead (bk_datas b) = 1" "dc_wbuf (ds_chunks (bk_datas b) 0) = []"
      "m [97] = Some a" "av_Body a = replicate 1000 7" using two_chunks by blast
  have f: "\<forall>c. 0 \<le> c \<and> c \<le> 0 \<longrightarrow> dc_wbuf (ds_chunks (bk_datas b) c) = []" using t(3) by (metis order_antisym)
  have k: "Key sample_key = [97]" by (simp add: sample_key_def)
  from gc_keeps_map [OF t(1) small_ok(1,2) order_refl order_refl _ f, of ?ge True] t(2,4,5) k show ?thesis
    by (simp add: returns_def) (metis t(1))
qed

end
