(* ===== verification/Restart.thy ===== *)
theory Restart
  imports GcSafe
begin

text \<open>
  A bucket after a crash between two steps of its run: what was flushed is found again from the data files alone.
\<close>

unbundle bit_operations_syntax

text \<open>Only the comparison of value hashes lets the version of a key differ from that of its record.\<close>

lemma bkt_run_recorded: "bkt_run e K bid b d m \<Longrightarrow> \<not> CheckVHash (conf e) \<Longrightarrow> \<forall>k a. m k = Some a \<longrightarrow> av_Rec a = av_Ver a"
proof (induction rule: bkt_run.induct)
  case (brun_set b d m ki v oe err b' d')
  then show ?case by (auto simp: spec_set_def Let_def split: prod.splits bool.splits if_splits)
qed (auto simp: reopened_def split: option.splits if_splits)

text \<open>C3: a crash loses nothing that was flushed.  After any sequence of steps of a run (\<open>bkt_run\<close>), when the process stops and all that is left of a bucket is its data files (no
  hints, no trees, and what was in the write buffers is lost), a new bucket opens on them without error or panic, and \<open>get\<close> returns for every
  key that has no record in the write buffers the time, flag and body of its value with the version of its record, or nothing if the record is a deletion; this also holds after garbage collections that moved the
  records.  The version of the record is the one the key had, unless \<open>CheckVHash\<close> is set: then a set of a value with an equal hash may have given it a newer one in the tree only.  When no key has a record
  in the buffers the whole map is kept (\<open>reopened\<close>) and the bucket runs on.  Keys have different hashes and at most 255 bytes, and the last chunk numbers are not in use.  The crash falls between two steps: one in the middle of a flush or a collection, which can leave
  a file that ends inside a record, is not covered.\<close>

theorem crash_keeps_flushed:
  assumes "bkt_run e K bid b d m" and "bkt_limits e K" and "\<forall>k \<in> K. length k < 256"
    and "\<forall>c. dc_file (ds_chunks (bk_datas b) c) \<noteq> None \<longrightarrow> c + 1 < MAX_NUM_CHUNK"
    and "op_now oe \<noteq> 0" and "0 \<le> bid" and "bid < 16 ^ TreeDepth (conf e)" and "bkt_key e K bid ki" and "unbuffered b (Key ki)"
  shows "\<exists>b' d' r d''. bkt_open e oe threshold bid (data_home b) d0 = Some (None, Some b', d') \<and>
    bkt_get e ki False b' d' = Some (r, b', d'') \<and> returns (reopened m (Key ki)) r \<and>
    ((\<forall>k \<in> K. unbuffered b k) \<longrightarrow> bkt_run e K bid b' d' (reopened m)) \<and>
    (\<forall>a. m (Key ki) = Some a \<and> \<not> CheckVHash (conf e) \<longrightarrow> av_Rec a = av_Ver a)"
proof -
  have q: "qlz_ok e" "mem_ok e" using assms(2) by (simp_all add: bkt_limits_def)
  obtain b' d' m' where o: "bkt_open e oe threshold bid (data_home b) d0 = Some (None, Some b', d')" "bkt_rep e K bid b' m'"
      "\<forall>k \<in> K. unbuffered b k \<longrightarrow> m' k = reopened m k"
    using bkt_reopen_rep [OF bkt_run_rep [OF assms(1,2)] assms(2-7), of threshold d0] by blast
  have "m' (Key ki) = reopened m (Key ki)" using o(3) assms(8,9) by (simp add: bkt_key_def)
  with bkt_get_full [OF o(2) assms(8) q, of d'] brun_restart [OF assms(1,3-7) _ o(1)] bkt_run_recorded [OF assms(1)] o(1) show ?thesis by auto
qed

section \<open>A concrete crash\<close>

lemma flush_others:
  assumes "ds_flush c True recent ds d = Some (ds', d')" "0 \<le> c" "i \<noteq> c"
  shows "ds_chunks ds' i = ds_chunks ds i"
  using assms by (auto simp: ds_flush_def Let_def split: if_splits bind_splits prod.splits)

lemma flushed_bucket:
  "\<exists>b d a. bkt_run small_env {[97], [98]} 0 b d [[97] \<mapsto> a] \<and> av_Body a = replicate 1000 7 \<and> av_Ver a = 1 \<and> unbuffered b [97] \<and>
     (\<forall>c. dc_file (ds_chunks (bk_datas b) c) \<noteq> None \<longrightarrow> c + 1 < MAX_NUM_CHUNK)"
proof -
  let ?e = small_env and ?K = "{[97], [98]} :: bytes set"
  have k: "Key sample_key = [97]" by (simp add: sample_key_def)
  obtain b0 where b0: "bkt_open ?e at_zero 0 0 empty_home ResetAll = Some (None, Some b0, ResetAll)" "bk_datas b0 = NewdataStore (\<lambda>_. None)"
    using bkt_open_empty [OF small_ok(1)] by blast
  then have z: "ds_newHead (bk_datas b0) = 0" "ds_wbufSize (bk_datas b0) = 0" "dc_writingHead (ds_chunks (bk_datas b0) 0) = 0"
      "\<And>c. ds_chunks (bk_datas b0) c = new_chunk c None"
    by (simp_all add: NewdataStore_def) (simp add: new_chunk_def)
  note run0 = brun_open [OF b0(1), of ?K]
  obtain b1 d1 a pos1 bg1 wk1 e1 f1 where 1: "bkt_run ?e ?K 0 b1 d1 [[97] \<mapsto> a]" "av_Body a = replicate 1000 7" "av_Ver a = 1"
      "ds_AppendRecord ?e \<lparr>rKey = [97], rPayload = (CalcValueHash big_value)\<lparr>Ver := 1\<rparr>\<rparr> (bk_datas b0) e1 = Some (pos1, bg1, wk1, bk_datas b1, f1)"
    using big_set [OF run0 small_ok(2) k _ small_ok(4) z(1)] by auto
  have h1: "ds_newHead (bk_datas b1) = 0" "ds_wbufSize (bk_datas b1) = 1280" "\<And>c. c \<noteq> 0 \<Longrightarrow> ds_chunks (bk_datas b1) c = new_chunk c None"
    using big_append [OF 1(4)] z by auto
  have "\<exists>L Q. ds_inv ?e [] (bk_datas b1) Idle L Q Q" using bkt_run_rep [OF 1(1) small_ok(1)] by (auto simp: bkt_rep_def)
  moreover have "chunk_in_range 0" by (simp add: chunk_in_range_def MAX_NUM_CHUNK_def)
  ultimately obtain ds d3 where f: "ds_flush 0 True False (bk_datas b1) d1 = Some (ds, d3)"
    using ds_flush_total [of ?e "[]" "bk_datas b1" _ _ _ 0 True False d1] by (metis not_None_eq surj_pair)
  have c: "dc_wbuf (ds_chunks ds 0) = []" "\<And>c. c \<noteq> 0 \<Longrightarrow> ds_chunks ds c = new_chunk c None"
    using flush_empties [OF f] flush_others [OF f] h1 by simp_all
  have u: "dc_wbuf (ds_chunks ds i) = []" and h: "dc_file (ds_chunks ds i) \<noteq> None \<Longrightarrow> i + 1 < MAX_NUM_CHUNK" for i
    using c(1) c(2) [of i] by (cases "i = 0"; simp add: new_chunk_def MAX_NUM_CHUNK_def)+
  have "unbuffered (b1\<lparr>bk_datas := ds\<rparr>) [97]" by (simp add: unbuffered_def u)
  with brun_flush [OF 1(1) f] 1(2,3) h show ?thesis
    by (intro exI [of _ "b1\<lparr>bk_datas := ds\<rparr>"] exI [of _ d3] exI [of _ a]) simp
qed

theorem crash_keeps_flushed_witness:
  "\<exists>b d m b' d' r d'' p. bkt_run small_env {[97], [98]} 0 b d m \<and>
     bkt_open small_env (at_zero\<lparr>op_now := 1\<rparr>) 0 0 (data_home b) ResetAll = Some (None, Some b', d') \<and>
     bkt_get small_env sample_key False b' d' = Some (r, b', d'') \<and> fst r = Some p \<and> pBody p = replicate 1000 7 \<and> Ver p = 1"
proof -
  obtain b d a where t: "bkt_run small_env {[97], [98]} 0 b d [[97] \<mapsto> a]" "av_Body a = replicate 1000 7" "av_Ver a = 1" "unbuffered b [97]"
      "\<forall>c. dc_file (ds_chunks (bk_datas b) c) \<noteq> None \<longrightarrow> c + 1 < MAX_NUM_CHUNK" using flushed_bucket by blast
  have c: "(0 :: int) < 16 ^ TreeDepth (conf small_env)" "Key sample_key = [97]"
      "\<forall>k \<in> {[97], [98]} :: bytes set. length k < 256" "op_now (at_zero\<lparr>op_now := 1\<rparr>) \<noteq> 0"
    by (simp_all add: small_env_def sample_conf_def sample_key_def)
  have u: "unbuffered b (Key sample_key)" using t(4) c(2) by simp
  have "av_Rec a = 1" using bkt_run_recorded [OF t(1)] t(3) by (simp add: small_env_def sample_conf_def)
  then have "reopened [[97] \<mapsto> a] [97] = Some (a\<lparr>av_Ver := av_Rec a, av_Vhash := Getvhash (av_Body a)\<rparr>)" using t(3) by (simp add: reopened_def word_sless_alt)
  with crash_keeps_flushed [OF t(1) small_ok(1) c(3) t(5) c(4) order_refl c(1) small_ok(2) u, of 0 ResetAll] t(1-3) c(2) \<open>av_Rec a = 1\<close> show ?thesis
    by (fastforce simp: returns_def)
qed

end
