(* ===== verification/Token.thy ===== *)
theory Token
  imports Cmem Strconv
begin

text \<open>
  The request limiter (\<open>memcache/token.go\<close>) and the request objects it hands tokens to (\<open>memcache/protocol.go\<close>).  A channel of
  \<open>n\<close> tokens bounds the number of requests that hold one: \<open>Get\<close> counts the request as waiting, blocks until it receives a token and then
  takes it off the count and enters it in the tables; \<open>Put\<close> sends the token back.  Only get, gets, the store commands, incr and decr take a token; the
  other commands are served without.  The connections run concurrently, so the limiter is a step relation over the state of all
  of them: a connection enters the queue, receives a token, is entered in the tables, and releases it, or serves a command without a token; receiving from an
  empty channel and sending to a full one do not return (\<open>None\<close>), nor does an index out of range or a nil owner.  Times are integers.
  The lemmas show that tokens are never duplicated or lost, that releasing one never blocks
  or panics, that a waiting connection can always be served, and that the requests served without a token are not bounded.
\<close>

section \<open>Definitions\<close>

record mcItem =
  mi_ReceiveTime :: int
  mi_Flag :: int
  mi_Exptime :: int
  mi_Cas :: int
  mi_CArray :: CArray

record Request =
  rq_ReceiveTime :: int
  rq_Cmd :: string
  rq_Keys :: "string list"
  rq_Item :: "mcItem option"
  rq_NoReply :: bool
  rq_Token :: nat
  rq_Working :: bool

record ReqHistoy =
  rh_Cmd :: string
  rh_Keys :: "string list"
  rh_WaitTime :: int
  rh_ServeStart :: int
  rh_ServeTime :: int
  rh_Stat :: string
  rh_StatStart :: int
  rh_Working :: bool

definition zero_history :: ReqHistoy where
  "zero_history = \<lparr>rh_Cmd = [], rh_Keys = [], rh_WaitTime = 0, rh_ServeStart = 0, rh_ServeTime = 0, rh_Stat = [],
     rh_StatStart = 0, rh_Working = False\<rparr>"

text \<open>Owners are the connections whose request holds the token; the capacity of the channel is their number.\<close>

record ReqLimiter =
  tk_Chan :: "nat list"
  tk_Owners :: "nat option list"
  tk_Histories :: "ReqHistoy list"
  tk_NumWait :: i32
  tk_MaxWait :: int

definition NewReqLimiter :: "nat \<Rightarrow> ReqLimiter" where
  "NewReqLimiter n = \<lparr>tk_Chan = [0..<n], tk_Owners = replicate n None, tk_Histories = replicate n zero_history,
     tk_NumWait = 0, tk_MaxWait = 0\<rparr>"

text \<open>\<open>InitTokens\<close>; a negative number of tokens makes the channel panic.\<close>

definition InitTokens :: "MCConfig \<Rightarrow> ReqLimiter option" where
  "InitTokens mc = (let n = (if MaxReq mc = 0 then 16 else MaxReq mc) in if n < 0 then None else Some (NewReqLimiter (nat n)))"

text \<open>The parts of \<open>Get\<close>: the request is counted as waiting, it receives a token, and (\<open>st\<close> is the time \<open>Get\<close> was called, \<open>ed\<close> the time
  the token arrived) it is taken off the count and entered in the tables.\<close>

definition tk_enter :: "ReqLimiter \<Rightarrow> ReqLimiter" where
  "tk_enter rl = rl\<lparr>tk_NumWait := tk_NumWait rl + 1\<rparr>"

definition tk_receive :: "Request \<Rightarrow> ReqLimiter \<Rightarrow> (Request \<times> ReqLimiter) option" where
  "tk_receive req rl =
     (case tk_Chan rl of
        [] \<Rightarrow> None
      | t # ts \<Rightarrow> Some (req\<lparr>rq_Token := t, rq_Working := True\<rparr>, rl\<lparr>tk_Chan := ts\<rparr>))"

definition tk_begin :: "int \<Rightarrow> int \<Rightarrow> nat \<Rightarrow> Request \<Rightarrow> ReqLimiter \<Rightarrow> ReqLimiter option" where
  "tk_begin st ed i req rl = do {
     let t = rq_Token req;
     let d = ed - st;
     let his = zero_history\<lparr>rh_Cmd := rq_Cmd req, rh_Keys := rq_Keys req, rh_ServeStart := ed, rh_WaitTime := d,
         rh_Working := True\<rparr>;
     hs \<leftarrow> upd_opt (tk_Histories rl) t his;
     os \<leftarrow> upd_opt (tk_Owners rl) t (Some i);
     Some (rl\<lparr>tk_NumWait := tk_NumWait rl - 1, tk_Histories := hs,
              tk_MaxWait := if d > tk_MaxWait rl then d else tk_MaxWait rl, tk_Owners := os\<rparr>)
   }"

definition tk_take :: "int \<Rightarrow> int \<Rightarrow> nat \<Rightarrow> Request \<Rightarrow> ReqLimiter \<Rightarrow> (Request \<times> ReqLimiter) option" where
  "tk_take st ed i req rl = do {
     (req1, rl1) \<leftarrow> tk_receive req rl;
     rl2 \<leftarrow> tk_begin st ed i req1 rl1;
     Some (req1, rl2)
   }"

text \<open>\<open>Put\<close> clears the flag of the owner of the token, which it finds through the table of owners.\<close>

definition tk_Put :: "int \<Rightarrow> nat \<Rightarrow> (nat \<Rightarrow> Request) \<Rightarrow> ReqLimiter \<Rightarrow> ((nat \<Rightarrow> Request) \<times> ReqLimiter) option" where
  "tk_Put now i reqs rl = do {
     let t = rq_Token (reqs i);
     his \<leftarrow> nth_opt (tk_Histories rl) t;
     hs \<leftarrow> upd_opt (tk_Histories rl) t (his\<lparr>rh_ServeTime := now - rh_ServeStart his, rh_Working := False\<rparr>);
     ow \<leftarrow> nth_opt (tk_Owners rl) t;
     who \<leftarrow> ow;
     if length (tk_Chan rl) < length (tk_Owners rl)
     then Some (reqs(who := (reqs who)\<lparr>rq_Working := False\<rparr>), rl\<lparr>tk_Histories := hs, tk_Chan := tk_Chan rl @ [t]\<rparr>)
     else None
   }"

text \<open>\<open>Request.SetStat\<close>.\<close>

definition SetStat :: "int \<Rightarrow> string \<Rightarrow> Request \<Rightarrow> ReqLimiter \<Rightarrow> ReqLimiter option" where
  "SetStat now stat req rl = do {
     his \<leftarrow> nth_opt (tk_Histories rl) (rq_Token req);
     hs \<leftarrow> upd_opt (tk_Histories rl) (rq_Token req) (his\<lparr>rh_Stat := stat, rh_StatStart := now\<rparr>);
     Some (rl\<lparr>tk_Histories := hs\<rparr>)
   }"

definition req_Clear :: "Request \<Rightarrow> Request" where
  "req_Clear req = req\<lparr>rq_NoReply := False, rq_Item := None\<rparr>"

text \<open>The state of all connections: idle, in the queue, holding a token that is not yet in the tables, served with a token, and served
  without one.  A connection that is idle may read a new command into its request.\<close>

datatype phase = Idle | Waiting int | Received int | Serving | Tokenless

record TokenSys =
  ts_rl :: ReqLimiter
  ts_reqs :: "nat \<Rightarrow> Request"
  ts_phase :: "nat \<Rightarrow> phase"

definition token_init :: "nat \<Rightarrow> (nat \<Rightarrow> Request) \<Rightarrow> TokenSys" where
  "token_init n reqs = \<lparr>ts_rl = NewReqLimiter n, ts_reqs = reqs, ts_phase = (\<lambda>_. Idle)\<rparr>"

definition new_command :: "Request \<Rightarrow> Request \<Rightarrow> bool" where
  "new_command r old \<longleftrightarrow> rq_Working r = rq_Working old \<and> rq_Token r = rq_Token old"

inductive token_step :: "TokenSys \<Rightarrow> TokenSys \<Rightarrow> bool" where
  enter: "ts_phase s i = Idle \<Longrightarrow> new_command r (ts_reqs s i) \<Longrightarrow>
    token_step s (s\<lparr>ts_rl := tk_enter (ts_rl s), ts_reqs := (ts_reqs s)(i := r), ts_phase := (ts_phase s)(i := Waiting st)\<rparr>)"
| receive: "ts_phase s i = Waiting st \<Longrightarrow> tk_receive (ts_reqs s i) (ts_rl s) = Some (r, rl) \<Longrightarrow>
    token_step s (s\<lparr>ts_rl := rl, ts_reqs := (ts_reqs s)(i := r), ts_phase := (ts_phase s)(i := Received st)\<rparr>)"
| enter_tables: "ts_phase s i = Received st \<Longrightarrow> tk_begin st ed i (ts_reqs s i) (ts_rl s) = Some rl \<Longrightarrow>
    token_step s (s\<lparr>ts_rl := rl, ts_phase := (ts_phase s)(i := Serving)\<rparr>)"
| stat: "ts_phase s i = Serving \<or> ts_phase s i = Tokenless \<Longrightarrow> SetStat now msg (ts_reqs s i) (ts_rl s) = Some rl \<Longrightarrow>
    token_step s (s\<lparr>ts_rl := rl\<rparr>)"
| release: "ts_phase s i = Serving \<Longrightarrow> rq_Working (ts_reqs s i) \<Longrightarrow> tk_Put now i ((ts_reqs s)(i := req_Clear (ts_reqs s i))) (ts_rl s) = Some (reqs, rl) \<Longrightarrow>
    token_step s (s\<lparr>ts_rl := rl, ts_reqs := reqs, ts_phase := (ts_phase s)(i := Idle)\<rparr>)"
| enter_free: "ts_phase s i = Idle \<Longrightarrow> new_command r (ts_reqs s i) \<Longrightarrow>
    token_step s (s\<lparr>ts_reqs := (ts_reqs s)(i := r), ts_phase := (ts_phase s)(i := Tokenless)\<rparr>)"
| leave_free: "ts_phase s i = Tokenless \<Longrightarrow> \<not> rq_Working (ts_reqs s i) \<Longrightarrow>
    token_step s (s\<lparr>ts_reqs := (ts_reqs s)(i := req_Clear (ts_reqs s i)), ts_phase := (ts_phase s)(i := Idle)\<rparr>)"

inductive token_reach :: "nat \<Rightarrow> TokenSys \<Rightarrow> bool" where
  start: "(\<And>i. \<not> rq_Working (reqs i)) \<Longrightarrow> token_reach n (token_init n reqs)"
| step: "token_reach n s \<Longrightarrow> token_step s s' \<Longrightarrow> token_reach n s'"

definition serving :: "TokenSys \<Rightarrow> nat set" where
  "serving s = {i. ts_phase s i = Serving}"

text \<open>Those that hold a token, those that are inside \<open>Get\<close> up to the end of the count, and those that are served without a token.\<close>

definition holding :: "TokenSys \<Rightarrow> nat set" where
  "holding s = {i. ts_phase s i = Serving \<or> (\<exists>st. ts_phase s i = Received st)}"

definition queued :: "TokenSys \<Rightarrow> nat set" where
  "queued s = {i. \<exists>st. ts_phase s i = Waiting st \<or> ts_phase s i = Received st}"

definition untracked :: "TokenSys \<Rightarrow> nat set" where
  "untracked s = {i. ts_phase s i = Tokenless}"

definition token_of :: "TokenSys \<Rightarrow> nat \<Rightarrow> nat" where
  "token_of s i = rq_Token (ts_reqs s i)"

lemmas phase_sets = serving_def holding_def queued_def untracked_def

definition sample_req :: Request where
  "sample_req = \<lparr>rq_ReceiveTime = 0, rq_Cmd = ''get'', rq_Keys = [''a''], rq_Item = None, rq_NoReply = False, rq_Token = 0, rq_Working = False\<rparr>"

section \<open>The invariant\<close>

lemma tk_take_eq:
  "tk_take st ed i req rl =
     (case tk_Chan rl of
        [] \<Rightarrow> None
      | t # ts \<Rightarrow> do {
          rl2 \<leftarrow> tk_begin st ed i (req\<lparr>rq_Token := t, rq_Working := True\<rparr>) (rl\<lparr>tk_Chan := ts\<rparr>);
          Some (req\<lparr>rq_Token := t, rq_Working := True\<rparr>, rl2)
        })"
  by (simp add: tk_take_def tk_receive_def split: list.split)

definition token_inv :: "nat \<Rightarrow> TokenSys \<Rightarrow> bool" where
  "token_inv n s \<longleftrightarrow>
     length (tk_Owners (ts_rl s)) = n \<and> length (tk_Histories (ts_rl s)) = n \<and>
     finite (holding s) \<and> finite (queued s) \<and> inj_on (token_of s) (holding s) \<and>
     distinct (tk_Chan (ts_rl s)) \<and> set (tk_Chan (ts_rl s)) \<inter> token_of s ` holding s = {} \<and>
     set (tk_Chan (ts_rl s)) \<union> token_of s ` holding s = {..<n} \<and>
     (\<forall>i. rq_Working (ts_reqs s i) \<longleftrightarrow> i \<in> holding s) \<and>
     (\<forall>i \<in> serving s. tk_Owners (ts_rl s) ! token_of s i = Some i) \<and>
     tk_NumWait (ts_rl s) = of_nat (card (queued s))"

lemma serving_holding: "serving s \<subseteq> holding s"
  by (auto simp: phase_sets)

lemma token_inv_init: "(\<And>i. \<not> rq_Working (reqs i)) \<Longrightarrow> token_inv n (token_init n reqs)"
  by (auto simp: token_inv_def token_init_def NewReqLimiter_def phase_sets)

lemma token_inv_enter:
  assumes "token_inv n s" "ts_phase s i = Idle" "new_command r (ts_reqs s i)"
  shows "token_inv n (s\<lparr>ts_rl := tk_enter (ts_rl s), ts_reqs := (ts_reqs s)(i := r), ts_phase := (ts_phase s)(i := Waiting st)\<rparr>)"
    (is "token_inv n ?s")
proof -
  have "holding ?s = holding s" "serving ?s = serving s" "queued ?s = insert i (queued s)" "i \<notin> queued s" "i \<notin> holding s" "token_of ?s = token_of s"
    using assms(2,3) by (auto simp: phase_sets token_of_def fun_eq_iff new_command_def)
  then show ?thesis using assms(1,3) by (auto simp: token_inv_def tk_enter_def new_command_def)
qed

lemma token_inv_receive:
  assumes "token_inv n s" "ts_phase s i = Waiting st" "tk_receive (ts_reqs s i) (ts_rl s) = Some (r, rl)"
  shows "token_inv n (s\<lparr>ts_rl := rl, ts_reqs := (ts_reqs s)(i := r), ts_phase := (ts_phase s)(i := Received st)\<rparr>)"
    (is "token_inv n ?s")
proof -
  note I = assms(1) [unfolded token_inv_def]
  obtain t ts where c: "tk_Chan (ts_rl s) = t # ts" using assms(3) by (cases "tk_Chan (ts_rl s)") (auto simp: tk_receive_def)
  then have t: "t < n" "t \<notin> token_of s ` holding s" "t \<notin> set ts" using I by auto
  have r: "rq_Token r = t" "rq_Working r" "rl = (ts_rl s)\<lparr>tk_Chan := ts\<rparr>" using assms(3) c by (auto simp: tk_receive_def)
  have i: "i \<notin> holding s" "i \<in> queued s" using assms(2) by (auto simp: phase_sets)
  have sets: "holding ?s = insert i (holding s)" "queued ?s = queued s" "serving ?s = serving s"
    using assms(2) by (auto simp: phase_sets)
  have tok: "token_of ?s j = (if j = i then t else token_of s j)" for j using r(1) by (simp add: token_of_def)
  have img: "token_of ?s ` holding ?s = insert t (token_of s ` holding s)"
    unfolding sets using i(1) tok by (auto simp: image_iff)
  have inj: "inj_on (token_of ?s) (holding ?s)"
    unfolding sets using I i(1) t(2) tok by (auto simp: inj_on_def)
  have "\<forall>j \<in> serving ?s. tk_Owners rl ! token_of ?s j = Some j"
    unfolding sets using I i(1) r(3) tok serving_holding [of s] by auto
  then show ?thesis
    using I r t i inj img sets c unfolding token_inv_def by auto
qed

lemma token_inv_begin:
  assumes "token_inv n s" "ts_phase s i = Received st" "tk_begin st ed i (ts_reqs s i) (ts_rl s) = Some rl"
  shows "token_inv n (s\<lparr>ts_rl := rl, ts_phase := (ts_phase s)(i := Serving)\<rparr>)" (is "token_inv n ?s")
proof -
  note I = assms(1) [unfolded token_inv_def]
  let ?t = "token_of s i"
  have i: "i \<in> holding s" "i \<in> queued s" "i \<notin> serving s" using assms(2) by (auto simp: phase_sets)
  have t: "?t < n" using I i(1) by blast
  have r: "tk_Chan rl = tk_Chan (ts_rl s)" "tk_Owners rl = (tk_Owners (ts_rl s))[?t := Some i]" "length (tk_Histories rl) = n"
    "tk_NumWait rl = tk_NumWait (ts_rl s) - 1"
    using assms(3) t I by (auto simp: tk_begin_def Let_def token_of_def)
  have sets: "holding ?s = holding s" "queued ?s = queued s - {i}" "serving ?s = insert i (serving s)" "token_of ?s = token_of s"
    using i by (auto simp: phase_sets token_of_def fun_eq_iff)
  have "card (queued ?s) = card (queued s) - 1" "0 < card (queued s)" unfolding sets using I i(2) by (auto simp: card_gt_0_iff)
  then have nw: "tk_NumWait rl = of_nat (card (queued ?s))" using r(4) I by (simp add: of_nat_diff)
  have other: "token_of s j \<noteq> ?t" if "j \<in> serving s" for j
    using I i(1,3) that serving_holding [of s] by (auto dest: inj_onD)
  have "\<forall>j \<in> serving ?s. tk_Owners rl ! token_of ?s j = Some j"
    unfolding sets r(2)
  proof
    fix j assume "j \<in> insert i (serving s)"
    then show "(tk_Owners (ts_rl s))[?t := Some i] ! token_of s j = Some j" using I t other [of j] by (cases "j = i") (simp_all add: nth_list_update)
  qed
  then show ?thesis using I r sets nw unfolding token_inv_def by auto
qed

lemma token_inv_release:
  assumes "token_inv n s" "ts_phase s i = Serving"
  shows "\<exists>reqs rl. tk_Put now i ((ts_reqs s)(i := req_Clear (ts_reqs s i))) (ts_rl s) = Some (reqs, rl) \<and>
    token_inv n (s\<lparr>ts_rl := rl, ts_reqs := reqs, ts_phase := (ts_phase s)(i := Idle)\<rparr>)"
proof -
  note I = assms(1) [unfolded token_inv_def]
  let ?t = "token_of s i"
  have i: "i \<in> holding s" "i \<in> serving s" "i \<notin> queued s" using assms(2) by (auto simp: phase_sets)
  then have t: "?t < n" "?t \<notin> set (tk_Chan (ts_rl s))" using I by auto
  have "length (tk_Chan (ts_rl s)) = card (set (tk_Chan (ts_rl s)))" using I by (simp add: distinct_card)
  also have "\<dots> < card {..<n}" using I t by (intro psubset_card_mono) auto
  finally have room: "length (tk_Chan (ts_rl s)) < n" by simp
  define reqs where "reqs = (ts_reqs s)(i := (req_Clear (ts_reqs s i))\<lparr>rq_Working := False\<rparr>)"
  have ow: "tk_Owners (ts_rl s) ! rq_Token (ts_reqs s i) = Some i" using I i(2) by (simp add: token_of_def)
  obtain rl where p: "tk_Put now i ((ts_reqs s)(i := req_Clear (ts_reqs s i))) (ts_rl s) = Some (reqs, rl)"
    and rl: "tk_Chan rl = tk_Chan (ts_rl s) @ [?t]" "tk_Owners rl = tk_Owners (ts_rl s)" "length (tk_Histories rl) = n"
      "tk_NumWait rl = tk_NumWait (ts_rl s)"
    using I ow t(1) room by (auto simp: tk_Put_def token_of_def req_Clear_def reqs_def Let_def)
  let ?s = "s\<lparr>ts_rl := rl, ts_reqs := reqs, ts_phase := (ts_phase s)(i := Idle)\<rparr>"
  have sets: "holding ?s = holding s - {i}" "queued ?s = queued s" "serving ?s = serving s - {i}"
    using i(3) by (auto simp: phase_sets)
  have tok: "token_of ?s = token_of s" by (auto simp: token_of_def reqs_def req_Clear_def fun_eq_iff)
  have img: "token_of s ` (holding s - {i}) = token_of s ` holding s - {?t}"
    using I i(1) by (auto simp: inj_on_def)
  have "token_inv n ?s"
    unfolding token_inv_def sets tok img using I rl i t by (auto simp: reqs_def req_Clear_def inj_on_def)
  with p show ?thesis by blast
qed

lemma token_inv_stat:
  assumes "token_inv n s" "SetStat now msg (ts_reqs s i) (ts_rl s) = Some rl"
  shows "token_inv n (s\<lparr>ts_rl := rl\<rparr>)"
proof -
  have "holding (s\<lparr>ts_rl := rl\<rparr>) = holding s" "queued (s\<lparr>ts_rl := rl\<rparr>) = queued s" "serving (s\<lparr>ts_rl := rl\<rparr>) = serving s"
    "token_of (s\<lparr>ts_rl := rl\<rparr>) = token_of s"
    by (auto simp: phase_sets token_of_def fun_eq_iff)
  then show ?thesis using assms by (auto simp: token_inv_def SetStat_def upd_opt_def split: bind_splits if_splits)
qed

text \<open>A command without a token changes neither the tokens nor the counts.\<close>

lemma token_inv_free:
  assumes "token_inv n s" "ts_phase s i = Idle \<or> ts_phase s i = Tokenless" "new_command r (ts_reqs s i)" "ph = Idle \<or> ph = Tokenless"
  shows "token_inv n (s\<lparr>ts_reqs := (ts_reqs s)(i := r), ts_phase := (ts_phase s)(i := ph)\<rparr>)" (is "token_inv n ?s")
proof -
  have "holding ?s = holding s" "queued ?s = queued s" "serving ?s = serving s" "token_of ?s = token_of s"
    using assms(2-4) by (auto simp: phase_sets token_of_def fun_eq_iff new_command_def)
  then show ?thesis using assms(1,3) by (auto simp: token_inv_def new_command_def)
qed

lemma token_reach_inv: "token_reach n s \<Longrightarrow> token_inv n s"
proof (induction rule: token_reach.induct)
  case (start reqs n)
  then show ?case by (rule token_inv_init)
next
  case (step n s s')
  from step.hyps(2) step.IH show ?case
  proof (cases rule: token_step.cases)
    case (release i now reqs rl)
    then show ?thesis using token_inv_release [of n s i now] step.IH by auto
  next
    case (leave_free i)
    moreover have "new_command (req_Clear (ts_reqs s i)) (ts_reqs s i)" by (simp add: new_command_def req_Clear_def)
    ultimately show ?thesis using token_inv_free [of n s i] step.IH by blast
  qed (auto intro: token_inv_enter token_inv_receive token_inv_begin token_inv_stat token_inv_free)
qed

text \<open>C25: the tokens.  However the connections interleave, at most as many of them hold a token as there are tokens, no two hold
  the same one, the channel holds exactly the others, \<open>NumWait\<close> is the number of connections that called \<open>Get\<close> and have not yet taken themselves off the count (modulo
  its 32 bits): those that wait, and those that have received a token just before; and releasing a token never blocks or panics.  The requests
  bounded are those that take a token: get, gets, the store commands, incr and decr.\<close>

theorem tokens_bound_holders:
  assumes "token_reach n s"
  shows "finite (holding s) \<and> card (holding s) \<le> n \<and> inj_on (token_of s) (holding s) \<and>
    length (tk_Chan (ts_rl s)) + card (holding s) = n \<and> tk_NumWait (ts_rl s) = of_nat (card (queued s)) \<and>
    (\<forall>i \<in> serving s. \<forall>now. tk_Put now i ((ts_reqs s)(i := req_Clear (ts_reqs s i))) (ts_rl s) \<noteq> None)"
proof -
  have "tk_Put now i ((ts_reqs s)(i := req_Clear (ts_reqs s i))) (ts_rl s) \<noteq> None" if "i \<in> serving s" for i now
    using token_inv_release [OF token_reach_inv [OF assms], of i now] that by (auto simp: serving_def)
  note put = this
  note I = token_reach_inv [OF assms, unfolded token_inv_def]
  have "length (tk_Chan (ts_rl s)) = card (set (tk_Chan (ts_rl s)))" using I by (simp add: distinct_card)
  moreover have "card (holding s) = card (token_of s ` holding s)" using I by (simp add: card_image)
  moreover have "card (set (tk_Chan (ts_rl s))) + card (token_of s ` holding s) = card {..<n}"
    using I by (subst card_Un_disjoint [symmetric]) auto
  ultimately show ?thesis using I put by auto
qed

text \<open>The steps that make progress: a received token is entered in the tables, and a held one can be released.\<close>

lemma can_begin:
  assumes "token_inv n s" "ts_phase s i = Received st"
  shows "\<exists>s'. token_step s s' \<and> token_inv n s' \<and> ts_phase s' = (ts_phase s)(i := Serving)"
proof -
  have "i \<in> holding s" using assms(2) by (auto simp: phase_sets)
  then have "rq_Token (ts_reqs s i) < n" "length (tk_Owners (ts_rl s)) = n" "length (tk_Histories (ts_rl s)) = n"
    using assms(1) by (auto simp: token_inv_def token_of_def)
  then obtain rl where b: "tk_begin st st i (ts_reqs s i) (ts_rl s) = Some rl" by (auto simp: tk_begin_def Let_def)
  show ?thesis using token_step.enter_tables [OF assms(2) b] token_inv_begin [OF assms b] by (intro exI conjI) (assumption, assumption, simp)
qed

lemma can_release:
  assumes "token_inv n s" "ts_phase s i = Serving"
  shows "\<exists>s'. token_step s s' \<and> token_inv n s' \<and> ts_phase s' = (ts_phase s)(i := Idle) \<and> tk_Chan (ts_rl s') \<noteq> []"
proof -
  obtain reqs rl where p: "tk_Put 0 i ((ts_reqs s)(i := req_Clear (ts_reqs s i))) (ts_rl s) = Some (reqs, rl)"
    "token_inv n (s\<lparr>ts_rl := rl, ts_reqs := reqs, ts_phase := (ts_phase s)(i := Idle)\<rparr>)" (is "token_inv n ?s")
    using token_inv_release [OF assms] by blast
  have w: "rq_Working (ts_reqs s i)" using assms by (simp add: token_inv_def phase_sets)
  have "tk_Chan (ts_rl ?s) \<noteq> []" using p(1) by (auto simp: tk_Put_def Let_def split: bind_splits if_splits)
  then show ?thesis using token_step.release [OF assms(2) w p(1)] p(2) by (intro exI conjI) (assumption, assumption, simp_all)
qed

lemma can_receive:
  assumes "token_inv n s" "ts_phase s i = Waiting st" "tk_Chan (ts_rl s) \<noteq> []"
  shows "\<exists>s'. (token_step ^^ 2) s s' \<and> ts_phase s' i = Serving"
proof -
  obtain r rl where t: "tk_receive (ts_reqs s i) (ts_rl s) = Some (r, rl)" using assms(3) by (auto simp: tk_receive_def neq_Nil_conv)
  note s1 = token_step.receive [OF assms(2) t] and i1 = token_inv_receive [OF assms(1,2) t]
  from can_begin [OF i1, of i st] obtain s2 where "token_step (s\<lparr>ts_rl := rl, ts_reqs := (ts_reqs s)(i := r), ts_phase := (ts_phase s)(i := Received st)\<rparr>) s2"
    "ts_phase s2 i = Serving" by auto
  with s1 show ?thesis by (auto simp: numeral_2_eq_2 intro!: relcomppI exI [of _ s2])
qed

text \<open>C27: a waiting connection is never stuck: with at least one token, in at most four steps (another connection enters the token it received in the tables, releases it,
  and the waiting one receives it and is entered) it is served.\<close>

theorem waiting_can_be_served:
  assumes "token_reach n s" and "0 < n" and "ts_phase s i = Waiting st"
  shows "\<exists>k s'. k \<le> 4 \<and> (token_step ^^ k) s s' \<and> ts_phase s' i = Serving"
proof -
  have I: "token_inv n s" by (rule token_reach_inv [OF assms(1)])
  have rel: "\<exists>k s'. k \<le> 3 \<and> (token_step ^^ k) s1 s' \<and> ts_phase s' i = Serving"
    if a: "token_inv n s1" "ts_phase s1 j = Serving" "ts_phase s1 i = Waiting st" for s1 j
  proof -
    obtain s2 where s2: "token_step s1 s2" "token_inv n s2" "ts_phase s2 = (ts_phase s1)(j := Idle)" "tk_Chan (ts_rl s2) \<noteq> []"
      using can_release [OF a(1,2)] by blast
    then have "ts_phase s2 i = Waiting st" using a(2,3) by auto
    from can_receive [OF s2(2) this s2(4)] obtain s3 where "(token_step ^^ 2) s2 s3" "ts_phase s3 i = Serving" by blast
    then show ?thesis using relpowp_Suc_I2 [of token_step s1 s2 2 s3] s2(1) by (intro exI [of _ 3] exI [of _ s3]) (simp add: numeral_3_eq_3 numeral_2_eq_2)
  qed
  show ?thesis
  proof (cases "tk_Chan (ts_rl s) = []")
    case False
    then show ?thesis using can_receive [OF I assms(3)] by (intro exI [of _ 2]) auto
  next
    case True
    then have "token_of s ` holding s = {..<n}" using I by (simp add: token_inv_def)
    then obtain j where "j \<in> holding s" using assms(2) by auto
    then consider "ts_phase s j = Serving" | st' where "ts_phase s j = Received st'" by (auto simp: phase_sets)
    then show ?thesis
    proof cases
      case 1
      from rel [OF I this assms(3)] obtain k s' where "k \<le> 3" "(token_step ^^ k) s s'" "ts_phase s' i = Serving" by blast
      then show ?thesis by (intro exI [of _ k] exI [of _ s']) simp
    next
      case 2
      obtain s1 where s1: "token_step s s1" "token_inv n s1" "ts_phase s1 = (ts_phase s)(j := Serving)" using can_begin [OF I 2] by blast
      then have "ts_phase s1 j = Serving" "ts_phase s1 i = Waiting st" using 2 assms(3) by auto
      from rel [OF s1(2) this] obtain k s' where k: "k \<le> 3" "(token_step ^^ k) s1 s'" "ts_phase s' i = Serving" by blast
      then show ?thesis using relpowp_Suc_I2 [OF s1(1) k(2)] by (intro exI [of _ "Suc k"] exI [of _ s']) simp
    qed
  qed
qed

text \<open>The requests that are served at a time are not bounded by the number of tokens.  The comment of \<open>MaxReq\<close> calls it the maximum of requests served at the
  same time; commands that take no token (delete, stats, version and others) are served beside, so for every number there is a reachable
  state in which that many requests are served at a time.\<close>

theorem served_beyond_limit:
  "\<exists>s. token_reach n s \<and> finite (untracked s) \<and> card (untracked s) = m"
proof -
  have "\<exists>s. token_reach n s \<and> untracked s = {..<m} \<and> (\<forall>i \<ge> m. ts_phase s i = Idle)"
  proof (induction m)
    case 0
    have "token_reach n (token_init n (\<lambda>_. sample_req))" by (rule token_reach.start) (simp add: sample_req_def)
    then show ?case by (intro exI [of _ "token_init n (\<lambda>_. sample_req)"]) (simp add: token_init_def untracked_def)
  next
    case (Suc m)
    then obtain s where s: "token_reach n s" "untracked s = {..<m}" "\<forall>i \<ge> m. ts_phase s i = Idle" by blast
    let ?s = "s\<lparr>ts_reqs := (ts_reqs s)(m := ts_reqs s m), ts_phase := (ts_phase s)(m := Tokenless)\<rparr>"
    have "token_step s ?s" by (rule token_step.enter_free) (use s(3) in \<open>simp_all add: new_command_def\<close>)
    then have "token_reach n ?s" by (rule token_reach.step [OF s(1)])
    moreover have "untracked ?s = insert m (untracked s)" by (auto simp: untracked_def)
    then have "untracked ?s = {..<Suc m}" using s(2) by auto
    ultimately show ?case using s(3) by (intro exI [of _ ?s]) auto
  qed
  then show ?thesis by (metis card_lessThan finite_lessThan)
qed

text \<open>Two connections and one token: the first is served, the second waits.\<close>

lemma sample_tokens:
  "\<exists>s. token_reach 1 s \<and> ts_phase s 0 = Serving \<and> ts_phase s 1 = Waiting 5"
proof -
  let ?s0 = "token_init 1 (\<lambda>_. sample_req)"
  have r0: "token_reach 1 ?s0" by (rule token_reach.start) (simp add: sample_req_def)
  define s1 where "s1 = ?s0\<lparr>ts_rl := tk_enter (ts_rl ?s0), ts_reqs := (ts_reqs ?s0)(0 := sample_req), ts_phase := (ts_phase ?s0)(0 := Waiting 3)\<rparr>"
  have r1: "token_reach 1 s1" unfolding s1_def
    by (rule token_reach.step [OF r0 token_step.enter]) (simp_all add: token_init_def new_command_def)
  obtain r rl where t: "tk_receive (ts_reqs s1 0) (ts_rl s1) = Some (r, rl)"
    by (simp add: s1_def tk_receive_def token_init_def tk_enter_def NewReqLimiter_def)
  define s2 where "s2 = s1\<lparr>ts_rl := rl, ts_reqs := (ts_reqs s1)(0 := r), ts_phase := (ts_phase s1)(0 := Received 3)\<rparr>"
  have r2: "token_reach 1 s2" unfolding s2_def
    by (rule token_reach.step [OF r1 token_step.receive [OF _ t]]) (simp add: s1_def)
  have "ts_phase s2 0 = Received 3" by (simp add: s2_def)
  from can_begin [OF token_reach_inv [OF r2] this] obtain s3 where s3: "token_step s2 s3" "ts_phase s3 = (ts_phase s2)(0 := Serving)" by blast
  have r3: "token_reach 1 s3" by (rule token_reach.step [OF r2 s3(1)])
  have p: "ts_phase s3 1 = Idle" by (simp add: s3(2) s2_def s1_def token_init_def)
  define s4 where "s4 = s3\<lparr>ts_rl := tk_enter (ts_rl s3), ts_reqs := (ts_reqs s3)(1 := ts_reqs s3 1), ts_phase := (ts_phase s3)(1 := Waiting 5)\<rparr>"
  have "token_reach 1 s4" unfolding s4_def
    by (rule token_reach.step [OF r3 token_step.enter [OF p]]) (simp add: new_command_def)
  moreover have "ts_phase s4 0 = Serving" "ts_phase s4 1 = Waiting 5" by (simp_all add: s4_def s3(2))
  ultimately show ?thesis by blast
qed

theorem tokens_bound_holders_witness:
  "\<exists>s. token_reach 1 s \<and> ts_phase s 0 = Serving \<and> ts_phase s 1 = Waiting 5 \<and> card (holding s) \<le> 1 \<and> tk_NumWait (ts_rl s) = of_nat (card (queued s))"
proof -
  obtain s where s: "token_reach 1 s" "ts_phase s 0 = Serving" "ts_phase s 1 = Waiting 5" using sample_tokens by blast
  from tokens_bound_holders [OF s(1)] s show ?thesis by blast
qed

theorem waiting_can_be_served_witness:
  "\<exists>s k s'. token_reach 1 s \<and> ts_phase s 0 = Serving \<and> k \<le> 4 \<and> (token_step ^^ k) s s' \<and> ts_phase s' 1 = Serving"
proof -
  obtain s where s: "token_reach 1 s" "ts_phase s 0 = Serving" "ts_phase s 1 = Waiting 5" using sample_tokens by blast
  from waiting_can_be_served [OF s(1) _ s(3)] s show ?thesis by auto
qed

end
