(* ===== verification/Protocol.thy ===== *)
theory Protocol
  imports Token "HOL-Library.AList"
begin

text \<open>
  The memcache text protocol (\<open>memcache/protocol.go\<close>): reading and writing requests and responses, and processing a request on a storage
  client.  A connection is the text still to be read; the end of the text is the end of the
  connection.  The storage client is a record of functions over a state of its own; what it
  promises is stated as a locale in the theory of the clients.  A Go map of items is an association
  list in the order in which the map is iterated.  The outer \<open>None\<close> is a panic, or a \<open>Get\<close> of a token that blocks.
  The lemmas show that a request that is written is read back, that a response is read
  back, and that what the server reads is accounted for in the memory counters.
\<close>

section \<open>Definitions\<close>

datatype mc_err = ErrInvalidCmd | ErrNonMemcacheCmd | ErrValueTooLarge | ErrKeyLength | ErrBadDataChunk | ErrNetworkError
  | ErrOOM | ErrMsg string

fun err_text :: "mc_err \<Rightarrow> string" where
  "err_text ErrInvalidCmd = ''invalid cmd''"
| "err_text ErrNonMemcacheCmd = ''non memcache command''"
| "err_text ErrValueTooLarge = ''value too large''"
| "err_text ErrKeyLength = ''key length error''"
| "err_text ErrBadDataChunk = ''bad data chunk''"
| "err_text ErrNetworkError = ''network error''"
| "err_text ErrOOM = ''memory shortage''"
| "err_text (ErrMsg s) = s"

definition nl :: char where "nl = CHR 0x0A"
definition crlf :: string where "crlf = [CHR 0x0D, CHR 0x0A]"

definition string_of_bytes :: "bytes \<Rightarrow> string" where
  "string_of_bytes bs = map (\<lambda>b. char_of (unat b)) bs"

text \<open>\<open>ReadString\<close> up to and with a newline.\<close>

definition read_line :: "string \<Rightarrow> (string \<times> string) option" where
  "read_line s = (if nl \<in> set s then Some (takeWhile (\<lambda>c. c \<noteq> nl) s @ [nl], tl (dropWhile (\<lambda>c. c \<noteq> nl) s)) else None)"

definition splitKeys :: "string \<Rightarrow> string list option" where
  "splitKeys s = (if length s < 2 then None else Some (Strconv.fields (take (length s - 2) s)))"

definition zero_item :: mcItem where
  "zero_item = \<lparr>mi_ReceiveTime = 0, mi_Flag = 0, mi_Exptime = 0, mi_Cas = 0, mi_CArray = nil_array\<rparr>"

abbreviation item_body :: "mcItem \<Rightarrow> bytes" where
  "item_body it \<equiv> Body (mi_CArray it)"

subsection \<open>Requests\<close>

definition line_cmds :: "string list" where
  "line_cmds = [''get'', ''gets'', ''delete'', ''quit'', ''version'', ''stats'', ''flush_all'']"

definition store_cmds :: "string list" where
  "store_cmds = [''set'', ''add'', ''replace'', ''cas'', ''prepend'', ''append'']"

definition num_cmds :: "string list" where
  "num_cmds = [''incr'', ''decr'']"

text \<open>\<open>Request.Write\<close> to a writer that does not fail: the text and the error.\<close>

definition noreply_text :: "Request \<Rightarrow> string" where
  "noreply_text req = (if rq_NoReply req then '' noreply'' else [])"

definition req_Write :: "Request \<Rightarrow> (string \<times> mc_err option) option" where
  "req_Write req =
     (if rq_Cmd req \<in> set line_cmds then
        Some (rq_Cmd req @ concat (map (\<lambda>k. '' '' @ k) (rq_Keys req)) @ noreply_text req @ crlf, None)
      else if rq_Cmd req \<in> set store_cmds then do {
        k \<leftarrow> nth_opt (rq_Keys req) 0;
        it \<leftarrow> rq_Item req;
        let n = Itoa (int (length (item_body it)));
        let nums = (if rq_Cmd req = ''cas'' then [Itoa (mi_Flag it), Itoa (mi_Exptime it), Itoa (mi_Cas it), n]
                    else [Itoa (mi_Flag it), Itoa (mi_Exptime it), n]);
        Some (rq_Cmd req @ '' '' @ k @ concat (map (\<lambda>s. '' '' @ s) nums) @ noreply_text req @ crlf
              @ string_of_bytes (item_body it) @ crlf, None)
      }
      else if rq_Cmd req \<in> set num_cmds then do {
        k \<leftarrow> nth_opt (rq_Keys req) 0;
        it \<leftarrow> rq_Item req;
        Some (rq_Cmd req @ '' '' @ k @ '' '' @ string_of_bytes (item_body it) @ noreply_text req @ crlf, None)
      }
      else Some ([], Some (ErrMsg (''unknown cmd: '' @ rq_Cmd req))))"

text \<open>The parsed arguments of a store command up to the value: the request, its length, or the error.  The error of the
  cas number is not looked at.\<close>

definition store_args ::
    "MCConfig \<Rightarrow> BeansdbRL \<Rightarrow> int \<Rightarrow> string list \<Rightarrow> Request \<Rightarrow> (mc_err \<times> Request) + (int \<times> Request)" where
  "store_args mc d now parts req =
     (if length parts < 5 \<or> length parts > 7 then Inl (ErrInvalidCmd, req)
      else
        let it0 = zero_item\<lparr>mi_ReceiveTime := now\<rparr>;
            upd = (\<lambda>it. req\<lparr>rq_Keys := [parts ! 1], rq_Item := Some it\<rparr>);
            (flag, e1) = Atoi (parts ! 2); it1 = it0\<lparr>mi_Flag := flag\<rparr>;
            (exptime, e2) = Atoi (parts ! 3); it2 = it1\<lparr>mi_Exptime := exptime\<rparr>;
            (len, e3) = Atoi (parts ! 4)
        in if e1 \<noteq> None then Inl (ErrInvalidCmd, upd it1)
           else if e2 \<noteq> None then Inl (ErrInvalidCmd, upd it2)
           else if e3 \<noteq> None then Inl (ErrInvalidCmd, upd it2)
           else if \<not> IsValidValueSize mc (word_of_int len) then Inl (ErrValueTooLarge, upd it2)
           else if len > BodyBig mc \<and> rl_Size (FlushData d) > FlushMax mc then Inl (ErrOOM, upd it2)
           else if rq_Cmd req = ''cas'' then
             (if length parts < 6 then Inl (ErrInvalidCmd, upd it2)
              else let it3 = it2\<lparr>mi_Cas := fst (Atoi (parts ! 5))\<rparr> in
                if length parts > 6 \<and> parts ! 6 \<noteq> ''noreply'' then Inl (ErrInvalidCmd, upd it3)
                else Inr (len, (upd it3)\<lparr>rq_NoReply := length parts > 6 \<and> parts ! 6 = ''noreply''\<rparr>))
           else
             (if length parts > 5 \<and> parts ! 5 \<noteq> ''noreply'' then Inl (ErrInvalidCmd, upd it2)
              else Inr (len, (upd it2)\<lparr>rq_NoReply := length parts > 5 \<and> parts ! 5 = ''noreply''\<rparr>)))"

text \<open>What a reader returns: the error, the request, the limiter, the counters and the rest of the connection.\<close>

record read_res =
  rr_err :: "mc_err option"
  rr_req :: Request
  rr_rl :: ReqLimiter
  rr_dbrl :: BeansdbRL
  rr_rest :: string

text \<open>\<open>RL.Get\<close> by connection \<open>i\<close>; \<open>ed\<close> is when the token arrived.\<close>

definition RL_Get :: "int \<Rightarrow> int \<Rightarrow> nat \<Rightarrow> Request \<Rightarrow> ReqLimiter \<Rightarrow> (Request \<times> ReqLimiter) option" where
  "RL_Get now ed i req rl = tk_take now ed i req (tk_enter rl)"

text \<open>The value of a store command: allocate, read the body and the line end.\<close>

definition drop_body :: "Request \<Rightarrow> mcItem \<Rightarrow> CArray \<Rightarrow> BeansdbRL \<Rightarrow> Request \<times> BeansdbRL" where
  "drop_body req it a d =
     (case Free a (d\<lparr>SetData := SubSizeAndCount (Cap a) (SetData d)\<rparr>) of
        (a', d') \<Rightarrow> (req\<lparr>rq_Item := Some (it\<lparr>mi_CArray := a'\<rparr>)\<rparr>, d'))"

definition read_body :: "MCConfig \<Rightarrow> MemEnv \<Rightarrow> int \<Rightarrow> Request \<Rightarrow> ReqLimiter \<Rightarrow> BeansdbRL \<Rightarrow> string \<Rightarrow> read_res option" where
  "read_body mc me len req rl d rest = do {
     it \<leftarrow> rq_Item req;
     (r, d1) \<leftarrow> Alloc mc me len d;
     case r of
       None \<Rightarrow> Some \<lparr>rr_err = Some (ErrMsg (''fail to alloc '' @ Itoa len)), rr_req = req, rr_rl = rl, rr_dbrl = d1, rr_rest = rest\<rparr>
     | Some a \<Rightarrow>
         (let d2 = d1\<lparr>SetData := AddSizeAndCount (Cap a) (SetData d1)\<rparr>;
              n = nat len;
              a1 = a\<lparr>Body := bytes_of_string (take n rest)\<rparr>;
              rest1 = drop n rest;
              fail = (\<lambda>e r. case drop_body req it a1 d2 of (req', d3) \<Rightarrow>
                  Some \<lparr>rr_err = Some e, rr_req = req', rr_rl = rl, rr_dbrl = d3, rr_rest = r\<rparr>)
          in if length rest < n then fail ErrNetworkError []
             else if length rest1 < 2 then fail ErrNetworkError []
             else if take 2 rest1 \<noteq> crlf then fail ErrBadDataChunk (drop 2 rest1)
             else Some \<lparr>rr_err = None, rr_req = req\<lparr>rq_Item := Some (it\<lparr>mi_CArray := a1\<rparr>)\<rparr>, rr_rl = rl, rr_dbrl = d2,
                        rr_rest = drop 2 rest1\<rparr>)
   }"

text \<open>The switch over the command, and \<open>Request.Read\<close>.\<close>

definition read_switch ::
    "MCConfig \<Rightarrow> MemEnv \<Rightarrow> int \<Rightarrow> int \<Rightarrow> nat \<Rightarrow> string list \<Rightarrow> Request \<Rightarrow> ReqLimiter \<Rightarrow> BeansdbRL \<Rightarrow> string \<Rightarrow> read_res option" where
  "read_switch mc me now ed i parts req rl d rest =
     (let cmd = rq_Cmd req;
          ret = (\<lambda>e req rl d. Some \<lparr>rr_err = e, rr_req = req, rr_rl = rl, rr_dbrl = d, rr_rest = rest\<rparr>) in
      if cmd \<in> set [''get'', ''gets''] then
        (if length parts < 2 then ret (Some ErrInvalidCmd) req rl d
         else do {
           (req2, rl2) \<leftarrow> RL_Get now ed i (req\<lparr>rq_Keys := tl parts\<rparr>) rl;
           ret None req2 rl2 d
         })
      else if cmd \<in> set store_cmds then
        (case store_args mc d now parts req of
           Inl (e, req2) \<Rightarrow> ret (Some e) req2 rl d
         | Inr (len, req2) \<Rightarrow> do {
             (req3, rl3) \<leftarrow> RL_Get now ed i req2 rl;
             read_body mc me len req3 rl3 d rest
           })
      else if cmd = ''delete'' then
        (if length parts < 2 \<or> length parts > 4 then ret (Some ErrInvalidCmd) req rl d
         else ret None (req\<lparr>rq_Keys := [parts ! 1], rq_NoReply := length parts > 2 \<and> last parts = ''noreply''\<rparr>) rl d)
      else if cmd \<in> set num_cmds then
        (if length parts < 3 \<or> length parts > 4 then ret (Some ErrInvalidCmd) req rl d
         else do {
           let req2 = req\<lparr>rq_Keys := [parts ! 1],
               rq_Item := Some (zero_item\<lparr>mi_CArray := nil_array\<lparr>Body := bytes_of_string (parts ! 2)\<rparr>\<rparr>),
               rq_NoReply := length parts > 3 \<and> parts ! 3 = ''noreply''\<rparr>;
           (req3, rl3) \<leftarrow> RL_Get now ed i req2 rl;
           ret None req3 rl3 (d\<lparr>SetData := AddCount 1 (SetData d)\<rparr>)
         })
      else if cmd = ''stats'' then ret None (req\<lparr>rq_Keys := tl parts\<rparr>) rl d
      else if cmd \<in> set [''quit'', ''version'', ''flush_all''] then ret None req rl d
      else if cmd = ''verbosity'' then ret None (if length parts \<ge> 2 then req\<lparr>rq_Keys := tl parts\<rparr> else req) rl d
      else ret (Some ErrNonMemcacheCmd) (req\<lparr>rq_Keys := tl parts\<rparr>) rl d)"

definition req_Read ::
    "MCConfig \<Rightarrow> MemEnv \<Rightarrow> int \<Rightarrow> int \<Rightarrow> nat \<Rightarrow> Request \<Rightarrow> ReqLimiter \<Rightarrow> BeansdbRL \<Rightarrow> string \<Rightarrow> read_res option" where
  "req_Read mc me now ed i req0 rl d input =
     (case read_line input of
        None \<Rightarrow> Some \<lparr>rr_err = Some ErrNetworkError, rr_req = req0, rr_rl = rl, rr_dbrl = d, rr_rest = []\<rparr>
      | Some (s, rest) \<Rightarrow>
          if length s < 2 \<or> drop (length s - 2) s \<noteq> crlf
          then Some \<lparr>rr_err = Some ErrInvalidCmd, rr_req = req0, rr_rl = rl, rr_dbrl = d, rr_rest = rest\<rparr>
          else do {
            parts \<leftarrow> splitKeys s;
            let req1 = req0\<lparr>rq_ReceiveTime := now\<rparr>;
            if parts = [] then Some \<lparr>rr_err = Some ErrInvalidCmd, rr_req = req1, rr_rl = rl, rr_dbrl = d, rr_rest = rest\<rparr>
            else read_switch mc me now ed i parts (req1\<lparr>rq_Cmd := hd parts\<rparr>) rl d rest
          })"

subsection \<open>Responses\<close>

record Response =
  rs_Status :: string
  rs_Msg :: string
  rs_Cas :: bool
  rs_Noreply :: bool
  rs_Items :: "(string \<times> mcItem) list"

definition new_response :: Response where
  "new_response = \<lparr>rs_Status = [], rs_Msg = [], rs_Cas = False, rs_Noreply = False, rs_Items = []\<rparr>"

text \<open>\<open>Response.Write\<close>.  The message of an increment is a format string; it is printed as it is when it has no verb, and
  other messages are not modelled (\<open>None\<close>).\<close>

definition value_text :: "bool \<Rightarrow> string \<times> mcItem \<Rightarrow> string" where
  "value_text cas ki =
     (case ki of (key, it) \<Rightarrow>
        ''VALUE '' @ key @ '' '' @ Itoa (mi_Flag it) @ '' '' @ Itoa (int (length (item_body it)))
        @ (if cas then '' '' @ Itoa (mi_Cas it) else []) @ crlf @ string_of_bytes (item_body it) @ crlf)"

definition resp_Write :: "Response \<Rightarrow> string option" where
  "resp_Write resp =
     (if rs_Noreply resp then Some []
      else if rs_Status resp = ''VALUE'' then Some (concat (map (value_text (rs_Cas resp)) (rs_Items resp)) @ ''END'' @ crlf)
      else if rs_Status resp = ''STAT'' then Some (rs_Msg resp @ ''END'' @ crlf)
      else if rs_Status resp \<in> set [''INCR'', ''DECR''] then
        (if CHR ''%'' \<in> set (rs_Msg resp) then None else Some (rs_Msg resp @ crlf))
      else Some (rs_Status resp @ (if rs_Msg resp = [] then [] else '' '' @ rs_Msg resp) @ crlf))"

definition counted_key :: "string \<Rightarrow> bool" where
  "counted_key key \<longleftrightarrow> hd key \<noteq> CHR ''@'' \<and> hd key \<noteq> CHR ''?''"

text \<open>One value of a response: the key and item, the counters and the rest, or an error.  The two bytes after the body are
  skipped unseen.\<close>

definition read_value ::
    "MCConfig \<Rightarrow> MemEnv \<Rightarrow> string list \<Rightarrow> BeansdbRL \<Rightarrow> string \<Rightarrow> ((mc_err \<times> BeansdbRL \<times> string) + (string \<times> mcItem \<times> BeansdbRL \<times> string)) option" where
  "read_value mc me parts d rest =
     (let bad = Some (Inl (ErrMsg ''invalid response'', d, rest)) in
      if length parts < 4 then bad
      else
        let key = parts ! 1; (flag, e1) = Atoi (parts ! 2); (len, e2) = Atoi (parts ! 3) in
        if e1 \<noteq> None \<or> e2 \<noteq> None then bad
        else if \<not> IsValidValueSize mc (word_of_int len) then Some (Inl (ErrValueTooLarge, d, rest))
        else if length parts = 5 \<and> snd (Atoi (parts ! 4)) \<noteq> None then bad
        else do {
          let it = zero_item\<lparr>mi_Flag := flag, mi_Cas := if length parts = 5 then fst (Atoi (parts ! 4)) else 0\<rparr>;
          (r, d1) \<leftarrow> Alloc mc me len d;
          case r of
            None \<Rightarrow> Some (Inl (ErrMsg (''fail to alloc '' @ Itoa len), d1, rest))
          | Some a \<Rightarrow>
              if length rest < nat len then Some (Inl (ErrNetworkError, snd (Free a d1), []))
              else
                let a1 = a\<lparr>Body := bytes_of_string (take (nat len) rest)\<rparr>;
                    d2 = (if counted_key key then d1\<lparr>GetData := AddSizeAndCount (Cap a) (GetData d1)\<rparr> else d1)
                in Some (Inr (key, it\<lparr>mi_CArray := a1\<rparr>, d2, drop 2 (drop (nat len) rest)))
        })"

text \<open>The loop of \<open>Response.Read\<close>: the response, the error, the counters and the rest.  A line of one character panics.\<close>

lemma read_line_shorter: "read_line s = Some (l, rest) \<Longrightarrow> length rest < length s"
proof -
  assume "read_line s = Some (l, rest)"
  then have s: "s \<noteq> []" "rest = tl (dropWhile (\<lambda>c. c \<noteq> nl) s)" by (auto simp: read_line_def split: if_splits)
  have "length rest \<le> length s - 1" using length_dropWhile_le [of "\<lambda>c. c \<noteq> nl" s] unfolding s(2) by simp
  moreover have "0 < length s" using s(1) by simp
  ultimately show ?thesis by linarith
qed

lemma read_value_shorter: "read_value mc me parts d rest = Some (Inr (k, it, d', rest')) \<Longrightarrow> length rest' \<le> length rest"
  by (simp add: read_value_def Let_def case_prod_beta split: if_splits bind_splits option.splits) auto

function resp_loop ::
    "MCConfig \<Rightarrow> MemEnv \<Rightarrow> Response \<Rightarrow> BeansdbRL \<Rightarrow> string \<Rightarrow> (Response \<times> mc_err option \<times> BeansdbRL \<times> string) option" where
  "resp_loop mc me resp d input =
     (case read_line input of
        None \<Rightarrow> Some (resp, Some ErrNetworkError, d, [])
      | Some (s, rest) \<Rightarrow>
          (case splitKeys s of
             None \<Rightarrow> None
           | Some [] \<Rightarrow> Some (resp, Some (ErrMsg ''invalid response''), d, rest)
           | Some (status # args) \<Rightarrow>
               let parts = status # args; resp1 = resp\<lparr>rs_Status := status\<rparr> in
               if status = ''VALUE'' then
                 (case read_value mc me parts d rest of
                    None \<Rightarrow> None
                  | Some (Inl (e, d1, rest1)) \<Rightarrow> Some (resp1, Some e, d1, rest1)
                  | Some (Inr (key, it, d1, rest1)) \<Rightarrow>
                      resp_loop mc me (resp1\<lparr>rs_Items := AList.update key it (rs_Items resp1)\<rparr>) d1 rest1)
               else if status = ''STAT'' then
                 (if length parts \<noteq> 3 then Some (resp1, Some (ErrMsg ''invalid response''), d, rest)
                  else let it = zero_item\<lparr>mi_CArray := nil_array\<lparr>Body := bytes_of_string (parts ! 2)\<rparr>\<rparr> in
                    resp_loop mc me (resp1\<lparr>rs_Items := AList.update (parts ! 1) it (rs_Items resp1)\<rparr>) d rest)
               else if status \<in> set [''END'', ''STORED'', ''NOT_STORED'', ''DELETED'', ''NOT_FOUND'', ''OK''] then Some (resp1, None, d, rest)
               else if status \<in> set [''ERROR'', ''SERVER_ERROR'', ''CLIENT_ERROR''] then
                 Some (if args \<noteq> [] then resp1\<lparr>rs_Msg := hd args\<rparr> else resp1, None, d, rest)
               else if snd (Atoi status) = None then Some (resp1\<lparr>rs_Msg := status, rs_Status := ''INCR''\<rparr>, None, d, rest)
               else Some (resp1, Some (ErrMsg (''unknown response:'' @ status)), d, rest)))"
  by pat_completeness auto
termination
  by (relation "measure (\<lambda>(mc, me, resp, d, input). length input)")
    (auto dest!: sym [of _ "read_line _"] sym [of _ "read_value _ _ _ _ _"] read_line_shorter read_value_shorter)

declare resp_loop.simps [simp del]

definition resp_Read ::
    "MCConfig \<Rightarrow> MemEnv \<Rightarrow> Response \<Rightarrow> BeansdbRL \<Rightarrow> string \<Rightarrow> (Response \<times> mc_err option \<times> BeansdbRL \<times> string) option" where
  "resp_Read mc me resp d input = resp_loop mc me (resp\<lparr>rs_Items := []\<rparr>) d input"

text \<open>\<open>CleanBuffer\<close>: an empty key panics.\<close>

definition clean_item :: "string \<times> mcItem \<Rightarrow> BeansdbRL \<Rightarrow> BeansdbRL option" where
  "clean_item ki d =
     (case ki of (key, it) \<Rightarrow>
        if key = [] then None
        else Some (snd (Free (mi_CArray it)
          (if counted_key key then d\<lparr>GetData := SubSizeAndCount (Cap (mi_CArray it)) (GetData d)\<rparr> else d))))"

fun clean_items :: "(string \<times> mcItem) list \<Rightarrow> BeansdbRL \<Rightarrow> BeansdbRL option" where
  "clean_items [] d = Some d"
| "clean_items (ki # kis) d = do { d1 \<leftarrow> clean_item ki d; clean_items kis d1 }"

definition CleanBuffer :: "Response \<Rightarrow> BeansdbRL \<Rightarrow> (Response \<times> BeansdbRL) option" where
  "CleanBuffer resp d = do { d1 \<leftarrow> clean_items (rs_Items resp) d; Some (resp\<lparr>rs_Items := []\<rparr>, d1) }"

text \<open>A word of a line, and the requests that survive being written and read.\<close>

definition word_ok :: "string \<Rightarrow> bool" where
  "word_ok w \<longleftrightarrow> w \<noteq> [] \<and> CHR '' '' \<notin> set w \<and> nl \<notin> set w"

definition in_int64 :: "int \<Rightarrow> bool" where
  "in_int64 i \<longleftrightarrow> - (2 ^ 63) \<le> i \<and> i < 2 ^ 63"

definition store_ok :: "MCConfig \<Rightarrow> BeansdbRL \<Rightarrow> mcItem \<Rightarrow> bool" where
  "store_ok mc d it \<longleftrightarrow> in_int64 (mi_Flag it) \<and> in_int64 (mi_Exptime it) \<and>
     int (length (item_body it)) \<le> BodyMax mc \<and>
     (int (length (item_body it)) \<le> BodyBig mc \<or> rl_Size (FlushData d) \<le> FlushMax mc)"

definition one_key_item :: "(string \<Rightarrow> mcItem \<Rightarrow> bool) \<Rightarrow> Request \<Rightarrow> bool" where
  "one_key_item P req \<longleftrightarrow> length (rq_Keys req) = 1 \<and> (case rq_Item req of Some it \<Rightarrow> P (hd (rq_Keys req)) it | None \<Rightarrow> False)"

text \<open>The requests that \<open>Write\<close> prints in one piece: the keys are words, a line command has no item, a store command or an increment one key and an item
  within the limits.  A printed \<open>cas\<close> command is not among them.\<close>

definition printable :: "MCConfig \<Rightarrow> BeansdbRL \<Rightarrow> Request \<Rightarrow> bool" where
  "printable mc d req \<longleftrightarrow>
     (if rq_Cmd req \<in> set line_cmds then list_all word_ok (rq_Keys req) \<and> rq_Item req = None
      else if rq_Cmd req \<in> set [''set'', ''add'', ''replace'', ''prepend'', ''append''] then
        one_key_item (\<lambda>k it. word_ok k \<and> store_ok mc d it \<and> mi_Cas it = 0) req
      else rq_Cmd req \<in> set num_cmds \<and>
        one_key_item (\<lambda>k it. word_ok k \<and> word_ok (string_of_bytes (item_body it)) \<and>
          mi_Flag it = 0 \<and> mi_Exptime it = 0 \<and> mi_Cas it = 0) req)"

text \<open>Those of them for which \<open>Read\<close> agrees with \<open>Write\<close>: \<open>Read\<close> knows no \<open>noreply\<close> for get, gets, stats, quit, version and flush_all, takes one key of a
  delete, no arguments of quit, version and flush_all, and wants a key for get and gets.\<close>

definition wire_ok :: "Request \<Rightarrow> bool" where
  "wire_ok req \<longleftrightarrow>
     (if rq_Cmd req \<in> set [''get'', ''gets''] then rq_Keys req \<noteq> [] \<and> \<not> rq_NoReply req
      else if rq_Cmd req = ''delete'' then length (rq_Keys req) = 1
      else if rq_Cmd req = ''stats'' then \<not> rq_NoReply req
      else if rq_Cmd req \<in> set [''quit'', ''version'', ''flush_all''] then rq_Keys req = [] \<and> \<not> rq_NoReply req
      else True)"

definition item_view :: "mcItem \<Rightarrow> int \<times> int \<times> int \<times> bytes" where
  "item_view it = (mi_Flag it, mi_Exptime it, mi_Cas it, item_body it)"

definition same_request :: "Request \<Rightarrow> Request \<Rightarrow> bool" where
  "same_request a b \<longleftrightarrow> rq_Cmd a = rq_Cmd b \<and> rq_Keys a = rq_Keys b \<and> rq_NoReply a = rq_NoReply b \<and>
     map_option item_view (rq_Item a) = map_option item_view (rq_Item b)"

definition fresh_request :: Request where
  "fresh_request = \<lparr>rq_ReceiveTime = 0, rq_Cmd = [], rq_Keys = [], rq_Item = None, rq_NoReply = False, rq_Token = 0, rq_Working = False\<rparr>"

definition has_token :: "ReqLimiter \<Rightarrow> bool" where
  "has_token rl \<longleftrightarrow> (\<exists>t ts. tk_Chan rl = t # ts \<and> t < length (tk_Owners rl) \<and> t < length (tk_Histories rl))"

lemma one_key_itemD: "one_key_item P req \<Longrightarrow> \<exists>k it. rq_Keys req = [k] \<and> rq_Item req = Some it \<and> P k it"
  by (cases "rq_Keys req") (auto simp: one_key_item_def split: option.splits)

section \<open>Lines\<close>

lemma bytes_string_bytes [simp]: "bytes_of_string (string_of_bytes bs) = bs"
proof -
  have "of_char (char_of (unat b)) = (b :: byte)" for b
  proof -
    have "unat b < 256" using unsigned_less [of b] by simp
    then have "of_nat (of_char (char_of (unat b)) :: nat) = b" by (simp add: of_char_of)
    then show ?thesis by (simp only: of_nat_of_char)
  qed
  then show ?thesis by (simp add: bytes_of_string_def string_of_bytes_def comp_def)
qed

lemma length_string_of_bytes [simp]: "length (string_of_bytes bs) = length bs"
  by (simp add: string_of_bytes_def)

lemma append_singleton_fun [simp]: "(@) [c] = (#) c"
  by (simp add: fun_eq_iff)

lemma join_concat: "join '' '' (w # ws) = w @ concat (map (\<lambda>k. '' '' @ k) ws)"
  by (induction ws arbitrary: w) auto

lemma nl_join: "nl \<in> set (join '' '' ws) \<longleftrightarrow> (\<exists>w \<in> set ws. nl \<in> set w)"
proof (induction ws)
  case (Cons w ws)
  have "set (join '' '' (w # ws)) = set w \<union> (if ws = [] then {} else insert (CHR '' '') (set (join '' '' ws)))"
    by (cases ws) auto
  then show ?case using Cons by (auto simp: nl_def)
qed simp

lemma line_words:
  assumes "\<forall>w \<in> set ws. word_ok w"
  shows "read_line (join '' '' ws @ crlf @ rest) = Some (join '' '' ws @ crlf, rest)"
    "splitKeys (join '' '' ws @ crlf) = Some ws" "length (join '' '' ws @ crlf) \<ge> 2"
    "drop (length (join '' '' ws @ crlf) - 2) (join '' '' ws @ crlf) = crlf"
proof -
  let ?j = "join '' '' ws"
  have nj: "nl \<notin> set ?j" using assms nl_join [of ws] by (auto simp: word_ok_def)
  have cr: "crlf = [CHR 0x0D] @ [nl]" "CHR 0x0D \<noteq> nl" by (simp_all add: crlf_def nl_def)
  have "takeWhile (\<lambda>c. c \<noteq> nl) (?j @ crlf @ rest) = ?j @ [CHR 0x0D]" "dropWhile (\<lambda>c. c \<noteq> nl) (?j @ crlf @ rest) = nl # rest"
    using nj cr(2) unfolding cr(1) by (subst append_assoc [symmetric], subst append_assoc [symmetric], auto simp: takeWhile_append dropWhile_append)+
  then show "read_line (?j @ crlf @ rest) = Some (?j @ crlf, rest)"
    by (simp add: read_line_def crlf_def nl_def)
  have "Strconv.fields ?j = ws" using assms by (intro fields_join) (auto simp: word_ok_def)
  then show "splitKeys (?j @ crlf) = Some ws" by (simp add: splitKeys_def crlf_def)
  show "length (?j @ crlf) \<ge> 2" "drop (length (?j @ crlf) - 2) (?j @ crlf) = crlf" by (simp_all add: crlf_def)
qed

lemma Itoa_word: "word_ok (Itoa i)"
proof -
  have "nl \<noteq> digit_char d" if "d < 10" for d
  proof
    assume "nl = digit_char d"
    from digit_char_eqD [OF this] have "digit_val nl = Some d" using that by simp
    then show False by (simp add: digit_val_def nl_def)
  qed
  moreover have "nl \<noteq> CHR ''-''" by (simp add: nl_def)
  ultimately have "nl \<notin> set (Itoa i)" using Itoa_chars [of nl i] by auto
  then show ?thesis using Itoa_no_space [of i] by (simp add: word_ok_def)
qed

lemma noreply_words: "noreply_text req = concat (map (\<lambda>k. '' '' @ k) (if rq_NoReply req then [''noreply''] else []))"
  by (simp add: noreply_text_def)

lemma RL_Get_token:
  assumes "has_token rl"
  shows "\<exists>t f. \<forall>req. RL_Get now ed i req rl = Some (req\<lparr>rq_Token := t, rq_Working := True\<rparr>, f req)"
proof -
  obtain t ts where "tk_Chan rl = t # ts" "t < length (tk_Owners rl)" "t < length (tk_Histories rl)"
    using assms by (auto simp: has_token_def)
  then have "RL_Get now ed i req rl = Some (req\<lparr>rq_Token := t, rq_Working := True\<rparr>, snd (the (RL_Get now ed i req rl)))" for req
    by (simp add: RL_Get_def tk_take_eq tk_begin_def tk_enter_def Let_def)
  then show ?thesis by (intro exI allI)
qed

lemma read_body_ok:
  assumes "rq_Item req = Some it" "\<forall>n. malloc me n \<noteq> 0"
  shows "\<exists>a d'. read_body mc me (int (length bs)) req rl d (string_of_bytes bs @ crlf @ rest) =
      Some \<lparr>rr_err = None, rr_req = req\<lparr>rq_Item := Some (it\<lparr>mi_CArray := a\<rparr>)\<rparr>, rr_rl = rl, rr_dbrl = d', rr_rest = rest\<rparr> \<and> Body a = bs \<and>
    Cap a = int (length bs) \<and> rl_Size (SetData d') = rl_Size (SetData d) + int (length bs) \<and> rl_Count (SetData d') = rl_Count (SetData d) + 1"
proof -
  obtain a d1 where a: "Alloc mc me (int (length bs)) d = Some (Some a, d1)"
    using assms(2) by (cases "int (length bs) \<le> BodyInC mc") (auto simp: Alloc_def)
  have d1: "SetData d1 = SetData d" using a by (auto simp: Alloc_def split: if_splits)
  have cap: "Cap a = int (length bs)" using Alloc_length [OF a] by simp
  have t: "take (length bs) (string_of_bytes bs @ crlf @ rest) = string_of_bytes bs"
    "drop (length bs) (string_of_bytes bs @ crlf @ rest) = crlf @ rest" by simp_all
  show ?thesis using assms(1) a d1 cap
    by (intro exI [of _ "a\<lparr>Body := bs\<rparr>"] exI [of _ "d1\<lparr>SetData := AddSizeAndCount (Cap a) (SetData d1)\<rparr>"])
      (simp add: read_body_def Let_def t, simp add: crlf_def)
qed

lemma valid_size: "0 \<le> n \<Longrightarrow> n \<le> BodyMax mc \<Longrightarrow> BodyMax mc < 2 ^ 32 \<Longrightarrow> IsValidValueSize mc (word_of_int n)"
  by (simp add: IsValidValueSize_def word_le_def unsigned_of_int take_bit_int_eq_self)

lemma store_args_ok:
  assumes "store_ok mc d it" "BodyMax mc < 2 ^ 32" "rq_Cmd req \<noteq> ''cas''" "length (item_body it) < 2 ^ 63" "mi_Cas it = 0"
  shows "store_args mc d now (cmd # k # [Itoa (mi_Flag it), Itoa (mi_Exptime it), Itoa (int (length (item_body it)))] @ (if nr then [''noreply''] else [])) req =
    Inr (int (length (item_body it)), req\<lparr>rq_Keys := [k],
      rq_Item := Some (it\<lparr>mi_ReceiveTime := now, mi_CArray := nil_array\<rparr>), rq_NoReply := nr\<rparr>)"
proof -
  have a: "Atoi (Itoa (mi_Flag it)) = (mi_Flag it, None)" "Atoi (Itoa (mi_Exptime it)) = (mi_Exptime it, None)"
    "Atoi (Itoa (int (length (item_body it)))) = (int (length (item_body it)), None)"
    using assms(1,4) by (auto simp: store_ok_def in_int64_def intro!: Atoi_Itoa)
  have v: "IsValidValueSize mc (word_of_int (int (length (item_body it))))"
    using assms(1,2) by (intro valid_size) (simp_all add: store_ok_def)
  have o: "\<not> (int (length (item_body it)) > BodyBig mc \<and> rl_Size (FlushData d) > FlushMax mc)" using assms(1) by (auto simp: store_ok_def)
  have z: "zero_item\<lparr>mi_ReceiveTime := now, mi_Flag := mi_Flag it, mi_Exptime := mi_Exptime it\<rparr> = it\<lparr>mi_ReceiveTime := now, mi_CArray := nil_array\<rparr>"
    using assms(5) by (cases it) (simp add: zero_item_def)
  show ?thesis using a v o z assms(3) by (auto simp: store_args_def Let_def)
qed

section \<open>Round trips\<close>

lemma req_Read_line:
  assumes "\<forall>w \<in> set (cmd # args). word_ok w"
  shows "req_Read mc me now ed i req0 rl d (join '' '' (cmd # args) @ crlf @ rest) =
    read_switch mc me now ed i (cmd # args) (req0\<lparr>rq_ReceiveTime := now, rq_Cmd := cmd\<rparr>) rl d rest"
proof -
  have "\<not> (length (join '' '' (cmd # args) @ crlf) < 2 \<or> drop (length (join '' '' (cmd # args) @ crlf) - 2) (join '' '' (cmd # args) @ crlf) \<noteq> crlf)"
    using line_words(3,4) [OF assms] by simp
  then show ?thesis
    unfolding req_Read_def line_words(1) [OF assms] option.case prod.case line_words(2) [OF assms]
    by (simp only: if_False) (simp add: Let_def)
qed

lemma read_switch_store:
  assumes "rq_Cmd req \<in> set store_cmds" "store_args mc d now parts req = Inr (len, req2)"
  shows "read_switch mc me now ed i parts req rl d rest =
    do { (req3, rl3) \<leftarrow> RL_Get now ed i req2 rl; read_body mc me len req3 rl3 d rest }"
  using assms by (auto simp: read_switch_def Let_def store_cmds_def)

lemma read_switch_store_err:
  assumes "rq_Cmd req \<in> set store_cmds" "store_args mc d now parts req = Inl (e, req2)"
  shows "read_switch mc me now ed i parts req rl d rest = Some \<lparr>rr_err = Some e, rr_req = req2, rr_rl = rl, rr_dbrl = d, rr_rest = rest\<rparr>"
  using assms by (auto simp: read_switch_def Let_def store_cmds_def)

text \<open>The text of a store command, and what reading it gives.\<close>

definition store_text :: "string \<Rightarrow> string \<Rightarrow> mcItem \<Rightarrow> bool \<Rightarrow> string" where
  "store_text cmd k it nr = join '' '' (cmd # k # [Itoa (mi_Flag it), Itoa (mi_Exptime it), Itoa (int (length (item_body it)))] @ (if nr then [''noreply''] else []))
     @ crlf @ string_of_bytes (item_body it) @ crlf"

lemma req_Read_store:
  assumes "cmd \<in> set [''set'', ''add'', ''replace'', ''prepend'', ''append'']" "word_ok k" "store_ok mc d it" "mi_Cas it = 0"
    "BodyMax mc < 2 ^ 32" "\<forall>n. malloc me n \<noteq> 0" "has_token rl"
  shows "\<exists>q t rl' a d'. RL_Get now ed i q rl = Some (q\<lparr>rq_Token := t, rq_Working := True\<rparr>, rl') \<and> Body a = item_body it \<and>
    req_Read mc me now ed i req0 rl d (store_text cmd k it nr @ rest) = Some \<lparr>rr_err = None,
      rr_req = req0\<lparr>rq_ReceiveTime := now, rq_Cmd := cmd, rq_Keys := [k], rq_NoReply := nr, rq_Token := t, rq_Working := True,
        rq_Item := Some (it\<lparr>mi_ReceiveTime := now, mi_CArray := a\<rparr>)\<rparr>, rr_rl = rl', rr_dbrl = d', rr_rest = rest\<rparr>"
proof -
  let ?r = "req0\<lparr>rq_ReceiveTime := now, rq_Cmd := cmd\<rparr>" and ?b = "item_body it"
  let ?args = "k # [Itoa (mi_Flag it), Itoa (mi_Exptime it), Itoa (int (length ?b))] @ (if nr then [''noreply''] else [])"
  obtain t f where tok: "\<And>r. RL_Get now ed i r rl = Some (r\<lparr>rq_Token := t, rq_Working := True\<rparr>, f r)"
    using RL_Get_token [OF assms(7)] by metis
  have "word_ok ''noreply''" "word_ok cmd" using assms(1) by (auto simp: word_ok_def nl_def)
  then have w: "\<forall>w \<in> set (cmd # ?args). word_ok w" using assms(2) by (auto simp: Itoa_word)
  have e: "store_text cmd k it nr @ rest = join '' '' (cmd # ?args) @ crlf @ (string_of_bytes ?b @ crlf @ rest)" by (simp add: store_text_def)
  have len: "length ?b < 2 ^ 63" using assms(3,5) by (simp add: store_ok_def)
  have c: "rq_Cmd ?r \<noteq> ''cas''" "rq_Cmd ?r \<in> set store_cmds" using assms(1) by (auto simp: store_cmds_def)
  let ?q = "?r\<lparr>rq_Keys := [k], rq_Item := Some (it\<lparr>mi_ReceiveTime := now, mi_CArray := nil_array\<rparr>), rq_NoReply := nr\<rparr>"
  note sa = store_args_ok [OF assms(3,5) c(1) len assms(4), of now cmd k nr]
  obtain a d' where b: "read_body mc me (int (length ?b)) (?q\<lparr>rq_Token := t, rq_Working := True\<rparr>) (f ?q) d (string_of_bytes ?b @ crlf @ rest) =
      Some \<lparr>rr_err = None, rr_req = ?q\<lparr>rq_Token := t, rq_Working := True, rq_Item := Some (it\<lparr>mi_ReceiveTime := now, mi_CArray := a\<rparr>)\<rparr>,
        rr_rl = f ?q, rr_dbrl = d', rr_rest = rest\<rparr>" "Body a = ?b"
    using read_body_ok [of "?q\<lparr>rq_Token := t, rq_Working := True\<rparr>" "it\<lparr>mi_ReceiveTime := now, mi_CArray := nil_array\<rparr>" me mc ?b "f ?q" d rest] assms(6) by auto
  have "req_Read mc me now ed i req0 rl d (store_text cmd k it nr @ rest) =
      Some \<lparr>rr_err = None, rr_req = ?q\<lparr>rq_Token := t, rq_Working := True, rq_Item := Some (it\<lparr>mi_ReceiveTime := now, mi_CArray := a\<rparr>)\<rparr>,
        rr_rl = f ?q, rr_dbrl = d', rr_rest = rest\<rparr>"
    unfolding e req_Read_line [OF w] read_switch_store [OF c(2) sa] tok using b(1) by simp
  then show ?thesis using tok [of ?q] b(2) by (intro exI [of _ ?q] exI [of _ t] exI [of _ "f ?q"] exI [of _ a] exI [of _ d']) simp
qed

text \<open>The text of a line command, and what reading it gives.\<close>

definition line_args :: "Request \<Rightarrow> string list" where
  "line_args req = rq_Keys req @ (if rq_NoReply req then [''noreply''] else [])"

lemma req_Write_line:
  "rq_Cmd req \<in> set line_cmds \<Longrightarrow> req_Write req = Some (join '' '' (rq_Cmd req # line_args req) @ crlf, None)"
  by (auto simp: req_Write_def line_args_def join_concat noreply_text_def)

lemma req_Read_line_cmd:
  assumes "printable mc d req" "rq_Cmd req \<in> set line_cmds" "has_token rl"
  shows "\<exists>res. req_Read mc me now ed i fresh_request rl d (join '' '' (rq_Cmd req # line_args req) @ crlf @ rest) = Some res \<and> rr_rest res = rest \<and>
    (rr_err res = None \<and> same_request (rr_req res) req \<longleftrightarrow> wire_ok req)"
proof -
  let ?args = "line_args req" and ?r = "fresh_request\<lparr>rq_ReceiveTime := now, rq_Cmd := rq_Cmd req\<rparr>"
  have nr: "word_ok ''noreply''" "\<forall>w \<in> set line_cmds. word_ok w" by (simp_all add: word_ok_def nl_def line_cmds_def)
  have "rq_Item req = None" "list_all word_ok (rq_Keys req)" using assms(1,2) by (simp_all add: printable_def)
  then have it: "rq_Item req = None" "\<forall>w \<in> set ?args. word_ok w" "word_ok (rq_Cmd req)"
    using nr assms(2) by (auto simp: line_args_def list_all_iff)
  have line: "req_Read mc me now ed i fresh_request rl d (join '' '' (rq_Cmd req # ?args) @ crlf @ rest) =
      read_switch mc me now ed i (rq_Cmd req # ?args) ?r rl d rest"
    using it by (intro req_Read_line) auto
  obtain t f where tok: "\<And>r. RL_Get now ed i r rl = Some (r\<lparr>rq_Token := t, rq_Working := True\<rparr>, f r)"
    using RL_Get_token [OF assms(3)] by metis
  note defs = read_switch_def Let_def same_request_def fresh_request_def wire_ok_def store_cmds_def num_cmds_def
  consider (get) "rq_Cmd req \<in> set [''get'', ''gets'']" | (delete) "rq_Cmd req = ''delete''" | (stats) "rq_Cmd req = ''stats''"
    | (other) "rq_Cmd req \<in> set [''quit'', ''version'', ''flush_all'']"
    using assms(2) by (auto simp: line_cmds_def)
  then show ?thesis
  proof cases
    case get
    have "rq_Keys req = ?args \<and> \<not> rq_NoReply req \<longleftrightarrow> \<not> rq_NoReply req" by (auto simp: line_args_def)
    moreover have "(?args = []) = (rq_Keys req = [] \<and> \<not> rq_NoReply req)" by (simp add: line_args_def)
    ultimately show ?thesis unfolding line using get it(1) tok by (cases "?args = []") (auto simp: defs numeral_2_eq_2)
  next
    case delete
    have "rq_Keys req = [hd ?args] \<and> rq_NoReply req = (length ?args > 1 \<and> last ?args = ''noreply'') \<longleftrightarrow> length (rq_Keys req) = 1"
      if "?args \<noteq> []" by (cases "rq_Keys req"; cases "tl (rq_Keys req)") (auto simp: line_args_def)
    moreover have "length (rq_Keys req) \<noteq> 1" if "?args = [] \<or> length ?args > 3" using that by (auto simp: line_args_def split: if_splits)
    moreover have "?args ! 0 = hd ?args" if "?args \<noteq> []" using that by (simp add: hd_conv_nth)
    ultimately show ?thesis unfolding line using delete it(1) by (cases "?args = []") (auto simp: defs)
  next
    case stats
    then show ?thesis unfolding line using it(1) by (auto simp: defs line_args_def)
  next
    case other
    then show ?thesis unfolding line using it(1) by (auto simp: defs)
  qed
qed

lemma req_Read_num:
  assumes "rq_Cmd req \<in> set num_cmds" "rq_Keys req = [k]" "word_ok k" "rq_Item req = Some it" "word_ok (string_of_bytes (item_body it))"
    "mi_Flag it = 0" "mi_Exptime it = 0" "mi_Cas it = 0" "has_token rl" "req_Write req = Some (text, None)"
  shows "\<exists>res. req_Read mc me now ed i fresh_request rl d (text @ rest) = Some res \<and> rr_rest res = rest \<and> rr_err res = None \<and> same_request (rr_req res) req"
proof -
  obtain t f where tok: "\<And>r. RL_Get now ed i r rl = Some (r\<lparr>rq_Token := t, rq_Working := True\<rparr>, f r)"
    using RL_Get_token [OF assms(9)] by metis
  have nr: "word_ok ''noreply''" "word_ok (rq_Cmd req)" using assms(1) by (auto simp: word_ok_def nl_def num_cmds_def)
  let ?args = "k # string_of_bytes (item_body it) # (if rq_NoReply req then [''noreply''] else [])"
  have "text = join '' '' (rq_Cmd req # ?args) @ crlf"
    using assms(1,2,4,10) by (auto simp: req_Write_def line_cmds_def store_cmds_def num_cmds_def noreply_text_def join_concat)
  then show ?thesis using req_Read_line [of "rq_Cmd req" ?args mc me now ed i fresh_request rl d rest] assms(1-8) nr tok
    by (auto simp: read_switch_def Let_def same_request_def fresh_request_def store_cmds_def num_cmds_def item_view_def zero_item_def nil_array_def)
qed

text \<open>C28: writing and reading requests.  A request of any command but \<open>cas\<close> whose keys are words and whose item is within the limits is printed by \<open>Write\<close> as one
  piece that \<open>Read\<close> takes exactly, and it is read back the same (command, keys, no-reply flag and item) exactly when \<open>wire_ok\<close> holds.  What is not read back is a get, gets, stats, quit, version or flush_all with the no-reply flag, which
  \<open>Write\<close> prints and \<open>Read\<close> takes for a key or drops; a get or gets without keys; a delete of more or less than one key; and quit, version and flush_all with keys.\<close>

theorem request_roundtrip:
  assumes "printable mc d req" and "req_Write req = Some (text, None)" and "BodyMax mc < 2 ^ 32"
    and "\<forall>n. malloc me n \<noteq> 0" and "has_token rl"
  shows "\<exists>res. req_Read mc me now ed i fresh_request rl d (text @ rest) = Some res \<and> rr_rest res = rest \<and>
    (rr_err res = None \<and> same_request (rr_req res) req \<longleftrightarrow> wire_ok req)"
proof -
  consider (line) "rq_Cmd req \<in> set line_cmds" | (store) "rq_Cmd req \<in> set [''set'', ''add'', ''replace'', ''prepend'', ''append'']"
    | (num) "rq_Cmd req \<in> set num_cmds" "rq_Cmd req \<notin> set line_cmds"
    using assms(1) by (auto simp: printable_def split: if_splits)
  then show ?thesis
  proof cases
    case line
    then show ?thesis using req_Read_line_cmd [OF assms(1) line assms(5), of me now ed i rest] req_Write_line [OF line] assms(2) by simp
  next
    case num
    then obtain k it where k: "rq_Keys req = [k]" "word_ok k" "rq_Item req = Some it" "word_ok (string_of_bytes (item_body it))"
      "mi_Flag it = 0" "mi_Exptime it = 0" "mi_Cas it = 0"
      using assms(1) by (auto simp: printable_def num_cmds_def dest!: one_key_itemD)
    have "wire_ok req" using num(1) by (auto simp: wire_ok_def num_cmds_def)
    then show ?thesis using req_Read_num [OF num(1) k assms(5,2), of mc me now ed i d rest] by auto
  next
    case store
    then have nl: "rq_Cmd req \<notin> set line_cmds" by (auto simp: line_cmds_def)
    then obtain k it where k: "rq_Keys req = [k]" "word_ok k" "rq_Item req = Some it" "store_ok mc d it" "mi_Cas it = 0"
      using assms(1) store by (auto simp: printable_def dest!: one_key_itemD)
    have e: "text = store_text (rq_Cmd req) k it (rq_NoReply req)"
      using store assms(2) k by (auto simp: req_Write_def line_cmds_def store_cmds_def noreply_text_def join_concat store_text_def)
    obtain t rl' a d' where b: "Body a = item_body it"
      "req_Read mc me now ed i fresh_request rl d (text @ rest) = Some \<lparr>rr_err = None,
        rr_req = fresh_request\<lparr>rq_ReceiveTime := now, rq_Cmd := rq_Cmd req, rq_Keys := [k], rq_NoReply := rq_NoReply req, rq_Token := t, rq_Working := True,
          rq_Item := Some (it\<lparr>mi_ReceiveTime := now, mi_CArray := a\<rparr>)\<rparr>, rr_rl = rl', rr_dbrl = d', rr_rest = rest\<rparr>"
      using req_Read_store [OF store k(2,4,5) assms(3-5), of now ed i fresh_request "rq_NoReply req" rest] unfolding e by blast
    moreover have "wire_ok req" using store by (auto simp: wire_ok_def)
    ultimately show ?thesis using k by (simp add: same_request_def item_view_def)
  qed
qed

text \<open>The commands for which \<open>Read\<close> takes a token of the limiter.\<close>

definition token_cmds :: "string list" where
  "token_cmds = [''get'', ''gets''] @ store_cmds @ num_cmds"

definition same_token :: "Request \<Rightarrow> Request \<Rightarrow> bool" where
  "same_token r r' \<longleftrightarrow> rq_Working r' = rq_Working r \<and> rq_Token r' = rq_Token r \<and> rq_Cmd r' = rq_Cmd r"

lemma RL_Get_takes:
  assumes "RL_Get now ed i r rl = Some (r', rl')"
  shows "rq_Working r'" "rq_Cmd r' = rq_Cmd r" "tk_Chan rl = rq_Token r' # tk_Chan rl'"
  using assms by (auto simp: RL_Get_def tk_take_def tk_receive_def tk_begin_def tk_enter_def Let_def split: list.splits bind_splits)

lemma read_body_token:
  assumes "read_body mc me len r rl d rest = Some res"
  shows "rr_rl res = rl" "same_token r (rr_req res)"
  using assms by (auto simp: read_body_def drop_body_def same_token_def Let_def split: bind_splits option.splits prod.splits if_splits)

lemma store_args_token:
  "store_args mc d now parts r = Inl (e, r') \<Longrightarrow> same_token r r'"
  "store_args mc d now parts r = Inr (len, r') \<Longrightarrow> same_token r r'"
  by (auto simp: store_args_def same_token_def Let_def case_prod_beta split: if_splits)

definition token_ok :: "ReqLimiter \<Rightarrow> read_res \<Rightarrow> bool" where
  "token_ok rl res \<longleftrightarrow> (if rq_Working (rr_req res) then tk_Chan rl = rq_Token (rr_req res) # tk_Chan (rr_rl res) else rr_rl res = rl) \<and>
     (rr_err res = None \<longrightarrow> rq_Working (rr_req res) = (rq_Cmd (rr_req res) \<in> set token_cmds))"

lemma read_switch_free:
  assumes "rq_Cmd r \<notin> set token_cmds"
  shows "\<exists>res. read_switch mc me now ed i parts r rl d rest = Some res \<and> rr_rl res = rl \<and> rr_rest res = rest \<and> same_token r (rr_req res)"
  using assms by (simp add: read_switch_def Let_def token_cmds_def num_cmds_def store_cmds_def same_token_def)

lemma read_switch_token:
  assumes "read_switch mc me now ed i parts r rl d rest = Some res" "\<not> rq_Working r"
  shows "token_ok rl res"
proof -
  consider (get) "rq_Cmd r \<in> set [''get'', ''gets'']" | (store) "rq_Cmd r \<in> set store_cmds" | (num) "rq_Cmd r \<in> set num_cmds" | (other) "rq_Cmd r \<notin> set token_cmds"
    unfolding token_cmds_def set_append by blast
  then show ?thesis
  proof cases
    case get
    then show ?thesis using assms by (auto simp: read_switch_def Let_def token_ok_def token_cmds_def dest: RL_Get_takes split: bind_splits if_splits)
  next
    case store
    show ?thesis
    proof (cases "store_args mc d now parts r")
      case (Inl x)
      obtain e q where x: "x = (e, q)" by (cases x)
      show ?thesis using read_switch_store_err [OF store Inl [unfolded x]] assms store_args_token(1) [OF Inl [unfolded x]]
        by (auto simp: token_ok_def same_token_def)
    next
      case (Inr x)
      obtain len q where x: "x = (len, q)" by (cases x)
      obtain q' rl' where g: "RL_Get now ed i q rl = Some (q', rl')" "read_body mc me len q' rl' d rest = Some res"
        using assms(1) read_switch_store [OF store Inr [unfolded x]] by (auto split: bind_splits)
      show ?thesis using RL_Get_takes [OF g(1)] read_body_token [OF g(2)] store_args_token(2) [OF Inr [unfolded x]] store
        by (auto simp: token_ok_def token_cmds_def same_token_def)
    qed
  next
    case num
    then have c: "rq_Cmd r = ''incr'' \<or> rq_Cmd r = ''decr''" by (simp add: num_cmds_def)
    have e: "read_switch mc me now ed i parts r rl d rest =
        (if length parts < 3 \<or> length parts > 4 then Some \<lparr>rr_err = Some ErrInvalidCmd, rr_req = r, rr_rl = rl, rr_dbrl = d, rr_rest = rest\<rparr>
         else do { (q, rl') \<leftarrow> RL_Get now ed i (r\<lparr>rq_Keys := [parts ! 1],
             rq_Item := Some (zero_item\<lparr>mi_CArray := nil_array\<lparr>Body := bytes_of_string (parts ! 2)\<rparr>\<rparr>),
             rq_NoReply := length parts > 3 \<and> parts ! 3 = ''noreply''\<rparr>) rl;
           Some \<lparr>rr_err = None, rr_req = q, rr_rl = rl', rr_dbrl = d\<lparr>SetData := AddCount 1 (SetData d)\<rparr>, rr_rest = rest\<rparr> })"
      using c by (elim disjE) (simp_all add: read_switch_def Let_def store_cmds_def num_cmds_def)
    show ?thesis using assms c unfolding e
      by (auto simp: token_ok_def token_cmds_def num_cmds_def dest: RL_Get_takes split: bind_splits if_splits)
  next
    case other
    then show ?thesis using read_switch_free [OF other, of mc me now ed i parts rl d rest] assms by (auto simp: token_ok_def same_token_def)
  qed
qed

text \<open>C26: which requests the limiter counts.  A request that is read takes a token, the first of the channel, or leaves the limiter as it is; when it is read
  without an error it takes one exactly if its command is get, gets, a store command, incr or decr.  Reading waits only for
  a token: a line of any other command (delete, stats, version, verbosity, flush_all, quit) is read also when no token is left, so that the requests served at a time are not
  bounded by the number of tokens (the comment of \<open>MaxReq\<close> says they are).\<close>

theorem token_commands:
  assumes "\<not> rq_Working req0"
  shows "(req_Read mc me now ed i req0 rl d input = Some res \<longrightarrow>
      (if rq_Working (rr_req res) then tk_Chan rl = rq_Token (rr_req res) # tk_Chan (rr_rl res) else rr_rl res = rl) \<and>
      (rr_err res = None \<longrightarrow> rq_Working (rr_req res) = (rq_Cmd (rr_req res) \<in> set token_cmds))) \<and>
    (list_all word_ok (cmd # args) \<and> cmd \<notin> set token_cmds \<longrightarrow>
      (\<exists>res. req_Read mc me now ed i req0 (rl\<lparr>tk_Chan := []\<rparr>) d (join '' '' (cmd # args) @ crlf @ rest) = Some res \<and>
        rr_rl res = rl\<lparr>tk_Chan := []\<rparr> \<and> rr_rest res = rest))"
proof (intro conjI impI)
  assume "req_Read mc me now ed i req0 rl d input = Some res"
  then have "token_ok rl res \<or> rr_req res = req0 \<and> rr_rl res = rl \<and> rr_err res \<noteq> None \<or>
      rr_req res = req0\<lparr>rq_ReceiveTime := now\<rparr> \<and> rr_rl res = rl \<and> rr_err res \<noteq> None"
    using assms by (auto simp: req_Read_def Let_def split: option.splits if_splits bind_splits dest!: read_switch_token)
  then have "token_ok rl res" using assms by (auto simp: token_ok_def)
  then show "if rq_Working (rr_req res) then tk_Chan rl = rq_Token (rr_req res) # tk_Chan (rr_rl res) else rr_rl res = rl"
    "rr_err res = None \<Longrightarrow> rq_Working (rr_req res) = (rq_Cmd (rr_req res) \<in> set token_cmds)"
    by (simp_all add: token_ok_def)
next
  assume "list_all word_ok (cmd # args) \<and> cmd \<notin> set token_cmds"
  then show "\<exists>res. req_Read mc me now ed i req0 (rl\<lparr>tk_Chan := []\<rparr>) d (join '' '' (cmd # args) @ crlf @ rest) = Some res \<and>
      rr_rl res = rl\<lparr>tk_Chan := []\<rparr> \<and> rr_rest res = rest"
    using req_Read_line [of cmd args mc me now ed i req0 "rl\<lparr>tk_Chan := []\<rparr>" d rest]
      read_switch_free [of "req0\<lparr>rq_ReceiveTime := now, rq_Cmd := cmd\<rparr>" mc me now ed i "cmd # args" "rl\<lparr>tk_Chan := []\<rparr>" d rest]
    by (auto simp: list_all_iff)
qed

text \<open>The two numbers that end a printed \<open>cas\<close> command are swapped: \<open>Write\<close> prints the cas number before the length of the
  value and \<open>Read\<close> takes the length first, so that a reader of the line takes the cas number for the length and the
  length for the cas number.\<close>

theorem cas_written_swapped:
  assumes "rq_Cmd req = ''cas''" and "rq_Keys req = [k]" and "word_ok k" and "rq_Item req = Some it"
    and "in_int64 (mi_Flag it)" and "in_int64 (mi_Exptime it)" and "0 \<le> mi_Cas it" and "mi_Cas it \<le> BodyMax mc"
    and "BodyMax mc < 2 ^ 32" and "mi_Cas it \<le> BodyBig mc" and "int (length (item_body it)) < 2 ^ 63"
  shows "\<exists>text line rest parts r. req_Write req = Some (text, None) \<and> read_line text = Some (line, rest) \<and> splitKeys line = Some parts \<and>
    store_args mc d now parts (fresh_request\<lparr>rq_Cmd := ''cas''\<rparr>) = Inr (mi_Cas it, r) \<and>
    map_option mi_Cas (rq_Item r) = Some (int (length (item_body it)))"
proof -
  let ?n = "int (length (item_body it))"
  let ?args = "k # [Itoa (mi_Flag it), Itoa (mi_Exptime it), Itoa (mi_Cas it), Itoa ?n] @ (if rq_NoReply req then [''noreply''] else [])"
  have nr: "word_ok ''noreply''" "word_ok ''cas''" by (simp_all add: word_ok_def nl_def)
  have w: "\<forall>w \<in> set (''cas'' # ?args). word_ok w" using assms(3) nr by (auto simp: Itoa_word)
  have "req_Write req = Some (join '' '' (''cas'' # ?args) @ crlf @ string_of_bytes (item_body it) @ crlf, None)"
    using assms(1,2,4) by (simp add: req_Write_def line_cmds_def store_cmds_def noreply_text_def join_concat)
  moreover have a: "Atoi (Itoa (mi_Flag it)) = (mi_Flag it, None)" "Atoi (Itoa (mi_Exptime it)) = (mi_Exptime it, None)"
    "Atoi (Itoa (mi_Cas it)) = (mi_Cas it, None)" "Atoi (Itoa ?n) = (?n, None)"
    using assms(5-11) by (auto simp: in_int64_def intro!: Atoi_Itoa)
  have "IsValidValueSize mc (word_of_int (mi_Cas it))" using assms(7-9) by (intro valid_size)
  then have "\<exists>r. store_args mc d now (''cas'' # ?args) (fresh_request\<lparr>rq_Cmd := ''cas''\<rparr>) = Inr (mi_Cas it, r) \<and>
      map_option mi_Cas (rq_Item r) = Some ?n"
    using a assms(10) by (cases "rq_NoReply req") (simp_all add: store_args_def Let_def)
  ultimately show ?thesis using line_words(1,2) [OF w] by blast
qed

section \<open>Responses\<close>

fun counter :: "nat \<Rightarrow> BeansdbRL \<Rightarrow> int" where
  "counter n d = [rl_Size (AllocRL d), rl_Count (AllocRL d), rl_Size (GetData d), rl_Count (GetData d),
     rl_Size (SetData d), rl_Count (SetData d), rl_Size (FlushData d), rl_Count (FlushData d)] ! n"

definition charge :: "nat \<Rightarrow> string \<times> mcItem \<Rightarrow> int" where
  "charge n ki =
     (let a = mi_CArray (snd ki); c = (if Addr a \<noteq> 0 then 1 else 0); g = (if counted_key (fst ki) then 1 else 0)
      in [c * Cap a, c, g * Cap a, g, 0, 0, 0, 0] ! n)"

definition value_ok :: "MCConfig \<Rightarrow> string \<times> mcItem \<Rightarrow> bool" where
  "value_ok mc ki \<longleftrightarrow> word_ok (fst ki) \<and> in_int64 (mi_Flag (snd ki)) \<and> in_int64 (mi_Cas (snd ki)) \<and>
     int (length (item_body (snd ki))) \<le> BodyMax mc"

definition value_view :: "bool \<Rightarrow> string \<times> mcItem \<Rightarrow> string \<times> int \<times> int \<times> bytes" where
  "value_view cas ki = (fst ki, mi_Flag (snd ki), if cas then mi_Cas (snd ki) else 0, item_body (snd ki))"

lemma less_8: "n < (8::nat) \<Longrightarrow> n = 0 \<or> n = 1 \<or> n = 2 \<or> n = 3 \<or> n = 4 \<or> n = 5 \<or> n = 6 \<or> n = 7"
  by linarith

lemma clean_item_counter:
  assumes "fst ki \<noteq> []"
  shows "\<exists>d'. clean_item ki d = Some d' \<and> (\<forall>n < 8. counter n d' = counter n d - charge n ki)"
  using assms by (auto simp: clean_item_def charge_def Free_def Let_def split: prod.splits dest!: less_8)

lemma clean_items_counter:
  assumes "\<forall>ki \<in> set kis. fst ki \<noteq> []"
  shows "\<exists>d'. clean_items kis d = Some d' \<and> (\<forall>n < 8. counter n d' = counter n d - (\<Sum>ki \<leftarrow> kis. charge n ki))"
  using assms
proof (induction kis arbitrary: d)
  case (Cons ki kis)
  obtain d1 where d1: "clean_item ki d = Some d1" "\<forall>n < 8. counter n d1 = counter n d - charge n ki"
    using clean_item_counter [of ki d] Cons.prems by auto
  obtain d2 where "clean_items kis d1 = Some d2" "\<forall>n < 8. counter n d2 = counter n d1 - (\<Sum>ki \<leftarrow> kis. charge n ki)"
    using Cons.IH [of d1] Cons.prems by auto
  then show ?case using d1 by (simp del: counter.simps)
qed simp

lemma AList_update_new: "k \<notin> fst ` set xs \<Longrightarrow> AList.update k v xs = xs @ [(k, v)]"
  by (induction xs) auto

lemma read_value_ok:
  assumes "value_ok mc ki" "BodyMax mc < 2 ^ 32" "\<forall>n. malloc me n \<noteq> 0"
  shows "\<exists>it d'. read_value mc me (''VALUE'' # fst ki # [Itoa (mi_Flag (snd ki)), Itoa (int (length (item_body (snd ki))))] @ (if cas then [Itoa (mi_Cas (snd ki))] else []))
      d (string_of_bytes (item_body (snd ki)) @ crlf @ rest) = Some (Inr (fst ki, it, d', rest)) \<and>
    value_view True (fst ki, it) = value_view cas ki \<and> (\<forall>n < 8. counter n d' = counter n d + charge n (fst ki, it))"
proof -
  let ?it = "snd ki" and ?b = "item_body (snd ki)"
  have a: "Atoi (Itoa (mi_Flag ?it)) = (mi_Flag ?it, None)" "Atoi (Itoa (mi_Cas ?it)) = (mi_Cas ?it, None)"
    "Atoi (Itoa (int (length ?b))) = (int (length ?b), None)"
    using assms(1,2) by (auto simp: value_ok_def in_int64_def intro!: Atoi_Itoa)
  have v: "IsValidValueSize mc (word_of_int (int (length ?b)))" using assms(1,2) by (intro valid_size) (simp_all add: value_ok_def)
  obtain ar d1 where al: "Alloc mc me (int (length ?b)) d = Some (Some ar, d1)"
    using assms(3) by (cases "int (length ?b) \<le> BodyInC mc") (auto simp: Alloc_def)
  have ch: "counter n d1 = counter n d + [if Addr ar \<noteq> 0 then Cap ar else 0, if Addr ar \<noteq> 0 then 1 else 0, 0, 0, 0, 0, 0, 0] ! n" if "n < 8" for n
    using al spec [OF assms(3), of "int (length ?b)"] less_8 [OF that] by (auto simp: Alloc_def split: if_splits)
  have t: "take (length ?b) (string_of_bytes ?b @ crlf @ rest) = string_of_bytes ?b"
    "drop (length ?b) (string_of_bytes ?b @ crlf @ rest) = crlf @ rest" "drop 2 (crlf @ rest) = rest" by (simp_all add: crlf_def)
  let ?new = "zero_item\<lparr>mi_Flag := mi_Flag ?it, mi_Cas := if cas then mi_Cas ?it else 0, mi_CArray := ar\<lparr>Body := ?b\<rparr>\<rparr>"
  let ?d = "if counted_key (fst ki) then d1\<lparr>GetData := AddSizeAndCount (Cap ar) (GetData d1)\<rparr> else d1"
  have "read_value mc me (''VALUE'' # fst ki # [Itoa (mi_Flag ?it), Itoa (int (length ?b))] @ (if cas then [Itoa (mi_Cas ?it)] else []))
      d (string_of_bytes ?b @ crlf @ rest) = Some (Inr (fst ki, ?new, ?d, rest))"
    using a v al t by (cases cas) (simp_all add: read_value_def Let_def)
  moreover have "counter n ?d = counter n d + charge n (fst ki, ?new)" if "n < 8" for n
    using ch [OF that] less_8 [OF that] by (auto simp: charge_def Let_def)
  ultimately show ?thesis by (intro exI [of _ ?new] exI [of _ ?d]) (simp add: value_view_def)
qed

lemma value_text_words:
  "value_text cas ki = join '' '' (''VALUE'' # fst ki # [Itoa (mi_Flag (snd ki)), Itoa (int (length (item_body (snd ki))))] @ (if cas then [Itoa (mi_Cas (snd ki))] else []))
     @ crlf @ string_of_bytes (item_body (snd ki)) @ crlf"
  by (cases ki) (simp add: value_text_def join_concat)

lemma resp_loop_end: "resp_loop mc me resp d (''END'' @ crlf @ rest) = Some (resp\<lparr>rs_Status := ''END''\<rparr>, None, d, rest)"
proof -
  have "word_ok ''END''" by (simp add: word_ok_def nl_def)
  then show ?thesis using line_words(1) [of "[''END'']" rest] line_words(2) [of "[''END'']"] by (subst resp_loop.simps) simp
qed

lemma VALUE_word: "word_ok ''VALUE''"
  by (simp add: word_ok_def nl_def)

lemma resp_loop_values:
  assumes "\<forall>ki \<in> set kis. value_ok mc ki" "BodyMax mc < 2 ^ 32" "\<forall>n. malloc me n \<noteq> 0"
    "distinct (map fst (rs_Items resp @ kis))"
  shows "\<exists>its d'. resp_loop mc me resp d (concat (map (value_text cas) kis) @ ''END'' @ crlf @ rest) =
      Some (resp\<lparr>rs_Status := ''END'', rs_Items := rs_Items resp @ its\<rparr>, None, d', rest) \<and>
    map (value_view True) its = map (value_view cas) kis \<and> (\<forall>n < 8. counter n d' = counter n d + (\<Sum>ki \<leftarrow> its. charge n ki))"
  using assms
proof (induction kis arbitrary: resp d)
  case Nil
  then show ?case using resp_loop_end [of mc me resp d rest] by (auto simp del: counter.simps)
next
  case (Cons ki kis)
  let ?more = "concat (map (value_text cas) kis) @ ''END'' @ crlf @ rest"
  let ?ws = "''VALUE'' # fst ki # [Itoa (mi_Flag (snd ki)), Itoa (int (length (item_body (snd ki))))] @ (if cas then [Itoa (mi_Cas (snd ki))] else [])"
  obtain it d1 where r: "read_value mc me ?ws d (string_of_bytes (item_body (snd ki)) @ crlf @ ?more) = Some (Inr (fst ki, it, d1, ?more))"
    "value_view True (fst ki, it) = value_view cas ki" "\<forall>n < 8. counter n d1 = counter n d + charge n (fst ki, it)"
    using read_value_ok [of mc ki me cas d ?more] Cons.prems(1-3) by auto
  have "\<forall>w \<in> set ?ws. word_ok w" 
    using Cons.prems(1) VALUE_word by (auto simp: value_ok_def Itoa_word)
  note L = line_words(1,2) [OF this]
  let ?resp = "resp\<lparr>rs_Status := ''VALUE'', rs_Items := rs_Items resp @ [(fst ki, it)]\<rparr>"
  have step: "resp_loop mc me resp d (concat (map (value_text cas) (ki # kis)) @ ''END'' @ crlf @ rest) = resp_loop mc me ?resp d1 ?more"
  proof -
    have e: "concat (map (value_text cas) (ki # kis)) @ ''END'' @ crlf @ rest =
        join '' '' ?ws @ crlf @ (string_of_bytes (item_body (snd ki)) @ crlf @ ?more)" by (simp add: value_text_words)
    have u: "AList.update (fst ki) it (rs_Items resp) = rs_Items resp @ [(fst ki, it)]"
      using Cons.prems(4) by (intro AList_update_new) (auto simp: image_iff)
    show ?thesis unfolding e
      by (subst resp_loop.simps, unfold L(1) option.case prod.case L(2)) (simp add: r(1) u del: append.simps)
  qed
  have "distinct (map fst (rs_Items ?resp @ kis))" using Cons.prems(4) by auto
  from Cons.IH [OF _ Cons.prems(2,3) this, of d1] Cons.prems(1) obtain its d' where
    i: "resp_loop mc me ?resp d1 ?more = Some (?resp\<lparr>rs_Status := ''END'', rs_Items := rs_Items ?resp @ its\<rparr>, None, d', rest)"
    "map (value_view True) its = map (value_view cas) kis" "\<forall>n < 8. counter n d' = counter n d1 + (\<Sum>ki \<leftarrow> its. charge n ki)"
    by auto
  then show ?case using step r(2,3) by (intro exI [of _ "(fst ki, it) # its"] exI [of _ d']) (simp del: counter.simps)
qed

text \<open>C29: a response with values that \<open>Write\<close> prints is read back: the keys, flags, cas numbers (when asked for) and bodies
  are the same, in order, and the rest of the connection is left unread; cleaning the response that was read gives back
  every buffer it allocated, to the byte.\<close>

theorem response_roundtrip:
  assumes "rs_Status resp = ''VALUE''" and "\<not> rs_Noreply resp" and "\<forall>ki \<in> set (rs_Items resp). value_ok mc ki"
    and "distinct (map fst (rs_Items resp))" and "BodyMax mc < 2 ^ 32" and "\<forall>n. malloc me n \<noteq> 0"
    and "resp_Write resp = Some text"
  shows "\<exists>resp' d1 d2. resp_Read mc me new_response d (text @ rest) = Some (resp', None, d1, rest) \<and> rs_Status resp' = ''END'' \<and>
    map (value_view True) (rs_Items resp') = map (value_view (rs_Cas resp)) (rs_Items resp) \<and>
    CleanBuffer resp' d1 = Some (resp'\<lparr>rs_Items := []\<rparr>, d2) \<and> (\<forall>n < 8. counter n d2 = counter n d)"
proof -
  have t: "text @ rest = concat (map (value_text (rs_Cas resp)) (rs_Items resp)) @ ''END'' @ crlf @ rest"
    using assms(1,2,7) by (simp add: resp_Write_def)
  obtain its d1 where r: "resp_Read mc me new_response d (text @ rest) = Some (new_response\<lparr>rs_Status := ''END'', rs_Items := its\<rparr>, None, d1, rest)"
    "map (value_view True) its = map (value_view (rs_Cas resp)) (rs_Items resp)" "\<forall>n < 8. counter n d1 = counter n d + (\<Sum>ki \<leftarrow> its. charge n ki)"
    unfolding t resp_Read_def using resp_loop_values [OF assms(3,5,6), of "new_response\<lparr>rs_Items := []\<rparr>" d "rs_Cas resp" rest] assms(4)
    by (auto simp: new_response_def)
  have "fst ki \<noteq> []" if "ki \<in> set its" for ki
  proof -
    have "value_view True ki \<in> set (map (value_view (rs_Cas resp)) (rs_Items resp))" using that unfolding r(2) [symmetric] by simp
    then show ?thesis using assms(3) by (auto simp: value_view_def value_ok_def word_ok_def)
  qed
  then obtain d2 where "clean_items its d1 = Some d2" "\<forall>n < 8. counter n d2 = counter n d1 - (\<Sum>ki \<leftarrow> its. charge n ki)"
    using clean_items_counter [of its d1] by blast
  then show ?thesis using r by (intro exI [of _ "new_response\<lparr>rs_Status := ''END'', rs_Items := its\<rparr>"] exI [of _ d1] exI [of _ d2])
      (simp add: CleanBuffer_def del: counter.simps)
qed

section \<open>Examples\<close>

definition default_mc :: MCConfig where
  "default_mc = \<lparr>MaxKeyLen = 250, MaxReq = 16, BodyMax = 52428800, BodyBig = 1048576, BodyInC = 4096, FlushMax = 104857600, TimeoutMS = 3000\<rparr>"

definition roomy_mem :: MemEnv where
  "roomy_mem = \<lparr>malloc = (\<lambda>_. 1), junk = (\<lambda>_. 0)\<rparr>"

definition sample_value :: mcItem where
  "sample_value = zero_item\<lparr>mi_Flag := 5, mi_CArray := nil_array\<lparr>Body := [104, 105]\<rparr>\<rparr>"

definition sample_set :: Request where
  "sample_set = fresh_request\<lparr>rq_Cmd := ''set'', rq_Keys := [''k''], rq_Item := Some sample_value, rq_NoReply := True\<rparr>"

lemma sample_value_ok: "store_ok default_mc ResetAll sample_value"
  by (simp add: store_ok_def sample_value_def in_int64_def zero_item_def nil_array_def default_mc_def)

lemma roomy: "\<forall>n. malloc roomy_mem n \<noteq> 0" "BodyMax default_mc < 2 ^ 32"
  by (simp_all add: roomy_mem_def default_mc_def)

lemma new_has_token: "0 < n \<Longrightarrow> has_token (NewReqLimiter n)"
  by (simp add: has_token_def NewReqLimiter_def upt_conv_Cons)

definition sample_noreply_get :: Request where
  "sample_noreply_get = fresh_request\<lparr>rq_Cmd := ''get'', rq_Keys := [''k''], rq_NoReply := True\<rparr>"

theorem request_roundtrip_witness:
  "(\<exists>text res. req_Write sample_set = Some (text, None) \<and>
     req_Read default_mc roomy_mem 7 8 0 fresh_request (NewReqLimiter 16) ResetAll (text @ ''quit'') = Some res \<and> rr_rest res = ''quit'' \<and>
     map_option item_view (rq_Item (rr_req res)) = Some (5, 0, 0, [104, 105]) \<and> rq_NoReply (rr_req res)) \<and>
   (\<exists>text res. req_Write sample_noreply_get = Some (text, None) \<and>
     req_Read default_mc roomy_mem 7 8 0 fresh_request (NewReqLimiter 16) ResetAll (text @ ''quit'') = Some res \<and>
     \<not> (rr_err res = None \<and> same_request (rr_req res) sample_noreply_get))"
proof
  have tok: "has_token (NewReqLimiter 16)" by (rule new_has_token) simp
  have w: "printable default_mc ResetAll sample_set" "wire_ok sample_set" using sample_value_ok
    by (simp_all add: printable_def wire_ok_def sample_set_def fresh_request_def one_key_item_def sample_value_def zero_item_def word_ok_def nl_def line_cmds_def)
  obtain out where t: "req_Write sample_set = Some (out, None)"
    by (simp add: req_Write_def sample_set_def fresh_request_def line_cmds_def store_cmds_def Let_def)
  from request_roundtrip [OF w(1) t roomy(2,1) tok, of 7 8 0 "''quit''"] w(2) obtain res where
    r: "req_Read default_mc roomy_mem 7 8 0 fresh_request (NewReqLimiter 16) ResetAll (out @ ''quit'') = Some res" "rr_rest res = ''quit''"
    "same_request (rr_req res) sample_set" by blast
  then show "\<exists>text res. req_Write sample_set = Some (text, None) \<and>
     req_Read default_mc roomy_mem 7 8 0 fresh_request (NewReqLimiter 16) ResetAll (text @ ''quit'') = Some res \<and> rr_rest res = ''quit'' \<and>
     map_option item_view (rq_Item (rr_req res)) = Some (5, 0, 0, [104, 105]) \<and> rq_NoReply (rr_req res)" using t
    by (simp add: same_request_def sample_set_def fresh_request_def item_view_def sample_value_def zero_item_def nil_array_def)
  have g: "printable default_mc ResetAll sample_noreply_get" "\<not> wire_ok sample_noreply_get" "rq_Cmd sample_noreply_get \<in> set line_cmds"
    by (simp_all add: printable_def wire_ok_def sample_noreply_get_def fresh_request_def word_ok_def nl_def line_cmds_def)
  from request_roundtrip [OF g(1) req_Write_line [OF g(3)] roomy(2,1) tok, of 7 8 0 "''quit''"] g(2) req_Write_line [OF g(3)]
  show "\<exists>text res. req_Write sample_noreply_get = Some (text, None) \<and>
     req_Read default_mc roomy_mem 7 8 0 fresh_request (NewReqLimiter 16) ResetAll (text @ ''quit'') = Some res \<and>
     \<not> (rr_err res = None \<and> same_request (rr_req res) sample_noreply_get)" by blast
qed

definition no_tokens :: ReqLimiter where
  "no_tokens = (NewReqLimiter 1)\<lparr>tk_Chan := []\<rparr>"

definition get_line :: string where
  "get_line = ''get a'' @ crlf"

theorem token_commands_witness:
  "(\<exists>res. req_Read default_mc roomy_mem 7 8 0 fresh_request no_tokens ResetAll (''version'' @ crlf) = Some res \<and> rr_rl res = no_tokens) \<and>
   (\<exists>res. req_Read default_mc roomy_mem 7 8 0 fresh_request (NewReqLimiter 1) ResetAll get_line = Some res \<and> rq_Working (rr_req res) \<and> rq_Cmd (rr_req res) = ''get'')"
proof
  have w: "\<not> rq_Working fresh_request" by (simp add: fresh_request_def)
  have c: "list_all word_ok [''version'']" "''version'' \<notin> set token_cmds"
    by (simp_all add: word_ok_def nl_def token_cmds_def store_cmds_def num_cmds_def)
  show "\<exists>res. req_Read default_mc roomy_mem 7 8 0 fresh_request no_tokens ResetAll (''version'' @ crlf) = Some res \<and> rr_rl res = no_tokens"
    using token_commands [OF w, of default_mc roomy_mem 7 8 0 "NewReqLimiter 1" ResetAll _ _ "''version''" "[]" "[]"] c by (auto simp: no_tokens_def)
  have "map_option (\<lambda>res. (rr_err res, rq_Cmd (rr_req res))) (req_Read default_mc roomy_mem 7 8 0 fresh_request (NewReqLimiter 1) ResetAll get_line) = Some (None, ''get'')"
    by code_simp
  then obtain res where r: "req_Read default_mc roomy_mem 7 8 0 fresh_request (NewReqLimiter 1) ResetAll get_line = Some res"
    "rr_err res = None" "rq_Cmd (rr_req res) = ''get''" by auto
  then show "\<exists>res. req_Read default_mc roomy_mem 7 8 0 fresh_request (NewReqLimiter 1) ResetAll get_line = Some res \<and> rq_Working (rr_req res) \<and> rq_Cmd (rr_req res) = ''get''"
    using token_commands [OF w, of default_mc roomy_mem 7 8 0 "NewReqLimiter 1" ResetAll get_line res] by (auto simp: token_cmds_def)
qed

theorem cas_written_swapped_witness:
  "\<exists>text line rest parts r. req_Write (sample_set\<lparr>rq_Cmd := ''cas'', rq_Item := Some (sample_value\<lparr>mi_Cas := 77\<rparr>)\<rparr>) = Some (text, None) \<and>
     read_line text = Some (line, rest) \<and> splitKeys line = Some parts \<and>
     store_args default_mc ResetAll 7 parts (fresh_request\<lparr>rq_Cmd := ''cas''\<rparr>) = Inr (77, r) \<and> map_option mi_Cas (rq_Item r) = Some 2"
proof -
  let ?req = "sample_set\<lparr>rq_Cmd := ''cas'', rq_Item := Some (sample_value\<lparr>mi_Cas := 77\<rparr>)\<rparr>"
  have "rq_Keys ?req = [''k'']" "word_ok ''k''" "rq_Item ?req = Some (sample_value\<lparr>mi_Cas := 77\<rparr>)"
    by (simp_all add: sample_set_def word_ok_def nl_def)
  from cas_written_swapped [OF _ this, of default_mc ResetAll 7] show ?thesis
    by (simp add: sample_value_def zero_item_def nil_array_def in_int64_def default_mc_def)
qed

theorem response_roundtrip_witness:
  "\<exists>text resp d1. resp_Write (new_response\<lparr>rs_Status := ''VALUE'', rs_Items := [(''k'', sample_value)]\<rparr>) = Some text \<and>
     resp_Read default_mc roomy_mem new_response ResetAll text = Some (resp, None, d1, []) \<and>
     map (value_view True) (rs_Items resp) = [(''k'', 5, 0, [104, 105])]"
proof -
  let ?resp = "new_response\<lparr>rs_Status := ''VALUE'', rs_Items := [(''k'', sample_value)]\<rparr>"
  obtain out where t: "resp_Write ?resp = Some out" by (simp add: resp_Write_def new_response_def)
  have "\<forall>ki \<in> set (rs_Items ?resp). value_ok default_mc ki" "rs_Status ?resp = ''VALUE''" "\<not> rs_Noreply ?resp" "distinct (map fst (rs_Items ?resp))"
    by (simp_all add: value_ok_def word_ok_def nl_def sample_value_def zero_item_def nil_array_def in_int64_def default_mc_def new_response_def)
  from response_roundtrip [OF this(2,3,1,4) roomy(2,1) t, of ResetAll "[]"] t show ?thesis
    by (auto simp: value_view_def sample_value_def zero_item_def nil_array_def new_response_def)
qed

end
