(* ===== verification/McServer.thy ===== *)
theory McServer
  imports Protocol
begin

text \<open>
  The server side of the memcache package: processing a request on a storage client (\<open>memcache/protocol.go\<close>), the counters of
  \<open>memcache/stats.go\<close>, the map store of \<open>memcache/store.go\<close> and one turn of a connection, \<open>ServeOnce\<close> (\<open>memcache/server.go\<close>).  A storage
  client is a record of functions over its own state and the memory counters.  The map store keeps values; that the
  items it returns are shared with the store is not modelled.  Times at which the clock is read are arguments, writes
  to the connection do not fail.  The locale \<open>storage\<close> states what a client of the interface relies on; the lemmas
  show what requests answer on any such store, and that a connection answers a set and a get with the value that was set.
\<close>

section \<open>Definitions\<close>

subsection \<open>Storage clients\<close>

type_synonym ('s, 'a) storage_op = "'s \<times> BeansdbRL \<Rightarrow> ((mc_err + 'a) \<times> 's \<times> BeansdbRL) option"

record 's StorageClient =
  sc_Get :: "string \<Rightarrow> ('s, mcItem option) storage_op"
  sc_GetMulti :: "string list \<Rightarrow> ('s, (string \<times> mcItem) list) storage_op"
  sc_Set :: "string \<Rightarrow> mcItem \<Rightarrow> bool \<Rightarrow> ('s, bool) storage_op"
  sc_Append :: "string \<Rightarrow> bytes \<Rightarrow> ('s, bool) storage_op"
  sc_Incr :: "string \<Rightarrow> int \<Rightarrow> ('s, int) storage_op"
  sc_Delete :: "string \<Rightarrow> ('s, bool) storage_op"
  sc_Len :: "'s \<Rightarrow> int option"
  sc_Process :: "string \<Rightarrow> string list \<Rightarrow> 's \<Rightarrow> string \<times> string"

subsection \<open>The map store\<close>

type_synonym mapStore = "(string \<times> mcItem) list"

definition NewMapStore :: mapStore where
  "NewMapStore = []"

definition ms_Get :: "string \<Rightarrow> (mapStore, mcItem option) storage_op" where
  "ms_Get key = (\<lambda>(s, d). Some (Inr (map_of s key), s, d))"

definition ms_GetMulti :: "string list \<Rightarrow> (mapStore, (string \<times> mcItem) list) storage_op" where
  "ms_GetMulti keys = (\<lambda>(s, d). Some (Inr (fold (\<lambda>key rs. case map_of s key of
       Some r \<Rightarrow> AList.update key r rs | None \<Rightarrow> rs) keys []), s, d))"

text \<open>\<open>Set\<close> draws a cas number; a copy that cannot be allocated is an empty array.\<close>

definition ms_Set :: "MCConfig \<Rightarrow> MemEnv \<Rightarrow> int \<Rightarrow> string \<Rightarrow> mcItem \<Rightarrow> bool \<Rightarrow> (mapStore, bool) storage_op" where
  "ms_Set mc me cas key item noreply = (\<lambda>(s, d). do {
     (r, d1) \<leftarrow> CArray_Copy mc me (mi_CArray item) d;
     let a = (case r of Some a \<Rightarrow> a | None \<Rightarrow> nil_array);
     Some (Inr True, AList.update key (item\<lparr>mi_Cas := cas, mi_CArray := a\<rparr>) s, d1)
   })"

definition ms_Append :: "string \<Rightarrow> bytes \<Rightarrow> (mapStore, bool) storage_op" where
  "ms_Append key v = (\<lambda>(s, d). Some (case map_of s key of
       Some r \<Rightarrow> if mi_Flag r = 0
         then (Inr True, AList.update key (r\<lparr>mi_CArray := (mi_CArray r)\<lparr>Body := item_body r @ v\<rparr>\<rparr>) s, d)
         else (Inr False, s, d)
     | None \<Rightarrow> (Inr False, s, d)))"

text \<open>\<open>int64\<close> addition wraps around.\<close>

definition add64 :: "int \<Rightarrow> int \<Rightarrow> int" where
  "add64 a b = sint (word_of_int (a + b) :: u64)"

text \<open>The wording of a conversion error is an argument.\<close>

definition ms_Incr :: "(string \<Rightarrow> num_err \<Rightarrow> string) \<Rightarrow> string \<Rightarrow> int \<Rightarrow> (mapStore, int) storage_op" where
  "ms_Incr etext key v = (\<lambda>(s, d). Some (case map_of s key of
       None \<Rightarrow> (Inr v, s, d)
     | Some r \<Rightarrow>
         (let body = string_of_bytes (item_body r) in
          case Atoi body of
            (_, Some e) \<Rightarrow> (Inl (ErrMsg (etext body e)), s, d)
          | (n, None) \<Rightarrow>
              let m = add64 n v
              in (Inr m, AList.update key (r\<lparr>mi_CArray := (mi_CArray r)\<lparr>Body := bytes_of_string (Itoa m)\<rparr>\<rparr>) s, d))))"

definition ms_Delete :: "string \<Rightarrow> (mapStore, bool) storage_op" where
  "ms_Delete key = (\<lambda>(s, d). Some (case map_of s key of
       Some _ \<Rightarrow> (Inr True, AList.delete key s, d)
     | None \<Rightarrow> (Inr False, s, d)))"

definition map_client :: "(string \<Rightarrow> num_err \<Rightarrow> string) \<Rightarrow> MCConfig \<Rightarrow> MemEnv \<Rightarrow> int \<Rightarrow> mapStore StorageClient" where
  "map_client etext mc me cas = \<lparr>sc_Get = ms_Get, sc_GetMulti = ms_GetMulti, sc_Set = ms_Set mc me cas, sc_Append = ms_Append,
     sc_Incr = ms_Incr etext, sc_Delete = ms_Delete, sc_Len = (\<lambda>s. Some (int (length s))), sc_Process = (\<lambda>_ _ _. ([], []))\<rparr>"

subsection \<open>Counters\<close>

record Stats =
  st_cmd_get :: int
  st_cmd_set :: int
  st_cmd_delete :: int
  st_get_hits :: int
  st_get_misses :: int
  st_curr_connections :: int
  st_total_connections :: int
  st_bytes_read :: int
  st_bytes_written :: int
  st_slow_cmd :: int

text \<open>The map that \<open>Stats.Stats\<close> builds; the entries about the process and the time come from outside.\<close>

definition stats_map :: "(string \<times> int) list \<Rightarrow> Stats \<Rightarrow> (string \<times> int) list" where
  "stats_map sys s = [(''cmd_get'', st_cmd_get s), (''cmd_set'', st_cmd_set s), (''cmd_delete'', st_cmd_delete s),
     (''get_hits'', st_get_hits s), (''get_misses'', st_get_misses s), (''curr_connections'', st_curr_connections s),
     (''total_connections'', st_total_connections s), (''bytes_read'', st_bytes_read s), (''bytes_written'', st_bytes_written s),
     (''slow_cmd'', st_slow_cmd s)] @ sys @ [(''avail_space'', 0), (''total_space'', 0), (''curr_items'', 0)]"

subsection \<open>Processing a request\<close>

type_synonym ('s) process_res = "((Response option \<times> mc_err option) \<times> Stats \<times> 's \<times> BeansdbRL) option"

definition server_error :: "mc_err \<Rightarrow> Response \<Rightarrow> Response" where
  "server_error e resp = resp\<lparr>rs_Status := ''SERVER_ERROR'', rs_Msg := err_text e\<rparr>"

definition process_get :: "MCConfig \<Rightarrow> 's StorageClient \<Rightarrow> Request \<Rightarrow> Response \<Rightarrow> Stats \<Rightarrow> 's \<times> BeansdbRL \<Rightarrow> 's process_res" where
  "process_get mc sc req resp0 st sd =
     (if \<exists>k \<in> set (rq_Keys req). \<not> IsValidKeySize mc (of_nat (length k))
      then Some ((Some (resp0\<lparr>rs_Status := ''CLIENT_ERROR'', rs_Msg := err_text ErrKeyLength\<rparr>), None), st, sd)
      else
        let resp = resp0\<lparr>rs_Status := ''VALUE'', rs_Cas := rq_Cmd req = ''gets''\<rparr> in
        if length (rq_Keys req) > 1 then do {
          (r, sd1) \<leftarrow> sc_GetMulti sc (rq_Keys req) sd;
          case r of
            Inl e \<Rightarrow> Some ((Some (server_error e resp), Some e), st, sd1)
          | Inr items \<Rightarrow>
              let n = int (length (rq_Keys req)); hits = int (length items) in
              Some ((Some (resp\<lparr>rs_Items := items\<rparr>), None),
                st\<lparr>st_cmd_get := st_cmd_get st + n, st_get_hits := st_get_hits st + hits, st_get_misses := st_get_misses st + (n - hits),
                   st_bytes_written := st_bytes_written st + sum_list (map (\<lambda>(k, it). int (length (item_body it))) items)\<rparr>, sd1)
        }
        else do {
          key \<leftarrow> nth_opt (rq_Keys req) 0;
          let st1 = st\<lparr>st_cmd_get := st_cmd_get st + 1\<rparr>;
          (r, sd1) \<leftarrow> sc_Get sc key sd;
          case r of
            Inl e \<Rightarrow> Some ((Some (server_error e resp), Some e), st1, sd1)
          | Inr None \<Rightarrow> Some ((Some resp, None), st1\<lparr>st_get_misses := st_get_misses st1 + 1\<rparr>, sd1)
          | Inr (Some it) \<Rightarrow>
              Some ((Some (resp\<lparr>rs_Items := [(key, it)]\<rparr>), None),
                st1\<lparr>st_get_hits := st_get_hits st1 + 1, st_bytes_written := st_bytes_written st1 + int (length (item_body it))\<rparr>, sd1)
        })"

text \<open>The store commands share their counters; the answer depends on the success flag.\<close>

definition stored_response :: "mc_err + bool \<Rightarrow> Response \<Rightarrow> Response" where
  "stored_response r resp =
     (case r of Inl e \<Rightarrow> server_error e resp | Inr suc \<Rightarrow> resp\<lparr>rs_Status := if suc then ''STORED'' else ''NOT_STORED''\<rparr>)"

definition err_of :: "mc_err + 'a \<Rightarrow> mc_err option" where
  "err_of r = (case r of Inl e \<Rightarrow> Some e | Inr _ \<Rightarrow> None)"

definition count_set :: "mcItem \<Rightarrow> Stats \<Rightarrow> Stats" where
  "count_set it st = st\<lparr>st_cmd_set := st_cmd_set st + 1, st_bytes_read := st_bytes_read st + int (length (item_body it))\<rparr>"

definition process_set :: "'s StorageClient \<Rightarrow> Request \<Rightarrow> Response \<Rightarrow> Stats \<Rightarrow> 's \<times> BeansdbRL \<Rightarrow> 's process_res" where
  "process_set sc req resp st sd = do {
     it \<leftarrow> rq_Item req;
     key \<leftarrow> nth_opt (rq_Keys req) 0;
     (r, sd1) \<leftarrow> sc_Set sc key it (rq_NoReply req) sd;
     Some ((Some (stored_response r resp), err_of r), count_set it st, sd1)
   }"

definition process_append :: "'s StorageClient \<Rightarrow> Request \<Rightarrow> Response \<Rightarrow> Stats \<Rightarrow> 's \<times> BeansdbRL \<Rightarrow> 's process_res" where
  "process_append sc req resp st sd = do {
     it \<leftarrow> rq_Item req;
     key \<leftarrow> nth_opt (rq_Keys req) 0;
     (r, sd1) \<leftarrow> sc_Append sc key (item_body it) sd;
     Some ((Some (stored_response r resp), err_of r), count_set it st, sd1)
   }"

text \<open>The error of an increment is local to its case and not returned.\<close>

definition process_incr :: "'s StorageClient \<Rightarrow> Request \<Rightarrow> Response \<Rightarrow> Stats \<Rightarrow> 's \<times> BeansdbRL \<Rightarrow> 's process_res" where
  "process_incr sc req resp st sd = do {
     it \<leftarrow> rq_Item req;
     key \<leftarrow> nth_opt (rq_Keys req) 0;
     let st1 = count_set it st;
     case Atoi (string_of_bytes (item_body it)) of
       (_, Some e) \<Rightarrow> Some ((Some (resp\<lparr>rs_Status := ''CLIENT_ERROR'', rs_Msg := ''invalid number''\<rparr>), None), st1, sd)
     | (add, None) \<Rightarrow> do {
         (r, sd1) \<leftarrow> sc_Incr sc key add sd;
         Some ((Some (case r of Inl e \<Rightarrow> server_error e resp
             | Inr result \<Rightarrow> resp\<lparr>rs_Status := ''INCR'', rs_Msg := Itoa result\<rparr>), None), st1, sd1)
       }
   }"

definition process_delete :: "'s StorageClient \<Rightarrow> Request \<Rightarrow> Response \<Rightarrow> Stats \<Rightarrow> 's \<times> BeansdbRL \<Rightarrow> 's process_res" where
  "process_delete sc req resp st sd = do {
     key \<leftarrow> nth_opt (rq_Keys req) 0;
     (r, sd1) \<leftarrow> sc_Delete sc key sd;
     Some (case r of
         Inl e \<Rightarrow> ((Some (server_error e resp), Some e), st, sd1)
       | Inr suc \<Rightarrow> ((Some (resp\<lparr>rs_Status := if suc then ''DELETED'' else ''NOT_FOUND''\<rparr>), None),
                   st\<lparr>st_cmd_delete := st_cmd_delete st + 1\<rparr>, sd1))
   }"

definition stat_line :: "string \<Rightarrow> string \<Rightarrow> string" where
  "stat_line k v = ''STAT '' @ k @ '' '' @ v @ crlf"

definition Version :: string where "Version = ''2.1.0.18''"

definition process_stats :: "(string \<times> int) list \<Rightarrow> 's StorageClient \<Rightarrow> Request \<Rightarrow> Response \<Rightarrow> Stats \<Rightarrow> 's \<times> BeansdbRL \<Rightarrow> 's process_res" where
  "process_stats sys sc req resp st sd =
     (case sc_Len sc (fst sd) of
        None \<Rightarrow> None
      | Some n \<Rightarrow>
          let m = AList.update ''total_items'' n (AList.update ''curr_items'' n (stats_map sys st));
              ss = (if rq_Keys req \<noteq> []
                    then map (\<lambda>k. stat_line k (Itoa (case map_of m k of Some v \<Rightarrow> v | None \<Rightarrow> 0))) (rq_Keys req)
                    else map (\<lambda>(k, v). stat_line k (Itoa v)) m @ [stat_line ''version'' Version])
          in Some ((Some (resp\<lparr>rs_Status := ''STAT'', rs_Msg := concat ss\<rparr>), None), st, sd))"

definition Process :: "MCConfig \<Rightarrow> (string \<times> int) list \<Rightarrow> 's StorageClient \<Rightarrow> Request \<Rightarrow> Stats \<Rightarrow> 's \<times> BeansdbRL \<Rightarrow> 's process_res" where
  "Process mc sys sc req st sd =
     (let resp = new_response\<lparr>rs_Noreply := rq_NoReply req\<rparr>; cmd = rq_Cmd req;
          ret = (\<lambda>r. Some ((r, None), st, sd)) in
      if cmd \<in> set [''get'', ''gets''] then process_get mc sc req resp st sd
      else if cmd \<in> set [''set'', ''add'', ''replace'', ''cas''] then process_set sc req resp st sd
      else if cmd = ''append'' then process_append sc req resp st sd
      else if cmd = ''incr'' then process_incr sc req resp st sd
      else if cmd = ''delete'' then process_delete sc req resp st sd
      else if cmd = ''stats'' then process_stats sys sc req resp st sd
      else if cmd = ''version'' then ret (Some (resp\<lparr>rs_Status := ''VERSION'', rs_Msg := Version\<rparr>))
      else if cmd \<in> set [''verbosity'', ''flush_all''] then ret (Some (resp\<lparr>rs_Status := ''OK''\<rparr>))
      else ret None)"

text \<open>\<open>Request.Check\<close> of a response.\<close>

definition req_Check :: "Request \<Rightarrow> Response \<Rightarrow> mc_err option" where
  "req_Check req resp =
     (if rq_Cmd req \<in> set [''get'', ''gets''] then
        (case find (\<lambda>(k, it). k \<notin> set (rq_Keys req)) (rs_Items resp) of
           Some (k, _) \<Rightarrow> Some (ErrMsg (''unexpected key in response: '' @ k)) | None \<Rightarrow> None)
      else if (rq_Cmd req \<in> set num_cmds \<and> rs_Status resp \<notin> set [''INCR'', ''DECR'', ''NOT_FOUND'']) \<or>
              (rq_Cmd req \<in> set [''set'', ''add'', ''replace'', ''append'', ''prepend''] \<and>
               rs_Status resp \<notin> set [''STORED'', ''NOT_STORED'', ''EXISTS'', ''NOT_FOUND''])
        then Some (ErrMsg (''unexpected status: '' @ rs_Status resp))
      else None)"

subsection \<open>One turn of a connection\<close>

record Conn =
  cn_in :: string
  cn_out :: string
  cn_close :: bool
  cn_req :: Request

text \<open>The times at which \<open>ServeOnce\<close> reads the clock: when the line is read, when the token arrives, after reading, when the response is
  ready and when the token is released.\<close>

record Times =
  t_recv :: int
  t_token :: int
  t_read :: int
  t_done :: int
  t_put :: int

definition overdue :: "MCConfig \<Rightarrow> int \<Rightarrow> int \<Rightarrow> bool" where
  "overdue mc recvtime now \<longleftrightarrow> now - recvtime > TimeoutMS mc * 1000000"

text \<open>The deferred function: clear the request, clean the response, release the token.\<close>

definition serve_end :: "int \<Rightarrow> nat \<Rightarrow> Response option \<Rightarrow> Request \<Rightarrow> ReqLimiter \<Rightarrow> BeansdbRL \<Rightarrow> (Request \<times> ReqLimiter \<times> BeansdbRL) option" where
  "serve_end now i resp req rl d = do {
     let req1 = req_Clear req;
     d1 \<leftarrow> (case resp of None \<Rightarrow> Some d | Some r \<Rightarrow> map_option snd (CleanBuffer r d));
     if rq_Working req1 then do {
       (reqs, rl1) \<leftarrow> tk_Put now i (\<lambda>_. req1) rl;
       Some (reqs i, rl1, d1)
     }
     else Some (req1, rl, d1)
   }"

definition free_item :: "Request \<Rightarrow> BeansdbRL \<Rightarrow> Request \<times> BeansdbRL" where
  "free_item req d =
     (case rq_Item req of
        None \<Rightarrow> (req, d)
      | Some it \<Rightarrow> (case Free (mi_CArray it) d of (a, d') \<Rightarrow> (req\<lparr>rq_Item := Some (it\<lparr>mi_CArray := a\<rparr>)\<rparr>, d')))"

text \<open>What follows the reading of a request: the response (none closes the connection), the error of the storage client, whether the request
  was late, and the state.\<close>

definition serve_answer ::
    "MCConfig \<Rightarrow> (string \<times> int) list \<Rightarrow> 's StorageClient \<Rightarrow> Times \<Rightarrow> read_res \<Rightarrow> Stats \<Rightarrow> 's
     \<Rightarrow> (Response option \<times> mc_err option \<times> bool \<times> Request \<times> ReqLimiter \<times> Stats \<times> 's \<times> BeansdbRL) option" where
  "serve_answer mc sys sc t res st s =
     (let req = rr_req res; rl = rr_rl res; d = rr_dbrl res in
      case rr_err res of
        Some e \<Rightarrow>
          (case free_item req d of (req1, d1) \<Rightarrow>
            Some (if e = ErrNetworkError then None
                  else if e = ErrNonMemcacheCmd then
                    (case sc_Process sc (rq_Cmd req) (rq_Keys req) s of (status, msg) \<Rightarrow>
                       Some (new_response\<lparr>rs_Status := status, rs_Msg := msg\<rparr>))
                  else if e = ErrOOM then Some (new_response\<lparr>rs_Status := ''NOT_STORED''\<rparr>)
                  else Some (new_response\<lparr>rs_Status := ''CLIENT_ERROR'', rs_Msg := err_text e\<rparr>),
                  None, False, req1, rl, st, s, d1))
      | None \<Rightarrow>
          if overdue mc (rq_ReceiveTime req) (t_read t) then do {
            rl1 \<leftarrow> SetStat (t_read t) ''recv_timeout'' req rl;
            Some (Some (new_response\<lparr>rs_Status := ''RECV_TIMEOUT'', rs_Msg := ''recv_timeout''\<rparr>), None, True, req, rl1, st, s, d)
          }
          else do {
            rl1 \<leftarrow> SetStat (t_read t) ''process'' req rl;
            ((resp, err), st1, s1, d1) \<leftarrow> Process mc sys sc req st (s, d);
            let st2 = (if t_done t - t_read t > 100000000 then st1\<lparr>st_slow_cmd := st_slow_cmd st1 + 1\<rparr> else st1);
            Some (resp, err, False, req, rl1, st2, s1, d1)
          })"

text \<open>\<open>ServeOnce\<close> by connection \<open>i\<close>, in its two parts: the request is read, then it is processed and answered.  A panic on the way is recovered by the deferred
  function; what it leaves is not modelled (\<open>None\<close>).  A response that is late is dropped: the one built in its place is not written.  The
  error returned is that of the storage client when no response is written.\<close>

definition serve_reply ::
    "MCConfig \<Rightarrow> (string \<times> int) list \<Rightarrow> 's StorageClient \<Rightarrow> Times \<Rightarrow> nat \<Rightarrow> read_res \<Rightarrow> Conn \<Rightarrow> Stats \<Rightarrow> 's
     \<Rightarrow> (mc_err option \<times> Conn \<times> ReqLimiter \<times> Stats \<times> 's \<times> BeansdbRL) option" where
  "serve_reply mc sys sc t i res conn st s = do {
     (resp, err, late, req, rl1, st1, s1, d1) \<leftarrow> serve_answer mc sys sc t res st s;
     case resp of
       None \<Rightarrow> do {
         (req2, rl2, d2) \<leftarrow> serve_end (t_put t) i None req rl1 d1;
         Some (None, conn\<lparr>cn_close := True, cn_req := req2\<rparr>, rl2, st1, s1, d2)
       }
     | Some r \<Rightarrow>
         if rs_Noreply r then do {
           (req2, rl2, d2) \<leftarrow> serve_end (t_put t) i resp req rl1 d1;
           Some (err, conn\<lparr>cn_req := req2\<rparr>, rl2, st1, s1, d2)
         }
         else if \<not> late \<and> overdue mc (rq_ReceiveTime req) (t_done t) then do {
           rl2 \<leftarrow> SetStat (t_done t) ''process_timeout'' req rl1;
           (req2, rl3, d2) \<leftarrow> serve_end (t_put t) i resp req rl2 d1;
           Some (err, conn\<lparr>cn_req := req2\<rparr>, rl3, st1, s1, d2)
         }
         else do {
           rl2 \<leftarrow> SetStat (t_done t) ''resp'' req rl1;
           out \<leftarrow> resp_Write r;
           (req2, rl3, d2) \<leftarrow> serve_end (t_put t) i resp req rl2 d1;
           Some (None, conn\<lparr>cn_out := cn_out conn @ out, cn_req := req2\<rparr>, rl3, st1, s1, d2)
         }
   }"

definition ServeOnce ::
    "MCConfig \<Rightarrow> MemEnv \<Rightarrow> (string \<times> int) list \<Rightarrow> 's StorageClient \<Rightarrow> Times \<Rightarrow> nat \<Rightarrow> Conn \<Rightarrow> ReqLimiter \<Rightarrow> Stats \<Rightarrow> 's \<times> BeansdbRL
     \<Rightarrow> (mc_err option \<times> Conn \<times> ReqLimiter \<times> Stats \<times> 's \<times> BeansdbRL) option" where
  "ServeOnce mc me sys sc t i conn rl st sd = do {
     res \<leftarrow> req_Read mc me (t_recv t) (t_token t) i (cn_req conn) rl (snd sd) (cn_in conn);
     serve_reply mc sys sc t i res (conn\<lparr>cn_in := rr_rest res\<rparr>) st (fst sd)
   }"

section \<open>The interface of a store\<close>

text \<open>What the protocol layer relies on: the state of a store stands for a map from keys to flags and bytes, \<open>get\<close> returns what the map has,
  \<open>set\<close> and \<open>delete\<close> update it.\<close>

definition item_data :: "mcItem \<Rightarrow> int \<times> bytes" where
  "item_data it = (mi_Flag it, item_body it)"

locale storage =
  fixes sc :: "'s StorageClient"
    and rep :: "'s \<Rightarrow> (string \<rightharpoonup> int \<times> bytes) \<Rightarrow> bool"
    and set_ok :: "'s \<Rightarrow> string \<Rightarrow> mcItem \<Rightarrow> bool"
    and key_ok :: "string \<Rightarrow> bool"
    and del_ok :: "'s \<Rightarrow> string \<Rightarrow> bool"
  assumes set_stored: "rep s m \<Longrightarrow> set_ok s k it \<Longrightarrow> \<exists>s' d'. sc_Set sc k it nr (s, d) = Some (Inr True, s', d') \<and> rep s' (m(k \<mapsto> item_data it))"
    and get_stored: "rep s m \<Longrightarrow> key_ok k \<Longrightarrow> \<exists>s' d' it. sc_Get sc k (s, d) = Some (Inr it, s', d') \<and> map_option item_data it = m k \<and> rep s' m"
    and delete_stored: "rep s m \<Longrightarrow> del_ok s k \<Longrightarrow> \<exists>s' d'. sc_Delete sc k (s, d) = Some (Inr (m k \<noteq> None), s', d') \<and> rep s' (m(k := None))"
begin

lemma process_set_stored:
  assumes "rep s m" "rq_Cmd req \<in> set [''set'', ''add'', ''replace'', ''cas'']" "rq_Keys req = [k]" "rq_Item req = Some it" "set_ok s k it"
  shows "\<exists>resp st' s' d'. Process mc sys sc req st (s, d) = Some ((Some resp, None), st', s', d') \<and> rs_Status resp = ''STORED'' \<and> rs_Msg resp = [] \<and>
    rs_Items resp = [] \<and> rs_Noreply resp = rq_NoReply req \<and> rep s' (m(k \<mapsto> item_data it))"
proof -
  obtain s' d' where "sc_Set sc k it (rq_NoReply req) (s, d) = Some (Inr True, s', d')" "rep s' (m(k \<mapsto> item_data it))"
    using set_stored [OF assms(1,5)] by blast
  then show ?thesis using assms(2-4)
    by (auto simp: Process_def process_set_def Let_def stored_response_def err_of_def new_response_def)
qed

lemma process_get_stored:
  assumes "rep s m" "key_ok k" "rq_Cmd req \<in> set [''get'', ''gets'']" "rq_Keys req = [k]" "IsValidKeySize mc (of_nat (length k))"
  shows "\<exists>resp st' s' d' items. Process mc sys sc req st (s, d) = Some ((Some resp, None), st', s', d') \<and> rs_Status resp = ''VALUE'' \<and>
    rs_Noreply resp = rq_NoReply req \<and> rs_Cas resp = (rq_Cmd req = ''gets'') \<and> rs_Items resp = items \<and> rep s' m \<and>
    map (\<lambda>(k, it). (k, item_data it)) items = (case m k of Some v \<Rightarrow> [(k, v)] | None \<Rightarrow> [])"
proof -
  obtain s' d' it where g: "sc_Get sc k (s, d) = Some (Inr it, s', d')" "map_option item_data it = m k" "rep s' m"
    using get_stored [OF assms(1,2)] by blast
  show ?thesis
  proof (cases it)
    case None
    then have "m k = None" using g(2) by simp
    with g(1,3) None assms show ?thesis by (auto simp: Process_def process_get_def Let_def new_response_def)
  next
    case (Some x)
    then have "m k = Some (item_data x)" using g(2) by simp
    with g(1,3) Some assms show ?thesis by (auto simp: Process_def process_get_def Let_def new_response_def)
  qed
qed

lemma process_delete_stored:
  assumes "rep s m" "del_ok s k" "rq_Cmd req = ''delete''" "rq_Keys req = [k]"
  shows "\<exists>resp st' s' d'. Process mc sys sc req st (s, d) = Some ((Some resp, None), st', s', d') \<and>
    rs_Status resp = (if m k = None then ''NOT_FOUND'' else ''DELETED'') \<and> rep s' (m(k := None))"
  using delete_stored [OF assms(1,2), of d] assms(3,4) by (auto simp: Process_def process_delete_def Let_def new_response_def)

end

section \<open>The map store is such a store\<close>

definition ms_stored :: "mapStore \<Rightarrow> string \<rightharpoonup> int \<times> bytes" where
  "ms_stored s k = map_option item_data (map_of s k)"

text \<open>An array in Go memory is copied without allocation; for a larger one the copy may fail and the value is lost.\<close>

definition ms_ok :: "MemEnv \<Rightarrow> string \<Rightarrow> mcItem \<Rightarrow> bool" where
  "ms_ok me k it \<longleftrightarrow> Addr (mi_CArray it) = 0 \<or> malloc me (int (length (item_body it))) \<noteq> 0"

lemma ms_Set_stored:
  assumes "ms_ok me k it"
  shows "\<exists>s' d'. ms_Set mc me cas k it nr (s, d) = Some (Inr True, s', d') \<and> ms_stored s' = (ms_stored s)(k \<mapsto> item_data it)"
proof -
  obtain a d1 where "CArray_Copy mc me (mi_CArray it) d = Some (Some a, d1)" "Body a = item_body it"
    using assms by (cases "Addr (mi_CArray it) = 0"; cases "int (length (item_body it)) \<le> BodyInC mc")
      (auto simp: ms_ok_def CArray_Copy_def Alloc_def)
  then show ?thesis by (auto simp: ms_Set_def Let_def ms_stored_def fun_eq_iff item_data_def update_conv')
qed

interpretation mapstore: storage "map_client etext mc me cas" "\<lambda>s m. m = ms_stored s" "\<lambda>_. ms_ok me" "\<lambda>_. True" "\<lambda>_ _. True"
  for etext mc me cas
proof
  show "\<exists>s' d'. sc_Set (map_client etext mc me cas) k it nr (s, d) = Some (Inr True, s', d') \<and> m(k \<mapsto> item_data it) = ms_stored s'"
    if "m = ms_stored s" "ms_ok me k it" for k it nr s d m
    using ms_Set_stored [OF that(2), of mc cas nr s d] that(1) by (fastforce simp: map_client_def)
  show "\<exists>s' d' it. sc_Get (map_client etext mc me cas) k (s, d) = Some (Inr it, s', d') \<and> map_option item_data it = m k \<and> m = ms_stored s'"
    if "m = ms_stored s" for k s d m
    using that by (simp add: map_client_def ms_Get_def ms_stored_def fun_eq_iff)
  show "\<exists>s' d'. sc_Delete (map_client etext mc me cas) k (s, d) = Some (Inr (m k \<noteq> None), s', d') \<and> m(k := None) = ms_stored s'"
    if "m = ms_stored s" for k s d m
    using that by (cases "map_of s k") (auto simp: map_client_def ms_Delete_def ms_stored_def fun_eq_iff delete_conv')
qed

section \<open>A turn of a connection\<close>

definition limiter_ok :: "ReqLimiter \<Rightarrow> bool" where
  "limiter_ok rl \<longleftrightarrow> tk_Chan rl \<noteq> [] \<and> (\<forall>t \<in> set (tk_Chan rl). t < length (tk_Owners rl)) \<and>
     length (tk_Histories rl) = length (tk_Owners rl) \<and> length (tk_Chan rl) \<le> length (tk_Owners rl)"

text \<open>Connection \<open>i\<close> holds the token of its request.\<close>

definition holds_token :: "nat \<Rightarrow> Request \<Rightarrow> ReqLimiter \<Rightarrow> bool" where
  "holds_token i req rl \<longleftrightarrow> rq_Working req \<and> rq_Token req < length (tk_Owners rl) \<and> tk_Owners rl ! rq_Token req = Some i \<and>
     (\<forall>t \<in> set (tk_Chan rl). t < length (tk_Owners rl)) \<and> length (tk_Histories rl) = length (tk_Owners rl) \<and>
     length (tk_Chan rl) < length (tk_Owners rl)"

lemma limiter_has_token: "limiter_ok rl \<Longrightarrow> has_token rl"
  by (cases "tk_Chan rl") (auto simp: limiter_ok_def has_token_def)

lemma RL_Get_holds:
  assumes "limiter_ok rl" "RL_Get now ed i q rl = Some (q\<lparr>rq_Token := t, rq_Working := True\<rparr>, rl')" "rq_Token req = t" "rq_Working req"
  shows "holds_token i req rl'"
proof -
  obtain u us where c: "tk_Chan rl = u # us" using assms(1) by (cases "tk_Chan rl") (auto simp: limiter_ok_def)
  then have u: "u < length (tk_Owners rl)" "u < length (tk_Histories rl)" using assms(1) by (auto simp: limiter_ok_def)
  have "rq_Token (q\<lparr>rq_Token := t, rq_Working := True\<rparr>) = rq_Token (fst (the (RL_Get now ed i q rl)))" using assms(2) by simp
  then have "t = u" using c u by (simp add: RL_Get_def tk_take_eq tk_begin_def tk_enter_def Let_def)
  then show ?thesis using assms c u by (auto simp: RL_Get_def tk_take_eq tk_begin_def tk_enter_def Let_def holds_token_def limiter_ok_def)
qed

lemma SetStat_holds:
  assumes "holds_token i req rl"
  shows "\<exists>rl'. SetStat now msg req rl = Some rl' \<and> holds_token i req rl'"
  using assms by (auto simp: SetStat_def holds_token_def)

lemma serve_end_holds:
  assumes "holds_token i req rl" "case resp of None \<Rightarrow> True | Some r \<Rightarrow> (\<forall>ki \<in> set (rs_Items r). fst ki \<noteq> [])"
  shows "\<exists>req' rl' d'. serve_end now i resp req rl d = Some (req', rl', d') \<and> limiter_ok rl' \<and>
    rq_Item req' = None \<and> \<not> rq_NoReply req' \<and> \<not> rq_Working req'"
proof -
  obtain d1 where d1: "(case resp of None \<Rightarrow> Some d | Some r \<Rightarrow> map_option snd (CleanBuffer r d)) = Some d1"
  proof (cases resp)
    case (Some r)
    then obtain d1 where "clean_items (rs_Items r) d = Some d1" using assms(2) clean_items_counter [of "rs_Items r" d] by auto
    then show ?thesis using Some that [of d1] by (simp add: CleanBuffer_def)
  qed (use that [of d] in simp)
  obtain rl' where "tk_Put now i (\<lambda>_. req_Clear req) rl = Some ((\<lambda>_. req_Clear req)(i := (req_Clear req)\<lparr>rq_Working := False\<rparr>), rl')" "limiter_ok rl'"
    using assms(1) by (auto simp: tk_Put_def holds_token_def req_Clear_def limiter_ok_def Let_def)
  then show ?thesis using d1 assms(1) by (simp add: serve_end_def Let_def) (simp add: req_Clear_def holds_token_def)
qed

text \<open>A request that was read without error and holds a token is answered when the clock does not run out.\<close>

definition in_time :: "MCConfig \<Rightarrow> Times \<Rightarrow> bool" where
  "in_time mc t \<longleftrightarrow> \<not> overdue mc (t_recv t) (t_read t) \<and> \<not> overdue mc (t_recv t) (t_done t)"

lemma ServeOnce_reply:
  assumes read: "req_Read mc me (t_recv t) (t_token t) i (cn_req conn) rl d (cn_in conn) =
      Some \<lparr>rr_err = None, rr_req = req, rr_rl = rl1, rr_dbrl = d1, rr_rest = rest\<rparr>"
    and held: "holds_token i req rl1" and recv: "rq_ReceiveTime req = t_recv t" and time: "in_time mc t"
    and proc: "Process mc sys sc req st (s, d1) = Some ((Some r, None), st1, s1, d2)"
    and items: "\<forall>ki \<in> set (rs_Items r). fst ki \<noteq> []" and reply: "\<not> rs_Noreply r" and out: "resp_Write r = Some out"
  shows "\<exists>conn' rl' st' d'. ServeOnce mc me sys sc t i conn rl st (s, d) = Some (None, conn', rl', st', s1, d') \<and>
    cn_in conn' = rest \<and> cn_out conn' = cn_out conn @ out \<and> cn_close conn' = cn_close conn \<and> limiter_ok rl' \<and>
    rq_Item (cn_req conn') = None \<and> \<not> rq_NoReply (cn_req conn') \<and> \<not> rq_Working (cn_req conn')"
proof -
  obtain rl2 where rl2: "SetStat (t_read t) ''process'' req rl1 = Some rl2" "holds_token i req rl2" using SetStat_holds [OF held] by blast
  obtain rl3 where rl3: "SetStat (t_done t) ''resp'' req rl2 = Some rl3" "holds_token i req rl3" using SetStat_holds [OF rl2(2)] by blast
  obtain q rl4 d3 where e: "serve_end (t_put t) i (Some r) req rl3 d2 = Some (q, rl4, d3)" "limiter_ok rl4" "rq_Item q = None" "\<not> rq_NoReply q" "\<not> rq_Working q"
    using serve_end_holds [OF rl3(2), of "Some r" "t_put t" d2] items by auto
  obtain st2 where "serve_answer mc sys sc t \<lparr>rr_err = None, rr_req = req, rr_rl = rl1, rr_dbrl = d1, rr_rest = rest\<rparr> st s = Some (Some r, None, False, req, rl2, st2, s1, d2)"
    using time recv rl2(1) proc by (simp add: serve_answer_def in_time_def Let_def)
  then show ?thesis using read time recv rl3(1) e out reply by (simp add: ServeOnce_def serve_reply_def in_time_def Let_def)
qed

lemma req_Read_get:
  assumes "word_ok k" "limiter_ok rl"
  shows "\<exists>q t rl'. RL_Get now ed i q rl = Some (q\<lparr>rq_Token := t, rq_Working := True\<rparr>, rl') \<and>
    req_Read mc me now ed i req0 rl d (join '' '' [''get'', k] @ crlf @ rest) = Some \<lparr>rr_err = None,
      rr_req = req0\<lparr>rq_ReceiveTime := now, rq_Cmd := ''get'', rq_Keys := [k], rq_Token := t, rq_Working := True\<rparr>, rr_rl = rl', rr_dbrl = d, rr_rest = rest\<rparr>"
proof -
  obtain t f where tok: "\<And>r. RL_Get now ed i r rl = Some (r\<lparr>rq_Token := t, rq_Working := True\<rparr>, f r)"
    using RL_Get_token [OF limiter_has_token [OF assms(2)]] by metis
  have w: "\<forall>w \<in> set [''get'', k]. word_ok w" using assms(1) by (simp add: word_ok_def nl_def)
  let ?q = "req0\<lparr>rq_ReceiveTime := now, rq_Cmd := ''get'', rq_Keys := [k]\<rparr>"
  show ?thesis using tok [of ?q] unfolding req_Read_line [OF w, of mc me now ed i req0 rl d rest]
    by (intro exI [of _ ?q] exI [of _ t] exI [of _ "f ?q"]) (simp add: read_switch_def Let_def)
qed

context storage
begin

text \<open>A connection that sends a set and then a get of the same key.\<close>

lemma serve_set_get:
  assumes "word_ok k" and "IsValidKeySize mc (of_nat (length k))" and "store_ok mc d it" and "mi_Cas it = 0"
    and "BodyMax mc < 2 ^ 32" and "\<forall>n. malloc me n \<noteq> 0" and "limiter_ok rl" and "in_time mc t1" and "in_time mc t2"
    and "cn_in conn = store_text ''set'' k it False @ join '' '' [''get'', k] @ crlf @ rest"
    and R: "rep s m" "key_ok k" and ok: "\<And>a. Body a = item_body it \<Longrightarrow> set_ok s k (it\<lparr>mi_ReceiveTime := t_recv t1, mi_CArray := a\<rparr>)"
  shows "\<exists>conn1 rl1 st1 s1 d1 conn2 rl2 st2 s2 d2.
    ServeOnce mc me sys sc t1 i conn rl st (s, d) = Some (None, conn1, rl1, st1, s1, d1) \<and>
    ServeOnce mc me sys sc t2 i conn1 rl1 st1 (s1, d1) = Some (None, conn2, rl2, st2, s2, d2) \<and>
    cn_out conn2 = cn_out conn @ ''STORED'' @ crlf @ value_text False (k, it) @ ''END'' @ crlf \<and> cn_in conn2 = rest"
proof -
  let ?in2 = "join '' '' [''get'', k] @ crlf @ rest"
  obtain q t rl' a d' where r: "RL_Get (t_recv t1) (t_token t1) i q rl = Some (q\<lparr>rq_Token := t, rq_Working := True\<rparr>, rl')" "Body a = item_body it"
    "req_Read mc me (t_recv t1) (t_token t1) i (cn_req conn) rl d (cn_in conn) = Some \<lparr>rr_err = None,
      rr_req = (cn_req conn)\<lparr>rq_ReceiveTime := t_recv t1, rq_Cmd := ''set'', rq_Keys := [k], rq_NoReply := False, rq_Token := t, rq_Working := True,
        rq_Item := Some (it\<lparr>mi_ReceiveTime := t_recv t1, mi_CArray := a\<rparr>)\<rparr>, rr_rl = rl', rr_dbrl = d', rr_rest = ?in2\<rparr>"
    using req_Read_store [OF _ assms(1) _ assms(4-6) limiter_has_token [OF assms(7)], of "''set''" d "t_recv t1" "t_token t1" i "cn_req conn" False ?in2] assms(3)
    unfolding assms(10) by auto
  let ?req = "(cn_req conn)\<lparr>rq_ReceiveTime := t_recv t1, rq_Cmd := ''set'', rq_Keys := [k], rq_NoReply := False, rq_Token := t, rq_Working := True,
        rq_Item := Some (it\<lparr>mi_ReceiveTime := t_recv t1, mi_CArray := a\<rparr>)\<rparr>"
  have h: "holds_token i ?req rl'" by (rule RL_Get_holds [OF assms(7) r(1)]) simp_all
  obtain resp st' s1 d1 where p: "Process mc sys sc ?req st (s, d') = Some ((Some resp, None), st', s1, d1)"
    "rs_Status resp = ''STORED''" "rs_Msg resp = []" "rs_Items resp = []" "\<not> rs_Noreply resp"
    "rep s1 (m(k \<mapsto> item_data (it\<lparr>mi_ReceiveTime := t_recv t1, mi_CArray := a\<rparr>)))"
    using process_set_stored [OF R(1), of ?req k "it\<lparr>mi_ReceiveTime := t_recv t1, mi_CArray := a\<rparr>" mc sys st d'] ok [OF r(2)] by auto
  have "resp_Write resp = Some (''STORED'' @ crlf)" using p by (simp add: resp_Write_def)
  with ServeOnce_reply [OF r(3) h _ assms(8) p(1) _ p(5)] p(4) obtain conn1 rl1 st1 d1' where
    one: "ServeOnce mc me sys sc t1 i conn rl st (s, d) = Some (None, conn1, rl1, st1, s1, d1')" "cn_in conn1 = ?in2"
      "cn_out conn1 = cn_out conn @ ''STORED'' @ crlf" "limiter_ok rl1" "\<not> rq_NoReply (cn_req conn1)" by auto
  obtain q2 u rl2 where r2: "RL_Get (t_recv t2) (t_token t2) i q2 rl1 = Some (q2\<lparr>rq_Token := u, rq_Working := True\<rparr>, rl2)"
    "req_Read mc me (t_recv t2) (t_token t2) i (cn_req conn1) rl1 d1' (cn_in conn1) = Some \<lparr>rr_err = None,
      rr_req = (cn_req conn1)\<lparr>rq_ReceiveTime := t_recv t2, rq_Cmd := ''get'', rq_Keys := [k], rq_Token := u, rq_Working := True\<rparr>, rr_rl = rl2, rr_dbrl = d1', rr_rest = rest\<rparr>"
    using req_Read_get [OF assms(1) one(4), of "t_recv t2" "t_token t2" i mc me "cn_req conn1" d1' rest] unfolding one(2) by blast
  let ?req2 = "(cn_req conn1)\<lparr>rq_ReceiveTime := t_recv t2, rq_Cmd := ''get'', rq_Keys := [k], rq_Token := u, rq_Working := True\<rparr>"
  have h2: "holds_token i ?req2 rl2" by (rule RL_Get_holds [OF one(4) r2(1)]) simp_all
  obtain resp2 st2 s2 d2 items where p2: "Process mc sys sc ?req2 st1 (s1, d1') = Some ((Some resp2, None), st2, s2, d2)" "rs_Status resp2 = ''VALUE''"
    "\<not> rs_Noreply resp2" "\<not> rs_Cas resp2" "rs_Items resp2 = items" "map (\<lambda>(k, it). (k, item_data it)) items = [(k, item_data it)]"
    using process_get_stored [OF p(6) R(2), of ?req2 mc sys st1 d1'] assms(2) r(2) one(5) by (auto simp: item_data_def)
  then obtain x where x: "items = [(k, x)]" "item_data x = item_data it" by auto
  have "resp_Write resp2 = Some (value_text False (k, it) @ ''END'' @ crlf)"
    using p2 x by (simp add: resp_Write_def value_text_def item_data_def)
  with ServeOnce_reply [OF r2(2) h2 _ assms(9) p2(1) _ p2(3)] p2(5) x(1) assms(1) obtain conn2 rl2' st2' d2' where
    two: "ServeOnce mc me sys sc t2 i conn1 rl1 st1 (s1, d1') = Some (None, conn2, rl2', st2', s2, d2')" "cn_in conn2 = rest"
      "cn_out conn2 = cn_out conn1 @ value_text False (k, it) @ ''END'' @ crlf" by (auto simp: word_ok_def)
  show ?thesis using one two by (intro exI conjI) (assumption | simp)+
qed

end

text \<open>A connection to the map store that sends a set and then a get of the same key, within the time limit, is answered with
  \<open>STORED\<close> and with the flag and the bytes that were set, in this order, and the rest of its input is left to be read.\<close>

theorem serve_set_then_get:
  assumes "word_ok k" and "IsValidKeySize mc (of_nat (length k))" and "store_ok mc (snd sd) it" and "mi_Cas it = 0"
    and "BodyMax mc < 2 ^ 32" and "\<forall>n. malloc me n \<noteq> 0" and "limiter_ok rl" and "in_time mc t1" and "in_time mc t2"
    and "cn_in conn = store_text ''set'' k it False @ join '' '' [''get'', k] @ crlf @ rest"
  shows "\<exists>conn1 rl1 st1 s1 d1 conn2 rl2 st2 s2 d2.
    ServeOnce mc me sys (map_client etext mc me cas) t1 i conn rl st sd = Some (None, conn1, rl1, st1, s1, d1) \<and>
    ServeOnce mc me sys (map_client etext mc me cas) t2 i conn1 rl1 st1 (s1, d1) = Some (None, conn2, rl2, st2, s2, d2) \<and>
    cn_out conn2 = cn_out conn @ ''STORED'' @ crlf @ value_text False (k, it) @ ''END'' @ crlf \<and> cn_in conn2 = rest"
proof -
  obtain s d where sd: "sd = (s, d)" by (cases sd)
  have st: "store_ok mc d it" using assms(3) by (simp add: sd)
  have ok: "ms_ok me k x" for x using assms(6) by (simp add: ms_ok_def)
  show ?thesis unfolding sd by (rule mapstore.serve_set_get [OF assms(1,2) st assms(4-10) refl TrueI ok])
qed

lemma new_limiter_ok: "0 < n \<Longrightarrow> limiter_ok (NewReqLimiter n)"
  by (simp add: limiter_ok_def NewReqLimiter_def)

definition zero_stats :: Stats where
  "zero_stats = \<lparr>st_cmd_get = 0, st_cmd_set = 0, st_cmd_delete = 0, st_get_hits = 0, st_get_misses = 0, st_curr_connections = 0,
     st_total_connections = 0, st_bytes_read = 0, st_bytes_written = 0, st_slow_cmd = 0\<rparr>"

definition at_once :: Times where
  "at_once = \<lparr>t_recv = 0, t_token = 0, t_read = 0, t_done = 0, t_put = 0\<rparr>"

theorem serve_set_then_get_witness:
  "\<exists>conn1 rl1 st1 s1 d1 conn2 rl2 st2 s2 d2.
    ServeOnce default_mc roomy_mem [] (map_client (\<lambda>_ _. []) default_mc roomy_mem 1) at_once 3
      \<lparr>cn_in = store_text ''set'' ''k'' sample_value False @ join '' '' [''get'', ''k''] @ crlf @ ''quit'', cn_out = [], cn_close = False, cn_req = fresh_request\<rparr>
      (NewReqLimiter 16) zero_stats (NewMapStore, ResetAll) = Some (None, conn1, rl1, st1, s1, d1) \<and>
    ServeOnce default_mc roomy_mem [] (map_client (\<lambda>_ _. []) default_mc roomy_mem 1) at_once 3 conn1 rl1 st1 (s1, d1) = Some (None, conn2, rl2, st2, s2, d2) \<and>
    cn_out conn2 = ''STORED'' @ crlf @ value_text False (''k'', sample_value) @ ''END'' @ crlf \<and> cn_in conn2 = ''quit''"
proof -
  let ?conn = "\<lparr>cn_in = store_text ''set'' ''k'' sample_value False @ join '' '' [''get'', ''k''] @ crlf @ ''quit'', cn_out = [], cn_close = False, cn_req = fresh_request\<rparr>"
  have h: "word_ok ''k''" "IsValidKeySize default_mc (of_nat (length ''k''))" "store_ok default_mc (snd (NewMapStore, ResetAll)) sample_value" "mi_Cas sample_value = 0"
    using sample_value_ok by (simp_all add: word_ok_def nl_def IsValidKeySize_def default_mc_def sample_value_def zero_item_def)
  have t: "in_time default_mc at_once" by (simp add: in_time_def overdue_def at_once_def default_mc_def)
  have rl: "limiter_ok (NewReqLimiter 16)" by (rule new_limiter_ok) simp
  have c: "cn_in ?conn = store_text ''set'' ''k'' sample_value False @ join '' '' [''get'', ''k''] @ crlf @ ''quit''" by simp
  from serve_set_then_get [OF h roomy(2,1) rl t t c, of "[]" "\<lambda>_ _. []" 1 3 zero_stats] show ?thesis by simp
qed

end
