(* ===== verification/Store.thy ===== *)
theory Store
  imports Gc McServer
begin

text \<open>
  The store of all buckets (\<open>store/hstore.go\<close>) and the storage client that the memcache server calls
  (\<open>gobeansdb/store.go\<close>).  A bucket slot has a state, the open bucket and the files in its directory; the goroutines that
  open buckets, flush and dump are the functions they call, in the order of the buckets.  An index out of range and a nil pointer are panics (\<open>None\<close>).
  Disk usage and the text of error messages come from outside.
\<close>

unbundle bit_operations_syntax

section \<open>Definitions\<close>

definition BUCKET_STAT_EMPTY :: int where "BUCKET_STAT_EMPTY = 0"
definition BUCKET_STAT_NOT_EMPTY :: int where "BUCKET_STAT_NOT_EMPTY = 1"
definition BUCKET_STAT_READY :: int where "BUCKET_STAT_READY = 2"

text \<open>A slot: \<open>sb_Dir\<close> is its directory, if there is one; while the bucket is open its files are those of the bucket.\<close>

record StoreBucket =
  sb_State :: int
  sb_Bkt :: "Bucket option"
  sb_Dir :: "BucketHome option"
  sb_NumGet :: int
  sb_NumSet :: int

record HStore =
  hs_buckets :: "StoreBucket list"
  hs_BucketsStat :: "int list"
  hs_gcstat :: "(int \<times> GCState) list"
  hs_htree :: "HTree option"

definition nth_int :: "'a list \<Rightarrow> int \<Rightarrow> 'a option" where
  "nth_int xs i = (if 0 \<le> i then nth_opt xs (nat i) else None)"

definition upd_bucket :: "int \<Rightarrow> StoreBucket \<Rightarrow> HStore \<Rightarrow> HStore" where
  "upd_bucket i sb s = s\<lparr>hs_buckets := (hs_buckets s)[nat i := sb]\<rparr>"

subsection \<open>Opening\<close>

definition has_data :: "BucketHome \<Rightarrow> bool" where
  "has_data h \<longleftrightarrow> (\<exists>i \<in> {0..<MAX_NUM_CHUNK}. bh_data h i \<noteq> None)"

text \<open>\<open>scanBuckets\<close> on one slot: a directory without data files is removed when there are several buckets.\<close>

definition scan_bucket :: "HStoreConfig \<Rightarrow> StoreBucket \<Rightarrow> StoreBucket" where
  "scan_bucket c sb =
     (case sb_Dir sb of
        None \<Rightarrow> sb
      | Some h \<Rightarrow>
          if has_data h then sb\<lparr>sb_State := BUCKET_STAT_NOT_EMPTY\<rparr>
          else if NumBucket c > 1 then sb\<lparr>sb_Dir := None\<rparr> else sb)"

definition allocBucket :: "StoreBucket \<Rightarrow> StoreBucket" where
  "allocBucket sb = sb\<lparr>sb_Dir := Some (case sb_Dir sb of Some h \<Rightarrow> h | None \<Rightarrow> empty_home)\<rparr>"

definition open_slot :: "Env \<Rightarrow> OpEnv \<Rightarrow> int \<Rightarrow> int \<Rightarrow> StoreBucket \<Rightarrow> BeansdbRL \<Rightarrow> (StoreErr option \<times> StoreBucket \<times> BeansdbRL) option" where
  "open_slot e oe threshold i sb d = do {
     home \<leftarrow> sb_Dir sb;
     (err, b, d1) \<leftarrow> bkt_open e oe threshold i home d;
     Some (err, sb\<lparr>sb_Bkt := b\<rparr>, d1)
   }"

fun open_slots :: "Env \<Rightarrow> OpEnv \<Rightarrow> int \<Rightarrow> int \<Rightarrow> (int \<times> StoreBucket) list \<Rightarrow> BeansdbRL
    \<Rightarrow> (StoreErr option \<times> StoreBucket list \<times> BeansdbRL) option" where
  "open_slots e oe threshold i [] d = Some (None, [], d)"
| "open_slots e oe threshold i ((stat, sb) # rest) d = do {
     (err, sb1, d1) \<leftarrow> (if stat > 0 then open_slot e oe threshold i sb d else Some (None, sb, d));
     (err2, sbs, d2) \<leftarrow> open_slots e oe threshold (i + 1) rest d1;
     Some (if err \<noteq> None then err else err2, sb1 # sbs, d2)
   }"

text \<open>\<open>NewHStore\<close>, given the directories of the buckets and the configured states; the counters of memory are reset.\<close>

definition new_slot :: "HStoreConfig \<Rightarrow> int \<Rightarrow> BucketHome option \<Rightarrow> StoreBucket" where
  "new_slot c stat dir =
     (let sb = scan_bucket c \<lparr>sb_State = BUCKET_STAT_EMPTY, sb_Bkt = None, sb_Dir = dir, sb_NumGet = 0, sb_NumSet = 0\<rparr> in
      if stat > 0 then (if sb_State sb \<ge> BUCKET_STAT_NOT_EMPTY then sb else allocBucket sb)\<lparr>sb_State := BUCKET_STAT_READY\<rparr>
      else sb)"

definition NewHStore :: "Env \<Rightarrow> OpEnv \<Rightarrow> int \<Rightarrow> int list \<Rightarrow> BucketHome option list \<Rightarrow> (StoreErr option \<times> HStore \<times> BeansdbRL) option" where
  "NewHStore e oe threshold stats dirs = do {
     let slots = map2 (new_slot (conf e)) stats dirs;
     (err, sbs, d) \<leftarrow> open_slots e oe threshold 0 (zip stats slots) ResetAll;
     let s = \<lparr>hs_buckets = sbs, hs_BucketsStat = stats, hs_gcstat = [], hs_htree = None\<rparr>;
     if err \<noteq> None then Some (err, s, d)
     else if TreeDepth (conf e) > 0 then do {
       t \<leftarrow> newHTree 0 0 (TreeDepth (conf e) + 1);
       Some (None, s\<lparr>hs_htree := Some t\<rparr>, d)
     }
     else Some (None, s, d)
   }"

subsection \<open>Requests\<close>

definition getBucket :: "int \<Rightarrow> HStore \<Rightarrow> StoreBucket option" where
  "getBucket bucketID s =
     (case nth_int (hs_buckets s) bucketID of
        Some sb \<Rightarrow> if sb_State sb = BUCKET_STAT_READY then Some sb else None
      | None \<Rightarrow> None)"

definition route_key :: "Env \<Rightarrow> KeyInfo \<Rightarrow> KeyInfo option" where
  "route_key e ki = map_option fst (Prepare (conf e) (ki\<lparr>KeyHash := getKeyHash e (Key ki)\<rparr>))"

definition hs_Get :: "Env \<Rightarrow> KeyInfo \<Rightarrow> bool \<Rightarrow> HStore \<Rightarrow> BeansdbRL \<Rightarrow> (get_res \<times> HStore \<times> BeansdbRL) option" where
  "hs_Get e ki0 memOnly s d = do {
     ki \<leftarrow> route_key e ki0;
     sb0 \<leftarrow> nth_int (hs_buckets s) (BucketID ki);
     let sb = sb0\<lparr>sb_NumGet := sb_NumGet sb0 + 1\<rparr>;
     if sb_State sb \<noteq> BUCKET_STAT_READY
     then Some ((None, \<lparr>ChunkID = 0, Offset = 0\<rparr>, None), upd_bucket (BucketID ki) sb s, d)
     else do {
       b \<leftarrow> sb_Bkt sb;
       (r, b1, d1) \<leftarrow> bkt_get e ki memOnly b d;
       Some (r, upd_bucket (BucketID ki) (sb\<lparr>sb_Bkt := Some b1\<rparr>) s, d1)
     }
   }"

definition hs_Set :: "Env \<Rightarrow> OpEnv \<Rightarrow> KeyInfo \<Rightarrow> Payload \<Rightarrow> HStore \<Rightarrow> BeansdbRL \<Rightarrow> (StoreErr option \<times> HStore \<times> BeansdbRL) option" where
  "hs_Set e oe ki0 p s d = do {
     ki \<leftarrow> route_key e ki0;
     sb0 \<leftarrow> nth_int (hs_buckets s) (BucketID ki);
     let sb = sb0\<lparr>sb_NumSet := sb_NumSet sb0 + 1\<rparr>;
     if sb_State sb \<noteq> BUCKET_STAT_READY
     then Some (None, upd_bucket (BucketID ki) sb s, snd (Free (carr p) (d\<lparr>SetData := SubSizeAndCount (Cap (carr p)) (SetData d)\<rparr>)))
     else do {
       b \<leftarrow> sb_Bkt sb;
       (err, b1, d1) \<leftarrow> checkAndSet e oe ki p b d;
       Some (err, upd_bucket (BucketID ki) (sb\<lparr>sb_Bkt := Some b1\<rparr>) s, d1)
     }
   }"

definition hs_Incr :: "Env \<Rightarrow> OpEnv \<Rightarrow> KeyInfo \<Rightarrow> int \<Rightarrow> HStore \<Rightarrow> BeansdbRL \<Rightarrow> (int \<times> HStore \<times> BeansdbRL) option" where
  "hs_Incr e oe ki0 v s d = do {
     ki \<leftarrow> route_key e ki0;
     sb \<leftarrow> nth_int (hs_buckets s) (BucketID ki);
     if sb_State sb \<noteq> BUCKET_STAT_READY then Some (0, s, d)
     else do {
       b \<leftarrow> sb_Bkt sb;
       (n, b1, d1) \<leftarrow> bkt_incr e oe ki v b d;
       Some (n, upd_bucket (BucketID ki) (sb\<lparr>sb_Bkt := Some b1\<rparr>) s, d1)
     }
   }"

text \<open>A path that is not hexadecimal has no bucket: the error of \<open>Prepare\<close> is not looked at, and the index \<open>-1\<close> panics.\<close>

definition hs_GetRecordByKeyHash :: "Env \<Rightarrow> KeyInfo \<Rightarrow> HStore \<Rightarrow> BeansdbRL \<Rightarrow> ((StoreErr + Record option) \<times> BeansdbRL) option" where
  "hs_GetRecordByKeyHash e ki0 s d = do {
     (ki, _) \<leftarrow> Prepare (conf e) ki0;
     sb \<leftarrow> nth_int (hs_buckets s) (BucketID ki);
     if sb_State sb \<noteq> BUCKET_STAT_READY then Some (Inr None, d)
     else do { b \<leftarrow> sb_Bkt sb; GetRecordByKeyHash e ki b d }
   }"

definition GetPayloadForDelete :: "OpEnv \<Rightarrow> Payload" where
  "GetPayloadForDelete oe = zero_payload\<lparr>Flag := 0, Ver := - 1, TS := word_of_int (op_now oe)\<rparr>"

subsection \<open>Listings and counts\<close>

fun num_keys :: "StoreBucket list \<Rightarrow> int option" where
  "num_keys [] = Some 0"
| "num_keys (sb # sbs) = do {
     n \<leftarrow> num_keys sbs;
     if sb_State sb = BUCKET_STAT_READY then do {
       b \<leftarrow> sb_Bkt sb;
       node \<leftarrow> get_node (levels (bk_htree b)) 0 0;
       Some (uint (n_count node) + n)
     }
     else Some n
   }"

definition NumKey :: "HStore \<Rightarrow> int option" where
  "NumKey s = num_keys (hs_buckets s)"

text \<open>\<open>updateNodesUpper\<close>, \<open>n\<close> levels above the last; the nodes of the last level are the roots of the buckets.\<close>

primrec updateNodesUpper :: "nat \<Rightarrow> nat \<Rightarrow> nat \<Rightarrow> HTree \<Rightarrow> HStore \<Rightarrow> (Node \<times> HTree \<times> HStore) option" where
  "updateNodesUpper 0 level off t s = do {
     node0 \<leftarrow> get_node (levels t) level off;
     sb \<leftarrow> nth_opt (hs_buckets s) off;
     case (if sb_State sb = BUCKET_STAT_READY then sb_Bkt sb else None) of
       None \<Rightarrow> do {
         let node = node0\<lparr>n_hash := 0, n_count := 0\<rparr>;
         lv \<leftarrow> put_node (levels t) level off node;
         Some (node, t\<lparr>levels := lv\<rparr>, s)
       }
     | Some b \<Rightarrow> do {
         (root, bt) \<leftarrow> Update (bk_htree b);
         let node = node0\<lparr>n_hash := n_hash root, n_count := n_count root\<rparr>;
         lv \<leftarrow> put_node (levels t) level off node;
         Some (node, t\<lparr>levels := lv\<rparr>, upd_bucket (int off) (sb\<lparr>sb_Bkt := Some (b\<lparr>bk_htree := bt\<rparr>)\<rparr>) s)
       }
   }"
| "updateNodesUpper (Suc n) level off t s = do {
     node0 \<leftarrow> get_node (levels t) level off;
     (node, t1, s1) \<leftarrow> fold (\<lambda>i acc. do {
         (node, t1, s1) \<leftarrow> acc;
         (cnode, t2, s2) \<leftarrow> updateNodesUpper n (Suc level) (off * 16 + i) t1 s1;
         Some (node\<lparr>n_hash := n_hash node * 97 + n_hash cnode, n_count := n_count node + n_count cnode\<rparr>, t2, s2)
       }) [0..<16] (Some (node0\<lparr>n_hash := 0, n_count := 0\<rparr>, t, s));
     lv \<leftarrow> put_node (levels t1) level off node;
     Some (node, t1\<lparr>levels := lv\<rparr>, s1)
   }"

definition ListUpper :: "KeyInfo \<Rightarrow> HStore \<Rightarrow> (string \<times> HStore) option" where
  "ListUpper ki s = do {
     t \<leftarrow> hs_htree s;
     let l = length (KeyPath ki);
     let off = path_offset (KeyPath ki);
     (_, t1, s1) \<leftarrow> updateNodesUpper (length (levels t) - 1 - l) l off t s;
     nodes \<leftarrow> those (map (\<lambda>i. get_node (levels t1) (Suc l) (off * 16 + i)) [0..<16]);
     Some (concat (map (\<lambda>(i, n). node_line i n) (enumerate 0 nodes)), s1\<lparr>hs_htree := Some t1\<rparr>)
   }"

definition hs_ListDir :: "Env \<Rightarrow> KeyInfo \<Rightarrow> HStore \<Rightarrow> (string option \<times> HStore) option" where
  "hs_ListDir e ki0 s = do {
     (ki, err) \<leftarrow> Prepare (conf e) ki0;
     if err \<noteq> None then Some (None, s)
     else if length (Key ki) \<ge> TreeDepth (conf e) then do {
       sb \<leftarrow> nth_int (hs_buckets s) (BucketID ki);
       if sb_State sb \<noteq> BUCKET_STAT_READY then Some (None, s)
       else do {
         b \<leftarrow> sb_Bkt sb;
         (r, b1) \<leftarrow> bkt_listDir e ki b;
         Some (r, upd_bucket (BucketID ki) (sb\<lparr>sb_Bkt := Some b1\<rparr>) s)
       }
     }
     else do { (r, s1) \<leftarrow> ListUpper ki s; Some (Some r, s1) }
   }"

subsection \<open>The background work\<close>

text \<open>\<open>flushdatas\<close>; \<open>recent\<close> says of a bucket that less than \<open>FlushInterval\<close> has passed since its last flush.\<close>

fun flushdatas :: "bool \<Rightarrow> (nat \<Rightarrow> bool) \<Rightarrow> nat \<Rightarrow> StoreBucket list \<Rightarrow> BeansdbRL \<Rightarrow> (StoreBucket list \<times> BeansdbRL) option" where
  "flushdatas force recent i [] d = Some ([], d)"
| "flushdatas force recent i (sb # sbs) d = do {
     (sb1, d1) \<leftarrow> (case sb_Bkt sb of
         None \<Rightarrow> Some (sb, d)
       | Some b \<Rightarrow> do {
           (ds, d1) \<leftarrow> ds_flush (- 1) force (recent i) (bk_datas b) d;
           Some (sb\<lparr>sb_Bkt := Some (b\<lparr>bk_datas := ds\<rparr>)\<rparr>, d1)
         });
     (rest, d2) \<leftarrow> flushdatas force recent (Suc i) sbs d1;
     Some (sb1 # rest, d2)
   }"

definition close_slot :: "Env \<Rightarrow> OpEnv \<Rightarrow> StoreBucket \<Rightarrow> BeansdbRL \<Rightarrow> (StoreBucket \<times> BeansdbRL) option" where
  "close_slot e oe sb d =
     (case sb_Bkt sb of
        None \<Rightarrow> Some (sb, d)
      | Some b \<Rightarrow> do { (b1, d1) \<leftarrow> bkt_close e oe b d; Some (sb\<lparr>sb_Bkt := Some b1, sb_Dir := Some (bkt_files b1)\<rparr>, d1) })"

fun hs_Close :: "Env \<Rightarrow> OpEnv \<Rightarrow> StoreBucket list \<Rightarrow> BeansdbRL \<Rightarrow> (StoreBucket list \<times> BeansdbRL) option" where
  "hs_Close e oe [] d = Some ([], d)"
| "hs_Close e oe (sb # sbs) d = do {
     (sb1, d1) \<leftarrow> close_slot e oe sb d;
     (rest, d2) \<leftarrow> hs_Close e oe sbs d1;
     Some (sb1 # rest, d2)
   }"

text \<open>One round of \<open>HintDumper\<close>.\<close>

definition dump_round :: "Env \<Rightarrow> OpEnv \<Rightarrow> HStore \<Rightarrow> HStore" where
  "dump_round e oe s = s\<lparr>hs_buckets := map (\<lambda>sb.
       case (if sb_State sb = BUCKET_STAT_READY then sb_Bkt sb else None) of
         None \<Rightarrow> sb
       | Some b \<Rightarrow> sb\<lparr>sb_Bkt := Some (b\<lparr>bk_hints := snd (snd (dumpAndMerge (conf e) (op_now oe) False (bk_hints b)))\<rparr>)\<rparr>) (hs_buckets s)\<rparr>"

text \<open>\<open>GC\<close>: the checks, and whether the collection is started.  A negative bucket number panics.\<close>

datatype gc_answer = BadBucket | NoData | GCRunning | RangeErr StoreErr | GCRange int int bool

definition hs_GC :: "Env \<Rightarrow> OpEnv \<Rightarrow> int \<Rightarrow> int \<Rightarrow> int \<Rightarrow> int \<Rightarrow> bool \<Rightarrow> HStore \<Rightarrow> gc_answer option" where
  "hs_GC e oe bucketID beginChunkID endChunkID noGCDays pretend s =
     (if bucketID \<ge> NumBucket (conf e) then Some BadBucket
      else do {
        sb \<leftarrow> nth_int (hs_buckets s) bucketID;
        if sb_State sb \<noteq> BUCKET_STAT_READY then Some NoData
        else if map_of (hs_gcstat s) bucketID \<noteq> None then Some GCRunning
        else do {
          b \<leftarrow> sb_Bkt sb;
          r \<leftarrow> gcCheckRange (conf e) (op_now oe) beginChunkID endChunkID noGCDays b;
          Some (case r of Inl err \<Rightarrow> RangeErr err | Inr (st, en) \<Rightarrow> GCRange st en (\<not> pretend))
        }
      })"

definition CancelGC :: "int \<Rightarrow> HStore \<Rightarrow> (int \<times> int) \<times> HStore" where
  "CancelGC bucketID s =
     (case getBucket bucketID s of
        None \<Rightarrow> ((- 1, - 1), s)
      | Some _ \<Rightarrow>
          (case map_of (hs_gcstat s) bucketID of
             None \<Rightarrow> ((- 1, - 1), s)
           | Some g \<Rightarrow> ((gs_Src g, gs_Dst g), s\<lparr>hs_gcstat := AList.update bucketID (g\<lparr>gs_CancelFlag := True\<rparr>) (hs_gcstat s)\<rparr>)))"

definition IsGCRunning :: "HStore \<Rightarrow> bool" where
  "IsGCRunning s \<longleftrightarrow> hs_gcstat s \<noteq> []"

text \<open>\<open>ChangeRoute\<close>: buckets loaded and unloaded, stopping at the first error.  Unloading closes and releases the bucket.\<close>

fun change_route :: "Env \<Rightarrow> OpEnv \<Rightarrow> int \<Rightarrow> nat list \<Rightarrow> int list \<Rightarrow> HStore \<Rightarrow> BeansdbRL
    \<Rightarrow> ((nat list \<times> nat list \<times> StoreErr option) \<times> HStore \<times> BeansdbRL) option" where
  "change_route e oe threshold [] stats s d = Some (([], [], None), s, d)"
| "change_route e oe threshold (i # is) stats s d = do {
     sb \<leftarrow> nth_opt (hs_buckets s) i;
     oldc \<leftarrow> nth_opt (hs_BucketsStat s) i;
     newc \<leftarrow> nth_opt stats i;
     if newc = oldc then change_route e oe threshold is stats s d
     else if newc \<ge> BUCKET_STAT_NOT_EMPTY then do {
       (err, sb1, d1) \<leftarrow> open_slot e oe threshold (int i) (allocBucket sb) d;
       if err \<noteq> None then Some (([], [], err), upd_bucket (int i) sb1 s, d1)
       else do {
         let s1 = (upd_bucket (int i) (sb1\<lparr>sb_State := BUCKET_STAT_READY\<rparr>) s)\<lparr>hs_BucketsStat := (hs_BucketsStat s)[i := BUCKET_STAT_READY]\<rparr>;
         ((loaded, unloaded, err2), s2, d2) \<leftarrow> change_route e oe threshold is stats s1 d1;
         Some ((i # loaded, unloaded, err2), s2, d2)
       }
     }
     else do {
       b \<leftarrow> sb_Bkt sb;
       (sb1, d1) \<leftarrow> close_slot e oe sb d;
       let sb2 = \<lparr>sb_State = BUCKET_STAT_EMPTY, sb_Bkt = None, sb_Dir = sb_Dir sb1, sb_NumGet = 0, sb_NumSet = 0\<rparr>;
       let s1 = (upd_bucket (int i) sb2 s)\<lparr>hs_BucketsStat := (hs_BucketsStat s)[i := BUCKET_STAT_EMPTY]\<rparr>;
       ((loaded, unloaded, err2), s2, d2) \<leftarrow> change_route e oe threshold is stats s1 d1;
       Some ((loaded, i # unloaded, err2), s2, d2)
     }
   }"

definition ChangeRoute :: "Env \<Rightarrow> OpEnv \<Rightarrow> int \<Rightarrow> int list \<Rightarrow> HStore \<Rightarrow> BeansdbRL
    \<Rightarrow> ((nat list \<times> nat list \<times> StoreErr option) \<times> HStore \<times> BeansdbRL) option" where
  "ChangeRoute e oe threshold stats s d = change_route e oe threshold [0..<nat (NumBucket (conf e))] stats s d"

definition GetNumCmdByBuckets :: "HStore \<Rightarrow> (int \<times> int \<times> int) list" where
  "GetNumCmdByBuckets s = map (\<lambda>sb. (sb_State sb, sb_NumGet sb, sb_NumSet sb)) (hs_buckets s)"

section \<open>The storage client\<close>

text \<open>Error messages come from outside: \<open>msg\<close> is the text of an error of the store for a key.\<close>

definition prepare_key :: "string \<Rightarrow> bool \<Rightarrow> KeyInfo" where
  "prepare_key key isPath = \<lparr>KeyHash = 0, KeyIsPath = isPath, Key = bytes_of_string key, StringKey = bytes_of_string key, KeyPath = [], BucketID = 0\<rparr>"

definition bytes_item :: "bytes \<Rightarrow> mcItem" where
  "bytes_item bs = Protocol.zero_item\<lparr>mi_CArray := nil_array\<lparr>Body := bs\<rparr>\<rparr>"

definition free_get :: "Payload \<Rightarrow> BeansdbRL \<Rightarrow> BeansdbRL" where
  "free_get p d = snd (Free (carr p) (d\<lparr>GetData := SubSizeAndCount (Cap (carr p)) (GetData d)\<rparr>))"

definition set_payload :: "mcItem \<Rightarrow> Payload" where
  "set_payload it = zero_payload\<lparr>Flag := word_of_int (mi_Flag it), carr := mi_CArray it, Ver := word_of_int (mi_Exptime it),
     TS := word_of_int (mi_ReceiveTime it div 1000000000)\<rparr>"

definition bc_Set :: "Env \<Rightarrow> OpEnv \<Rightarrow> (StoreErr \<Rightarrow> string) \<Rightarrow> string \<Rightarrow> mcItem \<Rightarrow> bool \<Rightarrow> (HStore, bool) storage_op" where
  "bc_Set e oe msg key it noreply = (\<lambda>(s, d).
     if \<not> IsValidKeyString (bytes_of_string key)
     then Some (Inr False, s, snd (Free (mi_CArray it) (d\<lparr>SetData := SubSizeAndCount (Cap (mi_CArray it)) (SetData d)\<rparr>)))
     else do {
       (err, s1, d1) \<leftarrow> hs_Set e oe (prepare_key key False) (set_payload it) s d;
       Some (case err of Some er \<Rightarrow> Inl (ErrMsg (msg er)) | None \<Rightarrow> Inr True, s1, d1)
     })"

definition bc_listDir :: "Env \<Rightarrow> string \<Rightarrow> (HStore, mcItem option) storage_op" where
  "bc_listDir e path = (\<lambda>(s, d). do {
     (r, s1) \<leftarrow> hs_ListDir e (prepare_key path True) s;
     Some (Inr (Some (bytes_item (case r of Some t \<Rightarrow> bytes_of_string t | None \<Rightarrow> []))), s1, d)
   })"

definition meta_text :: "bool \<Rightarrow> Payload \<Rightarrow> Position \<Rightarrow> string" where
  "meta_text extended p pos =
     (let vhash = (if 0 <s Ver p then Getvhash (pBody p) else 0);
          nums = [sint (Ver p), uint vhash, uint (Flag p), int (length (pBody p)), uint (TS p)] @
                 (if extended then [ChunkID pos, uint (Offset pos)] else [])
      in join '' '' (map Itoa nums))"

definition bc_getMeta :: "Env \<Rightarrow> (StoreErr \<Rightarrow> string) \<Rightarrow> string \<Rightarrow> bool \<Rightarrow> (HStore, mcItem option) storage_op" where
  "bc_getMeta e msg key extended = (\<lambda>(s, d). do {
     ((payload, pos, err), s1, d1) \<leftarrow> hs_Get e (prepare_key key False) False s d;
     Some (case err of
         Some er \<Rightarrow> (Inl (ErrMsg (msg er)), s1, d1)
       | None \<Rightarrow>
           (case payload of
              None \<Rightarrow> (Inr None, s1, d1)
            | Some p \<Rightarrow> (Inr (Some (bytes_item (bytes_of_string (meta_text extended p pos)))), s1, free_get p d1)))
   })"

text \<open>The keys that start with \<open>@\<close> and \<open>?\<close>; the empty key panics on \<open>key[0]\<close>.\<close>

definition bc_Get_at :: "Env \<Rightarrow> (StoreErr \<Rightarrow> string) \<Rightarrow> string \<Rightarrow> (HStore, mcItem option) storage_op" where
  "bc_Get_at e msg key = (\<lambda>(s, d).
     if length key > 1 \<and> key ! 1 = CHR ''@'' then
       (let key2 = drop 2 key in
        if length key2 \<noteq> 16 then Some (Inl (ErrMsg ''bad command line format''), s, d)
        else do {
          (r, d1) \<leftarrow> hs_GetRecordByKeyHash e (prepare_key key2 True) s d;
          Some (case r of
              Inl er \<Rightarrow> (Inl (ErrMsg (msg er)), s, d1)
            | Inr None \<Rightarrow> (Inr None, s, d1)
            | Inr (Some rec) \<Rightarrow>
                (Inr (Some (bytes_item (fst (wr_append (wrapRecord rec) False [])))), s, free_get (rPayload rec) d1))
        })
     else if length key > 11 \<and> slice 1 11 key = ''collision_'' then
       Some (if length key > 15 \<and> slice 11 15 key = ''all_'' then Inr None
             else Inr (Some (bytes_item (bytes_of_string ''0 0 0 0''))), s, d)
     else bc_listDir e (drop 1 key) (s, d))"

definition bc_Get_query :: "Env \<Rightarrow> (StoreErr \<Rightarrow> string) \<Rightarrow> string \<Rightarrow> (HStore, mcItem option) storage_op" where
  "bc_Get_query e msg key = (\<lambda>(s, d).
     if length key > 1 then
       (let extended = key ! 1 = CHR ''?''; key2 = drop (if extended then 2 else 1) key in
        if \<not> IsValidKeyString (bytes_of_string key2) then Some (Inr None, s, d)
        else bc_getMeta e msg key2 extended (s, d))
     else Some (Inl (ErrMsg (''bad key '' @ key)), s, d))"

definition bc_Get :: "Env \<Rightarrow> (StoreErr \<Rightarrow> string) \<Rightarrow> string \<Rightarrow> (HStore, mcItem option) storage_op" where
  "bc_Get e msg key = (\<lambda>(s, d). do {
     c0 \<leftarrow> nth_opt key 0;
     if c0 = CHR ''@'' then bc_Get_at e msg key (s, d)
     else if c0 = CHR ''?'' then bc_Get_query e msg key (s, d)
     else do {
       ((payload, _, err), s1, d1) \<leftarrow> hs_Get e (prepare_key key False) False s d;
       Some (case err of
           Some er \<Rightarrow> (Inl (ErrMsg (msg er)), s1, d1)
         | None \<Rightarrow>
             (case payload of
                None \<Rightarrow> (Inr None, s1, d1)
              | Some p \<Rightarrow>
                  if Ver p <s 0 then (Inr None, s1, free_get p d1)
                  else (Inr (Some (Protocol.zero_item\<lparr>mi_CArray := carr p, mi_Flag := uint (Flag p)\<rparr>)), s1, d1)))
     }
   })"

fun bc_GetMulti :: "Env \<Rightarrow> (StoreErr \<Rightarrow> string) \<Rightarrow> string list \<Rightarrow> (HStore, (string \<times> mcItem) list) storage_op" where
  "bc_GetMulti e msg [] sd = Some (Inr [], sd)"
| "bc_GetMulti e msg (k # ks) sd = do {
     (r, sd1) \<leftarrow> bc_Get e msg k sd;
     (rest, sd2) \<leftarrow> bc_GetMulti e msg ks sd1;
     Some (case r of
         Inr (Some it) \<Rightarrow> (case rest of Inr l \<Rightarrow> Inr (if k \<in> fst ` set l then l else (k, it) # l) | Inl err \<Rightarrow> Inl err)
       | _ \<Rightarrow> rest, sd2)
   }"

definition bc_Incr :: "Env \<Rightarrow> OpEnv \<Rightarrow> string \<Rightarrow> int \<Rightarrow> (HStore, int) storage_op" where
  "bc_Incr e oe key v = (\<lambda>(s, d).
     if \<not> IsValidKeyString (bytes_of_string key) then Some (Inr 0, s, d)
     else do { (n, s1, d1) \<leftarrow> hs_Incr e oe (prepare_key key False) v s d; Some (Inr n, s1, d1) })"

definition bc_Delete :: "Env \<Rightarrow> OpEnv \<Rightarrow> (StoreErr \<Rightarrow> string) \<Rightarrow> string \<Rightarrow> (HStore, bool) storage_op" where
  "bc_Delete e oe msg key = (\<lambda>(s, d).
     if \<not> IsValidKeyString (bytes_of_string key) then Some (Inr False, s, d)
     else do {
       (err, s1, d1) \<leftarrow> hs_Set e oe (prepare_key key False) (GetPayloadForDelete oe) s d;
       Some (case err of
           None \<Rightarrow> Inr True
         | Some er \<Rightarrow> if er = NotFoundErr then Inr False else Inl (ErrMsg (msg er)), s1, d1)
     })"

definition bc_Process :: "string \<Rightarrow> string list \<Rightarrow> HStore \<Rightarrow> string \<times> string" where
  "bc_Process cmd args s =
     (if cmd = ''optimize_stat'' then (if IsGCRunning s then ''running'' else ''none'', [])
      else (''ERROR'', []))"

definition beansdb_client :: "Env \<Rightarrow> OpEnv \<Rightarrow> (StoreErr \<Rightarrow> string) \<Rightarrow> HStore StorageClient" where
  "beansdb_client e oe msg = \<lparr>sc_Get = bc_Get e msg, sc_GetMulti = bc_GetMulti e msg, sc_Set = bc_Set e oe msg,
     sc_Append = (\<lambda>_ _ (s, d). Some (Inl (ErrMsg ''operation not support''), s, d)), sc_Incr = bc_Incr e oe, sc_Delete = bc_Delete e oe msg,
     sc_Len = NumKey, sc_Process = bc_Process\<rparr>"

end
