(* ===== verification/StoreMap.thy ===== *)
theory StoreMap
  imports Store BucketMap
begin

text \<open>
  The whole stack: the storage client of the server over the store of buckets is a store in the sense of the memcache layer (locale
  \<open>storage\<close>), so a connection to the server is answered from the versioned maps of the buckets.  Keys are routed to buckets by
  their hash; the keys considered have different hashes and fall into buckets that are ready.
\<close>

unbundle bit_operations_syntax

section \<open>Definitions\<close>

definition key_bucket :: "Env \<Rightarrow> bytes \<Rightarrow> int" where
  "key_bucket e k = bucket_of_path (TreeDepth (conf e)) (ParsePathUint64 (getKeyHash e k))"

definition bucket_keys :: "Env \<Rightarrow> bytes set \<Rightarrow> int \<Rightarrow> bytes set" where
  "bucket_keys e K i = {k \<in> K. key_bucket e k = i}"

definition slot_ready :: "HStore \<Rightarrow> int \<Rightarrow> Bucket \<Rightarrow> bool" where
  "slot_ready s i b \<longleftrightarrow> (\<exists>sb. nth_int (hs_buckets s) i = Some sb \<and> sb_State sb = BUCKET_STAT_READY \<and> sb_Bkt sb = Some b)"

text \<open>A store stands for a map when each ready bucket stands for its part of it.\<close>

definition store_rep :: "Env \<Rightarrow> bytes set \<Rightarrow> HStore \<Rightarrow> (bytes \<rightharpoonup> Val) \<Rightarrow> bool" where
  "store_rep e K s m \<longleftrightarrow> (\<forall>k \<in> K. \<exists>b. slot_ready s (key_bucket e k) b) \<and>
     (\<forall>i b. slot_ready s i b \<longrightarrow> bkt_rep e (bucket_keys e K i) i b m)"

definition live :: "(bytes \<rightharpoonup> Val) \<Rightarrow> string \<rightharpoonup> int \<times> bytes" where
  "live m k = (case m (bytes_of_string k) of
      None \<Rightarrow> None
    | Some a \<Rightarrow> if av_Ver a <s 0 then None else Some (uint (av_Flag a), av_Body a))"

definition client_rep :: "Env \<Rightarrow> bytes set \<Rightarrow> HStore \<Rightarrow> (string \<rightharpoonup> int \<times> bytes) \<Rightarrow> bool" where
  "client_rep e K s M \<longleftrightarrow> (\<exists>m. store_rep e K s m \<and> M = live m)"

text \<open>A key that is served, room for one more record in its bucket (a chunk number is left) and for one more version of it (below the largest).\<close>

definition client_key :: "bytes set \<Rightarrow> string \<Rightarrow> bool" where
  "client_key K k \<longleftrightarrow> bytes_of_string k \<in> K \<and> IsValidKeyString (bytes_of_string k)"

definition chunk_left :: "Env \<Rightarrow> HStore \<Rightarrow> string \<Rightarrow> bool" where
  "chunk_left e s k \<longleftrightarrow> (\<forall>ki b. route_key e (prepare_key k False) = Some ki \<longrightarrow> slot_ready s (BucketID ki) b \<longrightarrow>
     ds_newHead (bk_datas b) + 1 < MAX_NUM_CHUNK)"

text \<open>What the tree has for a key.\<close>

definition held :: "Env \<Rightarrow> HStore \<Rightarrow> string \<Rightarrow> Payload \<Rightarrow> bool" where
  "held e s k p \<longleftrightarrow> (\<exists>ki b pos b' d'. route_key e (prepare_key k False) = Some ki \<and> slot_ready s (BucketID ki) b \<and>
     bkt_get e ki True b ResetAll = Some ((Some p, pos, None), b', d'))"

definition room :: "Env \<Rightarrow> HStore \<Rightarrow> string \<Rightarrow> bool" where
  "room e s k \<longleftrightarrow> chunk_left e s k \<and> (\<forall>p. held e s k p \<longrightarrow> \<bar>sint (Ver p)\<bar> < 2 ^ 31 - 1)"

text \<open>With \<open>CheckVHash\<close> a value whose 16-bit hash is that of the key's live value is taken for the same value and dropped.\<close>

definition new_hash :: "Env \<Rightarrow> HStore \<Rightarrow> string \<Rightarrow> mcItem \<Rightarrow> bool" where
  "new_hash e s k it \<longleftrightarrow> (CheckVHash (conf e) \<longrightarrow> (\<forall>p. held e s k p \<and> 0 <s Ver p \<longrightarrow> ValueHash p \<noteq> Getvhash (item_body it)))"

definition client_put_ok :: "Env \<Rightarrow> bytes set \<Rightarrow> HStore \<Rightarrow> string \<Rightarrow> mcItem \<Rightarrow> bool" where
  "client_put_ok e K s k it \<longleftrightarrow> client_key K k \<and> storable e (bytes_of_string k) (set_payload it) \<and> chunk_left e s k"

definition client_set_ok :: "Env \<Rightarrow> bytes set \<Rightarrow> HStore \<Rightarrow> string \<Rightarrow> mcItem \<Rightarrow> bool" where
  "client_set_ok e K s k it \<longleftrightarrow> client_key K k \<and> storable e (bytes_of_string k) (set_payload it) \<and> mi_Exptime it = 0 \<and>
     0 \<le> mi_Flag it \<and> mi_Flag it < 2 ^ 32 \<and> room e s k \<and> new_hash e s k it"

definition client_del_ok :: "Env \<Rightarrow> bytes set \<Rightarrow> OpEnv \<Rightarrow> HStore \<Rightarrow> string \<Rightarrow> bool" where
  "client_del_ok e K oe s k \<longleftrightarrow> client_key K k \<and> storable e (bytes_of_string k) (GetPayloadForDelete oe) \<and> room e s k"

text \<open>The store opened on empty directories and driven by its client: sets with any version, gets and deletes.\<close>

inductive client_run :: "Env \<Rightarrow> OpEnv \<Rightarrow> bytes set \<Rightarrow> HStore \<Rightarrow> bool" for e oe K where
  crun_new: "length stats = length dirs \<Longrightarrow> (\<forall>x \<in> set stats. x = 1) \<Longrightarrow> (\<forall>x \<in> set dirs. x = None) \<Longrightarrow>
    (\<forall>k \<in> K. key_bucket e k < int (length stats)) \<Longrightarrow> NewHStore e oe0 threshold stats dirs = Some (None, s, d) \<Longrightarrow> client_run e oe K s"
| crun_set: "client_run e oe K s \<Longrightarrow> client_put_ok e K s k it \<Longrightarrow> bc_Set e oe msg k it nr (s, d) = Some (r, s', d') \<Longrightarrow> client_run e oe K s'"
| crun_get: "client_run e oe K s \<Longrightarrow> client_key K k \<Longrightarrow> bc_Get e msg k (s, d) = Some (r, s', d') \<Longrightarrow> client_run e oe K s'"
| crun_delete: "client_run e oe K s \<Longrightarrow> client_del_ok e K oe s k \<Longrightarrow> bc_Delete e oe msg k (s, d) = Some (r, s', d') \<Longrightarrow> client_run e oe K s'"

section \<open>Routing\<close>

lemma of_char_inj: "(of_char x :: byte) = of_char y \<longleftrightarrow> x = y"
  by (metis char_of_byte)

lemma bytes_of_string_inj [simp]: "bytes_of_string x = bytes_of_string y \<longleftrightarrow> x = y"
  by (auto simp: bytes_of_string_def inj_map_eq_map inj_def of_char_inj)

lemma route_prepared:
  "route_key e (prepare_key k False) = Some \<lparr>KeyHash = getKeyHash e (bytes_of_string k), KeyIsPath = False, Key = bytes_of_string k,
     StringKey = bytes_of_string k, KeyPath = ParsePathUint64 (getKeyHash e (bytes_of_string k)), BucketID = key_bucket e (bytes_of_string k)\<rparr>"
  by (simp add: route_key_def prepare_key_def Prepare_def Let_def key_bucket_def)

lemma routed_key:
  assumes "bytes_of_string k \<in> K" "route_key e (prepare_key k False) = Some ki"
  shows "bkt_key e (bucket_keys e K (BucketID ki)) (BucketID ki) ki" "Key ki = bytes_of_string k" "BucketID ki = key_bucket e (bytes_of_string k)"
  using assms unfolding route_prepared
  by (auto simp: bkt_key_def bucket_keys_def htree_key_ok_def in_bucket_def key_bucket_def)

lemma bucket_limits: "bkt_limits e K \<Longrightarrow> bkt_limits e (bucket_keys e K i)"
  by (auto simp: bkt_limits_def bucket_keys_def inj_on_def)

text \<open>An operation on one bucket updates the part of the map that belongs to its keys.\<close>

lemma slot_ready_upd:
  assumes "nth_int (hs_buckets s) i = Some sb" "sb_State sb' = BUCKET_STAT_READY" "sb_Bkt sb' = Some b'"
  shows "slot_ready (upd_bucket i sb' s) j b \<longleftrightarrow> (if j = i then b = b' else slot_ready s j b)"
  using assms by (auto simp: slot_ready_def upd_bucket_def nth_int_def nth_opt_def nth_list_update split: if_splits)

lemma store_rep_upd:
  assumes "store_rep e K s m" "nth_int (hs_buckets s) i = Some sb" "sb_State sb' = BUCKET_STAT_READY" "sb_Bkt sb' = Some b'"
    and "bkt_rep e (bucket_keys e K i) i b' (m(k := x))" "key_bucket e k = i"
  shows "store_rep e K (upd_bucket i sb' s) (m(k := x))"
proof -
  have "bkt_rep e (bucket_keys e K j) j b (m(k := x))" if "j \<noteq> i" "slot_ready s j b" for j b
  proof -
    have "bkt_rep e (bucket_keys e K j) j b m" using assms(1) that(2) by (simp add: store_rep_def)
    moreover have "k \<notin> bucket_keys e K j" using assms(6) that(1) by (simp add: bucket_keys_def)
    ultimately show ?thesis by (subst bkt_rep_cong [of _ _ m]) auto
  qed
  then show ?thesis using assms(1,5) slot_ready_upd [OF assms(2-4)]
    by (simp add: store_rep_def del: fun_upd_apply) metis
qed

section \<open>Requests on the store\<close>

lemma store_slot:
  assumes "store_rep e K s m" "bytes_of_string k \<in> K" "route_key e (prepare_key k False) = Some ki"
  shows "\<exists>sb b. nth_int (hs_buckets s) (BucketID ki) = Some sb \<and> sb_State sb = BUCKET_STAT_READY \<and> sb_Bkt sb = Some b \<and>
    slot_ready s (BucketID ki) b \<and> bkt_rep e (bucket_keys e K (BucketID ki)) (BucketID ki) b m"
proof -
  obtain b where b: "slot_ready s (BucketID ki) b"
    using assms(1,2) routed_key(3) [OF assms(2,3)] by (auto simp: store_rep_def)
  then show ?thesis using assms(1) by (auto simp: store_rep_def slot_ready_def)
qed

lemma hs_Get_rep:
  assumes "store_rep e K s m" "bytes_of_string k \<in> K" "bkt_limits e K"
  shows "\<exists>r s' d'. hs_Get e (prepare_key k False) False s d = Some (r, s', d') \<and> returns (m (bytes_of_string k)) r \<and> store_rep e K s' m"
proof -
  obtain ki where ki: "route_key e (prepare_key k False) = Some ki" using route_prepared by blast
  note key = routed_key [OF assms(2) ki]
  obtain sb b where sb: "nth_int (hs_buckets s) (BucketID ki) = Some sb" "sb_State sb = BUCKET_STAT_READY" "sb_Bkt sb = Some b"
      "bkt_rep e (bucket_keys e K (BucketID ki)) (BucketID ki) b m"
    using store_slot [OF assms(1,2) ki] by blast
  have q: "qlz_ok e" "mem_ok e" using assms(3) by (simp_all add: bkt_limits_def)
  obtain r d' where g: "bkt_get e ki False b d = Some (r, b, d')" "returns (m (Key ki)) r" using bkt_get_full [OF sb(4) key(1) q] by blast
  let ?sb = "sb\<lparr>sb_NumGet := sb_NumGet sb + 1, sb_Bkt := Some b\<rparr>" and ?k = "bytes_of_string k"
  have "store_rep e K (upd_bucket (BucketID ki) ?sb s) (m(?k := m ?k))"
    using sb key(3) by (intro store_rep_upd [OF assms(1) sb(1)]) simp_all
  then show ?thesis using ki sb(1-3) g key(2) by (simp add: hs_Get_def)
qed

lemma hs_Set_rep:
  assumes "store_rep e K s m" "bytes_of_string k \<in> K" "bkt_limits e K" "storable e (bytes_of_string k) v" "chunk_left e s k"
  shows "\<exists>s' d'. hs_Set e oe (prepare_key k False) v s d = Some (fst (spec_set (conf e) v (m (bytes_of_string k))), s', d') \<and>
    store_rep e K s' (m(bytes_of_string k := snd (spec_set (conf e) v (m (bytes_of_string k)))))"
proof -
  let ?k = "bytes_of_string k"
  obtain ki where ki: "route_key e (prepare_key k False) = Some ki" using route_prepared by blast
  note key = routed_key [OF assms(2) ki]
  obtain sb b where sb: "nth_int (hs_buckets s) (BucketID ki) = Some sb" "sb_State sb = BUCKET_STAT_READY" "sb_Bkt sb = Some b"
      "slot_ready s (BucketID ki) b" "bkt_rep e (bucket_keys e K (BucketID ki)) (BucketID ki) b m"
    using store_slot [OF assms(1,2) ki] by blast
  have "ds_newHead (bk_datas b) + 1 < MAX_NUM_CHUNK" using assms(5) ki sb(4) by (auto simp: chunk_left_def)
  from checkAndSet_rep [OF sb(5) key(1) bucket_limits [OF assms(3)] this, of v oe d] assms(4) key(2)
  obtain b' d' where c: "checkAndSet e oe ki v b d = Some (fst (spec_set (conf e) v (m ?k)), b', d')"
      "bkt_rep e (bucket_keys e K (BucketID ki)) (BucketID ki) b' (m(?k := snd (spec_set (conf e) v (m ?k))))" by auto
  let ?sb = "sb\<lparr>sb_NumSet := sb_NumSet sb + 1, sb_Bkt := Some b'\<rparr>"
  have "store_rep e K (upd_bucket (BucketID ki) ?sb s) (m(?k := snd (spec_set (conf e) v (m ?k))))"
    using sb c(2) key(3) by (intro store_rep_upd [OF assms(1) sb(1)]) simp_all
  then show ?thesis using ki sb(1-3) c(1) by (auto simp: hs_Set_def)
qed

text \<open>What the tree has is the version and hash of the map.\<close>

lemma held_val:
  assumes "store_rep e K s m" "bytes_of_string k \<in> K" "m (bytes_of_string k) = Some a"
  shows "\<exists>p. held e s k p \<and> Ver p = av_Ver a \<and> ValueHash p = av_Vhash a"
proof -
  obtain ki where ki: "route_key e (prepare_key k False) = Some ki" using route_prepared by blast
  note key = routed_key [OF assms(2) ki]
  obtain b where sb: "slot_ready s (BucketID ki) b" "bkt_rep e (bucket_keys e K (BucketID ki)) (BucketID ki) b m"
    using store_slot [OF assms(1,2) ki] by blast
  from bkt_get_mem [OF sb(2) key(1), of ResetAll] assms(3) key(2)
  obtain p pos where "bkt_get e ki True b ResetAll = Some ((Some p, pos, None), b, ResetAll)" "Ver p = av_Ver a" "ValueHash p = av_Vhash a"
    by (auto simp: option_rel_Some1)
  then show ?thesis using ki sb(1) unfolding held_def by blast
qed

section \<open>What the specification decides for a client\<close>

text \<open>A write without a version is taken, unless its hash is taken for that of the value there; a delete is always taken.\<close>

lemma live_upd: "live (m(bytes_of_string k := x)) = (live m)(k := live (\<lambda>_. x) k)"
  by (auto simp: live_def fun_eq_iff)

lemma spec_set_live:
  assumes "\<And>a. CheckVHash c \<Longrightarrow> old = Some a \<Longrightarrow> 0 <s av_Ver a \<Longrightarrow> av_Vhash a \<noteq> Getvhash (pBody v)" "Ver v = 0" "\<And>a. old = Some a \<Longrightarrow> \<bar>sint (av_Ver a)\<bar> < 2 ^ 31 - 1"
  shows "fst (spec_set c v old) = None" "live (\<lambda>_. snd (spec_set c v old)) k = Some (uint (Flag v), pBody v)"
proof -
  define oldv where "oldv = (case old of Some a \<Rightarrow> av_Ver a | None \<Rightarrow> 0)"
  have "\<bar>sint oldv\<bar> < 2 ^ 31 - 1" using assms(3) by (auto simp: oldv_def split: option.splits)
  have no: "(0 <s oldv \<and> map_option av_Vhash old = Some (spec_vhash v) \<and> CheckVHash c) = False"
    using assms(1,2) by (auto simp: oldv_def spec_vhash_def)
  from \<open>\<bar>sint oldv\<bar> < 2 ^ 31 - 1\<close> obtain r where "checkAndUpdateVerison oldv (Ver v) = (r, True)" "\<not> r <s 0" using version_auto [of oldv] assms(2) by (auto simp: word_sless_alt)
  then show "fst (spec_set c v old) = None" "live (\<lambda>_. snd (spec_set c v old)) k = Some (uint (Flag v), pBody v)"
    unfolding spec_set_def Let_def oldv_def [symmetric] no by (simp_all add: live_def)
qed

lemma spec_set_delete:
  assumes "sint (Ver v) < 0" "\<And>a. old = Some a \<Longrightarrow> \<bar>sint (av_Ver a)\<bar> < 2 ^ 31 - 1"
  shows "fst (spec_set c v old) = (if live (\<lambda>_. old) k = None then Some NotFoundErr else None)" "live (\<lambda>_. snd (spec_set c v old)) k = None"
proof -
  define oldv where "oldv = (case old of Some a \<Rightarrow> av_Ver a | None \<Rightarrow> 0)"
  have "\<bar>sint oldv\<bar> < 2 ^ 31 - 1" using assms(2) by (auto simp: oldv_def split: option.splits)
  then obtain r where r: "checkAndUpdateVerison oldv (Ver v) = (r, True)" "r <s 0" using version_delete [OF _ assms(1), of oldv] by (auto simp: word_sless_alt)
  have l: "(live (\<lambda>_. old) k = None) = (old = None \<or> oldv <s 0)" by (auto simp: live_def oldv_def split: option.splits)
  have "fst (spec_set c v old) = (if live (\<lambda>_. old) k = None then Some NotFoundErr else None) \<and> live (\<lambda>_. snd (spec_set c v old)) k = None"
  proof (cases "0 <s oldv \<and> map_option av_Vhash old = Some (spec_vhash v) \<and> CheckVHash c")
    case True
    then obtain a where a: "old = Some a" "\<not> oldv <s 0" by (auto simp: word_sless_alt)
    have "spec_set c v old = (None, Some (a\<lparr>av_Ver := Ver v\<rparr>))" using True assms(1) a(1) by (auto simp: spec_set_def oldv_def)
    then show ?thesis using l a assms(1) by (auto simp: live_def word_sless_alt)
  next
    case False
    then have no: "(0 <s oldv \<and> map_option av_Vhash old = Some (spec_vhash v) \<and> CheckVHash c) = False" by blast
    have "spec_set c v old = (if old = None \<or> oldv <s 0 then (Some NotFoundErr, old)
        else (None, Some \<lparr>av_Ver = r, av_Vhash = spec_vhash v, av_TS = TS v, av_Flag = Flag v, av_Body = pBody v, av_Rec = r\<rparr>))"
      using r unfolding spec_set_def Let_def oldv_def [symmetric] no by simp
    then show ?thesis using r(2) l by (auto simp: live_def)
  qed
  then show "fst (spec_set c v old) = (if live (\<lambda>_. old) k = None then Some NotFoundErr else None)" "live (\<lambda>_. snd (spec_set c v old)) k = None" by blast+
qed

section \<open>The client is a storage\<close>

lemma valid_key_first:
  assumes "IsValidKeyString (bytes_of_string k)"
  shows "\<exists>c. nth_opt k 0 = Some c \<and> c \<noteq> CHR ''@'' \<and> c \<noteq> CHR ''?''"
proof -
  have h: "k \<noteq> []" "hd (bytes_of_string k) \<noteq> 63" "hd (bytes_of_string k) \<noteq> 64"
    using assms by (auto simp: IsValidKeyString_def bytes_of_string_def split: if_splits)
  then show ?thesis by (cases k) (auto simp: bytes_of_string_def)
qed

lemma bc_Set_rep:
  assumes "bkt_limits e K" "client_rep e K s M" "client_set_ok e K s k it"
  shows "\<exists>s' d'. bc_Set e oe msg k it nr (s, d) = Some (Inr True, s', d') \<and> client_rep e K s' (M(k \<mapsto> item_data it))"
proof -
  let ?k = "bytes_of_string k" and ?v = "set_payload it"
  have k: "?k \<in> K" "IsValidKeyString ?k" "storable e ?k ?v" "room e s k" "new_hash e s k it" using assms(3) by (simp_all add: client_set_ok_def client_key_def)
  obtain m where m: "store_rep e K s m" "M = live m" using assms(2) by (auto simp: client_rep_def)
  let ?sp = "spec_set (conf e) ?v (m ?k)"
  obtain s' d' where s: "hs_Set e oe (prepare_key k False) ?v s d = Some (fst ?sp, s', d')" "store_rep e K s' (m(?k := snd ?sp))"
    using hs_Set_rep [OF m(1) k(1) assms(1) k(3), of oe d] k(4) by (auto simp: room_def)
  have v: "Ver ?v = 0" "uint (Flag ?v) = mi_Flag it" "pBody ?v = item_body it"
    using assms(3) by (simp_all add: client_set_ok_def set_payload_def unsigned_of_int take_bit_int_eq_self)
  note H = held_val [OF m(1) k(1)]
  have vr: "\<bar>sint (av_Ver a)\<bar> < 2 ^ 31 - 1" if "m ?k = Some a" for a using H [OF that] k(4) by (auto simp: room_def)
  have vh: "av_Vhash a \<noteq> Getvhash (pBody ?v)" if "CheckVHash (conf e)" "m ?k = Some a" "0 <s av_Ver a" for a
    using H [OF that(2)] k(5) that(1,3) v(3) by (auto simp: new_hash_def)
  have l: "fst ?sp = None" "live (\<lambda>_. snd ?sp) k = Some (uint (Flag ?v), pBody ?v)"
    by (rule spec_set_live; (erule (2) vh | rule v(1) | erule vr))+
  have "live (m(?k := snd ?sp)) = M(k \<mapsto> item_data it)" unfolding live_upd l(2) m(2) v(2,3) item_data_def ..
  then show ?thesis using s k(2) l(1) unfolding bc_Set_def client_rep_def by (simp del: fun_upd_apply) metis
qed

text \<open>Any other set keeps the store a map.\<close>

lemma bc_put_rep:
  assumes "bkt_limits e K" "client_rep e K s M" "client_put_ok e K s k it" "bc_Set e oe msg k it nr (s, d) = Some (r, s', d')"
  shows "\<exists>M'. client_rep e K s' M'"
proof -
  let ?k = "bytes_of_string k"
  have k: "?k \<in> K" "IsValidKeyString ?k" "storable e ?k (set_payload it)" "chunk_left e s k"
    using assms(3) by (simp_all add: client_put_ok_def client_key_def)
  obtain m where "store_rep e K s m" using assms(2) by (auto simp: client_rep_def)
  from hs_Set_rep [OF this k(1) assms(1) k(3,4), of oe d] assms(4) k(2) show ?thesis
    by (auto simp: bc_Set_def client_rep_def simp del: fun_upd_apply)
qed

lemma bc_Get_rep:
  assumes "bkt_limits e K" "client_rep e K s M" "client_key K k"
  shows "\<exists>s' d' it. bc_Get e msg k (s, d) = Some (Inr it, s', d') \<and> map_option item_data it = M k \<and> client_rep e K s' M"
proof -
  let ?k = "bytes_of_string k"
  have k: "?k \<in> K" "IsValidKeyString ?k" using assms(3) by (simp_all add: client_key_def)
  obtain ch where ch: "nth_opt k 0 = Some ch" "ch \<noteq> CHR ''@''" "ch \<noteq> CHR ''?''" using valid_key_first [OF k(2)] by blast
  obtain m where m: "store_rep e K s m" "M = live m" using assms(2) by (auto simp: client_rep_def)
  obtain r s' d' where g: "hs_Get e (prepare_key k False) False s d = Some (r, s', d')" "returns (m ?k) r" "store_rep e K s' m"
    using hs_Get_rep [OF m(1) k(1) assms(1)] by blast
  obtain pl pos er where r: "r = (pl, pos, er)" by (cases r)
  have rep: "client_rep e K s' M" using g(3) m(2) by (auto simp: client_rep_def)
  show ?thesis
  proof (cases "m ?k")
    case None
    then show ?thesis using g(1,2) ch rep r m(2) by (auto simp: bc_Get_def returns_def live_def)
  next
    case (Some a)
    then obtain p where "pl = Some p" "er = None" "Ver p = av_Ver a" "Flag p = av_Flag a" "pBody p = av_Body a"
      using g(2) r by (auto simp: returns_def)
    then show ?thesis using g(1) ch rep r m(2) Some by (auto simp: bc_Get_def live_def item_data_def)
  qed
qed

lemma bc_Delete_rep:
  assumes "bkt_limits e K" "client_rep e K s M" "client_del_ok e K oe s k"
  shows "\<exists>s' d'. bc_Delete e oe msg k (s, d) = Some (Inr (M k \<noteq> None), s', d') \<and> client_rep e K s' (M(k := None))"
proof -
  let ?k = "bytes_of_string k" and ?v = "GetPayloadForDelete oe"
  have k: "?k \<in> K" "IsValidKeyString ?k" "storable e ?k ?v" "room e s k" using assms(3) by (simp_all add: client_del_ok_def client_key_def)
  obtain m where m: "store_rep e K s m" "M = live m" using assms(2) by (auto simp: client_rep_def)
  let ?sp = "spec_set (conf e) ?v (m ?k)"
  obtain s' d' where s: "hs_Set e oe (prepare_key k False) ?v s d = Some (fst ?sp, s', d')" "store_rep e K s' (m(?k := snd ?sp))"
    using hs_Set_rep [OF m(1) k(1) assms(1) k(3), of oe d] k(4) by (auto simp: room_def)
  have v: "sint (Ver ?v) < 0" by (simp add: GetPayloadForDelete_def)
  have vr: "\<bar>sint (av_Ver a)\<bar> < 2 ^ 31 - 1" if "m ?k = Some a" for a using held_val [OF m(1) k(1) that] k(4) by (auto simp: room_def)
  have l: "fst ?sp = (if live (\<lambda>_. m ?k) k = None then Some NotFoundErr else None)" "live (\<lambda>_. snd ?sp) k = None"
    by (rule spec_set_delete [OF v], erule vr)+
  have M: "live (\<lambda>_. m ?k) k = M k" by (simp add: m(2) live_def)
  have "live (m(?k := snd ?sp)) = M(k := None)" by (simp add: live_upd m(2) l(2))
  then have "client_rep e K s' (M(k := None))" using s(2) unfolding client_rep_def by metis
  then show ?thesis using s(1) k(2) l(1) M by (cases "M k") (simp_all add: bc_Delete_def)
qed

interpretation beansdb: storage "beansdb_client e oe msg" "\<lambda>s M. bkt_limits e K \<and> client_rep e K s M"
  "client_set_ok e K" "client_key K" "client_del_ok e K oe" for e oe msg K
  by unfold_locales
    (use bc_Set_rep bc_Get_rep bc_Delete_rep in \<open>fastforce simp: beansdb_client_def\<close>)+

section \<open>The opened store\<close>

definition fresh_slot :: StoreBucket where
  "fresh_slot = \<lparr>sb_State = BUCKET_STAT_READY, sb_Bkt = None, sb_Dir = Some empty_home, sb_NumGet = 0, sb_NumSet = 0\<rparr>"

lemma new_slot_fresh: "new_slot c 1 None = fresh_slot"
  by (simp add: new_slot_def scan_bucket_def allocBucket_def fresh_slot_def BUCKET_STAT_EMPTY_def BUCKET_STAT_NOT_EMPTY_def)

lemma open_slots_fresh:
  assumes "bkt_limits e K"
  shows "\<exists>sbs. open_slots e oe threshold i (replicate n (1, fresh_slot)) d = Some (None, sbs, d) \<and> length sbs = n \<and>
    (\<forall>j < n. \<exists>b. sb_State (sbs ! j) = BUCKET_STAT_READY \<and> sb_Bkt (sbs ! j) = Some b \<and> ds_newHead (bk_datas b) = 0 \<and>
       bkt_rep e (bucket_keys e K (i + int j)) (i + int j) b Map.empty)"
proof (induction n arbitrary: i)
  case (Suc n)
  obtain b where b: "bkt_open e oe threshold i empty_home d = Some (None, Some b, d)"
      "bkt_rep e (bucket_keys e K i) i b Map.empty" "ds_newHead (bk_datas b) = 0"
    using bkt_open_empty [OF bucket_limits [OF assms]] by blast
  obtain sbs where sbs: "open_slots e oe threshold (i + 1) (replicate n (1, fresh_slot)) d = Some (None, sbs, d)" "length sbs = n"
      "\<forall>j < n. \<exists>b. sb_State (sbs ! j) = BUCKET_STAT_READY \<and> sb_Bkt (sbs ! j) = Some b \<and> ds_newHead (bk_datas b) = 0 \<and>
         bkt_rep e (bucket_keys e K (i + 1 + int j)) (i + 1 + int j) b Map.empty" using Suc by blast
  let ?sb = "fresh_slot\<lparr>sb_Bkt := Some b\<rparr>"
  have "open_slots e oe threshold i (replicate (Suc n) (1, fresh_slot)) d = Some (None, ?sb # sbs, d)"
    using b(1) sbs(1) by (simp add: open_slot_def fresh_slot_def)
  moreover have "\<exists>b. sb_State ((?sb # sbs) ! j) = BUCKET_STAT_READY \<and> sb_Bkt ((?sb # sbs) ! j) = Some b \<and> ds_newHead (bk_datas b) = 0 \<and>
      bkt_rep e (bucket_keys e K (i + int j)) (i + int j) b Map.empty" if "j < Suc n" for j
    using that b(2,3) sbs(3) by (cases j) (auto simp: fresh_slot_def algebra_simps)
  ultimately show ?case using sbs(2) by auto
qed simp

lemma key_bucket_nonneg [simp]: "0 \<le> key_bucket e k"
  by (simp add: key_bucket_def bucket_of_path_offset)

lemma NewHStore_rep:
  assumes "bkt_limits e K" "length stats = length dirs" "\<forall>x \<in> set stats. x = 1" "\<forall>x \<in> set dirs. x = None"
    and "\<forall>k \<in> K. key_bucket e k < int (length stats)" "NewHStore e oe threshold stats dirs = Some (None, s, d)"
  shows "store_rep e K s Map.empty" "slot_ready s i b \<Longrightarrow> ds_newHead (bk_datas b) = 0"
proof -
  let ?n = "length stats"
  have eq: "stats = replicate ?n 1" "dirs = replicate ?n None" using assms(2-4) by (auto simp: list_eq_iff_nth_eq)
  have slots: "zip stats (map2 (new_slot (conf e)) stats dirs) = replicate ?n (1, fresh_slot)"
    by (subst (1 2) eq(1), subst eq(2)) (simp add: zip_replicate map_replicate new_slot_fresh)
  obtain sbs where sbs: "open_slots e oe threshold 0 (replicate ?n (1, fresh_slot)) ResetAll = Some (None, sbs, ResetAll)" "length sbs = ?n"
      "\<And>j. j < ?n \<Longrightarrow> \<exists>b. sb_State (sbs ! j) = BUCKET_STAT_READY \<and> sb_Bkt (sbs ! j) = Some b \<and> ds_newHead (bk_datas b) = 0 \<and>
         bkt_rep e (bucket_keys e K (0 + int j)) (0 + int j) b Map.empty" using open_slots_fresh [OF assms(1)] by blast
  have s: "hs_buckets s = sbs"
    using assms(6) sbs(1) unfolding NewHStore_def Let_def slots by (auto split: if_splits bind_splits)
  show "store_rep e K s Map.empty"
    unfolding store_rep_def
  proof (intro conjI ballI allI impI)
    fix k assume k: "k \<in> K"
    then have "nat (key_bucket e k) < ?n" using assms(5) by (simp add: nat_less_iff)
    from sbs(3) [OF this] this show "\<exists>b. slot_ready s (key_bucket e k) b" by (auto simp: slot_ready_def nth_int_def s sbs(2))
  next
    fix i b assume "slot_ready s i b"
    then show "bkt_rep e (bucket_keys e K i) i b Map.empty"
      using sbs(3) [of "nat i"] by (auto simp: slot_ready_def nth_int_def nth_opt_def s sbs(2) split: if_splits)
  qed
  show "ds_newHead (bk_datas b) = 0" if "slot_ready s i b"
    using that sbs(3) [of "nat i"] by (auto simp: slot_ready_def nth_int_def nth_opt_def s sbs(2) split: if_splits)
qed

lemma client_run_rep:
  assumes "client_run e oe K s" "bkt_limits e K"
  shows "\<exists>M. client_rep e K s M"
  using assms(1)
proof induction
  case (crun_new stats dirs oe0 threshold s d)
  from NewHStore_rep(1) [OF assms(2) crun_new] show ?case by (auto simp: client_rep_def)
next
  case (crun_set s k it msg nr d r s' d')
  then show ?case using bc_put_rep [OF assms(2) _ crun_set.hyps(2,3)] by blast
next
  case (crun_get s k msg d r s' d')
  then show ?case using bc_Get_rep [OF assms(2) _ crun_get.hyps(2), of _ _ msg d] by fastforce
next
  case (crun_delete s k msg d r s' d')
  then show ?case using bc_Delete_rep [OF assms(2) _ crun_delete.hyps(2), of _ msg d] by fastforce
qed

section \<open>A connection to the server\<close>

lemma storable_array:
  assumes "storable e k (set_payload it)" "Body a = item_body it"
  shows "storable e k (set_payload (it\<lparr>mi_ReceiveTime := t, mi_CArray := a\<rparr>))"
  using assms by (simp add: storable_def acceptable_def set_payload_def rec_Size_def Sizes_def)


section \<open>Concrete input\<close>

lemma sample_store:
  "\<exists>s. NewHStore toy_env \<lparr>op_now = 0, op_fresh = [], op_mergeChan = True\<rparr> 0 [1] [None] = Some (None, s, ResetAll)"
proof -
  have "bkt_limits toy_env {}" using sample_bkt(1) by (auto simp: bkt_limits_def)
  from open_slots_fresh [OF this, of "\<lparr>op_now = 0, op_fresh = [], op_mergeChan = True\<rparr>" 0 0 1 ResetAll]
  obtain sbs where "open_slots toy_env \<lparr>op_now = 0, op_fresh = [], op_mergeChan = True\<rparr> 0 0 [(1, fresh_slot)] ResetAll = Some (None, sbs, ResetAll)"
    by auto
  moreover have "newHTree 0 0 2 \<noteq> None" by (simp add: newHTree_def MAX_DEPTH_def)
  moreover have "TreeDepth (conf toy_env) = 1" by (simp add: toy_env_def sample_conf_def)
  ultimately show ?thesis by (auto simp: NewHStore_def Let_def new_slot_fresh numeral_2_eq_2)
qed


end
