(* ===== verification/QuickLz.thy ===== *)
theory QuickLz
  imports Item
begin

text \<open>
  The compressor in Go (\<open>quicklz/quicklz.go\<close>, levels 1 and 3): \<open>Compress\<close>, \<open>Decompress\<close> and \<open>DecompressSafe\<close>.  The variables of
  a function are the fields of a record, and the loops are functions on it.  A Go \<open>int\<close> that may be negative is an \<open>int\<close>, the others are
  natural numbers.  The tables of 4096 entries are functions: their index is masked to twelve bits.  An index out of range is \<open>None\<close>.
\<close>

unbundle bit_operations_syntax

section \<open>Constants, fixed-size writes and the header\<close>

definition HASH_VALUES :: int where "HASH_VALUES = 4096"
definition MINOFFSET :: nat where "MINOFFSET = 2"
definition UNCONDITIONAL_MATCHLEN :: int where "UNCONDITIONAL_MATCHLEN = 6"
definition UNCOMPRESSED_END :: int where "UNCOMPRESSED_END = 4"
definition CWORD_LEN :: nat where "CWORD_LEN = 4"
definition DEFAULT_HEADERLEN :: nat where "DEFAULT_HEADERLEN = 9"
definition QLZ_POINTERS_3 :: nat where "QLZ_POINTERS_3 = 16"

lemmas qlz_constants = HASH_VALUES_def MINOFFSET_def UNCONDITIONAL_MATCHLEN_def UNCOMPRESSED_END_def CWORD_LEN_def
  DEFAULT_HEADERLEN_def QLZ_POINTERS_3_def

definition fastWrite :: "bytes \<Rightarrow> nat \<Rightarrow> int \<Rightarrow> nat \<Rightarrow> bytes option" where
  "fastWrite a i v numbytes =
     (if i + numbytes \<le> length a then Some (write_at i (put_le numbytes (word_of_int v :: u64)) a) else None)"

definition writeHeader :: "bytes \<Rightarrow> int \<Rightarrow> bool \<Rightarrow> int \<Rightarrow> int \<Rightarrow> bytes option" where
  "writeHeader dst level compressible sizeCompressed sizeDecompressed = do {
     let cbit = (if compressible then 1 else 0 :: byte);
     d0 \<leftarrow> upd_opt dst 0 (((2 OR cbit) OR word_of_int (push_bit 2 level)) OR push_bit 6 1);
     d1 \<leftarrow> fastWrite d0 1 sizeDecompressed 4;
     fastWrite d1 5 sizeCompressed 4
   }"

definition qlz_hash :: "int \<Rightarrow> nat" where
  "qlz_hash fetch = nat ((drop_bit 12 fetch XOR fetch) AND (HASH_VALUES - 1))"

definition last_match_start :: "int \<Rightarrow> int" where
  "last_match_start n = n - UNCONDITIONAL_MATCHLEN - UNCOMPRESSED_END - 1"

text \<open>The three bytes of \<open>fetch\<close> moved on by one, with the next byte behind them.\<close>

definition roll_fetch :: "int \<Rightarrow> byte \<Rightarrow> int" where
  "roll_fetch fetch b = (drop_bit 8 fetch AND 0xffff) OR push_bit 16 (uint b)"

section \<open>Compress\<close>

record qlz_comp =
  qc_src :: nat
  qc_dst :: nat
  qc_cwordVal :: u32
  qc_cwordPtr :: nat
  qc_destination :: bytes
  qc_hashtable :: "nat \<Rightarrow> nat \<Rightarrow> nat"
  qc_cachetable :: "nat \<Rightarrow> int"
  qc_hashCounter :: "nat \<Rightarrow> byte"
  qc_fetch :: int
  qc_lits :: nat

definition put_entry :: "nat \<Rightarrow> nat \<Rightarrow> nat \<Rightarrow> (nat \<Rightarrow> nat \<Rightarrow> nat) \<Rightarrow> nat \<Rightarrow> nat \<Rightarrow> nat" where
  "put_entry hash k v tab = tab(hash := (tab hash)(k := v))"

text \<open>\<open>remaining\<close>: how long a match at \<open>src\<close> may be.\<close>

definition qlz_remaining :: "bytes \<Rightarrow> nat \<Rightarrow> int" where
  "qlz_remaining source src =
     (let ln = int (length source) - UNCOMPRESSED_END - int src + 1 - 1 in if ln \<le> 255 then ln else 255)"

text \<open>The loop that extends a match of \<open>m\<close> bytes.\<close>

function match_len :: "bytes \<Rightarrow> nat \<Rightarrow> nat \<Rightarrow> int \<Rightarrow> nat \<Rightarrow> nat option" where
  "match_len source p src remaining m = do {
     x \<leftarrow> nth_opt source (p + m);
     y \<leftarrow> nth_opt source (src + m);
     if x = y \<and> int m < remaining then match_len source p src remaining (m + 1) else Some m
   }"
  by pat_completeness auto
termination
  by (relation "measure (\<lambda>(source, p, src, remaining, m). length source - (src + m))") (auto simp: nth_opt_def split: if_splits)

declare match_len.simps [simp del]

definition emit_literal :: "bytes \<Rightarrow> qlz_comp \<Rightarrow> qlz_comp option" where
  "emit_literal source s = do {
     x \<leftarrow> nth_opt source (qc_src s);
     dest \<leftarrow> upd_opt (qc_destination s) (qc_dst s) x;
     Some (s\<lparr>qc_destination := dest, qc_cwordVal := drop_bit 1 (qc_cwordVal s), qc_src := qc_src s + 1, qc_dst := qc_dst s + 1\<rparr>)
   }"

definition emit_match :: "int \<Rightarrow> nat \<Rightarrow> nat \<Rightarrow> qlz_comp \<Rightarrow> qlz_comp option" where
  "emit_match f numbytes matchlen s = do {
     dest \<leftarrow> fastWrite (qc_destination s) (qc_dst s) f numbytes;
     Some (s\<lparr>qc_destination := dest, qc_cwordVal := drop_bit 1 (qc_cwordVal s) OR 0x80000000,
             qc_src := qc_src s + matchlen, qc_dst := qc_dst s + numbytes\<rparr>)
   }"

subsection \<open>Level 1\<close>

text \<open>The second way to accept a match: the third literal in a row of one byte, with the entry just before \<open>src\<close>.\<close>

definition run_match :: "bytes \<Rightarrow> nat \<Rightarrow> nat \<Rightarrow> nat \<Rightarrow> bool option" where
  "run_match source src p lits =
     (if src = p + 1 \<and> 3 \<le> lits \<and> 3 < src then do {
        x \<leftarrow> nth_opt source src;
        a3 \<leftarrow> nth_opt source (src - 3);
        a2 \<leftarrow> nth_opt source (src - 2);
        a1 \<leftarrow> nth_opt source (src - 1);
        b1 \<leftarrow> nth_opt source (src + 1);
        b2 \<leftarrow> nth_opt source (src + 2);
        Some (x = a3 \<and> x = a2 \<and> x = a1 \<and> x = b1 \<and> x = b2)
      } else Some False)"

text \<open>The length of a match whose first four bytes are equal.\<close>

definition long_match :: "bytes \<Rightarrow> nat \<Rightarrow> nat \<Rightarrow> nat option" where
  "long_match source p src = do {
     let remaining = qlz_remaining source src;
     x4 \<leftarrow> nth_opt source (p + 4);
     y4 \<leftarrow> nth_opt source (src + 4);
     if x4 \<noteq> y4 then Some 4
     else do {
       x5 \<leftarrow> nth_opt source (p + 5);
       y5 \<leftarrow> nth_opt source (src + 5);
       if x5 \<noteq> y5 then Some 5 else match_len source p src remaining 6
     }
   }"

definition emit_match_1 :: "bytes \<Rightarrow> nat \<Rightarrow> nat \<Rightarrow> qlz_comp \<Rightarrow> qlz_comp option" where
  "emit_match_1 source hash p s = do {
     x3 \<leftarrow> nth_opt source (p + 3);
     y3 \<leftarrow> nth_opt source (qc_src s + 3);
     if x3 \<noteq> y3 then emit_match ((3 - 2) OR push_bit 4 (int hash)) 2 3 s
     else do {
       matchlen \<leftarrow> long_match source p (qc_src s);
       if matchlen < 18 then emit_match (push_bit 4 (int hash) OR (int matchlen - 2)) 2 matchlen s
       else emit_match (push_bit 4 (int hash) OR push_bit 16 (int matchlen)) 3 matchlen s
     }
   }"

definition match_1 :: "bytes \<Rightarrow> nat \<Rightarrow> nat \<Rightarrow> qlz_comp \<Rightarrow> qlz_comp option" where
  "match_1 source hash p s = do {
     s1 \<leftarrow> emit_match_1 source hash p s;
     fetch \<leftarrow> fastRead source (qc_src s1) 3;
     Some (s1\<lparr>qc_lits := 0, qc_fetch := fetch\<rparr>)
   }"

definition literal_1 :: "bytes \<Rightarrow> nat \<Rightarrow> qlz_comp \<Rightarrow> qlz_comp option" where
  "literal_1 source hash s = do {
     s1 \<leftarrow> emit_literal source (s\<lparr>qc_lits := qc_lits s + 1, qc_hashCounter := (qc_hashCounter s)(hash := 1)\<rparr>);
     b \<leftarrow> nth_opt source (qc_src s1 + 2);
     Some (s1\<lparr>qc_fetch := roll_fetch (qc_fetch s1) b\<rparr>)
   }"

definition compress_1 :: "bytes \<Rightarrow> qlz_comp \<Rightarrow> qlz_comp option" where
  "compress_1 source s = do {
     let hash = qlz_hash (qc_fetch s);
     let p = qc_hashtable s hash 0;
     let cache = qc_cachetable s hash XOR qc_fetch s;
     let s1 = s\<lparr>qc_cachetable := (qc_cachetable s)(hash := qc_fetch s), qc_hashtable := put_entry hash 0 (qc_src s) (qc_hashtable s)\<rparr>;
     run \<leftarrow> run_match source (qc_src s) p (qc_lits s);
     if cache = 0 \<and> qc_hashCounter s hash \<noteq> 0 \<and> (p + MINOFFSET < qc_src s \<or> run)
     then match_1 source hash p s1
     else literal_1 source hash s1
   }"

subsection \<open>Level 3\<close>

text \<open>The search among the entries of a hash: the longest match, and the newest of equal length.\<close>

fun search_3 :: "bytes \<Rightarrow> nat \<Rightarrow> int \<Rightarrow> int \<Rightarrow> (nat \<Rightarrow> nat) \<Rightarrow> nat list \<Rightarrow> nat \<times> nat \<Rightarrow> (nat \<times> nat) option" where
  "search_3 source src fetch remaining entries [] best = Some best"
| "search_3 source src fetch remaining entries (k # ks) (offset2, matchlen) = do {
     let p = entries k;
     x0 \<leftarrow> nth_opt source p;
     x1 \<leftarrow> nth_opt source (p + 1);
     x2 \<leftarrow> nth_opt source (p + 2);
     if word_of_int fetch = x0 \<and> word_of_int (drop_bit 8 fetch) = x1 \<and> word_of_int (drop_bit 16 fetch) = x2 \<and> p + MINOFFSET < src
     then do {
       m \<leftarrow> match_len source p src remaining 3;
       search_3 source src fetch remaining entries ks
         (if matchlen < m \<or> m = matchlen \<and> offset2 < p then (p, m) else (offset2, matchlen))
     }
     else search_3 source src fetch remaining entries ks (offset2, matchlen)
   }"

definition enter_3 :: "nat \<Rightarrow> nat \<Rightarrow> qlz_comp \<Rightarrow> qlz_comp" where
  "enter_3 hash pos s =
     (let c = qc_hashCounter s hash in
      s\<lparr>qc_hashtable := put_entry hash (unat (c AND (of_nat QLZ_POINTERS_3 - 1))) pos (qc_hashtable s),
        qc_hashCounter := (qc_hashCounter s)(hash := c + 1)\<rparr>)"

text \<open>The positions inside a match are entered too.\<close>

fun enter_all_3 :: "bytes \<Rightarrow> nat list \<Rightarrow> qlz_comp \<Rightarrow> qlz_comp option" where
  "enter_all_3 source [] s = Some s"
| "enter_all_3 source (u # us) s = do {
     fetch \<leftarrow> fastRead source (qc_src s + u) 3;
     enter_all_3 source us (enter_3 (qlz_hash fetch) (qc_src s + u) (s\<lparr>qc_fetch := fetch\<rparr>))
   }"

definition match_3 :: "nat \<Rightarrow> nat \<Rightarrow> qlz_comp \<Rightarrow> qlz_comp option" where
  "match_3 offset matchlen s =
     (let f = int offset; m = int matchlen in
      if matchlen = 3 \<and> offset \<le> 63 then emit_match (push_bit 2 f) 1 matchlen s
      else if matchlen = 3 \<and> offset \<le> 16383 then emit_match (push_bit 2 f OR 1) 2 matchlen s
      else if matchlen \<le> 18 \<and> offset \<le> 1023 then emit_match ((push_bit 2 (m - 3) OR push_bit 6 f) OR 2) 2 matchlen s
      else if matchlen \<le> 33 then emit_match ((push_bit 2 (m - 2) OR push_bit 7 f) OR 3) 3 matchlen s
      else emit_match ((push_bit 7 (m - 3) OR push_bit 15 f) OR 3) 4 matchlen s)"

definition compress_3 :: "bytes \<Rightarrow> qlz_comp \<Rightarrow> qlz_comp option" where
  "compress_3 source s0 = do {
     fetch \<leftarrow> fastRead source (qc_src s0) 3;
     let s = s0\<lparr>qc_fetch := fetch\<rparr>;
     let hash = qlz_hash fetch;
     (p, matchlen) \<leftarrow> search_3 source (qc_src s) fetch (qlz_remaining source (qc_src s)) (qc_hashtable s hash)
       [0 ..< min QLZ_POINTERS_3 (unat (qc_hashCounter s hash))] (0, 0);
     let s1 = enter_3 hash (qc_src s) s;
     if 3 \<le> matchlen \<and> qc_src s < p + 131071 then do {
       s2 \<leftarrow> enter_all_3 source [1 ..< matchlen] s1;
       match_3 (qc_src s - p) matchlen s2
     }
     else emit_literal source s1
   }"

subsection \<open>The loops\<close>

definition flush_cword :: "qlz_comp \<Rightarrow> qlz_comp option" where
  "flush_cword s = do {
     dest \<leftarrow> fastWrite (qc_destination s) (qc_cwordPtr s) (uint (drop_bit 1 (qc_cwordVal s)) OR 0x80000000) 4;
     Some (s\<lparr>qc_destination := dest, qc_cwordPtr := qc_dst s, qc_dst := qc_dst s + CWORD_LEN, qc_cwordVal := 0x80000000\<rparr>)
   }"

definition stored :: "bytes \<Rightarrow> int \<Rightarrow> bytes option" where
  "stored source level = do {
     d2 \<leftarrow> writeHeader (replicate (length source + DEFAULT_HEADERLEN) 0) level False (int (length source)) (int (length source + DEFAULT_HEADERLEN));
     Some (write_at DEFAULT_HEADERLEN source d2)
   }"

definition give_up :: "bytes \<Rightarrow> qlz_comp \<Rightarrow> bool" where
  "give_up source s \<longleftrightarrow> qc_src s > 3 * drop_bit 2 (length source) \<and> qc_dst s > qc_src s - drop_bit 5 (qc_src s)"

lemma emit_advances:
  "emit_literal source s = Some s' \<Longrightarrow> qc_src s' = qc_src s + 1"
  "emit_match f n m s = Some s' \<Longrightarrow> qc_src s' = qc_src s + m"
  by (auto simp: emit_literal_def emit_match_def split: bind_splits)

lemma match_len_ge: "match_len source p src remaining m = Some r \<Longrightarrow> m \<le> r"
proof (induction source p src remaining m rule: match_len.induct)
  case (1 source p src remaining m)
  from "1.prems" show ?case
    by (subst (asm) match_len.simps) (auto split: bind_splits if_splits dest: "1.IH")
qed

lemma compress_1_advances: "compress_1 source s = Some s' \<Longrightarrow> qc_src s < qc_src s'"
  by (auto simp: compress_1_def match_1_def emit_match_1_def literal_1_def long_match_def Let_def split: bind_splits if_splits dest!: emit_advances match_len_ge)

lemma enter_all_src: "enter_all_3 source us s = Some s' \<Longrightarrow> qc_src s' = qc_src s"
  by (induction source us s rule: enter_all_3.induct) (auto simp: enter_3_def Let_def split: bind_splits)

lemma compress_3_advances: "compress_3 source s = Some s' \<Longrightarrow> qc_src s < qc_src s'"
  by (auto simp: compress_3_def match_3_def enter_3_def Let_def split: bind_splits if_splits prod.splits dest!: emit_advances enter_all_src)

lemma flush_cword_src: "flush_cword s = Some s' \<Longrightarrow> qc_src s' = qc_src s"
  by (auto simp: flush_cword_def split: bind_splits)

text \<open>The main loop ends with the state, or with the bytes of a block that does not get smaller.\<close>

function compress_loop :: "int \<Rightarrow> bytes \<Rightarrow> qlz_comp \<Rightarrow> (qlz_comp + bytes) option" where
  "compress_loop level source s =
     (if int (qc_src s) \<le> last_match_start (int (length source)) then
        (if qc_cwordVal s AND 1 = 1 \<and> give_up source s then map_option Inr (stored source level)
         else (case (if qc_cwordVal s AND 1 = 1 then flush_cword s else Some s) of
             None \<Rightarrow> None
           | Some s1 \<Rightarrow>
               (case (if level = 1 then compress_1 source s1 else compress_3 source s1) of
                  None \<Rightarrow> None
                | Some s2 \<Rightarrow> compress_loop level source s2)))
      else Some (Inl s))"
  by pat_completeness auto
termination
  by (relation "measure (\<lambda>(level, source, s). length source - qc_src s)")
    (auto simp: last_match_start_def qlz_constants split: if_splits dest!: compress_1_advances compress_3_advances flush_cword_src)

declare compress_loop.simps [simp del]

function compress_tail :: "bytes \<Rightarrow> qlz_comp \<Rightarrow> qlz_comp option" where
  "compress_tail source s =
     (if qc_src s < length source then
        (case (if qc_cwordVal s AND 1 = 1 then flush_cword s else Some s) of
           None \<Rightarrow> None
         | Some s1 \<Rightarrow>
             (case emit_literal source s1 of None \<Rightarrow> None | Some s2 \<Rightarrow> compress_tail source s2))
      else Some s)"
  by pat_completeness auto
termination
  by (relation "measure (\<lambda>(source, s). length source - qc_src s)") (auto split: if_splits dest!: emit_advances flush_cword_src)

declare compress_tail.simps [simp del]

text \<open>The control word is shifted until its lowest bit is set; of a word that is not zero, 31 shifts are enough.\<close>

fun align_cword :: "nat \<Rightarrow> u32 \<Rightarrow> u32 option" where
  "align_cword fuel w =
     (if w AND 1 = 1 then Some w else (case fuel of 0 \<Rightarrow> None | Suc n \<Rightarrow> align_cword n (drop_bit 1 w)))"

declare align_cword.simps [simp del]

definition comp_start :: "bytes \<Rightarrow> qlz_comp" where
  "comp_start source = \<lparr>qc_src = 0, qc_dst = DEFAULT_HEADERLEN + CWORD_LEN, qc_cwordVal = 0x80000000, qc_cwordPtr = DEFAULT_HEADERLEN,
     qc_destination = replicate (length source + 400) 0, qc_hashtable = \<lambda>_ _. 0, qc_cachetable = \<lambda>_. 0, qc_hashCounter = \<lambda>_. 0,
     qc_fetch = 0, qc_lits = 0\<rparr>"

definition comp_finish :: "bytes \<Rightarrow> int \<Rightarrow> qlz_comp \<Rightarrow> bytes option" where
  "comp_finish source level s = do {
     w \<leftarrow> align_cword 31 (qc_cwordVal s);
     d0 \<leftarrow> fastWrite (qc_destination s) (qc_cwordPtr s) (uint (drop_bit 1 w) OR 0x80000000) CWORD_LEN;
     d1 \<leftarrow> writeHeader d0 level True (int (length source)) (int (qc_dst s));
     Some (write_at 0 (take (qc_dst s) d1) (replicate (qc_dst s) 0))
   }"

definition Compress :: "bytes \<Rightarrow> int \<Rightarrow> bytes option" where
  "Compress source level =
     (if level \<noteq> 1 \<and> level \<noteq> 3 then None
      else if source = [] then Some []
      else do {
        fetch \<leftarrow> (if 0 \<le> last_match_start (int (length source)) then fastRead source 0 3 else Some 0);
        r \<leftarrow> compress_loop level source ((comp_start source)\<lparr>qc_fetch := fetch\<rparr>);
        case r of
          Inr d2 \<Rightarrow> Some d2
        | Inl s \<Rightarrow> do {
            s1 \<leftarrow> compress_tail source s;
            comp_finish source level s1
          }
      })"

section \<open>Decompress\<close>

record qlz_dec =
  qd_src :: nat
  qd_dst :: nat
  qd_cwordVal :: int
  qd_destination :: bytes
  qd_hashtable :: "nat \<Rightarrow> nat"
  qd_hashCounter :: "nat \<Rightarrow> byte"
  qd_lastHashed :: int
  qd_fetch :: int

definition fetch_width :: "int \<Rightarrow> nat" where
  "fetch_width level = (if level = 1 then 3 else 4)"

text \<open>The next control word, at the start of a turn.\<close>

definition next_cword :: "int \<Rightarrow> bytes \<Rightarrow> qlz_dec \<Rightarrow> qlz_dec option" where
  "next_cword level source s =
     (if qd_cwordVal s = 1 then do {
        w \<leftarrow> fastRead source (qd_src s) 4;
        let s1 = s\<lparr>qd_cwordVal := w, qd_src := qd_src s + 4\<rparr>;
        if int (qd_dst s) \<le> last_match_start (int (length (qd_destination s))) then do {
          fetch \<leftarrow> fastRead source (qd_src s1) (fetch_width level);
          Some (s1\<lparr>qd_fetch := fetch\<rparr>)
        }
        else Some s1
      } else Some s)"

text \<open>A reference: where the match starts, its length, and the number of bytes the reference takes.\<close>

definition read_ref_1 :: "bytes \<Rightarrow> qlz_dec \<Rightarrow> (int \<times> nat \<times> nat) option" where
  "read_ref_1 source s =
     (let hash = nat (drop_bit 4 (qd_fetch s) AND 0xfff); offset2 = int (qd_hashtable s hash) in
      if qd_fetch s AND 0xf \<noteq> 0 then Some (offset2, nat (qd_fetch s AND 0xf) + 2, 2)
      else map_option (\<lambda>b. (offset2, unat b, 3)) (nth_opt source (qd_src s + 2)))"

definition read_ref_3 :: "int \<Rightarrow> int \<times> nat \<times> nat" where
  "read_ref_3 fetch =
     (if fetch AND 3 = 0 then (drop_bit 2 (fetch AND 0xff), 3, 1)
      else if fetch AND 2 = 0 then (drop_bit 2 (fetch AND 0xffff), 3, 2)
      else if fetch AND 1 = 0 then (drop_bit 6 (fetch AND 0xffff), nat (drop_bit 2 fetch AND 15) + 3, 2)
      else if fetch AND 127 \<noteq> 3 then (drop_bit 7 fetch AND 0x1ffff, nat (drop_bit 2 fetch AND 0x1f) + 2, 3)
      else (drop_bit 15 fetch, nat (drop_bit 7 fetch AND 255) + 3, 4))"

definition read_ref :: "int \<Rightarrow> bytes \<Rightarrow> qlz_dec \<Rightarrow> (int \<times> nat \<times> nat) option" where
  "read_ref level source s =
     (if level = 1 then read_ref_1 source s
      else let (offset, matchlen, n) = read_ref_3 (qd_fetch s) in Some (int (qd_dst s) - offset, matchlen, n))"

text \<open>Bytes are copied one after the other, so that a match may overlap itself.\<close>

fun copy_bytes :: "nat \<Rightarrow> nat \<Rightarrow> nat list \<Rightarrow> bytes \<Rightarrow> bytes option" where
  "copy_bytes p dst [] dest = Some dest"
| "copy_bytes p dst (i # is') dest = do {
     b \<leftarrow> nth_opt dest (p + i);
     dest1 \<leftarrow> upd_opt dest (dst + i) b;
     copy_bytes p dst is' dest1
   }"

text \<open>The positions up to \<open>lim\<close> are entered into the table after a match.\<close>

function hash_match :: "int \<Rightarrow> qlz_dec \<Rightarrow> qlz_dec option" where
  "hash_match lim s =
     (if qd_lastHashed s < lim then
        (let h = qd_lastHashed s + 1; hash = qlz_hash (qd_fetch s) in
         case nth_opt (qd_destination s) (nat (h + 3)) of
           None \<Rightarrow> None
         | Some b \<Rightarrow>
             hash_match lim (s\<lparr>qd_lastHashed := h, qd_hashtable := (qd_hashtable s)(hash := nat h),
               qd_hashCounter := (qd_hashCounter s)(hash := 1), qd_fetch := roll_fetch (qd_fetch s) b\<rparr>))
      else Some s)"
  by pat_completeness auto
termination
  by (relation "measure (\<lambda>(lim, s). nat (lim - qd_lastHashed s))") auto

declare hash_match.simps [simp del]

definition enter_match :: "int \<Rightarrow> int \<Rightarrow> qlz_dec \<Rightarrow> qlz_dec option" where
  "enter_match level lim s =
     (if level = 1 then do {
        fetch \<leftarrow> fastRead (qd_destination s) (nat (qd_lastHashed s + 1)) 3;
        hash_match lim (s\<lparr>qd_fetch := fetch\<rparr>)
      } else Some s)"

definition dec_match :: "int \<Rightarrow> bytes \<Rightarrow> qlz_dec \<Rightarrow> qlz_dec option" where
  "dec_match level source s = do {
     let s0 = s\<lparr>qd_cwordVal := drop_bit 1 (qd_cwordVal s)\<rparr>;
     (offset2, matchlen, n) \<leftarrow> read_ref level source s0;
     if offset2 < 0 then None
     else do {
       let dst = qd_dst s;
       dest \<leftarrow> copy_bytes (nat offset2) dst ([0, 1, 2] @ [3 ..< matchlen]) (qd_destination s);
       let s1 = s0\<lparr>qd_src := qd_src s + n, qd_destination := dest, qd_dst := dst + matchlen\<rparr>;
       s2 \<leftarrow> enter_match level (int dst) s1;
       fetch \<leftarrow> fastRead source (qd_src s2) (fetch_width level);
       Some (s2\<lparr>qd_fetch := fetch, qd_lastHashed := int (qd_dst s2) - 1\<rparr>)
     }
   }"

text \<open>The positions with three bytes known are entered after a literal.\<close>

function hash_literal :: "int \<Rightarrow> qlz_dec \<Rightarrow> qlz_dec option" where
  "hash_literal lim s =
     (if qd_lastHashed s < lim then
        (let h = qd_lastHashed s + 1 in
         case fastRead (qd_destination s) (nat h) 3 of
           None \<Rightarrow> None
         | Some fetch2 \<Rightarrow>
             hash_literal lim (s\<lparr>qd_lastHashed := h, qd_hashtable := (qd_hashtable s)(qlz_hash fetch2 := nat h),
               qd_hashCounter := (qd_hashCounter s)(qlz_hash fetch2 := 1)\<rparr>))
      else Some s)"
  by pat_completeness auto
termination
  by (relation "measure (\<lambda>(lim, s). nat (lim - qd_lastHashed s))") auto

declare hash_literal.simps [simp del]

definition enter_literal :: "int \<Rightarrow> qlz_dec \<Rightarrow> qlz_dec option" where
  "enter_literal level s = (if level = 1 then hash_literal (int (qd_dst s) - 3) s else Some s)"

definition dec_literal :: "int \<Rightarrow> bytes \<Rightarrow> qlz_dec \<Rightarrow> qlz_dec option" where
  "dec_literal level source s = do {
     b \<leftarrow> nth_opt source (qd_src s);
     dest \<leftarrow> upd_opt (qd_destination s) (qd_dst s) b;
     s1 \<leftarrow> enter_literal level
       (s\<lparr>qd_destination := dest, qd_dst := qd_dst s + 1, qd_src := qd_src s + 1, qd_cwordVal := drop_bit 1 (qd_cwordVal s)\<rparr>);
     x2 \<leftarrow> nth_opt source (qd_src s1 + 2);
     if level = 1 then Some (s1\<lparr>qd_fetch := roll_fetch (qd_fetch s1) x2\<rparr>)
     else do {
       x3 \<leftarrow> nth_opt source (qd_src s1 + 3);
       Some (s1\<lparr>qd_fetch := roll_fetch (qd_fetch s1) x2 OR push_bit 24 (uint x3)\<rparr>)
     }
   }"

text \<open>The end of the data has literals only, and the bits of its control words are not looked at.\<close>

function dec_tail :: "bytes \<Rightarrow> qlz_dec \<Rightarrow> bytes option" where
  "dec_tail source s =
     (if qd_dst s < length (qd_destination s) then
        (let s1 = (if qd_cwordVal s = 1 then s\<lparr>qd_src := qd_src s + CWORD_LEN, qd_cwordVal := 0x80000000\<rparr> else s) in
         case nth_opt source (qd_src s1) of
           None \<Rightarrow> None
         | Some b \<Rightarrow>
             dec_tail source (s1\<lparr>qd_destination := (qd_destination s1)[qd_dst s1 := b], qd_dst := qd_dst s1 + 1, qd_src := qd_src s1 + 1,
               qd_cwordVal := drop_bit 1 (qd_cwordVal s1)\<rparr>))
      else Some (qd_destination s))"
  by pat_completeness auto
termination
  by (relation "measure (\<lambda>(source, s). length (qd_destination s) - qd_dst s)") auto

declare dec_tail.simps [simp del]

lemma fastRead_range: "fastRead a i n = Some v \<Longrightarrow> i + n \<le> length a"
  by (auto simp: fastRead_def split: if_splits)

lemma next_cword_src: "next_cword level source s = Some s' \<Longrightarrow> qd_src s \<le> qd_src s'"
  by (auto simp: next_cword_def Let_def split: bind_splits if_splits)

lemma hash_match_src: "hash_match lim s = Some s' \<Longrightarrow> qd_src s' = qd_src s"
proof (induction lim s rule: hash_match.induct)
  case (1 lim s)
  from "1.prems" show ?case
    by (subst (asm) hash_match.simps) (auto simp: Let_def split: if_splits option.splits dest: "1.IH")
qed

lemma hash_literal_src: "hash_literal lim s = Some s' \<Longrightarrow> qd_src s' = qd_src s"
proof (induction lim s rule: hash_literal.induct)
  case (1 lim s)
  from "1.prems" show ?case
    by (subst (asm) hash_literal.simps) (auto simp: Let_def split: if_splits option.splits dest: "1.IH")
qed

lemma enter_src:
  "enter_match level lim s = Some s' \<Longrightarrow> qd_src s' = qd_src s"
  "enter_literal level s = Some s' \<Longrightarrow> qd_src s' = qd_src s"
  by (auto simp: enter_match_def enter_literal_def split: bind_splits if_splits dest: hash_match_src hash_literal_src)

lemma read_ref_width: "read_ref level source s = Some (p, m, n) \<Longrightarrow> 1 \<le> n"
  by (auto simp: read_ref_def read_ref_1_def read_ref_3_def Let_def split: if_splits option.splits)

lemma dec_match_advances: "dec_match level source s = Some s' \<Longrightarrow> qd_src s < qd_src s' \<and> qd_src s' \<le> length source"
  by (auto simp: dec_match_def Let_def split: bind_splits if_splits prod.splits dest!: read_ref_width enter_src fastRead_range)

lemma dec_literal_advances: "dec_literal level source s = Some s' \<Longrightarrow> qd_src s < qd_src s' \<and> qd_src s' \<le> length source"
  by (auto simp: dec_literal_def Let_def nth_opt_def split: bind_splits if_splits dest!: enter_src)

function dec_loop :: "int \<Rightarrow> bytes \<Rightarrow> qlz_dec \<Rightarrow> bytes option" where
  "dec_loop level source s =
     (case next_cword level source s of
        None \<Rightarrow> None
      | Some s1 \<Rightarrow>
          if qd_cwordVal s1 AND 1 = 1
          then (case dec_match level source s1 of None \<Rightarrow> None | Some s2 \<Rightarrow> dec_loop level source s2)
          else if int (qd_dst s1) \<le> last_match_start (int (length (qd_destination s1)))
          then (case dec_literal level source s1 of None \<Rightarrow> None | Some s2 \<Rightarrow> dec_loop level source s2)
          else dec_tail source s1)"
  by pat_completeness auto
termination
  by (relation "measure (\<lambda>(level, source, s). length source - qd_src s)")
    (auto dest!: next_cword_src dec_match_advances dec_literal_advances)

declare dec_loop.simps [simp del]

definition dec_start :: "nat \<Rightarrow> nat \<Rightarrow> qlz_dec" where
  "dec_start hlen n = \<lparr>qd_src = hlen, qd_dst = 0, qd_cwordVal = 1, qd_destination = replicate n 0, qd_hashtable = \<lambda>_. 0,
     qd_hashCounter = \<lambda>_. 0, qd_lastHashed = - 1, qd_fetch = 0\<rparr>"

definition level_of :: "byte \<Rightarrow> int" where
  "level_of b = uint (drop_bit 2 b AND 3)"

definition qlz_Decompress :: "bytes \<Rightarrow> bytes option" where
  "qlz_Decompress source = do {
     n \<leftarrow> SizeDecompressed source;
     hlen \<leftarrow> headerLen source;
     x0 \<leftarrow> nth_opt source 0;
     if level_of x0 \<noteq> 1 \<and> level_of x0 \<noteq> 3 then None
     else if x0 AND 1 \<noteq> 1 then Some (write_at 0 (take (nat n) (drop hlen source)) (replicate (nat n) 0))
     else dec_loop (level_of x0) source (dec_start hlen (nat n))
   }"

text \<open>\<open>DecompressSafe\<close> recovers from panics.\<close>

definition DecompressSafe :: "bytes \<Rightarrow> StoreErr + bytes" where
  "DecompressSafe src =
     (case SizeCompressed src of
        None \<Rightarrow> Inl DecompressErr
      | Some sizeC \<Rightarrow>
          if int (length src) \<noteq> sizeC then Inl DecompressErr
          else (case SizeDecompressed src of
              None \<Rightarrow> Inl DecompressErr
            | Some sizeD \<Rightarrow>
                (case qlz_Decompress src of
                   None \<Rightarrow> Inl DecompressErr
                 | Some dst \<Rightarrow> if int (length dst) \<noteq> sizeD then Inl DecompressErr else Inr dst)))"

end
