(* ===== verification/QlzFormat.thy ===== *)
theory QlzFormat
  imports QuickLz
begin

text \<open>
  The format of a compressed block: a sequence of literals and references in groups of 31, each group behind a control word that has one bit for
  every token and the top bit as an end mark.  Here are the tokens and their bytes, what makes a sequence of tokens describe a
  source, the control words as numbers, and that a reference is read as it was written.
\<close>

unbundle bit_operations_syntax

section \<open>Little-endian numbers\<close>

primrec le_int :: "bytes \<Rightarrow> int" where
  "le_int [] = 0"
| "le_int (b # bs) = uint b + 256 * le_int bs"

lemma le_int_append: "le_int (xs @ ys) = le_int xs + 2 ^ (8 * length xs) * le_int ys"
  by (induction xs) (simp_all add: power_add algebra_simps)

lemma le_int_bounds: "0 \<le> le_int bs" "le_int bs < 2 ^ (8 * length bs)"
proof -
  have "0 \<le> le_int bs \<and> le_int bs < 2 ^ (8 * length bs)"
  proof (induction bs)
    case (Cons b bs)
    have "0 \<le> uint b" "uint b < 256" using uint_lt2p [of b] by simp_all
    moreover have "(2 :: int) ^ (8 * length (b # bs)) = 256 * 2 ^ (8 * length bs)" by (simp add: power_add)
    ultimately show ?case using Cons unfolding le_int.simps by linarith
  qed simp
  then show "0 \<le> le_int bs" "le_int bs < 2 ^ (8 * length bs)" by simp_all
qed

lemma le_int_inj: "length xs = length ys \<Longrightarrow> le_int xs = le_int ys \<Longrightarrow> xs = ys"
proof (induction xs ys rule: list_induct2)
  case (Cons x xs y ys)
  have u: "uint x < 256" "uint y < 256" "0 \<le> uint x" "0 \<le> uint y" using uint_lt2p [of x] uint_lt2p [of y] by simp_all
  have e: "uint x + 256 * le_int xs = uint y + 256 * le_int ys" using Cons.prems by simp
  have x: "uint x = uint y" using arg_cong [OF e, of "\<lambda>n. n mod 256"] u by simp
  with e have "le_int xs = le_int ys" by simp
  with x Cons.IH show ?case by (simp add: word_uint_eq_iff)
qed simp

lemma uint_get_le: "length bs \<le> 8 \<Longrightarrow> uint (get_le bs :: u64) = le_int bs"
proof (induction bs)
  case (Cons b bs)
  have ih: "uint (get_le bs :: u64) = le_int bs" using Cons by simp
  have "le_int bs < 2 ^ (8 * 7)"
    using le_int_bounds(2) [of bs] Cons.prems power_increasing [of "8 * length bs" "8 * 7" "2 :: int"] by simp
  then have "take_bit 64 (push_bit 8 (le_int bs)) = push_bit 8 (le_int bs)"
    using le_int_bounds(1) [of bs] by (simp add: push_bit_eq_mult take_bit_int_eq_self)
  moreover have "take_bit 64 (uint b) = uint b" using uint_lt2p [of b] by (simp add: take_bit_int_eq_self)
  ultimately have "uint (ucast b OR push_bit 8 (get_le bs) :: u64) = uint b OR push_bit 8 (le_int bs)"
    by (simp add: unsigned_or_eq unsigned_push_bit_eq unsigned_ucast_eq ih)
  also have "\<dots> = uint b + push_bit 8 (le_int bs)"
  proof (rule disjunctive_add_eq_or [symmetric])
    have "uint b = take_bit 8 (uint b)" using uint_lt2p [of b] by (simp add: take_bit_int_eq_self)
    moreover have "take_bit 8 (uint b) AND push_bit 8 (le_int bs) = 0" by (rule bit_eqI) (auto simp: bit_simps)
    ultimately show "uint b AND push_bit 8 (le_int bs) = 0" by simp
  qed
  finally show ?case by (simp add: push_bit_eq_mult)
qed simp

lemma fastRead_le: "i + n \<le> length a \<Longrightarrow> n \<le> 8 \<Longrightarrow> fastRead a i n = Some (le_int (slice i (i + n) a))"
  by (simp add: fastRead_def uint_get_le)

text \<open>Reading at the head of what is left.\<close>

lemma drop_nth_opt: "drop i xs = ys \<Longrightarrow> k < length ys \<Longrightarrow> nth_opt xs (i + k) = Some (ys ! k)"
  by (auto simp: nth_opt_def)

lemma drop_fastRead: "drop i xs = ys \<Longrightarrow> n \<le> length ys \<Longrightarrow> 0 < n \<Longrightarrow> n \<le> 8 \<Longrightarrow> fastRead xs i n = Some (le_int (take n ys))"
  by (auto simp: fastRead_le slice_def)

lemma le_int_put_le:
  "0 \<le> v \<Longrightarrow> v < 2 ^ (8 * n) \<Longrightarrow> n \<le> 8 \<Longrightarrow> le_int (put_le n (word_of_int v :: u64)) = v"
proof -
  assume v: "0 \<le> v" "v < 2 ^ (8 * n)" "n \<le> 8"
  have "v < 2 ^ 64" using v power_increasing [of "8 * n" 64 "2 :: int"] by simp
  then have "uint (word_of_int v :: u64) = v" using v(1) by (simp add: uint_word_of_int)
  moreover have "take_bit (8 * n) (word_of_int v :: u64) = word_of_int v"
    using v by (metis take_bit_int_eq_self take_bit_of_int)
  ultimately show ?thesis using v(3) by (simp add: get_put_le_take flip: uint_get_le)
qed

section \<open>Tokens and what they describe\<close>

datatype token = Lit byte | Copy nat nat bytes \<comment> \<open>the start of the match, its length and the bytes of the reference\<close>

fun tflag :: "token \<Rightarrow> bool" where
  "tflag (Lit b) = False"
| "tflag (Copy p l e) = True"

fun tbytes :: "token \<Rightarrow> bytes" where
  "tbytes (Lit b) = [b]"
| "tbytes (Copy p l e) = e"

fun tlen :: "token \<Rightarrow> nat" where
  "tlen (Lit b) = 1"
| "tlen (Copy p l e) = l"

text \<open>\<open>ref\<close> says what the bytes of a reference are; it depends on the level.\<close>

type_synonym ref_rel = "nat \<Rightarrow> nat set \<Rightarrow> nat \<Rightarrow> nat \<Rightarrow> bytes \<Rightarrow> bool"

fun tok_ok :: "ref_rel \<Rightarrow> bytes \<Rightarrow> nat \<Rightarrow> nat set \<Rightarrow> token \<Rightarrow> bool" where
  "tok_ok ref source p S (Lit b) \<longleftrightarrow> p < length source \<and> b = source ! p"
| "tok_ok ref source p S (Copy q l e) \<longleftrightarrow> p + 11 \<le> length source \<and> 3 \<le> l \<and> l \<le> 255 \<and> p + l + 4 \<le> length source \<and> q + 3 \<le> p \<and>
     (\<forall>i < l. source ! (q + i) = source ! (p + i)) \<and> ref p S q l e \<and> e \<noteq> [] \<and> length e \<le> 4 \<and> length e \<le> l"

text \<open>From position \<open>p\<close> with tokens that start at \<open>S\<close>, the tokens lead to position \<open>p'\<close>.\<close>

fun walk :: "ref_rel \<Rightarrow> bytes \<Rightarrow> nat \<Rightarrow> nat set \<Rightarrow> token list \<Rightarrow> nat \<Rightarrow> nat set \<Rightarrow> bool" where
  "walk ref source p S [] p' S' \<longleftrightarrow> p' = p \<and> S' = S"
| "walk ref source p S (t # ts) p' S' \<longleftrightarrow> tok_ok ref source p S t \<and> walk ref source (p + tlen t) (insert p S) ts p' S'"

lemma walk_append:
  "walk ref source p S (xs @ ys) p' S' \<longleftrightarrow> (\<exists>q T. walk ref source p S xs q T \<and> walk ref source q T ys p' S')"
  by (induction xs arbitrary: p S) auto

lemma tok_len: "tok_ok ref source p S t \<Longrightarrow> 1 \<le> tlen t \<and> length (tbytes t) \<le> tlen t \<and> length (tbytes t) \<le> 4 \<and> p + tlen t \<le> length source"
  by (cases t) auto

lemma walk_len:
  "walk ref source p S ts p' S' \<Longrightarrow> p \<le> length source \<Longrightarrow>
   p + length ts \<le> p' \<and> p + length (concat (map tbytes ts)) \<le> p' \<and> length (concat (map tbytes ts)) \<le> 4 * length ts \<and> p' \<le> length source"
proof (induction ts arbitrary: p S)
  case (Cons t ts)
  then show ?case using tok_len [of ref source p S t] Cons.IH [of "p + tlen t" "insert p S"] by simp
qed simp

lemma walk_starts: "walk ref source p S ts p' S' \<Longrightarrow> \<forall>v \<in> S. v < p \<Longrightarrow> \<forall>v \<in> S'. v < p'"
proof (induction ts arbitrary: p S)
  case (Cons t ts)
  have "1 \<le> tlen t" using Cons.prems(1) tok_len by auto
  then have "\<forall>v \<in> insert p S. v < p + tlen t" using Cons.prems(2) by fastforce
  then show ?case using Cons.IH [of "p + tlen t" "insert p S"] Cons.prems(1) by simp
qed simp

section \<open>Control words\<close>

text \<open>The value of a control word with \<open>n\<close> bits left before the end mark.\<close>

fun ctl :: "nat \<Rightarrow> bool list \<Rightarrow> int" where
  "ctl 0 fs = 1"
| "ctl (Suc n) [] = 2 * ctl n []"
| "ctl (Suc n) (f # fs) = of_bool f + 2 * ctl n fs"

lemma ctl_pos: "1 \<le> ctl n fs"
  by (induction n fs rule: ctl.induct) auto

lemma ctl_bound: "ctl n fs < 2 ^ (n + 1)"
  by (induction n fs rule: ctl.induct) auto

lemma ctl_end [simp]: "ctl n fs = 1 \<longleftrightarrow> n = 0"
  using ctl_pos [of "n - 1" "tl fs"] ctl_pos [of "n - 1" "[]"] by (cases "(n, fs)" rule: ctl.cases) auto

lemma ctl_step [simp]:
  "drop_bit 1 (ctl (Suc n) (f # fs)) = ctl n fs" "ctl (Suc n) (f # fs) AND 1 = of_bool f"
  by (cases f; simp add: drop_bit_eq_div and_one_eq)+

lemma ctl_literals: "\<forall>f \<in> set fs. \<not> f \<Longrightarrow> ctl n fs = 2 ^ n"
  by (induction n fs rule: ctl.induct) auto

text \<open>The bytes of tokens, when the control word read last has \<open>n\<close> bits left.\<close>

fun enc :: "nat \<Rightarrow> token list \<Rightarrow> bytes" where
  "enc n [] = []"
| "enc 0 (t # ts) = put_le 4 (word_of_int (ctl 31 (map tflag (t # ts))) :: u64) @ tbytes t @ enc 30 ts"
| "enc (Suc n) (t # ts) = tbytes t @ enc n ts"

lemma enc_length: "length (concat (map tbytes ts)) \<le> length (enc n ts)"
  by (induction n ts rule: enc.induct) auto

text \<open>A source that is not at its end by four bytes has four bytes of tokens left.\<close>

lemma walk_rest: "walk ref source p S ts (length source) S' \<Longrightarrow> min 4 (length source - p) \<le> length (concat (map tbytes ts))"
proof (induction ts arbitrary: p S)
  case (Cons t ts)
  then have ih: "min 4 (length source - (p + tlen t)) \<le> length (concat (map tbytes ts))" and t: "tok_ok ref source p S t" by auto
  show ?case
  proof (cases t)
    case (Copy q l e)
    then show ?thesis using ih t by (cases e) auto
  qed (use ih in auto)
qed simp

lemma enc_rest: "walk ref source p S ts (length source) S' \<Longrightarrow> p + 4 \<le> length source \<Longrightarrow> 4 \<le> length (enc n ts)"
  using walk_rest [of ref source p S ts S'] enc_length [of ts n] by simp

section \<open>References\<close>

lemma push_or: "0 \<le> y \<Longrightarrow> y < 2 ^ n \<Longrightarrow> push_bit n x OR y = 2 ^ n * x + (y :: int)"
proof -
  assume y: "0 \<le> y" "y < 2 ^ n"
  have "push_bit n x AND take_bit n y = 0" by (rule bit_eqI) (auto simp: bit_simps)
  then have "push_bit n x AND y = 0" using y by (simp add: take_bit_int_eq_self)
  then show ?thesis by (simp add: push_bit_eq_mult mult.commute flip: disjunctive_add_eq_or)
qed

lemma and_mask_mod: "x AND (2 ^ n - 1) = x mod 2 ^ n" for x :: int
  by (simp add: take_bit_eq_mod flip: mask_eq_exp_minus_1 take_bit_eq_mask)

lemmas and_masks = and_mask_mod [of _ 2, simplified] and_mask_mod [of _ 4, simplified] and_mask_mod [of _ 5, simplified] and_mask_mod [of _ 7, simplified]
  and_mask_mod [of _ 8, simplified] and_mask_mod [of _ 12, simplified] and_mask_mod [of _ 16, simplified] and_mask_mod [of _ 17, simplified]

lemma and_two: "(x AND 2 = 0) = even (x div 2)" for x :: int
  using bit_iff_and_push_bit_not_eq_0 [of x 1] by (simp add: bit_iff_odd push_bit_eq_mult)

lemma or_swap: "(x OR y) OR z = y OR (x OR z)" for x :: int
  by (simp add: or.assoc or.left_commute)

text \<open>The number and the width of a reference of level 3, as \<open>match_3\<close> writes it.\<close>

definition ref_3 :: "nat \<Rightarrow> nat \<Rightarrow> int \<times> nat" where
  "ref_3 offset l =
     (let f = int offset; m = int l in
      if l = 3 \<and> offset \<le> 63 then (4 * f, 1)
      else if l = 3 \<and> offset \<le> 16383 then (4 * f + 1, 2)
      else if l \<le> 18 \<and> offset \<le> 1023 then (64 * f + (4 * (m - 3) + 2), 2)
      else if l \<le> 33 then (128 * f + (4 * (m - 2) + 3), 3)
      else (32768 * f + (128 * (m - 3) + 3), 4))"

lemma match_3_ref:
  assumes "3 \<le> l" "l \<le> 255"
  shows "match_3 offset l s = (case ref_3 offset l of (f, n) \<Rightarrow> emit_match f n l s)"
proof -
  have "(push_bit 2 (int l - 3) OR push_bit 6 (int offset)) OR 2 = 64 * int offset + (4 * (int l - 3) + 2)" if "l \<le> 18"
    unfolding or_swap using that assms push_or [of 2 2 "int l - 3"] push_or [of "4 * (int l - 3) + 2" 6 "int offset"] by simp
  moreover have "(push_bit 2 (int l - 2) OR push_bit 7 (int offset)) OR 3 = 128 * int offset + (4 * (int l - 2) + 3)" if "l \<le> 33"
    unfolding or_swap using that assms push_or [of 3 2 "int l - 2"] push_or [of "4 * (int l - 2) + 3" 7 "int offset"] by simp
  moreover have "(push_bit 7 (int l - 3) OR push_bit 15 (int offset)) OR 3 = 32768 * int offset + (128 * (int l - 3) + 3)"
    unfolding or_swap using assms push_or [of 3 7 "int l - 3"] push_or [of "128 * (int l - 3) + 3" 15 "int offset"] by simp
  moreover have "push_bit 2 (int offset) OR 1 = 4 * int offset + 1" "push_bit 2 (int offset) = 4 * int offset"
    using push_or [of 1 2 "int offset"] by (simp_all add: push_bit_eq_mult)
  ultimately show ?thesis by (simp add: match_3_def ref_3_def Let_def)
qed

lemma ref_3_bounds:
  assumes "3 \<le> l" "l \<le> 255" "offset < 131071" "ref_3 offset l = (f, n)"
  shows "0 \<le> f" "f < 2 ^ (8 * n)" "1 \<le> n" "n \<le> 4" "n \<le> l"
  using assms by (auto simp: ref_3_def Let_def split: if_splits)

lemma digit: "0 \<le> y \<Longrightarrow> y < b \<Longrightarrow> (b * x + y) mod b = y \<and> (b * x + y) div b = (x :: int)"
  by (simp add: mod_pos_pos_trivial div_pos_pos_trivial)

lemma shifted_parts:
  fixes g c :: int
  assumes "0 \<le> c" "c < 4"
  defines "x \<equiv> 4 * g + c"
  shows "x mod 4 = c" "x div 4 = g" "x mod 2 = c mod 2" "even (x div 2) = even (c div 2)"
    "x mod 256 = 4 * (g mod 64) + c" "x mod 65536 = 4 * (g mod 16384) + c" "x mod 128 = 4 * (g mod 32) + c"
    "x div 128 = g div 32" "x div 32768 = g div 8192"
proof -
  show d: "x mod 4 = c" "x div 4 = g" using digit [OF assms(1,2), of g] by (simp_all add: x_def)
  show "x mod 256 = 4 * (g mod 64) + c" "x mod 65536 = 4 * (g mod 16384) + c" "x mod 128 = 4 * (g mod 32) + c"
    by (simp_all only: d zmod_zmult2_eq [of 64 x 4, simplified] zmod_zmult2_eq [of 16384 x 4, simplified] zmod_zmult2_eq [of 32 x 4, simplified])
  show "x div 128 = g div 32" "x div 32768 = g div 8192"
    by (simp_all only: d zdiv_zmult2_eq [of 32 x 4, simplified] zdiv_zmult2_eq [of 8192 x 4, simplified])
  show "x mod 2 = c mod 2" "even (x div 2) = even (c div 2)" using assms(1,2) unfolding x_def by presburger+
qed

lemma div_of_mod: "(4 * (g mod 16384) + 2) div 64 = g div 16 mod (1024 :: int)"
proof -
  have "(4 * (g mod 16384) + 2) div 64 = g mod 16384 div 16"
    using zdiv_zmult2_eq [of 16 "4 * (g mod 16384) + 2" 4] digit [of 2 4 "g mod 16384"] by simp
  also have "\<dots> = (16 * (g div 16 mod 1024) + g mod 16) div 16" by (subst zmod_zmult2_eq [of 1024 g 16, simplified]) (rule refl)
  also have "\<dots> = g div 16 mod 1024" using digit [of "g mod 16" 16 "g div 16 mod 1024"] by simp
  finally show ?thesis .
qed

lemma power_two: "(2 :: int) ^ 2 = 4" "(2 :: int) ^ 6 = 64" "(2 :: int) ^ 7 = 128" "(2 :: int) ^ 15 = 32768"
  by simp_all

lemma read_ref_3_cases:
  fixes g :: int
  shows "x = 4 * g \<Longrightarrow> read_ref_3 x = (g mod 64, 3, 1)"
    and "x = 4 * g + 1 \<Longrightarrow> read_ref_3 x = (g mod 16384, 3, 2)"
    and "x = 4 * g + 2 \<Longrightarrow> read_ref_3 x = (g div 16 mod 1024, nat (g mod 16) + 3, 2)"
    and "x = 4 * g + 3 \<Longrightarrow> g mod 32 \<noteq> 0 \<Longrightarrow> read_ref_3 x = (g div 32 mod 131072, nat (g mod 32) + 2, 3)"
    and "x = 4 * g + 3 \<Longrightarrow> g mod 32 = 0 \<Longrightarrow> read_ref_3 x = (g div 8192, nat (g div 32 mod 256) + 3, 4)"
proof -
  note m = and_masks and_two and_one_eq drop_bit_eq_div
  show "read_ref_3 x = (g mod 64, 3, 1)" if "x = 4 * g"
  proof -
    from that have x: "x = 4 * g + 0" by simp
    have "x AND 3 = 0" "drop_bit 2 (x AND 0xff) = g mod 64" using shifted_parts(1,5) [of 0 g, folded x] by (simp_all add: m)
    then show ?thesis by (simp add: read_ref_3_def)
  qed
  show "read_ref_3 x = (g mod 16384, 3, 2)" if x: "x = 4 * g + 1"
  proof -
    have "x AND 3 = 1" "x AND 2 = 0" "drop_bit 2 (x AND 0xffff) = g mod 16384"
      using shifted_parts(1,4,6) [of 1 g, folded x] digit [of 1 4 "g mod 16384"] by (simp_all add: m)
    then show ?thesis by (simp add: read_ref_3_def)
  qed
  show "read_ref_3 x = (g div 16 mod 1024, nat (g mod 16) + 3, 2)" if x: "x = 4 * g + 2"
  proof -
    have "x mod 4 = 2" "odd (x div 2)" "x mod 2 = 0" using shifted_parts(1,3,4) [of 2 g, folded x] by simp_all
    then have "x AND 3 = 2" "x AND 2 \<noteq> 0" "x AND 1 = 0" by (simp_all only: m) simp
    moreover have "drop_bit 6 (x AND 0xffff) = g div 16 mod 1024" "drop_bit 2 x AND 15 = g mod 16"
      by (simp_all only: m power_two shifted_parts(2,6) [of 2 g, folded x, simplified] div_of_mod)
    ultimately show ?thesis by (simp add: read_ref_3_def)
  qed
  have three: "x AND 3 = 3" "x AND 2 \<noteq> 0" "x AND 1 = 1" "x AND 127 = 4 * (g mod 32) + 3" if x: "x = 4 * g + 3"
  proof -
    have "x mod 4 = 3" "odd (x div 2)" "x mod 2 = 1" "x mod 128 = 4 * (g mod 32) + 3" using shifted_parts(1,3,4,7) [of 3 g, folded x] by simp_all
    then show "x AND 3 = 3" "x AND 2 \<noteq> 0" "x AND 1 = 1" "x AND 127 = 4 * (g mod 32) + 3" by (simp_all only: m) simp
  qed
  show "read_ref_3 x = (g div 32 mod 131072, nat (g mod 32) + 2, 3)" if x: "x = 4 * g + 3" "g mod 32 \<noteq> 0"
  proof -
    have "drop_bit 7 x AND 0x1ffff = g div 32 mod 131072" "drop_bit 2 x AND 0x1f = g mod 32"
      using shifted_parts(2,8) [of 3 g, folded x(1)] by (simp_all only: m) simp_all
    then show ?thesis using three [OF x(1)] x(2) by (simp add: read_ref_3_def)
  qed
  show "read_ref_3 x = (g div 8192, nat (g div 32 mod 256) + 3, 4)" if x: "x = 4 * g + 3" "g mod 32 = 0"
  proof -
    have "drop_bit 15 x = g div 8192" "drop_bit 7 x AND 255 = g div 32 mod 256"
      using shifted_parts(8,9) [of 3 g, folded x(1)] by (simp_all only: m) simp_all
    then show ?thesis using three [OF x(1)] x(2) by (simp add: read_ref_3_def)
  qed
qed

lemma read_ref_3:
  assumes "3 \<le> l" "l \<le> 255" "offset < 131071" "ref_3 offset l = (f, n)" "n = 4 \<Longrightarrow> r = 0"
  shows "read_ref_3 (f + 2 ^ (8 * n) * r) = (int offset, l, n)"
proof -
  let ?o = "int offset" and ?m = "int l"
  consider "l = 3" "offset \<le> 63" | "l = 3" "63 < offset" "offset \<le> 16383"
    | "l \<noteq> 3 \<or> 16383 < offset" "l \<le> 18" "offset \<le> 1023" | "l \<noteq> 3 \<or> 16383 < offset" "18 < l \<or> 1023 < offset" "l \<le> 33"
    | "33 < l" by linarith
  then show ?thesis
  proof cases
    case 1
    then have e: "f + 2 ^ (8 * n) * r = 4 * (?o + 64 * r)" "n = 1" using assms(4) by (auto simp: ref_3_def Let_def)
    show ?thesis using e(2) 1 read_ref_3_cases(1) [OF e(1)] by simp
  next
    case 2
    then have e: "f + 2 ^ (8 * n) * r = 4 * (?o + 16384 * r) + 1" "n = 2" using assms(4) by (auto simp: ref_3_def Let_def)
    show ?thesis using e(2) 2 read_ref_3_cases(2) [OF e(1)] by simp
  next
    case 3
    then have e: "f + 2 ^ (8 * n) * r = 4 * (16 * (?o + 1024 * r) + (?m - 3)) + 2" "n = 2" using assms(4) by (auto simp: ref_3_def Let_def)
    show ?thesis using e(2) 3 assms(1) read_ref_3_cases(3) [OF e(1)] digit [of "?m - 3" 16 "?o + 1024 * r"] by simp
  next
    case 4
    then have e: "f + 2 ^ (8 * n) * r = 4 * (32 * (?o + 131072 * r) + (?m - 2)) + 3" "n = 3" using assms(4) by (auto simp: ref_3_def Let_def)
    show ?thesis using e(2) 4 assms(1,3) read_ref_3_cases(4) [OF e(1)] digit [of "?m - 2" 32 "?o + 131072 * r"] by simp
  next
    case 5
    then have e: "f + 2 ^ (8 * n) * r = 4 * (32 * (256 * ?o + (?m - 3)) + 0) + 3" "n = 4" using assms(4,5) by (auto simp: ref_3_def Let_def)
    have d: "32 * (256 * ?o + (?m - 3)) div 8192 = ?o"
      using zdiv_zmult2_eq [of 256 "32 * (256 * ?o + (?m - 3))" 32] digit [of "?m - 3" 256 ?o] assms(1,2) by simp
    show ?thesis using e(2) d 5 assms(2) read_ref_3_cases(5) [OF e(1)] digit [of "?m - 3" 256 ?o] by simp
  qed
qed

lemma byte_bounds: "0 \<le> uint b" "uint b < 256" for b :: byte
  using uint_lt2p [of b] by simp_all

text \<open>Level 1 refers to a hash.\<close>

definition ref_1 :: "nat \<Rightarrow> nat \<Rightarrow> int \<times> nat" where
  "ref_1 h l = (if l < 18 then (16 * int h + (int l - 2), 2) else (65536 * int l + 16 * int h, 3))"

lemma ref_1_emitted:
  assumes "3 \<le> l" "h < 4096"
  shows "l = 3 \<Longrightarrow> (3 - 2) OR push_bit 4 (int h) = fst (ref_1 h l)"
    and "l < 18 \<Longrightarrow> push_bit 4 (int h) OR (int l - 2) = fst (ref_1 h l)"
    and "\<not> l < 18 \<Longrightarrow> push_bit 4 (int h) OR push_bit 16 (int l) = fst (ref_1 h l)"
proof -
  show "(3 - 2) OR push_bit 4 (int h) = fst (ref_1 h l)" if "l = 3"
    using that push_or [of 1 4 "int h"] by (simp add: ref_1_def or.commute)
  show "push_bit 4 (int h) OR (int l - 2) = fst (ref_1 h l)" if "l < 18"
    using that assms push_or [of "int l - 2" 4 "int h"] by (simp add: ref_1_def)
  have "push_bit 4 (int h) = 16 * int h" by (simp add: push_bit_eq_mult)
  then show "push_bit 4 (int h) OR push_bit 16 (int l) = fst (ref_1 h l)" if "\<not> l < 18"
    using that assms push_or [of "16 * int h" 16 "int l"] by (simp add: ref_1_def or.commute)
qed

lemma ref_1_bounds:
  assumes "3 \<le> l" "l \<le> 255" "h < 4096" "ref_1 h l = (f, n)"
  shows "0 \<le> f" "f < 2 ^ (8 * n)" "1 \<le> n" "n \<le> 3" "n \<le> l"
  using assms by (auto simp: ref_1_def split: if_splits)

lemma le_int_take: "le_int (take k (e @ rest)) = le_int e + 2 ^ (8 * length e) * le_int (take (k - length e) rest)" if "length e \<le> k"
  using that by (simp add: le_int_append)

lemma read_ref_1_ok:
  assumes "3 \<le> l" "l \<le> 255" "h < 4096" "ref_1 h l = (f, n)" "e = put_le n (word_of_int f :: u64)"
    and "drop (qd_src s) packed = e @ rest" "3 \<le> length (e @ rest)" "qd_fetch s = le_int (take 3 (e @ rest))"
  shows "read_ref_1 packed s = Some (int (qd_hashtable s h), l, n)"
proof -
  note b = ref_1_bounds [OF assms(1-4)]
  have e: "length e = n" "le_int e = f" using assms(5) b le_int_put_le [of f n] by simp_all
  define r where "r = le_int (take (3 - n) rest)"
  have fetch: "qd_fetch s = f + 2 ^ (8 * n) * r" using assms(8) e b(4) le_int_take [of e 3 rest] by (simp add: r_def)
  show ?thesis
  proof (cases "l < 18")
    case True
    then have x: "qd_fetch s = 16 * (4096 * r + int h) + (int l - 2)" "n = 2" using assms(4) fetch by (auto simp: ref_1_def)
    have d: "qd_fetch s mod 16 = int l - 2" "qd_fetch s div 16 = 4096 * r + int h"
      using digit [of "int l - 2" 16 "4096 * r + int h"] True assms(1) unfolding x(1) by auto
    have "qd_fetch s AND 0xf = int l - 2" "drop_bit 4 (qd_fetch s) AND 0xfff = int h"
      using d assms(3) by (simp_all only: and_masks drop_bit_eq_div) simp_all
    then show ?thesis using assms(1) x(2) by (simp add: read_ref_1_def)
  next
    case False
    then have n: "n = 3" "f = 65536 * int l + 16 * int h" using assms(4) by (auto simp: ref_1_def)
    then have x: "qd_fetch s = 16 * (4096 * int l + int h) + 0" using fetch by (simp add: r_def)
    have d: "qd_fetch s mod 16 = 0" "qd_fetch s div 16 = 4096 * int l + int h"
      using digit [of 0 16 "4096 * int l + int h"] unfolding x by auto
    have a: "qd_fetch s AND 0xf = 0" "drop_bit 4 (qd_fetch s) AND 0xfff = int h"
      using d assms(3) by (simp_all only: and_masks drop_bit_eq_div) simp_all
    obtain x0 x1 x2 where e3: "e = [x0, x1, x2]" using e(1) n(1) by (auto simp: length_Suc_conv numeral_3_eq_3)
    have "65536 * uint x2 + (uint x0 + 256 * uint x1) = 65536 * int l + 16 * int h" using e(2) n(2) e3 by simp
    moreover have "0 \<le> uint x0 + 256 * uint x1" "uint x0 + 256 * uint x1 < 65536"
      using byte_bounds [of x0] byte_bounds [of x1] by linarith+
    ultimately have "uint x2 = (65536 * int l + 16 * int h) div 65536"
      using digit [of "uint x0 + 256 * uint x1" 65536 "uint x2"] by metis
    then have "uint x2 = int l" using digit [of "16 * int h" 65536 "int l"] assms(3) by simp
    then have "unat x2 = l" by (simp add: unat_eq_nat_uint)
    moreover have "nth_opt packed (qd_src s + 2) = Some x2"
      using drop_nth_opt [OF assms(6), of 2] e3 by simp
    ultimately show ?thesis using a n(1) by (simp add: read_ref_1_def)
  qed
qed

text \<open>The bytes in view move on.\<close>

lemma roll_bytes: "roll_fetch (le_int (x0 # x1 # x2 # xs)) b = le_int [x1, x2, b]"
proof -
  let ?y = "uint x1 + 256 * uint x2"
  have y: "0 \<le> ?y" "?y < 65536" using byte_bounds [of x1] byte_bounds [of x2] by linarith+
  have "le_int (x0 # x1 # x2 # xs) = 256 * (65536 * le_int xs + ?y) + uint x0" by simp
  then have "drop_bit 8 (le_int (x0 # x1 # x2 # xs)) = 65536 * le_int xs + ?y"
    using digit [OF byte_bounds [of x0], of "65536 * le_int xs + ?y"] by (simp only: drop_bit_eq_div) simp
  then have "drop_bit 8 (le_int (x0 # x1 # x2 # xs)) AND 0xffff = ?y"
    using digit [OF y, of "le_int xs"] by (simp only: and_masks)
  then show ?thesis using push_or [of ?y 16 "uint b"] y by (simp add: roll_fetch_def or.commute)
qed

lemma roll_bytes_4: "roll_fetch (le_int (x0 # x1 # x2 # xs)) b OR push_bit 24 (uint c) = le_int [x1, x2, b, c]"
  using push_or [of "le_int [x1, x2, b]" 24 "uint c"] le_int_bounds [of "[x1, x2, b]"] unfolding roll_bytes by (simp add: or.commute)

end
