(* ===== verification/QlzDecode.thy ===== *)
theory QlzDecode
  imports QlzFormat
begin

text \<open>
  \<open>Decompress\<close> on the bytes of a token sequence returns the source the tokens describe.  What the two levels do differently (how a reference
  is written, and which table the decoder keeps) is the locale \<open>qlz_level\<close>; the loop is proved once in it, and it is interpreted for level 1
  and for level 3.
\<close>

unbundle bit_operations_syntax

section \<open>Copying\<close>

lemma take_Suc_update:
  assumes "take k dest = take k source" "k < length source" "length dest = length source"
  shows "take (Suc k) (dest[k := source ! k]) = take (Suc k) source"
  using assms by (simp add: take_Suc_conv_app_nth)

lemma copy_bytes_ok:
  assumes "take (p + k) dest = take (p + k) source" "length dest = length source" "q < p" "p + l \<le> length source"
    and "\<forall>i < l. source ! (q + i) = source ! (p + i)" "k \<le> l"
  shows "\<exists>dest'. copy_bytes q p [k ..< l] dest = Some dest' \<and> take (p + l) dest' = take (p + l) source \<and> length dest' = length source"
  using assms(6,1,2)
proof (induction k arbitrary: dest rule: inc_induct)
  case (step k)
  have "dest ! (q + k) = source ! (q + k)" using step.prems assms(3) nth_take [of "q + k" "p + k" dest] nth_take [of "q + k" "p + k" source] by simp
  then have b: "nth_opt dest (q + k) = Some (source ! (p + k))" "upd_opt dest (p + k) (source ! (p + k)) = Some (dest[p + k := source ! (p + k)])"
    using step.hyps step.prems assms(3,4,5) by simp_all
  have "take (p + Suc k) (dest[p + k := source ! (p + k)]) = take (p + Suc k) source"
    using take_Suc_update [OF step.prems(1) _ step.prems(2)] step.hyps(2) assms(4) by simp
  from step.IH [OF this] b step.prems(2) step.hyps(2) show ?case by (simp add: upt_conv_Cons)
qed simp

lemma copy_list: "3 \<le> m \<Longrightarrow> [0, 1, 2] @ [3 ..< m] = [0 ..< m]"
proof -
  assume "3 \<le> m"
  then have "[0 ..< m] = [0 ..< 3] @ [3 ..< m]" using upt_add_eq_append [of 0 3 "m - 3"] by simp
  moreover have "[0 ..< 3] = [0, 1, 2 :: nat]" by (simp add: upt_rec)
  ultimately show ?thesis by simp
qed

section \<open>The loop, for any level\<close>

locale qlz_level =
  fixes level :: int
    and ref :: "bytes \<Rightarrow> ref_rel"
    and tab :: "bytes \<Rightarrow> nat \<Rightarrow> nat set \<Rightarrow> (nat \<Rightarrow> nat) \<Rightarrow> int \<Rightarrow> bool"
  assumes read_ref: "tok_ok (ref source) source p S (Copy q l e) \<Longrightarrow> tab source p S (qd_hashtable s) (qd_lastHashed s) \<Longrightarrow> qd_dst s = p \<Longrightarrow>
      drop (qd_src s) packed = e @ rest \<Longrightarrow> 4 \<le> length rest \<Longrightarrow> qd_fetch s = le_int (take (fetch_width level) (e @ rest)) \<Longrightarrow>
      read_ref level packed s = Some (int q, l, length e)"
    and enter_match: "tok_ok (ref source) source p S (Copy q l e) \<Longrightarrow> tab source p S (qd_hashtable s) (qd_lastHashed s) \<Longrightarrow>
      take (p + l) (qd_destination s) = take (p + l) source \<Longrightarrow> length (qd_destination s) = length source \<Longrightarrow>
      \<exists>T C L f. enter_match level (int p) s = Some (s\<lparr>qd_hashtable := T, qd_hashCounter := C, qd_lastHashed := L, qd_fetch := f\<rparr>) \<and>
        tab source (p + l) (insert p S) T (int (p + l) - 1)"
    and enter_literal: "tab source p S (qd_hashtable s) (qd_lastHashed s) \<Longrightarrow> p + 11 \<le> length source \<Longrightarrow> qd_dst s = p + 1 \<Longrightarrow>
      take (p + 1) (qd_destination s) = take (p + 1) source \<Longrightarrow> length (qd_destination s) = length source \<Longrightarrow>
      \<exists>T C L. enter_literal level s = Some (s\<lparr>qd_hashtable := T, qd_hashCounter := C, qd_lastHashed := L\<rparr>) \<and>
        tab source (p + 1) (insert p S) T L"
    and tab_start: "tab source 0 {} (\<lambda>_. 0) (- 1)"

text \<open>The decoder at position \<open>p\<close>, with \<open>ts\<close> to come and \<open>n\<close> bits of the control word left.\<close>

definition dec_at :: "bytes \<Rightarrow> bytes \<Rightarrow> nat \<Rightarrow> token list \<Rightarrow> nat \<Rightarrow> qlz_dec \<Rightarrow> bool" where
  "dec_at source packed n ts p s \<longleftrightarrow> qd_dst s = p \<and> length (qd_destination s) = length source \<and> take p (qd_destination s) = take p source \<and>
     drop (qd_src s) packed = enc n ts \<and> qd_cwordVal s = ctl n (map tflag ts) \<and> n \<le> 31"

definition in_view :: "int \<Rightarrow> bytes \<Rightarrow> nat \<Rightarrow> token list \<Rightarrow> nat \<Rightarrow> qlz_dec \<Rightarrow> bool" where
  "in_view level source n ts p s \<longleftrightarrow> (0 < n \<and> p + 11 \<le> length source \<longrightarrow> qd_fetch s = le_int (take (fetch_width level) (enc n ts)))"

lemma fetch_width_bounds: "0 < fetch_width level" "fetch_width level \<le> 4"
  by (simp_all add: fetch_width_def)

lemma before_end: "int p \<le> last_match_start (int n) \<longleftrightarrow> p + 11 \<le> n"
  by (auto simp: last_match_start_def qlz_constants)

lemma walk_literals: "walk ref source p S ts p' S' \<Longrightarrow> length source < p + 11 \<Longrightarrow> \<forall>t \<in> set ts. \<not> tflag t"
proof (induction ts arbitrary: p S)
  case (Cons t ts)
  then have "\<not> tflag t" by (cases t) auto
  moreover have "1 \<le> tlen t" using Cons.prems(1) tok_len by auto
  ultimately show ?case using Cons.IH [of "p + tlen t" "insert p S"] Cons.prems by simp
qed simp

lemma dec_tail_ok:
  assumes "dec_at source packed n ts p s" "\<forall>t \<in> set ts. \<not> tflag t" "walk ref source p S ts (length source) S'"
  shows "dec_tail packed s = Some source"
  using assms
proof (induction ts arbitrary: n p S s)
  case Nil
  then show ?case by (subst dec_tail.simps) (auto simp: dec_at_def)
next
  case (Cons t ts)
  then obtain b where t: "t = Lit b" by (cases t) auto
  have p: "p < length source" "b = source ! p" "walk ref source (p + 1) (insert p S) ts (length source) S'" using Cons.prems(3) t by auto
  define m where "m = (if n = 0 then 30 else n - 1)"
  define i where "i = (if n = 0 then qd_src s + 4 else qd_src s)"
  define s1 where "s1 = s\<lparr>qd_destination := (qd_destination s)[p := b], qd_dst := p + 1, qd_src := i + 1, qd_cwordVal := 2 ^ m\<rparr>"
  have fl: "ctl k (map tflag ts) = 2 ^ k" for k using Cons.prems(2) by (intro ctl_literals) auto
  have a: "qd_dst s = p" "length (qd_destination s) = length source" "take p (qd_destination s) = take p source" "n \<le> 31"
      "drop (qd_src s) packed = enc n (t # ts)" "qd_cwordVal s = 2 ^ n"
    using Cons.prems(1,2) ctl_literals [of "map tflag (t # ts)" n] by (auto simp: dec_at_def)
  have i: "drop i packed = b # enc m ts"
  proof (cases n)
    case 0
    then show ?thesis using a(5) t drop_drop [of 4 "qd_src s" packed] by (simp add: i_def m_def add.commute)
  qed (use a(5) t in \<open>simp add: i_def m_def\<close>)
  then have r: "nth_opt packed i = Some b" "drop (i + 1) packed = enc m ts"
    using drop_nth_opt [OF i, of 0] drop_drop [of 1 i packed] by (simp_all add: add.commute)
  have "m \<le> 31" using a(4) by (auto simp: m_def)
  then have "dec_at source packed m ts (p + 1) s1"
    using a p r fl take_Suc_update [OF a(3) p(1) a(2)] by (simp add: dec_at_def s1_def)
  then have "dec_tail packed s1 = Some source" using Cons.IH Cons.prems(2) p(3) by simp
  moreover have "dec_tail packed s = dec_tail packed s1"
  proof (cases n)
    case 0
    then show ?thesis using a p(1) r by (subst dec_tail.simps) (simp add: s1_def i_def m_def qlz_constants drop_bit_eq_div)
  next
    case (Suc k)
    moreover have "2 * 2 ^ k \<noteq> (1 :: int)" by presburger
    ultimately show ?thesis using a p(1) r by (subst dec_tail.simps) (simp add: s1_def i_def m_def drop_bit_eq_div)
  qed
  ultimately show ?case by simp
qed

lemma next_cword_ok:
  assumes "dec_at source packed n ts p s" "in_view level source n ts p s" "walk ref source p S ts (length source) S'" "p < length source"
  shows "\<exists>s1 m. next_cword level packed s = Some s1 \<and> dec_at source packed (Suc m) ts p s1 \<and> in_view level source (Suc m) ts p s1 \<and>
    qd_hashtable s1 = qd_hashtable s \<and> qd_lastHashed s1 = qd_lastHashed s"
proof (cases n)
  case (Suc m)
  then show ?thesis using assms(1,2) by (intro exI [of _ s] exI [of _ m]) (simp add: next_cword_def dec_at_def)
next
  case 0
  obtain t ts' where ts: "ts = t # ts'" using assms(3,4) by (cases ts) auto
  let ?c = "ctl 31 (map tflag ts)"
  have a: "qd_dst s = p" "length (qd_destination s) = length source" "drop (qd_src s) packed = enc 0 ts" "qd_cwordVal s = 1"
    using assms(1) 0 by (simp_all add: dec_at_def)
  have e: "enc 0 ts = put_le 4 (word_of_int ?c :: u64) @ enc 31 ts" using ts enc.simps(3) [of 30 t ts'] by simp
  have "le_int (put_le 4 (word_of_int ?c :: u64)) = ?c"
    using ctl_pos [of 31 "map tflag ts"] ctl_bound [of 31 "map tflag ts"] by (intro le_int_put_le) simp_all
  then have w: "fastRead packed (qd_src s) 4 = Some ?c" using drop_fastRead [OF a(3), of 4] e by simp
  have d: "drop (qd_src s + 4) packed = enc 31 ts" using a(3) e drop_drop [of 4 "qd_src s" packed] by (simp add: add.commute)
  define f where "f = (if p + 11 \<le> length source then le_int (take (fetch_width level) (enc 31 ts)) else qd_fetch s)"
  let ?s1 = "s\<lparr>qd_cwordVal := ?c, qd_src := qd_src s + 4, qd_fetch := f\<rparr>"
  have "fastRead packed (qd_src s + 4) (fetch_width level) = Some f" if "p + 11 \<le> length source"
    using enc_rest [OF assms(3), of 31] that fetch_width_bounds [of level] by (simp add: drop_fastRead [OF d] f_def)
  then have n: "next_cword level packed s = Some ?s1"
    using a(1,2,4) w by (cases "p + 11 \<le> length source") (simp_all add: next_cword_def before_end f_def)
  have "dec_at source packed 31 ts p ?s1" using assms(1) d by (simp add: dec_at_def)
  moreover have "in_view level source 31 ts p ?s1" by (simp add: in_view_def f_def)
  moreover have "Suc 30 = 31" by simp
  ultimately show ?thesis using n by (intro exI [of _ ?s1] exI [of _ 30]) simp
qed

context qlz_level
begin

lemma dec_match_ok:
  assumes "dec_at source packed (Suc m) (Copy q l e # ts) p s" "in_view level source (Suc m) (Copy q l e # ts) p s"
    and "tok_ok (ref source) source p S (Copy q l e)" "walk (ref source) source (p + l) (insert p S) ts (length source) S'"
    and "tab source p S (qd_hashtable s) (qd_lastHashed s)"
  shows "\<exists>s2. dec_match level packed s = Some s2 \<and> dec_at source packed m ts (p + l) s2 \<and> in_view level source m ts (p + l) s2 \<and>
    tab source (p + l) (insert p S) (qd_hashtable s2) (qd_lastHashed s2)"
proof -
  let ?s0 = "s\<lparr>qd_cwordVal := ctl m (map tflag ts)\<rparr>"
  have a: "qd_dst s = p" "length (qd_destination s) = length source" "take p (qd_destination s) = take p source" "m \<le> 30"
      "drop (qd_src s) packed = e @ enc m ts" "drop_bit 1 (qd_cwordVal s) = ctl m (map tflag ts)"
    using assms(1) ctl_step(1) [of m True "map tflag ts"] by (simp_all add: dec_at_def del: ctl.simps)
  have t: "p + 11 \<le> length source" "3 \<le> l" "p + l + 4 \<le> length source" "q < p" "\<forall>i < l. source ! (q + i) = source ! (p + i)" using assms(3) by auto
  have r4: "4 \<le> length (enc m ts)" using enc_rest [OF assms(4)] t(3) by simp
  have f: "qd_fetch s = le_int (take (fetch_width level) (e @ enc m ts))" using assms(2) t(1) by (simp add: in_view_def)
  have rr: "read_ref level packed ?s0 = Some (int q, l, length e)"
    by (rule read_ref [OF assms(3), where rest = "enc m ts"]) (use a assms(5) r4 f in simp_all)
  obtain dest where c: "copy_bytes q p [0 ..< l] (qd_destination s) = Some dest" "take (p + l) dest = take (p + l) source" "length dest = length source"
    using copy_bytes_ok [of p 0 "qd_destination s" source q l] a(2,3) t by auto
  let ?s1 = "?s0\<lparr>qd_src := qd_src s + length e, qd_destination := dest, qd_dst := p + l\<rparr>"
  obtain T C L f1 where h: "enter_match level (int p) ?s1 = Some (?s1\<lparr>qd_hashtable := T, qd_hashCounter := C, qd_lastHashed := L, qd_fetch := f1\<rparr>)"
      "tab source (p + l) (insert p S) T (int (p + l) - 1)"
    using enter_match [OF assms(3), of ?s1] assms(5) c(2,3) by auto
  have d: "drop (qd_src s + length e) packed = enc m ts" using a(5) drop_drop [of "length e" "qd_src s" packed] by (simp add: add.commute)
  let ?f = "le_int (take (fetch_width level) (enc m ts))"
  have fr: "fastRead packed (qd_src s + length e) (fetch_width level) = Some ?f"
    using r4 fetch_width_bounds [of level] by (intro drop_fastRead [OF d]) simp_all
  let ?s2 = "?s1\<lparr>qd_hashtable := T, qd_hashCounter := C, qd_lastHashed := int (p + l) - 1, qd_fetch := ?f\<rparr>"
  have "copy_bytes q p ([0, 1, 2] @ [3 ..< l]) (qd_destination s) = Some dest" by (simp only: copy_list [OF t(2)] c(1))
  then have "dec_match level packed s = Some ?s2"
    using rr h(1) fr a(1,6) by (simp add: dec_match_def Let_def del: copy_bytes.simps)
  moreover have "dec_at source packed m ts (p + l) ?s2" using c d a(4) by (simp add: dec_at_def)
  moreover have "in_view level source m ts (p + l) ?s2" by (simp add: in_view_def)
  ultimately show ?thesis using h(2) by (intro exI [of _ ?s2]) simp
qed

lemma dec_literal_ok:
  assumes "dec_at source packed (Suc m) (Lit b # ts) p s" "in_view level source (Suc m) (Lit b # ts) p s"
    and "walk (ref source) source (p + 1) (insert p S) ts (length source) S'" "b = source ! p" "p + 11 \<le> length source"
    and "tab source p S (qd_hashtable s) (qd_lastHashed s)"
  shows "\<exists>s2. dec_literal level packed s = Some s2 \<and> dec_at source packed m ts (p + 1) s2 \<and> in_view level source m ts (p + 1) s2 \<and>
    tab source (p + 1) (insert p S) (qd_hashtable s2) (qd_lastHashed s2)"
proof -
  have a: "qd_dst s = p" "length (qd_destination s) = length source" "take p (qd_destination s) = take p source" "m \<le> 30"
      "drop (qd_src s) packed = b # enc m ts" "drop_bit 1 (qd_cwordVal s) = ctl m (map tflag ts)"
    using assms(1) ctl_step(1) [of m False "map tflag ts"] by (simp_all add: dec_at_def del: ctl.simps)
  have "4 \<le> length (enc m ts)" using enc_rest [OF assms(3)] assms(5) by simp
  then obtain x0 x1 x2 x3 xs where x: "enc m ts = x0 # x1 # x2 # x3 # xs"
    by (metis (no_types) Suc_le_length_iff numeral_eq_Suc pred_numeral_simps(2) pred_numeral_simps(3) BitM.simps(1,2))
  have d: "drop (qd_src s + 1) packed = enc m ts" using a(5) drop_drop [of 1 "qd_src s" packed] by (simp add: add.commute)
  have n: "nth_opt packed (qd_src s) = Some b" "nth_opt packed (qd_src s + 1 + 2) = Some x2" "nth_opt packed (qd_src s + 1 + 3) = Some x3"
    using drop_nth_opt [OF a(5), of 0] drop_nth_opt [OF d, of 2] drop_nth_opt [OF d, of 3] x by simp_all
  let ?s1 = "s\<lparr>qd_destination := (qd_destination s)[p := b], qd_dst := p + 1, qd_src := qd_src s + 1, qd_cwordVal := ctl m (map tflag ts)\<rparr>"
  have dest: "take (p + 1) ((qd_destination s)[p := b]) = take (p + 1) source" using take_Suc_update [OF a(3) _ a(2)] assms(4,5) by simp
  obtain T C L where h: "enter_literal level ?s1 = Some (?s1\<lparr>qd_hashtable := T, qd_hashCounter := C, qd_lastHashed := L\<rparr>)"
      "tab source (p + 1) (insert p S) T L"
    using enter_literal [of source p S ?s1] assms(5,6) a(2) dest by auto
  have f: "qd_fetch s = le_int (take (fetch_width level) (b # x0 # x1 # x2 # x3 # xs))" using assms(2,5) x by (simp add: in_view_def)
  let ?f = "le_int (take (fetch_width level) (enc m ts))"
  let ?s2 = "?s1\<lparr>qd_hashtable := T, qd_hashCounter := C, qd_lastHashed := L, qd_fetch := ?f\<rparr>"
  have "dec_literal level packed s = Some ?s2"
    using n h(1) a(1,2,6) f x assms(5) roll_bytes [of b x0 x1 "[]" x2] roll_bytes_4 [of b x0 x1 "[x2]" x2 x3]
    by (cases "level = 1") (simp_all add: dec_literal_def fetch_width_def numeral_eq_Suc del: le_int.simps)
  moreover have "dec_at source packed m ts (p + 1) ?s2" using a(2,4) d dest by (simp add: dec_at_def)
  moreover have "in_view level source m ts (p + 1) ?s2" by (simp add: in_view_def)
  ultimately show ?thesis using h(2) by (intro exI [of _ ?s2]) simp
qed

lemma dec_loop_ok:
  assumes "dec_at source packed n ts p s" "in_view level source n ts p s" "walk (ref source) source p S ts (length source) S'" "p < length source"
    and "tab source p S (qd_hashtable s) (qd_lastHashed s)"
  shows "dec_loop level packed s = Some source"
  using assms
proof (induction ts arbitrary: n p S s)
  case (Cons t ts)
  obtain s1 m where s1: "next_cword level packed s = Some s1" "dec_at source packed (Suc m) (t # ts) p s1"
      "in_view level source (Suc m) (t # ts) p s1" "tab source p S (qd_hashtable s1) (qd_lastHashed s1)"
    using next_cword_ok [OF Cons.prems(1-4)] Cons.prems(5) by auto
  have c: "qd_cwordVal s1 AND 1 = of_bool (tflag t)" "qd_dst s1 = p" "length (qd_destination s1) = length source"
    using s1(2) by (simp_all add: dec_at_def del: ctl.simps)
  show ?case
  proof (cases t)
    case (Copy q l e)
    have w: "tok_ok (ref source) source p S (Copy q l e)" "walk (ref source) source (p + l) (insert p S) ts (length source) S'"
      using Cons.prems(3) Copy by auto
    obtain s2 where "dec_match level packed s1 = Some s2" "dec_at source packed m ts (p + l) s2" "in_view level source m ts (p + l) s2"
        "tab source (p + l) (insert p S) (qd_hashtable s2) (qd_lastHashed s2)"
      using dec_match_ok [OF _ _ w s1(4)] s1(2,3) Copy by blast
    moreover have "p + l < length source" using w(1) by auto
    ultimately show ?thesis using Cons.IH w(2) s1(1) c(1) Copy by (subst dec_loop.simps) simp
  next
    case (Lit b)
    have w: "b = source ! p" "walk (ref source) source (p + 1) (insert p S) ts (length source) S'" using Cons.prems(3) Lit by auto
    show ?thesis
    proof (cases "p + 11 \<le> length source")
      case True
      obtain s2 where "dec_literal level packed s1 = Some s2" "dec_at source packed m ts (p + 1) s2" "in_view level source m ts (p + 1) s2"
          "tab source (p + 1) (insert p S) (qd_hashtable s2) (qd_lastHashed s2)"
        using dec_literal_ok [OF _ _ w(2,1) True s1(4)] s1(2,3) Lit by blast
      moreover have "p + 1 < length source" using True by simp
      ultimately show ?thesis using Cons.IH w(2) s1(1) c Lit True by (subst dec_loop.simps) (simp add: before_end)
    next
      case False
      have "dec_tail packed s1 = Some source"
        using dec_tail_ok [OF s1(2) walk_literals [OF Cons.prems(3)] Cons.prems(3)] False by simp
      then show ?thesis using s1(1) c Lit False by (subst dec_loop.simps) (simp add: before_end)
    qed
  qed
qed simp

lemma dec_tokens:
  assumes "source \<noteq> []" "walk (ref source) source 0 {} ts (length source) S'" "drop 9 packed = enc 0 ts"
  shows "dec_loop level packed (dec_start 9 (length source)) = Some source"
  by (rule dec_loop_ok [where n = 0, OF _ _ assms(2)]) (use assms tab_start in \<open>simp_all add: dec_at_def in_view_def dec_start_def\<close>)

end

section \<open>Level 3\<close>

definition copy_ref_3 :: "bytes \<Rightarrow> ref_rel" where
  "copy_ref_3 source p S q l e \<longleftrightarrow> p < q + 131071 \<and> (case ref_3 (p - q) l of (f, n) \<Rightarrow> e = put_le n (word_of_int f :: u64))"

interpretation level3: qlz_level 3 copy_ref_3 "\<lambda>source p S T L. True"
proof (unfold_locales, goal_cases)
  case (1 source p S q l e s packed rest)
  obtain f n where r: "ref_3 (p - q) l = (f, n)" by (cases "ref_3 (p - q) l")
  have a: "3 \<le> l" "l \<le> 255" "p - q < 131071" "e = put_le n (word_of_int f :: u64)" "q + 3 \<le> p" using 1(1) r by (auto simp: copy_ref_3_def)
  note b = ref_3_bounds [OF a(1-3) r]
  have "length e = n" "le_int e = f" using a(4) b le_int_put_le [of f n] by simp_all
  then have "qd_fetch s = f + 2 ^ (8 * n) * le_int (take (4 - n) rest)"
    using 1(6) le_int_take [of e 4 rest] b(4) by (simp add: fetch_width_def)
  with read_ref_3 [OF a(1-3) r, of "le_int (take (4 - n) rest)"] show ?case
    using 1(3) a(4,5) by (simp add: read_ref_def)
next
  case (2 source p S q l e s)
  show ?case by (intro exI [of _ "qd_hashtable s"] exI [of _ "qd_hashCounter s"] exI [of _ "qd_lastHashed s"] exI [of _ "qd_fetch s"])
      (simp add: enter_match_def)
next
  case (3 source p S s)
  show ?case by (intro exI [of _ "qd_hashtable s"] exI [of _ "qd_hashCounter s"] exI [of _ "qd_lastHashed s"]) (simp add: enter_literal_def)
qed simp

section \<open>Level 1\<close>

text \<open>The hash of the three bytes at a position, and a table with the newest of the positions of every hash.\<close>

definition hash_at :: "bytes \<Rightarrow> nat \<Rightarrow> nat" where
  "hash_at source v = qlz_hash (le_int (slice v (v + 3) source))"

definition table_newest :: "(nat \<Rightarrow> nat) \<Rightarrow> (nat \<Rightarrow> nat) \<Rightarrow> nat set \<Rightarrow> bool" where
  "table_newest H T S \<longleftrightarrow> (\<forall>v \<in> S. T (H v) \<in> S \<and> H (T (H v)) = H v \<and> v \<le> T (H v))"

definition copy_ref_1 :: "bytes \<Rightarrow> ref_rel" where
  "copy_ref_1 source p S q l e \<longleftrightarrow> q \<in> S \<and> (\<forall>v \<in> S. v + 3 \<le> p \<and> hash_at source v = hash_at source q \<longrightarrow> v \<le> q) \<and>
     (case ref_1 (hash_at source q) l of (f, n) \<Rightarrow> e = put_le n (word_of_int f :: u64))"

definition tab_1 :: "bytes \<Rightarrow> nat \<Rightarrow> nat set \<Rightarrow> (nat \<Rightarrow> nat) \<Rightarrow> int \<Rightarrow> bool" where
  "tab_1 source p S T L \<longleftrightarrow> - 1 \<le> L \<and> L < int p \<and> (\<forall>v. L < int v \<and> v < p \<longrightarrow> v \<in> S) \<and> (\<forall>v \<in> S. v < p \<and> (v + 3 \<le> p \<longleftrightarrow> int v \<le> L)) \<and>
     table_newest (hash_at source) T {v \<in> S. int v \<le> L}"

lemma hash_at_bound: "hash_at source v < 4096"
  using pos_mod_bound [of 4096] by (simp add: hash_at_def qlz_hash_def HASH_VALUES_def and_masks nat_less_iff)

lemma table_newest_insert:
  assumes "table_newest H T {v \<in> S. int v \<le> int h - 1}" "h \<in> S"
  shows "table_newest H (T(H h := h)) {v \<in> S. int v \<le> int h}"
  using assms unfolding table_newest_def by (auto simp: le_less)

lemma slice_prefix: "take k xs = take k ys \<Longrightarrow> j \<le> k \<Longrightarrow> slice i j xs = slice i j ys"
proof -
  assume a: "take k xs = take k ys" "j \<le> k"
  have s: "slice i j zs = drop i (take j (take k zs))" for zs :: "'a list" using a(2) by (simp add: slice_def drop_take min_def)
  show ?thesis by (simp only: s a(1))
qed

lemma slice3: "v + 3 \<le> length xs \<Longrightarrow> slice v (v + 3) xs = [xs ! v, xs ! (v + 1), xs ! (v + 2)]"
  by (simp add: slice_def numeral_3_eq_3 take_Suc_conv_app_nth)

lemma hash_literal_ok:
  assumes "table_newest (hash_at source) (qd_hashtable s) {v \<in> S. int v \<le> qd_lastHashed s}"
    and "\<forall>v. qd_lastHashed s < int v \<and> int v \<le> lim \<longrightarrow> v \<in> S" "- 1 \<le> qd_lastHashed s"
    and "take k (qd_destination s) = take k source" "lim + 3 \<le> int k" "k \<le> length source" "length (qd_destination s) = length source"
  shows "\<exists>T C. hash_literal lim s = Some (s\<lparr>qd_hashtable := T, qd_hashCounter := C, qd_lastHashed := max (qd_lastHashed s) lim\<rparr>) \<and>
    table_newest (hash_at source) T {v \<in> S. int v \<le> max (qd_lastHashed s) lim}"
  using assms
proof (induction lim s rule: hash_literal.induct)
  case (1 lim s)
  show ?case
  proof (cases "qd_lastHashed s < lim")
    case True
    define h where "h = nat (qd_lastHashed s + 1)"
    have h: "qd_lastHashed s = int h - 1" "h + 3 \<le> k" "h \<in> S" using "1.prems"(2,3,5) True by (auto simp: h_def)
    have f: "fastRead (qd_destination s) h 3 = Some (le_int (slice h (h + 3) source))"
      using h(2) "1.prems"(4,6,7) slice_prefix [OF "1.prems"(4) h(2)] by (simp add: fastRead_le)
    have hd: "qlz_hash (le_int (slice h (h + 3) source)) = hash_at source h" by (simp add: hash_at_def)
    let ?s1 = "s\<lparr>qd_lastHashed := int h, qd_hashtable := (qd_hashtable s)(hash_at source h := h), qd_hashCounter := (qd_hashCounter s)(hash_at source h := 1)\<rparr>"
    have step: "hash_literal lim s = hash_literal lim ?s1"
      using True f h(1) by (subst hash_literal.simps) (simp add: Let_def hd)
    have "table_newest (hash_at source) (qd_hashtable ?s1) {v \<in> S. int v \<le> qd_lastHashed ?s1}"
      using table_newest_insert [OF "1.prems"(1) [unfolded h(1)] h(3)] by simp
    then have "\<exists>T C. hash_literal lim ?s1 = Some (?s1\<lparr>qd_hashtable := T, qd_hashCounter := C, qd_lastHashed := max (int h) lim\<rparr>) \<and>
        table_newest (hash_at source) T {v \<in> S. int v \<le> max (int h) lim}"
      using "1.IH" [OF True refl, of "le_int (slice h (h + 3) source)"] "1.prems"(2-7) f h by (simp add: hd del: fun_upd_apply)
    moreover have "max (int h) lim = max (qd_lastHashed s) lim" using True h(1) by simp
    ultimately show ?thesis unfolding step by fastforce
  next
    case False
    then show ?thesis using "1.prems"(1)
      by (subst hash_literal.simps) (auto intro!: exI [of _ "qd_hashtable s"] exI [of _ "qd_hashCounter s"] simp: max_def)
  qed
qed

lemma hash_match_ok:
  assumes "table_newest (hash_at source) (qd_hashtable s) {v \<in> S. int v \<le> qd_lastHashed s}"
    and "\<forall>v. qd_lastHashed s < int v \<and> int v \<le> int p \<longrightarrow> v \<in> S" "- 1 \<le> qd_lastHashed s" "qd_lastHashed s \<le> int p"
    and "take (p + 3) (qd_destination s) = take (p + 3) source" "p + 3 < length source" "length (qd_destination s) = length source"
    and "\<forall>h. qd_lastHashed s = int h - 1 \<and> h \<le> p \<longrightarrow> qd_fetch s = le_int (slice h (h + 3) source)"
  shows "\<exists>T C f. hash_match (int p) s = Some (s\<lparr>qd_hashtable := T, qd_hashCounter := C, qd_lastHashed := int p, qd_fetch := f\<rparr>) \<and>
    table_newest (hash_at source) T {v \<in> S. int v \<le> int p}"
  using assms
proof (induction "int p" s rule: hash_match.induct)
  case (1 s)
  show ?case
  proof (cases "qd_lastHashed s < int p")
    case True
    define h where "h = nat (qd_lastHashed s + 1)"
    have h: "qd_lastHashed s = int h - 1" "h \<le> p" "h \<in> S" using "1.prems"(2,3) True by (auto simp: h_def)
    then have f: "qd_fetch s = le_int (slice h (h + 3) source)" using "1.prems"(8) by blast
    then have hd: "qlz_hash (qd_fetch s) = hash_at source h" by (simp add: hash_at_def)
    have n: "nth_opt (qd_destination s) (nat (int h + 3)) = Some (qd_destination s ! (h + 3))"
      using h(2) "1.prems"(6,7) by (simp add: nth_opt_def nat_add_distrib)
    have next_f: "roll_fetch (qd_fetch s) (qd_destination s ! (h + 3)) = le_int (slice (Suc h) (Suc h + 3) source)" if "h < p"
    proof -
      have "qd_destination s ! (h + 3) = source ! (h + 3)" using that "1.prems"(5) nth_take [of "h + 3" "p + 3"] by (metis add_less_cancel_right)
      then show ?thesis using that "1.prems"(6) f slice3 [of h source] slice3 [of "Suc h" source]
          roll_bytes [of "source ! h" "source ! (h + 1)" "source ! (h + 2)" "[]" "source ! (h + 3)"]
        by (simp add: numeral_3_eq_3 del: le_int.simps)
    qed
    let ?s1 = "s\<lparr>qd_lastHashed := int h, qd_hashtable := (qd_hashtable s)(hash_at source h := h),
        qd_hashCounter := (qd_hashCounter s)(hash_at source h := 1), qd_fetch := roll_fetch (qd_fetch s) (qd_destination s ! (h + 3))\<rparr>"
    have step: "hash_match (int p) s = hash_match (int p) ?s1"
      using True n h(1) by (subst hash_match.simps) (simp add: Let_def hd)
    have "table_newest (hash_at source) (qd_hashtable ?s1) {v \<in> S. int v \<le> qd_lastHashed ?s1}"
      using table_newest_insert [OF "1.prems"(1) [unfolded h(1)] h(3)] by simp
    moreover have "\<forall>k. qd_lastHashed ?s1 = int k - 1 \<and> k \<le> p \<longrightarrow> qd_fetch ?s1 = le_int (slice k (k + 3) source)"
    proof (intro allI impI)
      fix k assume "qd_lastHashed ?s1 = int k - 1 \<and> k \<le> p"
      then have "k = Suc h" "h < p" by auto
      then show "qd_fetch ?s1 = le_int (slice k (k + 3) source)" using next_f by simp
    qed
    ultimately have "\<exists>T C f. hash_match (int p) ?s1 = Some (?s1\<lparr>qd_hashtable := T, qd_hashCounter := C, qd_lastHashed := int p, qd_fetch := f\<rparr>) \<and>
        table_newest (hash_at source) T {v \<in> S. int v \<le> int p}"
      using "1.hyps" [OF True refl refl, of "qd_destination s ! (h + 3)"] "1.prems"(2,5-7) n h by (simp add: hd del: fun_upd_apply)
    then show ?thesis unfolding step by fastforce
  next
    case False
    then have "qd_lastHashed s = int p" using "1.prems"(4) by simp
    then show ?thesis using "1.prems"(1) False
      by (subst hash_match.simps) (auto intro!: exI [of _ "qd_hashtable s"] exI [of _ "qd_hashCounter s"] exI [of _ "qd_fetch s"])
  qed
qed

interpretation level1: qlz_level 1 copy_ref_1 tab_1
proof (unfold_locales, goal_cases)
  case (1 source p S q l e s packed rest)
  let ?h = "hash_at source q"
  obtain f n where r: "ref_1 ?h l = (f, n)" by (cases "ref_1 ?h l")
  have a: "3 \<le> l" "l \<le> 255" "q + 3 \<le> p" "q \<in> S" "\<forall>v \<in> S. v + 3 \<le> p \<and> hash_at source v = ?h \<longrightarrow> v \<le> q" "e = put_le n (word_of_int f :: u64)"
    using 1(1) r by (auto simp: copy_ref_1_def)
  have "int q \<le> qd_lastHashed s" using 1(2) a(3,4) by (simp add: tab_1_def)
  then have t: "qd_hashtable s ?h \<in> S" "int (qd_hashtable s ?h) \<le> qd_lastHashed s" "hash_at source (qd_hashtable s ?h) = ?h" "q \<le> qd_hashtable s ?h"
    using 1(2) a(4) unfolding tab_1_def table_newest_def by blast+
  then have "qd_hashtable s ?h \<le> q" using 1(2) a(5) by (simp add: tab_1_def)
  then have "qd_hashtable s ?h = q" using t(4) by simp
  then show ?case
    using read_ref_1_ok [OF a(1,2) hash_at_bound r a(6) 1(4)] 1(5,6) a(6) by (simp add: read_ref_def fetch_width_def)
next
  case (2 source p S q l e s)
  let ?L = "qd_lastHashed s"
  have t: "- 1 \<le> ?L" "?L < int p" "\<forall>v. ?L < int v \<and> v < p \<longrightarrow> v \<in> S" "\<forall>v \<in> S. v < p"
      "table_newest (hash_at source) (qd_hashtable s) {v \<in> S. int v \<le> ?L}" using 2(2) by (simp_all add: tab_1_def)
  have l: "3 \<le> l" "p + l + 4 \<le> length source" using 2(1) by auto
  define h where "h = nat (?L + 1)"
  have h: "?L = int h - 1" "h \<le> p" using t(1,2) by (auto simp: h_def)
  have d: "take (p + 3) (qd_destination s) = take (p + 3) source"
    using arg_cong [OF 2(3), of "take (p + 3)"] l(1) by (simp add: min_def)
  have f: "fastRead (qd_destination s) h 3 = Some (le_int (slice h (h + 3) source))"
    using slice_prefix [OF d, of "h + 3" h] h(2) l 2(4) by (simp add: fastRead_le)
  let ?s1 = "s\<lparr>qd_fetch := le_int (slice h (h + 3) source)\<rparr>"
  have "{v \<in> insert p S. int v \<le> ?L} = {v \<in> S. int v \<le> ?L}" using t(2) by auto
  then have "\<exists>T C f. hash_match (int p) ?s1 = Some (?s1\<lparr>qd_hashtable := T, qd_hashCounter := C, qd_lastHashed := int p, qd_fetch := f\<rparr>) \<and>
      table_newest (hash_at source) T {v \<in> insert p S. int v \<le> int p}"
  proof (intro hash_match_ok)
    show "\<forall>v. qd_lastHashed ?s1 < int v \<and> int v \<le> int p \<longrightarrow> v \<in> insert p S" using t(3) by (auto simp: le_less)
  qed (use t d l 2(4) h in auto)
  then obtain T C f1 where r: "hash_match (int p) ?s1 = Some (?s1\<lparr>qd_hashtable := T, qd_hashCounter := C, qd_lastHashed := int p, qd_fetch := f1\<rparr>)"
      "table_newest (hash_at source) T {v \<in> insert p S. int v \<le> int p}" by blast
  have "{v \<in> insert p S. int v \<le> int (p + l) - 1} = {v \<in> insert p S. int v \<le> int p}" using t(4) l(1) by auto
  then have "tab_1 source (p + l) (insert p S) T (int (p + l) - 1)" using r(2) t(4) l(1) by (fastforce simp: tab_1_def)
  moreover have "enter_match 1 (int p) s = hash_match (int p) ?s1" using f h(1) by (simp add: enter_match_def)
  ultimately show ?case using r(1) by (intro exI [of _ T] exI [of _ C] exI [of _ "int p"] exI [of _ f1]) simp
next
  case (3 source p S s)
  let ?L = "qd_lastHashed s" and ?m = "max (qd_lastHashed s) (int p - 2)"
  have t: "- 1 \<le> ?L" "?L < int p" "\<forall>v. ?L < int v \<and> v < p \<longrightarrow> v \<in> S" "\<forall>v \<in> S. v < p \<and> (v + 3 \<le> p \<longleftrightarrow> int v \<le> ?L)"
      "table_newest (hash_at source) (qd_hashtable s) {v \<in> S. int v \<le> ?L}" using 3(1) by (simp_all add: tab_1_def)
  have "{v \<in> insert p S. int v \<le> ?L} = {v \<in> S. int v \<le> ?L}" using t(2) by auto
  then have "\<exists>T C. hash_literal (int p - 2) s = Some (s\<lparr>qd_hashtable := T, qd_hashCounter := C, qd_lastHashed := ?m\<rparr>) \<and>
      table_newest (hash_at source) T {v \<in> insert p S. int v \<le> ?m}"
    using t 3(2,4,5) by (intro hash_literal_ok [where k = "p + 1"]) auto
  then obtain T C where r: "hash_literal (int p - 2) s = Some (s\<lparr>qd_hashtable := T, qd_hashCounter := C, qd_lastHashed := ?m\<rparr>)"
      "table_newest (hash_at source) T {v \<in> insert p S. int v \<le> ?m}" by blast
  have "\<forall>v. ?m < int v \<and> v < p + 1 \<longrightarrow> v \<in> insert p S" using t(3) by (auto simp: less_Suc_eq)
  moreover have "\<forall>v \<in> insert p S. v < p + 1 \<and> (v + 3 \<le> p + 1 \<longleftrightarrow> int v \<le> ?m)" using t(2,4) by auto
  ultimately have "tab_1 source (p + 1) (insert p S) T ?m" unfolding tab_1_def using r(2) t(1,2) by simp
  then show ?case using r(1) 3(3) by (intro exI [of _ T] exI [of _ C] exI [of _ ?m]) (simp add: enter_literal_def)
qed (simp add: tab_1_def table_newest_def)

end
