(* ===== verification/QlzEncode.thy ===== *)
theory QlzEncode
  imports QlzDecode
begin

text \<open>
  \<open>Compress\<close> writes the bytes of a token sequence that describes its source, behind a header with the two sizes, or stores the
  source.  It stays within the buffer of 400 bytes more than the source.  The levels differ in how they find a token: this is the locale
  \<open>qlz_encoder\<close>, which has the loops, with an interpretation for each level.  Together with \<open>QlzDecode\<close> this gives the round trip.
\<close>

unbundle bit_operations_syntax

section \<open>Control words\<close>

definition cw_of :: "bool list \<Rightarrow> u32" where
  "cw_of fs = foldl (\<lambda>w f. if f then drop_bit 1 w OR 0x80000000 else drop_bit 1 w) 0x80000000 fs"

lemma cw_of_snoc: "cw_of (fs @ [f]) = (if f then drop_bit 1 (cw_of fs) OR 0x80000000 else drop_bit 1 (cw_of fs))"
  by (simp add: cw_of_def)

lemma bit_top: "bit (0x80000000 :: u32) i \<longleftrightarrow> i = 31" "bit (0x80000000 :: int) i \<longleftrightarrow> i = 31"
proof -
  have e: "(0x80000000 :: u32) = 2 ^ 31" "(0x80000000 :: int) = 2 ^ 31" by simp_all
  show "bit (0x80000000 :: u32) i \<longleftrightarrow> i = 31" "bit (0x80000000 :: int) i \<longleftrightarrow> i = 31" unfolding e by (auto simp only: bit_exp_iff possible_bit_word possible_bit_int) simp_all
qed

lemma bit_cw_of:
  "length fs \<le> 31 \<Longrightarrow> bit (cw_of fs) i \<longleftrightarrow> i = 31 - length fs \<or> 32 - length fs \<le> i \<and> i < 32 \<and> fs ! (i - (32 - length fs))"
proof (induction fs arbitrary: i rule: rev_induct)
  case Nil
  then show ?case by (auto simp: cw_of_def bit_top)
next
  case (snoc f fs)
  have b: "bit (cw_of (fs @ [f])) i \<longleftrightarrow> bit (cw_of fs) (Suc i) \<or> i = 31 \<and> f"
    by (auto simp: cw_of_snoc bit_simps bit_top)
  obtain k where k: "32 = length fs + k" "2 \<le> k" using snoc.prems by (intro that [of "32 - length fs"]) simp_all
  have ih: "bit (cw_of fs) (Suc i) \<longleftrightarrow> Suc i = k - 1 \<or> k \<le> Suc i \<and> i < 31 \<and> fs ! (Suc i - k)"
  proof -
    have "31 - length fs = k - 1" "32 - length fs = k" using k by simp_all
    then show ?thesis using snoc.IH [of "Suc i"] snoc.prems by simp
  qed
  have e: "31 - length (fs @ [f]) = k - 2" "32 - length (fs @ [f]) = k - 1" using k by simp_all
  show ?case
  proof (cases "k \<le> Suc i \<and> i < 32")
    case True
    then have "(fs @ [f]) ! (i - (k - 1)) = (if i < 31 then fs ! (Suc i - k) else f)" using k by (auto simp: nth_append)
    then show ?thesis unfolding b ih e using True k by auto
  next
    case False
    then show ?thesis unfolding b ih e using k by auto
  qed
qed

lemma bit_ctl: "bit (ctl n fs) i \<longleftrightarrow> i = n \<or> i < n \<and> i < length fs \<and> fs ! i"
proof (induction n fs arbitrary: i rule: ctl.induct)
  case (1 fs)
  then show ?case by (simp add: bit_1_iff)
next
  case (2 n)
  then show ?case by (cases i) (simp_all add: bit_0 bit_Suc)
next
  case (3 n f fs)
  then show ?case by (cases i) (auto simp: bit_0 bit_Suc)
qed

lemma cw_full: "length fs \<le> 31 \<Longrightarrow> cw_of fs AND 1 = 1 \<longleftrightarrow> length fs = 31"
proof -
  assume l: "length fs \<le> 31"
  have "cw_of fs AND 1 = 1 \<longleftrightarrow> bit (cw_of fs) 0" by (simp add: and_one_eq bit_0 odd_iff_mod_2_eq_one)
  then show ?thesis using bit_cw_of [OF l, of 0] l by auto
qed

lemma cw_written: "length fs = 31 \<Longrightarrow> uint (drop_bit 1 (cw_of fs)) OR 0x80000000 = ctl 31 fs"
  by (rule bit_eqI) (auto simp: bit_simps bit_top bit_ctl bit_cw_of)

lemma ctl_append: "n \<le> length xs \<Longrightarrow> ctl n (xs @ ys) = ctl n xs"
  by (induction n xs rule: ctl.induct) auto

lemma ctl_padded: "ctl n (fs @ replicate k False) = ctl n fs"
  by (rule bit_eqI) (auto simp: bit_ctl nth_append)

lemma cw_aligned:
  "length fs \<le> 31 \<Longrightarrow> align_cword (31 - length fs) (cw_of fs) = Some (cw_of (fs @ replicate (31 - length fs) False))"
proof (induction "31 - length fs" arbitrary: fs)
  case 0
  then show ?case using cw_full [of fs] by (simp add: align_cword.simps)
next
  case (Suc n)
  have n: "31 - length (fs @ [False]) = n" "length (fs @ [False]) \<le> 31" using Suc.hyps(2) by auto
  have "align_cword (31 - length (fs @ [False])) (cw_of (fs @ [False])) = Some (cw_of ((fs @ [False]) @ replicate n False))"
    using Suc.hyps(1) [of "fs @ [False]"] n by metis
  moreover have "31 - length fs = Suc n" "31 - length (fs @ [False]) = n" "cw_of fs AND 1 \<noteq> 1" using Suc.hyps(2) cw_full [of fs] by auto
  ultimately show ?case by (subst align_cword.simps) (simp add: cw_of_snoc)
qed

lemma align_more: "align_cword n w = Some v \<Longrightarrow> n \<le> k \<Longrightarrow> align_cword k w = Some v"
proof (induction n arbitrary: w k)
  case (Suc n)
  then show ?case by (cases k) (subst align_cword.simps, subst (asm) (2) align_cword.simps, auto split: if_splits)+
qed (subst align_cword.simps, subst (asm) align_cword.simps, auto split: if_splits)

section \<open>The bytes written so far\<close>

definition grp :: "token list \<Rightarrow> bytes" where
  "grp g = put_le 4 (word_of_int (ctl 31 (map tflag g)) :: u64) @ concat (map tbytes g)"

lemma enc_pending: "length g \<le> n \<Longrightarrow> enc n (g @ ts) = concat (map tbytes g) @ enc (n - length g) ts"
proof (induction g arbitrary: n)
  case (Cons t g)
  then show ?case by (cases n) auto
qed simp

lemma enc_cword: "ts \<noteq> [] \<Longrightarrow> enc 0 ts = put_le 4 (word_of_int (ctl 31 (map tflag ts)) :: u64) @ enc 31 ts"
proof -
  assume "ts \<noteq> []"
  then obtain t ts' where "ts = t # ts'" by (cases ts) auto
  then show ?thesis using enc.simps(3) [of 30 t ts'] by simp
qed

lemma enc_groups:
  "\<forall>g \<in> set G. length g = 31 \<Longrightarrow> P \<noteq> [] \<Longrightarrow> length P \<le> 31 \<Longrightarrow> enc 0 (concat G @ P) = concat (map grp G) @ grp P"
proof (induction G)
  case Nil
  then show ?case using enc_cword [of P] enc_pending [of P 31 "[]"] by (simp add: grp_def)
next
  case (Cons g G)
  have "enc 0 (g @ concat G @ P) = put_le 4 (word_of_int (ctl 31 (map tflag (g @ concat G @ P))) :: u64) @ enc 31 (g @ concat G @ P)"
    using Cons.prems(2) by (intro enc_cword) simp
  moreover have "ctl 31 (map tflag (g @ concat G @ P)) = ctl 31 (map tflag g)" using Cons.prems(1) ctl_append [of 31 "map tflag g"] by simp
  moreover have "enc 31 (g @ concat G @ P) = concat (map tbytes g) @ enc 0 (concat G @ P)"
    using Cons.prems(1) enc_pending [of g 31 "concat G @ P"] by simp
  ultimately show ?case using Cons by (simp add: grp_def)
qed

text \<open>The compressor after the groups \<open>G\<close> and the tokens \<open>P\<close> of the group being written.\<close>

definition comp_at :: "ref_rel \<Rightarrow> bytes \<Rightarrow> token list list \<Rightarrow> token list \<Rightarrow> nat set \<Rightarrow> qlz_comp \<Rightarrow> bool" where
  "comp_at ref source G P S s \<longleftrightarrow> (\<forall>g \<in> set G. length g = 31) \<and> length P \<le> 31 \<and> walk ref source 0 {} (concat G @ P) (qc_src s) S \<and>
     qc_cwordVal s = cw_of (map tflag P) \<and> qc_cwordPtr s = 9 + length (concat (map grp G)) \<and>
     qc_dst s = qc_cwordPtr s + 4 + length (concat (map tbytes P)) \<and> length (qc_destination s) = length source + 400 \<and>
     (\<exists>h w r. qc_destination s = h @ concat (map grp G) @ w @ concat (map tbytes P) @ r \<and> length h = 9 \<and> length w = 4)"

text \<open>One token is written.\<close>

definition emitted :: "token \<Rightarrow> qlz_comp \<Rightarrow> qlz_comp \<Rightarrow> bool" where
  "emitted t s s' \<longleftrightarrow> qc_src s' = qc_src s + tlen t \<and> qc_dst s' = qc_dst s + length (tbytes t) \<and> qc_cwordPtr s' = qc_cwordPtr s \<and>
     qc_destination s' = write_at (qc_dst s) (tbytes t) (qc_destination s) \<and>
     qc_cwordVal s' = (if tflag t then drop_bit 1 (qc_cwordVal s) OR 0x80000000 else drop_bit 1 (qc_cwordVal s))"

lemma comp_at_emit:
  assumes "comp_at ref source G P S s" "length P < 31" "tok_ok ref source (qc_src s) S t" "emitted t s s'"
    and "qc_dst s + length (tbytes t) \<le> length source + 400"
  shows "comp_at ref source G (P @ [t]) (insert (qc_src s) S) s'"
proof -
  obtain h w r where d: "qc_destination s = h @ concat (map grp G) @ w @ concat (map tbytes P) @ r" "length h = 9" "length w = 4"
    using assms(1) by (auto simp: comp_at_def)
  let ?x = "h @ concat (map grp G) @ w @ concat (map tbytes P)"
  have l: "length ?x = qc_dst s" "length (qc_destination s) = length source + 400" using assms(1) d by (auto simp: comp_at_def)
  have "write_at (qc_dst s) (tbytes t) (?x @ r) = ?x @ tbytes t @ drop (length (tbytes t)) r"
    unfolding l(1) [symmetric] by (simp add: write_at_def)
  then have "qc_destination s' = h @ concat (map grp G) @ w @ concat (map tbytes (P @ [t])) @ drop (length (tbytes t)) r"
    using assms(4) d(1) by (simp add: emitted_def)
  then have "\<exists>h w r. qc_destination s' = h @ concat (map grp G) @ w @ concat (map tbytes (P @ [t])) @ r \<and> length h = 9 \<and> length w = 4"
    using d(2,3) by blast
  moreover have "length (qc_destination s') = length source + 400" using assms(4,5) l by (simp add: emitted_def)
  moreover have "walk ref source 0 {} (concat G @ P @ [t]) (qc_src s') (insert (qc_src s) S)"
    using assms(1,3,4) walk_append [of ref source 0 "{}" "concat G @ P" "[t]"] by (auto simp: comp_at_def emitted_def)
  moreover have "qc_dst s' = qc_dst s + length (tbytes t)" "qc_cwordPtr s' = qc_cwordPtr s" "qc_cwordVal s' = cw_of (map tflag (P @ [t]))"
    using assms(1,4) by (simp_all add: emitted_def comp_at_def cw_of_snoc)
  moreover have "\<forall>g \<in> set G. length g = 31" "qc_cwordPtr s = 9 + length (concat (map grp G))" "qc_dst s = qc_cwordPtr s + 4 + length (concat (map tbytes P))"
    using assms(1) by (simp_all add: comp_at_def)
  ultimately show ?thesis using assms(2) unfolding comp_at_def by simp
qed

lemma comp_at_bounds:
  assumes "comp_at ref source G P S s"
  shows "qc_dst s \<le> 13 + 4 * length G + qc_src s" "31 * length G \<le> qc_src s" "qc_dst s \<le> qc_cwordPtr s + 4 + 4 * length P" "qc_src s \<le> length source"
proof -
  have w: "walk ref source 0 {} (concat G @ P) (qc_src s) S" and g: "\<forall>g \<in> set G. length g = 31" using assms by (auto simp: comp_at_def)
  have "length (concat (map grp G)) = 4 * length G + length (concat (map tbytes (concat G)))" by (induction G) (auto simp: grp_def)
  moreover have "length (concat G) = 31 * length G" using g by (induction G) auto
  moreover obtain q T where "walk ref source q T P (qc_src s) S" "walk ref source 0 {} (concat G) q T" using w by (auto simp: walk_append)
  moreover from this have "length (concat (map tbytes P)) \<le> 4 * length P" using walk_len [of ref source 0 "{}" "concat G" q T] walk_len [of ref source q T P] by simp
  ultimately show "qc_dst s \<le> 13 + 4 * length G + qc_src s" "31 * length G \<le> qc_src s" "qc_dst s \<le> qc_cwordPtr s + 4 + 4 * length P" "qc_src s \<le> length source"
    using walk_len [OF w] assms by (auto simp: comp_at_def)
qed

lemma flush_ok:
  assumes "comp_at ref source G P S s" "length P = 31" "qc_dst s + 4 \<le> length source + 400"
  shows "\<exists>dest. flush_cword s = Some (s\<lparr>qc_destination := dest, qc_cwordPtr := qc_dst s, qc_dst := qc_dst s + 4, qc_cwordVal := 0x80000000\<rparr>) \<and>
    comp_at ref source (G @ [P]) [] S (s\<lparr>qc_destination := dest, qc_cwordPtr := qc_dst s, qc_dst := qc_dst s + 4, qc_cwordVal := 0x80000000\<rparr>)"
proof -
  let ?c = "put_le 4 (word_of_int (ctl 31 (map tflag P)) :: u64)"
  obtain h w r where d: "qc_destination s = h @ concat (map grp G) @ w @ concat (map tbytes P) @ r" "length h = 9" "length w = 4"
    using assms(1) by (auto simp: comp_at_def)
  have a: "qc_cwordPtr s = length (h @ concat (map grp G))" "length (qc_destination s) = length source + 400"
      "qc_dst s = length (h @ concat (map grp G) @ w @ concat (map tbytes P))" using assms(1) d(2,3) by (auto simp: comp_at_def)
  let ?dest = "h @ concat (map grp G) @ ?c @ concat (map tbytes P) @ r"
  have "write_at (qc_cwordPtr s) ?c (qc_destination s) = ?dest" using a(1) d by (simp add: write_at_def)
  moreover have "uint (drop_bit 1 (qc_cwordVal s)) OR 0x80000000 = ctl 31 (map tflag P)" using assms(1,2) cw_written by (simp add: comp_at_def)
  moreover have "qc_cwordPtr s + 4 \<le> length (qc_destination s)" using a d(1,3) by simp
  ultimately have "flush_cword s = Some (s\<lparr>qc_destination := ?dest, qc_cwordPtr := qc_dst s, qc_dst := qc_dst s + 4, qc_cwordVal := 0x80000000\<rparr>)"
    by (simp add: flush_cword_def fastWrite_def qlz_constants)
  moreover have "comp_at ref source (G @ [P]) [] S (s\<lparr>qc_destination := ?dest, qc_cwordPtr := qc_dst s, qc_dst := qc_dst s + 4, qc_cwordVal := 0x80000000\<rparr>)"
  proof -
    have "4 \<le> length r" using a d(1) assms(3) by simp
    then have "\<exists>h' w' r'. ?dest = h' @ concat (map grp (G @ [P])) @ w' @ concat (map tbytes []) @ r' \<and> length h' = 9 \<and> length w' = 4"
      using d(2) by (intro exI [of _ h] exI [of _ "take 4 r"] exI [of _ "drop 4 r"]) (simp add: grp_def)
    moreover have "length ?dest = length source + 400" using a(2) d(1,3) by simp
    ultimately show ?thesis using assms(1,2) a d(2,3) unfolding comp_at_def by (simp add: grp_def cw_of_def)
  qed
  ultimately show ?thesis by blast
qed

section \<open>The header\<close>

definition header_byte :: "int \<Rightarrow> bool \<Rightarrow> byte" where
  "header_byte level compressible = ((2 OR (if compressible then 1 else 0)) OR word_of_int (push_bit 2 level)) OR push_bit 6 1"

definition header :: "int \<Rightarrow> bool \<Rightarrow> int \<Rightarrow> int \<Rightarrow> bytes" where
  "header level compressible sizeC sizeD =
     header_byte level compressible # put_le 4 (word_of_int sizeC :: u64) @ put_le 4 (word_of_int sizeD :: u64)"

lemma length_header [simp]: "length (header level c sizeC sizeD) = 9"
  by (simp add: header_def)

lemma writeHeader_ok:
  assumes "9 \<le> length d"
  shows "writeHeader d level c sizeD sizeC = Some (header level c sizeC sizeD @ drop 9 d)"
proof -
  obtain x xs where d: "d = x # xs" "8 \<le> length xs" using assms by (cases d) auto
  then show ?thesis
    by (simp add: writeHeader_def header_def header_byte_def fastWrite_def write_at_def Let_def take_Cons' drop_Cons' min_def)
qed

lemma header_byte_level:
  assumes "level = 1 \<or> level = 3"
  shows "header_byte level c AND 2 = 2" "level_of (header_byte level c) = level" "header_byte level c AND 1 = 1 \<longleftrightarrow> c"
  using assms by (cases c; auto simp: header_byte_def level_of_def push_bit_eq_mult drop_bit_eq_div)+

lemma header_sizes:
  assumes "level = 1 \<or> level = 3" "0 \<le> sizeC" "sizeC < 2 ^ 32" "0 \<le> sizeD" "sizeD < 2 ^ 32"
    and z_def: "z = header level c sizeC sizeD @ body"
  shows "nth_opt z 0 = Some (header_byte level c)" "headerLen z = Some 9" "SizeCompressed z = Some sizeC" "SizeDecompressed z = Some sizeD"
proof -
  show n: "nth_opt z 0 = Some (header_byte level c)" by (simp add: z_def header_def nth_opt_def)
  then show h: "headerLen z = Some 9" using header_byte_level [OF assms(1)] by (simp add: headerLen_def)
  have "drop 1 z = put_le 4 (word_of_int sizeC :: u64) @ put_le 4 (word_of_int sizeD :: u64) @ body" by (simp add: z_def header_def)
  from drop_fastRead [OF this, of 4] have "fastRead z 1 4 = Some sizeC" using le_int_put_le [of sizeC 4] assms(2,3) by simp
  then show "SizeCompressed z = Some sizeC" using h by (simp add: SizeCompressed_def)
  have "drop 5 z = put_le 4 (word_of_int sizeD :: u64) @ body" by (simp add: z_def header_def)
  from drop_fastRead [OF this, of 4] have "fastRead z 5 4 = Some sizeD" using le_int_put_le [of sizeD 4] assms(4,5) by simp
  then show "SizeDecompressed z = Some sizeD" using h by (simp add: SizeDecompressed_def)
qed

lemma stored_ok: "stored source level = Some (header level False (int (length source) + 9) (int (length source)) @ source)"
  by (simp add: stored_def writeHeader_ok qlz_constants write_at_def)

section \<open>The loops, for any level\<close>

locale qlz_encoder = qlz_level level ref tab
  for level :: int and ref :: "bytes \<Rightarrow> ref_rel" and tab :: "bytes \<Rightarrow> nat \<Rightarrow> nat set \<Rightarrow> (nat \<Rightarrow> nat) \<Rightarrow> int \<Rightarrow> bool" +
  fixes inv :: "bytes \<Rightarrow> nat set \<Rightarrow> qlz_comp \<Rightarrow> bool"
  assumes levels: "level = 1 \<or> level = 3"
    and step: "inv source S s \<Longrightarrow> qc_src s + 11 \<le> length source \<Longrightarrow> qc_dst s + 4 \<le> length (qc_destination s) \<Longrightarrow>
      \<exists>t s'. (if level = 1 then compress_1 source s else compress_3 source s) = Some s' \<and> tok_ok (ref source) source (qc_src s) S t \<and>
        emitted t s s' \<and> inv source (insert (qc_src s) S) s'"
    and inv_flush: "inv source S s \<Longrightarrow> inv source S (s\<lparr>qc_destination := dest, qc_cwordPtr := a, qc_dst := b, qc_cwordVal := w\<rparr>)"
    and inv_start: "(11 \<le> length source \<Longrightarrow> f = le_int (slice 0 3 source)) \<Longrightarrow> inv source {} ((comp_start source)\<lparr>qc_fetch := f\<rparr>)"

lemma cw_full_at: "comp_at ref source G P S s \<Longrightarrow> qc_cwordVal s AND 1 = 1 \<longleftrightarrow> length P = 31"
  using cw_full [of "map tflag P"] by (simp add: comp_at_def)

lemma not_give_up:
  assumes "comp_at ref source G P S s" "\<not> give_up source s"
  shows "qc_dst s \<le> length source + 13"
proof -
  note b = comp_at_bounds [OF assms(1)]
  have "qc_src s \<le> 3 * (length source div 4) \<or> qc_dst s \<le> qc_src s - qc_src s div 32"
    using assms(2) by (auto simp: give_up_def drop_bit_eq_div not_less)
  then show ?thesis
  proof
    assume "qc_src s \<le> 3 * (length source div 4)"
    moreover have "4 * (length source div 4) \<le> length source" by simp
    ultimately show ?thesis using b(1,2) by linarith
  qed (use b(4) in simp)
qed

context qlz_encoder
begin

text \<open>The state in which a turn writes its token: behind a fresh control word if the last one was full.\<close>

lemma turn_start:
  assumes "comp_at (ref source) source G P S s" "inv source S s" "qc_cwordPtr s \<le> length source + 13" "length P = 31 \<longrightarrow> \<not> give_up source s"
  shows "\<exists>s1 G1 P1. (if qc_cwordVal s AND 1 = 1 then flush_cword s else Some s) = Some s1 \<and> comp_at (ref source) source G1 P1 S s1 \<and>
    inv source S s1 \<and> qc_cwordPtr s1 \<le> length source + 13 \<and> length P1 < 31 \<and> qc_src s1 = qc_src s"
proof (cases "length P = 31")
  case True
  have d: "qc_dst s \<le> length source + 13" using not_give_up [OF assms(1)] assms(4) True by simp
  then show ?thesis using flush_ok [OF assms(1) True] cw_full_at [OF assms(1)] True inv_flush [OF assms(2)] by fastforce
next
  case False
  moreover have "length P \<le> 31" using assms(1) by (simp add: comp_at_def)
  ultimately show ?thesis using assms cw_full_at [OF assms(1)] by (intro exI [of _ s] exI [of _ G] exI [of _ P]) auto
qed

lemma compress_loop_ok:
  assumes "comp_at (ref source) source G P S s" "inv source S s" "qc_cwordPtr s \<le> length source + 13" "qc_src s < length source"
  shows "compress_loop level source s = map_option Inr (stored source level) \<or>
    (\<exists>s' G' P' S'. compress_loop level source s = Some (Inl s') \<and> comp_at (ref source) source G' P' S' s' \<and>
      length source < qc_src s' + 11 \<and> qc_src s' < length source \<and> qc_cwordPtr s' \<le> length source + 13)"
  using assms
proof (induction "length source - qc_src s" arbitrary: G P S s rule: less_induct)
  case less
  show ?case
  proof (cases "qc_src s + 11 \<le> length source")
    case True
    show ?thesis
    proof (cases "length P = 31 \<and> give_up source s")
      case stop: True
      then show ?thesis using True cw_full_at [OF less.prems(1)] by (subst (1) compress_loop.simps) (simp add: before_end)
    next
      case go: False
      obtain s1 G1 P1 where s1: "(if qc_cwordVal s AND 1 = 1 then flush_cword s else Some s) = Some s1" "comp_at (ref source) source G1 P1 S s1"
          "inv source S s1" "qc_cwordPtr s1 \<le> length source + 13" "length P1 < 31" "qc_src s1 = qc_src s"
        using turn_start [OF less.prems(1-3)] go by blast
      have room: "qc_dst s1 + 4 \<le> length source + 400" "length (qc_destination s1) = length source + 400"
        using comp_at_bounds(3) [OF s1(2)] s1(2,4,5) by (simp_all add: comp_at_def)
      obtain t s2 where s2: "(if level = 1 then compress_1 source s1 else compress_3 source s1) = Some s2"
          "tok_ok (ref source) source (qc_src s1) S t" "emitted t s1 s2" "inv source (insert (qc_src s1) S) s2"
        using step [OF s1(3)] True room s1(6) by auto
      have t: "1 \<le> tlen t" "length (tbytes t) \<le> 4" using tok_len [OF s2(2)] by auto
      have c: "comp_at (ref source) source G1 (P1 @ [t]) (insert (qc_src s1) S) s2"
        using comp_at_emit [OF s1(2,5) s2(2,3)] t(2) room(1) by simp
      have e: "qc_src s2 = qc_src s + tlen t" "qc_cwordPtr s2 \<le> length source + 13" using s2(3) s1(4,6) by (simp_all add: emitted_def)
      have "qc_src s2 < length source" using e(1) s2(2) True s1(6) by (cases t) auto
      moreover have g: "\<not> (qc_cwordVal s AND 1 = 1 \<and> give_up source s)" using cw_full_at [OF less.prems(1)] go by simp
      moreover have "compress_loop level source s = compress_loop level source s2"
        using g by (subst compress_loop.simps) (simp only: before_end True if_True if_False simp_thms s1(1) s2(1) option.case)
      moreover have "length source - qc_src s2 < length source - qc_src s" using e(1) t(1) True by simp
      ultimately show ?thesis using less.hyps [OF _ c s2(4) e(2)] by simp
    qed
  next
    case False
    then show ?thesis using less.prems by (subst (1 2) compress_loop.simps) (auto simp: before_end)
  qed
qed

end

definition kept :: "qlz_comp \<Rightarrow> qlz_comp \<Rightarrow> bool" where
  "kept s s' \<longleftrightarrow> qc_hashtable s' = qc_hashtable s \<and> qc_cachetable s' = qc_cachetable s \<and> qc_hashCounter s' = qc_hashCounter s \<and>
     qc_fetch s' = qc_fetch s \<and> qc_lits s' = qc_lits s"

lemma emit_literal_ok:
  assumes "qc_src s < length source" "qc_dst s < length (qc_destination s)"
  shows "\<exists>s'. emit_literal source s = Some s' \<and> emitted (Lit (source ! qc_src s)) s s' \<and> kept s s'"
  using assms by (simp add: emit_literal_def emitted_def kept_def write_at_def upd_conv_take_nth_drop)

lemma emit_match_ok:
  assumes "qc_dst s + n \<le> length (qc_destination s)" "e = put_le n (word_of_int f :: u64)"
  shows "\<exists>s'. emit_match f n m s = Some s' \<and> emitted (Copy q m e) s s' \<and> kept s s'"
  using assms by (simp add: emit_match_def fastWrite_def emitted_def kept_def)

lemma compress_tail_ok:
  assumes "comp_at ref source G P S s" "qc_dst s + 5 * (length source - qc_src s) + 4 \<le> length source + 400" "P \<noteq> [] \<or> qc_src s < length source"
  shows "\<exists>s' G' P' S'. compress_tail source s = Some s' \<and> comp_at ref source G' P' S' s' \<and> P' \<noteq> [] \<and> qc_src s' = length source"
  using assms
proof (induction "length source - qc_src s" arbitrary: G P S s)
  case 0
  then have "qc_src s = length source" using comp_at_bounds(4) [OF "0.prems"(1)] by simp
  then show ?case using "0.prems" by (subst compress_tail.simps) auto
next
  case (Suc n)
  have src: "qc_src s < length source" using Suc.hyps(2) by simp
  obtain s1 G1 P1 where s1: "(if qc_cwordVal s AND 1 = 1 then flush_cword s else Some s) = Some s1" "comp_at ref source G1 P1 S s1"
      "length P1 < 31" "qc_src s1 = qc_src s" "qc_dst s1 \<le> qc_dst s + 4"
  proof (cases "length P = 31")
    case True
    have "qc_dst s + 4 \<le> length source + 400" using Suc.prems(2) by simp
    then show ?thesis using flush_ok [OF Suc.prems(1) True] cw_full_at [OF Suc.prems(1)] True that by fastforce
  next
    case False
    moreover have "length P \<le> 31" using Suc.prems(1) by (simp add: comp_at_def)
    ultimately show ?thesis using that [of s G P] Suc.prems(1) cw_full_at [OF Suc.prems(1)] by simp
  qed
  have len: "length (qc_destination s1) = length source + 400" using s1(2) by (simp add: comp_at_def)
  have room: "qc_dst s1 + 5 * n + 5 \<le> length source + 400" using Suc.prems(2) Suc.hyps(2) s1(5) by simp
  let ?t = "Lit (source ! qc_src s1)"
  obtain s2 where s2: "emit_literal source s1 = Some s2" "emitted ?t s1 s2" using emit_literal_ok [of s1 source] src s1(4) len room by auto
  have c: "comp_at ref source G1 (P1 @ [?t]) (insert (qc_src s1) S) s2"
    using comp_at_emit [OF s1(2,3) _ s2(2)] src s1(4) room by simp
  have e: "qc_src s2 = qc_src s + 1" "qc_dst s2 = qc_dst s1 + 1" using s2(2) s1(4) by (simp_all add: emitted_def)
  have "compress_tail source s = compress_tail source s2"
    using src s1(1) s2(1) by (subst compress_tail.simps) (simp split del: if_split)
  moreover have "n = length source - qc_src s2" "qc_dst s2 + 5 * (length source - qc_src s2) + 4 \<le> length source + 400"
    using Suc.hyps(2) room e by simp_all
  ultimately show ?case using Suc.hyps(1) [OF _ c] by simp
qed

lemma comp_finish_ok:
  assumes "comp_at ref source G P S s" "P \<noteq> []" "qc_dst s \<le> length source + 400"
  shows "comp_finish source level s = Some (header level True (int (qc_dst s)) (int (length source)) @ enc 0 (concat G @ P))"
    and "length (enc 0 (concat G @ P)) + 9 = qc_dst s"
proof -
  let ?c = "put_le 4 (word_of_int (ctl 31 (map tflag P)) :: u64)" and ?fs = "map tflag P"
  obtain h w r where d: "qc_destination s = h @ concat (map grp G) @ w @ concat (map tbytes P) @ r" "length h = 9" "length w = 4"
    using assms(1) by (auto simp: comp_at_def)
  have a: "qc_cwordPtr s = length (h @ concat (map grp G))" "\<forall>g \<in> set G. length g = 31" "length P \<le> 31" "qc_cwordVal s = cw_of ?fs"
      "qc_dst s = length (h @ concat (map grp G) @ w @ concat (map tbytes P))" using assms(1) d(2,3) by (auto simp: comp_at_def)
  have e: "enc 0 (concat G @ P) = concat (map grp G) @ ?c @ concat (map tbytes P)" using enc_groups [OF a(2) assms(2) a(3)] by (simp add: grp_def)
  then show "length (enc 0 (concat G @ P)) + 9 = qc_dst s" using a(5) d by simp
  define w1 where "w1 = cw_of (?fs @ replicate (31 - length P) False)"
  have al: "align_cword 31 (qc_cwordVal s) = Some w1"
    using align_more [OF cw_aligned [of ?fs], of 31] a(3,4) by (simp add: w1_def)
  have cw: "uint (drop_bit 1 w1) OR 0x80000000 = ctl 31 ?fs"
    using cw_written [of "?fs @ replicate (31 - length P) False"] a(3) by (simp add: w1_def ctl_padded)
  let ?d0 = "h @ concat (map grp G) @ ?c @ concat (map tbytes P) @ r"
  have "write_at (qc_cwordPtr s) ?c (qc_destination s) = ?d0" using a(1) d by (simp add: write_at_def)
  then have fw: "fastWrite (qc_destination s) (qc_cwordPtr s) (ctl 31 ?fs) CWORD_LEN = Some ?d0"
    using a(1) d by (simp add: fastWrite_def qlz_constants)
  let ?H = "header level True (int (qc_dst s)) (int (length source))"
  have wh: "writeHeader ?d0 level True (int (length source)) (int (qc_dst s)) = Some (?H @ enc 0 (concat G @ P) @ r)"
    using writeHeader_ok [of ?d0] d(2) e by simp
  have "take (qc_dst s) (?H @ enc 0 (concat G @ P) @ r) = ?H @ enc 0 (concat G @ P)"
    using \<open>length (enc 0 (concat G @ P)) + 9 = qc_dst s\<close> by (simp flip: \<open>length (enc 0 (concat G @ P)) + 9 = qc_dst s\<close>)
  then show "comp_finish source level s = Some (?H @ enc 0 (concat G @ P))"
    using al cw fw wh \<open>length (enc 0 (concat G @ P)) + 9 = qc_dst s\<close> by (simp add: comp_finish_def write_at_def)
qed

context qlz_encoder
begin

lemma comp_start_at: "comp_at r source [] [] {} ((comp_start source)\<lparr>qc_fetch := f\<rparr>)"
proof -
  have "replicate (length source + 400) (0 :: byte) = replicate 9 0 @ replicate 4 0 @ replicate (length source + 387) 0"
    by (simp flip: replicate_add)
  then have "\<exists>h w x. replicate (length source + 400) (0 :: byte) = h @ w @ x \<and> length h = 9 \<and> length w = 4"
    by (metis length_replicate)
  then show ?thesis by (simp add: comp_at_def comp_start_def qlz_constants cw_of_def)
qed

lemma Compress_tokens:
  assumes "source \<noteq> []"
  shows "Compress source level = stored source level \<or> (\<exists>ts S n. walk (ref source) source 0 {} ts (length source) S \<and>
    Compress source level = Some (header level True (int n) (int (length source)) @ enc 0 ts) \<and>
    n = length (enc 0 ts) + 9 \<and> n \<le> length source + 400)"
proof -
  define f where "f = (if 11 \<le> length source then le_int (slice 0 3 source) else 0)"
  let ?s = "(comp_start source)\<lparr>qc_fetch := f\<rparr>"
  have fr: "(if 0 \<le> last_match_start (int (length source)) then fastRead source 0 3 else Some 0) = Some f"
    using before_end [of 0 "length source"] by (simp add: f_def fastRead_le)
  have s: "qc_cwordPtr ?s \<le> length source + 13" "qc_src ?s < length source" "inv source {} ?s"
    using assms inv_start [of source f] by (simp_all add: comp_start_def qlz_constants f_def)
  consider "compress_loop level source ?s = map_option Inr (stored source level)"
    | s' G P S where "compress_loop level source ?s = Some (Inl s')" "comp_at (ref source) source G P S s'"
        "length source < qc_src s' + 11" "qc_src s' < length source" "qc_cwordPtr s' \<le> length source + 13"
    using compress_loop_ok [OF comp_start_at s(3,1,2)] by blast
  then show ?thesis
  proof cases
    case 1
    then have "Compress source level = stored source level" using levels assms fr by (auto simp: Compress_def stored_ok)
    then show ?thesis ..
  next
    case (2 s' G P S)
    have "length P \<le> 31" using 2(2) by (simp add: comp_at_def)
    then have "qc_dst s' + 5 * (length source - qc_src s') + 4 \<le> length source + 400" using comp_at_bounds(3) [OF 2(2)] 2(3,5) by simp
    then obtain s1 G1 P1 S1 where s1: "compress_tail source s' = Some s1" "comp_at (ref source) source G1 P1 S1 s1" "P1 \<noteq> []" "qc_src s1 = length source"
      using compress_tail_ok [OF 2(2)] 2(4) by blast
    have room: "qc_dst s1 \<le> length source + 400" using s1(2) by (auto simp: comp_at_def)
    have w: "walk (ref source) source 0 {} (concat G1 @ P1) (length source) S1" using s1(2,4) by (simp add: comp_at_def)
    have "Compress source level = comp_finish source level s1" using levels assms fr 2(1) s1(1) by (auto simp: Compress_def)
    with comp_finish_ok [OF s1(2,3) room] w room show ?thesis by metis
  qed
qed

lemma roundtrip:
  assumes "source \<noteq> []" "length source + 400 < 2 ^ 32"
  shows "\<exists>c. Compress source level = Some c \<and> qlz_Decompress c = Some source \<and> SizeCompressed c = Some (int (length c)) \<and>
    SizeDecompressed c = Some (int (length source)) \<and> length c \<le> length source + 400"
proof -
  have big: "int (length source) + 400 < 2 ^ 32" using assms(2) by (simp flip: of_nat_add)
  consider "Compress source level = stored source level"
    | ts S n where "walk (ref source) source 0 {} ts (length source) S" "n = length (enc 0 ts) + 9" "n \<le> length source + 400"
        "Compress source level = Some (header level True (int n) (int (length source)) @ enc 0 ts)"
    using Compress_tokens [OF assms(1)] by blast
  then show ?thesis
  proof cases
    case 1
    define z where "z = header level False (int (length source) + 9) (int (length source)) @ source"
    have h: "nth_opt z 0 = Some (header_byte level False)" "headerLen z = Some 9" "SizeCompressed z = Some (int (length source) + 9)"
        "SizeDecompressed z = Some (int (length source))"
      by (rule header_sizes [OF levels _ _ _ _ z_def]; use big in simp)+
    have "drop 9 z = source" "length z = length source + 9" by (simp_all add: z_def)
    moreover from this have "qlz_Decompress z = Some source"
      using h header_byte_level [OF levels, of False] levels by (auto simp: qlz_Decompress_def write_at_def)
    ultimately show ?thesis using 1 h stored_ok [of source level, folded z_def] by simp
  next
    case (2 ts S n)
    define z where "z = header level True (int n) (int (length source)) @ enc 0 ts"
    have h: "nth_opt z 0 = Some (header_byte level True)" "headerLen z = Some 9" "SizeCompressed z = Some (int n)"
        "SizeDecompressed z = Some (int (length source))"
      by (rule header_sizes [OF levels _ _ _ _ z_def]; use big 2(3) in simp)+
    have d: "drop 9 z = enc 0 ts" "length z = n" using 2(2) by (simp_all add: z_def)
    then have "qlz_Decompress z = Some source"
      using h header_byte_level [OF levels, of True] levels dec_tokens [OF assms(1) 2(1) d(1)] by (auto simp: qlz_Decompress_def)
    then show ?thesis using 2(3,4) h d(2) by (simp add: z_def)
  qed
qed

end

end
