(* ===== verification/QlzRoundtrip.thy ===== *)
theory QlzRoundtrip
  imports QlzEncode
begin

text \<open>
  How levels 1 and 3 find their tokens, as interpretations of \<open>qlz_encoder\<close>, and the properties of the Go compressor: what it compresses is
  decompressed to the source at both levels, and it meets the contract that the store relies on.
\<close>

unbundle bit_operations_syntax

section \<open>Matches\<close>

lemma match_len_ok:
  assumes "p \<le> src" "int m \<le> remaining" "int src + remaining < int (length source)"
  shows "\<exists>r. match_len source p src remaining m = Some r \<and> m \<le> r \<and> int r \<le> remaining \<and>
    (\<forall>i. m \<le> i \<and> i < r \<longrightarrow> source ! (p + i) = source ! (src + i))"
  using assms(2)
proof (induction "nat remaining - m" arbitrary: m)
  case 0
  then have "\<not> int m < remaining" by simp
  then show ?case using "0.prems" assms(1,3) by (subst match_len.simps) auto
next
  case (Suc n)
  show ?case
  proof (cases "source ! (p + m) = source ! (src + m) \<and> int m < remaining")
    case True
    have n: "n = nat remaining - (m + 1)" using Suc.hyps(2) by simp
    obtain r where r: "match_len source p src remaining (m + 1) = Some r" "m + 1 \<le> r" "int r \<le> remaining"
        "\<forall>i. m + 1 \<le> i \<and> i < r \<longrightarrow> source ! (p + i) = source ! (src + i)"
      using Suc.hyps(1) [OF n] True by auto
    have "match_len source p src remaining m = Some r" using r(1) True assms(1,3) by (subst match_len.simps) simp
    moreover have "source ! (p + i) = source ! (src + i)" if "m \<le> i" "i < r" for i using that r(4) True by (cases "i = m") auto
    ultimately show ?thesis using r(2,3) by auto
  next
    case False
    then show ?thesis using Suc.prems assms(1,3) by (subst match_len.simps) auto
  qed
qed

lemma remaining_bounds:
  assumes "src + 11 \<le> length source"
  shows "7 \<le> qlz_remaining source src" "qlz_remaining source src \<le> 255" "int src + qlz_remaining source src + 4 \<le> int (length source)"
  using assms by (auto simp: qlz_remaining_def Let_def qlz_constants)

text \<open>A match that may be written at \<open>src\<close>.\<close>

definition good_match :: "bytes \<Rightarrow> nat \<Rightarrow> nat \<Rightarrow> nat \<Rightarrow> bool" where
  "good_match source src p m \<longleftrightarrow> 3 \<le> m \<and> m \<le> 255 \<and> src + m + 4 \<le> length source \<and> (\<forall>i < m. source ! (p + i) = source ! (src + i))"

lemma bytes_of_fetch:
  assumes "v + 3 \<le> length source" "fetch = le_int (slice v (v + 3) source)"
  shows "word_of_int fetch = source ! v" "word_of_int (drop_bit 8 fetch) = source ! (v + 1)" "word_of_int (drop_bit 16 fetch) = source ! (v + 2)"
proof -
  let ?x = "source ! v" and ?y = "source ! (v + 1)" and ?z = "source ! (v + 2)"
  have f: "fetch = 256 * (256 * uint ?z + uint ?y) + uint ?x" using assms slice3 [of v source] by simp
  have d: "fetch div 256 = 256 * uint ?z + uint ?y" using digit [OF byte_bounds [of ?x]] unfolding f by blast
  then have "fetch div 256 div 256 = uint ?z" using digit [OF byte_bounds [of ?y]] by simp
  then have e: "drop_bit 16 fetch = uint ?z" by (simp add: drop_bit_eq_div zdiv_zmult2_eq [of 256 fetch 256, simplified])
  have m: "word_of_int (256 * x + uint b) = b" for x and b :: byte
    using digit [OF byte_bounds [of b], of x] by (simp only: word_uint_eq_iff uint_word_of_int) simp
  show "word_of_int fetch = ?x" "word_of_int (drop_bit 8 fetch) = ?y" "word_of_int (drop_bit 16 fetch) = ?z"
    using m [of "256 * uint ?z + uint ?y" ?x] m [of "uint ?z" ?y] f d e by (simp_all add: drop_bit_eq_div)
qed

lemma put_le_nonempty: "put_le n w = [] \<longleftrightarrow> n = 0"
  by (metis length_0_conv length_put_le)

section \<open>Level 3\<close>

lemma search_3_ok:
  assumes "src + 11 \<le> length source" "\<forall>k. entries k \<le> src" "fetch = le_int (slice src (src + 3) source)"
    and "snd best = 0 \<or> fst best + 3 \<le> src \<and> good_match source src (fst best) (snd best)"
  shows "\<exists>p m. search_3 source src fetch (qlz_remaining source src) entries ks best = Some (p, m) \<and>
    (m = 0 \<or> p + 3 \<le> src \<and> good_match source src p m)"
  using assms(4)
proof (induction ks arbitrary: best)
  case Nil
  then show ?case by (cases best) auto
next
  case (Cons k ks)
  obtain offset2 matchlen where best: "best = (offset2, matchlen)" by (cases best)
  let ?p = "entries k"
  have "?p \<le> src" using assms(2) by blast
  then have p: "?p + 2 < length source" using assms(1) by simp
  note b = bytes_of_fetch [OF _ assms(3)]
  show ?case
  proof (cases "source ! src = source ! ?p \<and> source ! (src + 1) = source ! (?p + 1) \<and> source ! (src + 2) = source ! (?p + 2) \<and> ?p + 2 < src")
    case True
    obtain m where m: "match_len source ?p src (qlz_remaining source src) 3 = Some m" "3 \<le> m" "int m \<le> qlz_remaining source src"
        "\<forall>i. 3 \<le> i \<and> i < m \<longrightarrow> source ! (?p + i) = source ! (src + i)"
      using match_len_ok [of ?p src 3 "qlz_remaining source src" source] assms(1,2) remaining_bounds [OF assms(1)] by auto
    have "source ! (?p + i) = source ! (src + i)" if "i < m" for i
    proof (cases "3 \<le> i")
      case False
      then have "i = 0 \<or> i = 1 \<or> i = 2" by auto
      then show ?thesis using True by auto
    qed (use m(4) that in simp)
    then have g: "good_match source src ?p m" using m(2,3) remaining_bounds [OF assms(1)] by (auto simp: good_match_def)
    let ?best = "if matchlen < m \<or> m = matchlen \<and> offset2 < ?p then (?p, m) else (offset2, matchlen)"
    have "snd ?best = 0 \<or> fst ?best + 3 \<le> src \<and> good_match source src (fst ?best) (snd ?best)" using Cons.prems best g True by auto
    from Cons.IH [OF this] show ?thesis using True m(1) p b assms(1) by (simp add: best MINOFFSET_def Let_def)
  next
    case False
    then show ?thesis using Cons.IH [of best] Cons.prems p b assms(1) by (auto simp: best MINOFFSET_def Let_def)
  qed
qed

text \<open>All entries of the table are positions that were read.\<close>

definition inv_3 :: "bytes \<Rightarrow> nat set \<Rightarrow> qlz_comp \<Rightarrow> bool" where
  "inv_3 source S s \<longleftrightarrow> (\<forall>h k. qc_hashtable s h k \<le> qc_src s)"

lemma enter_all_3_ok:
  assumes "\<forall>u \<in> set us. qc_src s + u + 3 \<le> length source" "\<forall>h k. qc_hashtable s h k \<le> qc_src s + m" "\<forall>u \<in> set us. u \<le> m"
  shows "\<exists>T C f. enter_all_3 source us s = Some (s\<lparr>qc_hashtable := T, qc_hashCounter := C, qc_fetch := f\<rparr>) \<and> (\<forall>h k. T h k \<le> qc_src s + m)"
  using assms
proof (induction us arbitrary: s)
  case Nil
  then show ?case by (intro exI [of _ "qc_hashtable s"] exI [of _ "qc_hashCounter s"] exI [of _ "qc_fetch s"]) simp
next
  case (Cons u us)
  define f where "f = le_int (slice (qc_src s + u) (qc_src s + u + 3) source)"
  have fr: "fastRead source (qc_src s + u) 3 = Some f" using Cons.prems(1) by (simp add: f_def fastRead_le)
  let ?s1 = "enter_3 (qlz_hash f) (qc_src s + u) (s\<lparr>qc_fetch := f\<rparr>)"
  have "\<forall>h k. qc_hashtable ?s1 h k \<le> qc_src ?s1 + m" "qc_src ?s1 = qc_src s" using Cons.prems(2,3) by (auto simp: enter_3_def put_entry_def Let_def)
  then obtain T C g where "enter_all_3 source us ?s1 = Some (?s1\<lparr>qc_hashtable := T, qc_hashCounter := C, qc_fetch := g\<rparr>)" "\<forall>h k. T h k \<le> qc_src s + m"
    using Cons.IH [of ?s1] Cons.prems(1,3) by auto
  then show ?case using fr by (intro exI [of _ T] exI [of _ C] exI [of _ g]) (simp add: enter_3_def Let_def)
qed

lemma compress_3_step:
  assumes "inv_3 source S s" "qc_src s + 11 \<le> length source" "qc_dst s + 4 \<le> length (qc_destination s)"
  shows "\<exists>t s'. compress_3 source s = Some s' \<and> tok_ok (copy_ref_3 source) source (qc_src s) S t \<and> emitted t s s' \<and> inv_3 source (insert (qc_src s) S) s'"
proof -
  let ?src = "qc_src s"
  define fetch where "fetch = le_int (slice ?src (?src + 3) source)"
  define hash where "hash = qlz_hash fetch"
  have fr: "fastRead source ?src 3 = Some fetch" using assms(2) by (simp add: fetch_def fastRead_le)
  obtain p m where pm: "search_3 source ?src fetch (qlz_remaining source ?src) (qc_hashtable s hash)
        [0 ..< min QLZ_POINTERS_3 (unat (qc_hashCounter s hash))] (0, 0) = Some (p, m)" "m = 0 \<or> p + 3 \<le> ?src \<and> good_match source ?src p m"
    using search_3_ok [OF assms(2), of "qc_hashtable s hash" fetch "(0, 0)" "[0 ..< min QLZ_POINTERS_3 (unat (qc_hashCounter s hash))]"]
      assms(1) by (auto simp: inv_3_def fetch_def)
  let ?s1 = "enter_3 hash ?src (s\<lparr>qc_fetch := fetch\<rparr>)"
  have s1: "\<forall>h k. qc_hashtable ?s1 h k \<le> ?src" "qc_src ?s1 = ?src" "qc_dst ?s1 = qc_dst s" "qc_destination ?s1 = qc_destination s"
      "qc_cwordVal ?s1 = qc_cwordVal s" "qc_cwordPtr ?s1 = qc_cwordPtr s"
    using assms(1) by (auto simp: enter_3_def put_entry_def Let_def inv_3_def)
  show ?thesis
  proof (cases "3 \<le> m \<and> ?src < p + 131071")
    case True
    then have g: "p + 3 \<le> ?src" "3 \<le> m" "m \<le> 255" "?src + m + 4 \<le> length source" "\<forall>i < m. source ! (p + i) = source ! (?src + i)" "?src - p < 131071"
      using pm(2) by (auto simp: good_match_def)
    have "\<forall>h k. qc_hashtable ?s1 h k \<le> qc_src ?s1 + m" using s1(1,2) le_add1 order_trans by metis
    then obtain T C f where s2: "enter_all_3 source [1 ..< m] ?s1 = Some (?s1\<lparr>qc_hashtable := T, qc_hashCounter := C, qc_fetch := f\<rparr>)"
        "\<forall>h k. T h k \<le> ?src + m"
      using enter_all_3_ok [of "[1 ..< m]" ?s1 source m] g(4) s1(2) by auto
    let ?s2 = "?s1\<lparr>qc_hashtable := T, qc_hashCounter := C, qc_fetch := f\<rparr>"
    obtain x n where r: "ref_3 (?src - p) m = (x, n)" by (cases "ref_3 (?src - p) m")
    note rb = ref_3_bounds [OF g(2,3,6) r]
    let ?e = "put_le n (word_of_int x :: u64)"
    obtain s' where s': "emit_match x n m ?s2 = Some s'" "emitted (Copy p m ?e) ?s2 s'" "qc_hashtable s' = T" "qc_src s' = ?src + m"
      using emit_match_ok [of ?s2 n ?e x m p] s1(2-4) assms(3) rb(4) by (auto simp: kept_def emitted_def)
    have "compress_3 source s = Some s'"
      using fr pm(1) True s2(1) s'(1) match_3_ref [OF g(2,3), of "?src - p" ?s2] r by (simp add: compress_3_def hash_def Let_def del: upt.simps upt_Suc)
    moreover have "tok_ok (copy_ref_3 source) source ?src S (Copy p m ?e)"
      using g assms(2) rb r True by (auto simp: copy_ref_3_def put_le_nonempty)
    moreover have "emitted (Copy p m ?e) s s'" using s'(2) s1 by (simp add: emitted_def)
    moreover have "inv_3 source (insert ?src S) s'" using s'(3,4) s2(2) by (simp add: inv_3_def)
    ultimately show ?thesis by blast
  next
    case False
    obtain s' where s': "emit_literal source ?s1 = Some s'" "emitted (Lit (source ! ?src)) ?s1 s'" "qc_hashtable s' = qc_hashtable ?s1" "qc_src s' = ?src + 1"
      using emit_literal_ok [of ?s1 source] s1(2-4) assms(2,3) by (auto simp: kept_def emitted_def)
    have "compress_3 source s = Some s'" using fr pm(1) False s'(1) by (auto simp: compress_3_def hash_def Let_def)
    moreover have "tok_ok (copy_ref_3 source) source ?src S (Lit (source ! ?src))" using assms(2) by simp
    moreover have "emitted (Lit (source ! ?src)) s s'" using s'(2) s1 by (simp add: emitted_def)
    moreover have "inv_3 source (insert ?src S) s'" using s'(3,4) s1(1) by (simp add: inv_3_def le_SucI)
    ultimately show ?thesis by blast
  qed
qed

interpretation encoder3: qlz_encoder 3 copy_ref_3 "\<lambda>source p S T L. True" inv_3
  by unfold_locales (use compress_3_step in \<open>simp_all add: inv_3_def comp_start_def\<close>)

section \<open>Level 1\<close>

definition three :: "bytes \<Rightarrow> nat \<Rightarrow> int" where
  "three source v = le_int (slice v (v + 3) source)"

lemma three_eq: "three source v = three source w \<Longrightarrow> v + 3 \<le> length source \<Longrightarrow> w + 3 \<le> length source \<Longrightarrow> i < 3 \<Longrightarrow> source ! (v + i) = source ! (w + i)"
proof -
  assume a: "three source v = three source w" "v + 3 \<le> length source" "w + 3 \<le> length source" "i < 3"
  have "slice v (v + 3) source = slice w (w + 3) source" using a by (intro le_int_inj) (simp_all add: three_def)
  then have "source ! v = source ! w" "source ! (v + 1) = source ! (w + 1)" "source ! (v + 2) = source ! (w + 2)" using a(2,3) by (simp_all add: slice3)
  moreover have "i = 0 \<or> i = 1 \<or> i = 2" using a(4) by auto
  ultimately show ?thesis by auto
qed

lemma roll_three: "v + 4 \<le> length source \<Longrightarrow> roll_fetch (three source v) (source ! (v + 3)) = three source (v + 1)"
  using roll_bytes [of "source ! v" "source ! (v + 1)" "source ! (v + 2)" "[]" "source ! (v + 3)"] slice3 [of v source] slice3 [of "v + 1" source]
  by (simp add: three_def numeral_3_eq_3 del: le_int.simps)

lemma long_match_ok:
  assumes "src + 11 \<le> length source" "p \<le> src" "\<forall>i < 4. source ! (p + i) = source ! (src + i)"
  shows "\<exists>m. long_match source p src = Some m \<and> good_match source src p m"
proof -
  have g: "good_match source src p m" if "4 \<le> m" "int m \<le> qlz_remaining source src" "\<forall>i. 4 \<le> i \<and> i < m \<longrightarrow> source ! (p + i) = source ! (src + i)" for m
    using that assms(3) remaining_bounds [OF assms(1)] by (auto simp: good_match_def not_less) (metis not_less)
  show ?thesis
  proof (cases "source ! (p + 4) = source ! (src + 4)")
    case False
    have "good_match source src p 4" by (rule g) (use remaining_bounds [OF assms(1)] in auto)
    then show ?thesis using False assms(1,2) by (simp add: long_match_def Let_def)
  next
    case four: True
    have f5: "\<forall>i. 4 \<le> i \<and> i < 5 \<longrightarrow> source ! (p + i) = source ! (src + i)" using four by (auto simp: le_Suc_eq less_Suc_eq numeral_eq_Suc)
    show ?thesis
    proof (cases "source ! (p + 5) = source ! (src + 5)")
      case False
      then show ?thesis using g [of 5] f5 four assms(1,2) remaining_bounds [OF assms(1)] by (simp add: long_match_def Let_def)
    next
      case True
      obtain m where m: "match_len source p src (qlz_remaining source src) 6 = Some m" "6 \<le> m" "int m \<le> qlz_remaining source src"
          "\<forall>i. 6 \<le> i \<and> i < m \<longrightarrow> source ! (p + i) = source ! (src + i)"
        using match_len_ok [of p src 6 "qlz_remaining source src" source] assms(2) remaining_bounds [OF assms(1)] by auto
      have "source ! (p + i) = source ! (src + i)" if "4 \<le> i" "i < m" for i
      proof -
        consider "i = 4" | "i = 5" | "6 \<le> i" using \<open>4 \<le> i\<close> by linarith
        then show ?thesis using four True m(4) that(2) by cases auto
      qed
      then have "good_match source src p m" using g [of m] m(2,3) by simp
      then show ?thesis using m(1) four True assms(1,2) by (simp add: long_match_def Let_def)
    qed
  qed
qed

lemma match_1_ok:
  assumes "qc_src s + 11 \<le> length source" "qc_dst s + 4 \<le> length (qc_destination s)" "p < qc_src s" "hash < 4096"
    and "\<forall>i < 3. source ! (p + i) = source ! (qc_src s + i)"
  shows "\<exists>s' m f n. match_1 source hash p s = Some s' \<and> good_match source (qc_src s) p m \<and> ref_1 hash m = (f, n) \<and>
    emitted (Copy q m (put_le n (word_of_int f :: u64))) s s' \<and> kept (s\<lparr>qc_lits := 0, qc_fetch := three source (qc_src s + m)\<rparr>) s'"
proof -
  let ?src = "qc_src s"
  define code where "code = (\<lambda>m. emit_match (fst (ref_1 hash m)) (snd (ref_1 hash m)) m s)"
  obtain m where m: "good_match source ?src p m"
      "emit_match_1 source hash p s = code m"
  proof (cases "source ! (p + 3) = source ! (?src + 3)")
    case True
    have "\<forall>i < 4. source ! (p + i) = source ! (?src + i)" using True assms(5) by (auto simp: less_Suc_eq numeral_eq_Suc)
    then obtain m where l: "long_match source p ?src = Some m" "good_match source ?src p m" using long_match_ok [OF assms(1), of p] assms(3) by auto
    have "3 \<le> m" using l(2) by (simp add: good_match_def)
    then show ?thesis
      using that [OF l(2)] True l(1) assms(1,3) ref_1_emitted(2,3) [OF \<open>3 \<le> m\<close> assms(4)] by (simp add: emit_match_1_def code_def ref_1_def)
  next
    case False
    have "good_match source ?src p 3" using assms(1,5) by (simp add: good_match_def)
    then show ?thesis using that False assms(1,3) ref_1_emitted(1) [of 3 hash] assms(4) by (simp add: emit_match_1_def code_def ref_1_def)
  qed
  have g: "3 \<le> m" "m \<le> 255" "?src + m + 4 \<le> length source" using m(1) by (auto simp: good_match_def)
  obtain f n where r: "ref_1 hash m = (f, n)" by (cases "ref_1 hash m")
  have "n \<le> 3" using ref_1_bounds(4) [OF g(1,2) assms(4) r] .
  then obtain s1 where s1: "code m = Some s1" "emitted (Copy q m (put_le n (word_of_int f :: u64))) s s1" "kept s s1"
    using emit_match_ok [of s n "put_le n (word_of_int f :: u64)" f m q] assms(2) r by (auto simp: code_def)
  have fr: "fastRead source (qc_src s1) 3 = Some (three source (?src + m))" using s1(2) g(3) by (simp add: emitted_def three_def fastRead_le)
  let ?s' = "s1\<lparr>qc_lits := 0, qc_fetch := three source (?src + m)\<rparr>"
  have "match_1 source hash p s = Some ?s'" using m(2) s1(1) fr by (simp add: match_1_def)
  moreover have "emitted (Copy q m (put_le n (word_of_int f :: u64))) s ?s'" using s1(2) by (simp add: emitted_def)
  moreover have "kept (s\<lparr>qc_lits := 0, qc_fetch := three source (?src + m)\<rparr>) ?s'" using s1(3) by (simp add: kept_def)
  ultimately show ?thesis using m(1) r by blast
qed

text \<open>The tables know the newest position of every hash and its three bytes; the last \<open>lits\<close> positions are starts of tokens.\<close>

definition inv_1 :: "bytes \<Rightarrow> nat set \<Rightarrow> qlz_comp \<Rightarrow> bool" where
  "inv_1 source S s \<longleftrightarrow> (\<forall>v \<in> S. v < qc_src s) \<and> (qc_src s + 11 \<le> length source \<longrightarrow> qc_fetch s = three source (qc_src s)) \<and>
     (\<forall>v. qc_src s \<le> v + qc_lits s \<and> v < qc_src s \<longrightarrow> v \<in> S) \<and> table_newest (hash_at source) (\<lambda>h. qc_hashtable s h 0) S \<and>
     (\<forall>h. qc_hashCounter s h \<noteq> 0 \<longrightarrow> (\<exists>v \<in> S. hash_at source v = h)) \<and>
     (\<forall>v \<in> S. qc_cachetable s (hash_at source v) = three source (qc_hashtable s (hash_at source v) 0))"

lemma xor_zero: "(x XOR y = 0) = (x = y)" for x y :: int
  by (auto simp: bit_eq_iff bit_simps)

lemma table_newest_new:
  "table_newest H T S \<Longrightarrow> \<forall>v \<in> S. v < h \<Longrightarrow> table_newest H (T(H h := h)) (insert h S)"
  unfolding table_newest_def by (auto simp: less_imp_le)

text \<open>The start of a match that the decoder finds in its table: the entry, or three bytes back in a run of one byte.\<close>

lemma match_start:
  assumes "inv_1 source S s" "qc_src s + 11 \<le> length source" "p = qc_hashtable s (hash_at source (qc_src s)) 0" "good_match source (qc_src s) p m"
    and "qc_cachetable s (hash_at source (qc_src s)) = three source (qc_src s)" "qc_hashCounter s (hash_at source (qc_src s)) \<noteq> 0"
    and "run_match source (qc_src s) p (qc_lits s) = Some run" "p + 2 < qc_src s \<or> run"
  shows "\<exists>q. q \<in> S \<and> q + 3 \<le> qc_src s \<and> hash_at source q = hash_at source (qc_src s) \<and> good_match source (qc_src s) q m \<and>
    (\<forall>v \<in> S. v + 3 \<le> qc_src s \<and> hash_at source v = hash_at source (qc_src s) \<longrightarrow> v \<le> q)"
proof (cases "p + 2 < qc_src s")
  case True
  obtain v where "v \<in> S" "hash_at source v = hash_at source (qc_src s)" using assms(1,6) by (auto simp: inv_1_def)
  then have "p \<in> S" "hash_at source p = hash_at source (qc_src s)" "\<forall>v \<in> S. hash_at source v = hash_at source (qc_src s) \<longrightarrow> v \<le> p"
    using assms(1,3) unfolding inv_1_def table_newest_def by metis+
  then show ?thesis using True assms(4) by (intro exI [of _ p]) auto
next
  case False
  let ?src = "qc_src s" and ?q = "qc_src s - 3"
  have r: "?src = p + 1" "3 \<le> qc_lits s" "3 < ?src" using assms(7,8) False by (auto simp: run_match_def split: if_splits)
  then have x: "source ! ?src = source ! ?q" "source ! ?src = source ! (?src - 2)" "source ! ?src = source ! (?src - 1)"
      "source ! ?src = source ! (?src + 1)" "source ! ?src = source ! (?src + 2)"
    using assms(2,7,8) False by (auto simp: run_match_def)
  have "?src \<le> ?q + qc_lits s" "?q < ?src" using r(2,3) by auto
  then have "?q \<in> S" using assms(1) unfolding inv_1_def by blast
  moreover have "hash_at source ?q = hash_at source ?src"
  proof -
    have "?q + 3 = ?src" "?q + 1 = ?src - 2" "?q + 2 = ?src - 1" using r(3) by auto
    then show ?thesis using slice3 [of ?q source] slice3 [of ?src source] assms(2) x by (simp add: hash_at_def)
  qed
  moreover have "source ! (?q + i) = source ! (?src + i)" if "i < m" for i
  proof -
    have run: "source ! (?src + j) = source ! ?src" if "j < m" for j
      using that
    proof (induction j)
      case (Suc j)
      have "source ! (p + Suc j) = source ! (?src + Suc j)" using assms(4) Suc.prems unfolding good_match_def by blast
      then show ?case using Suc r(1) by simp
    qed simp
    have "i = 0 \<or> i = 1 \<or> i = 2 \<or> i = (i - 3) + 3" by auto
    moreover have "?q + 1 = ?src - 2" "?q + 2 = ?src - 1" using r(3) by auto
    then have near: "source ! (?q + 1) = source ! (?src + 1)" "source ! (?q + 2) = source ! (?src + 2)" using x by metis+
    ultimately consider "i = 0" | "i = 1" | "i = 2" | j where "i = j + 3" by blast
    then show ?thesis
    proof cases
      case 4
      then have "source ! (?q + i) = source ! (?src + j)" using r(3) by (simp add: add.commute)
      then show ?thesis using run [of j] run [of i] that 4 by simp
    qed (use x(1) near in simp_all)
  qed
  ultimately show ?thesis using assms(4) r(3) by (intro exI [of _ ?q]) (auto simp: good_match_def)
qed

text \<open>What a turn does to the tables.\<close>

lemma inv_1_turn:
  assumes "inv_1 source S s" "qc_src s + 11 \<le> length source"
    and "kept (s\<lparr>qc_cachetable := (qc_cachetable s)(hash_at source (qc_src s) := three source (qc_src s)),
      qc_hashtable := put_entry (hash_at source (qc_src s)) 0 (qc_src s) (qc_hashtable s),
      qc_hashCounter := C, qc_lits := l, qc_fetch := three source (qc_src s')\<rparr>) s'"
    and "C = qc_hashCounter s \<or> C = (qc_hashCounter s)(hash_at source (qc_src s) := 1)"
    and "l = 0 \<and> qc_src s < qc_src s' \<or> l = qc_lits s + 1 \<and> qc_src s' = qc_src s + 1"
  shows "inv_1 source (insert (qc_src s) S) s'"
proof -
  let ?h = "hash_at source (qc_src s)"
  have i: "\<forall>v \<in> S. v < qc_src s" "\<forall>v. qc_src s \<le> v + qc_lits s \<and> v < qc_src s \<longrightarrow> v \<in> S" "table_newest (hash_at source) (\<lambda>h. qc_hashtable s h 0) S"
      "\<forall>h. qc_hashCounter s h \<noteq> 0 \<longrightarrow> (\<exists>v \<in> S. hash_at source v = h)"
      "\<forall>v \<in> S. qc_cachetable s (hash_at source v) = three source (qc_hashtable s (hash_at source v) 0)"
    using assms(1) by (simp_all add: inv_1_def)
  have k: "qc_cachetable s' = (qc_cachetable s)(?h := three source (qc_src s))" "(\<lambda>h. qc_hashtable s' h 0) = (\<lambda>h. qc_hashtable s h 0)(?h := qc_src s)"
      "qc_hashCounter s' = C" "qc_lits s' = l" "qc_fetch s' = three source (qc_src s')"
    using assms(3) by (auto simp: kept_def put_entry_def fun_eq_iff)
  have "table_newest (hash_at source) (\<lambda>h. qc_hashtable s' h 0) (insert (qc_src s) S)"
    unfolding k(2) by (rule table_newest_new [OF i(3,1)])
  moreover have "\<forall>h. qc_hashCounter s' h \<noteq> 0 \<longrightarrow> (\<exists>v \<in> insert (qc_src s) S. hash_at source v = h)"
    using i(4) assms(4) unfolding k(3) by (auto split: if_splits)
  moreover have "\<forall>v \<in> insert (qc_src s) S. qc_cachetable s' (hash_at source v) = three source (qc_hashtable s' (hash_at source v) 0)"
    using i(5) fun_cong [OF k(2)] unfolding k(1) by auto
  moreover have "\<forall>v. qc_src s' \<le> v + qc_lits s' \<and> v < qc_src s' \<longrightarrow> v \<in> insert (qc_src s) S"
    using i(2) assms(5) unfolding k(4) by (auto simp: less_Suc_eq)
  moreover have "\<forall>v \<in> insert (qc_src s) S. v < qc_src s'" using i(1) assms(5) by auto
  ultimately show ?thesis using k(5) by (simp add: inv_1_def)
qed

lemma compress_1_step:
  assumes "inv_1 source S s" "qc_src s + 11 \<le> length source" "qc_dst s + 4 \<le> length (qc_destination s)"
  shows "\<exists>t s'. compress_1 source s = Some s' \<and> tok_ok (copy_ref_1 source) source (qc_src s) S t \<and> emitted t s s' \<and> inv_1 source (insert (qc_src s) S) s'"
proof -
  let ?src = "qc_src s" and ?h = "hash_at source (qc_src s)"
  define p where "p = qc_hashtable s ?h 0"
  let ?s1 = "s\<lparr>qc_cachetable := (qc_cachetable s)(?h := three source ?src), qc_hashtable := put_entry ?h 0 ?src (qc_hashtable s)\<rparr>"
  have f: "qc_fetch s = three source ?src" "qlz_hash (qc_fetch s) = ?h" using assms(1,2) by (auto simp: inv_1_def hash_at_def three_def)
  have "run_match source ?src p (qc_lits s) \<noteq> None" using assms(2) by (auto simp: run_match_def nth_opt_def)
  then obtain run where run: "run_match source ?src p (qc_lits s) = Some run" by auto
  show ?thesis
  proof (cases "qc_cachetable s ?h = three source ?src \<and> qc_hashCounter s ?h \<noteq> 0 \<and> (p + 2 < ?src \<or> run)")
    case True
    have "p < ?src"
    proof -
      obtain v where "v \<in> S" "hash_at source v = ?h" using assms(1) True by (auto simp: inv_1_def)
      then have "p \<in> S" using assms(1) unfolding inv_1_def table_newest_def p_def by metis
      then show ?thesis using assms(1) by (simp add: inv_1_def)
    qed
    moreover have "three source p = three source ?src"
    proof -
      obtain v where "v \<in> S" "hash_at source v = ?h" using assms(1) True by (auto simp: inv_1_def)
      then have "qc_cachetable s ?h = three source p" using assms(1) unfolding inv_1_def p_def by metis
      then show ?thesis using True by simp
    qed
    ultimately have "\<forall>i < 3. source ! (p + i) = source ! (?src + i)" using three_eq [of source p ?src] assms(2) by simp
    then have mt: "\<exists>s' m f n. match_1 source ?h p ?s1 = Some s' \<and> good_match source ?src p m \<and> ref_1 ?h m = (f, n) \<and>
        emitted (Copy q m (put_le n (word_of_int f :: u64))) ?s1 s' \<and> kept (?s1\<lparr>qc_lits := 0, qc_fetch := three source (?src + m)\<rparr>) s'" for q
      using match_1_ok [of ?s1 source p ?h q] assms(2,3) \<open>p < ?src\<close> hash_at_bound by simp
    from mt [of 0] obtain s' m f n where s': "match_1 source ?h p ?s1 = Some s'" "good_match source ?src p m" "ref_1 ?h m = (f, n)"
        "emitted (Copy 0 m (put_le n (word_of_int f :: u64))) ?s1 s'" "kept (?s1\<lparr>qc_lits := 0, qc_fetch := three source (?src + m)\<rparr>) s'" by blast
    obtain q where q: "q \<in> S" "q + 3 \<le> ?src" "hash_at source q = ?h" "good_match source ?src q m"
        "\<forall>v \<in> S. v + 3 \<le> ?src \<and> hash_at source v = ?h \<longrightarrow> v \<le> q"
      using match_start [OF assms(1,2) p_def s'(2) _ _ run] True by blast
    let ?t = "Copy q m (put_le n (word_of_int f :: u64))"
    have g: "3 \<le> m" "m \<le> 255" using q(4) by (auto simp: good_match_def)
    have "tok_ok (copy_ref_1 source) source ?src S ?t"
      using q s'(3) assms(2) ref_1_bounds [OF g hash_at_bound s'(3)] by (auto simp: copy_ref_1_def good_match_def put_le_nonempty)
    moreover have e: "emitted ?t s s'" using s'(4) by (simp add: emitted_def)
    moreover have "inv_1 source (insert ?src S) s'"
      using e g s'(5) by (intro inv_1_turn [OF assms(1,2), where C = "qc_hashCounter s" and l = 0]) (auto simp: emitted_def kept_def)
    moreover have "compress_1 source s = Some s'" using True run s'(1) f by (simp add: compress_1_def Let_def p_def MINOFFSET_def xor_zero)
    ultimately show ?thesis by blast
  next
    case False
    let ?s2 = "?s1\<lparr>qc_lits := qc_lits s + 1, qc_hashCounter := (qc_hashCounter s)(?h := 1)\<rparr>"
    obtain s3 where s3: "emit_literal source ?s2 = Some s3" "emitted (Lit (source ! ?src)) ?s2 s3" "kept ?s2 s3"
      using emit_literal_ok [of ?s2 source] assms(2,3) by auto
    have src: "qc_src s3 = ?src + 1" "qc_fetch s3 = three source ?src" using s3(2,3) f(1) by (simp_all add: emitted_def kept_def)
    have "roll_fetch (three source ?src) (source ! (qc_src s3 + 2)) = three source (?src + 1)" using roll_three [of ?src source] assms(2) src(1)
      by (simp add: numeral_eq_Suc)
    then have l: "literal_1 source ?h ?s1 = Some (s3\<lparr>qc_fetch := three source (?src + 1)\<rparr>)"
      using s3(1) src assms(2) by (simp add: literal_1_def)
    let ?s' = "s3\<lparr>qc_fetch := three source (?src + 1)\<rparr>"
    have "tok_ok (copy_ref_1 source) source ?src S (Lit (source ! ?src))" using assms(2) by simp
    moreover have e: "emitted (Lit (source ! ?src)) s ?s'" using s3(2) by (simp add: emitted_def)
    moreover have "inv_1 source (insert ?src S) ?s'"
      using s3(3) src(1)
      by (intro inv_1_turn [OF assms(1,2), where C = "(qc_hashCounter s)(?h := 1)" and l = "qc_lits s + 1"]) (auto simp: kept_def)
    moreover have "compress_1 source s = Some ?s'" using False run l f by (auto simp: compress_1_def Let_def p_def MINOFFSET_def xor_zero)
    ultimately show ?thesis by blast
  qed
qed

interpretation encoder1: qlz_encoder 1 copy_ref_1 tab_1 inv_1
  by unfold_locales (use compress_1_step in \<open>simp_all add: inv_1_def comp_start_def table_newest_def three_def\<close>)

section \<open>Properties\<close>

lemma roundtrip_levels:
  assumes "level = 1 \<or> level = 3" "source \<noteq> []" "length source + 400 < 2 ^ 32"
  obtains c where "Compress source level = Some c" "qlz_Decompress c = Some source" "SizeCompressed c = Some (int (length c))"
    "SizeDecompressed c = Some (int (length source))" "length c \<le> length source + 400"
  using encoder1.roundtrip [OF assms(2,3)] encoder3.roundtrip [OF assms(2,3)] assms(1) by blast

text \<open>C5: the compressor in Go is lossless at levels 1 and 3.  \<open>Compress\<close> of a source that is not empty (and whose size fits the header) does not panic: no
  index leaves the source, the tables or the buffer of 400 bytes more than the source.  \<open>Decompress\<close> of its result returns the source without a
  panic, whether the block was compressed or stored; the header holds both sizes, and \<open>DecompressSafe\<close> accepts the block.\<close>

theorem quicklz_roundtrip:
  assumes "level = 1 \<or> level = 3" and "source \<noteq> []" and "length source + 400 < 2 ^ 32"
  shows "\<exists>c. Compress source level = Some c \<and> qlz_Decompress c = Some source \<and> DecompressSafe c = Inr source \<and>
    SizeCompressed c = Some (int (length c)) \<and> SizeDecompressed c = Some (int (length source)) \<and> length c \<le> length source + 400"
proof -
  obtain c where "Compress source level = Some c" "qlz_Decompress c = Some source" "SizeCompressed c = Some (int (length c))"
      "SizeDecompressed c = Some (int (length source))" "length c \<le> length source + 400"
    using roundtrip_levels [OF assms] .
  then show ?thesis by (intro exI [of _ c]) (simp add: DecompressSafe_def)
qed

text \<open>The environment of the store with the compressor in Go.\<close>

definition go_env :: "int \<Rightarrow> Env \<Rightarrow> Env" where
  "go_env level e = e\<lparr>qlz_compress := \<lambda>x. case Compress x level of Some c \<Rightarrow> c | None \<Rightarrow> [],
     qlz_decompress := \<lambda>c. case qlz_Decompress c of Some x \<Rightarrow> x | None \<Rightarrow> []\<rparr>"

text \<open>The compressor in Go meets, at both levels, the contract that the store relies on for its compressor (sizes in the header, output within the buffer,
  decompression returns the source).  So what is proved of records, buckets and the server for a compressor with this contract holds when the
  compressor in Go takes the place of the one in C.\<close>

theorem quicklz_meets_contract: "qlz_ok (go_env 1 e) \<and> qlz_ok (go_env 3 e)"
proof -
  have "qlz_ok (go_env level e)" if lv: "level = 1 \<or> level = 3" for level
    unfolding qlz_ok_def
  proof (intro allI impI)
    fix x :: bytes assume x: "x \<noteq> [] \<and> length x + 400 < 2 ^ 32"
    then obtain c where "Compress x level = Some c" "qlz_Decompress c = Some x" "SizeCompressed c = Some (int (length c))"
        "SizeDecompressed c = Some (int (length x))" "length c \<le> length x + 400"
      using roundtrip_levels [OF lv, of x] by blast
    then show "SizeCompressed (qlz_compress (go_env level e) x) = Some (int (length (qlz_compress (go_env level e) x))) \<and>
        SizeDecompressed (qlz_compress (go_env level e) x) = Some (int (length x)) \<and>
        length (qlz_compress (go_env level e) x) \<le> length x + 400 \<and> qlz_decompress (go_env level e) (qlz_compress (go_env level e) x) = x"
      by (simp add: go_env_def)
  qed
  then show ?thesis by simp
qed

text \<open>Nothing is compressed to nothing, which \<open>Decompress\<close> does not take: it panics, and \<open>DecompressSafe\<close> returns an error.\<close>

lemma quicklz_empty: "Compress [] 1 = Some []" "Compress [] 3 = Some []" "qlz_Decompress [] = None" "DecompressSafe [] = Inl DecompressErr"
  by (simp_all add: Compress_def qlz_Decompress_def SizeDecompressed_def DecompressSafe_def SizeCompressed_def headerLen_def nth_opt_def)

theorem quicklz_roundtrip_witness:
  "\<exists>c. Compress (replicate 100 7) 3 = Some c \<and> qlz_Decompress c = Some (replicate 100 7) \<and> DecompressSafe c = Inr (replicate 100 7)"
proof -
  have "(3 :: int) = 1 \<or> (3 :: int) = 3" "replicate 100 (7 :: byte) \<noteq> []" "length (replicate 100 (7 :: byte)) + 400 < 2 ^ 32" by simp_all
  from quicklz_roundtrip [OF this] show ?thesis by blast
qed

end
