(* ===== verification/Lifecycle.thy ===== *)
theory Lifecycle
  imports McServer
begin

text \<open>
  The life of connections and of the server (\<open>memcache/server.go\<close>): the access log line, the loop of a connection, and the server as a step
  relation.  The threads are the accepting loop of \<open>Serve\<close>, one goroutine per accepted connection and the goroutine that handles signals; they
  share the map of connections, the counters, the limiter and the store.  A section between \<open>Lock\<close> and \<open>Unlock\<close> is one step that needs
  the mutex to be free.  A turn of a connection is three steps: the test of its flag at the head of the loop, the reading of a request (which waits for a line of input and
  for a token), and its processing and answer; notifications and the steps of other connections come between them.  The peer's whole input is part of the connection from the start, and a peer
  address can be used again once the connection that had it is closed.  The lemmas show that a connection ends when its input does, what the
  counters count, that a shutdown reaches every registered connection and lets it answer at most the request of the turn it is in, and what the server does when it returns.
\<close>

section \<open>Definitions\<close>

subsection \<open>The access log\<close>

definition AccessLogVersion :: string where "AccessLogVersion = ''V1''"

text \<open>The commands that are answered are ASCII words.\<close>

definition upper :: "char \<Rightarrow> char" where
  "upper c = (if of_char c \<in> {97..122 :: nat} then char_of (of_char c - 32 :: nat) else c)"

definition ToUpper :: "string \<Rightarrow> string" where
  "ToUpper = map upper"

definition body_size :: "(string \<times> mcItem) list \<Rightarrow> string \<Rightarrow> int" where
  "body_size items k = (case map_of items k of Some it \<Rightarrow> int (length (item_body it)) | None \<Rightarrow> 0)"

text \<open>The command, whether it succeeded and the sizes, as the switch of \<open>writeAccessLog\<close> finds them.\<close>

definition access_fields :: "Request \<Rightarrow> Response \<Rightarrow> int \<Rightarrow> mc_err option \<Rightarrow> string \<times> string \<times> string" where
  "access_fields req resp bodySize processErr =
     (let cmd = rq_Cmd req; stat = (\<lambda>failed. if failed then ''FAILED'' else ''SUCC'') in
      if cmd \<in> set [''get'', ''gets''] then
        (if length (rq_Keys req) > 1 then
           let sizes = map (body_size (rs_Items resp)) (rq_Keys req)
           in (cmd @ ''m'', stat (sum_list sizes = 0), join '','' (map Itoa sizes))
         else
           let total = sum_list (map (\<lambda>(k, it). int (length (item_body it))) (rs_Items resp))
           in (cmd, stat (total = 0), Itoa total))
      else if cmd \<in> set [''set'', ''add'', ''replace''] then (cmd, stat (processErr \<noteq> None), Itoa bodySize)
      else (cmd, stat (processErr \<noteq> None), ''0''))"

text \<open>The line that is logged; \<open>dt\<close> is in nanoseconds and division truncates.\<close>

definition writeAccessLog :: "string \<Rightarrow> Request \<Rightarrow> Response \<Rightarrow> int \<Rightarrow> mc_err option \<Rightarrow> int \<Rightarrow> string list \<Rightarrow> string" where
  "writeAccessLog addr req resp bodySize processErr dt hosts =
     (case access_fields req resp bodySize processErr of (cmd, stat, sizeStr) \<Rightarrow>
        join '' '' [AccessLogVersion, addr, ToUpper cmd, stat, sizeStr, join '','' (if hosts = [] then [''NoWhere''] else hosts),
          Itoa (sgn dt * (\<bar>dt\<bar> div 1000)), join '' '' (rq_Keys req)])"

subsection \<open>A connection\<close>

record ServerConn =
  RemoteAddr :: string
  rwc :: bool
  sconn :: Conn

definition newServerConn :: "string \<Rightarrow> string \<Rightarrow> ServerConn" where
  "newServerConn addr input = \<lparr>RemoteAddr = addr, rwc = True,
     sconn = \<lparr>cn_in = input, cn_out = [], cn_close = False, cn_req = fresh_request\<rparr>\<rparr>"

definition conn_Close :: "ServerConn \<Rightarrow> ServerConn" where
  "conn_Close c = (if rwc c then c\<lparr>rwc := False\<rparr> else c)"

definition conn_Shutdown :: "ServerConn \<Rightarrow> ServerConn" where
  "conn_Shutdown c = c\<lparr>sconn := (sconn c)\<lparr>cn_close := True\<rparr>\<rparr>"

text \<open>How the loop of a connection goes: it returns an error or none, a turn panics or waits for a token (what a recovered panic leaves is not
  modelled), or it still runs when the clock readings given for its turns are used up.\<close>

datatype 's loop_res =
    Ended "mc_err option" Conn ReqLimiter Stats "'s \<times> BeansdbRL"
  | Stuck
  | Running

fun serve_loop ::
    "MCConfig \<Rightarrow> MemEnv \<Rightarrow> (string \<times> int) list \<Rightarrow> 's StorageClient \<Rightarrow> nat \<Rightarrow> Times list \<Rightarrow> Conn \<Rightarrow> ReqLimiter \<Rightarrow> Stats \<Rightarrow> 's \<times> BeansdbRL \<Rightarrow> 's loop_res" where
  "serve_loop mc me sys sc i ts conn rl st sd =
     (if cn_close conn then Ended None conn rl st sd
      else case ts of
        [] \<Rightarrow> Running
      | t # ts' \<Rightarrow>
          (case ServeOnce mc me sys sc t i conn rl st sd of
             None \<Rightarrow> Stuck
           | Some (Some e, conn1, rl1, st1, sd1) \<Rightarrow> Ended (Some e) conn1 rl1 st1 sd1
           | Some (None, conn1, rl1, st1, sd1) \<Rightarrow> serve_loop mc me sys sc i ts' conn1 rl1 st1 sd1))"

declare serve_loop.simps [simp del]

text \<open>\<open>ServerConn.Serve\<close>: the loop, then the connection is closed.\<close>

definition conn_Serve ::
    "MCConfig \<Rightarrow> MemEnv \<Rightarrow> (string \<times> int) list \<Rightarrow> 's StorageClient \<Rightarrow> nat \<Rightarrow> Times list \<Rightarrow> ServerConn \<Rightarrow> ReqLimiter \<Rightarrow> Stats \<Rightarrow> 's \<times> BeansdbRL
     \<Rightarrow> (mc_err option \<times> ServerConn \<times> ReqLimiter \<times> Stats \<times> 's \<times> BeansdbRL) option" where
  "conn_Serve mc me sys sc i ts c rl st sd =
     (case serve_loop mc me sys sc i ts (sconn c) rl st sd of
        Ended e conn1 rl1 st1 sd1 \<Rightarrow> Some (e, conn_Close (c\<lparr>sconn := conn1\<rparr>), rl1, st1, sd1)
      | _ \<Rightarrow> None)"

subsection \<open>The server\<close>

text \<open>Where the goroutine of a connection is: before its first section, at the head of the loop of \<open>c.Serve\<close>, in \<open>ServeOnce\<close> reading a request, in \<open>ServeOnce\<close> with
  the request read, before its second section, at its end; where
  \<open>Serve\<close> is; and whether \<open>Shutdown\<close> has set the flag and not yet notified the connections.\<close>

datatype conn_pc = Accepted | Serving | Reading | Replying read_res | Leaving | Gone

datatype main_pc = Idle | Accepting | Waiting nat | Returned

record 's mcServer =
  sv_conns :: "(string \<times> nat) list"
  sv_procs :: "nat \<rightharpoonup> conn_pc \<times> ServerConn"
  sv_stats :: Stats
  sv_rl :: ReqLimiter
  sv_store :: "'s \<times> BeansdbRL"
  sv_stop :: bool
  sv_stopping :: bool
  sv_locked :: bool
  sv_main :: main_pc

text \<open>\<open>NewServer\<close>, and the start of \<open>Serve\<close>, which makes the tokens and needs a listener.\<close>

definition NewServer :: "Stats \<Rightarrow> ReqLimiter \<Rightarrow> 's \<times> BeansdbRL \<Rightarrow> 's mcServer" where
  "NewServer st rl store = \<lparr>sv_conns = [], sv_procs = Map.empty, sv_stats = st, sv_rl = rl, sv_store = store,
     sv_stop = False, sv_stopping = False, sv_locked = False, sv_main = Idle\<rparr>"

definition sv_start :: "MCConfig \<Rightarrow> bool \<Rightarrow> 's mcServer \<Rightarrow> 's mcServer option" where
  "sv_start mc listening s =
     map_option (\<lambda>rl. s\<lparr>sv_rl := rl, sv_main := if listening then Accepting else Returned\<rparr>) (InitTokens mc)"

definition sv_accept :: "nat \<Rightarrow> string \<Rightarrow> string \<Rightarrow> 's mcServer \<Rightarrow> 's mcServer" where
  "sv_accept c addr input s = s\<lparr>sv_procs := (sv_procs s)(c \<mapsto> (Accepted, newServerConn addr input))\<rparr>"

definition sv_register :: "nat \<Rightarrow> ServerConn \<Rightarrow> 's mcServer \<Rightarrow> 's mcServer" where
  "sv_register c sc s = s\<lparr>sv_conns := AList.update (RemoteAddr sc) c (sv_conns s), sv_procs := (sv_procs s)(c \<mapsto> (Serving, sc)),
     sv_stats := (sv_stats s)\<lparr>st_curr_connections := st_curr_connections (sv_stats s) + 1, st_total_connections := st_total_connections (sv_stats s) + 1\<rparr>\<rparr>"

definition sv_unregister :: "nat \<Rightarrow> ServerConn \<Rightarrow> 's mcServer \<Rightarrow> 's mcServer" where
  "sv_unregister c sc s = s\<lparr>sv_conns := AList.delete (RemoteAddr sc) (sv_conns s), sv_procs := (sv_procs s)(c \<mapsto> (Gone, sc)),
     sv_stats := (sv_stats s)\<lparr>st_curr_connections := st_curr_connections (sv_stats s) - 1\<rparr>\<rparr>"

text \<open>The second half of \<open>Shutdown\<close>: every connection of the map is told to close.\<close>

definition sv_notify :: "'s mcServer \<Rightarrow> 's mcServer" where
  "sv_notify s = s\<lparr>sv_stopping := False,
     sv_procs := (\<lambda>c. map_option (\<lambda>(pc, sc). (pc, if c \<in> snd ` set (sv_conns s) then conn_Shutdown sc else sc)) (sv_procs s c))\<rparr>"

text \<open>A round of the loop at the end of \<open>Serve\<close>: no connection left, return with the mutex held; else sleep and look again.\<close>

definition sv_wait :: "nat \<Rightarrow> 's mcServer \<Rightarrow> 's mcServer" where
  "sv_wait i s = (if sv_conns s = [] then s\<lparr>sv_main := Returned, sv_locked := True\<rparr> else s\<lparr>sv_main := Waiting (i + 1)\<rparr>)"

text \<open>What the goroutine of \<open>HandleSignals\<close> does with a signal; the logs with an open file are reopened.\<close>

datatype sig_action = Reopen "string list" | Shutdown

definition HandleSignal :: "bool \<Rightarrow> string \<Rightarrow> string \<times> bool \<Rightarrow> string \<times> bool \<Rightarrow> sig_action" where
  "HandleSignal usr1 errorlog access analysis =
     (if usr1 then Reopen (errorlog # map fst (filter (\<lambda>(path, opened). path \<noteq> [] \<and> opened) [access, analysis])) else Shutdown)"

text \<open>The steps of the server.  Accepting fails at any time; a connection accepted after the flag is set is dropped.\<close>

inductive sv_step :: "MCConfig \<Rightarrow> MemEnv \<Rightarrow> (string \<times> int) list \<Rightarrow> 's StorageClient \<Rightarrow> 's mcServer \<Rightarrow> 's mcServer \<Rightarrow> bool"
  for mc me sys client where
  accept: "sv_main s = Accepting \<Longrightarrow> \<not> sv_stop s \<Longrightarrow> sv_procs s c = None \<Longrightarrow>
     (\<And>c' pc sc. sv_procs s c' = Some (pc, sc) \<Longrightarrow> RemoteAddr sc = addr \<Longrightarrow> \<not> rwc sc) \<Longrightarrow>
     sv_step mc me sys client s (sv_accept c addr input s)"
| accept_fails: "sv_main s = Accepting \<Longrightarrow> sv_step mc me sys client s (s\<lparr>sv_main := Returned\<rparr>)"
| accept_stopped: "sv_main s = Accepting \<Longrightarrow> sv_stop s \<Longrightarrow> sv_step mc me sys client s (s\<lparr>sv_main := Waiting 0\<rparr>)"
| register: "sv_procs s c = Some (Accepted, sc) \<Longrightarrow> \<not> sv_locked s \<Longrightarrow> sv_step mc me sys client s (sv_register c sc s)"
| turn: "sv_procs s c = Some (Serving, sc) \<Longrightarrow> \<not> cn_close (sconn sc) \<Longrightarrow>
     sv_step mc me sys client s (s\<lparr>sv_procs := (sv_procs s)(c \<mapsto> (Reading, sc))\<rparr>)"
| read: "sv_procs s c = Some (Reading, sc) \<Longrightarrow>
     req_Read mc me (t_recv (t :: Times)) (t_token t) c (cn_req (sconn sc)) (sv_rl s) (snd (sv_store s)) (cn_in (sconn sc)) = Some res \<Longrightarrow>
     sv_step mc me sys client s (s\<lparr>sv_rl := rr_rl res, sv_store := (fst (sv_store s), rr_dbrl res),
       sv_procs := (sv_procs s)(c \<mapsto> (Replying res, sc\<lparr>sconn := (sconn sc)\<lparr>cn_in := rr_rest res\<rparr>\<rparr>))\<rparr>)"
| reply: "sv_procs s c = Some (Replying res, sc) \<Longrightarrow>
     serve_reply mc sys client t c (res\<lparr>rr_rl := sv_rl s, rr_dbrl := snd (sv_store s)\<rparr>) (sconn sc) (sv_stats s) (fst (sv_store s)) =
       Some (e, conn1, rl1, st1, sd1) \<Longrightarrow>
     sv_step mc me sys client s (s\<lparr>sv_rl := rl1, sv_stats := st1, sv_store := sd1,
       sv_procs := (sv_procs s)(c \<mapsto> (if e = None then (Serving, sc\<lparr>sconn := conn1\<rparr>) else (Leaving, conn_Close (sc\<lparr>sconn := conn1\<rparr>))))\<rparr>)"
| leave: "sv_procs s c = Some (Serving, sc) \<Longrightarrow> cn_close (sconn sc) \<Longrightarrow>
     sv_step mc me sys client s (s\<lparr>sv_procs := (sv_procs s)(c \<mapsto> (Leaving, conn_Close sc))\<rparr>)"
| unregister: "sv_procs s c = Some (Leaving, sc) \<Longrightarrow> \<not> sv_locked s \<Longrightarrow> sv_step mc me sys client s (sv_unregister c sc s)"
| wait: "sv_main s = Waiting i \<Longrightarrow> i < 20 \<Longrightarrow> \<not> sv_locked s \<Longrightarrow> sv_step mc me sys client s (sv_wait i s)"
| give_up: "sv_main s = Waiting 20 \<Longrightarrow> sv_step mc me sys client s (s\<lparr>sv_main := Returned\<rparr>)"
| shutdown: "sv_step mc me sys client s (s\<lparr>sv_stop := True, sv_stopping := True\<rparr>)"
| notify: "sv_stopping s \<Longrightarrow> \<not> sv_locked s \<Longrightarrow> sv_step mc me sys client s (sv_notify s)"

inductive sv_run :: "MCConfig \<Rightarrow> MemEnv \<Rightarrow> (string \<times> int) list \<Rightarrow> 's StorageClient \<Rightarrow> 's mcServer \<Rightarrow> 's mcServer \<Rightarrow> bool"
  for mc me sys client where
  start: "sv_run mc me sys client s s"
| more: "sv_run mc me sys client s s1 \<Longrightarrow> sv_step mc me sys client s1 s2 \<Longrightarrow> sv_run mc me sys client s s2"

section \<open>A connection ends\<close>

text \<open>Reading a request takes at least a line from the input, or fails with a network error.\<close>

lemma read_body_rest: "read_body mc me len req rl d rest = Some res \<Longrightarrow> length (rr_rest res) \<le> length rest"
  by (auto simp: read_body_def Let_def split: bind_splits option.splits if_splits prod.splits)

lemma read_switch_rest:
  assumes "read_switch mc me now ed i parts req rl d rest = Some res"
  shows "length (rr_rest res) \<le> length rest"
  using assms unfolding read_switch_def Let_def
  by (auto split: if_splits bind_splits sum.splits prod.splits dest: read_body_rest)

lemma req_Read_rest:
  assumes "req_Read mc me now ed i req0 rl d input = Some res" "rr_err res \<noteq> Some ErrNetworkError"
  shows "length (rr_rest res) < length input"
  using assms unfolding req_Read_def Let_def
  by (auto split: option.splits if_splits bind_splits dest!: read_line_shorter read_switch_rest)

lemma serve_answer_network:
  "rr_err res = Some ErrNetworkError \<Longrightarrow> serve_answer mc sys sc t res st s = Some (resp, err, late, req, rl, st1, s1, d1) \<Longrightarrow> resp = None"
  by (auto simp: serve_answer_def Let_def split: prod.splits)

lemma ServeOnce_consumes:
  assumes "ServeOnce mc me sys sc t i conn rl st sd = Some (e, conn1, rl1, st1, sd1)" "\<not> cn_close conn1"
  shows "length (cn_in conn1) < length (cn_in conn)"
proof -
  obtain res where r: "req_Read mc me (t_recv t) (t_token t) i (cn_req conn) rl (snd sd) (cn_in conn) = Some res"
    using assms(1) by (auto simp: ServeOnce_def split: bind_splits)
  obtain resp err late req rl2 st2 s2 d2 where a: "serve_answer mc sys sc t res st (fst sd) = Some (resp, err, late, req, rl2, st2, s2, d2)"
    using assms(1) r by (auto simp: ServeOnce_def serve_reply_def split: bind_splits)
  have out: "cn_in conn1 = rr_rest res" and "resp \<noteq> None"
    using assms r a by (auto simp: ServeOnce_def serve_reply_def Let_def split: bind_splits option.splits if_splits)
  then show ?thesis using req_Read_rest [OF r] serve_answer_network [OF _ a] by auto
qed

lemma serve_loop_ends:
  "length (cn_in conn) < length ts \<Longrightarrow> serve_loop mc me sys sc i ts conn rl st sd \<noteq> Running"
proof (induction ts arbitrary: conn rl st sd)
  case (Cons t ts)
  show ?case
  proof (cases "ServeOnce mc me sys sc t i conn rl st sd")
    case None
    then show ?thesis by (simp add: serve_loop.simps [where ts = "t # ts"])
  next
    case (Some r)
    then obtain e conn1 rl1 st1 sd1 where r: "ServeOnce mc me sys sc t i conn rl st sd = Some (e, conn1, rl1, st1, sd1)" by (cases r) auto
    show ?thesis
    proof (cases "cn_close conn1")
      case True
      then show ?thesis using r by (simp add: serve_loop.simps [where ts = "t # ts"] serve_loop.simps [where ts = ts] split: option.splits)
    next
      case False
      then have "length (cn_in conn1) < length ts" using ServeOnce_consumes [OF r] Cons.prems by simp
      from Cons.IH [OF this] show ?thesis using r by (simp add: serve_loop.simps [where ts = "t # ts"] split: option.splits)
    qed
  qed
qed simp

lemma serve_loop_closed: "serve_loop mc me sys sc i ts conn rl st sd = Ended None conn1 rl1 st1 sd1 \<Longrightarrow> cn_close conn1"
proof (induction ts arbitrary: conn rl st sd)
  case Nil
  then show ?case by (auto simp: serve_loop.simps [where ts = "[]"] split: if_splits)
next
  case (Cons t ts)
  then show ?case by (auto simp: serve_loop.simps [where ts = "t # ts"] split: if_splits option.splits)
qed

section \<open>What the server counts\<close>

text \<open>A turn does not touch the counters of connections.\<close>

definition conn_counts :: "Stats \<Rightarrow> int \<times> int" where
  "conn_counts st = (st_curr_connections st, st_total_connections st)"

lemma conn_counts_upd [simp]:
  "conn_counts (st\<lparr>st_cmd_get := x\<rparr>) = conn_counts st" "conn_counts (st\<lparr>st_cmd_set := x\<rparr>) = conn_counts st"
  "conn_counts (st\<lparr>st_cmd_delete := x\<rparr>) = conn_counts st" "conn_counts (st\<lparr>st_get_hits := x\<rparr>) = conn_counts st"
  "conn_counts (st\<lparr>st_get_misses := x\<rparr>) = conn_counts st" "conn_counts (st\<lparr>st_bytes_read := x\<rparr>) = conn_counts st"
  "conn_counts (st\<lparr>st_bytes_written := x\<rparr>) = conn_counts st" "conn_counts (st\<lparr>st_slow_cmd := x\<rparr>) = conn_counts st"
  by (simp_all add: conn_counts_def)

lemma Process_counts:
  assumes "Process mc sys sc req st sd = Some (r, st1, sd1)"
  shows "conn_counts st1 = conn_counts st"
  using assms unfolding Process_def Let_def
  by (auto simp: process_get_def process_set_def process_append_def process_incr_def process_delete_def process_stats_def count_set_def Let_def
      split: if_splits bind_splits option.splits sum.splits prod.splits)

lemma serve_reply_counts:
  assumes "serve_reply mc sys sc t i res conn st s = Some (e, conn1, rl1, st1, sd1)"
  shows "conn_counts st1 = conn_counts st"
proof -
  have "conn_counts st2 = conn_counts st" if "serve_answer mc sys sc t res st s = Some (resp, err, late, req, rl2, st2, s2, d2)" for resp err late req rl2 st2 s2 d2
    using that by (auto simp: serve_answer_def Let_def split: if_splits option.splits prod.splits bind_splits dest: Process_counts)
  then show ?thesis using assms by (auto simp: serve_reply_def Let_def split: bind_splits option.splits if_splits)
qed

text \<open>The answer leaves the input alone, never takes back a request to close, and writes one response or nothing.\<close>

lemma serve_reply_out:
  assumes "serve_reply mc sys sc t i res conn st s = Some (e, conn1, rl1, st1, sd1)"
  shows "cn_in conn1 = cn_in conn" "cn_close conn \<Longrightarrow> cn_close conn1"
    "cn_out conn1 = cn_out conn \<or> (\<exists>r out. resp_Write r = Some out \<and> cn_out conn1 = cn_out conn @ out)"
proof -
  obtain resp err late req rl2 st2 s2 d2 where a: "serve_answer mc sys sc t res st s = Some (resp, err, late, req, rl2, st2, s2, d2)"
    using assms by (auto simp: serve_reply_def split: bind_splits)
  have "cn_in conn1 = cn_in conn \<and> (cn_close conn \<longrightarrow> cn_close conn1) \<and>
      (cn_out conn1 = cn_out conn \<or> (\<exists>r out. resp_Write r = Some out \<and> cn_out conn1 = cn_out conn @ out))"
  proof (cases resp)
    case None
    with assms a show ?thesis by (auto simp: serve_reply_def split: bind_splits)
  next
    case (Some r)
    consider (quiet) "rs_Noreply r" | (late) "\<not> rs_Noreply r" "\<not> late" "overdue mc (rq_ReceiveTime req) (t_done t)"
      | (written) "\<not> rs_Noreply r" "\<not> (\<not> late \<and> overdue mc (rq_ReceiveTime req) (t_done t))" by blast
    then show ?thesis
    proof cases
      case written
      with assms a Some obtain out where "resp_Write r = Some out" by (auto simp: serve_reply_def split: bind_splits)
      with assms a Some written show ?thesis by (auto simp: serve_reply_def split: bind_splits)
    qed (use assms a Some in \<open>auto simp: serve_reply_def split: bind_splits\<close>)
  qed
  then show "cn_in conn1 = cn_in conn" "cn_close conn \<Longrightarrow> cn_close conn1"
    "cn_out conn1 = cn_out conn \<or> (\<exists>r out. resp_Write r = Some out \<and> cn_out conn1 = cn_out conn @ out)" by blast+
qed

text \<open>The state of the connections as the counters and the map see it: where each goroutine is, and its address.\<close>

definition proc_view :: "(nat \<rightharpoonup> conn_pc \<times> ServerConn) \<Rightarrow> nat \<rightharpoonup> conn_pc \<times> string" where
  "proc_view ps c = map_option (\<lambda>(pc, sc). (pc, RemoteAddr sc)) (ps c)"

definition running :: "(nat \<rightharpoonup> conn_pc \<times> string) \<Rightarrow> nat set" where
  "running v = {c. \<exists>pc a. v c = Some (pc, a) \<and> pc \<noteq> Accepted \<and> pc \<noteq> Gone}"

definition registered :: "(nat \<rightharpoonup> conn_pc \<times> string) \<Rightarrow> nat set" where
  "registered v = {c. \<exists>pc a. v c = Some (pc, a) \<and> pc \<noteq> Accepted}"

definition users :: "(nat \<rightharpoonup> conn_pc \<times> string) \<Rightarrow> string \<Rightarrow> nat set" where
  "users v a = {c. \<exists>pc. v c = Some (pc, a)}"

text \<open>Every entry of the map is a running connection at its address; a running connection is in the map, or its address was used twice.\<close>

definition map_ok :: "(nat \<rightharpoonup> conn_pc \<times> string) \<Rightarrow> (string \<rightharpoonup> nat) \<Rightarrow> bool" where
  "map_ok v m \<longleftrightarrow> (\<forall>a c. m a = Some c \<longrightarrow> c \<in> running v \<inter> users v a) \<and>
     (\<forall>a c. c \<in> running v \<inter> users v a \<longrightarrow> m a = Some c \<or> users v a \<noteq> {c})"

definition view_ok :: "(nat \<rightharpoonup> conn_pc \<times> string) \<Rightarrow> (string \<times> nat) list \<Rightarrow> int \<times> int \<Rightarrow> bool" where
  "view_ok v conns cnt \<longleftrightarrow> finite (dom v) \<and> cnt = (int (card (running v)), int (card (registered v))) \<and> distinct (map fst conns) \<and>
     map_ok v (map_of conns)"

lemma view_upd:
  "running (v(c \<mapsto> (pc, a))) = (if pc \<noteq> Accepted \<and> pc \<noteq> Gone then insert c (running v) else running v - {c})"
  "registered (v(c \<mapsto> (pc, a))) = (if pc \<noteq> Accepted then insert c (registered v) else registered v - {c})"
  "users (v(c \<mapsto> (pc, a))) b = (if b = a then insert c (users v b) else users v b - {c})"
  by (auto simp: running_def registered_def users_def)

lemma view_finite:
  assumes "finite (dom v)"
  shows "finite (running v)" "finite (registered v)"
  by (rule finite_subset [OF _ assms], auto simp: running_def registered_def)+

lemma view_mem:
  "v c = None \<Longrightarrow> c \<notin> running v \<and> c \<notin> registered v \<and> c \<notin> users v b"
  "v c = Some (pc, a) \<Longrightarrow> (c \<in> running v \<longleftrightarrow> pc \<noteq> Accepted \<and> pc \<noteq> Gone) \<and> (c \<in> registered v \<longleftrightarrow> pc \<noteq> Accepted) \<and> (c \<in> users v b \<longleftrightarrow> b = a)"
  by (auto simp: running_def registered_def users_def)

lemma map_ok_accept: "map_ok v m \<Longrightarrow> v c = None \<Longrightarrow> map_ok (v(c \<mapsto> (Accepted, a))) m"
  using view_mem(1) [of v c] unfolding map_ok_def view_upd by auto

lemma map_ok_register: "map_ok v m \<Longrightarrow> v c = Some (Accepted, a) \<Longrightarrow> map_ok (v(c \<mapsto> (Serving, a))) (m(a \<mapsto> c))"
  using view_mem(2) [of v c Accepted a] unfolding map_ok_def view_upd by auto

lemma map_ok_move:
  assumes "map_ok v m" "v c = Some (pc, a)" "pc \<noteq> Accepted" "pc \<noteq> Gone" "pc' \<noteq> Accepted" "pc' \<noteq> Gone"
  shows "map_ok (v(c \<mapsto> (pc', a))) m"
proof -
  have "running (v(c \<mapsto> (pc', a))) = running v" "users (v(c \<mapsto> (pc', a))) b = users v b" for b
    using view_mem(2) [of v c pc a] assms(2-6) by (auto simp: view_upd)
  then show ?thesis using assms(1) by (simp add: map_ok_def)
qed

lemma map_ok_unregister: "map_ok v m \<Longrightarrow> v c = Some (Leaving, a) \<Longrightarrow> map_ok (v(c \<mapsto> (Gone, a))) (m(a := None))"
  using view_mem(2) [of v c Leaving a] unfolding map_ok_def view_upd by auto

lemma view_accept: "view_ok v conns cnt \<Longrightarrow> v c = None \<Longrightarrow> view_ok (v(c \<mapsto> (Accepted, a))) conns cnt"
  using view_mem(1) [of v c] map_ok_accept [of v _ c] by (simp add: view_ok_def view_upd)

lemma view_register: "view_ok v conns (x, y) \<Longrightarrow> v c = Some (Accepted, a) \<Longrightarrow> view_ok (v(c \<mapsto> (Serving, a))) (AList.update a c conns) (x + 1, y + 1)"
  using view_mem(2) [of v c Accepted a] map_ok_register [of v _ c] view_finite [of v] by (simp add: view_ok_def view_upd update_conv' distinct_update)

lemma view_move:
  assumes "view_ok v conns cnt" "v c = Some (pc, a)" "pc \<noteq> Accepted" "pc \<noteq> Gone" "pc' \<noteq> Accepted" "pc' \<noteq> Gone"
  shows "view_ok (v(c \<mapsto> (pc', a))) conns cnt"
  using assms view_mem(2) [of v c pc a] map_ok_move [of v _ c pc a pc'] by (simp add: view_ok_def view_upd insert_absorb)

lemma view_unregister:
  assumes "view_ok v conns (x, y)" "v c = Some (Leaving, a)"
  shows "view_ok (v(c \<mapsto> (Gone, a))) (AList.delete a conns) (x - 1, y)"
proof -
  have c: "c \<in> running v" "c \<in> registered v" using view_mem(2) [of v c Leaving a] assms(2) by auto
  then have "1 \<le> card (running v)" using assms(1) view_finite [of v] by (auto simp: view_ok_def Suc_le_eq card_gt_0_iff)
  then show ?thesis using assms c map_ok_unregister [of v _ c] by (simp add: view_ok_def view_upd insert_absorb delete_conv' distinct_delete of_nat_diff)
qed

definition sv_ok :: "'s mcServer \<Rightarrow> bool" where
  "sv_ok s \<longleftrightarrow> view_ok (proc_view (sv_procs s)) (sv_conns s) (conn_counts (sv_stats s))"

lemma proc_view_upd [simp]: "proc_view (ps(c \<mapsto> (pc, sc))) = (proc_view ps)(c \<mapsto> (pc, RemoteAddr sc))"
  by (auto simp: proc_view_def)

lemma sv_conns_notify: "sv_conns (sv_notify s) = sv_conns s" "sv_stats (sv_notify s) = sv_stats s"
  by (simp_all add: sv_notify_def)

text \<open>Every step keeps the invariant.\<close>

lemma proc_view_notify [simp]: "proc_view (sv_procs (sv_notify s)) = proc_view (sv_procs s)"
  by (auto simp: proc_view_def sv_notify_def conn_Shutdown_def fun_eq_iff option.map_comp intro!: option.map_cong)

lemma proc_viewI: "sv_procs s c = Some (pc, sc) \<Longrightarrow> proc_view (sv_procs s) c = Some (pc, RemoteAddr sc)"
  by (simp add: proc_view_def)

lemma conn_Close_addr [simp]: "RemoteAddr (conn_Close sc) = RemoteAddr sc" "sconn (conn_Close sc) = sconn sc" "\<not> rwc (conn_Close sc)"
  by (auto simp: conn_Close_def)

lemma sv_step_ok: "sv_step mc me sys client s s' \<Longrightarrow> sv_ok s \<Longrightarrow> sv_ok s'"
proof (induction rule: sv_step.induct)
  case (accept s c addr input)
  then have "proc_view (sv_procs s) c = None" by (simp add: proc_view_def)
  then show ?case using view_accept [of "proc_view (sv_procs s)" "sv_conns s" "conn_counts (sv_stats s)" c addr] accept by (simp add: sv_ok_def sv_accept_def newServerConn_def)
next
  case (register s c sc)
  then show ?case using view_register [of "proc_view (sv_procs s)" "sv_conns s" _ _ c "RemoteAddr sc"] proc_viewI [OF register(1)]
    by (simp add: sv_ok_def sv_register_def conn_counts_def)
next
  case (turn s c sc)
  then show ?case using view_move [of "proc_view (sv_procs s)" "sv_conns s" _ c Serving "RemoteAddr sc" Reading] proc_viewI [OF turn(1)] by (simp add: sv_ok_def)
next
  case (read s c sc t res)
  then show ?case using view_move [of "proc_view (sv_procs s)" "sv_conns s" _ c Reading "RemoteAddr sc" "Replying res"] proc_viewI [OF read(1)] by (simp add: sv_ok_def)
next
  case (reply s c res sc t e conn1 rl1 st1 sd1)
  then show ?case using view_move [of "proc_view (sv_procs s)" "sv_conns s" _ c "Replying res" "RemoteAddr sc"] proc_viewI [OF reply(1)] serve_reply_counts [OF reply(2)]
    by (simp add: sv_ok_def)
next
  case (leave s c sc)
  then show ?case using view_move [of "proc_view (sv_procs s)" "sv_conns s" _ c Serving "RemoteAddr sc" Leaving] proc_viewI [OF leave(1)] by (simp add: sv_ok_def)
next
  case (unregister s c sc)
  then show ?case using view_unregister [of "proc_view (sv_procs s)" "sv_conns s" _ _ c "RemoteAddr sc"] proc_viewI [OF unregister(1)]
    by (simp add: sv_ok_def sv_unregister_def conn_counts_def)
qed (auto simp: sv_ok_def sv_wait_def sv_conns_notify)

lemma sv_run_ok: "sv_run mc me sys client s s' \<Longrightarrow> sv_ok s \<Longrightarrow> sv_ok s'"
  by (induction rule: sv_run.induct) (auto intro: sv_step_ok)

lemma sv_start_ok: "sv_start mc True (NewServer zero_stats rl store) = Some s0 \<Longrightarrow> sv_ok s0"
  by (auto simp: sv_start_def NewServer_def sv_ok_def view_ok_def map_ok_def running_def registered_def proc_view_def [abs_def] conn_counts_def zero_stats_def)

section \<open>Shutting down\<close>

text \<open>What a connection that is told to close still does: it ends the turn it is in, if any, and takes no other.  \<open>pc0\<close> and \<open>conn0\<close> are its state when it was told.\<close>

definition in_turn :: "conn_pc \<Rightarrow> bool" where
  "in_turn pc \<longleftrightarrow> (case pc of Reading \<Rightarrow> True | Replying _ \<Rightarrow> True | _ \<Rightarrow> False)"

lemma in_turn_simps [simp]: "in_turn Reading" "in_turn (Replying res)" "\<not> in_turn Serving" "\<not> in_turn Accepted" "\<not> in_turn Leaving" "\<not> in_turn Gone"
  by (simp_all add: in_turn_def)

definition one_read :: "MCConfig \<Rightarrow> MemEnv \<Rightarrow> nat \<Rightarrow> Conn \<Rightarrow> string \<Rightarrow> bool" where
  "one_read mc me c conn0 rest \<longleftrightarrow> (\<exists>(t :: Times) rl d res. req_Read mc me (t_recv t) (t_token t) c (cn_req conn0) rl d (cn_in conn0) = Some res \<and> rest = rr_rest res)"

definition last_turn :: "MCConfig \<Rightarrow> MemEnv \<Rightarrow> nat \<Rightarrow> conn_pc \<Rightarrow> Conn \<Rightarrow> conn_pc \<times> ServerConn \<Rightarrow> bool" where
  "last_turn mc me c pc0 conn0 p \<longleftrightarrow> (case p of (pc, sc) \<Rightarrow> cn_close (sconn sc) \<and> pc \<noteq> Accepted \<and> (in_turn pc \<longrightarrow> in_turn pc0) \<and>
     (pc = Reading \<longrightarrow> pc0 = Reading \<and> cn_in (sconn sc) = cn_in conn0 \<and> cn_req (sconn sc) = cn_req conn0) \<and>
     (cn_in (sconn sc) = cn_in conn0 \<or> pc0 = Reading \<and> one_read mc me c conn0 (cn_in (sconn sc))) \<and>
     (cn_out (sconn sc) = cn_out conn0 \<or> in_turn pc0 \<and> \<not> in_turn pc \<and> (\<exists>r out. resp_Write r = Some out \<and> cn_out (sconn sc) = cn_out conn0 @ out)))"

definition closing :: "MCConfig \<Rightarrow> MemEnv \<Rightarrow> nat \<Rightarrow> conn_pc \<Rightarrow> Conn \<Rightarrow> 's mcServer \<Rightarrow> bool" where
  "closing mc me c pc0 conn0 s \<longleftrightarrow> pred_option (last_turn mc me c pc0 conn0) (sv_procs s c) \<and> sv_procs s c \<noteq> None"

lemma last_turn_notified: "last_turn mc me c pc0 conn0 (pc, conn_Shutdown sc) = last_turn mc me c pc0 conn0 (pc, sc)" if "cn_close (sconn sc)"
  using that by (simp add: last_turn_def conn_Shutdown_def)

lemma last_turn_read:
  assumes "last_turn mc me c pc0 conn0 (Reading, sc)"
    and "req_Read mc me (t_recv (t :: Times)) (t_token t) c (cn_req (sconn sc)) rl d (cn_in (sconn sc)) = Some res"
  shows "last_turn mc me c pc0 conn0 (Replying res', sc\<lparr>sconn := (sconn sc)\<lparr>cn_in := rr_rest res\<rparr>\<rparr>)"
proof -
  have "one_read mc me c conn0 (rr_rest res)" using assms by (fastforce simp: last_turn_def one_read_def)
  then show ?thesis using assms(1) by (simp add: last_turn_def)
qed

lemma last_turn_reply:
  assumes "last_turn mc me c pc0 conn0 (Replying res', sc)"
    and "serve_reply mc sys client t c res (sconn sc) st s = Some (e, conn1, rl1, st1, sd1)"
  shows "last_turn mc me c pc0 conn0 (Serving, sc\<lparr>sconn := conn1\<rparr>)" "last_turn mc me c pc0 conn0 (Leaving, conn_Close (sc\<lparr>sconn := conn1\<rparr>))"
  using assms(1) serve_reply_out [OF assms(2)] by (auto simp: last_turn_def)

lemma closing_step:
  assumes "sv_step mc me sys client s s'" "closing mc me c pc0 conn0 s"
  shows "closing mc me c pc0 conn0 s'"
  using assms
proof (induction rule: sv_step.induct)
  case (read s c' sc t res)
  then show ?case using last_turn_read [of mc me c pc0 conn0 sc] by (cases "c' = c") (auto simp: closing_def)
next
  case (reply s c' res sc t e conn1 rl1 st1 sd1)
  show ?case
  proof (cases "c' = c")
    case True
    with reply(1,3) have "last_turn mc me c pc0 conn0 (Replying res, sc)" by (simp add: closing_def)
    from last_turn_reply [OF this reply(2) [unfolded True]] True show ?thesis by (simp add: closing_def)
  qed (use reply(3) in \<open>simp add: closing_def\<close>)
next
  case (notify s)
  then show ?case using last_turn_notified [of _ mc me c pc0 conn0] by (auto simp: closing_def sv_notify_def last_turn_def conn_Shutdown_def)
next
  case (unregister s c' sc)
  then show ?case by (cases "c' = c") (auto simp: closing_def sv_unregister_def last_turn_def)
next
  case (leave s c' sc)
  then show ?case by (cases "c' = c") (auto simp: closing_def last_turn_def)
qed (auto simp: closing_def last_turn_def sv_accept_def sv_register_def sv_wait_def)

lemma closing_run: "sv_run mc me sys client s s' \<Longrightarrow> closing mc me c pc0 conn0 s \<Longrightarrow> closing mc me c pc0 conn0 s'"
  by (induction rule: sv_run.induct) (auto intro: closing_step)

lemma notified:
  assumes "sv_ok s" "sv_procs s c = Some (pc, sc)" "pc = Serving \<or> in_turn pc" "users (proc_view (sv_procs s)) (RemoteAddr sc) = {c}"
  shows "closing mc me c pc (sconn sc) (sv_notify s)"
proof -
  have v: "proc_view (sv_procs s) c = Some (pc, RemoteAddr sc)" by (rule proc_viewI [OF assms(2)])
  have pc: "pc \<noteq> Accepted" "pc \<noteq> Gone" using assms(3) by auto
  have "map_of (sv_conns s) (RemoteAddr sc) = Some c"
    using assms(1,4) view_mem(2) [of "proc_view (sv_procs s)" c pc "RemoteAddr sc"] v pc unfolding sv_ok_def view_ok_def map_ok_def by blast
  from map_of_SomeD [OF this] have "c \<in> snd ` set (sv_conns s)" by force
  then show ?thesis using assms(2,3) by (auto simp: closing_def last_turn_def sv_notify_def conn_Shutdown_def)
qed

text \<open>With the mutex held for ever, nothing that needs it happens.\<close>

lemma locked_step:
  "sv_step mc me sys client s s' \<Longrightarrow> sv_locked s \<Longrightarrow> sv_locked s' \<and> sv_conns s' = sv_conns s \<and> conn_counts (sv_stats s') = conn_counts (sv_stats s) \<and>
     (sv_procs s c = Some (Accepted, sc) \<longrightarrow> sv_procs s' c = Some (Accepted, sc))"
  by (induction rule: sv_step.induct) (auto simp: sv_accept_def dest: serve_reply_counts)

lemma locked_run:
  "sv_run mc me sys client s s' \<Longrightarrow> sv_locked s \<Longrightarrow> sv_locked s' \<and> sv_conns s' = sv_conns s \<and> conn_counts (sv_stats s') = conn_counts (sv_stats s) \<and>
     (sv_procs s c = Some (Accepted, sc) \<longrightarrow> sv_procs s' c = Some (Accepted, sc))"
  by (induction rule: sv_run.induct) (auto dest: locked_step)

section \<open>Properties\<close>

text \<open>C31: a connection ends.  A turn that does not close the connection takes at least a line of its input, so given more clock readings than
  its input has bytes, the loop of a connection does not run on: it returns, unless a turn panics or waits for a token.  When it returns without
  an error the connection was told to close.\<close>

theorem connection_ends:
  assumes "length (cn_in (sconn c)) < length ts"
  shows "serve_loop mc me sys sc i ts (sconn c) rl st sd \<noteq> Running \<and>
    (serve_loop mc me sys sc i ts (sconn c) rl st sd \<noteq> Stuck \<longrightarrow>
      (\<exists>e c1 rl1 st1 sd1. conn_Serve mc me sys sc i ts c rl st sd = Some (e, c1, rl1, st1, sd1) \<and> \<not> rwc c1 \<and> (e = None \<longrightarrow> cn_close (sconn c1))))"
proof (intro conjI impI)
  show r: "serve_loop mc me sys sc i ts (sconn c) rl st sd \<noteq> Running" by (rule serve_loop_ends [OF assms])
  assume "serve_loop mc me sys sc i ts (sconn c) rl st sd \<noteq> Stuck"
  with r obtain e conn1 rl1 st1 sd1 where e: "serve_loop mc me sys sc i ts (sconn c) rl st sd = Ended e conn1 rl1 st1 sd1"
    by (cases "serve_loop mc me sys sc i ts (sconn c) rl st sd") auto
  then show "\<exists>e c1 rl1 st1 sd1. conn_Serve mc me sys sc i ts c rl st sd = Some (e, c1, rl1, st1, sd1) \<and> \<not> rwc c1 \<and> (e = None \<longrightarrow> cn_close (sconn c1))"
    using serve_loop_closed by (fastforce simp: conn_Serve_def)
qed

text \<open>C32: what the server counts.  In every reachable state the number of current connections is the number of goroutines between their two
  sections, the total the number that ever passed the first; the map of connections has at most one entry per running connection, under its address.\<close>

theorem connections_counted:
  assumes "sv_start mc True (NewServer zero_stats rl store) = Some s0" "sv_run mc me sys client s0 s"
  shows "st_curr_connections (sv_stats s) = int (card (running (proc_view (sv_procs s)))) \<and>
    st_total_connections (sv_stats s) = int (card (registered (proc_view (sv_procs s)))) \<and>
    (map_of (sv_conns s) a = Some c \<longrightarrow> c \<in> running (proc_view (sv_procs s)) \<inter> users (proc_view (sv_procs s)) a) \<and>
    int (length (sv_conns s)) \<le> st_curr_connections (sv_stats s)"
proof (intro conjI impI)
  have ok: "view_ok (proc_view (sv_procs s)) (sv_conns s) (conn_counts (sv_stats s))" using sv_run_ok [OF assms(2) sv_start_ok [OF assms(1)]] by (simp add: sv_ok_def)
  show c: "st_curr_connections (sv_stats s) = int (card (running (proc_view (sv_procs s))))" "st_total_connections (sv_stats s) = int (card (registered (proc_view (sv_procs s))))"
    using ok by (simp_all add: view_ok_def conn_counts_def)
  show "c \<in> running (proc_view (sv_procs s)) \<inter> users (proc_view (sv_procs s)) a" if "map_of (sv_conns s) a = Some c"
    using ok that unfolding view_ok_def map_ok_def by blast
  have m: "(a, c) \<in> set (sv_conns s) \<Longrightarrow> c \<in> running (proc_view (sv_procs s)) \<and> c \<in> users (proc_view (sv_procs s)) a" for a c
    using ok unfolding view_ok_def map_ok_def by (auto dest: map_of_is_SomeI)
  have "distinct (map snd (sv_conns s))" unfolding distinct_map
  proof (intro conjI inj_onI)
    show "distinct (sv_conns s)" using ok by (simp add: view_ok_def distinct_map)
    fix p q assume p: "p \<in> set (sv_conns s)" "q \<in> set (sv_conns s)" "snd p = snd q"
    then have "(fst p, snd p) \<in> set (sv_conns s)" "(fst q, snd p) \<in> set (sv_conns s)" by (metis prod.collapse)+
    from m [OF this(1)] m [OF this(2)] have "fst p = fst q" by (auto simp: users_def)
    with p(3) show "p = q" by (simp add: prod_eq_iff)
  qed
  moreover have "set (map snd (sv_conns s)) \<subseteq> running (proc_view (sv_procs s))" using m by auto
  moreover have "finite (running (proc_view (sv_procs s)))" using ok by (auto simp: view_ok_def intro: view_finite)
  ultimately have "length (map snd (sv_conns s)) \<le> card (running (proc_view (sv_procs s)))" by (metis card_mono distinct_card)
  then show "int (length (sv_conns s)) \<le> st_curr_connections (sv_stats s)" using c(1) by simp
qed

text \<open>C33: shutting down.  When \<open>Shutdown\<close> notifies the connections, every connection that is in the loop of \<open>c.Serve\<close> and whose address no other connection has
  had is told to close.  Whatever happens afterwards, a connection that was at the head of the loop reads and answers nothing more; one that was inside \<open>ServeOnce\<close> (the flag is tested only at the head of the loop)
  ends that turn: it reads at most the one request it was waiting for and writes at most one response.\<close>

theorem shutdown_ends_turn:
  assumes "sv_start mc True (NewServer zero_stats rl store) = Some s0" "sv_run mc me sys client s0 s"
    and "sv_procs s c = Some (pc, sc)" "pc = Serving \<or> in_turn pc" "users (proc_view (sv_procs s)) (RemoteAddr sc) = {c}"
    and "sv_run mc me sys client (sv_notify s) s'"
  shows "\<exists>pc' sc'. sv_procs s' c = Some (pc', sc') \<and> cn_close (sconn sc') \<and>
    (cn_in (sconn sc') = cn_in (sconn sc) \<or> pc = Reading \<and> one_read mc me c (sconn sc) (cn_in (sconn sc'))) \<and>
    (cn_out (sconn sc') = cn_out (sconn sc) \<or> in_turn pc \<and> (\<exists>r out. resp_Write r = Some out \<and> cn_out (sconn sc') = cn_out (sconn sc) @ out))"
proof -
  have "closing mc me c pc (sconn sc) s'" by (rule closing_run [OF assms(6) notified [OF sv_run_ok [OF assms(2) sv_start_ok [OF assms(1)]] assms(3-5)]])
  then obtain pc' sc' where p: "sv_procs s' c = Some (pc', sc')" "last_turn mc me c pc (sconn sc) (pc', sc')" by (auto simp: closing_def)
  then show ?thesis unfolding last_turn_def prod.case by blast
qed

text \<open>C34: the server returns with its mutex held.  When the waiting loop of \<open>Serve\<close> finds no connection it returns without unlocking: from then on the
  map and the counters of connections never change, and a connection that was accepted and is not yet registered is never served.\<close>

theorem serve_returns_locked:
  assumes "sv_main s = Waiting i" "sv_conns s = []" "sv_run mc me sys client (sv_wait i s) s'"
  shows "sv_main (sv_wait i s) = Returned \<and> sv_locked s' \<and> sv_conns s' = [] \<and> conn_counts (sv_stats s') = conn_counts (sv_stats s) \<and>
    (sv_procs s c = Some (Accepted, sc) \<longrightarrow> sv_procs s' c = Some (Accepted, sc))"
proof -
  have w: "sv_main (sv_wait i s) = Returned" "sv_locked (sv_wait i s)" "sv_conns (sv_wait i s) = []" "sv_procs (sv_wait i s) = sv_procs s"
      "sv_stats (sv_wait i s) = sv_stats s"
    using assms(2) by (simp_all add: sv_wait_def)
  from locked_run [OF assms(3) w(2), of c sc] w show ?thesis by simp
qed

section \<open>Concrete runs\<close>

definition sample_client :: "mapStore StorageClient" where
  "sample_client = map_client (\<lambda>_ _. []) default_mc roomy_mem 1"

definition sample_server :: "mapStore mcServer" where
  "sample_server = NewServer zero_stats (NewReqLimiter 0) (NewMapStore, ResetAll)"

definition sample_started :: "mapStore mcServer" where
  "sample_started = sample_server\<lparr>sv_rl := NewReqLimiter 16, sv_main := Accepting\<rparr>"

lemma sample_start: "sv_start default_mc True (NewServer zero_stats (NewReqLimiter 0) (NewMapStore, ResetAll)) = Some sample_started"
  by (simp add: sv_start_def sample_started_def sample_server_def InitTokens_def default_mc_def)

text \<open>A connection whose peer has left is closed in its first turn.\<close>

definition eof_res :: "ReqLimiter \<Rightarrow> BeansdbRL \<Rightarrow> read_res" where
  "eof_res rl d = \<lparr>rr_err = Some ErrNetworkError, rr_req = fresh_request, rr_rl = rl, rr_dbrl = d, rr_rest = []\<rparr>"

lemma read_eof: "req_Read mc me now ed i fresh_request rl d [] = Some (eof_res rl d)"
  by (simp add: req_Read_def read_line_def eof_res_def)

lemma reply_eof:
  "serve_reply mc sys client t i (eof_res rl d) (sconn (newServerConn a [])) st s =
     Some (None, (sconn (newServerConn a []))\<lparr>cn_close := True\<rparr>, rl, st, s, d)"
  by (simp add: serve_reply_def newServerConn_def eof_res_def serve_answer_def free_item_def serve_end_def Let_def fresh_request_def req_Clear_def)

lemma eof_upd: "eof_res rl d\<lparr>rr_rl := rl', rr_dbrl := d'\<rparr> = eof_res rl' d'"
  by (simp add: eof_res_def)

lemma turn_eof:
  "ServeOnce mc me sys client t i (sconn (newServerConn a [])) rl st sd =
     Some (None, (sconn (newServerConn a []))\<lparr>cn_close := True\<rparr>, rl, st, sd)"
  using read_eof [of mc me "t_recv t" "t_token t" i rl "snd sd"] reply_eof [of mc sys client t i rl "snd sd" a st "fst sd"]
  by (simp add: ServeOnce_def newServerConn_def eof_res_def)

definition peer :: "ServerConn" where "peer = newServerConn ''10.0.0.7:4711'' []"

definition served_one :: "mapStore mcServer" where
  "served_one = sv_register 0 peer (sv_accept 0 ''10.0.0.7:4711'' [] sample_started)"

lemmas server_simps = sample_started_def sample_server_def NewServer_def sv_accept_def sv_register_def sv_unregister_def sv_wait_def sv_notify_def
  peer_def newServerConn_def conn_Close_def

lemma run_served_one: "sv_run default_mc roomy_mem [] sample_client sample_started served_one"
  unfolding served_one_def
proof (rule sv_run.more [OF sv_run.more [OF sv_run.start] sv_step.register])
  show "sv_step default_mc roomy_mem [] sample_client sample_started (sv_accept 0 ''10.0.0.7:4711'' [] sample_started)"
    by (rule sv_step.accept) (simp_all add: server_simps)
qed (simp_all add: server_simps)

lemma served_one_state:
  "sv_procs served_one = [0 \<mapsto> (Serving, peer)]" "sv_conns served_one = [(''10.0.0.7:4711'', 0)]" "RemoteAddr peer = ''10.0.0.7:4711''"
  "\<not> sv_locked served_one" "\<not> sv_stop served_one" "sv_main served_one = Accepting"
  by (simp_all add: served_one_def server_simps)

text \<open>C35: the address of a closed connection can be in use again before its goroutine has left the map; leaving then removes the entry of the new
  connection.  In a reachable state a connection is served, open and not in the map: a shutdown does not tell it to close, and \<open>Serve\<close> does not wait for it.\<close>

theorem address_reuse_unregisters:
  "\<exists>s sc. sv_run default_mc roomy_mem [] sample_client sample_started s \<and> sv_procs s 1 = Some (Serving, sc) \<and> rwc sc \<and> \<not> cn_close (sconn sc) \<and>
    sv_conns s = [] \<and> sv_procs (sv_notify s) 1 = Some (Serving, sc)"
proof -
  let ?step = "sv_step default_mc roomy_mem [] sample_client" and ?a = "''10.0.0.7:4711''"
  let ?closed = "peer\<lparr>sconn := (sconn peer)\<lparr>cn_close := True\<rparr>\<rparr>"
  define r1 where "r1 = served_one\<lparr>sv_procs := [0 \<mapsto> (Reading, peer)]\<rparr>"
  define r2 where "r2 = served_one\<lparr>sv_procs := [0 \<mapsto> (Replying (eof_res (sv_rl served_one) (snd (sv_store served_one))), peer)]\<rparr>"
  define s1 where "s1 = served_one\<lparr>sv_procs := [0 \<mapsto> (Serving, ?closed)]\<rparr>"
  define s2 where "s2 = served_one\<lparr>sv_procs := [0 \<mapsto> (Leaving, conn_Close ?closed)]\<rparr>"
  define s3 where "s3 = sv_accept 1 ?a ''x'' s2"
  define s4 where "s4 = sv_register 1 (newServerConn ?a ''x'') s3"
  define s5 where "s5 = sv_unregister 0 (conn_Close ?closed) s4"
  note defs = r1_def r2_def s1_def s2_def s3_def s4_def s5_def served_one_state
  have "?step served_one (served_one\<lparr>sv_procs := (sv_procs served_one)(0 \<mapsto> (Reading, peer))\<rparr>)"
    by (rule sv_step.turn) (simp_all add: served_one_state, simp add: peer_def newServerConn_def)
  then have 11: "?step served_one r1" by (simp add: defs)
  have "?step r1 (r1\<lparr>sv_rl := rr_rl (eof_res (sv_rl r1) (snd (sv_store r1))), sv_store := (fst (sv_store r1), rr_dbrl (eof_res (sv_rl r1) (snd (sv_store r1)))),
      sv_procs := (sv_procs r1)(0 \<mapsto> (Replying (eof_res (sv_rl r1) (snd (sv_store r1))),
        peer\<lparr>sconn := (sconn peer)\<lparr>cn_in := rr_rest (eof_res (sv_rl r1) (snd (sv_store r1)))\<rparr>\<rparr>))\<rparr>)"
    by (rule sv_step.read [where t = at_once]) (simp_all add: r1_def peer_def newServerConn_def read_eof)
  then have 12: "?step r1 r2" by (simp add: defs) (simp add: eof_res_def peer_def newServerConn_def)
  have "?step r2 (r2\<lparr>sv_rl := sv_rl r2, sv_stats := sv_stats r2, sv_store := sv_store r2,
      sv_procs := (sv_procs r2)(0 \<mapsto> (if (None :: mc_err option) = None then (Serving, ?closed) else (Leaving, conn_Close ?closed)))\<rparr>)"
    by (rule sv_step.reply [where t = at_once and res = "eof_res (sv_rl served_one) (snd (sv_store served_one))"])
      (simp_all add: r2_def peer_def reply_eof eof_upd)
  then have 1: "?step r2 s1" by (simp add: defs)
  have "?step s1 (s1\<lparr>sv_procs := (sv_procs s1)(0 \<mapsto> (Leaving, conn_Close ?closed))\<rparr>)" by (rule sv_step.leave) (simp_all add: defs)
  then have 2: "?step s1 s2" by (simp add: defs)
  have 3: "?step s2 s3" unfolding s3_def by (rule sv_step.accept) (auto simp: defs split: if_splits)
  have 4: "?step s3 s4" unfolding s4_def by (rule sv_step.register) (simp_all add: defs sv_accept_def)
  have 5: "?step s4 s5" unfolding s5_def by (rule sv_step.unregister) (simp_all add: defs sv_accept_def sv_register_def)
  have "sv_run default_mc roomy_mem [] sample_client sample_started s5"
    by (rule sv_run.more [OF sv_run.more [OF sv_run.more [OF sv_run.more [OF sv_run.more [OF sv_run.more [OF sv_run.more [OF run_served_one 11] 12] 1] 2] 3] 4] 5])
  moreover have "sv_procs s5 1 = Some (Serving, newServerConn ?a ''x'')" "sv_conns s5 = []" by (simp_all add: defs server_simps)
  moreover from this have "sv_procs (sv_notify s5) 1 = Some (Serving, newServerConn ?a ''x'')" by (simp add: sv_notify_def)
  moreover have "rwc (newServerConn ?a ''x'')" "\<not> cn_close (sconn (newServerConn ?a ''x''))" by (simp_all add: newServerConn_def)
  ultimately show ?thesis by blast
qed

theorem connection_ends_witness:
  "serve_loop default_mc roomy_mem [] sample_client 3 (replicate 9 at_once) (sconn (newServerConn ''p'' ''version'')) (NewReqLimiter 16) zero_stats (NewMapStore, ResetAll) \<noteq> Running \<and>
   (\<exists>e c1 rl1 st1 sd1. conn_Serve default_mc roomy_mem [] sample_client 3 [at_once] peer (NewReqLimiter 16) zero_stats (NewMapStore, ResetAll) =
      Some (e, c1, rl1, st1, sd1) \<and> \<not> rwc c1 \<and> (e = None \<longrightarrow> cn_close (sconn c1)))"
proof
  show "serve_loop default_mc roomy_mem [] sample_client 3 (replicate 9 at_once) (sconn (newServerConn ''p'' ''version'')) (NewReqLimiter 16) zero_stats (NewMapStore, ResetAll) \<noteq> Running"
    by (rule conjunct1 [OF connection_ends]) (simp add: newServerConn_def)
  show "\<exists>e c1 rl1 st1 sd1. conn_Serve default_mc roomy_mem [] sample_client 3 [at_once] peer (NewReqLimiter 16) zero_stats (NewMapStore, ResetAll) =
      Some (e, c1, rl1, st1, sd1) \<and> \<not> rwc c1 \<and> (e = None \<longrightarrow> cn_close (sconn c1))"
  proof (rule mp [OF conjunct2 [OF connection_ends]])
    show "length (cn_in (sconn peer)) < length [at_once]" by (simp add: peer_def newServerConn_def)
    have "\<not> cn_close (sconn peer)" by (simp add: peer_def newServerConn_def)
    then show "serve_loop default_mc roomy_mem [] sample_client 3 [at_once] (sconn peer) (NewReqLimiter 16) zero_stats (NewMapStore, ResetAll) \<noteq> Stuck"
      using turn_eof [of default_mc roomy_mem "[]" sample_client at_once 3 "''10.0.0.7:4711''" "NewReqLimiter 16" zero_stats "(NewMapStore, ResetAll)"]
      by (simp add: serve_loop.simps [where ts = "[at_once]"] serve_loop.simps [where ts = "[]"] peer_def)
  qed
qed

theorem connections_counted_witness:
  "st_curr_connections (sv_stats served_one) = int (card (running (proc_view (sv_procs served_one)))) \<and> st_curr_connections (sv_stats served_one) = 1 \<and>
   0 \<in> running (proc_view (sv_procs served_one)) \<inter> users (proc_view (sv_procs served_one)) ''10.0.0.7:4711''"
  using connections_counted [OF sample_start run_served_one, of "''10.0.0.7:4711''" 0]
  by (simp add: served_one_state) (simp add: served_one_def server_simps zero_stats_def)

text \<open>A connection that waits for its first request when a shutdown is notified still answers it.\<close>

definition version_req :: Request where
  "version_req = fresh_request\<lparr>rq_Cmd := ''version''\<rparr>"

definition version_text :: string where
  "version_text = ''VERSION '' @ Version @ crlf"

definition reader :: ServerConn where "reader = newServerConn ''10.0.0.8:4712'' (''version'' @ crlf)"

definition reading_one :: "mapStore mcServer" where
  "reading_one = (sv_register 0 reader (sv_accept 0 ''10.0.0.8:4712'' (''version'' @ crlf) sample_started))\<lparr>sv_procs := [0 \<mapsto> (Reading, reader)]\<rparr>"

lemma read_version:
  "req_Read default_mc roomy_mem 0 0 0 fresh_request rl d (''version'' @ crlf) =
     Some \<lparr>rr_err = None, rr_req = version_req, rr_rl = rl, rr_dbrl = d, rr_rest = []\<rparr>"
  by code_simp

lemma reply_version:
  "\<exists>rl' st' d'. serve_reply default_mc [] sample_client at_once 0 \<lparr>rr_err = None, rr_req = version_req, rr_rl = NewReqLimiter 16, rr_dbrl = ResetAll, rr_rest = []\<rparr>
     conn st NewMapStore = Some (None, conn\<lparr>cn_out := cn_out conn @ version_text, cn_req := version_req\<rparr>, rl', st', NewMapStore, d')"
  by (simp add: serve_reply_def serve_answer_def version_req_def version_text_def fresh_request_def overdue_def at_once_def default_mc_def SetStat_def NewReqLimiter_def Process_def
      serve_end_def req_Clear_def CleanBuffer_def resp_Write_def new_response_def Version_def Let_def)

lemma run_reading_one: "sv_run default_mc roomy_mem [] sample_client sample_started reading_one"
proof -
  let ?step = "sv_step default_mc roomy_mem [] sample_client" and ?a = "''10.0.0.8:4712''"
  let ?s1 = "sv_accept 0 ?a (''version'' @ crlf) sample_started"
  have 1: "?step sample_started ?s1" by (rule sv_step.accept) (simp_all add: server_simps)
  have 2: "?step ?s1 (sv_register 0 reader ?s1)" by (rule sv_step.register) (simp_all add: server_simps reader_def)
  have "?step (sv_register 0 reader ?s1) (sv_register 0 reader ?s1\<lparr>sv_procs := (sv_procs (sv_register 0 reader ?s1))(0 \<mapsto> (Reading, reader))\<rparr>)"
    by (rule sv_step.turn) (simp_all add: server_simps reader_def)
  then have "?step (sv_register 0 reader ?s1) reading_one" by (simp add: reading_one_def server_simps)
  from sv_run.more [OF sv_run.more [OF sv_run.more [OF sv_run.start 1] 2] this] show ?thesis .
qed

lemma answered_after_notify:
  "\<exists>s sc. sv_run default_mc roomy_mem [] sample_client (sv_notify reading_one) s \<and> sv_procs s 0 = Some (Serving, sc) \<and> cn_out (sconn sc) = version_text"
proof -
  let ?step = "sv_step default_mc roomy_mem [] sample_client" and ?r = "conn_Shutdown reader"
  let ?res = "\<lparr>rr_err = None, rr_req = version_req, rr_rl = NewReqLimiter 16, rr_dbrl = ResetAll, rr_rest = []\<rparr>"
  let ?d = "?r\<lparr>sconn := (sconn ?r)\<lparr>cn_in := []\<rparr>\<rparr>"
  let ?n = "sv_notify reading_one" and ?m = "(sv_notify reading_one)\<lparr>sv_procs := [0 \<mapsto> (Replying ?res, ?d)]\<rparr>"
  have n: "sv_procs ?n = [0 \<mapsto> (Reading, ?r)]" "sv_rl ?n = NewReqLimiter 16" "sv_store ?n = (NewMapStore, ResetAll)"
    by (auto simp: reading_one_def server_simps reader_def fun_eq_iff)
  have "?step ?n (?n\<lparr>sv_rl := rr_rl ?res, sv_store := (fst (sv_store ?n), rr_dbrl ?res),
      sv_procs := (sv_procs ?n)(0 \<mapsto> (Replying ?res, ?r\<lparr>sconn := (sconn ?r)\<lparr>cn_in := rr_rest ?res\<rparr>\<rparr>))\<rparr>)"
  proof (rule sv_step.read [where t = at_once])
    show "req_Read default_mc roomy_mem (t_recv at_once) (t_token at_once) 0 (cn_req (sconn ?r)) (sv_rl ?n) (snd (sv_store ?n)) (cn_in (sconn ?r)) = Some ?res"
      unfolding n using read_version [of "NewReqLimiter 16" ResetAll] by (simp add: at_once_def reader_def newServerConn_def conn_Shutdown_def)
  qed (simp add: n)
  moreover have "?n\<lparr>sv_rl := rr_rl ?res, sv_store := (fst (sv_store ?n), rr_dbrl ?res),
      sv_procs := (sv_procs ?n)(0 \<mapsto> (Replying ?res, ?r\<lparr>sconn := (sconn ?r)\<lparr>cn_in := rr_rest ?res\<rparr>\<rparr>))\<rparr> = ?m" using n by simp
  ultimately have 1: "?step ?n ?m" by (simp only:)
  obtain rl1 st1 d1 where rep: "serve_reply default_mc [] sample_client at_once 0 ?res (sconn ?d) (sv_stats ?m) NewMapStore =
      Some (None, (sconn ?d)\<lparr>cn_out := cn_out (sconn ?d) @ version_text, cn_req := version_req\<rparr>, rl1, st1, NewMapStore, d1)"
    using reply_version by blast
  let ?c1 = "(sconn ?d)\<lparr>cn_out := cn_out (sconn ?d) @ version_text, cn_req := version_req\<rparr>"
  have "?step ?m (?m\<lparr>sv_rl := rl1, sv_stats := st1, sv_store := (NewMapStore, d1),
      sv_procs := (sv_procs ?m)(0 \<mapsto> (if (None :: mc_err option) = None then (Serving, ?d\<lparr>sconn := ?c1\<rparr>) else (Leaving, conn_Close (?d\<lparr>sconn := ?c1\<rparr>))))\<rparr>)"
    by (rule sv_step.reply [where t = at_once and res = ?res], simp) (use rep n in simp)
  from sv_run.more [OF sv_run.more [OF sv_run.start 1] this] show ?thesis
    by (rule_tac exI, rule_tac exI, intro conjI) (assumption, simp, simp add: reader_def newServerConn_def conn_Shutdown_def)
qed

theorem shutdown_ends_turn_witness:
  "\<exists>s pc sc. sv_run default_mc roomy_mem [] sample_client (sv_notify reading_one) s \<and> sv_procs s 0 = Some (pc, sc) \<and> cn_close (sconn sc) \<and>
    cn_out (sconn sc) = version_text \<and> (\<exists>r. resp_Write r = Some version_text) \<and>
    (cn_in (sconn sc) = ''version'' @ crlf \<or> one_read default_mc roomy_mem 0 (sconn reader) (cn_in (sconn sc)))"
proof -
  obtain s sc where s: "sv_run default_mc roomy_mem [] sample_client (sv_notify reading_one) s" "sv_procs s 0 = Some (Serving, sc)" "cn_out (sconn sc) = version_text"
    using answered_after_notify by blast
  have r: "sv_procs reading_one 0 = Some (Reading, reader)" "Reading = Serving \<or> in_turn Reading" "cn_out (sconn reader) = []" "cn_in (sconn reader) = ''version'' @ crlf"
    by (simp_all add: reading_one_def reader_def newServerConn_def)
  have u: "users (proc_view (sv_procs reading_one)) (RemoteAddr reader) = {0}" by (auto simp: users_def proc_view_def reading_one_def split: if_splits)
  show ?thesis using shutdown_ends_turn [OF sample_start run_reading_one r(1,2) u s(1)] s r(3,4) by (auto simp: version_text_def)
qed

text \<open>A connection accepted just before a shutdown and registered after it.\<close>

definition stopped_early :: "mapStore mcServer" where
  "stopped_early = (sv_accept 0 ''10.0.0.7:4711'' [] sample_started)\<lparr>sv_stop := True, sv_stopping := True, sv_main := Waiting 0\<rparr>"

lemma run_stopped_early: "sv_run default_mc roomy_mem [] sample_client sample_started stopped_early"
proof -
  let ?s = "sv_accept 0 ''10.0.0.7:4711'' [] sample_started"
  have a: "sv_step default_mc roomy_mem [] sample_client sample_started ?s" by (rule sv_step.accept) (simp_all add: server_simps)
  have "sv_step default_mc roomy_mem [] sample_client (?s\<lparr>sv_stop := True, sv_stopping := True\<rparr>) (?s\<lparr>sv_stop := True, sv_stopping := True\<rparr>\<lparr>sv_main := Waiting 0\<rparr>)"
    by (rule sv_step.accept_stopped) (simp_all add: server_simps)
  then show ?thesis using sv_run.more [OF sv_run.more [OF sv_run.more [OF sv_run.start a] sv_step.shutdown]] by (simp add: stopped_early_def)
qed

theorem serve_returns_locked_witness:
  "sv_run default_mc roomy_mem [] sample_client sample_started stopped_early \<and> sv_locked (sv_wait 0 stopped_early) \<and>
   sv_procs (sv_wait 0 stopped_early) 0 = Some (Accepted, peer)"
proof -
  have s: "sv_main stopped_early = Waiting 0" "sv_conns stopped_early = []" "sv_procs stopped_early 0 = Some (Accepted, peer)"
    by (simp_all add: stopped_early_def server_simps)
  show ?thesis using run_stopped_early serve_returns_locked [OF s(1,2) sv_run.start, of 0 peer] s(3) by blast
qed

end
