(* ===== verification/Offline.thy ===== *)
theory Offline
  imports Restart
begin

text \<open>
  The offline hint builder (\<open>store/offline.go\<close>): it lists the data files of a directory and checks the hints of every chunk that has one.
  The bucket it works on has no tree (the value of that field is an argument and is not looked at).  The lemmas show that, on the data files of a bucket,
  it dumps hint files that have for every key of a chunk the item of its last record there.
\<close>

unbundle bit_operations_syntax

section \<open>Definitions\<close>

datatype offline_err = StatFailed | ListFailed | BadNumber num_err

definition offline_bucket :: "HTree \<Rightarrow> dataStore \<Rightarrow> BucketHome \<Rightarrow> Bucket" where
  "offline_bucket t ds home = \<lparr>bk_ID = 0, bk_TreeID = \<lparr>hid_Chunk = 0, hid_Split = 0\<rparr>, bk_NextGCChunk = 0, bk_NumSameVhash = 0, bk_SizeSameVhash = 0,
     bk_SizeVhashKey = [], bk_htree = t, bk_hints = newHintMgr (bh_hints home), bk_datas = ds, bk_treeFiles = bh_trees home, bk_nextgc = bh_nextgc home\<rparr>"

text \<open>The loop over the chunks: one without a file is skipped, one that cannot be built is logged; a number outside the array panics.\<close>

fun offline_loop :: "nat \<Rightarrow> Env \<Rightarrow> OpEnv \<Rightarrow> int \<Rightarrow> Bucket \<Rightarrow> BeansdbRL \<Rightarrow> (Bucket \<times> BeansdbRL) option" where
  "offline_loop 0 e oe i b d = Some (b, d)"
| "offline_loop (Suc n) e oe i b d =
     (if dc_file (ds_chunks (bk_datas b) i) = None then offline_loop n e oe (i + 1) b d
      else if \<not> chunk_in_range i then None
      else do {
        (_, b1, d1) \<leftarrow> checkHintWithData e oe i b d;
        offline_loop n e oe (i + 1) b1 d1
      })"

text \<open>The error of a chunk is in a variable of the loop and is not returned.\<close>

definition DataToHintDir ::
    "Env \<Rightarrow> OpEnv \<Rightarrow> HTree \<Rightarrow> BucketHome \<Rightarrow> int \<Rightarrow> int \<Rightarrow> BeansdbRL \<Rightarrow> (offline_err option \<times> Bucket option \<times> BeansdbRL) option" where
  "DataToHintDir e oe t home first final d =
     (case ListFiles (NewdataStore (bh_data home)) of
        None \<Rightarrow> Some (Some ListFailed, None, d)
      | Some (_, ds) \<Rightarrow>
          map_option (\<lambda>(b, d1). (None, Some b, d1)) (offline_loop (nat (final - first + 1)) e oe first (offline_bucket t ds home) d))"

text \<open>The number of the chunk is in the first three bytes of the name; a shorter name panics.\<close>

definition DataToHintFile ::
    "Env \<Rightarrow> OpEnv \<Rightarrow> HTree \<Rightarrow> string \<Rightarrow> BucketHome \<Rightarrow> BeansdbRL \<Rightarrow> (offline_err option \<times> Bucket option \<times> BeansdbRL) option" where
  "DataToHintFile e oe t name home d =
     (if length name < 3 then None
      else case Atoi (take 3 name) of
        (_, Some err) \<Rightarrow> Some (Some (BadNumber err), None, d)
      | (chunkID, None) \<Rightarrow> DataToHintDir e oe t home chunkID chunkID d)"

text \<open>What the path names is known from outside: nothing that can be opened, a directory or a file with its name, in a directory.\<close>

datatype path_kind = Missing | Directory | DataFile string

definition DataToHint ::
    "Env \<Rightarrow> OpEnv \<Rightarrow> HTree \<Rightarrow> path_kind \<Rightarrow> BucketHome \<Rightarrow> BeansdbRL \<Rightarrow> (offline_err option \<times> Bucket option \<times> BeansdbRL) option" where
  "DataToHint e oe t kind home d =
     (case kind of
        Missing \<Rightarrow> Some (Some StatFailed, None, d)
      | Directory \<Rightarrow> DataToHintDir e oe t home 0 (MAX_NUM_CHUNK - 1) d
      | DataFile name \<Rightarrow> DataToHintFile e oe t name home d)"

section \<open>What is built\<close>

text \<open>The hint files of a chunk, newest last, hold the items of its records.\<close>

definition hints_hold :: "Env \<Rightarrow> bytes set \<Rightarrow> int \<Rightarrow> Record list \<Rightarrow> hintChunk \<Rightarrow> bool" where
  "hints_hold e K bid rs ck \<longleftrightarrow> (\<exists>sps Ms. hc_splits ck = sps @ [newhintSplit] \<and> (\<forall>sp \<in> set sps. sp_file sp \<noteq> None) \<and>
     list_all2 (split_map (conf e) (log_item e K bid)) sps Ms \<and> rec_map e rs (length rs) = foldl (++) Map.empty Ms)"

lemma scan_skip: "scan_at e K L i b \<Longrightarrow> scan_at e K L (i + 1) b"
  by (fastforce simp: scan_at_def)

lemma offline_loop_builds:
  assumes "scan_at e K L i b" "0 \<le> i" "i + int n \<le> MAX_NUM_CHUNK" "log_files e K bid (ds_newHead (bk_datas b)) L" "bkt_limits e K" "op_now oe \<noteq> 0"
    and "\<forall>c. 0 \<le> c \<and> c < i \<and> L c \<noteq> [] \<longrightarrow> hints_hold e K bid (L c) (hm_chunks (bk_hints b) c)"
  shows "\<exists>b' d'. offline_loop n e oe i b d = Some (b', d') \<and> bk_datas b' = bk_datas b \<and>
    (\<forall>c. 0 \<le> c \<and> c < i + int n \<and> L c \<noteq> [] \<longrightarrow> hints_hold e K bid (L c) (hm_chunks (bk_hints b') c))"
  using assms(1-4,7)
proof (induction n arbitrary: i b d)
  case (Suc n)
  have i: "i < MAX_NUM_CHUNK" using Suc.prems(3) by simp
  note IH = Suc.IH [of "i + 1"]
  have step: ?case if s: "offline_loop (Suc n) e oe i b d = offline_loop n e oe (i + 1) b1 d1" "scan_at e K L (i + 1) b1" "bk_datas b1 = bk_datas b"
    and h: "\<forall>c. 0 \<le> c \<and> c < i + 1 \<and> L c \<noteq> [] \<longrightarrow> hints_hold e K bid (L c) (hm_chunks (bk_hints b1) c)" for b1 d1
    using IH [OF s(2) _ _ _ h, of d1] Suc.prems(2-4) s(1,3) by (auto simp: algebra_simps)
  have upto: "c = i \<or> c < i" if "c < i + 1" for c :: int using that by linarith
  show ?case
  proof (cases "L i = []")
    case True
    obtain h where h: "checkHintWithData e oe i b d = Some (None, b\<lparr>bk_hints := h\<rparr>, d)" "hm_chunks h = hm_chunks (bk_hints b)"
        "scan_at e K L (i + 1) (b\<lparr>bk_hints := h\<rparr>)"
      using checkHint_empty [OF Suc.prems(1,2) i True, of oe d] by blast
    have old: "\<forall>c. 0 \<le> c \<and> c < i + 1 \<and> L c \<noteq> [] \<longrightarrow> hints_hold e K bid (L c) (hm_chunks (bk_hints b) c)" using Suc.prems(5) True upto by metis
    show ?thesis
    proof (cases "dc_file (ds_chunks (bk_datas b) i) = None")
      case True
      show ?thesis by (rule step [of b d, OF _ scan_skip [OF Suc.prems(1)] _ old]) (simp_all add: True)
    next
      case False
      show ?thesis by (rule step [of "b\<lparr>bk_hints := h\<rparr>" d, OF _ h(3)]) (use False h(1,2) old Suc.prems(2) i in \<open>auto simp: chunk_in_range_def\<close>)
    qed
  next
    case False
    obtain h d' sps Ms where h: "checkHintWithData e oe i b d = Some (None, b\<lparr>bk_hints := h\<rparr>, d')" "hm_frame i (bk_hints b) h"
        "hc_splits (hm_chunks h i) = sps @ [newhintSplit]" "\<forall>sp \<in> set sps. sp_file sp \<noteq> None" "list_all2 (split_map (conf e) (log_item e K bid)) sps Ms"
        "rec_map e (L i) (length (L i)) = foldl (++) Map.empty Ms" "scan_at e K L (i + 1) (b\<lparr>bk_hints := h\<rparr>)"
      using checkHint_records [OF Suc.prems(1,2) i False Suc.prems(4) assms(5,6), of d] by blast
    have all: "\<forall>c. 0 \<le> c \<and> c < i + 1 \<and> L c \<noteq> [] \<longrightarrow> hints_hold e K bid (L c) (hm_chunks h c)"
      using Suc.prems(5) h(2-6) upto unfolding hints_hold_def hm_frame_def by metis
    have "dc_file (ds_chunks (bk_datas b) i) \<noteq> None" using Suc.prems(1,2) i False by (simp add: scan_at_def)
    then show ?thesis by - (rule step [of "b\<lparr>bk_hints := h\<rparr>" d', OF _ h(7)], use h(1) all Suc.prems(2) i in \<open>auto simp: chunk_in_range_def\<close>)
  qed
qed simp

section \<open>Properties\<close>

text \<open>C36: the offline builder rebuilds the hints.  On the data files that a bucket left at any moment of a run, with no hint files beside them, the builder ends
  without error or panic, and for every chunk that has records it has dumped hint files that together hold, for every key of the chunk, the
  version, value hash and offset of its last record there, and nothing else.\<close>

theorem offline_rebuilds_hints:
  assumes "bkt_run e K bid b d m" and "bkt_limits e K" and "\<forall>k \<in> K. length k < 256"
    and "\<forall>c. dc_file (ds_chunks (bk_datas b) c) \<noteq> None \<longrightarrow> c + 1 < MAX_NUM_CHUNK" and "op_now oe \<noteq> 0"
  shows "\<exists>L b' d'. files_hold e (bh_data (data_home b)) L \<and> DataToHint e oe t Directory (data_home b) d0 = Some (None, Some b', d') \<and>
    (\<forall>c. L c \<noteq> [] \<longrightarrow> hints_hold e K bid (L c) (hm_chunks (bk_hints b') c))"
proof -
  obtain L0 Q where r: "ds_inv e [] (bk_datas b) Idle L0 Q Q" "keys_in (bkt_dom e K bid) L0" "log_ok e L0"
    using bkt_run_rep [OF assms(1,2)] by (auto simp: bkt_rep_def)
  let ?fs = "bh_data (data_home b)" and ?L = "\<lambda>c. take (Q c) (L0 c)"
  have fs: "?fs = (\<lambda>c. dc_file (ds_chunks (bk_datas b) c))" by (simp add: data_home_def)
  have files: "files_hold e ?fs ?L" and keys: "keys_in (bkt_dom e K bid) ?L" using flushed_files [OF r(1,3,2) assms(4)] by (simp_all add: fs)
  have l: "chunk_limits e" using assms(2) by (simp add: bkt_limits_def)
  note O = opened_inv [OF files l] and S = opened_scan [OF files keys assms(2,3)]
  let ?b = "offline_bucket t (opened_data ?fs) (data_home b)"
  have "newHintMgr Mapping.empty = (newHintMgr Mapping.empty)\<lparr>hm_maxDumpedHintID := \<lparr>hid_Chunk = 0, hid_Split = 0\<rparr>\<rparr>" by (simp add: newHintMgr_def)
  then have scan: "scan_at e K ?L 0 ?b" using S(2) [of ?b "\<lparr>hid_Chunk = 0, hid_Split = 0\<rparr>"] by (simp add: offline_bucket_def data_home_def empty_home_def)
  have top: "0 + int (nat MAX_NUM_CHUNK) \<le> MAX_NUM_CHUNK" by (simp add: MAX_NUM_CHUNK_def)
  have lf: "log_files e K bid (ds_newHead (bk_datas ?b)) ?L" using S(1) by (simp add: offline_bucket_def)
  have none: "\<forall>c. 0 \<le> c \<and> c < 0 \<and> ?L c \<noteq> [] \<longrightarrow> hints_hold e K bid (?L c) (hm_chunks (bk_hints ?b) c)" by auto
  from offline_loop_builds [OF scan order_refl top lf assms(2,5) none, of d0]
  obtain b' d' where B: "offline_loop (nat MAX_NUM_CHUNK) e oe 0 ?b d0 = Some (b', d')"
      "\<And>c. 0 \<le> c \<Longrightarrow> c < MAX_NUM_CHUNK \<Longrightarrow> ?L c \<noteq> [] \<Longrightarrow> hints_hold e K bid (?L c) (hm_chunks (bk_hints b') c)"
    by (auto simp: MAX_NUM_CHUNK_def)
  have "0 \<le> c \<and> c < MAX_NUM_CHUNK" if "?L c \<noteq> []" for c
  proof
    have neg: "\<And>c. c < 0 \<Longrightarrow> ?L c = []" and some: "\<And>c. ?fs c \<noteq> None \<Longrightarrow> c + 1 < MAX_NUM_CHUNK"
      using files unfolding files_hold_def log_ok_def by blast+
    show "0 \<le> c" using that neg [of c] by (meson not_le)
    show "c < MAX_NUM_CHUNK" using some [of c] O(3) [OF that] by simp
  qed
  with B(2) have "\<forall>c. ?L c \<noteq> [] \<longrightarrow> hints_hold e K bid (?L c) (hm_chunks (bk_hints b') c)" by blast
  moreover have "DataToHint e oe t Directory (data_home b) d0 = Some (None, Some b', d')"
    using B(1) ListFiles_opened(1) [of ?fs, OF O(2)] by (simp add: DataToHint_def DataToHintDir_def)
  ultimately show ?thesis using files by blast
qed

theorem offline_rebuilds_hints_witness:
  "\<exists>b d m L b' d'. bkt_run small_env {[97], [98]} 0 b d m \<and> files_hold small_env (bh_data (data_home b)) L \<and>
     DataToHint small_env (at_zero\<lparr>op_now := 1\<rparr>) (bk_htree b) Directory (data_home b) ResetAll = Some (None, Some b', d') \<and>
     (\<forall>c. L c \<noteq> [] \<longrightarrow> hints_hold small_env {[97], [98]} 0 (L c) (hm_chunks (bk_hints b') c))"
proof -
  obtain b d a where t: "bkt_run small_env {[97], [98]} 0 b d [[97] \<mapsto> a]"
      "\<forall>c. dc_file (ds_chunks (bk_datas b) c) \<noteq> None \<longrightarrow> c + 1 < MAX_NUM_CHUNK" using flushed_bucket by blast
  have c: "\<forall>k \<in> {[97], [98]} :: bytes set. length k < 256" "op_now (at_zero\<lparr>op_now := 1\<rparr>) \<noteq> 0" by simp_all
  from offline_rebuilds_hints [OF t(1) small_ok(1) c(1) t(2) c(2), of "bk_htree b" ResetAll] t(1) show ?thesis by blast
qed

end
