(* ===== verification/Route.thy ===== *)
theory Route
  imports Config
begin

text \<open>
  Route tables (\<open>config/route.go\<close>, \<open>config/zk.go\<close>): which server has which buckets.  A table comes from ZooKeeper or from the local file,
  as YAML.  The YAML library and the ZooKeeper client are arguments; a Go map is a map, and the order in which \<open>range\<close> visits one is an argument.
  The lemmas say which buckets a server finds for itself, what becomes of a bucket name that is not a number, and what the local copy of the table holds.
\<close>

section \<open>Definitions\<close>

datatype RouteErr = YamlErr | FileErr | ZKErr | HexErr num_err

record Server =
  sv_Addr :: string
  sv_Buckets :: "int list"
  sv_BucketsHex :: "string list"

text \<open>\<open>Decode\<close> stops at the first string that is not a number; the entries from there on keep their zero value.\<close>

fun decode_buckets :: "string list \<Rightarrow> RouteErr option \<times> int list" where
  "decode_buckets [] = (None, [])"
| "decode_buckets (str # rest) =
     (case ParseInt 16 16 str of
        (_, Some err) \<Rightarrow> (Some (HexErr err), replicate (length (str # rest)) 0)
      | (i64, None) \<Rightarrow> (case decode_buckets rest of (err, bs) \<Rightarrow> (err, i64 # bs)))"

definition Server_Decode :: "Server \<Rightarrow> RouteErr option \<times> Server" where
  "Server_Decode s = (case decode_buckets (sv_BucketsHex s) of (err, bs) \<Rightarrow> (err, s\<lparr>sv_Buckets := bs\<rparr>))"

record RouteTable =
  rt_NumBucket :: int
  rt_Main :: "Server list"
  rt_Backup :: "string list"
  rt_Buckets :: "int \<rightharpoonup> (string \<rightharpoonup> bool)"
  rt_Servers :: "string \<rightharpoonup> (int \<rightharpoonup> bool)"

record DBRouteConfig =
  dr_NumBucket :: int
  dr_BucketsStat :: "int list"
  dr_BucketsHex :: "string list"

text \<open>Writing to the map of a bucket that the table does not have is an assignment to a nil map, a panic.\<close>

fun add_buckets :: "string \<Rightarrow> bool \<Rightarrow> int list \<Rightarrow> RouteTable \<Rightarrow> RouteTable option" where
  "add_buckets addr v [] rt = Some rt"
| "add_buckets addr v (bucket # bs) rt =
     (case (rt_Servers rt addr, rt_Buckets rt bucket) of
        (Some mine, Some theirs) \<Rightarrow>
          add_buckets addr v bs
            (rt\<lparr>rt_Servers := (rt_Servers rt)(addr \<mapsto> mine(bucket \<mapsto> v)), rt_Buckets := (rt_Buckets rt)(bucket \<mapsto> theirs(addr \<mapsto> v))\<rparr>)
      | _ \<Rightarrow> None)"

fun add_servers :: "Server list \<Rightarrow> RouteTable \<Rightarrow> RouteTable option" where
  "add_servers [] rt = Some rt"
| "add_servers (server # servers) rt =
     (let s = snd (Server_Decode server) in
      case add_buckets (sv_Addr s) True (sv_Buckets s) (rt\<lparr>rt_Servers := (rt_Servers rt)(sv_Addr s \<mapsto> Map.empty)\<rparr>) of
        None \<Rightarrow> None
      | Some rt1 \<Rightarrow> add_servers servers rt1)"

fun add_backups :: "string list \<Rightarrow> RouteTable \<Rightarrow> RouteTable option" where
  "add_backups [] rt = Some rt"
| "add_backups (addr # addrs) rt =
     (case add_buckets addr False [0 .. rt_NumBucket rt - 1] (rt\<lparr>rt_Servers := (rt_Servers rt)(addr \<mapsto> Map.empty)\<rparr>) of
        None \<Rightarrow> None
      | Some rt1 \<Rightarrow> add_backups addrs rt1)"

type_synonym yaml = "string \<Rightarrow> RouteTable \<Rightarrow> RouteErr + RouteTable"

definition LoadFromYaml :: "yaml \<Rightarrow> string \<Rightarrow> RouteTable \<Rightarrow> (RouteErr option \<times> RouteTable) option" where
  "LoadFromYaml um data rt0 =
     (case um data rt0 of
        Inl err \<Rightarrow> Some (Some err, rt0)
      | Inr rt \<Rightarrow>
          (case add_servers (rt_Main rt)
              (rt\<lparr>rt_Servers := Map.empty, rt_Buckets := \<lambda>b. if 0 \<le> b \<and> b < rt_NumBucket rt then Some Map.empty else None\<rparr>) of
             None \<Rightarrow> None
           | Some rt1 \<Rightarrow> map_option (\<lambda>rt2. (None, rt2)) (add_backups (rt_Backup rt) rt1)))"

fun mark_buckets :: "int \<Rightarrow> int list \<Rightarrow> DBRouteConfig \<Rightarrow> DBRouteConfig option" where
  "mark_buckets num [] r = Some r"
| "mark_buckets num (b # bs) r =
     (if b < 0 \<or> int (length (dr_BucketsStat r)) \<le> b then None
      else mark_buckets num bs
        (r\<lparr>dr_BucketsStat := (dr_BucketsStat r)[nat b := 1], dr_BucketsHex := dr_BucketsHex r @ [BucketIDHex b num]\<rparr>))"

definition GetDBRouteConfig :: "((int \<rightharpoonup> bool) \<Rightarrow> int list) \<Rightarrow> RouteTable \<Rightarrow> string \<Rightarrow> DBRouteConfig option" where
  "GetDBRouteConfig order rt addr =
     (if rt_NumBucket rt < 0 then None
      else let r = \<lparr>dr_NumBucket = rt_NumBucket rt, dr_BucketsStat = replicate (nat (rt_NumBucket rt)) 0, dr_BucketsHex = []\<rparr> in
        case rt_Servers rt addr of
          None \<Rightarrow> Some r
        | Some buckets \<Rightarrow> mark_buckets (rt_NumBucket rt) (order buckets) r)"

definition empty_table :: RouteTable where
  "empty_table = \<lparr>rt_NumBucket = 0, rt_Main = [], rt_Backup = [], rt_Buckets = Map.empty, rt_Servers = Map.empty\<rparr>"

text \<open>The local file is \<open>None\<close> when it cannot be read.\<close>

definition LoadRouteTableLocal :: "yaml \<Rightarrow> string option \<Rightarrow> (RouteErr + RouteTable) option" where
  "LoadRouteTableLocal um path =
     (case path of
        None \<Rightarrow> Some (Inl FileErr)
      | Some data \<Rightarrow>
          (case LoadFromYaml um data empty_table of
             None \<Rightarrow> None
           | Some (Some err, _) \<Rightarrow> Some (Inl err)
           | Some (None, rt) \<Rightarrow> Some (Inr rt)))"

text \<open>A ZooKeeper client reads the content of a path below its root.  \<open>GetRouteRaw\<close> returns the content and the version beside an error.\<close>

type_synonym zk_get = "string \<Rightarrow> string option"

definition GetRouteRaw :: "zk_get \<Rightarrow> int \<Rightarrow> string \<times> int \<times> RouteErr option" where
  "GetRouteRaw zget version =
     (let with_ver = (\<lambda>ver. case zget (''route/route_'' @ FormatPad 10 10 ver) of None \<Rightarrow> ([], ver, Some ZKErr) | Some data \<Rightarrow> (data, ver, None)) in
      if version < 0 then
        (case zget ''route'' of
           None \<Rightarrow> ([], 0, Some ZKErr)
         | Some data \<Rightarrow> (case Atoi data of (ver, Some err) \<Rightarrow> (data, ver, Some (HexErr err)) | (ver, None) \<Rightarrow> with_ver ver))
      else with_ver version)"

text \<open>The local file is opened without truncating it, so what is behind the new content stays.\<close>

definition UpdateLocalRoute :: "string \<Rightarrow> string option \<Rightarrow> string" where
  "UpdateLocalRoute content old = (case old of None \<Rightarrow> content | Some f \<Rightarrow> content @ drop (length content) f)"

text \<open>The version of the client is returned with the table, and the new content of the local file.\<close>

definition LoadRouteTableZK :: "yaml \<Rightarrow> zk_get option \<Rightarrow> string option \<Rightarrow> ((RouteErr + RouteTable \<times> int) \<times> string option) option" where
  "LoadRouteTableZK um client path =
     (case client of
        None \<Rightarrow> Some (Inl ZKErr, path)
      | Some zget \<Rightarrow>
          (case GetRouteRaw zget (- 1) of
             (_, _, Some err) \<Rightarrow> Some (Inl err, path)
           | (data, ver, None) \<Rightarrow>
               (case LoadFromYaml um data empty_table of
                  None \<Rightarrow> None
                | Some (Some err, _) \<Rightarrow> Some (Inl err, path)
                | Some (None, rt) \<Rightarrow> Some (Inr (rt, ver), Some (UpdateLocalRoute data path)))))"

text \<open>The choice in \<open>DBConfig.Load\<close>: ZooKeeper when servers are configured, the local file when there are none or ZooKeeper fails.\<close>

definition load_route :: "yaml \<Rightarrow> zk_get option option \<Rightarrow> string option \<Rightarrow> ((RouteErr + RouteTable) \<times> string option) option" where
  "load_route um zk path =
     (case zk of
        None \<Rightarrow> map_option (\<lambda>r. (r, path)) (LoadRouteTableLocal um path)
      | Some client \<Rightarrow>
          (case LoadRouteTableZK um client path of
             None \<Rightarrow> None
           | Some (Inr (rt, _), path1) \<Rightarrow> Some (Inr rt, path1)
           | Some (Inl _, path1) \<Rightarrow> map_option (\<lambda>r. (r, path1)) (LoadRouteTableLocal um path1)))"

section \<open>Which server has which bucket\<close>

text \<open>The table as a relation, read from both of its maps.\<close>

definition routes :: "RouteTable \<Rightarrow> int \<Rightarrow> (string \<Rightarrow> int \<Rightarrow> bool option) \<Rightarrow> bool" where
  "routes rt n f \<longleftrightarrow> rt_NumBucket rt = n \<and> (\<forall>b. rt_Buckets rt b \<noteq> None \<longleftrightarrow> 0 \<le> b \<and> b < n) \<and>
     (\<forall>a b. Option.bind (rt_Servers rt a) (\<lambda>m. m b) = f a b \<and> Option.bind (rt_Buckets rt b) (\<lambda>m. m a) = f a b)"

definition bucket_ids :: "Server \<Rightarrow> int list" where
  "bucket_ids s = map (\<lambda>x. fst (ParseInt 16 16 x)) (sv_BucketsHex s)"

text \<open>What the file says: the main servers have the buckets listed for them, the backups have all, marked as such.\<close>

definition has_bucket :: "RouteTable \<Rightarrow> string \<Rightarrow> int \<Rightarrow> bool option" where
  "has_bucket rt addr b =
     (if \<exists>s \<in> set (rt_Main rt). sv_Addr s = addr \<and> b \<in> set (bucket_ids s) then Some True
      else if addr \<in> set (rt_Backup rt) \<and> 0 \<le> b \<and> b < rt_NumBucket rt then Some False
      else None)"

definition wf_route :: "RouteTable \<Rightarrow> bool" where
  "wf_route rt \<longleftrightarrow> 0 \<le> rt_NumBucket rt \<and> distinct (map sv_Addr (rt_Main rt) @ rt_Backup rt) \<and>
     (\<forall>s \<in> set (rt_Main rt). \<forall>x \<in> set (sv_BucketsHex s).
        snd (ParseInt 16 16 x) = None \<and> 0 \<le> fst (ParseInt 16 16 x) \<and> fst (ParseInt 16 16 x) < rt_NumBucket rt)"

lemma decode_buckets_ok:
  "\<forall>x \<in> set xs. snd (ParseInt 16 16 x) = None \<Longrightarrow> decode_buckets xs = (None, map (\<lambda>x. fst (ParseInt 16 16 x)) xs)"
  by (induction xs) (auto split: prod.splits option.splits)

lemma add_buckets_ok:
  assumes "routes rt n f" "rt_Servers rt addr \<noteq> None" "\<forall>b \<in> set bs. 0 \<le> b \<and> b < n"
  shows "\<exists>rt'. add_buckets addr v bs rt = Some rt' \<and> routes rt' n (\<lambda>a b. if a = addr \<and> b \<in> set bs then Some v else f a b)"
  using assms
proof (induction bs arbitrary: rt f)
  case (Cons b bs)
  obtain mine where m: "rt_Servers rt addr = Some mine" using Cons.prems(2) by auto
  have "rt_Buckets rt b \<noteq> None" using Cons.prems(1,3) by (simp add: routes_def)
  then obtain theirs where t: "rt_Buckets rt b = Some theirs" by auto
  let ?rt = "rt\<lparr>rt_Servers := (rt_Servers rt)(addr \<mapsto> mine(b \<mapsto> v)), rt_Buckets := (rt_Buckets rt)(b \<mapsto> theirs(addr \<mapsto> v))\<rparr>"
  have r: "\<And>a c. Option.bind (rt_Servers rt a) (\<lambda>m. m c) = f a c" "\<And>a c. Option.bind (rt_Buckets rt c) (\<lambda>m. m a) = f a c"
    using Cons.prems(1) by (simp_all add: routes_def)
  have "mine c = f addr c" "theirs a = f a b" for a c using r(1) [of addr c] r(2) [of b a] m t by simp_all
  then have "routes ?rt n (\<lambda>a c. if a = addr \<and> c = b then Some v else f a c)"
    using Cons.prems(1,3) r by (auto simp: routes_def)
  from Cons.IH [OF this] obtain rt' where "add_buckets addr v bs ?rt = Some rt'"
      "routes rt' n (\<lambda>a c. if a = addr \<and> c \<in> set bs then Some v else if a = addr \<and> c = b then Some v else f a c)"
    using Cons.prems(3) by auto
  moreover have "(\<lambda>a c. if a = addr \<and> c \<in> set bs then Some v else if a = addr \<and> c = b then Some v else f a c) =
      (\<lambda>a c. if a = addr \<and> c \<in> set (b # bs) then Some v else f a c)" by (auto simp: fun_eq_iff)
  ultimately show ?case using m t by simp
qed simp

lemma new_server: "routes rt n f \<Longrightarrow> \<forall>b. f addr b = None \<Longrightarrow> routes (rt\<lparr>rt_Servers := (rt_Servers rt)(addr \<mapsto> Map.empty)\<rparr>) n f"
  by (simp add: routes_def)

lemma add_servers_ok:
  assumes "routes rt n f" "distinct (map sv_Addr ss)" "\<forall>s \<in> set ss. \<forall>b. f (sv_Addr s) b = None"
    and "\<forall>s \<in> set ss. \<forall>x \<in> set (sv_BucketsHex s). snd (ParseInt 16 16 x) = None \<and> 0 \<le> fst (ParseInt 16 16 x) \<and> fst (ParseInt 16 16 x) < n"
  shows "\<exists>rt'. add_servers ss rt = Some rt' \<and> routes rt' n
    (\<lambda>a b. if \<exists>s \<in> set ss. sv_Addr s = a \<and> b \<in> set (bucket_ids s) then Some True else f a b)"
  using assms
proof (induction ss arbitrary: rt f)
  case (Cons s ss)
  let ?ids = bucket_ids
  let ?rt = "rt\<lparr>rt_Servers := (rt_Servers rt)(sv_Addr s \<mapsto> Map.empty)\<rparr>"
  let ?f = "\<lambda>a b. if a = sv_Addr s \<and> b \<in> set (?ids s) then Some True else f a b"
  have d: "snd (Server_Decode s) = s\<lparr>sv_Buckets := ?ids s\<rparr>"
    using decode_buckets_ok [of "sv_BucketsHex s"] Cons.prems(4) by (simp add: Server_Decode_def bucket_ids_def)
  have "\<exists>rt1. add_buckets (sv_Addr s) True (?ids s) ?rt = Some rt1 \<and> routes rt1 n ?f"
    using Cons.prems by (intro add_buckets_ok new_server) (auto simp: bucket_ids_def)
  then obtain rt1 where r1: "add_buckets (sv_Addr s) True (?ids s) ?rt = Some rt1" "routes rt1 n ?f" by blast
  have "sv_Addr t \<noteq> sv_Addr s" if "t \<in> set ss" for t using Cons.prems(2) that imageI [OF that, of sv_Addr] by force
  then have other: "\<forall>t \<in> set ss. \<forall>b. ?f (sv_Addr t) b = None" using Cons.prems(3) by auto
  obtain rt' where r: "add_servers ss rt1 = Some rt'"
      "routes rt' n (\<lambda>a b. if \<exists>s \<in> set ss. sv_Addr s = a \<and> b \<in> set (?ids s) then Some True else ?f a b)"
    using Cons.IH [OF r1(2) _ other] Cons.prems(2,4) by auto
  moreover have "(\<lambda>a b. if \<exists>s \<in> set ss. sv_Addr s = a \<and> b \<in> set (?ids s) then Some True else ?f a b) =
      (\<lambda>a b. if \<exists>t \<in> set (s # ss). sv_Addr t = a \<and> b \<in> set (?ids t) then Some True else f a b)" by (auto simp: fun_eq_iff)
  ultimately show ?case using d r1(1) by (simp add: Let_def)
qed simp

lemma add_backups_ok:
  assumes "routes rt n f" "distinct addrs" "\<forall>a \<in> set addrs. \<forall>b. f a b = None"
  shows "\<exists>rt'. add_backups addrs rt = Some rt' \<and>
    routes rt' n (\<lambda>a b. if a \<in> set addrs \<and> 0 \<le> b \<and> b < n then Some False else f a b)"
  using assms
proof (induction addrs arbitrary: rt f)
  case (Cons addr addrs)
  let ?rt = "rt\<lparr>rt_Servers := (rt_Servers rt)(addr \<mapsto> Map.empty)\<rparr>"
  let ?f = "\<lambda>a b. if a = addr \<and> b \<in> set [0 .. n - 1] then Some False else f a b"
  have n: "rt_NumBucket rt = n" using Cons.prems(1) by (simp add: routes_def)
  have "\<exists>rt1. add_buckets addr False [0 .. n - 1] ?rt = Some rt1 \<and> routes rt1 n ?f"
    using Cons.prems by (intro add_buckets_ok new_server) auto
  then obtain rt1 where r1: "add_buckets addr False [0 .. n - 1] ?rt = Some rt1" "routes rt1 n ?f" by blast
  have other: "\<forall>a \<in> set addrs. \<forall>b. ?f a b = None" using Cons.prems(2,3) by auto
  obtain rt' where r: "add_backups addrs rt1 = Some rt'" "routes rt' n (\<lambda>a b. if a \<in> set addrs \<and> 0 \<le> b \<and> b < n then Some False else ?f a b)"
    using Cons.IH [OF r1(2) _ other] Cons.prems(2) by auto
  moreover have "(\<lambda>a b. if a \<in> set addrs \<and> 0 \<le> b \<and> b < n then Some False else ?f a b) =
      (\<lambda>a b. if a \<in> set (addr # addrs) \<and> 0 \<le> b \<and> b < n then Some False else f a b)" by (auto simp: fun_eq_iff)
  ultimately show ?case using r1(1) n by simp
qed simp

lemma LoadFromYaml_ok:
  assumes "um data rt0 = Inr rt" "wf_route rt"
  shows "\<exists>rt'. LoadFromYaml um data rt0 = Some (None, rt') \<and> routes rt' (rt_NumBucket rt) (has_bucket rt)"
proof -
  let ?n = "rt_NumBucket rt" and ?ids = bucket_ids
  let ?rt = "rt\<lparr>rt_Servers := Map.empty, rt_Buckets := \<lambda>b. if 0 \<le> b \<and> b < ?n then Some Map.empty else None\<rparr>"
  let ?f = "\<lambda>a b. if \<exists>s \<in> set (rt_Main rt). sv_Addr s = a \<and> b \<in> set (?ids s) then Some True else None"
  have "routes ?rt ?n (\<lambda>_ _. None)" by (simp add: routes_def)
  then obtain rt1 where r1: "add_servers (rt_Main rt) ?rt = Some rt1" "routes rt1 ?n ?f"
    using add_servers_ok [of ?rt ?n "\<lambda>_ _. None" "rt_Main rt"] assms(2) by (auto simp: wf_route_def)
  have apart: "sv_Addr s \<notin> set (rt_Backup rt)" if "s \<in> set (rt_Main rt)" for s using assms(2) that by (auto simp: wf_route_def)
  then have other: "\<forall>a \<in> set (rt_Backup rt). \<forall>b. ?f a b = None" by auto
  have "distinct (rt_Backup rt)" using assms(2) by (simp add: wf_route_def)
  from add_backups_ok [OF r1(2) this other] obtain rt2 where r2: "add_backups (rt_Backup rt) rt1 = Some rt2"
      "routes rt2 ?n (\<lambda>a b. if a \<in> set (rt_Backup rt) \<and> 0 \<le> b \<and> b < ?n then Some False else ?f a b)" by blast
  have "(\<lambda>a b. if a \<in> set (rt_Backup rt) \<and> 0 \<le> b \<and> b < ?n then Some False else ?f a b) = has_bucket rt"
    using apart by (auto simp: fun_eq_iff has_bucket_def)
  then show ?thesis using r1(1) r2 assms(1) by (simp add: LoadFromYaml_def)
qed

lemma mark_buckets_ok:
  assumes "\<forall>b \<in> set bs. 0 \<le> b \<and> b < int (length (dr_BucketsStat r))"
  shows "\<exists>r'. mark_buckets num bs r = Some r' \<and> dr_NumBucket r' = dr_NumBucket r \<and> length (dr_BucketsStat r') = length (dr_BucketsStat r) \<and>
    dr_BucketsHex r' = dr_BucketsHex r @ map (\<lambda>b. BucketIDHex b num) bs \<and>
    (\<forall>i < length (dr_BucketsStat r). dr_BucketsStat r' ! i = (if int i \<in> set bs then 1 else dr_BucketsStat r ! i))"
  using assms
proof (induction bs arbitrary: r)
  case (Cons b bs)
  let ?r = "r\<lparr>dr_BucketsStat := (dr_BucketsStat r)[nat b := 1], dr_BucketsHex := dr_BucketsHex r @ [BucketIDHex b num]\<rparr>"
  obtain r' where r': "mark_buckets num bs ?r = Some r'" "dr_NumBucket r' = dr_NumBucket r" "length (dr_BucketsStat r') = length (dr_BucketsStat r)"
      "dr_BucketsHex r' = dr_BucketsHex r @ map (\<lambda>b. BucketIDHex b num) (b # bs)"
      "\<forall>i < length (dr_BucketsStat r). dr_BucketsStat r' ! i = (if int i \<in> set bs then 1 else (dr_BucketsStat r)[nat b := 1] ! i)"
    using Cons.IH [of ?r] Cons.prems by auto
  moreover have "(if int i \<in> set bs then 1 else (dr_BucketsStat r)[nat b := 1] ! i) = (if int i \<in> set (b # bs) then 1 else dr_BucketsStat r ! i)"
    if "i < length (dr_BucketsStat r)" for i using that Cons.prems by (auto simp: nth_list_update)
  ultimately show ?case using Cons.prems by auto
qed auto

lemma GetDBRouteConfig_exact:
  assumes "routes rt' n f" "0 \<le> n" "\<forall>m. finite (dom m) \<longrightarrow> set (order m) = dom m"
  shows "\<exists>r. GetDBRouteConfig order rt' addr = Some r \<and> length (dr_BucketsStat r) = nat n \<and>
    (\<forall>i < nat n. dr_BucketsStat r ! i = (if f addr (int i) \<noteq> None then 1 else 0))"
proof -
  have b: "\<And>a b. Option.bind (rt_Servers rt' a) (\<lambda>m. m b) = f a b" "\<And>a b. Option.bind (rt_Buckets rt' b) (\<lambda>m. m a) = f a b"
      "\<And>b. rt_Buckets rt' b \<noteq> None \<longleftrightarrow> 0 \<le> b \<and> b < n" "rt_NumBucket rt' = n" using assms(1) by (simp_all add: routes_def)
  let ?r = "\<lparr>dr_NumBucket = n, dr_BucketsStat = replicate (nat n) 0, dr_BucketsHex = []\<rparr>"
  show ?thesis
  proof (cases "rt_Servers rt' addr")
    case None
    then show ?thesis using b(1) [of addr] b(4) assms(2) by (simp add: GetDBRouteConfig_def)
  next
    case (Some m)
    then have m: "m c = f addr c" for c using b(1) [of addr c] by simp
    have d: "dom m \<subseteq> {0 ..< n}"
    proof
      fix c assume "c \<in> dom m"
      then have "Option.bind (rt_Buckets rt' c) (\<lambda>m. m addr) \<noteq> None" using m b(2) by (simp add: domIff)
      then have "rt_Buckets rt' c \<noteq> None" by (cases "rt_Buckets rt' c") simp_all
      then show "c \<in> {0 ..< n}" using b(3) by simp
    qed
    then have oset: "set (order m) = dom m" using assms(3) finite_subset [OF d] by simp
    have "\<forall>c \<in> set (order m). 0 \<le> c \<and> c < int (length (dr_BucketsStat ?r))" using oset d assms(2) by auto
    from mark_buckets_ok [OF this, of n] obtain r where r: "mark_buckets n (order m) ?r = Some r" "length (dr_BucketsStat r) = nat n"
        "\<forall>i < nat n. dr_BucketsStat r ! i = (if int i \<in> set (order m) then 1 else 0)" by auto
    have "GetDBRouteConfig order rt' addr = Some r" using r(1) assms(2) Some b(4) by (simp add: GetDBRouteConfig_def)
    moreover have "int i \<in> set (order m) \<longleftrightarrow> f addr (int i) \<noteq> None" for i using oset m by auto
    ultimately show ?thesis using r(2,3) by simp
  qed
qed

text \<open>A route table tells every server its buckets.  A file that parses, with different addresses and with bucket names that are numbers below the number of
  buckets, is loaded without a panic; the two maps of the table agree with each other and with the file (a main server has the buckets listed
  for it, a backup has all of them, marked false), and the configuration that a server takes from the table has the state 1 for exactly its
  buckets, in whatever order Go visits the map.\<close>

theorem route_table_exact:
  assumes "um data rt0 = Inr rt" and "wf_route rt" and "\<forall>m. finite (dom m) \<longrightarrow> set (order m) = dom m"
  shows "\<exists>rt' r. LoadFromYaml um data rt0 = Some (None, rt') \<and>
    (\<forall>a b. Option.bind (rt_Servers rt' a) (\<lambda>m. m b) = has_bucket rt a b \<and> Option.bind (rt_Buckets rt' b) (\<lambda>m. m a) = has_bucket rt a b) \<and>
    GetDBRouteConfig order rt' addr = Some r \<and> int (length (dr_BucketsStat r)) = rt_NumBucket rt \<and>
    (\<forall>i < length (dr_BucketsStat r). dr_BucketsStat r ! i = (if has_bucket rt addr (int i) \<noteq> None then 1 else 0))"
proof -
  obtain rt' where r: "LoadFromYaml um data rt0 = Some (None, rt')" "routes rt' (rt_NumBucket rt) (has_bucket rt)"
    using LoadFromYaml_ok [of um data rt0 rt] assms(1,2) by blast
  have n: "0 \<le> rt_NumBucket rt" using assms(2) by (simp add: wf_route_def)
  from GetDBRouteConfig_exact [OF r(2) n assms(3), of addr] r n show ?thesis by (auto simp: routes_def)
qed

section \<open>What goes wrong\<close>

lemma decode_buckets_error: "decode_buckets xs = (Some err, bs) \<Longrightarrow> 0 \<in> set bs"
  by (induction xs arbitrary: bs) (auto split: prod.splits option.splits)

text \<open>A bucket name that is not a number gives its server bucket 0.  \<open>LoadFromYaml\<close> does not look at the error of \<open>Decode\<close>, which leaves the zero
  values of the entries not decoded: the table of one server with such a name loads without error, and the server takes bucket 0 for its own.\<close>

theorem bad_bucket_name_is_zero:
  assumes "um data rt0 = Inr rt" and "rt_Main rt = [s]" and "rt_Backup rt = []" and "0 < rt_NumBucket rt" and "fst (Server_Decode s) \<noteq> None"
    and "\<forall>b \<in> set (sv_Buckets (snd (Server_Decode s))). 0 \<le> b \<and> b < rt_NumBucket rt"
  shows "\<exists>rt' m. LoadFromYaml um data rt0 = Some (None, rt') \<and> rt_Servers rt' (sv_Addr s) = Some m \<and> m 0 = Some True"
proof -
  let ?n = "rt_NumBucket rt" and ?s = "snd (Server_Decode s)"
  have a: "sv_Addr ?s = sv_Addr s" "0 \<in> set (sv_Buckets ?s)"
    using assms(5) decode_buckets_error [of "sv_BucketsHex s"] by (auto simp: Server_Decode_def split: prod.splits)
  let ?rt = "rt\<lparr>rt_Buckets := \<lambda>b. if 0 \<le> b \<and> b < ?n then Some Map.empty else None, rt_Servers := [sv_Addr s \<mapsto> Map.empty]\<rparr>"
  have "routes ?rt ?n (\<lambda>_ _. None)" by (simp add: routes_def)
  then obtain rt' where r: "add_buckets (sv_Addr s) True (sv_Buckets ?s) ?rt = Some rt'"
      "routes rt' ?n (\<lambda>x b. if x = sv_Addr s \<and> b \<in> set (sv_Buckets ?s) then Some True else None)"
    using add_buckets_ok [of ?rt ?n "\<lambda>_ _. None" "sv_Addr s" "sv_Buckets ?s" True] assms(6) by auto
  have "Option.bind (rt_Servers rt' (sv_Addr s)) (\<lambda>m. m 0) = Some True" using r(2) a(2) by (simp add: routes_def)
  then obtain m where "rt_Servers rt' (sv_Addr s) = Some m" "m 0 = Some True" by (auto simp: bind_eq_Some_conv)
  then show ?thesis using r(1) assms(1-3) a(1) by (simp add: LoadFromYaml_def Let_def)
qed

text \<open>The local copy of the route table.  When the table was loaded from ZooKeeper, the next start without ZooKeeper finds the same table in the
  local file if the file was new or not longer than the table that was written; the file holds the table exactly in these cases, since what is behind
  the end of the new table in a longer file is kept.\<close>

theorem local_route_copy:
  assumes "GetRouteRaw zget (- 1) = (data, ver, None)" and "LoadRouteTableZK um (Some zget) path = Some (Inr (rt, ver), path')"
  shows "load_route um (Some (Some zget)) path = Some (Inr rt, path') \<and>
    (path' = Some data \<longleftrightarrow> (\<forall>old. path = Some old \<longrightarrow> length old \<le> length data)) \<and>
    ((\<forall>old. path = Some old \<longrightarrow> length old \<le> length data) \<longrightarrow> load_route um None path' = Some (Inr rt, path'))"
proof -
  have z: "LoadFromYaml um data empty_table = Some (None, rt)" "path' = Some (UpdateLocalRoute data path)"
    using assms by (auto simp: LoadRouteTableZK_def split: option.splits prod.splits)
  have e: "path' = Some data \<longleftrightarrow> (\<forall>old. path = Some old \<longrightarrow> length old \<le> length data)"
    using z(2) by (cases path) (simp_all add: UpdateLocalRoute_def)
  moreover have "load_route um None (Some data) = Some (Inr rt, Some data)" using z(1) by (simp add: load_route_def LoadRouteTableLocal_def)
  moreover have "load_route um (Some (Some zget)) path = Some (Inr rt, path')" using assms(2) by (simp add: load_route_def)
  ultimately show ?thesis by metis
qed

section \<open>Concrete tables\<close>

lemmas parse_simps = ParseInt_def ParseUint_def digit_val_def Let_def

definition sample_table :: RouteTable where
  "sample_table = empty_table\<lparr>rt_NumBucket := 16, rt_Main := [\<lparr>sv_Addr = ''a:7900'', sv_Buckets = [], sv_BucketsHex = [''0'', ''f'']\<rparr>], rt_Backup := [''b:7900'']\<rparr>"

definition sample_yaml :: yaml where
  "sample_yaml data rt = (if data = ''t'' then Inr sample_table else Inl YamlErr)"

theorem route_table_exact_witness:
  "\<exists>rt' r. LoadFromYaml sample_yaml ''t'' empty_table = Some (None, rt') \<and>
     GetDBRouteConfig (\<lambda>m. sorted_list_of_set (dom m)) rt' ''a:7900'' = Some r \<and>
     int (length (dr_BucketsStat r)) = 16 \<and> dr_BucketsStat r ! 15 = 1 \<and> dr_BucketsStat r ! 1 = 0"
proof -
  have p: "ParseInt 16 16 ''0'' = (0, None)" "ParseInt 16 16 ''f'' = (15, None)" by (simp_all add: parse_simps)
  have w: "wf_route sample_table" by (auto simp: wf_route_def sample_table_def empty_table_def p)
  have y: "sample_yaml ''t'' empty_table = Inr sample_table" by (simp add: sample_yaml_def)
  have "has_bucket sample_table ''a:7900'' 15 = Some True" "has_bucket sample_table ''a:7900'' 1 = None"
    by (simp_all add: has_bucket_def sample_table_def empty_table_def bucket_ids_def p)
  moreover have "rt_NumBucket sample_table = 16" by (simp add: sample_table_def)
  ultimately show ?thesis
    using route_table_exact [of sample_yaml "''t''" empty_table sample_table "\<lambda>m. sorted_list_of_set (dom m)" "''a:7900''"] y w by fastforce
qed

theorem bad_bucket_name_is_zero_witness:
  "\<exists>rt' m. LoadFromYaml (\<lambda>_ rt. Inr (sample_table\<lparr>rt_Main := [\<lparr>sv_Addr = ''a:7900'', sv_Buckets = [], sv_BucketsHex = [''f'', ''g'']\<rparr>], rt_Backup := []\<rparr>)) [] empty_table
     = Some (None, rt') \<and> rt_Servers rt' ''a:7900'' = Some m \<and> m 0 = Some True"
proof -
  let ?s = "\<lparr>sv_Addr = ''a:7900'', sv_Buckets = [], sv_BucketsHex = [''f'', ''g'']\<rparr>"
  let ?rt = "sample_table\<lparr>rt_Main := [?s], rt_Backup := []\<rparr>"
  have p: "ParseInt 16 16 ''f'' = (15, None)" "ParseInt 16 16 ''g'' = (0, Some ErrSyntax)" by (simp_all add: parse_simps)
  have "Server_Decode ?s = (Some (HexErr ErrSyntax), ?s\<lparr>sv_Buckets := [15, 0]\<rparr>)" by (simp add: Server_Decode_def p)
  then show ?thesis
    using bad_bucket_name_is_zero [of "\<lambda>_ rt. Inr ?rt" "[]" empty_table ?rt ?s] by (simp add: sample_table_def empty_table_def)
qed

theorem local_route_copy_witness:
  "\<exists>rt. load_route sample_yaml (Some (Some (\<lambda>p. Some (if p = ''route'' then ''7'' else ''t'')))) (Some ''old'') = Some (Inr rt, Some ''tld'')
     \<and> Some ''tld'' \<noteq> Some ''t''"
proof -
  let ?z = "\<lambda>p. Some (if p = ''route'' then ''7'' else ''t'')"
  have g: "GetRouteRaw ?z (- 1) = (''t'', 7, None)"
  proof -
    have "Atoi ''7'' = (7, None)" by (simp add: parse_simps)
    then show ?thesis by (simp add: GetRouteRaw_def)
  qed
  obtain rt where r: "LoadFromYaml sample_yaml ''t'' empty_table = Some (None, rt)"
  proof -
    have p: "ParseInt 16 16 ''0'' = (0, None)" "ParseInt 16 16 ''f'' = (15, None)" by (simp_all add: parse_simps)
    have "wf_route sample_table" by (auto simp: wf_route_def sample_table_def empty_table_def p)
    then show ?thesis using that LoadFromYaml_ok [of sample_yaml "''t''" empty_table sample_table] by (auto simp: sample_yaml_def)
  qed
  have z: "LoadRouteTableZK sample_yaml (Some ?z) (Some ''old'') = Some (Inr (rt, 7), Some ''tld'')"
    using g r by (simp add: LoadRouteTableZK_def UpdateLocalRoute_def)
  from local_route_copy [OF g z] show ?thesis by auto
qed

end
