(* ===== verification/Disk.thy ===== *)
theory Disk
  imports Prelude "HOL-Library.Char_ord" "HOL-Library.List_Lexorder"
begin

text \<open>
  Listings of directories (\<open>utils/disk.go\<close>): a \<open>Dir\<close> is a Go map from names to sizes, here the list of its entries, whose names are different.
  Strings are ordered as Go orders them, by their bytes.  \<open>Diff\<close> is a merge of the two sorted listings; the lemmas show that it finds exactly the files that
  only one side has or that have another size there.
\<close>

type_synonym File = "string \<times> int"
type_synonym Dir = "File list"

definition dir_ok :: "Dir \<Rightarrow> bool" where
  "dir_ok d \<longleftrightarrow> distinct (map fst d)"

definition Dir_Set :: "string \<Rightarrow> int \<Rightarrow> Dir \<Rightarrow> Dir" where
  "Dir_Set name n d = (name, n) # filter (\<lambda>f. fst f \<noteq> name) d"

definition SetMulti :: "File list \<Rightarrow> Dir \<Rightarrow> Dir" where
  "SetMulti files d = foldl (\<lambda>d (name, n). Dir_Set name n d) d files"

definition SetMultiNoSize :: "string list \<Rightarrow> Dir \<Rightarrow> Dir" where
  "SetMultiNoSize names d = foldl (\<lambda>d name. Dir_Set name (- 1) d) d names"

definition Dir_Delete :: "string \<Rightarrow> Dir \<Rightarrow> Dir" where
  "Dir_Delete name d = filter (\<lambda>f. fst f \<noteq> name) d"

text \<open>\<open>Load\<close> enters what \<open>Readdir\<close> returned.\<close>

definition Dir_Load :: "File list option \<Rightarrow> Dir \<Rightarrow> Dir option" where
  "Dir_Load listing d = map_option (\<lambda>fs. SetMulti fs d) listing"

definition ToSlice :: "Dir \<Rightarrow> File list" where
  "ToSlice d = sort_key fst d"

definition isSame :: "File \<Rightarrow> File \<Rightarrow> bool" where
  "isSame f g \<longleftrightarrow> fst f = fst g \<and> (snd f = - 1 \<or> snd g = - 1 \<or> snd f = snd g)"

fun diff_loop :: "File list \<Rightarrow> File list \<Rightarrow> File list \<times> File list" where
  "diff_loop [] s2 = ([], s2)"
| "diff_loop (f # s) [] = (f # s, [])"
| "diff_loop (f # s) (g # s2) =
     (if isSame f g then diff_loop s s2
      else if fst f < fst g then (let (r1, r2) = diff_loop s (g # s2) in (f # r1, r2))
      else if fst f > fst g then (let (r1, r2) = diff_loop (f # s) s2 in (r1, g # r2))
      else (let (r1, r2) = diff_loop s s2 in (f # r1, g # r2)))"

definition Dir_Diff :: "Dir \<Rightarrow> Dir \<Rightarrow> File list \<times> File list" where
  "Dir_Diff d d2 = diff_loop (ToSlice d) (ToSlice d2)"

definition CheckPath :: "File list option \<Rightarrow> Dir \<Rightarrow> (Dir \<times> File list \<times> File list) option" where
  "CheckPath listing d = map_option (\<lambda>d2. (d2, Dir_Diff d d2)) (Dir_Load listing [])"

text \<open>\<open>DirUsage\<close>: -1 with an error when the directory cannot be opened, 0 with an error when it cannot be read.\<close>

definition DirUsage :: "File list option option \<Rightarrow> int \<times> bool" where
  "DirUsage d = (case d of None \<Rightarrow> (- 1, True) | Some None \<Rightarrow> (0, True) | Some (Some fs) \<Rightarrow> (sum_list (map snd fs), False))"

section \<open>Keeping names different\<close>

lemma map_of_filter_name: "map_of (filter (\<lambda>f. fst f \<noteq> name) d) x = (if x = name then None else map_of d x)"
  by (induction d) auto

lemma Dir_Set_ok: "dir_ok d \<Longrightarrow> dir_ok (Dir_Set name n d)" "map_of (Dir_Set name n d) = (map_of d)(name \<mapsto> n)"
proof -
  show "dir_ok (Dir_Set name n d)" if "dir_ok d"
    using that distinct_map_filter [of fst d "\<lambda>f. fst f \<noteq> name"] by (auto simp: dir_ok_def Dir_Set_def)
  show "map_of (Dir_Set name n d) = (map_of d)(name \<mapsto> n)" by (simp add: Dir_Set_def fun_eq_iff map_of_filter_name)
qed

lemma Dir_Delete_ok: "dir_ok d \<Longrightarrow> dir_ok (Dir_Delete name d)" "map_of (Dir_Delete name d) = (map_of d)(name := None)"
proof -
  show "dir_ok (Dir_Delete name d)" if "dir_ok d"
    using that distinct_map_filter [of fst d "\<lambda>f. fst f \<noteq> name"] by (auto simp: dir_ok_def Dir_Delete_def)
  show "map_of (Dir_Delete name d) = (map_of d)(name := None)" by (simp add: Dir_Delete_def fun_eq_iff map_of_filter_name)
qed

lemma SetMulti_ok: "dir_ok d \<Longrightarrow> dir_ok (SetMulti files d)" "map_of (SetMulti files d) = map_of d ++ map_of (rev files)"
  by (induction files arbitrary: d) (auto simp: SetMulti_def Dir_Set_ok map_add_def fun_eq_iff split: option.splits)

section \<open>The difference\<close>

text \<open>The file has a partner in the other listing.\<close>

definition known_in :: "File list \<Rightarrow> File \<Rightarrow> bool" where
  "known_in s f \<longleftrightarrow> (\<exists>g \<in> set s. isSame f g)"

definition slice_ok :: "File list \<Rightarrow> bool" where
  "slice_ok s \<longleftrightarrow> sorted_wrt (\<lambda>f g. fst f < fst g) s"

lemma isSame_sym: "isSame f g = isSame g f"
  by (auto simp: isSame_def)

lemma later_differs: "fst k \<le> fst f \<Longrightarrow> fst f < fst h \<Longrightarrow> \<not> isSame h k \<and> \<not> isSame k h"
  by (auto simp: isSame_def)

lemma known_Cons: "known_in (g # s) f \<longleftrightarrow> isSame f g \<or> known_in s f"
  by (simp add: known_in_def)

lemma diff_loop_exact:
  "slice_ok s \<Longrightarrow> slice_ok s2 \<Longrightarrow> diff_loop s s2 = (filter (\<lambda>f. \<not> known_in s2 f) s, filter (\<lambda>g. \<not> known_in s g) s2)"
proof (induction s s2 rule: diff_loop.induct)
  case (1 s2)
  then show ?case by (simp add: known_in_def filter_id_conv)
next
  case (2 f s)
  then show ?case by (simp add: known_in_def filter_id_conv)
next
  case (3 f s g s2)
  have ord: "\<forall>h \<in> set s. fst f < fst h" "\<forall>h \<in> set s2. fst g < fst h" "slice_ok s" "slice_ok s2" using "3.prems" by (auto simp: slice_ok_def)
  have "\<not> isSame h g" if "fst g \<le> fst f" "h \<in> set s" for h using later_differs [OF that(1)] ord(1) that(2) by blast
  then have drop1: "filter (\<lambda>h. \<not> known_in (g # s2) h) s = filter (\<lambda>h. \<not> known_in s2 h) s" if "fst g \<le> fst f"
    using that by (intro filter_cong refl) (simp add: known_Cons)
  have "\<not> isSame h f" if "fst f \<le> fst g" "h \<in> set s2" for h using later_differs [OF that(1)] ord(2) that(2) by blast
  then have drop2: "filter (\<lambda>h. \<not> known_in (f # s) h) s2 = filter (\<lambda>h. \<not> known_in s h) s2" if "fst f \<le> fst g"
    using that by (intro filter_cong refl) (simp add: known_Cons)
  have none1: "\<not> known_in s2 f" if "fst f \<le> fst g" using later_differs [OF that] ord(2) unfolding known_in_def by blast
  have none2: "\<not> known_in s g" if "fst g \<le> fst f" using later_differs [OF that] ord(1) unfolding known_in_def by blast
  show ?case
  proof (cases "isSame f g")
    case True
    then have "fst f = fst g" by (simp add: isSame_def)
    then show ?thesis using True "3.IH"(1) ord(3,4) drop1 drop2 isSame_sym [of f g] by (simp add: known_Cons)
  next
    case False
    have f0: "known_in (g # s2) f \<longleftrightarrow> known_in s2 f" "known_in (f # s) g \<longleftrightarrow> known_in s g" using False isSame_sym [of f g] by (simp_all add: known_Cons)
    consider "fst f < fst g" | "fst g < fst f" | "fst f = fst g" by (rule linorder_cases [of "fst f" "fst g"])
    then show ?thesis
    proof cases
      case 1
      then show ?thesis using False "3.IH"(2) ord(3) "3.prems"(2) f0 drop2 none1 by simp
    next
      case 2
      then have "\<not> fst f < fst g" "fst g \<le> fst f" by auto
      then show ?thesis using 2 False "3.IH"(3) ord(4) "3.prems"(1) f0 drop1 none2 by simp
    next
      case 3
      then show ?thesis using False "3.IH"(4) ord(3,4) f0 drop1 drop2 none1 none2 by simp
    qed
  qed
qed

lemma ToSlice_ok:
  assumes "dir_ok d"
  shows "slice_ok (ToSlice d)" "set (ToSlice d) = set d"
proof -
  have "sorted (map fst (ToSlice d))" "set (ToSlice d) = set d" by (simp_all add: ToSlice_def)
  moreover have "set (map fst (ToSlice d)) = set (map fst d)" "length (map fst (ToSlice d)) = length (map fst d)" by (simp_all add: ToSlice_def)
  then have "distinct (map fst (ToSlice d))" using assms distinct_card card_distinct unfolding dir_ok_def by metis
  ultimately show "slice_ok (ToSlice d)" "set (ToSlice d) = set d" by (simp_all add: slice_ok_def strict_sorted_iff flip: sorted_wrt_map)
qed

lemma map_of_pairs: "dir_ok d \<Longrightarrow> (n, x) \<in> set d \<longleftrightarrow> map_of d n = Some x"
  by (simp add: dir_ok_def map_of_eq_Some_iff)

lemma known_in_map: "dir_ok s \<Longrightarrow> known_in s (n, x) \<longleftrightarrow> (\<exists>z. map_of s n = Some z \<and> (x = - 1 \<or> z = - 1 \<or> x = z))"
  by (force simp: known_in_def isSame_def simp flip: map_of_pairs)

lemma all_known:
  assumes "dir_ok d" "dir_ok s"
  shows "(\<forall>f \<in> set d. known_in s f) \<longleftrightarrow> (\<forall>n x. map_of d n = Some x \<longrightarrow> (\<exists>z. map_of s n = Some z \<and> (x = - 1 \<or> z = - 1 \<or> x = z)))"
proof -
  have "(\<forall>f \<in> set d. known_in s f) \<longleftrightarrow> (\<forall>n x. (n, x) \<in> set d \<longrightarrow> known_in s (n, x))" by auto
  then show ?thesis by (simp only: map_of_pairs [OF assms(1)] known_in_map [OF assms(2)])
qed

lemma agree_options:
  fixes a b :: "int option"
  shows "(\<forall>x. a = Some x \<longrightarrow> (\<exists>z. b = Some z \<and> (x = - 1 \<or> z = - 1 \<or> x = z))) \<and> (\<forall>x. b = Some x \<longrightarrow> (\<exists>z. a = Some z \<and> (x = - 1 \<or> z = - 1 \<or> x = z))) \<longleftrightarrow>
    (a = None \<longleftrightarrow> b = None) \<and> (\<forall>x y. a = Some x \<and> b = Some y \<longrightarrow> x = - 1 \<or> y = - 1 \<or> x = y)"
  by (cases a; cases b) auto

text \<open>C38: comparing a listing with a directory is exact.  \<open>CheckPath\<close> with what the directory holds returns, sorted by name, the expected files that the directory does not
  have with this size, and the files of the directory that are not expected with this size, where a size of -1 stands for any; both are empty
  exactly when the names are the same and the sizes agree.\<close>

theorem check_path_exact:
  assumes "dir_ok d" and "dir_ok listing"
  shows "\<exists>d2 r1 r2. CheckPath (Some listing) d = Some (d2, r1, r2) \<and> map_of d2 = map_of listing \<and>
    r1 = filter (\<lambda>f. \<not> known_in listing f) (ToSlice d) \<and> r2 = filter (\<lambda>f. \<not> known_in d f) (ToSlice d2) \<and>
    (r1 = [] \<and> r2 = [] \<longleftrightarrow> (\<forall>n. (map_of d n = None \<longleftrightarrow> map_of listing n = None) \<and>
      (\<forall>x y. map_of d n = Some x \<and> map_of listing n = Some y \<longrightarrow> x = - 1 \<or> y = - 1 \<or> x = y)))"
proof -
  let ?d2 = "SetMulti listing []"
  have ok: "dir_ok ?d2" "map_of ?d2 = map_of (rev listing)" using SetMulti_ok(1) [of "[]" listing] SetMulti_ok(2) [of listing "[]"] by (simp_all add: dir_ok_def)
  have m: "map_of ?d2 = map_of listing"
  proof
    fix n
    have "dir_ok (rev listing)" using assms(2) by (simp add: dir_ok_def rev_map [symmetric])
    then have "map_of ?d2 n = Some x \<longleftrightarrow> map_of listing n = Some x" for x using map_of_pairs [of "rev listing" n x] map_of_pairs [OF assms(2), of n x] ok(2) by simp
    then show "map_of ?d2 n = map_of listing n" by (metis not_None_eq)
  qed
  have set2: "set ?d2 = set listing" using map_of_pairs [OF ok(1)] map_of_pairs [OF assms(2)] m by auto
  have k: "known_in (ToSlice ?d2) = known_in listing" "known_in (ToSlice d) = known_in d"
    using ToSlice_ok [OF assms(1)] ToSlice_ok [OF ok(1)] set2 by (auto simp: known_in_def fun_eq_iff)
  let ?r1 = "filter (\<lambda>f. \<not> known_in listing f) (ToSlice d)" and ?r2 = "filter (\<lambda>f. \<not> known_in d f) (ToSlice ?d2)"
  have "Dir_Diff d ?d2 = (?r1, ?r2)"
    using diff_loop_exact [OF ToSlice_ok(1) [OF assms(1)] ToSlice_ok(1) [OF ok(1)]] k by (simp add: Dir_Diff_def)
  then have c: "CheckPath (Some listing) d = Some (?d2, ?r1, ?r2)" by (simp add: CheckPath_def Dir_Load_def)
  have "?r1 = [] \<and> ?r2 = [] \<longleftrightarrow> (\<forall>f \<in> set d. known_in listing f) \<and> (\<forall>f \<in> set listing. known_in d f)"
    using ToSlice_ok(2) [OF assms(1)] ToSlice_ok(2) [OF ok(1)] set2 by (simp add: filter_empty_conv)
  also have "\<dots> \<longleftrightarrow> (\<forall>n. (map_of d n = None \<longleftrightarrow> map_of listing n = None) \<and>
      (\<forall>x y. map_of d n = Some x \<and> map_of listing n = Some y \<longrightarrow> x = - 1 \<or> y = - 1 \<or> x = y))"
    unfolding all_known [OF assms] all_known [OF assms(2,1)] agree_options [symmetric] by blast
  finally show ?thesis using c m by (intro exI [of _ ?d2] exI [of _ ?r1] exI [of _ ?r2]) simp
qed

theorem check_path_exact_witness:
  "\<exists>d2 r1 r2. CheckPath (Some [(''a'', 1), (''b'', 2)]) [(''b'', - 1), (''c'', 3)] = Some (d2, r1, r2) \<and> r1 = [(''c'', 3)]"
proof -
  have "dir_ok [(''b'', - 1), (''c'', 3)]" "dir_ok [(''a'', 1), (''b'', 2)]" by (simp_all add: dir_ok_def)
  from check_path_exact [OF this] show ?thesis by (auto simp: ToSlice_def known_in_def isSame_def)
qed

end
