(* ===== verification/Info.thy ===== *)
theory Info
  imports StoreMap Disk
begin

text \<open>
  What the store tells about itself: the usage of disks (\<open>GetDU\<close>), the running collections (\<open>GCBuckets\<close>) of \<open>store/hstore.go\<close>, the information of a bucket (\<open>getInfo\<close>
  of \<open>store/bucket.go\<close>) and the disk status of \<open>utils/disk.go\<close>.  What the file system answers is an argument.  The lemmas show that every ready bucket is
  listed under its disk, once and in order.
\<close>

section \<open>Definitions\<close>

record DiskStatus =
  ds_Root :: string
  ds_All :: int
  ds_Used :: int
  ds_Free :: int
  ds_Buckets :: "nat list"

text \<open>\<open>DiskUsage\<close>: the cleaned real path (or an error), the block counts and the block size.  A path is split at its slashes.\<close>

fun split_slash :: "string \<Rightarrow> string list" where
  "split_slash [] = [[]]"
| "split_slash (c # cs) =
     (if c = CHR ''/'' then [] # split_slash cs
      else case split_slash cs of w # ws \<Rightarrow> (c # w) # ws | [] \<Rightarrow> [[c]])"

definition DiskUsage :: "string option \<Rightarrow> (int \<times> int \<times> int) option \<Rightarrow> DiskStatus option" where
  "DiskUsage realpath statfs = do {
     p \<leftarrow> realpath;
     (blocks, bfree, bsize) \<leftarrow> statfs;
     root \<leftarrow> nth_opt (split_slash p) 1;
     Some \<lparr>ds_Root = ''/'' @ root, ds_All = blocks * bsize, ds_Used = blocks * bsize - bfree * bsize, ds_Free = bfree * bsize, ds_Buckets = []\<rparr>
   }"

record DU =
  du_Disks :: "string \<rightharpoonup> DiskStatus"
  du_BucketsHex :: "string \<rightharpoonup> int"
  du_Buckets :: "nat \<rightharpoonup> int"
  du_Errs :: "nat list"

definition NewDU :: DU where
  "NewDU = \<lparr>du_Disks = Map.empty, du_BucketsHex = Map.empty, du_Buckets = Map.empty, du_Errs = []\<rparr>"

text \<open>One ready bucket; an error is recorded as the number of the bucket.\<close>

definition du_bucket :: "int \<Rightarrow> (nat \<Rightarrow> DiskStatus option) \<Rightarrow> (nat \<Rightarrow> int option) \<Rightarrow> nat \<Rightarrow> DU \<Rightarrow> DU" where
  "du_bucket numBucket disk dir i du =
     (let du1 = (case disk i of
          None \<Rightarrow> du\<lparr>du_Errs := du_Errs du @ [i]\<rparr>
        | Some fsu \<Rightarrow>
            (let bs = (case du_Disks du (ds_Root fsu) of Some old \<Rightarrow> ds_Buckets old @ [i] | None \<Rightarrow> [i])
             in du\<lparr>du_Disks := (du_Disks du)(ds_Root fsu \<mapsto> fsu\<lparr>ds_Buckets := bs\<rparr>)\<rparr>))
      in case dir i of
           None \<Rightarrow> du1\<lparr>du_Errs := du_Errs du1 @ [i]\<rparr>
         | Some n \<Rightarrow> du1\<lparr>du_Buckets := (du_Buckets du1)(i \<mapsto> n), du_BucketsHex := (du_BucketsHex du1)(BucketIDHex (int i) numBucket \<mapsto> n)\<rparr>)"

fun du_loop :: "int \<Rightarrow> (nat \<Rightarrow> DiskStatus option) \<Rightarrow> (nat \<Rightarrow> int option) \<Rightarrow> nat \<Rightarrow> StoreBucket list \<Rightarrow> DU \<Rightarrow> DU" where
  "du_loop numBucket disk dir i [] du = du"
| "du_loop numBucket disk dir i (sb # sbs) du =
     du_loop numBucket disk dir (i + 1) sbs (if sb_State sb = BUCKET_STAT_READY then du_bucket numBucket disk dir i du else du)"

definition GetDU :: "int \<Rightarrow> (nat \<Rightarrow> DiskStatus option) \<Rightarrow> (nat \<Rightarrow> int option) \<Rightarrow> HStore \<Rightarrow> DU" where
  "GetDU numBucket disk dir s = du_loop numBucket disk dir 0 (hs_buckets s) NewDU"

text \<open>\<open>GCBuckets\<close>: the lines for the running collections under the roots of their disks; a disk that cannot be read has the root ''''''.\<close>

definition fetchRemain :: "int \<Rightarrow> int \<Rightarrow> Bucket \<Rightarrow> int option" where
  "fetchRemain current final b =
     (if current \<le> final \<and> (current < 0 \<or> MAX_NUM_CHUNK \<le> final) then None
      else Some (int (length (filter (\<lambda>i. dc_size (ds_chunks (bk_datas b) i) > 0) [current .. final]))))"

fun gc_lines :: "(nat \<Rightarrow> DiskStatus option) \<Rightarrow> HStore \<Rightarrow> (int \<times> GCState) list \<Rightarrow> (string \<rightharpoonup> string list) \<Rightarrow> (string \<rightharpoonup> string list) option" where
  "gc_lines disk s [] res = Some res"
| "gc_lines disk s ((i, st) # rest) res = do {
     sb \<leftarrow> nth_int (hs_buckets s) i;
     b \<leftarrow> sb_Bkt sb;
     remain \<leftarrow> fetchRemain (gs_Src st) (gs_End st) b;
     let root = (case disk (nat i) of Some d \<Rightarrow> ds_Root d | None \<Rightarrow> []);
     let line = ''bkt: '' @ FormatPad 16 2 i @ '', start -> '' @ Itoa (gs_Begin st) @ '', end -> '' @ Itoa (gs_End st) @ '', remain -> '' @ Itoa remain;
     gc_lines disk s rest (res(root \<mapsto> (case res root of Some ls \<Rightarrow> ls | None \<Rightarrow> []) @ [line]))
   }"

definition GCBuckets :: "(nat \<Rightarrow> DiskStatus option) \<Rightarrow> HStore \<Rightarrow> (string \<rightharpoonup> string list) option" where
  "GCBuckets disk s = gc_lines disk s (hs_gcstat s) Map.empty"

text \<open>\<open>getInfo\<close> fills in the position of the next record, the state of the hints and the size \<open>du\<close> of the directory; the other fields are those of the bucket, and the
  last collection is left out.  When all chunks are used up the index is out of range.\<close>

record BucketInfo =
  bi_Pos :: Position
  bi_HintState :: u64
  bi_MaxDumpedHintID :: HintID
  bi_DU :: int

definition getInfo :: "int \<Rightarrow> Bucket \<Rightarrow> BucketInfo option" where
  "getInfo du b =
     (let head = ds_newHead (bk_datas b) in
      if chunk_in_range head
      then Some \<lparr>bi_Pos = \<lparr>ChunkID = head, Offset = dc_size (ds_chunks (bk_datas b) head)\<rparr>, bi_HintState = hm_state (bk_hints b),
        bi_MaxDumpedHintID = hm_maxDumpedHintID (bk_hints b), bi_DU = du\<rparr>
      else None)"

section \<open>Every ready bucket is listed\<close>

definition ready_buckets :: "HStore \<Rightarrow> nat list" where
  "ready_buckets s = filter (\<lambda>i. sb_State (hs_buckets s ! i) = BUCKET_STAT_READY) [0..<length (hs_buckets s)]"

definition on_disk :: "(nat \<Rightarrow> DiskStatus option) \<Rightarrow> string \<Rightarrow> nat \<Rightarrow> bool" where
  "on_disk disk root i \<longleftrightarrow> map_option ds_Root (disk i) = Some root"

definition du_ok :: "(nat \<Rightarrow> DiskStatus option) \<Rightarrow> (nat \<Rightarrow> int option) \<Rightarrow> nat list \<Rightarrow> DU \<Rightarrow> bool" where
  "du_ok disk dir R du \<longleftrightarrow>
     (\<forall>root. map_option ds_Buckets (du_Disks du root) = (let bs = filter (on_disk disk root) R in if bs = [] then None else Some bs)) \<and>
     (\<forall>i. du_Buckets du i = (if i \<in> set R then dir i else None))"

lemma du_bucket_ok:
  assumes "du_ok disk dir R du" "i \<notin> set R"
  shows "du_ok disk dir (R @ [i]) (du_bucket n disk dir i du)"
proof -
  let ?du = "du_bucket n disk dir i du"
  have D: "map_option ds_Buckets (du_Disks du root) = (let bs = filter (on_disk disk root) R in if bs = [] then None else Some bs)" for root
    using assms(1) by (simp add: du_ok_def)
  have "map_option ds_Buckets (du_Disks ?du root) = (let bs = filter (on_disk disk root) (R @ [i]) in if bs = [] then None else Some bs)" for root
  proof (cases "disk i")
    case None
    then have "du_Disks ?du = du_Disks du" by (simp add: du_bucket_def Let_def split: option.split)
    then show ?thesis using D [of root] None by (simp add: on_disk_def)
  next
    case (Some fsu)
    then show ?thesis using D [of root] by (cases "du_Disks du (ds_Root fsu)") (auto simp: du_bucket_def on_disk_def Let_def split: option.split if_splits)
  qed
  moreover have "du_Buckets ?du j = (if j \<in> set (R @ [i]) then dir j else None)" for j
    using assms by (auto simp: du_ok_def du_bucket_def Let_def split: option.split)
  ultimately show ?thesis by (simp add: du_ok_def)
qed

lemma du_loop_ok:
  assumes "du_ok disk dir R du" "\<forall>j \<in> set R. j < i"
  shows "du_ok disk dir (R @ filter (\<lambda>j. sb_State (sbs ! (j - i)) = BUCKET_STAT_READY) [i..<i + length sbs]) (du_loop n disk dir i sbs du)"
  using assms
proof (induction sbs arbitrary: i R du)
  case (Cons sb sbs)
  let ?R = "R @ (if sb_State sb = BUCKET_STAT_READY then [i] else [])"
  have ok: "du_ok disk dir ?R (if sb_State sb = BUCKET_STAT_READY then du_bucket n disk dir i du else du)"
    using du_bucket_ok [OF Cons.prems(1)] Cons.prems by auto
  have less: "\<forall>j \<in> set ?R. j < i + 1" using Cons.prems(2) by (auto simp: less_SucI)
  have u: "[i..<i + length (sb # sbs)] = i # [i + 1..<i + 1 + length sbs]" using upt_conv_Cons [of i "i + length (sb # sbs)"] by simp
  have f: "filter (\<lambda>j. sb_State ((sb # sbs) ! (j - i)) = BUCKET_STAT_READY) [i + 1..<i + 1 + length sbs] =
      filter (\<lambda>j. sb_State (sbs ! (j - (i + 1))) = BUCKET_STAT_READY) [i + 1..<i + 1 + length sbs]"
    by (rule filter_cong) (auto simp: nth_Cons' Suc_le_eq)
  have eq: "R @ filter (\<lambda>j. sb_State ((sb # sbs) ! (j - i)) = BUCKET_STAT_READY) [i..<i + length (sb # sbs)] =
      ?R @ filter (\<lambda>j. sb_State (sbs ! (j - (i + 1))) = BUCKET_STAT_READY) [i + 1..<i + 1 + length sbs]"
    unfolding u filter.simps f by simp
  show ?case unfolding eq using Cons.IH [OF ok less] by simp
qed simp

text \<open>The disk usage lists every ready bucket.  Under every root of a disk, \<open>GetDU\<close> lists exactly the ready buckets whose directory is on that disk, each once and in order,
  and the size of its directory for every ready bucket for which it could be read.\<close>

theorem du_lists_ready:
  "map_option ds_Buckets (du_Disks (GetDU n disk dir s) root) =
     (let bs = filter (on_disk disk root) (ready_buckets s) in if bs = [] then None else Some bs) \<and>
   du_Buckets (GetDU n disk dir s) i = (if i \<in> set (ready_buckets s) then dir i else None)"
proof -
  have "du_ok disk dir [] NewDU" by (simp add: du_ok_def NewDU_def)
  from du_loop_ok [OF this, of 0 "hs_buckets s" n] show ?thesis by (simp add: du_ok_def GetDU_def ready_buckets_def)
qed

end
