(* ===== verification/Web.thy ===== *)
theory Web
  imports StoreMap Route Info
begin

text \<open>
  The web interface (\<open>gobeansdb/web.go\<close>): the handlers that act on the store or choose what is shown.  A request is its path and the fields of its form; a
  handler returns the text it writes and the new state.  How values and errors are printed (JSON, YAML, \<open>%v\<close>) are arguments.  A
  panic is \<open>None\<close>: \<open>handleWebPanic\<close> recovers it and prints the stack.  The lemmas show that a reload of the route leaves the store with exactly the buckets
  of the new table.
\<close>

section \<open>Definitions\<close>

subsection \<open>Requests\<close>

text \<open>\<open>filepath.Base\<close>.\<close>

definition Base :: "string \<Rightarrow> string" where
  "Base path =
     (if path = [] then ''.''
      else let b = rev (takeWhile (\<lambda>c. c \<noteq> CHR ''/'') (dropWhile (\<lambda>c. c = CHR ''/'') (rev path)))
        in if b = [] then ''/'' else b)"

definition FormValue :: "(string \<times> string) list \<Rightarrow> string \<Rightarrow> string" where
  "FormValue form name = (case map_of form name of Some v \<Rightarrow> v | None \<Rightarrow> [])"

definition getGCQuery :: "string \<Rightarrow> bool" where
  "getGCQuery path \<longleftrightarrow> Base path = ''query''"

definition web_getBucket :: "string \<Rightarrow> int \<times> num_err option" where
  "web_getBucket path = ParseInt 16 16 (Base path)"

definition getFormValueInt :: "(string \<times> string) list \<Rightarrow> string \<Rightarrow> int \<Rightarrow> int \<times> num_err option" where
  "getFormValueInt form name ndefault =
     (let s = FormValue form name in if s \<noteq> [] then Atoi s else (ndefault, None))"

text \<open>What may be printed as an error.\<close>

datatype web_err = WNum num_err | WForm | WRoute RouteErr | WStore StoreErr | WGC gc_answer

definition fmt_bool :: "bool \<Rightarrow> string" where
  "fmt_bool b = (if b then ''true'' else ''false'')"

definition fmt_ints :: "nat list \<Rightarrow> string" where
  "fmt_ints xs = ''['' @ join '' '' (map (\<lambda>i. Itoa (int i)) xs) @ '']''"

definition showBucket :: "string list \<Rightarrow> string \<Rightarrow> string" where
  "showBucket hexs path = concat (map (\<lambda>bkt. ''<a href='' @ [CHR 0x27] @ ''/'' @ path @ ''/'' @ bkt @ [CHR 0x27] @ ''> '' @ bkt @ '' </a> <p/>'') hexs)"

subsection \<open>Reading handlers\<close>

definition GetCollisionsByBucket :: "(CollisionTable \<Rightarrow> string) \<Rightarrow> int \<Rightarrow> HStore \<Rightarrow> string option" where
  "GetCollisionsByBucket dumps bucketID s = do {
     sb \<leftarrow> nth_int (hs_buckets s) bucketID;
     if sb_State sb = BUCKET_STAT_READY then do { b \<leftarrow> sb_Bkt sb; Some (dumps (hm_collisions (bk_hints b))) }
     else Some []
   }"

text \<open>The store is \<open>None\<close> while the server starts.\<close>

definition handleCollision :: "Env \<Rightarrow> (CollisionTable \<Rightarrow> string) \<Rightarrow> string \<Rightarrow> HStore option \<Rightarrow> string option" where
  "handleCollision e dumps path store =
     (case store of
        None \<Rightarrow> Some ''starting''
      | Some s \<Rightarrow>
          (let msg = ''need bucket id, e.g. /collision/c'' in
           case web_getBucket path of
             (_, Some _) \<Rightarrow> Some msg
           | (bucketID, None) \<Rightarrow>
               if bucketID > NumBucket (conf e) \<or> bucketID < 0 then Some msg
               else GetCollisionsByBucket dumps bucketID s))"

text \<open>A bucket that is not ready has no information: \<open>getInfo\<close> of nil panics.\<close>

definition GetBucketInfo :: "(int \<Rightarrow> int) \<Rightarrow> int \<Rightarrow> HStore \<Rightarrow> BucketInfo option" where
  "GetBucketInfo du bucketID s = do { sb \<leftarrow> getBucket bucketID s; b \<leftarrow> sb_Bkt sb; getInfo (du bucketID) b }"

fun all_infos :: "(int \<Rightarrow> int) \<Rightarrow> int \<Rightarrow> int list \<Rightarrow> HStore \<Rightarrow> BucketInfo list option" where
  "all_infos du i [] s = Some []"
| "all_infos du i (st # sts) s =
     (if st > 0 then do { x \<leftarrow> GetBucketInfo du i s; xs \<leftarrow> all_infos du (i + 1) sts s; Some (x # xs) }
      else all_infos du (i + 1) sts s)"

definition handleBucket :: "(int \<Rightarrow> int) \<Rightarrow> (BucketInfo list + BucketInfo \<Rightarrow> string) \<Rightarrow> string list \<Rightarrow> string \<Rightarrow> HStore option \<Rightarrow> string option" where
  "handleBucket du json hexs path store =
     (case store of
        None \<Rightarrow> Some ''starting''
      | Some s \<Rightarrow>
          if Base path = ''all'' then map_option (\<lambda>xs. json (Inl xs)) (all_infos du 0 (hs_BucketsStat s) s)
          else case web_getBucket path of
            (_, Some _) \<Rightarrow> Some (''<a href='' @ [CHR 0x27] @ ''/bucket/all'' @ [CHR 0x27] @ ''> all </a> <p/>'' @ showBucket hexs ''bucket'')
          | (bucketID, None) \<Rightarrow> map_option (\<lambda>x. json (Inr x)) (GetBucketInfo du bucketID s))"

definition handleDU :: "Env \<Rightarrow> (DU \<Rightarrow> string) \<Rightarrow> (nat \<Rightarrow> DiskStatus option) \<Rightarrow> (nat \<Rightarrow> int option) \<Rightarrow> HStore option \<Rightarrow> string" where
  "handleDU e json disk dir store = (case store of None \<Rightarrow> ''starting'' | Some s \<Rightarrow> json (GetDU (NumBucket (conf e)) disk dir s))"

definition handleStatGetSet :: "((int \<times> int \<times> int) list \<Rightarrow> string) \<Rightarrow> HStore option \<Rightarrow> string" where
  "handleStatGetSet yaml store = (case store of None \<Rightarrow> ''starting'' | Some s \<Rightarrow> yaml (GetNumCmdByBuckets s))"

text \<open>The record of a hash; its body is not printed and its buffer freed.\<close>

definition handleKeyhash ::
    "Env \<Rightarrow> (web_err \<Rightarrow> string) \<Rightarrow> (Payload \<Rightarrow> string) \<Rightarrow> string \<Rightarrow> HStore option \<Rightarrow> BeansdbRL \<Rightarrow> (string \<times> BeansdbRL) option" where
  "handleKeyhash e wtext meta path store d =
     (case store of
        None \<Rightarrow> Some (''starting'', d)
      | Some s \<Rightarrow>
          (let p = Base path in
           if length p \<noteq> 16 then Some ([], d)
           else do {
             (r, d1) \<leftarrow> hs_GetRecordByKeyHash e (prepare_key p True) s d;
             Some (case r of
                 Inl err \<Rightarrow> (wtext (WStore err), d1)
               | Inr None \<Rightarrow> ([], d1)
               | Inr (Some rec) \<Rightarrow>
                   (string_of_bytes (rKey rec) @ '' '' @ [CHR 0x0A] @ meta (rPayload rec), snd (Free (carr (rPayload rec)) d1)))
           }))"

subsection \<open>Garbage collection\<close>

definition gc_link :: "int \<Rightarrow> string" where
  "gc_link bucketID = '' <a href='' @ [CHR 0x27] @ ''/bucket/'' @ Itoa bucketID @ [CHR 0x27] @ ''> /bucket/'' @ Itoa bucketID @ '' </a> <p/>''"

text \<open>The answer of the deferred function: an error with the list of buckets, or the result.\<close>

definition gc_page :: "(web_err \<Rightarrow> string) \<Rightarrow> string list \<Rightarrow> int \<Rightarrow> bool \<Rightarrow> web_err + string \<Rightarrow> string" where
  "gc_page wtext hexs bucketID pretend r =
     (case r of
        Inl err \<Rightarrow> ''<p> err : '' @ wtext err @ '' </p>'' @ showBucket hexs ''gc''
      | Inr result \<Rightarrow> (if pretend then [] else gc_link bucketID) @ result)"

definition handleGC ::
    "Env \<Rightarrow> OpEnv \<Rightarrow> (web_err \<Rightarrow> string) \<Rightarrow> ((string \<rightharpoonup> string list) \<Rightarrow> string) \<Rightarrow> (nat \<Rightarrow> DiskStatus option) \<Rightarrow> string list \<Rightarrow> string
     \<Rightarrow> (string \<times> string) list option \<Rightarrow> HStore option \<Rightarrow> (string \<times> gc_answer option \<times> HStore option) option" where
  "handleGC e oe wtext json disk hexs path form store =
     (case store of
        None \<Rightarrow> Some (''starting'', None, None)
      | Some s \<Rightarrow>
          if getGCQuery path then map_option (\<lambda>r. (json r, None, Some s)) (GCBuckets disk s)
          else case web_getBucket path of
            (n, Some err) \<Rightarrow> Some (gc_page wtext hexs n False (Inl (WNum err)), None, Some s)
          | (bucketID, None) \<Rightarrow>
              (let fail = (\<lambda>err. Some (gc_page wtext hexs bucketID False (Inl err), None, Some s)) in
               case form of
                 None \<Rightarrow> fail WForm
               | Some fs \<Rightarrow>
                   (case (getFormValueInt fs ''start'' (- 1), getFormValueInt fs ''end'' (- 1), getFormValueInt fs ''nogcdays'' (- 1)) of
                      ((_, Some err), _, _) \<Rightarrow> fail (WNum err)
                    | (_, (_, Some err), _) \<Rightarrow> fail (WNum err)
                    | (_, _, (_, Some err)) \<Rightarrow> fail (WNum err)
                    | ((start, None), (fin, None), (days, None)) \<Rightarrow>
                        (let pretend = FormValue fs ''run'' \<noteq> ''true''; merge = (FormValue fs ''merge'' = ''true'');
                             page = gc_page wtext hexs bucketID pretend in
                         if FormValue fs ''cancel'' = ''true'' then
                           (case CancelGC bucketID s of ((src, dst), s1) \<Rightarrow>
                              Some (page (Inr (if src = - 1 then ''bucket '' @ Itoa bucketID @ '' is not gcing''
                                else ''cancel gc on bucket '' @ Itoa bucketID @ '', src: '' @ Itoa src @ '' -> dst: '' @ Itoa dst)), None, Some s1))
                         else do {
                           r \<leftarrow> hs_GC e oe bucketID start fin days pretend s;
                           Some (page (case r of
                               GCRange st en _ \<Rightarrow> Inr (''<p/> bucket '' @ Itoa bucketID @ '', start '' @ Itoa st @ '', end '' @ Itoa en @
                                 '', merge '' @ fmt_bool merge @ '', pretend '' @ fmt_bool pretend @ '' <p/>'')
                             | err \<Rightarrow> Inl (WGC err)), Some r, Some s)
                         }))))"

subsection \<open>Reloading the route\<close>

text \<open>The globals that the handler reads and writes; the store is \<open>None\<close> while the server starts.\<close>

record WebState =
  w_store :: "HStore option"
  w_dbrl :: BeansdbRL
  w_AllowReload :: bool
  w_Version :: int
  w_Route :: RouteTable
  w_DBRouteConfig :: DBRouteConfig

text \<open>\<open>store.Conf\<close> embeds the configuration of the route: the number of buckets that the store and the handlers see is that of the last route taken
  over.  The handlers are given the configuration as it is when they run.\<close>

definition route_env :: "Env \<Rightarrow> WebState \<Rightarrow> Env" where
  "route_env e w = e\<lparr>conf := (conf e)\<lparr>NumBucket := dr_NumBucket (w_DBRouteConfig w)\<rparr>\<rparr>"

definition handleRouteVersion :: "bool \<Rightarrow> WebState \<Rightarrow> string" where
  "handleRouteVersion zk w = (if \<not> zk then ''-1'' else Itoa (w_Version w))"

text \<open>What comes from outside: ZooKeeper if it is configured, the YAML library, the order of a map, the address of this server and the texts of errors.\<close>

record WebEnv =
  we_zk :: "zk_get option"
  we_yaml :: yaml
  we_order :: "(int \<rightharpoonup> bool) \<Rightarrow> int list"
  we_addr :: string
  we_text :: "web_err \<Rightarrow> string"

text \<open>The table that was read is loaded into the store.  The deferred function writes an error that is left, after what was written before.\<close>

definition apply_route ::
    "Env \<Rightarrow> OpEnv \<Rightarrow> int \<Rightarrow> WebEnv \<Rightarrow> string \<Rightarrow> int \<Rightarrow> HStore \<Rightarrow> WebState \<Rightarrow> (string \<times> WebState) option" where
  "apply_route e oe threshold we data ver s w = do {
     (err, newRoute) \<leftarrow> LoadFromYaml (we_yaml we) data empty_table;
     case err of
       Some er \<Rightarrow> Some (we_text we (WRoute er), w)
     | None \<Rightarrow> do {
         r \<leftarrow> GetDBRouteConfig (we_order we) newRoute (we_addr we);
         ((loaded, unloaded, err2), s1, d1) \<leftarrow> ChangeRoute e oe threshold (dr_BucketsStat r) s (w_dbrl w);
         case err2 of
           Some er \<Rightarrow> Some (''err: '' @ we_text we (WStore er) @ we_text we (WStore er), w\<lparr>w_store := Some s1, w_dbrl := d1\<rparr>)
         | None \<Rightarrow> Some (''ok: loaded:'' @ fmt_ints loaded @ '', unloaded:'' @ fmt_ints unloaded,
             w\<lparr>w_store := Some (s1\<lparr>hs_BucketsStat := dr_BucketsStat r\<rparr>), w_dbrl := d1, w_DBRouteConfig := r, w_Route := newRoute, w_Version := ver\<rparr>)
       }
   }"

text \<open>The error of \<open>GetRouteRaw\<close> is looked at only when the version is the current one; the deferred function allows reloading again.\<close>

definition handleReloadRoute ::
    "Env \<Rightarrow> OpEnv \<Rightarrow> int \<Rightarrow> WebEnv \<Rightarrow> (string \<times> string) list \<Rightarrow> WebState \<Rightarrow> (string \<times> WebState) option" where
  "handleReloadRoute e oe threshold we form w =
     (if \<not> w_AllowReload w then Some (''err: reloading'', w)
      else case w_store w of
        None \<Rightarrow> Some (''starting'', w)
      | Some s \<Rightarrow>
          (case we_zk we of
             None \<Rightarrow> Some (''err: not using zookeeper'', w)
           | Some zget \<Rightarrow>
               (case getFormValueInt form ''ver'' (- 1) of
                  (_, Some err) \<Rightarrow> Some (we_text we (WNum err), w)
                | (ver0, None) \<Rightarrow>
                    (case GetRouteRaw zget ver0 of (data, ver, err) \<Rightarrow>
                       if ver = w_Version w
                       then Some (''warn: same version '' @ Itoa ver @ (case err of Some er \<Rightarrow> we_text we (WRoute er) | None \<Rightarrow> []), w)
                       else apply_route (route_env e w) oe threshold we data ver s w))))"

section \<open>What a reload leaves\<close>

definition slot_state :: "HStore \<Rightarrow> nat \<Rightarrow> int" where
  "slot_state s i = sb_State (hs_buckets s ! i)"

text \<open>The buckets that are ready are those with state 1 in the configuration.\<close>

definition serving_ok :: "Env \<Rightarrow> HStore \<Rightarrow> bool" where
  "serving_ok e s \<longleftrightarrow> (\<forall>i < nat (NumBucket (conf e)). i < length (hs_buckets s) \<and> i < length (hs_BucketsStat s) \<and>
     hs_BucketsStat s ! i \<in> {0, 1} \<and> (slot_state s i = BUCKET_STAT_READY \<longleftrightarrow> hs_BucketsStat s ! i = 1))"

lemma change_route_states:
  assumes "change_route e oe th ns stats s d = Some ((l, u, None), s', d')" "distinct ns"
  shows "length (hs_buckets s') = length (hs_buckets s) \<and> (\<forall>i \<in> set ns. i < length stats) \<and>
    (\<forall>i. slot_state s' i = (if i \<in> set ns \<and> stats ! i \<noteq> hs_BucketsStat s ! i \<and> i < length (hs_buckets s)
       then if stats ! i \<ge> BUCKET_STAT_NOT_EMPTY then BUCKET_STAT_READY else BUCKET_STAT_EMPTY else slot_state s i))"
  using assms
proof (induction ns arbitrary: s d l u)
  case (Cons n ns)
  obtain sb oldc newc where o: "nth_opt (hs_buckets s) n = Some sb" "nth_opt (hs_BucketsStat s) n = Some oldc" "nth_opt stats n = Some newc"
    using Cons.prems(1) by (auto split: bind_splits)
  then have n: "n < length (hs_buckets s)" "n < length (hs_BucketsStat s)" "hs_BucketsStat s ! n = oldc" "n < length stats" "stats ! n = newc"
    by (auto simp: nth_opt_def split: if_splits)
  show ?case
  proof (cases "newc = oldc")
    case True
    then have "change_route e oe th ns stats s d = Some ((l, u, None), s', d')" using Cons.prems(1) o by simp
    from Cons.IH [OF this] Cons.prems(2) n True show ?thesis by auto
  next
    case False
    obtain sb1 c d1 l1 u1 s1 where 1: "change_route e oe th ns stats s1 d1 = Some ((l1, u1, None), s', d')"
        "s1 = (upd_bucket (int n) sb1 s)\<lparr>hs_BucketsStat := (hs_BucketsStat s)[n := c]\<rparr>"
        "sb_State sb1 = (if newc \<ge> BUCKET_STAT_NOT_EMPTY then BUCKET_STAT_READY else BUCKET_STAT_EMPTY)"
    proof (cases "newc \<ge> BUCKET_STAT_NOT_EMPTY")
      case True
      then show ?thesis using that Cons.prems(1) o False by (auto simp: Let_def split: bind_splits if_splits)
    next
      case new: False
      then show ?thesis using that Cons.prems(1) o False by (auto simp: Let_def split: bind_splits)
    qed
    have s1: "hs_buckets s1 = (hs_buckets s)[n := sb1]" "hs_BucketsStat s1 = (hs_BucketsStat s)[n := c]" using 1(2) by (simp_all add: upd_bucket_def)
    from Cons.IH [OF 1(1)] Cons.prems(2) have I: "length (hs_buckets s') = length (hs_buckets s)" "\<forall>i \<in> set ns. i < length stats"
        "\<And>i. slot_state s' i = (if i \<in> set ns \<and> stats ! i \<noteq> hs_BucketsStat s1 ! i \<and> i < length (hs_buckets s)
           then if stats ! i \<ge> BUCKET_STAT_NOT_EMPTY then BUCKET_STAT_READY else BUCKET_STAT_EMPTY else slot_state s1 i)"
      by (auto simp: s1)
    show ?thesis using I n Cons.prems(2) False 1(3) by (auto simp: s1 slot_state_def nth_list_update)
  qed
qed simp

lemma change_route_serving:
  assumes "serving_ok e s" "ChangeRoute e oe th stats s d = Some ((l, u, None), s', d')" "set stats \<subseteq> {0, 1}"
  shows "serving_ok e (s'\<lparr>hs_BucketsStat := stats\<rparr>)"
proof -
  have r: "change_route e oe th [0..<nat (NumBucket (conf e))] stats s d = Some ((l, u, None), s', d')" using assms(2) by (simp add: ChangeRoute_def)
  note C = change_route_states [OF r distinct_upt]
  show ?thesis unfolding serving_ok_def
  proof (intro allI impI)
    fix i assume i: "i < nat (NumBucket (conf e))"
    have o: "i < length (hs_buckets s)" "hs_BucketsStat s ! i \<in> {0, 1}" "slot_state s i = BUCKET_STAT_READY \<longleftrightarrow> hs_BucketsStat s ! i = 1"
      using assms(1) i by (simp_all add: serving_ok_def)
    have l: "i < length stats" using C i by simp
    with nth_mem [OF this] assms(3) have st: "i < length stats" "stats ! i \<in> {0, 1}" by blast+
    have "slot_state s' i = (if stats ! i \<noteq> hs_BucketsStat s ! i then if stats ! i \<ge> 1 then BUCKET_STAT_READY else BUCKET_STAT_EMPTY else slot_state s i)"
      using C o(1) i by (simp add: BUCKET_STAT_NOT_EMPTY_def)
    moreover have "slot_state (s'\<lparr>hs_BucketsStat := stats\<rparr>) i = slot_state s' i" by (simp add: slot_state_def)
    ultimately show "i < length (hs_buckets (s'\<lparr>hs_BucketsStat := stats\<rparr>)) \<and> i < length (hs_BucketsStat (s'\<lparr>hs_BucketsStat := stats\<rparr>)) \<and>
        hs_BucketsStat (s'\<lparr>hs_BucketsStat := stats\<rparr>) ! i \<in> {0, 1} \<and>
        (slot_state (s'\<lparr>hs_BucketsStat := stats\<rparr>) i = BUCKET_STAT_READY \<longleftrightarrow> hs_BucketsStat (s'\<lparr>hs_BucketsStat := stats\<rparr>) ! i = 1)"
      using C o st by (auto simp: BUCKET_STAT_READY_def BUCKET_STAT_EMPTY_def)
  qed
qed

lemma mark_buckets_stats: "mark_buckets num bs r = Some r' \<Longrightarrow> set (dr_BucketsStat r) \<subseteq> {0, 1} \<Longrightarrow> set (dr_BucketsStat r') \<subseteq> {0, 1}"
proof (induction bs arbitrary: r)
  case (Cons b bs)
  let ?r = "r\<lparr>dr_BucketsStat := (dr_BucketsStat r)[nat b := 1], dr_BucketsHex := dr_BucketsHex r @ [BucketIDHex b num]\<rparr>"
  have m: "mark_buckets num bs ?r = Some r'" using Cons.prems(1) by (simp split: if_splits)
  have "set (dr_BucketsStat ?r) \<subseteq> {0, 1}" using Cons.prems(2) set_update_subset_insert [of "dr_BucketsStat r" "nat b" 1] by auto
  from Cons.IH [OF m this] show ?case .
qed simp

lemma GetDBRouteConfig_stats: "GetDBRouteConfig order rt addr = Some r \<Longrightarrow> set (dr_BucketsStat r) \<subseteq> {0, 1}"
  by (auto simp: GetDBRouteConfig_def Let_def split: if_splits option.splits dest!: mark_buckets_stats)

text \<open>C39: reloading the route.  When a reload takes over another version, the ready buckets of the store are exactly those for which the new configuration has
  the state 1, if this was so before; and when the table in ZooKeeper is well formed these are exactly the buckets that it gives to this server.  The buckets are those of the number before the
  reload; the number of the new table takes its place afterwards, and as long as it is the same the store is again as assumed.\<close>

theorem reload_follows_route:
  assumes "serving_ok (route_env e w) s" and "w_store w = Some s" and "handleReloadRoute e oe th we form w = Some (out, w')" and "w_Version w' \<noteq> w_Version w"
    and "\<forall>m. finite (dom m) \<longrightarrow> set (we_order we m) = dom m"
  shows "\<exists>s' zget ver0 data err rt. w_store w' = Some s' \<and> serving_ok (route_env e w) s' \<and> hs_BucketsStat s' = dr_BucketsStat (w_DBRouteConfig w') \<and>
    (dr_NumBucket (w_DBRouteConfig w') = dr_NumBucket (w_DBRouteConfig w) \<longrightarrow> serving_ok (route_env e w') s') \<and>
    we_zk we = Some zget \<and> GetRouteRaw zget ver0 = (data, w_Version w', err) \<and> we_yaml we data empty_table = Inr rt \<and>
    (wf_route rt \<longrightarrow> (\<forall>i < nat (dr_NumBucket (w_DBRouteConfig w)). slot_state s' i = BUCKET_STAT_READY \<longleftrightarrow> has_bucket rt (we_addr we) (int i) \<noteq> None))"
proof -
  obtain zget ver0 data ver err where z: "we_zk we = Some zget" "GetRouteRaw zget ver0 = (data, ver, err)"
      "apply_route (route_env e w) oe th we data ver s w = Some (out, w')"
    using assms(2-4) by (auto simp: handleReloadRoute_def split: if_splits option.splits prod.splits)
  then obtain newRoute r l u s1 d1 where a: "LoadFromYaml (we_yaml we) data empty_table = Some (None, newRoute)"
      "GetDBRouteConfig (we_order we) newRoute (we_addr we) = Some r" "ChangeRoute (route_env e w) oe th (dr_BucketsStat r) s (w_dbrl w) = Some ((l, u, None), s1, d1)"
      "w_store w' = Some (s1\<lparr>hs_BucketsStat := dr_BucketsStat r\<rparr>)" "w_DBRouteConfig w' = r" "w_Version w' = ver"
    using assms(4) by (auto simp: apply_route_def split: bind_splits option.splits)
  let ?s = "s1\<lparr>hs_BucketsStat := dr_BucketsStat r\<rparr>"
  have ok: "serving_ok (route_env e w) ?s" by (rule change_route_serving [OF assms(1) a(3) GetDBRouteConfig_stats [OF a(2)]])
  obtain rt where y: "we_yaml we data empty_table = Inr rt" using a(1) by (auto simp: LoadFromYaml_def split: sum.splits)
  have "slot_state ?s i = BUCKET_STAT_READY \<longleftrightarrow> has_bucket rt (we_addr we) (int i) \<noteq> None" if "wf_route rt" "i < nat (dr_NumBucket (w_DBRouteConfig w))" for i
  proof -
    have R: "routes newRoute (rt_NumBucket rt) (has_bucket rt)" using LoadFromYaml_ok [of "we_yaml we" data empty_table rt] y that(1) a(1) by auto
    have n: "0 \<le> rt_NumBucket rt" using that(1) by (simp add: wf_route_def)
    from GetDBRouteConfig_exact [OF R n assms(5), of "we_addr we"] a(2)
    have "length (dr_BucketsStat r) = nat (rt_NumBucket rt)" "\<forall>i < nat (rt_NumBucket rt). dr_BucketsStat r ! i = (if has_bucket rt (we_addr we) (int i) \<noteq> None then 1 else 0)"
      by auto
    moreover have "i < length (dr_BucketsStat r)" "slot_state ?s i = BUCKET_STAT_READY \<longleftrightarrow> dr_BucketsStat r ! i = 1"
      using ok that(2) by (simp_all add: serving_ok_def route_env_def)
    ultimately show ?thesis by simp
  qed
  moreover have "serving_ok (route_env e w') ?s" if "dr_NumBucket (w_DBRouteConfig w') = dr_NumBucket (w_DBRouteConfig w)"
    using ok that by (simp add: serving_ok_def route_env_def)
  ultimately show ?thesis using ok a(4-6) z(1,2) y
    by (intro exI [of _ ?s] exI [of _ zget] exI [of _ ver0] exI [of _ data] exI [of _ err] exI [of _ rt]) simp
qed

text \<open>A store that was opened without error starts like this.\<close>

lemma open_slots_state:
  "open_slots e oe th i slots d = Some (err, sbs, d') \<Longrightarrow> length sbs = length slots \<and> (\<forall>j < length slots. sb_State (sbs ! j) = sb_State (snd (slots ! j)))"
proof (induction slots arbitrary: i d err sbs d')
  case (Cons x slots)
  obtain stat sb where x: "x = (stat, sb)" by (cases x)
  obtain sb1 d1 err2 rest d2 where o: "open_slots e oe th (i + 1) slots d1 = Some (err2, rest, d2)" "sbs = sb1 # rest" "sb_State sb1 = sb_State sb"
    using Cons.prems x by (auto simp: open_slot_def split: bind_splits if_splits)
  show ?case using Cons.IH [OF o(1)] o(2,3) x by (auto simp: nth_Cons split: nat.split)
qed simp

lemma NewHStore_serving:
  assumes "NewHStore e oe th stats dirs = Some (None, s, d)" "set stats \<subseteq> {0, 1}" "length stats = nat (NumBucket (conf e))" "length dirs = length stats"
  shows "serving_ok e s"
proof -
  let ?slots = "map2 (new_slot (conf e)) stats dirs"
  obtain sbs d1 where o: "open_slots e oe th 0 (zip stats ?slots) ResetAll = Some (None, sbs, d1)" "hs_buckets s = sbs" "hs_BucketsStat s = stats"
    using assms(1) by (auto simp: NewHStore_def Let_def split: bind_splits if_splits)
  have st: "sb_State (new_slot c x dir) = BUCKET_STAT_READY \<longleftrightarrow> x = 1" if "x \<in> {0, 1}" for c x dir
    using that by (auto simp: new_slot_def scan_bucket_def Let_def allocBucket_def BUCKET_STAT_EMPTY_def BUCKET_STAT_NOT_EMPTY_def BUCKET_STAT_READY_def split: option.splits)
  show ?thesis unfolding serving_ok_def
  proof (intro allI impI)
    fix i assume i: "i < nat (NumBucket (conf e))"
    have x: "stats ! i \<in> {0, 1}" using subsetD [OF assms(2) nth_mem [of i stats]] assms(3) i by simp
    show "i < length (hs_buckets s) \<and> i < length (hs_BucketsStat s) \<and> hs_BucketsStat s ! i \<in> {0, 1} \<and>
        (slot_state s i = BUCKET_STAT_READY \<longleftrightarrow> hs_BucketsStat s ! i = 1)"
      using open_slots_state [OF o(1)] o(2,3) i assms(3,4) x st [OF x] by (simp add: slot_state_def)
  qed
qed

text \<open>Loading buckets that have no directory yet does not fail.\<close>

lemma change_route_loads:
  assumes "bkt_limits e K" "distinct ns"
    and "\<forall>i \<in> set ns. i < length stats \<and> i < length (hs_buckets s) \<and> i < length (hs_BucketsStat s) \<and> sb_Dir (hs_buckets s ! i) = None \<and>
       hs_BucketsStat s ! i = 0 \<and> stats ! i \<in> {0, 1}"
  shows "\<exists>l s' d'. change_route e oe th ns stats s d = Some ((l, [], None), s', d')"
  using assms(2,3)
proof (induction ns arbitrary: s d)
  case (Cons n ns)
  have n: "n < length stats" "n < length (hs_buckets s)" "n < length (hs_BucketsStat s)" "sb_Dir (hs_buckets s ! n) = None" "hs_BucketsStat s ! n = 0" "stats ! n \<in> {0, 1}"
    using Cons.prems(2) by simp_all
  show ?case
  proof (cases "stats ! n = 0")
    case True
    then show ?thesis using Cons.IH [of s d] Cons.prems n by (simp add: nth_opt_def)
  next
    case False
    then have 1: "stats ! n = 1" using n(6) by simp
    obtain b where "bkt_open e oe th (int n) empty_home d = Some (None, Some b, d)" using bkt_open_empty [OF assms(1)] by blast
    then have o: "open_slot e oe th (int n) (allocBucket (hs_buckets s ! n)) d = Some (None, (allocBucket (hs_buckets s ! n))\<lparr>sb_Bkt := Some b\<rparr>, d)"
      using n(4) by (simp add: open_slot_def allocBucket_def)
    let ?s = "(upd_bucket (int n) ((allocBucket (hs_buckets s ! n))\<lparr>sb_Bkt := Some b, sb_State := BUCKET_STAT_READY\<rparr>) s)\<lparr>hs_BucketsStat := (hs_BucketsStat s)[n := BUCKET_STAT_READY]\<rparr>"
    have "\<exists>l s' d'. change_route e oe th ns stats ?s d = Some ((l, [], None), s', d')"
      by (rule Cons.IH) (use Cons.prems in \<open>auto simp: upd_bucket_def nth_list_update\<close>)
    then show ?thesis using 1 n o by (auto simp: nth_opt_def BUCKET_STAT_NOT_EMPTY_def Let_def)
  qed
qed simp

section \<open>A concrete reload\<close>

definition idle_slot :: StoreBucket where
  "idle_slot = \<lparr>sb_State = BUCKET_STAT_EMPTY, sb_Bkt = None, sb_Dir = None, sb_NumGet = 0, sb_NumSet = 0\<rparr>"

definition idle_store :: HStore where
  "idle_store = \<lparr>hs_buckets = replicate 16 idle_slot, hs_BucketsStat = replicate 16 0, hs_gcstat = [], hs_htree = None\<rparr>"

definition sample_web :: WebState where
  "sample_web = \<lparr>w_store = Some idle_store, w_dbrl = ResetAll, w_AllowReload = True, w_Version = 6, w_Route = empty_table,
     w_DBRouteConfig = \<lparr>dr_NumBucket = 16, dr_BucketsStat = replicate 16 0, dr_BucketsHex = []\<rparr>\<rparr>"

definition sample_we :: WebEnv where
  "sample_we = \<lparr>we_zk = Some (\<lambda>_. Some ''t''), we_yaml = sample_yaml, we_order = (\<lambda>m. sorted_list_of_set (dom m)), we_addr = ''a:7900'', we_text = (\<lambda>_. [])\<rparr>"

theorem reload_follows_route_witness:
  "\<exists>out w' s'. handleReloadRoute toy_env at_zero 0 sample_we [(''ver'', ''7'')] sample_web = Some (out, w') \<and> w_Version w' = 7 \<and>
     w_store w' = Some s' \<and> slot_state s' 15 = BUCKET_STAT_READY \<and> slot_state s' 1 \<noteq> BUCKET_STAT_READY"
proof -
  have p: "ParseInt 16 16 ''0'' = (0, None)" "ParseInt 16 16 ''f'' = (15, None)" "Atoi ''7'' = (7, None)" by (simp_all add: parse_simps)
  have w: "wf_route sample_table" by (auto simp: wf_route_def sample_table_def empty_table_def p)
  have y: "sample_yaml ''t'' empty_table = Inr sample_table" by (simp add: sample_yaml_def)
  have hb: "has_bucket sample_table ''a:7900'' 15 = Some True" "has_bucket sample_table ''a:7900'' 1 = None"
    by (simp_all add: has_bucket_def sample_table_def empty_table_def bucket_ids_def p)
  have n: "rt_NumBucket sample_table = 16" "NumBucket (conf toy_env) = 16" by (simp_all add: sample_table_def toy_env_def sample_conf_def)
  obtain rt where rt: "LoadFromYaml sample_yaml ''t'' empty_table = Some (None, rt)" "routes rt 16 (has_bucket sample_table)"
    using LoadFromYaml_ok [of sample_yaml "''t''" empty_table sample_table] y w n by auto
  have ord: "\<forall>m. finite (dom m) \<longrightarrow> set (sorted_list_of_set (dom m)) = dom m" for m :: "int \<rightharpoonup> bool" by simp
  obtain cf where cf: "GetDBRouteConfig (\<lambda>m. sorted_list_of_set (dom m)) rt ''a:7900'' = Some cf" "length (dr_BucketsStat cf) = 16"
    using GetDBRouteConfig_exact [OF rt(2), of "\<lambda>m. sorted_list_of_set (dom m)" "''a:7900''"] by auto
  have st: "dr_BucketsStat cf ! i \<in> {0, 1}" if "i < 16" for i using subsetD [OF GetDBRouteConfig_stats [OF cf(1)] nth_mem [of i]] cf(2) that by simp
  have "\<exists>l s' d'. change_route toy_env at_zero 0 [0..<16] (dr_BucketsStat cf) idle_store ResetAll = Some ((l, [], None), s', d')"
    by (rule change_route_loads [OF sample_bkt(1)]) (use st cf(2) in \<open>simp_all add: idle_store_def idle_slot_def\<close>)
  then obtain l s1 d1 where c: "ChangeRoute toy_env at_zero 0 (dr_BucketsStat cf) idle_store ResetAll = Some ((l, [], None), s1, d1)"
    by (auto simp: ChangeRoute_def n)
  have g: "GetRouteRaw (\<lambda>_. Some ''t'') 7 = (''t'', 7, None)" by (simp add: GetRouteRaw_def)
  have f: "getFormValueInt [(''ver'', ''7'')] ''ver'' (- 1) = (7, None)" by (simp add: getFormValueInt_def FormValue_def p)
  have same: "route_env toy_env sample_web = toy_env" by (simp add: route_env_def sample_web_def toy_env_def sample_conf_def)
  obtain out w' where h: "handleReloadRoute toy_env at_zero 0 sample_we [(''ver'', ''7'')] sample_web = Some (out, w')" "w_Version w' = 7"
    using g f rt(1) cf(1) c same [unfolded sample_web_def] by (simp add: handleReloadRoute_def sample_web_def sample_we_def apply_route_def)
  have ok: "serving_ok (route_env toy_env sample_web) idle_store"
    by (simp add: same serving_ok_def n idle_store_def slot_state_def idle_slot_def BUCKET_STAT_EMPTY_def BUCKET_STAT_READY_def)
  have "w_store sample_web = Some idle_store" "w_Version w' \<noteq> w_Version sample_web" using h(2) by (simp_all add: sample_web_def)
  from reload_follows_route [OF ok this(1) h(1) this(2)] obtain s' zget ver0 data err rt2 where
    r: "w_store w' = Some s'" "we_zk sample_we = Some zget" "GetRouteRaw zget ver0 = (data, w_Version w', err)" "we_yaml sample_we data empty_table = Inr rt2"
      "wf_route rt2 \<longrightarrow> (\<forall>i < nat (dr_NumBucket (w_DBRouteConfig sample_web)). slot_state s' i = BUCKET_STAT_READY \<longleftrightarrow> has_bucket rt2 (we_addr sample_we) (int i) \<noteq> None)"
    by (auto simp: sample_we_def)
  have "rt2 = sample_table" using r(4) by (simp add: sample_we_def sample_yaml_def split: if_splits)
  moreover have "dr_NumBucket (w_DBRouteConfig sample_web) = 16" by (simp add: sample_web_def)
  ultimately have all: "\<forall>i < 16. slot_state s' i = BUCKET_STAT_READY \<longleftrightarrow> has_bucket sample_table ''a:7900'' (int i) \<noteq> None" using r(5) w by (simp add: sample_we_def)
  have "slot_state s' 15 = BUCKET_STAT_READY" using spec [OF all, of 15] hb(1) by auto
  moreover have "slot_state s' 1 \<noteq> BUCKET_STAT_READY" using spec [OF all, of 1] hb(2) by auto
  ultimately show ?thesis using h r(1) by blast
qed

text \<open>The link that the page of a collection shows has the number of the bucket in decimal, and the page it leads to reads it as hexadecimal.\<close>

lemma gc_link_other_bucket: "web_getBucket (''/bucket/'' @ Itoa 10) = (16, None)"
proof -
  have "Itoa 10 = ''10''" by (simp add: FormatInt_def format_nat.simps digit_char_def char_of_def bit_simps)
  then show ?thesis by (simp add: web_getBucket_def Base_def parse_simps)
qed

text \<open>The check of a bucket number lets the number of buckets through.\<close>

lemma collision_off_by_one:
  assumes "web_getBucket path = (NumBucket (conf e), None)" "0 \<le> NumBucket (conf e)" "length (hs_buckets s) = nat (NumBucket (conf e))"
  shows "handleCollision e dumps path (Some s) = None"
  using assms by (simp add: handleCollision_def GetCollisionsByBucket_def nth_int_def nth_opt_def)

end
