(* ===== verification/Boot.thy ===== *)
theory Boot
  imports Web
begin

text \<open>
  Loading the configuration (\<open>gobeansdb/config.go\<close>, the defaults of \<open>store/config_default.go\<close>, \<open>config/server_config.go\<close>, \<open>config/mc_config.go\<close> and
  \<open>config/route.go\<close>, the size strings that \<open>utils/size.go\<close> finds by reflection).  The YAML library, the files of the directory and the connection to ZooKeeper are
  arguments; \<open>log.Fatal\<close> is \<open>None\<close>.  The lemmas show what the defaults come to, and that the store that is opened with a loaded configuration serves exactly
  the buckets of the route table.
\<close>

unbundle bit_operations_syntax

section \<open>Definitions\<close>

record ServerConfig =
  Hostname :: string
  ZKPath :: string
  ZKServers :: "string list"
  Listen :: string
  Port :: int
  WebPort :: int
  Threads :: int
  ErrorLog :: string
  AccessLog :: string
  AnalysisLog :: string
  StaticDir :: string

definition Addr :: "ServerConfig \<Rightarrow> string" where
  "Addr c = Hostname c @ '':'' @ Itoa (Port c)"

text \<open>The parts of \<open>DBConfig\<close>: the fields that the rest of the model reads are in \<open>MCConfig\<close> and \<open>HStoreConfig\<close>, the route and the size strings beside them.\<close>

record DBConfig =
  db_Server :: ServerConfig
  db_MC :: MCConfig
  FlushMaxStr :: string
  BodyMaxStr :: string
  BodyBigStr :: string
  BodyInCStr :: string
  db_HStore :: HStoreConfig
  db_Route :: DBRouteConfig
  db_Home :: string
  FlushWakeStr :: string
  DataFileMaxStr :: string
  BufIOCap :: int
  BufIOCapStr :: string
  SplitCapStr :: string
  IndexIntervalSizeStr :: string
  TreeDump :: int

definition set_route :: "DBRouteConfig \<Rightarrow> DBConfig \<Rightarrow> DBConfig" where
  "set_route r c = c\<lparr>db_Route := r, db_HStore := (db_HStore c)\<lparr>NumBucket := dr_NumBucket r\<rparr>\<rparr>"

text \<open>\<open>InitSizesPointer\<close>: every field whose name ends in \<open>Str\<close> sets the field without that ending; the error is the last one.\<close>

definition InitSizes :: "DBConfig \<Rightarrow> num_err option \<times> DBConfig" where
  "InitSizes c =
     (let v = (\<lambda>s. fst (StrToSize s));
          errs = List.map_filter (\<lambda>s. snd (StrToSize s)) [FlushMaxStr c, BodyMaxStr c, BodyBigStr c, BodyInCStr c, FlushWakeStr c, DataFileMaxStr c,
            BufIOCapStr c, SplitCapStr c, IndexIntervalSizeStr c]
      in (if errs = [] then None else Some (last errs),
          c\<lparr>db_MC := (db_MC c)\<lparr>FlushMax := v (FlushMaxStr c), BodyMax := v (BodyMaxStr c), BodyBig := v (BodyBigStr c), BodyInC := v (BodyInCStr c)\<rparr>,
            db_HStore := (db_HStore c)\<lparr>FlushWake := v (FlushWakeStr c), DataFileMax := v (DataFileMaxStr c), SplitCap := v (SplitCapStr c),
              IndexIntervalSize := v (IndexIntervalSizeStr c)\<rparr>,
            BufIOCap := v (BufIOCapStr c)\<rparr>))"

subsection \<open>Defaults\<close>

definition DefaultServerConfig :: ServerConfig where
  "DefaultServerConfig = \<lparr>Hostname = ''127.0.0.1'', ZKPath = [], ZKServers = [], Listen = ''0.0.0.0'', Port = 7900, WebPort = 7903, Threads = 4,
     ErrorLog = ''./gobeansdb.log'', AccessLog = [], AnalysisLog = [], StaticDir = ''./''\<rparr>"

text \<open>The sizes are 0 until \<open>InitSizes\<close> sets them.\<close>

definition DefaultMCConfig :: MCConfig where
  "DefaultMCConfig = \<lparr>MaxKeyLen = 250, MaxReq = 16, BodyMax = 0, BodyBig = 0, BodyInC = 0, FlushMax = 0, TimeoutMS = 3000\<rparr>"

definition DefaultHStoreConfig :: HStoreConfig where
  "DefaultHStoreConfig = \<lparr>NumBucket = 0, TreeHeight = 3, TreeDepth = 0, TreeKeyHashMask = 0, TreeKeyHashLen = 0, DataFileMax = 0, CheckVHash = False,
     FlushInterval = 0, FlushWake = 0, NoGCDays = 0, NotCompress = (\<lambda>k. k \<in> {''audio/wave'', ''audio/mpeg''}), NoMerged = False, MergeInterval = 1,
     IndexIntervalSize = 0, SplitCap = 0\<rparr>"

text \<open>The default route after \<open>init\<close> of the package: all of sixteen buckets.\<close>

definition DefaultRouteConfig :: DBRouteConfig where
  "DefaultRouteConfig = \<lparr>dr_NumBucket = 16, dr_BucketsStat = replicate 16 1, dr_BucketsHex = map (\<lambda>i. BucketIDHex (int i) 16) [0..<16]\<rparr>"

definition InitDefault :: DBConfig where
  "InitDefault = snd (InitSizes (set_route DefaultRouteConfig \<lparr>db_Server = DefaultServerConfig, db_MC = DefaultMCConfig, FlushMaxStr = ''100M'', BodyMaxStr = ''50M'',
     BodyBigStr = ''1M'', BodyInCStr = ''4K'', db_HStore = DefaultHStoreConfig, db_Route = DefaultRouteConfig, db_Home = ''./testdb'', FlushWakeStr = ''0'',
     DataFileMaxStr = ''4000M'', BufIOCap = 0, BufIOCapStr = ''1M'', SplitCapStr = ''1M'', IndexIntervalSizeStr = ''4K'', TreeDump = 3\<rparr>))"

subsection \<open>Loading\<close>

text \<open>The YAML library on a configuration, and what is found in the directory: the contents of the three files.\<close>

type_synonym cyaml = "string \<Rightarrow> DBConfig \<Rightarrow> DBConfig option"

record ConfDir =
  cd_global :: "string option"
  cd_local :: "string option"
  cd_route :: "string option"

definition checkEmptyConfig :: "DBConfig \<Rightarrow> bool" where
  "checkEmptyConfig c \<longleftrightarrow> MaxKeyLen (db_MC c) = 0 \<or> SplitCapStr c = [] \<or> TreeHeight (db_HStore c) = 0"

definition load_file :: "cyaml \<Rightarrow> string option \<Rightarrow> DBConfig \<Rightarrow> DBConfig option" where
  "load_file um content c = do { txt \<leftarrow> content; c1 \<leftarrow> um txt c; if checkEmptyConfig c1 then None else Some c1 }"

definition load_dir :: "cyaml \<Rightarrow> yaml \<Rightarrow> ((int \<rightharpoonup> bool) \<Rightarrow> int list) \<Rightarrow> (string list \<Rightarrow> zk_get option) \<Rightarrow> ConfDir \<Rightarrow> DBConfig \<Rightarrow> DBConfig option" where
  "load_dir um ryaml order connect dir c0 = do {
     c1 \<leftarrow> load_file um (cd_global dir) c0;
     c2 \<leftarrow> (if cd_local dir = None then Some c1 else load_file um (cd_local dir) c1);
     (r, _) \<leftarrow> load_route ryaml (if ZKServers (db_Server c2) = [] then None else Some (connect (ZKServers (db_Server c2)))) (cd_route dir);
     case r of
       Inl _ \<Rightarrow> None
     | Inr rt \<Rightarrow> map_option (\<lambda>dr. set_route dr c2) (GetDBRouteConfig order rt (Addr (db_Server c2)))
   }"

text \<open>The error of \<open>InitSizesPointer\<close> is not looked at.\<close>

definition Load ::
    "cyaml \<Rightarrow> yaml \<Rightarrow> ((int \<rightharpoonup> bool) \<Rightarrow> int list) \<Rightarrow> (string list \<Rightarrow> zk_get option) \<Rightarrow> ConfDir option \<Rightarrow> DBConfig option" where
  "Load um ryaml order connect confdir = do {
     c1 \<leftarrow> (case confdir of None \<Rightarrow> Some InitDefault | Some dir \<Rightarrow> load_dir um ryaml order connect dir InitDefault);
     let c2 = snd (InitSizes c1);
     h \<leftarrow> InitTree (db_HStore c2);
     Some (c2\<lparr>db_HStore := h\<rparr>)
   }"

section \<open>The defaults\<close>

lemma default_sizes:
  "StrToSize ''100M'' = (104857600, None)" "StrToSize ''50M'' = (52428800, None)" "StrToSize ''1M'' = (1048576, None)" "StrToSize ''4K'' = (4096, None)"
  "StrToSize ''0'' = (0, None)" "StrToSize ''4000M'' = (4194304000, None)"
  by (simp_all add: StrToSize_def sizemap_def parse_simps)

lemma InitSizes_keeps:
  "InitSizes c = (e, c') \<Longrightarrow> db_Server c' = db_Server c \<and> db_Route c' = db_Route c \<and> NumBucket (db_HStore c') = NumBucket (db_HStore c) \<and>
     TreeHeight (db_HStore c') = TreeHeight (db_HStore c)"
  by (auto simp: InitSizes_def Let_def)

lemma InitTree_keeps: "InitTree h = Some h' \<Longrightarrow> NumBucket h' = NumBucket h \<and> TreeHeight h' = TreeHeight h"
  by (auto simp: InitTree_def Let_def split: if_splits bind_splits)

text \<open>Without a directory the configuration is what the comments of \<open>config_default.go\<close> say: sixteen buckets, all served, height 3, and the sizes of the size strings.\<close>

lemma load_default:
  "\<exists>c. Load um ryaml order connect None = Some c \<and> db_MC c = default_mc \<and>
     db_HStore c = sample_conf\<lparr>NotCompress := \<lambda>k. k \<in> {''audio/wave'', ''audio/mpeg''}\<rparr> \<and> dr_BucketsStat (db_Route c) = replicate 16 1"
proof -
  have t: "tree_depth_loop 16 0 = 1" by (simp add: tree_depth_loop.simps)
  have m: "drop_bit 8 (NOT (mask 8)) = (mask 56 :: u64)" using shifted_ones [of 56] by simp
  show ?thesis
    by (simp add: Load_def InitDefault_def InitSizes_def set_route_def Let_def default_sizes DefaultMCConfig_def DefaultHStoreConfig_def DefaultRouteConfig_def
        InitTree_def t nth_opt_def KHASH_LENS_def m default_mc_def sample_conf_def)
qed

section \<open>From the files to the buckets\<close>

text \<open>The text that the route is to be taken from: the newest route in ZooKeeper when servers are configured and can be reached and the text there is a table, else the
  local file.\<close>

definition route_source :: "yaml \<Rightarrow> (string list \<Rightarrow> zk_get option) \<Rightarrow> string list \<Rightarrow> ConfDir \<Rightarrow> string option" where
  "route_source um connect servers dir =
     (case (if servers = [] then None else connect servers) of
        None \<Rightarrow> cd_route dir
      | Some zget \<Rightarrow>
          (case GetRouteRaw zget (- 1) of (data, ver, err) \<Rightarrow>
             if err = None \<and> (\<exists>rt. LoadFromYaml um data empty_table = Some (None, rt)) then Some data else cd_route dir))"

lemma local_route_yaml: "LoadRouteTableLocal um path = Some (Inr rt) \<Longrightarrow> \<exists>data. path = Some data \<and> LoadFromYaml um data empty_table = Some (None, rt)"
  by (auto simp: LoadRouteTableLocal_def split: option.splits)

lemma load_route_yaml:
  assumes "load_route um (if servers = [] then None else Some (connect servers)) (cd_route dir) = Some (Inr rt, path')"
  shows "\<exists>data. route_source um connect servers dir = Some data \<and> LoadFromYaml um data empty_table = Some (None, rt)"
proof (cases "servers = [] \<or> connect servers = None")
  case True
  then have "LoadRouteTableLocal um (cd_route dir) = Some (Inr rt)"
    using assms by (auto simp: load_route_def LoadRouteTableZK_def split: if_splits)
  then show ?thesis using True local_route_yaml [of um "cd_route dir" rt] by (auto simp: route_source_def)
next
  case False
  then obtain zget where z: "servers \<noteq> []" "connect servers = Some zget" by blast
  obtain data ver err where g: "GetRouteRaw zget (- 1) = (data, ver, err)" by (cases "GetRouteRaw zget (- 1)")
  show ?thesis
  proof (cases "err = None \<and> (\<exists>rt. LoadFromYaml um data empty_table = Some (None, rt))")
    case True
    then show ?thesis using assms z g by (auto simp: route_source_def load_route_def LoadRouteTableZK_def)
  next
    case none: False
    then have "LoadRouteTableLocal um (cd_route dir) = Some (Inr rt)"
      using assms z g by (auto simp: load_route_def LoadRouteTableZK_def split: option.splits)
    then show ?thesis using none z g local_route_yaml [of um "cd_route dir" rt] by (auto simp: route_source_def)
  qed
qed

lemma mark_buckets_length: "mark_buckets num bs r = Some r' \<Longrightarrow> length (dr_BucketsStat r') = length (dr_BucketsStat r) \<and> dr_NumBucket r' = dr_NumBucket r"
  by (induction bs arbitrary: r) (auto split: if_splits)

lemma GetDBRouteConfig_length:
  "GetDBRouteConfig order rt addr = Some r \<Longrightarrow> length (dr_BucketsStat r) = nat (rt_NumBucket rt) \<and> dr_NumBucket r = rt_NumBucket rt"
  by (auto simp: GetDBRouteConfig_def Let_def split: if_splits option.splits dest!: mark_buckets_length)

lemma load_file_height: "load_file um content c = Some c' \<Longrightarrow> TreeHeight (db_HStore c') \<noteq> 0"
  by (auto simp: load_file_def checkEmptyConfig_def split: bind_splits if_splits)

lemma Load_dir:
  assumes "Load um ryaml order connect (Some dir) = Some c"
  shows "\<exists>data rt h. route_source ryaml connect (ZKServers (db_Server c)) dir = Some data \<and> LoadFromYaml ryaml data empty_table = Some (None, rt) \<and> GetDBRouteConfig order rt (Addr (db_Server c)) = Some (db_Route c) \<and>
    InitTree h = Some (db_HStore c) \<and> NumBucket h = dr_NumBucket (db_Route c) \<and> TreeHeight h \<noteq> 0"
proof -
  obtain c1 h where L: "load_dir um ryaml order connect dir InitDefault = Some c1" "InitTree (db_HStore (snd (InitSizes c1))) = Some h"
      "c = (snd (InitSizes c1))\<lparr>db_HStore := h\<rparr>"
    using assms by (auto simp: Load_def Let_def split: bind_splits)
  obtain c2 path rt dr where D: "load_route ryaml (if ZKServers (db_Server c2) = [] then None else Some (connect (ZKServers (db_Server c2)))) (cd_route dir) = Some (Inr rt, path)" "GetDBRouteConfig order rt (Addr (db_Server c2)) = Some dr"
      "c1 = set_route dr c2" "TreeHeight (db_HStore c2) \<noteq> 0"
    using L(1) unfolding load_dir_def by (fastforce split: bind_splits sum.splits if_splits dest: load_file_height)
  obtain err cs where S: "InitSizes c1 = (err, cs)" by (cases "InitSizes c1")
  note K = InitSizes_keeps [OF S]
  have c: "c = cs\<lparr>db_HStore := h\<rparr>" using L(3) by (simp add: S)
  have e: "db_Server c = db_Server c2" "db_Route c = dr" "NumBucket (db_HStore cs) = dr_NumBucket dr" "TreeHeight (db_HStore cs) \<noteq> 0"
    using K c D(3,4) by (simp_all add: set_route_def)
  show ?thesis using load_route_yaml [of ryaml _ connect, OF D(1)] D(2) L(2,3) e by (auto simp: S)
qed

text \<open>C40: from the configuration files to the buckets.  When the configuration was loaded from a directory and the store is opened with it without error, the
  ready buckets are exactly those with state 1.  The route is taken from its source, the newest route of ZooKeeper if servers are configured, reachable and have a table there, else the local file;
  when the table there is well formed, the ready buckets are exactly those that it gives to the address of this server.  For a number of buckets that is a power of 16 and fits the height of the tree, the derived parameters of the tree are right.\<close>

theorem boot_serves_route:
  assumes "Load um ryaml order connect (Some dir) = Some c" and "\<forall>m. finite (dom m) \<longrightarrow> set (order m) = dom m" and "conf e = db_HStore c"
    and "NewHStore e oe th (dr_BucketsStat (db_Route c)) dirs = Some (None, s, d)" and "length dirs = length (dr_BucketsStat (db_Route c))"
  shows "\<exists>data t. route_source ryaml connect (ZKServers (db_Server c)) dir = Some data \<and> ryaml data empty_table = Inr t \<and> serving_ok e s \<and> hs_BucketsStat s = dr_BucketsStat (db_Route c) \<and>
    (wf_route t \<longrightarrow> (\<forall>i < nat (NumBucket (conf e)). slot_state s i = BUCKET_STAT_READY \<longleftrightarrow> has_bucket t (Addr (db_Server c)) (int i) \<noteq> None)) \<and>
    (\<forall>k. NumBucket (conf e) = 16 ^ k \<and> k + TreeHeight (conf e) \<le> 8 \<longrightarrow> conf_ok (conf e) \<and> TreeDepth (conf e) = k)"
proof -
  obtain data rt h where src: "route_source ryaml connect (ZKServers (db_Server c)) dir = Some data" and L: "LoadFromYaml ryaml data empty_table = Some (None, rt)" "GetDBRouteConfig order rt (Addr (db_Server c)) = Some (db_Route c)"
      "InitTree h = Some (db_HStore c)" "NumBucket h = dr_NumBucket (db_Route c)" "TreeHeight h \<noteq> 0" using Load_dir [OF assms(1)] by blast
  obtain t where t: "ryaml data empty_table = Inr t" using L(1) by (auto simp: LoadFromYaml_def split: sum.splits)
  note K = InitTree_keeps [OF L(3)] and G = GetDBRouteConfig_length [OF L(2)]
  have n: "length (dr_BucketsStat (db_Route c)) = nat (NumBucket (conf e))" using K G L(4) assms(3) by simp
  have ok: "serving_ok e s" by (rule NewHStore_serving [OF assms(4) GetDBRouteConfig_stats [OF L(2)] n assms(5)])
  have st: "hs_BucketsStat s = dr_BucketsStat (db_Route c)" using assms(4) by (auto simp: NewHStore_def Let_def split: bind_splits if_splits)
  have "slot_state s i = BUCKET_STAT_READY \<longleftrightarrow> has_bucket t (Addr (db_Server c)) (int i) \<noteq> None" if "wf_route t" "i < nat (NumBucket (conf e))" for i
  proof -
    have R: "routes rt (rt_NumBucket t) (has_bucket t)" using LoadFromYaml_ok [of ryaml data empty_table t] t that(1) L(1) by auto
    have "0 \<le> rt_NumBucket t" using that(1) by (simp add: wf_route_def)
    from GetDBRouteConfig_exact [OF R this assms(2), of "Addr (db_Server c)"] L(2) n that(2)
    have "dr_BucketsStat (db_Route c) ! i = (if has_bucket t (Addr (db_Server c)) (int i) \<noteq> None then 1 else 0)" by auto
    moreover have "slot_state s i = BUCKET_STAT_READY \<longleftrightarrow> dr_BucketsStat (db_Route c) ! i = 1" using ok that(2) st by (simp add: serving_ok_def)
    ultimately show ?thesis by simp
  qed
  moreover have "conf_ok (conf e) \<and> TreeDepth (conf e) = k" if "NumBucket (conf e) = 16 ^ k" "k + TreeHeight (conf e) \<le> 8" for k
    using InitTree_ok [of h k] L(3,5) K that assms(3) by auto
  ultimately show ?thesis using t ok st src by blast
qed

section \<open>A concrete start\<close>

definition sample_dir :: ConfDir where
  "sample_dir = \<lparr>cd_global = Some [], cd_local = None, cd_route = Some ''t''\<rparr>"

definition sample_cyaml :: "string \<Rightarrow> cyaml" where
  "sample_cyaml str txt c = Some (c\<lparr>db_Server := (db_Server c)\<lparr>Hostname := ''a''\<rparr>, db_HStore := (db_HStore c)\<lparr>NotCompress := \<lambda>_. False\<rparr>, DataFileMaxStr := str\<rparr>)"

abbreviation sample_order :: "(int \<rightharpoonup> bool) \<Rightarrow> int list" where
  "sample_order m \<equiv> sorted_list_of_set (dom m)"

lemma sample_load:
  "\<exists>c. Load (sample_cyaml str) sample_yaml sample_order (\<lambda>_. None) (Some sample_dir) = Some c \<and>
     db_HStore c = sample_conf\<lparr>DataFileMax := fst (StrToSize str)\<rparr> \<and> Addr (db_Server c) = ''a:7900''"
proof -
  let ?c = "InitDefault\<lparr>db_Server := (db_Server InitDefault)\<lparr>Hostname := ''a''\<rparr>, db_HStore := (db_HStore InitDefault)\<lparr>NotCompress := \<lambda>_. False\<rparr>, DataFileMaxStr := str\<rparr>"
  have p: "ParseInt 16 16 ''0'' = (0, None)" "ParseInt 16 16 ''f'' = (15, None)" by (simp_all add: parse_simps)
  have "wf_route sample_table" by (auto simp: wf_route_def sample_table_def empty_table_def p)
  then obtain rt where rt: "LoadFromYaml sample_yaml ''t'' empty_table = Some (None, rt)" "routes rt 16 (has_bucket sample_table)"
    using LoadFromYaml_ok [of sample_yaml "''t''" empty_table sample_table] by (auto simp: sample_yaml_def sample_table_def)
  obtain dr where dr: "GetDBRouteConfig sample_order rt ''a:7900'' = Some dr" "dr_NumBucket dr = 16"
  proof -
    obtain dr where "GetDBRouteConfig sample_order rt ''a:7900'' = Some dr" using GetDBRouteConfig_exact [OF rt(2), of sample_order "''a:7900''"] by auto
    then show ?thesis using that [of dr] GetDBRouteConfig_length [of sample_order rt "''a:7900''" dr] rt(2) by (simp add: routes_def)
  qed
  have sv: "db_Server InitDefault = DefaultServerConfig" "SplitCapStr InitDefault = ''1M''" "MaxKeyLen (db_MC InitDefault) = 250" "TreeHeight (db_HStore InitDefault) = 3"
    by (simp_all add: InitDefault_def InitSizes_def set_route_def Let_def DefaultMCConfig_def DefaultHStoreConfig_def)
  have a: "Addr ((db_Server InitDefault)\<lparr>Hostname := ''a''\<rparr>) = ''a:7900''"
    by (simp add: sv Addr_def DefaultServerConfig_def FormatInt_def format_nat.simps digit_char_def char_of_def bit_simps)
  have f: "load_file (sample_cyaml str) (Some []) InitDefault = Some ?c" by (simp add: load_file_def sample_cyaml_def checkEmptyConfig_def sv)
  have r: "load_route sample_yaml None (Some ''t'') = Some (Inr rt, Some ''t'')" using rt(1) by (simp add: load_route_def LoadRouteTableLocal_def)
  have d: "load_dir (sample_cyaml str) sample_yaml sample_order (\<lambda>_. None) sample_dir InitDefault = Some (set_route dr ?c)"
    using f r dr(1) a by (simp add: load_dir_def sample_dir_def sv(1)) (simp add: DefaultServerConfig_def)
  have t: "tree_depth_loop 16 0 = 1" by (simp add: tree_depth_loop.simps)
  have m: "drop_bit 8 (NOT (mask 8)) = (mask 56 :: u64)" using shifted_ones [of 56] by simp
  show ?thesis using d dr(2) a
    by (simp add: Load_def Let_def)
      (simp add: InitSizes_def InitDefault_def set_route_def Let_def default_sizes DefaultHStoreConfig_def InitTree_def t nth_opt_def KHASH_LENS_def m sample_conf_def)
qed

text \<open>A size that is not a number is 0, and nobody is told.\<close>

lemma bad_size_ignored:
  "\<exists>c. Load (sample_cyaml ''4000MB'') sample_yaml sample_order (\<lambda>_. None) (Some sample_dir) = Some c \<and> DataFileMax (db_HStore c) = 0"
proof -
  have "StrToSize ''4000MB'' = (0, Some ErrSyntax)" by (simp add: StrToSize_def sizemap_def parse_simps)
  then show ?thesis using sample_load [of "''4000MB''"] by auto
qed

lemma open_slots_mixed:
  assumes "bkt_limits e K" "set stats \<subseteq> {0, 1}"
  shows "\<exists>sbs. open_slots e oe th i (zip stats (map (\<lambda>x. new_slot c x None) stats)) d = Some (None, sbs, d)"
  using assms(2)
proof (induction stats arbitrary: i)
  case (Cons x stats)
  obtain sbs where s: "open_slots e oe th (i + 1) (zip stats (map (\<lambda>x. new_slot c x None) stats)) d = Some (None, sbs, d)" using Cons by auto
  obtain b where "bkt_open e oe th i empty_home d = Some (None, Some b, d)" using bkt_open_empty [OF assms(1)] by blast
  then have "open_slot e oe th i fresh_slot d = Some (None, fresh_slot\<lparr>sb_Bkt := Some b\<rparr>, d)" by (simp add: open_slot_def fresh_slot_def)
  then show ?case using s Cons.prems new_slot_fresh [of c] by auto
qed simp

theorem boot_serves_route_witness:
  "\<exists>c s d. Load (sample_cyaml ''4000M'') sample_yaml sample_order (\<lambda>_. None) (Some sample_dir) = Some c \<and>
     NewHStore toy_env at_zero 0 (dr_BucketsStat (db_Route c)) (map (\<lambda>_. None) (dr_BucketsStat (db_Route c))) = Some (None, s, d) \<and> serving_ok toy_env s \<and>
     slot_state s 15 = BUCKET_STAT_READY \<and> slot_state s 1 \<noteq> BUCKET_STAT_READY"
proof -
  obtain c where c: "Load (sample_cyaml ''4000M'') sample_yaml sample_order (\<lambda>_. None) (Some sample_dir) = Some c"
      "db_HStore c = sample_conf\<lparr>DataFileMax := fst (StrToSize ''4000M'')\<rparr>" "Addr (db_Server c) = ''a:7900''" using sample_load [of "''4000M''"] by blast
  have e: "conf toy_env = db_HStore c" using c(2) by (simp add: default_sizes toy_env_def sample_conf_def)
  let ?st = "dr_BucketsStat (db_Route c)"
  obtain data rt h where "GetDBRouteConfig sample_order rt (Addr (db_Server c)) = Some (db_Route c)" using Load_dir [OF c(1)] by blast
  note st = GetDBRouteConfig_stats [OF this]
  have z: "map2 (new_slot (conf toy_env)) ?st (map (\<lambda>_. None) ?st) = map (\<lambda>x. new_slot (conf toy_env) x None) ?st" by (simp add: list_eq_iff_nth_eq)
  obtain sbs where o: "open_slots toy_env at_zero 0 0 (zip ?st (map2 (new_slot (conf toy_env)) ?st (map (\<lambda>_. None) ?st))) ResetAll = Some (None, sbs, ResetAll)"
    unfolding z using open_slots_mixed [OF sample_bkt(1) st, of at_zero 0 0 "conf toy_env" ResetAll] by blast
  have "newHTree 0 0 2 \<noteq> None" by (simp add: newHTree_def MAX_DEPTH_def)
  moreover have "TreeDepth (conf toy_env) = 1" by (simp add: toy_env_def sample_conf_def)
  ultimately obtain s where s: "NewHStore toy_env at_zero 0 ?st (map (\<lambda>_. None) ?st) = Some (None, s, ResetAll)"
    using o by (auto simp: NewHStore_def Let_def numeral_2_eq_2)
  have ord: "\<forall>m. finite (dom m) \<longrightarrow> set (sample_order m) = dom m" by simp
  from boot_serves_route [OF c(1) ord e s] obtain data t where
    r: "route_source sample_yaml (\<lambda>_. None) (ZKServers (db_Server c)) sample_dir = Some data" "sample_yaml data empty_table = Inr t" "serving_ok toy_env s"
      "wf_route t \<longrightarrow> (\<forall>i < nat (NumBucket (conf toy_env)). slot_state s i = BUCKET_STAT_READY \<longleftrightarrow> has_bucket t ''a:7900'' (int i) \<noteq> None)"
    using c(3) by auto
  have p: "ParseInt 16 16 ''0'' = (0, None)" "ParseInt 16 16 ''f'' = (15, None)" by (simp_all add: parse_simps)
  have "data = ''t''" using r(1) by (simp add: route_source_def sample_dir_def split: if_splits)
  then have t: "t = sample_table" using r(2) by (simp add: sample_yaml_def)
  have w: "wf_route sample_table" by (auto simp: wf_route_def sample_table_def empty_table_def p)
  have hb: "has_bucket sample_table ''a:7900'' 15 = Some True" "has_bucket sample_table ''a:7900'' 1 = None"
    by (simp_all add: has_bucket_def sample_table_def empty_table_def bucket_ids_def p)
  have "NumBucket (conf toy_env) = 16" by (simp add: toy_env_def sample_conf_def)
  with r(4) w t have all: "\<forall>i < 16. slot_state s i = BUCKET_STAT_READY \<longleftrightarrow> has_bucket sample_table ''a:7900'' (int i) \<noteq> None" by simp
  have "slot_state s 15 = BUCKET_STAT_READY" "slot_state s 1 \<noteq> BUCKET_STAT_READY" using spec [OF all, of 15] spec [OF all, of 1] hb by auto
  then show ?thesis using c(1) s r(3) by blast
qed

end
