(* ===== verification/LogHub.thy ===== *)
theory LogHub
  imports Prelude
begin

text \<open>
  The log hub (\<open>loghub/log.go\<close>, \<open>loghub/errorlog.go\<close>): loggers with a least level, and the buffers of recent lines that the web interface shows.  Time,
  the caller and the text of a line are arguments.  The lemmas show that a ring buffer holds the newest lines in their order.
\<close>

section \<open>Ring buffers\<close>

record 'a queue =
  q_head :: nat
  q_Buffer :: "'a option list"

text \<open>\<open>Add\<close> on a buffer of size 0 panics.\<close>

definition q_Add :: "'a \<Rightarrow> 'a queue \<Rightarrow> 'a queue option" where
  "q_Add line q = do {
     buf \<leftarrow> upd_opt (q_Buffer q) (q_head q) (Some line);
     let h = q_head q + 1;
     Some (q\<lparr>q_Buffer := buf, q_head := if h \<ge> length buf then 0 else h\<rparr>)
   }"

text \<open>\<open>DumpBuffer\<close> goes once around, from \<open>i\<close> on, and leaves out the entries not yet used.\<close>

fun dump_turns :: "nat \<Rightarrow> nat \<Rightarrow> 'a option list \<Rightarrow> 'a list option" where
  "dump_turns 0 i buf = Some []"
| "dump_turns (Suc j) i buf = do {
     line \<leftarrow> nth_opt buf i;
     rest \<leftarrow> dump_turns j (if i + 1 \<ge> length buf then 0 else i + 1) buf;
     Some (case line of None \<Rightarrow> rest | Some x \<Rightarrow> x # rest)
   }"

definition q_DumpBuffer :: "'a queue \<Rightarrow> 'a list option" where
  "q_DumpBuffer q = dump_turns (length (q_Buffer q)) (q_head q) (q_Buffer q)"

section \<open>The hub\<close>

definition WARN :: nat where "WARN = 2"
definition FATAL :: nat where "FATAL = 4"

record BufferLine =
  bl_TS :: int
  bl_Level :: nat
  bl_File :: string
  bl_Line :: nat
  bl_Msg :: string

record BufferLog =
  lg_all :: "BufferLine queue"
  lg_warn :: "BufferLine queue"
  lg_Last :: "BufferLine option list"

definition InitBuffer :: "nat \<Rightarrow> BufferLog" where
  "InitBuffer n = (let q = \<lparr>q_head = 0, q_Buffer = replicate n None\<rparr> in \<lparr>lg_all = q, lg_warn = q, lg_Last = replicate (FATAL + 1) None\<rparr>)"

definition lg_Add :: "BufferLine \<Rightarrow> BufferLog \<Rightarrow> BufferLog option" where
  "lg_Add line l = do {
     a \<leftarrow> q_Add line (lg_all l);
     let l1 = l\<lparr>lg_all := a\<rparr>;
     if WARN \<le> bl_Level line then do {
       w \<leftarrow> q_Add line (lg_warn l1);
       Some (l1\<lparr>lg_warn := w\<rparr>)
     } else Some l1
   }"

definition lg_DumpBuffer :: "bool \<Rightarrow> BufferLog \<Rightarrow> BufferLine list option" where
  "lg_DumpBuffer all l = q_DumpBuffer (if all then lg_all l else lg_warn l)"

text \<open>\<open>ErrorLogHub.Log\<close>; a fatal line ends the process after it was written, which the flag says.\<close>

definition hub_Log :: "int \<Rightarrow> nat \<Rightarrow> string \<Rightarrow> nat \<Rightarrow> string \<Rightarrow> BufferLog \<Rightarrow> (bool \<times> BufferLog) option" where
  "hub_Log now level file line msg l = do {
     let bufline = \<lparr>bl_TS = now, bl_Level = level, bl_File = file, bl_Line = line, bl_Msg = msg\<rparr>;
     l1 \<leftarrow> lg_Add bufline l;
     lst \<leftarrow> upd_opt (lg_Last l1) level (Some bufline);
     Some (level = FATAL, l1\<lparr>lg_Last := lst\<rparr>)
   }"

text \<open>The name of a file without its directories: the part behind the last slash, except one at the very front.\<close>

fun short_from :: "nat \<Rightarrow> string \<Rightarrow> string" where
  "short_from 0 path = path"
| "short_from (Suc i) path = (if path ! Suc i = CHR ''/'' then drop (Suc i + 1) path else short_from i path)"

definition short_file :: "string \<Rightarrow> string" where
  "short_file path = short_from (length path - 1) path"

definition Logf :: "nat \<Rightarrow> int \<Rightarrow> (string \<times> nat) option \<Rightarrow> nat \<Rightarrow> string \<Rightarrow> BufferLog \<Rightarrow> (bool \<times> BufferLog) option" where
  "Logf minLevel now caller level msg l =
     (if level < minLevel then Some (False, l)
      else case caller of
          None \<Rightarrow> hub_Log now level ''???'' 0 msg l
        | Some (file, line) \<Rightarrow> hub_Log now level (short_file file) line msg l)"

section \<open>A ring buffer keeps the newest\<close>

definition newest_of :: "nat \<Rightarrow> 'a list \<Rightarrow> 'a list" where
  "newest_of n xs = drop (length xs - n) xs"

text \<open>Read from the head, the buffer is the end of all lines behind as many empty entries as it has places.\<close>

definition ring :: "nat \<Rightarrow> 'a list \<Rightarrow> 'a queue \<Rightarrow> bool" where
  "ring n xs q \<longleftrightarrow> length (q_Buffer q) = n \<and> q_head q < n \<and>
     drop (q_head q) (q_Buffer q) @ take (q_head q) (q_Buffer q) = newest_of n (replicate n None @ map Some xs)"

lemma ring_new: "0 < n \<Longrightarrow> ring n [] \<lparr>q_head = 0, q_Buffer = replicate n None\<rparr>"
  by (simp add: ring_def newest_of_def)

lemma newest_of_snoc: "n \<le> length ys \<Longrightarrow> 0 < n \<Longrightarrow> newest_of n (ys @ [y]) = tl (newest_of n ys) @ [y]"
  by (simp add: newest_of_def Suc_diff_le drop_Suc tl_drop)

lemma newest_of_full: "n \<le> length ys \<Longrightarrow> take n (newest_of n ys) = newest_of n ys"
  by (simp add: newest_of_def)

lemma ring_add:
  assumes "ring n xs q"
  shows "\<exists>q'. q_Add x q = Some q' \<and> ring n (xs @ [x]) q'"
proof -
  let ?h = "q_head q" and ?b = "q_Buffer q"
  have h: "length ?b = n" "?h < n" using assms by (simp_all add: ring_def)
  have c: "drop ?h ?b @ take ?h ?b = newest_of n (replicate n None @ map Some xs)" using assms by (simp add: ring_def)
  have "newest_of n (replicate n None @ map Some (xs @ [x])) = tl (drop ?h ?b @ take ?h ?b) @ [Some x]"
    using newest_of_snoc [of n "replicate n None @ map Some xs" "Some x"] h(2) c by simp
  also have "\<dots> = drop (?h + 1) ?b @ take ?h ?b @ [Some x]"
    using h by (simp add: drop_Suc tl_drop)
  finally have e: "newest_of n (replicate n None @ map Some (xs @ [x])) = drop (?h + 1) ?b @ take ?h ?b @ [Some x]" .
  have t: "take (Suc ?h) (?b[?h := Some x]) = take ?h ?b @ [Some x]" "drop (Suc ?h) (?b[?h := Some x]) = drop (Suc ?h) ?b"
    using h by (simp_all add: take_Suc_conv_app_nth)
  show ?thesis
  proof (cases "?h + 1 \<ge> n")
    case True
    then have "?b[?h := Some x] = take ?h ?b @ [Some x]" using t(1) h by simp
    then show ?thesis using True h e by (simp add: q_Add_def ring_def Let_def)
  next
    case False
    then show ?thesis using h e t by (simp add: q_Add_def ring_def Let_def)
  qed
qed

lemma dump_turns_ok:
  assumes "i < length buf" "j \<le> length buf"
  shows "dump_turns j i buf = Some (map the (filter (\<lambda>x. x \<noteq> None) (take j (drop i buf @ take i buf))))"
  using assms
proof (induction j arbitrary: i)
  case (Suc j)
  let ?i = "if i + 1 \<ge> length buf then 0 else i + 1"
  have ih: "dump_turns j ?i buf = Some (map the (filter (\<lambda>x. x \<noteq> None) (take j (drop ?i buf @ take ?i buf))))" using Suc by (intro Suc.IH) auto
  have "drop i buf = buf ! i # drop (Suc i) buf" using Suc.prems(1) by (simp add: Cons_nth_drop_Suc)
  then have "take (Suc j) (drop i buf @ take i buf) = buf ! i # take j (drop (Suc i) buf @ take i buf)" by simp
  moreover have "take j (drop ?i buf @ take ?i buf) = take j (drop (Suc i) buf @ take i buf)"
  proof (cases "i + 1 \<ge> length buf")
    case True
    then have "i = length buf - 1" using Suc.prems(1) by simp
    then show ?thesis using True Suc.prems(2) by (simp add: min_def)
  next
    case False
    then show ?thesis using Suc.prems by (simp add: take_Suc_conv_app_nth)
  qed
  ultimately show ?case using ih Suc.prems(1) by (auto split: option.splits)
qed simp

lemma ring_dump:
  assumes "ring n xs q"
  shows "q_DumpBuffer q = Some (newest_of n xs)"
proof -
  have "length (q_Buffer q) = n" "q_head q < n" "drop (q_head q) (q_Buffer q) @ take (q_head q) (q_Buffer q) = newest_of n (replicate n None @ map Some xs)"
    using assms by (simp_all add: ring_def)
  then have "q_DumpBuffer q = Some (map the (filter (\<lambda>x. x \<noteq> None) (newest_of n (replicate n None @ map Some xs))))"
    using dump_turns_ok [of "q_head q" "q_Buffer q" n] newest_of_full [of n "replicate n None @ map Some xs"] by (simp add: q_DumpBuffer_def)
  moreover have "filter (\<lambda>x. x \<noteq> None) (newest_of n (replicate n None @ map Some xs)) = map Some (newest_of n xs)"
    by (simp add: newest_of_def drop_map filter_map o_def)
  ultimately show ?thesis by (simp add: o_def)
qed

section \<open>What the hub shows\<close>

definition log_line :: "BufferLine \<Rightarrow> BufferLog \<Rightarrow> (bool \<times> BufferLog) option" where
  "log_line b = hub_Log (bl_TS b) (bl_Level b) (bl_File b) (bl_Line b) (bl_Msg b)"

fun log_lines :: "BufferLine list \<Rightarrow> BufferLog \<Rightarrow> BufferLog option" where
  "log_lines [] l = Some l"
| "log_lines (b # bs) l = do { (stop, l1) \<leftarrow> log_line b l; if stop then Some l1 else log_lines bs l1 }"

definition last_of :: "nat \<Rightarrow> BufferLine list \<Rightarrow> BufferLine option" where
  "last_of lv bs = (let xs = filter (\<lambda>b. bl_Level b = lv) bs in if xs = [] then None else Some (last xs))"

definition hub_at :: "nat \<Rightarrow> BufferLine list \<Rightarrow> BufferLog \<Rightarrow> bool" where
  "hub_at n bs l \<longleftrightarrow> ring n bs (lg_all l) \<and> ring n (filter (\<lambda>b. WARN \<le> bl_Level b) bs) (lg_warn l) \<and>
     length (lg_Last l) = FATAL + 1 \<and> (\<forall>lv \<le> FATAL. lg_Last l ! lv = last_of lv bs)"

lemma hub_line:
  assumes "hub_at n bs l" "bl_Level b \<le> FATAL"
  shows "\<exists>l'. log_line b l = Some (bl_Level b = FATAL, l') \<and> hub_at n (bs @ [b]) l'"
proof -
  obtain a where a: "q_Add b (lg_all l) = Some a" "ring n (bs @ [b]) a" using ring_add [of n bs "lg_all l" b] assms(1) by (auto simp: hub_at_def)
  obtain w where w: "q_Add b (lg_warn l) = Some w" "ring n (filter (\<lambda>b. WARN \<le> bl_Level b) bs @ [b]) w"
    using ring_add [of n "filter (\<lambda>b. WARN \<le> bl_Level b) bs" "lg_warn l" b] assms(1) by (auto simp: hub_at_def)
  have l: "length (lg_Last l) = FATAL + 1" "\<forall>lv \<le> FATAL. lg_Last l ! lv = last_of lv bs" using assms(1) by (simp_all add: hub_at_def)
  let ?l = "l\<lparr>lg_all := a, lg_warn := if WARN \<le> bl_Level b then w else lg_warn l, lg_Last := (lg_Last l)[bl_Level b := Some b]\<rparr>"
  have "log_line b l = Some (bl_Level b = FATAL, ?l)"
    using a(1) w(1) l(1) assms(2) by (cases b) (simp add: log_line_def hub_Log_def lg_Add_def Let_def)
  moreover have "\<forall>lv \<le> FATAL. lg_Last ?l ! lv = last_of lv (bs @ [b])"
    using l assms(2) by (auto simp: nth_list_update last_of_def Let_def)
  then have "hub_at n (bs @ [b]) ?l" using a(2) w(2) assms(1) l(1) by (simp add: hub_at_def)
  ultimately show ?thesis by blast
qed

lemma log_lines_ok:
  assumes "hub_at n bs l" "\<forall>b \<in> set xs. bl_Level b < FATAL"
  shows "\<exists>l'. log_lines xs l = Some l' \<and> hub_at n (bs @ xs) l'"
  using assms
proof (induction xs arbitrary: bs l)
  case (Cons b xs)
  obtain l1 where "log_line b l = Some (False, l1)" "hub_at n (bs @ [b]) l1" using hub_line [OF Cons.prems(1), of b] Cons.prems(2) by auto
  then show ?case using Cons.IH [of "bs @ [b]" l1] Cons.prems(2) by simp
qed simp

text \<open>C37: the log hub shows the newest lines.  After any lines below fatal were logged to a hub with buffers of \<open>n > 0\<close> places, its buffer holds the last \<open>n\<close>
  lines in the order they were logged, the buffer of warnings the last \<open>n\<close> of the lines of that level or above, and the entry of each level
  the last line of the level; no line makes it panic.\<close>

theorem recent_lines_kept:
  assumes "0 < n" and "\<forall>b \<in> set bs. bl_Level b < FATAL"
  shows "\<exists>l. log_lines bs (InitBuffer n) = Some l \<and> lg_DumpBuffer True l = Some (newest_of n bs) \<and>
    lg_DumpBuffer False l = Some (newest_of n (filter (\<lambda>b. WARN \<le> bl_Level b) bs)) \<and> (\<forall>lv < FATAL. lg_Last l ! lv = last_of lv bs)"
proof -
  have "hub_at n [] (InitBuffer n)" using ring_new [OF assms(1)] by (simp add: hub_at_def InitBuffer_def Let_def last_of_def del: replicate.simps)
  then obtain l where "log_lines bs (InitBuffer n) = Some l" "hub_at n bs l" using log_lines_ok [of n "[]" _ bs] assms(2) by auto
  then show ?thesis using ring_dump [of n bs "lg_all l"] ring_dump [of n _ "lg_warn l"] by (intro exI [of _ l]) (simp add: hub_at_def lg_DumpBuffer_def)
qed

definition sample_line :: "nat \<Rightarrow> BufferLine" where
  "sample_line lv = \<lparr>bl_TS = 0, bl_Level = lv, bl_File = ''bucket.go'', bl_Line = 1, bl_Msg = ''m''\<rparr>"

theorem recent_lines_kept_witness:
  "\<exists>l. log_lines [sample_line 1, sample_line 2, sample_line 3] (InitBuffer 2) = Some l \<and>
     lg_DumpBuffer True l = Some [sample_line 2, sample_line 3] \<and> lg_Last l ! 1 = Some (sample_line 1)"
  using recent_lines_kept [of 2 "[sample_line 1, sample_line 2, sample_line 3]"]
  by (auto simp: sample_line_def newest_of_def last_of_def FATAL_def WARN_def)

end
