(* ===== verification/Spec2Isabelle.thy ===== *)
theory Spec2Isabelle
  imports HTree DataRun HintMerge Restart StoreMap QlzRoundtrip Lifecycle Offline Boot LogHub
begin

text \<open>
  \<^bold>\<open>A verification development for gobeansdb\<close>, a key-value server of the memcache protocol with a Merkle tree
  index (the \<open>htree\<close>), append-only data files and hint files from which the index is rebuilt.

  \<^bold>\<open>The program and its parts.\<close>  A connection (\<open>memcache/server.go\<close>) reads a request, takes a token of the request
  limiter (\<open>token.go\<close>) and has the request processed (\<open>protocol.go\<close>) by a storage client.  The client of the server
  (\<open>gobeansdb/store.go\<close>) calls the store (\<open>store/hstore.go\<close>), which routes a key by its 64-bit hash (\<open>key.go\<close>) to one of
  its buckets (\<open>bucket.go\<close>).  A bucket appends records (\<open>item.go\<close>, compressed by quicklz) to the newest of up to 998 data chunks
  (\<open>data.go\<close>, \<open>datachunk.go\<close>, \<open>datafile.go\<close>, checksums of \<open>crc32.go\<close>), enters the position into the htree (\<open>htree.go\<close>,
  \<open>leaf.go\<close>) and into the hints (\<open>hint.go\<close>, dumped to files of \<open>hintfile.go\<close> and \<open>hintindex.go\<close>, merged by \<open>hintmerge.go\<close>).  Keys with
  equal hashes are kept in the collision table (\<open>collision.go\<close>).  Garbage collection (\<open>gc.go\<close>) rewrites old chunks.
  Memory outside the Go heap is counted by \<open>cmem\<close>.

  \<^bold>\<open>Theories.\<close>
  \<^item> \<open>Prelude\<close>: slices, files as byte lists, little-endian numbers, the option monad, generic lemmas and the collections of facts.
    \<open>Strconv\<close>: what the code uses of \<open>strconv\<close> and \<open>strings\<close>.  \<open>Interfaces\<close>: the contracts the index structures share,
    as locales (\<open>kv_store\<close>, \<open>kv_buffer\<close>), with what a client may conclude from them.
  \<^item> \<open>Config\<close> (\<open>store/config.go\<close>, \<open>config/*.go\<close>, \<open>utils/size.go\<close>), \<open>Key\<close> (\<open>store/key.go\<close>), \<open>Cmem\<close> (\<open>cmem/*.go\<close>), \<open>Item\<close>
    (\<open>store/item.go\<close>, \<open>quicklz/cquicklz.go\<close>): derived parameters, paths and hashes, allocation, records and compression.
    Compression is transparent; the printed hash of a key is parsed back.
  \<^item> \<open>Leaf\<close>, \<open>HTree\<close>: leaves as byte arrays and the tree over them.  Both are interpretations of \<open>kv_store\<close>: the last write
    decides.  The hashes of nodes depend on the contents only, a listing is exact, a dumped tree loads back.
  \<^item> \<open>Crc32\<close>, \<open>DataFile\<close>, \<open>DataChunk\<close>, \<open>DataRun\<close>: the table-driven checksum equals bitwise division; records round-trip, damage is
    rejected, a scan finds the records written; \<open>ds_run\<close> is the data store as a machine in which appends, reads and the
    six parts of a flush interleave: nothing appended is lost, and a flush stops the process only when an append falls between the two reads of \<open>getDiskFileSize\<close>, which takes no lock.
  \<^item> \<open>HintFile\<close>, \<open>HintBuffer\<close>, \<open>HintMgr\<close>, \<open>GoHeap\<close>, \<open>HintMerge\<close>: hint files with their index, buffers, chunks of splits and the manager,
    \<open>container/heap\<close> (locale \<open>min_queue\<close>) and the merge of hint files, which keeps the newest item of every key and finds the collisions.
  \<^item> \<open>HintKeys\<close>: the invariant of the hints for keys with different hashes; every operation returns and keeps it.  \<open>HintLog\<close>: what the splits of a
    chunk hold while its hints are rebuilt from the data, and that a dump of all splits brings every item to a file.  \<open>MergeKeys\<close>: the merge that a garbage collection may make first keeps the invariant of the hints.
  \<^item> \<open>LogSeq\<close>: the records of all chunks as one log; the newest record of every key in it is what the hints know of the key.
  \<^item> \<open>Bucket\<close>: the operations of a bucket with opening and closing.  \<open>BucketRep\<close>: the specification \<open>spec_set\<close> of an update of a versioned map, the
    relation \<open>bkt_rep\<close> between a bucket and the map it represents, and the operations that keep it.
  \<^item> \<open>Gc\<close>: garbage collection of a bucket.  \<open>GcMap\<close>: the invariant of a running collection (where every record is, what each file holds, that the
    writer never passes the reader) and that every step keeps it.
  \<^item> \<open>BucketMap\<close>: \<open>bkt_run\<close> is a bucket driven by writes, reads, flushes, dumps, collections and restarts from its data files; it refines the versioned map,
    for keys with different hashes.  \<open>GcSafe\<close>: a collection, with or without a merge of the hints, keeps the map, and a cancellation at the wrong moment does not.
  \<^item> \<open>Recover\<close>: opening a bucket on data files without hints and trees, as a crash leaves them: the hints built from the records and the tree built from the hints
    represent the map of the flushed records.  \<open>Restart\<close>: what was flushed survives a crash between two steps; a key comes back with the version of its
    record, which \<open>CheckVHash\<close> may have left behind the version in the tree.
  \<^item> \<open>Store\<close>, \<open>StoreMap\<close>: the store of all buckets and the storage client; the client is an interpretation of the locale \<open>storage\<close>
    of \<open>McServer\<close>, so the connection theorem holds of the whole server.
  \<^item> \<open>Token\<close>, \<open>Protocol\<close>, \<open>McServer\<close>: the request limiter as a machine of interleaved connections (never more requests hold a token than there are, a waiting one can
    be served, and those that take no token are not bounded), requests and responses with what is read back of them, and one turn of a connection (reading, then processing and answering) over any store that meets \<open>storage\<close>;
    the map store of \<open>memcache/store.go\<close> meets it too.
  \<^item> \<open>Lifecycle\<close>: the loop of a connection, which ends when its input does, and the server as a step relation (\<open>sv_step\<close>) of the accepting loop, the
    goroutines of the connections and the handler of signals over the map of connections, the counters, the limiter and the store: what the counters count, what a
    shutdown reaches and how a turn ends that is under way then, and two defects (a mutex kept, an entry removed by another connection).
  \<^item> \<open>Offline\<close> (\<open>store/offline.go\<close>): the hint builder that runs without a server, on top of \<open>Recover\<close>.
  \<^item> \<open>Route\<close> (\<open>config/route.go\<close>, \<open>config/zk.go\<close>): route tables from YAML and ZooKeeper.  \<open>LogHub\<close> (\<open>loghub/log.go\<close>, \<open>errorlog.go\<close>): the buffers of recent
    log lines.  \<open>Disk\<close> (\<open>utils/disk.go\<close>): listings of directories and their difference.  \<open>Info\<close>: what the store tells about its buckets, disks and
    collections.  \<open>Web\<close> (\<open>gobeansdb/web.go\<close>): the handlers that act on the store; a reload of the route leaves exactly the buckets of the new table.  \<open>Boot\<close>
    (\<open>gobeansdb/config.go\<close>): the defaults and the configuration files, from which a store is opened that serves the buckets of its route.
  \<^item> \<open>QuickLz\<close> (\<open>quicklz/quicklz.go\<close>): the compressor in Go.  \<open>QlzFormat\<close>: a compressed block as a sequence of literals and references with control words.
    \<open>QlzDecode\<close> (locale \<open>qlz_level\<close>): the decompressor reads any such sequence.  \<open>QlzEncode\<close> (locale \<open>qlz_encoder\<close>): the compressor writes one, within its buffer.
    \<open>QlzRoundtrip\<close>: both levels as interpretations, the round trip, and that this compressor meets the contract the store assumes.

  \<^bold>\<open>How state and effects are modelled.\<close>  A Go struct is a record, and a method a function from the state to the result and the new
  state.  A panic and a call of \<open>logger.Fatalf\<close> are \<open>None\<close>: a panic inside a request, which the server recovers from, ends the model's run of that connection there.  An error value is a constructor of \<open>StoreErr\<close>, \<open>num_err\<close> or \<open>mc_err\<close>.  A
  file is its bytes and writing to it does not fail.  Fixed-width integers are words where they may wrap around, lengths are
  natural numbers.  The clock, freshly allocated bytes and what other goroutines do at the same time are arguments.  Locks make the parts
  they enclose atomic; where the code releases a lock between parts, the parts are separate steps (\<open>ds_run\<close>, the limiter, the server).  A garbage
  collection, an opening and, in \<open>bkt_run\<close>, a flush are one step of a bucket: requests served while they run are not interleaved with them, and a crash inside them is not modelled.

  \<^bold>\<open>Parameters.\<close>  \<open>Env\<close> holds the configuration and the code that is not in the repository or not in Go: the compressor with its
  contract \<open>qlz_ok\<close> (which the compressor in Go is proved to meet), \<open>malloc\<close>, content type detection and the hash of keys (murmur3).  Every contract is shown satisfiable by \<open>toy_env\<close>.
  The theorems on buckets take a set of keys with different hashes; on keys with equal hashes the collector can panic (\<open>hint.go:719\<close>), and what holds of them is in the theorems on hint buffers and merges.

  \<^bold>\<open>Bounds and fuel.\<close>  Loops over a data file (\<open>build_loop\<close>, \<open>gc_records\<close>, \<open>nextValid_loop\<close>) carry fuel of the size of the file: a turn reads at least 256
  bytes.  The loop of a connection gets one clock reading per turn; more of them than the input has bytes are enough.  The loops over chunk numbers run the 998 turns the code runs.  All others recurse on their data or have a termination proof.

  \<^bold>\<open>Not modelled.\<close>  The HTTP server and the pages that only print a value, profiling, the usage of memory by the process, opening and writing log files, and the
  flags and goroutines of \<open>gobeansdb.go\<close> are input and output only; YAML, JSON and the ZooKeeper client are libraries and arguments of the definitions that call them.  The compressor
  in C is a parameter; the one in Go beside it, which only tools and tests call, is modelled.  The history of garbage collections that a bucket keeps for its page is left out.
\<close>

end
